(* ===== verification/Zed_Prelude.thy ===== *)
theory Zed_Prelude
  imports Main "HOL-Library.Word" "HOL-Library.List_Lexorder"
begin

text \<open>
  Shared vocabulary of the development: the machine integers of the Rust code, the
  three-way comparison \<open>std::cmp::Ordering\<close>, and the generic lemmas on lists and words
  that the component theories use.
\<close>

unbundle bit_operations_syntax

section \<open>Machine integers\<close>

type_synonym u8 = "8 word"
type_synonym u16 = "16 word"
type_synonym u32 = "32 word"
type_synonym u64 = "64 word"
type_synonym u128 = "128 word"

text \<open>\<open>saturating_sub\<close> and \<open>saturating_add\<close> of the unsigned integer types.\<close>

definition word_saturating_sub :: "'l::len word \<Rightarrow> 'l word \<Rightarrow> 'l word" where
  "word_saturating_sub a b = (if a < b then 0 else a - b)"

definition word_saturating_add :: "'l::len word \<Rightarrow> 'l word \<Rightarrow> 'l word" where
  "word_saturating_add a b = (if a \<le> a + b then a + b else - 1)"

lemma unat_saturating_sub:
  "unat (word_saturating_sub a b) = unat a - unat b"
  by (auto simp: word_saturating_sub_def word_less_nat_alt unat_sub word_le_nat_alt)

lemma unat_saturating_add:
  fixes a b :: "'l::len word"
  shows "unat (word_saturating_add a b) = min (unat a + unat b) (2 ^ LENGTH('l) - 1)"
proof (cases "unat a + unat b < 2 ^ LENGTH('l)")
  case True
  then have "unat (a + b) = unat a + unat b" by (simp add: unat_word_ariths)
  with True show ?thesis
    by (simp add: word_saturating_add_def word_le_nat_alt)
next
  case False
  have a: "unat a < 2 ^ LENGTH('l)" and b: "unat b < 2 ^ LENGTH('l)"
    by (rule unsigned_less)+
  from False have "(unat a + unat b) mod 2 ^ LENGTH('l) = (unat a + unat b - 2 ^ LENGTH('l)) mod 2 ^ LENGTH('l)"
    by (simp add: le_mod_geq)
  also have "\<dots> = unat a + unat b - 2 ^ LENGTH('l)"
    using a b by (intro mod_less) linarith
  finally have "unat (a + b) = unat a + unat b - 2 ^ LENGTH('l)"
    by (simp only: unat_word_ariths)
  with False b have "unat (a + b) < unat a" by linarith
  then have "\<not> a \<le> a + b" by (simp add: word_le_nat_alt)
  then have "word_saturating_add a b = - 1" by (simp add: word_saturating_add_def)
  moreover have "min (unat a + unat b) (2 ^ LENGTH('l) - 1) = 2 ^ LENGTH('l) - 1"
    using False by linarith
  ultimately show ?thesis by (simp add: unsigned_minus_1_eq_mask mask_eq_exp_minus_1)
qed

lemma word_max_unat: "unat (max a b) = max (unat a) (unat b)"
  by (simp add: max_def word_le_nat_alt)

lemma word_min_unat: "unat (min a b) = min (unat a) (unat b)"
  by (simp add: min_def word_le_nat_alt)

lemma unat_drop_bit: "unat (drop_bit n w) = unat w div 2 ^ n"
  by (simp only: unat_drop_bit_eq drop_bit_eq_div [where ?'a = nat])

lemma unat_max_word: "unat (- 1 :: 'l::len word) = 2 ^ LENGTH('l) - 1"
  by (simp add: unsigned_minus_1_eq_mask mask_eq_exp_minus_1)

text \<open>The cast of a \<open>usize\<close> to \<open>u32\<close>.\<close>

definition as_u32 :: "nat \<Rightarrow> nat" where
  "as_u32 n = n mod 2 ^ 32"

lemma as_u32_small [simp]: "n < 2 ^ 32 \<Longrightarrow> as_u32 n = n"
  by (simp add: as_u32_def)

section \<open>Comparison\<close>

datatype ordering = Less | Equal | Greater

definition cmp :: "'a::linorder \<Rightarrow> 'a \<Rightarrow> ordering" where
  "cmp a b = (if a < b then Less else if a = b then Equal else Greater)"

text \<open>\<open>Ordering::then_with\<close>.\<close>

fun ordering_then :: "ordering \<Rightarrow> ordering \<Rightarrow> ordering" where
  "ordering_then Equal o2 = o2"
| "ordering_then o1 _ = o1"

lemma cmp_eq_simps [simp]:
  "cmp a b = Less \<longleftrightarrow> a < b"
  "cmp a b = Equal \<longleftrightarrow> a = b"
  "cmp a b = Greater \<longleftrightarrow> b < a"
  by (auto simp: cmp_def)

section \<open>Vectors\<close>

text \<open>\<open>Vec::resize(new_len, 0)\<close>: truncate or extend with a filler.\<close>

definition vec_resize :: "nat \<Rightarrow> 'a \<Rightarrow> 'a list \<Rightarrow> 'a list" where
  "vec_resize n x xs = take n xs @ replicate (n - length xs) x"

lemma length_vec_resize [simp]: "length (vec_resize n x xs) = n"
  by (simp add: vec_resize_def)

lemma nth_vec_resize:
  "i < n \<Longrightarrow> vec_resize n x xs ! i = (if i < length xs then xs ! i else x)"
  by (auto simp: vec_resize_def nth_append)

text \<open>\<open>slice.get(i).copied().unwrap_or(d)\<close>.\<close>

definition get_or :: "'a \<Rightarrow> 'a list \<Rightarrow> nat \<Rightarrow> 'a" where
  "get_or d xs i = (if i < length xs then xs ! i else d)"

lemma get_or_Nil [simp]: "get_or d [] i = d"
  by (simp add: get_or_def)

lemma get_or_nth: "i < length xs \<Longrightarrow> get_or d xs i = xs ! i"
  by (simp add: get_or_def)

lemma get_or_beyond: "length xs \<le> i \<Longrightarrow> get_or d xs i = d"
  by (simp add: get_or_def)

text \<open>In a sorted list, a downward closed predicate holds on a prefix.\<close>

lemma takeWhile_filter:
  "sorted_wrt R xs \<Longrightarrow> (\<And>x y. R x y \<Longrightarrow> P y \<Longrightarrow> P x) \<Longrightarrow> takeWhile P xs = filter P xs"
proof (induction xs)
  case (Cons x xs)
  have "filter P xs = []" if "\<not> P x"
    using Cons.prems that by (auto simp: filter_empty_conv)
  with Cons show ?case by auto
qed simp

lemma dropWhile_filter:
  "sorted_wrt R xs \<Longrightarrow> (\<And>x y. R x y \<Longrightarrow> P y \<Longrightarrow> P x) \<Longrightarrow> dropWhile P xs = filter (\<lambda>x. \<not> P x) xs"
proof (induction xs)
  case (Cons x xs)
  then show ?case by (cases "P x") (auto simp: filter_id_conv intro!: filter_True [symmetric])
qed simp

text \<open>Several existential witnesses at once.\<close>

lemma ex4I: "P a b c d \<Longrightarrow> \<exists>a b c d. P a b c d" by blast

lemma ex5I: "P a b c d e \<Longrightarrow> \<exists>a b c d e. P a b c d e" by blast

end
