(* ===== verification/Zed_Clock.thy ===== *)
theory Zed_Clock
  imports Zed_Prelude
begin

text \<open>
  The logical clocks of \<open>crates/clock/src/clock.rs\<close>: replica ids, Lamport timestamps and
  version vectors (\<open>Global\<close>).  A version vector is the list of sequence numbers indexed by
  replica id, with the lengths the Rust vector has (a missing tail means 0), so the
  operations that look at the length of the vector are modelled as they are written.
\<close>

section \<open>Replica ids\<close>

type_synonym replica_id = u16
type_synonym seq = u32

definition LOCAL :: replica_id where "LOCAL = 0"
definition REMOTE_SERVER :: replica_id where "REMOTE_SERVER = 1"
definition AGENT :: replica_id where "AGENT = 2"
definition LOCAL_BRANCH :: replica_id where "LOCAL_BRANCH = 3"
definition FIRST_COLLAB_ID :: replica_id where "FIRST_COLLAB_ID = 8"

definition is_remote :: "replica_id \<Rightarrow> bool" where
  "is_remote r \<longleftrightarrow> r = REMOTE_SERVER \<or> FIRST_COLLAB_ID \<le> r"

section \<open>Lamport timestamps\<close>

datatype lamport = Lamport (lam_value: seq) (lam_replica: replica_id)

text \<open>\<open>Ord for Lamport\<close>: by value, ties broken by the replica id.\<close>

definition lamport_cmp :: "lamport \<Rightarrow> lamport \<Rightarrow> ordering" where
  "lamport_cmp a b =
     ordering_then (cmp (lam_value a) (lam_value b)) (cmp (lam_replica a) (lam_replica b))"

instantiation lamport :: linorder
begin

definition less_lamport :: "lamport \<Rightarrow> lamport \<Rightarrow> bool" where
  "less_lamport a b \<longleftrightarrow> lamport_cmp a b = Less"

definition less_eq_lamport :: "lamport \<Rightarrow> lamport \<Rightarrow> bool" where
  "less_eq_lamport a b \<longleftrightarrow> lamport_cmp a b \<noteq> Greater"

instance
proof
  fix a b c :: lamport
  show "(a < b) = (a \<le> b \<and> \<not> b \<le> a)"
    by (cases a; cases b)
      (auto simp: less_lamport_def less_eq_lamport_def lamport_cmp_def cmp_def)
  show "a \<le> a"
    by (cases a) (auto simp: less_eq_lamport_def lamport_cmp_def cmp_def)
  show "a \<le> b \<Longrightarrow> b \<le> c \<Longrightarrow> a \<le> c"
    by (cases a; cases b; cases c)
      (auto simp: less_eq_lamport_def lamport_cmp_def cmp_def split: if_splits)
  show "a \<le> b \<Longrightarrow> b \<le> a \<Longrightarrow> a = b"
    by (cases a; cases b)
      (auto simp: less_eq_lamport_def lamport_cmp_def cmp_def split: if_splits)
  show "a \<le> b \<or> b \<le> a"
    by (cases a; cases b) (auto simp: less_eq_lamport_def lamport_cmp_def cmp_def)
qed

end

lemma less_lamport_iff:
  "a < b \<longleftrightarrow> lam_value a < lam_value b \<or>
     lam_value a = lam_value b \<and> lam_replica a < lam_replica b"
  by (auto simp: less_lamport_def lamport_cmp_def cmp_def)

definition LAMPORT_MIN :: lamport where "LAMPORT_MIN = Lamport 0 0"
definition LAMPORT_MAX :: lamport where "LAMPORT_MAX = Lamport (- 1) (- 1)"

definition lamport_new :: "replica_id \<Rightarrow> lamport" where
  "lamport_new r = Lamport 1 r"

definition as_u64 :: "lamport \<Rightarrow> u64" where
  "as_u64 t = push_bit 32 (ucast (lam_value t)) OR ucast (lam_replica t)"

text \<open>\<open>tick\<close> returns the timestamp and the advanced clock; \<open>+= 1\<close> wraps in release builds.\<close>

definition lamport_tick :: "lamport \<Rightarrow> lamport \<times> lamport" where
  "lamport_tick c = (c, Lamport (lam_value c + 1) (lam_replica c))"

definition lamport_observe :: "lamport \<Rightarrow> lamport \<Rightarrow> lamport" where
  "lamport_observe c t = Lamport (max (lam_value c) (lam_value t) + 1) (lam_replica c)"

lemma LAMPORT_MIN_least: "LAMPORT_MIN \<le> t"
  by (cases t) (auto simp: LAMPORT_MIN_def not_less [symmetric] less_lamport_iff)

lemma LAMPORT_MAX_greatest: "t \<le> LAMPORT_MAX"
  by (cases t) (auto simp: LAMPORT_MAX_def not_less [symmetric] less_lamport_iff word_order.extremum_strict)

section \<open>Version vectors\<close>

type_synonym vclock = "seq list"

definition vclock_new :: vclock where "vclock_new = []"

definition vclock_get :: "vclock \<Rightarrow> replica_id \<Rightarrow> seq" where
  "vclock_get g r = get_or 0 g (unat r)"

definition vclock_observe :: "vclock \<Rightarrow> lamport \<Rightarrow> vclock" where
  "vclock_observe g t =
     (if 0 < lam_value t then
        let i = unat (lam_replica t);
            g' = (if length g < Suc i then vec_resize (Suc i) 0 g else g)
        in g'[i := max (g' ! i) (lam_value t)]
      else g)"

definition vclock_join :: "vclock \<Rightarrow> vclock \<Rightarrow> vclock" where
  "vclock_join g other =
     (let g' = (if length g < length other then vec_resize (length other) 0 g else g)
      in map (\<lambda>(l, r). max l r) (zip g' other) @ drop (length other) g')"

text \<open>The \<open>match (*left, right)\<close> of \<open>meet\<close>.\<close>

definition meet_seq :: "seq \<Rightarrow> seq \<Rightarrow> seq" where
  "meet_seq l r = (if l = 0 then r else if r = 0 then l else min l r)"

text \<open>\<open>new_len\<close> after the loop: one past the last non-zero entry of the zipped part.\<close>

fun meet_loop :: "nat \<Rightarrow> nat \<Rightarrow> (seq \<times> seq) list \<Rightarrow> seq list \<times> nat" where
  "meet_loop ix new_len [] = ([], new_len)"
| "meet_loop ix new_len ((l, r) # rest) =
     (let v = meet_seq l r;
          (vs, n) = meet_loop (Suc ix) (if v \<noteq> 0 then Suc ix else new_len) rest
      in (v # vs, n))"

definition vclock_meet :: "vclock \<Rightarrow> vclock \<Rightarrow> vclock" where
  "vclock_meet g other =
     (let g' = (if length g < length other then vec_resize (length other) 0 g else g);
          (vs, new_len) = meet_loop 0 0 (zip g' other);
          g'' = vs @ drop (length other) g'
      in if length other = length g'' then take new_len g'' else g'')"

definition vclock_observed :: "vclock \<Rightarrow> lamport \<Rightarrow> bool" where
  "vclock_observed g t \<longleftrightarrow> lam_value t \<le> vclock_get g (lam_replica t)"

definition vclock_observed_any :: "vclock \<Rightarrow> vclock \<Rightarrow> bool" where
  "vclock_observed_any g other \<longleftrightarrow> list_ex (\<lambda>(l, r). 0 < r \<and> r \<le> l) (zip g other)"

definition vclock_observed_all :: "vclock \<Rightarrow> vclock \<Rightarrow> bool" where
  "vclock_observed_all g other \<longleftrightarrow>
     (if length g < length other then False else list_all (\<lambda>(l, r). r \<le> l) (zip g other))"

definition vclock_changed_since :: "vclock \<Rightarrow> vclock \<Rightarrow> bool" where
  "vclock_changed_since g other \<longleftrightarrow>
     length other < length g \<or> list_ex (\<lambda>(l, r). r < l) (zip g other)"

definition vclock_iter :: "vclock \<Rightarrow> lamport list" where
  "vclock_iter g = map (\<lambda>(i, v). Lamport v (word_of_nat i)) (enumerate 0 g)"

text \<open>\<open>max_by_key\<close> keeps the last of several maxima.\<close>

fun max_by_key :: "('a \<Rightarrow> 'k::linorder) \<Rightarrow> 'a list \<Rightarrow> 'a option" where
  "max_by_key f [] = None"
| "max_by_key f (x # xs) =
     (case max_by_key f xs of
        None \<Rightarrow> Some x
      | Some y \<Rightarrow> if f x \<le> f y then Some y else Some x)"

definition vclock_most_recent :: "vclock \<Rightarrow> lamport option" where
  "vclock_most_recent g = max_by_key lam_value (vclock_iter g)"

definition vclock_from_iter :: "lamport list \<Rightarrow> vclock" where
  "vclock_from_iter ts = fold (\<lambda>t g. vclock_observe g t) ts vclock_new"

section \<open>Correctness of the Lamport clock\<close>

lemma as_u64_nat:
  "unat (as_u64 t) = unat (lam_value t) * 2 ^ 32 + unat (lam_replica t)"
proof -
  let ?v = "unat (lam_value t)" and ?r = "unat (lam_replica t)"
  have v: "?v < 2 ^ 32" and r: "?r < 2 ^ 16"
    using unsigned_less [where ?'a = nat, of "lam_value t"] unsigned_less [where ?'a = nat, of "lam_replica t"]
    by simp_all
  have "push_bit 32 ?v AND ?r = 0"
    by (rule bit_eqI) (auto simp: bit_simps dest: bit_imp_le_length)
  then have disj: "push_bit 32 ?v OR ?r = push_bit 32 ?v + ?r"
    by (rule disjunctive_add_eq_or [symmetric])
  have "push_bit 32 ?v < 2 ^ 64" using v by (simp add: push_bit_eq_mult)
  then have "take_bit 64 (push_bit 32 ?v) = push_bit 32 ?v"
    by (simp only: take_bit_nat_eq_self)
  moreover have "unat (ucast (lam_value t) :: u64) = ?v" "unat (ucast (lam_replica t) :: u64) = ?r"
    using v r by (simp_all add: unsigned_ucast_eq take_bit_nat_eq_self)
  ultimately have "unat (as_u64 t) = push_bit 32 ?v OR ?r"
    by (simp only: as_u64_def unsigned_or_eq unsigned_push_bit_eq) simp
  with disj show ?thesis by (simp add: push_bit_eq_mult)
qed

lemma lamport_less_nat:
  "a < b \<longleftrightarrow> unat (lam_value a) < unat (lam_value b) \<or>
     unat (lam_value a) = unat (lam_value b) \<and> unat (lam_replica a) < unat (lam_replica b)"
  by (auto simp: less_lamport_iff word_less_nat_alt word_unat_eq_iff)

lemma as_u64_less_iff: "as_u64 a < as_u64 b \<longleftrightarrow> a < b"
proof -
  have "unat (lam_replica a) < 2 ^ 16" "unat (lam_replica b) < 2 ^ 16"
    using unsigned_less [where ?'a = nat, of "lam_replica a"] unsigned_less [where ?'a = nat, of "lam_replica b"]
    by simp_all
  then show ?thesis
    unfolding word_less_nat_alt as_u64_nat lamport_less_nat by (simp add: word_eq_iff_unsigned) arith
qed

lemma unat_Suc_word:
  fixes v :: "'l::len word"
  assumes "v < - 1"
  shows "unat (v + 1) = Suc (unat v)"
  using assms by (metis Suc_eq_plus1 unatSuc unsigned_1 add.commute word_neq_0_conv less_irrefl
      add.inverse_inverse eq_neg_iff_add_eq_0)

lemma lamport_observe_greater:
  assumes "lam_value c < - 1" "lam_value t < - 1"
  shows "t < lamport_observe c t \<and> c < lamport_observe c t"
proof -
  have "max (lam_value c) (lam_value t) < - 1" using assms by simp
  then have "unat (max (lam_value c) (lam_value t) + 1) = Suc (unat (max (lam_value c) (lam_value t)))"
    by (rule unat_Suc_word)
  then show ?thesis
    by (auto simp: lamport_less_nat lamport_observe_def word_max_unat)
qed

lemma lamport_tick_greater:
  assumes "lam_value c < - 1"
  shows "fst (lamport_tick c) < snd (lamport_tick c)"
  using unat_Suc_word [OF assms] by (simp add: lamport_less_nat lamport_tick_def)

section \<open>Correctness of version vectors\<close>

text \<open>Every vector the buffer builds has no trailing zero and an entry per replica id at most.\<close>

definition vclock_wf :: "vclock \<Rightarrow> bool" where
  "vclock_wf g \<longleftrightarrow> (g = [] \<or> last g \<noteq> 0) \<and> length g \<le> 2 ^ 16"

abbreviation at :: "vclock \<Rightarrow> nat \<Rightarrow> seq" where
  "at g i \<equiv> get_or 0 g i"

lemma vclock_get_at: "vclock_get g r = at g (unat r)"
  by (simp add: vclock_get_def)

lemma replica_lt: "unat (r :: replica_id) < 65536"
  using unsigned_less [where ?'a = nat, of r] by simp

lemma all_replicas_iff:
  assumes "length g \<le> 2 ^ 16" "length h \<le> 2 ^ 16" "\<And>i. P (0 :: seq) (0 :: seq) i"
  shows "(\<forall>r. P (vclock_get g r) (vclock_get h r) (unat r)) \<longleftrightarrow> (\<forall>i. P (at g i) (at h i) i)"
proof
  assume *: "\<forall>r. P (vclock_get g r) (vclock_get h r) (unat r)"
  show "\<forall>i. P (at g i) (at h i) i"
  proof
    fix i
    show "P (at g i) (at h i) i"
    proof (cases "i < 65536")
      case True
      then have "unat (word_of_nat i :: replica_id) = i" by (simp add: unat_of_nat)
      with * [rule_format, of "word_of_nat i"] show ?thesis by (simp add: vclock_get_at)
    next
      case False
      with assms show ?thesis by (simp add: get_or_beyond)
    qed
  qed
qed (simp add: vclock_get_at)

lemma vclock_wf_last: "vclock_wf g \<Longrightarrow> g \<noteq> [] \<Longrightarrow> at g (length g - 1) \<noteq> 0"
  by (auto simp: vclock_wf_def get_or_def last_conv_nth)

lemma vclock_wf_ext_at:
  assumes "vclock_wf g" "vclock_wf h" "\<And>i. at g i = at h i"
  shows "g = h"
proof -
  have le: "length a \<le> length b" if "vclock_wf a" "\<And>i. at a i = at b i" for a b
  proof (rule ccontr)
    assume "\<not> length a \<le> length b"
    then have "a \<noteq> []" "length b \<le> length a - 1" by auto
    then have "at b (length a - 1) = 0" "at a (length a - 1) \<noteq> 0"
      using that(1) vclock_wf_last by (auto simp: get_or_beyond)
    with that(2) show False by simp
  qed
  from le [OF assms(1), of h] le [OF assms(2), of g] assms(3) have len: "length g = length h"
    by simp
  show ?thesis
  proof (rule nth_equalityI [OF len])
    fix i assume "i < length g"
    then show "g ! i = h ! i" using assms(3) [of i] len by (simp add: get_or_nth)
  qed
qed

subsection \<open>\<open>observe\<close>\<close>

lemma at_vec_resize: "length g \<le> n \<Longrightarrow> at (vec_resize n 0 g) i = at g i"
  by (auto simp: get_or_def nth_vec_resize)

lemma at_list_update: "j < length g \<Longrightarrow> at (g[j := v]) i = (if i = j then v else at g i)"
  by (auto simp: get_or_def)

lemma at_observe:
  "at (vclock_observe g t) i =
     (if i = unat (lam_replica t) then max (at g i) (lam_value t) else at g i)"
proof (cases "0 < lam_value t")
  case True
  let ?n = "unat (lam_replica t)"
  let ?g = "if length g < Suc ?n then vec_resize (Suc ?n) 0 g else g"
  have at: "at ?g j = at g j" for j by (simp add: at_vec_resize)
  have n: "?n < length ?g" by simp
  then have "vclock_observe g t = ?g[?n := max (at ?g ?n) (lam_value t)]"
    using True by (simp add: vclock_observe_def Let_def get_or_nth)
  then show ?thesis using at n by (simp only: at_list_update) simp
qed (simp add: vclock_observe_def max_def word_gt_0)

lemma vclock_get_observe:
  "vclock_get (vclock_observe g t) r =
     (if r = lam_replica t then max (vclock_get g r) (lam_value t) else vclock_get g r)"
  by (auto simp: vclock_get_at at_observe unsigned_word_eqI)

lemma observed_observe:
  "vclock_observed (vclock_observe g t) u \<longleftrightarrow>
     vclock_observed g u \<or> lam_replica u = lam_replica t \<and> lam_value u \<le> lam_value t"
  by (auto simp: vclock_observed_def vclock_get_observe le_max_iff_disj)

lemma vclock_wf_observe:
  assumes "vclock_wf g"
  shows "vclock_wf (vclock_observe g t)"
proof (cases "0 < lam_value t")
  case True
  let ?n = "unat (lam_replica t)" and ?h = "vclock_observe g t"
  have len: "length ?h = max (length g) (Suc ?n)"
    using True by (simp add: vclock_observe_def Let_def)
  have "at ?h (length ?h - 1) \<noteq> 0"
  proof (cases "length g \<le> Suc ?n")
    case le: True
    then have "length ?h - 1 = ?n" using len by simp
    then show ?thesis using True by (auto simp: at_observe word_gt_0 max_def word_le_0_iff)
  next
    case False
    then have "g \<noteq> []" "length ?h - 1 = length g - 1" "length g - 1 \<noteq> ?n" using len by auto
    then show ?thesis using vclock_wf_last [OF assms] by (simp add: at_observe)
  qed
  moreover have "?h \<noteq> []" using len by auto
  ultimately show ?thesis
    using assms len replica_lt [of "lam_replica t"]
    by (auto simp: vclock_wf_def last_conv_nth get_or_def)
qed (use assms in \<open>simp add: vclock_observe_def\<close>)

subsection \<open>\<open>join\<close>\<close>

lemma at_map2_zip:
  assumes "length h \<le> length g" "f (at g i) 0 = at g i"
  shows "at (map (\<lambda>(l, r). f l r) (zip g h) @ drop (length h) g) i = f (at g i) (at h i)"
  using assms by (auto simp: get_or_def nth_append)

lemma at_join: "at (vclock_join g h) i = max (at g i) (at h i)"
proof -
  let ?g = "if length g < length h then vec_resize (length h) 0 g else g"
  have "at ?g i = at g i" by (simp add: at_vec_resize)
  moreover have "length h \<le> length ?g" by simp
  ultimately show ?thesis
    using at_map2_zip [of h ?g max i] by (simp add: vclock_join_def Let_def max_def)
qed

lemma length_join: "length (vclock_join g h) = max (length g) (length h)"
  by (auto simp: vclock_join_def Let_def)

lemma vclock_wfI:
  assumes "length g \<le> 2 ^ 16" "g \<noteq> [] \<Longrightarrow> at g (length g - 1) \<noteq> 0"
  shows "vclock_wf g"
  using assms by (auto simp: vclock_wf_def last_conv_nth get_or_def)

lemma max_neq_0: "a \<noteq> 0 \<or> b \<noteq> 0 \<Longrightarrow> max a b \<noteq> (0 :: 'l::len word)"
  by (auto simp: max_def)

lemma vclock_wf_join:
  assumes "vclock_wf g" "vclock_wf h"
  shows "vclock_wf (vclock_join g h)"
proof (rule vclock_wfI)
  show "length (vclock_join g h) \<le> 2 ^ 16"
    using assms by (simp add: length_join vclock_wf_def)
  assume ne: "vclock_join g h \<noteq> []"
  let ?i = "max (length g) (length h) - 1"
  have "at g ?i \<noteq> 0 \<or> at h ?i \<noteq> 0"
  proof (cases "length h \<le> length g")
    case True
    moreover from this ne have "g \<noteq> []" by (metis length_0_conv length_join le_zero_eq max.absorb1)
    ultimately show ?thesis using vclock_wf_last [OF assms(1)] by (simp add: max.absorb1)
  next
    case False
    moreover from this have "h \<noteq> []" by auto
    ultimately show ?thesis using vclock_wf_last [OF assms(2)] by (simp add: max.absorb2)
  qed
  then show "at (vclock_join g h) (length (vclock_join g h) - 1) \<noteq> 0"
    unfolding length_join at_join by (rule max_neq_0)
qed

subsection \<open>\<open>meet\<close>\<close>

lemma meet_loop_fst: "fst (meet_loop ix n ps) = map (\<lambda>(l, r). meet_seq l r) ps"
  by (induction ps arbitrary: ix n) (auto simp: Let_def split_beta)

text \<open>The loop's \<open>new_len\<close> cuts exactly the trailing zeros.\<close>

lemma meet_loop_snd:
  "snd (meet_loop ix n ps) =
     (let vs = map (\<lambda>(l, r). meet_seq l r) ps
      in if \<exists>v \<in> set vs. v \<noteq> 0 then ix + length (dropWhile (\<lambda>v. v = 0) (rev vs)) else n)"
proof (induction ps arbitrary: ix n)
  case (Cons p ps)
  obtain l r where p: "p = (l, r)" by (cases p)
  let ?vs = "map (\<lambda>(l, r). meet_seq l r) ps" and ?v = "meet_seq l r"
  have eq: "snd (meet_loop ix n (p # ps)) = snd (meet_loop (Suc ix) (if ?v \<noteq> 0 then Suc ix else n) ps)"
    by (simp add: p Let_def split_beta)
  show ?case
  proof (cases "\<exists>v \<in> set ?vs. v \<noteq> 0")
    case True
    then obtain v where "v \<in> set (rev ?vs)" "\<not> v = 0" by auto
    then have "dropWhile (\<lambda>v. v = 0) (rev ?vs @ [?v]) = dropWhile (\<lambda>v. v = 0) (rev ?vs) @ [?v]"
      by (rule dropWhile_append1)
    with True show ?thesis unfolding eq Cons.IH by (simp add: p Let_def)
  next
    case False
    then have "dropWhile (\<lambda>v. v = 0) (rev ?vs @ [?v]) = dropWhile (\<lambda>v. v = 0) [?v]"
      by (intro dropWhile_append2) auto
    with False show ?thesis unfolding eq Cons.IH by (auto simp: p Let_def)
  qed
qed simp

lemma at_strip_zeros: "at (take (length (dropWhile (\<lambda>v. v = 0) (rev vs))) vs) i = at vs i"
proof (induction vs rule: rev_induct)
  case (snoc v vs)
  show ?case
  proof (cases "v = 0")
    case True
    have "length (dropWhile (\<lambda>v. v = 0) (rev vs)) \<le> length vs"
      by (metis length_dropWhile_le length_rev)
    then have "take (length (dropWhile (\<lambda>v. v = 0) (rev (vs @ [v])))) (vs @ [v]) =
        take (length (dropWhile (\<lambda>v. v = 0) (rev vs))) vs"
      using True by simp
    with snoc True show ?thesis by (auto simp: get_or_def nth_append split: if_splits)
  qed simp
qed simp

lemma at_meet: "at (vclock_meet g h) i = meet_seq (at g i) (at h i)"
proof -
  let ?g = "if length g < length h then vec_resize (length h) 0 g else g"
  let ?vs = "map (\<lambda>(l, r). meet_seq l r) (zip ?g h)"
  have g: "at ?g i = at g i" "length h \<le> length ?g" by (simp_all add: at_vec_resize)
  have vs: "at (?vs @ drop (length h) ?g) i = meet_seq (at g i) (at h i)"
    using at_map2_zip [OF g(2), of meet_seq i] g(1) by (simp add: meet_seq_def)
  obtain n where loop: "meet_loop 0 0 (zip ?g h) = (?vs, n)"
    by (metis meet_loop_fst prod.collapse)
  have meet: "vclock_meet g h = (if length h = length ?g then take n ?vs else ?vs @ drop (length h) ?g)"
    using g(2) by (auto simp: vclock_meet_def Let_def loop)
  show ?thesis
  proof (cases "length h = length ?g")
    case True
    have n: "n = (if \<exists>v \<in> set ?vs. v \<noteq> 0 then length (dropWhile (\<lambda>v. v = 0) (rev ?vs)) else 0)"
      using meet_loop_snd [of 0 0 "zip ?g h"] loop by (simp add: Let_def)
    have "n = length (dropWhile (\<lambda>v. v = 0) (rev ?vs))"
      unfolding n by (auto simp: dropWhile_eq_Nil_conv)
    with at_strip_zeros [of ?vs i] vs meet True show ?thesis by simp
  qed (use vs meet in simp)
qed

subsection \<open>Comparison\<close>

lemma vclock_observed_all_iff:
  assumes "vclock_wf h"
  shows "vclock_observed_all g h \<longleftrightarrow> (\<forall>i. at h i \<le> at g i)"
proof
  assume "vclock_observed_all g h"
  then have "length h \<le> length g" "\<forall>i < length h. h ! i \<le> g ! i"
    by (auto simp: vclock_observed_all_def list_all_length split: if_splits)
  then show "\<forall>i. at h i \<le> at g i" by (auto simp: get_or_def)
next
  assume le: "\<forall>i. at h i \<le> at g i"
  have len: "length h \<le> length g"
  proof (rule ccontr)
    assume "\<not> length h \<le> length g"
    then have "h \<noteq> []" "at g (length h - 1) = 0" by (auto simp: get_or_beyond)
    with vclock_wf_last [OF assms] le show False by (metis word_le_0_iff)
  qed
  moreover have "h ! i \<le> g ! i" if "i < length h" for i
    using le [rule_format, of i] that len by (simp add: get_or_def)
  ultimately show "vclock_observed_all g h"
    by (auto simp: vclock_observed_all_def list_all_length)
qed

lemma vclock_changed_since_iff:
  assumes "vclock_wf g"
  shows "vclock_changed_since g h \<longleftrightarrow> \<not> vclock_observed_all h g"
proof -
  have "list_ex (\<lambda>(l, r). r < l) (zip g h) \<longleftrightarrow> \<not> list_all (\<lambda>(l, r). r \<le> l) (zip h g)"
    by (auto simp: list_ex_length list_all_length not_le)
  then show ?thesis by (auto simp: vclock_changed_since_def vclock_observed_all_def)
qed

lemma at_from_iter_ge:
  "v \<le> at (fold (\<lambda>t g. vclock_observe g t) ts g) i \<longleftrightarrow>
     v \<le> at g i \<or> (\<exists>t \<in> set ts. unat (lam_replica t) = i \<and> v \<le> lam_value t)"
  by (induction ts arbitrary: g) (auto simp: at_observe le_max_iff_disj)

lemma vclock_wf_from_iter: "vclock_wf (vclock_from_iter ts)"
proof -
  have "vclock_wf (fold (\<lambda>t g. vclock_observe g t) ts g)" if "vclock_wf g" for g
    using that by (induction ts arbitrary: g) (simp_all add: vclock_wf_observe)
  then show ?thesis by (simp add: vclock_from_iter_def vclock_new_def vclock_wf_def)
qed

section \<open>Well-formed vectors as a type\<close>

text \<open>Every vector the code builds is well-formed; the summaries of fragments use vectors of this type,
  for which joining and meeting obey their laws as equations.\<close>

lemma take_dropWhile_rev: "take (length (dropWhile P (rev xs))) xs = rev (dropWhile P (rev xs))"
  by (induction xs rule: rev_induct) (auto, metis length_dropWhile_le length_rev take_append diff_is_0_eq' append_Nil2 take0)

lemma vclock_wf_meet:
  assumes "vclock_wf g" "vclock_wf h"
  shows "vclock_wf (vclock_meet g h)"
proof -
  let ?g = "if length g < length h then vec_resize (length h) 0 g else g"
  let ?vs = "map (\<lambda>(l, r). meet_seq l r) (zip ?g h)"
  obtain n where loop: "meet_loop 0 0 (zip ?g h) = (?vs, n)" by (metis meet_loop_fst prod.collapse)
  have meet: "vclock_meet g h = (if length h = length ?g then take n ?vs else ?vs @ drop (length h) ?g)"
    by (auto simp: vclock_meet_def Let_def loop)
  have len: "length ?vs \<le> 2 ^ 16" using assms by (auto simp: vclock_wf_def)
  show ?thesis
  proof (cases "length h = length ?g")
    case True
    have n: "n = (if \<exists>v \<in> set ?vs. v \<noteq> 0 then length (dropWhile (\<lambda>v. v = 0) (rev ?vs)) else 0)"
      using meet_loop_snd [of 0 0 "zip ?g h"] loop by (simp add: Let_def)
    have "n = length (dropWhile (\<lambda>v. v = 0) (rev ?vs))" unfolding n by (auto simp: dropWhile_eq_Nil_conv)
    then have eq: "vclock_meet g h = rev (dropWhile (\<lambda>v. v = 0) (rev ?vs))"
      using meet True take_dropWhile_rev [of "\<lambda>v. v = 0" ?vs] by simp
    have "length (vclock_meet g h) \<le> length ?vs" using meet True by simp
    moreover have "last (vclock_meet g h) \<noteq> 0" if "vclock_meet g h \<noteq> []"
      using that hd_dropWhile [of "\<lambda>v. v = 0" "rev ?vs"] unfolding eq by (simp add: last_rev)
    ultimately show ?thesis using len by (auto simp: vclock_wf_def)
  next
    case False
    then have "length h < length g" by (auto split: if_splits)
    then show ?thesis using assms(1) meet False by (auto simp: vclock_wf_def)
  qed
qed

typedef version = "{g :: vclock. vclock_wf g}" morphisms version_values Version
  by (rule exI [of _ "[]"]) (simp add: vclock_wf_def)

setup_lifting type_definition_version

lift_definition version_new :: version is "vclock_new"
  by (simp add: vclock_new_def vclock_wf_def)

lift_definition version_observe :: "version \<Rightarrow> lamport \<Rightarrow> version" is vclock_observe
  by (rule vclock_wf_observe)

lift_definition version_join :: "version \<Rightarrow> version \<Rightarrow> version" is vclock_join
  by (rule vclock_wf_join)

lift_definition version_meet :: "version \<Rightarrow> version \<Rightarrow> version" is vclock_meet
  by (rule vclock_wf_meet)

lemma version_laws:
  "version_join version_new v = v" "version_join (version_join u v) w = version_join u (version_join v w)"
  "version_meet version_new v = v" "version_meet (version_meet u v) w = version_meet u (version_meet v w)"
proof -
  have new: "vclock_wf vclock_new" "at vclock_new i = 0" for i by (simp_all add: vclock_new_def vclock_wf_def)
  note wf = vclock_wf_join vclock_wf_meet new
  show "version_join version_new v = v"
    by (transfer, rule vclock_wf_ext_at) (simp_all add: wf at_join)
  show "version_join (version_join u v) w = version_join u (version_join v w)"
    by (transfer, rule vclock_wf_ext_at) (simp_all add: wf at_join max.assoc)
  show "version_meet version_new v = v"
    by (transfer, rule vclock_wf_ext_at) (simp_all add: wf at_meet meet_seq_def)
  show "version_meet (version_meet u v) w = version_meet u (version_meet v w)"
    by (transfer, rule vclock_wf_ext_at) (auto simp: wf at_meet meet_seq_def min_def)
qed

section \<open>Properties\<close>

text \<open>Packing a Lamport timestamp into a \<open>u64\<close> (\<open>Lamport::as_u64\<close>) is an order
  embedding: comparing the packed numbers is comparing the timestamps, value first and
  replica id second.\<close>

theorem lamport_as_u64_order:
  "(as_u64 a < as_u64 b \<longleftrightarrow> a < b) \<and> (as_u64 a = as_u64 b \<longleftrightarrow> a = b)"
  using as_u64_less_iff [of a b] as_u64_less_iff [of b a] by (metis linorder_neq_iff)

text \<open>A replica that has observed a timestamp issues only greater ones: the clock after
  \<open>Lamport::observe\<close> exceeds both its old value and the observed timestamp, and each
  \<open>tick\<close> hands out a timestamp below the clock it leaves behind.  The \<open>u32\<close> counter must
  not be at its last value, where \<open>+= 1\<close> would wrap.\<close>

theorem lamport_clock_advances:
  assumes "lam_value c < - 2" "lam_value t < - 2"
  shows "t < fst (lamport_tick (lamport_observe c t)) \<and>
    c < fst (lamport_tick (lamport_observe c t)) \<and>
    fst (lamport_tick (lamport_observe c t)) < snd (lamport_tick (lamport_observe c t))"
proof -
  have lt: "v < - 1" if "v < - 2" for v :: seq
    using that by (rule less_trans) simp
  from assms have obs: "t < lamport_observe c t \<and> c < lamport_observe c t"
    by (intro lamport_observe_greater) (auto intro: lt)
  have "max (lam_value c) (lam_value t) < - 2" using assms by simp
  then have "max (lam_value c) (lam_value t) + 1 < - 1"
    using unat_Suc_word [OF lt]
    by (simp add: word_less_nat_alt unsigned_minus_1_eq_mask mask_eq_exp_minus_1)
  then have "fst (lamport_tick (lamport_observe c t)) < snd (lamport_tick (lamport_observe c t))"
    by (intro lamport_tick_greater) (simp add: lamport_observe_def)
  with obs show ?thesis by (simp add: lamport_tick_def)
qed

theorem lamport_clock_advances_witness:
  "Lamport 7 2 < fst (lamport_tick (lamport_observe (Lamport 3 1) (Lamport 7 2)))"
  using lamport_clock_advances [of "Lamport 3 1" "Lamport 7 2"] by simp

text \<open>A version vector built by observing timestamps has observed exactly the
  timestamps that some observed timestamp of the same replica dominates (and, trivially,
  those of value 0).\<close>

theorem vclock_from_iter_observed:
  "vclock_observed (vclock_from_iter ts) t \<longleftrightarrow>
     lam_value t = 0 \<or> (\<exists>s \<in> set ts. lam_replica s = lam_replica t \<and> lam_value t \<le> lam_value s)"
  by (simp add: vclock_observed_def vclock_from_iter_def vclock_new_def vclock_get_at
      at_from_iter_ge word_unat_eq_iff)

text \<open>\<open>Global::join\<close> is the least upper bound of the causal order \<open>observed_all\<close>: the
  joined vector carries each replica's larger sequence number, and a third vector has
  observed all of it exactly when it has observed all of both operands.\<close>

theorem vclock_join_lub:
  assumes "vclock_wf g" "vclock_wf h"
  shows "vclock_wf (vclock_join g h) \<and>
    vclock_get (vclock_join g h) r = max (vclock_get g r) (vclock_get h r) \<and>
    (vclock_observed_all k (vclock_join g h) \<longleftrightarrow>
       vclock_observed_all k g \<and> vclock_observed_all k h)"
  using assms vclock_wf_join [OF assms]
  by (auto simp: vclock_get_at at_join vclock_observed_all_iff)

theorem vclock_join_lub_witness:
  "vclock_wf (vclock_join [1, 0, 3] [2]) \<and>
    vclock_get (vclock_join [1, 0, 3] [2]) 0 = max (vclock_get [1, 0, 3] 0) (vclock_get [2] 0) \<and>
    (vclock_observed_all [2, 5, 3] (vclock_join [1, 0, 3] [2]) \<longleftrightarrow>
       vclock_observed_all [2, 5, 3] [1, 0, 3] \<and> vclock_observed_all [2, 5, 3] [2])"
  by (rule vclock_join_lub) (simp_all add: vclock_wf_def)

text \<open>\<open>Global::meet\<close> takes each replica's smaller sequence number, except that a
  replica only one side has observed keeps that side's number.\<close>

theorem vclock_meet_get:
  "vclock_get (vclock_meet g h) r =
     (let a = vclock_get g r; b = vclock_get h r
      in if a = 0 then b else if b = 0 then a else min a b)"
  by (simp add: vclock_get_at at_meet meet_seq_def Let_def)

text \<open>\<open>changed_since\<close> holds exactly when some replica's sequence number has grown, and
  is the negation of \<open>observed_all\<close> in the other direction, although both functions decide
  part of the question by comparing vector lengths.\<close>

theorem vclock_changed_since_exact:
  assumes "vclock_wf g" "vclock_wf h"
  shows "(vclock_changed_since g h \<longleftrightarrow> (\<exists>r. vclock_get h r < vclock_get g r)) \<and>
    (vclock_changed_since g h \<longleftrightarrow> \<not> vclock_observed_all h g)"
proof -
  have "length g \<le> 2 ^ 16" "length h \<le> 2 ^ 16" using assms by (simp_all add: vclock_wf_def)
  then have "(\<forall>r. vclock_get g r \<le> vclock_get h r) \<longleftrightarrow> (\<forall>i. at g i \<le> at h i)"
    using all_replicas_iff [of g h "\<lambda>a b _. a \<le> b"] by simp
  then show ?thesis
    using vclock_changed_since_iff [OF assms(1), of h] vclock_observed_all_iff [OF assms(1), of h]
    by (meson not_le)
qed

theorem vclock_changed_since_exact_witness:
  "(vclock_changed_since [1, 2] [1] \<longleftrightarrow> (\<exists>r. vclock_get [1] r < vclock_get [1, 2] r)) \<and>
    (vclock_changed_since [1, 2] [1] \<longleftrightarrow> \<not> vclock_observed_all [1] [1, 2])"
  by (rule vclock_changed_since_exact) (simp_all add: vclock_wf_def)

end
