(* ===== verification/Zed_Locator.thy ===== *)
theory Zed_Locator
  imports Zed_Prelude
begin

text \<open>
  Fractional position identifiers, \<open>crates/text/src/locator.rs\<close>.  A \<open>Locator\<close> is a vector
  of 64-bit digits ordered lexicographically (the derived \<open>Ord\<close> of the \<open>SmallVec\<close>), and
  \<open>between\<close> makes a new identifier strictly between two existing ones.
\<close>

section \<open>Definitions\<close>

type_synonym locator = "u64 list"

definition locator_min :: locator where "locator_min = [0]"
definition locator_max :: locator where "locator_max = [- 1]"

text \<open>\<open>assign\<close>: resize to the other's length, then copy it over.\<close>

definition locator_assign :: "locator \<Rightarrow> locator \<Rightarrow> locator" where
  "locator_assign l other = map2 (\<lambda>_ y. y) (vec_resize (length other) 0 l) other"

definition chain_hd :: "u64 \<Rightarrow> u64 list \<Rightarrow> u64" where
  "chain_hd d xs = (case xs of [] \<Rightarrow> d | x # _ \<Rightarrow> x)"

definition locator_mid :: "u64 \<Rightarrow> u64 \<Rightarrow> u64" where
  "locator_mid l r = l + drop_bit 48 (word_saturating_sub r l)"

lemma locator_mid_exhausted: "locator_mid 0 (- 1) = 65535"
  by (simp add: locator_mid_def word_saturating_sub_def mask_eq_exp_minus_1)

text \<open>
  The two iterators are chained with an infinite repetition of \<open>u64::MIN\<close> and \<open>u64::MAX\<close>;
  the loop stops at the first digit strictly above the left one.  Past the end of both
  inputs that digit is 65535, so the loop ends.
\<close>

function locator_between :: "locator \<Rightarrow> locator \<Rightarrow> locator" where
  "locator_between lhs rhs =
     (let l = chain_hd 0 lhs; r = chain_hd (- 1) rhs; mid = locator_mid l r
      in if l < mid then [mid] else mid # locator_between (tl lhs) (tl rhs))"
  by pat_completeness auto
termination
proof (relation "measure (\<lambda>(lhs, rhs). length lhs + length rhs)")
  fix lhs rhs :: locator and l r mid
  assume "l = chain_hd 0 lhs" "r = chain_hd (- 1) rhs" "mid = locator_mid l r" "\<not> l < mid"
  then have "lhs \<noteq> [] \<or> rhs \<noteq> []"
    by (auto simp: chain_hd_def locator_mid_exhausted)
  then show "((tl lhs, tl rhs), lhs, rhs) \<in> measure (\<lambda>(lhs, rhs). length lhs + length rhs)"
    by (cases lhs; cases rhs) auto
qed simp

declare locator_between.simps [simp del]

definition locator_len :: "locator \<Rightarrow> nat" where "locator_len l = length l"

definition locator_is_empty :: "locator \<Rightarrow> bool" where
  "locator_is_empty l \<longleftrightarrow> locator_len l = 0"

text \<open>As a \<open>Summary\<close>, a locator is the last one of its subtree.\<close>

definition locator_add_summary :: "locator \<Rightarrow> locator \<Rightarrow> locator" where
  "locator_add_summary l s = locator_assign l s"

section \<open>Lemmas\<close>

lemma locator_assign_eq [simp]: "locator_assign l other = other"
  by (rule nth_equalityI) (simp_all add: locator_assign_def)

lemma drop_bit_48_le:
  fixes w :: u64
  shows "drop_bit 48 w \<le> w" and "w \<noteq> 0 \<Longrightarrow> drop_bit 48 w < w"
  unfolding word_le_nat_alt word_less_nat_alt unat_drop_bit
  by (simp_all add: unat_gt_0 div_less_dividend)

lemma locator_mid_ge: "l \<le> locator_mid l r"
proof (cases "r < l")
  case False
  then have le: "l \<le> r" by simp
  have "unat (drop_bit 48 (r - l)) \<le> unat (r - l)"
    using drop_bit_48_le(1) by (simp add: word_le_nat_alt)
  also have "unat (r - l) = unat r - unat l" using le by (simp add: unat_sub word_le_nat_alt)
  finally have "unat l + unat (drop_bit 48 (r - l)) < 2 ^ 64"
    using le unsigned_less [where ?'a = nat, of r] by (simp add: word_le_nat_alt)
  then show ?thesis
    using False by (simp add: locator_mid_def word_saturating_sub_def word_le_nat_alt unat_word_ariths)
qed (simp add: locator_mid_def word_saturating_sub_def)

lemma locator_mid_less:
  assumes "l < r"
  shows "locator_mid l r < r"
proof -
  have "unat (drop_bit 48 (r - l)) < unat (r - l)"
    using drop_bit_48_le(2) [of "r - l"] assms unfolding word_less_nat_alt by auto
  moreover have "unat (r - l) = unat r - unat l"
    using less_imp_le [OF assms] by (rule unat_sub)
  ultimately have *: "unat l + unat (drop_bit 48 (r - l)) < unat r" by linarith
  then have "unat l + unat (drop_bit 48 (r - l)) < 2 ^ 64"
    using unsigned_less [where ?'a = nat, of r] by simp
  with * assms show ?thesis
    by (simp add: locator_mid_def word_saturating_sub_def word_less_nat_alt unat_word_ariths)
qed

lemma locator_mid_eq: "r \<le> l \<Longrightarrow> locator_mid l r = l"
  by (auto simp: locator_mid_def word_saturating_sub_def)

lemma locator_between_ne [simp]: "locator_between lhs rhs \<noteq> []"
  by (subst locator_between.simps) (simp add: Let_def)

lemma locator_between_last: "last (locator_between lhs rhs) \<noteq> 0"
proof (induction lhs rhs rule: locator_between.induct)
  case (1 lhs rhs)
  show ?case
    by (subst locator_between.simps) (auto simp: Let_def "1.IH" word_gt_0)
qed

lemma locator_between_length:
  "length (locator_between lhs rhs) \<le> Suc (max (length lhs) (length rhs))"
proof (induction lhs rhs rule: locator_between.induct)
  case (1 lhs rhs)
  let ?l = "chain_hd 0 lhs" and ?r = "chain_hd (- 1) rhs"
  show ?case
  proof (cases "?l < locator_mid ?l ?r")
    case False
    then have "lhs \<noteq> [] \<or> rhs \<noteq> []" by (auto simp: chain_hd_def locator_mid_exhausted)
    moreover have "length (locator_between (tl lhs) (tl rhs)) \<le> Suc (max (length (tl lhs)) (length (tl rhs)))"
      using 1 False by blast
    ultimately show ?thesis
      by (subst locator_between.simps, cases lhs; cases rhs) (auto simp: Let_def)
  qed (subst locator_between.simps, simp add: Let_def)
qed

text \<open>The result is above the left operand whatever the right one is.\<close>

lemma locator_between_greater: "lhs < locator_between lhs rhs"
proof (induction lhs rhs rule: locator_between.induct)
  case (1 lhs rhs)
  let ?l = "chain_hd 0 lhs" and ?r = "chain_hd (- 1) rhs"
  let ?m = "locator_mid ?l ?r"
  show ?case
  proof (cases "?l < ?m")
    case True
    then show ?thesis
      by (subst locator_between.simps, cases lhs) (auto simp: Let_def chain_hd_def)
  next
    case False
    with locator_mid_ge [of ?l ?r] have "?m = ?l" by simp
    moreover have "tl lhs < locator_between (tl lhs) (tl rhs)" using 1 False by blast
    ultimately show ?thesis
      by (subst locator_between.simps, cases lhs) (auto simp: Let_def chain_hd_def)
  qed
qed

text \<open>It is below the right one if that extends the left one by a non-zero digit somewhere.\<close>

lemma locator_between_less:
  "lhs < rhs \<Longrightarrow> last rhs \<noteq> 0 \<Longrightarrow> locator_between lhs rhs < rhs"
proof (induction lhs rhs rule: locator_between.induct)
  case (1 lhs rhs)
  let ?l = "chain_hd 0 lhs"
  from 1 obtain r rs where rhs: "rhs = r # rs" by (cases rhs) auto
  have le: "?l \<le> r" using 1 rhs by (cases lhs) (auto simp: chain_hd_def)
  show ?case
  proof (cases "?l < r")
    case True
    then show ?thesis using locator_mid_less [OF True]
      by (subst locator_between.simps) (auto simp: Let_def rhs chain_hd_def)
  next
    case False
    with le have "?l = r" by simp
    then have mid: "locator_mid ?l r = r" "\<not> ?l < locator_mid ?l r" by (simp_all add: locator_mid_eq)
    have ne: "rs \<noteq> []" using "1.prems" \<open>?l = r\<close> rhs by (cases lhs) (auto simp: chain_hd_def)
    have "tl lhs < rs" using "1.prems" \<open>?l = r\<close> rhs ne
      by (cases lhs) (auto simp: chain_hd_def neq_Nil_conv)
    moreover have "last rs \<noteq> 0" using "1.prems" rhs ne by simp
    ultimately have "locator_between (tl lhs) rs < rs"
      using "1.IH" [of ?l "chain_hd (- 1) rhs" "locator_mid ?l r"] mid rhs
      by (simp add: chain_hd_def)
    then show ?thesis
      using mid \<open>?l = r\<close> by (subst locator_between.simps) (simp add: Let_def rhs chain_hd_def)
  qed
qed

section \<open>Properties\<close>



text \<open>The 48-bit shift keeps sequential typing shallow: as long as the last identifier is
  at least \<open>2 ^ 48\<close> below the right neighbour, the next one has a single digit.\<close>

theorem locator_between_shallow:
  assumes "unat l + 2 ^ 48 \<le> unat r"
  shows "\<exists>m. locator_between [l] [r] = [m] \<and> l < m \<and> m < r"
proof -
  have lr: "l < r" using assms by (simp add: word_less_nat_alt)
  have "unat (r - l) = unat r - unat l" using less_imp_le [OF lr] by (rule unat_sub)
  then have "0 < unat (drop_bit 48 (r - l))"
    using assms unfolding unat_drop_bit by (simp add: div_greater_zero_iff)
  then have "locator_mid l r \<noteq> l" using lr by (auto simp: locator_mid_def word_saturating_sub_def)
  then have "l < locator_mid l r" using locator_mid_ge [of l r] by simp
  then show ?thesis
    using locator_mid_less [OF lr]
    by (subst locator_between.simps) (simp add: chain_hd_def Let_def)
qed

theorem locator_between_shallow_witness:
  "\<exists>m. locator_between [0] [- 1] = [m] \<and> 0 < m \<and> m < - 1"
  by (rule locator_between_shallow) (simp add: unat_max_word)

end
