(* ===== verification/Zed_SumTree.thy ===== *)
theory Zed_SumTree
  imports Zed_Prelude "HOL-Library.Monad_Syntax"
begin

text \<open>
  The B+ tree of \<open>crates/sum_tree/src/sum_tree.rs\<close>: construction, \<open>append\<close> and its helpers,
  the accessors, the updates of the first and last item, and the searches from the root.
  The traits \<open>Item\<close> and \<open>Summary\<close> (with the context already applied) are a dictionary record.
  An operation whose code can panic (a full \<open>ArrayVec\<close>, \<open>unwrap\<close> on an empty one,
  \<open>unreachable!\<close>, the accessor of the wrong node kind) returns an option, \<open>None\<close> being the panic;
  the theorems show that no panic is reachable from well-formed trees.
\<close>

section \<open>The data structure\<close>

definition TREE_BASE :: nat where "TREE_BASE = 6"

record ('t, 's) summary_ops =
  sm_zero :: 's
  sm_add :: "'s \<Rightarrow> 's \<Rightarrow> 's"
  sm_item :: "'t \<Rightarrow> 's"

datatype bias = BLeft | BRight

fun bias_invert :: "bias \<Rightarrow> bias" where
  "bias_invert BLeft = BRight"
| "bias_invert BRight = BLeft"

datatype ('t, 's) sum_tree =
    Internal nat 's "'s list" "('t, 's) sum_tree list"
  | Leaf 's "'t list" "'s list"

definition sum_summaries :: "('t, 's) summary_ops \<Rightarrow> 's list \<Rightarrow> 's" where
  "sum_summaries ops ss = foldl (sm_add ops) (sm_zero ops) ss"

text \<open>Filling a fixed-size vector panics past \<open>2 * TREE_BASE\<close> elements.\<close>

definition array_vec :: "'a list \<Rightarrow> 'a list option" where
  "array_vec xs = (if length xs \<le> 2 * TREE_BASE then Some xs else None)"

subsection \<open>Node accessors\<close>

fun st_is_leaf :: "('t, 's) sum_tree \<Rightarrow> bool" where
  "st_is_leaf (Leaf _ _ _) = True"
| "st_is_leaf (Internal _ _ _ _) = False"

fun st_height :: "('t, 's) sum_tree \<Rightarrow> nat" where
  "st_height (Internal h _ _ _) = h"
| "st_height (Leaf _ _ _) = 0"

fun st_summary :: "('t, 's) sum_tree \<Rightarrow> 's" where
  "st_summary (Internal _ s _ _) = s"
| "st_summary (Leaf s _ _) = s"

fun st_child_summaries :: "('t, 's) sum_tree \<Rightarrow> 's list" where
  "st_child_summaries (Internal _ _ ss _) = ss"
| "st_child_summaries (Leaf _ _ ss) = ss"

fun st_child_trees :: "('t, 's) sum_tree \<Rightarrow> ('t, 's) sum_tree list option" where
  "st_child_trees (Internal _ _ _ ts) = Some ts"
| "st_child_trees (Leaf _ _ _) = None"

fun st_node_items :: "('t, 's) sum_tree \<Rightarrow> 't list option" where
  "st_node_items (Leaf _ xs _) = Some xs"
| "st_node_items (Internal _ _ _ _) = None"

fun st_is_underflowing :: "('t, 's) sum_tree \<Rightarrow> bool" where
  "st_is_underflowing (Internal _ _ _ ts) \<longleftrightarrow> length ts < TREE_BASE"
| "st_is_underflowing (Leaf _ xs _) \<longleftrightarrow> length xs < TREE_BASE"

fun st_is_empty :: "('t, 's) sum_tree \<Rightarrow> bool" where
  "st_is_empty (Internal _ _ _ _) = False"
| "st_is_empty (Leaf _ xs _) \<longleftrightarrow> xs = []"

lemma size_last_child [termination_simp]:
  "ts \<noteq> [] \<Longrightarrow> size (last ts) < Suc (n + size_list size ts)"
  using size_list_estimation' [OF last_in_set, of ts "size (last ts)" size]
  by (simp add: less_Suc_eq_le trans_le_add2)

lemma size_hd_child [termination_simp]:
  "ts \<noteq> [] \<Longrightarrow> size (hd ts) < Suc (n + size_list size ts)"
  by (cases ts) auto

fun st_leftmost_leaf :: "('t, 's) sum_tree \<Rightarrow> ('t, 's) sum_tree option" where
  "st_leftmost_leaf (Leaf s xs ss) = Some (Leaf s xs ss)"
| "st_leftmost_leaf (Internal h s ss ts) =
     (if ts = [] then None else st_leftmost_leaf (hd ts))"

fun st_rightmost_leaf :: "('t, 's) sum_tree \<Rightarrow> ('t, 's) sum_tree option" where
  "st_rightmost_leaf (Leaf s xs ss) = Some (Leaf s xs ss)"
| "st_rightmost_leaf (Internal h s ss ts) =
     (if ts = [] then None else st_rightmost_leaf (last ts))"

definition list_first :: "'a list \<Rightarrow> 'a option" where
  "list_first xs = (case xs of [] \<Rightarrow> None | x # _ \<Rightarrow> Some x)"

definition list_last :: "'a list \<Rightarrow> 'a option" where
  "list_last xs = (if xs = [] then None else Some (last xs))"

definition st_first :: "('t, 's) sum_tree \<Rightarrow> 't option option" where
  "st_first t = do { l \<leftarrow> st_leftmost_leaf t; xs \<leftarrow> st_node_items l; Some (list_first xs) }"

definition st_last :: "('t, 's) sum_tree \<Rightarrow> 't option option" where
  "st_last t = do { l \<leftarrow> st_rightmost_leaf t; xs \<leftarrow> st_node_items l; Some (list_last xs) }"

definition st_last_summary :: "('t, 's) sum_tree \<Rightarrow> 's option option" where
  "st_last_summary t = do { l \<leftarrow> st_rightmost_leaf t; Some (list_last (st_child_summaries l)) }"

section \<open>Construction\<close>

definition st_new :: "('t, 's) summary_ops \<Rightarrow> ('t, 's) sum_tree" where
  "st_new ops = Leaf (sm_zero ops) [] []"

definition st_from_summary :: "'s \<Rightarrow> ('t, 's) sum_tree" where
  "st_from_summary s = Leaf s [] []"

text \<open>Two trees of equal height under a new root.\<close>

definition st_from_child_trees ::
    "('t, 's) summary_ops \<Rightarrow> ('t, 's) sum_tree \<Rightarrow> ('t, 's) sum_tree \<Rightarrow> ('t, 's) sum_tree option" where
  "st_from_child_trees ops left right = do {
     ss \<leftarrow> array_vec [st_summary left, st_summary right];
     ts \<leftarrow> array_vec [left, right];
     Some (Internal (st_height left + 1) (sum_summaries ops ss) ss ts) }"

text \<open>
  \<open>push_tree_recursive\<close> appends \<open>other\<close>, which is no higher, at the right edge.  It returns
  the updated node and, when that node had to be split, its new right sibling.  Its two final
  parts, which put the new children (or items) into the node or split it, come first.
\<close>

definition st_push_children ::
    "('t, 's) summary_ops \<Rightarrow> nat \<Rightarrow> 's \<Rightarrow> 's list \<Rightarrow> ('t, 's) sum_tree list \<Rightarrow>
       's list \<Rightarrow> ('t, 's) sum_tree list \<Rightarrow>
       (('t, 's) sum_tree \<times> ('t, 's) sum_tree option) option" where
  "st_push_children ops h s ss ts ss_app ts_app =
     (let child_count = length ts + length ts_app in
      if 2 * TREE_BASE < child_count then do {
        let midpoint = (child_count + child_count mod 2) div 2;
        left_summaries \<leftarrow> array_vec (take midpoint (ss @ ss_app));
        right_summaries \<leftarrow> array_vec (drop midpoint (ss @ ss_app));
        left_trees \<leftarrow> array_vec (take midpoint (ts @ ts_app));
        right_trees \<leftarrow> array_vec (drop midpoint (ts @ ts_app));
        Some (Internal h (sum_summaries ops left_summaries) left_summaries left_trees,
          Some (Internal h (sum_summaries ops right_summaries) right_summaries right_trees)) }
      else do {
        ss \<leftarrow> array_vec (ss @ ss_app);
        ts \<leftarrow> array_vec (ts @ ts_app);
        Some (Internal h s ss ts, None) })"

definition st_push_items ::
    "('t, 's) summary_ops \<Rightarrow> 's \<Rightarrow> 't list \<Rightarrow> 's list \<Rightarrow> 's \<Rightarrow> 't list \<Rightarrow> 's list \<Rightarrow>
       (('t, 's) sum_tree \<times> ('t, 's) sum_tree option) option" where
  "st_push_items ops s xs ss other_summary oxs oss =
     (let child_count = length xs + length oxs in
      if 2 * TREE_BASE < child_count then do {
        let midpoint = (child_count + child_count mod 2) div 2;
        left_items \<leftarrow> array_vec (take midpoint (xs @ oxs));
        right_items \<leftarrow> array_vec (drop midpoint (xs @ oxs));
        left_summaries \<leftarrow> array_vec (take midpoint (ss @ oss));
        right_summaries \<leftarrow> array_vec (drop midpoint (ss @ oss));
        Some (Leaf (sum_summaries ops left_summaries) left_items left_summaries,
          Some (Leaf (sum_summaries ops right_summaries) right_items right_summaries)) }
      else do {
        items \<leftarrow> array_vec (xs @ oxs);
        ss \<leftarrow> array_vec (ss @ oss);
        Some (Leaf (sm_add ops s other_summary) items ss, None) })"

fun st_push_tree_recursive ::
    "('t, 's) summary_ops \<Rightarrow> ('t, 's) sum_tree \<Rightarrow> ('t, 's) sum_tree \<Rightarrow>
       (('t, 's) sum_tree \<times> ('t, 's) sum_tree option) option" where
  "st_push_tree_recursive ops (Internal h s ss ts) other =
     (if h < st_height other then None else do {
        let s = sm_add ops s (st_summary other);
        let height_delta = h - st_height other;
        (if height_delta = 0 then do {
           ots \<leftarrow> st_child_trees other;
           st_push_children ops h s ss ts (st_child_summaries other) ots }
         else if height_delta = 1 \<and> \<not> st_is_underflowing other then
           st_push_children ops h s ss ts [st_summary other] [other]
         else if ts = [] then None
         else do {
           (child, split) \<leftarrow> st_push_tree_recursive ops (last ts) other;
           let ts = butlast ts @ [child];
           let ss = butlast ss @ [st_summary child];
           (case split of
              None \<Rightarrow> st_push_children ops h s ss ts [] []
            | Some tree \<Rightarrow> st_push_children ops h s ss ts [st_summary tree] [tree]) }) })"
| "st_push_tree_recursive ops (Leaf s xs ss) other = do {
     oxs \<leftarrow> st_node_items other;
     st_push_items ops s xs ss (st_summary other) oxs (st_child_summaries other) }"

text \<open>
  \<open>merge_into_right\<close> puts the contents of \<open>small\<close> in front of those of \<open>large\<close>, a node of
  the same height.  The first result is the new \<open>large\<close>, the second the left half if the
  merged node was too big.
\<close>

fun st_merge_into_right ::
    "('t, 's) summary_ops \<Rightarrow> ('t, 's) sum_tree \<Rightarrow> ('t, 's) sum_tree \<Rightarrow>
       (('t, 's) sum_tree \<times> ('t, 's) sum_tree option) option" where
  "st_merge_into_right ops (Internal _ small_s small_ss small_ts) (Internal h s ss ts) =
     (let total = length ts + length small_ts in
      if total \<le> 2 * TREE_BASE then do {
        all_trees \<leftarrow> array_vec (small_ts @ ts);
        all_summaries \<leftarrow> array_vec (small_ss @ ss);
        Some (Internal h (sm_add ops small_s s) all_summaries all_trees, None) }
      else do {
        let midpoint = (total + 1) div 2;
        left_trees \<leftarrow> array_vec (take midpoint (small_ts @ ts));
        ts \<leftarrow> array_vec (drop midpoint (small_ts @ ts));
        left_summaries \<leftarrow> array_vec (take midpoint (small_ss @ ss));
        ss \<leftarrow> array_vec (drop midpoint (small_ss @ ss));
        Some (Internal h (sum_summaries ops ss) ss ts,
          Some (Internal h (sum_summaries ops left_summaries) left_summaries left_trees)) })"
| "st_merge_into_right ops (Leaf small_s small_xs small_ss) (Leaf s xs ss) =
     (let total = length small_xs + length xs in
      if total \<le> 2 * TREE_BASE then do {
        all_items \<leftarrow> array_vec (small_xs @ xs);
        all_summaries \<leftarrow> array_vec (small_ss @ ss);
        Some (Leaf (sm_add ops small_s s) all_items all_summaries, None) }
      else do {
        let midpoint = (total + 1) div 2;
        left_items \<leftarrow> array_vec (take midpoint (small_xs @ xs));
        xs \<leftarrow> array_vec (drop midpoint (small_xs @ xs));
        left_summaries \<leftarrow> array_vec (take midpoint (small_ss @ ss));
        ss \<leftarrow> array_vec (drop midpoint (small_ss @ ss));
        Some (Leaf (sum_summaries ops ss) xs ss,
          Some (Leaf (sum_summaries ops left_summaries) left_items left_summaries)) })"
| "st_merge_into_right ops _ _ = None"

text \<open>\<open>append_large\<close>: \<open>small\<close> is put at the left edge of \<open>large\<close>, which is at least as high.\<close>

fun st_append_large ::
    "('t, 's) summary_ops \<Rightarrow> ('t, 's) sum_tree \<Rightarrow> ('t, 's) sum_tree \<Rightarrow>
       (('t, 's) sum_tree \<times> ('t, 's) sum_tree option) option" where
  "st_append_large ops small (Internal h s ss ts) =
     (if st_height small = h then
        (if \<not> st_is_underflowing small then Some (Internal h s ss ts, Some small)
         else st_merge_into_right ops small (Internal h s ss ts))
      else do {
        let s = sm_add ops (st_summary small) s;
        (if ts = [] then None else do {
           (first, res) \<leftarrow> st_append_large ops small (hd ts);
           let ts = first # tl ts;
           let ss = st_summary first # tl ss;
           (case res of
              None \<Rightarrow> Some (Internal h s ss ts, None)
            | Some tree \<Rightarrow>
                (if length ts < 2 * TREE_BASE then do {
                   ss \<leftarrow> array_vec (st_summary tree # ss);
                   ts \<leftarrow> array_vec (tree # ts);
                   Some (Internal h s ss ts, None) }
                 else do {
                   new_ss \<leftarrow> array_vec (st_summary tree # take TREE_BASE ss);
                   new_ts \<leftarrow> array_vec (tree # take TREE_BASE ts);
                   let ss = drop TREE_BASE ss;
                   Some (Internal h (sum_summaries ops ss) ss (drop TREE_BASE ts),
                     Some (Internal h (sum_summaries ops new_ss) new_ss new_ts)) })) }) })"
| "st_append_large ops small (Leaf s xs ss) =
     (if st_height small = 0 then
        (if \<not> st_is_underflowing small then Some (Leaf s xs ss, Some small)
         else st_merge_into_right ops small (Leaf s xs ss))
      else None)"

definition st_append ::
    "('t, 's) summary_ops \<Rightarrow> ('t, 's) sum_tree \<Rightarrow> ('t, 's) sum_tree \<Rightarrow> ('t, 's) sum_tree option" where
  "st_append ops t other =
     (if st_is_empty t then Some other
      else if \<not> st_is_empty other then
        (if st_height t < st_height other then do {
           (other, res) \<leftarrow> st_append_large ops t other;
           (case res of
              Some tree \<Rightarrow> st_from_child_trees ops tree other
            | None \<Rightarrow> Some other) }
         else do {
           (t, split) \<leftarrow> st_push_tree_recursive ops t other;
           (case split of
              Some split_tree \<Rightarrow> st_from_child_trees ops t split_tree
            | None \<Rightarrow> Some t) })
      else Some t)"

definition st_push ::
    "('t, 's) summary_ops \<Rightarrow> ('t, 's) sum_tree \<Rightarrow> 't \<Rightarrow> ('t, 's) sum_tree option" where
  "st_push ops t x = (let s = sm_item ops x in st_append ops t (Leaf s [x] [s]))"

definition st_from_item :: "('t, 's) summary_ops \<Rightarrow> 't \<Rightarrow> ('t, 's) sum_tree option" where
  "st_from_item ops x = st_push ops (st_new ops) x"

section \<open>Well-formed trees\<close>

text \<open>
  The abstraction of a tree is the list of its items.  A node is well-formed when its vectors
  fit, its children are well-formed nodes of one height below its own, and the summaries it
  caches are those of its children and their sum.  The empty tree is an empty leaf at the root.
  (\<open>from_iter\<close> may leave a last child under-full, so a lower bound on the number of children
  is no invariant of the code.)
\<close>

fun st_items :: "('t, 's) sum_tree \<Rightarrow> 't list" where
  "st_items (Leaf _ xs _) = xs"
| "st_items (Internal _ _ _ ts) = concat (map st_items ts)"

fun st_node :: "('t, 's) summary_ops \<Rightarrow> ('t, 's) sum_tree \<Rightarrow> bool" where
  "st_node ops (Leaf s xs ss) \<longleftrightarrow>
     xs \<noteq> [] \<and> length xs \<le> 2 * TREE_BASE \<and> ss = map (sm_item ops) xs \<and> s = sum_summaries ops ss"
| "st_node ops (Internal h s ss ts) \<longleftrightarrow>
     ts \<noteq> [] \<and> length ts \<le> 2 * TREE_BASE \<and> ss = map st_summary ts \<and> s = sum_summaries ops ss \<and>
     (\<forall>t \<in> set ts. st_node ops t \<and> Suc (st_height t) = h)"

definition st_wf :: "('t, 's) summary_ops \<Rightarrow> ('t, 's) sum_tree \<Rightarrow> bool" where
  "st_wf ops t \<longleftrightarrow> t = st_new ops \<or> st_node ops t"

text \<open>The sum of the summaries of a list of items.\<close>

definition sum_items :: "('t, 's) summary_ops \<Rightarrow> 't list \<Rightarrow> 's" where
  "sum_items ops xs = sum_summaries ops (map (sm_item ops) xs)"

lemma array_vec_Some [simp]: "length xs \<le> 2 * TREE_BASE \<Longrightarrow> array_vec xs = Some xs"
  by (simp add: array_vec_def)

lemma TREE_BASE_pos [simp]:
  "0 < TREE_BASE" "2 \<le> TREE_BASE" "TREE_BASE \<noteq> 0" "Suc 0 \<le> TREE_BASE"
  by (simp_all add: TREE_BASE_def)

lemma st_node_items_ne: "st_node ops t \<Longrightarrow> st_items t \<noteq> []"
proof (induction t)
  case (Internal h s ss ts)
  then have "hd ts \<in> set ts" "st_items (hd ts) \<noteq> []" by (auto simp: hd_in_set)
  then show ?case by auto
qed simp

lemma st_node_height_0: "st_node ops t \<Longrightarrow> st_height t = 0 \<longleftrightarrow> st_is_leaf t"
  by (cases t) (auto simp: neq_Nil_conv)

lemma st_node_not_empty: "st_node ops t \<Longrightarrow> \<not> st_is_empty t"
  by (cases t) auto

lemma st_wf_is_empty: "st_wf ops t \<Longrightarrow> st_is_empty t \<longleftrightarrow> t = st_new ops"
  by (auto simp: st_wf_def st_new_def st_node_not_empty)

lemma st_items_new [simp]: "st_items (st_new ops) = []"
  by (simp add: st_new_def)

lemma st_wf_new [simp]: "st_wf ops (st_new ops)"
  by (simp add: st_wf_def)

text \<open>The laws a \<open>Summary\<close> instance must satisfy: \<open>zero\<close> is neutral on the left, addition associates.
  Zero need not be neutral on the right (for the \<open>max_id\<close> of a fragment it is not).\<close>

locale summary_laws =
  fixes ops :: "('t, 's) summary_ops"
  assumes add_zero: "sm_add ops (sm_zero ops) s = s"
    and add_assoc: "sm_add ops (sm_add ops a b) c = sm_add ops a (sm_add ops b c)"
begin

lemma foldl_add: "foldl (sm_add ops) (sm_add ops a b) ss = sm_add ops a (foldl (sm_add ops) b ss)"
  by (induction ss arbitrary: b) (simp_all add: add_assoc)

lemma sum_Cons: "sum_summaries ops (s # ss) = foldl (sm_add ops) s ss"
  by (simp add: sum_summaries_def add_zero)

lemma sum_append:
  assumes "ys \<noteq> []"
  shows "sum_summaries ops (xs @ ys) = sm_add ops (sum_summaries ops xs) (sum_summaries ops ys)"
proof -
  obtain y ys' where "ys = y # ys'" using assms by (cases ys) auto
  then show ?thesis by (simp add: sum_Cons) (simp add: sum_summaries_def foldl_add)
qed

lemma sum_items_append:
  "ys \<noteq> [] \<Longrightarrow> sum_items ops (xs @ ys) = sm_add ops (sum_items ops xs) (sum_items ops ys)"
  by (simp add: sum_items_def sum_append)

lemma sum_singleton: "sum_summaries ops [s] = s"
  by (simp add: sum_Cons)

lemma sum_map_summary:
  assumes "\<And>t. t \<in> set ts \<Longrightarrow> st_summary t = sum_items ops (st_items t) \<and> st_items t \<noteq> []"
  shows "sum_summaries ops (map st_summary ts) = sum_items ops (concat (map st_items ts))"
  using assms
proof (induction ts rule: rev_induct)
  case (snoc t ts)
  then have "sum_items ops (concat (map st_items ts) @ st_items t) =
      sm_add ops (sum_items ops (concat (map st_items ts))) (st_summary t)"
    by (simp add: sum_items_append)
  with snoc show ?case by (simp add: sum_append sum_singleton)
qed (simp add: sum_items_def sum_summaries_def)

lemma node_summary: "st_node ops t \<Longrightarrow> st_summary t = sum_items ops (st_items t)"
proof (induction t)
  case (Internal h s ss ts)
  then have "sum_summaries ops (map st_summary ts) = sum_items ops (concat (map st_items ts))"
    by (intro sum_map_summary) (auto simp: st_node_items_ne)
  with Internal.prems show ?case by simp
qed (simp add: sum_items_def)

lemma sum_nodes:
  "\<forall>t \<in> set ts. st_node ops t \<Longrightarrow>
   sum_summaries ops (map st_summary ts) = sum_items ops (concat (map st_items ts))"
  by (intro sum_map_summary conjI node_summary st_node_items_ne [of ops]) simp_all

lemma wf_summary: "st_wf ops t \<Longrightarrow> st_summary t = sum_items ops (st_items t)"
  by (auto simp: st_wf_def node_summary st_new_def sum_items_def sum_summaries_def)

lemma node_internalI:
  assumes "ts \<noteq> []" "length ts \<le> 2 * TREE_BASE" "\<forall>t \<in> set ts. st_node ops t \<and> Suc (st_height t) = h"
    and "s = sum_items ops (concat (map st_items ts))"
  shows "st_node ops (Internal h s (map st_summary ts) ts)"
  using assms sum_nodes [of ts] by simp

lemma node_leafI:
  assumes "xs \<noteq> []" "length xs \<le> 2 * TREE_BASE" "s = sum_items ops xs"
  shows "st_node ops (Leaf s xs (map (sm_item ops) xs))"
  using assms by (simp add: sum_items_def)

end

text \<open>What appending at an edge promises: at most one sibling, same height, the items in order.\<close>

definition grown_right :: "('t, 's) summary_ops \<Rightarrow> nat \<Rightarrow> 't list \<Rightarrow>
    (('t, 's) sum_tree \<times> ('t, 's) sum_tree option) option \<Rightarrow> bool" where
  "grown_right ops h xs res \<longleftrightarrow>
     (\<exists>t sp. res = Some (t, sp) \<and> st_node ops t \<and> st_height t = h \<and>
        (case sp of
           None \<Rightarrow> st_items t = xs
         | Some r \<Rightarrow> st_node ops r \<and> st_height r = h \<and> st_items t @ st_items r = xs))"

definition grown_left :: "('t, 's) summary_ops \<Rightarrow> nat \<Rightarrow> 't list \<Rightarrow>
    (('t, 's) sum_tree \<times> ('t, 's) sum_tree option) option \<Rightarrow> bool" where
  "grown_left ops h xs res \<longleftrightarrow>
     (\<exists>t sp. res = Some (t, sp) \<and> st_node ops t \<and> st_height t = h \<and>
        (case sp of
           None \<Rightarrow> st_items t = xs
         | Some l \<Rightarrow> st_node ops l \<and> st_height l = h \<and> st_items l @ st_items t = xs))"

context summary_laws
begin

lemma node_take_drop:
  assumes "0 < n" "n < length ts" "n \<le> 2 * TREE_BASE" "length ts - n \<le> 2 * TREE_BASE"
    and "\<forall>t \<in> set ts. st_node ops t \<and> Suc (st_height t) = h"
  shows "st_node ops (Internal h (sum_summaries ops (take n (map st_summary ts))) (take n (map st_summary ts)) (take n ts))"
    and "st_node ops (Internal h (sum_summaries ops (drop n (map st_summary ts))) (drop n (map st_summary ts)) (drop n ts))"
  using assms by (auto simp: take_map drop_map dest: in_set_takeD in_set_dropD)

lemma leaf_take_drop:
  assumes "0 < n" "n < length xs" "n \<le> 2 * TREE_BASE" "length xs - n \<le> 2 * TREE_BASE"
  shows "st_node ops (Leaf (sum_summaries ops (take n (map (sm_item ops) xs))) (take n xs) (take n (map (sm_item ops) xs)))"
    and "st_node ops (Leaf (sum_summaries ops (drop n (map (sm_item ops) xs))) (drop n xs) (drop n (map (sm_item ops) xs)))"
  using assms by (auto simp: take_map drop_map)

lemma concat_items_take_drop:
  "concat (map st_items (take n ts)) @ concat (map st_items (drop n ts)) = concat (map st_items ts)"
  by (metis append_take_drop_id concat_append map_append)

lemma push_children:
  assumes "ts \<noteq> []" "length ts \<le> 2 * TREE_BASE" "length tsa \<le> 2 * TREE_BASE"
    and nodes: "\<forall>t \<in> set (ts @ tsa). st_node ops t \<and> Suc (st_height t) = h"
    and s: "s = sum_items ops (concat (map st_items (ts @ tsa)))"
  shows "grown_right ops h (concat (map st_items (ts @ tsa)))
    (st_push_children ops h s (map st_summary ts) ts (map st_summary tsa) tsa)"
proof -
  let ?ts = "ts @ tsa" and ?n = "length ts + length tsa"
  let ?m = "(?n + ?n mod 2) div 2"
  have ss: "map st_summary ts @ map st_summary tsa = map st_summary ?ts" by simp
  show ?thesis
  proof (cases "2 * TREE_BASE < ?n")
    case True
    then have m: "0 < ?m" "?m < length ?ts" "?m \<le> 2 * TREE_BASE" "length ?ts - ?m \<le> 2 * TREE_BASE"
      using assms(2,3) TREE_BASE_pos by (simp_all; linarith)+
    show ?thesis
      using True m node_take_drop [OF m nodes] concat_items_take_drop [of ?m ?ts]
      by (simp add: st_push_children_def grown_right_def Let_def ss
          del: map_append take_append drop_append)
  next
    case False
    moreover have "st_node ops (Internal h s (map st_summary ?ts) ?ts)"
      using assms False by (intro node_internalI) auto
    ultimately show ?thesis
      by (simp add: st_push_children_def grown_right_def Let_def ss del: map_append)
  qed
qed

lemma push_items:
  assumes "xs \<noteq> []" "length xs \<le> 2 * TREE_BASE" "length oxs \<le> 2 * TREE_BASE"
    and s: "sm_add ops s os = sum_items ops (xs @ oxs)"
  shows "grown_right ops 0 (xs @ oxs)
    (st_push_items ops s xs (map (sm_item ops) xs) os oxs (map (sm_item ops) oxs))"
proof -
  let ?xs = "xs @ oxs" and ?n = "length xs + length oxs"
  let ?m = "(?n + ?n mod 2) div 2"
  have ss: "map (sm_item ops) xs @ map (sm_item ops) oxs = map (sm_item ops) ?xs" by simp
  show ?thesis
  proof (cases "2 * TREE_BASE < ?n")
    case True
    then have m: "0 < ?m" "?m < length ?xs" "?m \<le> 2 * TREE_BASE" "length ?xs - ?m \<le> 2 * TREE_BASE"
      using assms(2,3) TREE_BASE_pos by (simp_all; linarith)+
    show ?thesis
      using True m leaf_take_drop [OF m]
      by (simp add: st_push_items_def grown_right_def Let_def ss
          del: map_append take_append drop_append st_node.simps)
  next
    case False
    moreover have "st_node ops (Leaf (sm_add ops s os) ?xs (map (sm_item ops) ?xs))"
      using assms False by (intro node_leafI) auto
    ultimately show ?thesis
      by (simp add: st_push_items_def grown_right_def Let_def ss del: map_append)
  qed
qed

lemma node_add_summary:
  assumes "st_node ops t" "st_node ops other"
  shows "sm_add ops (st_summary t) (st_summary other) = sum_items ops (st_items t @ st_items other)"
  using assms by (simp add: node_summary sum_items_append st_node_items_ne)

lemma push_tree_recursive:
  "st_node ops t \<Longrightarrow> st_node ops other \<Longrightarrow> st_height other \<le> st_height t \<Longrightarrow>
   grown_right ops (st_height t) (st_items t @ st_items other) (st_push_tree_recursive ops t other)"
proof (induction t)
  case (Internal h s ss ts)
  let ?t = "Internal h s ss ts"
  have ts: "ts \<noteq> []" "length ts \<le> 2 * TREE_BASE" "\<forall>t \<in> set ts. st_node ops t \<and> Suc (st_height t) = h"
    and ss: "ss = map st_summary ts" using Internal.prems(1) by simp_all
  have sum: "sm_add ops s (st_summary other) = sum_items ops (concat (map st_items ts) @ st_items other)"
    using node_add_summary [OF Internal.prems(1,2)] by simp
  have h: "\<not> h < st_height other" using Internal.prems(3) by simp
  consider (same) "st_height other = h"
    | (sibling) "st_height other < h" "h - st_height other = 1 \<and> \<not> st_is_underflowing other"
    | (deep) "st_height other < h" "\<not> (h - st_height other = 1 \<and> \<not> st_is_underflowing other)"
    using Internal.prems(3) by force
  then show ?case
  proof cases
    case same
    then obtain os oss ots where other: "other = Internal h os oss ots"
      using ts by (cases other) (auto simp: neq_Nil_conv)
    have o: "length ots \<le> 2 * TREE_BASE" "\<forall>t \<in> set (ts @ ots). st_node ops t \<and> Suc (st_height t) = h"
      "oss = map st_summary ots" using Internal.prems(2) ts other by auto
    then show ?thesis
      using push_children [OF ts(1,2) o(1,2), of "sm_add ops s os"] sum other ss by (simp add: Let_def)
  next
    case sibling
    then have o: "\<forall>t \<in> set (ts @ [other]). st_node ops t \<and> Suc (st_height t) = h"
      using ts Internal.prems(2) by auto
    show ?thesis
      using push_children [OF ts(1,2) _ o, of "sm_add ops s (st_summary other)"] sum sibling h ss
      by (simp add: Let_def)
  next
    case deep
    have l: "last ts \<in> set ts" using ts(1) by simp
    have "grown_right ops (st_height (last ts)) (st_items (last ts) @ st_items other)
        (st_push_tree_recursive ops (last ts) other)"
    proof (rule Internal.IH [OF l _ Internal.prems(2)])
      have "Suc (st_height (last ts)) = h" using ts l by blast
      with deep(1) show "st_height other \<le> st_height (last ts)" by linarith
    qed (use ts l in blast)
    then obtain child split where rec: "st_push_tree_recursive ops (last ts) other = Some (child, split)"
      and child: "st_node ops child" "Suc (st_height child) = h"
      and split: "case split of None \<Rightarrow> st_items child = st_items (last ts) @ st_items other
        | Some r \<Rightarrow> st_node ops r \<and> Suc (st_height r) = h \<and>
            st_items child @ st_items r = st_items (last ts) @ st_items other"
      using ts l by (fastforce simp: grown_right_def split: option.splits)
    let ?ts = "butlast ts @ [child]"
    let ?tsa = "case split of None \<Rightarrow> [] | Some r \<Rightarrow> [r]"
    have lens: "?ts \<noteq> []" "length ?ts \<le> 2 * TREE_BASE" "length ?tsa \<le> 2 * TREE_BASE"
      using ts(1,2) TREE_BASE_pos by (simp_all split: option.splits)
    have nodes: "\<forall>t \<in> set (?ts @ ?tsa). st_node ops t \<and> Suc (st_height t) = h"
    proof -
      have "\<forall>t \<in> set (butlast ts). st_node ops t \<and> Suc (st_height t) = h"
        using ts(3) by (blast dest: in_set_butlastD)
      moreover have "\<forall>t \<in> set ?tsa. st_node ops t \<and> Suc (st_height t) = h"
        using split by (simp split: option.splits)
      ultimately show ?thesis using child unfolding set_append ball_Un by simp
    qed
    have "concat (map st_items ts) = concat (map st_items (butlast ts)) @ st_items (last ts)"
      using arg_cong [OF append_butlast_last_id [OF ts(1)], of "\<lambda>ts. concat (map st_items ts)"] by simp
    then have items: "concat (map st_items (?ts @ ?tsa)) = concat (map st_items ts) @ st_items other"
      using split by (simp split: option.splits)
    have "sm_add ops s (st_summary other) = sum_items ops (concat (map st_items (?ts @ ?tsa)))"
      by (simp only: items sum)
    from push_children [OF lens nodes this]
    have "grown_right ops h (st_items ?t @ st_items other)
        (st_push_children ops h (sm_add ops s (st_summary other)) (map st_summary ?ts) ?ts (map st_summary ?tsa) ?tsa)"
      by (simp only: items st_items.simps)
    moreover have "st_push_tree_recursive ops ?t other =
        st_push_children ops h (sm_add ops s (st_summary other)) (map st_summary ?ts) ?ts (map st_summary ?tsa) ?tsa"
      using deep(1)[unfolded not_le [symmetric]] rec ts(1)
      by (cases split) (simp_all only: st_push_tree_recursive.simps h deep(2) Let_def ss map_butlast map_append
          list.map option.case if_False bind.bind_lunit prod.case diff_is_0_eq)
    ultimately show ?thesis by simp
  qed
next
  case (Leaf s xs ss)
  then obtain os oxs oss where "other = Leaf os oxs oss"
    by (cases other) (auto simp: neq_Nil_conv)
  with Leaf.prems show ?case
    using push_items [of xs oxs s os] node_add_summary [OF Leaf.prems(1,2)]
    by (simp add: Let_def)
qed

lemma concat_map_append: "concat (map f (xs @ ys)) = concat (map f xs) @ concat (map f ys)"
  by simp

lemma merge_into_right:
  assumes "st_node ops small" "st_node ops large" "st_height small = st_height large"
  shows "grown_left ops (st_height large) (st_items small @ st_items large)
    (st_merge_into_right ops small large)"
proof (cases large)
  case (Internal h s ss ts)
  then obtain s1 ss1 ts1 where small: "small = Internal h s1 ss1 ts1"
    using assms by (cases small) (auto simp: neq_Nil_conv)
  let ?ts = "ts1 @ ts" and ?n = "length ts + length ts1"
  have nodes: "\<forall>t \<in> set ?ts. st_node ops t \<and> Suc (st_height t) = h"
    and len: "ts \<noteq> []" "ts1 \<noteq> []" "length ts \<le> 2 * TREE_BASE" "length ts1 \<le> 2 * TREE_BASE"
    and ss: "ss1 @ ss = map st_summary ?ts"
    using assms small Internal by auto
  have sum: "sm_add ops s1 s = sum_items ops (concat (map st_items ?ts))"
    using node_add_summary [OF assms(1,2)] small Internal by simp
  show ?thesis
  proof (cases "?n \<le> 2 * TREE_BASE")
    case True
    then have "st_node ops (Internal h (sm_add ops s1 s) (map st_summary ?ts) ?ts)"
      using len nodes sum by (intro node_internalI) auto
    moreover have "concat (map st_items ?ts) = concat (map st_items ts1) @ concat (map st_items ts)"
      by simp
    ultimately show ?thesis
      using True small Internal by (simp add: grown_left_def Let_def ss del: map_append)
  next
    case False
    then have m: "0 < (?n + 1) div 2" "(?n + 1) div 2 < length ?ts" "(?n + 1) div 2 \<le> 2 * TREE_BASE"
        "length ?ts - (?n + 1) div 2 \<le> 2 * TREE_BASE"
      using len TREE_BASE_pos by (simp_all; linarith)+
    show ?thesis
      using False m node_take_drop [OF m nodes] concat_items_take_drop [of "(?n + 1) div 2" ?ts] small Internal
      by (simp add: grown_left_def Let_def ss concat_map_append del: map_append take_append drop_append)
  qed
next
  case (Leaf s xs ss)
  then obtain s1 xs1 ss1 where small: "small = Leaf s1 xs1 ss1"
    using assms by (cases small) (auto simp: neq_Nil_conv)
  let ?xs = "xs1 @ xs" and ?n = "length xs1 + length xs"
  have len: "xs \<noteq> []" "xs1 \<noteq> []" "length xs \<le> 2 * TREE_BASE" "length xs1 \<le> 2 * TREE_BASE"
    and ss: "ss1 @ ss = map (sm_item ops) ?xs"
    using assms small Leaf by auto
  have sum: "sm_add ops s1 s = sum_items ops ?xs"
    using node_add_summary [OF assms(1,2)] small Leaf by simp
  show ?thesis
  proof (cases "?n \<le> 2 * TREE_BASE")
    case True
    then have "st_node ops (Leaf (sm_add ops s1 s) ?xs (map (sm_item ops) ?xs))"
      using len sum by (intro node_leafI) auto
    with True show ?thesis
      using small Leaf by (simp add: grown_left_def Let_def ss del: map_append)
  next
    case False
    then have m: "0 < (?n + 1) div 2" "(?n + 1) div 2 < length ?xs" "(?n + 1) div 2 \<le> 2 * TREE_BASE"
        "length ?xs - (?n + 1) div 2 \<le> 2 * TREE_BASE"
      using len TREE_BASE_pos by (simp_all; linarith)+
    show ?thesis
      using False m leaf_take_drop [OF m] small Leaf
      by (simp add: grown_left_def Let_def ss del: map_append take_append drop_append st_node.simps)
  qed
qed

lemma append_large:
  "st_node ops small \<Longrightarrow> st_node ops large \<Longrightarrow> st_height small \<le> st_height large \<Longrightarrow>
   grown_left ops (st_height large) (st_items small @ st_items large) (st_append_large ops small large)"
proof (induction large)
  case (Internal h s ss ts)
  let ?large = "Internal h s ss ts"
  have ts: "ts \<noteq> []" "length ts \<le> 2 * TREE_BASE" "\<forall>t \<in> set ts. st_node ops t \<and> Suc (st_height t) = h"
    and ss: "ss = map st_summary ts" using Internal.prems(2) by simp_all
  show ?case
  proof (cases "st_height small = h")
    case True
    then show ?thesis
      using merge_into_right [OF Internal.prems(1,2)] Internal.prems(1,2)
      by (auto simp: grown_left_def)
  next
    case False
    then have lt: "st_height small < h" using Internal.prems(3) by simp
    have hd: "hd ts \<in> set ts" using ts(1) by simp
    have "grown_left ops (st_height (hd ts)) (st_items small @ st_items (hd ts))
        (st_append_large ops small (hd ts))"
    proof (rule Internal.IH [OF hd Internal.prems(1)])
      have "Suc (st_height (hd ts)) = h" using ts hd by blast
      with lt show "st_height small \<le> st_height (hd ts)" by linarith
    qed (use ts hd in blast)
    then obtain first res where rec: "st_append_large ops small (hd ts) = Some (first, res)"
      and first: "st_node ops first" "Suc (st_height first) = h"
      and res: "case res of None \<Rightarrow> st_items first = st_items small @ st_items (hd ts)
        | Some l \<Rightarrow> st_node ops l \<and> Suc (st_height l) = h \<and>
            st_items l @ st_items first = st_items small @ st_items (hd ts)"
      using ts hd by (fastforce simp: grown_left_def split: option.splits)
    let ?ts = "first # tl ts"
    have ss': "st_summary first # tl ss = map st_summary ?ts" by (simp add: ss map_tl)
    have nodes: "\<forall>t \<in> set ?ts. st_node ops t \<and> Suc (st_height t) = h"
      using ts first by (auto dest: list.set_sel(2))
    have len: "length ?ts = length ts" using ts(1) by simp
    have items: "concat (map st_items ts) = st_items (hd ts) @ concat (map st_items (tl ts))"
      using ts(1) by (cases ts) simp_all
    have sum: "sm_add ops (st_summary small) s = sum_items ops (st_items small @ concat (map st_items ts))"
      using node_add_summary [OF Internal.prems(1,2)] by simp
    show ?thesis
    proof (cases res)
      case None
      then have "st_items small @ concat (map st_items ts) = concat (map st_items ?ts)"
        using res items by simp
      moreover from this have "st_node ops (Internal h (sm_add ops (st_summary small) s) (map st_summary ?ts) ?ts)"
        using nodes len ts(2) sum by (intro node_internalI) auto
      ultimately show ?thesis
        using None rec False ts(1) ss' by (simp add: grown_left_def Let_def del: list.map)
    next
      case (Some tree)
      let ?all = "tree # ?ts"
      have all: "\<forall>t \<in> set ?all. st_node ops t \<and> Suc (st_height t) = h"
        and itm: "st_items small @ concat (map st_items ts) = concat (map st_items ?all)"
        using nodes res Some items by auto
      show ?thesis
      proof (cases "length ?ts < 2 * TREE_BASE")
        case True
        then have "st_node ops (Internal h (sm_add ops (st_summary small) s) (map st_summary ?all) ?all)"
          using all itm sum by (intro node_internalI) auto
        with True Some rec False ts(1) ss' itm show ?thesis
          by (simp add: grown_left_def Let_def)
      next
        case full: False
        let ?n = "Suc TREE_BASE"
        from full have n: "0 < ?n" "?n < length ?all" "?n \<le> 2 * TREE_BASE" "length ?all - ?n \<le> 2 * TREE_BASE"
          using ts(2) len TREE_BASE_pos by (simp_all; linarith)+
        have "st_summary tree # take TREE_BASE (map st_summary ?ts) = take ?n (map st_summary ?all)"
          "drop TREE_BASE (map st_summary ?ts) = drop ?n (map st_summary ?all)"
          "tree # take TREE_BASE ?ts = take ?n ?all" "drop TREE_BASE ?ts = drop ?n ?all" by simp_all
        with node_take_drop [OF n all] concat_items_take_drop [of ?n ?all] n full Some rec False ts(1) ss' itm
        show ?thesis
          by (simp add: grown_left_def Let_def del: take_Suc_Cons drop_Suc_Cons)
      qed
    qed
  qed
next
  case (Leaf s xs ss)
  then have "st_height small = 0" by simp
  with Leaf show ?case
    using merge_into_right [OF Leaf.prems(1,2)] by (auto simp: grown_left_def)
qed

lemma from_child_trees:
  assumes "st_node ops l" "st_node ops r" "st_height l = h" "st_height r = h"
  shows "\<exists>t. st_from_child_trees ops l r = Some t \<and> st_node ops t \<and> st_items t = st_items l @ st_items r"
proof -
  have "2 \<le> 2 * TREE_BASE" using TREE_BASE_pos by linarith
  moreover have "st_node ops (Internal (Suc h) (sum_summaries ops (map st_summary [l, r])) (map st_summary [l, r]) [l, r])"
    using assms by (simp add: TREE_BASE_def)
  ultimately show ?thesis using assms by (simp add: st_from_child_trees_def)
qed

lemma append:
  assumes "st_wf ops t" "st_wf ops other"
  shows "\<exists>t'. st_append ops t other = Some t' \<and> st_wf ops t' \<and> st_items t' = st_items t @ st_items other"
proof -
  consider "t = st_new ops" | "other = st_new ops" "st_node ops t"
    | (both) "st_node ops t" "st_node ops other"
    using assms by (auto simp: st_wf_def)
  then show ?thesis
  proof cases
    case both
    have ne: "\<not> st_is_empty t" "\<not> st_is_empty other" using both by (simp_all add: st_node_not_empty)
    show ?thesis
    proof (cases "st_height t < st_height other")
      case True
      from append_large [OF both] True
      obtain o' res where rec: "st_append_large ops t other = Some (o', res)"
        and o': "st_node ops o'" "st_height o' = st_height other"
        and res: "case res of None \<Rightarrow> st_items o' = st_items t @ st_items other
          | Some l \<Rightarrow> st_node ops l \<and> st_height l = st_height other \<and>
              st_items l @ st_items o' = st_items t @ st_items other"
        by (auto simp: grown_left_def)
      show ?thesis
      proof (cases res)
        case (Some l)
        then show ?thesis
          using from_child_trees [of l o' "st_height other"] o' res rec True ne
          by (auto simp: st_append_def st_wf_def)
      qed (use o' res rec True ne in \<open>simp add: st_append_def st_wf_def\<close>)
    next
      case False
      with push_tree_recursive [OF both]
      obtain t' sp where rec: "st_push_tree_recursive ops t other = Some (t', sp)"
        and t': "st_node ops t'" "st_height t' = st_height t"
        and sp: "case sp of None \<Rightarrow> st_items t' = st_items t @ st_items other
          | Some r \<Rightarrow> st_node ops r \<and> st_height r = st_height t \<and>
              st_items t' @ st_items r = st_items t @ st_items other"
        by (auto simp: grown_right_def)
      show ?thesis
      proof (cases sp)
        case (Some r)
        then show ?thesis
          using from_child_trees [of t' r "st_height t"] t' sp rec False ne
          by (auto simp: st_append_def st_wf_def)
      qed (use t' sp rec False ne in \<open>simp add: st_append_def st_wf_def\<close>)
    qed
  qed (use assms in \<open>auto simp: st_append_def st_new_def st_node_not_empty\<close>)
qed

lemma leaf_single: "st_node ops (Leaf (sm_item ops x) [x] [sm_item ops x])"
  by (simp add: sum_singleton TREE_BASE_def)

lemma push:
  assumes "st_wf ops t"
  shows "\<exists>t'. st_push ops t x = Some t' \<and> st_wf ops t' \<and> st_items t' = st_items t @ [x]"
  using append [OF assms, of "Leaf (sm_item ops x) [x] [sm_item ops x]"] leaf_single [of x]
  by (simp add: st_push_def Let_def st_wf_def)

end

end
