(* ===== verification/Zed_SumTree_Build.thy ===== *)
theory Zed_SumTree_Build
  imports Zed_SumTree
begin

text \<open>
  Building a tree from a sequence (\<open>from_iter\<close>, \<open>from_par_iter\<close> and the two \<open>extend\<close>s of
  \<open>crates/sum_tree/src/sum_tree.rs\<close>): the level-by-level loops, their termination, that they
  hold exactly the items of the sequence and never panic, and that the parallel and the
  sequential construction give the very same tree.
\<close>

subsection \<open>Building from a sequence\<close>

text \<open>One leaf: the summary starts from the first item's summary, not from zero.\<close>

definition st_leaf_of :: "('t, 's) summary_ops \<Rightarrow> 't list \<Rightarrow> ('t, 's) sum_tree option" where
  "st_leaf_of ops xs = do {
     items \<leftarrow> array_vec xs;
     let ss = map (sm_item ops) items;
     (case ss of
        [] \<Rightarrow> None
      | s # rest \<Rightarrow> Some (Leaf (foldl (sm_add ops) s rest) items ss)) }"

function st_from_iter_leaves ::
    "('t, 's) summary_ops \<Rightarrow> 't list \<Rightarrow> ('t, 's) sum_tree list option" where
  "st_from_iter_leaves ops xs =
     (if xs = [] then Some [] else do {
        leaf \<leftarrow> st_leaf_of ops (take (2 * TREE_BASE) xs);
        rest \<leftarrow> st_from_iter_leaves ops (drop (2 * TREE_BASE) xs);
        Some (leaf # rest) })"
  by pat_completeness auto
termination
  by (relation "measure (\<lambda>(_, xs). length xs)") (auto simp: TREE_BASE_def)

declare st_from_iter_leaves.simps [simp del]

text \<open>
  One pass of the \<open>while nodes.len() > 1\<close> loop: children are added to the current parent,
  which moves to the finished parents once it is full.
\<close>

fun st_from_iter_level ::
    "('t, 's) summary_ops \<Rightarrow> nat \<Rightarrow> ('t, 's) sum_tree list \<Rightarrow>
       ('s \<times> 's list \<times> ('t, 's) sum_tree list) option \<Rightarrow>
       ('t, 's) sum_tree list \<Rightarrow> ('t, 's) sum_tree list option" where
  "st_from_iter_level ops height parents cur [] =
     Some (case cur of None \<Rightarrow> parents | Some (s, ss, ts) \<Rightarrow> parents @ [Internal height s ss ts])"
| "st_from_iter_level ops height parents cur (child # rest) = do {
     let (s, ss, ts) = (case cur of None \<Rightarrow> (sm_zero ops, [], []) | Some parent \<Rightarrow> parent);
     let s = sm_add ops s (st_summary child);
     ss \<leftarrow> array_vec (ss @ [st_summary child]);
     ts \<leftarrow> array_vec (ts @ [child]);
     (if length ts = 2 * TREE_BASE
      then st_from_iter_level ops height (parents @ [Internal height s ss ts]) None rest
      else st_from_iter_level ops height parents (Some (s, ss, ts)) rest) }"

text \<open>A pass leaves one parent per \<open>2 * TREE_BASE\<close> children, so the loop ends.\<close>

lemma st_from_iter_level_length:
  assumes "st_from_iter_level ops height parents cur nodes = Some res"
    and "case cur of None \<Rightarrow> True | Some (s, ss, ts) \<Rightarrow> ts \<noteq> [] \<and> length ts < 2 * TREE_BASE"
  shows "length res * (2 * TREE_BASE) <
    (length parents + 1) * (2 * TREE_BASE) + (case cur of None \<Rightarrow> 0 | Some (s, ss, ts) \<Rightarrow> length ts) + length nodes"
  using assms
proof (induction ops height parents cur nodes rule: st_from_iter_level.induct)
  case (1 ops height parents cur)
  then show ?case by (auto simp: TREE_BASE_def split: option.splits)
next
  case (2 ops height parents cur child rest)
  obtain s ss ts where cur: "(case cur of None \<Rightarrow> (sm_zero ops, [], []) | Some parent \<Rightarrow> parent) = (s, ss, ts)"
    by (metis prod_cases3)
  have len: "(case cur of None \<Rightarrow> 0 | Some (s, ss, ts) \<Rightarrow> length ts) = length ts" "length ts < 2 * TREE_BASE"
    using cur 2(4) by (auto simp: TREE_BASE_def split: option.splits)
  obtain ss' ts' where av: "array_vec (ss @ [st_summary child]) = Some ss'" "array_vec (ts @ [child]) = Some ts'"
    using 2(3) by (auto simp: cur Let_def bind_eq_Some_conv)
  then have ts': "ts' = ts @ [child]" by (simp add: array_vec_def split: if_splits)
  let ?s = "sm_add ops s (st_summary child)"
  show ?case
  proof (cases "length ts' = 2 * TREE_BASE")
    case True
    then have "st_from_iter_level ops height (parents @ [Internal height ?s ss' ts']) None rest = Some res"
      using 2(3) by (simp add: cur Let_def av)
    then have "length res * (2 * TREE_BASE) < (length parents + 2) * (2 * TREE_BASE) + length rest"
      using 2(1) [OF cur [symmetric] refl refl refl av True] by simp
    with True len ts' show ?thesis by simp
  next
    case False
    then have "st_from_iter_level ops height parents (Some (?s, ss', ts')) rest = Some res"
      using 2(3) by (simp add: cur Let_def av)
    moreover have "length ts' < 2 * TREE_BASE" using len ts' False by simp
    ultimately show ?thesis
      using 2(2) [OF cur [symmetric] refl refl refl av False] len ts' by simp
  qed
qed

function st_from_iter_levels ::
    "('t, 's) summary_ops \<Rightarrow> nat \<Rightarrow> ('t, 's) sum_tree list \<Rightarrow> ('t, 's) sum_tree list option" where
  "st_from_iter_levels ops height nodes =
     (if 1 < length nodes then do {
        nodes \<leftarrow> st_from_iter_level ops (height + 1) [] None nodes;
        st_from_iter_levels ops (height + 1) nodes }
      else Some nodes)"
  by pat_completeness auto
termination
proof (relation "measure (\<lambda>(_, _, nodes). length nodes)")
  fix ops :: "('t, 's) summary_ops" and height and nodes nodes' :: "('t, 's) sum_tree list"
  assume "1 < length nodes" "st_from_iter_level ops (height + 1) [] None nodes = Some nodes'"
  then have "length nodes' * 12 < 12 + length nodes"
    using st_from_iter_level_length [of ops "height + 1" "[]" None nodes nodes']
    by (simp add: TREE_BASE_def)
  with \<open>1 < length nodes\<close>
  show "((ops, height + 1, nodes'), ops, height, nodes) \<in> measure (\<lambda>(_, _, nodes). length nodes)"
    by simp
qed simp

declare st_from_iter_levels.simps [simp del]

definition st_from_iter :: "('t, 's) summary_ops \<Rightarrow> 't list \<Rightarrow> ('t, 's) sum_tree option" where
  "st_from_iter ops xs = do {
     nodes \<leftarrow> st_from_iter_leaves ops xs;
     nodes \<leftarrow> st_from_iter_levels ops 0 nodes;
     (case nodes of [] \<Rightarrow> Some (st_new ops) | _ \<Rightarrow> Some (last nodes)) }"

definition st_extend :: "('t, 's) summary_ops \<Rightarrow> ('t, 's) sum_tree \<Rightarrow> 't list \<Rightarrow> ('t, 's) sum_tree option" where
  "st_extend ops t xs = do { other \<leftarrow> st_from_iter ops xs; st_append ops t other }"

text \<open>\<open>from_par_iter\<close>: the same levels, each built from the chunks of the level below.\<close>

function chunks :: "nat \<Rightarrow> 'a list \<Rightarrow> 'a list list" where
  "chunks n xs = (if xs = [] \<or> n = 0 then [] else take n xs # chunks n (drop n xs))"
  by pat_completeness auto
termination by (relation "measure (\<lambda>(_, xs). length xs)") auto

declare chunks.simps [simp del]

definition st_internal_of ::
    "('t, 's) summary_ops \<Rightarrow> nat \<Rightarrow> ('t, 's) sum_tree list \<Rightarrow> ('t, 's) sum_tree option" where
  "st_internal_of ops height nodes = do {
     ts \<leftarrow> array_vec nodes;
     let ss = map st_summary ts;
     (case ss of
        [] \<Rightarrow> None
      | s # rest \<Rightarrow> Some (Internal height (foldl (sm_add ops) s rest) ss ts)) }"

lemma those_length: "those xs = Some ys \<Longrightarrow> length ys = length xs"
  by (induction xs arbitrary: ys) (auto split: option.splits)

lemma length_chunks: "0 < n \<Longrightarrow> length (chunks n xs) * n < length xs + n"
proof (induction n xs rule: chunks.induct)
  case (1 n xs)
  show ?case
  proof (cases "xs = []")
    case False
    with 1 have "length (chunks n (drop n xs)) * n < length (drop n xs) + n" by simp
    moreover have "length (chunks n (drop n xs)) * n = 0" if "length xs \<le> n"
      using that by (subst chunks.simps) simp
    ultimately show ?thesis
      using False 1 by (subst chunks.simps, cases "length xs \<le> n") auto
  qed (use 1 in \<open>subst chunks.simps; simp\<close>)
qed

function st_from_par_levels ::
    "('t, 's) summary_ops \<Rightarrow> nat \<Rightarrow> ('t, 's) sum_tree list \<Rightarrow> ('t, 's) sum_tree list option" where
  "st_from_par_levels ops height nodes =
     (if 1 < length nodes then do {
        nodes \<leftarrow> those (map (st_internal_of ops (height + 1)) (chunks (2 * TREE_BASE) nodes));
        st_from_par_levels ops (height + 1) nodes }
      else Some nodes)"
  by pat_completeness auto
termination
proof (relation "measure (\<lambda>(_, _, nodes). length nodes)")
  fix ops :: "('t, 's) summary_ops" and height and nodes nodes' :: "('t, 's) sum_tree list"
  assume "1 < length nodes" "those (map (st_internal_of ops (height + 1)) (chunks (2 * TREE_BASE) nodes)) = Some nodes'"
  then have "length nodes' * 12 < length nodes + 12"
    using length_chunks [of "2 * TREE_BASE" nodes] those_length by (fastforce simp: TREE_BASE_def)
  with \<open>1 < length nodes\<close>
  show "((ops, height + 1, nodes'), ops, height, nodes) \<in> measure (\<lambda>(_, _, nodes). length nodes)"
    by simp
qed simp

declare st_from_par_levels.simps [simp del]

definition st_from_par_iter :: "('t, 's) summary_ops \<Rightarrow> 't list \<Rightarrow> ('t, 's) sum_tree option" where
  "st_from_par_iter ops xs = do {
     nodes \<leftarrow> those (map (st_leaf_of ops) (chunks (2 * TREE_BASE) xs));
     nodes \<leftarrow> st_from_par_levels ops 0 nodes;
     (case nodes of [] \<Rightarrow> Some (st_new ops) | _ \<Rightarrow> Some (last nodes)) }"

definition st_par_extend :: "('t, 's) summary_ops \<Rightarrow> ('t, 's) sum_tree \<Rightarrow> 't list \<Rightarrow> ('t, 's) sum_tree option" where
  "st_par_extend ops t xs = do { other \<leftarrow> st_from_par_iter ops xs; st_append ops t other }"


section \<open>Both constructions build the same tree\<close>

lemma chunks_Nil [simp]: "chunks n [] = []"
  by (simp add: chunks.simps)

lemma chunks_full: "0 < n \<Longrightarrow> length xs = n \<Longrightarrow> chunks n (xs @ ys) = xs # chunks n ys"
  by (subst chunks.simps) auto

lemma chunks_short: "xs \<noteq> [] \<Longrightarrow> length xs \<le> n \<Longrightarrow> chunks n xs = [xs]"
  by (cases xs) (auto simp: chunks.simps)

lemma concat_chunks: "0 < n \<Longrightarrow> concat (chunks n xs) = xs"
proof (induction n xs rule: chunks.induct)
  case (1 n xs)
  then show ?case by (cases "xs = []") (subst chunks.simps; simp)+
qed

lemma in_chunks: "0 < n \<Longrightarrow> c \<in> set (chunks n xs) \<Longrightarrow> c \<noteq> [] \<and> length c \<le> n \<and> set c \<subseteq> set xs"
proof (induction n xs rule: chunks.induct)
  case (1 n xs)
  have ne: "xs \<noteq> []" using 1(3) by auto
  then have "chunks n xs = take n xs # chunks n (drop n xs)" using 1(2) by (subst chunks.simps) simp
  then consider "c = take n xs" | "c \<in> set (chunks n (drop n xs))" using 1(3) by auto
  then show ?case
  proof cases
    case 2
    then show ?thesis using 1(1) ne 1(2) set_drop_subset [of n xs] by auto
  qed (use 1(2) ne set_take_subset [of n xs] in auto)
qed

lemma those_map_Some: "(\<And>x. x \<in> set xs \<Longrightarrow> f x = Some (g x)) \<Longrightarrow> those (map f xs) = Some (map g xs)"
  by (induction xs) simp_all

text \<open>The leaf and the inner node that the loops make of a chunk.\<close>

definition leaf_for :: "('t, 's) summary_ops \<Rightarrow> 't list \<Rightarrow> ('t, 's) sum_tree" where
  "leaf_for ops xs = Leaf (sum_items ops xs) xs (map (sm_item ops) xs)"

definition parent_for :: "('t, 's) summary_ops \<Rightarrow> nat \<Rightarrow> ('t, 's) sum_tree list \<Rightarrow> ('t, 's) sum_tree" where
  "parent_for ops h ts = Internal h (sum_summaries ops (map st_summary ts)) (map st_summary ts) ts"

lemma parent_items: "st_items (parent_for ops h ts) = concat (map st_items ts)"
  by (simp add: parent_for_def)

lemma concat_map_concat: "concat (map f (concat cs)) = concat (map (\<lambda>c. concat (map f c)) cs)"
  by (induction cs) simp_all

context summary_laws
begin

lemma leaf_of: "xs \<noteq> [] \<Longrightarrow> length xs \<le> 2 * TREE_BASE \<Longrightarrow> st_leaf_of ops xs = Some (leaf_for ops xs)"
  by (cases xs) (simp_all add: st_leaf_of_def leaf_for_def sum_items_def sum_Cons Let_def)

lemma internal_of:
  "ts \<noteq> [] \<Longrightarrow> length ts \<le> 2 * TREE_BASE \<Longrightarrow> st_internal_of ops h ts = Some (parent_for ops h ts)"
  by (cases ts) (simp_all add: st_internal_of_def parent_for_def sum_Cons Let_def)

lemma par_leaves: "those (map (st_leaf_of ops) (chunks (2 * TREE_BASE) xs)) =
    Some (map (leaf_for ops) (chunks (2 * TREE_BASE) xs))"
proof (rule those_map_Some)
  fix c assume "c \<in> set (chunks (2 * TREE_BASE) xs)"
  then have "c \<noteq> [] \<and> length c \<le> 2 * TREE_BASE \<and> set c \<subseteq> set xs" by (intro in_chunks) simp_all
  then show "st_leaf_of ops c = Some (leaf_for ops c)" by (simp add: leaf_of)
qed

lemma par_level: "those (map (st_internal_of ops h) (chunks (2 * TREE_BASE) ts)) =
    Some (map (parent_for ops h) (chunks (2 * TREE_BASE) ts))"
proof (rule those_map_Some)
  fix c assume "c \<in> set (chunks (2 * TREE_BASE) ts)"
  then have "c \<noteq> [] \<and> length c \<le> 2 * TREE_BASE \<and> set c \<subseteq> set ts" by (intro in_chunks) simp_all
  then show "st_internal_of ops h c = Some (parent_for ops h c)" by (simp add: internal_of)
qed

lemma iter_leaves: "st_from_iter_leaves ops xs = Some (map (leaf_for ops) (chunks (2 * TREE_BASE) xs))"
proof (induction "length xs" arbitrary: xs rule: less_induct)
  case less
  show ?case
  proof (cases "xs = []")
    case False
    then have "length (drop (2 * TREE_BASE) xs) < length xs" by (simp add: TREE_BASE_def)
    from less.hyps [OF this] False show ?thesis
      by (subst st_from_iter_leaves.simps, subst chunks.simps) (simp add: leaf_of)
  qed (simp add: st_from_iter_leaves.simps)
qed

lemma iter_level:
  "length pre < 2 * TREE_BASE \<Longrightarrow>
   st_from_iter_level ops h parents
     (if pre = [] then None else Some (sum_summaries ops (map st_summary pre), map st_summary pre, pre)) nodes =
   Some (parents @ map (parent_for ops h) (chunks (2 * TREE_BASE) (pre @ nodes)))"
proof (induction nodes arbitrary: pre parents)
  case Nil
  then show ?case by (simp add: chunks_short parent_for_def)
next
  case (Cons child rest)
  let ?pre = "pre @ [child]" and ?s = "\<lambda>ts. sum_summaries ops (map st_summary ts)"
  have s: "sm_add ops (?s pre) (st_summary child) = ?s ?pre" by (simp add: sum_summaries_def)
  have cur: "(case (if pre = [] then None else Some (?s pre, map st_summary pre, pre)) of
      None \<Rightarrow> (sm_zero ops, [], []) | Some parent \<Rightarrow> parent) = (?s pre, map st_summary pre, pre)"
    by (simp add: sum_summaries_def)
  have len: "length ?pre \<le> 2 * TREE_BASE" using Cons.prems by simp
  show ?case
  proof (cases "length ?pre = 2 * TREE_BASE")
    case True
    have "chunks (2 * TREE_BASE) (?pre @ rest) = ?pre # chunks (2 * TREE_BASE) rest"
      by (rule chunks_full) (use True in simp_all)
    then show ?thesis
      using True len Cons.IH [of "[]" "parents @ [parent_for ops h ?pre]"]
      by (simp only: st_from_iter_level.simps cur Let_def prod.case s) (simp add: parent_for_def)
  next
    case False
    then show ?thesis
      using len Cons.IH [of ?pre parents]
      by (simp only: st_from_iter_level.simps cur Let_def prod.case s) simp
  qed
qed

lemma iter_level_chunks:
  "st_from_iter_level ops h [] None ts = Some (map (parent_for ops h) (chunks (2 * TREE_BASE) ts))"
  using iter_level [of "[]" h "[]" ts] by simp

lemma levels_eq: "st_from_iter_levels ops h ts = st_from_par_levels ops h ts"
proof (induction "length ts" arbitrary: h ts rule: less_induct)
  case less
  let ?up = "map (parent_for ops (h + 1)) (chunks (2 * TREE_BASE) ts)"
  show ?case
  proof (cases "1 < length ts")
    case True
    then have "length ?up < length ts"
      using length_chunks [of "2 * TREE_BASE" ts] by (simp add: TREE_BASE_def)
    with less have "st_from_iter_levels ops (h + 1) ?up = st_from_par_levels ops (h + 1) ?up" by blast
    with True show ?thesis
      by (subst st_from_iter_levels.simps, subst st_from_par_levels.simps)
        (simp add: iter_level_chunks par_level)
  qed (simp add: st_from_iter_levels.simps st_from_par_levels.simps)
qed

lemma from_iter_eq: "st_from_iter ops xs = st_from_par_iter ops xs"
  by (simp add: st_from_iter_def st_from_par_iter_def iter_leaves par_leaves levels_eq)

lemma leaf_for_node: "xs \<noteq> [] \<Longrightarrow> length xs \<le> 2 * TREE_BASE \<Longrightarrow> st_node ops (leaf_for ops xs)"
  by (simp add: leaf_for_def node_leafI del: st_node.simps)

lemma parent_for_node:
  "ts \<noteq> [] \<Longrightarrow> length ts \<le> 2 * TREE_BASE \<Longrightarrow> \<forall>t \<in> set ts. st_node ops t \<and> st_height t = h \<Longrightarrow>
   st_node ops (parent_for ops (Suc h) ts)"
  by (simp add: parent_for_def)

lemma levels:
  assumes "\<forall>t \<in> set ts. st_node ops t \<and> st_height t = h"
  shows "\<exists>res. st_from_iter_levels ops h ts = Some res \<and> length res \<le> 1 \<and> (\<forall>t \<in> set res. st_node ops t) \<and>
    concat (map st_items res) = concat (map st_items ts)"
  using assms
proof (induction "length ts" arbitrary: h ts rule: less_induct)
  case less
  let ?up = "map (parent_for ops (Suc h)) (chunks (2 * TREE_BASE) ts)"
  show ?case
  proof (cases "1 < length ts")
    case True
    have "length ?up < length ts"
      using True length_chunks [of "2 * TREE_BASE" ts] by (simp add: TREE_BASE_def)
    moreover have "\<forall>t \<in> set ?up. st_node ops t \<and> st_height t = Suc h"
    proof
      fix t assume "t \<in> set ?up"
      then obtain c where c: "c \<in> set (chunks (2 * TREE_BASE) ts)" "t = parent_for ops (Suc h) c" by auto
      then have "c \<noteq> [] \<and> length c \<le> 2 * TREE_BASE \<and> set c \<subseteq> set ts" by (intro in_chunks) simp_all
      with c less.prems show "st_node ops t \<and> st_height t = Suc h"
        by (auto intro!: parent_for_node) (simp add: parent_for_def)
    qed
    ultimately obtain res where res: "st_from_iter_levels ops (Suc h) ?up = Some res" "length res \<le> 1"
        "\<forall>t \<in> set res. st_node ops t" "concat (map st_items res) = concat (map st_items ?up)"
      using less.hyps by blast
    have "concat (map st_items ?up) = concat (map st_items (concat (chunks (2 * TREE_BASE) ts)))"
      by (simp add: parent_items concat_map_concat comp_def)
    then have "concat (map st_items res) = concat (map st_items ts)"
      using res(4) by (simp add: concat_chunks)
    with True res show ?thesis
      by (subst st_from_iter_levels.simps) (simp add: iter_level_chunks)
  next
    case False
    then show ?thesis using less.prems by (subst st_from_iter_levels.simps) auto
  qed
qed

lemma from_iter: "\<exists>t. st_from_iter ops xs = Some t \<and> st_wf ops t \<and> st_items t = xs"
proof -
  let ?ls = "map (leaf_for ops) (chunks (2 * TREE_BASE) xs)"
  have "\<forall>t \<in> set ?ls. st_node ops t \<and> st_height t = 0"
  proof
    fix t assume "t \<in> set ?ls"
    then obtain c where c: "c \<in> set (chunks (2 * TREE_BASE) xs)" "t = leaf_for ops c" by auto
    then have "c \<noteq> [] \<and> length c \<le> 2 * TREE_BASE \<and> set c \<subseteq> set xs" by (intro in_chunks) simp_all
    with c show "st_node ops t \<and> st_height t = 0" by (simp add: leaf_for_node) (simp add: leaf_for_def)
  qed
  from levels [OF this]
  obtain res where res: "st_from_iter_levels ops 0 ?ls = Some res" "length res \<le> 1"
      "\<forall>t \<in> set res. st_node ops t" "concat (map st_items res) = concat (map st_items ?ls)"
    by blast
  have "concat (map st_items ?ls) = xs"
    by (simp add: leaf_for_def comp_def concat_chunks)
  with res(4) have "concat (map st_items res) = xs" by simp
  with res(1-3) show ?thesis
    by (cases res) (simp_all add: st_from_iter_def iter_leaves st_wf_def)
qed

lemma extend:
  assumes "st_wf ops t"
  shows "\<exists>t'. st_extend ops t xs = Some t' \<and> st_wf ops t' \<and> st_items t' = st_items t @ xs"
  using from_iter [of xs] append [OF assms] by (fastforce simp: st_extend_def)

lemma par_extend_eq: "st_par_extend ops t xs = st_extend ops t xs"
  by (simp add: st_par_extend_def st_extend_def from_iter_eq)

end

end
