(* ===== verification/Zed_SumTree_Find.thy ===== *)
theory Zed_SumTree_Find
  imports Zed_SumTree
begin

text \<open>
  Searching from the root of a tree (\<open>find\<close>, \<open>find_exact\<close> and \<open>find_with_prev\<close> of
  \<open>crates/sum_tree/src/sum_tree.rs\<close>), the extent, the first and last item and their updates.
  A \<open>Dimension\<close> is a dictionary record, a \<open>SeekTarget\<close> its \<open>cmp\<close> as a function of the
  cursor location.  The searches are refined to linear searches in the list of the items.
\<close>

section \<open>Dimensions and seek targets\<close>

record ('s, 'd) dimension =
  dm_zero :: 'd
  dm_add :: "'d \<Rightarrow> 's \<Rightarrow> 'd"

definition dm_from_summary :: "('s, 'd) dimension \<Rightarrow> 's \<Rightarrow> 'd" where
  "dm_from_summary dim s = dm_add dim (dm_zero dim) s"

text \<open>Every summary is a dimension of itself; a triple of dimensions is one.\<close>

definition dim_summary :: "('t, 's) summary_ops \<Rightarrow> ('s, 's) dimension" where
  "dim_summary ops = \<lparr>dm_zero = sm_zero ops, dm_add = sm_add ops\<rparr>"

definition dim_unit :: "('s, unit) dimension" where
  "dim_unit = \<lparr>dm_zero = (), dm_add = \<lambda>_ _. ()\<rparr>"

definition dim_triple ::
    "('s, 'a) dimension \<Rightarrow> ('s, 'b) dimension \<Rightarrow> ('s, 'c) dimension \<Rightarrow> ('s, 'a \<times> 'b \<times> 'c) dimension" where
  "dim_triple d1 d2 d3 =
     \<lparr>dm_zero = (dm_zero d1, dm_zero d2, dm_zero d3),
      dm_add = \<lambda>(a, b, c) s. (dm_add d1 a s, dm_add d2 b s, dm_add d3 c s)\<rparr>"

type_synonym 'd seek_target = "'d \<Rightarrow> ordering"

text \<open>The target is the location of an ordered dimension itself, or its first component.\<close>

definition target_of :: "'d::linorder \<Rightarrow> 'd seek_target" where
  "target_of d = (\<lambda>location. cmp d location)"

definition target_fst :: "'a seek_target \<Rightarrow> ('a \<times> 'b \<times> 'c) seek_target" where
  "target_fst target = (\<lambda>(a, b, c). target a)"

text \<open>A search walks past a position when the target is beyond it, or at it with bias right.\<close>

definition seek_past :: "'d seek_target \<Rightarrow> bias \<Rightarrow> 'd \<Rightarrow> bool" where
  "seek_past target b e \<longleftrightarrow> target e = Greater \<or> target e = Equal \<and> b = BRight"

section \<open>The searches\<close>

fun st_find_items ::
    "('s, 'd) dimension \<Rightarrow> bool \<Rightarrow> 'd seek_target \<Rightarrow> bias \<Rightarrow> 'd \<Rightarrow> 't list \<Rightarrow> 's list \<Rightarrow>
       'd \<times> ('t \<times> 'd) option" where
  "st_find_items dim exact target b pos (x # xs) (s # ss) =
     (let child_end = dm_add dim pos s;
          comparison = target child_end;
          entry_found = (if exact then comparison = Equal
            else comparison = Less \<or> comparison = Equal \<and> b = BLeft) in
      if entry_found then (pos, Some (x, child_end))
      else st_find_items dim exact target b child_end xs ss)"
| "st_find_items dim exact target b pos _ _ = (pos, None)"

text \<open>\<open>find_iterate\<close>: the loop of an inner node moves the position, and goes on in the child
  that holds the target.\<close>

fun st_find_iterate ::
    "('s, 'd) dimension \<Rightarrow> bool \<Rightarrow> 'd seek_target \<Rightarrow> bias \<Rightarrow> 'd \<Rightarrow> ('t, 's) sum_tree \<Rightarrow>
       'd \<times> ('t \<times> 'd) option"
  and st_find_children ::
    "('s, 'd) dimension \<Rightarrow> bool \<Rightarrow> 'd seek_target \<Rightarrow> bias \<Rightarrow> 'd \<Rightarrow> ('t, 's) sum_tree list \<Rightarrow> 's list \<Rightarrow>
       'd \<times> ('t \<times> 'd) option" where
  "st_find_iterate dim exact target b pos (Internal h s ss ts) =
     st_find_children dim exact target b pos ts ss"
| "st_find_iterate dim exact target b pos (Leaf s xs ss) =
     st_find_items dim exact target b pos xs ss"
| "st_find_children dim exact target b pos (t # ts) (s # ss) =
     (let child_end = dm_add dim pos s;
          comparison = target child_end;
          target_in_child = (comparison = Less \<or> comparison = Equal \<and> b = BLeft) in
      if target_in_child then st_find_iterate dim exact target b pos t
      else st_find_children dim exact target b child_end ts ss)"
| "st_find_children dim exact target b pos _ _ = (pos, None)"

text \<open>\<open>find_exact\<close> (with \<open>exact\<close> set) and \<open>find\<close>: start, end and the item.\<close>

definition st_find_gen ::
    "bool \<Rightarrow> ('s, 'd) dimension \<Rightarrow> ('t, 's) sum_tree \<Rightarrow> 'd seek_target \<Rightarrow> bias \<Rightarrow> 'd \<times> 'd \<times> 't option" where
  "st_find_gen exact dim t target b =
     (let tree_end = dm_add dim (dm_zero dim) (st_summary t);
          comparison = target tree_end in
      if comparison = Greater \<or> comparison = Equal \<and> b = BRight then (tree_end, tree_end, None)
      else (case st_find_iterate dim exact target b (dm_zero dim) t of
          (pos, Some (item, e)) \<Rightarrow> (pos, e, Some item)
        | (pos, None) \<Rightarrow> (pos, pos, None)))"

definition st_find_exact ::
    "('s, 'd) dimension \<Rightarrow> ('t, 's) sum_tree \<Rightarrow> 'd seek_target \<Rightarrow> bias \<Rightarrow> 'd \<times> 'd \<times> 't option" where
  "st_find_exact = st_find_gen True"

definition st_find ::
    "('s, 'd) dimension \<Rightarrow> ('t, 's) sum_tree \<Rightarrow> 'd seek_target \<Rightarrow> bias \<Rightarrow> 'd \<times> 'd \<times> 't option" where
  "st_find = st_find_gen False"

text \<open>\<open>find_with_prev\<close> also tracks the item before; the last item of a skipped child may panic.\<close>

fun st_find_prev_items ::
    "('s, 'd) dimension \<Rightarrow> 'd seek_target \<Rightarrow> bias \<Rightarrow> 't option \<Rightarrow> 'd \<Rightarrow> 't list \<Rightarrow> 's list \<Rightarrow>
       'd \<times> ('t option \<times> 't \<times> 'd) option" where
  "st_find_prev_items dim target b prev pos (x # xs) (s # ss) =
     (let child_end = dm_add dim pos s;
          comparison = target child_end;
          entry_found = (comparison = Less \<or> comparison = Equal \<and> b = BLeft) in
      if entry_found then (pos, Some (prev, x, child_end))
      else st_find_prev_items dim target b (Some x) child_end xs ss)"
| "st_find_prev_items dim target b prev pos _ _ = (pos, None)"

fun st_find_prev_iterate ::
    "('s, 'd) dimension \<Rightarrow> 'd seek_target \<Rightarrow> bias \<Rightarrow> 't option \<Rightarrow> 'd \<Rightarrow> ('t, 's) sum_tree \<Rightarrow>
       ('d \<times> ('t option \<times> 't \<times> 'd) option) option"
  and st_find_prev_children ::
    "('s, 'd) dimension \<Rightarrow> 'd seek_target \<Rightarrow> bias \<Rightarrow> 't option \<Rightarrow> 'd \<Rightarrow> ('t, 's) sum_tree list \<Rightarrow> 's list \<Rightarrow>
       ('d \<times> ('t option \<times> 't \<times> 'd) option) option" where
  "st_find_prev_iterate dim target b prev pos (Internal h s ss ts) =
     st_find_prev_children dim target b prev pos ts ss"
| "st_find_prev_iterate dim target b prev pos (Leaf s xs ss) =
     Some (st_find_prev_items dim target b prev pos xs ss)"
| "st_find_prev_children dim target b prev pos (t # ts) (s # ss) =
     (let child_end = dm_add dim pos s;
          comparison = target child_end;
          target_in_child = (comparison = Less \<or> comparison = Equal \<and> b = BLeft) in
      if target_in_child then st_find_prev_iterate dim target b prev pos t
      else (case st_last t of
          None \<Rightarrow> None
        | Some prev \<Rightarrow> st_find_prev_children dim target b prev child_end ts ss))"
| "st_find_prev_children dim target b prev pos _ _ = Some (pos, None)"

definition st_find_with_prev ::
    "('s, 'd) dimension \<Rightarrow> ('t, 's) sum_tree \<Rightarrow> 'd seek_target \<Rightarrow> bias \<Rightarrow>
       ('d \<times> 'd \<times> ('t option \<times> 't) option) option" where
  "st_find_with_prev dim t target b =
     (let tree_end = dm_add dim (dm_zero dim) (st_summary t);
          comparison = target tree_end in
      if comparison = Greater \<or> comparison = Equal \<and> b = BRight then Some (tree_end, tree_end, None)
      else (case st_find_prev_iterate dim target b None (dm_zero dim) t of
          None \<Rightarrow> None
        | Some (pos, Some (prev, item, e)) \<Rightarrow> Some (pos, e, Some (prev, item))
        | Some (pos, None) \<Rightarrow> Some (pos, pos, None)))"

definition st_extent :: "('s, 'd) dimension \<Rightarrow> ('t, 's) sum_tree \<Rightarrow> 'd" where
  "st_extent dim t = dm_add dim (dm_zero dim) (st_summary t)"

section \<open>Updating the first and the last item\<close>

text \<open>The result is the new node and the summary it returns, the latter \<open>None\<close> for an empty leaf.\<close>

fun st_update_last ::
    "('t, 's) summary_ops \<Rightarrow> ('t \<Rightarrow> 't) \<Rightarrow> ('t, 's) sum_tree \<Rightarrow> (('t, 's) sum_tree \<times> 's option) option" where
  "st_update_last ops f (Internal h s ss ts) =
     (if ss = [] \<or> ts = [] then None
      else (case st_update_last ops f (last ts) of
          Some (last_child, Some last_summary) \<Rightarrow>
            (let ss = butlast ss @ [last_summary];
                 s = sum_summaries ops ss in
             Some (Internal h s ss (butlast ts @ [last_child]), Some s))
        | _ \<Rightarrow> None))"
| "st_update_last ops f (Leaf s xs ss) =
     (if xs \<noteq> [] \<and> ss \<noteq> [] then
        (let item = f (last xs);
             ss = butlast ss @ [sm_item ops item];
             s = sum_summaries ops ss in
         Some (Leaf s (butlast xs @ [item]) ss, Some s))
      else Some (Leaf s xs ss, None))"

fun st_update_first ::
    "('t, 's) summary_ops \<Rightarrow> ('t \<Rightarrow> 't) \<Rightarrow> ('t, 's) sum_tree \<Rightarrow> (('t, 's) sum_tree \<times> 's option) option" where
  "st_update_first ops f (Internal h s ss ts) =
     (if ss = [] \<or> ts = [] then None
      else (case st_update_first ops f (hd ts) of
          Some (first_child, Some first_summary) \<Rightarrow>
            (let ss = first_summary # tl ss;
                 s = sum_summaries ops ss in
             Some (Internal h s ss (first_child # tl ts), Some s))
        | _ \<Rightarrow> None))"
| "st_update_first ops f (Leaf s xs ss) =
     (if xs \<noteq> [] \<and> ss \<noteq> [] then
        (let item = f (hd xs);
             ss = sm_item ops item # tl ss;
             s = sum_summaries ops ss in
         Some (Leaf s (item # tl xs) ss, Some s))
      else Some (Leaf s xs ss, None))"

section \<open>The linear search the trees implement\<close>

text \<open>The position after a list of items, the positions after each of them, and where a search
  splits the list.\<close>

definition advance :: "('t, 's) summary_ops \<Rightarrow> ('s, 'd) dimension \<Rightarrow> 'd \<Rightarrow> 't list \<Rightarrow> 'd" where
  "advance ops dim d xs = foldl (\<lambda>d x. dm_add dim d (sm_item ops x)) d xs"

fun seek_ends :: "('t, 's) summary_ops \<Rightarrow> ('s, 'd) dimension \<Rightarrow> 'd \<Rightarrow> 't list \<Rightarrow> 'd list" where
  "seek_ends ops dim d [] = []"
| "seek_ends ops dim d (x # xs) =
     dm_add dim d (sm_item ops x) # seek_ends ops dim (dm_add dim d (sm_item ops x)) xs"

fun seek_take ::
    "('t, 's) summary_ops \<Rightarrow> ('s, 'd) dimension \<Rightarrow> 'd seek_target \<Rightarrow> bias \<Rightarrow> 'd \<Rightarrow> 't list \<Rightarrow> 't list" where
  "seek_take ops dim target b d [] = []"
| "seek_take ops dim target b d (x # xs) =
     (if seek_past target b (dm_add dim d (sm_item ops x))
      then x # seek_take ops dim target b (dm_add dim d (sm_item ops x)) xs else [])"

fun seek_drop ::
    "('t, 's) summary_ops \<Rightarrow> ('s, 'd) dimension \<Rightarrow> 'd seek_target \<Rightarrow> bias \<Rightarrow> 'd \<Rightarrow> 't list \<Rightarrow> 't list" where
  "seek_drop ops dim target b d [] = []"
| "seek_drop ops dim target b d (x # xs) =
     (if seek_past target b (dm_add dim d (sm_item ops x))
      then seek_drop ops dim target b (dm_add dim d (sm_item ops x)) xs else x # xs)"

text \<open>The target is ordered along the items: once a position is not passed, no later one is.\<close>

definition seek_ordered ::
    "('t, 's) summary_ops \<Rightarrow> ('s, 'd) dimension \<Rightarrow> 'd seek_target \<Rightarrow> bias \<Rightarrow> 'd \<Rightarrow> 't list \<Rightarrow> bool" where
  "seek_ordered ops dim target b d xs \<longleftrightarrow>
     sorted (map (\<lambda>e. \<not> seek_past target b e) (seek_ends ops dim d xs))"

definition seek_split_spec ::
    "('t, 's) summary_ops \<Rightarrow> ('s, 'd) dimension \<Rightarrow> 'd seek_target \<Rightarrow> bias \<Rightarrow> 'd \<Rightarrow> 't list \<Rightarrow>
       'd \<times> ('t \<times> 'd) option" where
  "seek_split_spec ops dim target b d xs =
     (let pos = advance ops dim d (seek_take ops dim target b d xs) in
      (pos, (case seek_drop ops dim target b d xs of
          [] \<Rightarrow> None
        | x # _ \<Rightarrow> Some (x, dm_add dim pos (sm_item ops x)))))"

lemma advance_simps [simp]:
  "advance ops dim d [] = d"
  "advance ops dim d (x # xs) = advance ops dim (dm_add dim d (sm_item ops x)) xs"
  "advance ops dim d (xs @ ys) = advance ops dim (advance ops dim d xs) ys"
  by (simp_all add: advance_def)

lemma seek_take_drop: "seek_take ops dim target b d xs @ seek_drop ops dim target b d xs = xs"
  by (induction xs arbitrary: d) auto

lemma seek_ends_append:
  "seek_ends ops dim d (xs @ ys) = seek_ends ops dim d xs @ seek_ends ops dim (advance ops dim d xs) ys"
  by (induction xs arbitrary: d) auto

lemma seek_ends_Nil [simp]: "seek_ends ops dim d xs = [] \<longleftrightarrow> xs = []"
  by (cases xs) auto

lemma seek_ends_last: "xs \<noteq> [] \<Longrightarrow> last (seek_ends ops dim d xs) = advance ops dim d xs"
  by (induction xs arbitrary: d) auto

lemma sorted_le_last: "sorted ys \<Longrightarrow> y \<in> set ys \<Longrightarrow> y \<le> last ys"
  by (cases ys rule: rev_cases) (auto simp: sorted_append)

lemma advance_in_ends: "xs \<noteq> [] \<Longrightarrow> advance ops dim d xs \<in> set (seek_ends ops dim d xs)"
  using seek_ends_last last_in_set seek_ends_Nil by metis

lemma seek_ordered_Nil [simp]: "seek_ordered ops dim target b d []"
  by (simp add: seek_ordered_def)

lemma seek_ordered_append:
  assumes "seek_ordered ops dim target b d (xs @ ys)"
  shows "seek_ordered ops dim target b d xs"
    and "seek_ordered ops dim target b (advance ops dim d xs) ys"
  using assms by (auto simp: seek_ordered_def seek_ends_append sorted_append)

lemma seek_take_drop_all:
  "\<forall>e \<in> set (seek_ends ops dim d xs). seek_past target b e \<Longrightarrow>
   seek_take ops dim target b d (xs @ ys) = xs @ seek_take ops dim target b (advance ops dim d xs) ys \<and>
   seek_drop ops dim target b d (xs @ ys) = seek_drop ops dim target b (advance ops dim d xs) ys"
  by (induction xs arbitrary: d) auto

text \<open>A block whose end is passed is passed as a whole; otherwise the search stops inside it.\<close>

lemma seek_block_past:
  assumes "seek_ordered ops dim target b d (xs @ ys)" "xs \<noteq> []" "seek_past target b (advance ops dim d xs)"
  shows "seek_take ops dim target b d (xs @ ys) = xs @ seek_take ops dim target b (advance ops dim d xs) ys"
    and "seek_drop ops dim target b d (xs @ ys) = seek_drop ops dim target b (advance ops dim d xs) ys"
proof -
  let ?ends = "seek_ends ops dim d xs"
  have "sorted (map (\<lambda>e. \<not> seek_past target b e) ?ends)"
    using seek_ordered_append(1) [OF assms(1)] by (simp add: seek_ordered_def)
  moreover have "last (map (\<lambda>e. \<not> seek_past target b e) ?ends) = False"
    using assms(2,3) by (simp add: last_map seek_ends_last)
  ultimately have last: "\<not> y" if "y \<in> set (map (\<lambda>e. \<not> seek_past target b e) ?ends)" for y
    using sorted_le_last [OF _ that] by simp
  have "\<forall>e \<in> set ?ends. seek_past target b e"
  proof
    fix e assume "e \<in> set ?ends"
    then have "(\<not> seek_past target b e) \<in> set (map (\<lambda>e. \<not> seek_past target b e) ?ends)" by auto
    from last [OF this] show "seek_past target b e" by simp
  qed
  then show "seek_take ops dim target b d (xs @ ys) = xs @ seek_take ops dim target b (advance ops dim d xs) ys"
    and "seek_drop ops dim target b d (xs @ ys) = seek_drop ops dim target b (advance ops dim d xs) ys"
    using seek_take_drop_all [of ops dim d xs target b ys] by simp_all
qed

lemma seek_block_stop:
  assumes "\<not> seek_past target b (advance ops dim d xs)" "xs \<noteq> []"
  shows "seek_take ops dim target b d (xs @ ys) = seek_take ops dim target b d xs"
    and "seek_drop ops dim target b d (xs @ ys) = seek_drop ops dim target b d xs @ ys"
    and "seek_drop ops dim target b d xs \<noteq> []"
  using assms by (induction xs arbitrary: d) (auto, (case_tac xs, auto)+)

lemma seek_split_Nil: "seek_split_spec ops dim target b d [] = (d, None)"
  by (simp add: seek_split_spec_def)

lemma past_left: "seek_past target BLeft e \<longleftrightarrow> target e = Greater"
  by (simp add: seek_past_def)

lemma seek_split_past:
  assumes "seek_ordered ops dim target b d (xs @ ys)" "xs \<noteq> []" "seek_past target b (advance ops dim d xs)"
  shows "seek_split_spec ops dim target b d (xs @ ys) = seek_split_spec ops dim target b (advance ops dim d xs) ys"
  using seek_block_past [OF assms] by (simp add: seek_split_spec_def)

lemma seek_split_stop:
  assumes "\<not> seek_past target b (advance ops dim d xs)" "xs \<noteq> []"
  shows "seek_split_spec ops dim target b d (xs @ ys) = seek_split_spec ops dim target b d xs"
  using seek_block_stop(1,2) [OF assms, of ys] seek_block_stop(3) [OF assms]
  by (auto simp: seek_split_spec_def Let_def split: list.splits)

text \<open>The laws of a dimension: adding a sum adds its parts in order.\<close>

locale dimension_laws = summary_laws ops
  for ops :: "('t, 's) summary_ops" +
  fixes dim :: "('s, 'd) dimension"
  assumes dm_add_add: "dm_add dim d (sm_add ops a b) = dm_add dim (dm_add dim d a) b"
    and dm_add_zero: "dm_add dim (dm_zero dim) (sm_zero ops) = dm_zero dim"
begin

lemma add_sum_items: "xs \<noteq> [] \<Longrightarrow> dm_add dim d (sum_items ops xs) = advance ops dim d xs"
proof (induction xs rule: rev_induct)
  case (snoc x xs)
  then show ?case
    by (cases "xs = []") (simp_all add: sum_items_append dm_add_add, simp_all add: sum_items_def sum_singleton)
qed simp

lemma add_node: "st_node ops t \<Longrightarrow> dm_add dim d (st_summary t) = advance ops dim d (st_items t)"
  by (simp add: node_summary add_sum_items st_node_items_ne)

lemma extent: "st_wf ops t \<Longrightarrow> st_extent dim t = advance ops dim (dm_zero dim) (st_items t)"
  by (auto simp: st_extent_def st_wf_def add_node st_new_def dm_add_zero)

lemma not_past: "(target e = Less \<or> target e = Equal \<and> b = BLeft) \<longleftrightarrow> \<not> seek_past target b e"
  by (cases "target e"; cases b) (simp_all add: seek_past_def)

lemma not_past_left: "(target e = Less \<or> target e = Equal) \<longleftrightarrow> \<not> seek_past target BLeft e"
  using not_past [of target e BLeft] by simp

lemma find_items:
  "st_find_items dim False target b d xs (map (sm_item ops) xs) = seek_split_spec ops dim target b d xs"
proof (induction xs arbitrary: d)
  case (Cons x xs)
  then show ?case
    by (cases "seek_past target b (dm_add dim d (sm_item ops x))")
      (simp_all add: seek_split_spec_def Let_def not_past)
qed (simp add: seek_split_spec_def)

lemma find_iterate:
  "exact = False \<Longrightarrow> st_node ops t \<Longrightarrow> seek_ordered ops dim target b d (st_items t) \<Longrightarrow>
   st_find_iterate dim exact target b d t = seek_split_spec ops dim target b d (st_items t)"
  "exact = False \<Longrightarrow> \<forall>t \<in> set ts. st_node ops t \<Longrightarrow> ss = map st_summary ts \<Longrightarrow>
   seek_ordered ops dim target b d (concat (map st_items ts)) \<Longrightarrow>
   st_find_children dim exact target b d ts ss = seek_split_spec ops dim target b d (concat (map st_items ts))"
proof (induction dim\<equiv>dim exact target b d t and dim\<equiv>dim exact target b d ts ss
    rule: st_find_iterate_st_find_children.induct)
  case (2 exact target b pos s xs ss)
  then show ?case by (simp add: find_items)
next
  case (3 exact target b pos t ts s ss)
  have s: "dm_add dim pos s = advance ops dim pos (st_items t)" "st_items t \<noteq> []" "st_node ops t"
    using 3(4,5) by (auto simp: add_node st_node_items_ne)
  have ord: "seek_ordered ops dim target b pos (st_items t @ concat (map st_items ts))"
    using 3(6) by simp
  show ?case
  proof (cases "seek_past target b (advance ops dim pos (st_items t))")
    case True
    with 3 s ord seek_ordered_append [OF ord] show ?thesis
      by (simp add: Let_def not_past seek_split_past)
  next
    case False
    with 3 s ord seek_ordered_append [OF ord] show ?thesis
      by (simp add: Let_def not_past seek_split_stop)
  qed
qed (auto simp: seek_split_spec_def)

end

section \<open>The searches agree with the linear search\<close>

lemma rightmost_leaf:
  "st_node ops t \<Longrightarrow> \<exists>s xs ss. st_rightmost_leaf t = Some (Leaf s xs ss) \<and> xs \<noteq> [] \<and>
     last xs = last (st_items t) \<and> ss = map (sm_item ops) xs"
proof (induction t)
  case (Internal h s ss ts)
  then have l: "last ts \<in> set ts" "ts \<noteq> []" by auto
  have node: "st_node ops (last ts)" using Internal.prems l(1) by simp
  from Internal.IH [OF l(1) node] obtain s' xs ss' where
    leaf: "st_rightmost_leaf (last ts) = Some (Leaf s' xs ss')" "xs \<noteq> []"
      "last xs = last (st_items (last ts))" "ss' = map (sm_item ops) xs" by blast
  have "concat (map st_items ts) = concat (map st_items (butlast ts)) @ st_items (last ts)"
    using arg_cong [OF append_butlast_last_id [OF l(2)], of "\<lambda>ts. concat (map st_items ts)"] by simp
  moreover have "st_items (last ts) \<noteq> []" by (rule st_node_items_ne [OF node])
  ultimately show ?case using leaf l by simp
qed simp

lemma leftmost_leaf:
  "st_node ops t \<Longrightarrow> \<exists>s xs ss. st_leftmost_leaf t = Some (Leaf s xs ss) \<and> xs \<noteq> [] \<and>
     hd xs = hd (st_items t) \<and> ss = map (sm_item ops) xs"
proof (induction t)
  case (Internal h s ss ts)
  then obtain t0 ts' where ts: "ts = t0 # ts'" by (cases ts) auto
  with Internal.prems have "st_items t0 \<noteq> []" using st_node_items_ne [of ops t0] by simp
  with Internal ts show ?case by fastforce
qed simp

lemma last_item: "st_node ops t \<Longrightarrow> st_last t = Some (Some (last (st_items t)))"
  using rightmost_leaf [of ops t] by (auto simp: st_last_def list_last_def)

lemma first_item: "st_node ops t \<Longrightarrow> st_first t = Some (Some (hd (st_items t)))"
  using leftmost_leaf [of ops t] by (auto simp: st_first_def list_first_def split: list.splits)

lemma last_summary: "st_node ops t \<Longrightarrow> st_last_summary t = Some (Some (sm_item ops (last (st_items t))))"
  using rightmost_leaf [of ops t] by (auto simp: st_last_summary_def list_last_def last_map)

lemma first_last_wf:
  "st_wf ops t \<Longrightarrow> st_first t = Some (list_first (st_items t))"
  "st_wf ops t \<Longrightarrow> st_last t = Some (list_last (st_items t))"
  "st_wf ops t \<Longrightarrow> st_last_summary t = Some (map_option (sm_item ops) (list_last (st_items t)))"
  using st_node_items_ne [of ops t]
  by (auto simp: st_wf_def first_item last_item last_summary list_first_def list_last_def split: list.splits)
    (auto simp: st_first_def st_last_def st_last_summary_def st_new_def list_first_def list_last_def)

text \<open>The exact search, and the search that also reports the item before, on lists.\<close>

definition exact_spec ::
    "('t, 's) summary_ops \<Rightarrow> ('s, 'd) dimension \<Rightarrow> 'd seek_target \<Rightarrow> 'd \<Rightarrow> 't list \<Rightarrow> 't option" where
  "exact_spec ops dim target d xs =
     (case seek_split_spec ops dim target BLeft d xs of
        (_, Some (x, e)) \<Rightarrow> if target e = Equal then Some x else None
      | _ \<Rightarrow> None)"

lemma seek_drop_append_ne:
  "seek_drop ops dim target b d xs \<noteq> [] \<Longrightarrow>
   seek_take ops dim target b d (xs @ ys) = seek_take ops dim target b d xs \<and>
   seek_drop ops dim target b d (xs @ ys) = seek_drop ops dim target b d xs @ ys"
  by (induction xs arbitrary: d) auto

context dimension_laws
begin

lemma find:
  assumes "st_wf ops t" "seek_ordered ops dim target b (dm_zero dim) (st_items t)"
  shows "st_find dim t target b =
    (let (pos, found) = seek_split_spec ops dim target b (dm_zero dim) (st_items t) in
     (pos, (case found of None \<Rightarrow> pos | Some (_, e) \<Rightarrow> e), map_option fst found))"
proof (cases "t = st_new ops")
  case True
  then show ?thesis
    by (simp add: st_find_def st_find_gen_def st_new_def seek_split_spec_def dm_add_zero Let_def)
next
  case False
  then have n: "st_node ops t" using assms(1) by (simp add: st_wf_def)
  let ?d = "dm_zero dim"
  have e: "dm_add dim ?d (st_summary t) = advance ops dim ?d (st_items t)" by (rule add_node [OF n])
  show ?thesis
  proof (cases "seek_past target b (advance ops dim ?d (st_items t))")
    case True
    have "seek_ordered ops dim target b ?d (st_items t @ [])" using assms(2) by simp
    from seek_split_past [OF this st_node_items_ne [OF n] True] True show ?thesis
      by (simp add: st_find_def st_find_gen_def e seek_past_def [symmetric] Let_def seek_split_Nil)
  next
    case False
    then show ?thesis
      using find_iterate(1) [OF refl n assms(2)]
      by (simp add: st_find_def st_find_gen_def e seek_past_def [symmetric] split: prod.splits option.splits)
  qed
qed

lemma find_items_exact_none:
  "\<forall>e \<in> set (seek_ends ops dim d xs). target e \<noteq> Equal \<Longrightarrow>
   snd (st_find_items dim True target b d xs (map (sm_item ops) xs)) = None"
  by (induction xs arbitrary: d) (auto simp: Let_def)

lemma find_items_exact:
  "seek_ordered ops dim target BRight d xs \<Longrightarrow>
   map_option fst (snd (st_find_items dim True target BLeft d xs (map (sm_item ops) xs))) =
   exact_spec ops dim target d xs"
proof (induction xs arbitrary: d)
  case (Cons x xs)
  let ?e = "dm_add dim d (sm_item ops x)"
  have ord: "seek_ordered ops dim target BRight ?e xs"
    using Cons.prems seek_ordered_append(2) [of ops dim target BRight d "[x]" xs] by simp
  consider "target ?e = Greater" | "target ?e = Equal" | "target ?e = Less" by (cases "target ?e")
  then show ?case
  proof cases
    case 3
    then have "\<forall>e \<in> set (seek_ends ops dim ?e xs). \<not> seek_past target BRight e"
      using Cons.prems by (auto simp: seek_ordered_def seek_past_def)
    then have "\<forall>e \<in> set (seek_ends ops dim ?e xs). target e \<noteq> Equal"
      by (auto simp: seek_past_def)
    with 3 show ?thesis
      by (simp add: find_items_exact_none exact_spec_def seek_split_spec_def seek_past_def Let_def)
  qed (use Cons.IH [OF ord] in \<open>simp_all add: exact_spec_def seek_split_spec_def seek_past_def Let_def\<close>)
qed (simp add: exact_spec_def seek_split_spec_def)

lemma exact_past:
  assumes "seek_ordered ops dim target BLeft d (xs @ ys)" "xs \<noteq> []" "seek_past target BLeft (advance ops dim d xs)"
  shows "exact_spec ops dim target d (xs @ ys) = exact_spec ops dim target (advance ops dim d xs) ys"
  using seek_split_past [OF assms] by (simp add: exact_spec_def)

lemma exact_stop:
  assumes "\<not> seek_past target BLeft (advance ops dim d xs)" "xs \<noteq> []"
  shows "exact_spec ops dim target d (xs @ ys) = exact_spec ops dim target d xs"
  using seek_split_stop [OF assms] by (simp add: exact_spec_def)

lemma find_iterate_exact:
  "exact = True \<Longrightarrow> b = BLeft \<Longrightarrow> st_node ops t \<Longrightarrow> seek_ordered ops dim target BLeft d (st_items t) \<Longrightarrow>
   seek_ordered ops dim target BRight d (st_items t) \<Longrightarrow>
   map_option fst (snd (st_find_iterate dim exact target b d t)) = exact_spec ops dim target d (st_items t)"
  "exact = True \<Longrightarrow> b = BLeft \<Longrightarrow> \<forall>t \<in> set ts. st_node ops t \<Longrightarrow> ss = map st_summary ts \<Longrightarrow>
   seek_ordered ops dim target BLeft d (concat (map st_items ts)) \<Longrightarrow>
   seek_ordered ops dim target BRight d (concat (map st_items ts)) \<Longrightarrow>
   map_option fst (snd (st_find_children dim exact target b d ts ss)) =
   exact_spec ops dim target d (concat (map st_items ts))"
proof (induction dim\<equiv>dim exact target b d t and dim\<equiv>dim exact target b d ts ss
    rule: st_find_iterate_st_find_children.induct)
  case (2 exact target b pos s xs ss)
  then show ?case by (simp add: find_items_exact)
next
  case (3 exact target b pos t ts s ss)
  have s: "dm_add dim pos s = advance ops dim pos (st_items t)" "st_items t \<noteq> []" "st_node ops t"
    using 3(5,6) by (auto simp: add_node st_node_items_ne)
  have ord: "seek_ordered ops dim target BLeft pos (st_items t @ concat (map st_items ts))"
      "seek_ordered ops dim target BRight pos (st_items t @ concat (map st_items ts))"
    using 3(7,8) by simp_all
  show ?case
  proof (cases "seek_past target BLeft (advance ops dim pos (st_items t))")
    case True
    with 3 s ord seek_ordered_append [OF ord(1)] seek_ordered_append [OF ord(2)] show ?thesis
      by (simp add: Let_def not_past_left exact_past)
  next
    case False
    with 3 s ord seek_ordered_append [OF ord(1)] seek_ordered_append [OF ord(2)] show ?thesis
      by (simp add: Let_def not_past_left exact_stop)
  qed
qed (auto simp: exact_spec_def seek_split_spec_def)

lemma find_exact:
  assumes "st_wf ops t" "seek_ordered ops dim target BLeft (dm_zero dim) (st_items t)"
    "seek_ordered ops dim target BRight (dm_zero dim) (st_items t)"
  shows "snd (snd (st_find_exact dim t target BLeft)) = exact_spec ops dim target (dm_zero dim) (st_items t)"
proof (cases "t = st_new ops")
  case True
  then show ?thesis
    by (simp add: st_find_exact_def st_find_gen_def st_new_def exact_spec_def seek_split_spec_def Let_def)
next
  case False
  then have n: "st_node ops t" using assms(1) by (simp add: st_wf_def)
  let ?d = "dm_zero dim"
  have e: "dm_add dim ?d (st_summary t) = advance ops dim ?d (st_items t)" by (rule add_node [OF n])
  show ?thesis
  proof (cases "seek_past target BLeft (advance ops dim ?d (st_items t))")
    case True
    have "seek_ordered ops dim target BLeft ?d (st_items t @ [])" using assms(2) by simp
    from seek_split_past [OF this st_node_items_ne [OF n] True] True show ?thesis
      by (simp add: st_find_exact_def st_find_gen_def e past_left exact_spec_def Let_def seek_split_Nil)
  next
    case False
    then show ?thesis
      using find_iterate_exact(1) [OF refl refl n assms(2,3)]
      by (auto simp: st_find_exact_def st_find_gen_def e past_left split: prod.splits option.splits)
  qed
qed

text \<open>With the item before the one found.\<close>

definition prev_spec ::
    "'d seek_target \<Rightarrow> bias \<Rightarrow> 't option \<Rightarrow> 'd \<Rightarrow> 't list \<Rightarrow> 'd \<times> ('t option \<times> 't \<times> 'd) option" where
  "prev_spec target b prev d xs =
     (let (pos, found) = seek_split_spec ops dim target b d xs;
          before = seek_take ops dim target b d xs in
      (pos, map_option (\<lambda>(x, e). (if before = [] then prev else Some (last before), x, e)) found))"

lemma prev_past:
  assumes "seek_ordered ops dim target b d (xs @ ys)" "xs \<noteq> []" "seek_past target b (advance ops dim d xs)"
  shows "prev_spec target b prev d (xs @ ys) = prev_spec target b (Some (last xs)) (advance ops dim d xs) ys"
  using seek_split_past [OF assms] seek_block_past(1) [OF assms] assms(2)
  by (simp add: prev_spec_def Let_def split: prod.splits option.splits)

lemma prev_stop:
  assumes "\<not> seek_past target b (advance ops dim d xs)" "xs \<noteq> []"
  shows "prev_spec target b prev d (xs @ ys) = prev_spec target b prev d xs"
  using seek_split_stop [OF assms, of ys] seek_block_stop(1) [OF assms, of ys]
  by (simp add: prev_spec_def)

lemma find_prev_items:
  "st_find_prev_items dim target b prev d xs (map (sm_item ops) xs) = prev_spec target b prev d xs"
proof (induction xs arbitrary: d prev)
  case (Cons x xs)
  then show ?case
    by (cases "seek_past target b (dm_add dim d (sm_item ops x))")
      (simp_all add: prev_spec_def seek_split_spec_def Let_def not_past split: list.splits)
qed (simp add: prev_spec_def seek_split_spec_def)

lemma find_prev_iterate:
  "st_node ops t \<Longrightarrow> seek_ordered ops dim target b d (st_items t) \<Longrightarrow>
   st_find_prev_iterate dim target b prev d t = Some (prev_spec target b prev d (st_items t))"
  "\<forall>t \<in> set ts. st_node ops t \<Longrightarrow> ss = map st_summary ts \<Longrightarrow>
   seek_ordered ops dim target b d (concat (map st_items ts)) \<Longrightarrow>
   st_find_prev_children dim target b prev d ts ss = Some (prev_spec target b prev d (concat (map st_items ts)))"
proof (induction dim\<equiv>dim target b prev d t and dim\<equiv>dim target b prev d ts ss
    rule: st_find_prev_iterate_st_find_prev_children.induct)
  case (2 target b prev pos s xs ss)
  then show ?case by (simp add: find_prev_items)
next
  case (3 target b prev pos t ts s ss)
  have s: "dm_add dim pos s = advance ops dim pos (st_items t)" "st_items t \<noteq> []" "st_node ops t"
    using 3(3,4) by (auto simp: add_node st_node_items_ne)
  have ord: "seek_ordered ops dim target b pos (st_items t @ concat (map st_items ts))"
    using 3(5) by simp
  show ?case
  proof (cases "seek_past target b (advance ops dim pos (st_items t))")
    case True
    with 3 s ord seek_ordered_append [OF ord] show ?thesis
      by (simp add: Let_def not_past prev_past last_item)
  next
    case False
    with 3 s ord seek_ordered_append [OF ord] show ?thesis
      by (simp add: Let_def not_past prev_stop)
  qed
qed (auto simp: prev_spec_def seek_split_spec_def)

lemma find_with_prev:
  assumes "st_wf ops t" "seek_ordered ops dim target b (dm_zero dim) (st_items t)"
  shows "st_find_with_prev dim t target b =
    (let (pos, found) = prev_spec target b None (dm_zero dim) (st_items t) in
     Some (pos, (case found of None \<Rightarrow> pos | Some (_, _, e) \<Rightarrow> e), map_option (\<lambda>(p, x, _). (p, x)) found))"
proof (cases "t = st_new ops")
  case True
  then show ?thesis
    by (simp add: st_find_with_prev_def st_new_def prev_spec_def seek_split_spec_def dm_add_zero Let_def)
next
  case False
  then have n: "st_node ops t" using assms(1) by (simp add: st_wf_def)
  let ?d = "dm_zero dim"
  have e: "dm_add dim ?d (st_summary t) = advance ops dim ?d (st_items t)" by (rule add_node [OF n])
  show ?thesis
  proof (cases "seek_past target b (advance ops dim ?d (st_items t))")
    case True
    have "seek_ordered ops dim target b ?d (st_items t @ [])" using assms(2) by simp
    from seek_split_past [OF this st_node_items_ne [OF n] True] True show ?thesis
      by (simp add: st_find_with_prev_def e seek_past_def [symmetric] prev_spec_def Let_def seek_split_Nil)
  next
    case False
    then show ?thesis
      using find_prev_iterate(1) [OF n assms(2)]
      by (auto simp: st_find_with_prev_def e seek_past_def [symmetric] split: prod.splits option.splits)
  qed
qed

end

section \<open>The updates of the first and last item\<close>

context summary_laws
begin

lemma update_last_node:
  "st_node ops t \<Longrightarrow> \<exists>t'. st_update_last ops f t = Some (t', Some (st_summary t')) \<and> st_node ops t' \<and>
     st_height t' = st_height t \<and> st_items t' = butlast (st_items t) @ [f (last (st_items t))]"
proof (induction t)
  case (Internal h s ss ts)
  have ts: "ts \<noteq> []" "length ts \<le> 2 * TREE_BASE" "\<forall>t \<in> set ts. st_node ops t \<and> Suc (st_height t) = h"
    and ss: "ss = map st_summary ts" using Internal.prems by simp_all
  have l: "last ts \<in> set ts" "st_node ops (last ts)" "Suc (st_height (last ts)) = h" using ts by auto
  from Internal.IH [OF l(1,2)] obtain t' where rec: "st_update_last ops f (last ts) = Some (t', Some (st_summary t'))"
    and t': "st_node ops t'" "st_height t' = st_height (last ts)"
      "st_items t' = butlast (st_items (last ts)) @ [f (last (st_items (last ts)))]" by blast
  let ?ts = "butlast ts @ [t']"
  have nodes: "\<forall>t \<in> set ?ts. st_node ops t \<and> Suc (st_height t) = h"
    using ts(3) t' l(3) by (auto dest: in_set_butlastD)
  have items: "concat (map st_items ts) = concat (map st_items (butlast ts)) @ st_items (last ts)"
    using arg_cong [OF append_butlast_last_id [OF ts(1)], of "\<lambda>ts. concat (map st_items ts)"] by simp
  have ne: "st_items (last ts) \<noteq> []" by (rule st_node_items_ne [OF l(2)])
  have sum: "sum_summaries ops (map st_summary ?ts) = sum_items ops (concat (map st_items ?ts))"
    by (rule sum_nodes) (use nodes in blast)
  have len: "length ?ts \<le> 2 * TREE_BASE" using ts(1,2) by (cases ts) simp_all
  have "st_node ops (Internal h (sum_summaries ops (map st_summary ?ts)) (map st_summary ?ts) ?ts)"
    using nodes sum len by (intro node_internalI) simp_all
  then show ?case
    using rec ts(1) ss items ne t'(3) by (simp add: Let_def map_butlast butlast_append del: st_node.simps)
next
  case (Leaf s xs ss)
  then have "st_node ops (Leaf (sum_summaries ops (map (sm_item ops) (butlast xs @ [f (last xs)])))
      (butlast xs @ [f (last xs)]) (map (sm_item ops) (butlast xs @ [f (last xs)])))" by simp
  with Leaf show ?case by (simp add: Let_def map_butlast)
qed

lemma update_first_node:
  "st_node ops t \<Longrightarrow> \<exists>t'. st_update_first ops f t = Some (t', Some (st_summary t')) \<and> st_node ops t' \<and>
     st_height t' = st_height t \<and> st_items t' = f (hd (st_items t)) # tl (st_items t)"
proof (induction t)
  case (Internal h s ss ts)
  have ts: "ts \<noteq> []" "length ts \<le> 2 * TREE_BASE" "\<forall>t \<in> set ts. st_node ops t \<and> Suc (st_height t) = h"
    and ss: "ss = map st_summary ts" using Internal.prems by simp_all
  have l: "hd ts \<in> set ts" "st_node ops (hd ts)" "Suc (st_height (hd ts)) = h" using ts by auto
  from Internal.IH [OF l(1,2)] obtain t' where rec: "st_update_first ops f (hd ts) = Some (t', Some (st_summary t'))"
    and t': "st_node ops t'" "st_height t' = st_height (hd ts)"
      "st_items t' = f (hd (st_items (hd ts))) # tl (st_items (hd ts))" by blast
  let ?ts = "t' # tl ts"
  have nodes: "\<forall>t \<in> set ?ts. st_node ops t \<and> Suc (st_height t) = h"
    using ts(1,3) t' l(3) by (cases ts) auto
  have items: "concat (map st_items ts) = st_items (hd ts) @ concat (map st_items (tl ts))"
    using ts(1) by (cases ts) simp_all
  have ne: "st_items (hd ts) \<noteq> []" by (rule st_node_items_ne [OF l(2)])
  have sum: "sum_summaries ops (map st_summary ?ts) = sum_items ops (concat (map st_items ?ts))"
    by (rule sum_nodes) (use nodes in blast)
  have "length ?ts \<le> 2 * TREE_BASE" using ts(1,2) by (cases ts) simp_all
  then have "st_node ops (Internal h (sum_summaries ops (map st_summary ?ts)) (map st_summary ?ts) ?ts)"
    using nodes sum by (intro node_internalI) simp_all
  then show ?case
    using rec ts(1) ss items ne t'(3) by (simp add: Let_def map_tl del: st_node.simps)
next
  case (Leaf s xs ss)
  then have "st_node ops (Leaf (sum_summaries ops (map (sm_item ops) (f (hd xs) # tl xs)))
      (f (hd xs) # tl xs) (map (sm_item ops) (f (hd xs) # tl xs)))" by (cases xs) simp_all
  with Leaf show ?case by (simp add: Let_def map_tl)
qed

lemma update_wf:
  assumes "st_wf ops t"
  shows "\<exists>t' r. st_update_last ops f t = Some (t', r) \<and> st_wf ops t' \<and>
      st_items t' = (if st_items t = [] then [] else butlast (st_items t) @ [f (last (st_items t))])"
    and "\<exists>t' r. st_update_first ops f t = Some (t', r) \<and> st_wf ops t' \<and>
      st_items t' = (if st_items t = [] then [] else f (hd (st_items t)) # tl (st_items t))"
proof -
  consider "t = st_new ops" | "st_node ops t" using assms by (auto simp: st_wf_def)
  then show "\<exists>t' r. st_update_last ops f t = Some (t', r) \<and> st_wf ops t' \<and>
      st_items t' = (if st_items t = [] then [] else butlast (st_items t) @ [f (last (st_items t))])"
    using update_last_node [of t f] st_node_items_ne [of ops t] by cases (auto simp: st_wf_def st_new_def)
  from assms consider "t = st_new ops" | "st_node ops t" by (auto simp: st_wf_def)
  then show "\<exists>t' r. st_update_first ops f t = Some (t', r) \<and> st_wf ops t' \<and>
      st_items t' = (if st_items t = [] then [] else f (hd (st_items t)) # tl (st_items t))"
    using update_first_node [of t f] st_node_items_ne [of ops t] by cases (auto simp: st_wf_def st_new_def)
qed

end

end
