(* ===== verification/Zed_SumTree_Cursor.thy ===== *)
theory Zed_SumTree_Cursor
  imports Zed_SumTree_Find
begin

text \<open>
  The cursor of \<open>crates/sum_tree/src/cursor.rs\<close>: a stack of tree nodes (here with its top
  first), the position before the current item, and two flags.  One iteration of each loop is a
  step function, the loop iterates it; a panic, or a loop that does not end, is \<open>None\<close>.
  The abstraction of a cursor is the list of the items before it and the list of the rest, and
  every operation is shown to do on these two lists what it promises.
\<close>

section \<open>The cursor and its accessors\<close>

record ('t, 's, 'd) stack_entry =
  se_tree :: "('t, 's) sum_tree"
  se_index :: nat
  se_position :: 'd

record ('t, 's, 'd) cursor =
  cu_tree :: "('t, 's) sum_tree"
  cu_stack :: "('t, 's, 'd) stack_entry list"
  cu_position :: 'd
  cu_did_seek :: bool
  cu_at_end :: bool

text \<open>The stack is an \<open>ArrayVec\<close> of 16 entries.\<close>

definition stack_push :: "'a \<Rightarrow> 'a list \<Rightarrow> 'a list option" where
  "stack_push e stk = (if length stk < 16 then Some (e # stk) else None)"

definition cu_new :: "('s, 'd) dimension \<Rightarrow> ('t, 's) sum_tree \<Rightarrow> ('t, 's, 'd) cursor" where
  "cu_new dim t =
     \<lparr>cu_tree = t, cu_stack = [], cu_position = dm_zero dim, cu_did_seek = False, cu_at_end = st_is_empty t\<rparr>"

definition cu_reset :: "('s, 'd) dimension \<Rightarrow> ('t, 's, 'd) cursor \<Rightarrow> ('t, 's, 'd) cursor" where
  "cu_reset dim c = c\<lparr>cu_did_seek := False, cu_at_end := st_is_empty (cu_tree c),
     cu_stack := [], cu_position := dm_zero dim\<rparr>"

definition cu_start :: "('t, 's, 'd) cursor \<Rightarrow> 'd" where
  "cu_start c = cu_position c"

definition cu_item :: "('t, 's, 'd) cursor \<Rightarrow> 't option option" where
  "cu_item c =
     (if \<not> cu_did_seek c then None
      else (case cu_stack c of
          [] \<Rightarrow> Some None
        | e # _ \<Rightarrow>
            (case se_tree e of
               Leaf _ xs _ \<Rightarrow>
                 (if se_index e = length xs then Some None
                  else if se_index e < length xs then Some (Some (xs ! se_index e)) else None)
             | Internal _ _ _ _ \<Rightarrow> None)))"

definition cu_item_summary :: "('t, 's, 'd) cursor \<Rightarrow> 's option option" where
  "cu_item_summary c =
     (if \<not> cu_did_seek c then None
      else (case cu_stack c of
          [] \<Rightarrow> Some None
        | e # _ \<Rightarrow>
            (case se_tree e of
               Leaf _ _ ss \<Rightarrow>
                 (if se_index e = length ss then Some None
                  else if se_index e < length ss then Some (Some (ss ! se_index e)) else None)
             | Internal _ _ _ _ \<Rightarrow> None)))"

definition cu_end :: "('s, 'd) dimension \<Rightarrow> ('t, 's, 'd) cursor \<Rightarrow> 'd option" where
  "cu_end dim c = do {
     s \<leftarrow> cu_item_summary c;
     Some (case s of Some s \<Rightarrow> dm_add dim (cu_start c) s | None \<Rightarrow> cu_start c) }"

section \<open>Seeking\<close>

text \<open>What a seek does with the items it walks past: nothing, build a slice, or sum up.\<close>

record ('t, 's, 'a) seek_aggregate =
  ag_end_leaf :: "'a \<Rightarrow> 'a option"
  ag_push_item :: "'a \<Rightarrow> 't \<Rightarrow> 's \<Rightarrow> 'a option"
  ag_push_tree :: "'a \<Rightarrow> ('t, 's) sum_tree \<Rightarrow> 's \<Rightarrow> 'a option"

definition unit_aggregate :: "('t, 's, unit) seek_aggregate" where
  "unit_aggregate = \<lparr>ag_end_leaf = Some, ag_push_item = \<lambda>a _ _. Some a, ag_push_tree = \<lambda>a _ _. Some a\<rparr>"

record ('t, 's) slice_state =
  sl_tree :: "('t, 's) sum_tree"
  sl_leaf_items :: "'t list"
  sl_leaf_item_summaries :: "'s list"
  sl_leaf_summary :: 's

definition slice_new :: "('t, 's) summary_ops \<Rightarrow> ('t, 's) slice_state" where
  "slice_new ops = \<lparr>sl_tree = st_new ops, sl_leaf_items = [], sl_leaf_item_summaries = [],
     sl_leaf_summary = sm_zero ops\<rparr>"

definition slice_end_leaf ::
    "('t, 's) summary_ops \<Rightarrow> ('t, 's) slice_state \<Rightarrow> ('t, 's) slice_state option" where
  "slice_end_leaf ops a = do {
     t \<leftarrow> st_append ops (sl_tree a) (Leaf (sl_leaf_summary a) (sl_leaf_items a) (sl_leaf_item_summaries a));
     Some \<lparr>sl_tree = t, sl_leaf_items = [], sl_leaf_item_summaries = [], sl_leaf_summary = sm_zero ops\<rparr> }"

definition slice_push_item ::
    "('t, 's) summary_ops \<Rightarrow> ('t, 's) slice_state \<Rightarrow> 't \<Rightarrow> 's \<Rightarrow> ('t, 's) slice_state option" where
  "slice_push_item ops a x s = do {
     xs \<leftarrow> array_vec (sl_leaf_items a @ [x]);
     ss \<leftarrow> array_vec (sl_leaf_item_summaries a @ [s]);
     Some (a\<lparr>sl_leaf_items := xs, sl_leaf_item_summaries := ss, sl_leaf_summary := sm_add ops (sl_leaf_summary a) s\<rparr>) }"

definition slice_push_tree ::
    "('t, 's) summary_ops \<Rightarrow> ('t, 's) slice_state \<Rightarrow> ('t, 's) sum_tree \<Rightarrow> 's \<Rightarrow> ('t, 's) slice_state option" where
  "slice_push_tree ops a t s = do { t' \<leftarrow> st_append ops (sl_tree a) t; Some (a\<lparr>sl_tree := t'\<rparr>) }"

definition slice_aggregate :: "('t, 's) summary_ops \<Rightarrow> ('t, 's, ('t, 's) slice_state) seek_aggregate" where
  "slice_aggregate ops = \<lparr>ag_end_leaf = slice_end_leaf ops, ag_push_item = slice_push_item ops,
     ag_push_tree = slice_push_tree ops\<rparr>"

definition summary_aggregate :: "('s, 'o) dimension \<Rightarrow> ('t, 's, 'o) seek_aggregate" where
  "summary_aggregate out = \<lparr>ag_end_leaf = Some, ag_push_item = \<lambda>a _ s. Some (dm_add out a s),
     ag_push_tree = \<lambda>a _ s. Some (dm_add out a s)\<rparr>"

text \<open>The loop over the children of an inner node: position, index and entry position move past
  children; the result is the child that must be entered, if any.\<close>

fun seek_children ::
    "('s, 'd) dimension \<Rightarrow> ('t, 's, 'a) seek_aggregate \<Rightarrow> 'd seek_target \<Rightarrow> bias \<Rightarrow>
       'd \<Rightarrow> nat \<Rightarrow> 'd \<Rightarrow> 'a \<Rightarrow> ('t, 's) sum_tree list \<Rightarrow> 's list \<Rightarrow>
       ('d \<times> nat \<times> 'd \<times> 'a \<times> ('t, 's) sum_tree option) option" where
  "seek_children dim ag target b pos index epos a (t # ts) (s # ss) =
     (let child_end = dm_add dim pos s;
          comparison = target child_end in
      if comparison = Greater \<or> comparison = Equal \<and> b = BRight then do {
        a \<leftarrow> ag_push_tree ag a t s;
        seek_children dim ag target b child_end (index + 1) child_end a ts ss }
      else Some (pos, index, epos, a, Some t))"
| "seek_children dim ag target b pos index epos a _ _ = Some (pos, index, epos, a, None)"

text \<open>The loop over the items of a leaf; the last component tells whether it was left early.\<close>

fun seek_items ::
    "('s, 'd) dimension \<Rightarrow> ('t, 's, 'a) seek_aggregate \<Rightarrow> 'd seek_target \<Rightarrow> bias \<Rightarrow>
       'd \<Rightarrow> nat \<Rightarrow> 'a \<Rightarrow> 't list \<Rightarrow> 's list \<Rightarrow> ('d \<times> nat \<times> 'a \<times> bool) option" where
  "seek_items dim ag target b pos index a (x # xs) (s # ss) =
     (let child_end = dm_add dim pos s;
          comparison = target child_end in
      if comparison = Greater \<or> comparison = Equal \<and> b = BRight then do {
        a \<leftarrow> ag_push_item ag a x s;
        seek_items dim ag target b child_end (index + 1) a xs ss }
      else Some (pos, index, a, True))"
| "seek_items dim ag target b pos index a _ _ = Some (pos, index, a, False)"

text \<open>One iteration of \<open>'outer\<close>: \<open>Inl\<close> to go on, \<open>Inr\<close> when the loop is left.\<close>

definition seek_step ::
    "('s, 'd) dimension \<Rightarrow> ('t, 's, 'a) seek_aggregate \<Rightarrow> 'd seek_target \<Rightarrow> bias \<Rightarrow>
       ('t, 's, 'd) cursor \<times> bool \<times> 'a \<Rightarrow>
       (('t, 's, 'd) cursor \<times> bool \<times> 'a + ('t, 's, 'd) cursor \<times> 'a) option" where
  "seek_step dim ag target b = (\<lambda>(c, ascending, a).
     (case cu_stack c of
        [] \<Rightarrow> Some (Inr (c, a))
      | e # stk \<Rightarrow>
          (case se_tree e of
             Internal _ _ ss ts \<Rightarrow>
               (let e = (if ascending then e\<lparr>se_index := se_index e + 1, se_position := cu_position c\<rparr> else e) in
                if length ts < se_index e \<or> length ss < se_index e then None
                else do {
                  (pos, index, epos, a, child) \<leftarrow> seek_children dim ag target b (cu_position c)
                    (se_index e) (se_position e) a (drop (se_index e) ts) (drop (se_index e) ss);
                  (case child of
                     Some t \<Rightarrow> do {
                       stk \<leftarrow> stack_push \<lparr>se_tree = t, se_index = 0, se_position = pos\<rparr>
                         (e\<lparr>se_index := index, se_position := epos\<rparr> # stk);
                       Some (Inl (c\<lparr>cu_stack := stk, cu_position := pos\<rparr>, False, a)) }
                   | None \<Rightarrow> Some (Inl (c\<lparr>cu_stack := stk, cu_position := pos\<rparr>, True, a))) })
           | Leaf _ xs ss \<Rightarrow>
               (if length xs < se_index e \<or> length ss < se_index e then None
                else do {
                  (pos, index, a, stopped) \<leftarrow> seek_items dim ag target b (cu_position c)
                    (se_index e) a (drop (se_index e) xs) (drop (se_index e) ss);
                  a \<leftarrow> ag_end_leaf ag a;
                  (if stopped
                   then Some (Inr (c\<lparr>cu_stack := e\<lparr>se_index := index\<rparr> # stk, cu_position := pos\<rparr>, a))
                   else Some (Inl (c\<lparr>cu_stack := stk, cu_position := pos\<rparr>, True, a))) }))))"

partial_function (option) seek_loop ::
    "('s, 'd) dimension \<Rightarrow> ('t, 's, 'a) seek_aggregate \<Rightarrow> 'd seek_target \<Rightarrow> bias \<Rightarrow>
       ('t, 's, 'd) cursor \<times> bool \<times> 'a \<Rightarrow> (('t, 's, 'd) cursor \<times> 'a) option" where
  [code]: "seek_loop dim ag target b st = do {
     r \<leftarrow> seek_step dim ag target b st;
     (case r of Inl st' \<Rightarrow> seek_loop dim ag target b st' | Inr res \<Rightarrow> Some res) }"

definition seek_internal ::
    "('s, 'd) dimension \<Rightarrow> ('t, 's, 'a) seek_aggregate \<Rightarrow> 'd seek_target \<Rightarrow> bias \<Rightarrow>
       ('t, 's, 'd) cursor \<Rightarrow> 'a \<Rightarrow> (('t, 's, 'd) cursor \<times> 'a \<times> bool) option" where
  "seek_internal dim ag target b c a =
     (if target (cu_position c) = Less then None
      else do {
        c \<leftarrow> (if \<not> cu_did_seek c then do {
             stk \<leftarrow> stack_push \<lparr>se_tree = cu_tree c, se_index = 0, se_position = dm_zero dim\<rparr> (cu_stack c);
             Some (c\<lparr>cu_did_seek := True, cu_stack := stk\<rparr>) }
           else Some c);
        (c, a) \<leftarrow> seek_loop dim ag target b (c, False, a);
        let c = c\<lparr>cu_at_end := (cu_stack c = [])\<rparr>;
        e \<leftarrow> (if b = BLeft then do {
             s \<leftarrow> cu_item_summary c;
             Some (case s of Some s \<Rightarrow> dm_add dim (cu_position c) s | None \<Rightarrow> cu_position c) }
           else Some (cu_position c));
        Some (c, a, target e = Equal) })"

definition cu_seek ::
    "('s, 'd) dimension \<Rightarrow> 'd seek_target \<Rightarrow> bias \<Rightarrow> ('t, 's, 'd) cursor \<Rightarrow> (('t, 's, 'd) cursor \<times> bool) option" where
  "cu_seek dim target b c = do {
     (c, _, found) \<leftarrow> seek_internal dim unit_aggregate target b (cu_reset dim c) ();
     Some (c, found) }"

definition cu_seek_forward ::
    "('s, 'd) dimension \<Rightarrow> 'd seek_target \<Rightarrow> bias \<Rightarrow> ('t, 's, 'd) cursor \<Rightarrow> (('t, 's, 'd) cursor \<times> bool) option" where
  "cu_seek_forward dim target b c = do {
     (c, _, found) \<leftarrow> seek_internal dim unit_aggregate target b c ();
     Some (c, found) }"

definition cu_slice ::
    "('t, 's) summary_ops \<Rightarrow> ('s, 'd) dimension \<Rightarrow> 'd seek_target \<Rightarrow> bias \<Rightarrow> ('t, 's, 'd) cursor \<Rightarrow>
       (('t, 's, 'd) cursor \<times> ('t, 's) sum_tree) option" where
  "cu_slice ops dim target b c = do {
     (c, a, _) \<leftarrow> seek_internal dim (slice_aggregate ops) target b c (slice_new ops);
     Some (c, sl_tree a) }"

definition target_end :: "'d seek_target" where
  "target_end = (\<lambda>_. Greater)"

definition cu_suffix ::
    "('t, 's) summary_ops \<Rightarrow> ('s, 'd) dimension \<Rightarrow> ('t, 's, 'd) cursor \<Rightarrow>
       (('t, 's, 'd) cursor \<times> ('t, 's) sum_tree) option" where
  "cu_suffix ops dim c = cu_slice ops dim target_end BRight c"

definition cu_summary ::
    "('s, 'd) dimension \<Rightarrow> ('s, 'o) dimension \<Rightarrow> 'd seek_target \<Rightarrow> bias \<Rightarrow> ('t, 's, 'd) cursor \<Rightarrow>
       (('t, 's, 'd) cursor \<times> 'o) option" where
  "cu_summary dim out target b c = do {
     (c, a, _) \<leftarrow> seek_internal dim (summary_aggregate out) target b c (dm_zero out);
     Some (c, a) }"

section \<open>Stepping\<close>

text \<open>Skipping the summaries that the filter rejects.\<close>

fun skip_rejected ::
    "('s, 'd) dimension \<Rightarrow> ('s \<Rightarrow> bool) \<Rightarrow> 'd \<Rightarrow> 'd \<Rightarrow> nat \<Rightarrow> 's list \<Rightarrow> 'd \<times> 'd \<times> nat" where
  "skip_rejected dim F epos pos index [] = (epos, pos, index)"
| "skip_rejected dim F epos pos index (s # ss) =
     (if F s then (epos, pos, index)
      else skip_rejected dim F (dm_add dim epos s) (dm_add dim pos s) (index + 1) ss)"

definition forward_step ::
    "('s, 'd) dimension \<Rightarrow> ('s \<Rightarrow> bool) \<Rightarrow> ('t, 's, 'd) cursor \<times> bool \<Rightarrow>
       (('t, 's, 'd) cursor \<times> bool + ('t, 's, 'd) cursor) option" where
  "forward_step dim F = (\<lambda>(c, descend).
     (case cu_stack c of
        [] \<Rightarrow> Some (Inr (c\<lparr>cu_at_end := True\<rparr>))
      | e # stk \<Rightarrow>
          (case se_tree e of
             Internal _ _ ss ts \<Rightarrow>
               (let e = (if \<not> descend then e\<lparr>se_index := se_index e + 1, se_position := cu_position c\<rparr> else e);
                    (epos, pos, index) = skip_rejected dim F (se_position e) (cu_position c)
                      (se_index e) (drop (se_index e) ss) in
                if index < length ts then do {
                  stk \<leftarrow> stack_push \<lparr>se_tree = ts ! index, se_index = 0, se_position = pos\<rparr>
                    (e\<lparr>se_index := index, se_position := epos\<rparr> # stk);
                  Some (Inl (c\<lparr>cu_stack := stk, cu_position := pos\<rparr>, True)) }
                else Some (Inl (c\<lparr>cu_stack := stk, cu_position := pos\<rparr>, False)))
           | Leaf _ xs ss \<Rightarrow> do {
               (epos, pos, index) \<leftarrow>
                 (if descend then Some (se_position e, cu_position c, se_index e)
                  else if se_index e < length ss
                  then Some (dm_add dim (se_position e) (ss ! se_index e),
                    dm_add dim (cu_position c) (ss ! se_index e), se_index e + 1)
                  else None);
               let (epos, pos, index) = skip_rejected dim F epos pos index (drop index ss);
               (if index < length ss
                then Some (Inr (c\<lparr>cu_stack := e\<lparr>se_index := index, se_position := epos\<rparr> # stk, cu_position := pos\<rparr>))
                else Some (Inl (c\<lparr>cu_stack := stk, cu_position := pos\<rparr>, False))) })))"

partial_function (option) forward_loop ::
    "('s, 'd) dimension \<Rightarrow> ('s \<Rightarrow> bool) \<Rightarrow> ('t, 's, 'd) cursor \<times> bool \<Rightarrow> ('t, 's, 'd) cursor option" where
  [code]: "forward_loop dim F st = do {
     r \<leftarrow> forward_step dim F st;
     (case r of Inl st' \<Rightarrow> forward_loop dim F st' | Inr c \<Rightarrow> Some c) }"

definition cu_search_forward ::
    "('s, 'd) dimension \<Rightarrow> ('s \<Rightarrow> bool) \<Rightarrow> ('t, 's, 'd) cursor \<Rightarrow> ('t, 's, 'd) cursor option" where
  "cu_search_forward dim F c =
     (if cu_stack c = [] then do {
        (c, descend) \<leftarrow>
          (if \<not> cu_at_end c then do {
             stk \<leftarrow> stack_push \<lparr>se_tree = cu_tree c, se_index = 0, se_position = dm_zero dim\<rparr> (cu_stack c);
             Some (c\<lparr>cu_stack := stk\<rparr>, True) }
           else Some (c, False));
        forward_loop dim F (c\<lparr>cu_did_seek := True\<rparr>, descend) }
      else forward_loop dim F (c, False))"

definition cu_next :: "('s, 'd) dimension \<Rightarrow> ('t, 's, 'd) cursor \<Rightarrow> ('t, 's, 'd) cursor option" where
  "cu_next dim c = cu_search_forward dim (\<lambda>_. True) c"

definition backward_step ::
    "('s, 'd) dimension \<Rightarrow> ('s \<Rightarrow> bool) \<Rightarrow> ('t, 's, 'd) cursor \<times> bool \<Rightarrow>
       (('t, 's, 'd) cursor \<times> bool + ('t, 's, 'd) cursor) option" where
  "backward_step dim F = (\<lambda>(c, descending).
     (case cu_stack c of
        [] \<Rightarrow> Some (Inr c)
      | e # stk \<Rightarrow>
          (let pos = (case stk of p # _ \<Rightarrow> se_position p | [] \<Rightarrow> dm_zero dim) in
           if \<not> descending \<and> se_index e = 0
           then Some (Inl (c\<lparr>cu_stack := stk, cu_position := pos\<rparr>, descending))
           else
             (let index = (if descending then se_index e else se_index e - 1);
                  ss = st_child_summaries (se_tree e) in
              if length ss \<le> index then None
              else
                (let pos = foldl (dm_add dim) pos (take index ss);
                     e = e\<lparr>se_index := index, se_position := pos\<rparr>;
                     c = c\<lparr>cu_stack := e # stk, cu_position := pos\<rparr>;
                     descending = F (ss ! index) in
                 (case se_tree e of
                    Internal _ _ _ ts \<Rightarrow>
                      (if descending then
                         (if length ts \<le> index \<or> st_child_summaries (ts ! index) = [] then None
                          else do {
                            stk \<leftarrow> stack_push \<lparr>se_tree = ts ! index,
                              se_index = length (st_child_summaries (ts ! index)) - 1,
                              se_position = dm_zero dim\<rparr> (e # stk);
                            Some (Inl (c\<lparr>cu_stack := stk\<rparr>, descending)) })
                       else Some (Inl (c, descending)))
                  | Leaf _ _ _ \<Rightarrow>
                      (if descending then Some (Inr c) else Some (Inl (c, descending)))))))))"

partial_function (option) backward_loop ::
    "('s, 'd) dimension \<Rightarrow> ('s \<Rightarrow> bool) \<Rightarrow> ('t, 's, 'd) cursor \<times> bool \<Rightarrow> ('t, 's, 'd) cursor option" where
  [code]: "backward_loop dim F st = do {
     r \<leftarrow> backward_step dim F st;
     (case r of Inl st' \<Rightarrow> backward_loop dim F st' | Inr c \<Rightarrow> Some c) }"

definition cu_search_backward ::
    "('s, 'd) dimension \<Rightarrow> ('s \<Rightarrow> bool) \<Rightarrow> ('t, 's, 'd) cursor \<Rightarrow> ('t, 's, 'd) cursor option" where
  "cu_search_backward dim F c = do {
     let c = (if \<not> cu_did_seek c then c\<lparr>cu_did_seek := True, cu_at_end := True\<rparr> else c);
     c \<leftarrow>
       (if cu_at_end c then do {
          let t = cu_tree c;
          let c = c\<lparr>cu_position := dm_zero dim, cu_at_end := st_is_empty t\<rparr>;
          (if \<not> st_is_empty t then do {
             stk \<leftarrow> stack_push \<lparr>se_tree = t, se_index = length (st_child_summaries t),
               se_position = dm_from_summary dim (st_summary t)\<rparr> (cu_stack c);
             Some (c\<lparr>cu_stack := stk\<rparr>) }
           else Some c) }
        else Some c);
     backward_loop dim F (c, False) }"

definition cu_prev :: "('s, 'd) dimension \<Rightarrow> ('t, 's, 'd) cursor \<Rightarrow> ('t, 's, 'd) cursor option" where
  "cu_prev dim c = cu_search_backward dim (\<lambda>_. True) c"

section \<open>The items before a cursor and the rest\<close>

fun node_children :: "('t, 's) sum_tree \<Rightarrow> ('t, 's) sum_tree list" where
  "node_children (Internal _ _ _ ts) = ts"
| "node_children (Leaf _ _ _) = []"

text \<open>The items to the left and to the right of the child that each stacked node is at.\<close>

fun stack_before :: "('t, 's, 'd) stack_entry list \<Rightarrow> 't list" where
  "stack_before [] = []"
| "stack_before (p # ps) =
     stack_before ps @ concat (map st_items (take (se_index p) (node_children (se_tree p))))"

fun stack_after :: "('t, 's, 'd) stack_entry list \<Rightarrow> 't list" where
  "stack_after [] = []"
| "stack_after (p # ps) =
     concat (map st_items (drop (Suc (se_index p)) (node_children (se_tree p)))) @ stack_after ps"

text \<open>A tree is reached from the root through the stacked nodes, each of which remembers the
  position of the child it is at.\<close>

fun parents_ok ::
    "('t, 's) summary_ops \<Rightarrow> ('s, 'd) dimension \<Rightarrow> ('t, 's) sum_tree \<Rightarrow> ('t, 's, 'd) stack_entry list \<Rightarrow>
       ('t, 's) sum_tree \<Rightarrow> bool" where
  "parents_ok ops dim root [] t \<longleftrightarrow> t = root"
| "parents_ok ops dim root (p # ps) t \<longleftrightarrow>
     se_index p < length (node_children (se_tree p)) \<and> node_children (se_tree p) ! se_index p = t \<and>
     se_position p = advance ops dim (dm_zero dim) (stack_before (p # ps)) \<and>
     parents_ok ops dim root ps (se_tree p)"

definition on_item ::
    "('t, 's) summary_ops \<Rightarrow> ('s, 'd) dimension \<Rightarrow> ('t, 's, 'd) cursor \<Rightarrow> 't list \<Rightarrow> 't list \<Rightarrow> bool" where
  "on_item ops dim c before rest \<longleftrightarrow>
     (\<exists>e ps. cu_stack c = e # ps \<and> st_is_leaf (se_tree e) \<and> parents_ok ops dim (cu_tree c) ps (se_tree e) \<and>
        se_index e < length (st_items (se_tree e)) \<and>
        before = stack_before ps @ take (se_index e) (st_items (se_tree e)) \<and>
        rest = drop (se_index e) (st_items (se_tree e)) @ stack_after ps \<and>
        cu_position c = advance ops dim (dm_zero dim) before)"

lemma concat_items_nth:
  "i < length ts \<Longrightarrow> concat (map st_items ts) =
     concat (map st_items (take i ts)) @ st_items (ts ! i) @ concat (map st_items (drop (Suc i) ts))"
  by (subst id_take_nth_drop [of i ts]) simp_all

lemma st_items_children: "ts = node_children t \<Longrightarrow> ts \<noteq> [] \<Longrightarrow> st_items t = concat (map st_items ts)"
  by (cases t) simp_all

lemma parents_ok_items:
  "parents_ok ops dim root ps t \<Longrightarrow> st_items root = stack_before ps @ st_items t @ stack_after ps"
proof (induction ps arbitrary: t)
  case (Cons p ps)
  then have "st_items (se_tree p) = concat (map st_items (node_children (se_tree p)))"
    by (intro st_items_children) auto
  moreover have "st_items root = stack_before ps @ st_items (se_tree p) @ stack_after ps"
    using Cons by simp
  ultimately show ?case
    using Cons.prems by (simp add: concat_items_nth [of "se_index p" "node_children (se_tree p)"])
qed simp

lemma st_node_child:
  "st_node ops t \<Longrightarrow> u \<in> set (node_children t) \<Longrightarrow> st_node ops u \<and> Suc (st_height u) = st_height t"
  by (cases t) auto

lemma parents_ok_node:
  "parents_ok ops dim root ps t \<Longrightarrow> st_node ops root \<Longrightarrow> st_node ops t \<and> st_height t + length ps = st_height root"
proof (induction ps arbitrary: t)
  case (Cons p ps)
  then have "t \<in> set (node_children (se_tree p))" by auto
  with Cons st_node_child show ?case by fastforce
qed simp

lemma on_item_items:
  "on_item ops dim c before rest \<Longrightarrow> st_items (cu_tree c) = before @ rest \<and> rest \<noteq> []"
  by (auto simp: on_item_def dest!: parents_ok_items)

lemma seek_drop_Nil_ends:
  "seek_drop ops dim target b d xs = [] \<Longrightarrow> \<forall>e \<in> set (seek_ends ops dim d xs). seek_past target b e"
  by (induction xs arbitrary: d) (auto split: if_splits)

text \<open>The views of a cursor: positioned before the first item of \<open>rest\<close>, or not used yet.\<close>

definition cu_view ::
    "('t, 's) summary_ops \<Rightarrow> ('s, 'd) dimension \<Rightarrow> ('t, 's, 'd) cursor \<Rightarrow> 't list \<Rightarrow> 't list \<Rightarrow> bool" where
  "cu_view ops dim c before rest \<longleftrightarrow>
     st_wf ops (cu_tree c) \<and> st_height (cu_tree c) < 16 \<and> cu_did_seek c \<and>
     (if rest = [] then cu_stack c = [] \<and> cu_at_end c \<and> before = st_items (cu_tree c) \<and>
        cu_position c = advance ops dim (dm_zero dim) before
      else \<not> cu_at_end c \<and> on_item ops dim c before rest)"

definition cu_fresh :: "('t, 's) summary_ops \<Rightarrow> ('s, 'd) dimension \<Rightarrow> ('t, 's, 'd) cursor \<Rightarrow> bool" where
  "cu_fresh ops dim c \<longleftrightarrow>
     st_wf ops (cu_tree c) \<and> st_height (cu_tree c) < 16 \<and> \<not> cu_did_seek c \<and> cu_stack c = [] \<and>
     cu_position c = dm_zero dim \<and> cu_at_end c = st_is_empty (cu_tree c)"

definition cu_at ::
    "('t, 's) summary_ops \<Rightarrow> ('s, 'd) dimension \<Rightarrow> ('t, 's, 'd) cursor \<Rightarrow> 't list \<Rightarrow> 't list \<Rightarrow> bool" where
  "cu_at ops dim c before rest \<longleftrightarrow>
     cu_view ops dim c before rest \<or> cu_fresh ops dim c \<and> before = [] \<and> rest = st_items (cu_tree c)"

lemma cu_view_items: "cu_view ops dim c before rest \<Longrightarrow> st_items (cu_tree c) = before @ rest"
  by (auto simp: cu_view_def dest: on_item_items split: if_splits)

lemma cu_at_items: "cu_at ops dim c before rest \<Longrightarrow> st_items (cu_tree c) = before @ rest"
  by (auto simp: cu_at_def dest: cu_view_items)

lemma cu_at_position: "cu_at ops dim c before rest \<Longrightarrow> cu_position c = advance ops dim (dm_zero dim) before"
  by (auto simp: cu_at_def cu_view_def on_item_def cu_fresh_def split: if_splits)

lemma cu_view_position: "cu_view ops dim c before rest \<Longrightarrow> cu_position c = advance ops dim (dm_zero dim) before"
  using cu_at_position [of ops dim c before rest] by (simp add: cu_at_def)

lemma cu_at_new: "st_wf ops t \<Longrightarrow> st_height t < 16 \<Longrightarrow> cu_at ops dim (cu_new dim t) [] (st_items t)"
  by (simp add: cu_at_def cu_fresh_def cu_new_def)

lemma cu_at_tree: "cu_at ops dim c before rest \<Longrightarrow> st_wf ops (cu_tree c) \<and> st_height (cu_tree c) < 16"
  by (auto simp: cu_at_def cu_view_def cu_fresh_def)

lemma cu_reset_at:
  assumes "cu_at ops dim c before rest"
  shows "cu_at ops dim (cu_reset dim c) [] (before @ rest)"
proof -
  have "cu_fresh ops dim (cu_reset dim c)"
    using cu_at_tree [OF assms] by (simp add: cu_fresh_def cu_reset_def)
  moreover have "st_items (cu_tree (cu_reset dim c)) = before @ rest"
    using cu_at_items [OF assms] by (simp add: cu_reset_def)
  ultimately show ?thesis by (simp add: cu_at_def)
qed

lemma take_drop_append: "take n xs @ drop n xs @ ys = xs @ ys"
  by (simp flip: append_assoc)

lemma advance_take_drop: "advance ops dim (advance ops dim d (take n xs)) (drop n xs) = advance ops dim d xs"
  by (simp flip: advance_simps(3))

lemma on_item_hd:
  assumes "st_wf ops (cu_tree c)" "on_item ops dim c before rest" "cu_did_seek c"
  shows "cu_item c = Some (Some (hd rest)) \<and> cu_item_summary c = Some (Some (sm_item ops (hd rest)))"
proof -
  obtain e ps where c: "cu_stack c = e # ps" "st_is_leaf (se_tree e)" "parents_ok ops dim (cu_tree c) ps (se_tree e)"
      "se_index e < length (st_items (se_tree e))" "rest = drop (se_index e) (st_items (se_tree e)) @ stack_after ps"
    using assms(2) by (auto simp: on_item_def)
  then obtain s xs ss where l: "se_tree e = Leaf s xs ss" by (cases "se_tree e") auto
  have "st_items (cu_tree c) \<noteq> []" using on_item_items [OF assms(2)] by simp
  then have "st_node ops (cu_tree c)" using assms(1) by (auto simp: st_wf_def)
  then have "st_node ops (se_tree e)" using parents_ok_node [OF c(3)] by simp
  then show ?thesis
    using c l assms(3) by (simp add: cu_item_def cu_item_summary_def hd_append hd_drop_conv_nth)
qed

lemma cu_view_item:
  "cu_view ops dim c before rest \<Longrightarrow> cu_item c = Some (list_first rest)"
  "cu_view ops dim c before rest \<Longrightarrow> cu_item_summary c = Some (map_option (sm_item ops) (list_first rest))"
  using on_item_hd [of ops c dim before rest]
  by (auto simp: cu_view_def list_first_def cu_item_def cu_item_summary_def split: if_splits list.splits)

section \<open>Correctness of a seek\<close>

text \<open>
  The contract of an aggregate: \<open>rep a xs\<close> says that it holds \<open>xs\<close>, \<open>pend a xs ys\<close> that it
  holds \<open>xs\<close> and is in a leaf, of which it has seen \<open>ys\<close>.
\<close>

locale seek_aggregate_laws = dimension_laws ops dim
  for ops :: "('t, 's) summary_ops" and dim :: "('s, 'd) dimension" +
  fixes ag :: "('t, 's, 'a) seek_aggregate"
    and rep :: "'a \<Rightarrow> 't list \<Rightarrow> bool"
    and pend :: "'a \<Rightarrow> 't list \<Rightarrow> 't list \<Rightarrow> bool"
  assumes begin_leaf: "rep a xs \<Longrightarrow> pend a xs []"
    and push_item: "pend a xs ys \<Longrightarrow> length ys < 2 * TREE_BASE \<Longrightarrow>
      \<exists>a'. ag_push_item ag a x (sm_item ops x) = Some a' \<and> pend a' xs (ys @ [x])"
    and end_leaf: "pend a xs ys \<Longrightarrow> \<exists>a'. ag_end_leaf ag a = Some a' \<and> rep a' (xs @ ys)"
    and push_tree: "rep a xs \<Longrightarrow> st_node ops t \<Longrightarrow>
      \<exists>a'. ag_push_tree ag a t (st_summary t) = Some a' \<and> rep a' (xs @ st_items t)"
begin

lemma seek_items:
  "pend a xs ys \<Longrightarrow> length ys + length zs \<le> 2 * TREE_BASE \<Longrightarrow>
   \<exists>a'. seek_items dim ag target b pos i a zs (map (sm_item ops) zs) =
       Some (advance ops dim pos (seek_take ops dim target b pos zs),
         i + length (seek_take ops dim target b pos zs), a', seek_drop ops dim target b pos zs \<noteq> []) \<and>
     pend a' xs (ys @ seek_take ops dim target b pos zs)"
proof (induction zs arbitrary: pos i a ys)
  case (Cons z zs)
  let ?e = "dm_add dim pos (sm_item ops z)"
  show ?case
  proof (cases "seek_past target b ?e")
    case True
    obtain a1 where a1: "ag_push_item ag a z (sm_item ops z) = Some a1" "pend a1 xs (ys @ [z])"
      using push_item [OF Cons.prems(1)] Cons.prems(2) by fastforce
    from Cons.IH [OF a1(2), of ?e "i + 1"] Cons.prems(2) a1(1) True show ?thesis
      by (fastforce simp: Let_def seek_past_def [symmetric])
  next
    case False
    with Cons.prems show ?thesis by (simp add: Let_def seek_past_def [symmetric])
  qed
qed simp

text \<open>How many of the children of a node a seek passes.\<close>

fun passed :: "'d seek_target \<Rightarrow> bias \<Rightarrow> 'd \<Rightarrow> ('t, 's) sum_tree list \<Rightarrow> nat" where
  "passed target b pos [] = 0"
| "passed target b pos (t # ts) =
     (if seek_past target b (advance ops dim pos (st_items t))
      then Suc (passed target b (advance ops dim pos (st_items t)) ts) else 0)"

lemma passed_le: "passed target b pos ts \<le> length ts"
  by (induction ts arbitrary: pos) auto

lemma passed_split:
  assumes "\<forall>t \<in> set ts. st_node ops t" "seek_ordered ops dim target b pos (concat (map st_items ts))"
    and "n = passed target b pos ts" "q = advance ops dim pos (concat (map st_items (take n ts)))"
  shows "n < length ts \<Longrightarrow>
      seek_drop ops dim target b q (st_items (ts ! n)) \<noteq> [] \<and>
      seek_ordered ops dim target b q (st_items (ts ! n)) \<and>
      seek_take ops dim target b pos (concat (map st_items ts)) =
        concat (map st_items (take n ts)) @ seek_take ops dim target b q (st_items (ts ! n)) \<and>
      seek_drop ops dim target b pos (concat (map st_items ts)) =
        seek_drop ops dim target b q (st_items (ts ! n)) @ concat (map st_items (drop (Suc n) ts))"
    and "n = length ts \<Longrightarrow>
      seek_take ops dim target b pos (concat (map st_items ts)) = concat (map st_items ts) \<and>
      seek_drop ops dim target b pos (concat (map st_items ts)) = []"
  using assms
proof (induction ts arbitrary: pos n q)
  case (Cons t ts)
  {
    case 1
    let ?e = "advance ops dim pos (st_items t)"
    have t: "st_items t \<noteq> []" using 1 st_node_items_ne [of ops t] by simp
    have ord: "seek_ordered ops dim target b pos (st_items t @ concat (map st_items ts))" using 1 by simp
    show ?case
    proof (cases "seek_past target b ?e")
      case True
      with 1 Cons.IH(1) [of "passed target b ?e ts" ?e] seek_ordered_append(2) [OF ord] seek_block_past [OF ord t True]
      show ?thesis by simp
    next
      case False
      with 1 seek_ordered_append [OF ord] seek_block_stop [OF False t] show ?thesis by simp
    qed
  next
    case 2
    let ?e = "advance ops dim pos (st_items t)"
    have t: "st_items t \<noteq> []" using 2 st_node_items_ne [of ops t] by simp
    have ord: "seek_ordered ops dim target b pos (st_items t @ concat (map st_items ts))" using 2 by simp
    show ?case
    proof (cases "seek_past target b ?e")
      case True
      with 2 Cons.IH(2) [of "passed target b ?e ts" ?e] seek_ordered_append(2) [OF ord] seek_block_past [OF ord t True]
      show ?thesis by simp
    next
      case False
      with 2 show ?thesis by simp
    qed
  }
qed simp_all

lemma seek_children:
  "rep a xs \<Longrightarrow> \<forall>t \<in> set ts. st_node ops t \<Longrightarrow> n = passed target b pos ts \<Longrightarrow>
   q = advance ops dim pos (concat (map st_items (take n ts))) \<Longrightarrow>
   \<exists>a'. seek_children dim ag target b pos i epos a ts (map st_summary ts) =
       Some (q, i + n, (if n = 0 then epos else q), a', if n < length ts then Some (ts ! n) else None) \<and>
     rep a' (xs @ concat (map st_items (take n ts)))"
proof (induction ts arbitrary: pos i epos a xs n q)
  case (Cons t ts)
  let ?e = "advance ops dim pos (st_items t)"
  have t: "st_node ops t" "dm_add dim pos (st_summary t) = ?e"
    using Cons.prems(2) by (simp_all add: add_node)
  show ?case
  proof (cases "seek_past target b ?e")
    case True
    obtain a1 where a1: "ag_push_tree ag a t (st_summary t) = Some a1" "rep a1 (xs @ st_items t)"
      using push_tree [OF Cons.prems(1) t(1)] by blast
    have nodes: "\<forall>t \<in> set ts. st_node ops t" using Cons.prems(2) by simp
    show ?thesis
      using Cons.IH [OF a1(2) nodes refl refl, where i = "i + 1" and epos = ?e and pos = ?e] True a1(1) t(2) Cons.prems(3,4)
      by (cases "passed target b ?e ts") (auto simp: Let_def seek_past_def [symmetric])
  next
    case False
    with t Cons.prems show ?thesis by (simp add: Let_def seek_past_def [symmetric])
  qed
qed simp

lemma loop_Inl: "seek_step dim ag target b st = Some (Inl st') \<Longrightarrow>
    seek_loop dim ag target b st = seek_loop dim ag target b st'"
  by (subst seek_loop.simps) simp

lemma loop_Inr: "seek_step dim ag target b st = Some (Inr res) \<Longrightarrow> seek_loop dim ag target b st = Some res"
  by (subst seek_loop.simps) simp

definition lands ::
    "('t, 's, 'd) cursor \<Rightarrow> 't list \<Rightarrow> 't list \<Rightarrow> 't list \<Rightarrow> (('t, 's, 'd) cursor \<times> 'a) option \<Rightarrow> bool" where
  "lands c before rest acc r \<longleftrightarrow>
     (\<exists>c' a'. r = Some (c', a') \<and> cu_tree c' = cu_tree c \<and> cu_did_seek c' = cu_did_seek c \<and>
        on_item ops dim c' before rest \<and> rep a' acc)"

text \<open>Entering a node: the loop comes back above it, having passed it all, or stops inside.\<close>

definition enter_ok :: "'d seek_target \<Rightarrow> bias \<Rightarrow> ('t, 's) sum_tree \<Rightarrow> bool" where
  "enter_ok target b t \<longleftrightarrow>
     (\<forall>c ps a xs. cu_stack c = \<lparr>se_tree = t, se_index = 0, se_position = cu_position c\<rparr> # ps \<longrightarrow>
        st_node ops (cu_tree c) \<longrightarrow> st_height (cu_tree c) < 16 \<longrightarrow>
        parents_ok ops dim (cu_tree c) ps t \<longrightarrow>
        cu_position c = advance ops dim (dm_zero dim) (stack_before ps) \<longrightarrow>
        seek_ordered ops dim target b (cu_position c) (st_items t) \<longrightarrow> rep a xs \<longrightarrow>
        (let taken = seek_take ops dim target b (cu_position c) (st_items t);
             left = seek_drop ops dim target b (cu_position c) (st_items t) in
         if left = [] then \<exists>a'. seek_loop dim ag target b (c, False, a) =
             seek_loop dim ag target b (c\<lparr>cu_stack := ps,
               cu_position := advance ops dim (cu_position c) (st_items t)\<rparr>, True, a') \<and> rep a' (xs @ st_items t)
         else lands c (stack_before ps @ taken) (left @ stack_after ps) (xs @ taken)
           (seek_loop dim ag target b (c, False, a))))"

lemma enter_ok_stop:
  assumes "enter_ok target b t" "cu_stack c = \<lparr>se_tree = t, se_index = 0, se_position = cu_position c\<rparr> # ps"
    "st_node ops (cu_tree c)" "st_height (cu_tree c) < 16" "parents_ok ops dim (cu_tree c) ps t"
    "cu_position c = advance ops dim (dm_zero dim) (stack_before ps)"
    "seek_ordered ops dim target b (cu_position c) (st_items t)" "rep a xs"
    "seek_drop ops dim target b (cu_position c) (st_items t) \<noteq> []"
  shows "lands c (stack_before ps @ seek_take ops dim target b (cu_position c) (st_items t))
      (seek_drop ops dim target b (cu_position c) (st_items t) @ stack_after ps)
      (xs @ seek_take ops dim target b (cu_position c) (st_items t)) (seek_loop dim ag target b (c, False, a))"
  using assms(1) [unfolded enter_ok_def, rule_format, OF assms(2-8)] assms(9) by (simp add: Let_def)

lemma leaf_phase:
  assumes c: "cu_stack c = e # ps" "se_tree e = Leaf s zs ss" "se_index e \<le> length zs"
    and par: "parents_ok ops dim (cu_tree c) ps (Leaf s zs ss)"
    and n: "st_node ops (Leaf s zs ss)"
    and pos: "cu_position c = advance ops dim (dm_zero dim) (stack_before ps @ take (se_index e) zs)"
    and rep: "rep a xs"
    and rest: "rest = drop (se_index e) zs"
    and taken: "taken = seek_take ops dim target b (cu_position c) rest"
    and left: "left = seek_drop ops dim target b (cu_position c) rest"
  shows "if left = [] then \<exists>a'. seek_loop dim ag target b (c, asc, a) =
             seek_loop dim ag target b (c\<lparr>cu_stack := ps,
               cu_position := advance ops dim (cu_position c) rest\<rparr>, True, a') \<and> rep a' (xs @ rest)
         else lands c (stack_before ps @ take (se_index e) zs @ taken) (left @ stack_after ps) (xs @ taken)
           (seek_loop dim ag target b (c, asc, a))"
proof -
  have ss: "ss = map (sm_item ops) zs" "length zs \<le> 2 * TREE_BASE" using n by simp_all
  have split: "taken @ left = rest" by (simp add: taken left seek_take_drop)
  have len: "length [] + length rest \<le> 2 * TREE_BASE" using ss(2) rest by simp
  obtain a1 where a1: "seek_items dim ag target b (cu_position c) (se_index e) a rest (map (sm_item ops) rest) =
       Some (advance ops dim (cu_position c) taken, se_index e + length taken, a1, left \<noteq> [])"
     "pend a1 xs taken"
    using seek_items [OF begin_leaf [OF rep] len, of target b "cu_position c" "se_index e"] taken left by auto
  obtain a2 where a2: "ag_end_leaf ag a1 = Some a2" "rep a2 (xs @ taken)" using end_leaf [OF a1(2)] by blast
  have step: "seek_step dim ag target b (c, asc, a) = Some (if left \<noteq> []
      then Inr (c\<lparr>cu_stack := e\<lparr>se_index := se_index e + length taken\<rparr> # ps,
        cu_position := advance ops dim (cu_position c) taken\<rparr>, a2)
      else Inl (c\<lparr>cu_stack := ps, cu_position := advance ops dim (cu_position c) taken\<rparr>, True, a2))"
    using c a1(1) a2(1) ss rest by (simp add: seek_step_def drop_map)
  show ?thesis
  proof (cases "left = []")
    case True
    then have "taken = rest" using split by simp
    with True loop_Inl [OF step [unfolded True, simplified]] a2(2) show ?thesis by auto
  next
    case False
    have "drop (se_index e + length taken) zs = drop (length taken) rest" by (simp add: rest add.commute)
    moreover have "take (se_index e + length taken) zs = take (se_index e) zs @ take (length taken) rest"
      by (simp only: rest take_add)
    ultimately have d: "drop (se_index e + length taken) zs = left" "take (se_index e + length taken) zs =
        take (se_index e) zs @ taken" using split [symmetric] by simp_all
    then have "se_index e + length taken < length zs" using False by (metis drop_all not_le)
    then have "on_item ops dim (c\<lparr>cu_stack := e\<lparr>se_index := se_index e + length taken\<rparr> # ps,
        cu_position := advance ops dim (cu_position c) taken\<rparr>)
        (stack_before ps @ take (se_index e) zs @ taken) (left @ stack_after ps)"
      using c par d pos by (simp add: on_item_def)
    with loop_Inr [OF step [unfolded if_P [OF False]]] a2(2) False show ?thesis by (auto simp: lands_def)
  qed
qed

lemma children_phase:
  assumes c: "cu_stack c = e # ps" "se_tree e = Internal h s ss ts" "i \<le> length ts"
    and e: "if asc then Suc (se_index e) = i else se_index e = i \<and> se_position e = cu_position c"
    and root: "st_node ops (cu_tree c)" "st_height (cu_tree c) < 16"
    and par: "parents_ok ops dim (cu_tree c) ps (Internal h s ss ts)"
    and pos: "cu_position c = advance ops dim (dm_zero dim) (stack_before ps @ concat (map st_items (take i ts)))"
    and rep: "rep a xs"
    and rest: "rest = concat (map st_items (drop i ts))"
    and ord: "seek_ordered ops dim target b (cu_position c) rest"
    and ih: "\<And>t. t \<in> set ts \<Longrightarrow> enter_ok target b t"
    and taken: "taken = seek_take ops dim target b (cu_position c) rest"
    and left: "left = seek_drop ops dim target b (cu_position c) rest"
  shows "if left = [] then \<exists>a'. seek_loop dim ag target b (c, asc, a) =
             seek_loop dim ag target b (c\<lparr>cu_stack := ps,
               cu_position := advance ops dim (cu_position c) rest\<rparr>, True, a') \<and> rep a' (xs @ rest)
         else lands c (stack_before ps @ concat (map st_items (take i ts)) @ taken) (left @ stack_after ps) (xs @ taken)
           (seek_loop dim ag target b (c, asc, a))"
proof -
  have node: "st_node ops (Internal h s ss ts)" "h + length ps = st_height (cu_tree c)"
    using parents_ok_node [OF par root(1)] by simp_all
  then have ss: "ss = map st_summary ts" and nodes: "\<forall>t \<in> set (drop i ts). st_node ops t"
    by (auto dest: in_set_dropD)
  define n where "n = passed target b (cu_position c) (drop i ts)"
  define q where "q = advance ops dim (cu_position c) (concat (map st_items (take n (drop i ts))))"
  let ?ep = "if asc then cu_position c else se_position e"
  obtain a1 where a1: "seek_children dim ag target b (cu_position c) i ?ep a (drop i ts) (map st_summary (drop i ts)) =
       Some (q, i + n, (if n = 0 then ?ep else q), a1, if n < length (drop i ts) then Some (drop i ts ! n) else None)"
     "rep a1 (xs @ concat (map st_items (take n (drop i ts))))"
    using seek_children [OF rep nodes n_def q_def] by blast
  have ep: "?ep = cu_position c" using e by auto
  have epos: "(if n = 0 then ?ep else q) = q" using ep by (simp add: q_def)
  let ?e = "e\<lparr>se_index := i + n, se_position := q\<rparr>"
  note split = passed_split [OF nodes ord [unfolded rest] n_def q_def]
  show ?thesis
  proof (cases "n < length (drop i ts)")
    case False
    then have n: "n = length (drop i ts)" using passed_le [of target b "cu_position c" "drop i ts"] n_def by simp
    have l: "left = []" using split(2) [OF n] rest left by simp
    have q: "q = advance ops dim (cu_position c) rest" using n rest by (simp add: q_def)
    have step: "seek_step dim ag target b (c, asc, a) = Some (Inl (c\<lparr>cu_stack := ps, cu_position := q\<rparr>, True, a1))"
      using c e a1(1) ss False by (cases asc) (simp_all add: seek_step_def drop_map Let_def)
    from loop_Inl [OF step] l a1(2) n rest show ?thesis by (auto simp: q)
  next
    case True
    let ?t = "drop i ts ! n"
    have t: "?t \<in> set ts" "?t = ts ! (i + n)" "i + n < length ts" using True by (auto simp: less_diff_conv add.commute)
    note sp = split(1) [OF True]
    have l: "left \<noteq> []" using sp rest left by simp
    have h: "length ps < 15" using node t(1) root(2) by auto
    let ?c = "c\<lparr>cu_stack := \<lparr>se_tree = ?t, se_index = 0, se_position = q\<rparr> # ?e # ps, cu_position := q\<rparr>"
    have step: "seek_step dim ag target b (c, asc, a) = Some (Inl (?c, False, a1))"
    proof (cases asc)
      case True
      then show ?thesis using c e a1(1) ss h \<open>n < length (drop i ts)\<close> epos
        by (simp add: seek_step_def drop_map Let_def stack_push_def split: if_splits)
    next
      case False
      then show ?thesis using c e a1(1) ss h \<open>n < length (drop i ts)\<close> epos
        by (simp add: seek_step_def drop_map Let_def stack_push_def split: if_splits)
    qed
    have take_in: "take (i + n) ts = take i ts @ take n (drop i ts)" by (simp add: take_add)
    then have before: "stack_before (?e # ps) = stack_before ps @ concat (map st_items (take i ts)) @
        concat (map st_items (take n (drop i ts)))" using c(2) by simp
    have after: "stack_after (?e # ps) = concat (map st_items (drop (Suc n) (drop i ts))) @ stack_after ps"
      using c(2) by (simp add: add.commute)
    have qb: "q = advance ops dim (dm_zero dim) (stack_before (?e # ps))"
      using pos before by (simp add: q_def)
    have par': "parents_ok ops dim (cu_tree c) (?e # ps) ?t"
      using par t c(2) qb by (simp del: stack_before.simps)
    have "lands ?c (stack_before (?e # ps) @ seek_take ops dim target b (cu_position ?c) (st_items ?t))
        (seek_drop ops dim target b (cu_position ?c) (st_items ?t) @ stack_after (?e # ps))
        ((xs @ concat (map st_items (take n (drop i ts)))) @ seek_take ops dim target b (cu_position ?c) (st_items ?t))
        (seek_loop dim ag target b (?c, False, a1))"
    proof (rule enter_ok_stop)
      show "enter_ok target b ?t" using ih t(1) by blast
      show "parents_ok ops dim (cu_tree ?c) (?e # ps) ?t" using par' by simp
      show "cu_position ?c = advance ops dim (dm_zero dim) (stack_before (?e # ps))" using qb by simp
    qed (use root sp a1(2) in simp_all)
    then show ?thesis
      unfolding before after using loop_Inl [OF step] l sp rest taken left by (simp add: lands_def)
  qed
qed

lemma enter: "st_node ops t \<Longrightarrow> enter_ok target b t"
proof (induction t)
  case (Internal h s ss ts)
  then have ih: "enter_ok target b t" if "t \<in> set ts" for t using that by auto
  show ?case
    unfolding enter_ok_def Let_def
  proof (intro allI impI)
    fix c :: "('t, 's, 'd) cursor" and ps a xs
    assume c: "cu_stack c = \<lparr>se_tree = Internal h s ss ts, se_index = 0, se_position = cu_position c\<rparr> # ps"
      and a: "st_node ops (cu_tree c)" "st_height (cu_tree c) < 16"
        "parents_ok ops dim (cu_tree c) ps (Internal h s ss ts)"
        "cu_position c = advance ops dim (dm_zero dim) (stack_before ps)"
        "seek_ordered ops dim target b (cu_position c) (st_items (Internal h s ss ts))" "rep a xs"
    show "if seek_drop ops dim target b (cu_position c) (st_items (Internal h s ss ts)) = []
      then \<exists>a'. seek_loop dim ag target b (c, False, a) =
          seek_loop dim ag target b (c\<lparr>cu_stack := ps,
            cu_position := advance ops dim (cu_position c) (st_items (Internal h s ss ts))\<rparr>, True, a') \<and>
        rep a' (xs @ st_items (Internal h s ss ts))
      else lands c (stack_before ps @ seek_take ops dim target b (cu_position c) (st_items (Internal h s ss ts)))
        (seek_drop ops dim target b (cu_position c) (st_items (Internal h s ss ts)) @ stack_after ps)
        (xs @ seek_take ops dim target b (cu_position c) (st_items (Internal h s ss ts)))
        (seek_loop dim ag target b (c, False, a))"
      using children_phase [where asc = False and i = 0, OF c _ _ _ a(1,2,3) _ a(6) refl _ ih refl refl] a(4,5) by (simp split: if_splits)
  qed
next
  case (Leaf s zs ss)
  show ?case
    unfolding enter_ok_def Let_def
  proof (intro allI impI)
    fix c :: "('t, 's, 'd) cursor" and ps a xs
    assume c: "cu_stack c = \<lparr>se_tree = Leaf s zs ss, se_index = 0, se_position = cu_position c\<rparr> # ps"
      and a: "parents_ok ops dim (cu_tree c) ps (Leaf s zs ss)"
        "cu_position c = advance ops dim (dm_zero dim) (stack_before ps)" "rep a xs"
    show "if seek_drop ops dim target b (cu_position c) (st_items (Leaf s zs ss)) = []
      then \<exists>a'. seek_loop dim ag target b (c, False, a) =
          seek_loop dim ag target b (c\<lparr>cu_stack := ps,
            cu_position := advance ops dim (cu_position c) (st_items (Leaf s zs ss))\<rparr>, True, a') \<and>
        rep a' (xs @ st_items (Leaf s zs ss))
      else lands c (stack_before ps @ seek_take ops dim target b (cu_position c) (st_items (Leaf s zs ss)))
        (seek_drop ops dim target b (cu_position c) (st_items (Leaf s zs ss)) @ stack_after ps)
        (xs @ seek_take ops dim target b (cu_position c) (st_items (Leaf s zs ss)))
        (seek_loop dim ag target b (c, False, a))"
      using leaf_phase [where asc = False and target = target and b = b, OF c _ _ a(1) Leaf.prems _ a(3) refl refl refl] a(2)
      by (simp split: if_splits)
  qed
qed

text \<open>Going on above a node that has been passed.\<close>

lemma leave:
  "cu_stack c = ps \<Longrightarrow> st_node ops (cu_tree c) \<Longrightarrow> st_height (cu_tree c) < 16 \<Longrightarrow>
   parents_ok ops dim (cu_tree c) ps t \<Longrightarrow>
   cu_position c = advance ops dim (dm_zero dim) (stack_before ps @ st_items t) \<Longrightarrow>
   seek_ordered ops dim target b (cu_position c) (stack_after ps) \<Longrightarrow> rep a xs \<Longrightarrow>
   taken = seek_take ops dim target b (cu_position c) (stack_after ps) \<Longrightarrow>
   left = seek_drop ops dim target b (cu_position c) (stack_after ps) \<Longrightarrow>
   if left = [] then \<exists>a'. seek_loop dim ag target b (c, True, a) = Some (c\<lparr>cu_stack := [],
       cu_position := advance ops dim (cu_position c) (stack_after ps)\<rparr>, a') \<and> rep a' (xs @ stack_after ps)
   else lands c (stack_before ps @ st_items t @ taken) left (xs @ taken) (seek_loop dim ag target b (c, True, a))"
proof (induction ps arbitrary: c t a xs taken left)
  case Nil
  have "seek_step dim ag target b (c, True, a) = Some (Inr (c, a))" using Nil(1) by (simp add: seek_step_def)
  from loop_Inr [OF this] Nil show ?case by simp
next
  case (Cons p ps)
  obtain h s ss ts where p: "se_tree p = Internal h s ss ts" using Cons.prems(4) by (cases "se_tree p") auto
  have par: "se_index p < length ts" "ts ! se_index p = t" "parents_ok ops dim (cu_tree c) ps (Internal h s ss ts)"
    using Cons.prems(4) p by simp_all
  let ?i = "Suc (se_index p)"
  let ?rest = "concat (map st_items (drop ?i ts))"
  have node: "st_node ops (Internal h s ss ts)" using parents_ok_node [OF par(3)] Cons.prems(2) by simp
  have ih: "enter_ok target b t" if "t \<in> set ts" for t using enter node that by simp
  have ord: "seek_ordered ops dim target b (cu_position c) (?rest @ stack_after ps)"
    using Cons.prems(6) p by simp
  have take_i: "concat (map st_items (take ?i ts)) = concat (map st_items (take (se_index p) ts)) @ st_items t"
    using par(1,2) by (simp add: take_Suc_conv_app_nth)
  have before: "stack_before (p # ps) = stack_before ps @ concat (map st_items (take (se_index p) ts))"
    "stack_after (p # ps) = ?rest @ stack_after ps" using p by simp_all
  have pos: "cu_position c = advance ops dim (dm_zero dim) (stack_before ps @ concat (map st_items (take ?i ts)))"
    using Cons.prems(5) before take_i by simp
  note phase = children_phase [where asc = True and i = ?i, OF Cons.prems(1) p _ _ Cons.prems(2,3) par(3) pos
      Cons.prems(7) refl seek_ordered_append(1) [OF ord] ih refl refl, simplified]
  show ?case
  proof (cases "seek_drop ops dim target b (cu_position c) ?rest = []")
    case True
    then obtain a1 where a1: "seek_loop dim ag target b (c, True, a) = seek_loop dim ag target b (c\<lparr>cu_stack := ps,
          cu_position := advance ops dim (cu_position c) ?rest\<rparr>, True, a1)" "rep a1 (xs @ ?rest)"
      using phase par(1) by auto
    let ?c = "c\<lparr>cu_stack := ps, cu_position := advance ops dim (cu_position c) ?rest\<rparr>"
    have all: "\<forall>e \<in> set (seek_ends ops dim (cu_position c) ?rest). seek_past target b e"
      using True by (rule seek_drop_Nil_ends)
    note tk = seek_take_drop_all [OF all, of "stack_after ps"]
    have items: "stack_before ps @ st_items (Internal h s ss ts) = stack_before (p # ps) @ st_items t @ ?rest"
      using before par(1,2) concat_items_nth [of "se_index p" ts] by simp
    have pos': "cu_position ?c = advance ops dim (dm_zero dim) (stack_before ps @ st_items (Internal h s ss ts))"
      unfolding items using Cons.prems(5) by simp
    have "if seek_drop ops dim target b (cu_position ?c) (stack_after ps) = []
      then \<exists>a'. seek_loop dim ag target b (?c, True, a1) = Some (?c\<lparr>cu_stack := [],
        cu_position := advance ops dim (cu_position ?c) (stack_after ps)\<rparr>, a') \<and> rep a' ((xs @ ?rest) @ stack_after ps)
      else lands ?c (stack_before ps @ st_items (Internal h s ss ts) @ seek_take ops dim target b (cu_position ?c) (stack_after ps))
        (seek_drop ops dim target b (cu_position ?c) (stack_after ps))
        ((xs @ ?rest) @ seek_take ops dim target b (cu_position ?c) (stack_after ps)) (seek_loop dim ag target b (?c, True, a1))"
      by (rule Cons.IH [OF _ _ _ _ pos' _ a1(2) refl refl])
        (use Cons.prems(2,3) par(3) seek_ordered_append(2) [OF ord] in simp_all)
    then show ?thesis
      using tk before items a1(1) Cons.prems(8,9) by (simp add: lands_def del: st_items.simps split: if_splits)
  next
    case False
    note tk = seek_drop_append_ne [OF False, of "stack_after ps"]
    have "lands c (stack_before ps @ concat (map st_items (take ?i ts)) @ seek_take ops dim target b (cu_position c) ?rest)
        (seek_drop ops dim target b (cu_position c) ?rest @ stack_after ps)
        (xs @ seek_take ops dim target b (cu_position c) ?rest) (seek_loop dim ag target b (c, True, a))"
      using phase par(1) False by auto
    then show ?thesis
      using False tk before take_i Cons.prems(8,9) by (simp add: lands_def)
  qed
qed

definition seek_end :: "bias \<Rightarrow> 'd \<Rightarrow> 't list \<Rightarrow> 'd" where
  "seek_end b pos left =
     (if b = BLeft then (case left of [] \<Rightarrow> pos | x # _ \<Rightarrow> dm_add dim pos (sm_item ops x)) else pos)"

lemma loop_exit: "cu_stack c = [] \<Longrightarrow> seek_loop dim ag target b (c, asc, a) = Some (c, a)"
  by (rule loop_Inr) (simp add: seek_step_def)

text \<open>The loop from a cursor that is on an item.\<close>

lemma loop_on_item:
  assumes c: "on_item ops dim c before rest" "st_node ops (cu_tree c)" "st_height (cu_tree c) < 16"
    and ord: "seek_ordered ops dim target b (cu_position c) rest" and a: "rep a xs"
    and taken: "taken = seek_take ops dim target b (cu_position c) rest"
    and left: "left = seek_drop ops dim target b (cu_position c) rest"
  shows "\<exists>c' a'. seek_loop dim ag target b (c, False, a) = Some (c', a') \<and> cu_tree c' = cu_tree c \<and>
    cu_did_seek c' = cu_did_seek c \<and> rep a' (xs @ taken) \<and>
    (if left = [] then cu_stack c' = [] \<and> cu_position c' = advance ops dim (dm_zero dim) (before @ taken)
     else on_item ops dim c' (before @ taken) left)"
proof -
  obtain e ps where e: "cu_stack c = e # ps" "st_is_leaf (se_tree e)" "parents_ok ops dim (cu_tree c) ps (se_tree e)"
      "se_index e < length (st_items (se_tree e))"
      "before = stack_before ps @ take (se_index e) (st_items (se_tree e))"
      "rest = drop (se_index e) (st_items (se_tree e)) @ stack_after ps"
      "cu_position c = advance ops dim (dm_zero dim) before"
    using c(1) by (auto simp: on_item_def)
  then obtain s zs ss where l: "se_tree e = Leaf s zs ss" by (cases "se_tree e") auto
  let ?zs = "drop (se_index e) zs"
  have node: "st_node ops (Leaf s zs ss)" using parents_ok_node [OF e(3) c(2)] l by simp
  have ord': "seek_ordered ops dim target b (cu_position c) (?zs @ stack_after ps)" using ord e(6) l by simp
  have pos: "cu_position c = advance ops dim (dm_zero dim) (stack_before ps @ take (se_index e) zs)"
    using e(5,7) l by simp
  have i: "se_index e \<le> length zs" using e(4) l by simp
  note phase = leaf_phase [where asc = False, OF e(1) l i e(3) [unfolded l] node pos a refl refl refl, of target b]
  show ?thesis
  proof (cases "seek_drop ops dim target b (cu_position c) ?zs = []")
    case True
    let ?c = "c\<lparr>cu_stack := ps, cu_position := advance ops dim (cu_position c) ?zs\<rparr>"
    obtain a1 where a1: "seek_loop dim ag target b (c, False, a) = seek_loop dim ag target b (?c, True, a1)"
        "rep a1 (xs @ ?zs)" using phase True by auto
    note tk = seek_take_drop_all [OF seek_drop_Nil_ends [OF True], of "stack_after ps"]
    have pos': "cu_position ?c = advance ops dim (dm_zero dim) (stack_before ps @ st_items (Leaf s zs ss))"
      using pos by (simp flip: advance_simps(3))
    have "if seek_drop ops dim target b (cu_position ?c) (stack_after ps) = []
      then \<exists>a'. seek_loop dim ag target b (?c, True, a1) = Some (?c\<lparr>cu_stack := [],
        cu_position := advance ops dim (cu_position ?c) (stack_after ps)\<rparr>, a') \<and> rep a' ((xs @ ?zs) @ stack_after ps)
      else lands ?c (stack_before ps @ st_items (Leaf s zs ss) @ seek_take ops dim target b (cu_position ?c) (stack_after ps))
        (seek_drop ops dim target b (cu_position ?c) (stack_after ps))
        ((xs @ ?zs) @ seek_take ops dim target b (cu_position ?c) (stack_after ps)) (seek_loop dim ag target b (?c, True, a1))"
      by (rule leave [OF _ _ _ _ pos' _ a1(2) refl refl])
        (use c(2,3) e(3) l seek_ordered_append(2) [OF ord'] in simp_all)
    moreover have "stack_before ps @ st_items (Leaf s zs ss) = before @ ?zs" using e(5) l by simp
    moreover note seek_take_drop [of ops dim target b "cu_position ?c" "stack_after ps"]
    ultimately show ?thesis
      using a1(1) tk taken left e(5,6,7) l
      by (cases "seek_drop ops dim target b (cu_position ?c) (stack_after ps) = []") (auto simp: lands_def take_drop_append advance_take_drop)
  next
    case False
    note tk = seek_drop_append_ne [OF False, of "stack_after ps"]
    have "lands c (stack_before ps @ take (se_index e) zs @ seek_take ops dim target b (cu_position c) ?zs)
       (seek_drop ops dim target b (cu_position c) ?zs @ stack_after ps)
       (xs @ seek_take ops dim target b (cu_position c) ?zs) (seek_loop dim ag target b (c, False, a))"
      using phase False by auto
    then show ?thesis using False tk taken left e(5,6) l by (auto simp: lands_def)
  qed
qed

text \<open>The loop from a fresh cursor.\<close>

lemma loop_fresh:
  assumes c: "cu_stack c = [\<lparr>se_tree = cu_tree c, se_index = 0, se_position = dm_zero dim\<rparr>]"
      "cu_position c = dm_zero dim" "st_wf ops (cu_tree c)" "st_height (cu_tree c) < 16"
    and ord: "seek_ordered ops dim target b (cu_position c) (st_items (cu_tree c))" and a: "rep a xs"
    and taken: "taken = seek_take ops dim target b (cu_position c) (st_items (cu_tree c))"
    and left: "left = seek_drop ops dim target b (cu_position c) (st_items (cu_tree c))"
  shows "\<exists>c' a'. seek_loop dim ag target b (c, False, a) = Some (c', a') \<and> cu_tree c' = cu_tree c \<and>
    cu_did_seek c' = cu_did_seek c \<and> rep a' (xs @ taken) \<and>
    (if left = [] then cu_stack c' = [] \<and> cu_position c' = advance ops dim (dm_zero dim) taken
     else on_item ops dim c' taken left)"
proof (cases "cu_tree c = st_new ops")
  case True
  obtain a1 where a1: "ag_end_leaf ag a = Some a1" "rep a1 xs"
    using end_leaf [OF begin_leaf [OF a]] by auto
  let ?c = "c\<lparr>cu_stack := []\<rparr>"
  have "seek_step dim ag target b (c, False, a) = Some (Inl (?c, True, a1))"
    using c True a1 by (simp add: seek_step_def st_new_def)
  from loop_Inl [OF this] loop_exit [of ?c target b True a1] show ?thesis
    using True a1(2) c taken left by simp
next
  case False
  then have n: "st_node ops (cu_tree c)" using c(3) by (simp add: st_wf_def)
  have e: "cu_stack c = \<lparr>se_tree = cu_tree c, se_index = 0, se_position = cu_position c\<rparr> # []" using c by simp
  note enters = enter [OF n, of target b, unfolded enter_ok_def, rule_format, OF e n c(4) _ _ ord a]
  show ?thesis
  proof (cases "left = []")
    case True
    then have t: "taken = st_items (cu_tree c)"
      using seek_take_drop [of ops dim target b "cu_position c" "st_items (cu_tree c)"] taken left by simp
    obtain a1 where "seek_loop dim ag target b (c, False, a) = seek_loop dim ag target b (c\<lparr>cu_stack := [],
        cu_position := advance ops dim (cu_position c) (st_items (cu_tree c))\<rparr>, True, a1)"
        "rep a1 (xs @ st_items (cu_tree c))"
      using enters c(2) True left by (auto simp: Let_def)
    then show ?thesis using True t c(2) by (simp add: loop_exit)
  next
    case False
    then have "lands c taken left (xs @ taken) (seek_loop dim ag target b (c, False, a))"
      using enters c(2) taken left by (simp add: Let_def)
    with False show ?thesis by (auto simp: lands_def)
  qed
qed

theorem seek_internal:
  assumes c: "cu_at ops dim c before rest"
    and ord: "seek_ordered ops dim target b (cu_position c) rest" and a: "rep a xs"
    and forward: "target (cu_position c) \<noteq> Less"
    and taken: "taken = seek_take ops dim target b (cu_position c) rest"
    and left: "left = seek_drop ops dim target b (cu_position c) rest"
  shows "\<exists>c' a'. seek_internal dim ag target b c a =
      Some (c', a', target (seek_end b (advance ops dim (dm_zero dim) (before @ taken)) left) = Equal) \<and>
    cu_tree c' = cu_tree c \<and> cu_view ops dim c' (before @ taken) left \<and> rep a' (xs @ taken)"
proof -
  note wf = cu_at_tree [OF c]
  let ?c = "if cu_did_seek c then c else c\<lparr>cu_did_seek := True,
    cu_stack := [\<lparr>se_tree = cu_tree c, se_index = 0, se_position = dm_zero dim\<rparr>]\<rparr>"
  have items: "st_items (cu_tree c) = before @ rest" by (rule cu_at_items [OF c])
  have all: "taken @ left = rest" by (simp add: taken left seek_take_drop)
  have "\<exists>c' a'. seek_loop dim ag target b (?c, False, a) = Some (c', a') \<and> cu_tree c' = cu_tree c \<and>
    cu_did_seek c' \<and> rep a' (xs @ taken) \<and>
    (if left = [] then cu_stack c' = [] \<and> cu_position c' = advance ops dim (dm_zero dim) (before @ taken)
     else on_item ops dim c' (before @ taken) left)"
  proof (cases "cu_did_seek c")
    case True
    then have v: "cu_view ops dim c before rest" using c by (auto simp: cu_at_def cu_fresh_def)
    show ?thesis
    proof (cases "rest = []")
      case True
      then have "taken = []" "left = []" using all by simp_all
      moreover have "cu_stack c = []" "cu_position c = advance ops dim (dm_zero dim) before" "cu_did_seek c"
        using v True by (simp_all add: cu_view_def)
      ultimately show ?thesis using a by (simp add: loop_exit)
    next
      case False
      then have i: "on_item ops dim c before rest" using v by (simp add: cu_view_def)
      have n: "st_node ops (cu_tree c)" using wf items False by (auto simp: st_wf_def)
      from loop_on_item [OF i n _ ord a taken left] wf True show ?thesis by auto
    qed
  next
    case False
    then have f: "cu_position c = dm_zero dim" "before = []" "rest = st_items (cu_tree c)"
      using c by (auto simp: cu_at_def cu_fresh_def cu_view_def)
    from loop_fresh [of ?c target b a xs taken left] f False wf ord a taken left show ?thesis by auto
  qed
  then obtain c' a' where loop: "seek_loop dim ag target b (?c, False, a) = Some (c', a')" "cu_tree c' = cu_tree c"
      "cu_did_seek c'" "rep a' (xs @ taken)"
      "if left = [] then cu_stack c' = [] \<and> cu_position c' = advance ops dim (dm_zero dim) (before @ taken)
       else on_item ops dim c' (before @ taken) left" by blast
  let ?r = "c'\<lparr>cu_at_end := (cu_stack c' = [])\<rparr>"
  have view: "cu_view ops dim ?r (before @ taken) left"
    using loop wf items all by (auto simp: cu_view_def on_item_def split: if_splits)
  have pos: "cu_position c' = advance ops dim (dm_zero dim) (before @ taken)"
    using loop(5) by (auto simp: on_item_def split: if_splits)
  have "cu_stack c = []" if "\<not> cu_did_seek c" using c that by (auto simp: cu_at_def cu_view_def cu_fresh_def)
  then have push: "(if \<not> cu_did_seek c then do {
             stk \<leftarrow> stack_push \<lparr>se_tree = cu_tree c, se_index = 0, se_position = dm_zero dim\<rparr> (cu_stack c);
             Some (c\<lparr>cu_did_seek := True, cu_stack := stk\<rparr>) }
           else Some c) = Some ?c" by (simp add: stack_push_def)
  have e: "(if b = BLeft then do { s \<leftarrow> cu_item_summary ?r;
             Some (case s of Some s \<Rightarrow> dm_add dim (cu_position ?r) s | None \<Rightarrow> cu_position ?r) }
           else Some (cu_position ?r)) = Some (seek_end b (cu_position c') left)"
    using cu_view_item(2) [OF view] by (simp add: seek_end_def list_first_def split: list.splits)
  show ?thesis
    unfolding seek_internal_def push
    using forward loop e pos view
    by (simp add: Let_def)
qed

end

section \<open>Seek, slice, suffix and summary\<close>

definition slice_rep :: "('t, 's) summary_ops \<Rightarrow> ('t, 's) slice_state \<Rightarrow> 't list \<Rightarrow> bool" where
  "slice_rep ops a xs \<longleftrightarrow> st_wf ops (sl_tree a) \<and> st_items (sl_tree a) = xs \<and>
     sl_leaf_items a = [] \<and> sl_leaf_item_summaries a = [] \<and> sl_leaf_summary a = sm_zero ops"

definition slice_pend :: "('t, 's) summary_ops \<Rightarrow> ('t, 's) slice_state \<Rightarrow> 't list \<Rightarrow> 't list \<Rightarrow> bool" where
  "slice_pend ops a xs ys \<longleftrightarrow> st_wf ops (sl_tree a) \<and> st_items (sl_tree a) = xs \<and> length ys \<le> 2 * TREE_BASE \<and>
     sl_leaf_items a = ys \<and> sl_leaf_item_summaries a = map (sm_item ops) ys \<and> sl_leaf_summary a = sum_items ops ys"

sublocale dimension_laws \<subseteq> unit_seek: seek_aggregate_laws ops dim unit_aggregate "\<lambda>_ _. True" "\<lambda>_ _ _. True"
  by unfold_locales (simp_all add: unit_aggregate_def)

sublocale dimension_laws \<subseteq> slice_seek: seek_aggregate_laws ops dim "slice_aggregate ops" "slice_rep ops" "slice_pend ops"
proof unfold_locales
  fix a xs ys x assume a: "slice_pend ops a xs ys" "length ys < 2 * TREE_BASE"
  then show "\<exists>a'. ag_push_item (slice_aggregate ops) a x (sm_item ops x) = Some a' \<and> slice_pend ops a' xs (ys @ [x])"
    by (simp add: slice_pend_def slice_aggregate_def slice_push_item_def sum_items_def sum_summaries_def)
next
  fix a xs ys assume a: "slice_pend ops a xs ys"
  let ?leaf = "Leaf (sum_items ops ys) ys (map (sm_item ops) ys)"
  have "st_wf ops ?leaf"
  proof (cases "ys = []")
    case True
    then show ?thesis by (simp add: st_wf_def st_new_def sum_items_def sum_summaries_def)
  qed (use a in \<open>simp add: slice_pend_def st_wf_def sum_items_def\<close>)
  then show "\<exists>a'. ag_end_leaf (slice_aggregate ops) a = Some a' \<and> slice_rep ops a' (xs @ ys)"
    using append [of "sl_tree a" ?leaf] a
    by (auto simp: slice_pend_def slice_rep_def slice_aggregate_def slice_end_leaf_def)
next
  fix a xs t assume a: "slice_rep ops a xs" "st_node ops t"
  then show "\<exists>a'. ag_push_tree (slice_aggregate ops) a t (st_summary t) = Some a' \<and> slice_rep ops a' (xs @ st_items t)"
    using append [of "sl_tree a" t]
    by (auto simp: slice_rep_def slice_aggregate_def slice_push_tree_def st_wf_def)
qed (simp add: slice_pend_def slice_rep_def sum_items_def sum_summaries_def)

text \<open>Summing up a second dimension while seeking in the first.\<close>

locale two_dimensions = dimension_laws ops dim + out: dimension_laws ops out
  for ops :: "('t, 's) summary_ops" and dim :: "('s, 'd) dimension" and out :: "('s, 'o) dimension"

sublocale two_dimensions \<subseteq> summary_seek: seek_aggregate_laws ops dim "summary_aggregate out"
  "\<lambda>a xs. a = advance ops out (dm_zero out) xs" "\<lambda>a xs ys. a = advance ops out (dm_zero out) (xs @ ys)"
  by unfold_locales (simp_all add: summary_aggregate_def out.add_node)

context dimension_laws
begin

lemma cu_slice_at:
  assumes "cu_at ops dim c before rest" "seek_ordered ops dim target b (cu_position c) rest"
    and "target (cu_position c) \<noteq> Less"
    and "taken = seek_take ops dim target b (cu_position c) rest"
    and "left = seek_drop ops dim target b (cu_position c) rest"
  shows "\<exists>c' t. cu_slice ops dim target b c = Some (c', t) \<and> cu_tree c' = cu_tree c \<and>
    cu_view ops dim c' (before @ taken) left \<and> st_wf ops t \<and> st_items t = taken"
  using slice_seek.seek_internal [OF assms(1,2) _ assms(3-), of "slice_new ops" "[]"]
  by (auto simp: cu_slice_def slice_rep_def slice_new_def)

lemma cu_seek_at:
  assumes "cu_at ops dim c before rest" "seek_ordered ops dim target b (dm_zero dim) (before @ rest)"
    and "target (dm_zero dim) \<noteq> Less"
    and "taken = seek_take ops dim target b (dm_zero dim) (before @ rest)"
    and "left = seek_drop ops dim target b (dm_zero dim) (before @ rest)"
  shows "\<exists>c'. cu_seek dim target b c =
      Some (c', target (unit_seek.seek_end b (advance ops dim (dm_zero dim) taken) left) = Equal) \<and>
    cu_tree c' = cu_tree c \<and> cu_view ops dim c' taken left"
proof -
  have z: "cu_position (cu_reset dim c) = dm_zero dim" "cu_tree (cu_reset dim c) = cu_tree c"
    by (simp_all add: cu_reset_def)
  show ?thesis
    using unit_seek.seek_internal [OF cu_reset_at [OF assms(1)], where target = target and b = b and taken = taken and left = left and a = "()"] assms(2-) z
    by (auto simp: cu_seek_def)
qed

lemma cu_seek_forward_at:
  assumes "cu_at ops dim c before rest" "seek_ordered ops dim target b (cu_position c) rest"
    and "target (cu_position c) \<noteq> Less"
    and "taken = seek_take ops dim target b (cu_position c) rest"
    and "left = seek_drop ops dim target b (cu_position c) rest"
  shows "\<exists>c'. cu_seek_forward dim target b c =
      Some (c', target (unit_seek.seek_end b (advance ops dim (dm_zero dim) (before @ taken)) left) = Equal) \<and>
    cu_tree c' = cu_tree c \<and> cu_view ops dim c' (before @ taken) left"
  using unit_seek.seek_internal [OF assms(1,2) _ assms(3-), where a = "()"] by (auto simp: cu_seek_forward_def)

lemma target_end_split:
  "seek_take ops dim target_end BRight d xs = xs" "seek_drop ops dim target_end BRight d xs = []"
  "seek_ordered ops dim target_end BRight d xs"
proof -
  show "seek_take ops dim target_end BRight d xs = xs"
    by (induction xs arbitrary: d) (simp_all add: seek_past_def target_end_def)
  show "seek_drop ops dim target_end BRight d xs = []"
    by (induction xs arbitrary: d) (simp_all add: seek_past_def target_end_def)
  show "seek_ordered ops dim target_end BRight d xs"
    by (simp add: seek_ordered_def seek_past_def target_end_def map_replicate_const)
qed

lemma cu_suffix_at:
  assumes "cu_at ops dim c before rest"
  shows "\<exists>c' t. cu_suffix ops dim c = Some (c', t) \<and> cu_tree c' = cu_tree c \<and>
    cu_view ops dim c' (before @ rest) [] \<and> st_wf ops t \<and> st_items t = rest"
  using cu_slice_at [OF assms target_end_split(3) _ refl refl]
  by (simp add: cu_suffix_def target_end_split) (simp add: target_end_def)

end

context two_dimensions
begin

lemma cu_summary_at:
  assumes "cu_at ops dim c before rest" "seek_ordered ops dim target b (cu_position c) rest"
    and "target (cu_position c) \<noteq> Less"
    and "taken = seek_take ops dim target b (cu_position c) rest"
    and "left = seek_drop ops dim target b (cu_position c) rest"
  shows "\<exists>c'. cu_summary dim out target b c = Some (c', advance ops out (dm_zero out) taken) \<and>
    cu_tree c' = cu_tree c \<and> cu_view ops dim c' (before @ taken) left"
  using summary_seek.seek_internal [OF assms(1,2) _ assms(3-), of "dm_zero out" "[]"]
  by (auto simp: cu_summary_def)

end

section \<open>Stepping forward\<close>

text \<open>A filter may only prune a subtree in which it rejects every item.\<close>

definition filter_ok :: "('t, 's) summary_ops \<Rightarrow> ('s \<Rightarrow> bool) \<Rightarrow> bool" where
  "filter_ok ops F \<longleftrightarrow>
     (\<forall>xs. xs \<noteq> [] \<longrightarrow> \<not> F (sum_items ops xs) \<longrightarrow> (\<forall>x \<in> set xs. \<not> F (sm_item ops x)))"

abbreviation rejected :: "('t, 's) summary_ops \<Rightarrow> ('s \<Rightarrow> bool) \<Rightarrow> 't \<Rightarrow> bool" where
  "rejected ops F x \<equiv> \<not> F (sm_item ops x)"

definition cu_moved ::
    "('t, 's) summary_ops \<Rightarrow> ('s, 'd) dimension \<Rightarrow> ('t, 's, 'd) cursor \<Rightarrow> 't list \<Rightarrow> 't list \<Rightarrow>
       ('t, 's, 'd) cursor option \<Rightarrow> bool" where
  "cu_moved ops dim c before rest r \<longleftrightarrow>
     (\<exists>c'. r = Some c' \<and> cu_tree c' = cu_tree c \<and> cu_did_seek c' = cu_did_seek c \<and>
        cu_at_end c' = cu_at_end c \<and> on_item ops dim c' before rest)"

declare dropWhile_eq_Nil_conv [simp del]

lemma takeWhile_take:
  "take (length (takeWhile P xs)) xs = takeWhile P xs" "drop (length (takeWhile P xs)) xs = dropWhile P xs"
  by (induction xs) simp_all

lemma dropWhile_Nil_append:
  "dropWhile P xs = [] \<Longrightarrow> dropWhile P (xs @ ys) = dropWhile P ys \<and> takeWhile P (xs @ ys) = xs @ takeWhile P ys"
  by (simp add: dropWhile_append takeWhile_append dropWhile_eq_Nil_conv)

lemma dropWhile_ne_append:
  "dropWhile P xs \<noteq> [] \<Longrightarrow> dropWhile P (xs @ ys) = dropWhile P xs @ ys \<and> takeWhile P (xs @ ys) = takeWhile P xs"
  by (auto simp: dropWhile_append takeWhile_append dropWhile_eq_Nil_conv)

lemma forward_Inl: "forward_step dim F st = Some (Inl st') \<Longrightarrow> forward_loop dim F st = forward_loop dim F st'"
  by (subst forward_loop.simps) simp

lemma forward_Inr: "forward_step dim F st = Some (Inr c) \<Longrightarrow> forward_loop dim F st = Some c"
  by (subst forward_loop.simps) simp

context dimension_laws
begin

lemma skip_items:
  "k = length (takeWhile (rejected ops F) xs) \<Longrightarrow>
   skip_rejected dim F epos pos i (map (sm_item ops) xs) =
     (advance ops dim epos (take k xs), advance ops dim pos (take k xs), i + k)"
  by (induction xs arbitrary: epos pos i k) auto

lemma skip_nodes:
  "\<forall>t \<in> set ts. st_node ops t \<Longrightarrow> k = length (takeWhile (\<lambda>t. \<not> F (st_summary t)) ts) \<Longrightarrow>
   skip_rejected dim F epos pos i (map st_summary ts) =
     (advance ops dim epos (concat (map st_items (take k ts))),
      advance ops dim pos (concat (map st_items (take k ts))), i + k)"
  by (induction ts arbitrary: epos pos i k) (auto simp: add_node)

lemma rejected_nodes:
  assumes "filter_ok ops F" "\<forall>t \<in> set ts. st_node ops t" "k = length (takeWhile (\<lambda>t. \<not> F (st_summary t)) ts)"
  shows "\<forall>x \<in> set (concat (map st_items (take k ts))). rejected ops F x"
proof -
  have "rejected ops F x" if "t \<in> set ts" "\<not> F (st_summary t)" "x \<in> set (st_items t)" for t x
    using assms(1,2) that st_node_items_ne [of ops t] node_summary [of t] by (auto simp: filter_ok_def)
  moreover have "take k ts = takeWhile (\<lambda>t. \<not> F (st_summary t)) ts" by (simp only: assms(3) takeWhile_take)
  ultimately show ?thesis by (auto dest!: set_takeWhileD)
qed

text \<open>Entering a node from above.\<close>

definition forward_enter_ok :: "('s \<Rightarrow> bool) \<Rightarrow> ('t, 's) sum_tree \<Rightarrow> bool" where
  "forward_enter_ok F t \<longleftrightarrow>
     (\<forall>c ps. cu_stack c = \<lparr>se_tree = t, se_index = 0, se_position = cu_position c\<rparr> # ps \<longrightarrow>
        st_node ops (cu_tree c) \<longrightarrow> st_height (cu_tree c) < 16 \<longrightarrow> parents_ok ops dim (cu_tree c) ps t \<longrightarrow>
        cu_position c = advance ops dim (dm_zero dim) (stack_before ps) \<longrightarrow>
        (if dropWhile (rejected ops F) (st_items t) = []
         then forward_loop dim F (c, True) = forward_loop dim F (c\<lparr>cu_stack := ps,
           cu_position := advance ops dim (cu_position c) (st_items t)\<rparr>, False)
         else cu_moved ops dim c (stack_before ps @ takeWhile (rejected ops F) (st_items t))
           (dropWhile (rejected ops F) (st_items t) @ stack_after ps) (forward_loop dim F (c, True))))"

lemma forward_leaf:
  assumes c: "cu_stack c = e # ps" "se_tree e = Leaf s zs ss" "i \<le> length zs"
    and e: "if descend then se_index e = i else Suc (se_index e) = i"
    and par: "parents_ok ops dim (cu_tree c) ps (Leaf s zs ss)"
    and n: "st_node ops (Leaf s zs ss)"
    and pos: "cu_position c = advance ops dim (dm_zero dim) (stack_before ps @ take (se_index e) zs)"
    and rest: "rest = drop i zs"
  shows "if dropWhile (rejected ops F) rest = []
         then forward_loop dim F (c, descend) = forward_loop dim F (c\<lparr>cu_stack := ps,
           cu_position := advance ops dim (dm_zero dim) (stack_before ps @ zs)\<rparr>, False)
         else cu_moved ops dim c (stack_before ps @ take i zs @ takeWhile (rejected ops F) rest)
           (dropWhile (rejected ops F) rest @ stack_after ps) (forward_loop dim F (c, descend))"
proof -
  have ss: "ss = map (sm_item ops) zs" using n by simp
  define k where "k = length (takeWhile (rejected ops F) rest)"
  define ep where "ep = (if descend then se_position e else dm_add dim (se_position e) (ss ! se_index e))"
  define q where "q = advance ops dim (dm_zero dim) (stack_before ps @ take i zs)"
  have tk: "take k rest = takeWhile (rejected ops F) rest" "drop k rest = dropWhile (rejected ops F) rest"
    by (simp_all only: k_def takeWhile_take)
  have start: "(if descend then Some (se_position e, cu_position c, se_index e)
      else if se_index e < length ss then Some (dm_add dim (se_position e) (ss ! se_index e),
        dm_add dim (cu_position c) (ss ! se_index e), se_index e + 1) else None) = Some (ep, q, i)"
  proof (cases descend)
    case False
    then have "take i zs = take (se_index e) zs @ [zs ! se_index e]" "se_index e < length zs"
      using e c(3) take_Suc_conv_app_nth [of "se_index e" zs] by auto
    with False ss e pos show ?thesis by (simp add: ep_def q_def)
  qed (use e pos in \<open>simp add: ep_def q_def\<close>)
  have skip: "skip_rejected dim F ep q i (drop i ss) =
      (advance ops dim ep (take k rest), advance ops dim q (take k rest), i + k)"
    using skip_items [OF k_def, of ep q i] ss rest by (simp add: drop_map)
  let ?q = "advance ops dim q (take k rest)"
  let ?e = "e\<lparr>se_index := i + k, se_position := advance ops dim ep (take k rest)\<rparr>"
  have step: "forward_step dim F (c, descend) = Some (if i + k < length zs
      then Inr (c\<lparr>cu_stack := ?e # ps, cu_position := ?q\<rparr>)
      else Inl (c\<lparr>cu_stack := ps, cu_position := ?q\<rparr>, False))"
  proof (cases descend)
    case True
    with start have "ep = se_position e" "q = cu_position c" "i = se_index e" by simp_all
    with True c skip ss show ?thesis by (simp add: forward_step_def)
  next
    case False
    with start have "ep = dm_add dim (se_position e) (ss ! se_index e)"
      "q = dm_add dim (cu_position c) (ss ! se_index e)" "i = Suc (se_index e)" "se_index e < length ss"
      by (simp_all split: if_splits)
    with False c skip ss show ?thesis by (simp add: forward_step_def)
  qed
  have len: "i + k < length zs \<longleftrightarrow> dropWhile (rejected ops F) rest \<noteq> []"
    unfolding tk(2) [symmetric] using rest c(3) by (simp add: add.commute not_le)
  show ?thesis
  proof (cases "dropWhile (rejected ops F) rest = []")
    case True
    then have "take k rest = rest" using tk by (metis append_Nil2 takeWhile_dropWhile_id)
    then have "?q = advance ops dim (dm_zero dim) (stack_before ps @ zs)"
      using rest by (simp add: q_def advance_take_drop)
    with True len step forward_Inl [of dim F "(c, descend)"] show ?thesis by simp
  next
    case False
    have d: "drop (i + k) zs = dropWhile (rejected ops F) rest" "take (i + k) zs = take i zs @ takeWhile (rejected ops F) rest"
      unfolding tk [symmetric] by (simp_all add: rest take_add add.commute)
    then have "on_item ops dim (c\<lparr>cu_stack := ?e # ps, cu_position := ?q\<rparr>)
        (stack_before ps @ take i zs @ takeWhile (rejected ops F) rest) (dropWhile (rejected ops F) rest @ stack_after ps)"
      using c par len False tk by (simp add: on_item_def q_def)
    with False len step forward_Inr [of dim F "(c, descend)"] show ?thesis
      unfolding if_not_P [OF False] by (simp add: cu_moved_def)
  qed
qed

text \<open>The children of an inner node from index \<open>i\<close> on.\<close>

lemma forward_children:
  assumes F: "filter_ok ops F"
    and ih: "\<And>t. t \<in> set ts \<Longrightarrow> forward_enter_ok F t"
    and root: "st_node ops root" "st_height root < 16"
    and par: "parents_ok ops dim root ps (Internal h s ss ts)"
  shows "cu_stack c = e # ps \<Longrightarrow> se_tree e = Internal h s ss ts \<Longrightarrow> i \<le> length ts \<Longrightarrow> cu_tree c = root \<Longrightarrow>
    (if descend then se_index e = i \<and> se_position e = cu_position c else Suc (se_index e) = i) \<Longrightarrow>
    cu_position c = advance ops dim (dm_zero dim) (stack_before ps @ concat (map st_items (take i ts))) \<Longrightarrow>
    rest = concat (map st_items (drop i ts)) \<Longrightarrow>
    if dropWhile (rejected ops F) rest = []
    then forward_loop dim F (c, descend) = forward_loop dim F (c\<lparr>cu_stack := ps,
      cu_position := advance ops dim (cu_position c) rest\<rparr>, False)
    else cu_moved ops dim c (stack_before ps @ concat (map st_items (take i ts)) @ takeWhile (rejected ops F) rest)
      (dropWhile (rejected ops F) rest @ stack_after ps) (forward_loop dim F (c, descend))"
proof (induction "length ts - i" arbitrary: i c e descend rest rule: less_induct)
  case less
  note c = less.prems(1-3) and pos = less.prems(6) and rest = less.prems(7)
  have node: "st_node ops (Internal h s ss ts)" "h + length ps = st_height root"
    using parents_ok_node [OF par root(1)] by simp_all
  have ss: "ss = map st_summary ts" and nodes: "\<forall>t \<in> set (drop i ts). st_node ops t"
    using node(1) by (auto dest: in_set_dropD)
  define k where "k = length (takeWhile (\<lambda>t. \<not> F (st_summary t)) (drop i ts))"
  define ys where "ys = concat (map st_items (take k (drop i ts)))"
  define q where "q = advance ops dim (cu_position c) ys"
  have ys: "\<forall>x \<in> set ys. rejected ops F x" unfolding ys_def by (rule rejected_nodes [OF F nodes k_def])
  let ?e = "e\<lparr>se_index := i + k, se_position := q\<rparr>"
  have skip: "skip_rejected dim F (cu_position c) (cu_position c) i (drop i ss) = (q, q, i + k)"
    using skip_nodes [OF nodes k_def, of "cu_position c" "cu_position c" i] ss
    by (simp add: drop_map q_def ys_def)
  have k: "k \<le> length (drop i ts)" unfolding k_def by (rule length_takeWhile_le)
  show ?case
  proof (cases "i + k < length ts")
    case False
    then have "k = length (drop i ts)" using k c(3) by simp
    then have r: "ys = rest" using rest by (simp add: ys_def)
    have "forward_step dim F (c, descend) = Some (Inl (c\<lparr>cu_stack := ps, cu_position := q\<rparr>, False))"
      using c(1,2) less.prems(5) skip False by (cases descend) (simp_all add: forward_step_def Let_def)
    from forward_Inl [OF this] ys r show ?thesis by (simp add: q_def dropWhile_eq_Nil_conv)
  next
    case True
    let ?t = "ts ! (i + k)"
    have t: "?t \<in> set ts" "st_node ops ?t" "Suc (st_height ?t) = h" using True node(1) by auto
    have h: "length ps < 15" using node(2) t(3) root(2) by auto
    let ?c = "c\<lparr>cu_stack := \<lparr>se_tree = ?t, se_index = 0, se_position = q\<rparr> # ?e # ps, cu_position := q\<rparr>"
    have step: "forward_step dim F (c, descend) = Some (Inl (?c, True))"
      using c(1,2) less.prems(5) skip True h by (cases descend) (simp_all add: forward_step_def Let_def stack_push_def)
    have take_in: "take (i + k) ts = take i ts @ take k (drop i ts)" by (simp add: take_add)
    then have before: "stack_before (?e # ps) = stack_before ps @ concat (map st_items (take i ts)) @ ys"
      using c(2) by (simp add: ys_def)
    have qb: "q = advance ops dim (dm_zero dim) (stack_before (?e # ps))"
      unfolding before using pos by (simp add: q_def)
    let ?later = "concat (map st_items (drop (Suc (i + k)) ts))"
    have after: "stack_after (?e # ps) = ?later @ stack_after ps" using c(2) by simp
    have par': "parents_ok ops dim (cu_tree ?c) (?e # ps) ?t"
      using par True c(2) qb less.prems(4) by (simp del: stack_before.simps)
    have "drop i ts = take k (drop i ts) @ ?t # drop (Suc (i + k)) ts"
      using True append_take_drop_id [of k "drop i ts"] Cons_nth_drop_Suc [of "i + k" ts] by (simp add: add.commute)
    then have "rest = concat (map st_items (take k (drop i ts) @ ?t # drop (Suc (i + k)) ts))"
      unfolding rest by simp
    then have rest': "rest = ys @ st_items ?t @ ?later" by (simp add: ys_def)
    have ys_nil: "dropWhile (rejected ops F) ys = []" using ys by (simp add: dropWhile_eq_Nil_conv)
    note tk = dropWhile_Nil_append [OF ys_nil, of "st_items ?t @ ?later"]
    have enter: "if dropWhile (rejected ops F) (st_items ?t) = []
         then forward_loop dim F (?c, True) = forward_loop dim F (?c\<lparr>cu_stack := ?e # ps,
           cu_position := advance ops dim (cu_position ?c) (st_items ?t)\<rparr>, False)
         else cu_moved ops dim ?c (stack_before (?e # ps) @ takeWhile (rejected ops F) (st_items ?t))
           (dropWhile (rejected ops F) (st_items ?t) @ stack_after (?e # ps)) (forward_loop dim F (?c, True))"
      by (rule ih [OF t(1), unfolded forward_enter_ok_def, rule_format, OF _ _ _ par'])
        (use qb root less.prems(4) in simp_all)
    show ?thesis
    proof (cases "dropWhile (rejected ops F) (st_items ?t) = []")
      case False
      note tk2 = dropWhile_ne_append [OF False, of ?later]
      have "cu_moved ops dim ?c (stack_before (?e # ps) @ takeWhile (rejected ops F) (st_items ?t))
           (dropWhile (rejected ops F) (st_items ?t) @ stack_after (?e # ps)) (forward_loop dim F (?c, True))"
        using enter False by simp
      then show ?thesis
        unfolding before after using forward_Inl [OF step] False tk tk2 rest' by (simp add: cu_moved_def)
    next
      case rej: True
      note tk2 = dropWhile_Nil_append [OF rej, of ?later]
      let ?d = "?c\<lparr>cu_stack := ?e # ps, cu_position := advance ops dim q (st_items ?t)\<rparr>"
      have loop: "forward_loop dim F (c, descend) = forward_loop dim F (?d, False)"
        using forward_Inl [OF step] enter rej by simp
      have take_Suc: "concat (map st_items (take (Suc (i + k)) ts)) = concat (map st_items (take i ts)) @ ys @ st_items ?t"
        using True take_in by (simp add: take_Suc_conv_app_nth ys_def)
      have "if dropWhile (rejected ops F) ?later = []
        then forward_loop dim F (?d, False) = forward_loop dim F (?d\<lparr>cu_stack := ps,
          cu_position := advance ops dim (cu_position ?d) ?later\<rparr>, False)
        else cu_moved ops dim ?d (stack_before ps @ concat (map st_items (take (Suc (i + k)) ts)) @
            takeWhile (rejected ops F) ?later)
          (dropWhile (rejected ops F) ?later @ stack_after ps) (forward_loop dim F (?d, False))"
      proof (rule less.hyps)
        show "cu_stack ?d = ?e # ps" by simp
        show "cu_position ?d = advance ops dim (dm_zero dim) (stack_before ps @ concat (map st_items (take (Suc (i + k)) ts)))"
          unfolding take_Suc using pos by (simp add: q_def)
      qed (use True c(2) less.prems(4) in simp_all)
      then show ?thesis
        unfolding take_Suc using loop tk tk2 rest'
        by (simp add: cu_moved_def q_def split: if_splits)
    qed
  qed
qed

lemma forward_enter:
  assumes F: "filter_ok ops F"
  shows "st_node ops t \<Longrightarrow> forward_enter_ok F t"
proof (induction t)
  case (Internal h s ss ts)
  have ih: "forward_enter_ok F t" if "t \<in> set ts" for t using Internal that by auto
  show ?case
    unfolding forward_enter_ok_def
  proof (intro allI impI)
    fix c :: "('t, 's, 'd) cursor" and ps
    assume c: "cu_stack c = \<lparr>se_tree = Internal h s ss ts, se_index = 0, se_position = cu_position c\<rparr> # ps"
      and a: "st_node ops (cu_tree c)" "st_height (cu_tree c) < 16"
        "parents_ok ops dim (cu_tree c) ps (Internal h s ss ts)"
        "cu_position c = advance ops dim (dm_zero dim) (stack_before ps)"
    show "if dropWhile (rejected ops F) (st_items (Internal h s ss ts)) = []
         then forward_loop dim F (c, True) = forward_loop dim F (c\<lparr>cu_stack := ps,
           cu_position := advance ops dim (cu_position c) (st_items (Internal h s ss ts))\<rparr>, False)
         else cu_moved ops dim c (stack_before ps @ takeWhile (rejected ops F) (st_items (Internal h s ss ts)))
           (dropWhile (rejected ops F) (st_items (Internal h s ss ts)) @ stack_after ps) (forward_loop dim F (c, True))"
      using forward_children [where descend = True and i = 0, OF F ih a(1,2,3) c _ _ refl _ _ refl] a(4)
      by (simp split: if_splits)
  qed
next
  case (Leaf s zs ss)
  show ?case
    unfolding forward_enter_ok_def
  proof (intro allI impI)
    fix c :: "('t, 's, 'd) cursor" and ps
    assume c: "cu_stack c = \<lparr>se_tree = Leaf s zs ss, se_index = 0, se_position = cu_position c\<rparr> # ps"
      and a: "parents_ok ops dim (cu_tree c) ps (Leaf s zs ss)"
        "cu_position c = advance ops dim (dm_zero dim) (stack_before ps)"
    show "if dropWhile (rejected ops F) (st_items (Leaf s zs ss)) = []
         then forward_loop dim F (c, True) = forward_loop dim F (c\<lparr>cu_stack := ps,
           cu_position := advance ops dim (cu_position c) (st_items (Leaf s zs ss))\<rparr>, False)
         else cu_moved ops dim c (stack_before ps @ takeWhile (rejected ops F) (st_items (Leaf s zs ss)))
           (dropWhile (rejected ops F) (st_items (Leaf s zs ss)) @ stack_after ps) (forward_loop dim F (c, True))"
      using forward_leaf [where descend = True and i = 0 and F = F, OF c _ _ _ a(1) Leaf.prems _ refl] a(2)
      by (simp split: if_splits)
  qed
qed

lemma forward_exit: "cu_stack c = [] \<Longrightarrow> forward_loop dim F (c, d) = Some (c\<lparr>cu_at_end := True\<rparr>)"
  by (rule forward_Inr) (simp add: forward_step_def)

lemma forward_leave:
  assumes F: "filter_ok ops F"
  shows "cu_stack c = ps \<Longrightarrow> st_node ops (cu_tree c) \<Longrightarrow> st_height (cu_tree c) < 16 \<Longrightarrow>
   parents_ok ops dim (cu_tree c) ps t \<Longrightarrow>
   cu_position c = advance ops dim (dm_zero dim) (stack_before ps @ st_items t) \<Longrightarrow>
   if dropWhile (rejected ops F) (stack_after ps) = []
   then forward_loop dim F (c, False) = Some (c\<lparr>cu_stack := [],
     cu_position := advance ops dim (cu_position c) (stack_after ps), cu_at_end := True\<rparr>)
   else cu_moved ops dim c (stack_before ps @ st_items t @ takeWhile (rejected ops F) (stack_after ps))
     (dropWhile (rejected ops F) (stack_after ps)) (forward_loop dim F (c, False))"
proof (induction ps arbitrary: c t)
  case Nil
  then show ?case by (simp add: forward_exit)
next
  case (Cons p ps)
  obtain h s ss ts where p: "se_tree p = Internal h s ss ts" using Cons.prems(4) by (cases "se_tree p") auto
  have par: "se_index p < length ts" "ts ! se_index p = t" "parents_ok ops dim (cu_tree c) ps (Internal h s ss ts)"
    using Cons.prems(4) p by simp_all
  let ?i = "Suc (se_index p)"
  let ?rest = "concat (map st_items (drop ?i ts))"
  have node: "st_node ops (Internal h s ss ts)" using parents_ok_node [OF par(3)] Cons.prems(2) by simp
  have ih: "forward_enter_ok F t" if "t \<in> set ts" for t using forward_enter [OF F] node that by simp
  have take_i: "concat (map st_items (take ?i ts)) = concat (map st_items (take (se_index p) ts)) @ st_items t"
    using par(1,2) by (simp add: take_Suc_conv_app_nth)
  have before: "stack_before (p # ps) = stack_before ps @ concat (map st_items (take (se_index p) ts))"
    "stack_after (p # ps) = ?rest @ stack_after ps" using p by simp_all
  have pos: "cu_position c = advance ops dim (dm_zero dim) (stack_before ps @ concat (map st_items (take ?i ts)))"
    using Cons.prems(5) before take_i by simp
  have "?i \<le> length ts" using par(1) by simp
  note phase = forward_children [where descend = False, OF F ih Cons.prems(2,3) par(3) Cons.prems(1) p this refl _ pos refl]
  show ?case
  proof (cases "dropWhile (rejected ops F) ?rest = []")
    case False
    note tk = dropWhile_ne_append [OF False, of "stack_after ps"]
    have "cu_moved ops dim c (stack_before ps @ concat (map st_items (take ?i ts)) @ takeWhile (rejected ops F) ?rest)
      (dropWhile (rejected ops F) ?rest @ stack_after ps) (forward_loop dim F (c, False))"
      using phase False by simp
    moreover have ne: "dropWhile (rejected ops F) (stack_after (p # ps)) \<noteq> []"
      unfolding before using tk False by simp
    ultimately show ?thesis
      unfolding if_not_P [OF ne] using tk unfolding before take_i by simp
  next
    case True
    note tk = dropWhile_Nil_append [OF True, of "stack_after ps"]
    let ?c = "c\<lparr>cu_stack := ps, cu_position := advance ops dim (cu_position c) ?rest\<rparr>"
    have loop: "forward_loop dim F (c, False) = forward_loop dim F (?c, False)" using phase True by simp
    have items: "stack_before ps @ st_items (Internal h s ss ts) = stack_before (p # ps) @ st_items t @ ?rest"
      using before par(1,2) concat_items_nth [of "se_index p" ts] by simp
    have pos': "cu_position ?c = advance ops dim (dm_zero dim) (stack_before ps @ st_items (Internal h s ss ts))"
      unfolding items using Cons.prems(5) by simp
    have "if dropWhile (rejected ops F) (stack_after ps) = []
      then forward_loop dim F (?c, False) = Some (?c\<lparr>cu_stack := [],
        cu_position := advance ops dim (cu_position ?c) (stack_after ps), cu_at_end := True\<rparr>)
      else cu_moved ops dim ?c (stack_before ps @ st_items (Internal h s ss ts) @
          takeWhile (rejected ops F) (stack_after ps))
        (dropWhile (rejected ops F) (stack_after ps)) (forward_loop dim F (?c, False))"
      by (rule Cons.IH [OF _ _ _ _ pos']) (use Cons.prems(2,3) par(3) in simp_all)
    then show ?thesis
      using loop tk before items by (simp add: cu_moved_def del: st_items.simps split: if_splits)
  qed
qed

end

text \<open>A cursor that was moved backward past the first item.\<close>

definition cu_before_start :: "('t, 's) summary_ops \<Rightarrow> ('s, 'd) dimension \<Rightarrow> ('t, 's, 'd) cursor \<Rightarrow> bool" where
  "cu_before_start ops dim c \<longleftrightarrow>
     st_wf ops (cu_tree c) \<and> st_height (cu_tree c) < 16 \<and> cu_did_seek c \<and> cu_stack c = [] \<and>
     cu_position c = dm_zero dim \<and> \<not> cu_at_end c \<and> st_items (cu_tree c) \<noteq> []"

context dimension_laws
begin

lemma search_forward_start:
  assumes F: "filter_ok ops F" and c: "cu_fresh ops dim c \<or> cu_before_start ops dim c"
  shows "\<exists>c'. cu_search_forward dim F c = Some c' \<and> cu_tree c' = cu_tree c \<and>
    cu_view ops dim c' (takeWhile (rejected ops F) (st_items (cu_tree c))) (dropWhile (rejected ops F) (st_items (cu_tree c)))"
proof (cases "cu_tree c = st_new ops")
  case True
  then have "cu_at_end c" "cu_stack c = []" "cu_position c = dm_zero dim" "st_items (cu_tree c) = []"
    using c by (auto simp: cu_fresh_def cu_before_start_def st_new_def)
  then show ?thesis
    using c True by (auto simp: cu_search_forward_def forward_exit cu_view_def cu_fresh_def cu_before_start_def)
next
  case False
  then have n: "st_node ops (cu_tree c)" "st_height (cu_tree c) < 16"
    using c by (auto simp: cu_fresh_def cu_before_start_def st_wf_def)
  have f: "cu_stack c = []" "cu_position c = dm_zero dim" "\<not> cu_at_end c" "st_wf ops (cu_tree c)"
    using c st_node_not_empty [OF n(1)] by (auto simp: cu_fresh_def cu_before_start_def)
  let ?c = "c\<lparr>cu_stack := [\<lparr>se_tree = cu_tree c, se_index = 0, se_position = dm_zero dim\<rparr>], cu_did_seek := True\<rparr>"
  have start: "cu_search_forward dim F c = forward_loop dim F (?c, True)"
    using f by (simp add: cu_search_forward_def stack_push_def)
  have enter: "if dropWhile (rejected ops F) (st_items (cu_tree c)) = []
         then forward_loop dim F (?c, True) = forward_loop dim F (?c\<lparr>cu_stack := [],
           cu_position := advance ops dim (cu_position ?c) (st_items (cu_tree c))\<rparr>, False)
         else cu_moved ops dim ?c (takeWhile (rejected ops F) (st_items (cu_tree c)))
           (dropWhile (rejected ops F) (st_items (cu_tree c))) (forward_loop dim F (?c, True))"
    using forward_enter [OF F n(1), unfolded forward_enter_ok_def, rule_format, of ?c "[]"] n f
    by (simp split: if_splits)
  show ?thesis
  proof (cases "dropWhile (rejected ops F) (st_items (cu_tree c)) = []")
    case True
    then have t: "takeWhile (rejected ops F) (st_items (cu_tree c)) = st_items (cu_tree c)"
      by (metis append_Nil2 takeWhile_dropWhile_id)
    show ?thesis unfolding t True using True enter start f n by (simp add: forward_exit cu_view_def)
  next
    case False
    with enter start f n show ?thesis by (auto simp: cu_moved_def cu_view_def)
  qed
qed

lemma search_forward_on:
  assumes F: "filter_ok ops F" and c: "cu_view ops dim c before (x # rest)"
  shows "\<exists>c'. cu_search_forward dim F c = Some c' \<and> cu_tree c' = cu_tree c \<and>
    cu_view ops dim c' (before @ x # takeWhile (rejected ops F) rest) (dropWhile (rejected ops F) rest)"
proof -
  have v: "on_item ops dim c before (x # rest)" "\<not> cu_at_end c" "cu_did_seek c" "st_wf ops (cu_tree c)"
      "st_height (cu_tree c) < 16" using c by (simp_all add: cu_view_def)
  have items: "st_items (cu_tree c) = before @ x # rest" by (rule cu_view_items [OF c])
  then have n: "st_node ops (cu_tree c)" using v(4) by (auto simp: st_wf_def)
  obtain e ps where e: "cu_stack c = e # ps" "st_is_leaf (se_tree e)" "parents_ok ops dim (cu_tree c) ps (se_tree e)"
      "se_index e < length (st_items (se_tree e))"
      "before = stack_before ps @ take (se_index e) (st_items (se_tree e))"
      "x # rest = drop (se_index e) (st_items (se_tree e)) @ stack_after ps"
      "cu_position c = advance ops dim (dm_zero dim) before"
    using v(1) by (auto simp: on_item_def)
  then obtain s zs ss where l: "se_tree e = Leaf s zs ss" by (cases "se_tree e") auto
  let ?i = "Suc (se_index e)"
  have i: "se_index e < length zs" "?i \<le> length zs" using e(4) l by simp_all
  have node: "st_node ops (Leaf s zs ss)" using parents_ok_node [OF e(3) n] l by simp
  have x: "zs ! se_index e = x" "rest = drop ?i zs @ stack_after ps"
    using e(6) l i Cons_nth_drop_Suc [OF i(1)] by (metis append_Cons list.inject st_items.simps(1))+
  have take_i: "take ?i zs = take (se_index e) zs @ [x]" using i x(1) by (simp add: take_Suc_conv_app_nth)
  have pos: "cu_position c = advance ops dim (dm_zero dim) (stack_before ps @ take (se_index e) zs)"
    using e(5,7) l by simp
  have start: "cu_search_forward dim F c = forward_loop dim F (c, False)"
    using e(1) by (simp add: cu_search_forward_def)
  note phase = forward_leaf [where descend = False and F = F, OF e(1) l i(2) _ e(3) [unfolded l] node pos refl]
  show ?thesis
  proof (cases "dropWhile (rejected ops F) (drop ?i zs) = []")
    case False
    note tk = dropWhile_ne_append [OF False, of "stack_after ps"]
    show ?thesis
      using phase False tk start v e(5) l take_i x by (auto simp: cu_moved_def cu_view_def)
  next
    case True
    note tk = dropWhile_Nil_append [OF True, of "stack_after ps"]
    let ?c = "c\<lparr>cu_stack := ps, cu_position := advance ops dim (dm_zero dim) (stack_before ps @ zs)\<rparr>"
    have loop: "cu_search_forward dim F c = forward_loop dim F (?c, False)" using phase True start by simp
    have zs: "stack_before ps @ zs = before @ x # drop ?i zs"
      using e(5) l take_i append_take_drop_id [of ?i zs] by (metis append.assoc append_Cons append_Nil st_items.simps(1))
    have leave: "if dropWhile (rejected ops F) (stack_after ps) = []
       then forward_loop dim F (?c, False) = Some (?c\<lparr>cu_stack := [],
         cu_position := advance ops dim (cu_position ?c) (stack_after ps), cu_at_end := True\<rparr>)
       else cu_moved ops dim ?c (stack_before ps @ st_items (Leaf s zs ss) @ takeWhile (rejected ops F) (stack_after ps))
         (dropWhile (rejected ops F) (stack_after ps)) (forward_loop dim F (?c, False))"
      by (rule forward_leave [OF F]) (use n v e(3) l in simp_all)
    show ?thesis
    proof (cases "dropWhile (rejected ops F) (stack_after ps) = []")
      case True
      then have t: "takeWhile (rejected ops F) (stack_after ps) = stack_after ps"
        by (metis append_Nil2 takeWhile_dropWhile_id)
      have tr: "takeWhile (rejected ops F) rest = rest" "dropWhile (rejected ops F) rest = []"
        using t tk x(2) True by simp_all
      moreover have "advance ops dim (dm_zero dim) (before @ x # rest) =
          advance ops dim (advance ops dim (dm_zero dim) (stack_before ps @ zs)) (stack_after ps)"
        unfolding zs x(2) by simp
      ultimately show ?thesis
        unfolding tr using True leave loop v items by (simp add: cu_view_def del: advance_simps)
    next
      case False
      have eq: "stack_before ps @ st_items (Leaf s zs ss) @ takeWhile (rejected ops F) (stack_after ps) =
          before @ x # takeWhile (rejected ops F) rest"
        using zs tk x(2) by (metis append.assoc append_Cons st_items.simps(1))
      have m: "cu_moved ops dim ?c (before @ x # takeWhile (rejected ops F) rest)
         (dropWhile (rejected ops F) rest) (forward_loop dim F (?c, False))"
        using leave False tk unfolding eq x(2) by simp
      have ne: "dropWhile (rejected ops F) rest \<noteq> []" using tk False x(2) by simp
      from m obtain c' where "forward_loop dim F (?c, False) = Some c'" "cu_tree c' = cu_tree c"
          "cu_did_seek c' = cu_did_seek c" "cu_at_end c' = cu_at_end c"
          "on_item ops dim c' (before @ x # takeWhile (rejected ops F) rest) (dropWhile (rejected ops F) rest)"
        by (auto simp: cu_moved_def)
      then show ?thesis using ne loop v by (simp add: cu_view_def)
    qed
  qed
qed

lemma search_forward_end: "cu_view ops dim c before [] \<Longrightarrow> cu_search_forward dim F c = Some c"
  by (simp add: cu_view_def cu_search_forward_def forward_exit)

lemma filter_true: "filter_ok ops (\<lambda>_. True)"
  by (simp add: filter_ok_def)

lemma next_at:
  "cu_fresh ops dim c \<or> cu_before_start ops dim c \<Longrightarrow>
   \<exists>c'. cu_next dim c = Some c' \<and> cu_tree c' = cu_tree c \<and> cu_view ops dim c' [] (st_items (cu_tree c))"
  "cu_view ops dim c before (x # rest) \<Longrightarrow>
   \<exists>c'. cu_next dim c = Some c' \<and> cu_tree c' = cu_tree c \<and> cu_view ops dim c' (before @ [x]) rest"
  "cu_view ops dim c before [] \<Longrightarrow> cu_next dim c = Some c"
proof -
  have tw: "takeWhile (\<lambda>_. False) xs = []" "dropWhile (\<lambda>_. False) xs = xs" for xs :: "'t list"
    by (cases xs; simp)+
  show "cu_fresh ops dim c \<or> cu_before_start ops dim c \<Longrightarrow>
   \<exists>c'. cu_next dim c = Some c' \<and> cu_tree c' = cu_tree c \<and> cu_view ops dim c' [] (st_items (cu_tree c))"
    using search_forward_start [OF filter_true, of c] by (simp add: cu_next_def tw)
  show "cu_view ops dim c before (x # rest) \<Longrightarrow>
   \<exists>c'. cu_next dim c = Some c' \<and> cu_tree c' = cu_tree c \<and> cu_view ops dim c' (before @ [x]) rest"
    using search_forward_on [OF filter_true, of c before x rest] by (simp add: cu_next_def tw)
  show "cu_view ops dim c before [] \<Longrightarrow> cu_next dim c = Some c"
    by (simp add: cu_next_def search_forward_end)
qed

end

end
