(* ===== verification/Zed_SumTree_Prev.thy ===== *)
theory Zed_SumTree_Prev
  imports Zed_SumTree_Cursor
begin

text \<open>
  Moving a cursor backward (\<open>search_backward\<close> and \<open>prev\<close> of \<open>crates/sum_tree/src/cursor.rs\<close>),
  and the loop of \<open>SumTree::items\<close> over a cursor.
\<close>

section \<open>Splitting at the last accepted item\<close>

definition last_kept :: "('a \<Rightarrow> bool) \<Rightarrow> 'a list \<Rightarrow> 'a list" where
  "last_kept P xs = rev (dropWhile P (rev xs))"

definition last_dropped :: "('a \<Rightarrow> bool) \<Rightarrow> 'a list \<Rightarrow> 'a list" where
  "last_dropped P xs = rev (takeWhile P (rev xs))"

lemma last_kept_dropped: "last_kept P xs @ last_dropped P xs = xs"
  by (simp add: last_kept_def last_dropped_def flip: rev_append)

lemma last_kept_Nil [simp]: "last_kept P [] = []" "last_dropped P [] = []"
  by (simp_all add: last_kept_def last_dropped_def)

lemma last_kept_all:
  assumes "\<forall>x \<in> set xs. P x"
  shows "last_kept P xs = [] \<and> last_dropped P xs = xs"
proof -
  have "takeWhile P (rev xs) = rev xs" using assms by simp
  moreover have "dropWhile P (rev xs) = []" using assms by (simp add: dropWhile_eq_Nil_conv)
  ultimately show ?thesis unfolding last_kept_def last_dropped_def by (simp only: rev_rev_ident rev.simps)
qed

lemma last_kept_append:
  "last_kept P ys = [] \<Longrightarrow> last_kept P (xs @ ys) = last_kept P xs \<and> last_dropped P (xs @ ys) = last_dropped P xs @ ys"
  "last_kept P ys \<noteq> [] \<Longrightarrow> last_kept P (xs @ ys) = xs @ last_kept P ys \<and> last_dropped P (xs @ ys) = last_dropped P ys"
  by (auto simp: last_kept_def last_dropped_def dropWhile_append takeWhile_append dropWhile_eq_Nil_conv)

lemma last_kept_snoc:
  "P x \<Longrightarrow> last_kept P (xs @ [x]) = last_kept P xs \<and> last_dropped P (xs @ [x]) = last_dropped P xs @ [x]"
  "\<not> P x \<Longrightarrow> last_kept P (xs @ [x]) = xs @ [x] \<and> last_dropped P (xs @ [x]) = []"
  by (simp_all add: last_kept_def last_dropped_def)

section \<open>The backward loop\<close>

lemma backward_Inl: "backward_step dim F st = Some (Inl st') \<Longrightarrow> backward_loop dim F st = backward_loop dim F st'"
  by (subst backward_loop.simps) simp

lemma backward_Inr: "backward_step dim F st = Some (Inr c) \<Longrightarrow> backward_loop dim F st = Some c"
  by (subst backward_loop.simps) simp

lemma backward_exit: "cu_stack c = [] \<Longrightarrow> backward_loop dim F (c, d) = Some c"
  by (rule backward_Inr) (simp add: backward_step_def)

lemma child_summaries_node:
  "st_node ops t \<Longrightarrow> st_child_summaries t =
     (if st_is_leaf t then map (sm_item ops) (st_items t) else map st_summary (node_children t))"
  by (cases t) simp_all

lemma child_summaries_ne: "st_node ops t \<Longrightarrow> st_child_summaries t \<noteq> []"
  by (cases t) simp_all

context dimension_laws
begin

lemma parents_ok_position:
  "parents_ok ops dim root ps t \<Longrightarrow>
   (case ps of p # _ \<Rightarrow> se_position p | [] \<Rightarrow> dm_zero dim) = advance ops dim (dm_zero dim) (stack_before ps)"
  by (cases ps) simp_all

lemma foldl_nodes:
  "\<forall>t \<in> set ts. st_node ops t \<Longrightarrow>
   foldl (dm_add dim) d (map st_summary ts) = advance ops dim d (concat (map st_items ts))"
  by (induction ts arbitrary: d) (simp_all add: add_node)

lemma foldl_items: "foldl (dm_add dim) d (map (sm_item ops) xs) = advance ops dim d xs"
  by (induction xs arbitrary: d) simp_all

text \<open>The outcome of a search backward through the items \<open>rest\<close> below the stack \<open>ps\<close>.\<close>

definition backward_ok ::
    "('s \<Rightarrow> bool) \<Rightarrow> ('t, 's, 'd) cursor \<Rightarrow> bool \<Rightarrow> ('t, 's, 'd) stack_entry list \<Rightarrow> 't list \<Rightarrow> 't list \<Rightarrow> bool" where
  "backward_ok F c d ps rest after \<longleftrightarrow>
     (let kept = last_kept (rejected ops F) rest; dropped = last_dropped (rejected ops F) rest in
      if kept = [] then backward_loop dim F (c, d) = backward_loop dim F (c\<lparr>cu_stack := ps,
          cu_position := advance ops dim (dm_zero dim) (stack_before ps)\<rparr>, False)
      else cu_moved ops dim c (stack_before ps @ butlast kept) (last kept # dropped @ after @ stack_after ps)
        (backward_loop dim F (c, d)))"

definition backward_enter_ok :: "('s \<Rightarrow> bool) \<Rightarrow> ('t, 's) sum_tree \<Rightarrow> bool" where
  "backward_enter_ok F t \<longleftrightarrow>
     (\<forall>c ps q. cu_stack c = \<lparr>se_tree = t, se_index = length (st_child_summaries t) - 1, se_position = q\<rparr> # ps \<longrightarrow>
        st_node ops (cu_tree c) \<longrightarrow> st_height (cu_tree c) < 16 \<longrightarrow> parents_ok ops dim (cu_tree c) ps t \<longrightarrow>
        backward_ok F c True ps (st_items t) [])"

text \<open>A leaf, of which the items before index \<open>i\<close> are still to be looked at.\<close>

lemma backward_leaf:
  assumes n: "st_node ops (Leaf s zs ss)"
  shows "cu_stack c = e # ps \<Longrightarrow> se_tree e = Leaf s zs ss \<Longrightarrow> i \<le> length zs \<Longrightarrow>
    parents_ok ops dim (cu_tree c) ps (Leaf s zs ss) \<Longrightarrow>
    (if d then Suc (se_index e) = i else se_index e = i) \<Longrightarrow>
    backward_ok F c d ps (take i zs) (drop i zs)"
proof (induction i arbitrary: c e d)
  case 0
  then have "backward_step dim F (c, d) = Some (Inl (c\<lparr>cu_stack := ps,
      cu_position := advance ops dim (dm_zero dim) (stack_before ps)\<rparr>, False))"
    using parents_ok_position [of "cu_tree c" ps "Leaf s zs ss"] by (cases d) (simp_all add: backward_step_def)
  from backward_Inl [OF this] show ?case by (simp add: backward_ok_def)
next
  case (Suc i)
  have ss: "ss = map (sm_item ops) zs" using n by simp
  let ?q = "advance ops dim (dm_zero dim) (stack_before ps @ take i zs)"
  let ?e = "e\<lparr>se_index := i, se_position := ?q\<rparr>"
  let ?c = "c\<lparr>cu_stack := ?e # ps, cu_position := ?q\<rparr>"
  have step: "backward_step dim F (c, d) = Some (if F (sm_item ops (zs ! i)) then Inr ?c else Inl (?c, False))"
    using Suc.prems parents_ok_position [OF Suc.prems(4)] ss
    by (cases d) (simp_all add: backward_step_def Let_def take_map foldl_items)
  have take_i: "take (Suc i) zs = take i zs @ [zs ! i]" "drop i zs = zs ! i # drop (Suc i) zs"
    using Suc.prems(3) by (simp_all add: take_Suc_conv_app_nth Cons_nth_drop_Suc)
  show ?case
  proof (cases "F (sm_item ops (zs ! i))")
    case True
    then have "backward_loop dim F (c, d) = Some ?c" using backward_Inr [of dim F "(c, d)"] step by simp
    moreover have "on_item ops dim ?c (stack_before ps @ take i zs) (drop i zs @ stack_after ps)"
      using Suc.prems by (auto simp: on_item_def)
    ultimately show ?thesis
      using last_kept_snoc(2) [of "rejected ops F" "zs ! i" "take i zs"] True take_i
      by (simp add: backward_ok_def cu_moved_def)
  next
    case False
    have "backward_ok F ?c False ps (take i zs) (drop i zs)"
      by (rule Suc.IH [where e = ?e]) (use Suc.prems in simp_all)
    moreover have "backward_loop dim F (c, d) = backward_loop dim F (?c, False)"
      using backward_Inl [of dim F "(c, d)"] step False by simp
    ultimately show ?thesis
      using last_kept_snoc(1) [of "rejected ops F" "zs ! i" "take i zs"] False take_i
      by (simp add: backward_ok_def cu_moved_def Let_def split: if_splits)
  qed
qed

text \<open>An inner node, of which the children before index \<open>i\<close> are still to be looked at.\<close>

lemma backward_children:
  assumes F: "filter_ok ops F" and ih: "\<And>t. t \<in> set ts \<Longrightarrow> backward_enter_ok F t"
  shows "cu_stack c = e # ps \<Longrightarrow> se_tree e = Internal h s ss ts \<Longrightarrow> i \<le> length ts \<Longrightarrow>
    st_node ops (cu_tree c) \<Longrightarrow> st_height (cu_tree c) < 16 \<Longrightarrow>
    parents_ok ops dim (cu_tree c) ps (Internal h s ss ts) \<Longrightarrow>
    (if d then Suc (se_index e) = i else se_index e = i) \<Longrightarrow>
    backward_ok F c d ps (concat (map st_items (take i ts))) (concat (map st_items (drop i ts)))"
proof (induction i arbitrary: c e d)
  case 0
  then have "backward_step dim F (c, d) = Some (Inl (c\<lparr>cu_stack := ps,
      cu_position := advance ops dim (dm_zero dim) (stack_before ps)\<rparr>, False))"
    using parents_ok_position [OF 0(6)] by (cases d) (simp_all add: backward_step_def)
  from backward_Inl [OF this] show ?case by (simp add: backward_ok_def)
next
  case (Suc i)
  let ?t = "ts ! i" and ?before = "concat (map st_items (take i ts))"
  have node: "st_node ops (Internal h s ss ts)" "h + length ps = st_height (cu_tree c)"
    using parents_ok_node [OF Suc.prems(6,4)] by simp_all
  have ss: "ss = map st_summary ts" and nodes: "\<forall>t \<in> set (take i ts). st_node ops t"
    using node(1) by (auto dest: in_set_takeD)
  have t: "?t \<in> set ts" "st_node ops ?t" "Suc (st_height ?t) = h" using Suc.prems(3) node(1) by auto
  have h: "length ps < 15" using node(2) t(3) Suc.prems(5) by auto
  let ?q = "advance ops dim (dm_zero dim) (stack_before ps @ ?before)"
  let ?e = "e\<lparr>se_index := i, se_position := ?q\<rparr>"
  let ?c = "c\<lparr>cu_stack := ?e # ps, cu_position := ?q\<rparr>"
  let ?f = "\<lparr>se_tree = ?t, se_index = length (st_child_summaries ?t) - 1, se_position = dm_zero dim\<rparr>"
  have step: "backward_step dim F (c, d) = Some (Inl (if F (st_summary ?t)
      then (?c\<lparr>cu_stack := ?f # ?e # ps\<rparr>, True) else (?c, False)))"
    using Suc.prems parents_ok_position [OF Suc.prems(6)] ss foldl_nodes [OF nodes] h child_summaries_ne [OF t(2)]
    by (cases d) (simp_all add: backward_step_def Let_def take_map stack_push_def)
  have take_i: "concat (map st_items (take (Suc i) ts)) = ?before @ st_items ?t"
    "concat (map st_items (drop i ts)) = st_items ?t @ concat (map st_items (drop (Suc i) ts))"
    using Suc.prems(3) by (simp_all add: take_Suc_conv_app_nth flip: Cons_nth_drop_Suc)
  let ?e' = "?e\<lparr>se_position := ?q\<rparr>"
  have later: "backward_ok F (c\<lparr>cu_stack := ?e # ps, cu_position := p\<rparr>) False ps ?before (concat (map st_items (drop i ts)))" for p
    by (rule Suc.IH [where e = ?e]) (use Suc.prems in simp_all)
  have go_on: "backward_ok F c d ps (?before @ st_items ?t) (concat (map st_items (drop (Suc i) ts)))"
    if loop: "backward_loop dim F (c, d) = backward_loop dim F (c\<lparr>cu_stack := ?e # ps, cu_position := p\<rparr>, False)"
      and rej: "last_kept (rejected ops F) (st_items ?t) = []" for p
    using later [of p] loop last_kept_append(1) [OF rej, of ?before] take_i(2)
    by (simp add: backward_ok_def cu_moved_def Let_def split: if_splits)
  show ?case
  proof (cases "F (st_summary ?t)")
    case False
    then have "\<forall>x \<in> set (st_items ?t). rejected ops F x"
      using F node_summary [OF t(2)] st_node_items_ne [OF t(2)] by (simp add: filter_ok_def)
    then have "last_kept (rejected ops F) (st_items ?t) = []" using last_kept_all by blast
    moreover have "backward_loop dim F (c, d) = backward_loop dim F (c\<lparr>cu_stack := ?e # ps, cu_position := ?q\<rparr>, False)"
      using backward_Inl [of dim F "(c, d)"] step False by simp
    ultimately show ?thesis unfolding take_i(1) by (rule go_on [rotated])
  next
    case True
    let ?c2 = "?c\<lparr>cu_stack := ?f # ?e # ps\<rparr>"
    have loop: "backward_loop dim F (c, d) = backward_loop dim F (?c2, True)"
      using backward_Inl [of dim F "(c, d)"] step True by simp
    have before: "stack_before (?e # ps) = stack_before ps @ ?before"
      "stack_after (?e # ps) = concat (map st_items (drop (Suc i) ts)) @ stack_after ps" using Suc.prems(2) by simp_all
    have par: "parents_ok ops dim (cu_tree ?c2) (?e # ps) ?t"
      using Suc.prems(2,3,6) before(1) by (simp del: stack_before.simps)
    have enter: "backward_ok F ?c2 True (?e # ps) (st_items ?t) []"
      by (rule ih [OF t(1), unfolded backward_enter_ok_def, rule_format, OF _ _ _ par]) (use Suc.prems in simp_all)
    show ?thesis
    proof (cases "last_kept (rejected ops F) (st_items ?t) = []")
      case rej: True
      have "backward_loop dim F (c, d) = backward_loop dim F (c\<lparr>cu_stack := ?e # ps,
          cu_position := advance ops dim (dm_zero dim) (stack_before (?e # ps))\<rparr>, False)"
        using enter rej loop by (simp add: backward_ok_def)
      from go_on [OF this rej] show ?thesis unfolding take_i(1) .
    next
      case False
      have "cu_moved ops dim ?c2 (stack_before (?e # ps) @ butlast (last_kept (rejected ops F) (st_items ?t)))
          (last (last_kept (rejected ops F) (st_items ?t)) # last_dropped (rejected ops F) (st_items ?t) @ [] @
            stack_after (?e # ps)) (backward_loop dim F (?c2, True))"
        using enter False by (simp add: backward_ok_def Let_def)
      then show ?thesis
        unfolding take_i(1) before
        using loop False last_kept_append(2) [OF False, of ?before]
        by (simp add: backward_ok_def cu_moved_def Let_def butlast_append)
    qed
  qed
qed

lemma backward_enter:
  assumes F: "filter_ok ops F"
  shows "st_node ops t \<Longrightarrow> backward_enter_ok F t"
proof (induction t)
  case (Internal h s ss ts)
  have ih: "backward_enter_ok F t" if "t \<in> set ts" for t using Internal that by auto
  have len: "length ss = length ts" "ts \<noteq> []" using Internal.prems by simp_all
  show ?case
    unfolding backward_enter_ok_def
  proof (intro allI impI)
    fix c :: "('t, 's, 'd) cursor" and ps q
    let ?t = "Internal h s ss ts"
    assume c: "cu_stack c = \<lparr>se_tree = ?t, se_index = length (st_child_summaries ?t) - 1, se_position = q\<rparr> # ps"
      and a: "st_node ops (cu_tree c)" "st_height (cu_tree c) < 16" "parents_ok ops dim (cu_tree c) ps ?t"
    have "backward_ok F c True ps (concat (map st_items (take (length ts) ts))) (concat (map st_items (drop (length ts) ts)))"
      by (rule backward_children [OF F ih c _ _ a]) (use len in simp_all)
    then show "backward_ok F c True ps (st_items ?t) []" by simp
  qed
next
  case (Leaf s zs ss)
  have len: "length ss = length zs" "zs \<noteq> []" using Leaf by simp_all
  show ?case
    unfolding backward_enter_ok_def
  proof (intro allI impI)
    fix c :: "('t, 's, 'd) cursor" and ps q
    let ?t = "Leaf s zs ss"
    assume c: "cu_stack c = \<lparr>se_tree = ?t, se_index = length (st_child_summaries ?t) - 1, se_position = q\<rparr> # ps"
      and a: "parents_ok ops dim (cu_tree c) ps ?t"
    have "backward_ok F c True ps (take (length zs) zs) (drop (length zs) zs)"
      by (rule backward_leaf [OF Leaf c _ _ a]) (use len in simp_all)
    then show "backward_ok F c True ps (st_items ?t) []" by simp
  qed
qed

text \<open>Going on above a subtree of which every earlier item was rejected.\<close>

lemma backward_leave:
  assumes F: "filter_ok ops F"
  shows "cu_stack c = ps \<Longrightarrow> st_node ops (cu_tree c) \<Longrightarrow> st_height (cu_tree c) < 16 \<Longrightarrow>
    parents_ok ops dim (cu_tree c) ps t \<Longrightarrow> cu_position c = advance ops dim (dm_zero dim) (stack_before ps) \<Longrightarrow>
    (let kept = last_kept (rejected ops F) (stack_before ps);
         dropped = last_dropped (rejected ops F) (stack_before ps) in
     if kept = [] then backward_loop dim F (c, False) = Some (c\<lparr>cu_stack := [], cu_position := dm_zero dim\<rparr>)
     else cu_moved ops dim c (butlast kept) (last kept # dropped @ st_items t @ stack_after ps)
       (backward_loop dim F (c, False)))"
proof (induction ps arbitrary: c t)
  case Nil
  then show ?case by (simp add: backward_exit)
next
  case (Cons p ps)
  obtain h s ss ts where p: "se_tree p = Internal h s ss ts" using Cons.prems(4) by (cases "se_tree p") auto
  have par: "se_index p < length ts" "ts ! se_index p = t" "parents_ok ops dim (cu_tree c) ps (Internal h s ss ts)"
    using Cons.prems(4) p by simp_all
  let ?here = "concat (map st_items (take (se_index p) ts))"
  have node: "st_node ops (Internal h s ss ts)" using parents_ok_node [OF par(3)] Cons.prems(2) by simp
  have ih: "backward_enter_ok F t" if "t \<in> set ts" for t using backward_enter [OF F] node that by simp
  have before: "stack_before (p # ps) = stack_before ps @ ?here"
    "st_items t @ stack_after (p # ps) = concat (map st_items (drop (se_index p) ts)) @ stack_after ps"
    using p par(1,2) by (simp_all flip: Cons_nth_drop_Suc)
  have phase: "backward_ok F c False ps ?here (concat (map st_items (drop (se_index p) ts)))"
    by (rule backward_children [OF F ih Cons.prems(1) p _ Cons.prems(2,3) par(3)]) (use par(1) in simp_all)
  show ?case
  proof (cases "last_kept (rejected ops F) ?here = []")
    case False
    then show ?thesis
      unfolding before using phase last_kept_append(2) [OF False, of "stack_before ps"]
      by (simp add: backward_ok_def Let_def cu_moved_def butlast_append)
  next
    case True
    let ?c = "c\<lparr>cu_stack := ps, cu_position := advance ops dim (dm_zero dim) (stack_before ps)\<rparr>"
    have loop: "backward_loop dim F (c, False) = backward_loop dim F (?c, False)"
      using phase True by (simp add: backward_ok_def)
    have items: "st_items (Internal h s ss ts) = ?here @ concat (map st_items (drop (se_index p) ts))"
      by (simp flip: concat_append map_append)
    have "(let kept = last_kept (rejected ops F) (stack_before ps);
         dropped = last_dropped (rejected ops F) (stack_before ps) in
     if kept = [] then backward_loop dim F (?c, False) = Some (?c\<lparr>cu_stack := [], cu_position := dm_zero dim\<rparr>)
     else cu_moved ops dim ?c (butlast kept) (last kept # dropped @ st_items (Internal h s ss ts) @ stack_after ps)
       (backward_loop dim F (?c, False)))"
      by (rule Cons.IH) (use Cons.prems(2,3) par(3) in simp_all)
    then show ?thesis
      unfolding before items using loop last_kept_append(1) [OF True, of "stack_before ps"]
      by (simp add: Let_def cu_moved_def split: if_splits)
  qed
qed

lemma search_backward_on:
  assumes F: "filter_ok ops F" and c: "cu_view ops dim c before rest" "rest \<noteq> []"
    and kept: "kept = last_kept (rejected ops F) before" and dropped: "dropped = last_dropped (rejected ops F) before"
  shows "\<exists>c'. cu_search_backward dim F c = Some c' \<and> cu_tree c' = cu_tree c \<and>
    (if kept = [] then cu_before_start ops dim c'
     else cu_view ops dim c' (butlast kept) (last kept # dropped @ rest))"
proof -
  have v: "on_item ops dim c before rest" "\<not> cu_at_end c" "cu_did_seek c" "st_wf ops (cu_tree c)"
      "st_height (cu_tree c) < 16" using c by (simp_all add: cu_view_def)
  have items: "st_items (cu_tree c) = before @ rest" by (rule cu_view_items [OF c(1)])
  then have n: "st_node ops (cu_tree c)" using v(4) c(2) by (auto simp: st_wf_def)
  obtain e ps where e: "cu_stack c = e # ps" "st_is_leaf (se_tree e)" "parents_ok ops dim (cu_tree c) ps (se_tree e)"
      "se_index e < length (st_items (se_tree e))"
      "before = stack_before ps @ take (se_index e) (st_items (se_tree e))"
      "rest = drop (se_index e) (st_items (se_tree e)) @ stack_after ps"
    using v(1) by (auto simp: on_item_def)
  then obtain s zs ss where l: "se_tree e = Leaf s zs ss" by (cases "se_tree e") auto
  let ?here = "take (se_index e) zs"
  have node: "st_node ops (Leaf s zs ss)" using parents_ok_node [OF e(3) n] l by simp
  have before: "before = stack_before ps @ ?here" "rest = drop (se_index e) zs @ stack_after ps"
    using e(5,6) l by simp_all
  have start: "cu_search_backward dim F c = backward_loop dim F (c, False)"
    using v by (simp add: cu_search_backward_def Let_def)
  have phase: "backward_ok F c False ps ?here (drop (se_index e) zs)"
    by (rule backward_leaf [OF node e(1) l]) (use e l in simp_all)
  show ?thesis
  proof (cases "last_kept (rejected ops F) ?here = []")
    case False
    then show ?thesis
      using phase last_kept_append(2) [OF False, of "stack_before ps"] kept dropped before start v
      by (auto simp: backward_ok_def Let_def cu_moved_def cu_view_def butlast_append)
  next
    case True
    let ?c = "c\<lparr>cu_stack := ps, cu_position := advance ops dim (dm_zero dim) (stack_before ps)\<rparr>"
    have loop: "cu_search_backward dim F c = backward_loop dim F (?c, False)"
      using phase True start by (simp add: backward_ok_def)
    have k: "kept = last_kept (rejected ops F) (stack_before ps)"
      "dropped = last_dropped (rejected ops F) (stack_before ps) @ ?here"
      using kept dropped before last_kept_append(1) [OF True, of "stack_before ps"] by simp_all
    have leave: "let kept = last_kept (rejected ops F) (stack_before ps);
         dropped = last_dropped (rejected ops F) (stack_before ps) in
     if kept = [] then backward_loop dim F (?c, False) = Some (?c\<lparr>cu_stack := [], cu_position := dm_zero dim\<rparr>)
     else cu_moved ops dim ?c (butlast kept) (last kept # dropped @ st_items (Leaf s zs ss) @ stack_after ps)
       (backward_loop dim F (?c, False))"
      by (rule backward_leave [OF F]) (use n v e(3) l in simp_all)
    have zs: "?here @ rest = zs @ stack_after ps" by (simp add: before(2) take_drop_append)
    show ?thesis
    proof (cases "kept = []")
      case True
      then show ?thesis
        using leave loop k v items c(2) by (simp add: Let_def cu_before_start_def)
    next
      case False
      have d: "dropped @ rest = last_dropped (rejected ops F) (stack_before ps) @ zs @ stack_after ps"
        using k(2) zs by simp
      show ?thesis
        unfolding d using False leave loop k(1) v by (auto simp: Let_def cu_moved_def cu_view_def)
    qed
  qed
qed

lemma search_backward_end:
  assumes F: "filter_ok ops F" and c: "cu_view ops dim c before [] \<or> cu_fresh ops dim c \<and> before = st_items (cu_tree c)"
    and kept: "kept = last_kept (rejected ops F) before" and dropped: "dropped = last_dropped (rejected ops F) before"
  shows "\<exists>c'. cu_search_backward dim F c = Some c' \<and> cu_tree c' = cu_tree c \<and>
    (if before = [] then cu_view ops dim c' [] []
     else if kept = [] then cu_before_start ops dim c'
     else cu_view ops dim c' (butlast kept) (last kept # dropped))"
proof -
  have v: "st_wf ops (cu_tree c)" "st_height (cu_tree c) < 16" "cu_stack c = []" "before = st_items (cu_tree c)"
    using c by (auto simp: cu_view_def cu_fresh_def)
  show ?thesis
  proof (cases "cu_tree c = st_new ops")
    case True
    then have "before = []" "st_is_empty (cu_tree c)" using v by (simp_all add: st_new_def)
    then show ?thesis
      using v c True by (auto simp: cu_search_backward_def Let_def backward_exit cu_view_def cu_fresh_def)
  next
    case False
    then have n: "st_node ops (cu_tree c)" using v(1) by (simp add: st_wf_def)
    have ne: "before \<noteq> []" "\<not> st_is_empty (cu_tree c)"
      using st_node_items_ne [OF n] st_node_not_empty [OF n] v(4) by simp_all
    let ?e = "\<lparr>se_tree = cu_tree c, se_index = length (st_child_summaries (cu_tree c)),
        se_position = dm_from_summary dim (st_summary (cu_tree c))\<rparr>"
    let ?c = "c\<lparr>cu_did_seek := True, cu_at_end := False, cu_position := dm_zero dim, cu_stack := [?e]\<rparr>"
    have start: "cu_search_backward dim F c = backward_loop dim F (?c, False)"
      using c ne v(3) by (cases c) (auto simp: cu_search_backward_def Let_def stack_push_def cu_view_def cu_fresh_def)
    have phase: "backward_ok F ?c False [] before []"
    proof (cases "cu_tree c")
      case (Internal h s ss ts)
      have "backward_ok F ?c False [] (concat (map st_items (take (length ts) ts))) (concat (map st_items (drop (length ts) ts)))"
        by (rule backward_children [OF F, where e = ?e]) (use n v(2) Internal backward_enter [OF F] in simp_all)
      then show ?thesis using v(4) Internal by simp
    next
      case (Leaf s zs ss)
      have "backward_ok F ?c False [] (take (length zs) zs) (drop (length zs) zs)"
        by (rule backward_leaf [where e = ?e]) (use n Leaf in simp_all)
      then show ?thesis using v(4) Leaf by simp
    qed
    show ?thesis
    proof (cases "kept = []")
      case True
      then show ?thesis
        using phase start ne v kept by (simp add: backward_ok_def backward_exit cu_before_start_def)
    next
      case False
      then show ?thesis
        using phase start ne v kept dropped by (auto simp: backward_ok_def Let_def cu_moved_def cu_view_def)
    qed
  qed
qed

lemma last_kept_False: "last_kept (\<lambda>_. False) xs = xs \<and> last_dropped (\<lambda>_. False) xs = []"
  by (cases xs rule: rev_cases) (simp_all add: last_kept_def last_dropped_def)

text \<open>\<open>prev\<close> moves back by one item; from an unused cursor or the end it goes to the last one.\<close>

lemma prev_at:
  "cu_view ops dim c (before @ [x]) rest \<Longrightarrow>
   \<exists>c'. cu_prev dim c = Some c' \<and> cu_tree c' = cu_tree c \<and> cu_view ops dim c' before (x # rest)"
  "cu_view ops dim c [] rest \<Longrightarrow> rest \<noteq> [] \<Longrightarrow>
   \<exists>c'. cu_prev dim c = Some c' \<and> cu_tree c' = cu_tree c \<and> cu_before_start ops dim c'"
  "cu_fresh ops dim c \<Longrightarrow> st_items (cu_tree c) = before @ [x] \<Longrightarrow>
   \<exists>c'. cu_prev dim c = Some c' \<and> cu_tree c' = cu_tree c \<and> cu_view ops dim c' before [x]"
proof -
  show "\<exists>c'. cu_prev dim c = Some c' \<and> cu_tree c' = cu_tree c \<and> cu_view ops dim c' before (x # rest)"
    if "cu_view ops dim c (before @ [x]) rest"
  proof (cases "rest = []")
    case True
    with that have "cu_view ops dim c (before @ [x]) []" by simp
    from search_backward_end [OF filter_true disjI1, OF this refl refl] True show ?thesis
      by (simp add: cu_prev_def last_kept_False)
  next
    case False
    from search_backward_on [OF filter_true that False refl refl] show ?thesis
      by (simp add: cu_prev_def last_kept_False)
  qed
  show "\<exists>c'. cu_prev dim c = Some c' \<and> cu_tree c' = cu_tree c \<and> cu_before_start ops dim c'"
    if "cu_view ops dim c [] rest" "rest \<noteq> []"
    using search_backward_on [OF filter_true that refl refl] by (simp add: cu_prev_def last_kept_False)
  show "\<exists>c'. cu_prev dim c = Some c' \<and> cu_tree c' = cu_tree c \<and> cu_view ops dim c' before [x]"
    if "cu_fresh ops dim c" "st_items (cu_tree c) = before @ [x]"
    using search_backward_end [OF filter_true disjI2 refl refl, of c "before @ [x]"] that
    by (simp add: cu_prev_def last_kept_False)
qed

end

section \<open>Collecting the items\<close>

text \<open>The loop of \<open>SumTree::items\<close>: \<open>next\<close> once, then push the item and \<open>next\<close> while there is one.\<close>

partial_function (option) items_loop ::
    "('t, 's, unit) cursor \<Rightarrow> 't list \<Rightarrow> 't list option" where
  [code]: "items_loop c xs = do {
     item \<leftarrow> cu_item c;
     (case item of
        None \<Rightarrow> Some xs
      | Some x \<Rightarrow> do { c \<leftarrow> cu_next dim_unit c; items_loop c (xs @ [x]) }) }"

definition st_items_vec :: "('t, 's) sum_tree \<Rightarrow> 't list option" where
  "st_items_vec t = do {
     c \<leftarrow> cu_next dim_unit (cu_new dim_unit t);
     items_loop c [] }"

sublocale summary_laws \<subseteq> unit_dim: dimension_laws ops dim_unit
  by unfold_locales (simp_all add: dim_unit_def)

context summary_laws
begin

lemma items_loop:
  "cu_view ops dim_unit c before rest \<Longrightarrow> items_loop c xs = Some (xs @ rest)"
proof (induction rest arbitrary: c before xs)
  case Nil
  then show ?case by (subst items_loop.simps) (simp add: cu_view_item list_first_def)
next
  case (Cons x rest)
  obtain c' where c': "cu_next dim_unit c = Some c'" "cu_view ops dim_unit c' (before @ [x]) rest"
    using unit_dim.next_at(2) [OF Cons.prems] by blast
  from Cons.IH [OF c'(2)] c'(1) show ?case
    by (subst items_loop.simps) (simp add: cu_view_item [OF Cons.prems] list_first_def)
qed

lemma items_vec:
  assumes "st_wf ops t" "st_height t < 16"
  shows "st_items_vec t = Some (st_items t)"
proof -
  have "cu_fresh ops dim_unit (cu_new dim_unit t)" using assms by (simp add: cu_fresh_def cu_new_def)
  then obtain c' where "cu_next dim_unit (cu_new dim_unit t) = Some c'" "cu_view ops dim_unit c' [] (st_items t)"
    using unit_dim.next_at(1) [OF disjI1] by (fastforce simp: cu_new_def)
  with items_loop [of c' "[]" "st_items t" "[]"] show ?thesis by (simp add: st_items_vec_def)
qed

end

end
