(* ===== verification/Zed_SumTree_Keyed.thy ===== *)
theory Zed_SumTree_Keyed
  imports Zed_SumTree_Build Zed_SumTree_Prev
begin

text \<open>
  Trees of keyed items (\<open>impl<T: KeyedItem> SumTree<T>\<close> in \<open>crates/sum_tree/src/sum_tree.rs\<close>):
  \<open>insert_or_replace\<close>, \<open>remove\<close>, \<open>edit\<close> and \<open>get\<close>, each built from a cursor's slice and
  suffix.  The key of an item is a dimension; \<open>key\<close> is the method, \<open>dim\<close> the dimension.
\<close>

section \<open>The operations\<close>

definition st_insert_or_replace ::
    "('t, 's) summary_ops \<Rightarrow> ('s, 'k::linorder) dimension \<Rightarrow> ('t \<Rightarrow> 'k) \<Rightarrow> ('t, 's) sum_tree \<Rightarrow> 't \<Rightarrow>
       (('t, 's) sum_tree \<times> 't option) option" where
  "st_insert_or_replace ops dim key t item = do {
     (c, new_tree) \<leftarrow> cu_slice ops dim (target_of (key item)) BLeft (cu_new dim t);
     found \<leftarrow> cu_item c;
     (c, replaced) \<leftarrow>
       (case found of
          Some cursor_item \<Rightarrow>
            (if key cursor_item = key item then do { c \<leftarrow> cu_next dim c; Some (c, Some cursor_item) }
             else Some (c, None))
        | None \<Rightarrow> Some (c, None));
     new_tree \<leftarrow> st_push ops new_tree item;
     (c, suffix) \<leftarrow> cu_suffix ops dim c;
     new_tree \<leftarrow> st_append ops new_tree suffix;
     Some (new_tree, replaced) }"

definition st_remove ::
    "('t, 's) summary_ops \<Rightarrow> ('s, 'k::linorder) dimension \<Rightarrow> ('t \<Rightarrow> 'k) \<Rightarrow> ('t, 's) sum_tree \<Rightarrow> 'k \<Rightarrow>
       (('t, 's) sum_tree \<times> 't option) option" where
  "st_remove ops dim key t k = do {
     (c, new_tree) \<leftarrow> cu_slice ops dim (target_of k) BLeft (cu_new dim t);
     found \<leftarrow> cu_item c;
     (c, removed) \<leftarrow>
       (case found of
          Some item \<Rightarrow>
            (if key item = k then do { c \<leftarrow> cu_next dim c; Some (c, Some item) }
             else Some (c, None))
        | None \<Rightarrow> Some (c, None));
     (c, suffix) \<leftarrow> cu_suffix ops dim c;
     new_tree \<leftarrow> st_append ops new_tree suffix;
     Some (new_tree, removed) }"

datatype ('t, 'k) edit = Insert 't | Remove 'k

fun edit_key :: "('t \<Rightarrow> 'k) \<Rightarrow> ('t, 'k) edit \<Rightarrow> 'k" where
  "edit_key key (Insert item) = key item"
| "edit_key key (Remove k) = k"

text \<open>The loop over the sorted edits, with the cursor, the new tree, the buffered items and the
  removed ones.\<close>

fun st_edit_loop ::
    "('t, 's) summary_ops \<Rightarrow> ('s, 'k::linorder) dimension \<Rightarrow> ('t \<Rightarrow> 'k) \<Rightarrow> ('t, 'k) edit list \<Rightarrow>
       ('t, 's, 'k) cursor \<Rightarrow> ('t, 's) sum_tree \<Rightarrow> 't list \<Rightarrow> 't list \<Rightarrow>
       (('t, 's, 'k) cursor \<times> ('t, 's) sum_tree \<times> 't list \<times> 't list) option" where
  "st_edit_loop ops dim key [] c new_tree buffered removed = Some (c, new_tree, buffered, removed)"
| "st_edit_loop ops dim key (e # edits) c new_tree buffered removed = do {
     let new_key = edit_key key e;
     old_item \<leftarrow> cu_item c;
     (c, new_tree, buffered, old_item) \<leftarrow>
       (if (case old_item of Some old \<Rightarrow> key old < new_key | None \<Rightarrow> False) then do {
          new_tree \<leftarrow> st_extend ops new_tree buffered;
          (c, slice) \<leftarrow> cu_slice ops dim (target_of new_key) BLeft c;
          new_tree \<leftarrow> st_append ops new_tree slice;
          old_item \<leftarrow> cu_item c;
          Some (c, new_tree, [], old_item) }
        else Some (c, new_tree, buffered, old_item));
     (c, removed) \<leftarrow>
       (case old_item of
          Some old \<Rightarrow>
            (if key old = new_key then do { c \<leftarrow> cu_next dim c; Some (c, removed @ [old]) }
             else Some (c, removed))
        | None \<Rightarrow> Some (c, removed));
     (case e of
        Insert item \<Rightarrow> st_edit_loop ops dim key edits c new_tree (buffered @ [item]) removed
      | Remove _ \<Rightarrow> st_edit_loop ops dim key edits c new_tree buffered removed) }"

text \<open>The edits are sorted by key, unstably: the model sorts stably, which is the same on edits
  with distinct keys.\<close>

definition st_edit ::
    "('t, 's) summary_ops \<Rightarrow> ('s, 'k::linorder) dimension \<Rightarrow> ('t \<Rightarrow> 'k) \<Rightarrow> ('t, 's) sum_tree \<Rightarrow>
       ('t, 'k) edit list \<Rightarrow> (('t, 's) sum_tree \<times> 't list) option" where
  "st_edit ops dim key t edits =
     (if edits = [] then Some (t, [])
      else do {
        (c, _) \<leftarrow> cu_seek dim (target_of (dm_zero dim)) BLeft (cu_new dim t);
        (c, new_tree, buffered, removed) \<leftarrow>
          st_edit_loop ops dim key (sort_key (edit_key key) edits) c (st_new ops) [] [];
        new_tree \<leftarrow> st_extend ops new_tree buffered;
        (c, suffix) \<leftarrow> cu_suffix ops dim c;
        new_tree \<leftarrow> st_append ops new_tree suffix;
        Some (new_tree, removed) })"

definition st_get :: "('s, 'k::linorder) dimension \<Rightarrow> ('t, 's) sum_tree \<Rightarrow> 'k \<Rightarrow> 't option" where
  "st_get dim t k = (case st_find_exact dim t (target_of k) BLeft of (_, _, item) \<Rightarrow> item)"

section \<open>What they do to a sorted list of items\<close>

definition keys_sorted :: "('t \<Rightarrow> 'k::linorder) \<Rightarrow> 't list \<Rightarrow> bool" where
  "keys_sorted key xs \<longleftrightarrow> sorted_wrt (<) (map key xs)"

definition below :: "('t \<Rightarrow> 'k::linorder) \<Rightarrow> 'k \<Rightarrow> 't list \<Rightarrow> 't list" where
  "below key k xs = takeWhile (\<lambda>x. key x < k) xs"

definition from_key :: "('t \<Rightarrow> 'k::linorder) \<Rightarrow> 'k \<Rightarrow> 't list \<Rightarrow> 't list" where
  "from_key key k xs = dropWhile (\<lambda>x. key x < k) xs"

definition above :: "('t \<Rightarrow> 'k::linorder) \<Rightarrow> 'k \<Rightarrow> 't list \<Rightarrow> 't list" where
  "above key k xs =
     (case from_key key k xs of [] \<Rightarrow> [] | y # ys \<Rightarrow> if key y = k then ys else y # ys)"

definition find_key :: "('t \<Rightarrow> 'k::linorder) \<Rightarrow> 'k \<Rightarrow> 't list \<Rightarrow> 't option" where
  "find_key key k xs =
     (case from_key key k xs of [] \<Rightarrow> None | y # ys \<Rightarrow> if key y = k then Some y else None)"

fun edit_list :: "('t \<Rightarrow> 'k::linorder) \<Rightarrow> ('t, 'k) edit list \<Rightarrow> 't list \<Rightarrow> 't list" where
  "edit_list key [] xs = xs"
| "edit_list key (e # es) xs =
     below key (edit_key key e) xs @ (case e of Insert x \<Rightarrow> [x] | Remove _ \<Rightarrow> []) @
     edit_list key es (above key (edit_key key e) xs)"

fun edit_removed :: "('t \<Rightarrow> 'k::linorder) \<Rightarrow> ('t, 'k) edit list \<Rightarrow> 't list \<Rightarrow> 't list" where
  "edit_removed key [] xs = []"
| "edit_removed key (e # es) xs =
     (case find_key key (edit_key key e) xs of Some y \<Rightarrow> [y] | None \<Rightarrow> []) @
     edit_removed key es (above key (edit_key key e) xs)"

lemma below_from [simp]: "below key k xs @ from_key key k xs = xs"
  by (simp add: below_def from_key_def)

lemma find_above:
  "from_key key k xs = (case find_key key k xs of Some y \<Rightarrow> [y] | None \<Rightarrow> []) @ above key k xs"
  by (auto simp: find_key_def above_def split: list.splits)

lemma set_from_subset: "x \<in> set (from_key key k xs) \<Longrightarrow> x \<in> set xs"
  by (auto simp: from_key_def dest: set_dropWhileD)

lemma find_key_Some: "find_key key k xs = Some y \<Longrightarrow> key y = k \<and> y \<in> set xs"
  using set_from_subset [of _ key k xs] by (auto simp: find_key_def split: list.splits if_splits)

lemma set_below: "x \<in> set (below key k xs) \<Longrightarrow> key x < k"
  by (auto simp: below_def dest: set_takeWhileD)

lemma keys_sorted_append:
  "keys_sorted key (xs @ ys) \<longleftrightarrow> keys_sorted key xs \<and> keys_sorted key ys \<and> (\<forall>x \<in> set xs. \<forall>y \<in> set ys. key x < key y)"
  by (auto simp: keys_sorted_def sorted_wrt_append)

lemma keys_sorted_Cons:
  "keys_sorted key (x # xs) \<longleftrightarrow> keys_sorted key xs \<and> (\<forall>y \<in> set xs. key x < key y)"
  by (auto simp: keys_sorted_def)

lemma keys_sorted_Nil [simp]: "keys_sorted key []"
  by (simp add: keys_sorted_def)

lemma keys_sorted_sort: "distinct (map key xs) \<Longrightarrow> keys_sorted key (sort_key key xs)"
  by (simp add: keys_sorted_def strict_sorted_iff distinct_map)

lemma keys_sorted_from:
  assumes "keys_sorted key xs"
  shows "keys_sorted key (below key k xs)" "keys_sorted key (from_key key k xs)" "keys_sorted key (above key k xs)"
proof -
  have s: "keys_sorted key (below key k xs @ from_key key k xs)" using assms by simp
  then show "keys_sorted key (below key k xs)" "keys_sorted key (from_key key k xs)"
    by (simp_all only: keys_sorted_append)
  then show "keys_sorted key (above key k xs)"
    by (auto simp: above_def keys_sorted_Cons split: list.splits)
qed

lemma set_from_key: "keys_sorted key xs \<Longrightarrow> y \<in> set (from_key key k xs) \<Longrightarrow> k \<le> key y"
proof (induction xs)
  case (Cons x xs)
  then show ?case
    by (cases "key x < k") (auto simp: from_key_def keys_sorted_Cons)
qed (simp add: from_key_def)

lemma set_above:
  assumes "keys_sorted key xs" "y \<in> set (above key k xs)"
  shows "k < key y"
proof -
  obtain z zs where z: "from_key key k xs = z # zs"
    using assms(2) by (cases "from_key key k xs") (simp_all add: above_def)
  then have le: "k \<le> key z" using set_from_key [OF assms(1)] by (metis list.set_intros(1))
  have "keys_sorted key (z # zs)" using keys_sorted_from(2) [OF assms(1), of k] z by simp
  then have "\<forall>y \<in> set zs. key z < key y" by (simp add: keys_sorted_Cons)
  with le z assms(2) show ?thesis by (auto simp: above_def split: if_splits)
qed

text \<open>The items of a sorted list by key, as a map: the three parts of a split determine it.\<close>

definition key_map :: "('t \<Rightarrow> 'k) \<Rightarrow> 't list \<Rightarrow> 'k \<Rightarrow> 't option" where
  "key_map key xs = map_of (map (\<lambda>x. (key x, x)) xs)"

lemma key_map_simps [simp]:
  "key_map key [] = Map.empty"
  "key_map key (x # xs) = (key_map key xs)(key x \<mapsto> x)"
  by (simp_all add: key_map_def)

lemma key_map_append: "key_map key (xs @ ys) = key_map key ys ++ key_map key xs"
  by (simp add: key_map_def)

lemma key_map_None: "key_map key xs k = None \<longleftrightarrow> (\<forall>x \<in> set xs. key x \<noteq> k)"
  by (induction xs) auto

lemma key_map_split:
  assumes "keys_sorted key xs"
  shows "key_map key xs j =
    (if j < k then key_map key (below key k xs) j else if j = k then find_key key k xs
     else key_map key (above key k xs) j)"
proof -
  have split: "xs = below key k xs @ (case find_key key k xs of Some y \<Rightarrow> [y] | None \<Rightarrow> []) @ above key k xs"
    using find_above [of key k xs] below_from [of key k xs] by simp
  have "key_map key (below key k xs) j = None" if "\<not> j < k"
    using that set_below [of _ key k xs] by (auto simp: key_map_None)
  moreover have "key_map key (above key k xs) j = None" if "\<not> k < j"
    using that set_above [OF assms] by (auto simp: key_map_None)
  moreover have "key y = k" if "find_key key k xs = Some y" for y using find_key_Some that by fast
  ultimately show ?thesis
    by (subst split) (auto simp: key_map_append map_add_def split: option.splits)
qed

section \<open>Correctness\<close>

text \<open>Over items in key order, the key dimension takes on the key of the last item; it starts below
  every key.  (The dimension may be a maximum, so nothing is said for keys out of order.)\<close>

locale keyed_order_laws = dimension_laws ops dim
  for ops :: "('t, 's) summary_ops" and dim :: "('s, 'k::linorder) dimension" +
  fixes key :: "'t \<Rightarrow> 'k"
  assumes dm_add_key: "d \<le> key x \<Longrightarrow> dm_add dim d (sm_item ops x) = key x"
    and zero_least: "dm_zero dim \<le> k"
begin

lemma past_key: "seek_past (target_of k) BLeft e \<longleftrightarrow> e < k"
  by (auto simp: seek_past_def target_of_def cmp_def)

lemma past_key_right: "seek_past (target_of k) BRight e \<longleftrightarrow> e \<le> k"
  by (auto simp: seek_past_def target_of_def cmp_def)

lemma ends_key:
  "keys_sorted key xs \<Longrightarrow> \<forall>x \<in> set xs. d \<le> key x \<Longrightarrow> seek_ends ops dim d xs = map key xs"
  by (induction xs arbitrary: d) (auto simp: dm_add_key keys_sorted_Cons less_imp_le)

lemma ordered_key:
  assumes "keys_sorted key xs" "\<forall>x \<in> set xs. d \<le> key x"
  shows "seek_ordered ops dim (target_of k) b d xs"
proof (cases b)
  case BLeft
  show ?thesis using assms(1) unfolding seek_ordered_def ends_key [OF assms] BLeft past_key
    by (induction xs) (auto simp: keys_sorted_Cons)
next
  case BRight
  show ?thesis using assms(1) unfolding seek_ordered_def ends_key [OF assms] BRight past_key_right
    by (induction xs) (auto simp: keys_sorted_Cons)
qed

lemma split_key:
  assumes "keys_sorted key xs" "\<forall>x \<in> set xs. d \<le> key x"
  shows "seek_take ops dim (target_of k) BLeft d xs = below key k xs \<and>
    seek_drop ops dim (target_of k) BLeft d xs = from_key key k xs"
  using assms
  by (induction xs arbitrary: d)
    (auto simp: below_def from_key_def past_key dm_add_key keys_sorted_Cons less_imp_le)

lemma advance_key:
  "keys_sorted key xs \<Longrightarrow> \<forall>x \<in> set xs. d \<le> key x \<Longrightarrow>
     advance ops dim d xs = (if xs = [] then d else key (last xs))"
  by (induction xs arbitrary: d) (auto simp: dm_add_key keys_sorted_Cons less_imp_le)

lemma position_key:
  "keys_sorted key xs \<Longrightarrow> advance ops dim (dm_zero dim) xs = (if xs = [] then dm_zero dim else key (last xs))"
  by (rule advance_key) (simp_all add: zero_least)

lemma position_le:
  "keys_sorted key xs \<Longrightarrow> \<forall>x \<in> set xs. key x \<le> k \<Longrightarrow> advance ops dim (dm_zero dim) xs \<le> k"
  by (simp add: position_key zero_least)

lemma position_below:
  "keys_sorted key (xs @ ys) \<Longrightarrow> \<forall>y \<in> set ys. advance ops dim (dm_zero dim) xs \<le> key y"
  by (auto simp: keys_sorted_append position_key zero_least less_imp_le)

lemma not_less_target: "d \<le> k \<Longrightarrow> target_of k d \<noteq> Less"
  by (auto simp: target_of_def cmp_def)

lemma target_equal: "target_of k e = Equal \<longleftrightarrow> e = k"
  by (auto simp: target_of_def cmp_def)

lemma slice_key:
  assumes "cu_at ops dim c before rest" "keys_sorted key (before @ rest)" "\<forall>x \<in> set before. key x \<le> k"
  shows "\<exists>c' t. cu_slice ops dim (target_of k) BLeft c = Some (c', t) \<and> cu_tree c' = cu_tree c \<and>
    cu_view ops dim c' (before @ below key k rest) (from_key key k rest) \<and>
    st_wf ops t \<and> st_items t = below key k rest"
proof -
  have sorted: "keys_sorted key before" "keys_sorted key rest" using assms(2) by (simp_all add: keys_sorted_append)
  have low: "\<forall>x \<in> set rest. cu_position c \<le> key x"
    unfolding cu_at_position [OF assms(1)] by (rule position_below [OF assms(2)])
  have "target_of k (cu_position c) \<noteq> Less"
    using cu_at_position [OF assms(1)] position_le [OF sorted(1) assms(3)] by (simp add: not_less_target)
  from cu_slice_at [OF assms(1) ordered_key [OF sorted(2) low] this refl refl, of BLeft] show ?thesis
    by (simp only: split_key [OF sorted(2) low, of k])
qed

lemma suffix_view:
  assumes "cu_view ops dim c before rest"
  shows "\<exists>c' t. cu_suffix ops dim c = Some (c', t) \<and> st_wf ops t \<and> st_items t = rest"
  using cu_suffix_at [of c before rest] assms by (auto simp: cu_at_def)

text \<open>After a slice up to a key, the item at the cursor may be the one with the key.\<close>

lemma take_key:
  assumes "cu_view ops dim c before (from_key key k xs)"
  shows "\<exists>c' before'. (case list_first (from_key key k xs) of
       Some y \<Rightarrow> (if key y = k then do { c \<leftarrow> cu_next dim c; Some (c, f y) } else Some (c, g))
     | None \<Rightarrow> Some (c, g)) = Some (c', case find_key key k xs of Some y \<Rightarrow> f y | None \<Rightarrow> g) \<and>
     cu_tree c' = cu_tree c \<and> cu_view ops dim c' before' (above key k xs) \<and>
     before' = before @ (case find_key key k xs of Some y \<Rightarrow> [y] | None \<Rightarrow> [])"
proof (cases "from_key key k xs")
  case (Cons y ys)
  then show ?thesis
    using next_at(2) [of c before y ys] assms by (auto simp: list_first_def find_key_def above_def)
qed (use assms in \<open>simp add: list_first_def find_key_def above_def\<close>)

lemma insert_or_replace:
  assumes "st_wf ops t" "st_height t < 16" "keys_sorted key (st_items t)"
  shows "\<exists>t'. st_insert_or_replace ops dim key t x = Some (t', find_key key (key x) (st_items t)) \<and> st_wf ops t' \<and>
    st_items t' = below key (key x) (st_items t) @ x # above key (key x) (st_items t)"
proof -
  let ?xs = "st_items t" and ?k = "key x"
  obtain c1 t1 where c1: "cu_slice ops dim (target_of ?k) BLeft (cu_new dim t) = Some (c1, t1)"
      "cu_view ops dim c1 (below key ?k ?xs) (from_key key ?k ?xs)" "st_wf ops t1" "st_items t1 = below key ?k ?xs"
    using slice_key [OF cu_at_new [OF assms(1,2)], of ?k] assms(3) by auto
  obtain c2 b2 where c2: "(case list_first (from_key key ?k ?xs) of
       Some y \<Rightarrow> (if key y = ?k then do { c \<leftarrow> cu_next dim c1; Some (c, Some y) } else Some (c1, None))
     | None \<Rightarrow> Some (c1, None)) = Some (c2, find_key key ?k ?xs)"
     "cu_view ops dim c2 b2 (above key ?k ?xs)"
    using take_key [OF c1(2), where f = Some and g = None] by (auto split: option.splits)
  obtain t2 where t2: "st_push ops t1 x = Some t2" "st_wf ops t2" "st_items t2 = st_items t1 @ [x]"
    using push [OF c1(3)] by blast
  obtain c3 t3 where t3: "cu_suffix ops dim c2 = Some (c3, t3)" "st_wf ops t3" "st_items t3 = above key ?k ?xs"
    using suffix_view [OF c2(2)] by blast
  obtain t4 where "st_append ops t2 t3 = Some t4" "st_wf ops t4" "st_items t4 = st_items t2 @ st_items t3"
    using append [OF t2(2) t3(2)] by blast
  then show ?thesis
    using c1 c2 t2 t3 by (simp add: st_insert_or_replace_def cu_view_item(1) [OF c1(2)])
qed

lemma remove:
  assumes "st_wf ops t" "st_height t < 16" "keys_sorted key (st_items t)"
  shows "\<exists>t'. st_remove ops dim key t k = Some (t', find_key key k (st_items t)) \<and> st_wf ops t' \<and>
    st_items t' = below key k (st_items t) @ above key k (st_items t)"
proof -
  let ?xs = "st_items t"
  obtain c1 t1 where c1: "cu_slice ops dim (target_of k) BLeft (cu_new dim t) = Some (c1, t1)"
      "cu_view ops dim c1 (below key k ?xs) (from_key key k ?xs)" "st_wf ops t1" "st_items t1 = below key k ?xs"
    using slice_key [OF cu_at_new [OF assms(1,2)], of k] assms(3) by auto
  obtain c2 b2 where c2: "(case list_first (from_key key k ?xs) of
       Some y \<Rightarrow> (if key y = k then do { c \<leftarrow> cu_next dim c1; Some (c, Some y) } else Some (c1, None))
     | None \<Rightarrow> Some (c1, None)) = Some (c2, find_key key k ?xs)"
     "cu_view ops dim c2 b2 (above key k ?xs)"
    using take_key [OF c1(2), where f = Some and g = None] by (auto split: option.splits)
  obtain c3 t3 where t3: "cu_suffix ops dim c2 = Some (c3, t3)" "st_wf ops t3" "st_items t3 = above key k ?xs"
    using suffix_view [OF c2(2)] by blast
  obtain t4 where "st_append ops t1 t3 = Some t4" "st_wf ops t4" "st_items t4 = st_items t1 @ st_items t3"
    using append [OF c1(3) t3(2)] by blast
  then show ?thesis
    using c1 c2 t3 by (simp add: st_remove_def cu_view_item(1) [OF c1(2)])
qed

lemma get:
  assumes "st_wf ops t" "keys_sorted key (st_items t)"
  shows "st_get dim t k = find_key key k (st_items t)"
proof -
  have low: "\<forall>x \<in> set (st_items t). dm_zero dim \<le> key x" by (simp add: zero_least)
  have "st_get dim t k = exact_spec ops dim (target_of k) (dm_zero dim) (st_items t)"
    using find_exact [OF assms(1) ordered_key [OF assms(2) low] ordered_key [OF assms(2) low], of k]
    by (cases "st_find_exact dim t (target_of k) BLeft") (simp add: st_get_def)
  also have "\<dots> = find_key key k (st_items t)"
  proof (cases "from_key key k (st_items t)")
    case Nil
    then show ?thesis
      by (simp add: exact_spec_def seek_split_spec_def split_key [OF assms(2) low] find_key_def Let_def)
  next
    case (Cons y ys)
    have "keys_sorted key (below key k (st_items t) @ y # ys)" using assms(2) Cons below_from [of key k "st_items t"] by simp
    from position_below [OF this] have "dm_add dim (advance ops dim (dm_zero dim) (below key k (st_items t))) (sm_item ops y) = key y"
      by (intro dm_add_key) simp
    with Cons show ?thesis
      by (auto simp: exact_spec_def seek_split_spec_def split_key [OF assms(2) low] find_key_def target_equal Let_def)
  qed
  finally show ?thesis .
qed

text \<open>The part of an edit's step that moves up to its key.\<close>

lemma edit_slice:
  assumes c: "cu_view ops dim c before rest" and rest: "keys_sorted key (before @ rest)"
    and before: "\<forall>x \<in> set before. key x \<le> k" and new: "st_wf ops new"
  shows "\<exists>c' new' buf'.
    (if (case list_first rest of Some old \<Rightarrow> key old < k | None \<Rightarrow> False) then do {
          new_tree \<leftarrow> st_extend ops new buf;
          (c, slice) \<leftarrow> cu_slice ops dim (target_of k) BLeft c;
          new_tree \<leftarrow> st_append ops new_tree slice;
          old_item \<leftarrow> cu_item c;
          Some (c, new_tree, [], old_item) }
        else Some (c, new, buf, list_first rest)) = Some (c', new', buf', list_first (from_key key k rest)) \<and>
    cu_view ops dim c' (before @ below key k rest) (from_key key k rest) \<and> st_wf ops new' \<and>
    st_items new' @ buf' = st_items new @ buf @ below key k rest"
proof (cases "case list_first rest of Some old \<Rightarrow> key old < k | None \<Rightarrow> False")
  case True
  obtain t1 where t1: "st_extend ops new buf = Some t1" "st_wf ops t1" "st_items t1 = st_items new @ buf"
    using extend [OF new] by blast
  have "cu_at ops dim c before rest" using c by (simp add: cu_at_def)
  from slice_key [OF this rest before] obtain c' t2 where
    t2: "cu_slice ops dim (target_of k) BLeft c = Some (c', t2)"
      "cu_view ops dim c' (before @ below key k rest) (from_key key k rest)" "st_wf ops t2" "st_items t2 = below key k rest"
    by blast
  obtain t3 where "st_append ops t1 t2 = Some t3" "st_wf ops t3" "st_items t3 = st_items t1 @ st_items t2"
    using append [OF t1(2) t2(3)] by blast
  with True t1 t2 show ?thesis by (simp add: cu_view_item(1) [OF t2(2)])
next
  case False
  then have "below key k rest = []" "from_key key k rest = rest"
    by (auto simp: below_def from_key_def list_first_def split: list.splits)
  with False c new show ?thesis by simp
qed

lemma edit_loop:
  "cu_view ops dim c before rest \<Longrightarrow> keys_sorted key (before @ rest) \<Longrightarrow> keys_sorted (edit_key key) edits \<Longrightarrow>
   \<forall>x \<in> set before. \<forall>e \<in> set edits. key x \<le> edit_key key e \<Longrightarrow> st_wf ops new \<Longrightarrow>
   \<exists>c' new' buf' before' rest'.
     st_edit_loop ops dim key edits c new buf removed = Some (c', new', buf', removed @ edit_removed key edits rest) \<and>
     cu_view ops dim c' before' rest' \<and> st_wf ops new' \<and>
     st_items new' @ buf' @ rest' = st_items new @ buf @ edit_list key edits rest"
proof (induction edits arbitrary: c before rest new buf removed)
  case (Cons e edits)
  let ?k = "edit_key key e"
  have bk: "\<forall>x \<in> set before. key x \<le> ?k" using Cons.prems(4) by simp
  obtain c1 new1 buf1 where step1:
    "(if (case list_first rest of Some old \<Rightarrow> key old < ?k | None \<Rightarrow> False) then do {
          new_tree \<leftarrow> st_extend ops new buf;
          (c, slice) \<leftarrow> cu_slice ops dim (target_of ?k) BLeft c;
          new_tree \<leftarrow> st_append ops new_tree slice;
          old_item \<leftarrow> cu_item c;
          Some (c, new_tree, [], old_item) }
        else Some (c, new, buf, list_first rest)) = Some (c1, new1, buf1, list_first (from_key key ?k rest))"
    and c1: "cu_view ops dim c1 (before @ below key ?k rest) (from_key key ?k rest)" "st_wf ops new1"
      "st_items new1 @ buf1 = st_items new @ buf @ below key ?k rest"
    using edit_slice [OF Cons.prems(1,2) bk Cons.prems(5)] by blast
  let ?found = "case find_key key ?k rest of Some y \<Rightarrow> [y] | None \<Rightarrow> []"
  obtain c2 where step2: "(case list_first (from_key key ?k rest) of
       Some y \<Rightarrow> (if key y = ?k then do { c \<leftarrow> cu_next dim c1; Some (c, removed @ [y]) } else Some (c1, removed))
     | None \<Rightarrow> Some (c1, removed)) = Some (c2, removed @ ?found)"
     and c2: "cu_view ops dim c2 ((before @ below key ?k rest) @ ?found) (above key ?k rest)"
    using take_key [OF c1(1), where f = "\<lambda>y. removed @ [y]" and g = removed]
    by (cases "find_key key ?k rest") auto
  have later: "\<forall>e' \<in> set edits. ?k < edit_key key e'" "keys_sorted (edit_key key) edits"
    using Cons.prems(3) by (simp_all add: keys_sorted_Cons)
  have bound: "\<forall>x \<in> set ((before @ below key ?k rest) @ ?found). \<forall>e \<in> set edits. key x \<le> edit_key key e"
    using later(1) bk set_below [of _ key ?k rest] find_key_Some [of key ?k rest]
    by (fastforce split: option.splits)
  have same: "((before @ below key ?k rest) @ ?found) @ above key ?k rest = before @ rest"
    using find_above [of key ?k rest] below_from [of key ?k rest] by simp
  have sorted: "keys_sorted key (((before @ below key ?k rest) @ ?found) @ above key ?k rest)"
    unfolding same by (rule Cons.prems(2))
  note ih = Cons.IH [OF c2 sorted later(2) bound c1(2), of _ "removed @ ?found"]
  have loop: "st_edit_loop ops dim key (e # edits) c new buf removed =
      st_edit_loop ops dim key edits c2 new1 (buf1 @ (case e of Insert x \<Rightarrow> [x] | Remove _ \<Rightarrow> [])) (removed @ ?found)"
    using step1 step2 by (simp add: cu_view_item(1) [OF Cons.prems(1)] Let_def split: edit.splits)
  have items: "st_items new1 @ (buf1 @ (case e of Insert x \<Rightarrow> [x] | Remove _ \<Rightarrow> [])) @ edit_list key edits (above key ?k rest) =
      st_items new @ buf @ edit_list key (e # edits) rest"
    using c1(3) by (simp flip: append_assoc)
  show ?case
    using ih [of "buf1 @ (case e of Insert x \<Rightarrow> [x] | Remove _ \<Rightarrow> [])"] loop
    unfolding items by (simp flip: append_assoc)
qed auto

lemma edit:
  assumes "st_wf ops t" "st_height t < 16" "keys_sorted key (st_items t)" "distinct (map (edit_key key) edits)"
  shows "\<exists>t'. st_edit ops dim key t edits =
      Some (t', edit_removed key (sort_key (edit_key key) edits) (st_items t)) \<and> st_wf ops t' \<and>
    st_items t' = edit_list key (sort_key (edit_key key) edits) (st_items t)"
proof (cases "edits = []")
  case True
  then show ?thesis using assms(1) by (simp add: st_edit_def)
next
  case False
  let ?es = "sort_key (edit_key key) edits" and ?xs = "st_items t"
  have es: "keys_sorted (edit_key key) ?es"
    using assms(4) by (rule keys_sorted_sort)
  have z: "below key (dm_zero dim) ?xs = []" "from_key key (dm_zero dim) ?xs = ?xs"
    using zero_least by (cases ?xs; simp add: below_def from_key_def leD)+
  have low: "\<forall>x \<in> set ?xs. dm_zero dim \<le> key x" by (simp add: zero_least)
  obtain c1 f where c1: "cu_seek dim (target_of (dm_zero dim)) BLeft (cu_new dim t) = Some (c1, f)" "cu_view ops dim c1 [] ?xs"
    using cu_seek_at [OF cu_at_new [OF assms(1,2)] _ _ refl refl, of "target_of (dm_zero dim)" BLeft]
      ordered_key [OF assms(3) low] not_less_target [of "dm_zero dim" "dm_zero dim"]
    by (auto simp: split_key [OF assms(3) low] z)
  have none: "\<forall>x \<in> set []. \<forall>e \<in> set ?es. key x \<le> edit_key key e" by simp
  from edit_loop [OF c1(2) _ es none st_wf_new, of "[]" "[]"] assms(3)
  obtain c2 new2 buf2 before2 rest2 where
    c2: "st_edit_loop ops dim key ?es c1 (st_new ops) [] [] = Some (c2, new2, buf2, edit_removed key ?es ?xs)"
      "cu_view ops dim c2 before2 rest2" "st_wf ops new2" "st_items new2 @ buf2 @ rest2 = edit_list key ?es ?xs"
    by auto
  obtain t3 where t3: "st_extend ops new2 buf2 = Some t3" "st_wf ops t3" "st_items t3 = st_items new2 @ buf2"
    using extend [OF c2(3)] by blast
  obtain c4 t4 where t4: "cu_suffix ops dim c2 = Some (c4, t4)" "st_wf ops t4" "st_items t4 = rest2"
    using suffix_view [OF c2(2)] by blast
  obtain t5 where "st_append ops t3 t4 = Some t5" "st_wf ops t5" "st_items t5 = st_items t3 @ st_items t4"
    using append [OF t3(2) t4(2)] by blast
  with False c1 c2 t3 t4 show ?thesis by (simp add: st_edit_def)
qed

end

text \<open>When the dimension simply takes over the key, the searches have no side condition.\<close>

locale keyed_laws = keyed_order_laws ops dim key
  for ops :: "('t, 's) summary_ops" and dim :: "('s, 'k::linorder) dimension" and key :: "'t \<Rightarrow> 'k" +
  assumes dm_add_item: "dm_add dim d (sm_item ops x) = key x"
begin

lemma ends_any: "seek_ends ops dim d xs = map key xs"
  by (induction xs arbitrary: d) (simp_all add: dm_add_item)

lemma ordered_any:
  assumes "keys_sorted key xs"
  shows "seek_ordered ops dim (target_of k) b d xs"
proof (cases b)
  case BLeft
  show ?thesis using assms unfolding seek_ordered_def ends_any BLeft past_key
    by (induction xs) (auto simp: keys_sorted_Cons)
next
  case BRight
  show ?thesis using assms unfolding seek_ordered_def ends_any BRight past_key_right
    by (induction xs) (auto simp: keys_sorted_Cons)
qed

lemma split_any:
  "seek_take ops dim (target_of k) BLeft d xs = below key k xs"
  "seek_drop ops dim (target_of k) BLeft d xs = from_key key k xs"
  by (induction xs arbitrary: d) (simp_all add: below_def from_key_def past_key dm_add_item)

end

section \<open>The operations as updates of a map\<close>

lemma keys_sorted_insert:
  "keys_sorted key xs \<Longrightarrow> keys_sorted key (below key (key x) xs @ x # above key (key x) xs)"
  using keys_sorted_from [of key xs "key x"] set_below [of _ key "key x" xs] set_above [of key xs _ "key x"]
  by (fastforce simp: keys_sorted_append keys_sorted_Cons)

lemma keys_sorted_remove:
  "keys_sorted key xs \<Longrightarrow> keys_sorted key (below key k xs @ above key k xs)"
  using keys_sorted_from [of key xs k] set_below [of _ key k xs] set_above [of key xs _ k]
  by (fastforce simp: keys_sorted_append)

lemma key_map_find: "keys_sorted key xs \<Longrightarrow> find_key key k xs = key_map key xs k"
  using key_map_split [of key xs k k] by simp

lemma key_map_below: "\<not> j < k \<Longrightarrow> key_map key (below key k xs) j = None"
  using set_below [of _ key k xs] by (auto simp: key_map_None)

lemma key_map_above: "keys_sorted key xs \<Longrightarrow> \<not> k < j \<Longrightarrow> key_map key (above key k xs) j = None"
  using set_above [of key xs _ k] by (auto simp: key_map_None)

lemma key_map_insert:
  assumes "keys_sorted key xs"
  shows "key_map key (below key (key x) xs @ x # above key (key x) xs) = (key_map key xs)(key x \<mapsto> x)"
proof
  fix j
  show "key_map key (below key (key x) xs @ x # above key (key x) xs) j = ((key_map key xs)(key x \<mapsto> x)) j"
    using key_map_below [of j "key x" key xs] key_map_above [OF assms, of "key x" j]
      key_map_split [OF assms, of j "key x"]
    by (auto simp: key_map_append map_add_def split: option.splits)
qed

lemma key_map_remove:
  assumes "keys_sorted key xs"
  shows "key_map key (below key k xs @ above key k xs) = (key_map key xs)(k := None)"
proof
  fix j
  show "key_map key (below key k xs @ above key k xs) j = ((key_map key xs)(k := None)) j"
    using key_map_below [of j k key xs] key_map_above [OF assms, of k j] key_map_split [OF assms, of j k]
    by (auto simp: key_map_append map_add_def split: option.splits)
qed

fun apply_edit :: "('t \<Rightarrow> 'k) \<Rightarrow> ('t, 'k) edit \<Rightarrow> ('k \<Rightarrow> 't option) \<Rightarrow> 'k \<Rightarrow> 't option" where
  "apply_edit key (Insert x) m = m(key x \<mapsto> x)"
| "apply_edit key (Remove k) m = m(k := None)"

lemma set_edit_list:
  "keys_sorted key xs \<Longrightarrow> keys_sorted (edit_key key) es \<Longrightarrow> x \<in> set (edit_list key es xs) \<Longrightarrow>
   x \<in> set xs \<or> Insert x \<in> set es"
proof (induction key es xs rule: edit_list.induct)
  case (2 key e es xs)
  let ?k = "edit_key key e"
  have sub: "x \<in> set (below key ?k xs) \<Longrightarrow> x \<in> set xs" "x \<in> set (above key ?k xs) \<Longrightarrow> x \<in> set xs" for x
    using below_from [of key ?k xs] find_above [of key ?k xs] by (metis Un_iff set_append)+
  show ?case
    using 2 keys_sorted_from(3) [OF 2(2), of ?k] sub by (auto simp: keys_sorted_Cons split: edit.splits)
qed simp

lemma keys_sorted_edit:
  "keys_sorted key xs \<Longrightarrow> keys_sorted (edit_key key) es \<Longrightarrow> keys_sorted key (edit_list key es xs)"
proof (induction key es xs rule: edit_list.induct)
  case (2 key e es xs)
  let ?k = "edit_key key e"
  have es: "keys_sorted (edit_key key) es" "\<forall>e' \<in> set es. ?k < edit_key key e'"
    using 2(3) by (simp_all add: keys_sorted_Cons)
  have later: "?k < key x" if "x \<in> set (edit_list key es (above key ?k xs))" for x
    using set_edit_list [OF keys_sorted_from(3) [OF 2(2)] es(1) that] set_above [OF 2(2), of x ?k] es(2) by fastforce
  have "keys_sorted key (edit_list key es (above key ?k xs))"
    using 2(1) [OF keys_sorted_from(3) [OF 2(2)] es(1)] .
  with keys_sorted_from(1) [OF 2(2), of ?k] later set_below [of _ key ?k xs] show ?case
    by (cases e) (fastforce simp: keys_sorted_append keys_sorted_Cons)+
qed simp

lemma key_map_edit:
  "keys_sorted key xs \<Longrightarrow> keys_sorted (edit_key key) es \<Longrightarrow>
   key_map key (edit_list key es xs) = fold (apply_edit key) es (key_map key xs)"
proof (induction key es xs rule: edit_list.induct)
  case (2 key e es xs)
  let ?k = "edit_key key e" and ?later = "edit_list key es (above key (edit_key key e) xs)"
  have es: "keys_sorted (edit_key key) es" "\<forall>e' \<in> set es. ?k < edit_key key e'"
    using 2(3) by (simp_all add: keys_sorted_Cons)
  have other: "fold (apply_edit key) es m j = m j" if "\<forall>e' \<in> set es. j \<noteq> edit_key key e'" for m j
    using that
  proof (induction es arbitrary: m)
    case (Cons e es)
    then show ?case by (cases e) auto
  qed simp
  have point: "fold (apply_edit key) es m j = fold (apply_edit key) es m' j" if "m j = m' j" for m m' j
    using that
  proof (induction es arbitrary: m m')
    case (Cons e es)
    have "apply_edit key e m j = apply_edit key e m' j" using Cons.prems by (cases e) auto
    then have "fold (apply_edit key) es (apply_edit key e m) j = fold (apply_edit key) es (apply_edit key e m') j"
      by (rule Cons.IH)
    then show ?case by simp
  qed simp
  have ih: "key_map key ?later = fold (apply_edit key) es (key_map key (above key ?k xs))"
    using 2(1) [OF keys_sorted_from(3) [OF 2(2)] es(1)] .
  show ?case
  proof
    fix j
    let ?new = "case e of Insert x \<Rightarrow> [x] | Remove _ \<Rightarrow> []"
    consider "j < ?k" | "j = ?k" | "?k < j" by fastforce
    then show "key_map key (edit_list key (e # es) xs) j = fold (apply_edit key) (e # es) (key_map key xs) j"
    proof cases
      case 1
      then have "\<forall>e' \<in> set es. j \<noteq> edit_key key e'" using es(2) by auto
      then have skip: "fold (apply_edit key) es m j = m j" for m by (rule other)
      moreover from skip have "key_map key ?later j = None" using ih key_map_above [OF 2(2), of ?k j] 1 by simp
      moreover have "key_map key ?new j = None" using 1 by (cases e) auto
      moreover have "apply_edit key e m j = m j" for m using 1 by (cases e) auto
      moreover have "key_map key xs j = key_map key (below key ?k xs) j" using key_map_split [OF 2(2), of j ?k] 1 by simp
      ultimately show ?thesis by (simp add: key_map_append map_add_def split: option.splits)
    next
      case 2
      then have "\<forall>e' \<in> set es. j \<noteq> edit_key key e'" using es(2) by auto
      then have skip: "fold (apply_edit key) es m j = m j" for m by (rule other)
      moreover from skip have "key_map key ?later j = None" using ih key_map_above [OF \<open>keys_sorted key xs\<close>, of ?k j] 2 by simp
      moreover have "key_map key (below key ?k xs) j = None" using 2 by (simp add: key_map_below)
      moreover have "apply_edit key e m j = key_map key ?new j" for m using 2 by (cases e) auto
      ultimately show ?thesis by (simp add: key_map_append map_add_def split: option.splits)
    next
      case 3
      have "key_map key (below key ?k xs) j = None" "key_map key ?new j = None"
        using 3 by (simp add: key_map_below, cases e) auto
      moreover have "fold (apply_edit key) es (key_map key (above key ?k xs)) j =
          fold (apply_edit key) es (apply_edit key e (key_map key xs)) j"
        by (rule point) (use 3 key_map_split [OF \<open>keys_sorted key xs\<close>, of j ?k] in \<open>cases e; auto\<close>)
      ultimately show ?thesis
        using ih by (simp add: key_map_append map_add_def split: option.splits)
    qed
  qed
qed simp

text \<open>Inserting a batch of items with distinct keys.\<close>

lemma key_map_unique: "distinct (map key xs) \<Longrightarrow> x \<in> set xs \<Longrightarrow> key_map key xs (key x) = Some x"
  by (induction xs) (auto simp: rev_image_eqI)

lemma key_map_mset:
  assumes "distinct (map key xs)" "distinct (map key ys)" "set xs = set ys"
  shows "key_map key xs = key_map key ys"
proof
  fix k
  show "key_map key xs k = key_map key ys k"
  proof (cases "\<exists>x \<in> set xs. key x = k")
    case True
    then obtain x where "x \<in> set xs" "x \<in> set ys" "key x = k" using assms(3) by blast
    with key_map_unique [OF assms(1)] key_map_unique [OF assms(2)] show ?thesis by metis
  next
    case False
    then have "key_map key xs k = None" "key_map key ys k = None" using assms(3) by (auto simp: key_map_None)
    then show ?thesis by simp
  qed
qed

lemma fold_inserts: "fold (apply_edit key) (map Insert ys) m = m ++ key_map key (rev ys)"
  by (induction ys arbitrary: m) (auto simp: key_map_append map_add_def fun_eq_iff split: option.splits)

lemma insort_inserts: "insort_key (edit_key key) (Insert y) (map Insert ys) = map Insert (insort_key key y ys)"
  by (induction ys) simp_all

lemma sort_inserts: "sort_key (edit_key key) (map Insert ys) = map Insert (sort_key key ys)"
  by (induction ys) (simp_all add: insort_inserts)

context keyed_order_laws
begin

lemma seek_new:
  assumes "st_wf ops t" "st_height t < 16" "keys_sorted key (st_items t)"
  shows "\<exists>c f. cu_seek dim (target_of k) BLeft (cu_new dim t) = Some (c, f) \<and>
    cu_view ops dim c (below key k (st_items t)) (from_key key k (st_items t))"
proof -
  have low: "\<forall>x \<in> set (st_items t). dm_zero dim \<le> key x" by (simp add: zero_least)
  have "target_of k (dm_zero dim) \<noteq> Less" by (rule not_less_target [OF zero_least])
  from cu_seek_at [where target = "target_of k" and b = BLeft, OF cu_at_new [OF assms(1,2)] _ this refl refl]
  show ?thesis using ordered_key [OF assms(3) low] split_key [OF assms(3) low] by auto
qed

lemma edit_inserts:
  assumes "st_wf ops t" "st_height t < 16" "keys_sorted key (st_items t)" "distinct (map key ys)"
  shows "\<exists>t' removed. st_edit ops dim key t (map Insert ys) = Some (t', removed) \<and> st_wf ops t' \<and>
    keys_sorted key (st_items t') \<and> key_map key (st_items t') = key_map key (st_items t) ++ key_map key ys"
proof -
  let ?es = "sort_key (edit_key key) (map Insert ys)"
  have keys: "map (edit_key key) (map Insert ys) = map key ys" by simp
  have dist: "distinct (map (edit_key key) (map Insert ys))" unfolding keys by (rule assms(4))
  have es: "keys_sorted (edit_key key) ?es" by (rule keys_sorted_sort [OF dist])
  have "distinct (map key (rev (sort_key key ys)))"
    using assms(4) by (simp add: rev_map distinct_map)
  then have "key_map key (rev (sort_key key ys)) = key_map key ys" by (rule key_map_mset) (simp_all add: assms(4))
  then have fold: "fold (apply_edit key) ?es m = m ++ key_map key ys" for m
    unfolding sort_inserts fold_inserts by simp
  from edit [OF assms(1-3) dist] obtain t' where t': "st_edit ops dim key t (map Insert ys) =
      Some (t', edit_removed key ?es (st_items t))" "st_wf ops t'" "st_items t' = edit_list key ?es (st_items t)" by blast
  have "key_map key (st_items t') = key_map key (st_items t) ++ key_map key ys"
    unfolding t'(3) key_map_edit [OF assms(3) es] fold ..
  with t' keys_sorted_edit [OF assms(3) es] show ?thesis by auto
qed

end

section \<open>The cursor as an iterator\<close>

text \<open>\<open>Iterator for Cursor\<close>.\<close>

definition cu_iter_next ::
    "('s, 'd) dimension \<Rightarrow> ('t, 's, 'd) cursor \<Rightarrow> ('t option \<times> ('t, 's, 'd) cursor) option" where
  "cu_iter_next dim c = do {
     c \<leftarrow> (if \<not> cu_did_seek c then cu_next dim c else Some c);
     item \<leftarrow> cu_item c;
     (case item of
        Some x \<Rightarrow> do { c \<leftarrow> cu_next dim c; Some (Some x, c) }
      | None \<Rightarrow> Some (None, c)) }"

context dimension_laws
begin

lemma cu_iter_next_view:
  "cu_view ops dim c before [] \<Longrightarrow> cu_iter_next dim c = Some (None, c)"
  "cu_view ops dim c before (x # rest) \<Longrightarrow>
     \<exists>c'. cu_iter_next dim c = Some (Some x, c') \<and> cu_view ops dim c' (before @ [x]) rest"
proof -
  show "cu_iter_next dim c = Some (None, c)" if view: "cu_view ops dim c before []"
    using cu_view_item(1) [OF view] view by (simp add: cu_iter_next_def cu_view_def list_first_def)
  show "\<exists>c'. cu_iter_next dim c = Some (Some x, c') \<and> cu_view ops dim c' (before @ [x]) rest"
    if view: "cu_view ops dim c before (x # rest)"
  proof -
    obtain c' where "cu_next dim c = Some c'" "cu_view ops dim c' (before @ [x]) rest"
      using next_at(2) [OF view] by blast
    moreover have "cu_did_seek c" using view by (simp add: cu_view_def)
    ultimately show ?thesis using cu_view_item(1) [OF view] by (simp add: cu_iter_next_def list_first_def)
  qed
qed

end

end
