(* ===== verification/Zed_SumTree_Iter.thy ===== *)
theory Zed_SumTree_Iter
  imports Zed_SumTree_Prev
begin

text \<open>
  The plain iterator \<open>Iter\<close> of \<open>crates/sum_tree/src/cursor.rs\<close>, a stack without positions and
  flags, and its simulation by the cursor: collecting it gives the items of the tree.
\<close>

definition iter_step ::
    "('t, 's, unit) stack_entry list \<times> bool \<Rightarrow>
       (('t, 's, unit) stack_entry list \<times> bool + 't option \<times> ('t, 's, unit) stack_entry list) option" where
  "iter_step = (\<lambda>(stk, descend).
     (case stk of
        [] \<Rightarrow> Some (Inr (None, []))
      | e # rest \<Rightarrow>
          (let e = (if \<not> descend then e\<lparr>se_index := se_index e + 1\<rparr> else e) in
           (case se_tree e of
              Internal _ _ _ ts \<Rightarrow>
                (if se_index e < length ts then do {
                   stk \<leftarrow> stack_push \<lparr>se_tree = ts ! se_index e, se_index = 0, se_position = ()\<rparr> (e # rest);
                   Some (Inl (stk, True)) }
                 else Some (Inl (rest, False)))
            | Leaf _ xs _ \<Rightarrow>
                (if se_index e < length xs then Some (Inr (Some (xs ! se_index e), e # rest))
                 else Some (Inl (rest, False)))))))"

partial_function (option) iter_loop ::
    "('t, 's, unit) stack_entry list \<times> bool \<Rightarrow> ('t option \<times> ('t, 's, unit) stack_entry list) option" where
  [code]: "iter_loop st = do {
     r \<leftarrow> iter_step st;
     (case r of Inl st' \<Rightarrow> iter_loop st' | Inr res \<Rightarrow> Some res) }"

definition iter_next ::
    "('t, 's) sum_tree \<Rightarrow> ('t, 's, unit) stack_entry list \<Rightarrow>
       ('t option \<times> ('t, 's, unit) stack_entry list) option" where
  "iter_next t stk =
     (if stk = [] then do {
        stk \<leftarrow> stack_push \<lparr>se_tree = t, se_index = 0, se_position = ()\<rparr> stk;
        iter_loop (stk, True) }
      else iter_loop (stk, False))"

partial_function (option) iter_collect_loop ::
    "('t, 's) sum_tree \<Rightarrow> ('t, 's, unit) stack_entry list \<Rightarrow> 't list \<Rightarrow> 't list option" where
  [code]: "iter_collect_loop t stk xs = do {
     (item, stk) \<leftarrow> iter_next t stk;
     (case item of None \<Rightarrow> Some xs | Some x \<Rightarrow> iter_collect_loop t stk (xs @ [x])) }"

definition st_iter :: "('t, 's) sum_tree \<Rightarrow> 't list option" where
  "st_iter t = iter_collect_loop t [] []"

text \<open>The stacked trees are well-formed nodes.\<close>

definition stack_nodes :: "('t, 's) summary_ops \<Rightarrow> ('t, 's, unit) stack_entry list \<Rightarrow> bool" where
  "stack_nodes ops stk \<longleftrightarrow> (\<forall>e \<in> set stk. st_node ops (se_tree e))"

lemma skip_true: "skip_rejected dim (\<lambda>_. True) epos pos i ss = (epos, pos, i)"
  by (cases ss) simp_all

lemma forward_step_iter:
  assumes "stack_nodes ops (cu_stack c)" "forward_step dim_unit (\<lambda>_. True) (c, d) = Some r"
  shows "case r of
      Inl (c', d') \<Rightarrow> iter_step (cu_stack c, d) = Some (Inl (cu_stack c', d')) \<and> stack_nodes ops (cu_stack c')
    | Inr c' \<Rightarrow> \<exists>x. iter_step (cu_stack c, d) = Some (Inr (x, cu_stack c')) \<and> stack_nodes ops (cu_stack c') \<and>
        x = (case cu_stack c' of e # _ \<Rightarrow> Some (st_items (se_tree e) ! se_index e) | [] \<Rightarrow> None)"
proof (cases "cu_stack c")
  case Nil
  with assms show ?thesis by (auto simp: forward_step_def iter_step_def)
next
  case (Cons e stk)
  then have n: "st_node ops (se_tree e)" using assms(1) by (auto simp: stack_nodes_def)
  have stk: "stack_nodes ops stk" using assms(1) Cons by (simp add: stack_nodes_def)
  show ?thesis
  proof (cases "se_tree e")
    case (Internal h s ss ts)
    have child: "st_node ops (ts ! i)" if "i < length ts" for i using n Internal that by auto
    have pos: "e\<lparr>se_position := (), se_index := i\<rparr> = e\<lparr>se_index := i\<rparr>"
      "e\<lparr>se_index := i, se_position := ()\<rparr> = e\<lparr>se_index := i\<rparr>" for i by (cases e; simp)+
    show ?thesis
      using assms(2) Cons Internal n stk child
      by (cases d) (auto simp: forward_step_def iter_step_def skip_true stack_push_def pos stack_nodes_def Let_def
          split: if_splits)
  next
    case (Leaf s xs ss)
    then have ss: "length ss = length xs" using n by simp
    have pos: "e\<lparr>se_index := i, se_position := ()\<rparr> = e\<lparr>se_index := i\<rparr>" "e\<lparr>se_index := se_index e\<rparr> = e" for i
      by (cases e; simp)+
    show ?thesis
      using assms(2) Cons Leaf n stk ss
      by (cases d) (auto simp: forward_step_def iter_step_def skip_true pos stack_nodes_def Let_def split: if_splits)
  qed
qed

definition iter_simulates ::
    "('t, 's) summary_ops \<Rightarrow> ('s, unit) dimension \<Rightarrow> ('s \<Rightarrow> bool) \<Rightarrow> ('t, 's, unit) cursor \<times> bool \<Rightarrow>
       ('t, 's, unit) cursor \<Rightarrow> bool" where
  "iter_simulates ops dim F st c' \<longleftrightarrow>
     (dim = dim_unit \<longrightarrow> F = (\<lambda>_. True) \<longrightarrow> stack_nodes ops (cu_stack (fst st)) \<longrightarrow>
        iter_loop (cu_stack (fst st), snd st) =
          Some (case cu_stack c' of e # _ \<Rightarrow> Some (st_items (se_tree e) ! se_index e) | [] \<Rightarrow> None, cu_stack c') \<and>
        stack_nodes ops (cu_stack c'))"

lemma forward_loop_iter:
  fixes ops :: "('t, 's) summary_ops"
  shows "forward_loop dim F st = Some c' \<Longrightarrow> iter_simulates ops dim F st c'"
proof (rule forward_loop.raw_induct [where P = "iter_simulates ops"])
  fix loop :: "('s, unit) dimension \<Rightarrow> ('s \<Rightarrow> bool) \<Rightarrow> ('t, 's, unit) cursor \<times> bool \<Rightarrow> ('t, 's, unit) cursor option"
    and dim F st c'
  assume ih: "\<And>dim F st c'. loop dim F st = Some c' \<Longrightarrow> iter_simulates ops dim F st c'"
    and body: "do { r \<leftarrow> forward_step dim F st;
      (case r of Inl st' \<Rightarrow> loop dim F st' | Inr c \<Rightarrow> Some c) } = Some c'"
  show "iter_simulates ops dim F st c'"
    unfolding iter_simulates_def
  proof (intro impI)
    assume a: "dim = dim_unit" "F = (\<lambda>_. True)" "stack_nodes ops (cu_stack (fst st))"
    obtain c d where st: "st = (c, d)" by (cases st)
    obtain r where r: "forward_step dim_unit (\<lambda>_. True) (c, d) = Some r"
      using body st a by (auto simp: bind_eq_Some_conv)
    note step = forward_step_iter [OF a(3) [unfolded st fst_conv] r]
    show "iter_loop (cu_stack (fst st), snd st) =
          Some (case cu_stack c' of e # _ \<Rightarrow> Some (st_items (se_tree e) ! se_index e) | [] \<Rightarrow> None, cu_stack c') \<and>
        stack_nodes ops (cu_stack c')"
    proof (cases r)
      case (Inl s)
      then obtain c1 d1 where s: "r = Inl (c1, d1)" by (cases s) auto
      then have "loop dim F (c1, d1) = Some c'" using body r st a by simp
      from ih [OF this] step s a show ?thesis
        by (subst iter_loop.simps) (simp add: st iter_simulates_def)
    next
      case (Inr c1)
      then have "c1 = c'" using body r st a by simp
      with Inr step st show ?thesis by (subst iter_loop.simps) auto
    qed
  qed
qed

lemma parents_nodes:
  "parents_ok ops dim root ps t \<Longrightarrow> st_node ops root \<Longrightarrow> stack_nodes ops ps"
proof (induction ps arbitrary: t)
  case (Cons p ps)
  then show ?case using parents_ok_node [of ops dim root ps "se_tree p"] by (fastforce simp: stack_nodes_def)
qed (simp add: stack_nodes_def)

context summary_laws
begin

lemma view_stack:
  assumes "cu_view ops dim_unit c before rest" "st_node ops (cu_tree c)"
  shows "stack_nodes ops (cu_stack c) \<and>
    (case cu_stack c of e # _ \<Rightarrow> Some (st_items (se_tree e) ! se_index e) | [] \<Rightarrow> None) = list_first rest"
proof (cases "rest = []")
  case True
  with assms show ?thesis by (simp add: cu_view_def stack_nodes_def list_first_def)
next
  case False
  then have "on_item ops dim_unit c before rest" using assms(1) by (simp add: cu_view_def)
  then obtain e ps where e: "cu_stack c = e # ps" "parents_ok ops dim_unit (cu_tree c) ps (se_tree e)"
      "se_index e < length (st_items (se_tree e))"
      "rest = drop (se_index e) (st_items (se_tree e)) @ stack_after ps"
    by (auto simp: on_item_def)
  then have "list_first rest = Some (st_items (se_tree e) ! se_index e)"
    by (simp add: list_first_def flip: Cons_nth_drop_Suc)
  with e parents_nodes [OF e(2) assms(2)] parents_ok_node [OF e(2) assms(2)] show ?thesis
    by (simp add: stack_nodes_def)
qed

lemma iter_next_view:
  assumes "cu_view ops dim_unit c before (x # rest)" "st_node ops (cu_tree c)"
  shows "\<exists>c'. iter_next (cu_tree c) (cu_stack c) = Some (list_first rest, cu_stack c') \<and> cu_tree c' = cu_tree c \<and>
    cu_view ops dim_unit c' (before @ [x]) rest"
proof -
  obtain c' where c': "cu_next dim_unit c = Some c'" "cu_tree c' = cu_tree c" "cu_view ops dim_unit c' (before @ [x]) rest"
    using unit_dim.next_at(2) [OF assms(1)] by blast
  have "cu_stack c \<noteq> []" using assms(1) by (auto simp: cu_view_def on_item_def)
  with c'(1) have "forward_loop dim_unit (\<lambda>_. True) (c, False) = Some c'"
    by (simp add: cu_next_def cu_search_forward_def)
  from forward_loop_iter [OF this, of ops] have "iter_loop (cu_stack c, False) = Some (list_first rest, cu_stack c')"
    using view_stack [OF assms] view_stack [OF c'(3)] assms(2) c'(2) by (simp add: iter_simulates_def)
  with \<open>cu_stack c \<noteq> []\<close> c' show ?thesis unfolding iter_next_def by auto
qed

lemma iter_collect_view:
  "cu_view ops dim_unit c before (x # rest) \<Longrightarrow> st_node ops (cu_tree c) \<Longrightarrow>
   iter_collect_loop (cu_tree c) (cu_stack c) xs = Some (xs @ rest)"
proof (induction rest arbitrary: c before x xs)
  case Nil
  from iter_next_view [OF Nil] show ?case
    by (subst iter_collect_loop.simps) (auto simp: list_first_def)
next
  case (Cons y rest)
  from iter_next_view [OF Cons.prems] obtain c' where
    c': "iter_next (cu_tree c) (cu_stack c) = Some (Some y, cu_stack c')" "cu_tree c' = cu_tree c"
      "cu_view ops dim_unit c' (before @ [x]) (y # rest)" by (auto simp: list_first_def)
  from Cons.IH [OF c'(3), of "xs @ [y]"] c' Cons.prems(2) show ?case
    by (subst iter_collect_loop.simps) simp
qed

lemma iter:
  assumes "st_wf ops t" "st_height t < 16"
  shows "st_iter t = Some (st_items t)"
proof (cases "t = st_new ops")
  case True
  have "iter_next t [] = Some (None, [])"
    using True by (simp add: iter_next_def stack_push_def)
      (subst iter_loop.simps, simp add: iter_step_def st_new_def, subst iter_loop.simps, simp add: iter_step_def)
  with True show ?thesis by (simp add: st_iter_def) (subst iter_collect_loop.simps, simp)
next
  case False
  then have n: "st_node ops t" using assms(1) by (simp add: st_wf_def)
  let ?c = "cu_new dim_unit t"
  have f: "cu_fresh ops dim_unit ?c" using assms by (simp add: cu_fresh_def cu_new_def)
  obtain c' where c': "cu_next dim_unit ?c = Some c'" "cu_tree c' = t" "cu_view ops dim_unit c' [] (st_items t)"
    using unit_dim.next_at(1) [OF disjI1 [OF f]] by (auto simp: cu_new_def)
  let ?root = "\<lparr>se_tree = t, se_index = 0, se_position = ()\<rparr>"
  have "forward_loop dim_unit (\<lambda>_. True) (?c\<lparr>cu_stack := [?root], cu_did_seek := True\<rparr>, True) = Some c'"
    using c'(1) st_node_not_empty [OF n]
    by (simp add: cu_next_def cu_search_forward_def cu_new_def stack_push_def)
  from forward_loop_iter [OF this, of ops] have "iter_loop ([?root], True) = Some (list_first (st_items t), cu_stack c')"
    using view_stack [OF c'(3)] n c'(2) by (simp add: iter_simulates_def stack_nodes_def)
  then have next1: "iter_next t [] = Some (list_first (st_items t), cu_stack c')"
    by (simp add: iter_next_def stack_push_def)
  obtain x xs where xs: "st_items t = x # xs" using st_node_items_ne [OF n] by (cases "st_items t") auto
  have "iter_collect_loop t (cu_stack c') [x] = Some ([x] @ xs)"
    using iter_collect_view [of c' "[]" x xs "[x]"] c' n xs by simp
  with next1 xs show ?thesis
    by (simp add: st_iter_def) (subst iter_collect_loop.simps, simp add: list_first_def)
qed

end

end
