(* ===== verification/Zed_TreeMap.thy ===== *)
theory Zed_TreeMap
  imports Zed_SumTree_Keyed Zed_SumTree_Iter "HOL-Library.Option_ord"
begin

text \<open>
  \<open>TreeMap\<close> and \<open>TreeSet\<close> of \<open>crates/sum_tree/src/tree_map.rs\<close>: a sum tree of key-value
  entries whose summary is the last key.  \<open>MapKey\<close> and \<open>MapKeyRef\<close> are both the option of a key,
  ordered with \<open>None\<close> first.  The abstraction is the map from keys to values.
\<close>

section \<open>Entries and their summary\<close>

record ('k, 'v) map_entry =
  me_key :: 'k
  me_value :: 'v

type_synonym ('k, 'v) tree_map = "(('k, 'v) map_entry, 'k option) sum_tree"

definition entry_key :: "('k, 'v) map_entry \<Rightarrow> 'k option" where
  "entry_key e = Some (me_key e)"

definition map_key_ops :: "(('k, 'v) map_entry, 'k option) summary_ops" where
  "map_key_ops = \<lparr>sm_zero = None, sm_add = \<lambda>_ s. s, sm_item = entry_key\<rparr>"

definition map_key_dim :: "('k option, 'k option) dimension" where
  "map_key_dim = \<lparr>dm_zero = None, dm_add = \<lambda>_ s. s\<rparr>"

definition mk_entry :: "'k \<Rightarrow> 'v \<Rightarrow> ('k, 'v) map_entry" where
  "mk_entry k v = \<lparr>me_key = k, me_value = v\<rparr>"

definition pair_of :: "('k, 'v) map_entry \<Rightarrow> 'k \<times> 'v" where
  "pair_of e = (me_key e, me_value e)"

text \<open>A \<open>MapSeekTarget\<close> compares itself with a key; before the first entry the adaptor is beyond.\<close>

definition target_adaptor :: "('k \<Rightarrow> ordering) \<Rightarrow> 'k option seek_target" where
  "target_adaptor f = (\<lambda>location. case location of Some key \<Rightarrow> f key | None \<Rightarrow> Greater)"

section \<open>The operations\<close>

definition tm_new :: "('k, 'v) tree_map" where
  "tm_new = st_new map_key_ops"

definition tm_from_ordered_entries :: "('k \<times> 'v) list \<Rightarrow> ('k, 'v) tree_map option" where
  "tm_from_ordered_entries kvs = st_from_iter map_key_ops (map (\<lambda>(k, v). mk_entry k v) kvs)"

definition tm_is_empty :: "('k, 'v) tree_map \<Rightarrow> bool" where
  "tm_is_empty t = st_is_empty t"

definition tm_get :: "('k::linorder, 'v) tree_map \<Rightarrow> 'k \<Rightarrow> 'v option" where
  "tm_get t key =
     (case st_find map_key_dim t (target_of (Some key)) BLeft of
        (_, _, Some item) \<Rightarrow> (if Some key = entry_key item then Some (me_value item) else None)
      | (_, _, None) \<Rightarrow> None)"

definition tm_contains_key :: "('k::linorder, 'v) tree_map \<Rightarrow> 'k \<Rightarrow> bool" where
  "tm_contains_key t key \<longleftrightarrow> tm_get t key \<noteq> None"

definition tm_insert_or_replace ::
    "('k::linorder, 'v) tree_map \<Rightarrow> 'k \<Rightarrow> 'v \<Rightarrow> (('k, 'v) tree_map \<times> 'v option) option" where
  "tm_insert_or_replace t key value = do {
     (t, replaced) \<leftarrow> st_insert_or_replace map_key_ops map_key_dim entry_key t (mk_entry key value);
     Some (t, map_option me_value replaced) }"

definition tm_insert :: "('k::linorder, 'v) tree_map \<Rightarrow> 'k \<Rightarrow> 'v \<Rightarrow> ('k, 'v) tree_map option" where
  "tm_insert t key value = do {
     (t, _) \<leftarrow> st_insert_or_replace map_key_ops map_key_dim entry_key t (mk_entry key value);
     Some t }"

definition tm_extend :: "('k::linorder, 'v) tree_map \<Rightarrow> ('k \<times> 'v) list \<Rightarrow> ('k, 'v) tree_map option" where
  "tm_extend t kvs = do {
     (t, _) \<leftarrow> st_edit map_key_ops map_key_dim entry_key t (map (\<lambda>(k, v). Insert (mk_entry k v)) kvs);
     Some t }"

definition tm_clear :: "('k, 'v) tree_map \<Rightarrow> ('k, 'v) tree_map" where
  "tm_clear t = tm_new"

definition tm_remove :: "('k::linorder, 'v) tree_map \<Rightarrow> 'k \<Rightarrow> (('k, 'v) tree_map \<times> 'v option) option" where
  "tm_remove t key = do {
     let target = target_of (Some key);
     (c, new_tree) \<leftarrow> cu_slice map_key_ops map_key_dim target BLeft (cu_new map_key_dim t);
     e \<leftarrow> cu_end map_key_dim c;
     (c, removed) \<leftarrow>
       (if target e = Equal then do {
          item \<leftarrow> cu_item c;
          item \<leftarrow> item;
          c \<leftarrow> cu_next map_key_dim c;
          Some (c, Some (me_value item)) }
        else Some (c, None));
     (_, suffix) \<leftarrow> cu_suffix map_key_ops map_key_dim c;
     new_tree \<leftarrow> st_append map_key_ops new_tree suffix;
     Some (new_tree, removed) }"

definition tm_remove_range ::
    "('k::linorder, 'v) tree_map \<Rightarrow> ('k \<Rightarrow> ordering) \<Rightarrow> ('k \<Rightarrow> ordering) \<Rightarrow> ('k, 'v) tree_map option" where
  "tm_remove_range t start end = do {
     (c, new_tree) \<leftarrow> cu_slice map_key_ops map_key_dim (target_adaptor start) BLeft (cu_new map_key_dim t);
     (c, _) \<leftarrow> cu_seek map_key_dim (target_adaptor end) BLeft c;
     (_, suffix) \<leftarrow> cu_suffix map_key_ops map_key_dim c;
     st_append map_key_ops new_tree suffix }"

definition tm_closest :: "('k::linorder, 'v) tree_map \<Rightarrow> 'k \<Rightarrow> ('k \<times> 'v) option option" where
  "tm_closest t key = do {
     (c, _) \<leftarrow> cu_seek map_key_dim (target_of (Some key)) BRight (cu_new map_key_dim t);
     c \<leftarrow> cu_prev map_key_dim c;
     item \<leftarrow> cu_item c;
     Some (map_option pair_of item) }"

text \<open>The cursor as an iterator, collected.\<close>

partial_function (option) cu_collect ::
    "('s, 'd) dimension \<Rightarrow> ('t, 's, 'd) cursor \<Rightarrow> 't list \<Rightarrow> 't list option" where
  [code]: "cu_collect dim c xs = do {
     c \<leftarrow> (if \<not> cu_did_seek c then cu_next dim c else Some c);
     item \<leftarrow> cu_item c;
     (case item of
        Some x \<Rightarrow> do { c \<leftarrow> cu_next dim c; cu_collect dim c (xs @ [x]) }
      | None \<Rightarrow> Some xs) }"

definition tm_iter_from :: "('k::linorder, 'v) tree_map \<Rightarrow> 'k \<Rightarrow> ('k \<times> 'v) list option" where
  "tm_iter_from t origin = do {
     (c, _) \<leftarrow> cu_seek map_key_dim (target_of (Some origin)) BLeft (cu_new map_key_dim t);
     es \<leftarrow> cu_collect map_key_dim c [];
     Some (map pair_of es) }"

definition tm_update ::
    "('k::linorder, 'v) tree_map \<Rightarrow> 'k \<Rightarrow> ('v \<Rightarrow> 'v \<times> 'r) \<Rightarrow> (('k, 'v) tree_map \<times> 'r option) option" where
  "tm_update t key f = do {
     let target = target_of (Some key);
     (c, new_tree) \<leftarrow> cu_slice map_key_ops map_key_dim target BLeft (cu_new map_key_dim t);
     e \<leftarrow> cu_end map_key_dim c;
     (c, new_tree, result) \<leftarrow>
       (if target e = Equal then do {
          item \<leftarrow> cu_item c;
          updated \<leftarrow> item;
          let (value, r) = f (me_value updated);
          new_tree \<leftarrow> st_push map_key_ops new_tree (updated\<lparr>me_value := value\<rparr>);
          c \<leftarrow> cu_next map_key_dim c;
          Some (c, new_tree, Some r) }
        else Some (c, new_tree, None));
     (_, suffix) \<leftarrow> cu_suffix map_key_ops map_key_dim c;
     new_tree \<leftarrow> st_append map_key_ops new_tree suffix;
     Some (new_tree, result) }"

partial_function (option) tm_retain_loop ::
    "('k \<Rightarrow> 'v \<Rightarrow> bool) \<Rightarrow> (('k, 'v) map_entry, 'k option, 'k option) cursor \<Rightarrow> ('k, 'v) tree_map \<Rightarrow>
       ('k, 'v) tree_map option" where
  [code]: "tm_retain_loop predicate c new_map = do {
     item \<leftarrow> cu_item c;
     (case item of
        None \<Rightarrow> Some new_map
      | Some x \<Rightarrow> do {
          new_map \<leftarrow> (if predicate (me_key x) (me_value x) then st_push map_key_ops new_map x else Some new_map);
          c \<leftarrow> cu_next map_key_dim c;
          tm_retain_loop predicate c new_map }) }"

definition tm_retain :: "('k, 'v) tree_map \<Rightarrow> ('k \<Rightarrow> 'v \<Rightarrow> bool) \<Rightarrow> ('k, 'v) tree_map option" where
  "tm_retain t predicate = do {
     c \<leftarrow> cu_next map_key_dim (cu_new map_key_dim t);
     tm_retain_loop predicate c tm_new }"

definition tm_iter :: "('k, 'v) tree_map \<Rightarrow> ('k \<times> 'v) list option" where
  "tm_iter t = map_option (map pair_of) (st_iter t)"

definition tm_values :: "('k, 'v) tree_map \<Rightarrow> 'v list option" where
  "tm_values t = map_option (map me_value) (st_iter t)"

definition tm_first :: "('k, 'v) tree_map \<Rightarrow> ('k \<times> 'v) option option" where
  "tm_first t = map_option (map_option pair_of) (st_first t)"

definition tm_last :: "('k, 'v) tree_map \<Rightarrow> ('k \<times> 'v) option option" where
  "tm_last t = map_option (map_option pair_of) (st_last t)"

definition tm_insert_tree :: "('k::linorder, 'v) tree_map \<Rightarrow> ('k, 'v) tree_map \<Rightarrow> ('k, 'v) tree_map option" where
  "tm_insert_tree t other = do {
     kvs \<leftarrow> tm_iter other;
     (t, _) \<leftarrow> st_edit map_key_ops map_key_dim entry_key t (map (\<lambda>(k, v). Insert (mk_entry k v)) kvs);
     Some t }"

subsection \<open>Sets\<close>

type_synonym 'k tree_set = "('k, unit) tree_map"

definition ts_from_ordered_entries :: "'k list \<Rightarrow> 'k tree_set option" where
  "ts_from_ordered_entries ks = tm_from_ordered_entries (map (\<lambda>k. (k, ())) ks)"

definition ts_insert :: "('k::linorder) tree_set \<Rightarrow> 'k \<Rightarrow> 'k tree_set option" where
  "ts_insert t k = tm_insert t k ()"

definition ts_remove :: "('k::linorder) tree_set \<Rightarrow> 'k \<Rightarrow> ('k tree_set \<times> bool) option" where
  "ts_remove t k = map_option (\<lambda>(t, r). (t, r \<noteq> None)) (tm_remove t k)"

definition ts_extend :: "('k::linorder) tree_set \<Rightarrow> 'k list \<Rightarrow> 'k tree_set option" where
  "ts_extend t ks = tm_extend t (map (\<lambda>k. (k, ())) ks)"

definition ts_contains :: "('k::linorder) tree_set \<Rightarrow> 'k \<Rightarrow> bool" where
  "ts_contains t k \<longleftrightarrow> tm_get t k \<noteq> None"

definition ts_iter :: "'k tree_set \<Rightarrow> 'k list option" where
  "ts_iter t = map_option (map fst) (tm_iter t)"

definition ts_iter_from :: "('k::linorder) tree_set \<Rightarrow> 'k \<Rightarrow> 'k list option" where
  "ts_iter_from t k = map_option (map fst) (tm_iter_from t k)"

section \<open>The keyed-tree contract holds for map entries\<close>

interpretation tm: keyed_laws map_key_ops map_key_dim entry_key
  by unfold_locales (simp_all add: map_key_ops_def map_key_dim_def)

text \<open>The invariant of a map, and the map it stands for.\<close>

definition tm_ok :: "('k::linorder, 'v) tree_map \<Rightarrow> bool" where
  "tm_ok t \<longleftrightarrow> st_wf map_key_ops t \<and> keys_sorted entry_key (st_items t)"

definition tm_abs :: "('k, 'v) tree_map \<Rightarrow> 'k \<Rightarrow> 'v option" where
  "tm_abs t = map_of (map pair_of (st_items t))"

lemma map_of_pairs: "map_of (map pair_of xs) k = map_option me_value (key_map entry_key xs (Some k))"
  by (induction xs) (auto simp: pair_of_def entry_key_def)

lemma tm_abs_key_map: "tm_abs t k = map_option me_value (key_map entry_key (st_items t) (Some k))"
  by (simp add: tm_abs_def map_of_pairs)

lemma tm_abs_find: "tm_ok t \<Longrightarrow> map_option me_value (find_key entry_key (Some k) (st_items t)) = tm_abs t k"
  by (simp add: tm_abs_key_map tm_ok_def key_map_find)

lemma tm_ok_new [simp]: "tm_ok tm_new"
  by (simp add: tm_ok_def tm_new_def)

lemma tm_abs_new [simp]: "tm_abs tm_new = Map.empty"
  by (simp add: tm_abs_def tm_new_def)

section \<open>The operations on the map\<close>

lemma tm_get_abs:
  assumes "tm_ok t"
  shows "tm_get t k = tm_abs t k"
proof -
  have wf: "st_wf map_key_ops t" "keys_sorted entry_key (st_items t)" using assms by (simp_all add: tm_ok_def)
  have "tm_get t k = map_option me_value (find_key entry_key (Some k) (st_items t))"
    using tm.find [OF wf(1) tm.ordered_any [OF wf(2)], of "Some k" BLeft]
    by (auto simp: tm_get_def seek_split_spec_def tm.split_any find_key_def Let_def split: list.splits)
  then show ?thesis by (simp add: tm_abs_find [OF assms])
qed

lemma tm_insert_abs:
  assumes "tm_ok t" "st_height t < 16"
  shows "\<exists>t'. tm_insert_or_replace t k v = Some (t', tm_abs t k) \<and> tm_insert t k v = Some t' \<and>
    tm_ok t' \<and> tm_abs t' = (tm_abs t)(k \<mapsto> v)"
proof -
  let ?e = "mk_entry k v" and ?xs = "st_items t"
  have wf: "st_wf map_key_ops t" "keys_sorted entry_key ?xs" using assms(1) by (simp_all add: tm_ok_def)
  have key: "entry_key ?e = Some k" "me_value ?e = v" by (simp_all add: entry_key_def mk_entry_def)
  obtain t' where t': "st_insert_or_replace map_key_ops map_key_dim entry_key t ?e =
      Some (t', find_key entry_key (Some k) ?xs)" "st_wf map_key_ops t'"
      "st_items t' = below entry_key (Some k) ?xs @ ?e # above entry_key (Some k) ?xs"
    using tm.insert_or_replace [OF wf(1) assms(2) wf(2), of ?e] key by auto
  have "keys_sorted entry_key (st_items t')"
    using keys_sorted_insert [OF wf(2), of ?e] t'(3) key by simp
  moreover have "key_map entry_key (st_items t') = (key_map entry_key ?xs)(Some k \<mapsto> ?e)"
    using key_map_insert [OF wf(2), of ?e] t'(3) key by simp
  then have "tm_abs t' = (tm_abs t)(k \<mapsto> v)" by (auto simp: tm_abs_key_map key)
  ultimately show ?thesis
    using t' tm_abs_find [OF assms(1), of k] by (simp add: tm_insert_or_replace_def tm_insert_def tm_ok_def)
qed

text \<open>After slicing up to a key, the cursor's end tells whether the key is present.\<close>

lemma slice_end:
  assumes "tm_ok t" "st_height t < 16"
  shows "\<exists>c n. cu_slice map_key_ops map_key_dim (target_of (Some k)) BLeft (cu_new map_key_dim t) = Some (c, n) \<and>
    cu_view map_key_ops map_key_dim c (below entry_key (Some k) (st_items t)) (from_key entry_key (Some k) (st_items t)) \<and>
    st_wf map_key_ops n \<and> st_items n = below entry_key (Some k) (st_items t) \<and>
    cu_item c = Some (list_first (from_key entry_key (Some k) (st_items t))) \<and>
    (\<exists>e. cu_end map_key_dim c = Some e \<and>
       (target_of (Some k) e = Equal \<longleftrightarrow> find_key entry_key (Some k) (st_items t) \<noteq> None))"
proof -
  let ?xs = "st_items t" and ?k = "Some k"
  have wf: "st_wf map_key_ops t" "keys_sorted entry_key ?xs" using assms(1) by (simp_all add: tm_ok_def)
  obtain c n where c: "cu_slice map_key_ops map_key_dim (target_of ?k) BLeft (cu_new map_key_dim t) = Some (c, n)"
    "cu_view map_key_ops map_key_dim c (below entry_key ?k ?xs) (from_key entry_key ?k ?xs)"
    "st_wf map_key_ops n" "st_items n = below entry_key ?k ?xs"
    using tm.slice_key [OF cu_at_new [OF wf(1) assms(2)], of ?k] wf(2) by auto
  have pos: "cu_position c = advance map_key_ops map_key_dim None (below entry_key ?k ?xs)"
    using cu_at_position [of map_key_ops map_key_dim c] c(2) by (auto simp: cu_at_def map_key_dim_def)
  have "advance map_key_ops map_key_dim None (below entry_key ?k ?xs) \<noteq> ?k"
  proof (cases "below entry_key ?k ?xs" rule: rev_cases)
    case (snoc ys y)
    then have "entry_key y < ?k" using set_below [of y entry_key ?k ?xs] by simp
    then show ?thesis using snoc by (auto simp: tm.dm_add_item)
  qed simp
  then have "\<exists>e. cu_end map_key_dim c = Some e \<and>
       (target_of ?k e = Equal \<longleftrightarrow> find_key entry_key ?k ?xs \<noteq> None)"
    using cu_view_item(2) [OF c(2)] pos
    by (auto simp: cu_end_def cu_start_def list_first_def find_key_def tm.target_equal tm.dm_add_item split: list.splits)
  then show ?thesis using c cu_view_item(1) [OF c(2)] by blast
qed

lemma view_after_find:
  assumes "cu_view map_key_ops map_key_dim c before (from_key entry_key k xs)" "find_key entry_key k xs = Some y"
  shows "list_first (from_key entry_key k xs) = Some y \<and>
    (\<exists>c'. cu_next map_key_dim c = Some c' \<and> cu_view map_key_ops map_key_dim c' (before @ [y]) (above entry_key k xs))"
proof -
  obtain ys where ys: "from_key entry_key k xs = y # ys" "above entry_key k xs = ys"
    using assms(2) by (auto simp: find_key_def above_def split: list.splits if_splits)
  then show ?thesis using tm.next_at(2) [of c before y ys] assms(1) by (auto simp: list_first_def)
qed

lemma tm_remove_abs:
  assumes "tm_ok t" "st_height t < 16"
  shows "\<exists>t'. tm_remove t k = Some (t', tm_abs t k) \<and> tm_ok t' \<and> tm_abs t' = (tm_abs t)(k := None)"
proof -
  let ?xs = "st_items t" and ?k = "Some k"
  have wf: "keys_sorted entry_key ?xs" using assms(1) by (simp add: tm_ok_def)
  obtain c n e where c: "cu_slice map_key_ops map_key_dim (target_of ?k) BLeft (cu_new map_key_dim t) = Some (c, n)"
    "cu_view map_key_ops map_key_dim c (below entry_key ?k ?xs) (from_key entry_key ?k ?xs)"
    "st_wf map_key_ops n" "st_items n = below entry_key ?k ?xs" "cu_item c = Some (list_first (from_key entry_key ?k ?xs))"
    "cu_end map_key_dim c = Some e" "target_of ?k e = Equal \<longleftrightarrow> find_key entry_key ?k ?xs \<noteq> None"
    using slice_end [OF assms] by blast
  obtain c2 b2 where c2: "(if target_of ?k e = Equal then do {
          item \<leftarrow> cu_item c;
          item \<leftarrow> item;
          c \<leftarrow> cu_next map_key_dim c;
          Some (c, Some (me_value item)) }
        else Some (c, None)) = Some (c2, map_option me_value (find_key entry_key ?k ?xs))"
     "cu_view map_key_ops map_key_dim c2 b2 (above entry_key ?k ?xs)"
  proof (cases "find_key entry_key ?k ?xs")
    case None
    then have "above entry_key ?k ?xs = from_key entry_key ?k ?xs" using find_above [of entry_key ?k ?xs] by simp
    with None c(2,7) that show ?thesis by simp
  next
    case (Some y)
    with view_after_find [OF c(2) Some] c(5,7) that show ?thesis by auto
  qed
  obtain c3 t3 where t3: "cu_suffix map_key_ops map_key_dim c2 = Some (c3, t3)" "st_wf map_key_ops t3"
      "st_items t3 = above entry_key ?k ?xs" using tm.suffix_view [OF c2(2)] by blast
  obtain t4 where t4: "st_append map_key_ops n t3 = Some t4" "st_wf map_key_ops t4" "st_items t4 = st_items n @ st_items t3"
    using tm.append [OF c(3) t3(2)] by blast
  have "tm_ok t4" using keys_sorted_remove [OF wf, of ?k] t4 t3 c(4) by (simp add: tm_ok_def)
  moreover have "key_map entry_key (st_items t4) = (key_map entry_key ?xs)(?k := None)"
    using key_map_remove [OF wf, of ?k] t4 t3 c(4) by simp
  then have "tm_abs t4 = (tm_abs t)(k := None)" by (auto simp: tm_abs_key_map)
  ultimately show ?thesis
    using c c2 t3 t4 tm_abs_find [OF assms(1), of k] by (simp add: tm_remove_def Let_def)
qed

lemma tm_update_abs:
  assumes "tm_ok t" "st_height t < 16"
  shows "\<exists>t'. tm_update t k f = Some (t', map_option (\<lambda>v. snd (f v)) (tm_abs t k)) \<and> tm_ok t' \<and>
    tm_abs t' = (tm_abs t)(k := map_option (\<lambda>v. fst (f v)) (tm_abs t k))"
proof -
  let ?xs = "st_items t" and ?k = "Some k"
  have wf: "keys_sorted entry_key ?xs" using assms(1) by (simp add: tm_ok_def)
  obtain c n e where c: "cu_slice map_key_ops map_key_dim (target_of ?k) BLeft (cu_new map_key_dim t) = Some (c, n)"
    "cu_view map_key_ops map_key_dim c (below entry_key ?k ?xs) (from_key entry_key ?k ?xs)"
    "st_wf map_key_ops n" "st_items n = below entry_key ?k ?xs" "cu_item c = Some (list_first (from_key entry_key ?k ?xs))"
    "cu_end map_key_dim c = Some e" "target_of ?k e = Equal \<longleftrightarrow> find_key entry_key ?k ?xs \<noteq> None"
    using slice_end [OF assms] by blast
  show ?thesis
  proof (cases "find_key entry_key ?k ?xs")
    case None
    then have ab: "above entry_key ?k ?xs = from_key entry_key ?k ?xs" using find_above [of entry_key ?k ?xs] by simp
    obtain c3 t3 where t3: "cu_suffix map_key_ops map_key_dim c = Some (c3, t3)" "st_wf map_key_ops t3"
      "st_items t3 = above entry_key ?k ?xs" using tm.suffix_view [OF c(2)] ab by auto
    obtain t4 where t4: "st_append map_key_ops n t3 = Some t4" "st_wf map_key_ops t4" "st_items t4 = st_items n @ st_items t3"
      using tm.append [OF c(3) t3(2)] by blast
    have items: "st_items t4 = ?xs" using t4(3) c(4) t3(3) ab by simp
    have "tm_abs t k = None" using None tm_abs_find [OF assms(1), of k] by simp
    then show ?thesis
      using None c t3 t4 items wf by (auto simp: tm_update_def Let_def tm_ok_def tm_abs_def)
  next
    case (Some y)
    let ?y = "y\<lparr>me_value := fst (f (me_value y))\<rparr>"
    have y: "entry_key y = ?k" "entry_key ?y = ?k" "tm_abs t k = Some (me_value y)"
      using find_key_Some [OF Some] tm_abs_find [OF assms(1), of k] Some by (simp_all add: entry_key_def)
    obtain c2 where c2: "cu_next map_key_dim c = Some c2"
        "cu_view map_key_ops map_key_dim c2 (below entry_key ?k ?xs @ [y]) (above entry_key ?k ?xs)"
        "list_first (from_key entry_key ?k ?xs) = Some y"
      using view_after_find [OF c(2) Some] by blast
    obtain n2 where n2: "st_push map_key_ops n ?y = Some n2" "st_wf map_key_ops n2" "st_items n2 = st_items n @ [?y]"
      using tm.push [OF c(3)] by blast
    obtain c3 t3 where t3: "cu_suffix map_key_ops map_key_dim c2 = Some (c3, t3)" "st_wf map_key_ops t3"
      "st_items t3 = above entry_key ?k ?xs" using tm.suffix_view [OF c2(2)] by blast
    obtain t4 where t4: "st_append map_key_ops n2 t3 = Some t4" "st_wf map_key_ops t4" "st_items t4 = st_items n2 @ st_items t3"
      using tm.append [OF n2(2) t3(2)] by blast
    have items: "st_items t4 = below entry_key ?k ?xs @ ?y # above entry_key ?k ?xs" using t4 n2 t3 c(4) by simp
    have "tm_ok t4" using keys_sorted_insert [OF wf, of ?y] t4(2) items y(2) by (simp add: tm_ok_def)
    moreover have "key_map entry_key (st_items t4) = (key_map entry_key ?xs)(?k \<mapsto> ?y)"
      using key_map_insert [OF wf, of ?y] items y(2) by simp
    then have "tm_abs t4 = (tm_abs t)(k \<mapsto> fst (f (me_value y)))" by (auto simp: tm_abs_key_map)
    ultimately show ?thesis
      using Some c c2 n2 t3 t4 y by (cases "f (me_value y)") (simp add: tm_update_def Let_def)
  qed
qed

lemma tm_from_ordered_abs:
  assumes "sorted_wrt (<) (map fst kvs)"
  shows "\<exists>t. tm_from_ordered_entries kvs = Some t \<and> tm_ok t \<and> tm_abs t = map_of kvs"
proof -
  let ?es = "map (\<lambda>(k, v). mk_entry k v) kvs"
  obtain t where t: "st_from_iter map_key_ops ?es = Some t" "st_wf map_key_ops t" "st_items t = ?es"
    using tm.from_iter by blast
  have keys: "map entry_key ?es = map Some (map fst kvs)" "map pair_of ?es = kvs"
    by (induction kvs) (auto simp: entry_key_def mk_entry_def pair_of_def)
  have "keys_sorted entry_key ?es"
    unfolding keys_sorted_def keys(1) using assms by (simp add: sorted_wrt_map)
  with t keys show ?thesis by (simp add: tm_from_ordered_entries_def tm_ok_def tm_abs_def)
qed

lemma tm_extend_abs:
  assumes "tm_ok t" "st_height t < 16" "distinct (map fst kvs)"
  shows "\<exists>t'. tm_extend t kvs = Some t' \<and> tm_ok t' \<and> tm_abs t' = tm_abs t ++ map_of kvs"
proof -
  let ?edits = "map (\<lambda>(k, v). Insert (mk_entry k v)) kvs"
  have wf: "st_wf map_key_ops t" "keys_sorted entry_key (st_items t)" using assms(1) by (simp_all add: tm_ok_def)
  have keys: "map (edit_key entry_key) ?edits = map Some (map fst kvs)"
    by (induction kvs) (auto simp: entry_key_def mk_entry_def)
  have dist: "distinct (map (edit_key entry_key) ?edits)"
    unfolding keys using assms(3) by (subst distinct_map) simp
  let ?es = "sort_key (edit_key entry_key) ?edits"
  have es: "keys_sorted (edit_key entry_key) ?es"
    by (rule keys_sorted_sort [OF dist])
  obtain t' where t': "st_edit map_key_ops map_key_dim entry_key t ?edits = Some (t', edit_removed entry_key ?es (st_items t))"
      "st_wf map_key_ops t'" "st_items t' = edit_list entry_key ?es (st_items t)"
    using tm.edit [OF wf(1) assms(2) wf(2) dist] by blast
  have "tm_ok t'" using t' keys_sorted_edit [OF wf(2) es] by (simp add: tm_ok_def)
  moreover have "tm_abs t' k = (tm_abs t ++ map_of kvs) k" for k
  proof -
    have inserts: "\<forall>e \<in> set ?es. \<exists>k v. e = Insert (mk_entry k v) \<and> (k, v) \<in> set kvs" by auto
    have fold: "(\<forall>e \<in> set es. \<exists>k v. e = Insert (mk_entry k v) \<and> (k, v) \<in> set kvs) \<Longrightarrow>
        fold (apply_edit entry_key) es m (Some k) =
          (if \<exists>v. Insert (mk_entry k v) \<in> set es then map_option (mk_entry k) (map_of kvs k) else m (Some k))" for es m
      using assms(3)
      by (induction es arbitrary: m) (auto simp: entry_key_def mk_entry_def map_of_eq_Some_iff)
    have "key_map entry_key (st_items t') (Some k) = fold (apply_edit entry_key) ?es (key_map entry_key (st_items t)) (Some k)"
      using key_map_edit [OF wf(2) es] t'(3) by simp
    also have "\<dots> = (if \<exists>v. Insert (mk_entry k v) \<in> set ?es then map_option (mk_entry k) (map_of kvs k)
        else key_map entry_key (st_items t) (Some k))"
      by (rule fold [OF inserts])
    finally have eq: "key_map entry_key (st_items t') (Some k) = (if \<exists>v. Insert (mk_entry k v) \<in> set ?es
        then map_option (mk_entry k) (map_of kvs k) else key_map entry_key (st_items t) (Some k))" .
    have ins: "(\<exists>v. Insert (mk_entry k v) \<in> set ?es) \<longleftrightarrow> (\<exists>v. (k, v) \<in> set kvs)"
      by (force simp: mk_entry_def)
    from eq have "key_map entry_key (st_items t') (Some k) = (if \<exists>v. (k, v) \<in> set kvs then map_option (mk_entry k) (map_of kvs k)
        else key_map entry_key (st_items t) (Some k))"
      unfolding ins .
    moreover have "(\<exists>v. (k, v) \<in> set kvs) \<longleftrightarrow> map_of kvs k \<noteq> None"
      using assms(3) by (metis map_of_eq_None_iff map_of_SomeD not_None_eq option.distinct(1) weak_map_of_SomeI)
    ultimately show ?thesis
      by (auto simp: tm_abs_key_map map_add_def mk_entry_def split: option.splits)
  qed
  then have "tm_abs t' = tm_abs t ++ map_of kvs" by blast
  ultimately show ?thesis using t' by (simp add: tm_extend_def)
qed

lemma cu_collect_view:
  fixes c :: "(('k::linorder, 'v) map_entry, 'k option, 'k option) cursor"
  shows "cu_view map_key_ops map_key_dim c before rest \<Longrightarrow> cu_collect map_key_dim c xs = Some (xs @ rest)"
proof (induction rest arbitrary: c before xs)
  case Nil
  have "cu_did_seek c" using Nil by (simp add: cu_view_def)
  with cu_view_item(1) [OF Nil] show ?case by (subst cu_collect.simps) (simp add: list_first_def)
next
  case (Cons x rest)
  obtain c' where c': "cu_next map_key_dim c = Some c'" "cu_view map_key_ops map_key_dim c' (before @ [x]) rest"
    using tm.next_at(2) [OF Cons.prems] by blast
  have "cu_did_seek c" using Cons.prems by (simp add: cu_view_def)
  with Cons.IH [OF c'(2), of "xs @ [x]"] c'(1) cu_view_item(1) [OF Cons.prems] show ?case
    by (subst cu_collect.simps) (simp add: list_first_def)
qed

lemma seek_map:
  assumes "tm_ok t" "st_height t < 16"
  shows "\<exists>c f. cu_seek map_key_dim (target_of (Some k)) b (cu_new map_key_dim t) = Some (c, f) \<and>
    cu_view map_key_ops map_key_dim c (seek_take map_key_ops map_key_dim (target_of (Some k)) b None (st_items t))
      (seek_drop map_key_ops map_key_dim (target_of (Some k)) b None (st_items t))"
proof -
  have wf: "st_wf map_key_ops t" "keys_sorted entry_key (st_items t)" using assms by (simp_all add: tm_ok_def)
  have z: "dm_zero map_key_dim = None" by (simp add: map_key_dim_def)
  have *: "target_of (Some k) (dm_zero map_key_dim) \<noteq> Less" by (rule tm.not_less_target [OF tm.zero_least])
  from tm.cu_seek_at [where target = "target_of (Some k)", OF cu_at_new [OF wf(1) assms(2)] _ * refl refl, where b = b] tm.ordered_any [OF wf(2)]
  show ?thesis by (auto simp: z)
qed

lemma tm_iter_from_abs:
  assumes "tm_ok t" "st_height t < 16"
  shows "tm_iter_from t k = Some (map pair_of (filter (\<lambda>e. k \<le> me_key e) (st_items t)))"
proof -
  let ?xs = "st_items t"
  have wf: "keys_sorted entry_key ?xs" using assms(1) by (simp add: tm_ok_def)
  obtain c f where c: "cu_seek map_key_dim (target_of (Some k)) BLeft (cu_new map_key_dim t) = Some (c, f)"
    "cu_view map_key_ops map_key_dim c (below entry_key (Some k) ?xs) (from_key entry_key (Some k) ?xs)"
    using seek_map [OF assms, of k BLeft] by (auto simp: tm.split_any)
  have "\<not> k \<le> me_key e" if "e \<in> set (below entry_key (Some k) ?xs)" for e
    using set_below [OF that] by (simp add: entry_key_def)
  then have "filter (\<lambda>e. k \<le> me_key e) (below entry_key (Some k) ?xs) = []"
    by (simp add: filter_empty_conv)
  moreover have "k \<le> me_key e" if "e \<in> set (from_key entry_key (Some k) ?xs)" for e
    using set_from_key [OF wf that] by (simp add: entry_key_def)
  then have "filter (\<lambda>e. k \<le> me_key e) (from_key entry_key (Some k) ?xs) = from_key entry_key (Some k) ?xs"
    by (simp add: filter_id_conv)
  ultimately have "filter (\<lambda>e. k \<le> me_key e) ?xs = from_key entry_key (Some k) ?xs"
    by (metis append_Nil below_from filter_append)
  with c cu_collect_view [OF c(2), of "[]"] show ?thesis by (simp add: tm_iter_from_def)
qed

lemma split_map_right:
  fixes xs :: "('k::linorder, 'v) map_entry list"
  shows "seek_take map_key_ops map_key_dim (target_of (Some k)) BRight d xs = takeWhile (\<lambda>e. me_key e \<le> k) xs"
    "seek_drop map_key_ops map_key_dim (target_of (Some k)) BRight d xs = dropWhile (\<lambda>e. me_key e \<le> k) xs"
proof -
  have past: "seek_past (target_of (Some k)) BRight (dm_add map_key_dim d (sm_item map_key_ops e)) \<longleftrightarrow> me_key e \<le> k"
    for d and e :: "('k, 'v) map_entry"
    by (simp only: tm.dm_add_item tm.past_key_right) (simp add: entry_key_def)
  show "seek_take map_key_ops map_key_dim (target_of (Some k)) BRight d xs = takeWhile (\<lambda>e. me_key e \<le> k) xs"
    "seek_drop map_key_ops map_key_dim (target_of (Some k)) BRight d xs = dropWhile (\<lambda>e. me_key e \<le> k) xs"
    by (induction xs arbitrary: d) (simp_all add: past)
qed

lemma entries_sorted:
  "keys_sorted entry_key xs \<longleftrightarrow> sorted_wrt (<) (map me_key xs)"
  by (simp add: keys_sorted_def sorted_wrt_map entry_key_def)

lemma tm_closest_abs:
  assumes "tm_ok t" "st_height t < 16"
  shows "tm_closest t k = Some (map_option pair_of (list_last (filter (\<lambda>e. me_key e \<le> k) (st_items t))))"
proof -
  let ?xs = "st_items t"
  let ?taken = "takeWhile (\<lambda>e. me_key e \<le> k) ?xs" and ?left = "dropWhile (\<lambda>e. me_key e \<le> k) ?xs"
  have wf: "keys_sorted entry_key ?xs" using assms(1) by (simp add: tm_ok_def)
  have filt: "filter (\<lambda>e. me_key e \<le> k) ?xs = ?taken"
    using takeWhile_filter [of "\<lambda>x y. me_key x < me_key y" ?xs "\<lambda>e. me_key e \<le> k"] wf
    by (simp add: entries_sorted sorted_wrt_map)
  obtain c f where c: "cu_seek map_key_dim (target_of (Some k)) BRight (cu_new map_key_dim t) = Some (c, f)"
    "cu_view map_key_ops map_key_dim c ?taken ?left"
    using seek_map [OF assms, of k BRight] by (auto simp: split_map_right)
  have "\<exists>c'. cu_prev map_key_dim c = Some c' \<and> cu_item c' = Some (list_last ?taken)"
  proof (cases ?taken rule: rev_cases)
    case (snoc ys y)
    obtain c' where "cu_prev map_key_dim c = Some c'" "cu_view map_key_ops map_key_dim c' ys (y # ?left)"
      using tm.prev_at(1) [of c ys y ?left] c(2) snoc by auto
    then show ?thesis using cu_view_item(1) [of map_key_ops map_key_dim c' ys] snoc
      by (simp add: list_first_def list_last_def)
  next
    case Nil
    show ?thesis
    proof (cases "?left = []")
      case True
      have v: "cu_view map_key_ops map_key_dim c [] []" using c(2) Nil True by simp
      obtain c' where "cu_prev map_key_dim c = Some c'" "cu_view map_key_ops map_key_dim c' [] []"
        using tm.search_backward_end [OF tm.filter_true disjI1, OF v refl refl] by (auto simp: cu_prev_def)
      then show ?thesis using cu_view_item(1) [of map_key_ops map_key_dim c' "[]" "[]"] Nil
        by (simp add: list_first_def list_last_def)
    next
      case False
      obtain c' where "cu_prev map_key_dim c = Some c'" "cu_before_start map_key_ops map_key_dim c'"
        using tm.prev_at(2) [OF _ False, of c] c(2) Nil by auto
      then show ?thesis using Nil by (simp add: cu_before_start_def cu_item_def list_last_def)
    qed
  qed
  then show ?thesis using c(1) filt by (auto simp: tm_closest_def)
qed

lemma tm_retain_loop_view:
  fixes c :: "(('k::linorder, 'v) map_entry, 'k option, 'k option) cursor"
  shows "cu_view map_key_ops map_key_dim c before rest \<Longrightarrow> st_wf map_key_ops n \<Longrightarrow>
   \<exists>t'. tm_retain_loop p c n = Some t' \<and> st_wf map_key_ops t' \<and>
     st_items t' = st_items n @ filter (\<lambda>e. p (me_key e) (me_value e)) rest"
proof (induction rest arbitrary: c before n)
  case Nil
  with cu_view_item(1) [OF Nil(1)] show ?case
    by (subst tm_retain_loop.simps) (simp add: list_first_def)
next
  case (Cons x rest)
  obtain c' where c': "cu_next map_key_dim c = Some c'" "cu_view map_key_ops map_key_dim c' (before @ [x]) rest"
    using tm.next_at(2) [OF Cons.prems(1)] by blast
  obtain n' where n': "(if p (me_key x) (me_value x) then st_push map_key_ops n x else Some n) = Some n'"
      "st_wf map_key_ops n'" "st_items n' = st_items n @ (if p (me_key x) (me_value x) then [x] else [])"
    using tm.push [OF Cons.prems(2), of x] Cons.prems(2)
    by (cases "p (me_key x) (me_value x)") (simp_all, blast)
  from Cons.IH [OF c'(2) n'(2)] c'(1) n'(1,3) cu_view_item(1) [OF Cons.prems(1)] show ?case
    by (subst tm_retain_loop.simps) (auto simp: list_first_def)
qed

lemma keys_sorted_filter: "keys_sorted key xs \<Longrightarrow> keys_sorted key (filter P xs)"
  by (induction xs) (auto simp: keys_sorted_Cons)

lemma map_of_pairs_Cons: "map_of (map pair_of (x # xs)) = (map_of (map pair_of xs))(me_key x \<mapsto> me_value x)"
  by (simp add: pair_of_def)

lemma map_of_filter_entries:
  fixes xs :: "('k::linorder, 'v) map_entry list"
  assumes "keys_sorted entry_key xs"
  shows "map_of (map pair_of (filter (\<lambda>e. p (me_key e) (me_value e)) xs)) k =
    (case map_of (map pair_of xs) k of Some v \<Rightarrow> if p k v then Some v else None | None \<Rightarrow> None)"
  using assms
proof (induction xs)
  case (Cons x xs)
  have "map_of (map pair_of xs) (me_key x) = None"
    using Cons.prems by (auto simp: keys_sorted_Cons map_of_eq_None_iff pair_of_def entry_key_def)
  with Cons show ?case
    by (cases "p (me_key x) (me_value x)"; cases "k = me_key x")
      (simp_all add: keys_sorted_Cons map_of_pairs_Cons del: list.map)
qed simp

lemma tm_retain_abs:
  assumes "tm_ok t" "st_height t < 16"
  shows "\<exists>t'. tm_retain t p = Some t' \<and> tm_ok t' \<and>
    tm_abs t' = (\<lambda>k. case tm_abs t k of Some v \<Rightarrow> if p k v then Some v else None | None \<Rightarrow> None)"
proof -
  let ?xs = "st_items t"
  have wf: "st_wf map_key_ops t" "keys_sorted entry_key ?xs" using assms(1) by (simp_all add: tm_ok_def)
  have "cu_fresh map_key_ops map_key_dim (cu_new map_key_dim t)" using wf(1) assms(2) by (simp add: cu_fresh_def cu_new_def)
  then obtain c where c: "cu_next map_key_dim (cu_new map_key_dim t) = Some c" "cu_view map_key_ops map_key_dim c [] ?xs"
    using tm.next_at(1) [OF disjI1] by (fastforce simp: cu_new_def)
  have "st_wf map_key_ops tm_new" by (simp add: tm_new_def)
  from tm_retain_loop_view [OF c(2) this, of p] obtain t' where
    t': "tm_retain_loop p c tm_new = Some t'" "st_wf map_key_ops t'"
      "st_items t' = filter (\<lambda>e. p (me_key e) (me_value e)) ?xs" by (auto simp: tm_new_def)
  have "tm_ok t'" using t' keys_sorted_filter [OF wf(2)] by (simp add: tm_ok_def)
  moreover have "tm_abs t' k = (case tm_abs t k of Some v \<Rightarrow> if p k v then Some v else None | None \<Rightarrow> None)" for k
    using map_of_filter_entries [OF wf(2), of p k] t'(3) by (simp add: tm_abs_def)
  ultimately show ?thesis using c t' by (auto simp: tm_retain_def)
qed

lemma target_adaptor_cmp: "target_adaptor (cmp a) = target_of (Some a)"
  by (rule ext) (auto simp: target_adaptor_def target_of_def cmp_def split: option.splits)

lemma tm_remove_range_abs:
  fixes t :: "('k::linorder, 'v) tree_map"
  assumes "tm_ok t" "st_height t < 16" "a \<le> b"
  shows "\<exists>t'. tm_remove_range t (cmp a) (cmp b) = Some t' \<and> tm_ok t' \<and>
    tm_abs t' = (\<lambda>k. if a \<le> k \<and> k < b then None else tm_abs t k)"
proof -
  let ?xs = "st_items t"
  have wf: "st_wf map_key_ops t" "keys_sorted entry_key ?xs" using assms(1) by (simp_all add: tm_ok_def)
  obtain c n where c: "cu_slice map_key_ops map_key_dim (target_of (Some a)) BLeft (cu_new map_key_dim t) = Some (c, n)"
    "cu_view map_key_ops map_key_dim c (below entry_key (Some a) ?xs) (from_key entry_key (Some a) ?xs)"
    "st_wf map_key_ops n" "st_items n = below entry_key (Some a) ?xs"
    using tm.slice_key [OF cu_at_new [OF wf(1) assms(2)], of "Some a"] wf(2) by auto
  have at: "cu_at map_key_ops map_key_dim c (below entry_key (Some a) ?xs) (from_key entry_key (Some a) ?xs)"
    using c(2) by (simp add: cu_at_def)
  have *: "target_of (Some b) (dm_zero map_key_dim) \<noteq> Less" by (rule tm.not_less_target [OF tm.zero_least])
  have ord: "seek_ordered map_key_ops map_key_dim (target_of (Some b)) BLeft (dm_zero map_key_dim)
      (below entry_key (Some a) ?xs @ from_key entry_key (Some a) ?xs)" using tm.ordered_any [OF wf(2)] by simp
  obtain c2 f where c2: "cu_seek map_key_dim (target_of (Some b)) BLeft c = Some (c2, f)"
    "cu_view map_key_ops map_key_dim c2 (below entry_key (Some b) ?xs) (from_key entry_key (Some b) ?xs)"
    using tm.cu_seek_at [where target = "target_of (Some b)", OF at ord * refl refl] by (auto simp: tm.split_any)
  obtain c3 t3 where t3: "cu_suffix map_key_ops map_key_dim c2 = Some (c3, t3)" "st_wf map_key_ops t3"
      "st_items t3 = from_key entry_key (Some b) ?xs" using tm.suffix_view [OF c2(2)] by blast
  obtain t4 where t4: "st_append map_key_ops n t3 = Some t4" "st_wf map_key_ops t4" "st_items t4 = st_items n @ st_items t3"
    using tm.append [OF c(3) t3(2)] by blast
  let ?p = "\<lambda>k v. \<not> (a \<le> k \<and> k < b)"
  have "keys_sorted entry_key xs \<Longrightarrow> below entry_key (Some a) xs @ from_key entry_key (Some b) xs =
      filter (\<lambda>e. ?p (me_key e) (me_value e)) xs" for xs :: "('k, 'v) map_entry list"
  proof (induction xs)
    case (Cons x xs)
    have gt: "\<forall>y \<in> set xs. me_key x < me_key y" using Cons.prems by (simp add: keys_sorted_Cons entry_key_def)
    have "dropWhile (\<lambda>e. me_key e < b) xs = filter (\<lambda>e. \<not> me_key e < b) xs"
      using dropWhile_filter [of "\<lambda>x y. me_key x < me_key y" xs "\<lambda>e. me_key e < b"] Cons.prems
      by (simp add: entries_sorted sorted_wrt_map)
    moreover have "filter (\<lambda>e. \<not> me_key e < b) xs = filter (\<lambda>e. ?p (me_key e) (me_value e)) xs" if "a \<le> me_key x"
      using gt that by (intro filter_cong) (auto dest: bspec)
    moreover have "xs = filter (\<lambda>e. ?p (me_key e) (me_value e)) xs" if "b \<le> me_key x"
      using gt that by (intro filter_True [symmetric]) (auto dest: bspec)
    ultimately show ?case
      using Cons assms(3) by (auto simp: below_def from_key_def entry_key_def keys_sorted_Cons)
  qed (simp add: below_def from_key_def)
  then have items: "st_items t4 = filter (\<lambda>e. ?p (me_key e) (me_value e)) ?xs"
    using t4 t3 c(4) wf(2) by simp
  have "tm_ok t4" using t4(2) items keys_sorted_filter [OF wf(2)] by (simp add: tm_ok_def)
  moreover have "tm_abs t4 k = (if a \<le> k \<and> k < b then None else tm_abs t k)" for k
    using map_of_filter_entries [OF wf(2), of ?p k] items by (simp add: tm_abs_def split: option.splits)
  ultimately show ?thesis
    using c c2 t3 t4 by (auto simp: tm_remove_range_def target_adaptor_cmp)
qed

end
