(* ===== verification/Zed_SumTree_Filter.thy ===== *)
theory Zed_SumTree_Filter
  imports Zed_SumTree_Prev
begin

text \<open>
  The filtered cursor \<open>FilterCursor\<close> of \<open>crates/sum_tree/src/cursor.rs\<close>, which visits the items that a
  predicate on summaries accepts, and the neighbours \<open>next_item\<close> and \<open>prev_item\<close> of a cursor.
\<close>

section \<open>The neighbours of the item\<close>

text \<open>\<open>next_leaf\<close> and \<open>prev_leaf\<close> go up the stack, which has the current leaf on top; they are given the rest.\<close>

fun cu_next_leaf :: "('t, 's, 'd) stack_entry list \<Rightarrow> ('t, 's) sum_tree option option" where
  "cu_next_leaf [] = Some None"
| "cu_next_leaf (e # ps) =
     (case st_child_trees (se_tree e) of
        None \<Rightarrow> None
      | Some ts \<Rightarrow>
          if ts = [] then None
          else if se_index e < length ts - 1 then map_option Some (st_leftmost_leaf (ts ! (se_index e + 1)))
          else cu_next_leaf ps)"

fun cu_prev_leaf :: "('t, 's, 'd) stack_entry list \<Rightarrow> ('t, 's) sum_tree option option" where
  "cu_prev_leaf [] = Some None"
| "cu_prev_leaf (e # ps) =
     (if se_index e \<noteq> 0 then
        case st_child_trees (se_tree e) of
          None \<Rightarrow> None
        | Some ts \<Rightarrow> if se_index e - 1 < length ts then map_option Some (st_rightmost_leaf (ts ! (se_index e - 1))) else None
      else cu_prev_leaf ps)"

text \<open>The first and the last item of a leaf (\<open>items().first().unwrap()\<close>).\<close>

definition leaf_item :: "('t list \<Rightarrow> 't) \<Rightarrow> ('t, 's) sum_tree option \<Rightarrow> 't option option" where
  "leaf_item pick leaf =
     (case leaf of
        None \<Rightarrow> Some None
      | Some l \<Rightarrow> (case st_node_items l of None \<Rightarrow> None | Some xs \<Rightarrow> if xs = [] then None else Some (Some (pick xs))))"

definition cu_next_item :: "('t, 's, 'd) cursor \<Rightarrow> 't option option" where
  "cu_next_item c =
     (if \<not> cu_did_seek c then None
      else
        case cu_stack c of
          e # ps \<Rightarrow>
            (case st_node_items (se_tree e) of
               None \<Rightarrow> None
             | Some xs \<Rightarrow>
                 if xs = [] then None
                 else if se_index e = length xs - 1 then
                   (case cu_next_leaf ps of None \<Rightarrow> None | Some leaf \<Rightarrow> leaf_item hd leaf)
                 else if se_index e + 1 < length xs then Some (Some (xs ! (se_index e + 1)))
                 else None)
        | [] \<Rightarrow> if cu_at_end c then Some None else st_first (cu_tree c))"

definition cu_prev_item :: "('t, 's, 'd) cursor \<Rightarrow> 't option option" where
  "cu_prev_item c =
     (if \<not> cu_did_seek c then None
      else
        case cu_stack c of
          e # ps \<Rightarrow>
            if se_index e = 0 then (case cu_prev_leaf ps of None \<Rightarrow> None | Some leaf \<Rightarrow> leaf_item last leaf)
            else
              (case st_node_items (se_tree e) of
                 None \<Rightarrow> None
               | Some xs \<Rightarrow> if se_index e - 1 < length xs then Some (Some (xs ! (se_index e - 1))) else None)
        | [] \<Rightarrow> if cu_at_end c then st_last (cu_tree c) else Some None)"

lemma next_leaf_view:
  assumes "parents_ok ops dim root ps t" "st_node ops root"
  shows "\<exists>leaf. cu_next_leaf ps = Some leaf \<and> leaf_item hd leaf = Some (list_first (stack_after ps))"
  using assms
proof (induction ps arbitrary: t)
  case Nil
  then show ?case by (simp add: leaf_item_def list_first_def)
next
  case (Cons p ps)
  let ?ts = "node_children (se_tree p)"
  have p: "se_index p < length ?ts" "parents_ok ops dim root ps (se_tree p)" "st_node ops (se_tree p)"
    using Cons.prems parents_ok_node [of ops dim root ps "se_tree p"] by auto
  then have ts: "st_child_trees (se_tree p) = Some ?ts" "?ts \<noteq> []" by (cases "se_tree p"; auto)+
  show ?case
  proof (cases "se_index p < length ?ts - 1")
    case True
    then have split: "drop (Suc (se_index p)) ?ts = ?ts ! (se_index p + 1) # drop (Suc (Suc (se_index p))) ?ts"
      using Cons_nth_drop_Suc [of "Suc (se_index p)" ?ts] by simp
    have "?ts ! (se_index p + 1) \<in> set ?ts" using True by (intro nth_mem) simp
    then have node: "st_node ops (?ts ! (se_index p + 1))" using st_node_child [OF p(3)] by blast
    obtain s xs ss where leaf: "st_leftmost_leaf (?ts ! (se_index p + 1)) = Some (Leaf s xs ss)" "xs \<noteq> []"
        "hd xs = hd (st_items (?ts ! (se_index p + 1)))" using leftmost_leaf [OF node] by blast
    obtain y ys where "st_items (?ts ! (se_index p + 1)) = y # ys"
      using st_node_items_ne [OF node] by (cases "st_items (?ts ! (se_index p + 1))") auto
    then show ?thesis using True ts leaf split by (simp add: leaf_item_def list_first_def)
  next
    case False
    then have "drop (Suc (se_index p)) ?ts = []" using p(1) by simp
    then show ?thesis using False ts Cons.IH [OF p(2) Cons.prems(2)] by simp
  qed
qed

lemma prev_leaf_view:
  assumes "parents_ok ops dim root ps t" "st_node ops root"
  shows "\<exists>leaf. cu_prev_leaf ps = Some leaf \<and> leaf_item last leaf = Some (list_last (stack_before ps))"
  using assms
proof (induction ps arbitrary: t)
  case Nil
  then show ?case by (simp add: leaf_item_def list_last_def)
next
  case (Cons p ps)
  let ?ts = "node_children (se_tree p)"
  have p: "se_index p < length ?ts" "parents_ok ops dim root ps (se_tree p)" "st_node ops (se_tree p)"
    using Cons.prems parents_ok_node [of ops dim root ps "se_tree p"] by auto
  then have ts: "st_child_trees (se_tree p) = Some ?ts" "?ts \<noteq> []" by (cases "se_tree p"; auto)+
  show ?case
  proof (cases "se_index p = 0")
    case False
    then have split: "take (se_index p) ?ts = take (se_index p - 1) ?ts @ [?ts ! (se_index p - 1)]"
      using p(1) take_Suc_conv_app_nth [of "se_index p - 1" ?ts] by simp
    have "?ts ! (se_index p - 1) \<in> set ?ts" using p(1) by (intro nth_mem) simp
    then have node: "st_node ops (?ts ! (se_index p - 1))" using st_node_child [OF p(3)] by blast
    obtain s xs ss where leaf: "st_rightmost_leaf (?ts ! (se_index p - 1)) = Some (Leaf s xs ss)" "xs \<noteq> []"
        "last xs = last (st_items (?ts ! (se_index p - 1)))" using rightmost_leaf [OF node] by blast
    have "st_items (?ts ! (se_index p - 1)) \<noteq> []" by (rule st_node_items_ne [OF node])
    then show ?thesis using False ts leaf split p(1) by (auto simp: leaf_item_def list_last_def)
  qed (use Cons.IH [OF p(2) Cons.prems(2)] in simp)
qed

lemma neighbours_view:
  assumes "cu_view ops dim c before rest"
  shows "cu_next_item c = Some (list_first (tl rest))" "cu_prev_item c = Some (list_last before)"
proof -
  have wf: "st_wf ops (cu_tree c)" "cu_did_seek c" using assms by (simp_all add: cu_view_def)
  have "cu_next_item c = Some (list_first (tl rest)) \<and> cu_prev_item c = Some (list_last before)"
  proof (cases "rest = []")
    case True
    then have "cu_stack c = []" "cu_at_end c" "before = st_items (cu_tree c)" using assms by (simp_all add: cu_view_def)
    then show ?thesis using wf True first_last_wf(2) by (simp add: cu_next_item_def cu_prev_item_def list_first_def)
  next
    case False
    then have on: "on_item ops dim c before rest" using assms by (simp add: cu_view_def)
    then obtain e ps where e: "cu_stack c = e # ps" "st_is_leaf (se_tree e)" "parents_ok ops dim (cu_tree c) ps (se_tree e)"
        "se_index e < length (st_items (se_tree e))" "before = stack_before ps @ take (se_index e) (st_items (se_tree e))"
        "rest = drop (se_index e) (st_items (se_tree e)) @ stack_after ps" by (auto simp: on_item_def)
    obtain s xs ss where l: "se_tree e = Leaf s xs ss" using e(2) by (cases "se_tree e") auto
    have "st_node ops (cu_tree c)" using wf(1) on_item_items [OF on] by (auto simp: st_wf_def)
    note leafs = next_leaf_view [OF e(3) this] prev_leaf_view [OF e(3) this]
    have "cu_next_item c = Some (list_first (tl rest))"
    proof (cases "se_index e = length xs - 1")
      case True
      then have "tl (drop (se_index e) xs) = []" "drop (se_index e) xs \<noteq> []" using e(4) l by (auto simp: tl_drop drop_Suc [symmetric])
      then show ?thesis using leafs(1) True e(1,4,6) l wf(2) by (auto simp: cu_next_item_def)
    next
      case False
      then have "Suc (se_index e) < length xs" using e(4) l by simp
      then have "drop (se_index e) xs = xs ! se_index e # xs ! Suc (se_index e) # drop (Suc (Suc (se_index e))) xs"
        by (metis Cons_nth_drop_Suc Suc_lessD)
      then show ?thesis using False e(1,4,6) l wf(2) by (auto simp: cu_next_item_def list_first_def)
    qed
    moreover have "cu_prev_item c = Some (list_last before)"
    proof (cases "se_index e = 0")
      case True
      then show ?thesis using leafs(2) e(1,5) wf(2) by (auto simp: cu_prev_item_def)
    next
      case False
      then have "take (se_index e) xs = take (se_index e - 1) xs @ [xs ! (se_index e - 1)]"
        using e(4) l take_Suc_conv_app_nth [of "se_index e - 1" xs] by simp
      then show ?thesis using False e(1,4,5) l wf(2) by (auto simp: cu_prev_item_def list_last_def)
    qed
    ultimately show ?thesis ..
  qed
  then show "cu_next_item c = Some (list_first (tl rest))" "cu_prev_item c = Some (list_last before)" by simp_all
qed

section \<open>The filtered cursor\<close>

record ('t, 's, 'd) filter_cursor =
  fi_cursor :: "('t, 's, 'd) cursor"
  fi_filter :: "'s \<Rightarrow> bool"

definition fi_new :: "('s, 'd) dimension \<Rightarrow> ('t, 's) sum_tree \<Rightarrow> ('s \<Rightarrow> bool) \<Rightarrow> ('t, 's, 'd) filter_cursor" where
  "fi_new dim t F = \<lparr>fi_cursor = cu_new dim t, fi_filter = F\<rparr>"

definition fi_start :: "('t, 's, 'd) filter_cursor \<Rightarrow> 'd" where
  "fi_start c = cu_start (fi_cursor c)"

definition fi_end :: "('s, 'd) dimension \<Rightarrow> ('t, 's, 'd) filter_cursor \<Rightarrow> 'd option" where
  "fi_end dim c = cu_end dim (fi_cursor c)"

definition fi_item :: "('t, 's, 'd) filter_cursor \<Rightarrow> 't option option" where
  "fi_item c = cu_item (fi_cursor c)"

definition fi_item_summary :: "('t, 's, 'd) filter_cursor \<Rightarrow> 's option option" where
  "fi_item_summary c = cu_item_summary (fi_cursor c)"

definition fi_next :: "('s, 'd) dimension \<Rightarrow> ('t, 's, 'd) filter_cursor \<Rightarrow> ('t, 's, 'd) filter_cursor option" where
  "fi_next dim c = map_option (\<lambda>c'. c\<lparr>fi_cursor := c'\<rparr>) (cu_search_forward dim (fi_filter c) (fi_cursor c))"

definition fi_prev :: "('s, 'd) dimension \<Rightarrow> ('t, 's, 'd) filter_cursor \<Rightarrow> ('t, 's, 'd) filter_cursor option" where
  "fi_prev dim c = map_option (\<lambda>c'. c\<lparr>fi_cursor := c'\<rparr>) (cu_search_backward dim (fi_filter c) (fi_cursor c))"

text \<open>\<open>Iterator::next\<close>.\<close>

definition fi_iter_next ::
    "('s, 'd) dimension \<Rightarrow> ('t, 's, 'd) filter_cursor \<Rightarrow> ('t option \<times> ('t, 's, 'd) filter_cursor) option" where
  "fi_iter_next dim c = do {
     c \<leftarrow> (if \<not> cu_did_seek (fi_cursor c) then fi_next dim c else Some c);
     item \<leftarrow> fi_item c;
     (case item of
        Some x \<Rightarrow> do { c \<leftarrow> fi_next dim c; Some (Some x, c) }
      | None \<Rightarrow> Some (None, c)) }"

text \<open>The loop of a client that visits the items with their positions, from the current one on.\<close>

partial_function (option) fi_visit ::
    "('s, 'd) dimension \<Rightarrow> ('t, 's, 'd) filter_cursor \<Rightarrow> ('d \<times> 't) list \<Rightarrow> ('d \<times> 't) list option" where
  [code]: "fi_visit dim c xs = do {
     item \<leftarrow> fi_item c;
     (case item of
        None \<Rightarrow> Some xs
      | Some x \<Rightarrow> do { c' \<leftarrow> fi_next dim c; fi_visit dim c' (xs @ [(fi_start c, x)]) }) }"

partial_function (option) fi_collect :: "('s, 'd) dimension \<Rightarrow> ('t, 's, 'd) filter_cursor \<Rightarrow> 't list \<Rightarrow> 't list option" where
  [code]: "fi_collect dim c xs = do {
     (item, c) \<leftarrow> fi_iter_next dim c;
     (case item of None \<Rightarrow> Some xs | Some x \<Rightarrow> fi_collect dim c (xs @ [x])) }"

text \<open>The accepted items, each with the sum of the dimension over all items before it.\<close>

fun positions :: "('t, 's) summary_ops \<Rightarrow> ('s, 'd) dimension \<Rightarrow> ('s \<Rightarrow> bool) \<Rightarrow> 'd \<Rightarrow> 't list \<Rightarrow> ('d \<times> 't) list" where
  "positions ops dim F d [] = []"
| "positions ops dim F d (x # xs) =
     (if F (sm_item ops x) then [(d, x)] else []) @ positions ops dim F (dm_add dim d (sm_item ops x)) xs"

lemma positions_skip:
  "positions ops dim F d xs =
     positions ops dim F (advance ops dim d (takeWhile (rejected ops F) xs)) (dropWhile (rejected ops F) xs)"
  by (induction xs arbitrary: d) simp_all

lemma map_snd_positions: "map snd (positions ops dim F d xs) = filter (\<lambda>x. F (sm_item ops x)) xs"
  by (induction xs arbitrary: d) simp_all

context dimension_laws
begin

text \<open>The cursor stands on an accepted item or at the end.\<close>

definition fi_view :: "('t, 's, 'd) filter_cursor \<Rightarrow> ('s \<Rightarrow> bool) \<Rightarrow> 't list \<Rightarrow> 't list \<Rightarrow> bool" where
  "fi_view c F before rest \<longleftrightarrow> fi_filter c = F \<and> cu_view ops dim (fi_cursor c) before rest \<and>
     (rest \<noteq> [] \<longrightarrow> F (sm_item ops (hd rest)))"

lemma dropWhile_accepted: "dropWhile (rejected ops F) xs \<noteq> [] \<Longrightarrow> F (sm_item ops (hd (dropWhile (rejected ops F) xs)))"
  using hd_dropWhile [of "rejected ops F" xs] by simp

lemma fi_first:
  assumes "filter_ok ops F" "st_wf ops t" "st_height t < 16"
  shows "\<exists>c. fi_next dim (fi_new dim t F) = Some c \<and>
    fi_view c F (takeWhile (rejected ops F) (st_items t)) (dropWhile (rejected ops F) (st_items t))"
proof -
  have "cu_fresh ops dim (cu_new dim t)" using assms(2,3) by (simp add: cu_fresh_def cu_new_def)
  then obtain c where "cu_search_forward dim F (cu_new dim t) = Some c"
      "cu_view ops dim c (takeWhile (rejected ops F) (st_items t)) (dropWhile (rejected ops F) (st_items t))"
    using search_forward_start [OF assms(1) disjI1] by (fastforce simp: cu_new_def)
  then have "fi_next dim (fi_new dim t F) = Some (\<lparr>fi_cursor = c, fi_filter = F\<rparr>)"
      "fi_view \<lparr>fi_cursor = c, fi_filter = F\<rparr> F (takeWhile (rejected ops F) (st_items t)) (dropWhile (rejected ops F) (st_items t))"
    using dropWhile_accepted [of F "st_items t"] by (simp_all add: fi_next_def fi_new_def fi_view_def)
  then show ?thesis by blast
qed

lemma fi_next_view:
  assumes "filter_ok ops F" "fi_view c F before (x # rest)"
  shows "\<exists>c'. fi_next dim c = Some c' \<and> fi_view c' F (before @ x # takeWhile (rejected ops F) rest) (dropWhile (rejected ops F) rest)"
proof -
  obtain c' where "cu_search_forward dim F (fi_cursor c) = Some c'"
      "cu_view ops dim c' (before @ x # takeWhile (rejected ops F) rest) (dropWhile (rejected ops F) rest)"
    using search_forward_on [OF assms(1)] assms(2) unfolding fi_view_def by blast
  then have "fi_next dim c = Some (c\<lparr>fi_cursor := c'\<rparr>)"
      "fi_view (c\<lparr>fi_cursor := c'\<rparr>) F (before @ x # takeWhile (rejected ops F) rest) (dropWhile (rejected ops F) rest)"
    using assms(2) dropWhile_accepted [of F rest] by (simp_all add: fi_next_def fi_view_def)
  then show ?thesis by blast
qed

lemma fi_item_view: "fi_view c F before rest \<Longrightarrow> fi_item c = Some (list_first rest)"
  unfolding fi_view_def fi_item_def by (blast intro: cu_view_item(1))

lemma fi_visit_view:
  assumes F: "filter_ok ops F"
  shows "fi_view c F before rest \<Longrightarrow> fi_visit dim c xs = Some (xs @ positions ops dim F (advance ops dim (dm_zero dim) before) rest)"
proof (induction "length rest" arbitrary: c before rest xs rule: less_induct)
  case less
  show ?case
  proof (cases rest)
    case Nil
    then show ?thesis using fi_item_view [OF less.prems] by (subst fi_visit.simps) (simp add: list_first_def)
  next
    case (Cons x rest')
    obtain c' where c': "fi_next dim c = Some c'"
        "fi_view c' F (before @ x # takeWhile (rejected ops F) rest') (dropWhile (rejected ops F) rest')"
      using fi_next_view [OF F] less.prems Cons by blast
    have view: "cu_view ops dim (fi_cursor c) before rest" "F (sm_item ops x)" using less.prems Cons by (simp_all add: fi_view_def)
    have "fi_start c = advance ops dim (dm_zero dim) before" using cu_view_position [OF view(1)] by (simp add: fi_start_def cu_start_def)
    moreover have "length (dropWhile (rejected ops F) rest') < length rest"
      using length_dropWhile_le [of "rejected ops F" rest'] Cons by simp
    ultimately show ?thesis
      using less.hyps [OF _ c'(2), of "xs @ [(fi_start c, x)]"] c'(1) fi_item_view [OF less.prems] view(2) Cons
        positions_skip [of ops dim F _ rest']
      by (subst fi_visit.simps) (simp add: list_first_def)
  qed
qed

lemma fi_collect_view:
  assumes F: "filter_ok ops F"
  shows "fi_view c F before rest \<Longrightarrow> fi_collect dim c xs = Some (xs @ filter (\<lambda>x. F (sm_item ops x)) rest)"
proof (induction "length rest" arbitrary: c before rest xs rule: less_induct)
  case less
  have seek: "cu_did_seek (fi_cursor c)" using less.prems by (simp add: fi_view_def cu_view_def)
  show ?case
  proof (cases rest)
    case Nil
    then show ?thesis using seek fi_item_view [OF less.prems] by (subst fi_collect.simps) (simp add: list_first_def fi_iter_next_def)
  next
    case (Cons x rest')
    obtain c' where c': "fi_next dim c = Some c'"
        "fi_view c' F (before @ x # takeWhile (rejected ops F) rest') (dropWhile (rejected ops F) rest')"
      using fi_next_view [OF F] less.prems Cons by blast
    have "F (sm_item ops x)" using less.prems Cons by (simp add: fi_view_def)
    moreover have "length (dropWhile (rejected ops F) rest') < length rest"
      using length_dropWhile_le [of "rejected ops F" rest'] Cons by simp
    moreover have "filter (\<lambda>x. F (sm_item ops x)) (dropWhile (rejected ops F) ys) = filter (\<lambda>x. F (sm_item ops x)) ys" for ys
      by (induction ys) simp_all
    ultimately show ?thesis
      using less.hyps [OF _ c'(2), of "xs @ [x]"] c'(1) fi_item_view [OF less.prems] seek Cons
      by (subst fi_collect.simps) (simp add: list_first_def fi_iter_next_def)
  qed
qed

lemma fi_visit_new:
  assumes "filter_ok ops F" "st_wf ops t" "st_height t < 16"
  shows "\<exists>c. fi_next dim (fi_new dim t F) = Some c \<and> fi_visit dim c [] = Some (positions ops dim F (dm_zero dim) (st_items t)) \<and>
    fi_collect dim (fi_new dim t F) [] = Some (filter (\<lambda>x. F (sm_item ops x)) (st_items t))"
proof -
  obtain c where c: "fi_next dim (fi_new dim t F) = Some c"
      "fi_view c F (takeWhile (rejected ops F) (st_items t)) (dropWhile (rejected ops F) (st_items t))"
    using fi_first [OF assms] by blast
  have "cu_did_seek (fi_cursor c)" "\<not> cu_did_seek (fi_cursor (fi_new dim t F))"
    using c(2) by (simp_all add: fi_view_def cu_view_def fi_new_def cu_new_def)
  then have "fi_collect dim (fi_new dim t F) [] = fi_collect dim c []"
    using c(1) by (subst (1 2) fi_collect.simps) (simp add: fi_iter_next_def)
  moreover have "filter (\<lambda>x. F (sm_item ops x)) (dropWhile (rejected ops F) ys) = filter (\<lambda>x. F (sm_item ops x)) ys" for ys
    by (induction ys) simp_all
  ultimately show ?thesis
    using c(1) fi_visit_view [OF assms(1) c(2), of "[]"] fi_collect_view [OF assms(1) c(2), of "[]"]
      positions_skip [of ops dim F "dm_zero dim" "st_items t"] by simp
qed

end

end
