(* ===== verification/Zed_SumTree_Facts.thy ===== *)
theory Zed_SumTree_Facts
  imports Zed_TreeMap Zed_SumTree_Filter
begin

text \<open>
  What the sum tree, its cursor and the ordered map on top of it guarantee.  The tree facts hold
  for every item type whose summary satisfies the laws; the witnesses instantiate them with
  the summary of map entries.
\<close>

section \<open>A concrete tree\<close>

definition sample_entries :: "(nat, string) map_entry list" where
  "sample_entries = [mk_entry 1 ''a'', mk_entry 3 ''b'', mk_entry 5 ''c'']"

definition sample_tree :: "(nat, string) tree_map" where
  "sample_tree = Leaf (Some 5) sample_entries [Some 1, Some 3, Some 5]"

lemma sample_tree_facts:
  "st_wf map_key_ops sample_tree" "st_height sample_tree < 16" "st_items sample_tree = sample_entries"
  "keys_sorted entry_key sample_entries" "tm_ok sample_tree"
  by (simp_all add: sample_tree_def sample_entries_def st_wf_def map_key_ops_def entry_key_def mk_entry_def
      sum_summaries_def TREE_BASE_def keys_sorted_def tm_ok_def)

lemma map_key_laws: "summary_laws (map_key_ops :: (('k::linorder, 'v) map_entry, 'k option) summary_ops)"
  "dimension_laws (map_key_ops :: (('k::linorder, 'v) map_entry, 'k option) summary_ops) map_key_dim"
  "dimension_laws (map_key_ops :: (('k::linorder, 'v) map_entry, 'k option) summary_ops) dim_unit"
  by unfold_locales

lemma sample_ordered: "seek_ordered map_key_ops map_key_dim (target_of (Some 3)) b (dm_zero map_key_dim) (st_items sample_tree)"
  using tm.ordered_any [OF sample_tree_facts(4)] by (simp add: sample_tree_facts(3))

lemma sample_forward: "target_of (Some (3::nat)) (dm_zero map_key_dim) \<noteq> Less"
  by (rule tm.not_less_target [OF tm.zero_least])

section \<open>Building trees\<close>

text \<open>C26: Appending one well-formed tree to another never panics; the result is well-formed, holds
  the items of the one and then those of the other, and caches the sum of their summaries.\<close>

theorem sum_tree_append_refines:
  assumes "summary_laws ops" "st_wf ops t" "st_wf ops other"
  shows "\<exists>t'. st_append ops t other = Some t' \<and> st_wf ops t' \<and> st_items t' = st_items t @ st_items other \<and>
    st_summary t' = sum_items ops (st_items t @ st_items other)"
  using summary_laws.append [OF assms] summary_laws.wf_summary [OF assms(1)] by fastforce

theorem sum_tree_append_refines_witness:
  "\<exists>t'. st_append map_key_ops sample_tree sample_tree = Some t' \<and> st_wf map_key_ops t' \<and>
    st_items t' = st_items sample_tree @ st_items sample_tree \<and>
    st_summary t' = sum_items map_key_ops (st_items sample_tree @ st_items sample_tree)"
  by (rule sum_tree_append_refines [OF map_key_laws(1) sample_tree_facts(1) sample_tree_facts(1)])

text \<open>Building a tree from a sequence never panics and yields a well-formed tree with exactly these
  items; the parallel construction returns the very same tree as the sequential one.\<close>

theorem sum_tree_from_iter:
  assumes "summary_laws ops"
  shows "st_from_par_iter ops xs = st_from_iter ops xs \<and>
    (\<exists>t. st_from_iter ops xs = Some t \<and> st_wf ops t \<and> st_items t = xs)"
  using summary_laws.from_iter_eq [OF assms] summary_laws.from_iter [OF assms, of xs] by simp

theorem sum_tree_from_iter_witness:
  "st_from_par_iter map_key_ops sample_entries = st_from_iter map_key_ops sample_entries \<and>
    (\<exists>t. st_from_iter map_key_ops sample_entries = Some t \<and> st_wf map_key_ops t \<and> st_items t = sample_entries)"
  by (rule sum_tree_from_iter [OF map_key_laws(1)])

text \<open>Updating the last or the first item in place changes that item only, recomputes every
  summary on the way up, and does nothing to an empty tree.\<close>

theorem sum_tree_update_ends:
  assumes "summary_laws ops" "st_wf ops t"
  shows "(\<exists>t' r. st_update_last ops f t = Some (t', r) \<and> st_wf ops t' \<and>
      st_items t' = (if st_items t = [] then [] else butlast (st_items t) @ [f (last (st_items t))])) \<and>
    (\<exists>t' r. st_update_first ops f t = Some (t', r) \<and> st_wf ops t' \<and>
      st_items t' = (if st_items t = [] then [] else f (hd (st_items t)) # tl (st_items t)))"
  using summary_laws.update_wf [OF assms, of f] by blast

theorem sum_tree_update_ends_witness:
  "(\<exists>t' r. st_update_last map_key_ops (\<lambda>e. e\<lparr>me_key := 7\<rparr>) sample_tree = Some (t', r) \<and> st_wf map_key_ops t' \<and>
      st_items t' = [mk_entry 1 ''a'', mk_entry 3 ''b'', mk_entry 7 ''c'']) \<and>
    (\<exists>t' r. st_update_first map_key_ops (\<lambda>e. e\<lparr>me_key := 7\<rparr>) sample_tree = Some (t', r) \<and> st_wf map_key_ops t' \<and>
      st_items t' = [mk_entry 7 ''a'', mk_entry 3 ''b'', mk_entry 5 ''c''])"
  using sum_tree_update_ends [OF map_key_laws(1) sample_tree_facts(1), of "\<lambda>e. e\<lparr>me_key := 7\<rparr>"]
  unfolding sample_tree_facts(3) by (simp add: sample_entries_def mk_entry_def)

section \<open>Searching trees\<close>

text \<open>C33: When the target is ordered along the items, \<open>find\<close> agrees with the linear search through the
  item list: it skips exactly the items the target lies past, and returns the position before
  the first other item, the position after it, and the item (none at the end).\<close>

theorem sum_tree_find_linear:
  assumes "dimension_laws ops dim" "st_wf ops t"
    and "seek_ordered ops dim target b (dm_zero dim) (st_items t)"
  shows "st_find dim t target b =
    (let pos = advance ops dim (dm_zero dim) (seek_take ops dim target b (dm_zero dim) (st_items t)) in
     case seek_drop ops dim target b (dm_zero dim) (st_items t) of
       [] \<Rightarrow> (pos, pos, None)
     | x # _ \<Rightarrow> (pos, dm_add dim pos (sm_item ops x), Some x))"
  using dimension_laws.find [OF assms]
  by (simp add: seek_split_spec_def Let_def split: list.splits)

theorem sum_tree_find_linear_witness:
  "st_find map_key_dim sample_tree (target_of (Some 3)) BLeft = (Some 1, Some 3, Some (mk_entry 3 ''b''))"
  using sum_tree_find_linear [OF map_key_laws(2) sample_tree_facts(1) sample_ordered [of BLeft]]
  by (simp add: sample_tree_facts(3))
    (simp add: sample_entries_def map_key_dim_def map_key_ops_def entry_key_def mk_entry_def seek_past_def
      target_of_def cmp_def)

text \<open>\<open>find_with_prev\<close> never panics, finds the same item at the same positions, and also returns the
  item just before it.\<close>

theorem sum_tree_find_with_prev:
  assumes "dimension_laws ops dim" "st_wf ops t"
    and "seek_ordered ops dim target b (dm_zero dim) (st_items t)"
  shows "\<exists>s e found. st_find_with_prev dim t target b = Some (s, e, found) \<and>
    st_find dim t target b = (s, e, map_option snd found) \<and>
    (case found of
       None \<Rightarrow> True
     | Some (prev, x) \<Rightarrow>
         (\<exists>before rest. st_items t = before @ x # rest \<and> prev = list_last before))"
proof -
  let ?xs = "st_items t" and ?d = "dm_zero dim"
  let ?taken = "seek_take ops dim target b ?d ?xs" and ?left = "seek_drop ops dim target b ?d ?xs"
  have all: "?taken @ ?left = ?xs" by (rule seek_take_drop)
  show ?thesis
  proof (cases ?left)
    case Nil
    then show ?thesis
      using dimension_laws.find_with_prev [OF assms] dimension_laws.find [OF assms]
      by (simp add: dimension_laws.prev_spec_def [OF assms(1)] seek_split_spec_def Let_def)
  next
    case (Cons x rest)
    then have items: "?xs = ?taken @ x # rest" using all by simp
    have "\<exists>s e. st_find_with_prev dim t target b = Some (s, e, Some (list_last ?taken, x)) \<and>
        st_find dim t target b = (s, e, Some x)"
      using dimension_laws.find_with_prev [OF assms] dimension_laws.find [OF assms] Cons
      by (simp add: dimension_laws.prev_spec_def [OF assms(1)] seek_split_spec_def Let_def list_last_def)
    then show ?thesis using items by fastforce
  qed
qed

theorem sum_tree_find_with_prev_witness:
  "\<exists>s e found. st_find_with_prev map_key_dim sample_tree (target_of (Some 3)) BLeft = Some (s, e, found) \<and>
    st_find map_key_dim sample_tree (target_of (Some 3)) BLeft = (s, e, map_option snd found) \<and>
    (case found of
       None \<Rightarrow> True
     | Some (prev, x) \<Rightarrow>
         (\<exists>before rest. st_items sample_tree = before @ x # rest \<and> prev = list_last before))"
  by (rule sum_tree_find_with_prev [OF map_key_laws(2) sample_tree_facts(1) sample_ordered [of BLeft]])

section \<open>Cursors\<close>

text \<open>C28: Slicing a fresh cursor up to an ordered target and taking the suffix never panics and splits the
  items in two well-formed trees: those the target lies past, and the rest, in order.\<close>

theorem cursor_slice_suffix:
  assumes "dimension_laws ops dim" "st_wf ops t" "st_height t < 16"
    and "seek_ordered ops dim target b (dm_zero dim) (st_items t)" "target (dm_zero dim) \<noteq> Less"
  shows "\<exists>c left c' right. cu_slice ops dim target b (cu_new dim t) = Some (c, left) \<and>
    cu_suffix ops dim c = Some (c', right) \<and> st_wf ops left \<and> st_wf ops right \<and>
    st_items left = seek_take ops dim target b (dm_zero dim) (st_items t) \<and>
    st_items left @ st_items right = st_items t \<and>
    cu_position c = advance ops dim (dm_zero dim) (st_items left)"
proof -
  have at: "cu_at ops dim (cu_new dim t) [] (st_items t)" by (rule cu_at_new [OF assms(2,3)])
  have pos: "cu_position (cu_new dim t) = dm_zero dim" by (simp add: cu_new_def)
  obtain c left where c: "cu_slice ops dim target b (cu_new dim t) = Some (c, left)" "st_wf ops left"
      "cu_view ops dim c (seek_take ops dim target b (dm_zero dim) (st_items t))
        (seek_drop ops dim target b (dm_zero dim) (st_items t))"
      "st_items left = seek_take ops dim target b (dm_zero dim) (st_items t)"
    using dimension_laws.cu_slice_at [OF assms(1) at _ _ refl refl] assms(4,5) unfolding pos by fastforce
  have at2: "cu_at ops dim c (seek_take ops dim target b (dm_zero dim) (st_items t))
        (seek_drop ops dim target b (dm_zero dim) (st_items t))" using c(3) by (simp add: cu_at_def)
  obtain c' right where "cu_suffix ops dim c = Some (c', right)" "st_wf ops right"
      "st_items right = seek_drop ops dim target b (dm_zero dim) (st_items t)"
    using dimension_laws.cu_suffix_at [OF assms(1) at2] by blast
  with c cu_at_position [OF at2] show ?thesis by (auto simp: seek_take_drop)
qed

theorem cursor_slice_suffix_witness:
  "\<exists>c left c' right. cu_slice map_key_ops map_key_dim (target_of (Some 3)) BRight (cu_new map_key_dim sample_tree) =
      Some (c, left) \<and>
    cu_suffix map_key_ops map_key_dim c = Some (c', right) \<and> st_wf map_key_ops left \<and> st_wf map_key_ops right \<and>
    st_items left = seek_take map_key_ops map_key_dim (target_of (Some 3)) BRight (dm_zero map_key_dim) (st_items sample_tree) \<and>
    st_items left @ st_items right = st_items sample_tree \<and>
    cu_position c = advance map_key_ops map_key_dim (dm_zero map_key_dim) (st_items left)"
  by (rule cursor_slice_suffix [OF map_key_laws(2) sample_tree_facts(1,2) sample_ordered sample_forward])

text \<open>C29: Seeking and then moving: from wherever an ordered seek leaves the cursor, the item is the first
  one not passed and \<open>next_item\<close> the one after it; \<open>next\<close> moves the cursor there, where \<open>prev_item\<close> is the
  item it came from, and \<open>prev\<close> from there comes back to the same place.\<close>

theorem cursor_seek_next_prev:
  assumes "dimension_laws ops dim" "st_wf ops t" "st_height t < 16"
    and "seek_ordered ops dim target b (dm_zero dim) (st_items t)" "target (dm_zero dim) \<noteq> Less"
    and "seek_drop ops dim target b (dm_zero dim) (st_items t) = x # rest"
  shows "\<exists>c f c1 c2. cu_seek dim target b (cu_new dim t) = Some (c, f) \<and> cu_item c = Some (Some x) \<and> cu_next_item c = Some (list_first rest) \<and>
    cu_next dim c = Some c1 \<and> cu_item c1 = Some (list_first rest) \<and> cu_prev_item c1 = Some (Some x) \<and>
    cu_prev dim c1 = Some c2 \<and> cu_item c2 = Some (Some x) \<and> cu_position c2 = cu_position c"
proof -
  let ?taken = "seek_take ops dim target b (dm_zero dim) (st_items t)"
  have at: "cu_at ops dim (cu_new dim t) [] (st_items t)" by (rule cu_at_new [OF assms(2,3)])
  obtain c f where c: "cu_seek dim target b (cu_new dim t) = Some (c, f)" "cu_view ops dim c ?taken (x # rest)"
    using dimension_laws.cu_seek_at [OF assms(1) at _ _ refl refl, of target b] assms(4,5,6) by auto
  obtain c1 where c1: "cu_next dim c = Some c1" "cu_view ops dim c1 (?taken @ [x]) rest"
    using dimension_laws.next_at(2) [OF assms(1) c(2)] by blast
  obtain c2 where c2: "cu_prev dim c1 = Some c2" "cu_view ops dim c2 ?taken (x # rest)"
    using dimension_laws.prev_at(1) [OF assms(1) c1(2)] by blast
  have "cu_position c2 = cu_position c"
    using cu_view_position [OF c(2)] cu_view_position [OF c2(2)] by simp
  with c c1 c2 show ?thesis
    using cu_view_item(1) [OF c(2)] cu_view_item(1) [OF c1(2)] cu_view_item(1) [OF c2(2)]
      neighbours_view(1) [OF c(2)] neighbours_view(2) [OF c1(2)]
    by (fastforce simp: list_first_def list_last_def)
qed

theorem cursor_seek_next_prev_witness:
  "\<exists>c f c1 c2. cu_seek map_key_dim (target_of (Some 3)) BLeft (cu_new map_key_dim sample_tree) = Some (c, f) \<and>
    cu_item c = Some (Some (mk_entry 3 ''b'')) \<and> cu_next_item c = Some (list_first [mk_entry 5 ''c'']) \<and>
    cu_next map_key_dim c = Some c1 \<and> cu_item c1 = Some (list_first [mk_entry 5 ''c'']) \<and>
    cu_prev_item c1 = Some (Some (mk_entry 3 ''b'')) \<and>
    cu_prev map_key_dim c1 = Some c2 \<and> cu_item c2 = Some (Some (mk_entry 3 ''b'')) \<and> cu_position c2 = cu_position c"
proof (rule cursor_seek_next_prev [OF map_key_laws(2) sample_tree_facts(1,2) sample_ordered sample_forward])
  show "seek_drop map_key_ops map_key_dim (target_of (Some 3)) BLeft (dm_zero map_key_dim) (st_items sample_tree) =
      mk_entry 3 ''b'' # [mk_entry 5 ''c'']"
    by (simp add: sample_tree_facts(3))
      (simp add: sample_entries_def map_key_dim_def map_key_ops_def entry_key_def mk_entry_def seek_past_def
        target_of_def cmp_def)
qed

text \<open>A filtered forward search from a fresh cursor stops at the first item whose summary the filter
  accepts, provided the filter never rejects a sum that has an accepted part.\<close>

theorem cursor_search_forward_filter:
  assumes "dimension_laws ops dim" "filter_ok ops F" "st_wf ops t" "st_height t < 16"
  shows "\<exists>c. cu_search_forward dim F (cu_new dim t) = Some c \<and>
    cu_item c = Some (list_first (filter (\<lambda>x. F (sm_item ops x)) (st_items t))) \<and>
    cu_position c = advance ops dim (dm_zero dim) (takeWhile (\<lambda>x. \<not> F (sm_item ops x)) (st_items t))"
proof -
  have f: "cu_fresh ops dim (cu_new dim t)" using assms(3,4) by (simp add: cu_fresh_def cu_new_def)
  obtain c where c: "cu_search_forward dim F (cu_new dim t) = Some c"
      "cu_view ops dim c (takeWhile (\<lambda>x. \<not> F (sm_item ops x)) (st_items t)) (dropWhile (\<lambda>x. \<not> F (sm_item ops x)) (st_items t))"
    using dimension_laws.search_forward_start [OF assms(1,2) disjI1 [OF f]] by (auto simp: cu_new_def)
  have "list_first (dropWhile (\<lambda>x. \<not> F (sm_item ops x)) xs) = list_first (filter (\<lambda>x. F (sm_item ops x)) xs)" for xs
    by (induction xs) (simp_all add: list_first_def)
  then show ?thesis using c(1) cu_view_item(1) [OF c(2)] cu_view_position [OF c(2)] by simp
qed

text \<open>A tree of numbers summarised by their maximum, as versions are.\<close>

definition max_ops :: "(nat, nat) summary_ops" where
  "max_ops = \<lparr>sm_zero = 0, sm_add = max, sm_item = \<lambda>n. n\<rparr>"

interpretation max_tree: summary_laws max_ops
  by unfold_locales (simp_all add: max_ops_def)

lemma max_ops_sum: "sum_items max_ops xs = fold max xs 0"
proof -
  have "foldl max (a::nat) xs = fold max xs a" for a
    by (induction xs arbitrary: a) (simp_all add: max.commute)
  then show ?thesis by (simp add: sum_items_def sum_summaries_def max_ops_def)
qed

lemma le_fold_max: "(a::nat) \<le> fold max xs a \<and> (\<forall>x \<in> set xs. x \<le> fold max xs a)"
proof (induction xs arbitrary: a)
  case (Cons x xs)
  from Cons [of "max x a"] show ?case by simp
qed simp

lemma max_filter_ok: "filter_ok max_ops (\<lambda>s. n < s)"
  unfolding filter_ok_def max_ops_sum
proof (intro allI impI ballI)
  fix xs x assume "\<not> n < fold max xs 0" "x \<in> set xs"
  then show "\<not> n < sm_item max_ops x"
    using le_fold_max [of 0 xs] by (fastforce simp: max_ops_def)
qed

theorem cursor_search_forward_filter_witness:
  "\<exists>c. cu_search_forward dim_unit (\<lambda>s. 3 < s) (cu_new dim_unit (Leaf (9::nat) [2::nat, 5, 9] [2, 5, 9])) = Some c \<and>
    cu_item c = Some (Some 5)"
proof -
  have "st_wf max_ops (Leaf 9 [2, 5, 9] [2, 5, 9])"
    by (simp add: st_wf_def max_ops_def sum_summaries_def TREE_BASE_def)
  from cursor_search_forward_filter [OF max_tree.unit_dim.dimension_laws_axioms max_filter_ok this, of 3]
  show ?thesis by (auto simp: list_first_def max_ops_def)
qed

text \<open>C39: A filtered cursor visits exactly the items whose summary the filter accepts, in order, each at the
  sum of the dimension over all items before it, whether it is driven by \<open>item\<close> and \<open>next\<close> or as an
  iterator; it never panics.  The filter must not reject a sum that has an accepted part.\<close>

theorem filter_cursor_items:
  assumes "dimension_laws ops dim" "filter_ok ops F" "st_wf ops t" "st_height t < 16"
  shows "\<exists>c. fi_next dim (fi_new dim t F) = Some c \<and>
    fi_visit dim c [] = Some (positions ops dim F (dm_zero dim) (st_items t)) \<and>
    fi_collect dim (fi_new dim t F) [] = Some (filter (\<lambda>x. F (sm_item ops x)) (st_items t))"
  by (rule dimension_laws.fi_visit_new [OF assms])

theorem filter_cursor_items_witness:
  "\<exists>c. fi_next dim_unit (fi_new dim_unit (Leaf (9::nat) [2::nat, 5, 3, 9] [2, 5, 3, 9]) (\<lambda>s. 3 < s)) = Some c \<and>
    fi_visit dim_unit c [] = Some [((), 5), ((), 9)]"
proof -
  have "st_wf max_ops (Leaf 9 [2, 5, 3, 9] [2, 5, 3, 9])"
    by (simp add: st_wf_def max_ops_def sum_summaries_def TREE_BASE_def)
  from filter_cursor_items [OF max_tree.unit_dim.dimension_laws_axioms max_filter_ok this, of 3]
  show ?thesis by (auto simp: max_ops_def)
qed

text \<open>The plain iterator and the collecting loop both enumerate the items of a tree in order, without
  a panic and without missing or repeating one.\<close>

theorem sum_tree_iter_items:
  assumes "summary_laws ops" "st_wf ops t" "st_height t < 16"
  shows "st_iter t = Some (st_items t) \<and> st_items_vec t = Some (st_items t)"
  using summary_laws.iter [OF assms] summary_laws.items_vec [OF assms] by simp

theorem sum_tree_iter_items_witness:
  "st_iter sample_tree = Some sample_entries \<and> st_items_vec sample_tree = Some sample_entries"
  using sum_tree_iter_items [OF map_key_laws(1) sample_tree_facts(1,2)] by (simp add: sample_tree_facts(3))

section \<open>Ordered maps\<close>

text \<open>C34: Inserting into an ordered map keeps it ordered and duplicate-free, updates exactly the given key,
  returns the value it had, and \<open>get\<close> reads the map before and after.\<close>

theorem tree_map_insert_get:
  assumes "tm_ok t" "st_height t < 16"
  shows "\<exists>t'. tm_insert_or_replace t k v = Some (t', tm_get t k) \<and> tm_insert t k v = Some t' \<and> tm_ok t' \<and>
    (\<forall>j. tm_get t' j = (if j = k then Some v else tm_get t j)) \<and> tm_abs t' = (tm_abs t)(k \<mapsto> v)"
proof -
  obtain t' where t': "tm_insert_or_replace t k v = Some (t', tm_abs t k)" "tm_insert t k v = Some t'" "tm_ok t'"
      "tm_abs t' = (tm_abs t)(k \<mapsto> v)" using tm_insert_abs [OF assms] by blast
  then show ?thesis by (simp add: tm_get_abs [OF assms(1)] tm_get_abs [OF t'(3)])
qed

theorem tree_map_insert_get_witness:
  "\<exists>t'. tm_insert_or_replace sample_tree 3 ''z'' = Some (t', tm_get sample_tree 3) \<and>
    tm_insert sample_tree 3 ''z'' = Some t' \<and> tm_ok t' \<and>
    (\<forall>j. tm_get t' j = (if j = 3 then Some ''z'' else tm_get sample_tree j)) \<and>
    tm_abs t' = (tm_abs sample_tree)(3 \<mapsto> ''z'')"
  by (rule tree_map_insert_get [OF sample_tree_facts(5,2)])

text \<open>Removing a key deletes exactly that key and returns its value; \<open>update\<close> changes the value of a
  present key by the function and returns the function's result, and leaves the map alone otherwise.\<close>

theorem tree_map_remove_update:
  assumes "tm_ok t" "st_height t < 16"
  shows "(\<exists>t'. tm_remove t k = Some (t', tm_abs t k) \<and> tm_ok t' \<and> tm_abs t' = (tm_abs t)(k := None)) \<and>
    (\<exists>t'. tm_update t k f = Some (t', map_option (\<lambda>v. snd (f v)) (tm_abs t k)) \<and> tm_ok t' \<and>
      tm_abs t' = (tm_abs t)(k := map_option (\<lambda>v. fst (f v)) (tm_abs t k)))"
  using tm_remove_abs [OF assms, of k] tm_update_abs [OF assms, of k f] by blast

theorem tree_map_remove_update_witness:
  "(\<exists>t'. tm_remove sample_tree 3 = Some (t', tm_abs sample_tree 3) \<and> tm_ok t' \<and>
      tm_abs t' = (tm_abs sample_tree)(3 := None)) \<and>
    (\<exists>t'. tm_update sample_tree 3 (\<lambda>v. (v @ v, length v)) =
        Some (t', map_option (\<lambda>v. snd (v @ v, length v)) (tm_abs sample_tree 3)) \<and> tm_ok t' \<and>
      tm_abs t' = (tm_abs sample_tree)(3 := map_option (\<lambda>v. fst (v @ v, length v)) (tm_abs sample_tree 3)))"
  by (rule tree_map_remove_update [OF sample_tree_facts(5,2)])

text \<open>Extending a map with entries of distinct keys is the update of the map by all of them, in any
  order; \<open>retain\<close> keeps exactly the entries that satisfy the predicate, and \<open>remove_range\<close>
  drops exactly the keys of the half-open range.\<close>

theorem tree_map_bulk:
  assumes "tm_ok t" "st_height t < 16" "distinct (map fst kvs)" "a \<le> b"
  shows "(\<exists>t'. tm_extend t kvs = Some t' \<and> tm_ok t' \<and> tm_abs t' = tm_abs t ++ map_of kvs) \<and>
    (\<exists>t'. tm_retain t p = Some t' \<and> tm_ok t' \<and>
      tm_abs t' = (\<lambda>k. case tm_abs t k of Some v \<Rightarrow> if p k v then Some v else None | None \<Rightarrow> None)) \<and>
    (\<exists>t'. tm_remove_range t (cmp a) (cmp b) = Some t' \<and> tm_ok t' \<and>
      tm_abs t' = (\<lambda>k. if a \<le> k \<and> k < b then None else tm_abs t k))"
  using tm_extend_abs [OF assms(1-3)] tm_retain_abs [OF assms(1,2), of p] tm_remove_range_abs [OF assms(1,2,4)]
  by blast

theorem tree_map_bulk_witness:
  "(\<exists>t'. tm_extend sample_tree [(4, ''d''), (1, ''e'')] = Some t' \<and> tm_ok t' \<and>
      tm_abs t' = tm_abs sample_tree ++ map_of [(4, ''d''), (1, ''e'')]) \<and>
    (\<exists>t'. tm_retain sample_tree (\<lambda>k v. k < 4) = Some t' \<and> tm_ok t' \<and>
      tm_abs t' = (\<lambda>k. case tm_abs sample_tree k of Some v \<Rightarrow> if k < 4 then Some v else None | None \<Rightarrow> None)) \<and>
    (\<exists>t'. tm_remove_range sample_tree (cmp 2) (cmp 5) = Some t' \<and> tm_ok t' \<and>
      tm_abs t' = (\<lambda>k. if 2 \<le> k \<and> k < 5 then None else tm_abs sample_tree k))"
  by (rule tree_map_bulk [OF sample_tree_facts(5,2)]) simp_all

text \<open>\<open>closest\<close> returns the entry with the greatest key that is at most the given one, \<open>iter_from\<close>
  the entries from the given key on in key order, and \<open>iter\<close> all entries in key order.\<close>

theorem tree_map_ordered_queries:
  assumes "tm_ok t" "st_height t < 16"
  shows "(\<exists>r. tm_closest t k = Some r \<and>
      (case r of
         None \<Rightarrow> \<forall>j \<in> dom (tm_abs t). k < j
       | Some (j, v) \<Rightarrow> j \<le> k \<and> tm_abs t j = Some v \<and> (\<forall>i \<in> dom (tm_abs t). i \<le> k \<longrightarrow> i \<le> j))) \<and>
    (\<exists>es. tm_iter t = Some es \<and> sorted_wrt (<) (map fst es) \<and> map_of es = tm_abs t \<and>
      tm_iter_from t k = Some (filter (\<lambda>(j, v). k \<le> j) es))"
proof (intro conjI)
  let ?xs = "st_items t"
  have wf: "st_wf map_key_ops t" "keys_sorted entry_key ?xs" using assms(1) by (simp_all add: tm_ok_def)
  have sorted: "sorted_wrt (<) (map me_key ?xs)" using wf(2) by (simp add: entries_sorted)
  have fsts: "map fst (map pair_of ?xs) = map me_key ?xs" by (simp add: pair_of_def)
  have dist: "distinct (map fst (map pair_of ?xs))" unfolding fsts using sorted strict_sorted_iff by blast
  have dom: "dom (tm_abs t) = me_key ` set ?xs"
    by (simp add: tm_abs_def dom_map_of_conv_image_fst image_image pair_of_def)
  have get: "tm_abs t (me_key e) = Some (me_value e)" if "e \<in> set ?xs" for e
    unfolding tm_abs_def by (rule map_of_is_SomeI [OF dist]) (use that in \<open>auto simp: pair_of_def\<close>)
  let ?low = "filter (\<lambda>e. me_key e \<le> k) ?xs"
  show "\<exists>r. tm_closest t k = Some r \<and>
      (case r of
         None \<Rightarrow> \<forall>j \<in> dom (tm_abs t). k < j
       | Some (j, v) \<Rightarrow> j \<le> k \<and> tm_abs t j = Some v \<and> (\<forall>i \<in> dom (tm_abs t). i \<le> k \<longrightarrow> i \<le> j))"
  proof (cases ?low rule: rev_cases)
    case Nil
    then have "\<forall>j \<in> dom (tm_abs t). k < j" by (auto simp: dom filter_empty_conv not_le)
    with tm_closest_abs [OF assms, of k] Nil show ?thesis by (simp add: list_last_def)
  next
    case (snoc ys y)
    have low: "set ?low = {e \<in> set ?xs. me_key e \<le> k}" by (rule set_filter)
    then have y: "y \<in> set ?xs" "me_key y \<le> k" using snoc by auto
    have "sorted_wrt (<) (map me_key ?low)" using sorted by (simp add: sorted_wrt_map sorted_wrt_filter)
    then have "\<forall>e \<in> set ?low. me_key e \<le> me_key y" unfolding snoc by (auto simp: sorted_wrt_append)
    then have top: "\<forall>e \<in> set ?xs. me_key e \<le> k \<longrightarrow> me_key e \<le> me_key y" unfolding low by simp
    have "tm_closest t k = Some (Some (pair_of y))"
      unfolding tm_closest_abs [OF assms, of k] snoc by (simp add: list_last_def)
    with y top get [OF y(1)] show ?thesis by (simp add: pair_of_def dom)
  qed
  have "tm_iter t = Some (map pair_of ?xs)"
    using summary_laws.iter [OF map_key_laws(1) wf(1) assms(2)] by (simp add: tm_iter_def)
  moreover have "map pair_of (filter (\<lambda>e. k \<le> me_key e) ?xs) = filter (\<lambda>(j, v). k \<le> j) (map pair_of ?xs)"
    by (simp add: filter_map comp_def pair_of_def)
  ultimately show "\<exists>es. tm_iter t = Some es \<and> sorted_wrt (<) (map fst es) \<and> map_of es = tm_abs t \<and>
      tm_iter_from t k = Some (filter (\<lambda>(j, v). k \<le> j) es)"
    using tm_iter_from_abs [OF assms, of k]
    by (intro exI [of _ "map pair_of ?xs"] conjI, simp_all only: fsts sorted tm_abs_def)
qed

theorem tree_map_ordered_queries_witness:
  "(\<exists>r. tm_closest sample_tree 4 = Some r \<and>
      (case r of
         None \<Rightarrow> \<forall>j \<in> dom (tm_abs sample_tree). 4 < j
       | Some (j, v) \<Rightarrow> j \<le> 4 \<and> tm_abs sample_tree j = Some v \<and>
           (\<forall>i \<in> dom (tm_abs sample_tree). i \<le> 4 \<longrightarrow> i \<le> j))) \<and>
    (\<exists>es. tm_iter sample_tree = Some es \<and> sorted_wrt (<) (map fst es) \<and> map_of es = tm_abs sample_tree \<and>
      tm_iter_from sample_tree 4 = Some (filter (\<lambda>(j, v). 4 \<le> j) es))"
  by (rule tree_map_ordered_queries [OF sample_tree_facts(5,2)])

end
