(* ===== verification/Zed_Patch.thy ===== *)
theory Zed_Patch
  imports Zed_Prelude
begin

text \<open>
  Edits and patches (\<open>crates/text/src/patch.rs\<close>, and \<open>Edit\<close> of \<open>crates/text/src/text.rs\<close>).  A
  patch is a list of edits, each a range of the old text and the range of the new text that
  replaces it.  Offsets are \<open>usize\<close>: a subtraction that would underflow panics, so the
  composition returns an option and its correctness includes that it never does.  The meaning
  of a patch is the relation \<open>patch_rel\<close> between an old and a new text.
\<close>

section \<open>Subtraction and binary search of the standard library\<close>

definition usize_sub :: "nat \<Rightarrow> nat \<Rightarrow> nat option" where
  "usize_sub a b = (if b \<le> a then Some (a - b) else None)"

lemma usize_sub_add [simp]: "usize_sub (a + b) a = Some b" "usize_sub (a + b + c) (a + b) = Some c"
  "usize_sub (a + b + c) a = Some (b + c)" "usize_sub a a = Some 0"
  by (simp_all add: usize_sub_def)

lemma usize_sub_le: "b \<le> a \<Longrightarrow> usize_sub a b = Some (a - b)"
  by (simp add: usize_sub_def)

text \<open>\<open>slice::binary_search_by\<close>: \<open>Inl i\<close> is \<open>Ok(i)\<close>, \<open>Inr i\<close> is \<open>Err(i)\<close>.\<close>

function binary_search_loop :: "(nat \<Rightarrow> ordering) \<Rightarrow> nat \<Rightarrow> nat \<Rightarrow> nat" where
  "binary_search_loop f base len =
     (if 1 < len then
        let half = len div 2;
            mid = base + half
        in binary_search_loop f (if f mid = Greater then base else mid) (len - half)
      else base)"
  by auto
termination by (relation "measure (\<lambda>(f, base, len). len)") auto

declare binary_search_loop.simps [simp del]

definition binary_search_by :: "('a \<Rightarrow> ordering) \<Rightarrow> 'a list \<Rightarrow> nat + nat" where
  "binary_search_by f xs =
     (if xs = [] then Inr 0
      else
        let base = binary_search_loop (\<lambda>i. f (xs ! i)) 0 (length xs)
        in case f (xs ! base) of
             Equal \<Rightarrow> Inl base
           | Less \<Rightarrow> Inr (base + 1)
           | Greater \<Rightarrow> Inr base)"

text \<open>On a sequence sorted for \<open>f\<close>, the loop ends at the last element that is not greater (or at
  the first element).\<close>

lemma binary_search_loop_bounds:
  assumes "0 < len"
    and "\<And>i j. i \<le> j \<Longrightarrow> j < base + len \<Longrightarrow> f i = Greater \<Longrightarrow> f j = Greater"
  shows "base \<le> binary_search_loop f base len \<and> binary_search_loop f base len < base + len \<and>
    (f base \<noteq> Greater \<longrightarrow> f (binary_search_loop f base len) \<noteq> Greater) \<and>
    (f base = Greater \<longrightarrow> binary_search_loop f base len = base) \<and>
    (\<forall>i. binary_search_loop f base len < i \<and> i < base + len \<longrightarrow> f i = Greater)"
  using assms
proof (induction f base len rule: binary_search_loop.induct)
  case (1 f base len)
  let ?half = "len div 2"
  let ?mid = "base + ?half"
  show ?case
  proof (cases "1 < len")
    case False
    then have "len = 1" using 1(2) by simp
    then show ?thesis by (auto simp: binary_search_loop.simps [of f base])
  next
    case True
    have half: "0 < ?half" "?half < len" using True by auto
    let ?base = "if f ?mid = Greater then base else ?mid"
    have step: "binary_search_loop f base len = binary_search_loop f ?base (len - ?half)"
      using True by (subst binary_search_loop.simps) (simp add: Let_def)
    have top: "?base + (len - ?half) \<le> base + len" by simp
    have mono: "f j = Greater" if "i \<le> j" "j < ?base + (len - ?half)" "f i = Greater" for i j
      by (rule 1(3) [OF that(1) _ that(3)]) (use that(2) top in linarith)
    have IH: "?base \<le> binary_search_loop f ?base (len - ?half) \<and>
      binary_search_loop f ?base (len - ?half) < ?base + (len - ?half) \<and>
      (f ?base \<noteq> Greater \<longrightarrow> f (binary_search_loop f ?base (len - ?half)) \<noteq> Greater) \<and>
      (f ?base = Greater \<longrightarrow> binary_search_loop f ?base (len - ?half) = ?base) \<and>
      (\<forall>i. binary_search_loop f ?base (len - ?half) < i \<and> i < ?base + (len - ?half) \<longrightarrow> f i = Greater)"
      by (rule 1(1) [OF True refl refl _ mono]) (use half in simp_all)
    show ?thesis
    proof (cases "f ?mid = Greater")
      case True
      note gt = this
      have beyond: "f i = Greater" if "base + (len - ?half) \<le> i" "i < base + len" for i
        by (rule 1(3) [OF _ that(2) gt]) (use that(1) half in linarith)
      let ?r = "binary_search_loop f base (len - ?half)"
      have IH': "base \<le> ?r" "?r < base + (len - ?half)" "f base \<noteq> Greater \<longrightarrow> f ?r \<noteq> Greater"
        "f base = Greater \<longrightarrow> ?r = base" "\<And>i. ?r < i \<Longrightarrow> i < base + (len - ?half) \<Longrightarrow> f i = Greater"
        using IH gt by simp_all
      have "f i = Greater" if "?r < i" "i < base + len" for i
        using IH'(5) [OF that(1)] beyond [OF _ that(2)] by (cases "i < base + (len - ?half)") simp_all
      moreover have "binary_search_loop f base len = ?r" using step gt by simp
      moreover have "?r < base + len" using IH'(2) by linarith
      ultimately show ?thesis using IH'(1,3,4) by simp
    next
      case False
      then have "f base \<noteq> Greater" using 1(3) [of base ?mid] half by auto
      moreover let ?r = "binary_search_loop f ?mid (len - ?half)"
      have mid: "?mid + (len - ?half) = base + len" using half by linarith
      have "?mid \<le> ?r" "?r < base + len" "f ?r \<noteq> Greater" "\<And>i. ?r < i \<Longrightarrow> i < base + len \<Longrightarrow> f i = Greater"
        using IH False unfolding if_not_P [OF False] mid by simp_all
      moreover have "binary_search_loop f base len = ?r" using step False by simp
      ultimately show ?thesis by simp
    qed
  qed
qed

definition sorted_for :: "('a \<Rightarrow> ordering) \<Rightarrow> 'a list \<Rightarrow> bool" where
  "sorted_for f xs \<longleftrightarrow> sorted_wrt (\<lambda>x y. (f x = Greater \<longrightarrow> f y = Greater) \<and> (f y = Less \<longrightarrow> f x = Less)) xs"

lemma binary_search_by:
  assumes "sorted_for f xs"
  shows "case binary_search_by f xs of
      Inl i \<Rightarrow> i < length xs \<and> f (xs ! i) = Equal \<and> (\<forall>j. i < j \<and> j < length xs \<longrightarrow> f (xs ! j) = Greater)
    | Inr i \<Rightarrow> i \<le> length xs \<and> (\<forall>j < i. f (xs ! j) = Less) \<and> (\<forall>j. i \<le> j \<and> j < length xs \<longrightarrow> f (xs ! j) = Greater)"
proof (cases "xs = []")
  case False
  let ?f = "\<lambda>i. f (xs ! i)"
  let ?b = "binary_search_loop ?f 0 (length xs)"
  have up: "?f j = Greater" if "i \<le> j" "j < length xs" "?f i = Greater" for i j
    using assms that sorted_wrt_nth_less [of _ xs i j] by (cases "i = j") (auto simp: sorted_for_def)
  have down: "?f i = Less" if "i \<le> j" "j < length xs" "?f j = Less" for i j
    using assms that sorted_wrt_nth_less [of _ xs i j] by (cases "i = j") (auto simp: sorted_for_def)
  have loop: "0 \<le> ?b \<and> ?b < 0 + length xs \<and> (?f 0 \<noteq> Greater \<longrightarrow> ?f ?b \<noteq> Greater) \<and>
      (?f 0 = Greater \<longrightarrow> ?b = 0) \<and> (\<forall>i. ?b < i \<and> i < 0 + length xs \<longrightarrow> ?f i = Greater)"
  proof (rule binary_search_loop_bounds)
    show "0 < length xs" using False by simp
    fix i j
    assume "i \<le> j" "j < 0 + length xs" "?f i = Greater"
    then show "?f j = Greater" by (intro up [of i j]) simp_all
  qed
  then have b: "?b < length xs" "\<forall>i. ?b < i \<and> i < length xs \<longrightarrow> ?f i = Greater"
    and ends: "?f 0 \<noteq> Greater \<longrightarrow> ?f ?b \<noteq> Greater" "?f 0 = Greater \<longrightarrow> ?b = 0"
    unfolding add_0 by blast+
  have first: "?b = 0" if "?f ?b = Greater" using ends that by blast
  show ?thesis
  proof (cases "?f ?b")
    case Less
    then have "binary_search_by f xs = Inr (?b + 1)" using False by (simp add: binary_search_by_def Let_def)
    with b Less show ?thesis by (auto intro: down [OF _ b(1)])
  next
    case Equal
    then have "binary_search_by f xs = Inl ?b" using False by (simp add: binary_search_by_def Let_def)
    with b Equal show ?thesis by simp
  next
    case Greater
    then have "binary_search_by f xs = Inr ?b" using False by (simp add: binary_search_by_def Let_def)
    moreover have b0: "?b = 0" using Greater by (rule first)
    moreover have "?f j = Greater" if "j < length xs" for j
      by (rule up [of 0]) (use that Greater b0 in simp_all)
    ultimately show ?thesis by simp
  qed
qed (simp add: binary_search_by_def)

section \<open>Edits\<close>

text \<open>\<open>Range<usize>\<close> and \<open>Edit<usize>\<close>.\<close>

record rng =
  rng_start :: nat
  rng_end :: nat

record text_edit =
  e_old :: rng
  e_new :: rng

definition mk_edit :: "nat \<Rightarrow> nat \<Rightarrow> nat \<Rightarrow> nat \<Rightarrow> text_edit" where
  "mk_edit old_start old_end new_start new_end =
     \<lparr>e_old = \<lparr>rng_start = old_start, rng_end = old_end\<rparr>, e_new = \<lparr>rng_start = new_start, rng_end = new_end\<rparr>\<rparr>"

definition edit_is_empty :: "text_edit \<Rightarrow> bool" where
  "edit_is_empty e \<longleftrightarrow> rng_start (e_old e) = rng_end (e_old e) \<and> rng_start (e_new e) = rng_end (e_new e)"

definition edit_old_len :: "text_edit \<Rightarrow> nat option" where
  "edit_old_len e = usize_sub (rng_end (e_old e)) (rng_start (e_old e))"

definition edit_new_len :: "text_edit \<Rightarrow> nat option" where
  "edit_new_len e = usize_sub (rng_end (e_new e)) (rng_start (e_new e))"

lemma mk_edit_simps [simp]:
  "rng_start (e_old (mk_edit a b c d)) = a" "rng_end (e_old (mk_edit a b c d)) = b"
  "rng_start (e_new (mk_edit a b c d)) = c" "rng_end (e_new (mk_edit a b c d)) = d"
  by (simp_all add: mk_edit_def)

lemma text_edit_cases [cases type: text_edit]:
  obtains a b c d where "(e :: text_edit) = mk_edit a b c d"
proof -
  have "e = mk_edit (rng_start (e_old e)) (rng_end (e_old e)) (rng_start (e_new e)) (rng_end (e_new e))"
    by (simp add: mk_edit_def)
  then show thesis by (rule that)
qed

lemma mk_edit_update [simp]:
  "mk_edit a b c d\<lparr>e_old := \<lparr>rng_start = a', rng_end = b'\<rparr>, e_new := \<lparr>rng_start = c', rng_end = d'\<rparr>\<rparr> = mk_edit a' b' c' d'"
  by (simp add: mk_edit_def)

section \<open>Patches\<close>

type_synonym patch = "text_edit list"

text \<open>The debug assertion of \<open>Patch::new\<close>: both sides of successive edits are separated.\<close>

definition patch_new_ok :: "text_edit list \<Rightarrow> bool" where
  "patch_new_ok es \<longleftrightarrow>
     list_all (\<lambda>(last, e). rng_end (e_old last) < rng_start (e_old e) \<and> rng_end (e_new last) < rng_start (e_new e))
       (zip es (tl es))"

definition patch_invert :: "patch \<Rightarrow> patch" where
  "patch_invert p = map (\<lambda>e. e\<lparr>e_old := e_new e, e_new := e_old e\<rparr>) p"

definition push_maybe_empty :: "patch \<Rightarrow> text_edit \<Rightarrow> patch" where
  "push_maybe_empty p e =
     (if p \<noteq> [] then
        if rng_start (e_old e) \<le> rng_end (e_old (last p)) then
          butlast p @ [(last p)\<lparr>e_old := (e_old (last p))\<lparr>rng_end := rng_end (e_old e)\<rparr>,
                                e_new := (e_new (last p))\<lparr>rng_end := rng_end (e_new e)\<rparr>\<rparr>]
        else p @ [e]
      else p @ [e])"

definition patch_push :: "patch \<Rightarrow> text_edit \<Rightarrow> patch" where
  "patch_push p e = (if edit_is_empty e then p else push_maybe_empty p e)"

text \<open>
  The state of the loop of \<open>compose\<close>: the composed patch, \<open>old_start\<close> and \<open>new_start\<close>.  The two
  iterators are the lists of the edits still to come; \<open>peek_mut\<close> updates their heads.
\<close>

record composing =
  composed :: patch
  old_start :: nat
  new_start :: nat

text \<open>The first two blocks of the loop push a whole edit of one of the patches.\<close>

definition compose_push_old :: "text_edit \<Rightarrow> composing \<Rightarrow> composing option" where
  "compose_push_old old_edit c =
     Option.bind (usize_sub (rng_start (e_old old_edit)) (old_start c)) (\<lambda>catchup.
     let os = old_start c + catchup; ns = new_start c + catchup in
     Option.bind (edit_old_len old_edit) (\<lambda>old_len.
     Option.bind (edit_new_len old_edit) (\<lambda>new_len.
     let old_end = os + old_len; new_end = ns + new_len in
     Some \<lparr>composed = patch_push (composed c) (mk_edit os old_end ns new_end),
           old_start = old_end, new_start = new_end\<rparr>)))"

definition compose_push_new :: "text_edit \<Rightarrow> composing \<Rightarrow> composing option" where
  "compose_push_new new_edit c =
     Option.bind (usize_sub (rng_start (e_new new_edit)) (new_start c)) (\<lambda>catchup.
     let os = old_start c + catchup; ns = new_start c + catchup in
     Option.bind (edit_old_len new_edit) (\<lambda>old_len.
     Option.bind (edit_new_len new_edit) (\<lambda>new_len.
     let old_end = os + old_len; new_end = ns + new_len in
     Some \<lparr>composed = patch_push (composed c) (mk_edit os old_end ns new_end),
           old_start = old_end, new_start = new_end\<rparr>)))"

text \<open>The first half of the intersecting case: push the part of one edit that precedes the other.\<close>

definition compose_align :: "text_edit \<Rightarrow> text_edit \<Rightarrow> composing \<Rightarrow> (text_edit \<times> text_edit \<times> composing) option" where
  "compose_align old_edit new_edit c =
     (if rng_start (e_new old_edit) < rng_start (e_old new_edit) then
        Option.bind (usize_sub (rng_start (e_old old_edit)) (old_start c)) (\<lambda>catchup.
        let os = old_start c + catchup; ns = new_start c + catchup in
        Option.bind (usize_sub (rng_start (e_old new_edit)) (rng_start (e_new old_edit))) (\<lambda>overshoot.
        let old_end = min (os + overshoot) (rng_end (e_old old_edit)); new_end = ns + overshoot in
        Some (mk_edit old_end (rng_end (e_old old_edit)) (rng_start (e_new old_edit) + overshoot) (rng_end (e_new old_edit)),
              new_edit,
              \<lparr>composed = patch_push (composed c) (mk_edit os old_end ns new_end),
               old_start = old_end, new_start = new_end\<rparr>)))
      else
        Option.bind (usize_sub (rng_start (e_new new_edit)) (new_start c)) (\<lambda>catchup.
        let os = old_start c + catchup; ns = new_start c + catchup in
        Option.bind (usize_sub (rng_start (e_new old_edit)) (rng_start (e_old new_edit))) (\<lambda>overshoot.
        let old_end = os + overshoot; new_end = min (ns + overshoot) (rng_end (e_new new_edit)) in
        Some (old_edit,
              mk_edit (rng_start (e_old new_edit) + overshoot) (rng_end (e_old new_edit)) new_end (rng_end (e_new new_edit)),
              \<lparr>composed = patch_push (composed c) (mk_edit os old_end ns new_end),
               old_start = old_end, new_start = new_end\<rparr>))))"

text \<open>The second half: push the overlap and drop the edit that ends first.  The result holds the
  head of the iterator that keeps its (shortened) edit.\<close>

definition compose_overlap ::
  "text_edit \<Rightarrow> text_edit \<Rightarrow> composing \<Rightarrow> ((text_edit + text_edit) \<times> composing) option" where
  "compose_overlap old_edit new_edit c =
     (if rng_end (e_old new_edit) < rng_end (e_new old_edit) then
        Option.bind (edit_old_len old_edit) (\<lambda>len1.
        Option.bind (edit_old_len new_edit) (\<lambda>len2.
        Option.bind (edit_new_len new_edit) (\<lambda>new_len.
        let old_end = old_start c + min len1 len2; new_end = new_start c + new_len in
        Some (Inl (mk_edit old_end (rng_end (e_old old_edit)) (rng_end (e_old new_edit)) (rng_end (e_new old_edit))),
              \<lparr>composed = patch_push (composed c) (mk_edit (old_start c) old_end (new_start c) new_end),
               old_start = old_end, new_start = new_end\<rparr>))))
      else
        Option.bind (edit_old_len old_edit) (\<lambda>old_len.
        Option.bind (edit_new_len old_edit) (\<lambda>len1.
        Option.bind (edit_new_len new_edit) (\<lambda>len2.
        let old_end = old_start c + old_len; new_end = new_start c + min len1 len2 in
        Some (Inr (mk_edit (rng_end (e_new old_edit)) (rng_end (e_old new_edit)) new_end (rng_end (e_new new_edit))),
              \<lparr>composed = patch_push (composed c) (mk_edit (old_start c) old_end (new_start c) new_end),
               old_start = old_end, new_start = new_end\<rparr>)))))"

text \<open>The loop: both iterators are finite and every turn consumes an edit of one of them.\<close>

fun compose_loop :: "text_edit list \<Rightarrow> text_edit list \<Rightarrow> composing \<Rightarrow> composing option" where
  "compose_loop [] [] c = Some c"
| "compose_loop (old_edit # olds) [] c =
     Option.bind (compose_push_old old_edit c) (compose_loop olds [])"
| "compose_loop [] (new_edit # news) c =
     Option.bind (compose_push_new new_edit c) (compose_loop [] news)"
| "compose_loop (old_edit # olds) (new_edit # news) c =
     (if rng_end (e_new old_edit) < rng_start (e_old new_edit) then
        Option.bind (compose_push_old old_edit c) (compose_loop olds (new_edit # news))
      else if rng_end (e_old new_edit) < rng_start (e_new old_edit) then
        Option.bind (compose_push_new new_edit c) (compose_loop (old_edit # olds) news)
      else
        Option.bind (compose_align old_edit new_edit c) (\<lambda>(old_edit', new_edit', c').
        Option.bind (compose_overlap old_edit' new_edit' c') (\<lambda>(rest, c'').
        case rest of
          Inl e \<Rightarrow> compose_loop (e # olds) news c''
        | Inr e \<Rightarrow> compose_loop olds (e # news) c'')))"

definition patch_compose :: "patch \<Rightarrow> text_edit list \<Rightarrow> patch option" where
  "patch_compose p new_edits =
     map_option composed (compose_loop p new_edits \<lparr>composed = [], old_start = 0, new_start = 0\<rparr>)"

text \<open>The index found by the two lookups: the last edit that starts at or before the position.\<close>

definition edit_index :: "patch \<Rightarrow> nat \<Rightarrow> nat option" where
  "edit_index p old =
     (case binary_search_by (\<lambda>probe. cmp (rng_start (e_old probe)) old) p of
        Inl ix \<Rightarrow> Some ix
      | Inr ix \<Rightarrow> if ix = 0 then None else Some (ix - 1))"

definition old_to_new :: "patch \<Rightarrow> nat \<Rightarrow> nat" where
  "old_to_new p old =
     (case edit_index p old of
        None \<Rightarrow> old
      | Some ix \<Rightarrow>
          if ix < length p then
            let e = p ! ix in
            if rng_end (e_old e) \<le> old then rng_end (e_new e) + (old - rng_end (e_old e))
            else rng_start (e_new e)
          else old)"

definition edit_for_old_position :: "patch \<Rightarrow> nat \<Rightarrow> text_edit" where
  "edit_for_old_position p old =
     (case edit_index p old of
        None \<Rightarrow> mk_edit old old old old
      | Some ix \<Rightarrow>
          if ix < length p then
            let e = p ! ix in
            if rng_end (e_old e) < old then
              let translated = rng_end (e_new e) + (old - rng_end (e_old e))
              in mk_edit old old translated translated
            else e
          else mk_edit old old old old)"

section \<open>The meaning of a patch\<close>

text \<open>\<open>patch_rel o n p s t\<close>: from offset \<open>o\<close> of the old and \<open>n\<close> of the new text on, of which \<open>s\<close> and
  \<open>t\<close> remain, the texts agree outside the ranges of the edits.\<close>

definition edit_fits :: "nat \<Rightarrow> nat \<Rightarrow> text_edit \<Rightarrow> 'c list \<Rightarrow> 'c list \<Rightarrow> bool" where
  "edit_fits oo nn e s t \<longleftrightarrow>
     oo \<le> rng_start (e_old e) \<and> rng_start (e_old e) \<le> rng_end (e_old e) \<and>
     rng_start (e_new e) = nn + (rng_start (e_old e) - oo) \<and> rng_start (e_new e) \<le> rng_end (e_new e) \<and>
     rng_end (e_old e) - oo \<le> length s \<and> rng_end (e_new e) - nn \<le> length t \<and>
     take (rng_start (e_old e) - oo) s = take (rng_start (e_old e) - oo) t"

fun patch_rel :: "nat \<Rightarrow> nat \<Rightarrow> text_edit list \<Rightarrow> 'c list \<Rightarrow> 'c list \<Rightarrow> bool" where
  "patch_rel oo nn [] s t \<longleftrightarrow> s = t"
| "patch_rel oo nn (e # es) s t \<longleftrightarrow> edit_fits oo nn e s t \<and>
     patch_rel (rng_end (e_old e)) (rng_end (e_new e)) es
       (drop (rng_end (e_old e) - oo) s) (drop (rng_end (e_new e) - nn) t)"

lemma edit_fits_append:
  assumes "edit_fits oo nn e s t"
  shows "edit_fits oo nn e (s @ x) (t @ y)"
    "drop (rng_end (e_old e) - oo) (s @ x) = drop (rng_end (e_old e) - oo) s @ x"
    "drop (rng_end (e_new e) - nn) (t @ y) = drop (rng_end (e_new e) - nn) t @ y"
proof -
  have "rng_start (e_old e) - oo \<le> length s" "rng_start (e_old e) - oo \<le> length t"
    using assms unfolding edit_fits_def by linarith+
  then show "edit_fits oo nn e (s @ x) (t @ y)" using assms by (simp add: edit_fits_def) linarith
  have "rng_end (e_old e) - oo \<le> length s" "rng_end (e_new e) - nn \<le> length t"
    using assms by (simp_all add: edit_fits_def)
  then show "drop (rng_end (e_old e) - oo) (s @ x) = drop (rng_end (e_old e) - oo) s @ x"
    "drop (rng_end (e_new e) - nn) (t @ y) = drop (rng_end (e_new e) - nn) t @ y" by simp_all
qed

lemma edit_fits_length:
  "edit_fits oo nn e s t \<Longrightarrow> rng_end (e_old e) + length (drop (rng_end (e_old e) - oo) s) = oo + length s \<and>
     rng_end (e_new e) + length (drop (rng_end (e_new e) - nn) t) = nn + length t"
  unfolding edit_fits_def length_drop by linarith

subsection \<open>Growing a patch at its end\<close>

lemma patch_new_ok_successively:
  "patch_new_ok p \<longleftrightarrow>
     successively (\<lambda>l e. rng_end (e_old l) < rng_start (e_old e) \<and> rng_end (e_new l) < rng_start (e_new e)) p"
  by (induction p rule: induct_list012) (simp_all add: patch_new_ok_def)

lemma patch_rel_append:
  "patch_rel oo nn p S U \<Longrightarrow> patch_rel oo nn p (S @ x) (U @ x)"
proof (induction p arbitrary: oo nn S U)
  case (Cons e p)
  then have fits: "edit_fits oo nn e S U" by simp
  from Cons show ?case
    by (simp only: patch_rel.simps edit_fits_append(1) [OF fits] edit_fits_append(2) [OF fits]
        edit_fits_append(3) [OF fits] simp_thms)
qed simp

lemma patch_rel_last:
  "patch_rel oo nn (p @ [e]) S U \<Longrightarrow>
     rng_start (e_old e) \<le> rng_end (e_old e) \<and> rng_start (e_new e) \<le> rng_end (e_new e) \<and>
     rng_end (e_old e) \<le> oo + length S \<and> rng_end (e_new e) \<le> nn + length U \<and>
     oo + length S - rng_end (e_old e) = nn + length U - rng_end (e_new e)"
proof (induction p arbitrary: oo nn S U)
  case Nil
  then have fits: "edit_fits oo nn e S U"
    and "length (drop (rng_end (e_old e) - oo) S) = length (drop (rng_end (e_new e) - nn) U)" by simp_all
  with edit_fits_length [OF fits] show ?case unfolding edit_fits_def by linarith
next
  case (Cons f p)
  then have fits: "edit_fits oo nn f S U" and "patch_rel (rng_end (e_old f)) (rng_end (e_new f)) (p @ [e])
      (drop (rng_end (e_old f) - oo) S) (drop (rng_end (e_new f) - nn) U)" by simp_all
  from Cons.IH [OF this(2)] edit_fits_length [OF fits] show ?case by simp
qed

lemma patch_rel_snoc:
  "patch_rel oo nn p S U \<Longrightarrow>
     patch_rel oo nn
       (p @ [mk_edit (oo + length S + length x) (oo + length S + length x + length d)
                     (nn + length U + length x) (nn + length U + length x + length i)])
       (S @ x @ d) (U @ x @ i)"
proof (induction p arbitrary: oo nn S U)
  case Nil
  then show ?case by (simp add: edit_fits_def)
next
  case (Cons f p)
  let ?S = "drop (rng_end (e_old f) - oo) S" and ?U = "drop (rng_end (e_new f) - nn) U"
  have fits: "edit_fits oo nn f S U" and "patch_rel (rng_end (e_old f)) (rng_end (e_new f)) p ?S ?U"
    using Cons.prems by simp_all
  note IH = Cons.IH [OF this(2), unfolded edit_fits_length [OF fits, THEN conjunct1] edit_fits_length [OF fits, THEN conjunct2]]
  show ?case unfolding append_Cons patch_rel.simps
    using IH by (simp only: edit_fits_append(1) [OF fits] edit_fits_append(2) [OF fits] edit_fits_append(3) [OF fits] simp_thms)
qed

lemma patch_rel_merge:
  "patch_rel oo nn (p @ [mk_edit a b c d]) S U \<Longrightarrow> oo + length S \<le> b \<Longrightarrow>
     patch_rel oo nn (p @ [mk_edit a (oo + length S + length x) c (nn + length U + length y)]) (S @ x) (U @ y)"
proof (induction p arbitrary: oo nn S U)
  case Nil
  then have fits: "edit_fits oo nn (mk_edit a b c d) S U" by simp
  then have "a - oo \<le> length S" "a - oo \<le> length U" "a \<le> oo + length S" "c \<le> nn + length U"
    unfolding edit_fits_def mk_edit_simps by linarith+
  with fits show ?case by (simp add: edit_fits_def)
next
  case (Cons f p)
  let ?S = "drop (rng_end (e_old f) - oo) S" and ?U = "drop (rng_end (e_new f) - nn) U"
  have fits: "edit_fits oo nn f S U"
    and "patch_rel (rng_end (e_old f)) (rng_end (e_new f)) (p @ [mk_edit a b c d]) ?S ?U"
    using Cons.prems(1) by simp_all
  note IH = Cons.IH [OF this(2), unfolded edit_fits_length [OF fits, THEN conjunct1] edit_fits_length [OF fits, THEN conjunct2],
      OF Cons.prems(2)]
  show ?case unfolding append_Cons patch_rel.simps
    using IH by (simp only: edit_fits_append(1) [OF fits] edit_fits_append(2) [OF fits] edit_fits_append(3) [OF fits] simp_thms)
qed

lemma patch_push_rel:
  assumes "patch_rel 0 0 p (take m S) (take n U)" "patch_new_ok p"
    and "take j (drop m S) = take j (drop n U)"
    and "m + j + a \<le> length S" "n + j + b \<le> length U"
  shows "patch_rel 0 0 (patch_push p (mk_edit (m + j) (m + j + a) (n + j) (n + j + b)))
      (take (m + j + a) S) (take (n + j + b) U) \<and>
    patch_new_ok (patch_push p (mk_edit (m + j) (m + j + a) (n + j) (n + j + b)))"
proof -
  let ?e = "mk_edit (m + j) (m + j + a) (n + j) (n + j + b)"
  let ?x = "take j (drop m S)" and ?d = "take a (drop (m + j) S)" and ?i = "take b (drop (n + j) U)"
  have S: "take (m + j + a) S = take m S @ ?x @ ?d" by (simp add: take_add)
  have U: "take (n + j + b) U = take n U @ ?x @ ?i" by (simp add: take_add assms(3))
  have len: "length (take m S) = m" "length (take n U) = n" "length ?x = j" "length ?d = a" "length ?i = b"
    using assms(4,5) by simp_all
  show ?thesis
  proof (cases "edit_is_empty ?e")
    case True
    then have "a = 0" "b = 0" by (simp_all add: edit_is_empty_def)
    then have d: "?d = []" "?i = []" by simp_all
    show ?thesis
      using True assms(2) patch_rel_append [OF assms(1), of ?x] unfolding S U d by (simp add: patch_push_def)
  next
    case False
    note push = patch_push_def if_not_P [OF False] push_maybe_empty_def
    have snoc: "patch_rel 0 0 (p @ [?e]) (take m S @ ?x @ ?d) (take n U @ ?x @ ?i)"
      using patch_rel_snoc [OF assms(1), of ?x ?d ?i] unfolding len by simp
    show ?thesis
    proof (cases p rule: rev_cases)
      case Nil
      with snoc show ?thesis unfolding S U by (simp add: push patch_new_ok_def)
    next
      case (snoc q l)
      obtain la lb lc ld where l: "l = mk_edit la lb lc ld" by (cases l)
      have lrel: "patch_rel 0 0 (q @ [mk_edit la lb lc ld]) (take m S) (take n U)" using assms(1) snoc l by simp
      from patch_rel_last [OF this] have last: "lb \<le> m" "ld \<le> n" "m - lb = n - ld" unfolding len by simp_all
      show ?thesis
      proof (cases "m + j \<le> lb")
        case True
        then have j: "j = 0" "lb = m" "ld = n" "?x = []" using last by auto
        have push_eq: "patch_push p ?e = q @ [mk_edit la (m + a) lc (n + b)]"
          using False True snoc l j by (simp add: push mk_edit_def)
        have "patch_rel 0 0 (q @ [mk_edit la (m + a) lc (n + b)]) (take m S @ ?d) (take n U @ ?i)"
          using patch_rel_merge [OF lrel, of ?d ?i] j unfolding len by simp
        moreover have "patch_new_ok (q @ [mk_edit la (m + a) lc (n + b)])"
          using assms(2) unfolding snoc l patch_new_ok_successively
          by (simp add: successively_append_iff)
        ultimately show ?thesis unfolding S U push_eq j(4) append_Nil ..
      next
        case False
        then have push_eq: "patch_push p ?e = p @ [?e]" using snoc l by (simp add: push)
        have "patch_new_ok (p @ [?e])"
          using assms(2) False last unfolding snoc l patch_new_ok_successively
          by (auto simp: successively_append_iff)
        with push_eq show ?thesis
          using patch_rel_snoc [OF assms(1), of ?x ?d ?i] unfolding S U len by simp
      qed
    qed
  qed
qed

subsection \<open>The composition\<close>

lemma patch_rel_Cons:
  assumes "m \<le> length S" "n \<le> length T"
  shows "patch_rel m n (mk_edit a b c d # es) (drop m S) (drop n T) \<longleftrightarrow>
    m \<le> a \<and> a \<le> b \<and> b \<le> length S \<and> c = n + (a - m) \<and> c \<le> d \<and> d \<le> length T \<and>
    take (a - m) (drop m S) = take (a - m) (drop n T) \<and> patch_rel b d es (drop b S) (drop d T)"
    (is "?l \<longleftrightarrow> ?r")
proof -
  have fits: "edit_fits m n (mk_edit a b c d) (drop m S) (drop n T) \<longleftrightarrow>
      m \<le> a \<and> a \<le> b \<and> b \<le> length S \<and> c = n + (a - m) \<and> c \<le> d \<and> d \<le> length T \<and>
      take (a - m) (drop m S) = take (a - m) (drop n T)"
    unfolding edit_fits_def using assms by auto
  then show ?thesis by (auto simp: )
qed

lemma patch_rel_gap:
  assumes "patch_rel m n p (drop m S) (drop n T)" "m \<le> length S" "n \<le> length T"
    and "p = [] \<Longrightarrow> m + j \<le> length S \<or> n + j \<le> length T"
    and "\<And>e es. p = e # es \<Longrightarrow> m + j \<le> rng_start (e_old e) \<or> n + j \<le> rng_start (e_new e)"
  shows "take j (drop m S) = take j (drop n T)" "patch_rel (m + j) (n + j) p (drop (m + j) S) (drop (n + j) T)"
    "m + j \<le> length S" "n + j \<le> length T"
proof -
  have "take j (drop m S) = take j (drop n T) \<and> patch_rel (m + j) (n + j) p (drop (m + j) S) (drop (n + j) T) \<and>
    m + j \<le> length S \<and> n + j \<le> length T"
  proof (cases p)
    case Nil
    then have eq: "drop m S = drop n T" using assms(1) by simp
    then have "length S - m = length T - n" by (metis length_drop)
    moreover have "drop (m + j) S = drop (n + j) T" using eq by (metis drop_drop add.commute)
    ultimately show ?thesis using Nil eq assms(2-4) by auto
  next
    case (Cons e es)
    obtain a b c d where e: "e = mk_edit a b c d" by (cases e)
    note rel = assms(1) [unfolded Cons e patch_rel_Cons [OF assms(2,3)]]
    have j: "m + j \<le> a" using assms(5) [OF Cons] rel e by auto
    have "take j (take (a - m) (drop m S)) = take j (take (a - m) (drop n T))" using rel by simp
    then have take: "take j (drop m S) = take j (drop n T)" using j by (simp add: min_absorb1 le_diff_conv2)
    have len: "m + j \<le> length S" "n + j \<le> length T" using rel j by linarith+
    have "drop j (take (a - m) (drop m S)) = drop j (take (a - m) (drop n T))" using rel by simp
    then have "take (a - (m + j)) (drop (m + j) S) = take (a - (m + j)) (drop (n + j) T)"
      by (simp add: drop_take add.commute)
    then show ?thesis
      unfolding Cons e patch_rel_Cons [OF len] using rel take len j by auto
  qed
  then show "take j (drop m S) = take j (drop n T)" "patch_rel (m + j) (n + j) p (drop (m + j) S) (drop (n + j) T)"
    "m + j \<le> length S" "n + j \<le> length T" by simp_all
qed

definition composing_inv ::
  "'c list \<Rightarrow> 'c list \<Rightarrow> 'c list \<Rightarrow> composing \<Rightarrow> nat \<Rightarrow> text_edit list \<Rightarrow> text_edit list \<Rightarrow> bool" where
  "composing_inv S T U c m olds news \<longleftrightarrow>
     patch_rel 0 0 (composed c) (take (old_start c) S) (take (new_start c) U) \<and> patch_new_ok (composed c) \<and>
     old_start c \<le> length S \<and> m \<le> length T \<and> new_start c \<le> length U \<and>
     patch_rel (old_start c) m olds (drop (old_start c) S) (drop m T) \<and>
     patch_rel m (new_start c) news (drop m T) (drop (new_start c) U)"

lemma composing_inv_push:
  assumes "composing_inv S T U c m olds news"
    and "take j (drop (old_start c) S) = take j (drop (new_start c) U)"
    and "old_start c + j + a \<le> length S" "new_start c + j + b \<le> length U" "m' \<le> length T"
    and "patch_rel (old_start c + j + a) m' olds' (drop (old_start c + j + a) S) (drop m' T)"
    and "patch_rel m' (new_start c + j + b) news' (drop m' T) (drop (new_start c + j + b) U)"
    and "os = old_start c + j" "os' = old_start c + j + a" "ns = new_start c + j" "ns' = new_start c + j + b"
  shows "composing_inv S T U \<lparr>composed = patch_push (composed c) (mk_edit os os' ns ns'),
      old_start = os', new_start = ns'\<rparr> m' olds' news'"
  using assms patch_push_rel [of "composed c" "old_start c" S "new_start c" U j a b]
  by (simp add: composing_inv_def)

text \<open>The offsets of the next edit in additive form.\<close>

lemma patch_rel_ConsE:
  assumes "patch_rel m n (e # es) (drop m S) (drop n T)" "m \<le> length S" "n \<le> length T"
  obtains k x y where "e = mk_edit (m + k) (m + k + x) (n + k) (n + k + y)"
    "m + k + x \<le> length S" "n + k + y \<le> length T" "take k (drop m S) = take k (drop n T)"
    "patch_rel (m + k + x) (n + k + y) es (drop (m + k + x) S) (drop (n + k + y) T)"
proof -
  obtain a b c d where e: "e = mk_edit a b c d" by (cases e)
  note rel = assms(1) [unfolded e patch_rel_Cons [OF assms(2,3)]]
  obtain k where k: "a = m + k" using rel le_iff_add by blast
  obtain x where x: "b = a + x" using rel le_iff_add by blast
  obtain y where y: "d = c + y" using rel le_iff_add by blast
  have "c = n + k" using rel k by simp
  with rel k x y e show thesis by (intro that [of k x y]) simp_all
qed

lemma patch_rel_ConsI:
  assumes "m + k + x \<le> length S" "n + k + y \<le> length T" "take k (drop m S) = take k (drop n T)"
    and "patch_rel (m + k + x) (n + k + y) es (drop (m + k + x) S) (drop (n + k + y) T)"
  shows "patch_rel m n (mk_edit (m + k) (m + k + x) (n + k) (n + k + y) # es) (drop m S) (drop n T)"
proof -
  have "m \<le> length S" "n \<le> length T" using assms(1,2) by simp_all
  from patch_rel_Cons [OF this, of "m + k" "m + k + x" "n + k" "n + k + y" es] assms show ?thesis by simp
qed

lemma take_prefix_eq: "take (k + l) xs = take (k + l) ys \<Longrightarrow> take k xs = take k ys"
  by (metis le_add1 min.absorb1 take_take)

text \<open>The four blocks of the loop keep the invariant.\<close>

lemma compose_push_old:
  assumes "composing_inv S T U c m (e # olds) news"
    and "\<And>f fs. news = f # fs \<Longrightarrow> rng_end (e_new e) \<le> rng_start (e_old f)"
  shows "\<exists>c' m'. compose_push_old e c = Some c' \<and> composing_inv S T U c' m' olds news"
proof -
  let ?o = "old_start c" and ?n = "new_start c"
  have bounds: "?o \<le> length S" "m \<le> length T" "?n \<le> length U"
    and rels: "patch_rel ?o m (e # olds) (drop ?o S) (drop m T)" "patch_rel m ?n news (drop m T) (drop ?n U)"
    using assms(1) by (simp_all add: composing_inv_def)
  obtain k x y where e: "e = mk_edit (?o + k) (?o + k + x) (m + k) (m + k + y)"
    and len: "?o + k + x \<le> length S" "m + k + y \<le> length T" and take: "take k (drop ?o S) = take k (drop m T)"
    and rel: "patch_rel (?o + k + x) (m + k + y) olds (drop (?o + k + x) S) (drop (m + k + y) T)"
    by (rule patch_rel_ConsE [OF rels(1) bounds(1,2)])
  have gap: "take (k + y) (drop m T) = take (k + y) (drop ?n U)"
    "patch_rel (m + (k + y)) (?n + (k + y)) news (drop (m + (k + y)) T) (drop (?n + (k + y)) U)"
    "?n + (k + y) \<le> length U"
    by (rule patch_rel_gap [OF rels(2) bounds(2,3)]; use assms(2) len e in \<open>simp add: add.assoc\<close>)+
  have "composing_inv S T U \<lparr>composed = patch_push (composed c)
        (mk_edit (?o + k) (?o + k + x) (?n + k) (?n + k + y)), old_start = ?o + k + x, new_start = ?n + k + y\<rparr>
      (m + k + y) olds news"
    by (rule composing_inv_push [OF assms(1), where j = k and a = x and b = y])
      (use len rel gap take take_prefix_eq [OF gap(1)] in \<open>simp_all add: add.assoc\<close>)
  moreover have "compose_push_old e c = Some \<lparr>composed = patch_push (composed c)
        (mk_edit (?o + k) (?o + k + x) (?n + k) (?n + k + y)), old_start = ?o + k + x, new_start = ?n + k + y\<rparr>"
    by (simp add: compose_push_old_def e edit_old_len_def edit_new_len_def Let_def)
  ultimately show ?thesis by blast
qed

lemma compose_push_new:
  assumes "composing_inv S T U c m olds (f # news)"
    and "\<And>e es. olds = e # es \<Longrightarrow> rng_end (e_old f) \<le> rng_start (e_new e)"
  shows "\<exists>c' m'. compose_push_new f c = Some c' \<and> composing_inv S T U c' m' olds news"
proof -
  let ?o = "old_start c" and ?n = "new_start c"
  have bounds: "?o \<le> length S" "m \<le> length T" "?n \<le> length U"
    and rels: "patch_rel ?o m olds (drop ?o S) (drop m T)" "patch_rel m ?n (f # news) (drop m T) (drop ?n U)"
    using assms(1) by (simp_all add: composing_inv_def)
  obtain k x y where f: "f = mk_edit (m + k) (m + k + x) (?n + k) (?n + k + y)"
    and len: "m + k + x \<le> length T" "?n + k + y \<le> length U" and take: "take k (drop m T) = take k (drop ?n U)"
    and rel: "patch_rel (m + k + x) (?n + k + y) news (drop (m + k + x) T) (drop (?n + k + y) U)"
    by (rule patch_rel_ConsE [OF rels(2) bounds(2,3)])
  have gap: "take (k + x) (drop ?o S) = take (k + x) (drop m T)"
    "patch_rel (?o + (k + x)) (m + (k + x)) olds (drop (?o + (k + x)) S) (drop (m + (k + x)) T)"
    "?o + (k + x) \<le> length S"
    by (rule patch_rel_gap [OF rels(1) bounds(1,2)]; use assms(2) len f in \<open>simp add: add.assoc\<close>)+
  have "composing_inv S T U \<lparr>composed = patch_push (composed c)
        (mk_edit (?o + k) (?o + k + x) (?n + k) (?n + k + y)), old_start = ?o + k + x, new_start = ?n + k + y\<rparr>
      (m + k + x) olds news"
    by (rule composing_inv_push [OF assms(1), where j = k and a = x and b = y])
      (use len rel gap take take_prefix_eq [OF gap(1)] in \<open>simp_all add: add.assoc\<close>)
  moreover have "compose_push_new f c = Some \<lparr>composed = patch_push (composed c)
        (mk_edit (?o + k) (?o + k + x) (?n + k) (?n + k + y)), old_start = ?o + k + x, new_start = ?n + k + y\<rparr>"
    by (simp add: compose_push_new_def f edit_old_len_def edit_new_len_def Let_def)
  ultimately show ?thesis by blast
qed

text \<open>After aligning, both edits start at the current offsets.\<close>

definition aligned :: "composing \<Rightarrow> nat \<Rightarrow> text_edit \<Rightarrow> text_edit \<Rightarrow> bool" where
  "aligned c m e f \<longleftrightarrow>
     rng_start (e_old e) = old_start c \<and> rng_start (e_new e) = m \<and>
     rng_start (e_old f) = m \<and> rng_start (e_new f) = new_start c"

lemma compose_align:
  assumes inv: "composing_inv S T U c m (e # olds) (f # news)"
    and meet: "rng_start (e_old f) \<le> rng_end (e_new e)" "rng_start (e_new e) \<le> rng_end (e_old f)"
  shows "\<exists>e' f' c' m'. compose_align e f c = Some (e', f', c') \<and>
    composing_inv S T U c' m' (e' # olds) (f' # news) \<and> aligned c' m' e' f'"
proof -
  let ?o = "old_start c" and ?n = "new_start c"
  have bounds: "?o \<le> length S" "m \<le> length T" "?n \<le> length U"
    and rels: "patch_rel ?o m (e # olds) (drop ?o S) (drop m T)" "patch_rel m ?n (f # news) (drop m T) (drop ?n U)"
    using inv by (simp_all add: composing_inv_def)
  obtain k x y where e: "e = mk_edit (?o + k) (?o + k + x) (m + k) (m + k + y)"
    and elen: "?o + k + x \<le> length S" "m + k + y \<le> length T"
    and etake: "take k (drop ?o S) = take k (drop m T)"
    and erel: "patch_rel (?o + k + x) (m + k + y) olds (drop (?o + k + x) S) (drop (m + k + y) T)"
    by (rule patch_rel_ConsE [OF rels(1) bounds(1,2)])
  obtain l u v where f: "f = mk_edit (m + l) (m + l + u) (?n + l) (?n + l + v)"
    and flen: "m + l + u \<le> length T" "?n + l + v \<le> length U"
    and ftake: "take l (drop m T) = take l (drop ?n U)"
    and frel: "patch_rel (m + l + u) (?n + l + v) news (drop (m + l + u) T) (drop (?n + l + v) U)"
    by (rule patch_rel_ConsE [OF rels(2) bounds(2,3)])
  show ?thesis
  proof (cases "k < l")
    case True
    then obtain w where w: "l = k + w" using less_imp_add_positive by blast
    have "w \<le> y" using meet(1) w by (simp add: e f)
    then obtain z where z: "y = w + z" using le_iff_add by blast
    define t where "t = min w x"
    then obtain x2 where x2: "x = t + x2" using le_iff_add [of t x] by auto
    have t: "min (?o + k + w) (?o + k + x) = ?o + k + t" by (simp add: t_def)
    let ?e = "mk_edit (?o + k + t) (?o + k + x) (m + k + w) (m + k + y)"
    let ?c = "\<lparr>composed = patch_push (composed c) (mk_edit (?o + k) (?o + k + t) (?n + k) (?n + k + w)),
        old_start = ?o + k + t, new_start = ?n + k + w\<rparr>"
    have run: "compose_align e f c = Some (?e, f, ?c)"
      using True w t by (simp add: compose_align_def e f Let_def add.assoc [symmetric])
    have old: "patch_rel (?o + k + t) (m + k + w) (?e # olds) (drop (?o + k + t) S) (drop (m + k + w) T)"
      using patch_rel_ConsI [of "?o + k + t" 0 x2 S "m + k + w" z T olds] elen erel
      by (simp add: x2 z add.assoc)
    have new: "patch_rel (m + k + w) (?n + k + w) (f # news) (drop (m + k + w) T) (drop (?n + k + w) U)"
      using patch_rel_ConsI [of "m + k + w" 0 u T "?n + k + w" v U news] flen frel
      by (simp add: f w add.assoc)
    have "composing_inv S T U ?c (m + k + w) (?e # olds) (f # news)"
      by (rule composing_inv_push [OF inv, where j = k and a = t and b = w])
        (use etake take_prefix_eq [OF ftake [unfolded w]] elen flen old new w x2 z in simp_all)
    moreover have "aligned ?c (m + k + w) ?e f" by (simp add: aligned_def f w add.assoc)
    ultimately show ?thesis using run by blast
  next
    case False
    then obtain w where w: "k = l + w" using le_iff_add [of l k] by auto
    have "w \<le> u" using meet(2) w by (simp add: e f)
    then obtain z where z: "u = w + z" using le_iff_add by blast
    define t where "t = min w v"
    then obtain v2 where v2: "v = t + v2" using le_iff_add [of t v] by auto
    have t: "min (?n + l + w) (?n + l + v) = ?n + l + t" by (simp add: t_def)
    let ?f = "mk_edit (m + l + w) (m + l + u) (?n + l + t) (?n + l + v)"
    let ?c = "\<lparr>composed = patch_push (composed c) (mk_edit (?o + l) (?o + l + w) (?n + l) (?n + l + t)),
        old_start = ?o + l + w, new_start = ?n + l + t\<rparr>"
    have run: "compose_align e f c = Some (e, ?f, ?c)"
      using w t by (simp add: compose_align_def e f Let_def add.assoc [symmetric])
    have new: "patch_rel (m + l + w) (?n + l + t) (?f # news) (drop (m + l + w) T) (drop (?n + l + t) U)"
      using patch_rel_ConsI [of "m + l + w" 0 z T "?n + l + t" v2 U news] flen frel
      by (simp add: v2 z add.assoc)
    have old: "patch_rel (?o + l + w) (m + l + w) (e # olds) (drop (?o + l + w) S) (drop (m + l + w) T)"
      using patch_rel_ConsI [of "?o + l + w" 0 x S "m + l + w" y T olds] elen erel
      by (simp add: e w add.assoc)
    have "composing_inv S T U ?c (m + l + w) (e # olds) (?f # news)"
      by (rule composing_inv_push [OF inv, where j = l and a = w and b = t])
        (use ftake take_prefix_eq [OF etake [unfolded w]] elen flen old new w v2 z in simp_all)
    moreover have "aligned ?c (m + l + w) e ?f" by (simp add: aligned_def e w add.assoc)
    ultimately show ?thesis using run by blast
  qed
qed

lemma compose_overlap:
  assumes inv: "composing_inv S T U c m (e # olds) (f # news)" and "aligned c m e f"
  shows "\<exists>r c' m'. compose_overlap e f c = Some (r, c') \<and>
    composing_inv S T U c' m'
      (case r of Inl e' \<Rightarrow> e' # olds | Inr _ \<Rightarrow> olds) (case r of Inl _ \<Rightarrow> news | Inr f' \<Rightarrow> f' # news)"
proof -
  let ?o = "old_start c" and ?n = "new_start c"
  have bounds: "?o \<le> length S" "m \<le> length T" "?n \<le> length U"
    and rels: "patch_rel ?o m (e # olds) (drop ?o S) (drop m T)" "patch_rel m ?n (f # news) (drop m T) (drop ?n U)"
    using inv by (simp_all add: composing_inv_def)
  obtain k x y where e: "e = mk_edit (?o + k) (?o + k + x) (m + k) (m + k + y)"
    and elen: "?o + k + x \<le> length S" "m + k + y \<le> length T"
    and erel: "patch_rel (?o + k + x) (m + k + y) olds (drop (?o + k + x) S) (drop (m + k + y) T)"
    by (rule patch_rel_ConsE [OF rels(1) bounds(1,2)])
  obtain l u v where f: "f = mk_edit (m + l) (m + l + u) (?n + l) (?n + l + v)"
    and flen: "m + l + u \<le> length T" "?n + l + v \<le> length U"
    and frel: "patch_rel (m + l + u) (?n + l + v) news (drop (m + l + u) T) (drop (?n + l + v) U)"
    by (rule patch_rel_ConsE [OF rels(2) bounds(2,3)])
  have [simp]: "k = 0" "l = 0" using assms(2) by (simp_all add: aligned_def e f)
  show ?thesis
  proof (cases "u < y")
    case True
    then obtain w where w: "y = u + w" using less_imp_add_positive by blast
    define t where "t = min x u"
    then obtain x2 where x2: "x = t + x2" using le_iff_add [of t x] by auto
    let ?e = "mk_edit (?o + t) (?o + x) (m + u) (m + y)"
    let ?c = "\<lparr>composed = patch_push (composed c) (mk_edit ?o (?o + t) ?n (?n + v)),
        old_start = ?o + t, new_start = ?n + v\<rparr>"
    have run: "compose_overlap e f c = Some (Inl ?e, ?c)"
      using True by (simp add: compose_overlap_def e f edit_old_len_def edit_new_len_def Let_def t_def)
    have old: "patch_rel (?o + t) (m + u) (?e # olds) (drop (?o + t) S) (drop (m + u) T)"
      using patch_rel_ConsI [of "?o + t" 0 x2 S "m + u" w T olds] elen erel
      by (simp add: x2 w add.assoc)
    have "composing_inv S T U ?c (m + u) (?e # olds) news"
      by (rule composing_inv_push [OF inv, where j = 0 and a = t and b = v])
        (use elen flen old frel x2 in simp_all)
    with run show ?thesis by (intro exI [of _ "Inl ?e"] exI [of _ ?c] exI [of _ "m + u"]) simp
  next
    case False
    then obtain w where w: "u = y + w" using le_iff_add [of y u] by auto
    define t where "t = min y v"
    then obtain v2 where v2: "v = t + v2" using le_iff_add [of t v] by auto
    let ?f = "mk_edit (m + y) (m + u) (?n + t) (?n + v)"
    let ?c = "\<lparr>composed = patch_push (composed c) (mk_edit ?o (?o + x) ?n (?n + t)),
        old_start = ?o + x, new_start = ?n + t\<rparr>"
    have run: "compose_overlap e f c = Some (Inr ?f, ?c)"
      using False by (simp add: compose_overlap_def e f edit_old_len_def edit_new_len_def Let_def t_def)
    have new: "patch_rel (m + y) (?n + t) (?f # news) (drop (m + y) T) (drop (?n + t) U)"
      using patch_rel_ConsI [of "m + y" 0 w T "?n + t" v2 U news] flen frel
      by (simp add: v2 w add.assoc)
    have "composing_inv S T U ?c (m + y) olds (?f # news)"
      by (rule composing_inv_push [OF inv, where j = 0 and a = x and b = t])
        (use elen flen new erel v2 in simp_all)
    with run show ?thesis by (intro exI [of _ "Inr ?f"] exI [of _ ?c] exI [of _ "m + y"]) simp
  qed
qed

lemma compose_loop_inv:
  "composing_inv S T U c m olds news \<Longrightarrow> \<exists>c' m'. compose_loop olds news c = Some c' \<and> composing_inv S T U c' m' [] []"
proof (induction olds news c arbitrary: m rule: compose_loop.induct)
  case (1 c)
  then show ?case by auto
next
  case (2 e olds c)
  from compose_push_old [OF 2(2)] obtain c' m'
    where "compose_push_old e c = Some c'" "composing_inv S T U c' m' olds []" by auto
  with 2(1) [of c' m'] show ?case by simp
next
  case (3 f news c)
  from compose_push_new [OF 3(2)] obtain c' m'
    where "compose_push_new f c = Some c'" "composing_inv S T U c' m' [] news" by auto
  with 3(1) [of c' m'] show ?case by simp
next
  case (4 e olds f news c)
  consider (old) "rng_end (e_new e) < rng_start (e_old f)"
    | (new) "\<not> rng_end (e_new e) < rng_start (e_old f)" "rng_end (e_old f) < rng_start (e_new e)"
    | (meet) "\<not> rng_end (e_new e) < rng_start (e_old f)" "\<not> rng_end (e_old f) < rng_start (e_new e)" by blast
  then show ?case
  proof cases
    case old
    then obtain c' m' where "compose_push_old e c = Some c'" "composing_inv S T U c' m' olds (f # news)"
      using compose_push_old [OF 4(5)] by auto
    with 4(1) [of c' m'] old show ?thesis by simp
  next
    case new
    then obtain c' m' where "compose_push_new f c = Some c'" "composing_inv S T U c' m' (e # olds) news"
      using compose_push_new [OF 4(5)] by auto
    with 4(2) [of c' m'] new show ?thesis by simp
  next
    case meet
    then have "rng_start (e_old f) \<le> rng_end (e_new e)" "rng_start (e_new e) \<le> rng_end (e_old f)" by simp_all
    from compose_align [OF 4(5) this] obtain e' f' c' m' where align: "compose_align e f c = Some (e', f', c')"
      and inv': "composing_inv S T U c' m' (e' # olds) (f' # news)" "aligned c' m' e' f'" by blast
    from compose_overlap [OF inv'] obtain r c'' m'' where overlap: "compose_overlap e' f' c' = Some (r, c'')"
      and inv'': "composing_inv S T U c'' m''
        (case r of Inl e' \<Rightarrow> e' # olds | Inr _ \<Rightarrow> olds) (case r of Inl _ \<Rightarrow> news | Inr f' \<Rightarrow> f' # news)" by blast
    show ?thesis
    proof (cases r)
      case (Inl g)
      then show ?thesis using meet align overlap inv'' 4(3) [OF meet align refl refl overlap refl Inl, of m''] by simp
    next
      case (Inr g)
      then show ?thesis using meet align overlap inv'' 4(4) [OF meet align refl refl overlap refl Inr, of m''] by simp
    qed
  qed
qed

lemma patch_compose:
  assumes "patch_rel 0 0 p S T" "patch_rel 0 0 q T U"
  shows "\<exists>r. patch_compose p q = Some r \<and> patch_rel 0 0 r S U \<and> patch_new_ok r"
proof -
  have "composing_inv S T U \<lparr>composed = [], old_start = 0, new_start = 0\<rparr> 0 p q"
    using assms by (simp add: composing_inv_def patch_new_ok_def)
  from compose_loop_inv [OF this] obtain c m where
    run: "compose_loop p q \<lparr>composed = [], old_start = 0, new_start = 0\<rparr> = Some c"
    and inv: "composing_inv S T U c m [] []" by blast
  from inv have rel: "patch_rel 0 0 (composed c) (take (old_start c) S) (take (new_start c) U)"
    and rest: "drop (old_start c) S = drop (new_start c) U" and ok: "patch_new_ok (composed c)"
    by (simp_all add: composing_inv_def)
  have "patch_rel 0 0 (composed c) S U"
    using patch_rel_append [OF rel, of "drop (old_start c) S"] rest append_take_drop_id by metis
  with run ok show ?thesis by (simp add: patch_compose_def)
qed

section \<open>Inverse and translation of offsets\<close>

lemma patch_rel_invert:
  "patch_rel m n p s t \<Longrightarrow> patch_rel n m (patch_invert p) t s"
proof (induction p arbitrary: m n s t)
  case (Cons e p)
  then have fits: "edit_fits m n e s t" by simp
  then have eq: "rng_start (e_new e) - n = rng_start (e_old e) - m" by (simp add: edit_fits_def)
  have "edit_fits n m (e\<lparr>e_old := e_new e, e_new := e_old e\<rparr>) t s"
    using fits eq by (auto simp: edit_fits_def)
  with Cons show ?case by (simp add: patch_invert_def)
qed (simp add: patch_invert_def)

text \<open>The edits of a patch are ordered on both sides.\<close>

lemma patch_rel_sorted:
  "patch_rel m n p s t \<Longrightarrow>
     sorted_wrt (\<lambda>e f. rng_end (e_old e) \<le> rng_start (e_old f) \<and> rng_end (e_new e) \<le> rng_start (e_new f)) p \<and>
     (\<forall>e \<in> set p. m \<le> rng_start (e_old e) \<and> rng_start (e_old e) \<le> rng_end (e_old e) \<and>
       n \<le> rng_start (e_new e) \<and> rng_start (e_new e) \<le> rng_end (e_new e))"
proof (induction p arbitrary: m n s t)
  case (Cons e p)
  then have fits: "edit_fits m n e s t" and rel: "patch_rel (rng_end (e_old e)) (rng_end (e_new e)) p
      (drop (rng_end (e_old e) - m) s) (drop (rng_end (e_new e) - n) t)" by simp_all
  from Cons.IH [OF rel] fits show ?case unfolding edit_fits_def by fastforce
qed simp

text \<open>The edit found for an offset, as a split of the patch.\<close>

lemma edit_index_cases:
  assumes "patch_rel 0 0 p S T"
  obtains (before) "edit_index p i = None" "\<forall>e \<in> set p. i < rng_start (e_old e)"
  | (found) l e r where "edit_index p i = Some (length l)" "p = l @ e # r"
      "rng_start (e_old e) \<le> i" "\<forall>f \<in> set r. i < rng_start (e_old f)"
proof -
  let ?f = "\<lambda>probe. cmp (rng_start (e_old probe)) i"
  have "sorted_for ?f p"
    unfolding sorted_for_def
    by (rule sorted_wrt_mono_rel [OF _ patch_rel_sorted [OF assms, THEN conjunct1]])
      (use patch_rel_sorted [OF assms, THEN conjunct2] in force)
  note search = binary_search_by [OF this]
  have split: thesis if ix: "edit_index p i = Some ix" and "ix < length p" "rng_start (e_old (p ! ix)) \<le> i"
    and after: "\<And>j. ix < j \<Longrightarrow> j < length p \<Longrightarrow> i < rng_start (e_old (p ! j))" for ix
  proof (rule found)
    show "edit_index p i = Some (length (take ix p))" using ix that(2) by simp
    show "p = take ix p @ p ! ix # drop (Suc ix) p" using that(2) by (rule id_take_nth_drop)
    show "\<forall>f \<in> set (drop (Suc ix) p). i < rng_start (e_old f)"
      using after by (auto simp: in_set_conv_nth)
  qed (rule that(3))
  show thesis
  proof (cases "binary_search_by ?f p")
    case (Inl ix)
    then show thesis using search by (intro split [of ix]) (simp_all add: edit_index_def)
  next
    case (Inr ix)
    show thesis
    proof (cases ix)
      case 0
      then show thesis using search Inr by (intro before) (auto simp: edit_index_def in_set_conv_nth)
    next
      case (Suc k)
      have "rng_start (e_old (p ! k)) < i" using search Inr Suc by simp
      then show thesis using search Inr Suc by (intro split [of k]) (auto simp: edit_index_def)
    qed
  qed
qed

lemma patch_rel_before:
  assumes "patch_rel m n p s t" "\<forall>e \<in> set p. i < rng_start (e_old e)" "m \<le> i"
  shows "\<forall>e \<in> set p. n + (i - m) < rng_start (e_new e)"
    "i < m + length s \<Longrightarrow> i - m < length t \<and> t ! (i - m) = s ! (i - m)"
proof -
  have "(\<forall>e \<in> set p. n + (i - m) < rng_start (e_new e)) \<and>
    (i < m + length s \<longrightarrow> i - m < length t \<and> t ! (i - m) = s ! (i - m))"
  proof (cases p)
    case Nil
    then show ?thesis using assms by auto
  next
    case (Cons e es)
    then have fits: "edit_fits m n e s t" using assms(1) by simp
    have order: "\<forall>f \<in> set es. rng_end (e_new e) \<le> rng_start (e_new f)"
      using patch_rel_sorted [OF assms(1)] Cons by simp
    have lt: "i - m < rng_start (e_old e) - m" using assms(2,3) Cons by auto
    have first: "n + (i - m) < rng_start (e_new e)" using fits lt by (simp add: edit_fits_def)
    have len: "i - m < length t" using fits first unfolding edit_fits_def by linarith
    have "take (rng_start (e_old e) - m) s ! (i - m) = take (rng_start (e_old e) - m) t ! (i - m)"
      using fits by (simp add: edit_fits_def)
    with lt have "t ! (i - m) = s ! (i - m)" by simp
    moreover have "n + (i - m) < rng_start (e_new f)" if "f \<in> set es" for f
      using order that first fits unfolding edit_fits_def by fastforce
    ultimately show ?thesis using Cons first len by auto
  qed
  then show "\<forall>e \<in> set p. n + (i - m) < rng_start (e_new e)"
    "i < m + length s \<Longrightarrow> i - m < length t \<and> t ! (i - m) = s ! (i - m)" by blast+
qed

lemma patch_rel_split:
  "patch_rel m n (l @ e # r) (drop m S) (drop n T) \<Longrightarrow> m \<le> length S \<Longrightarrow> n \<le> length T \<Longrightarrow>
     patch_rel (rng_end (e_old e)) (rng_end (e_new e)) r (drop (rng_end (e_old e)) S) (drop (rng_end (e_new e)) T) \<and>
     rng_end (e_old e) \<le> length S \<and> rng_end (e_new e) \<le> length T"
proof (induction l arbitrary: m n)
  case Nil
  then show ?case by (cases e) (simp add: patch_rel_Cons del: patch_rel.simps)
next
  case (Cons f l)
  obtain a b c d where f: "f = mk_edit a b c d" by (cases f)
  have "b \<le> length S \<and> d \<le> length T \<and> patch_rel b d (l @ e # r) (drop b S) (drop d T)"
    using Cons.prems(1) unfolding append_Cons f patch_rel_Cons [OF Cons.prems(2,3)] by simp
  then show ?case using Cons.IH by blast
qed

lemma patch_rel_after:
  assumes "patch_rel 0 0 (l @ e # r) S T" "\<forall>f \<in> set r. i < rng_start (e_old f)" "rng_end (e_old e) \<le> i"
  shows "\<forall>f \<in> set r. rng_end (e_new e) + (i - rng_end (e_old e)) < rng_start (e_new f)"
    "i < length S \<Longrightarrow> rng_end (e_new e) + (i - rng_end (e_old e)) < length T \<and>
       T ! (rng_end (e_new e) + (i - rng_end (e_old e))) = S ! i"
proof -
  have rel: "patch_rel (rng_end (e_old e)) (rng_end (e_new e)) r (drop (rng_end (e_old e)) S) (drop (rng_end (e_new e)) T)"
    and len: "rng_end (e_old e) \<le> length S" "rng_end (e_new e) \<le> length T"
    using patch_rel_split [of 0 0 l e r S T] assms(1) by simp_all
  note before = patch_rel_before [OF rel assms(2,3)]
  show "\<forall>f \<in> set r. rng_end (e_new e) + (i - rng_end (e_old e)) < rng_start (e_new f)" by (rule before(1))
  assume "i < length S"
  then show "rng_end (e_new e) + (i - rng_end (e_old e)) < length T \<and>
       T ! (rng_end (e_new e) + (i - rng_end (e_old e))) = S ! i"
    using before(2) len assms(3) by auto
qed

lemma old_to_new_cases:
  assumes "patch_rel 0 0 p S T"
  obtains (before) "old_to_new p i = i" "\<forall>e \<in> set p. i < rng_start (e_old e)" "\<forall>e \<in> set p. i < rng_start (e_new e)"
      "edit_for_old_position p i = mk_edit i i i i"
  | (inside) l e r where "p = l @ e # r" "rng_start (e_old e) \<le> i" "i < rng_end (e_old e)"
      "old_to_new p i = rng_start (e_new e)" "edit_for_old_position p i = e"
      "\<forall>f \<in> set r. i < rng_start (e_old f)"
  | (after) l e r where "p = l @ e # r" "rng_end (e_old e) \<le> i"
      "old_to_new p i = rng_end (e_new e) + (i - rng_end (e_old e))"
      "\<forall>f \<in> set r. i < rng_start (e_old f)" "\<forall>f \<in> set r. old_to_new p i < rng_start (e_new f)"
      "edit_for_old_position p i = (if i = rng_end (e_old e) then e else mk_edit i i (old_to_new p i) (old_to_new p i))"
  using assms
proof (rule edit_index_cases [where i = i])
  assume none: "edit_index p i = None" "\<forall>e \<in> set p. i < rng_start (e_old e)"
  show thesis
    by (rule before) (use none patch_rel_before(1) [OF assms none(2)] in
      \<open>simp_all add: old_to_new_def edit_for_old_position_def\<close>)
next
  fix l e r
  assume some: "edit_index p i = Some (length l)" "p = l @ e # r"
    "rng_start (e_old e) \<le> i" "\<forall>f \<in> set r. i < rng_start (e_old f)"
  show thesis
  proof (cases "rng_end (e_old e) \<le> i")
    case True
    have eq: "old_to_new p i = rng_end (e_new e) + (i - rng_end (e_old e))"
      using some(1) True by (simp add: some(2) old_to_new_def Let_def)
    show thesis
    proof (rule after [OF some(2) True eq some(4)])
      show "\<forall>f \<in> set r. old_to_new p i < rng_start (e_new f)"
        unfolding eq by (rule patch_rel_after(1) [OF assms [unfolded some(2)] some(4) True])
      show "edit_for_old_position p i =
          (if i = rng_end (e_old e) then e else mk_edit i i (old_to_new p i) (old_to_new p i))"
        unfolding eq using some(1) True by (auto simp: some(2) edit_for_old_position_def Let_def)
    qed
  next
    case False
    then show thesis using some
      by (intro inside [OF some(2)]) (auto simp: old_to_new_def edit_for_old_position_def Let_def)
  qed
qed

text \<open>Every edit before the one found is left behind on both sides.\<close>

lemma patch_rel_earlier:
  assumes "patch_rel 0 0 (l @ e # r) S T" "f \<in> set l"
  shows "rng_end (e_old f) \<le> rng_start (e_old e)" "rng_end (e_new f) \<le> rng_start (e_new e)"
  using patch_rel_sorted [OF assms(1)] assms(2) by (auto simp: sorted_wrt_append)

lemma old_to_new_found:
  assumes "edit_index p i = Some (length l)" "p = l @ e # r"
  shows "old_to_new p i = (if rng_end (e_old e) \<le> i then rng_end (e_new e) + (i - rng_end (e_old e))
    else rng_start (e_new e))"
  using assms(1) by (simp add: old_to_new_def assms(2) Let_def)

lemma old_to_new_bounds:
  assumes "patch_rel 0 0 p S T" "edit_index p i = Some (length l)" "p = l @ e # r"
    and "\<forall>f \<in> set r. i < rng_start (e_old f)"
  shows "rng_start (e_new e) \<le> old_to_new p i" "\<forall>f \<in> set r. old_to_new p i \<le> rng_start (e_new f)"
proof -
  note order = patch_rel_sorted [OF assms(1), unfolded assms(3)]
  show "rng_start (e_new e) \<le> old_to_new p i"
    unfolding old_to_new_found [OF assms(2,3)] using order by auto
  show "\<forall>f \<in> set r. old_to_new p i \<le> rng_start (e_new f)"
  proof (cases "rng_end (e_old e) \<le> i")
    case True
    from patch_rel_after(1) [OF assms(1) [unfolded assms(3)] assms(4) True] True show ?thesis
      unfolding old_to_new_found [OF assms(2,3)] by (simp add: less_imp_le)
  next
    case False
    with order show ?thesis
      unfolding old_to_new_found [OF assms(2,3)] by (fastforce simp: sorted_wrt_append)
  qed
qed

lemma old_to_new_mono:
  assumes rel: "patch_rel 0 0 p S T" and "i \<le> j"
  shows "old_to_new p i \<le> old_to_new p j"
proof (cases rule: edit_index_cases [OF rel, of i, case_names before found])
  case before
  then have i: "old_to_new p i = i" by (simp add: old_to_new_def)
  show ?thesis
  proof (cases rule: edit_index_cases [OF rel, of j, case_names before found])
    case before
    with i assms(2) show ?thesis by (simp add: old_to_new_def)
  next
    case (found l e r)
    have "i < rng_start (e_new e)"
      using patch_rel_before(1) [OF rel before(2)] found(2) by simp
    with old_to_new_bounds(1) [OF rel found(1,2,4)] i show ?thesis by simp
  qed
next
  case i: (found l e r)
  show ?thesis
  proof (cases rule: edit_index_cases [OF rel, of j, case_names before found])
    case before
    with i assms(2) show ?thesis by auto
  next
    case j: (found l' e' r')
    consider "length l = length l'" | "length l < length l'" | "length l' < length l" by linarith
    then show ?thesis
    proof cases
      case 1
      then have "e' = e" using i(2) j(2) by simp
      have le: "rng_start (e_new e) \<le> rng_end (e_new e)" using patch_rel_sorted [OF rel] i(2) by simp
      show ?thesis
        unfolding old_to_new_found [OF i(1,2)] old_to_new_found [OF j(1,2)] \<open>e' = e\<close> using assms(2) le by auto
    next
      case 2
      then have "e' = (l @ e # r) ! length l'" using i(2) j(2) by (metis nth_append_length)
      then have "e' \<in> set r" using 2 i(2) j(2) by (auto simp: nth_append nth_Cons' dest: arg_cong [where f = length])
      with old_to_new_bounds(2) [OF rel i(1,2,4)] old_to_new_bounds(1) [OF rel j(1,2,4)]
      show ?thesis by (meson le_trans)
    next
      case 3
      then have "e = (l' @ e' # r') ! length l" using i(2) j(2) by (metis nth_append_length)
      then have "e \<in> set r'" using 3 i(2) j(2) by (auto simp: nth_append nth_Cons' dest: arg_cong [where f = length])
      then show ?thesis using j(4) i(3) assms(2) by fastforce
    qed
  qed
qed

lemma patch_invert_simps [simp]:
  "patch_invert (l @ e # r) = patch_invert l @ e\<lparr>e_old := e_new e, e_new := e_old e\<rparr> # patch_invert r"
  by (simp add: patch_invert_def)

text \<open>A position is unchanged when no edit deletes the character after it.\<close>

definition unchanged :: "patch \<Rightarrow> nat \<Rightarrow> bool" where
  "unchanged p i \<longleftrightarrow> (\<forall>e \<in> set p. \<not> (rng_start (e_old e) \<le> i \<and> i < rng_end (e_old e)))"

lemma old_to_new_char:
  assumes rel: "patch_rel 0 0 p S T" and "unchanged p i" "i < length S"
  shows "old_to_new p i < length T" "T ! old_to_new p i = S ! i" "old_to_new (patch_invert p) (old_to_new p i) = i"
proof -
  have inv: "patch_rel 0 0 (patch_invert p) T S" by (rule patch_rel_invert [OF rel])
  have "old_to_new p i < length T \<and> T ! old_to_new p i = S ! i \<and> old_to_new (patch_invert p) (old_to_new p i) = i"
  proof (cases rule: edit_index_cases [OF rel, of i, case_names before found])
    case before
    then have i: "old_to_new p i = i" by (simp add: old_to_new_def)
    have "\<forall>e \<in> set p. i < rng_start (e_new e)" using patch_rel_before(1) [OF rel before(2)] by simp
    then have all: "\<forall>e \<in> set (patch_invert p). i < rng_start (e_old e)" by (auto simp: patch_invert_def)
    have "old_to_new (patch_invert p) i = i"
      by (cases rule: edit_index_cases [OF inv, of i, case_names before found])
        (use all in \<open>auto simp: old_to_new_def\<close>)
    then show ?thesis using i patch_rel_before(2) [OF rel before(2)] assms(3) by simp
  next
    case (found l e r)
    have end_le: "rng_end (e_old e) \<le> i"
      using assms(2) found(2,3) by (auto simp: unchanged_def)
    note o2n = old_to_new_found [OF found(1,2), unfolded if_P [OF end_le]]
    note after = patch_rel_after [OF rel [unfolded found(2)] found(4) end_le]
    have later: "\<forall>f \<in> set (patch_invert r). old_to_new p i < rng_start (e_old f)"
      using after(1) unfolding o2n by (auto simp: patch_invert_def)
    have "old_to_new (patch_invert p) (old_to_new p i) = i"
    proof (cases rule: edit_index_cases [OF inv, of "old_to_new p i", case_names before found])
      case before
      have "rng_start (e_new e) \<le> old_to_new p i"
        by (rule old_to_new_bounds(1) [OF rel found(1,2,4)])
      with before(2) found(2) show ?thesis by simp
    next
      case inner: (found l' e' r')
      let ?e = "e\<lparr>e_old := e_new e, e_new := e_old e\<rparr>"
      have eq: "l' @ e' # r' = patch_invert l @ ?e # patch_invert r" using inner(2) found(2) by simp
      consider "length l' = length l" | "length l' < length l" | "length l < length l'" by linarith
      then have "e' = ?e"
      proof cases
        case 1
        then have "length l' = length (patch_invert l)" by (simp add: patch_invert_def)
        then show ?thesis using eq by simp
      next
        case 2
        then have "length l' < length (patch_invert l)" by (simp add: patch_invert_def)
        then have "?e \<in> set r'" using eq by (auto simp: append_eq_append_conv2 Cons_eq_append_conv append_eq_Cons_conv)
        moreover have "rng_start (e_new e) \<le> old_to_new p i" by (rule old_to_new_bounds(1) [OF rel found(1,2,4)])
        ultimately show ?thesis using inner(4) by fastforce
      next
        case 3
        then have "length (patch_invert l) < length l'" by (simp add: patch_invert_def)
        moreover have "e' = (patch_invert l @ ?e # patch_invert r) ! length l'"
          using eq by (metis nth_append_length)
        ultimately have "e' \<in> set (patch_invert r)"
          using arg_cong [OF eq, of length] by (auto simp: nth_append nth_Cons')
        then show ?thesis using later inner(3) by fastforce
      qed
      moreover have "rng_end (e_new e) \<le> old_to_new p i" using o2n by simp
      ultimately have "old_to_new (patch_invert p) (old_to_new p i) = rng_end (e_old e) + (old_to_new p i - rng_end (e_new e))"
        using old_to_new_found [OF inner(1,2)] by simp
      then show ?thesis using o2n end_le by simp
    qed
    then show ?thesis using after(2) [OF assms(3)] o2n by simp
  qed
  then show "old_to_new p i < length T" "T ! old_to_new p i = S ! i" "old_to_new (patch_invert p) (old_to_new p i) = i"
    by simp_all
qed

lemma edit_for_old_position_touches:
  assumes rel: "patch_rel 0 0 p S T"
  shows "let e = edit_for_old_position p i in
    e \<in> set p \<and> rng_start (e_old e) \<le> i \<and> i \<le> rng_end (e_old e) \<or>
    e = mk_edit i i (old_to_new p i) (old_to_new p i) \<and>
    (\<forall>f \<in> set p. \<not> (rng_start (e_old f) \<le> i \<and> i \<le> rng_end (e_old f)))"
proof (cases rule: edit_index_cases [OF rel, of i, case_names before found])
  case before
  then show ?thesis by (auto simp: edit_for_old_position_def old_to_new_def Let_def)
next
  case (found l e r)
  have pos: "edit_for_old_position p i =
      (if rng_end (e_old e) < i then mk_edit i i (old_to_new p i) (old_to_new p i) else e)"
    using found(1) unfolding old_to_new_found [OF found(1,2)] by (auto simp: edit_for_old_position_def found(2) Let_def)
  have "rng_end (e_old f) \<le> rng_start (e_old e)" if "f \<in> set l" for f
    by (rule patch_rel_earlier(1) [OF rel [unfolded found(2)] that])
  then have "\<not> (rng_start (e_old f) \<le> i \<and> i \<le> rng_end (e_old f))" if "f \<in> set p" "rng_end (e_old e) < i" for f
    using that found patch_rel_sorted [OF rel] by fastforce
  then show ?thesis unfolding pos Let_def using found(2,3) by auto
qed

section \<open>The theorems\<close>

text \<open>C27: Composing a patch from a first to a second text with a patch from the second to a third
  returns (no offset subtraction underflows), and the result is a patch from the first to the third
  text whose edits are separated on both sides, as \<open>Patch::new\<close> asserts.\<close>

theorem patch_compose_correct:
  assumes "patch_rel 0 0 p S T" "patch_rel 0 0 q T U"
  shows "\<exists>r. patch_compose p q = Some r \<and> patch_rel 0 0 r S U \<and> patch_new_ok r"
  using patch_compose [OF assms] .

theorem patch_compose_correct_witness:
  "\<exists>r. patch_compose [mk_edit 1 3 1 4, mk_edit 5 5 6 7] [mk_edit 0 2 0 1, mk_edit 5 7 4 8] = Some r \<and>
     patch_rel 0 0 r ''abcdef'' ''Zyzd!!!!f'' \<and> patch_new_ok r"
  by (rule patch_compose_correct [where T = "''axyzdeWf''"]) (simp_all add: edit_fits_def)

text \<open>Translating offsets through a patch is monotone; it maps every character that the patch does
  not delete to the same character of the new text, from where the inverted patch maps it back; and
  \<open>edit_for_old_position\<close> returns an edit that touches the offset, or an empty edit at its
  translation when no edit does.\<close>

theorem patch_translation:
  assumes "patch_rel 0 0 p S T"
  shows "(i \<le> j \<longrightarrow> old_to_new p i \<le> old_to_new p j) \<and>
    (i < length S \<and> unchanged p i \<longrightarrow>
       old_to_new p i < length T \<and> T ! old_to_new p i = S ! i \<and>
       old_to_new (patch_invert p) (old_to_new p i) = i) \<and>
    (let e = edit_for_old_position p i in
       e \<in> set p \<and> rng_start (e_old e) \<le> i \<and> i \<le> rng_end (e_old e) \<or>
       e = mk_edit i i (old_to_new p i) (old_to_new p i) \<and>
       (\<forall>f \<in> set p. \<not> (rng_start (e_old f) \<le> i \<and> i \<le> rng_end (e_old f))))"
  using old_to_new_mono [OF assms] old_to_new_char [OF assms] edit_for_old_position_touches [OF assms, of i]
  by blast

theorem patch_translation_witness:
  "old_to_new [mk_edit 1 3 1 4, mk_edit 5 5 6 7] 4 \<le> old_to_new [mk_edit 1 3 1 4, mk_edit 5 5 6 7] 5 \<and>
    ''axyzdeWf'' ! old_to_new [mk_edit 1 3 1 4, mk_edit 5 5 6 7] 4 = ''abcdef'' ! 4 \<and>
    old_to_new (patch_invert [mk_edit 1 3 1 4, mk_edit 5 5 6 7])
      (old_to_new [mk_edit 1 3 1 4, mk_edit 5 5 6 7] 4) = 4"
proof -
  have rel: "patch_rel 0 0 [mk_edit 1 3 1 4, mk_edit 5 5 6 7] ''abcdef'' ''axyzdeWf''" by (simp add: edit_fits_def)
  have "4 < length ''abcdef'' \<and> unchanged [mk_edit 1 3 1 4, mk_edit 5 5 6 7] 4" by (simp add: unchanged_def)
  then show ?thesis using patch_translation [OF rel, of 4 5] by linarith
qed

end
