(* ===== verification/Zed_UndoMap.thy ===== *)
theory Zed_UndoMap
  imports Zed_SumTree_Keyed Zed_Clock
begin

text \<open>
  The undo map of \<open>crates/text/src/undo_map.rs\<close>: a sum tree of undo counts keyed by the undone
  edit and the undo operation, whose summary is the greatest key.  The abstraction is the set of
  undo operations that the map has received; the theorem says that the map is a faithful replica of
  that set whatever the order of arrival, which is what makes undo convergent.
\<close>

section \<open>Entries and keys\<close>

text \<open>\<open>UndoOperation\<close>: the counts are a hash map, here the list of its entries in iteration order.\<close>

record undo_operation =
  uo_timestamp :: lamport
  uo_version :: vclock
  uo_counts :: "(lamport \<times> u32) list"

datatype undo_key = UndoKey (uk_edit: lamport) (uk_undo: lamport)

text \<open>The derived order is lexicographic.\<close>

instantiation undo_key :: linorder
begin

definition less_undo_key :: "undo_key \<Rightarrow> undo_key \<Rightarrow> bool" where
  "less_undo_key a b \<longleftrightarrow> uk_edit a < uk_edit b \<or> uk_edit a = uk_edit b \<and> uk_undo a < uk_undo b"

definition less_eq_undo_key :: "undo_key \<Rightarrow> undo_key \<Rightarrow> bool" where
  "less_eq_undo_key a b \<longleftrightarrow> uk_edit a < uk_edit b \<or> uk_edit a = uk_edit b \<and> uk_undo a \<le> uk_undo b"

instance
proof
  fix a b c :: undo_key
  show "(a < b) = (a \<le> b \<and> \<not> b \<le> a)" by (auto simp: less_undo_key_def less_eq_undo_key_def)
  show "a \<le> a" by (simp add: less_eq_undo_key_def)
  show "a \<le> b \<Longrightarrow> b \<le> c \<Longrightarrow> a \<le> c" by (auto simp: less_eq_undo_key_def)
  show "a \<le> b \<Longrightarrow> b \<le> a \<Longrightarrow> a = b" by (cases a; cases b) (auto simp: less_eq_undo_key_def)
  show "a \<le> b \<or> b \<le> a" by (auto simp: less_eq_undo_key_def)
qed

end

record undo_entry =
  ue_key :: undo_key
  ue_count :: u32

type_synonym undo_map = "(undo_entry, undo_key) sum_tree"

definition undo_zero :: undo_key where "undo_zero = UndoKey LAMPORT_MIN LAMPORT_MIN"

definition undo_ops :: "(undo_entry, undo_key) summary_ops" where
  "undo_ops = \<lparr>sm_zero = undo_zero, sm_add = max, sm_item = ue_key\<rparr>"

text \<open>Every summary is a dimension of itself (\<open>dim_summary\<close> would be the same record).\<close>

definition undo_dim :: "(undo_key, undo_key) dimension" where
  "undo_dim = \<lparr>dm_zero = undo_zero, dm_add = max\<rparr>"

section \<open>The operations\<close>

definition undo_entries :: "undo_operation \<Rightarrow> undo_entry list" where
  "undo_entries undo =
     map (\<lambda>(edit_id, count). \<lparr>ue_key = UndoKey edit_id (uo_timestamp undo), ue_count = count\<rparr>) (uo_counts undo)"

definition um_insert :: "undo_map \<Rightarrow> undo_operation \<Rightarrow> undo_map option" where
  "um_insert t undo = map_option fst (st_edit undo_ops undo_dim ue_key t (map Insert (undo_entries undo)))"

text \<open>The loops of \<open>undo_count\<close> and \<open>was_undone\<close>; the former takes every entry of the edit.\<close>

partial_function (option) um_count_loop ::
    "lamport \<Rightarrow> (lamport \<Rightarrow> bool) \<Rightarrow> (undo_entry, undo_key, undo_key) cursor \<Rightarrow> u32 \<Rightarrow> u32 option" where
  [code]: "um_count_loop edit_id observed c undo_count = do {
     (item, c) \<leftarrow> cu_iter_next undo_dim c;
     (case item of
        None \<Rightarrow> Some undo_count
      | Some entry \<Rightarrow>
          if uk_edit (ue_key entry) \<noteq> edit_id then Some undo_count
          else um_count_loop edit_id observed c
            (if observed (uk_undo (ue_key entry)) then max undo_count (ue_count entry) else undo_count)) }"

definition um_counts_from :: "undo_map \<Rightarrow> lamport \<Rightarrow> (lamport \<Rightarrow> bool) \<Rightarrow> u32 option" where
  "um_counts_from t edit_id observed = do {
     (c, _) \<leftarrow> cu_seek undo_dim (target_of (UndoKey edit_id LAMPORT_MIN)) BLeft (cu_new undo_dim t);
     um_count_loop edit_id observed c 0 }"

definition um_undo_count :: "undo_map \<Rightarrow> lamport \<Rightarrow> u32 option" where
  "um_undo_count t edit_id = um_counts_from t edit_id (\<lambda>_. True)"

definition um_is_undone :: "undo_map \<Rightarrow> lamport \<Rightarrow> bool option" where
  "um_is_undone t edit_id = map_option (\<lambda>n. n mod 2 = 1) (um_undo_count t edit_id)"

definition um_was_undone :: "undo_map \<Rightarrow> lamport \<Rightarrow> vclock \<Rightarrow> bool option" where
  "um_was_undone t edit_id version = map_option (\<lambda>n. n mod 2 = 1) (um_counts_from t edit_id (vclock_observed version))"

section \<open>Correctness\<close>

lemma undo_zero_least: "undo_zero \<le> k"
  using LAMPORT_MIN_least [of "uk_edit k"] LAMPORT_MIN_least [of "uk_undo k"]
  by (auto simp: undo_zero_def less_eq_undo_key_def)

interpretation um: keyed_order_laws undo_ops undo_dim ue_key
  by unfold_locales
    (auto simp: undo_ops_def undo_dim_def undo_zero_least max.absorb2 max.absorb1 max.assoc max_def)

definition um_ok :: "undo_map \<Rightarrow> bool" where
  "um_ok t \<longleftrightarrow> st_wf undo_ops t \<and> keys_sorted ue_key (st_items t)"

text \<open>The map holds exactly the counts of the operations of \<open>us\<close>.\<close>

definition um_represents :: "undo_map \<Rightarrow> undo_operation set \<Rightarrow> bool" where
  "um_represents t us \<longleftrightarrow>
     (\<forall>edit_id undo_id count.
        map_option ue_count (key_map ue_key (st_items t) (UndoKey edit_id undo_id)) = Some count \<longleftrightarrow>
        (\<exists>u \<in> us. uo_timestamp u = undo_id \<and> (edit_id, count) \<in> set (uo_counts u)))"

lemma um_represents_item:
  assumes "um_ok t" "um_represents t us"
  shows "(\<exists>x \<in> set (st_items t). ue_key x = UndoKey e i \<and> ue_count x = n) \<longleftrightarrow>
    (\<exists>u \<in> us. uo_timestamp u = i \<and> (e, n) \<in> set (uo_counts u))"
proof -
  have dist: "distinct (map ue_key (st_items t))"
    using assms(1) strict_sorted_iff by (auto simp: um_ok_def keys_sorted_def)
  have "(\<exists>x \<in> set (st_items t). ue_key x = UndoKey e i \<and> ue_count x = n) \<longleftrightarrow>
      map_option ue_count (key_map ue_key (st_items t) (UndoKey e i)) = Some n"
    using key_map_unique [OF dist] key_map_None [of ue_key "st_items t" "UndoKey e i"] by fastforce
  then show ?thesis using assms(2) unfolding um_represents_def by blast
qed

lemma um_count_loop_view:
  "cu_view undo_ops undo_dim c before rest \<Longrightarrow>
     um_count_loop e p c n = Some (fold max
       (map ue_count (filter (\<lambda>x. p (uk_undo (ue_key x))) (takeWhile (\<lambda>x. uk_edit (ue_key x) = e) rest))) n)"
proof (induction rest arbitrary: c before n)
  case Nil
  then show ?case by (subst um_count_loop.simps) (simp add: um.cu_iter_next_view(1))
next
  case (Cons x rest)
  obtain c' where c': "cu_iter_next undo_dim c = Some (Some x, c')"
    and view: "cu_view undo_ops undo_dim c' (before @ [x]) rest"
    using um.cu_iter_next_view(2) [OF Cons.prems] by blast
  from Cons.IH [OF view] c' show ?case
    by (subst um_count_loop.simps) (simp add: max.commute)
qed

lemma um_counts_from:
  assumes "um_ok t" "st_height t < 16"
  shows "um_counts_from t e p = Some (fold max
    (map ue_count (filter (\<lambda>x. p (uk_undo (ue_key x)) \<and> uk_edit (ue_key x) = e) (st_items t))) 0)"
proof -
  let ?k = "UndoKey e LAMPORT_MIN" and ?xs = "st_items t"
  have wf: "st_wf undo_ops t" "keys_sorted ue_key ?xs" using assms(1) by (simp_all add: um_ok_def)
  obtain c f where c: "cu_seek undo_dim (target_of ?k) BLeft (cu_new undo_dim t) = Some (c, f)"
      "cu_view undo_ops undo_dim c (below ue_key ?k ?xs) (from_key ue_key ?k ?xs)"
    using um.seek_new [OF wf(1) assms(2) wf(2)] by blast
  have "uk_edit (ue_key x) \<noteq> e" if "x \<in> set (below ue_key ?k ?xs)" for x
    using set_below [OF that] LAMPORT_MIN_least [of "uk_undo (ue_key x)"] by (auto simp: less_undo_key_def)
  then have none: "filter (\<lambda>x. p (uk_undo (ue_key x)) \<and> uk_edit (ue_key x) = e) (below ue_key ?k ?xs) = []"
    by (simp add: filter_empty_conv)
  have sorted: "keys_sorted ue_key (from_key ue_key ?k ?xs)"
    using wf(2) below_from [of ue_key ?k ?xs] by (metis keys_sorted_append)
  have ge: "e \<le> uk_edit (ue_key x)" if "x \<in> set (from_key ue_key ?k ?xs)" for x
    using set_from_key [OF wf(2) that] by (auto simp: less_eq_undo_key_def)
  have "takeWhile (\<lambda>x. uk_edit (ue_key x) \<le> e) (from_key ue_key ?k ?xs) =
      filter (\<lambda>x. uk_edit (ue_key x) \<le> e) (from_key ue_key ?k ?xs)"
    by (rule takeWhile_filter [where R = "\<lambda>x y. ue_key x < ue_key y"])
      (use sorted in \<open>auto simp: keys_sorted_def sorted_wrt_map less_undo_key_def\<close>)
  moreover have "takeWhile (\<lambda>x. uk_edit (ue_key x) = e) (from_key ue_key ?k ?xs) =
      takeWhile (\<lambda>x. uk_edit (ue_key x) \<le> e) (from_key ue_key ?k ?xs)"
    by (rule takeWhile_cong) (use ge in fastforce)+
  moreover have "filter (\<lambda>x. uk_edit (ue_key x) \<le> e) (from_key ue_key ?k ?xs) =
      filter (\<lambda>x. uk_edit (ue_key x) = e) (from_key ue_key ?k ?xs)"
    by (rule filter_cong) (use ge in fastforce)+
  ultimately have "takeWhile (\<lambda>x. uk_edit (ue_key x) = e) (from_key ue_key ?k ?xs) =
      filter (\<lambda>x. uk_edit (ue_key x) = e) (from_key ue_key ?k ?xs)" by simp
  then have "filter (\<lambda>x. p (uk_undo (ue_key x))) (takeWhile (\<lambda>x. uk_edit (ue_key x) = e) (from_key ue_key ?k ?xs)) =
      filter (\<lambda>x. p (uk_undo (ue_key x)) \<and> uk_edit (ue_key x) = e) (from_key ue_key ?k ?xs)"
    by (simp only: filter_filter) (rule filter_cong; auto)
  also have "\<dots> = filter (\<lambda>x. p (uk_undo (ue_key x)) \<and> uk_edit (ue_key x) = e) ?xs"
    by (subst (2) below_from [of ue_key ?k ?xs, symmetric]) (simp only: filter_append none append_Nil)
  finally show ?thesis
    using c um_count_loop_view [OF c(2), of e p 0] by (simp add: um_counts_from_def)
qed

text \<open>The counts as a maximum over the operations received.\<close>

definition max_count :: "undo_operation set \<Rightarrow> lamport \<Rightarrow> (lamport \<Rightarrow> bool) \<Rightarrow> u32" where
  "max_count us e p = Max (insert 0 {n. \<exists>u \<in> us. p (uo_timestamp u) \<and> (e, n) \<in> set (uo_counts u)})"

lemma um_counts_represents:
  assumes "um_ok t" "st_height t < 16" "um_represents t us"
  shows "um_counts_from t e p = Some (max_count us e p)"
proof -
  let ?ys = "map ue_count (filter (\<lambda>x. p (uk_undo (ue_key x)) \<and> uk_edit (ue_key x) = e) (st_items t))"
  have "n \<in> set ?ys \<longleftrightarrow> (\<exists>i. p i \<and> (\<exists>x \<in> set (st_items t). ue_key x = UndoKey e i \<and> ue_count x = n))" for n
  proof
    assume "n \<in> set ?ys"
    then obtain x where x: "x \<in> set (st_items t)" "p (uk_undo (ue_key x))" "uk_edit (ue_key x) = e" "ue_count x = n"
      by auto
    moreover from x(3) have "ue_key x = UndoKey e (uk_undo (ue_key x))" by (cases "ue_key x") simp
    ultimately show "\<exists>i. p i \<and> (\<exists>x \<in> set (st_items t). ue_key x = UndoKey e i \<and> ue_count x = n)" by blast
  next
    assume "\<exists>i. p i \<and> (\<exists>x \<in> set (st_items t). ue_key x = UndoKey e i \<and> ue_count x = n)"
    then obtain i x where "p i" "x \<in> set (st_items t)" "ue_key x = UndoKey e i" "ue_count x = n" by blast
    then show "n \<in> set ?ys" by (auto intro!: image_eqI [of _ _ x])
  qed
  then have "set ?ys = {n. \<exists>u \<in> us. p (uo_timestamp u) \<and> (e, n) \<in> set (uo_counts u)}"
    unfolding um_represents_item [OF assms(1,3)] by blast
  then have "max_count us e p = Max (set (0 # ?ys))" by (simp add: max_count_def)
  also have "\<dots> = fold max ?ys 0" by (rule Max.set_eq_fold)
  finally show ?thesis using um_counts_from [OF assms(1,2), of e p] by simp
qed

lemma um_insert_represents:
  assumes "um_ok t" "st_height t < 16" "um_represents t us" "distinct (map fst (uo_counts u))"
    and "\<forall>u' \<in> us. uo_timestamp u' = uo_timestamp u \<longrightarrow> u' = u"
  shows "\<exists>t'. um_insert t u = Some t' \<and> um_ok t' \<and> um_represents t' (insert u us)"
proof -
  have wf: "st_wf undo_ops t" "keys_sorted ue_key (st_items t)" using assms(1) by (simp_all add: um_ok_def)
  have keys: "map ue_key (undo_entries u) = map (\<lambda>e. UndoKey e (uo_timestamp u)) (map fst (uo_counts u))"
    by (auto simp: undo_entries_def)
  have dist: "distinct (map ue_key (undo_entries u))"
    unfolding keys using assms(4) by (subst distinct_map) (auto simp: inj_on_def)
  obtain t' removed where t': "st_edit undo_ops undo_dim ue_key t (map Insert (undo_entries u)) = Some (t', removed)"
      "st_wf undo_ops t'" "keys_sorted ue_key (st_items t')"
      "key_map ue_key (st_items t') = key_map ue_key (st_items t) ++ key_map ue_key (undo_entries u)"
    using um.edit_inserts [OF wf(1) assms(2) wf(2) dist] by blast
  have new: "map_option ue_count (key_map ue_key (undo_entries u) (UndoKey e i)) = Some n \<longleftrightarrow>
      uo_timestamp u = i \<and> (e, n) \<in> set (uo_counts u)" for e i n
  proof
    assume "map_option ue_count (key_map ue_key (undo_entries u) (UndoKey e i)) = Some n"
    then obtain x where "key_map ue_key (undo_entries u) (UndoKey e i) = Some x" "ue_count x = n" by auto
    then have "(UndoKey e i, x) \<in> set (map (\<lambda>x. (ue_key x, x)) (undo_entries u))"
      unfolding key_map_def by (metis map_of_SomeD)
    with \<open>ue_count x = n\<close> show "uo_timestamp u = i \<and> (e, n) \<in> set (uo_counts u)" by (auto simp: undo_entries_def)
  next
    assume "uo_timestamp u = i \<and> (e, n) \<in> set (uo_counts u)"
    then have "\<lparr>ue_key = UndoKey e i, ue_count = n\<rparr> \<in> set (undo_entries u)" by (force simp: undo_entries_def)
    from key_map_unique [OF dist this] show "map_option ue_count (key_map ue_key (undo_entries u) (UndoKey e i)) = Some n"
      by simp
  qed
  have "um_represents t' (insert u us)"
    unfolding um_represents_def
  proof (intro allI)
    fix e i n
    let ?old = "map_option ue_count (key_map ue_key (st_items t) (UndoKey e i))"
    let ?new = "map_option ue_count (key_map ue_key (undo_entries u) (UndoKey e i))"
    have old: "?old = Some m \<longleftrightarrow> (\<exists>u \<in> us. uo_timestamp u = i \<and> (e, m) \<in> set (uo_counts u))" for m
      using assms(3) by (simp add: um_represents_def)
    have sum: "map_option ue_count (key_map ue_key (st_items t') (UndoKey e i)) = (if ?new = None then ?old else ?new)"
      unfolding t'(4) by (cases "key_map ue_key (undo_entries u) (UndoKey e i)") (simp_all add: map_add_def)
    show "map_option ue_count (key_map ue_key (st_items t') (UndoKey e i)) = Some n \<longleftrightarrow>
        (\<exists>u \<in> insert u us. uo_timestamp u = i \<and> (e, n) \<in> set (uo_counts u))"
    proof (cases ?new)
      case None
      then have "\<not> (uo_timestamp u = i \<and> (e, n) \<in> set (uo_counts u))" using new [of e i n] by simp
      moreover have "(if ?new = None then ?old else ?new) = ?old" using None by simp
      ultimately show ?thesis unfolding sum using old [of n] by (simp only:) blast
    next
      case (Some m)
      then have u: "uo_timestamp u = i" "(e, m) \<in> set (uo_counts u)" using new by simp_all
      have "(\<exists>w \<in> insert u us. uo_timestamp w = i \<and> (e, n) \<in> set (uo_counts w)) \<longleftrightarrow> (e, n) \<in> set (uo_counts u)"
      proof
        assume "\<exists>w \<in> insert u us. uo_timestamp w = i \<and> (e, n) \<in> set (uo_counts w)"
        then obtain w where "w \<in> insert u us" "uo_timestamp w = i" "(e, n) \<in> set (uo_counts w)" by blast
        moreover then have "w = u" using assms(5) u(1) by auto
        ultimately show "(e, n) \<in> set (uo_counts u)" by simp
      qed (use u(1) in auto)
      also have "\<dots> \<longleftrightarrow> Some m = Some n" using new [of e i n] u(1) unfolding Some by simp
      finally show ?thesis unfolding sum Some by simp
    qed
  qed
  with t' show ?thesis by (simp add: um_insert_def um_ok_def)
qed

lemma um_represents_empty: "um_ok (st_new undo_ops) \<and> um_represents (st_new undo_ops) {}"
  by (simp add: um_ok_def um_represents_def)

section \<open>The theorem\<close>

text \<open>C30: An undo map that has received a set of undo operations answers every query with the greatest
  count that an operation of the set (an observed one, for \<open>was_undone\<close>) gives the edit, and inserting
  an operation, new or received before, yields the map of the enlarged set: the state depends on the
  set of the operations only, not on their order.\<close>

theorem undo_map_converges:
  assumes "um_ok t" "st_height t < 16" "um_represents t us" "distinct (map fst (uo_counts u))"
    and "\<forall>u' \<in> us. uo_timestamp u' = uo_timestamp u \<longrightarrow> u' = u"
  shows "um_undo_count t e = Some (max_count us e (\<lambda>_. True)) \<and>
    um_is_undone t e = Some (max_count us e (\<lambda>_. True) mod 2 = 1) \<and>
    um_was_undone t e v = Some (max_count us e (vclock_observed v) mod 2 = 1) \<and>
    (\<exists>t'. um_insert t u = Some t' \<and> um_ok t' \<and> um_represents t' (insert u us))"
  using um_counts_represents [OF assms(1-3)] um_insert_represents [OF assms]
  by (simp add: um_undo_count_def um_is_undone_def um_was_undone_def)

theorem undo_map_converges_witness:
  "\<exists>t. um_insert (st_new undo_ops) \<lparr>uo_timestamp = Lamport 5 1, uo_version = [], uo_counts = [(Lamport 2 0, 1), (Lamport 3 0, 2)]\<rparr> =
     Some t \<and> um_undo_count (st_new undo_ops) (Lamport 2 0) = Some (max_count {} (Lamport 2 0) (\<lambda>_. True))"
  using undo_map_converges [of "st_new undo_ops" "{}"
      "\<lparr>uo_timestamp = Lamport 5 1, uo_version = [], uo_counts = [(Lamport 2 0, 1), (Lamport 3 0, 2)]\<rparr>" "Lamport 2 0" "[]"]
    um_represents_empty by (auto simp: st_new_def)

end
