(* ===== verification/Zed_OperationQueue.thy ===== *)
theory Zed_OperationQueue
  imports Zed_SumTree_Keyed Zed_SumTree_Iter Zed_Clock
begin

text \<open>
  The queue of deferred operations of \<open>crates/text/src/operation_queue.rs\<close>: a sum tree ordered by
  Lamport timestamp whose summary is the last timestamp and the number of operations.  The method
  \<open>lamport_timestamp\<close> of the trait \<open>Operation\<close> is the parameter \<open>ts\<close>.  The assertions in
  \<open>add_summary\<close> state that the timestamps of the items ascend strictly, which is the invariant
  \<open>oq_ok\<close>; they are not modelled as panics.
\<close>

section \<open>The queue\<close>

record operation_summary =
  os_key :: lamport
  os_len :: nat

type_synonym 'op operation_queue = "('op, operation_summary) sum_tree"

definition oq_ops :: "('op \<Rightarrow> lamport) \<Rightarrow> ('op, operation_summary) summary_ops" where
  "oq_ops ts =
     \<lparr>sm_zero = \<lparr>os_key = LAMPORT_MIN, os_len = 0\<rparr>,
      sm_add = \<lambda>a b. \<lparr>os_key = os_key b, os_len = os_len a + os_len b\<rparr>,
      sm_item = \<lambda>op. \<lparr>os_key = ts op, os_len = 1\<rparr>\<rparr>"

definition oq_dim :: "(operation_summary, lamport) dimension" where
  "oq_dim = \<lparr>dm_zero = LAMPORT_MIN, dm_add = \<lambda>_ s. os_key s\<rparr>"

definition oq_new :: "('op \<Rightarrow> lamport) \<Rightarrow> 'op operation_queue" where
  "oq_new ts = st_new (oq_ops ts)"

definition oq_len :: "'op operation_queue \<Rightarrow> nat" where
  "oq_len q = os_len (st_summary q)"

definition oq_is_empty :: "'op operation_queue \<Rightarrow> bool" where
  "oq_is_empty q \<longleftrightarrow> oq_len q = 0"

text \<open>\<open>Vec::dedup_by_key\<close>: of consecutive elements with equal keys the first stays.\<close>

fun dedup_by_key :: "('a \<Rightarrow> 'k) \<Rightarrow> 'a list \<Rightarrow> 'a list" where
  "dedup_by_key key [] = []"
| "dedup_by_key key [x] = [x]"
| "dedup_by_key key (x # y # xs) =
     (if key y = key x then dedup_by_key key (x # xs) else x # dedup_by_key key (y # xs))"

text \<open>The unstable sort may order operations of equal timestamps (copies of one operation) in any way;
  the model takes the stable order.\<close>

definition oq_insert :: "('op \<Rightarrow> lamport) \<Rightarrow> 'op operation_queue \<Rightarrow> 'op list \<Rightarrow> 'op operation_queue option" where
  "oq_insert ts q ops =
     map_option fst (st_edit (oq_ops ts) oq_dim ts q (map Insert (dedup_by_key ts (sort_key ts ops))))"

definition oq_drain :: "('op \<Rightarrow> lamport) \<Rightarrow> 'op operation_queue \<Rightarrow> 'op operation_queue \<times> 'op operation_queue" where
  "oq_drain ts q = (q, st_new (oq_ops ts))"

definition oq_iter :: "'op operation_queue \<Rightarrow> 'op list option" where
  "oq_iter q = st_iter q"

section \<open>Correctness\<close>

interpretation oq: keyed_laws "oq_ops ts" oq_dim ts for ts :: "'op \<Rightarrow> lamport"
  by unfold_locales (simp_all add: oq_ops_def oq_dim_def LAMPORT_MIN_least)

definition oq_ok :: "('op \<Rightarrow> lamport) \<Rightarrow> 'op operation_queue \<Rightarrow> bool" where
  "oq_ok ts q \<longleftrightarrow> st_wf (oq_ops ts) q \<and> keys_sorted ts (st_items q)"

definition oq_abs :: "('op \<Rightarrow> lamport) \<Rightarrow> 'op operation_queue \<Rightarrow> lamport \<Rightarrow> 'op option" where
  "oq_abs ts q = key_map ts (st_items q)"

lemma set_dedup_subset: "set (dedup_by_key key xs) \<subseteq> set xs"
  by (induction key xs rule: dedup_by_key.induct) auto

lemma keys_dedup: "key ` set (dedup_by_key key xs) = key ` set xs"
  by (induction key xs rule: dedup_by_key.induct) (auto simp: image_iff)

lemma sorted_dedup:
  "sorted (map key xs) \<Longrightarrow> sorted_wrt (<) (map key (dedup_by_key key xs))"
proof (induction key xs rule: dedup_by_key.induct)
  case (3 key x y xs)
  show ?case
  proof (cases "key y = key x")
    case True
    with 3 show ?thesis by simp
  next
    case False
    then have "key x < key y" using 3(3) by (simp add: order.strict_iff_order)
    moreover have "key y \<le> key z" if "z \<in> set (dedup_by_key key (y # xs))" for z
      using that set_dedup_subset [of key "y # xs"] 3(3) by auto
    ultimately show ?thesis using 3(2) [OF False] 3(3) False by (auto intro: less_le_trans)
  qed
qed simp_all

lemma sum_items_len: "os_len (sum_items (oq_ops ts) xs) = length xs"
  by (induction xs rule: rev_induct) (simp_all add: sum_items_def sum_summaries_def oq_ops_def)

lemma oq_len_items: "st_wf (oq_ops ts) q \<Longrightarrow> oq_len q = length (st_items q)"
  by (simp add: oq_len_def oq.wf_summary sum_items_len)

lemma dom_key_map: "dom (key_map ts zs) = ts ` set zs"
  by (auto simp: key_map_def dom_map_of_conv_image_fst image_image)

lemma oq_ok_distinct: "oq_ok ts q \<Longrightarrow> distinct (map ts (st_items q))"
  using strict_sorted_iff by (auto simp: oq_ok_def keys_sorted_def)

lemma oq_insert_abs:
  assumes "oq_ok ts q" "st_height q < 16"
  shows "\<exists>q'. oq_insert ts q ops = Some q' \<and> oq_ok ts q' \<and>
      dom (oq_abs ts q') = dom (oq_abs ts q) \<union> ts ` set ops \<and>
      (\<forall>k. k \<notin> ts ` set ops \<longrightarrow> oq_abs ts q' k = oq_abs ts q k) \<and>
      (\<forall>k \<in> ts ` set ops. \<exists>op \<in> set ops. ts op = k \<and> oq_abs ts q' k = Some op)"
proof -
  let ?xs = "st_items q" and ?ys = "dedup_by_key ts (sort_key ts ops)"
  have wf: "st_wf (oq_ops ts) q" "keys_sorted ts ?xs" using assms(1) by (simp_all add: oq_ok_def)
  have ys: "distinct (map ts ?ys)" using sorted_dedup [of ts "sort_key ts ops"] strict_sorted_iff by auto
  have keys: "ts ` set ?ys = ts ` set ops" "set ?ys \<subseteq> set ops"
    using keys_dedup [of ts "sort_key ts ops"] set_dedup_subset [of ts "sort_key ts ops"] by simp_all
  obtain q' removed where q': "st_edit (oq_ops ts) oq_dim ts q (map Insert ?ys) = Some (q', removed)"
      "st_wf (oq_ops ts) q'" "keys_sorted ts (st_items q')"
      "key_map ts (st_items q') = key_map ts ?xs ++ key_map ts ?ys"
    using oq.edit_inserts [OF wf(1) assms(2) wf(2) ys] by blast
  have "oq_abs ts q' k = oq_abs ts q k" if "k \<notin> ts ` set ops" for k
  proof -
    have "key_map ts ?ys k = None" using that keys(1) key_map_None [of ts ?ys k] by auto
    then show ?thesis by (simp add: oq_abs_def q'(4) map_add_def)
  qed
  moreover have "\<exists>op \<in> set ops. ts op = k \<and> oq_abs ts q' k = Some op" if "k \<in> ts ` set ops" for k
  proof -
    obtain op where op: "op \<in> set ?ys" "ts op = k" using \<open>k \<in> ts ` set ops\<close> keys(1) by (metis imageE)
    then have "key_map ts ?ys k = Some op" using key_map_unique [OF ys] by blast
    with op keys(2) show ?thesis by (auto simp: oq_abs_def q'(4))
  qed
  moreover have "dom (oq_abs ts q') = dom (oq_abs ts q) \<union> ts ` set ops"
    unfolding oq_abs_def q'(4) dom_map_add dom_key_map keys(1) by blast
  ultimately show ?thesis
    using q' by (intro exI [of _ q']) (auto simp: oq_insert_def oq_ok_def)
qed

lemma oq_abs_mem:
  assumes "oq_ok ts q"
  shows "oq_abs ts q k = Some x \<longleftrightarrow> x \<in> set (st_items q) \<and> ts x = k"
proof
  assume "oq_abs ts q k = Some x"
  then have "map_of (map (\<lambda>x. (ts x, x)) (st_items q)) k = Some x" by (simp add: oq_abs_def key_map_def)
  then show "x \<in> set (st_items q) \<and> ts x = k" by (auto dest: map_of_SomeD)
next
  assume "x \<in> set (st_items q) \<and> ts x = k"
  then show "oq_abs ts q k = Some x" using key_map_unique [OF oq_ok_distinct [OF assms]] by (auto simp: oq_abs_def)
qed

lemma oq_ran: "oq_ok ts q \<Longrightarrow> ran (oq_abs ts q) = set (st_items q)"
  by (auto simp: ran_def oq_abs_mem)

lemma oq_iter_items:
  assumes "oq_ok ts q" "st_height q < 16"
  shows "oq_iter q = Some (st_items q)" "sorted_wrt (<) (map ts (st_items q))"
  using assms oq.iter [of ts q] by (simp_all add: oq_iter_def oq_ok_def keys_sorted_def)

text \<open>When a timestamp determines its operation, a queue holds the set of the operations inserted.\<close>

lemma oq_insert_items:
  assumes "oq_ok ts q" "st_height q < 16" "inj_on ts (set (st_items q) \<union> set ops)"
  shows "\<exists>q'. oq_insert ts q ops = Some q' \<and> oq_ok ts q' \<and> set (st_items q') = set (st_items q) \<union> set ops"
proof -
  obtain q' where q': "oq_insert ts q ops = Some q'" "oq_ok ts q'"
      "\<forall>k. k \<notin> ts ` set ops \<longrightarrow> oq_abs ts q' k = oq_abs ts q k"
      "\<forall>k \<in> ts ` set ops. \<exists>op \<in> set ops. ts op = k \<and> oq_abs ts q' k = Some op"
    using oq_insert_abs [OF assms(1,2)] by blast
  have "x \<in> set (st_items q') \<longleftrightarrow> x \<in> set (st_items q) \<union> set ops" for x
  proof (cases "ts x \<in> ts ` set ops")
    case True
    then obtain op where op: "op \<in> set ops" "ts op = ts x" "oq_abs ts q' (ts x) = Some op" using q'(4) by blast
    have "x \<in> set (st_items q') \<longleftrightarrow> x = op"
      using oq_abs_mem [OF q'(2), of "ts x" x] op(3) by auto
    also have "\<dots> \<longleftrightarrow> x \<in> set (st_items q) \<union> set ops"
      using op(1,2) assms(3) by (auto dest: inj_onD)
    finally show ?thesis .
  next
    case False
    then have "oq_abs ts q' (ts x) = oq_abs ts q (ts x)" using q'(3) by blast
    then have "x \<in> set (st_items q') \<longleftrightarrow> x \<in> set (st_items q)"
      using oq_abs_mem [OF q'(2), of "ts x" x] oq_abs_mem [OF assms(1), of "ts x" x] by simp
    then show ?thesis using False by auto
  qed
  with q' show ?thesis by blast
qed

lemma oq_new_ok [simp]: "oq_ok ts (oq_new ts)" "st_items (oq_new ts) = []" "st_height (oq_new ts) < 16"
  by (simp_all add: oq_ok_def oq_new_def keys_sorted_def) (simp add: st_new_def)


definition sample_queue :: "(lamport \<times> nat) operation_queue" where
  "sample_queue = Leaf \<lparr>os_key = Lamport 3 1, os_len = 2\<rparr> [(Lamport 2 0, 1), (Lamport 3 1, 0)]
     [\<lparr>os_key = Lamport 2 0, os_len = 1\<rparr>, \<lparr>os_key = Lamport 3 1, os_len = 1\<rparr>]"

lemma sample_queue_ok: "oq_ok fst sample_queue" "st_height sample_queue < 16"
  by (simp_all add: sample_queue_def oq_ok_def st_wf_def oq_ops_def sum_summaries_def TREE_BASE_def keys_sorted_def
      less_lamport_iff)


end
