(* ===== verification/Zed_History.thy ===== *)
theory Zed_History
  imports Zed_TreeMap Zed_UndoMap "HOL-Library.Multiset"
begin

text \<open>
  The operations of a buffer and its undo history (\<open>Operation\<close> and \<open>History\<close> in
  \<open>crates/text/src/text.rs\<close>).  The stacks are lists with the top at the end, as the Rust vectors;
  instants and durations are numbers whose difference saturates at zero, as \<open>Instant\<close> subtraction
  does.  A failed assertion or \<open>unwrap\<close> is \<open>None\<close>.
\<close>

section \<open>Operations\<close>

record edit_operation =
  eo_timestamp :: lamport
  eo_version :: vclock
  eo_ranges :: "(nat \<times> nat) list"
  eo_new_text :: "string list"

datatype operation = EditOp edit_operation | UndoOp undo_operation

fun op_timestamp :: "operation \<Rightarrow> lamport" where
  "op_timestamp (EditOp e) = eo_timestamp e"
| "op_timestamp (UndoOp u) = uo_timestamp u"

fun op_is_edit :: "operation \<Rightarrow> bool" where
  "op_is_edit (EditOp _) = True"
| "op_is_edit (UndoOp _) = False"

definition op_replica_id :: "operation \<Rightarrow> replica_id" where
  "op_replica_id op = lam_replica (op_timestamp op)"

section \<open>The history\<close>

record transaction =
  tr_id :: lamport
  tr_edit_ids :: "lamport list"
  tr_start :: vclock

record history_entry =
  he_transaction :: transaction
  he_first_edit_at :: nat
  he_last_edit_at :: nat
  he_suppress_grouping :: bool

record history =
  hi_base_text :: string
  hi_operations :: "(lamport, operation) tree_map"
  hi_undo_stack :: "history_entry list"
  hi_redo_stack :: "history_entry list"
  hi_depth :: nat
  hi_group_interval :: nat

abbreviation he_id :: "history_entry \<Rightarrow> lamport" where
  "he_id e \<equiv> tr_id (he_transaction e)"

abbreviation he_edit_ids :: "history_entry \<Rightarrow> lamport list" where
  "he_edit_ids e \<equiv> tr_edit_ids (he_transaction e)"

definition entry_new :: "transaction \<Rightarrow> nat \<Rightarrow> history_entry" where
  "entry_new t now =
     \<lparr>he_transaction = t, he_first_edit_at = now, he_last_edit_at = now, he_suppress_grouping = False\<rparr>"

definition add_edit_ids :: "lamport list \<Rightarrow> history_entry \<Rightarrow> history_entry" where
  "add_edit_ids ids e = e\<lparr>he_transaction := (he_transaction e)\<lparr>tr_edit_ids := tr_edit_ids (he_transaction e) @ ids\<rparr>\<rparr>"

text \<open>\<open>rposition\<close>: the index of the last element with the property.\<close>

definition rposition :: "('a \<Rightarrow> bool) \<Rightarrow> 'a list \<Rightarrow> nat option" where
  "rposition P xs =
     (let k = length (takeWhile (\<lambda>x. \<not> P x) (rev xs)) in
      if k < length xs then Some (length xs - 1 - k) else None)"

subsection \<open>Transactions\<close>

definition hi_new :: "nat \<Rightarrow> string \<Rightarrow> history" where
  "hi_new interval base_text =
     \<lparr>hi_base_text = base_text, hi_operations = tm_new, hi_undo_stack = [], hi_redo_stack = [],
      hi_depth = 0, hi_group_interval = interval\<rparr>"

definition hi_push :: "history \<Rightarrow> operation \<Rightarrow> history option" where
  "hi_push h op = map_option (\<lambda>ops. h\<lparr>hi_operations := ops\<rparr>) (tm_insert (hi_operations h) (op_timestamp op) op)"

definition hi_start_transaction ::
    "history \<Rightarrow> vclock \<Rightarrow> nat \<Rightarrow> lamport \<Rightarrow> history \<times> lamport \<times> lamport option" where
  "hi_start_transaction h start now clock =
     (let h = h\<lparr>hi_depth := hi_depth h + 1\<rparr> in
      if hi_depth h = 1 then
        let (tid, clock) = lamport_tick clock in
        (h\<lparr>hi_undo_stack := hi_undo_stack h @ [entry_new \<lparr>tr_id = tid, tr_edit_ids = [], tr_start = start\<rparr> now]\<rparr>,
         clock, Some tid)
      else (h, clock, None))"

definition hi_end_transaction :: "history \<Rightarrow> nat \<Rightarrow> (history \<times> history_entry option) option" where
  "hi_end_transaction h now =
     (if hi_depth h = 0 then None
      else
        let h = h\<lparr>hi_depth := hi_depth h - 1\<rparr> in
        if hi_depth h = 0 then
          if hi_undo_stack h = [] then None
          else if he_edit_ids (last (hi_undo_stack h)) = [] then
            Some (h\<lparr>hi_undo_stack := butlast (hi_undo_stack h)\<rparr>, None)
          else
            let entry = (last (hi_undo_stack h))\<lparr>he_last_edit_at := now\<rparr> in
            Some (h\<lparr>hi_redo_stack := [], hi_undo_stack := butlast (hi_undo_stack h) @ [entry]\<rparr>, Some entry)
        else Some (h, None))"

subsection \<open>Grouping\<close>

text \<open>\<open>group_trailing\<close> merges the last \<open>n\<close> entries into the one before them; an \<open>n\<close> beyond the
  stack underflows.\<close>

definition hi_group_trailing :: "history \<Rightarrow> nat \<Rightarrow> (history \<times> lamport option) option" where
  "hi_group_trailing h n =
     (if length (hi_undo_stack h) < n then None
      else
        let new_len = length (hi_undo_stack h) - n;
            keep = take new_len (hi_undo_stack h);
            merge = drop new_len (hi_undo_stack h);
            keep =
              (if keep = [] then keep
               else
                 let last_entry = add_edit_ids (concat (map he_edit_ids merge)) (last keep);
                     last_entry = (if merge = [] then last_entry
                       else last_entry\<lparr>he_last_edit_at := he_last_edit_at (last merge)\<rparr>)
                 in butlast keep @ [last_entry])
        in Some (h\<lparr>hi_undo_stack := keep\<rparr>, if keep = [] then None else Some (he_id (last keep))))"

text \<open>The loop of \<open>group\<close> over the earlier entries, from the top of the stack down.\<close>

fun group_count :: "nat \<Rightarrow> history_entry \<Rightarrow> history_entry list \<Rightarrow> nat" where
  "group_count interval entry [] = 0"
| "group_count interval entry (prev_entry # entries) =
     (if \<not> he_suppress_grouping prev_entry \<and> he_first_edit_at entry - he_last_edit_at prev_entry < interval
      then Suc (group_count interval prev_entry entries) else 0)"

definition hi_group :: "history \<Rightarrow> (history \<times> lamport option) option" where
  "hi_group h =
     hi_group_trailing h
       (case rev (hi_undo_stack h) of
          [] \<Rightarrow> 0
        | entry # entries \<Rightarrow> group_count (hi_group_interval h) entry entries)"

text \<open>The loop of \<open>group_until\<close>: how many entries lie above the transaction, when grouping may
  reach it.\<close>

fun group_until_count :: "lamport \<Rightarrow> nat \<Rightarrow> history_entry list \<Rightarrow> nat option" where
  "group_until_count tid n [] = None"
| "group_until_count tid n (entry # entries) =
     (if he_id entry = tid then Some n
      else if he_suppress_grouping entry then None
      else group_until_count tid (n + 1) entries)"

definition hi_group_until :: "history \<Rightarrow> lamport \<Rightarrow> history option" where
  "hi_group_until h tid =
     (case group_until_count tid 0 (rev (hi_undo_stack h)) of
        Some n \<Rightarrow> map_option fst (hi_group_trailing h n)
      | None \<Rightarrow> Some h)"

definition hi_finalize_last :: "history \<Rightarrow> history \<times> transaction option" where
  "hi_finalize_last h =
     (if hi_undo_stack h = [] then (h, None)
      else
        let entry = (last (hi_undo_stack h))\<lparr>he_suppress_grouping := True\<rparr> in
        (h\<lparr>hi_undo_stack := butlast (hi_undo_stack h) @ [entry]\<rparr>, Some (he_transaction entry)))"

subsection \<open>Moving entries between the stacks\<close>

definition hi_push_transaction :: "history \<Rightarrow> transaction \<Rightarrow> nat \<Rightarrow> history option" where
  "hi_push_transaction h t now =
     (if hi_depth h \<noteq> 0 then None else Some (h\<lparr>hi_undo_stack := hi_undo_stack h @ [entry_new t now]\<rparr>))"

definition hi_push_empty_transaction ::
    "history \<Rightarrow> vclock \<Rightarrow> nat \<Rightarrow> lamport \<Rightarrow> (history \<times> lamport \<times> lamport) option" where
  "hi_push_empty_transaction h start now clock =
     (if hi_depth h \<noteq> 0 then None
      else
        let (tid, clock) = lamport_tick clock in
        Some (h\<lparr>hi_undo_stack := hi_undo_stack h @ [entry_new \<lparr>tr_id = tid, tr_edit_ids = [], tr_start = start\<rparr> now]\<rparr>,
              clock, tid))"

definition hi_push_undo :: "history \<Rightarrow> lamport \<Rightarrow> history option" where
  "hi_push_undo h op_id =
     (if hi_depth h = 0 then None
      else
        case tm_get (hi_operations h) op_id of
          Some (EditOp _) \<Rightarrow>
            (if hi_undo_stack h = [] then None
             else Some (h\<lparr>hi_undo_stack := butlast (hi_undo_stack h) @ [add_edit_ids [op_id] (last (hi_undo_stack h))]\<rparr>))
        | _ \<Rightarrow> Some h)"

definition hi_pop_undo :: "history \<Rightarrow> (history \<times> history_entry option) option" where
  "hi_pop_undo h =
     (if hi_depth h \<noteq> 0 then None
      else if hi_undo_stack h = [] then Some (h, None)
      else
        let entry = last (hi_undo_stack h) in
        Some (h\<lparr>hi_undo_stack := butlast (hi_undo_stack h), hi_redo_stack := hi_redo_stack h @ [entry]\<rparr>, Some entry))"

definition hi_remove_from_undo :: "history \<Rightarrow> lamport \<Rightarrow> (history \<times> history_entry option) option" where
  "hi_remove_from_undo h tid =
     (if hi_depth h \<noteq> 0 then None
      else
        case rposition (\<lambda>e. he_id e = tid) (hi_undo_stack h) of
          None \<Rightarrow> Some (h, None)
        | Some ix \<Rightarrow>
            let entry = hi_undo_stack h ! ix in
            Some (h\<lparr>hi_undo_stack := take ix (hi_undo_stack h) @ drop (Suc ix) (hi_undo_stack h),
                    hi_redo_stack := hi_redo_stack h @ [entry]\<rparr>, Some entry))"

definition hi_remove_from_undo_until :: "history \<Rightarrow> lamport \<Rightarrow> (history \<times> history_entry list) option" where
  "hi_remove_from_undo_until h tid =
     (if hi_depth h \<noteq> 0 then None
      else
        case rposition (\<lambda>e. he_id e = tid) (hi_undo_stack h) of
          None \<Rightarrow> Some (h, [])
        | Some ix \<Rightarrow>
            let moved = rev (drop ix (hi_undo_stack h)) in
            Some (h\<lparr>hi_undo_stack := take ix (hi_undo_stack h), hi_redo_stack := hi_redo_stack h @ moved\<rparr>, moved))"

definition hi_forget :: "history \<Rightarrow> lamport \<Rightarrow> (history \<times> transaction option) option" where
  "hi_forget h tid =
     (if hi_depth h \<noteq> 0 then None
      else
        case rposition (\<lambda>e. he_id e = tid) (hi_undo_stack h) of
          Some ix \<Rightarrow>
            Some (h\<lparr>hi_undo_stack := take ix (hi_undo_stack h) @ drop (Suc ix) (hi_undo_stack h)\<rparr>,
                  Some (he_transaction (hi_undo_stack h ! ix)))
        | None \<Rightarrow>
            (case rposition (\<lambda>e. he_id e = tid) (hi_redo_stack h) of
               Some ix \<Rightarrow>
                 Some (h\<lparr>hi_redo_stack := take ix (hi_redo_stack h) @ drop (Suc ix) (hi_redo_stack h)\<rparr>,
                       Some (he_transaction (hi_redo_stack h ! ix)))
             | None \<Rightarrow> Some (h, None)))"

definition hi_transaction :: "history \<Rightarrow> lamport \<Rightarrow> transaction option" where
  "hi_transaction h tid =
     (case rposition (\<lambda>e. he_id e = tid) (hi_undo_stack h) of
        Some ix \<Rightarrow> Some (he_transaction (hi_undo_stack h ! ix))
      | None \<Rightarrow>
          (case rposition (\<lambda>e. he_id e = tid) (hi_redo_stack h) of
             Some ix \<Rightarrow> Some (he_transaction (hi_redo_stack h ! ix))
           | None \<Rightarrow> None))"

text \<open>\<open>transaction_mut\<close> with the update that \<open>merge_transactions\<close> makes through it.\<close>

definition hi_extend_transaction :: "history \<Rightarrow> lamport \<Rightarrow> lamport list \<Rightarrow> history" where
  "hi_extend_transaction h tid ids =
     (case rposition (\<lambda>e. he_id e = tid) (hi_undo_stack h) of
        Some ix \<Rightarrow> h\<lparr>hi_undo_stack := (hi_undo_stack h)[ix := add_edit_ids ids (hi_undo_stack h ! ix)]\<rparr>
      | None \<Rightarrow>
          (case rposition (\<lambda>e. he_id e = tid) (hi_redo_stack h) of
             Some ix \<Rightarrow> h\<lparr>hi_redo_stack := (hi_redo_stack h)[ix := add_edit_ids ids (hi_redo_stack h ! ix)]\<rparr>
           | None \<Rightarrow> h))"

definition hi_merge_transactions :: "history \<Rightarrow> lamport \<Rightarrow> lamport \<Rightarrow> history option" where
  "hi_merge_transactions h tid destination =
     (case hi_forget h tid of
        None \<Rightarrow> None
      | Some (h, None) \<Rightarrow> Some h
      | Some (h, Some t) \<Rightarrow> Some (hi_extend_transaction h destination (tr_edit_ids t)))"

definition hi_pop_redo :: "history \<Rightarrow> (history \<times> history_entry option) option" where
  "hi_pop_redo h =
     (if hi_depth h \<noteq> 0 then None
      else if hi_redo_stack h = [] then Some (h, None)
      else
        let entry = last (hi_redo_stack h) in
        Some (h\<lparr>hi_redo_stack := butlast (hi_redo_stack h), hi_undo_stack := hi_undo_stack h @ [entry]\<rparr>, Some entry))"

definition hi_remove_from_redo :: "history \<Rightarrow> lamport \<Rightarrow> (history \<times> history_entry list) option" where
  "hi_remove_from_redo h tid =
     (if hi_depth h \<noteq> 0 then None
      else
        case rposition (\<lambda>e. he_id e = tid) (hi_redo_stack h) of
          None \<Rightarrow> Some (h, [])
        | Some ix \<Rightarrow>
            let moved = rev (drop ix (hi_redo_stack h)) in
            Some (h\<lparr>hi_redo_stack := take ix (hi_redo_stack h), hi_undo_stack := hi_undo_stack h @ moved\<rparr>, moved))"

section \<open>Correctness\<close>

lemma rposition_Some:
  assumes "rposition P xs = Some ix"
  obtains l x r where "xs = l @ x # r" "ix = length l" "P x" "\<forall>y \<in> set r. \<not> P y"
proof -
  let ?k = "length (takeWhile (\<lambda>x. \<not> P x) (rev xs))"
  have k: "?k < length xs" and ix: "ix = length xs - 1 - ?k"
    using assms by (auto simp: rposition_def Let_def split: if_splits)
  have "dropWhile (\<lambda>x. \<not> P x) (rev xs) \<noteq> []"
    using k takeWhile_dropWhile_id [of "\<lambda>x. \<not> P x" "rev xs"] by (metis append_Nil2 length_rev less_irrefl)
  then obtain x r where r: "dropWhile (\<lambda>x. \<not> P x) (rev xs) = x # r" by (cases "dropWhile (\<lambda>x. \<not> P x) (rev xs)") auto
  have "rev xs = takeWhile (\<lambda>x. \<not> P x) (rev xs) @ x # r"
    using takeWhile_dropWhile_id [of "\<lambda>x. \<not> P x" "rev xs"] r by simp
  then have xs: "xs = rev r @ x # rev (takeWhile (\<lambda>x. \<not> P x) (rev xs))"
    by (metis append.assoc append_Cons append_Nil rev.simps(2) rev_append rev_rev_ident)
  show thesis
  proof (rule that [OF xs])
    show "ix = length (rev r)" using ix arg_cong [OF xs, of length] by simp
    show "P x" using r by (metis hd_dropWhile list.distinct(1) list.sel(1))
    show "\<forall>y \<in> set (rev (takeWhile (\<lambda>x. \<not> P x) (rev xs))). \<not> P y" using set_takeWhileD by fastforce
  qed
qed

lemma rposition_None: "rposition P xs = None \<Longrightarrow> \<forall>x \<in> set xs. \<not> P x"
proof -
  assume "rposition P xs = None"
  then have "\<not> length (takeWhile (\<lambda>x. \<not> P x) (rev xs)) < length xs"
    by (auto simp: rposition_def Let_def split: if_splits)
  moreover have "length (takeWhile (\<lambda>x. \<not> P x) (rev xs)) \<le> length (rev xs)" by (rule length_takeWhile_le)
  ultimately have "length (takeWhile (\<lambda>x. \<not> P x) (rev xs)) = length (rev xs)" by simp
  moreover have "length (takeWhile (\<lambda>x. \<not> P x) (rev xs)) + length (dropWhile (\<lambda>x. \<not> P x) (rev xs)) = length (rev xs)"
    by (metis length_append takeWhile_dropWhile_id)
  ultimately have "dropWhile (\<lambda>x. \<not> P x) (rev xs) = []" by simp
  then have "takeWhile (\<lambda>x. \<not> P x) (rev xs) = rev xs"
    using takeWhile_dropWhile_id [of "\<lambda>x. \<not> P x" "rev xs"] by simp
  then show ?thesis by (metis set_rev takeWhile_eq_all_conv)
qed

lemma add_edit_ids_simps [simp]:
  "he_id (add_edit_ids es e) = he_id e" "he_edit_ids (add_edit_ids es e) = he_edit_ids e @ es"
  "he_first_edit_at (add_edit_ids es e) = he_first_edit_at e" "he_last_edit_at (add_edit_ids es e) = he_last_edit_at e"
  "he_suppress_grouping (add_edit_ids es e) = he_suppress_grouping e"
  by (simp_all add: add_edit_ids_def)

lemma entry_new_simps [simp]: "he_transaction (entry_new t now) = t"
  by (simp add: entry_new_def)

subsection \<open>Grouping\<close>

text \<open>Two neighbouring entries belong to one group.\<close>

definition groups_with :: "nat \<Rightarrow> history_entry \<Rightarrow> history_entry \<Rightarrow> bool" where
  "groups_with interval a b \<longleftrightarrow> \<not> he_suppress_grouping a \<and> he_first_edit_at b - he_last_edit_at a < interval"

text \<open>The entry that a run of entries is merged into.\<close>

definition merged :: "history_entry list \<Rightarrow> history_entry" where
  "merged run =
     \<lparr>he_transaction = (he_transaction (hd run))\<lparr>tr_edit_ids := concat (map he_edit_ids run)\<rparr>,
      he_first_edit_at = he_first_edit_at (hd run), he_last_edit_at = he_last_edit_at (last run),
      he_suppress_grouping = he_suppress_grouping (hd run)\<rparr>"

lemma merged_simps [simp]: "he_id (merged run) = he_id (hd run)" "he_edit_ids (merged run) = concat (map he_edit_ids run)"
  by (simp_all add: merged_def)

lemma group_trailing:
  assumes "hi_undo_stack h = keep @ e # run"
  shows "hi_group_trailing h (length run) =
    Some (h\<lparr>hi_undo_stack := keep @ [merged (e # run)]\<rparr>, Some (he_id e))"
proof (cases run rule: rev_cases)
  case Nil
  then show ?thesis
    using assms by (simp add: hi_group_trailing_def Let_def merged_def add_edit_ids_def)
next
  case (snoc ys y)
  then show ?thesis
    using assms by (simp add: hi_group_trailing_def Let_def merged_def add_edit_ids_def)
qed

lemma group_count:
  "\<exists>keep run. rev entries = keep @ run \<and> length run = group_count interval e entries \<and>
     successively (groups_with interval) (run @ [e]) \<and>
     (keep = [] \<or> \<not> groups_with interval (last keep) (hd (run @ [e])))"
proof (induction interval e entries rule: group_count.induct)
  case (2 interval e p entries)
  show ?case
  proof (cases "groups_with interval p e")
    case True
    then have guard: "\<not> he_suppress_grouping p \<and> he_first_edit_at e - he_last_edit_at p < interval"
      by (simp add: groups_with_def)
    from 2 [OF guard] obtain keep run where run: "rev entries = keep @ run" "length run = group_count interval p entries"
      "successively (groups_with interval) (run @ [p])" "keep = [] \<or> \<not> groups_with interval (last keep) (hd (run @ [p]))"
      by blast
    have "successively (groups_with interval) ((run @ [p]) @ [e])"
      using run(3) True by (simp only: successively_append_iff) simp
    with run guard show ?thesis
      by (intro exI [of _ keep] exI [of _ "run @ [p]"]) (cases run; simp)
  next
    case False
    then have "group_count interval e (p # entries) = 0" by (simp add: groups_with_def)
    with False show ?thesis by (intro exI [of _ "rev entries @ [p]"] exI [of _ "[]"]) simp
  qed
qed simp

lemma hi_group:
  assumes "hi_undo_stack h \<noteq> []"
  shows "\<exists>keep run. hi_undo_stack h = keep @ run \<and> run \<noteq> [] \<and>
    successively (groups_with (hi_group_interval h)) run \<and>
    (keep = [] \<or> \<not> groups_with (hi_group_interval h) (last keep) (hd run)) \<and>
    hi_group h = Some (h\<lparr>hi_undo_stack := keep @ [merged run]\<rparr>, Some (he_id (hd run)))"
proof -
  obtain es e where es: "hi_undo_stack h = es @ [e]" using assms by (cases "hi_undo_stack h" rule: rev_cases) auto
  obtain keep run where run: "es = keep @ run" "length run = group_count (hi_group_interval h) e (rev es)"
    "successively (groups_with (hi_group_interval h)) (run @ [e])"
    "keep = [] \<or> \<not> groups_with (hi_group_interval h) (last keep) (hd (run @ [e]))"
    using group_count [of "rev es" "hi_group_interval h" e] unfolding rev_rev_ident by blast
  obtain f fs where f: "run @ [e] = f # fs" by (cases "run @ [e]") auto
  then have len: "length run = length fs" by (metis add_right_cancel length_Cons length_append_singleton Suc_inject)
  have "hi_group h = hi_group_trailing h (length fs)"
    using es run(2) len by (simp add: hi_group_def)
  also have "\<dots> = Some (h\<lparr>hi_undo_stack := keep @ [merged (f # fs)]\<rparr>, Some (he_id f))"
    by (rule group_trailing) (use es run(1) f in simp)
  finally show ?thesis
    using es run f by (intro exI [of _ keep] exI [of _ "run @ [e]"]) simp
qed

lemma hi_group_until:
  assumes "hi_undo_stack h = keep @ e # run" "he_id e = tid" "\<forall>x \<in> set run. he_id x \<noteq> tid \<and> \<not> he_suppress_grouping x"
  shows "hi_group_until h tid = Some (h\<lparr>hi_undo_stack := keep @ [merged (e # run)]\<rparr>)"
proof -
  have "\<forall>x \<in> set xs. he_id x \<noteq> tid \<and> \<not> he_suppress_grouping x \<Longrightarrow>
      group_until_count tid n (xs @ e # ys) = Some (n + length xs)" for xs ys n
    using assms(2) by (induction xs arbitrary: n) auto
  from this [of "rev run" 0 "rev keep"] assms(3) have "group_until_count tid 0 (rev (hi_undo_stack h)) = Some (length run)"
    using assms(1) by simp
  then show ?thesis using group_trailing [OF assms(1)] by (simp add: hi_group_until_def)
qed

subsection \<open>Reachable histories\<close>

text \<open>The states of a history and the clock of its buffer, as the operations of the buffer drive them.
  The clock has not run out of its 32 bits when an identifier is taken from it, and a transaction that
  is pushed from outside has a fresh identifier.\<close>

definition hi_ids :: "history \<Rightarrow> lamport list" where
  "hi_ids h = map he_id (hi_undo_stack h @ hi_redo_stack h)"

inductive hi_reach :: "history \<Rightarrow> lamport \<Rightarrow> bool" where
  new: "hi_reach (hi_new interval base_text) clock"
| advance: "hi_reach h c \<Longrightarrow> lam_value c \<le> lam_value c' \<Longrightarrow> hi_reach h c'"
| push: "hi_reach h c \<Longrightarrow> hi_push h op = Some h' \<Longrightarrow> hi_reach h' c"
| start: "hi_reach h c \<Longrightarrow> lam_value c < - 1 \<Longrightarrow> hi_start_transaction h v now c = (h', c', r) \<Longrightarrow> hi_reach h' c'"
| end_transaction: "hi_reach h c \<Longrightarrow> hi_end_transaction h now = Some (h', r1) \<Longrightarrow> hi_reach h' c"
| group: "hi_reach h c \<Longrightarrow> hi_group h = Some (h', r2) \<Longrightarrow> hi_reach h' c"
| group_until: "hi_reach h c \<Longrightarrow> hi_group_until h tid = Some h' \<Longrightarrow> hi_reach h' c"
| finalize: "hi_reach h c \<Longrightarrow> hi_finalize_last h = (h', r3) \<Longrightarrow> hi_reach h' c"
| push_transaction: "hi_reach h c \<Longrightarrow> tr_id t \<notin> set (hi_ids h) \<Longrightarrow> lam_value (tr_id t) < lam_value c \<Longrightarrow>
    hi_push_transaction h t now = Some h' \<Longrightarrow> hi_reach h' c"
| push_empty: "hi_reach h c \<Longrightarrow> lam_value c < - 1 \<Longrightarrow> hi_push_empty_transaction h v now c = Some (h', c', r4) \<Longrightarrow>
    hi_reach h' c'"
| push_undo: "hi_reach h c \<Longrightarrow> hi_push_undo h op_id = Some h' \<Longrightarrow> hi_reach h' c"
| pop_undo: "hi_reach h c \<Longrightarrow> hi_pop_undo h = Some (h', r5) \<Longrightarrow> hi_reach h' c"
| remove_from_undo: "hi_reach h c \<Longrightarrow> hi_remove_from_undo h tid = Some (h', r5) \<Longrightarrow> hi_reach h' c"
| remove_from_undo_until: "hi_reach h c \<Longrightarrow> hi_remove_from_undo_until h tid = Some (h', r6) \<Longrightarrow> hi_reach h' c"
| forget: "hi_reach h c \<Longrightarrow> hi_forget h tid = Some (h', r3) \<Longrightarrow> hi_reach h' c"
| merge: "hi_reach h c \<Longrightarrow> hi_merge_transactions h tid tid' = Some h' \<Longrightarrow> hi_reach h' c"
| pop_redo: "hi_reach h c \<Longrightarrow> hi_pop_redo h = Some (h', r5) \<Longrightarrow> hi_reach h' c"
| remove_from_redo: "hi_reach h c \<Longrightarrow> hi_remove_from_redo h tid = Some (h', r6) \<Longrightarrow> hi_reach h' c"

definition hi_inv :: "history \<Rightarrow> lamport \<Rightarrow> bool" where
  "hi_inv h c \<longleftrightarrow>
     distinct (hi_ids h) \<and> (\<forall>i \<in> set (hi_ids h). lam_value i < lam_value c) \<and>
     (0 < hi_depth h \<longrightarrow> hi_undo_stack h \<noteq> [])"

lemma hi_inv_shrink:
  assumes "hi_inv h c" "mset (hi_ids h') \<subseteq># mset (hi_ids h)" "0 < hi_depth h' \<Longrightarrow> hi_undo_stack h' \<noteq> []"
  shows "hi_inv h' c"
proof -
  obtain rest where rest: "mset (hi_ids h) = mset (hi_ids h' @ rest)"
    using assms(2) by (metis mset_subset_eq_exists_conv mset_append ex_mset)
  then have "distinct (hi_ids h' @ rest)" "set (hi_ids h) = set (hi_ids h' @ rest)"
    using assms(1) unfolding hi_inv_def by (metis mset_eq_imp_distinct_iff, metis mset_eq_setD)
  with assms(1,3) show ?thesis by (auto simp: hi_inv_def)
qed

lemma hi_inv_push_fresh:
  assumes "hi_inv h c" "i \<notin> set (hi_ids h)" "lam_value i < lam_value c'" "lam_value c \<le> lam_value c'"
    and "hi_undo_stack h' = hi_undo_stack h @ [e]" "hi_redo_stack h' = hi_redo_stack h" "he_id e = i"
  shows "hi_inv h' c'"
  using assms by (auto simp: hi_inv_def hi_ids_def intro: order.strict_trans2)

lemma hi_inv_tick:
  assumes "hi_inv h c" "lam_value c < - 1" "lamport_tick c = (i, c')"
  shows "i \<notin> set (hi_ids h)" "lam_value i < lam_value c'" "lam_value c \<le> lam_value c'"
proof -
  have "lam_value c < lam_value c + 1" using unat_Suc_word [OF assms(2)] by (simp add: word_less_nat_alt)
  with assms show "i \<notin> set (hi_ids h)" "lam_value i < lam_value c'" "lam_value c \<le> lam_value c'"
    by (auto simp: lamport_tick_def hi_inv_def)
qed

lemma group_until_count_Some:
  "group_until_count tid m xs = Some n \<Longrightarrow> \<exists>ys y zs. xs = ys @ y # zs \<and> n = m + length ys \<and> he_id y = tid"
proof (induction tid m xs rule: group_until_count.induct)
  case (2 tid m x xs)
  show ?case
  proof (cases "he_id x = tid")
    case True
    with 2(2) show ?thesis by (intro exI [of _ "[]"]) simp
  next
    case False
    then have sup: "\<not> he_suppress_grouping x" "group_until_count tid (m + 1) xs = Some n"
      using 2(2) by (auto split: if_splits)
    from 2(1) [OF False sup] obtain ys y zs where "xs = ys @ y # zs" "n = m + 1 + length ys" "he_id y = tid" by blast
    then show ?thesis by (intro exI [of _ "x # ys"] exI [of _ y] exI [of _ zs]) simp
  qed
qed simp

lemma hi_group_empty: "hi_undo_stack h = [] \<Longrightarrow> hi_group h = Some (h, None)"
  by (simp add: hi_group_def hi_group_trailing_def)

lemma hi_inv_group: "hi_inv h c \<Longrightarrow> hi_group h = Some (h', r) \<Longrightarrow> hi_inv h' c"
proof (cases "hi_undo_stack h = []")
  case False
  assume inv: "hi_inv h c" and run: "hi_group h = Some (h', r)"
  from hi_group [OF False] run obtain keep es where es: "hi_undo_stack h = keep @ es" "es \<noteq> []"
    "h' = h\<lparr>hi_undo_stack := keep @ [merged es]\<rparr>" by auto
  obtain e rest where "es = e # rest" using es(2) by (cases es) auto
  with es show ?thesis by (intro hi_inv_shrink [OF inv]) (simp_all add: hi_ids_def)
qed (simp add: hi_group_empty)

lemma hi_inv_group_until:
  assumes "hi_inv h c" "hi_group_until h tid = Some h'"
  shows "hi_inv h' c"
proof (cases "group_until_count tid 0 (rev (hi_undo_stack h))")
  case None
  with assms show ?thesis by (simp add: hi_group_until_def)
next
  case (Some n)
  obtain ys y zs where split: "rev (hi_undo_stack h) = ys @ y # zs" "n = length ys"
    using group_until_count_Some [OF Some] by auto
  then have stack: "hi_undo_stack h = rev zs @ y # rev ys" by (simp add: rev_swap)
  from group_trailing [OF stack] assms(2) Some split(2)
  have "h' = h\<lparr>hi_undo_stack := rev zs @ [merged (y # rev ys)]\<rparr>" by (simp add: hi_group_until_def)
  with stack show ?thesis by (intro hi_inv_shrink [OF assms(1)]) (simp_all add: hi_ids_def)
qed

lemma hi_inv_forget:
  assumes "hi_inv h c" "hi_forget h tid = Some (h', r)"
  shows "hi_inv h' c"
proof -
  have depth: "hi_depth h = 0" using assms(2) by (simp add: hi_forget_def split: if_splits)
  show ?thesis
  proof (cases "rposition (\<lambda>e. he_id e = tid) (hi_undo_stack h)")
    case (Some ix)
    then obtain l x r where lxr: "hi_undo_stack h = l @ x # r" "ix = length l" by (rule rposition_Some)
    with Some assms(2) depth have "h' = h\<lparr>hi_undo_stack := l @ r\<rparr>" by (simp add: hi_forget_def)
    with lxr depth show ?thesis by (intro hi_inv_shrink [OF assms(1)]) (simp_all add: hi_ids_def)
  next
    case None
    show ?thesis
    proof (cases "rposition (\<lambda>e. he_id e = tid) (hi_redo_stack h)")
      case (Some ix)
      then obtain l x r where lxr: "hi_redo_stack h = l @ x # r" "ix = length l" by (rule rposition_Some)
      with None Some assms(2) depth have "h' = h\<lparr>hi_redo_stack := l @ r\<rparr>" by (simp add: hi_forget_def)
      with lxr depth show ?thesis by (intro hi_inv_shrink [OF assms(1)]) (simp_all add: hi_ids_def)
    next
      case no: None
      with None assms depth show ?thesis by (simp add: hi_forget_def)
    qed
  qed
qed

lemma hi_ids_operations [simp]: "hi_ids (h\<lparr>hi_operations := ops\<rparr>) = hi_ids h"
  by (simp add: hi_ids_def)

lemma hi_ids_extend [simp]: "hi_ids (hi_extend_transaction h tid ids) = hi_ids h"
proof -
  have *: "map he_id (xs[ix := add_edit_ids ids (xs ! ix)]) = map he_id xs" for xs :: "history_entry list" and ix
    by (cases "ix < length xs") (simp_all add: map_update list_update_same_conv list_update_beyond)
  show ?thesis by (simp add: hi_ids_def hi_extend_transaction_def * split: option.split)
qed

lemma hi_extend_same [simp]:
  "hi_depth (hi_extend_transaction h tid ids) = hi_depth h"
  "hi_undo_stack (hi_extend_transaction h tid ids) = [] \<longleftrightarrow> hi_undo_stack h = []"
  by (simp_all add: hi_extend_transaction_def split: option.split)

lemma hi_inv_until:
  assumes "hi_inv h c" "hi_remove_from_undo_until h tid = Some (h', r)"
  shows "hi_inv h' c"
proof -
  have depth: "hi_depth h = 0" using assms(2) by (simp add: hi_remove_from_undo_until_def split: if_splits)
  show ?thesis
  proof (cases "rposition (\<lambda>e. he_id e = tid) (hi_undo_stack h)")
    case (Some ix)
    then obtain l x ys where lxr: "hi_undo_stack h = l @ x # ys" "ix = length l" by (rule rposition_Some)
    with Some assms(2) depth have "h' = h\<lparr>hi_undo_stack := l, hi_redo_stack := hi_redo_stack h @ rev ys @ [x]\<rparr>"
      by (auto simp: hi_remove_from_undo_until_def Let_def)
    with lxr depth show ?thesis by (intro hi_inv_shrink [OF assms(1)]) (simp_all add: hi_ids_def)
  qed (use assms depth in \<open>simp add: hi_remove_from_undo_until_def\<close>)
qed

lemma hi_inv_redo_until:
  assumes "hi_inv h c" "hi_remove_from_redo h tid = Some (h', r)"
  shows "hi_inv h' c"
proof -
  have depth: "hi_depth h = 0" using assms(2) by (simp add: hi_remove_from_redo_def split: if_splits)
  show ?thesis
  proof (cases "rposition (\<lambda>e. he_id e = tid) (hi_redo_stack h)")
    case (Some ix)
    then obtain l x ys where lxr: "hi_redo_stack h = l @ x # ys" "ix = length l" by (rule rposition_Some)
    with Some assms(2) depth have "h' = h\<lparr>hi_redo_stack := l, hi_undo_stack := hi_undo_stack h @ rev ys @ [x]\<rparr>"
      by (auto simp: hi_remove_from_redo_def Let_def)
    with lxr depth show ?thesis by (intro hi_inv_shrink [OF assms(1)]) (simp_all add: hi_ids_def)
  qed (use assms depth in \<open>simp add: hi_remove_from_redo_def\<close>)
qed

lemma hi_inv_remove:
  assumes "hi_inv h c" "hi_remove_from_undo h tid = Some (h', r)"
  shows "hi_inv h' c"
proof -
  have depth: "hi_depth h = 0" using assms(2) by (simp add: hi_remove_from_undo_def split: if_splits)
  show ?thesis
  proof (cases "rposition (\<lambda>e. he_id e = tid) (hi_undo_stack h)")
    case (Some ix)
    then obtain l x ys where lxr: "hi_undo_stack h = l @ x # ys" "ix = length l" by (rule rposition_Some)
    with Some assms(2) depth have "h' = h\<lparr>hi_undo_stack := l @ ys, hi_redo_stack := hi_redo_stack h @ [x]\<rparr>"
      by (simp add: hi_remove_from_undo_def)
    with lxr depth show ?thesis by (intro hi_inv_shrink [OF assms(1)]) (simp_all add: hi_ids_def)
  qed (use assms depth in \<open>simp add: hi_remove_from_undo_def\<close>)
qed

lemma mset_last:
  "xs \<noteq> [] \<Longrightarrow> add_mset (he_id (last xs)) (image_mset he_id (mset (butlast xs))) = image_mset he_id (mset xs)"
  by (cases xs rule: rev_cases) simp_all

lemma hi_inv_end:
  assumes "hi_inv h c" "hi_end_transaction h now = Some (h', r)"
  shows "hi_inv h' c"
proof (rule hi_inv_shrink [OF assms(1)])
  show "mset (hi_ids h') \<subseteq># mset (hi_ids h)"
    using assms(2)
    by (cases "hi_undo_stack h" rule: rev_cases) (auto simp: hi_end_transaction_def hi_ids_def Let_def split: if_splits)
  show "0 < hi_depth h' \<Longrightarrow> hi_undo_stack h' \<noteq> []"
    using assms by (auto simp: hi_end_transaction_def hi_inv_def Let_def split: if_splits)
qed

lemma hi_inv_start:
  assumes "hi_inv h c" "lam_value c < - 1" "hi_start_transaction h v now c = (h', c', r)"
  shows "hi_inv h' c'"
proof (cases "hi_depth h = 0")
  case True
  obtain i where tick: "lamport_tick c = (i, c')"
    and h': "h' = h\<lparr>hi_depth := 1, hi_undo_stack := hi_undo_stack h @ [entry_new \<lparr>tr_id = i, tr_edit_ids = [], tr_start = v\<rparr> now]\<rparr>"
    using assms(3) True by (auto simp: hi_start_transaction_def Let_def split: prod.splits)
  show ?thesis
    by (rule hi_inv_push_fresh [OF assms(1) hi_inv_tick [OF assms(1,2) tick],
          where e = "entry_new \<lparr>tr_id = i, tr_edit_ids = [], tr_start = v\<rparr> now"]) (simp_all add: h')
next
  case False
  then have "h' = h\<lparr>hi_depth := hi_depth h + 1\<rparr>" "c' = c" using assms(3) by (simp_all add: hi_start_transaction_def Let_def)
  with assms(1) False show ?thesis by (auto simp: hi_inv_def hi_ids_def)
qed

lemma hi_reach_inv: "hi_reach h c \<Longrightarrow> hi_inv h c"
proof (induction rule: hi_reach.induct)
  case (new interval base_text clock)
  show ?case by (simp add: hi_inv_def hi_new_def hi_ids_def)
next
  case (advance h c c')
  then show ?case by (auto simp: hi_inv_def)
next
  case (push h c op h')
  then show ?case by (auto simp: hi_inv_def hi_push_def)
next
  case (finalize h c h' r)
  then show ?case
    by (intro hi_inv_shrink [OF finalize(3)]) (auto simp: hi_finalize_last_def hi_ids_def hi_inv_def Let_def mset_last split: if_splits)
next
  case (push_transaction h c t now h')
  then show ?case
    by (intro hi_inv_push_fresh [OF push_transaction(5,2,3), where e = "entry_new t now"])
      (auto simp: hi_push_transaction_def split: if_splits)
next
  case (push_empty h c v now h' c' i)
  then have tick: "lamport_tick c = (i, c')"
    by (auto simp: hi_push_empty_transaction_def Let_def split: if_splits prod.splits)
  show ?case
    by (rule hi_inv_push_fresh [OF push_empty(4) hi_inv_tick [OF push_empty(4,2) tick],
          where e = "entry_new \<lparr>tr_id = i, tr_edit_ids = [], tr_start = v\<rparr> now"])
      (use push_empty(3) tick in \<open>auto simp: hi_push_empty_transaction_def split: if_splits\<close>)
next
  case (push_undo h c op_id h')
  then show ?case
    by (intro hi_inv_shrink [OF push_undo(3)])
      (auto simp: hi_push_undo_def hi_ids_def hi_inv_def mset_last split: if_splits option.splits operation.splits)
next
  case (pop_undo h c h' r)
  then show ?case
    by (intro hi_inv_shrink [OF pop_undo(3)]) (auto simp: hi_pop_undo_def hi_ids_def Let_def mset_last split: if_splits)
next
  case (pop_redo h c h' r)
  then show ?case
    by (intro hi_inv_shrink [OF pop_redo(3)]) (auto simp: hi_pop_redo_def hi_ids_def Let_def mset_last split: if_splits)
next
  case (merge h c tid tid' h')
  obtain h1 t where forget: "hi_forget h tid = Some (h1, t)"
    and h': "h' = (case t of None \<Rightarrow> h1 | Some t \<Rightarrow> hi_extend_transaction h1 tid' (tr_edit_ids t))"
    using merge(2) by (auto simp: hi_merge_transactions_def split: option.splits)
  show ?case
    using hi_inv_forget [OF merge(3) forget] by (auto simp: h' hi_inv_def split: option.split)
qed (blast intro: hi_inv_group hi_inv_group_until hi_inv_forget hi_inv_until hi_inv_redo_until hi_inv_remove
    hi_inv_end hi_inv_start)+

section \<open>The theorems\<close>


lemma sample_reach:
  "hi_reach ((hi_new 300 ''abc'')\<lparr>hi_depth := 1,
     hi_undo_stack := [entry_new \<lparr>tr_id = Lamport 1 0, tr_edit_ids = [], tr_start = []\<rparr> 7]\<rparr>) (Lamport 2 0)"
  by (rule hi_reach.start [OF hi_reach.new [where interval = 300 and base_text = "''abc''" and clock = "Lamport 1 0"],
        where v = "[]" and now = 7])
    (simp_all add: hi_start_transaction_def hi_new_def lamport_tick_def word_less_nat_alt unat_max_word)


text \<open>Grouping merges exactly the maximal trailing run of entries in which each follows the one before
  within the group interval and none but the last is closed to grouping.  The merged entry keeps the
  identifier and the start of the first, takes the end time of the last, and has the edits of all in order;
  nothing else changes.  Grouping up to a transaction merges the entries above it the same way.\<close>

theorem history_group_merges:
  assumes "hi_undo_stack h \<noteq> []"
  shows "(\<exists>keep run. hi_undo_stack h = keep @ run \<and> run \<noteq> [] \<and>
      successively (groups_with (hi_group_interval h)) run \<and>
      (keep = [] \<or> \<not> groups_with (hi_group_interval h) (last keep) (hd run)) \<and>
      hi_group h = Some (h\<lparr>hi_undo_stack := keep @ [merged run]\<rparr>, Some (he_id (hd run)))) \<and>
    (\<forall>keep e run. hi_undo_stack h = keep @ e # run \<and> he_id e = tid \<and>
      (\<forall>x \<in> set run. he_id x \<noteq> tid \<and> \<not> he_suppress_grouping x) \<longrightarrow>
      hi_group_until h tid = Some (h\<lparr>hi_undo_stack := keep @ [merged (e # run)]\<rparr>))"
  using hi_group [OF assms] hi_group_until by blast

theorem history_group_merges_witness:
  "\<exists>keep run. hi_undo_stack ((hi_new 300 ''abc'')\<lparr>hi_undo_stack := [entry_new \<lparr>tr_id = Lamport 1 0, tr_edit_ids = [], tr_start = []\<rparr> 7]\<rparr>) =
     keep @ run \<and> run \<noteq> []"
  using history_group_merges [of "(hi_new 300 ''abc'')\<lparr>hi_undo_stack := [entry_new \<lparr>tr_id = Lamport 1 0, tr_edit_ids = [], tr_start = []\<rparr> 7]\<rparr>"]
  by auto

text \<open>C38: Undoing and redoing are inverse on the stacks of a history with distinct identifiers and no open
  transaction: \<open>pop_redo\<close> after \<open>pop_undo\<close> restores it, and so does \<open>remove_from_redo\<close> of the
  most recent transaction after \<open>remove_from_undo_until\<close>, which hands back the undone entries from the
  most recent one down to the one asked for.\<close>

theorem history_undo_redo_inverse:
  assumes "hi_depth h = 0" "distinct (hi_ids h)"
  shows "(hi_undo_stack h \<noteq> [] \<longrightarrow> (\<exists>h1. hi_pop_undo h = Some (h1, Some (last (hi_undo_stack h))) \<and>
      hi_pop_redo h1 = Some (h, Some (last (hi_undo_stack h))))) \<and>
    (\<forall>l e r. hi_undo_stack h = l @ e # r \<longrightarrow>
      (\<exists>h1. hi_remove_from_undo_until h (he_id e) = Some (h1, rev (e # r)) \<and> hi_undo_stack h1 = l \<and>
        hi_remove_from_redo h1 (he_id (last (e # r))) = Some (h, e # r)))"
proof (intro conjI allI impI)
  assume "hi_undo_stack h \<noteq> []"
  then show "\<exists>h1. hi_pop_undo h = Some (h1, Some (last (hi_undo_stack h))) \<and>
      hi_pop_redo h1 = Some (h, Some (last (hi_undo_stack h)))"
    using assms(1) by (simp add: hi_pop_undo_def hi_pop_redo_def Let_def)
next
  fix l e r
  assume stack: "hi_undo_stack h = l @ e # r"
  have split: "rposition (\<lambda>x. he_id x = he_id y) (ys @ y # zs) = Some (length ys)" if "he_id y \<notin> he_id ` set zs" for y ys zs
  proof -
    have "takeWhile (\<lambda>x. he_id x \<noteq> he_id y) (rev zs @ y # rev ys) = rev zs @ takeWhile (\<lambda>x. he_id x \<noteq> he_id y) (y # rev ys)"
    proof (rule takeWhile_append2)
      fix x
      assume "x \<in> set (rev zs)"
      then have "he_id x \<in> he_id ` set zs" by simp
      with that show "he_id x \<noteq> he_id y" by metis
    qed
    then show ?thesis by (simp add: rposition_def Let_def)
  qed
  have "he_id e \<notin> he_id ` set r" using assms(2) by (auto simp: hi_ids_def stack)
  from split [OF this, of l]
  have until: "hi_remove_from_undo_until h (he_id e) =
      Some (h\<lparr>hi_undo_stack := l, hi_redo_stack := hi_redo_stack h @ rev (e # r)\<rparr>, rev (e # r))"
    using assms(1) by (simp add: hi_remove_from_undo_until_def stack Let_def)
  obtain t ts where top: "rev (e # r) = t # ts" by (cases "rev (e # r)") auto
  have "distinct (map he_id (t # ts))"
    unfolding top [symmetric] rev_map [symmetric] distinct_rev using assms(2) by (simp add: hi_ids_def stack)
  then have "he_id t \<notin> he_id ` set ts" by simp
  from split [OF this, of "hi_redo_stack h"]
  have "hi_remove_from_redo (h\<lparr>hi_undo_stack := l, hi_redo_stack := hi_redo_stack h @ rev (e # r)\<rparr>) (he_id t) =
      Some (h\<lparr>hi_undo_stack := l @ rev (t # ts), hi_redo_stack := hi_redo_stack h\<rparr>, rev (t # ts))"
    using assms(1) unfolding top by (simp add: hi_remove_from_redo_def Let_def)
  moreover have "rev (t # ts) = e # r" using top by (metis rev_rev_ident)
  moreover have "t = last (e # r)" using top by (metis hd_rev list.sel(1))
  moreover have "h\<lparr>hi_undo_stack := l @ e # r, hi_redo_stack := hi_redo_stack h\<rparr> = h" unfolding stack [symmetric] by simp
  ultimately show "\<exists>h1. hi_remove_from_undo_until h (he_id e) = Some (h1, rev (e # r)) \<and> hi_undo_stack h1 = l \<and>
        hi_remove_from_redo h1 (he_id (last (e # r))) = Some (h, e # r)"
    using until by auto
qed

theorem history_undo_redo_inverse_witness:
  "\<exists>h1. hi_pop_undo ((hi_new 300 ''abc'')\<lparr>hi_undo_stack := [entry_new \<lparr>tr_id = Lamport 1 0, tr_edit_ids = [], tr_start = []\<rparr> 7]\<rparr>) =
     Some (h1, Some (entry_new \<lparr>tr_id = Lamport 1 0, tr_edit_ids = [], tr_start = []\<rparr> 7))"
  using history_undo_redo_inverse
    [of "(hi_new 300 ''abc'')\<lparr>hi_undo_stack := [entry_new \<lparr>tr_id = Lamport 1 0, tr_edit_ids = [], tr_start = []\<rparr> 7]\<rparr>"]
  by (auto simp: hi_new_def hi_ids_def)

end
