(* ===== verification/Zed_Subscription.thy ===== *)
theory Zed_Subscription
  imports Zed_Patch
begin

text \<open>
  Topics and subscriptions of \<open>crates/text/src/subscription.rs\<close>.  The reference-counted patches
  live in an explicit store: an address that is bound is a subscription somebody still holds (its weak
  pointers can be upgraded), an unbound one has been dropped.  A topic is the list of its weak pointers.
\<close>

type_synonym patch_store = "nat \<Rightarrow> patch option"

definition topic_subscribe :: "nat list \<Rightarrow> patch_store \<Rightarrow> nat \<Rightarrow> nat list \<times> patch_store" where
  "topic_subscribe topic store fresh = (topic @ [fresh], store(fresh \<mapsto> []))"

text \<open>The closure of \<open>retain\<close> in \<open>publish\<close>, run over the pointers in order.\<close>

fun topic_publish :: "nat list \<Rightarrow> patch_store \<Rightarrow> text_edit list \<Rightarrow> (nat list \<times> patch_store) option" where
  "topic_publish [] store edits = Some ([], store)"
| "topic_publish (s # topic) store edits =
     (case store s of
        Some patch \<Rightarrow>
          (case patch_compose patch edits of
             None \<Rightarrow> None
           | Some patch \<Rightarrow>
               map_option (\<lambda>(topic, store). (s # topic, store)) (topic_publish topic (store(s \<mapsto> patch)) edits))
      | None \<Rightarrow> topic_publish topic store edits)"

definition subscription_consume :: "patch_store \<Rightarrow> nat \<Rightarrow> patch_store \<times> patch" where
  "subscription_consume store s = (case store s of Some patch \<Rightarrow> (store(s \<mapsto> []), patch) | None \<Rightarrow> (store, []))"

text \<open>Every live subscription holds a patch from the text its owner last saw to the current text.\<close>

definition subscribers_ok :: "nat list \<Rightarrow> patch_store \<Rightarrow> (nat \<Rightarrow> 'c list) \<Rightarrow> 'c list \<Rightarrow> bool" where
  "subscribers_ok topic store seen text \<longleftrightarrow>
     distinct topic \<and> (\<forall>s \<in> set topic. \<forall>patch. store s = Some patch \<longrightarrow> patch_rel 0 0 patch (seen s) text)"

lemma topic_publish:
  assumes "patch_rel 0 0 edits text text'" "distinct topic"
    and "\<forall>s \<in> set topic. \<forall>patch. store s = Some patch \<longrightarrow> patch_rel 0 0 patch (seen s) text"
  shows "\<exists>store'. topic_publish topic store edits = Some (filter (\<lambda>s. store s \<noteq> None) topic, store') \<and>
    dom store' = dom store \<and> (\<forall>s. s \<notin> set topic \<longrightarrow> store' s = store s) \<and>
    (\<forall>s \<in> set topic. \<forall>patch. store' s = Some patch \<longrightarrow> patch_rel 0 0 patch (seen s) text' \<and> patch_new_ok patch)"
  using assms(2,3)
proof (induction topic arbitrary: store)
  case (Cons s topic)
  show ?case
  proof (cases "store s")
    case None
    then obtain store' where "topic_publish topic store edits = Some (filter (\<lambda>s. store s \<noteq> None) topic, store')"
      "dom store' = dom store" "\<forall>s. s \<notin> set topic \<longrightarrow> store' s = store s"
      "\<forall>s \<in> set topic. \<forall>patch. store' s = Some patch \<longrightarrow> patch_rel 0 0 patch (seen s) text' \<and> patch_new_ok patch"
      using Cons.IH [of store] Cons.prems by auto
    with None Cons.prems(1) show ?thesis by (intro exI [of _ store']) auto
  next
    case (Some patch)
    then have "patch_rel 0 0 patch (seen s) text" using Cons.prems(2) by simp
    from patch_compose [OF this assms(1)] obtain r where
      r: "patch_compose patch edits = Some r" "patch_rel 0 0 r (seen s) text'" "patch_new_ok r" by blast
    have fresh: "s \<notin> set topic" "distinct topic" using Cons.prems(1) by simp_all
    have "\<forall>u \<in> set topic. \<forall>patch. (store(s \<mapsto> r)) u = Some patch \<longrightarrow> patch_rel 0 0 patch (seen u) text"
      using Cons.prems(2) fresh(1) by auto
    from Cons.IH [OF fresh(2) this] obtain store' where
      IH: "topic_publish topic (store(s \<mapsto> r)) edits = Some (filter (\<lambda>u. (store(s \<mapsto> r)) u \<noteq> None) topic, store')"
        "dom store' = dom (store(s \<mapsto> r))" "\<forall>u. u \<notin> set topic \<longrightarrow> store' u = (store(s \<mapsto> r)) u"
        "\<forall>u \<in> set topic. \<forall>patch. store' u = Some patch \<longrightarrow> patch_rel 0 0 patch (seen u) text' \<and> patch_new_ok patch"
      by blast
    have "filter (\<lambda>u. (store(s \<mapsto> r)) u \<noteq> None) topic = filter (\<lambda>u. store u \<noteq> None) topic"
      by (rule filter_cong) (use fresh(1) in auto)
    moreover have "store' s = Some r" using IH(3) fresh(1) by simp
    ultimately show ?thesis
      using Some r IH fresh by (intro exI [of _ store']) auto
  qed
qed simp

text \<open>C37: Publishing the edits of a text change keeps the topic's contract: each live subscription goes on
  holding a patch from the text its owner last consumed to the current text, exactly the dropped ones
  leave the topic, and no composition panics; consuming returns that patch and starts over from the
  current text; a new subscription starts from the current text.\<close>

theorem subscription_tracks_text:
  assumes "subscribers_ok topic store seen text" "patch_rel 0 0 edits text text'"
  shows "(\<exists>store'. topic_publish topic store edits = Some (filter (\<lambda>s. store s \<noteq> None) topic, store') \<and>
      dom store' = dom store \<and> subscribers_ok (filter (\<lambda>s. store s \<noteq> None) topic) store' seen text') \<and>
    (\<forall>s patch. s \<in> set topic \<and> store s = Some patch \<longrightarrow>
      (\<exists>store'. subscription_consume store s = (store', patch) \<and> patch_rel 0 0 patch (seen s) text \<and>
        subscribers_ok topic store' (seen(s := text)) text)) \<and>
    (\<forall>s. s \<notin> set topic \<longrightarrow>
      (case topic_subscribe topic store s of (topic', store') \<Rightarrow> subscribers_ok topic' store' (seen(s := text)) text))"
proof (intro conjI allI impI)
  have ok: "distinct topic" "\<forall>s \<in> set topic. \<forall>patch. store s = Some patch \<longrightarrow> patch_rel 0 0 patch (seen s) text"
    using assms(1) by (simp_all add: subscribers_ok_def)
  show "\<exists>store'. topic_publish topic store edits = Some (filter (\<lambda>s. store s \<noteq> None) topic, store') \<and>
      dom store' = dom store \<and> subscribers_ok (filter (\<lambda>s. store s \<noteq> None) topic) store' seen text'"
    using topic_publish [OF assms(2) ok] ok(1) by (fastforce simp: subscribers_ok_def)
  show "\<exists>store'. subscription_consume store s = (store', patch) \<and> patch_rel 0 0 patch (seen s) text \<and>
        subscribers_ok topic store' (seen(s := text)) text"
    if "s \<in> set topic \<and> store s = Some patch" for s patch
    using ok that by (simp add: subscription_consume_def subscribers_ok_def)
  show "case topic_subscribe topic store s of (topic', store') \<Rightarrow> subscribers_ok topic' store' (seen(s := text)) text"
    if "s \<notin> set topic" for s
    using ok that by (auto simp: topic_subscribe_def subscribers_ok_def)
qed

theorem subscription_tracks_text_witness:
  "\<exists>store'. topic_publish [1, 2] [1 \<mapsto> [mk_edit 1 1 1 2]] [mk_edit 0 1 0 0] = Some ([1], store') \<and>
     subscribers_ok [1] store' (\<lambda>_. ''ab'') ''xb''"
proof -
  have "subscribers_ok [1, 2] [1 \<mapsto> [mk_edit 1 1 1 2]] (\<lambda>_. ''ab'') ''axb''"
    by (simp add: subscribers_ok_def edit_fits_def)
  moreover have "patch_rel 0 0 [mk_edit 0 1 0 0] ''axb'' ''xb''" by (simp add: edit_fits_def)
  ultimately have "\<exists>store'. topic_publish [1, 2] [1 \<mapsto> [mk_edit 1 1 1 2]] [mk_edit 0 1 0 0] =
      Some (filter (\<lambda>s. [1 \<mapsto> [mk_edit 1 1 1 2]] s \<noteq> None) [1, 2], store') \<and>
      dom store' = dom [1 \<mapsto> [mk_edit 1 1 1 2]] \<and>
      subscribers_ok (filter (\<lambda>s. [1 \<mapsto> [mk_edit 1 1 1 2]] s \<noteq> None) [1, 2]) store' (\<lambda>_. ''ab'') ''xb''"
    by (rule subscription_tracks_text [THEN conjunct1])
  then show ?thesis by (elim exE conjE, intro exI conjI) (simp_all del: topic_publish.simps)
qed

end
