(* ===== verification/Zed_Selection.thy ===== *)
theory Zed_Selection
  imports Zed_Prelude
begin

text \<open>
  Selections of \<open>crates/text/src/selection.rs\<close>, over any ordered position type.  The goal of a
  selection is carried along unread; its type is a parameter.
\<close>

record ('a, 'g) selection =
  sel_id :: nat
  sel_start :: 'a
  sel_end :: 'a
  sel_reversed :: bool
  sel_goal :: 'g

definition sel_head :: "('a, 'g) selection \<Rightarrow> 'a" where
  "sel_head s = (if sel_reversed s then sel_start s else sel_end s)"

definition sel_tail :: "('a, 'g) selection \<Rightarrow> 'a" where
  "sel_tail s = (if sel_reversed s then sel_end s else sel_start s)"

definition sel_map :: "('a \<Rightarrow> 'b) \<Rightarrow> ('a, 'g) selection \<Rightarrow> ('b, 'g) selection" where
  "sel_map f s =
     \<lparr>sel_id = sel_id s, sel_start = f (sel_start s), sel_end = f (sel_end s),
      sel_reversed = sel_reversed s, sel_goal = sel_goal s\<rparr>"

definition collapse_to :: "('a, 'g) selection \<Rightarrow> 'a \<Rightarrow> 'g \<Rightarrow> ('a, 'g) selection" where
  "collapse_to s point new_goal =
     s\<lparr>sel_start := point, sel_end := point, sel_goal := new_goal, sel_reversed := False\<rparr>"

definition sel_is_empty :: "('a, 'g) selection \<Rightarrow> bool" where
  "sel_is_empty s \<longleftrightarrow> sel_start s = sel_end s"

definition set_head :: "('a::linorder, 'g) selection \<Rightarrow> 'a \<Rightarrow> 'g \<Rightarrow> ('a, 'g) selection" where
  "set_head s head new_goal =
     (let s =
        (if cmp head (sel_tail s) = Less then
           (if \<not> sel_reversed s then s\<lparr>sel_end := sel_start s, sel_reversed := True\<rparr> else s)\<lparr>sel_start := head\<rparr>
         else
           (if sel_reversed s then s\<lparr>sel_start := sel_end s, sel_reversed := False\<rparr> else s)\<lparr>sel_end := head\<rparr>)
      in s\<lparr>sel_goal := new_goal\<rparr>)"

definition set_tail :: "('a::linorder, 'g) selection \<Rightarrow> 'a \<Rightarrow> 'g \<Rightarrow> ('a, 'g) selection" where
  "set_tail s tail new_goal =
     (let s =
        (if cmp tail (sel_head s) \<noteq> Greater then
           (if sel_reversed s then s\<lparr>sel_end := sel_start s, sel_reversed := False\<rparr> else s)\<lparr>sel_start := tail\<rparr>
         else
           (if \<not> sel_reversed s then s\<lparr>sel_start := sel_end s, sel_reversed := True\<rparr> else s)\<lparr>sel_end := tail\<rparr>)
      in s\<lparr>sel_goal := new_goal\<rparr>)"

definition set_head_tail :: "('a::linorder, 'g) selection \<Rightarrow> 'a \<Rightarrow> 'a \<Rightarrow> 'g \<Rightarrow> ('a, 'g) selection" where
  "set_head_tail s head tail new_goal =
     (if head < tail then s\<lparr>sel_reversed := True, sel_start := head, sel_end := tail\<rparr>
      else s\<lparr>sel_reversed := False, sel_start := tail, sel_end := head\<rparr>)\<lparr>sel_goal := new_goal\<rparr>"

definition swap_head_tail :: "('a, 'g) selection \<Rightarrow> ('a, 'g) selection" where
  "swap_head_tail s =
     (if sel_reversed s then s\<lparr>sel_reversed := False\<rparr>
      else s\<lparr>sel_start := sel_end s, sel_end := sel_start s\<rparr>)"

definition sel_range :: "('a, 'g) selection \<Rightarrow> 'a \<times> 'a" where
  "sel_range s = (sel_start s, sel_end s)"

definition sel_equals :: "('a, 'g) selection \<Rightarrow> 'a \<times> 'a \<Rightarrow> bool" where
  "sel_equals s offset_range \<longleftrightarrow> sel_start s = fst offset_range \<and> sel_end s = snd offset_range"

text \<open>The start does not come after the end.\<close>

definition sel_ok :: "('a::linorder, 'g) selection \<Rightarrow> bool" where
  "sel_ok s \<longleftrightarrow> sel_start s \<le> sel_end s"

lemmas sel_defs = sel_head_def sel_tail_def collapse_to_def set_head_def set_tail_def set_head_tail_def
  sel_ok_def sel_map_def cmp_def Let_def

text \<open>Moving the head or the tail of an ordered selection puts that end at the given position, leaves the
  other end where it was and keeps the selection ordered, flipping its direction when the ends cross; setting
  both, collapsing and mapping by a monotone function do what they say; every operation keeps the id.\<close>

theorem selection_operations:
  assumes "sel_ok s"
  shows "sel_head (set_head s p g) = p \<and> sel_tail (set_head s p g) = sel_tail s \<and> sel_ok (set_head s p g) \<and>
    sel_head (set_tail s p g) = sel_head s \<and> sel_tail (set_tail s p g) = p \<and> sel_ok (set_tail s p g) \<and>
    sel_head (set_head_tail s p q g) = p \<and> sel_tail (set_head_tail s p q g) = q \<and> sel_ok (set_head_tail s p q g) \<and>
    sel_is_empty (collapse_to s p g) \<and> sel_head (collapse_to s p g) = p \<and> sel_ok (collapse_to s p g) \<and>
    (mono f \<longrightarrow> sel_ok (sel_map f s) \<and> sel_head (sel_map f s) = f (sel_head s) \<and> sel_tail (sel_map f s) = f (sel_tail s)) \<and>
    sel_id (set_head s p g) = sel_id s \<and> sel_id (set_tail s p g) = sel_id s \<and> sel_id (set_head_tail s p q g) = sel_id s"
proof (cases "sel_reversed s")
  case True
  with assms show ?thesis by (intro conjI impI) (auto simp: sel_defs sel_is_empty_def monoD)
next
  case False
  with assms show ?thesis by (intro conjI impI) (auto simp: sel_defs sel_is_empty_def monoD)
qed

theorem selection_operations_witness:
  "sel_tail (set_head \<lparr>sel_id = 1, sel_start = 3::nat, sel_end = 7, sel_reversed = False, sel_goal = ()\<rparr> 1 ()) = 3"
proof -
  let ?s = "\<lparr>sel_id = 1, sel_start = 3::nat, sel_end = 7, sel_reversed = False, sel_goal = ()\<rparr>"
  have "sel_ok ?s" by (simp add: sel_ok_def)
  from selection_operations [OF this, of 1 "()", THEN conjunct2, THEN conjunct1]
  have "sel_tail (set_head ?s 1 ()) = sel_tail ?s" .
  also have "sel_tail ?s = 3" by (simp add: sel_tail_def)
  finally show ?thesis .
qed

text \<open>C40: \<open>swap_head_tail\<close> exchanges head and tail of every selection, but it keeps a selection ordered only
  when it was reversed or empty: an ordered selection that is not reversed comes out with its start after its
  end, because the code swaps the fields instead of setting \<open>reversed\<close>.\<close>

theorem selection_swap:
  "sel_head (swap_head_tail s) = sel_tail s \<and> sel_tail (swap_head_tail s) = sel_head s \<and>
   (sel_ok s \<longrightarrow> (sel_ok (swap_head_tail s) \<longleftrightarrow> sel_reversed s \<or> sel_is_empty s))"
  by (auto simp: swap_head_tail_def sel_defs sel_is_empty_def)

theorem selection_swap_witness:
  "\<not> sel_ok (swap_head_tail \<lparr>sel_id = 1, sel_start = 3::nat, sel_end = 7, sel_reversed = False, sel_goal = ()\<rparr>)"
  using selection_swap [of "\<lparr>sel_id = 1, sel_start = 3::nat, sel_end = 7, sel_reversed = False, sel_goal = ()\<rparr>"]
  by (simp add: sel_ok_def sel_is_empty_def)

end
