(* ===== verification/Zed_Fragment.thy ===== *)
theory Zed_Fragment
  imports Zed_Patch Zed_Locator Zed_Clock "HOL-Library.Product_Lexorder"
begin

text \<open>
  Fragments of a buffer (\<open>Fragment\<close>, \<open>InsertionFragment\<close>, \<open>InsertionSlice\<close>, \<open>RopeBuilder\<close>,
  \<open>FragmentBuilder\<close> and the cursor movements over fragments, in \<open>crates/text/src/text.rs\<close>).  A sum
  tree is represented by the list of its items, which the sum tree theories justify: slicing a cursor is
  splitting the list, and \<open>FragmentBuilder::to_sum_tree\<close> appends.  A rope is the list of its bytes.
  Lengths and offsets of insertions are \<open>u32\<close>; the casts are written out.
\<close>

section \<open>Fragments\<close>

record fragment =
  fr_id :: locator
  fr_timestamp :: lamport
  fr_insertion_offset :: nat
  fr_len :: nat
  fr_visible :: bool
  fr_deletions :: "lamport list"
  fr_max_undos :: version

record insertion_fragment =
  if_timestamp :: lamport
  if_split_offset :: nat
  if_fragment_id :: locator

record insertion_slice =
  is_edit_id :: lamport
  is_insertion_id :: lamport
  is_start :: nat
  is_end :: nat

definition insertion_fragment_new :: "fragment \<Rightarrow> insertion_fragment" where
  "insertion_fragment_new f =
     \<lparr>if_timestamp = fr_timestamp f, if_split_offset = fr_insertion_offset f, if_fragment_id = fr_id f\<rparr>"

definition slice_from_fragment :: "lamport \<Rightarrow> fragment \<Rightarrow> insertion_slice" where
  "slice_from_fragment edit_id f =
     \<lparr>is_edit_id = edit_id, is_insertion_id = fr_timestamp f, is_start = fr_insertion_offset f,
      is_end = as_u32 (fr_insertion_offset f + fr_len f)\<rparr>"

text \<open>The index of insertions is a tree keyed by insertion and offset, the slices are a tree set in the
  derived order; both are represented by their items in order.  \<open>SumTree::edit\<close> and \<open>TreeSet::extend\<close> insert or replace
  by key.\<close>

definition if_key :: "insertion_fragment \<Rightarrow> lamport \<times> nat" where
  "if_key i = (if_timestamp i, if_split_offset i)"

definition slice_key :: "insertion_slice \<Rightarrow> lamport \<times> lamport \<times> nat \<times> nat" where
  "slice_key s = (is_edit_id s, is_insertion_id s, is_start s, is_end s)"

fun put_item :: "('a \<Rightarrow> 'k::linorder) \<Rightarrow> 'a \<Rightarrow> 'a list \<Rightarrow> 'a list" where
  "put_item key x [] = [x]"
| "put_item key x (y # ys) =
     (if key x < key y then x # y # ys else if key x = key y then x # ys else y # put_item key x ys)"

definition insert_insertions :: "insertion_fragment list \<Rightarrow> insertion_fragment list \<Rightarrow> insertion_fragment list" where
  "insert_insertions xs ys = foldl (\<lambda>xs y. put_item if_key y xs) xs ys"

definition extend_slices :: "insertion_slice list \<Rightarrow> insertion_slice list \<Rightarrow> insertion_slice list" where
  "extend_slices xs ys = foldl (\<lambda>xs y. put_item slice_key y xs) xs ys"

text \<open>The text summary of fragments: visible and deleted length; and the greatest id.\<close>

definition visible_len :: "fragment list \<Rightarrow> nat" where
  "visible_len fs = sum_list (map (\<lambda>f. if fr_visible f then fr_len f else 0) fs)"

definition deleted_len :: "fragment list \<Rightarrow> nat" where
  "deleted_len fs = sum_list (map (\<lambda>f. if fr_visible f then 0 else fr_len f) fs)"

definition max_id :: "fragment list \<Rightarrow> locator" where
  "max_id fs = foldl (\<lambda>m f. locator_assign m (fr_id f)) locator_min fs"

lemma max_id_simps [simp]: "max_id [] = locator_min" "max_id (fs @ [f]) = fr_id f"
  by (simp_all add: max_id_def)

lemma len_simps [simp]:
  "visible_len [] = 0" "visible_len (f # fs) = (if fr_visible f then fr_len f else 0) + visible_len fs"
  "visible_len (fs @ gs) = visible_len fs + visible_len gs"
  "deleted_len [] = 0" "deleted_len (f # fs) = (if fr_visible f then 0 else fr_len f) + deleted_len fs"
  "deleted_len (fs @ gs) = deleted_len fs + deleted_len gs"
  by (simp_all add: visible_len_def deleted_len_def)

section \<open>The rope builder\<close>

text \<open>The two old ropes with the offsets of their cursors, and the two new ropes.\<close>

record rope_builder =
  rb_old_visible :: string
  rb_old_deleted :: string
  rb_visible_offset :: nat
  rb_deleted_offset :: nat
  rb_new_visible :: string
  rb_new_deleted :: string

definition rb_new :: "string \<Rightarrow> string \<Rightarrow> rope_builder" where
  "rb_new visible deleted =
     \<lparr>rb_old_visible = visible, rb_old_deleted = deleted, rb_visible_offset = 0, rb_deleted_offset = 0,
      rb_new_visible = [], rb_new_deleted = []\<rparr>"

definition rb_push :: "rope_builder \<Rightarrow> nat \<Rightarrow> bool \<Rightarrow> bool \<Rightarrow> rope_builder" where
  "rb_push rb len was_visible is_visible =
     (let (text, rb) =
        (if was_visible then
           (take len (drop (rb_visible_offset rb) (rb_old_visible rb)), rb\<lparr>rb_visible_offset := rb_visible_offset rb + len\<rparr>)
         else
           (take len (drop (rb_deleted_offset rb) (rb_old_deleted rb)), rb\<lparr>rb_deleted_offset := rb_deleted_offset rb + len\<rparr>))
      in if is_visible then rb\<lparr>rb_new_visible := rb_new_visible rb @ text\<rparr>
         else rb\<lparr>rb_new_deleted := rb_new_deleted rb @ text\<rparr>)"

definition rb_append :: "rope_builder \<Rightarrow> fragment list \<Rightarrow> rope_builder" where
  "rb_append rb fs = rb_push (rb_push rb (visible_len fs) True True) (deleted_len fs) False False"

definition rb_push_fragment :: "rope_builder \<Rightarrow> fragment \<Rightarrow> bool \<Rightarrow> rope_builder" where
  "rb_push_fragment rb f was_visible = rb_push rb (fr_len f) was_visible (fr_visible f)"

definition rb_push_str :: "rope_builder \<Rightarrow> string \<Rightarrow> rope_builder" where
  "rb_push_str rb text = rb\<lparr>rb_new_visible := rb_new_visible rb @ text\<rparr>"

definition rb_finish :: "rope_builder \<Rightarrow> string \<times> string" where
  "rb_finish rb =
     (rb_new_visible rb @ drop (rb_visible_offset rb) (rb_old_visible rb),
      rb_new_deleted rb @ drop (rb_deleted_offset rb) (rb_old_deleted rb))"

section \<open>The cursor over the old fragments\<close>

record fragment_cursor =
  fc_before :: "fragment list"
  fc_rest :: "fragment list"

definition fc_item :: "fragment_cursor \<Rightarrow> fragment option" where
  "fc_item c = (case fc_rest c of [] \<Rightarrow> None | f # _ \<Rightarrow> Some f)"

definition fc_next :: "fragment_cursor \<Rightarrow> fragment_cursor" where
  "fc_next c = (case fc_rest c of [] \<Rightarrow> c | f # fs \<Rightarrow> \<lparr>fc_before = fc_before c @ [f], fc_rest = fs\<rparr>)"

definition fc_start_visible :: "fragment_cursor \<Rightarrow> nat" where
  "fc_start_visible c = visible_len (fc_before c)"

definition fc_start_deleted :: "fragment_cursor \<Rightarrow> nat" where
  "fc_start_deleted c = deleted_len (fc_before c)"

definition fc_end_visible :: "fragment_cursor \<Rightarrow> nat" where
  "fc_end_visible c = fc_start_visible c + visible_len (case fc_rest c of [] \<Rightarrow> [] | f # _ \<Rightarrow> [f])"

text \<open>\<open>slice\<close> to a visible offset with bias right: the fragments that end at or before it.\<close>

fun split_visible :: "nat \<Rightarrow> nat \<Rightarrow> fragment list \<Rightarrow> fragment list \<times> fragment list" where
  "split_visible target pos [] = ([], [])"
| "split_visible target pos (f # fs) =
     (let pos' = pos + visible_len [f] in
      if pos' \<le> target then (let (taken, left) = split_visible target pos' fs in (f # taken, left))
      else ([], f # fs))"

definition fc_slice_visible :: "fragment_cursor \<Rightarrow> nat \<Rightarrow> fragment_cursor \<times> fragment list" where
  "fc_slice_visible c target =
     (let (taken, left) = split_visible target (fc_start_visible c) (fc_rest c)
      in (\<lparr>fc_before = fc_before c @ taken, fc_rest = left\<rparr>, taken))"

section \<open>Text of an insertion\<close>

text \<open>\<open>LINE_SEPARATORS_REGEX.replace_all\<close>: carriage returns, alone or before a line feed, become line feeds.\<close>

fun normalize_text :: "string \<Rightarrow> string" where
  "normalize_text [] = []"
| "normalize_text (c # cs) =
     (if c = CHR 0x0D then
        (case cs of
           [] \<Rightarrow> [CHR 0x0A]
         | d # ds \<Rightarrow> if d = CHR 0x0A then CHR 0x0A # normalize_text ds else CHR 0x0A # normalize_text cs)
      else c # normalize_text cs)"

text \<open>\<open>str::floor_char_boundary\<close> on the bytes of a string.\<close>

definition is_char_boundary :: "string \<Rightarrow> nat \<Rightarrow> bool" where
  "is_char_boundary s i \<longleftrightarrow>
     i = 0 \<or> i = length s \<or> i < length s \<and> \<not> (128 \<le> (of_char (s ! i) :: nat) \<and> (of_char (s ! i) :: nat) < 192)"

fun floor_boundary_from :: "string \<Rightarrow> nat \<Rightarrow> nat" where
  "floor_boundary_from s 0 = 0"
| "floor_boundary_from s (Suc i) = (if is_char_boundary s (Suc i) then Suc i else floor_boundary_from s i)"

definition floor_char_boundary :: "string \<Rightarrow> nat \<Rightarrow> nat" where
  "floor_char_boundary s i = (if length s \<le> i then length s else floor_boundary_from s i)"

definition MAX_INSERTION_LEN :: nat where "MAX_INSERTION_LEN = 2 ^ 32 - 1"

text \<open>What an insertion adds to, in \<open>push_fragments_for_insertion\<close>.  The loop breaks when no chunk fits
  (\<open>chunk_end == text_offset\<close>; it is never smaller, as \<open>text_offset\<close> is a boundary itself).\<close>

record insertion_state =
  ins_offset :: nat
  ins_new_fragments :: "fragment list"
  ins_new_insertions :: "insertion_fragment list"
  ins_slices :: "insertion_slice list"

function push_fragments_loop ::
    "string \<Rightarrow> lamport \<Rightarrow> locator \<Rightarrow> lamport \<Rightarrow> nat \<Rightarrow> insertion_state \<Rightarrow> insertion_state" where
  "push_fragments_loop new_text timestamp next_fragment_id edit_timestamp text_offset st =
     (if text_offset < length new_text then
        let target_end = min (length new_text) (text_offset + MAX_INSERTION_LEN);
            chunk_end = (if target_end = length new_text then target_end else floor_char_boundary new_text target_end)
        in
        if chunk_end \<le> text_offset then st
        else
          let chunk_len = chunk_end - text_offset;
              f = \<lparr>fr_id = locator_between (max_id (ins_new_fragments st)) next_fragment_id,
                   fr_timestamp = timestamp, fr_insertion_offset = ins_offset st, fr_len = as_u32 chunk_len,
                   fr_visible = True, fr_deletions = [], fr_max_undos = version_new\<rparr>
          in push_fragments_loop new_text timestamp next_fragment_id edit_timestamp chunk_end
               \<lparr>ins_offset = as_u32 (ins_offset st + as_u32 chunk_len),
                ins_new_fragments = ins_new_fragments st @ [f],
                ins_new_insertions = ins_new_insertions st @ [insertion_fragment_new f],
                ins_slices = ins_slices st @ [slice_from_fragment edit_timestamp f]\<rparr>
      else st)"
  by auto
termination
  by (relation "measure (\<lambda>(new_text, timestamp, next_fragment_id, edit_timestamp, text_offset, st). length new_text - text_offset)") auto

declare push_fragments_loop.simps [simp del]

end
