(* ===== verification/Zed_Fragment_Text.thy ===== *)
theory Zed_Fragment_Text
  imports Zed_Buffer_Edit
begin

text \<open>
  What fragments stand for.  A cell is a byte of an insertion: its timestamp and its offset.  A fragment
  is the list of its cells; the fragments of a snapshot hold every cell once, and the visible and the
  deleted text are the bytes of the visible and of the deleted cells.  The lemmas say how the rope
  builder and the index of insertions follow when fragments are copied, cut and pushed.
\<close>

type_synonym cell = "lamport \<times> nat"

definition fr_cells :: "fragment \<Rightarrow> cell list" where
  "fr_cells f = map (Pair (fr_timestamp f)) [fr_insertion_offset f ..< fr_insertion_offset f + fr_len f]"

definition cells :: "fragment list \<Rightarrow> cell list" where
  "cells fs = concat (map fr_cells fs)"

definition vcells :: "fragment list \<Rightarrow> cell list" where
  "vcells fs = cells (filter fr_visible fs)"

definition dcells :: "fragment list \<Rightarrow> cell list" where
  "dcells fs = cells (filter (\<lambda>f. \<not> fr_visible f) fs)"

definition cell_text :: "(lamport \<Rightarrow> string) \<Rightarrow> cell list \<Rightarrow> string" where
  "cell_text ins cs = map (\<lambda>(t, i). ins t ! i) cs"

abbreviation fr_key :: "fragment \<Rightarrow> cell" where
  "fr_key f \<equiv> (fr_timestamp f, fr_insertion_offset f)"

text \<open>The index of insertions as a map, and how inserting in it updates the map.\<close>

definition ins_map :: "insertion_fragment list \<Rightarrow> cell \<Rightarrow> locator option" where
  "ins_map xs = map_of (map (\<lambda>i. (if_key i, if_fragment_id i)) xs)"

lemma set_put_item:
  "set (put_item key x xs) \<subseteq> insert x (set xs)" "x \<in> set (put_item key x xs)"
  "y \<in> set xs \<Longrightarrow> key y \<noteq> key x \<Longrightarrow> y \<in> set (put_item key x xs)"
  by (induction xs) auto

lemma sorted_put_item:
  "sorted_wrt (<) (map key xs) \<Longrightarrow> sorted_wrt (<) (map key (put_item key x xs))"
proof (induction xs)
  case (Cons y ys)
  then show ?case using set_put_item(1) [of key x ys] by (auto intro: less_trans)
qed simp

lemma ins_map_put: "ins_map (put_item if_key i xs) = (ins_map xs)(if_key i \<mapsto> if_fragment_id i)"
  by (induction xs) (auto simp: ins_map_def)

lemma if_key_new [simp]: "if_key (insertion_fragment_new f) = (fr_timestamp f, fr_insertion_offset f)"
  by (simp add: if_key_def insertion_fragment_new_def)

lemma insert_insertions_snoc [simp]:
  "ins_map (insert_insertions xs (ys @ [insertion_fragment_new f])) =
     (ins_map (insert_insertions xs ys))((fr_timestamp f, fr_insertion_offset f) \<mapsto> fr_id f)"
  by (simp add: insert_insertions_def ins_map_put) (simp add: insertion_fragment_new_def)

lemma insert_insertions_Nil [simp]: "insert_insertions xs [] = xs"
  by (simp add: insert_insertions_def)

lemma sorted_insert_insertions:
  "sorted_wrt (<) (map if_key xs) \<Longrightarrow> sorted_wrt (<) (map if_key (insert_insertions xs ys))"
  unfolding insert_insertions_def by (induction ys rule: rev_induct) (simp_all add: sorted_put_item)

lemma set_insert_insertions: "set (insert_insertions xs ys) \<subseteq> set xs \<union> set ys"
proof (induction ys rule: rev_induct)
  case (snoc y ys)
  then show ?case using set_put_item(1) [of if_key y "insert_insertions xs ys"] by (auto simp: insert_insertions_def)
qed simp

lemma ins_map_item:
  "sorted_wrt (<) (map if_key xs) \<Longrightarrow> i \<in> set xs \<Longrightarrow> ins_map xs (if_key i) = Some (if_fragment_id i)"
  by (induction xs) (auto simp: ins_map_def)

lemma ins_map_Some: "ins_map xs k = Some n \<Longrightarrow> \<exists>i \<in> set xs. if_key i = k \<and> if_fragment_id i = n"
  by (auto simp: ins_map_def dest!: map_of_SomeD)

text \<open>\<open>fr_fits\<close>: a fragment is a nonempty part of its insertion, whose length is a \<open>u32\<close>, and its id lies
  between the least and the greatest and can be split again.\<close>

definition fr_fits :: "(lamport \<Rightarrow> string) \<Rightarrow> fragment \<Rightarrow> bool" where
  "fr_fits ins f \<longleftrightarrow> 0 < fr_len f \<and> fr_insertion_offset f + fr_len f \<le> length (ins (fr_timestamp f)) \<and>
     length (ins (fr_timestamp f)) < 2 ^ 32 \<and> locator_min < fr_id f \<and> fr_id f < locator_max \<and> last (fr_id f) \<noteq> 0"

lemma length_fr_cells [simp]: "length (fr_cells f) = fr_len f"
  by (simp add: fr_cells_def)

lemma fr_cells_update [simp]:
  "fr_cells (f\<lparr>fr_id := i\<rparr>) = fr_cells f"
  "fr_cells (f\<lparr>fr_visible := v\<rparr>) = fr_cells f"
  "fr_cells (f\<lparr>fr_deletions := ds\<rparr>) = fr_cells f"
  by (simp_all add: fr_cells_def)

lemma fr_key_cell: "0 < fr_len f \<Longrightarrow> fr_key f \<in> set (fr_cells f)"
  by (simp add: fr_cells_def)

lemma cells_simps [simp]:
  "cells [] = []" "cells (f # fs) = fr_cells f @ cells fs" "cells (fs @ gs) = cells fs @ cells gs"
  by (simp_all add: cells_def)

lemma vcells_simps [simp]:
  "vcells [] = []" "vcells (f # fs) = (if fr_visible f then fr_cells f else []) @ vcells fs"
  "vcells (fs @ gs) = vcells fs @ vcells gs"
  by (simp_all add: vcells_def)

lemma dcells_simps [simp]:
  "dcells [] = []" "dcells (f # fs) = (if fr_visible f then [] else fr_cells f) @ dcells fs"
  "dcells (fs @ gs) = dcells fs @ dcells gs"
  by (simp_all add: dcells_def)

lemma length_vcells [simp]: "length (vcells fs) = visible_len fs"
  by (induction fs) simp_all

lemma length_dcells [simp]: "length (dcells fs) = deleted_len fs"
  by (induction fs) simp_all

lemma cell_text_simps [simp]:
  "cell_text ins [] = []" "cell_text ins (cs @ ds) = cell_text ins cs @ cell_text ins ds"
  "length (cell_text ins cs) = length cs"
  by (simp_all add: cell_text_def)

lemma cell_text_cong: "(\<And>c. c \<in> set cs \<Longrightarrow> ins (fst c) = ins' (fst c)) \<Longrightarrow> cell_text ins cs = cell_text ins' cs"
  by (auto simp: cell_text_def)

lemma cell_text_range:
  "cell_text ins (map (Pair t) [a ..< a + n]) = take n (drop a (ins t))" if "a + n \<le> length (ins t)"
  using that by (auto intro!: nth_equalityI simp: cell_text_def)

lemma set_vcells: "set (vcells fs) \<subseteq> set (cells fs)" and set_dcells: "set (dcells fs) \<subseteq> set (cells fs)"
  by (induction fs) auto

lemma fr_cells_subset: "f \<in> set fs \<Longrightarrow> set (fr_cells f) \<subseteq> set (cells fs)"
  by (auto simp: cells_def)

lemma cells_timestamp: "c \<in> set (cells fs) \<Longrightarrow> \<exists>f \<in> set fs. fst c = fr_timestamp f"
  by (auto simp: cells_def fr_cells_def)

lemma distinct_cells_fragment:
  assumes "distinct (cells fs)" "f \<in> set fs" "g \<in> set fs" "c \<in> set (fr_cells f)" "c \<in> set (fr_cells g)"
  shows "g = f"
  using assms
proof (induction fs)
  case (Cons h fs)
  then show ?case using fr_cells_subset [of f fs] fr_cells_subset [of g fs] by auto
qed simp

section \<open>Cutting a fragment\<close>

definition fr_head :: "nat \<Rightarrow> fragment \<Rightarrow> fragment" where
  "fr_head k f = f\<lparr>fr_len := k\<rparr>"

definition fr_tail :: "nat \<Rightarrow> fragment \<Rightarrow> fragment" where
  "fr_tail k f = f\<lparr>fr_len := fr_len f - k, fr_insertion_offset := fr_insertion_offset f + k\<rparr>"

lemma fr_cut_simps [simp]:
  "fr_id (fr_head k f) = fr_id f" "fr_visible (fr_head k f) = fr_visible f"
  "fr_timestamp (fr_head k f) = fr_timestamp f" "fr_len (fr_head k f) = k"
  "fr_insertion_offset (fr_head k f) = fr_insertion_offset f" "fr_deletions (fr_head k f) = fr_deletions f"
  "fr_id (fr_tail k f) = fr_id f" "fr_visible (fr_tail k f) = fr_visible f"
  "fr_timestamp (fr_tail k f) = fr_timestamp f" "fr_len (fr_tail k f) = fr_len f - k"
  "fr_insertion_offset (fr_tail k f) = fr_insertion_offset f + k" "fr_deletions (fr_tail k f) = fr_deletions f"
  "fr_tail 0 f = f" "fr_head (fr_len f) f = f"
  by (simp_all add: fr_head_def fr_tail_def)

lemma fr_tail_tail [simp]: "fr_tail j (fr_tail k f) = fr_tail (k + j) f"
  by (simp add: fr_tail_def add.assoc)

lemma fr_cells_cut: "k \<le> fr_len f \<Longrightarrow> fr_cells (fr_head k f) @ fr_cells (fr_tail k f) = fr_cells f"
  using upt_add_eq_append [of "fr_insertion_offset f" "fr_insertion_offset f + k" "fr_len f - k"]
  by (simp add: fr_cells_def fr_head_def fr_tail_def flip: map_append)

lemma fr_fits_head: "fr_fits ins f \<Longrightarrow> 0 < k \<Longrightarrow> k \<le> fr_len f \<Longrightarrow> fr_fits ins (fr_head k f)"
  by (simp add: fr_fits_def)

lemma fr_fits_tail: "fr_fits ins f \<Longrightarrow> k < fr_len f \<Longrightarrow> fr_fits ins (fr_tail k f)"
  by (simp add: fr_fits_def)

text \<open>Cutting the fragment where two lists of fragments meet moves its head from one to the other.\<close>

lemma cut_cells:
  assumes "k \<le> fr_len f"
  shows "cells (fs @ fr_head k f # fr_tail k f # gs) = cells (fs @ f # gs)"
    "vcells (fs @ fr_head k f # fr_tail k f # gs) = vcells (fs @ f # gs)"
    "dcells (fs @ fr_head k f # fr_tail k f # gs) = dcells (fs @ f # gs)"
  by (simp_all flip: fr_cells_cut [OF assms])

end
