(* ===== verification/Zed_Buffer_Edit_Steps.thy ===== *)
theory Zed_Buffer_Edit_Steps
  imports Zed_Fragment_Text
begin

text \<open>
  The invariant of the loops of \<open>apply_edit_internal\<close>, and that each of their steps keeps it.
  \<open>built ins s ts C D st\<close> describes a state that has consumed the fragments \<open>C\<close> and has \<open>D\<close> left, where
  the fragment the cursor is in counts as cut at the current offset.
\<close>

text \<open>Where a new fragment comes from: it is new text, or a part of an old fragment, as it was or deleted.\<close>

definition within :: "fragment \<Rightarrow> fragment \<Rightarrow> bool" where
  "within f p \<longleftrightarrow> fr_timestamp p = fr_timestamp f \<and> fr_insertion_offset f \<le> fr_insertion_offset p \<and>
     fr_insertion_offset p + fr_len p \<le> fr_insertion_offset f + fr_len f"

definition marks :: "lamport \<Rightarrow> fragment \<Rightarrow> fragment \<Rightarrow> bool" where
  "marks ts f p \<longleftrightarrow> fr_max_undos p = fr_max_undos f \<and>
     (fr_deletions p = fr_deletions f \<and> fr_visible p = fr_visible f \<or> fr_deletions p = fr_deletions f @ [ts] \<and> \<not> fr_visible p)"

definition origin :: "fragment list \<Rightarrow> lamport \<Rightarrow> fragment \<Rightarrow> bool" where
  "origin fs ts p \<longleftrightarrow> fr_timestamp p = ts \<and> fr_visible p \<and> fr_deletions p = [] \<or>
     (\<exists>f \<in> set fs. within f p \<and> marks ts f p)"

lemma origin_old: "f \<in> set fs \<Longrightarrow> origin fs ts f"
  by (auto simp: origin_def within_def marks_def intro!: bexI [of _ f])

text \<open>The entries for the index are those of new fragments, each key once.\<close>

definition indexed :: "fragment list \<Rightarrow> insertion_fragment list \<Rightarrow> bool" where
  "indexed fs is \<longleftrightarrow> set is \<subseteq> insertion_fragment_new ` set fs \<and> distinct (map if_key is)"

lemma indexed_Nil [simp]: "indexed fs []"
  by (simp add: indexed_def)

lemma indexed_append: "indexed fs is \<Longrightarrow> indexed (fs @ gs) is"
  by (auto simp: indexed_def)

lemma indexed_push:
  assumes "indexed fs is" "\<And>f. f \<in> set fs \<Longrightarrow> fr_key f \<noteq> fr_key p"
  shows "indexed (fs @ [p]) (is @ [insertion_fragment_new p])"
proof -
  have "if_key i \<noteq> fr_key p" if i: "i \<in> set is" for i
  proof -
    obtain f where "f \<in> set fs" "i = insertion_fragment_new f" using assms(1) i unfolding indexed_def by blast
    then show ?thesis using assms(2) by simp
  qed
  then show ?thesis using assms(1) unfolding indexed_def by fastforce
qed

definition built ::
    "(lamport \<Rightarrow> string) \<Rightarrow> snapshot \<Rightarrow> lamport \<Rightarrow> fragment list \<Rightarrow> fragment list \<Rightarrow> edit_state \<Rightarrow> bool" where
  "built ins s ts C D st \<longleftrightarrow>
     cells (C @ D) = cells (sn_fragments s) \<and>
     rb_old_visible (es_ropes st) = cell_text ins (vcells (C @ D)) \<and>
     rb_old_deleted (es_ropes st) = cell_text ins (dcells (C @ D)) \<and>
     rb_visible_offset (es_ropes st) = visible_len C \<and> rb_deleted_offset (es_ropes st) = deleted_len C \<and>
     rb_new_visible (es_ropes st) = cell_text ins (vcells (es_new_fragments st)) \<and>
     rb_new_deleted (es_ropes st) = cell_text ins (dcells (es_new_fragments st)) \<and>
     filter (\<lambda>c. fst c \<noteq> ts) (cells (es_new_fragments st)) = cells C \<and>
     filter (\<lambda>c. fst c = ts) (cells (es_new_fragments st)) = map (Pair ts) [0 ..< es_insertion_offset st] \<and>
     (\<forall>f \<in> set (es_new_fragments st) \<union> set D. fr_fits ins f) \<and>
     sorted_wrt (<) (map fr_id (es_new_fragments st)) \<and>
     (\<forall>g \<in> set D. max_id (es_new_fragments st) < fr_id g) \<and>
     (\<forall>f \<in> set (es_new_fragments st).
        ins_map (insert_insertions (sn_insertions s) (es_new_insertions st)) (fr_key f) = Some (fr_id f)) \<and>
     (\<forall>f \<in> set (es_new_fragments st). origin (sn_fragments s) ts f) \<and>
     indexed (es_new_fragments st) (es_new_insertions st)"

lemma built_update [simp]:
  "built ins s ts C D (st\<lparr>es_cursor := c\<rparr>) = built ins s ts C D st"
  "built ins s ts C D (st\<lparr>es_fragment_start := n\<rparr>) = built ins s ts C D st"
  "built ins s ts C D (st\<lparr>es_patch := p\<rparr>) = built ins s ts C D st"
  "built ins s ts C D (st\<lparr>es_slices := sl\<rparr>) = built ins s ts C D st"
  "built ins s ts C D (st\<lparr>es_ranges := r\<rparr>) = built ins s ts C D st"
  "built ins s ts C D (st\<lparr>es_new_text := t\<rparr>) = built ins s ts C D st"
  by (simp_all add: built_def)

lemma max_id_last: "fs \<noteq> [] \<Longrightarrow> max_id fs = fr_id (last fs)"
  by (induction fs rule: rev_induct) simp_all

lemma locator_min_less_max: "locator_min < locator_max"
  by (simp add: locator_min_def locator_max_def word_less_nat_alt unat_max_word)

lemma max_id_fits: "\<forall>f \<in> set fs. fr_fits ins f \<Longrightarrow> max_id fs < locator_max"
  by (cases "fs = []") (auto simp: max_id_last fr_fits_def locator_min_less_max)

lemma sorted_ids_max:
  "sorted_wrt (<) (map fr_id fs) \<Longrightarrow> f \<in> set fs \<Longrightarrow> fr_id f \<le> max_id fs"
  by (induction fs rule: rev_induct) (auto simp: sorted_wrt_append less_imp_le)

lemma sorted_ids_less:
  "sorted_wrt (<) (map fr_id fs) \<Longrightarrow> max_id fs < i \<Longrightarrow> f \<in> set fs \<Longrightarrow> fr_id f < i"
  using sorted_ids_max le_less_trans by blast

lemma sorted_ids_snoc:
  "sorted_wrt (<) (map fr_id fs) \<Longrightarrow> max_id fs < fr_id f \<Longrightarrow> sorted_wrt (<) (map fr_id (fs @ [f]))"
  using sorted_ids_max by (fastforce simp: sorted_wrt_append)

text \<open>A cut respects \<open>built\<close>.\<close>

lemma built_cut:
  assumes "built ins s ts C (f # D) st" "0 < k" "k < fr_len f"
  shows "built ins s ts C (fr_head k f # fr_tail k f # D) st"
  using assms cut_cells [of k f C D] unfolding built_def
  by (auto simp: fr_fits_head fr_fits_tail less_imp_le simp del: cells_simps vcells_simps dcells_simps)

text \<open>Pushing the first fragment left, whatever its new id, deletions and visibility.\<close>

lemma cells_not_pushed:
  assumes "built ins s ts C D st" "distinct (cells (sn_fragments s))" "c \<in> set (cells D)" "fst c \<noteq> ts"
  shows "c \<notin> set (cells (es_new_fragments st))"
proof
  assume "c \<in> set (cells (es_new_fragments st))"
  with assms(4) have "c \<in> set (filter (\<lambda>c. fst c \<noteq> ts) (cells (es_new_fragments st)))" by simp
  moreover have "filter (\<lambda>c. fst c \<noteq> ts) (cells (es_new_fragments st)) = cells C"
    using assms(1) by (simp add: built_def)
  ultimately have "c \<in> set (cells C)" by (simp only:)
  moreover have "distinct (cells C @ cells D)" using assms(1,2) by (simp add: built_def)
  ultimately show False using assms(3) by auto
qed

lemma built_push:
  assumes b: "built ins s ts C (g # D) st" and "distinct (cells (sn_fragments s))" "ts \<notin> fr_timestamp ` set (g # D)"
    and p: "fr_cells p = fr_cells g" "fr_timestamp p = fr_timestamp g" "fr_insertion_offset p = fr_insertion_offset g"
      "fr_len p = fr_len g"
    and "fr_fits ins p" "max_id (es_new_fragments st) < fr_id p" "\<forall>h \<in> set D. fr_id p < fr_id h"
    and o: "origin (sn_fragments s) ts p"
  shows "built ins s ts (C @ [g]) D (es_push p (fr_visible g) st)"
proof -
  have key: "fr_key p \<notin> set (cells (es_new_fragments st))"
    using cells_not_pushed [OF b assms(2), of "fr_key p"] fr_key_cell [of g] b assms(3) p
    by (auto simp: built_def fr_fits_def)
  have other: "fr_key f \<noteq> fr_key p" if "f \<in> set (es_new_fragments st)" for f
  proof -
    have "fr_key f \<in> set (fr_cells f)" using b that by (auto simp: built_def fr_fits_def intro: fr_key_cell)
    then have "fr_key f \<in> set (cells (es_new_fragments st))" using fr_cells_subset [OF that] by blast
    then show ?thesis using key by metis
  qed
  have "\<forall>c \<in> set (fr_cells g). fst c \<noteq> ts" using assms(3) by (auto simp: fr_cells_def)
  then have cs: "filter (\<lambda>c. fst c \<noteq> ts) (fr_cells g) = fr_cells g" "filter (\<lambda>c. fst c = ts) (fr_cells g) = []"
    by (auto simp: filter_id_conv filter_empty_conv)
  have "indexed (es_new_fragments st @ [p]) (es_new_insertions st @ [insertion_fragment_new p])"
    using b other by (intro indexed_push) (simp_all add: built_def)
  then show ?thesis
    using b assms(8-10) p cs other o unfolding built_def
    by (auto simp: es_push_def rb_push_fragment_def rb_push_def sorted_wrt_append dest: sorted_ids_max)
qed

lemma built_passed:
  assumes "built ins s ts C D st" "cells C = cells C'" "vcells C = vcells C'" "dcells C = dcells C'"
  shows "built ins s ts C' D st"
proof -
  have "visible_len C = visible_len C'" "deleted_len C = deleted_len C'"
    using arg_cong [OF assms(3), of length] arg_cong [OF assms(4), of length] by simp_all
  then show ?thesis using assms unfolding built_def by simp
qed

section \<open>The cursor\<close>

text \<open>The state is \<open>k\<close> visible bytes into the fragment the cursor is at.\<close>

definition passed :: "fragment list \<Rightarrow> fragment list \<Rightarrow> nat \<Rightarrow> fragment list" where
  "passed B R k = B @ (if k = 0 then [] else [fr_head k (hd R)])"

definition remaining :: "fragment list \<Rightarrow> nat \<Rightarrow> fragment list" where
  "remaining R k = (if k = 0 then R else if k < fr_len (hd R) then fr_tail k (hd R) # tl R else tl R)"

definition at_frag ::
    "(lamport \<Rightarrow> string) \<Rightarrow> snapshot \<Rightarrow> lamport \<Rightarrow> fragment list \<Rightarrow> fragment list \<Rightarrow> nat \<Rightarrow> edit_state \<Rightarrow> bool" where
  "at_frag ins s ts B R k st \<longleftrightarrow>
     es_cursor st = \<lparr>fc_before = B, fc_rest = R\<rparr> \<and> B @ R = sn_fragments s \<and>
     (0 < k \<longrightarrow> R \<noteq> [] \<and> k \<le> fr_len (hd R)) \<and>
     built ins s ts (passed B R k) (remaining R k) st \<and>
     (\<forall>g \<in> set R. max_id (es_new_fragments st) < fr_id g) \<and>
     (\<forall>g \<in> set (if k = 0 then R else tl R).
        ins_map (insert_insertions (sn_insertions s) (es_new_insertions st)) (fr_key g) = Some (fr_id g))"

lemma at_frag_update [simp]:
  "at_frag ins s ts B R k (st\<lparr>es_fragment_start := n\<rparr>) = at_frag ins s ts B R k st"
  "at_frag ins s ts B R k (st\<lparr>es_patch := p\<rparr>) = at_frag ins s ts B R k st"
  "at_frag ins s ts B R k (st\<lparr>es_slices := sl\<rparr>) = at_frag ins s ts B R k st"
  "at_frag ins s ts B R k (st\<lparr>es_ranges := r\<rparr>) = at_frag ins s ts B R k st"
  "at_frag ins s ts B R k (st\<lparr>es_new_text := t\<rparr>) = at_frag ins s ts B R k st"
  by (simp_all add: at_frag_def)

definition snapshot_ok :: "(lamport \<Rightarrow> string) \<Rightarrow> snapshot \<Rightarrow> bool" where
  "snapshot_ok ins s \<longleftrightarrow>
     sn_visible_text s = cell_text ins (vcells (sn_fragments s)) \<and>
     sn_deleted_text s = cell_text ins (dcells (sn_fragments s)) \<and>
     distinct (cells (sn_fragments s)) \<and> (\<forall>f \<in> set (sn_fragments s). fr_fits ins f) \<and>
     sorted_wrt (<) (map fr_id (sn_fragments s)) \<and>
     sorted_wrt (<) (map if_key (sn_insertions s)) \<and>
     set (sn_insertions s) = insertion_fragment_new ` set (sn_fragments s)"

lemma snapshot_index:
  "snapshot_ok ins s \<Longrightarrow> f \<in> set (sn_fragments s) \<Longrightarrow> ins_map (sn_insertions s) (fr_key f) = Some (fr_id f)"
  using ins_map_item [of "sn_insertions s" "insertion_fragment_new f"]
  by (simp add: snapshot_ok_def) (simp add: insertion_fragment_new_def)

text \<open>The snapshot is well-formed and does not know the new timestamp.\<close>

definition edit_env :: "(lamport \<Rightarrow> string) \<Rightarrow> snapshot \<Rightarrow> lamport \<Rightarrow> bool" where
  "edit_env ins s ts \<longleftrightarrow> snapshot_ok ins s \<and> ts \<notin> fr_timestamp ` set (sn_fragments s)"

lemma keys_differ:
  assumes "edit_env ins s ts" "B @ f # R = sn_fragments s" "g \<in> set R" "c \<in> set (fr_cells f)"
  shows "fr_key g \<noteq> c"
proof -
  have "distinct (cells (B @ f # R))" "fr_fits ins g"
    using assms(1,3) unfolding edit_env_def snapshot_ok_def assms(2) [symmetric] by auto
  then have "set (fr_cells f) \<inter> set (cells R) = {}" "fr_key g \<in> set (fr_cells g)"
    by (auto simp: fr_fits_def intro: fr_key_cell)
  then show ?thesis using assms(4) fr_cells_subset [OF assms(3)] by blast
qed

lemma max_id_min: "\<forall>f \<in> set fs. fr_fits ins f \<Longrightarrow> locator_min \<le> max_id fs"
  by (cases "fs = []") (auto simp: max_id_last fr_fits_def less_imp_le)

text \<open>Pushing a piece of the current fragment.\<close>

definition piece_of :: "fragment \<Rightarrow> nat \<Rightarrow> nat \<Rightarrow> fragment \<Rightarrow> bool" where
  "piece_of f k j p \<longleftrightarrow> fr_timestamp p = fr_timestamp f \<and> fr_insertion_offset p = fr_insertion_offset f + k \<and>
     fr_len p = j \<and> 0 < j \<and> k + j \<le> fr_len f"

lemma at_frag_fits:
  assumes "edit_env ins s ts" "at_frag ins s ts B (f # R) k st"
  shows "fr_fits ins f" "\<forall>h \<in> set R. fr_id f < fr_id h" "ts \<noteq> fr_timestamp f" "ts \<notin> fr_timestamp ` set R"
    "distinct (cells (sn_fragments s))"
proof -
  have F: "sn_fragments s = B @ f # R" using assms(2) by (simp add: at_frag_def)
  show "fr_fits ins f" "\<forall>h \<in> set R. fr_id f < fr_id h" "ts \<noteq> fr_timestamp f" "ts \<notin> fr_timestamp ` set R"
    using assms(1) unfolding edit_env_def snapshot_ok_def F by (auto simp: sorted_wrt_append)
  show "distinct (cells (sn_fragments s))" using assms(1) by (simp add: edit_env_def snapshot_ok_def)
qed

lemma piece_fits:
  assumes "edit_env ins s ts" "at_frag ins s ts B (f # R) k st" "piece_of f k j p"
    and "max_id (es_new_fragments st) < fr_id p" "fr_id p \<le> fr_id f" "last (fr_id p) \<noteq> 0"
  shows "fr_fits ins p"
proof -
  have "\<forall>f \<in> set (es_new_fragments st). fr_fits ins f" using assms(2) by (simp add: at_frag_def built_def)
  from le_less_trans [OF max_id_min [OF this] assms(4)] have "locator_min < fr_id p" .
  moreover have "fr_id p < locator_max" using assms(5) at_frag_fits(1) [OF assms(1,2)] le_less_trans
    unfolding fr_fits_def by blast
  ultimately show ?thesis
    using at_frag_fits(1) [OF assms(1,2)] assms(3,6) by (auto simp: fr_fits_def piece_of_def)
qed

lemma push_built:
  assumes env: "edit_env ins s ts" and at: "at_frag ins s ts B (f # R) k st" and p: "piece_of f k j p"
    and m: "marks ts f p"
    and id: "max_id (es_new_fragments st) < fr_id p" "last (fr_id p) \<noteq> 0"
      "fr_id p < fr_id f \<or> fr_id p = fr_id f \<and> k + j = fr_len f"
  shows "built ins s ts (B @ [fr_head (k + j) f]) (if k + j < fr_len f then fr_tail (k + j) f # R else R)
      (es_push p (fr_visible f) st)"
proof -
  note F = at_frag_fits [OF env at]
  let ?g = "fr_tail k f"
  let ?D = "if k + j < fr_len f then fr_tail (k + j) f # R else R"
  have k: "k < fr_len f" "j \<le> fr_len ?g" using p by (auto simp: piece_of_def)
  have "built ins s ts (passed B (f # R) k) (?g # R) st"
    using at k by (cases "k = 0") (simp_all add: at_frag_def remaining_def)
  then have "built ins s ts (passed B (f # R) k) (fr_head j ?g # ?D) st"
  proof (cases "k + j < fr_len f")
    case True
    then have "built ins s ts (passed B (f # R) k) (fr_head j ?g # fr_tail j ?g # R) st"
      using p by (intro built_cut \<open>built ins s ts (passed B (f # R) k) (?g # R) st\<close>) (auto simp: piece_of_def)
    then show ?thesis using True by simp
  next
    case False
    then have "j = fr_len ?g" using k by simp
    then have "fr_head j ?g = ?g" by (simp only: fr_cut_simps(14))
    then show ?thesis using False \<open>built ins s ts (passed B (f # R) k) (?g # R) st\<close> by (simp only: if_False)
  qed
  moreover have "f \<in> set (sn_fragments s)" using at in_set_conv_decomp unfolding at_frag_def by metis
  then have "origin (sn_fragments s) ts p"
    using p m by (auto simp: origin_def within_def piece_of_def intro!: bexI [of _ f])
  moreover have "fr_fits ins p" by (rule piece_fits [OF env at p id(1) _ id(2)]) (use id(3) in auto)
  ultimately have b: "built ins s ts (passed B (f # R) k @ [fr_head j ?g]) ?D (es_push p (fr_visible (fr_head j ?g)) st)"
    using p id F by (intro built_push) (auto simp: piece_of_def fr_cells_def)
  have cut: "fr_cells (fr_head k f) @ fr_cells (fr_head j ?g) = fr_cells (fr_head (k + j) f)"
    using upt_add_eq_append [of "fr_insertion_offset f" "fr_insertion_offset f + k" j]
    by (simp add: fr_cells_def add.assoc flip: map_append)
  moreover have "fr_cells (fr_head 0 f) = []" by (simp add: fr_cells_def)
  ultimately have "built ins s ts (B @ [fr_head (k + j) f]) ?D (es_push p (fr_visible (fr_head j ?g)) st)"
    by (intro built_passed [OF b]) (auto simp: passed_def)
  then show ?thesis by simp
qed

lemma es_push_simps [simp]:
  "es_cursor (es_push p v st) = es_cursor st" "es_patch (es_push p v st) = es_patch st"
  "es_fragment_start (es_push p v st) = es_fragment_start st"
  "es_new_fragments (es_push p v st) = es_new_fragments st @ [p]"
  "es_new_insertions (es_push p v st) = es_new_insertions st @ [insertion_fragment_new p]"
  "es_insertion_offset (es_push p v st) = es_insertion_offset st"
  "es_slices (es_push p v st) = es_slices st" "es_ranges (es_push p v st) = es_ranges st"
  "es_new_text (es_push p v st) = es_new_text st"
  by (simp_all add: es_push_def)

lemma push_index:
  assumes env: "edit_env ins s ts" and at: "at_frag ins s ts B (f # R) k st" and p: "piece_of f k j p"
    and g: "g \<in> set R"
  shows "ins_map (insert_insertions (sn_insertions s) (es_new_insertions (es_push p v st))) (fr_key g) = Some (fr_id g)"
proof -
  have "fr_key p \<in> set (fr_cells f)" using p by (auto simp: piece_of_def fr_cells_def)
  moreover have "B @ f # R = sn_fragments s" using at by (simp add: at_frag_def)
  ultimately have "fr_key g \<noteq> fr_key p" using keys_differ [OF env _ g] by blast
  moreover have "ins_map (insert_insertions (sn_insertions s) (es_new_insertions st)) (fr_key g) = Some (fr_id g)"
    using at g by (auto simp: at_frag_def split: if_splits)
  ultimately show ?thesis by auto
qed

text \<open>A piece with a smaller id leaves the cursor where it is; the last piece may keep the id, as the
  cursor moves on.\<close>

lemma at_frag_piece:
  assumes env: "edit_env ins s ts" and at: "at_frag ins s ts B (f # R) k st" and p: "piece_of f k j p"
    and m: "marks ts f p"
    and "max_id (es_new_fragments st) < fr_id p" "last (fr_id p) \<noteq> 0" "fr_id p < fr_id f"
  shows "at_frag ins s ts B (f # R) (k + j) (es_push p (fr_visible f) st)"
proof -
  have "built ins s ts (passed B (f # R) (k + j)) (remaining (f # R) (k + j)) (es_push p (fr_visible f) st)"
    using push_built [OF env at p m assms(5,6)] assms(7) p by (auto simp: passed_def remaining_def piece_of_def)
  moreover have "\<forall>h \<in> set R. fr_id p < fr_id h" using at_frag_fits(2) [OF env at] assms(7) by auto
  ultimately show ?thesis
    using at p assms(7) push_index [OF env at p, of _ "fr_visible f"]
    unfolding at_frag_def by (auto simp: piece_of_def simp del: insert_insertions_snoc es_push_simps(5))
qed

lemma fc_next_Cons [simp]: "fc_next \<lparr>fc_before = B, fc_rest = f # R\<rparr> = \<lparr>fc_before = B @ [f], fc_rest = R\<rparr>"
  by (simp add: fc_next_def)

lemma at_frag_last_piece:
  assumes env: "edit_env ins s ts" and at: "at_frag ins s ts B (f # R) k st" and p: "piece_of f k j p"
    and m: "marks ts f p"
    and "k + j = fr_len f" "max_id (es_new_fragments st) < fr_id p" "last (fr_id p) \<noteq> 0" "fr_id p \<le> fr_id f"
  shows "at_frag ins s ts (B @ [f]) R 0
    ((es_push p (fr_visible f) st)\<lparr>es_cursor := \<lparr>fc_before = B @ [f], fc_rest = R\<rparr>\<rparr>)"
proof -
  have "built ins s ts (B @ [f]) R (es_push p (fr_visible f) st)"
    using push_built [OF env at p m assms(6,7)] assms(5,8) by (auto simp: le_less)
  moreover have "\<forall>h \<in> set R. fr_id p < fr_id h" using at_frag_fits(2) [OF env at] assms(8) le_less_trans by blast
  ultimately show ?thesis
    using at p push_index [OF env at p, of _ "fr_visible f"]
    unfolding at_frag_def
    by (auto simp: passed_def remaining_def simp del: insert_insertions_snoc es_push_simps(5))
qed

text \<open>A fragment that is used up.\<close>

lemma at_frag_next:
  assumes "at_frag ins s ts B (f # R) (fr_len f) st" "0 < fr_len f"
  shows "at_frag ins s ts (B @ [f]) R 0 (st\<lparr>es_cursor := \<lparr>fc_before = B @ [f], fc_rest = R\<rparr>\<rparr>)"
  using assms by (auto simp: at_frag_def passed_def remaining_def)

text \<open>Fragments copied as a whole.\<close>

lemma rb_append_simps [simp]:
  "rb_old_visible (rb_append rb fs) = rb_old_visible rb" "rb_old_deleted (rb_append rb fs) = rb_old_deleted rb"
  "rb_visible_offset (rb_append rb fs) = rb_visible_offset rb + visible_len fs"
  "rb_deleted_offset (rb_append rb fs) = rb_deleted_offset rb + deleted_len fs"
  "rb_new_visible (rb_append rb fs) =
     rb_new_visible rb @ take (visible_len fs) (drop (rb_visible_offset rb) (rb_old_visible rb))"
  "rb_new_deleted (rb_append rb fs) =
     rb_new_deleted rb @ take (deleted_len fs) (drop (rb_deleted_offset rb) (rb_old_deleted rb))"
  by (simp_all add: rb_append_def rb_push_def)

lemma max_id_append: "max_id (fs @ gs) = (if gs = [] then max_id fs else fr_id (last gs))"
  by (simp add: max_id_last)

lemma at_frag_copy:
  assumes env: "edit_env ins s ts" and at: "at_frag ins s ts B (X @ R) 0 st"
  shows "at_frag ins s ts (B @ X) R 0
    (st\<lparr>es_cursor := \<lparr>fc_before = B @ X, fc_rest = R\<rparr>, es_ropes := rb_append (es_ropes st) X,
        es_new_fragments := es_new_fragments st @ X\<rparr>)"
proof -
  let ?N = "es_new_fragments st"
  have F: "sn_fragments s = B @ X @ R" and b: "built ins s ts B (X @ R) st"
    using at by (simp_all add: at_frag_def passed_def remaining_def)
  have new: "indexed (?N @ X) (es_new_insertions st)" using b by (simp add: built_def indexed_append)
  have "\<forall>x \<in> set X. origin (sn_fragments s) ts x" by (simp add: F origin_old)
  have "sorted_wrt (<) (map fr_id (X @ R))" and ts: "\<forall>f \<in> set X. fr_timestamp f \<noteq> ts"
    using env unfolding edit_env_def snapshot_ok_def F by (auto simp: sorted_wrt_append)
  then have X: "sorted_wrt (<) (map fr_id X)" "\<forall>g \<in> set R. \<forall>f \<in> set X. fr_id f < fr_id g"
    by (auto simp: sorted_wrt_append)
  have "\<forall>c \<in> set (cells X). fst c \<noteq> ts" using cells_timestamp ts by fastforce
  then have cs: "filter (\<lambda>c. fst c \<noteq> ts) (cells X) = cells X" "filter (\<lambda>c. fst c = ts) (cells X) = []"
    by (auto simp: filter_id_conv filter_empty_conv)
  have "sorted_wrt (<) (map fr_id (?N @ X))"
    using b X(1) unfolding built_def by (auto simp: sorted_wrt_append intro: sorted_ids_less)
  moreover have "\<forall>g \<in> set R. max_id (?N @ X) < fr_id g"
    using b X(2) by (auto simp: built_def max_id_append)
  moreover have "take (visible_len X) (drop (visible_len B) (cell_text ins (vcells (sn_fragments s)))) = cell_text ins (vcells X)"
    "take (deleted_len X) (drop (deleted_len B) (cell_text ins (dcells (sn_fragments s)))) = cell_text ins (dcells X)"
    unfolding F by simp_all
  ultimately show ?thesis
    using at b cs new \<open>\<forall>x \<in> set X. origin (sn_fragments s) ts x\<close>
    unfolding at_frag_def built_def passed_def remaining_def by auto
qed

section \<open>Inserting\<close>

text \<open>A text shorter than the limit is a single chunk.\<close>

lemma push_fragments_one:
  assumes "t \<noteq> []" "length t < 2 ^ 32"
  shows "push_fragments_loop t timestamp next_id edit_ts 0 st =
    (let f = \<lparr>fr_id = locator_between (max_id (ins_new_fragments st)) next_id, fr_timestamp = timestamp,
              fr_insertion_offset = ins_offset st, fr_len = length t, fr_visible = True, fr_deletions = [], fr_max_undos = version_new\<rparr>
     in \<lparr>ins_offset = as_u32 (ins_offset st + length t), ins_new_fragments = ins_new_fragments st @ [f],
         ins_new_insertions = ins_new_insertions st @ [insertion_fragment_new f],
         ins_slices = ins_slices st @ [slice_from_fragment edit_ts f]\<rparr>)"
proof -
  have "min (length t) MAX_INSERTION_LEN = length t" using assms(2) by (simp add: MAX_INSERTION_LEN_def)
  moreover have "push_fragments_loop t timestamp next_id edit_ts (length t) st' = st'" for st'
    by (subst push_fragments_loop.simps) simp
  ultimately show ?thesis
    using assms by (subst push_fragments_loop.simps) (simp add: Let_def)
qed

lemma built_insert:
  assumes b: "built ins s ts C D st" and t: "t \<noteq> []" "es_insertion_offset st + length t \<le> length (ins ts)"
      "length (ins ts) < 2 ^ 32" "take (length t) (drop (es_insertion_offset st) (ins ts)) = t"
    and f: "fr_timestamp f = ts" "fr_insertion_offset f = es_insertion_offset st" "fr_len f = length t" "fr_visible f" "fr_deletions f = []"
    and id: "max_id (es_new_fragments st) < fr_id f" "last (fr_id f) \<noteq> 0" "fr_id f < locator_max"
      "\<forall>g \<in> set D. fr_id f < fr_id g"
    and st': "es_new_fragments st' = es_new_fragments st @ [f]" "es_ropes st' = rb_push_str (es_ropes st) t"
      "es_new_insertions st' = es_new_insertions st @ [insertion_fragment_new f]"
      "es_insertion_offset st' = es_insertion_offset st + length t"
  shows "built ins s ts C D st'"
proof -
  have fits: "\<forall>g \<in> set (es_new_fragments st) \<union> set D. fr_fits ins g"
    and own: "filter (\<lambda>c. fst c = ts) (cells (es_new_fragments st)) = map (Pair ts) [0 ..< es_insertion_offset st]"
    using b by (simp_all add: built_def)
  have "locator_min \<le> max_id (es_new_fragments st)" using fits max_id_min by blast
  then have "locator_min < fr_id f" using id(1) by (rule le_less_trans)
  then have fit: "fr_fits ins f" using t f id by (simp add: fr_fits_def)
  have key: "fr_key g \<noteq> fr_key f" if "g \<in> set (es_new_fragments st)" for g
  proof
    assume eq: "fr_key g = fr_key f"
    have "fr_key g \<in> set (fr_cells g)" using fits that by (auto simp: fr_fits_def intro: fr_key_cell)
    then have "fr_key g \<in> set (cells (es_new_fragments st))" using fr_cells_subset [OF that] by blast
    then have "fr_key g \<in> set (filter (\<lambda>c. fst c = ts) (cells (es_new_fragments st)))" using eq f(1) by simp
    then show False using eq f(2) unfolding own by auto
  qed
  have cs: "fr_cells f = map (Pair ts) [es_insertion_offset st ..< es_insertion_offset st + length t]"
    using f by (simp add: fr_cells_def)
  then have ct: "cell_text ins (fr_cells f) = t" using t(2,4) by (simp add: cell_text_range)
  have "filter (\<lambda>c. fst c = ts) (fr_cells f) = fr_cells f" "filter (\<lambda>c. fst c \<noteq> ts) (fr_cells f) = []"
    by (auto simp: cs filter_id_conv filter_empty_conv)
  moreover have "map (Pair ts) [0 ..< es_insertion_offset st] @ fr_cells f =
      map (Pair ts) [0 ..< es_insertion_offset st + length t]"
    using upt_add_eq_append [of 0 "es_insertion_offset st" "length t"] by (simp add: cs flip: map_append)
  moreover have "indexed (es_new_fragments st @ [f]) (es_new_insertions st @ [insertion_fragment_new f])"
    using b key by (intro indexed_push) (simp_all add: built_def)
  moreover have "origin (sn_fragments s) ts f" using f by (simp add: origin_def)
  ultimately show ?thesis
    using b id key fit ct f sorted_ids_snoc [OF _ id(1)] unfolding built_def st' by (auto simp: rb_push_str_def)
qed

lemma es_insert_fields [simp]:
  "es_cursor (es_insert t ts st) = es_cursor st" "es_fragment_start (es_insert t ts st) = es_fragment_start st"
  "es_ranges (es_insert t ts st) = es_ranges st" "es_new_text (es_insert t ts st) = es_new_text st"
  by (simp_all add: es_insert_def Let_def)

lemma at_frag_insert:
  assumes env: "edit_env ins s ts" and at: "at_frag ins s ts B R k st"
    and t: "es_insertion_offset st + length t \<le> length (ins ts)" "length (ins ts) < 2 ^ 32"
      "take (length t) (drop (es_insertion_offset st) (ins ts)) = t"
  shows "at_frag ins s ts B R k (es_insert t ts st) \<and>
    es_insertion_offset (es_insert t ts st) = es_insertion_offset st + length t \<and>
    rb_new_visible (es_ropes (es_insert t ts st)) = rb_new_visible (es_ropes st) @ t \<and>
    es_patch (es_insert t ts st) = patch_push (es_patch st)
      (mk_edit (es_fragment_start st) (es_fragment_start st) (visible_len (es_new_fragments st))
        (visible_len (es_new_fragments st) + length t))"
proof (cases "t = []")
  case True
  then show ?thesis using at by (simp add: es_insert_def patch_push_def edit_is_empty_def)
next
  case False
  let ?N = "es_new_fragments st" and ?st = "es_insert t ts st"
  define nid where "nid = (case fc_item (es_cursor st) of None \<Rightarrow> locator_max | Some f \<Rightarrow> fr_id f)"
  define f where "f = \<lparr>fr_id = locator_between (max_id ?N) nid, fr_timestamp = ts,
    fr_insertion_offset = es_insertion_offset st, fr_len = length t, fr_visible = True, fr_deletions = [], fr_max_undos = version_new\<rparr>"
  have c: "es_cursor st = \<lparr>fc_before = B, fc_rest = R\<rparr>" and F: "B @ R = sn_fragments s"
    and b: "built ins s ts (passed B R k) (remaining R k) st" and mx: "\<forall>g \<in> set R. max_id ?N < fr_id g"
    using at by (simp_all add: at_frag_def)
  have fitsN: "\<forall>g \<in> set ?N. fr_fits ins g" using b by (simp add: built_def)
  have fitsR: "\<forall>g \<in> set R. fr_fits ins g" and srt: "sorted_wrt (<) (map fr_id R)" and tsR: "ts \<notin> fr_timestamp ` set R"
    using env unfolding edit_env_def snapshot_ok_def F [symmetric] by (auto simp: sorted_wrt_append)
  have nid: "max_id ?N < nid" "last nid \<noteq> 0" "nid \<le> locator_max" "\<forall>g \<in> set R. nid \<le> fr_id g"
    using mx fitsR srt max_id_fits [OF fitsN]
    by (cases R; force simp: nid_def c fc_item_def fr_fits_def locator_max_def)+
  have fid: "max_id ?N < fr_id f" "fr_id f < nid" "last (fr_id f) \<noteq> 0"
    using nid by (simp_all add: f_def locator_between_greater locator_between_less locator_between_last)
  have lenf: "length t < 2 ^ 32" "es_insertion_offset st + length t < 2 ^ 32" using t(1,2) by linarith+
  have st: "es_new_fragments ?st = ?N @ [f]" "es_ropes ?st = rb_push_str (es_ropes st) t"
    "es_new_insertions ?st = es_new_insertions st @ [insertion_fragment_new f]"
    "es_insertion_offset ?st = es_insertion_offset st + length t"
    using False push_fragments_one [OF False lenf(1)] lenf(2)
    by (simp_all add: es_insert_def Let_def f_def nid_def)
  have "\<forall>g \<in> set R. fr_id f < fr_id g" using fid(2) nid(4) less_le_trans by blast
  moreover from this have "\<forall>g \<in> set (remaining R k). fr_id f < fr_id g"
    using at by (auto simp: remaining_def at_frag_def split: if_splits dest: list.set_sel)
  moreover have "fr_id f < locator_max" using fid(2) nid(3) by (rule less_le_trans)
  ultimately have "built ins s ts (passed B R k) (remaining R k) ?st"
    using False t fid by (intro built_insert [OF b _ _ _ _ _ _ _ _ _ _ _ _ _ st]) (simp_all add: f_def)
  moreover have "fr_key g \<noteq> fr_key f" if "g \<in> set R" for g using tsR that by (auto simp: f_def)
  ultimately have "at_frag ins s ts B R k ?st"
    using at st(1,3) \<open>\<forall>g \<in> set R. fr_id f < fr_id g\<close> unfolding at_frag_def
    by (auto split: if_splits dest: list.set_sel(2))
  then show ?thesis using st False by (simp add: rb_push_str_def es_insert_def Let_def)
qed

end
