(* ===== verification/Zed_Buffer_Edit_Facts.thy ===== *)
theory Zed_Buffer_Edit_Facts
  imports Zed_Buffer_Edit_Steps
begin

text \<open>
  What \<open>apply_edit_internal\<close> does as a whole: the visible text is the old one with the ranges replaced,
  the patch relates the two, and the fragments stay well-formed and keep every earlier byte in its place.
\<close>

section \<open>The text written so far\<close>

abbreviation new_visible :: "edit_state \<Rightarrow> string" where
  "new_visible st \<equiv> rb_new_visible (es_ropes st)"

definition text_inv :: "string \<Rightarrow> nat \<Rightarrow> edit_state \<Rightarrow> bool" where
  "text_inv T pos st \<longleftrightarrow> pos \<le> length T \<and> patch_rel 0 0 (es_patch st) (take pos T) (new_visible st) \<and> patch_new_ok (es_patch st)"

lemma text_keep:
  assumes "text_inv T pos st" "pos + j \<le> length T" "es_patch st' = es_patch st"
    "new_visible st' = new_visible st @ take j (drop pos T)"
  shows "text_inv T (pos + j) st'"
  using assms patch_rel_append [of 0 0 "es_patch st" "take pos T"] by (simp add: text_inv_def take_add)

lemma text_replace:
  assumes "text_inv T pos st" "pos + a \<le> length T"
    and "es_patch st' = patch_push (es_patch st) (mk_edit pos (pos + a) n (n + length t))"
    and "n = length (new_visible st)" "new_visible st' = new_visible st @ t"
  shows "text_inv T (pos + a) st'"
  using patch_push_rel [of "es_patch st" pos T "length (new_visible st)" "new_visible st @ t" 0 a "length t"] assms
  by (simp add: text_inv_def)

text \<open>The text that the edits ask for: \<open>pos\<close> is the end of the last one.\<close>

type_synonym text_edits = "((nat \<times> nat) \<times> string) list"

fun splice :: "nat \<Rightarrow> text_edits \<Rightarrow> string \<Rightarrow> string" where
  "splice pos [] T = drop pos T"
| "splice pos (((a, b), t) # es) T = take (a - pos) (drop pos T) @ normalize_text t @ splice b es T"

text \<open>Edits in ascending order that do not overlap and lie within a text of length \<open>n\<close>.\<close>

fun edits_ok :: "nat \<Rightarrow> nat \<Rightarrow> text_edits \<Rightarrow> bool" where
  "edits_ok n pos [] \<longleftrightarrow> pos \<le> n"
| "edits_ok n pos (((a, b), t) # es) \<longleftrightarrow> pos \<le> a \<and> a \<le> b \<and> edits_ok n b es"

lemma edits_ok_le: "edits_ok n pos es \<Longrightarrow> pos \<le> n"
  by (induction n pos es rule: edits_ok.induct) auto

definition next_start :: "nat \<Rightarrow> text_edits \<Rightarrow> nat" where
  "next_start n es = (case es of [] \<Rightarrow> n | ((a, b), t) # _ \<Rightarrow> a)"

lemma splice_keep:
  assumes "pos + j \<le> next_start (length T) es"
  shows "splice pos es T = take j (drop pos T) @ splice (pos + j) es T"
proof (cases es)
  case Nil
  then show ?thesis by (simp add: add.commute flip: drop_drop)
next
  case (Cons e es')
  obtain a b t where e: "e = ((a, b), t)" by (cases e) auto
  then obtain m where a: "a = pos + j + m" using assms Cons le_Suc_ex by (auto simp: next_start_def)
  have "take (j + m) (drop pos T) = take j (drop pos T) @ take m (drop (pos + j) T)"
    by (simp add: take_add add.commute)
  then show ?thesis by (simp add: Cons e a)
qed

section \<open>The cursor of a local edit\<close>

text \<open>Local edits cut visible fragments only.\<close>

definition at_vis ::
    "(lamport \<Rightarrow> string) \<Rightarrow> snapshot \<Rightarrow> lamport \<Rightarrow> fragment list \<Rightarrow> fragment list \<Rightarrow> nat \<Rightarrow> edit_state \<Rightarrow> bool" where
  "at_vis ins s ts B R k st \<longleftrightarrow> at_frag ins s ts B R k st \<and> (0 < k \<longrightarrow> fr_visible (hd R))"

lemmas at_vis_defs = at_vis_def at_frag_def

lemma at_vis_update [simp]:
  "at_vis ins s ts B R k (st\<lparr>es_fragment_start := n\<rparr>) = at_vis ins s ts B R k st"
  "at_vis ins s ts B R k (st\<lparr>es_patch := p\<rparr>) = at_vis ins s ts B R k st"
  "at_vis ins s ts B R k (st\<lparr>es_slices := sl\<rparr>) = at_vis ins s ts B R k st"
  "at_vis ins s ts B R k (st\<lparr>es_ranges := r\<rparr>) = at_vis ins s ts B R k st"
  "at_vis ins s ts B R k (st\<lparr>es_new_text := t\<rparr>) = at_vis ins s ts B R k st"
  by (simp_all add: at_vis_def)

lemma at_vis_frag: "at_vis ins s ts B R k st \<Longrightarrow> at_frag ins s ts B R k st"
  by (simp add: at_vis_def)

lemmas at_vis_fits = at_frag_fits [OF _ at_vis_frag]

lemma at_vis_piece:
  assumes "edit_env ins s ts" "at_vis ins s ts B (f # R) k st" "piece_of f k j p" "fr_visible f"
    and "marks ts f p" "max_id (es_new_fragments st) < fr_id p" "last (fr_id p) \<noteq> 0" "fr_id p < fr_id f"
  shows "at_vis ins s ts B (f # R) (k + j) (es_push p True st)"
  using at_frag_piece [OF assms(1) at_vis_frag [OF assms(2)] assms(3,5-8)] assms(4) by (simp add: at_vis_def)

lemma at_vis_last_piece:
  assumes "edit_env ins s ts" "at_vis ins s ts B (f # R) k st" "piece_of f k j p"
    and "marks ts f p" "k + j = fr_len f" "max_id (es_new_fragments st) < fr_id p" "last (fr_id p) \<noteq> 0" "fr_id p \<le> fr_id f"
  shows "at_vis ins s ts (B @ [f]) R 0
    ((es_push p (fr_visible f) st)\<lparr>es_cursor := \<lparr>fc_before = B @ [f], fc_rest = R\<rparr>\<rparr>)"
  using at_frag_last_piece [OF assms(1) at_vis_frag [OF assms(2)] assms(3-)] by (simp add: at_vis_def)

lemma at_vis_next:
  assumes "at_vis ins s ts B (f # R) (fr_len f) st" "0 < fr_len f"
  shows "at_vis ins s ts (B @ [f]) R 0 (st\<lparr>es_cursor := \<lparr>fc_before = B @ [f], fc_rest = R\<rparr>\<rparr>)"
  using at_frag_next [OF at_vis_frag [OF assms(1)] assms(2)] by (simp add: at_vis_def)

lemma at_vis_copy:
  assumes "edit_env ins s ts" "at_vis ins s ts B (X @ R) 0 st"
  shows "at_vis ins s ts (B @ X) R 0
    (st\<lparr>es_cursor := \<lparr>fc_before = B @ X, fc_rest = R\<rparr>, es_ropes := rb_append (es_ropes st) X,
        es_new_fragments := es_new_fragments st @ X\<rparr>)"
  using at_frag_copy [OF assms(1) at_vis_frag [OF assms(2)]] by (simp add: at_vis_def)

lemma at_vis_insert:
  assumes "edit_env ins s ts" "at_vis ins s ts B R k st"
    and "es_insertion_offset st + length t \<le> length (ins ts)" "length (ins ts) < 2 ^ 32"
      "take (length t) (drop (es_insertion_offset st) (ins ts)) = t"
  shows "at_vis ins s ts B R k (es_insert t ts st) \<and>
    es_insertion_offset (es_insert t ts st) = es_insertion_offset st + length t \<and>
    rb_new_visible (es_ropes (es_insert t ts st)) = rb_new_visible (es_ropes st) @ t \<and>
    es_patch (es_insert t ts st) = patch_push (es_patch st)
      (mk_edit (es_fragment_start st) (es_fragment_start st) (visible_len (es_new_fragments st))
        (visible_len (es_new_fragments st) + length t))"
  using at_frag_insert [OF assms(1) at_vis_frag [OF assms(2)] assms(3-)] assms(2) by (simp add: at_vis_def)

section \<open>The moves of the cursor\<close>

lemma at_vis_rope:
  assumes "edit_env ins s ts" "at_vis ins s ts B R k st"
  shows "rb_old_visible (es_ropes st) = sn_visible_text s" "rb_visible_offset (es_ropes st) = visible_len B + k"
    "visible_len (es_new_fragments st) = length (new_visible st)" "length (sn_visible_text s) = visible_len B + visible_len R"
    "fc_start_visible (es_cursor st) = visible_len B"
    "fc_end_visible (es_cursor st) = visible_len B + visible_len (take 1 R)"
    "k \<le> visible_len (take 1 R)" "visible_len (take 1 R) \<le> visible_len R"
proof -
  have c: "es_cursor st = \<lparr>fc_before = B, fc_rest = R\<rparr>" and F: "B @ R = sn_fragments s"
    and b: "built ins s ts (passed B R k) (remaining R k) st"
    and k: "0 < k \<longrightarrow> R \<noteq> [] \<and> fr_visible (hd R) \<and> k \<le> fr_len (hd R)"
    using assms(2) by (simp_all add: at_vis_defs)
  have "vcells (passed B R k @ remaining R k) = vcells (B @ R)"
    using k cut_cells(2) [of k "hd R" B "tl R"] by (cases R) (auto simp: passed_def remaining_def)
  then show "rb_old_visible (es_ropes st) = sn_visible_text s"
    using b assms(1) F by (simp add: built_def edit_env_def snapshot_ok_def)
  show "rb_visible_offset (es_ropes st) = visible_len B + k"
    using b k by (auto simp: built_def passed_def)
  show "visible_len (es_new_fragments st) = length (new_visible st)" using b by (simp add: built_def)
  show "length (sn_visible_text s) = visible_len B + visible_len R"
    using assms(1) by (simp add: edit_env_def snapshot_ok_def flip: F)
  show "fc_start_visible (es_cursor st) = visible_len B"
    "fc_end_visible (es_cursor st) = visible_len B + visible_len (take 1 R)"
    by (auto simp: c fc_start_visible_def fc_end_visible_def split: list.splits)
  show "k \<le> visible_len (take 1 R)" "visible_len (take 1 R) \<le> visible_len R"
    using k by (cases R; auto)+
qed

lemma push_visible_text:
  assumes "edit_env ins s ts" "at_vis ins s ts B R k st"
  shows "new_visible (es_push p True st) =
    new_visible st @ (if fr_visible p then take (fr_len p) (drop (visible_len B + k) (sn_visible_text s)) else [])"
    "new_visible (es_push p False st) = new_visible st @
      (if fr_visible p then take (fr_len p) (drop (rb_deleted_offset (es_ropes st)) (rb_old_deleted (es_ropes st))) else [])"
  using at_vis_rope [OF assms] by (simp_all add: es_push_def rb_push_fragment_def rb_push_def)

text \<open>What the steps leave alone.\<close>

definition same_rest :: "edit_state \<Rightarrow> edit_state \<Rightarrow> bool" where
  "same_rest st st' \<longleftrightarrow> es_insertion_offset st' = es_insertion_offset st \<and> es_ranges st' = es_ranges st \<and>
     es_new_text st' = es_new_text st"

lemma same_rest_trans: "same_rest st st' \<Longrightarrow> same_rest st' st'' \<Longrightarrow> same_rest st st''"
  by (simp add: same_rest_def)

lemma small_as_u32: "edit_env ins s ts \<Longrightarrow> at_vis ins s ts B (f # R) k st \<Longrightarrow>
    fr_insertion_offset f + fr_len f < 2 ^ 32 \<and> 0 < fr_len f"
  using at_vis_fits(1) by (fastforce simp: fr_fits_def)

lemma finish_fragment:
  assumes env: "edit_env ins s ts" and at: "at_vis ins s ts B R k st" "es_fragment_start st = visible_len B + k"
    and ti: "text_inv (sn_visible_text s) (visible_len B + k) st"
  shows "\<exists>st' B' R' j. es_finish_fragment st = Some st' \<and> at_vis ins s ts B' R' 0 st' \<and>
    visible_len B' = visible_len B + k + j \<and> text_inv (sn_visible_text s) (visible_len B + k + j) st' \<and>
    new_visible st' = new_visible st @ take j (drop (visible_len B + k) (sn_visible_text s)) \<and> same_rest st st' \<and>
    (visible_len B' = visible_len B + visible_len (take 1 R) \<or> k = 0 \<and> j = 0 \<and> R' = R)"
proof (cases "k = 0")
  case True
  then show ?thesis
    using at ti at_vis_rope [OF env at(1)] by (intro exI [of _ st] exI [of _ B] exI [of _ R] exI [of _ 0])
      (simp add: es_finish_fragment_def same_rest_def)
next
  case False
  then obtain f R' where R: "R = f # R'" and f: "fr_visible f" "k \<le> fr_len f"
    using at(1) by (cases R) (auto simp: at_vis_defs)
  note rope = at_vis_rope [OF env at(1)] and at' = at(1) [unfolded R]
  note small = small_as_u32 [OF env at']
  have item: "fc_item (es_cursor st) = Some f" and cur: "es_cursor st = \<lparr>fc_before = B, fc_rest = f # R'\<rparr>"
    using at' by (simp_all add: at_vis_defs fc_item_def)
  obtain j where j: "fr_len f = k + j" using f(2) le_Suc_ex by blast
  show ?thesis
  proof (cases "j = 0")
    case True
    have "es_finish_fragment st = Some (st\<lparr>es_cursor := \<lparr>fc_before = B @ [f], fc_rest = R'\<rparr>\<rparr>)"
      using False True rope at(2) f j cur by (simp add: es_finish_fragment_def R)
    moreover have "at_vis ins s ts (B @ [f]) R' 0 (st\<lparr>es_cursor := \<lparr>fc_before = B @ [f], fc_rest = R'\<rparr>\<rparr>)"
      using at_vis_next [of ins s ts B f R' st] at' True j small by simp
    ultimately show ?thesis
      using ti True f j
      by (intro exI [of _ "st\<lparr>es_cursor := \<lparr>fc_before = B @ [f], fc_rest = R'\<rparr>\<rparr>"] exI [of _ "B @ [f]"] exI [of _ R'] exI [of _ 0])
        (auto simp: text_inv_def same_rest_def R)
  next
    case j0: False
    define p where "p = f\<lparr>fr_len := j, fr_insertion_offset := fr_insertion_offset f + k\<rparr>"
    let ?st = "(es_push p True st)\<lparr>es_cursor := \<lparr>fc_before = B @ [f], fc_rest = R'\<rparr>\<rparr>"
    have "es_finish_fragment st = Some ?st"
      using False j0 rope at(2) f j small item cur by (simp add: es_finish_fragment_def R p_def Let_def)
    moreover have "at_vis ins s ts (B @ [f]) R' 0 ((es_push p (fr_visible f) st)\<lparr>es_cursor := \<lparr>fc_before = B @ [f], fc_rest = R'\<rparr>\<rparr>)"
      using j j0 f at' at_vis_fits(1) [OF env at']
      by (intro at_vis_last_piece [OF env at', of j]) (auto simp: p_def piece_of_def marks_def at_vis_defs fr_fits_def)
    then have "at_vis ins s ts (B @ [f]) R' 0 ?st" using f by simp
    moreover have nv: "new_visible ?st = new_visible st @ take j (drop (visible_len B + k) (sn_visible_text s))"
      using push_visible_text(1) [OF env at(1), of p] f by (simp add: p_def)
    moreover have "text_inv (sn_visible_text s) (visible_len B + k + j) ?st"
      using ti rope(4) f j by (intro text_keep [OF ti _ _ nv]) (simp_all add: R)
    moreover have "visible_len (B @ [f]) = visible_len B + k + j" "same_rest st ?st"
      "visible_len (B @ [f]) = visible_len B + visible_len (take 1 R)"
      using f j by (simp_all add: same_rest_def R)
    ultimately show ?thesis by blast
  qed
qed

lemma split_visible:
  assumes "split_visible target pos fs = (X, Y)" "pos \<le> target"
  shows "fs = X @ Y" "pos + visible_len X \<le> target" "Y \<noteq> [] \<Longrightarrow> target < pos + visible_len X + visible_len (take 1 Y)"
  using assms by (induction target pos fs arbitrary: X Y rule: split_visible.induct)
    (auto simp: Let_def simp flip: add.assoc split: if_splits prod.splits)

lemma jump:
  assumes env: "edit_env ins s ts" and at: "at_vis ins s ts B R k st" "es_fragment_start st = visible_len B + k"
    and ti: "text_inv (sn_visible_text s) (visible_len B + k) st"
    and a: "visible_len B + k \<le> a" "a \<le> length (sn_visible_text s)"
  shows "\<exists>st' B' R' k' j. es_jump a st = Some st' \<and> at_vis ins s ts B' R' k' st' \<and>
    es_fragment_start st' = visible_len B' + k' \<and> visible_len B' + k' = visible_len B + k + j \<and>
    text_inv (sn_visible_text s) (visible_len B' + k') st' \<and>
    new_visible st' = new_visible st @ take j (drop (visible_len B + k) (sn_visible_text s)) \<and> same_rest st st' \<and>
    visible_len B' + k' \<le> a \<and> a \<le> visible_len B' + visible_len (take 1 R')"
proof (cases "visible_len B + visible_len (take 1 R) < a")
  case False
  then show ?thesis
    using at ti a at_vis_rope [OF env at(1)]
    by (intro exI [of _ st] exI [of _ B] exI [of _ R] exI [of _ k] exI [of _ 0]) (simp add: es_jump_def same_rest_def)
next
  case True
  let ?T = "sn_visible_text s"
  obtain st1 B1 R1 j1 where fin: "es_finish_fragment st = Some st1" "at_vis ins s ts B1 R1 0 st1"
    and B1: "visible_len B1 = visible_len B + k + j1"
    and ti1: "text_inv ?T (visible_len B + k + j1) st1" "new_visible st1 = new_visible st @ take j1 (drop (visible_len B + k) ?T)"
    and rest1: "same_rest st st1"
    and le: "visible_len B1 = visible_len B + visible_len (take 1 R) \<or> k = 0 \<and> j1 = 0 \<and> R1 = R"
    using finish_fragment [OF env at ti] by blast
  have B1a: "visible_len B1 \<le> a" using le True a B1 by auto
  obtain X Y where sp: "split_visible a (visible_len B1) R1 = (X, Y)" by fastforce
  note X = split_visible [OF sp B1a]
  have c1: "es_cursor st1 = \<lparr>fc_before = B1, fc_rest = R1\<rparr>" using fin(2) by (simp add: at_vis_defs)
  let ?st = "st1\<lparr>es_cursor := \<lparr>fc_before = B1 @ X, fc_rest = Y\<rparr>, es_ropes := rb_append (es_ropes st1) X,
        es_new_fragments := es_new_fragments st1 @ X, es_fragment_start := visible_len (B1 @ X)\<rparr>"
  have "es_jump a st = Some ?st"
    using True at_vis_rope [OF env at(1)] fin(1) c1 sp
    by (simp add: es_jump_def fc_slice_visible_def fc_start_visible_def)
  moreover have at2: "at_vis ins s ts (B1 @ X) Y 0 ?st"
    using at_vis_copy [OF env fin(2) [unfolded X(1)]] by simp
  moreover have nv: "new_visible ?st = new_visible st1 @ take (visible_len X) (drop (visible_len B1) ?T)"
    using at_vis_rope [OF env fin(2)] by simp
  moreover have "text_inv ?T (visible_len B1 + visible_len X) ?st"
    using text_keep [OF ti1(1) [folded B1] _ _ nv] X(2) a by simp
  moreover have "new_visible ?st = new_visible st @ take (j1 + visible_len X) (drop (visible_len B + k) ?T)"
    unfolding nv ti1(2) B1 by (simp add: take_add add.commute)
  moreover have "a \<le> visible_len (B1 @ X) + visible_len (take 1 Y)"
    using X(3) at_vis_rope(4) [OF env at2] a by (cases "Y = []") auto
  moreover have "same_rest st ?st" using rest1 by (simp add: same_rest_def)
  ultimately show ?thesis using X(2) B1
    by (intro exI [of _ ?st] exI [of _ "B1 @ X"] exI [of _ Y] exI [of _ 0] exI [of _ "j1 + visible_len X"]) simp
qed

lemma prefix_step:
  assumes env: "edit_env ins s ts" and at: "at_vis ins s ts B R k st" "es_fragment_start st = visible_len B + k"
    and ti: "text_inv (sn_visible_text s) (visible_len B + k) st"
    and a: "visible_len B + k + j \<le> visible_len B + visible_len (take 1 R)"
  shows "\<exists>st'. es_prefix (visible_len B + k + j) st = Some st' \<and> at_vis ins s ts B R (k + j) st' \<and>
    es_fragment_start st' = visible_len B + k + j \<and> text_inv (sn_visible_text s) (visible_len B + k + j) st' \<and>
    new_visible st' = new_visible st @ take j (drop (visible_len B + k) (sn_visible_text s)) \<and> same_rest st st'"
proof (cases "j = 0")
  case True
  then show ?thesis using at ti by (simp add: es_prefix_def same_rest_def)
next
  case False
  note rope = at_vis_rope [OF env at(1)]
  obtain f R' where R: "R = f # R'" and f: "fr_visible f" "k + j \<le> fr_len f"
    using a False by (cases R) (auto split: if_splits)
  note at' = at(1) [unfolded R] and small = small_as_u32 [OF env at(1) [unfolded R]]
  have item: "fc_item (es_cursor st) = Some f" and mx: "max_id (es_new_fragments st) < fr_id f"
    using at' by (simp_all add: at_vis_defs fc_item_def)
  define p where "p = f\<lparr>fr_len := j, fr_insertion_offset := fr_insertion_offset f + k,
    fr_id := locator_between (max_id (es_new_fragments st)) (fr_id f)\<rparr>"
  let ?st = "(es_push p True st)\<lparr>es_fragment_start := visible_len B + k + j\<rparr>"
  have "es_prefix (visible_len B + k + j) st = Some ?st"
    using False rope at(2) f small item by (simp add: es_prefix_def p_def Let_def)
  moreover have "at_vis ins s ts (B) R (k + j) ?st"
    using False f mx at_vis_fits(1) [OF env at'] unfolding R
    by (simp, intro at_vis_piece [OF env at'])
      (auto simp: p_def piece_of_def marks_def fr_fits_def locator_between_greater locator_between_less locator_between_last)
  moreover have nv: "new_visible ?st = new_visible st @ take j (drop (visible_len B + k) (sn_visible_text s))"
    using push_visible_text(1) [OF env at(1), of p] f by (simp add: p_def)
  moreover have "text_inv (sn_visible_text s) (visible_len B + k + j) ?st"
    using rope(4,8) a by (intro text_keep [OF ti _ _ nv]) simp_all
  ultimately show ?thesis by (simp add: same_rest_def)
qed

section \<open>Deleting\<close>

lemma delete_done: "range_end \<le> es_fragment_start st \<Longrightarrow> es_delete range_end ts st = Some st"
  by (subst es_delete.simps) simp

lemma delete_more:
  "es_fragment_start st < range_end \<Longrightarrow> fc_item (es_cursor st) = Some f \<Longrightarrow>
     es_delete range_end ts st = es_delete range_end ts (es_delete_step range_end ts f st)"
  by (subst es_delete.simps) simp

text \<open>A turn of the loop: the cursor goes on, or the end of the range lies in the current fragment.\<close>

lemma delete_step:
  assumes env: "edit_env ins s ts" and at: "at_vis ins s ts B (f # R) k st" "es_fragment_start st = visible_len B + k"
    and ti: "text_inv (sn_visible_text s) (visible_len B + k) st" and b: "visible_len B + k < b"
  defines "st' \<equiv> es_delete_step b ts f st"
  shows "same_rest st st' \<and> new_visible st' = new_visible st \<and>
    (if visible_len B + visible_len [f] \<le> b
     then at_vis ins s ts (B @ [f]) R 0 st' \<and> es_fragment_start st' = visible_len (B @ [f]) \<and>
       text_inv (sn_visible_text s) (visible_len (B @ [f])) st'
     else at_vis ins s ts B (f # R) (b - visible_len B) st' \<and> es_fragment_start st' = b \<and>
       text_inv (sn_visible_text s) b st')"
proof -
  note rope = at_vis_rope [OF env at(1)] and small = small_as_u32 [OF env at(1)] and fits = at_vis_fits(1) [OF env at(1)]
  have cur: "es_cursor st = \<lparr>fc_before = B, fc_rest = f # R\<rparr>" and mx: "max_id (es_new_fragments st) < fr_id f"
    and kf: "0 < k \<longrightarrow> fr_visible f \<and> k \<le> fr_len f"
    using at(1) by (simp_all add: at_vis_defs)
  consider (hidden) "\<not> fr_visible f" "k = 0" | (used) "fr_visible f" "k = fr_len f"
    | (piece) j where "fr_visible f" "k + j = min (fr_len f) (b - visible_len B)" "0 < j"
  proof -
    assume "\<lbrakk>\<not> fr_visible f; k = 0\<rbrakk> \<Longrightarrow> thesis" "\<lbrakk>fr_visible f; k = fr_len f\<rbrakk> \<Longrightarrow> thesis"
      "\<And>j. \<lbrakk>fr_visible f; k + j = min (fr_len f) (b - visible_len B); 0 < j\<rbrakk> \<Longrightarrow> thesis"
    moreover from this(3) [of "min (fr_len f) (b - visible_len B) - k"] kf b
    have "fr_visible f \<Longrightarrow> k < fr_len f \<Longrightarrow> thesis" by force
    ultimately show thesis using kf rope(7) by (cases "fr_visible f") force+
  qed
  then show ?thesis
  proof cases
    case hidden
    have st': "st' = ((es_push f (fr_visible f) st)\<lparr>es_cursor := \<lparr>fc_before = B @ [f], fc_rest = R\<rparr>\<rparr>)\<lparr>es_fragment_start := visible_len B\<rparr>"
      using hidden small rope at(2) b cur by (simp add: st'_def es_delete_step_def Let_def es_push_def)
    have "at_vis ins s ts (B @ [f]) R 0 st'"
      unfolding st' at_vis_update using hidden mx fits
      by (intro at_vis_last_piece [OF env at(1), of "fr_len f"]) (auto simp: piece_of_def marks_def fr_fits_def)
    moreover have "new_visible st' = new_visible st"
      using push_visible_text(2) [OF env at(1), of f] hidden by (simp add: st')
    ultimately show ?thesis using ti hidden b by (simp add: same_rest_def text_inv_def st')
  next
    case used
    have st': "st' = st\<lparr>es_cursor := \<lparr>fc_before = B @ [f], fc_rest = R\<rparr>\<rparr>"
      using used rope at(2) b cur by (simp add: st'_def es_delete_step_def Let_def)
    have "at_vis ins s ts (B @ [f]) R 0 st'"
      using at_vis_next [of ins s ts B f R st] at(1) used small by (simp add: st')
    then show ?thesis using ti used b at(2) by (simp add: same_rest_def text_inv_def st')
  next
    case piece
    define p where "p = f\<lparr>fr_len := j, fr_insertion_offset := fr_insertion_offset f + k,
      fr_id := locator_between (max_id (es_new_fragments st)) (fr_id f), fr_deletions := fr_deletions f @ [ts], fr_visible := False\<rparr>"
    let ?n = "length (new_visible st)"
    let ?st1 = "st\<lparr>es_patch := patch_push (es_patch st) (mk_edit (visible_len B + k) (visible_len B + k + j) ?n ?n),
        es_slices := es_slices st @ [slice_from_fragment ts p]\<rparr>"
    let ?st2 = "(es_push p True ?st1)\<lparr>es_fragment_start := visible_len B + k + j\<rparr>"
    have kj: "k + j \<le> fr_len f" "min b (visible_len B + fr_len f) = visible_len B + k + j"
      using piece b by (auto simp: min_def split: if_splits)
    have u32: "as_u32 j = j" "as_u32 k = k" using kj(1) small by simp_all
    have st': "st' = (if visible_len B + fr_len f \<le> b then ?st2\<lparr>es_cursor := \<lparr>fc_before = B @ [f], fc_rest = R\<rparr>\<rparr> else ?st2)"
      using piece kj(2) u32 small rope at(2) b cur
      by (simp add: st'_def es_delete_step_def Let_def p_def es_push_def rb_push_fragment_def)
    have at1: "at_vis ins s ts B (f # R) k ?st1" using at(1) by simp
    have at2: "at_vis ins s ts B (f # R) (k + j) ?st2"
      unfolding at_vis_update using piece kj mx fits
      by (intro at_vis_piece [OF env at1])
        (auto simp: p_def piece_of_def marks_def fr_fits_def locator_between_greater locator_between_less locator_between_last)
    have nv: "new_visible ?st2 = new_visible st @ []"
      using push_visible_text(1) [OF env at1, of p] by (simp add: p_def)
    have ti2: "text_inv (sn_visible_text s) (visible_len B + k + j) ?st2"
      using rope(4) kj piece by (intro text_replace [OF ti _ _ refl nv]) auto
    show ?thesis
    proof (cases "visible_len B + fr_len f \<le> b")
      case True
      then have len: "fr_len f = k + j" using kj(2) by simp
      have "at_vis ins s ts (B @ [f]) R 0 (?st2\<lparr>es_cursor := \<lparr>fc_before = B @ [f], fc_rest = R\<rparr>\<rparr>)"
        using at2 small len at_vis_next [of ins s ts B f R ?st2] by simp
      moreover have "visible_len (B @ [f]) = visible_len B + k + j" using piece(1) len by simp
      ultimately show ?thesis using True ti2 nv piece(1)
        by (simp add: st' same_rest_def text_inv_def del: len_simps(3))
    next
      case False
      then have "b = visible_len B + (k + j)" using kj(2) by simp
      then have "b = visible_len B + k + j" "b - visible_len B = k + j" by simp_all
      then show ?thesis using False ti2 nv piece(1) at2 by (simp add: st' same_rest_def text_inv_def)
    qed
  qed
qed

lemma delete_loop:
  assumes env: "edit_env ins s ts"
  shows "at_vis ins s ts B R k st \<Longrightarrow> es_fragment_start st = visible_len B + k \<Longrightarrow>
    text_inv (sn_visible_text s) (visible_len B + k) st \<Longrightarrow> visible_len B + k \<le> b \<Longrightarrow> b \<le> length (sn_visible_text s) \<Longrightarrow>
    \<exists>st' B' R' k'. es_delete b ts st = Some st' \<and> at_vis ins s ts B' R' k' st' \<and> es_fragment_start st' = b \<and>
      visible_len B' + k' = b \<and> text_inv (sn_visible_text s) b st' \<and> new_visible st' = new_visible st \<and> same_rest st st'"
proof (induction R arbitrary: B k st)
  case Nil
  then have "b = visible_len B + k" using at_vis_rope(4,7) [OF env Nil.prems(1)] by simp
  then show ?case using Nil.prems by (intro exI [of _ st] exI [of _ B] exI [of _ "[]"] exI [of _ k])
      (simp add: delete_done same_rest_def)
next
  case (Cons f R)
  show ?case
  proof (cases "visible_len B + k = b")
    case True
    then show ?thesis using Cons.prems by (intro exI [of _ st] exI [of _ B] exI [of _ "f # R"] exI [of _ k])
        (simp add: delete_done same_rest_def)
  next
    case False
    let ?st = "es_delete_step b ts f st"
    have lt: "visible_len B + k < b" using False Cons.prems(4) by simp
    have "fc_item (es_cursor st) = Some f" using Cons.prems(1) by (simp add: at_vis_defs fc_item_def)
    then have del: "es_delete b ts st = es_delete b ts ?st" using lt Cons.prems(2) by (intro delete_more) simp_all
    note step = delete_step [OF env Cons.prems(1-3) lt]
    show ?thesis
    proof (cases "visible_len B + visible_len [f] \<le> b")
      case True
      then have at: "at_vis ins s ts (B @ [f]) R 0 ?st" "es_fragment_start ?st = visible_len (B @ [f]) + 0"
          "text_inv (sn_visible_text s) (visible_len (B @ [f]) + 0) ?st"
        and same: "new_visible ?st = new_visible st" "same_rest st ?st"
        using step by simp_all
      have "visible_len (B @ [f]) + 0 \<le> b" using True by simp
      from Cons.IH [OF at this Cons.prems(5)] show ?thesis
        unfolding del using same same_rest_trans by metis
    next
      case False
      then have at: "at_vis ins s ts B (f # R) (b - visible_len B) ?st" "es_fragment_start ?st = b"
          "text_inv (sn_visible_text s) b ?st"
        and same: "new_visible ?st = new_visible st" "same_rest st ?st"
        using step by simp_all
      show ?thesis
        unfolding del using at same lt by (intro exI [of _ ?st] exI [of _ B] exI [of _ "f # R"] exI [of _ "b - visible_len B"])
          (simp add: delete_done)
    qed
  qed
qed

section \<open>A whole edit\<close>

text \<open>An offset into all bytes, visible or deleted, with as many visible bytes before it.\<close>

definition flags :: "fragment list \<Rightarrow> bool list" where
  "flags fs = concat (map (\<lambda>f. replicate (fr_len f) (fr_visible f)) fs)"

definition full_offset :: "fragment list \<Rightarrow> nat \<Rightarrow> nat \<Rightarrow> bool" where
  "full_offset fs x a \<longleftrightarrow> x \<le> length (flags fs) \<and> length (filter (\<lambda>v. v) (take x (flags fs))) = a"

lemma flags_simps [simp]:
  "flags [] = []" "flags (f # fs) = replicate (fr_len f) (fr_visible f) @ flags fs" "flags (fs @ gs) = flags fs @ flags gs"
  by (simp_all add: flags_def)

lemma flags_lengths: "length (flags fs) = visible_len fs + deleted_len fs" "length (filter (\<lambda>v. v) (flags fs)) = visible_len fs"
  by (induction fs) simp_all

lemma full_offset_at:
  assumes "k \<le> visible_len (take 1 R)"
  shows "full_offset (B @ R) (visible_len B + k + deleted_len B) (visible_len B + k)"
proof -
  have eq: "visible_len B + k + deleted_len B = length (flags B) + k" by (simp add: flags_lengths)
  have "k \<le> length (flags R) \<and> filter (\<lambda>v. v) (take k (flags R)) = replicate k True"
    using assms by (cases R) (auto split: if_splits)
  then show ?thesis unfolding full_offset_def eq by (simp add: flags_lengths)
qed

definition range_of_edit :: "fragment list \<Rightarrow> nat \<times> nat \<Rightarrow> (nat \<times> nat) \<times> string \<Rightarrow> bool" where
  "range_of_edit fs r e \<longleftrightarrow> (case (r, e) of ((x, y), ((a, b), t)) \<Rightarrow>
     full_offset fs x a \<and> full_offset fs y b \<and> (a = b \<longrightarrow> x = y))"

text \<open>The state between two edits.\<close>

definition at_edit ::
    "(lamport \<Rightarrow> string) \<Rightarrow> snapshot \<Rightarrow> lamport \<Rightarrow> nat \<Rightarrow> edit_state \<Rightarrow> bool" where
  "at_edit ins s ts pos st \<longleftrightarrow> (\<exists>B R k. at_vis ins s ts B R k st \<and> visible_len B + k = pos) \<and>
     es_fragment_start st = pos \<and> text_inv (sn_visible_text s) pos st"

lemma edit_step:
  assumes env: "edit_env ins s ts" and at: "at_edit ins s ts pos st"
    and e: "pos \<le> a" "a \<le> b" "b \<le> length (sn_visible_text s)"
    and t: "es_insertion_offset st + length (normalize_text t) \<le> length (ins ts)" "length (ins ts) < 2 ^ 32"
      "take (length (normalize_text t)) (drop (es_insertion_offset st) (ins ts)) = normalize_text t"
  shows "\<exists>st' r. es_edit ts ((a, b), t) st = Some st' \<and> at_edit ins s ts b st' \<and>
    new_visible st' = new_visible st @ take (a - pos) (drop pos (sn_visible_text s)) @ normalize_text t \<and>
    es_insertion_offset st' = es_insertion_offset st + length (normalize_text t) \<and>
    es_new_text st' = es_new_text st @ [normalize_text t] \<and>
    es_ranges st' = es_ranges st @ [r] \<and> range_of_edit (sn_fragments s) r ((a, b), t)"
proof -
  let ?T = "sn_visible_text s" and ?t = "normalize_text t"
  obtain B R k where at0: "at_vis ins s ts B R k st" "es_fragment_start st = visible_len B + k"
      "text_inv ?T (visible_len B + k) st" and pos: "visible_len B + k = pos"
    using at by (auto simp: at_edit_def)
  obtain st1 B1 R1 k1 j1 where jump1: "es_jump a st = Some st1"
    and at1: "at_vis ins s ts B1 R1 k1 st1" "es_fragment_start st1 = visible_len B1 + k1" "text_inv ?T (visible_len B1 + k1) st1"
    and p1: "visible_len B1 + k1 = pos + j1" "visible_len B1 + k1 \<le> a" "a \<le> visible_len B1 + visible_len (take 1 R1)"
    and nv1: "new_visible st1 = new_visible st @ take j1 (drop pos ?T)" and same1: "same_rest st st1"
    using jump [OF env at0, of a] e pos by auto
  obtain j where j: "a = visible_len B1 + k1 + j" using p1(2) le_Suc_ex by blast
  have "visible_len B1 + k1 + j \<le> visible_len B1 + visible_len (take 1 R1)" using p1(3) j by simp
  from prefix_step [OF env at1 this] obtain st2 where prefix2: "es_prefix a st1 = Some st2"
    and at2: "at_vis ins s ts B1 R1 (k1 + j) st2" "es_fragment_start st2 = a" "text_inv ?T a st2"
    and nv2: "new_visible st2 = new_visible st1 @ take j (drop (visible_len B1 + k1) ?T)" and same2: "same_rest st1 st2"
    unfolding j by blast
  have off: "es_insertion_offset st2 = es_insertion_offset st" "es_ranges st2 = es_ranges st" "es_new_text st2 = es_new_text st"
    using same1 same2 by (simp_all add: same_rest_def)
  let ?st3 = "es_insert ?t ts st2"
  have ins3: "at_vis ins s ts B1 R1 (k1 + j) ?st3" "es_insertion_offset ?st3 = es_insertion_offset st + length ?t"
    "new_visible ?st3 = new_visible st2 @ ?t"
    "es_patch ?st3 = patch_push (es_patch st2) (mk_edit a a (visible_len (es_new_fragments st2)) (visible_len (es_new_fragments st2) + length ?t))"
    using at_vis_insert [OF env at2(1), of ?t] t off(1) at2(2) by simp_all
  have ti3: "text_inv ?T (a + 0) ?st3"
    using e ins3(4) at_vis_rope(3) [OF env at2(1)] by (intro text_replace [OF at2(3) _ _ _ ins3(3)]) simp_all
  have pos3: "visible_len B1 + (k1 + j) = a" using j by simp
  obtain st4 B4 R4 k4 where del4: "es_delete b ts ?st3 = Some st4" and at4: "at_vis ins s ts B4 R4 k4 st4"
      "es_fragment_start st4 = b" "visible_len B4 + k4 = b" "text_inv ?T b st4" "new_visible st4 = new_visible ?st3" "same_rest ?st3 st4"
    using delete_loop [OF env ins3(1) _ _ _ e(3)] ti3 pos3 at2(2) e(2) by auto
  define r where "r = (a + fc_start_deleted (es_cursor st1), b + fc_start_deleted (es_cursor st4))"
  have "es_edit ts ((a, b), t) st = Some (st4\<lparr>es_ranges := es_ranges st4 @ [r], es_new_text := es_new_text st4 @ [?t]\<rparr>)"
    using jump1 prefix2 del4 by (simp add: es_edit_def Let_def r_def)
  moreover have "new_visible st4 = new_visible st @ take (a - pos) (drop pos ?T) @ ?t"
    using at4(5) ins3(3) nv1 nv2 j p1(1) by (simp add: take_add add.commute)
  moreover have "range_of_edit (sn_fragments s) r ((a, b), t)"
  proof -
    have F: "sn_fragments s = B1 @ R1" "sn_fragments s = B4 @ R4"
      and c: "fc_start_deleted (es_cursor st1) = deleted_len B1" "fc_start_deleted (es_cursor st4) = deleted_len B4"
      and c3: "es_cursor ?st3 = es_cursor st1"
      using at1 at4 ins3(1) by (simp_all add: at_vis_defs fc_start_deleted_def)
    have "full_offset (B1 @ R1) (a + deleted_len B1) a"
      using full_offset_at [OF at_vis_rope(7) [OF env at2(1)], of B1] pos3 by simp
    moreover have "full_offset (B4 @ R4) (b + deleted_len B4) b"
      using full_offset_at [OF at_vis_rope(7) [OF env at4(1)], of B4] at4(3) by simp
    moreover have "es_cursor st4 = es_cursor st1" if "a = b"
      using del4 that at2(2) delete_done [of b ?st3 ts] c3 by simp
    ultimately show ?thesis by (simp add: range_of_edit_def r_def c F(1)) (metis F c)
  qed
  moreover have "at_edit ins s ts b (st4\<lparr>es_ranges := es_ranges st4 @ [r], es_new_text := es_new_text st4 @ [?t]\<rparr>)"
    using at4 by (auto simp: at_edit_def text_inv_def)
  ultimately show ?thesis using at4(6) ins3(2) off by (cases r) (simp add: same_rest_def)
qed

abbreviation edit_texts :: "text_edits \<Rightarrow> string list" where
  "edit_texts es \<equiv> map (\<lambda>e. normalize_text (snd e)) es"

lemma edits_steps:
  assumes env: "edit_env ins s ts" and len: "length (ins ts) < 2 ^ 32"
  shows "at_edit ins s ts pos st \<Longrightarrow> edits_ok (length (sn_visible_text s)) pos es \<Longrightarrow>
    drop (es_insertion_offset st) (ins ts) = concat (edit_texts es) \<Longrightarrow> es_insertion_offset st \<le> length (ins ts) \<Longrightarrow>
    \<exists>st' pos' rs. es_edits ts es st = Some st' \<and> at_edit ins s ts pos' st' \<and>
      new_visible st' @ drop pos' (sn_visible_text s) = new_visible st @ splice pos es (sn_visible_text s) \<and>
      es_insertion_offset st' = length (ins ts) \<and> es_new_text st' = es_new_text st @ edit_texts es \<and>
      es_ranges st' = es_ranges st @ rs \<and> list_all2 (range_of_edit (sn_fragments s)) rs es"
proof (induction es arbitrary: pos st)
  case Nil
  then show ?case by (intro exI [of _ st] exI [of _ pos] exI [of _ "[]"]) (simp add: le_antisym)
next
  case (Cons e es)
  let ?T = "sn_visible_text s" and ?o = "es_insertion_offset st"
  obtain a b t where e: "e = ((a, b), t)" by (cases e) auto
  let ?t = "normalize_text t"
  have d: "drop ?o (ins ts) = ?t @ concat (edit_texts es)" using Cons.prems(3) by (simp add: e)
  have ok: "pos \<le> a" "a \<le> b" "edits_ok (length ?T) b es" using Cons.prems(2) by (simp_all add: e)
  have le: "?o + length ?t \<le> length (ins ts)"
    using arg_cong [OF d, of length] Cons.prems(4) by simp
  obtain st1 r where st1: "es_edit ts ((a, b), t) st = Some st1" "at_edit ins s ts b st1"
    and nv1: "new_visible st1 = new_visible st @ take (a - pos) (drop pos ?T) @ ?t"
    and o1: "es_insertion_offset st1 = ?o + length ?t" and t1: "es_new_text st1 = es_new_text st @ [?t]"
    and r1: "es_ranges st1 = es_ranges st @ [r]" "range_of_edit (sn_fragments s) r ((a, b), t)"
    using edit_step [OF env Cons.prems(1) ok(1,2) edits_ok_le [OF ok(3)] le len] d by auto
  have "drop (es_insertion_offset st1) (ins ts) = drop (length ?t) (drop ?o (ins ts))"
    by (simp add: o1 add.commute)
  then have "drop (es_insertion_offset st1) (ins ts) = concat (edit_texts es)" unfolding d by simp
  from Cons.IH [OF st1(2) ok(3) this] obtain st' pos' rs where
    IH: "es_edits ts es st1 = Some st'" "at_edit ins s ts pos' st'"
      "new_visible st' @ drop pos' ?T = new_visible st1 @ splice b es ?T"
      "es_insertion_offset st' = length (ins ts)" "es_new_text st' = es_new_text st1 @ edit_texts es"
      "es_ranges st' = es_ranges st1 @ rs" "list_all2 (range_of_edit (sn_fragments s)) rs es"
    using le o1 by auto
  show ?case
    using IH st1(1) nv1 t1 r1
    by (intro exI [of _ st'] exI [of _ pos'] exI [of _ "r # rs"]) (simp add: e)
qed

text \<open>Before the loop.\<close>

lemma start_edit:
  assumes env: "edit_env ins s ts" and ok: "edits_ok (length (sn_visible_text s)) 0 (((a, b), t) # es)"
  shows "\<exists>pos. at_edit ins s ts pos (es_start s a) \<and> pos \<le> a \<and>
    new_visible (es_start s a) = take pos (sn_visible_text s) \<and> es_insertion_offset (es_start s a) = 0 \<and>
    es_new_text (es_start s a) = [] \<and> es_ranges (es_start s a) = []"
proof -
  let ?F = "sn_fragments s"
  obtain X Y where sp: "split_visible a 0 ?F = (X, Y)" by fastforce
  note X = split_visible [OF sp]
  define st where "st = \<lparr>es_cursor = \<lparr>fc_before = [], fc_rest = ?F\<rparr>, es_new_fragments = [],
    es_ropes = rb_new (sn_visible_text s) (sn_deleted_text s), es_fragment_start = visible_len X, es_patch = [],
    es_new_insertions = [], es_insertion_offset = 0, es_slices = [], es_ranges = [], es_new_text = []\<rparr>"
  have F: "?F = X @ Y" using X(1) by simp
  have "at_vis ins s ts [] (X @ Y) 0 st"
    using env snapshot_index [of ins s] unfolding F [symmetric]
    by (auto simp: at_vis_defs built_def passed_def remaining_def st_def rb_new_def edit_env_def snapshot_ok_def fr_fits_def)
  from at_vis_copy [OF env this] have at: "at_vis ins s ts X Y 0 (es_start s a)"
    by (simp add: es_start_def fc_slice_visible_def fc_start_visible_def sp st_def)
  have st: "es_start s a = \<lparr>es_cursor = \<lparr>fc_before = X, fc_rest = Y\<rparr>, es_new_fragments = X,
    es_ropes = rb_append (rb_new (sn_visible_text s) (sn_deleted_text s)) X, es_fragment_start = visible_len X,
    es_patch = [], es_new_insertions = [], es_insertion_offset = 0, es_slices = [], es_ranges = [], es_new_text = []\<rparr>"
    by (simp add: es_start_def fc_slice_visible_def fc_start_visible_def sp)
  have "new_visible (es_start s a) = take (visible_len X) (sn_visible_text s)" by (simp add: st rb_new_def)
  moreover have "visible_len X \<le> length (sn_visible_text s)" using at_vis_rope(4) [OF env at] by simp
  ultimately have "at_edit ins s ts (visible_len X) (es_start s a)"
    unfolding at_edit_def text_inv_def using at
    by (intro conjI exI [of _ X] exI [of _ Y] exI [of _ 0]) (simp_all add: st patch_new_ok_def)
  then show ?thesis using X(2) by (intro exI [of _ "visible_len X"]) (simp add: st rb_new_def)
qed

text \<open>After the loop.\<close>

lemma distinct_parts:
  assumes "distinct (filter P xs)" "distinct (filter (\<lambda>x. \<not> P x) xs)"
  shows "distinct xs"
  using assms by (induction xs) (auto split: if_splits)

text \<open>The keys of the index stay the starts of fragments, and the entries those of the fragments.\<close>

lemma start_kept:
  assumes b: "built ins s ts C [] st" and env: "edit_env ins s ts" and f: "f \<in> set (sn_fragments s)"
  shows "\<exists>p \<in> set (es_new_fragments st). fr_key p = fr_key f"
proof -
  have dist: "distinct (cells (sn_fragments s))" and fits: "\<forall>f \<in> set (sn_fragments s). fr_fits ins f"
    and fresh: "fr_timestamp f \<noteq> ts" using env f by (auto simp: edit_env_def snapshot_ok_def)
  have key: "fr_key f \<in> set (fr_cells f)" using f fits by (auto simp: fr_fits_def intro: fr_key_cell)
  then have "fr_key f \<in> set (cells C)" using b fr_cells_subset [OF f] by (auto simp: built_def)
  then have "fr_key f \<in> set (filter (\<lambda>c. fst c \<noteq> ts) (cells (es_new_fragments st)))" using b by (simp add: built_def)
  then obtain p where p: "p \<in> set (es_new_fragments st)" "fr_key f \<in> set (fr_cells p)"
    by (auto simp: cells_def)
  then have "fr_timestamp p \<noteq> ts" "origin (sn_fragments s) ts p"
    using fresh b by (auto simp: fr_cells_def built_def)
  then obtain g where g: "g \<in> set (sn_fragments s)" "within g p" by (auto simp: origin_def)
  then have "fr_key f \<in> set (fr_cells g)" using p(2) by (auto simp: within_def fr_cells_def)
  then have "g = f" using distinct_cells_fragment [OF dist f g(1) key] by simp
  then show ?thesis using g(2) p by (intro bexI [of _ p]) (auto simp: within_def fr_cells_def)
qed

lemma built_index:
  assumes b: "built ins s ts C [] st" and env: "edit_env ins s ts"
  defines "idx \<equiv> insert_insertions (sn_insertions s) (es_new_insertions st)"
  shows "sorted_wrt (<) (map if_key idx)" "set idx = insertion_fragment_new ` set (es_new_fragments st)"
proof -
  have old: "sorted_wrt (<) (map if_key (sn_insertions s))" "set (sn_insertions s) = insertion_fragment_new ` set (sn_fragments s)"
    using env by (simp_all add: edit_env_def snapshot_ok_def)
  show srt: "sorted_wrt (<) (map if_key idx)" unfolding idx_def by (rule sorted_insert_insertions [OF old(1)])
  have look: "ins_map idx (fr_key p) = Some (fr_id p)" if "p \<in> set (es_new_fragments st)" for p
    using b that by (simp add: built_def idx_def)
  have same: "i = insertion_fragment_new p" if "i \<in> set idx" "p \<in> set (es_new_fragments st)" "if_key i = fr_key p" for i p
    using ins_map_item [OF srt that(1)] look [OF that(2)] that(3)
    by (cases i) (simp add: insertion_fragment_new_def if_key_def)
  have "\<exists>p \<in> set (es_new_fragments st). if_key i = fr_key p" if "i \<in> set idx" for i
  proof -
    have "i \<in> insertion_fragment_new ` set (sn_fragments s) \<or> i \<in> insertion_fragment_new ` set (es_new_fragments st)"
      using that set_insert_insertions [of "sn_insertions s" "es_new_insertions st"] b
      by (auto simp: idx_def old(2) built_def indexed_def)
    then obtain f where "if_key i = fr_key f" "f \<in> set (sn_fragments s) \<or> f \<in> set (es_new_fragments st)" by auto
    then show ?thesis using start_kept [OF b env, of f] by metis
  qed
  moreover have "insertion_fragment_new p \<in> set idx" if p: "p \<in> set (es_new_fragments st)" for p
  proof -
    obtain i where "i \<in> set idx" "if_key i = fr_key p" using ins_map_Some [OF look [OF p]] by blast
    then show ?thesis using same p by metis
  qed
  ultimately show "set idx = insertion_fragment_new ` set (es_new_fragments st)" using same by blast
qed

lemma built_done:
  assumes "edit_env ins s ts" "built ins s ts C [] st"
  shows "snapshot_ok ins (s\<lparr>sn_fragments := es_new_fragments st,
      sn_insertions := insert_insertions (sn_insertions s) (es_new_insertions st),
      sn_visible_text := new_visible st, sn_deleted_text := rb_new_deleted (es_ropes st), sn_insertion_slices := sl\<rparr>)"
proof -
  have "distinct (cells (es_new_fragments st))"
  proof (rule distinct_parts [where P = "\<lambda>c. fst c = ts"])
    show "distinct (filter (\<lambda>c. fst c = ts) (cells (es_new_fragments st)))"
      using assms(2) by (simp add: built_def distinct_map inj_on_def)
    show "distinct (filter (\<lambda>c. fst c \<noteq> ts) (cells (es_new_fragments st)))"
      using assms by (simp add: built_def edit_env_def snapshot_ok_def)
  qed
  moreover note built_index [OF assms(2,1)]
  ultimately show ?thesis using assms(2) unfolding snapshot_ok_def built_def by simp
qed

lemma finish_edit:
  assumes env: "edit_env ins s ts" and at: "at_edit ins s ts pos st"
  shows "\<exists>st1 N U V. es_finish_fragment st = Some st1 \<and> es_finish st1 = (N, U, V) \<and>
    U = new_visible st @ drop pos (sn_visible_text s) \<and>
    patch_rel 0 0 (es_patch st1) (sn_visible_text s) U \<and> patch_new_ok (es_patch st1) \<and> same_rest st st1 \<and>
    snapshot_ok ins (s\<lparr>sn_fragments := N, sn_insertions := insert_insertions (sn_insertions s) (es_new_insertions st1),
      sn_visible_text := U, sn_deleted_text := V, sn_insertion_slices := sl\<rparr>) \<and>
    filter (\<lambda>c. fst c \<noteq> ts) (cells N) = cells (sn_fragments s) \<and>
    filter (\<lambda>c. fst c = ts) (cells N) = map (Pair ts) [0 ..< es_insertion_offset st] \<and>
    (\<forall>f \<in> set N. origin (sn_fragments s) ts f)"
proof -
  let ?T = "sn_visible_text s"
  obtain B0 R0 k where at0: "at_vis ins s ts B0 R0 k st" "es_fragment_start st = visible_len B0 + k"
      "text_inv ?T (visible_len B0 + k) st" and pos: "visible_len B0 + k = pos"
    using at by (auto simp: at_edit_def)
  obtain st1 B R j where fin: "es_finish_fragment st = Some st1" "at_vis ins s ts B R 0 st1"
    and B: "visible_len B = pos + j" and ti: "text_inv ?T (pos + j) st1"
    and nv: "new_visible st1 = new_visible st @ take j (drop pos ?T)" and same: "same_rest st st1"
    using finish_fragment [OF env at0] pos by auto
  note rope = at_vis_rope [OF env fin(2)]
  have FB: "sn_fragments s = B @ R" and cur: "fc_rest (es_cursor st1) = R" using fin(2) by (simp_all add: at_vis_defs)
  let ?st = "st1\<lparr>es_cursor := \<lparr>fc_before = B @ R, fc_rest = []\<rparr>, es_ropes := rb_append (es_ropes st1) R,
      es_new_fragments := es_new_fragments st1 @ R\<rparr>"
  have "at_vis ins s ts (B @ R) [] 0 ?st" using at_vis_copy [OF env, of B R "[]"] fin(2) by simp
  then have b: "built ins s ts (B @ R) [] ?st" by (simp add: at_vis_defs passed_def remaining_def FB)
  have old: "rb_old_deleted (es_ropes st1) = sn_deleted_text s" "rb_deleted_offset (es_ropes st1) = deleted_len B"
    "length (sn_deleted_text s) = deleted_len B + deleted_len R"
    using fin(2) env by (auto simp: at_vis_defs built_def passed_def remaining_def edit_env_def snapshot_ok_def FB)
  have U: "rb_new_visible (es_ropes ?st) = new_visible st @ drop pos ?T"
  proof -
    have "take (visible_len R) (drop (pos + j) ?T) = drop (pos + j) ?T" using rope(4) B by simp
    then have "rb_new_visible (es_ropes ?st) = new_visible st @ take j (drop pos ?T) @ drop (pos + j) ?T"
      using rope(1,2) B nv by simp
    also have "take j (drop pos ?T) @ drop (pos + j) ?T = drop pos ?T"
      using append_take_drop_id [of j "drop pos ?T"] by (simp add: add.commute)
    finally show ?thesis .
  qed
  have "rb_finish (rb_append (es_ropes st1) R) = (rb_new_visible (es_ropes ?st), rb_new_deleted (es_ropes ?st))"
    using rope(1,2,4) old B by (simp add: rb_finish_def)
  then have es: "es_finish st1 = (es_new_fragments ?st, rb_new_visible (es_ropes ?st), rb_new_deleted (es_ropes ?st))"
    by (simp add: es_finish_def cur)
  have "patch_rel 0 0 (es_patch st1) ?T (new_visible st @ drop pos ?T)"
    using ti patch_rel_append [of 0 0 "es_patch st1" "take (pos + j) ?T" "new_visible st1" "drop (pos + j) ?T"]
      append_take_drop_id [of j "drop pos ?T"] by (simp add: text_inv_def nv add.commute)
  moreover have "snapshot_ok ins (s\<lparr>sn_fragments := es_new_fragments ?st,
      sn_insertions := insert_insertions (sn_insertions s) (es_new_insertions st1),
      sn_visible_text := rb_new_visible (es_ropes ?st), sn_deleted_text := rb_new_deleted (es_ropes ?st),
      sn_insertion_slices := sl\<rparr>)"
    using built_done [OF env b] by simp
  moreover have "filter (\<lambda>c. fst c \<noteq> ts) (cells (es_new_fragments ?st)) = cells (sn_fragments s)"
    "filter (\<lambda>c. fst c = ts) (cells (es_new_fragments ?st)) = map (Pair ts) [0 ..< es_insertion_offset st]"
    "\<forall>f \<in> set (es_new_fragments ?st). origin (sn_fragments s) ts f"
    using b same by (simp_all add: built_def FB same_rest_def)
  ultimately show ?thesis
    using fin(1) es U ti same unfolding text_inv_def by (intro exI conjI) (assumption | rule refl | simp)+
qed

text \<open>The new insertion is known under its timestamp.\<close>

lemma snapshot_ok_fresh:
  assumes "snapshot_ok ins s" "ts \<notin> fr_timestamp ` set (sn_fragments s)"
  shows "edit_env (ins(ts := t)) s ts"
proof -
  have fresh: "fst c \<noteq> ts" if "c \<in> set (cells (sn_fragments s))" for c
    using cells_timestamp [OF that] assms(2) by auto
  have "cell_text (ins(ts := t)) cs = cell_text ins cs" if "set cs \<subseteq> set (cells (sn_fragments s))" for cs
    using fresh that by (intro cell_text_cong) auto
  then have "cell_text (ins(ts := t)) (vcells (sn_fragments s)) = cell_text ins (vcells (sn_fragments s))"
    "cell_text (ins(ts := t)) (dcells (sn_fragments s)) = cell_text ins (dcells (sn_fragments s))"
    using set_vcells set_dcells by blast+
  moreover have "\<forall>f \<in> set (sn_fragments s). fr_fits (ins(ts := t)) f"
    using assms by (auto simp: snapshot_ok_def fr_fits_def)
  ultimately show ?thesis using assms by (simp add: edit_env_def snapshot_ok_def)
qed

definition local_edit_result ::
    "(lamport \<Rightarrow> string) \<Rightarrow> snapshot \<Rightarrow> text_edits \<Rightarrow> lamport \<Rightarrow>
       snapshot \<Rightarrow> (nat \<times> nat) list \<Rightarrow> string list \<Rightarrow> patch \<Rightarrow> bool" where
  "local_edit_result ins s es ts s' rs texts p \<longleftrightarrow>
     sn_visible_text s' = splice 0 es (sn_visible_text s) \<and>
     patch_rel 0 0 p (sn_visible_text s) (sn_visible_text s') \<and> patch_new_ok p \<and>
     texts = edit_texts es \<and> list_all2 (range_of_edit (sn_fragments s)) rs es \<and>
     snapshot_ok (ins(ts := concat texts)) s' \<and>
     filter (\<lambda>c. fst c \<noteq> ts) (cells (sn_fragments s')) = cells (sn_fragments s) \<and>
     filter (\<lambda>c. fst c = ts) (cells (sn_fragments s')) = map (Pair ts) [0 ..< length (concat texts)] \<and>
     (\<forall>f \<in> set (sn_fragments s'). origin (sn_fragments s) ts f)"

lemma local_edit:
  assumes ok: "snapshot_ok ins s" "ts \<notin> fr_timestamp ` set (sn_fragments s)"
    and es: "edits_ok (length (sn_visible_text s)) 0 es" "length (concat (edit_texts es)) < 2 ^ 32"
  shows "\<exists>s' rs texts p. apply_edit_internal s es ts = Some (s', rs, texts, p) \<and>
    local_edit_result ins s es ts s' rs texts p"
proof (cases es)
  case Nil
  have "filter (\<lambda>c. fst c \<noteq> ts) (cells (sn_fragments s)) = cells (sn_fragments s)"
    "filter (\<lambda>c. fst c = ts) (cells (sn_fragments s)) = []"
    using ok(2) cells_timestamp by (fastforce simp: filter_id_conv filter_empty_conv)+
  then show ?thesis
    using snapshot_ok_fresh [OF ok, of "[]"]
    by (simp add: Nil apply_edit_internal_def local_edit_result_def patch_new_ok_def edit_env_def origin_old)
next
  case (Cons e es')
  obtain a b t where e: "e = ((a, b), t)" by (cases e) auto
  let ?T = "sn_visible_text s" and ?t = "concat (edit_texts es)"
  let ?ins = "ins(ts := ?t)"
  have env: "edit_env ?ins s ts" by (rule snapshot_ok_fresh [OF ok])
  obtain pos where st0: "at_edit ?ins s ts pos (es_start s a)" "pos \<le> a" "new_visible (es_start s a) = take pos ?T"
      "es_insertion_offset (es_start s a) = 0" "es_new_text (es_start s a) = []" "es_ranges (es_start s a) = []"
    using start_edit [OF env, of a b t es'] es(1) by (auto simp: Cons e)
  have pos: "edits_ok (length ?T) pos es" "splice 0 es ?T = take pos ?T @ splice pos es ?T"
    using es(1) st0(2) splice_keep [of 0 pos ?T es] by (auto simp: Cons e next_start_def simp del: splice.simps)
  obtain st1 pos' rs where st1: "es_edits ts es (es_start s a) = Some st1" "at_edit ?ins s ts pos' st1"
      "new_visible st1 @ drop pos' ?T = take pos ?T @ splice pos es ?T"
      "es_insertion_offset st1 = length ?t" "es_new_text st1 = edit_texts es"
      "es_ranges st1 = rs" "list_all2 (range_of_edit (sn_fragments s)) rs es"
    using edits_steps [OF env _ st0(1) pos(1)] es(2) st0(3-6) by auto
  from finish_edit [OF env st1(2), of "extend_slices (sn_insertion_slices s) (es_slices (the (es_finish_fragment st1)))"]
  obtain st2 N U V where fin: "es_finish_fragment st1 = Some st2" "es_finish st2 = (N, U, V)"
      "U = splice 0 es ?T" "patch_rel 0 0 (es_patch st2) ?T U" "patch_new_ok (es_patch st2)" "same_rest st1 st2"
      "snapshot_ok ?ins (s\<lparr>sn_fragments := N, sn_insertions := insert_insertions (sn_insertions s) (es_new_insertions st2),
        sn_visible_text := U, sn_deleted_text := V, sn_insertion_slices := extend_slices (sn_insertion_slices s) (es_slices st2)\<rparr>)"
      "filter (\<lambda>c. fst c \<noteq> ts) (cells N) = cells (sn_fragments s)"
      "filter (\<lambda>c. fst c = ts) (cells N) = map (Pair ts) [0 ..< length ?t]"
      "\<forall>f \<in> set N. origin (sn_fragments s) ts f"
    unfolding st1(3,4) pos(2) [symmetric] by auto
  show ?thesis
    using st1 fin by (auto simp: apply_edit_internal_def local_edit_result_def same_rest_def Cons e)
qed

section \<open>Properties\<close>

text \<open>C3: Applying local edits whose ranges are ascending, disjoint and within the text never panics (and the
  deletion loop ends): the visible text becomes the old one with each range replaced by its normalized text,
  the returned patch leads from the old to the new text with separated edits, and the emitted operation has
  the normalized texts and, for each edit, the range of its bytes among all bytes, deleted ones included.  The
  inserted texts must be shorter than \<open>u32\<close> offsets can address.\<close>

theorem local_edit_splices:
  assumes "snapshot_ok ins s" "ts \<notin> fr_timestamp ` set (sn_fragments s)"
    and "edits_ok (length (sn_visible_text s)) 0 es" "length (concat (edit_texts es)) < 2 ^ 32"
  shows "\<exists>s' rs p. apply_edit_internal s es ts = Some (s', rs, edit_texts es, p) \<and>
    sn_visible_text s' = splice 0 es (sn_visible_text s) \<and>
    patch_rel 0 0 p (sn_visible_text s) (sn_visible_text s') \<and> patch_new_ok p \<and>
    list_all2 (range_of_edit (sn_fragments s)) rs es"
  using local_edit [OF assms] by (auto simp: local_edit_result_def)

text \<open>C24: Local edits keep the snapshot well-formed: fragments are nonempty parts of their insertions with
  strictly ascending ids between the bounds, every byte ever inserted is in exactly one fragment, the visible
  and deleted ropes are the bytes of the visible and deleted fragments, and the index of insertions finds each
  fragment.  All earlier bytes keep their order, and the new bytes are in the order of the inserted texts.\<close>

theorem local_edit_keeps_snapshot:
  assumes "snapshot_ok ins s" "ts \<notin> fr_timestamp ` set (sn_fragments s)"
    and "edits_ok (length (sn_visible_text s)) 0 es" "length (concat (edit_texts es)) < 2 ^ 32"
    and "apply_edit_internal s es ts = Some (s', rs, texts, p)"
  shows "snapshot_ok (ins(ts := concat texts)) s' \<and>
    filter (\<lambda>c. fst c \<noteq> ts) (cells (sn_fragments s')) = cells (sn_fragments s) \<and>
    filter (\<lambda>c. fst c = ts) (cells (sn_fragments s')) = map (Pair ts) [0 ..< length (concat texts)]"
  using local_edit [OF assms(1-4)] assms(5) by (auto simp: local_edit_result_def)

definition sample_ins :: "lamport \<Rightarrow> string" where
  "sample_ins t = (if t = Lamport 1 0 then ''abcde'' else ''xy'')"

definition sample_snapshot :: snapshot where
  "sample_snapshot =
     \<lparr>sn_visible_text = ''abcxy'', sn_deleted_text = ''de'',
      sn_fragments =
        [\<lparr>fr_id = [10], fr_timestamp = Lamport 1 0, fr_insertion_offset = 0, fr_len = 3, fr_visible = True,
          fr_deletions = [], fr_max_undos = version_new\<rparr>,
         \<lparr>fr_id = [20], fr_timestamp = Lamport 1 0, fr_insertion_offset = 3, fr_len = 2, fr_visible = False,
          fr_deletions = [Lamport 3 0], fr_max_undos = version_new\<rparr>,
         \<lparr>fr_id = [30], fr_timestamp = Lamport 2 1, fr_insertion_offset = 0, fr_len = 2, fr_visible = True,
          fr_deletions = [], fr_max_undos = version_new\<rparr>],
      sn_insertions =
        [\<lparr>if_timestamp = Lamport 1 0, if_split_offset = 0, if_fragment_id = [10]\<rparr>,
         \<lparr>if_timestamp = Lamport 1 0, if_split_offset = 3, if_fragment_id = [20]\<rparr>,
         \<lparr>if_timestamp = Lamport 2 1, if_split_offset = 0, if_fragment_id = [30]\<rparr>],
      sn_insertion_slices =
        [\<lparr>is_edit_id = Lamport 1 0, is_insertion_id = Lamport 1 0, is_start = 0, is_end = 5\<rparr>,
         \<lparr>is_edit_id = Lamport 2 1, is_insertion_id = Lamport 2 1, is_start = 0, is_end = 2\<rparr>,
         \<lparr>is_edit_id = Lamport 3 0, is_insertion_id = Lamport 1 0, is_start = 3, is_end = 5\<rparr>], sn_undo_map = st_new undo_ops, sn_version = []\<rparr>"

lemma sample_cells:
  "cells (sn_fragments sample_snapshot) =
     [(Lamport 1 0, 0), (Lamport 1 0, 1), (Lamport 1 0, 2), (Lamport 1 0, 3), (Lamport 1 0, 4), (Lamport 2 1, 0), (Lamport 2 1, 1)]"
  "vcells (sn_fragments sample_snapshot) =
     [(Lamport 1 0, 0), (Lamport 1 0, 1), (Lamport 1 0, 2), (Lamport 2 1, 0), (Lamport 2 1, 1)]"
  "dcells (sn_fragments sample_snapshot) = [(Lamport 1 0, 3), (Lamport 1 0, 4)]"
  by (simp_all add: sample_snapshot_def fr_cells_def upt_rec)

lemma sample_snapshot_ok: "snapshot_ok sample_ins sample_snapshot"
proof -
  have "\<forall>f \<in> set (sn_fragments sample_snapshot). fr_fits sample_ins f"
    by (simp add: sample_snapshot_def fr_fits_def sample_ins_def locator_min_def locator_max_def
        word_less_nat_alt unat_max_word)
  moreover have "sorted_wrt (<) (map fr_id (sn_fragments sample_snapshot))"
    by (simp add: sample_snapshot_def)
  moreover have "sorted_wrt (<) (map if_key (sn_insertions sample_snapshot))"
    by (simp add: sample_snapshot_def if_key_def less_lamport_iff)
  moreover have "set (sn_insertions sample_snapshot) = insertion_fragment_new ` set (sn_fragments sample_snapshot)"
    by (simp add: sample_snapshot_def insertion_fragment_new_def)
  moreover have "cell_text sample_ins (vcells (sn_fragments sample_snapshot)) = sn_visible_text sample_snapshot"
    "cell_text sample_ins (dcells (sn_fragments sample_snapshot)) = sn_deleted_text sample_snapshot"
    unfolding sample_cells by (simp_all add: sample_snapshot_def sample_ins_def cell_text_def)
  moreover have "distinct (cells (sn_fragments sample_snapshot))" unfolding sample_cells by simp
  ultimately show ?thesis by (simp only: snapshot_ok_def simp_thms)
qed

abbreviation sample_edits :: text_edits where
  "sample_edits \<equiv> [((1, 4), [CHR ''Q'', CHR 0x0D, CHR 0x0A]), ((5, 5), ''!'')]"

lemma sample_edits_ok:
  "Lamport 5 1 \<notin> fr_timestamp ` set (sn_fragments sample_snapshot)"
  "edits_ok (length (sn_visible_text sample_snapshot)) 0 sample_edits" "length (concat (edit_texts sample_edits)) < 2 ^ 32"
  by (simp_all add: sample_snapshot_def)

theorem local_edit_splices_witness:
  "\<exists>s' rs p. apply_edit_internal sample_snapshot sample_edits (Lamport 5 1) =
      Some (s', rs, [[CHR ''Q'', CHR 0x0A], ''!''], p) \<and>
    sn_visible_text s' = [CHR ''a'', CHR ''Q'', CHR 0x0A, CHR ''y'', CHR ''!''] \<and>
    patch_rel 0 0 p ''abcxy'' (sn_visible_text s')"
proof -
  have "sn_visible_text sample_snapshot = ''abcxy''" by (simp add: sample_snapshot_def)
  moreover have "splice 0 sample_edits ''abcxy'' = [CHR ''a'', CHR ''Q'', CHR 0x0A, CHR ''y'', CHR ''!'']" by simp
  moreover have "edit_texts sample_edits = [[CHR ''Q'', CHR 0x0A], ''!'']" by simp
  ultimately show ?thesis using local_edit_splices [OF sample_snapshot_ok sample_edits_ok] by metis
qed

theorem local_edit_keeps_snapshot_witness:
  "\<exists>s' rs texts p. apply_edit_internal sample_snapshot sample_edits (Lamport 5 1) = Some (s', rs, texts, p) \<and>
    snapshot_ok (sample_ins(Lamport 5 1 := concat texts)) s' \<and>
    filter (\<lambda>c. fst c \<noteq> Lamport 5 1) (cells (sn_fragments s')) = cells (sn_fragments sample_snapshot)"
proof -
  obtain s' rs texts p where r: "apply_edit_internal sample_snapshot sample_edits (Lamport 5 1) = Some (s', rs, texts, p)"
    using local_edit [OF sample_snapshot_ok sample_edits_ok] by blast
  from local_edit_keeps_snapshot [OF sample_snapshot_ok sample_edits_ok r] r show ?thesis by blast
qed

end
