(* ===== verification/Zed_Fragment_Tree.thy ===== *)
theory Zed_Fragment_Tree
  imports Zed_SumTree_Cursor Zed_Fragment_Text
begin

text \<open>
  The sum tree of fragments: the summary of fragments and the dimensions that cursors over them use.
  The buffer theories work on the list of fragments; the facts here say that the cursor of the tree does
  what the list functions say.
\<close>

section \<open>Summaries and dimensions\<close>

record fragment_summary =
  fs_visible :: nat
  fs_deleted :: nat
  fs_max_id :: locator
  fs_max_version :: version
  fs_min_insertion_version :: version
  fs_max_insertion_version :: version

definition fragment_summary_of :: "fragment \<Rightarrow> fragment_summary" where
  "fragment_summary_of f =
     (let max_version = foldl version_observe (version_observe version_new (fr_timestamp f)) (fr_deletions f);
          max_version = version_join max_version (fr_max_undos f);
          min_insertion_version = version_observe version_new (fr_timestamp f);
          max_insertion_version = min_insertion_version
      in if fr_visible f then
           \<lparr>fs_visible = fr_len f, fs_deleted = 0, fs_max_id = fr_id f, fs_max_version = max_version,
            fs_min_insertion_version = min_insertion_version, fs_max_insertion_version = max_insertion_version\<rparr>
         else
           \<lparr>fs_visible = 0, fs_deleted = fr_len f, fs_max_id = fr_id f, fs_max_version = max_version,
            fs_min_insertion_version = min_insertion_version, fs_max_insertion_version = max_insertion_version\<rparr>)"

definition fragment_ops :: "(fragment, fragment_summary) summary_ops" where
  "fragment_ops =
     \<lparr>sm_zero = \<lparr>fs_visible = 0, fs_deleted = 0, fs_max_id = locator_min, fs_max_version = version_new,
        fs_min_insertion_version = version_new, fs_max_insertion_version = version_new\<rparr>,
      sm_add = (\<lambda>a b.
        \<lparr>fs_visible = fs_visible a + fs_visible b, fs_deleted = fs_deleted a + fs_deleted b,
         fs_max_id = locator_assign (fs_max_id a) (fs_max_id b),
         fs_max_version = version_join (fs_max_version a) (fs_max_version b),
         fs_min_insertion_version = version_meet (fs_min_insertion_version a) (fs_min_insertion_version b),
         fs_max_insertion_version = version_join (fs_max_insertion_version a) (fs_max_insertion_version b)\<rparr>),
      sm_item = fragment_summary_of\<rparr>"

text \<open>\<open>FragmentTextSummary\<close>, \<open>usize\<close>, \<open>FullOffset\<close> and \<open>Option<&Locator>\<close> as dimensions, and a visible
  offset as a target in the first.\<close>

definition text_dim :: "(fragment_summary, nat \<times> nat) dimension" where
  "text_dim = \<lparr>dm_zero = (0, 0), dm_add = (\<lambda>(visible, deleted) s. (visible + fs_visible s, deleted + fs_deleted s))\<rparr>"

definition visible_dim :: "(fragment_summary, nat) dimension" where
  "visible_dim = \<lparr>dm_zero = 0, dm_add = (\<lambda>d s. d + fs_visible s)\<rparr>"

definition full_offset_dim :: "(fragment_summary, nat) dimension" where
  "full_offset_dim = \<lparr>dm_zero = 0, dm_add = (\<lambda>d s. d + (fs_visible s + fs_deleted s))\<rparr>"

definition id_dim :: "(fragment_summary, locator option) dimension" where
  "id_dim = \<lparr>dm_zero = None, dm_add = (\<lambda>_ s. Some (fs_max_id s))\<rparr>"

definition visible_target :: "nat \<Rightarrow> (nat \<times> nat) seek_target" where
  "visible_target offset = (\<lambda>(visible, deleted). cmp offset visible)"

section \<open>The tree does what the lists do\<close>

interpretation fragment_tree: two_dimensions fragment_ops text_dim visible_dim
  by unfold_locales
    (auto simp: fragment_ops_def text_dim_def visible_dim_def version_laws add.assoc split: prod.splits)

lemma fragment_item: "fs_visible (sm_item fragment_ops f) = (if fr_visible f then fr_len f else 0)"
    "fs_deleted (sm_item fragment_ops f) = (if fr_visible f then 0 else fr_len f)"
  by (simp_all add: fragment_ops_def fragment_summary_of_def Let_def)

lemma text_advance: "advance fragment_ops text_dim (v, d) fs = (v + visible_len fs, d + deleted_len fs)"
  by (induction fs arbitrary: v d) (simp_all add: advance_def text_dim_def fragment_item)

lemma visible_advance: "advance fragment_ops visible_dim v fs = v + visible_len fs"
  by (induction fs arbitrary: v) (simp_all add: advance_def visible_dim_def fragment_item)

lemma text_seek:
  "seek_take fragment_ops text_dim (visible_target a) BRight (v, d) fs = fst (split_visible a v fs)"
  "seek_drop fragment_ops text_dim (visible_target a) BRight (v, d) fs = snd (split_visible a v fs)"
  by (induction fs arbitrary: v d)
    (auto simp: seek_past_def visible_target_def text_dim_def fragment_item Let_def less_le split: prod.splits)

lemma text_ends_ge: "e \<in> set (seek_ends fragment_ops text_dim (v, d) fs) \<Longrightarrow> v \<le> fst e"
  by (induction fs arbitrary: v d) (force simp: text_dim_def fragment_item)+

lemma text_ordered: "seek_ordered fragment_ops text_dim (visible_target a) BRight (v, d) fs"
proof (induction fs arbitrary: v d)
  case (Cons f fs)
  let ?v = "v + visible_len [f]" and ?d = "d + deleted_len [f]"
  have add: "dm_add text_dim (v, d) (sm_item fragment_ops f) = (?v, ?d)" by (simp add: text_dim_def fragment_item)
  have "\<not> seek_past (visible_target a) BRight e"
    if "e \<in> set (seek_ends fragment_ops text_dim (?v, ?d) fs)" "\<not> ?v \<le> a" for e
    using text_ends_ge [OF that(1)] that(2) by (auto simp: seek_past_def visible_target_def split: prod.splits)
  moreover have "seek_past (visible_target a) BRight (?v, ?d) \<longleftrightarrow> ?v \<le> a"
    by (auto simp: seek_past_def visible_target_def)
  ultimately show ?case using Cons.IH [of ?v ?d] by (auto simp: seek_ordered_def add)
qed (simp add: seek_ordered_def)

lemma fragment_sum:
  "fs_visible (sum_items fragment_ops fs) = visible_len fs \<and> fs_deleted (sum_items fragment_ops fs) = deleted_len fs \<and>
     fs_max_id (sum_items fragment_ops fs) = max_id fs"
proof (induction fs rule: rev_induct)
  case Nil
  show ?case by (simp add: sum_items_def sum_summaries_def fragment_ops_def)
next
  case (snoc f fs)
  have "sum_items fragment_ops (fs @ [f]) =
      (if fs = [] then sm_item fragment_ops f else sm_add fragment_ops (sum_items fragment_ops fs) (sm_item fragment_ops f))"
    using fragment_tree.sum_items_append [of "[f]" fs] fragment_tree.sum_singleton
    by (auto simp: sum_items_def)
  then show ?case using snoc by (auto simp: fragment_ops_def fragment_summary_of_def Let_def)
qed

text \<open>C25: Slicing the tree of fragments at a visible offset with bias right, as local edits do, never panics and
  yields the trees of the fragments that end at or before the offset and of the others; the cursor then
  stands at the visible and deleted length of the first, and the tree summaries are those lengths.\<close>

theorem fragment_slice_refines:
  assumes "st_wf fragment_ops t" "st_height t < 16"
  shows "\<exists>c left c' right.
    cu_slice fragment_ops text_dim (visible_target a) BRight (cu_new text_dim t) = Some (c, left) \<and>
    cu_suffix fragment_ops text_dim c = Some (c', right) \<and> st_wf fragment_ops left \<and> st_wf fragment_ops right \<and>
    (let (taken, rest) = split_visible a 0 (st_items t) in
       st_items left = taken \<and> st_items right = rest \<and>
       cu_position c = (visible_len taken, deleted_len taken) \<and>
       fs_visible (st_summary left) = visible_len taken \<and> fs_deleted (st_summary left) = deleted_len taken \<and>
       fs_max_id (st_summary left) = max_id taken)"
proof -
  let ?fs = "st_items t"
  obtain taken rest where sp: "split_visible a 0 ?fs = (taken, rest)" by fastforce
  have at: "cu_at fragment_ops text_dim (cu_new text_dim t) [] ?fs" by (rule cu_at_new [OF assms])
  have pos: "cu_position (cu_new text_dim t) = (0, 0)" by (simp add: cu_new_def text_dim_def)
  obtain c left where c: "cu_slice fragment_ops text_dim (visible_target a) BRight (cu_new text_dim t) = Some (c, left)"
      "cu_view fragment_ops text_dim c taken rest" "st_wf fragment_ops left" "st_items left = taken"
    using fragment_tree.cu_slice_at [OF at _ _ refl refl, of "visible_target a" BRight] text_ordered
    unfolding pos text_seek sp by (auto simp: visible_target_def)
  have at2: "cu_at fragment_ops text_dim c taken rest" using c(2) by (simp add: cu_at_def)
  obtain c' right where "cu_suffix fragment_ops text_dim c = Some (c', right)" "st_wf fragment_ops right" "st_items right = rest"
    using fragment_tree.cu_suffix_at [OF at2] by blast
  moreover have "cu_position c = (visible_len taken, deleted_len taken)"
    using cu_at_position [OF at2] text_advance [of 0 0 taken] by (simp add: text_dim_def)
  moreover have "st_summary left = sum_items fragment_ops taken" using fragment_tree.wf_summary [OF c(3)] c(4) by simp
  ultimately show ?thesis using c fragment_sum [of taken] sp by auto
qed

text \<open>A tree of the three fragments of the sample snapshot.\<close>

definition sample_fragment :: "locator \<Rightarrow> nat \<Rightarrow> bool \<Rightarrow> fragment" where
  "sample_fragment i n v = \<lparr>fr_id = i, fr_timestamp = Lamport 1 0, fr_insertion_offset = 0, fr_len = n,
     fr_visible = v, fr_deletions = [], fr_max_undos = version_new\<rparr>"

theorem fragment_slice_refines_witness:
  "\<exists>t c left. st_items t = [sample_fragment [1] 3 True, sample_fragment [2] 2 False, sample_fragment [3] 2 True] \<and>
    cu_slice fragment_ops text_dim (visible_target 4) BRight (cu_new text_dim t) = Some (c, left) \<and>
    st_items left = [sample_fragment [1] 3 True, sample_fragment [2] 2 False] \<and> cu_position c = (3, 2)"
proof -
  let ?fs = "[sample_fragment [1] 3 True, sample_fragment [2] 2 False, sample_fragment [3] 2 True]"
  define t where "t = Leaf (sum_items fragment_ops ?fs) ?fs (map (sm_item fragment_ops) ?fs)"
  have t: "st_wf fragment_ops t" "st_height t < 16" "st_items t = ?fs"
    by (simp_all add: t_def st_wf_def sum_items_def TREE_BASE_def)
  have "split_visible 4 0 ?fs = ([sample_fragment [1] 3 True, sample_fragment [2] 2 False], [sample_fragment [3] 2 True])"
    by (simp add: sample_fragment_def)
  then show ?thesis
    using fragment_slice_refines [OF t(1,2), of 4] t(3) by (auto simp: sample_fragment_def)
qed

end
