(* ===== verification/Zed_Remote_Edit.thy ===== *)
theory Zed_Remote_Edit
  imports Zed_Buffer_Edit
begin

text \<open>
  Edits of other replicas: \<open>Buffer::apply_remote_edit\<close> of \<open>crates/text/src/text.rs\<close>.  The ranges of
  such an edit count the bytes, visible or deleted, that its author had observed; the cursor therefore
  measures fragments by \<open>VersionedFullOffset\<close>.  On a single fragment that dimension adds the length when
  the version has observed the insertion and nothing otherwise, so a position is a number; the value
  \<open>Invalid\<close> arises for whole subtrees only, where it makes the cursor descend.
\<close>

section \<open>Visibility\<close>

fun all_deletions :: "(lamport \<Rightarrow> bool option) \<Rightarrow> lamport list \<Rightarrow> bool option" where
  "all_deletions P [] = Some True"
| "all_deletions P (d # ds) = (case P d of None \<Rightarrow> None | Some b \<Rightarrow> if b then all_deletions P ds else Some False)"

definition fragment_is_visible :: "undo_map \<Rightarrow> fragment \<Rightarrow> bool option" where
  "fragment_is_visible undos f =
     (case um_is_undone undos (fr_timestamp f) of
        None \<Rightarrow> None
      | Some undone \<Rightarrow> if undone then Some False else all_deletions (um_is_undone undos) (fr_deletions f))"

definition fragment_was_visible :: "undo_map \<Rightarrow> vclock \<Rightarrow> fragment \<Rightarrow> bool option" where
  "fragment_was_visible undos version f =
     (if vclock_observed version (fr_timestamp f) then
        (case um_was_undone undos (fr_timestamp f) version of
           None \<Rightarrow> None
         | Some undone \<Rightarrow>
             if undone then Some False
             else all_deletions
               (\<lambda>d. if \<not> vclock_observed version d then Some True else um_was_undone undos d version) (fr_deletions f))
      else Some False)"

section \<open>Positions of the author\<close>

definition versioned_len :: "vclock \<Rightarrow> fragment list \<Rightarrow> nat" where
  "versioned_len version fs = sum_list (map (\<lambda>f. if vclock_observed version (fr_timestamp f) then fr_len f else 0) fs)"

definition re_start :: "vclock \<Rightarrow> fragment_cursor \<Rightarrow> nat" where
  "re_start version c = versioned_len version (fc_before c)"

definition re_end :: "vclock \<Rightarrow> fragment_cursor \<Rightarrow> nat" where
  "re_end version c = re_start version c + versioned_len version (case fc_rest c of [] \<Rightarrow> [] | f # _ \<Rightarrow> [f])"

text \<open>\<open>slice\<close> with bias left: the fragments that end before the target.\<close>

fun split_versioned :: "vclock \<Rightarrow> nat \<Rightarrow> nat \<Rightarrow> fragment list \<Rightarrow> fragment list \<times> fragment list" where
  "split_versioned version target pos [] = ([], [])"
| "split_versioned version target pos (f # fs) =
     (let pos' = pos + versioned_len version [f] in
      if pos' < target then (let (taken, left) = split_versioned version target pos' fs in (f # taken, left))
      else ([], f # fs))"

definition fc_slice_versioned :: "vclock \<Rightarrow> fragment_cursor \<Rightarrow> nat \<Rightarrow> fragment_cursor \<times> fragment list" where
  "fc_slice_versioned version c target =
     (let (taken, left) = split_versioned version target (re_start version c) (fc_rest c)
      in (\<lparr>fc_before = fc_before c @ taken, fc_rest = left\<rparr>, taken))"

section \<open>The steps\<close>

definition re_finish_fragment :: "vclock \<Rightarrow> edit_state \<Rightarrow> edit_state option" where
  "re_finish_fragment version st =
     (let start = re_start version (es_cursor st);
          fragment_start = es_fragment_start st;
          fragment_end = re_end version (es_cursor st)
      in if start < fragment_start then
           map_option (\<lambda>st. st\<lparr>es_cursor := fc_next (es_cursor st)\<rparr>)
             (if fragment_start < fragment_end then
                case fc_item (es_cursor st) of
                  None \<Rightarrow> None
                | Some f \<Rightarrow>
                    let suffix = f\<lparr>fr_len := as_u32 (fragment_end - fragment_start),
                          fr_insertion_offset := as_u32 (fr_insertion_offset f + as_u32 (fragment_start - start))\<rparr>
                    in Some (es_push suffix (fr_visible suffix) st)
              else Some st)
         else Some st)"

definition re_jump :: "vclock \<Rightarrow> nat \<Rightarrow> edit_state \<Rightarrow> edit_state option" where
  "re_jump version range_start st =
     (if re_end version (es_cursor st) < range_start then
        case re_finish_fragment version st of
          None \<Rightarrow> None
        | Some st \<Rightarrow>
            let (c, slice) = fc_slice_versioned version (es_cursor st) range_start in
            Some (st\<lparr>es_cursor := c, es_ropes := rb_append (es_ropes st) slice,
                     es_new_fragments := es_new_fragments st @ slice,
                     es_fragment_start := re_start version c\<rparr>)
      else Some st)"

text \<open>If we are at the end of a non-concurrent fragment, advance to the next one.\<close>

definition re_advance :: "vclock \<Rightarrow> nat \<Rightarrow> edit_state \<Rightarrow> edit_state option" where
  "re_advance version range_start st =
     (let fragment_start = es_fragment_start st; fragment_end = re_end version (es_cursor st) in
      if fragment_end = range_start \<and> fragment_start < fragment_end then
        case fc_item (es_cursor st) of
          None \<Rightarrow> None
        | Some f \<Rightarrow>
            let fragment = f\<lparr>fr_len := as_u32 (fragment_end - fragment_start),
                  fr_insertion_offset := as_u32 (fr_insertion_offset f +
                    as_u32 (fragment_start - re_start version (es_cursor st)))\<rparr>;
                st = es_push fragment (fr_visible fragment) st;
                st = st\<lparr>es_cursor := fc_next (es_cursor st)\<rparr>
            in Some (st\<lparr>es_fragment_start := re_start version (es_cursor st)\<rparr>)
      else Some st)"

text \<open>Skip over insertions that are concurrent to this edit, but have a higher lamport timestamp; the
  recursion is over the fragments left.\<close>

fun re_skip_loop :: "nat \<Rightarrow> lamport \<Rightarrow> fragment list \<Rightarrow> edit_state \<Rightarrow> edit_state" where
  "re_skip_loop range_start timestamp [] st = st"
| "re_skip_loop range_start timestamp (f # fs) st =
     (if es_fragment_start st = range_start \<and> timestamp < fr_timestamp f then
        re_skip_loop range_start timestamp fs
          (st\<lparr>es_ropes := rb_push_fragment (es_ropes st) f (fr_visible f),
              es_new_fragments := es_new_fragments st @ [f], es_cursor := fc_next (es_cursor st)\<rparr>)
      else st)"

definition re_skip :: "nat \<Rightarrow> lamport \<Rightarrow> edit_state \<Rightarrow> edit_state" where
  "re_skip range_start timestamp st = re_skip_loop range_start timestamp (fc_rest (es_cursor st)) st"

definition re_prefix :: "vclock \<Rightarrow> nat \<Rightarrow> edit_state \<Rightarrow> edit_state option" where
  "re_prefix version range_start st =
     (let fragment_start = es_fragment_start st in
      if fragment_start < range_start then
        case fc_item (es_cursor st) of
          None \<Rightarrow> None
        | Some f \<Rightarrow>
            let prefix = f\<lparr>fr_len := as_u32 (range_start - fragment_start),
                  fr_insertion_offset := as_u32 (fr_insertion_offset f +
                    as_u32 (fragment_start - re_start version (es_cursor st))),
                  fr_id := locator_between (max_id (es_new_fragments st)) (fr_id f)\<rparr>
            in Some ((es_push prefix (fr_visible prefix) st)\<lparr>es_fragment_start := range_start\<rparr>)
      else Some st)"

definition re_insert :: "vclock \<Rightarrow> string \<Rightarrow> lamport \<Rightarrow> edit_state \<Rightarrow> edit_state" where
  "re_insert version new_text timestamp st =
     (if new_text \<noteq> [] then
        let old_start = fc_start_visible (es_cursor st) +
              (case fc_item (es_cursor st) of
                 None \<Rightarrow> 0
               | Some f \<Rightarrow> if fr_visible f then es_fragment_start st - re_start version (es_cursor st) else 0);
            new_start = visible_len (es_new_fragments st);
            next_fragment_id = (case fc_item (es_cursor st) of None \<Rightarrow> locator_max | Some f \<Rightarrow> fr_id f);
            ins = push_fragments_loop new_text timestamp next_fragment_id timestamp 0
              \<lparr>ins_offset = es_insertion_offset st, ins_new_fragments = es_new_fragments st,
               ins_new_insertions = es_new_insertions st, ins_slices = es_slices st\<rparr>
        in st\<lparr>es_insertion_offset := ins_offset ins, es_new_fragments := ins_new_fragments ins,
              es_new_insertions := ins_new_insertions ins, es_slices := ins_slices ins,
              es_ropes := rb_push_str (es_ropes st) new_text,
              es_patch := patch_push (es_patch st) (mk_edit old_start old_start new_start (new_start + length new_text))\<rparr>
      else st)"

definition re_delete_step ::
    "undo_map \<Rightarrow> vclock \<Rightarrow> nat \<Rightarrow> lamport \<Rightarrow> fragment \<Rightarrow> edit_state \<Rightarrow> edit_state option" where
  "re_delete_step undos version range_end timestamp f st =
     (let start = re_start version (es_cursor st);
          fragment_start = es_fragment_start st;
          fragment_end = re_end version (es_cursor st);
          intersection_end = min range_end fragment_end
      in case
          (if vclock_observed version (fr_timestamp f) then
             let intersection = f\<lparr>fr_len := as_u32 (intersection_end - fragment_start),
                   fr_insertion_offset := as_u32 (fr_insertion_offset f + as_u32 (fragment_start - start)),
                   fr_id := locator_between (max_id (es_new_fragments st)) (fr_id f)\<rparr>
             in case fragment_was_visible undos version f of
                  None \<Rightarrow> None
                | Some False \<Rightarrow> Some (intersection, st)
                | Some True \<Rightarrow>
                    let intersection = intersection\<lparr>fr_deletions := fr_deletions f @ [timestamp], fr_visible := False\<rparr>
                    in Some (intersection, st\<lparr>es_slices := es_slices st @ [slice_from_fragment timestamp intersection]\<rparr>)
           else Some (f, st)) of
          None \<Rightarrow> None
        | Some (intersection, st) \<Rightarrow>
            let st =
              (if 0 < fr_len intersection then
                 (let st =
                    (if fr_visible f \<and> \<not> fr_visible intersection then
                       let old_start = fc_start_visible (es_cursor st) + (fragment_start - start);
                           new_start = visible_len (es_new_fragments st)
                       in st\<lparr>es_patch := patch_push (es_patch st)
                            (mk_edit old_start (old_start + fr_len intersection) new_start new_start)\<rparr>
                     else st)
                  in (es_push intersection (fr_visible f) st)\<lparr>es_fragment_start := intersection_end\<rparr>)
               else st)
            in Some (if fragment_end \<le> range_end then st\<lparr>es_cursor := fc_next (es_cursor st)\<rparr> else st))"

partial_function (option) re_delete ::
    "undo_map \<Rightarrow> vclock \<Rightarrow> nat \<Rightarrow> lamport \<Rightarrow> edit_state \<Rightarrow> edit_state option" where
  [code]: "re_delete undos version range_end timestamp st =
     (if es_fragment_start st < range_end then
        case fc_item (es_cursor st) of
          None \<Rightarrow> None
        | Some f \<Rightarrow>
            (case re_delete_step undos version range_end timestamp f st of
               None \<Rightarrow> None
             | Some st \<Rightarrow> re_delete undos version range_end timestamp st)
      else Some st)"

definition re_edit ::
    "undo_map \<Rightarrow> vclock \<Rightarrow> lamport \<Rightarrow> (nat \<times> nat) \<times> string \<Rightarrow> edit_state \<Rightarrow> edit_state option" where
  "re_edit undos version timestamp edit st =
     (let ((range_start, range_end), new_text) = edit in
      case re_jump version range_start st of
        None \<Rightarrow> None
      | Some st \<Rightarrow>
          (case re_advance version range_start st of
             None \<Rightarrow> None
           | Some st \<Rightarrow>
               (case re_prefix version range_start (re_skip range_start timestamp st) of
                  None \<Rightarrow> None
                | Some st \<Rightarrow>
                    re_delete undos version range_end timestamp (re_insert version new_text timestamp st))))"

fun re_edits ::
    "undo_map \<Rightarrow> vclock \<Rightarrow> lamport \<Rightarrow> ((nat \<times> nat) \<times> string) list \<Rightarrow> edit_state \<Rightarrow> edit_state option" where
  "re_edits undos version timestamp [] st = Some st"
| "re_edits undos version timestamp (e # es) st =
     (case re_edit undos version timestamp e st of None \<Rightarrow> None | Some st \<Rightarrow> re_edits undos version timestamp es st)"

definition re_start_state :: "snapshot \<Rightarrow> vclock \<Rightarrow> nat \<Rightarrow> edit_state" where
  "re_start_state s version first_start =
     (let (c, slice) = fc_slice_versioned version \<lparr>fc_before = [], fc_rest = sn_fragments s\<rparr> first_start
      in \<lparr>es_cursor = c, es_new_fragments = slice,
          es_ropes = rb_append (rb_new (sn_visible_text s) (sn_deleted_text s)) slice,
          es_fragment_start = re_start version c, es_patch = [], es_new_insertions = [], es_insertion_offset = 0,
          es_slices = [], es_ranges = [], es_new_text = []\<rparr>)"

text \<open>The new snapshot and the patch that is published to the subscriptions.\<close>

definition apply_remote_edit ::
    "snapshot \<Rightarrow> vclock \<Rightarrow> (nat \<times> nat) list \<Rightarrow> string list \<Rightarrow> lamport \<Rightarrow> (snapshot \<times> patch) option" where
  "apply_remote_edit s version ranges new_text timestamp =
     (case ranges of
        [] \<Rightarrow> Some (s, [])
      | (first_start, _) # _ \<Rightarrow>
          (case re_edits (sn_undo_map s) version timestamp (zip ranges new_text) (re_start_state s version first_start) of
             None \<Rightarrow> None
           | Some st \<Rightarrow>
               (case re_finish_fragment version st of
                  None \<Rightarrow> None
                | Some st \<Rightarrow>
                    let (fragments, visible, deleted) = es_finish st in
                    Some (s\<lparr>sn_fragments := fragments,
                            sn_insertions := insert_insertions (sn_insertions s) (es_new_insertions st),
                            sn_visible_text := visible, sn_deleted_text := deleted,
                            sn_insertion_slices := extend_slices (sn_insertion_slices s) (es_slices st)\<rparr>,
                          es_patch st))))"

end
