(* ===== verification/Zed_Undo.thy ===== *)
theory Zed_Undo
  imports Zed_Remote_Edit
begin

text \<open>
  Undo: \<open>Buffer::apply_undo\<close> and \<open>Buffer::fragment_ids_for_edits\<close> of \<open>crates/text/src/text.rs\<close>.  An undo
  operation raises the counts of edits; the fragments that these edits inserted or deleted are found
  through the insertion slices and the index of insertions, and their visibility is computed anew.
\<close>

section \<open>The fragments of an edit\<close>

text \<open>\<open>insertion_slices.iter_from(..).take_while(..)\<close>.\<close>

definition slices_for_edit :: "insertion_slice list \<Rightarrow> lamport \<Rightarrow> insertion_slice list" where
  "slices_for_edit slices edit_id =
     takeWhile (\<lambda>s. is_edit_id s = edit_id) (dropWhile (\<lambda>s. slice_key s < (edit_id, LAMPORT_MIN, 0, 0)) slices)"

text \<open>The order by insertion, start and descending end; the sort is unstable, but slices that agree in
  these are treated alike.\<close>

definition slice_order :: "insertion_slice \<Rightarrow> lamport \<times> nat \<times> int" where
  "slice_order s = (is_insertion_id s, is_start s, - int (is_end s))"

text \<open>The cursor over the index measures by the key of the last item.  It panics when it is asked for its item before
  the first seek, and when it is asked to seek backward.\<close>

record index_cursor =
  ic_position :: "lamport \<times> nat"
  ic_rest :: "insertion_fragment list"
  ic_did_seek :: bool

definition ic_new :: "insertion_fragment list \<Rightarrow> index_cursor" where
  "ic_new items = \<lparr>ic_position = (LAMPORT_MIN, 0), ic_rest = items, ic_did_seek = False\<rparr>"

definition last_key :: "lamport \<times> nat \<Rightarrow> insertion_fragment list \<Rightarrow> lamport \<times> nat" where
  "last_key position items = (if items = [] then position else if_key (last items))"

definition ic_seek_forward :: "lamport \<times> nat \<Rightarrow> index_cursor \<Rightarrow> index_cursor option" where
  "ic_seek_forward target c =
     (if target < ic_position c then None
      else
        let passed = takeWhile (\<lambda>i. if_key i < target) (ic_rest c) in
        Some \<lparr>ic_position = last_key (ic_position c) passed,
              ic_rest = dropWhile (\<lambda>i. if_key i < target) (ic_rest c), ic_did_seek = True\<rparr>)"

text \<open>The inner loop pushes the ids of the items of the slice; the recursion is over the items left.\<close>

fun collect_loop ::
    "lamport \<Rightarrow> nat \<Rightarrow> insertion_fragment list \<Rightarrow> lamport \<times> nat \<Rightarrow> locator list \<Rightarrow>
       (lamport \<times> nat) \<times> insertion_fragment list \<times> locator list" where
  "collect_loop insertion_id slice_end [] position ids = (position, [], ids)"
| "collect_loop insertion_id slice_end (item # items) position ids =
     (if if_timestamp item \<noteq> insertion_id \<or> slice_end \<le> if_split_offset item then (position, item # items, ids)
      else collect_loop insertion_id slice_end items (if_key item) (ids @ [if_fragment_id item]))"

definition collect_slice :: "insertion_slice \<Rightarrow> index_cursor \<times> locator list \<Rightarrow> (index_cursor \<times> locator list) option" where
  "collect_slice s = (\<lambda>(c, ids).
     case
       (if is_insertion_id s \<noteq> fst (ic_position c) \<or> snd (ic_position c) < is_start s
        then ic_seek_forward (is_insertion_id s, is_start s) c else Some c) of
       None \<Rightarrow> None
     | Some c \<Rightarrow>
         if \<not> ic_did_seek c then None
         else
           let (position, items, ids) = collect_loop (is_insertion_id s) (is_end s) (ic_rest c) (ic_position c) ids
           in Some (c\<lparr>ic_position := position, ic_rest := items\<rparr>, ids))"

fun collect_slices :: "insertion_slice list \<Rightarrow> index_cursor \<times> locator list \<Rightarrow> (index_cursor \<times> locator list) option" where
  "collect_slices [] st = Some st"
| "collect_slices (s # ss) st = (case collect_slice s st of None \<Rightarrow> None | Some st \<Rightarrow> collect_slices ss st)"

definition fragment_ids_for_edits :: "snapshot \<Rightarrow> lamport list \<Rightarrow> locator list option" where
  "fragment_ids_for_edits s edit_ids =
     (let insertion_slices = concat (map (slices_for_edit (sn_insertion_slices s)) edit_ids) in
      map_option (\<lambda>(_, fragment_ids). sort fragment_ids)
        (collect_slices (sort_key slice_order insertion_slices) (ic_new (sn_insertions s), [])))"

section \<open>Applying an undo operation\<close>

record undo_state =
  us_cursor :: fragment_cursor
  us_new_fragments :: "fragment list"
  us_ropes :: rope_builder
  us_edits :: patch

text \<open>The cursor's position in the dimension \<open>Option<&Locator>\<close>; a slice with bias left ends before the id.\<close>

definition fc_slice_id :: "fragment_cursor \<Rightarrow> locator \<Rightarrow> (fragment_cursor \<times> fragment list) option" where
  "fc_slice_id c target =
     (if fc_before c \<noteq> [] \<and> target < fr_id (last (fc_before c)) then None
      else
        let slice = takeWhile (\<lambda>f. fr_id f < target) (fc_rest c) in
        Some (\<lparr>fc_before = fc_before c @ slice, fc_rest = dropWhile (\<lambda>f. fr_id f < target) (fc_rest c)\<rparr>, slice))"

definition undo_fragment :: "undo_map \<Rightarrow> lamport \<Rightarrow> fragment \<Rightarrow> undo_state \<Rightarrow> undo_state option" where
  "undo_fragment undos timestamp f st =
     (case fragment_is_visible undos f of
        None \<Rightarrow> None
      | Some visible \<Rightarrow>
          let fragment = f\<lparr>fr_visible := visible, fr_max_undos := version_observe (fr_max_undos f) timestamp\<rparr>;
              old_start = fc_start_visible (us_cursor st);
              new_start = visible_len (us_new_fragments st);
              edits =
                (if fr_visible f \<and> \<not> fr_visible fragment then
                   patch_push (us_edits st) (mk_edit old_start (old_start + fr_len fragment) new_start new_start)
                 else if \<not> fr_visible f \<and> fr_visible fragment then
                   patch_push (us_edits st) (mk_edit old_start old_start new_start (new_start + fr_len fragment))
                 else us_edits st)
          in Some \<lparr>us_cursor = fc_next (us_cursor st), us_new_fragments = us_new_fragments st @ [fragment],
                   us_ropes = rb_push_fragment (us_ropes st) fragment (fr_visible f), us_edits = edits\<rparr>)"

definition undo_step :: "undo_map \<Rightarrow> lamport \<Rightarrow> locator \<Rightarrow> undo_state \<Rightarrow> undo_state option" where
  "undo_step undos timestamp fragment_id st =
     (case fc_slice_id (us_cursor st) fragment_id of
        None \<Rightarrow> None
      | Some (c, preceding) \<Rightarrow>
          let st = st\<lparr>us_cursor := c, us_new_fragments := us_new_fragments st @ preceding,
                      us_ropes := rb_append (us_ropes st) preceding\<rparr>
          in case fc_item c of None \<Rightarrow> Some st | Some f \<Rightarrow> undo_fragment undos timestamp f st)"

fun undo_steps :: "undo_map \<Rightarrow> lamport \<Rightarrow> locator list \<Rightarrow> undo_state \<Rightarrow> undo_state option" where
  "undo_steps undos timestamp [] st = Some st"
| "undo_steps undos timestamp (i # ids) st =
     (case undo_step undos timestamp i st of None \<Rightarrow> None | Some st \<Rightarrow> undo_steps undos timestamp ids st)"

definition apply_undo :: "snapshot \<Rightarrow> undo_operation \<Rightarrow> (snapshot \<times> patch) option" where
  "apply_undo s undo =
     (case um_insert (sn_undo_map s) undo of
        None \<Rightarrow> None
      | Some undos \<Rightarrow>
          (case fragment_ids_for_edits s (map fst (uo_counts undo)) of
             None \<Rightarrow> None
           | Some ids \<Rightarrow>
               (case undo_steps undos (uo_timestamp undo) ids
                   \<lparr>us_cursor = \<lparr>fc_before = [], fc_rest = sn_fragments s\<rparr>, us_new_fragments = [],
                    us_ropes = rb_new (sn_visible_text s) (sn_deleted_text s), us_edits = []\<rparr> of
                  None \<Rightarrow> None
                | Some st \<Rightarrow>
                    let suffix = fc_rest (us_cursor st);
                        (visible, deleted) = rb_finish (rb_append (us_ropes st) suffix)
                    in Some (s\<lparr>sn_fragments := us_new_fragments st @ suffix, sn_visible_text := visible,
                               sn_deleted_text := deleted, sn_undo_map := undos\<rparr>,
                             us_edits st))))"

end
