(* ===== verification/Zed_Remote_Edit_Steps.thy ===== *)
theory Zed_Remote_Edit_Steps
  imports Zed_Remote_Edit Zed_Buffer_Edit_Facts
begin

text \<open>
  Remote edits against an abstract specification.  A text is a list of cells, each with the flag whether
  it is visible; \<open>weave\<close> says what an edit of another replica does to such a list.  The lemmas say that
  each step of \<open>apply_remote_edit\<close> does a part of it.
\<close>

section \<open>The specification\<close>

text \<open>A cell is marked with its visibility and the edits that deleted it; an old cell comes with the flag whether
  it was visible to the author of the edit.\<close>

type_synonym mark = "bool \<times> lamport list"
type_synonym old_cell = "cell \<times> mark \<times> bool"
type_synonym flagged_cell = "cell \<times> mark"

definition kept :: "old_cell \<Rightarrow> flagged_cell" where
  "kept x = (case x of (c, m, w) \<Rightarrow> (c, m))"

definition struck :: "lamport \<Rightarrow> old_cell \<Rightarrow> flagged_cell" where
  "struck ts x = (case x of (c, m, w) \<Rightarrow> (c, if w then (False, snd m @ [ts]) else m))"

text \<open>The shortest prefix with \<open>n\<close> observed cells.\<close>

fun split_observed :: "(cell \<Rightarrow> bool) \<Rightarrow> nat \<Rightarrow> old_cell list \<Rightarrow> old_cell list \<times> old_cell list" where
  "split_observed P 0 xs = ([], xs)"
| "split_observed P (Suc n) [] = ([], [])"
| "split_observed P (Suc n) (x # xs) =
     (let (l, r) = split_observed P (if P (fst x) then n else Suc n) xs in (x # l, r))"

text \<open>\<open>weave P newer ts o i es xs\<close>: the author has observed the cells in \<open>P\<close>, of which \<open>i\<close> came before
  \<open>xs\<close>; \<open>o\<close> bytes of the new insertion came before.  The text of an edit goes behind the observed cells
  before its range and behind the cells of newer insertions there; then the range is struck out.\<close>

fun weave ::
    "(cell \<Rightarrow> bool) \<Rightarrow> (cell \<Rightarrow> bool) \<Rightarrow> lamport \<Rightarrow> nat \<Rightarrow> nat \<Rightarrow> text_edits \<Rightarrow> old_cell list \<Rightarrow> flagged_cell list" where
  "weave P newer ts off i [] xs = map kept xs"
| "weave P newer ts off i (((a, b), t) # es) xs =
     (let (before, xs) = split_observed P (a - i) xs;
          run = takeWhile (\<lambda>x. newer (fst x)) xs;
          (range, rest) = split_observed P (b - a) (dropWhile (\<lambda>x. newer (fst x)) xs)
      in map kept before @ map kept run @ map (\<lambda>o'. ((ts, o'), True, [])) [off ..< off + length t] @
         map (struck ts) range @ weave P newer ts (off + length t) b es rest)"

definition observed_count :: "(cell \<Rightarrow> bool) \<Rightarrow> old_cell list \<Rightarrow> nat" where
  "observed_count P xs = length (filter (\<lambda>x. P (fst x)) xs)"

lemma observed_count_simps [simp]:
  "observed_count P [] = 0" "observed_count P (x # xs) = (if P (fst x) then 1 else 0) + observed_count P xs"
  "observed_count P (xs @ ys) = observed_count P xs + observed_count P ys"
  by (simp_all add: observed_count_def)

text \<open>A list is consumed by a split unless it ends in unobserved cells behind its last observed one.\<close>

definition closed :: "(cell \<Rightarrow> bool) \<Rightarrow> nat \<Rightarrow> old_cell list \<Rightarrow> bool" where
  "closed P n xs \<longleftrightarrow> observed_count P xs < n \<or> observed_count P xs = n \<and> (xs = [] \<or> P (fst (last xs)))"

lemma split_observed_append:
  "closed P n xs \<Longrightarrow> split_observed P n (xs @ ys) =
     (xs @ fst (split_observed P (n - observed_count P xs) ys), snd (split_observed P (n - observed_count P xs) ys))"
proof (induction xs arbitrary: n)
  case (Cons x xs)
  have "n \<noteq> 0"
  proof
    assume "n = 0"
    with Cons.prems have "observed_count P (x # xs) = 0" "P (fst (last (x # xs)))" by (auto simp: closed_def)
    then show False by (cases xs rule: rev_cases) (auto split: if_splits)
  qed
  then obtain m where n: "n = Suc m" by (cases n) auto
  have "closed P (if P (fst x) then m else n) xs"
    using Cons.prems by (auto simp: closed_def n split: if_splits)
  from Cons.IH [OF this] show ?case by (auto simp: n Let_def split_beta)
qed simp

text \<open>The second half of an edit: strike out the range up to \<open>b\<close>, then the other edits.\<close>

definition weave_range ::
    "(cell \<Rightarrow> bool) \<Rightarrow> (cell \<Rightarrow> bool) \<Rightarrow> lamport \<Rightarrow> nat \<Rightarrow> nat \<Rightarrow> nat \<Rightarrow> text_edits \<Rightarrow> old_cell list \<Rightarrow> flagged_cell list" where
  "weave_range P newer ts off i b es xs =
     (let (range, rest) = split_observed P (b - i) xs in map (struck ts) range @ weave P newer ts off b es rest)"

lemma weave_keep:
  assumes "es = [] \<or> (\<exists>a b t es'. es = ((a, b), t) # es' \<and> closed P (a - i) xs)"
  shows "weave P newer ts off i es (xs @ ys) = map kept xs @ weave P newer ts off (i + observed_count P xs) es ys"
  using assms
proof
  assume "\<exists>a b t es'. es = ((a, b), t) # es' \<and> closed P (a - i) xs"
  then obtain a b t es' where es: "es = ((a, b), t) # es'" and c: "closed P (a - i) xs" by blast
  show ?thesis by (simp add: es split_observed_append [OF c] Let_def split_beta)
qed simp

lemma weave_strike:
  assumes "closed P (b - i) xs"
  shows "weave_range P newer ts off i b es (xs @ ys) =
    map (struck ts) xs @ weave_range P newer ts off (i + observed_count P xs) b es ys"
  by (simp add: weave_range_def split_observed_append [OF assms] Let_def split_beta)

lemma weave_done: "weave_range P newer ts off b b es xs = weave P newer ts off b es xs"
  by (simp add: weave_range_def)

lemma weave_insert:
  assumes "\<forall>x \<in> set run. newer (fst x)" "xs = [] \<or> \<not> newer (fst (hd xs))"
  shows "weave P newer ts off a (((a, b), t) # es) (run @ xs) =
    map kept run @ map (\<lambda>o'. ((ts, o'), True, [])) [off ..< off + length t] @ weave_range P newer ts (off + length t) a b es xs"
proof -
  have "takeWhile (\<lambda>x. newer (fst x)) xs = [] \<and> dropWhile (\<lambda>x. newer (fst x)) xs = xs"
    using assms(2) by (cases xs) auto
  then show ?thesis
    using assms(1) by (simp add: weave_range_def takeWhile_append2 dropWhile_append2 Let_def split_beta)
qed

section \<open>Fragments as cells\<close>

definition fr_mark :: "fragment \<Rightarrow> mark" where
  "fr_mark f = (fr_visible f, fr_deletions f)"

lemma fr_mark_simps [simp]:
  "fst (fr_mark f) = fr_visible f" "snd (fr_mark f) = fr_deletions f"
  "fr_mark (fr_head k f) = fr_mark f" "fr_mark (fr_tail k f) = fr_mark f"
  "fr_mark (f\<lparr>fr_len := n\<rparr>) = fr_mark f" "fr_mark (f\<lparr>fr_insertion_offset := n\<rparr>) = fr_mark f"
  "fr_mark (f\<lparr>fr_id := i\<rparr>) = fr_mark f"
  by (simp_all add: fr_mark_def)

definition flagged :: "fragment list \<Rightarrow> flagged_cell list" where
  "flagged fs = concat (map (\<lambda>f. map (\<lambda>c. (c, fr_mark f)) (fr_cells f)) fs)"

definition old_cells :: "(fragment \<Rightarrow> bool) \<Rightarrow> fragment list \<Rightarrow> old_cell list" where
  "old_cells W fs = concat (map (\<lambda>f. map (\<lambda>c. (c, fr_mark f, W f)) (fr_cells f)) fs)"

lemma flagged_simps [simp]:
  "flagged [] = []" "flagged (f # fs) = map (\<lambda>c. (c, fr_mark f)) (fr_cells f) @ flagged fs"
  "flagged (fs @ gs) = flagged fs @ flagged gs"
  by (simp_all add: flagged_def)

lemma old_cells_simps [simp]:
  "old_cells W [] = []" "old_cells W (f # fs) = map (\<lambda>c. (c, fr_mark f, W f)) (fr_cells f) @ old_cells W fs"
  "old_cells W (fs @ gs) = old_cells W fs @ old_cells W gs"
  by (simp_all add: old_cells_def)

lemma kept_old_cells: "map kept (old_cells W fs) = flagged fs"
  by (induction fs) (simp_all add: kept_def)

lemma flagged_cells: "map fst (flagged fs) = cells fs" "map fst (filter (fst \<circ> snd) (flagged fs)) = vcells fs"
  by (induction fs) (simp_all add: comp_def filter_map)

lemma observed_old_cells: "observed_count (\<lambda>c. vclock_observed v (fst c)) (old_cells W fs) = versioned_len v fs"
  by (induction fs) (auto simp: versioned_len_def observed_count_def fr_cells_def comp_def filter_map)

lemma versioned_len_simps [simp]:
  "versioned_len v [] = 0" "versioned_len v (fs @ gs) = versioned_len v fs + versioned_len v gs"
  "versioned_len v (f # fs) = (if vclock_observed v (fr_timestamp f) then fr_len f else 0) + versioned_len v fs"
  by (simp_all add: versioned_len_def)

section \<open>The cursor of a remote edit\<close>

text \<open>Only fragments the author has observed are cut, and never at their end.\<close>

definition re_inv ::
    "(lamport \<Rightarrow> string) \<Rightarrow> snapshot \<Rightarrow> vclock \<Rightarrow> lamport \<Rightarrow> fragment list \<Rightarrow> fragment list \<Rightarrow> nat \<Rightarrow> edit_state \<Rightarrow> bool" where
  "re_inv ins s v ts B R k st \<longleftrightarrow> at_frag ins s ts B R k st \<and>
     (0 < k \<longrightarrow> vclock_observed v (fr_timestamp (hd R)) \<and> k < fr_len (hd R)) \<and>
     text_inv (sn_visible_text s) (visible_len (passed B R k)) st"

text \<open>The author knew no insertion newer than the edit.\<close>

definition remote_env :: "(lamport \<Rightarrow> string) \<Rightarrow> snapshot \<Rightarrow> vclock \<Rightarrow> lamport \<Rightarrow> bool" where
  "remote_env ins s v ts \<longleftrightarrow> edit_env ins s ts \<and>
     (\<forall>f \<in> set (sn_fragments s). vclock_observed v (fr_timestamp f) \<longrightarrow> fr_timestamp f < ts) \<and>
     (\<forall>f \<in> set (sn_fragments s). fragment_was_visible (sn_undo_map s) v f \<noteq> None)"

definition was_visible :: "snapshot \<Rightarrow> vclock \<Rightarrow> fragment \<Rightarrow> bool" where
  "was_visible s v f \<longleftrightarrow> fragment_was_visible (sn_undo_map s) v f = Some True"

abbreviation todo :: "snapshot \<Rightarrow> vclock \<Rightarrow> fragment list \<Rightarrow> nat \<Rightarrow> old_cell list" where
  "todo s v R k \<equiv> old_cells (was_visible s v) (remaining R k)"

abbreviation seen_cell :: "vclock \<Rightarrow> cell \<Rightarrow> bool" where
  "seen_cell v c \<equiv> vclock_observed v (fst c)"

lemma was_visible_cut [simp]:
  "was_visible s v (fr_head k f) = was_visible s v f" "was_visible s v (fr_tail k f) = was_visible s v f"
  by (simp_all only: was_visible_def fragment_was_visible_def fr_cut_simps)

lemma was_visible_observed: "was_visible s v f \<Longrightarrow> vclock_observed v (fr_timestamp f)"
  by (simp add: was_visible_def fragment_was_visible_def split: if_splits)

lemma frag_rope:
  assumes "edit_env ins s ts" "at_frag ins s ts B R k st"
  shows "rb_old_visible (es_ropes st) = sn_visible_text s"
    "rb_visible_offset (es_ropes st) = visible_len (passed B R k)"
    "visible_len (es_new_fragments st) = length (new_visible st)"
    "length (sn_visible_text s) = visible_len (passed B R k) + visible_len (remaining R k)"
proof -
  have F: "B @ R = sn_fragments s"
    and b: "built ins s ts (passed B R k) (remaining R k) st"
    and k: "0 < k \<longrightarrow> R \<noteq> [] \<and> k \<le> fr_len (hd R)"
    using assms(2) by (simp_all add: at_frag_def)
  have eq: "vcells (passed B R k @ remaining R k) = vcells (B @ R)"
    using k cut_cells(2) [of k "hd R" B "tl R"] by (cases R) (auto simp: passed_def remaining_def fr_cells_def)
  then show "rb_old_visible (es_ropes st) = sn_visible_text s"
    using b assms(1) F by (simp add: built_def edit_env_def snapshot_ok_def)
  show "rb_visible_offset (es_ropes st) = visible_len (passed B R k)"
    "visible_len (es_new_fragments st) = length (new_visible st)" using b by (simp_all add: built_def)
  have "length (sn_visible_text s) = length (vcells (B @ R))"
    using assms(1) by (simp add: edit_env_def snapshot_ok_def flip: F)
  then show "length (sn_visible_text s) = visible_len (passed B R k) + visible_len (remaining R k)"
    unfolding eq [symmetric] by simp
qed

lemma re_inv_cursor:
  assumes "re_inv ins s v ts B R k st"
  shows "es_cursor st = \<lparr>fc_before = B, fc_rest = R\<rparr>" "re_start v (es_cursor st) = versioned_len v B"
    "re_end v (es_cursor st) = versioned_len v B + versioned_len v (take 1 R)"
    "fc_start_visible (es_cursor st) = visible_len B"
    "0 < k \<Longrightarrow> R \<noteq> [] \<and> vclock_observed v (fr_timestamp (hd R)) \<and> k < fr_len (hd R)"
  using assms by (auto simp: re_inv_def at_frag_def re_start_def re_end_def fc_start_visible_def split: list.splits)

lemma fr_visible_push:
  "new_visible (es_push p w st) = new_visible st @ (if fr_visible p then
     (if w then take (fr_len p) (drop (rb_visible_offset (es_ropes st)) (rb_old_visible (es_ropes st)))
      else take (fr_len p) (drop (rb_deleted_offset (es_ropes st)) (rb_old_deleted (es_ropes st)))) else [])"
  by (simp add: es_push_def rb_push_fragment_def rb_push_def)

text \<open>The patch after a piece: nothing to say unless a visible piece was hidden.\<close>

definition piece_patch :: "fragment \<Rightarrow> fragment \<Rightarrow> nat \<Rightarrow> edit_state \<Rightarrow> patch" where
  "piece_patch f p pos st =
     (if fr_visible f \<and> \<not> fr_visible p then
        patch_push (es_patch st) (mk_edit pos (pos + fr_len p) (visible_len (es_new_fragments st)) (visible_len (es_new_fragments st)))
      else es_patch st)"

lemma piece_text:
  assumes env: "edit_env ins s ts" and at: "at_frag ins s ts B (f # R) k st" and p: "piece_of f k j p"
    and vis: "fr_visible p \<longrightarrow> fr_visible f"
    and ti: "text_inv (sn_visible_text s) (visible_len (passed B (f # R) k)) st"
    and st': "new_visible st' = new_visible (es_push p (fr_visible f) st)"
      "es_patch st' = piece_patch f p (visible_len (passed B (f # R) k)) st"
  shows "text_inv (sn_visible_text s) (visible_len (passed B (f # R) k) + (if fr_visible f then j else 0)) st'"
proof -
  note rope = frag_rope [OF env at]
  have len: "visible_len (passed B (f # R) k) + (if fr_visible f then j else 0) \<le> length (sn_visible_text s)"
    using rope(4) p by (auto simp: remaining_def piece_of_def)
  show ?thesis
  proof (cases "fr_visible f")
    case False
    then show ?thesis using ti st' vis by (simp add: text_inv_def piece_patch_def fr_visible_push)
  next
    case True
    show ?thesis
    proof (cases "fr_visible p")
      case True
      then have "new_visible st' = new_visible st @ take j (drop (visible_len (passed B (f # R) k)) (sn_visible_text s))"
        using st'(1) rope p vis by (simp add: fr_visible_push piece_of_def)
      then show ?thesis using text_keep [OF ti, of j] len vis True st'(2) by (simp add: piece_patch_def)
    next
      case False
      then have "new_visible st' = new_visible st @ []" using st'(1) by (simp add: fr_visible_push)
      then show ?thesis
        using text_replace [OF ti, of j st' "length (new_visible st)" "[]"] len True False st'(2) rope(3) p
        by (simp add: piece_patch_def piece_of_def)
    qed
  qed
qed

lemma todo_piece:
  assumes "piece_of f k j p" "k < fr_len f"
  shows "todo s v (f # R) k =
    map (\<lambda>c. (c, fr_mark f, was_visible s v f)) (fr_cells p) @
    (if k + j < fr_len f then todo s v (f # R) (k + j) else old_cells (was_visible s v) R)"
    "observed_count (seen_cell v) (map (\<lambda>c. (c, fr_mark f, was_visible s v f)) (fr_cells p)) =
       (if vclock_observed v (fr_timestamp f) then j else 0)"
proof -
  have "fr_cells (fr_tail k f) = fr_cells p @ fr_cells (fr_tail (k + j) f)"
    using assms(1) upt_add_eq_append [of "fr_insertion_offset f + k" "fr_insertion_offset f + k + j" "fr_len f - (k + j)"]
    by (simp add: fr_cells_def piece_of_def add.assoc flip: map_append)
  moreover have "k + j \<le> fr_len f" "0 < j" using assms(1) by (simp_all add: piece_of_def)
  moreover have "fr_cells (fr_tail (fr_len f) f) = []" by (simp add: fr_cells_def)
  ultimately show "todo s v (f # R) k =
    map (\<lambda>c. (c, fr_mark f, was_visible s v f)) (fr_cells p) @
    (if k + j < fr_len f then todo s v (f # R) (k + j) else old_cells (was_visible s v) R)"
    using assms(2) by (cases "k = 0") (auto simp: remaining_def)
  show "observed_count (seen_cell v) (map (\<lambda>c. (c, fr_mark f, was_visible s v f)) (fr_cells p)) =
       (if vclock_observed v (fr_timestamp f) then j else 0)"
    using assms(1) by (auto simp: observed_count_def fr_cells_def piece_of_def comp_def filter_map)
qed

text \<open>Pushing a piece of the current fragment, as it is or hidden.\<close>

lemma re_piece:
  assumes env: "remote_env ins s v ts" and inv: "re_inv ins s v ts B (f # R) k st" and p: "piece_of f k j p"
    and vis: "fr_visible p \<longrightarrow> fr_visible f" and mk: "marks ts f p"
    and id: "max_id (es_new_fragments st) < fr_id p" "last (fr_id p) \<noteq> 0"
    and st': "st' = (es_push p (fr_visible f) st)
      \<lparr>es_patch := piece_patch f p (visible_len (passed B (f # R) k)) st, es_slices := sl, es_fragment_start := n\<rparr>"
  shows "k + j < fr_len f \<Longrightarrow> vclock_observed v (fr_timestamp f) \<Longrightarrow> fr_id p < fr_id f \<Longrightarrow>
      re_inv ins s v ts B (f # R) (k + j) st'"
    and "k + j = fr_len f \<Longrightarrow> fr_id p \<le> fr_id f \<Longrightarrow>
      re_inv ins s v ts (B @ [f]) R 0 (st'\<lparr>es_cursor := \<lparr>fc_before = B @ [f], fc_rest = R\<rparr>\<rparr>)"
    and "flagged (es_new_fragments st') = flagged (es_new_fragments st) @ map (\<lambda>c. (c, fr_mark p)) (fr_cells p)"
proof -
  have env': "edit_env ins s ts" using env by (simp add: remote_env_def)
  have at: "at_frag ins s ts B (f # R) k st" and ti: "text_inv (sn_visible_text s) (visible_len (passed B (f # R) k)) st"
    using inv by (simp_all add: re_inv_def)
  have eqs: "new_visible st' = new_visible (es_push p (fr_visible f) st)"
    "es_patch st' = piece_patch f p (visible_len (passed B (f # R) k)) st" by (simp_all add: st')
  note ti' = piece_text [OF env' at p vis ti eqs]
  show "re_inv ins s v ts B (f # R) (k + j) st'"
    if "k + j < fr_len f" "vclock_observed v (fr_timestamp f)" "fr_id p < fr_id f"
  proof -
    have "at_frag ins s ts B (f # R) (k + j) st'"
      unfolding st' at_frag_update using at_frag_piece [OF env' at p mk id that(3)] .
    moreover have "visible_len (passed B (f # R) k) + (if fr_visible f then j else 0) = visible_len (passed B (f # R) (k + j))"
      using p by (auto simp: passed_def piece_of_def)
    ultimately show ?thesis using ti' that by (simp add: re_inv_def)
  qed
  show "re_inv ins s v ts (B @ [f]) R 0 (st'\<lparr>es_cursor := \<lparr>fc_before = B @ [f], fc_rest = R\<rparr>\<rparr>)"
    if "k + j = fr_len f" "fr_id p \<le> fr_id f"
  proof -
    have eq: "st'\<lparr>es_cursor := \<lparr>fc_before = B @ [f], fc_rest = R\<rparr>\<rparr> =
        ((es_push p (fr_visible f) st)\<lparr>es_cursor := \<lparr>fc_before = B @ [f], fc_rest = R\<rparr>\<rparr>)
          \<lparr>es_patch := piece_patch f p (visible_len (passed B (f # R) k)) st, es_slices := sl, es_fragment_start := n\<rparr>"
      by (simp add: st')
    have "at_frag ins s ts (B @ [f]) R 0 (st'\<lparr>es_cursor := \<lparr>fc_before = B @ [f], fc_rest = R\<rparr>\<rparr>)"
      unfolding eq at_frag_update using at_frag_last_piece [OF env' at p mk that(1) id that(2)] .
    moreover have "visible_len (passed B (f # R) k) + (if fr_visible f then j else 0) = visible_len (passed (B @ [f]) R 0)"
      using that(1) by (auto simp: passed_def)
    ultimately show ?thesis using ti' by (simp add: re_inv_def text_inv_def)
  qed
  show "flagged (es_new_fragments st') = flagged (es_new_fragments st) @ map (\<lambda>c. (c, fr_mark p)) (fr_cells p)"
    by (simp add: st')
qed

text \<open>A fragment copied as it is keeps its id when it is the rest of the current one.\<close>

lemma re_copy:
  assumes env: "remote_env ins s v ts" and inv: "re_inv ins s v ts B (X @ R) 0 st"
    and st': "st' = st\<lparr>es_cursor := \<lparr>fc_before = B @ X, fc_rest = R\<rparr>, es_ropes := rb_append (es_ropes st) X,
        es_new_fragments := es_new_fragments st @ X, es_fragment_start := n\<rparr>"
  shows "re_inv ins s v ts (B @ X) R 0 st'" "flagged (es_new_fragments st') = flagged (es_new_fragments st) @ flagged X"
proof -
  have env': "edit_env ins s ts" using env by (simp add: remote_env_def)
  have at: "at_frag ins s ts B (X @ R) 0 st" and ti: "text_inv (sn_visible_text s) (visible_len B) st"
    using inv by (simp_all add: re_inv_def passed_def)
  have at': "at_frag ins s ts (B @ X) R 0 st'" unfolding st' at_frag_update by (rule at_frag_copy [OF env' at])
  note rope = frag_rope [OF env' at]
  have "new_visible st' = new_visible st @ take (visible_len X) (drop (visible_len B) (sn_visible_text s))"
    using rope(1,2) by (simp add: st' passed_def)
  then have "text_inv (sn_visible_text s) (visible_len B + visible_len X) st'"
    using rope(4) by (intro text_keep [OF ti]) (simp_all add: st' passed_def remaining_def)
  then show "re_inv ins s v ts (B @ X) R 0 st'" using at' by (simp add: re_inv_def passed_def)
  show "flagged (es_new_fragments st') = flagged (es_new_fragments st) @ flagged X" by (simp add: st')
qed

lemma rb_append_one: "rb_append rb [f] = rb_push_fragment rb f (fr_visible f)"
  by (auto simp: rb_append_def rb_push_fragment_def rb_push_def)

text \<open>What the proof of a step states: the cells \<open>X\<close> went from what is left to the new fragments, marked by \<open>g\<close>.\<close>

definition moves ::
    "(lamport \<Rightarrow> string) \<Rightarrow> snapshot \<Rightarrow> vclock \<Rightarrow> lamport \<Rightarrow> (old_cell \<Rightarrow> flagged_cell) \<Rightarrow>
       fragment list \<times> fragment list \<times> nat \<times> edit_state \<Rightarrow> old_cell list \<Rightarrow>
       fragment list \<times> fragment list \<times> nat \<times> edit_state \<Rightarrow> bool" where
  "moves ins s v ts g before X after \<longleftrightarrow> (case (before, after) of ((B, R, k, st), (B', R', k', st')) \<Rightarrow>
     re_inv ins s v ts B' R' k' st' \<and> todo s v R k = X @ todo s v R' k' \<and>
     flagged (es_new_fragments st') = flagged (es_new_fragments st) @ map g X \<and>
     versioned_len v B' + k' = versioned_len v B + k + observed_count (seen_cell v) X \<and>
     es_insertion_offset st' = es_insertion_offset st)"

lemma moves_trans:
  "moves ins s v ts g (B, R, k, st) X (B', R', k', st') \<Longrightarrow> moves ins s v ts g (B', R', k', st') Y after \<Longrightarrow>
     moves ins s v ts g (B, R, k, st) (X @ Y) after"
  by (auto simp: moves_def)

lemma moves_refl: "re_inv ins s v ts B R k st \<Longrightarrow> moves ins s v ts g (B, R, k, st) [] (B, R, k, st)"
  by (simp add: moves_def)

end
