(* ===== verification/Zed_Remote_Edit_Facts.thy ===== *)
theory Zed_Remote_Edit_Facts
  imports Zed_Remote_Edit_Steps
begin

text \<open>\<open>apply_remote_edit\<close> as a whole implements \<open>weave\<close>.\<close>

section \<open>Before the range\<close>

lemma moves_piece:
  assumes env: "remote_env ins s v ts" and inv: "re_inv ins s v ts B (f # R) k st" and p: "piece_of f k j p" and kf: "k < fr_len f"
    and vis: "fr_visible p \<longrightarrow> fr_visible f" and mk: "marks ts f p"
    and id: "max_id (es_new_fragments st) < fr_id p" "last (fr_id p) \<noteq> 0"
    and st': "st' = (es_push p (fr_visible f) st)
      \<lparr>es_patch := piece_patch f p (visible_len (passed B (f # R) k)) st, es_slices := sl, es_fragment_start := n\<rparr>"
    and X: "X = map (\<lambda>c. (c, fr_mark f, was_visible s v f)) (fr_cells p)"
    and g: "\<forall>c. g (c, fr_mark f, was_visible s v f) = (c, fr_mark p)"
  shows "k + j < fr_len f \<Longrightarrow> vclock_observed v (fr_timestamp f) \<Longrightarrow> fr_id p < fr_id f \<Longrightarrow>
      moves ins s v ts g (B, f # R, k, st) X (B, f # R, k + j, st')"
    and "k + j = fr_len f \<Longrightarrow> fr_id p \<le> fr_id f \<Longrightarrow>
      moves ins s v ts g (B, f # R, k, st) X (B @ [f], R, 0, st'\<lparr>es_cursor := \<lparr>fc_before = B @ [f], fc_rest = R\<rparr>\<rparr>)"
proof -
  note piece = re_piece [OF env inv p vis mk id st'] and todo = todo_piece [OF p kf, where s = s and v = v]
  have gX: "map g X = map (\<lambda>c. (c, fr_mark p)) (fr_cells p)" by (simp add: X g [rule_format])
  have k0: "0 < k \<longrightarrow> vclock_observed v (fr_timestamp f)" using inv by (simp add: re_inv_def)
  have off: "es_insertion_offset st' = es_insertion_offset st" by (simp add: st')
  show "moves ins s v ts g (B, f # R, k, st) X (B, f # R, k + j, st')"
    if "k + j < fr_len f" "vclock_observed v (fr_timestamp f)" "fr_id p < fr_id f"
    unfolding moves_def prod.case using piece(1) [OF that] piece(3) todo gX that off by (simp add: X)
  show "moves ins s v ts g (B, f # R, k, st) X (B @ [f], R, 0, st'\<lparr>es_cursor := \<lparr>fc_before = B @ [f], fc_rest = R\<rparr>\<rparr>)"
    if "k + j = fr_len f" "fr_id p \<le> fr_id f"
  proof -
    have "todo s v R 0 = old_cells (was_visible s v) R" by (simp add: remaining_def)
    moreover have "observed_count (seen_cell v) X + k = (if vclock_observed v (fr_timestamp f) then fr_len f else 0)"
      using todo(2) that(1) k0 by (auto simp: X)
    ultimately show ?thesis
      unfolding moves_def prod.case using piece(2) [OF that] piece(3) todo(1) gX that off by (simp add: X)
  qed
qed

lemma last_observed:
  assumes "piece_of f k j p" "vclock_observed v (fr_timestamp f)" "X = map (\<lambda>c. (c, u, w)) (fr_cells p)"
  shows "X \<noteq> [] \<and> seen_cell v (fst (last X))"
  using assms by (auto simp: fr_cells_def piece_of_def last_map)

lemma re_inv_facts:
  assumes "remote_env ins s v ts" "re_inv ins s v ts B (f # R) k st"
  shows "fr_insertion_offset f + fr_len f < 2 ^ 32" "0 < fr_len f" "max_id (es_new_fragments st) < fr_id f" "last (fr_id f) \<noteq> 0"
    "fc_item (es_cursor st) = Some f" "fc_next (es_cursor st) = \<lparr>fc_before = B @ [f], fc_rest = R\<rparr>"
    "vclock_observed v (fr_timestamp f) \<Longrightarrow> fr_timestamp f < ts" "fragment_was_visible (sn_undo_map s) v f \<noteq> None"
    "k < fr_len f"
proof -
  have env: "edit_env ins s ts" and at: "at_frag ins s ts B (f # R) k st"
    using assms by (simp_all add: remote_env_def re_inv_def)
  have f: "f \<in> set (sn_fragments s)" using at in_set_conv_decomp unfolding at_frag_def by metis
  have fits: "fr_fits ins f" using at_frag_fits(1) [OF env at] .
  then show "fr_insertion_offset f + fr_len f < 2 ^ 32" "0 < fr_len f" "last (fr_id f) \<noteq> 0" by (simp_all add: fr_fits_def)
  show "max_id (es_new_fragments st) < fr_id f" "fc_item (es_cursor st) = Some f"
    "fc_next (es_cursor st) = \<lparr>fc_before = B @ [f], fc_rest = R\<rparr>"
    using at by (simp_all add: at_frag_def fc_item_def)
  show "vclock_observed v (fr_timestamp f) \<Longrightarrow> fr_timestamp f < ts" "fragment_was_visible (sn_undo_map s) v f \<noteq> None"
    using assms(1) f unfolding remote_env_def by blast+
  show "k < fr_len f" using assms(2) \<open>0 < fr_len f\<close> by (cases "k = 0") (simp_all add: re_inv_def)
qed

text \<open>The rest of the current fragment, as it is.\<close>

definition rest_piece :: "fragment \<Rightarrow> nat \<Rightarrow> fragment" where
  "rest_piece f k = f\<lparr>fr_len := fr_len f - k, fr_insertion_offset := fr_insertion_offset f + k\<rparr>"

lemma moves_rest:
  assumes env: "remote_env ins s v ts" and inv: "re_inv ins s v ts B (f # R) k st"
  defines "X \<equiv> map (\<lambda>c. (c, fr_mark f, was_visible s v f)) (fr_cells (rest_piece f k))"
  shows "moves ins s v ts kept (B, f # R, k, st) X
      (B @ [f], R, 0, (es_push (rest_piece f k) (fr_visible f) st)
        \<lparr>es_fragment_start := n, es_cursor := \<lparr>fc_before = B @ [f], fc_rest = R\<rparr>\<rparr>)"
    and "piece_of f k (fr_len f - k) (rest_piece f k)"
proof -
  note facts = re_inv_facts [OF env inv]
  show p: "piece_of f k (fr_len f - k) (rest_piece f k)" using facts(9) by (simp add: piece_of_def rest_piece_def)
  have "moves ins s v ts kept (B, f # R, k, st) X
      (B @ [f], R, 0, ((es_push (rest_piece f k) (fr_visible f) st)
        \<lparr>es_patch := piece_patch f (rest_piece f k) (visible_len (passed B (f # R) k)) st, es_slices := es_slices st, es_fragment_start := n\<rparr>)
        \<lparr>es_cursor := \<lparr>fc_before = B @ [f], fc_rest = R\<rparr>\<rparr>)"
    using facts by (intro moves_piece(2) [OF env inv p]) (auto simp: rest_piece_def X_def kept_def marks_def)
  moreover have "piece_patch f (rest_piece f k) (visible_len (passed B (f # R) k)) st = es_patch st"
    by (simp add: piece_patch_def rest_piece_def)
  ultimately show "moves ins s v ts kept (B, f # R, k, st) X
      (B @ [f], R, 0, (es_push (rest_piece f k) (fr_visible f) st)
        \<lparr>es_fragment_start := n, es_cursor := \<lparr>fc_before = B @ [f], fc_rest = R\<rparr>\<rparr>)"
    by (simp add: es_push_def)
qed

lemma re_finish:
  assumes env: "remote_env ins s v ts" and inv: "re_inv ins s v ts B R k st" and fs: "es_fragment_start st = versioned_len v B + k"
  shows "\<exists>st' B' R' X. re_finish_fragment v st = Some st' \<and> moves ins s v ts kept (B, R, k, st) X (B', R', 0, st') \<and>
    (k = 0 \<and> X = [] \<and> B' = B \<and> R' = R \<or> versioned_len v B' = versioned_len v B + versioned_len v (take 1 R))"
proof (cases "k = 0")
  case True
  then show ?thesis using inv fs re_inv_cursor [OF inv] moves_refl [of ins s v ts B R k st kept]
    by (intro exI [of _ st] exI [of _ B] exI [of _ R] exI [of _ "[]"]) (simp add: re_finish_fragment_def)
next
  case False
  then obtain f R' where R: "R = f # R'" using inv by (cases R) (auto simp: re_inv_def at_frag_def)
  note facts = re_inv_facts [OF env inv [unfolded R]] and cur = re_inv_cursor [OF inv]
  have obs: "vclock_observed v (fr_timestamp f)" using cur(5) False by (simp add: R)
  let ?st = "(es_push (rest_piece f k) (fr_visible f) st)\<lparr>es_cursor := \<lparr>fc_before = B @ [f], fc_rest = R'\<rparr>\<rparr>"
  have "re_finish_fragment v st = Some ?st"
    using False fs cur obs facts by (simp add: re_finish_fragment_def R rest_piece_def Let_def)
  moreover have eq: "(es_push (rest_piece f k) (fr_visible f) st)
      \<lparr>es_fragment_start := es_fragment_start st, es_cursor := \<lparr>fc_before = B @ [f], fc_rest = R'\<rparr>\<rparr> = ?st"
    by (cases st) (simp add: es_push_def)
  ultimately show ?thesis
    using moves_rest(1) [OF env inv [unfolded R], of "es_fragment_start st", unfolded eq] obs
    unfolding R
    by (intro ex4I [of _ ?st "B @ [f]" R' "map (\<lambda>c. (c, fr_mark f, was_visible s v f)) (fr_cells (rest_piece f k))"]) simp
qed

lemma split_versioned:
  assumes "split_versioned v target pos fs = (X, Y)"
  shows "fs = X @ Y" "pos < target \<Longrightarrow> pos + versioned_len v X < target"
    "Y \<noteq> [] \<Longrightarrow> target \<le> pos + versioned_len v X + versioned_len v (take 1 Y)"
  using assms by (induction v target pos fs arbitrary: X Y rule: split_versioned.induct)
    (auto simp: Let_def simp flip: add.assoc split: if_splits prod.splits)

text \<open>The positions of the cursor: \<open>pos\<close> has been reached.\<close>

definition re_at ::
    "(lamport \<Rightarrow> string) \<Rightarrow> snapshot \<Rightarrow> vclock \<Rightarrow> lamport \<Rightarrow> fragment list \<Rightarrow> fragment list \<Rightarrow> nat \<Rightarrow> nat \<Rightarrow> edit_state \<Rightarrow> bool" where
  "re_at ins s v ts B R k pos st \<longleftrightarrow> re_inv ins s v ts B R k st \<and> es_fragment_start st = pos \<and> versioned_len v B + k = pos"

lemma total_versioned:
  assumes "re_inv ins s v ts B R k st"
  shows "versioned_len v (sn_fragments s) = versioned_len v B + versioned_len v R" "versioned_len v (take 1 R) \<le> versioned_len v R"
    "k \<le> versioned_len v (take 1 R)"
proof -
  have F: "sn_fragments s = B @ R" using assms by (simp add: re_inv_def at_frag_def)
  show "versioned_len v (sn_fragments s) = versioned_len v B + versioned_len v R" unfolding F by simp
  show "versioned_len v (take 1 R) \<le> versioned_len v R" by (cases R) simp_all
  show "k \<le> versioned_len v (take 1 R)" using re_inv_cursor(5) [OF assms] by (cases R; cases "k = 0") auto
qed

lemma re_jump:
  assumes env: "remote_env ins s v ts" and at: "re_at ins s v ts B R k pos st"
    and a: "pos \<le> a" "a \<le> versioned_len v (sn_fragments s)"
  shows "\<exists>st' B' R' k' X. re_jump v a st = Some st' \<and> moves ins s v ts kept (B, R, k, st) X (B', R', k', st') \<and>
    re_at ins s v ts B' R' k' (pos + observed_count (seen_cell v) X) st' \<and>
    (X = [] \<or> pos + observed_count (seen_cell v) X < a) \<and>
    pos + observed_count (seen_cell v) X \<le> a \<and> a \<le> versioned_len v B' + versioned_len v (take 1 R')"
proof (cases "versioned_len v B + versioned_len v (take 1 R) < a")
  case False
  then have "re_jump v a st = Some st" using at re_inv_cursor(3) [of ins s v ts B R k st] by (simp add: re_jump_def re_at_def)
  moreover have "moves ins s v ts kept (B, R, k, st) [] (B, R, k, st)" using at by (simp add: re_at_def moves_refl)
  ultimately show ?thesis using at a False
    by (intro ex5I [of _ st B R k "[]"]) simp
next
  case True
  have inv: "re_inv ins s v ts B R k st" and fs: "es_fragment_start st = versioned_len v B + k" and pos: "pos = versioned_len v B + k"
    using at by (simp_all add: re_at_def)
  obtain st1 B1 R1 X1 where fin: "re_finish_fragment v st = Some st1"
    and m1: "moves ins s v ts kept (B, R, k, st) X1 (B1, R1, 0, st1)"
    and end1: "k = 0 \<and> X1 = [] \<and> B1 = B \<and> R1 = R \<or> versioned_len v B1 = versioned_len v B + versioned_len v (take 1 R)"
    using re_finish [OF env inv fs] by blast
  have B1: "versioned_len v B1 = pos + observed_count (seen_cell v) X1" and inv1: "re_inv ins s v ts B1 R1 0 st1"
    using m1 pos by (simp_all add: moves_def)
  obtain X Y where sp: "split_versioned v a (versioned_len v B1) R1 = (X, Y)" by fastforce
  note X = split_versioned [OF sp]
  let ?st = "st1\<lparr>es_cursor := \<lparr>fc_before = B1 @ X, fc_rest = Y\<rparr>, es_ropes := rb_append (es_ropes st1) X,
        es_new_fragments := es_new_fragments st1 @ X, es_fragment_start := versioned_len v (B1 @ X)\<rparr>"
  have jump: "re_jump v a st = Some ?st"
    using True re_inv_cursor [OF inv] re_inv_cursor(1) [OF inv1] fin sp
    by (simp add: re_jump_def fc_slice_versioned_def re_start_def)
  have copy: "re_inv ins s v ts (B1 @ X) Y 0 ?st" "flagged (es_new_fragments ?st) = flagged (es_new_fragments st1) @ flagged X"
    using re_copy [OF env inv1 [unfolded X(1)] refl] by simp_all
  have count: "observed_count (seen_cell v) (old_cells (was_visible s v) X) = versioned_len v X" by (rule observed_old_cells)
  have "moves ins s v ts kept (B1, R1, 0, st1) (old_cells (was_visible s v) X) (B1 @ X, Y, 0, ?st)"
    unfolding moves_def prod.case using copy count by (simp add: X(1) remaining_def kept_old_cells)
  with m1 have m: "moves ins s v ts kept (B, R, k, st) (X1 @ old_cells (was_visible s v) X) (B1 @ X, Y, 0, ?st)" by (rule moves_trans)
  have pos': "versioned_len v (B1 @ X) = pos + observed_count (seen_cell v) (X1 @ old_cells (was_visible s v) X)"
    using B1 count by simp
  have lt: "pos + observed_count (seen_cell v) (X1 @ old_cells (was_visible s v) X) < a"
    using X(2) end1 True pos B1 count by auto
  have "a \<le> versioned_len v (B1 @ X) + versioned_len v (take 1 Y)"
    using X(3) total_versioned(1) [OF copy(1)] a(2) by (cases "Y = []") auto
  then show ?thesis
    using jump m copy(1) pos' lt
    by (intro ex5I [of _ ?st "B1 @ X" Y 0 "X1 @ old_cells (was_visible s v) X"]) (simp add: re_at_def)
qed

text \<open>Moving past a fragment that ends where the range starts.\<close>

lemma closed_piece:
  assumes "piece_of f k j p" "vclock_observed v (fr_timestamp f)" "j \<le> n"
  shows "closed (seen_cell v) n (map (\<lambda>c. (c, u, w)) (fr_cells p))"
proof -
  have "observed_count (seen_cell v) (map (\<lambda>c. (c, u, w)) (fr_cells p)) = j"
    using assms(1,2) by (auto simp: observed_count_def fr_cells_def piece_of_def comp_def filter_map)
  then show ?thesis using last_observed [OF assms(1,2) refl, of u w] assms(3) by (auto simp: closed_def)
qed

lemma re_advance:
  assumes env: "remote_env ins s v ts" and at: "re_at ins s v ts B R k pos st"
    and a: "pos \<le> a" "a \<le> versioned_len v B + versioned_len v (take 1 R)"
  shows "\<exists>st' B' R' k' X. re_advance v a st = Some st' \<and> moves ins s v ts kept (B, R, k, st) X (B', R', k', st') \<and>
    re_at ins s v ts B' R' k' (pos + observed_count (seen_cell v) X) st' \<and> closed (seen_cell v) (a - pos) X \<and>
    (a = pos + observed_count (seen_cell v) X \<or>
     pos + observed_count (seen_cell v) X < a \<and> a < versioned_len v B' + versioned_len v (take 1 R'))"
proof -
  have inv: "re_inv ins s v ts B R k st" and fs: "es_fragment_start st = pos" and pos: "pos = versioned_len v B + k"
    using at by (simp_all add: re_at_def)
  note cur = re_inv_cursor [OF inv]
  show ?thesis
  proof (cases "versioned_len v B + versioned_len v (take 1 R) = a \<and> pos < a")
    case False
    then have "re_advance v a st = Some st" using cur fs by (auto simp: re_advance_def Let_def)
    then show ?thesis using False a at moves_refl [OF inv, of kept]
      by (intro ex5I [of _ st B R k "[]"]) (auto simp: closed_def)
  next
    case True
    then obtain f R' where R: "R = f # R'" and obs: "vclock_observed v (fr_timestamp f)"
      and len: "versioned_len v B + fr_len f = a" using pos by (cases R) (auto split: if_splits)
    note facts = re_inv_facts [OF env inv [unfolded R]] and rest = moves_rest [OF env inv [unfolded R]]
    let ?X = "map (\<lambda>c. (c, fr_mark f, was_visible s v f)) (fr_cells (rest_piece f k))"
    let ?st = "(es_push (rest_piece f k) (fr_visible f) st)
      \<lparr>es_fragment_start := a, es_cursor := \<lparr>fc_before = B @ [f], fc_rest = R'\<rparr>\<rparr>"
    have "re_advance v a st = Some (((es_push (rest_piece f k) (fr_visible f) st)
        \<lparr>es_cursor := \<lparr>fc_before = B @ [f], fc_rest = R'\<rparr>\<rparr>)\<lparr>es_fragment_start := a\<rparr>)"
      using fs cur obs facts pos
      by (simp add: re_advance_def R rest_piece_def Let_def re_start_def flip: len)
    moreover have "((es_push (rest_piece f k) (fr_visible f) st)
        \<lparr>es_cursor := \<lparr>fc_before = B @ [f], fc_rest = R'\<rparr>\<rparr>)\<lparr>es_fragment_start := a\<rparr> = ?st"
      by (cases st) (simp add: es_push_def)
    ultimately have "re_advance v a st = Some ?st" by simp
    moreover have X: "observed_count (seen_cell v) ?X = a - pos"
      using todo_piece(2) [OF rest(2) facts(9), where s = s and v = v] obs len pos by auto
    moreover have "re_at ins s v ts (B @ [f]) R' 0 a ?st"
      using rest(1) [of a] len obs by (auto simp: re_at_def moves_def)
    moreover have "closed (seen_cell v) (a - pos) ?X" using closed_piece [OF rest(2) obs] len pos by auto
    ultimately show ?thesis using rest(1) [of a] True unfolding R
      by (intro ex5I [of _ ?st "B @ [f]" R' 0 ?X]) simp
  qed
qed

text \<open>Skipping newer concurrent insertions.\<close>

lemma re_skip_loop:
  assumes env: "remote_env ins s v ts"
  shows "re_at ins s v ts B R 0 a st \<Longrightarrow>
    \<exists>B' R' X. moves ins s v ts kept (B, R, 0, st) X (B', R', 0, re_skip_loop a ts R st) \<and>
      re_at ins s v ts B' R' 0 a (re_skip_loop a ts R st) \<and>
      (\<forall>x \<in> set X. ts < fst (fst x)) \<and> (R' = [] \<or> \<not> ts < fr_timestamp (hd R'))"
proof (induction R arbitrary: B st)
  case Nil
  then show ?case using moves_refl [of ins s v ts B "[]" 0 st kept]
    by (intro exI [of _ B] exI [of _ "[]"]) (simp add: re_at_def)
next
  case (Cons f R)
  have inv: "re_inv ins s v ts B (f # R) 0 st" and fs: "es_fragment_start st = a" and pos: "versioned_len v B = a"
    using Cons.prems by (simp_all add: re_at_def)
  note facts = re_inv_facts [OF env inv]
  show ?case
  proof (cases "ts < fr_timestamp f")
    case False
    then show ?thesis using Cons.prems moves_refl [OF inv, of kept] fs
      by (intro exI [of _ B] exI [of _ "f # R"] exI [of _ "[]"]) simp
  next
    case True
    then have obs: "\<not> vclock_observed v (fr_timestamp f)" using facts(7) by auto
    let ?st = "st\<lparr>es_ropes := rb_push_fragment (es_ropes st) f (fr_visible f),
              es_new_fragments := es_new_fragments st @ [f], es_cursor := fc_next (es_cursor st)\<rparr>"
    let ?st' = "st\<lparr>es_cursor := \<lparr>fc_before = B @ [f], fc_rest = R\<rparr>, es_ropes := rb_append (es_ropes st) [f],
        es_new_fragments := es_new_fragments st @ [f], es_fragment_start := a\<rparr>"
    have eq: "?st = ?st'" using facts(6) fs by (cases st) (simp add: rb_append_one)
    have copy: "re_inv ins s v ts (B @ [f]) R 0 ?st'" "flagged (es_new_fragments ?st') = flagged (es_new_fragments st) @ flagged [f]"
      using re_copy [OF env _ refl, of B "[f]" R st a] inv by simp_all
    then have "re_at ins s v ts (B @ [f]) R 0 a ?st" unfolding eq using pos obs by (simp add: re_at_def)
    from Cons.IH [OF this] obtain B' R' X where IH:
      "moves ins s v ts kept (B @ [f], R, 0, ?st) X (B', R', 0, re_skip_loop a ts R ?st)"
      "re_at ins s v ts B' R' 0 a (re_skip_loop a ts R ?st)" "\<forall>x \<in> set X. ts < fst (fst x)"
      "R' = [] \<or> \<not> ts < fr_timestamp (hd R')" by blast
    have "observed_count (seen_cell v) (old_cells (was_visible s v) [f]) = versioned_len v [f]" by (rule observed_old_cells)
    then have m: "moves ins s v ts kept (B, f # R, 0, st) (old_cells (was_visible s v) [f]) (B @ [f], R, 0, ?st)"
      unfolding moves_def prod.case eq using copy obs kept_old_cells [of "was_visible s v" "[f]"] by (simp add: remaining_def)
    have "\<forall>x \<in> set (old_cells (was_visible s v) [f]). ts < fst (fst x)" using True by (auto simp: fr_cells_def)
    then show ?thesis using moves_trans [OF m IH(1)] IH(2-4) True fs
      by (intro exI [of _ B'] exI [of _ R'] exI [of _ "old_cells (was_visible s v) [f] @ X"]) auto
  qed
qed

text \<open>What is left starts with a cell that is not newer.\<close>

definition not_newer :: "lamport \<Rightarrow> old_cell list \<Rightarrow> bool" where
  "not_newer ts xs \<longleftrightarrow> xs = [] \<or> \<not> ts < fst (fst (hd xs))"

lemma todo_not_newer:
  assumes env: "remote_env ins s v ts" and inv: "re_inv ins s v ts B R k st"
    and "R = [] \<or> \<not> ts < fr_timestamp (hd R)"
  shows "not_newer ts (todo s v R k)"
proof (cases R)
  case (Cons f R')
  note facts = re_inv_facts [OF env inv [unfolded Cons]]
  have "fr_cells (fr_tail k f) \<noteq> []" using facts(9) by (auto simp: fr_cells_def)
  moreover have "\<forall>c \<in> set (fr_cells (fr_tail k f)). fst c = fr_timestamp f" by (auto simp: fr_cells_def)
  ultimately have "fst (hd (fr_cells (fr_tail k f))) = fr_timestamp f" by simp
  moreover have "todo s v R k = map (\<lambda>c. (c, fr_mark f, was_visible s v f)) (fr_cells (fr_tail k f)) @ old_cells (was_visible s v) R'"
    using facts(9) by (simp add: Cons remaining_def)
  ultimately show ?thesis
    using assms(3) \<open>fr_cells (fr_tail k f) \<noteq> []\<close> by (simp add: not_newer_def Cons hd_map)
next
  case Nil
  then have "k = 0" using re_inv_cursor(5) [OF inv] by auto
  then show ?thesis by (simp add: not_newer_def remaining_def Nil)
qed

lemma re_skip:
  assumes env: "remote_env ins s v ts" and at: "re_at ins s v ts B R k a st"
  shows "\<exists>B' R' k' X. moves ins s v ts kept (B, R, k, st) X (B', R', k', re_skip a ts st) \<and>
      re_at ins s v ts B' R' k' a (re_skip a ts st) \<and> (\<forall>x \<in> set X. ts < fst (fst x)) \<and> not_newer ts (todo s v R' k')"
proof -
  have inv: "re_inv ins s v ts B R k st" using at by (simp add: re_at_def)
  have skip: "re_skip a ts st = re_skip_loop a ts R st" using re_inv_cursor(1) [OF inv] by (simp add: re_skip_def)
  show ?thesis
  proof (cases "k = 0")
    case True
    from re_skip_loop [OF env at [unfolded True]] obtain B' R' X where
      m: "moves ins s v ts kept (B, R, 0, st) X (B', R', 0, re_skip_loop a ts R st)"
      and at': "re_at ins s v ts B' R' 0 a (re_skip_loop a ts R st)" and X: "\<forall>x \<in> set X. ts < fst (fst x)"
      and n: "R' = [] \<or> \<not> ts < fr_timestamp (hd R')" by blast
    have "re_inv ins s v ts B' R' 0 (re_skip_loop a ts R st)" using at' by (simp add: re_at_def)
    from todo_not_newer [OF env this n] have "not_newer ts (todo s v R' 0)" .
    with m at' X show ?thesis unfolding skip True by blast
  next
    case False
    then obtain f R' where R: "R = f # R'" and obs: "vclock_observed v (fr_timestamp f)"
      using re_inv_cursor(5) [OF inv] by (cases R) auto
    then have n: "\<not> ts < fr_timestamp f" using re_inv_facts(7) [OF env inv [unfolded R]] by auto
    then have "re_skip a ts st = st" by (simp add: skip R)
    moreover have "not_newer ts (todo s v R k)" using n by (intro todo_not_newer [OF env inv]) (simp add: R)
    ultimately show ?thesis using at moves_refl [OF inv, of kept]
      by (intro ex4I [of _ B R k "[]"]) simp
  qed
qed

lemma re_prefix:
  assumes env: "remote_env ins s v ts" and at: "re_at ins s v ts B R k pos st"
    and a: "pos < a" "a < versioned_len v B + versioned_len v (take 1 R)"
  shows "\<exists>st' k' X. re_prefix v a st = Some st' \<and> moves ins s v ts kept (B, R, k, st) X (B, R, k', st') \<and>
    re_at ins s v ts B R k' a st' \<and> closed (seen_cell v) (a - pos) X \<and> observed_count (seen_cell v) X = a - pos \<and>
    not_newer ts (todo s v R k')"
proof -
  have inv: "re_inv ins s v ts B R k st" and fs: "es_fragment_start st = pos" and pos: "pos = versioned_len v B + k"
    using at by (simp_all add: re_at_def)
  note cur = re_inv_cursor [OF inv]
  obtain f R' where R: "R = f # R'" and obs: "vclock_observed v (fr_timestamp f)" using a pos by (cases R) (auto split: if_splits)
  note facts = re_inv_facts [OF env inv [unfolded R]]
  obtain j where j: "a = pos + j" "0 < j" using a(1) less_imp_add_positive by blast
  have kj: "k + j < fr_len f" using a(2) j pos obs by (simp add: R)
  define p where "p = f\<lparr>fr_len := j, fr_insertion_offset := fr_insertion_offset f + k,
    fr_id := locator_between (max_id (es_new_fragments st)) (fr_id f)\<rparr>"
  have p: "piece_of f k j p" using j kj by (simp add: p_def piece_of_def)
  let ?X = "map (\<lambda>c. (c, fr_mark f, was_visible s v f)) (fr_cells p)"
  let ?st = "(es_push p (fr_visible f) st)\<lparr>es_fragment_start := a\<rparr>"
  have "re_prefix v a st = Some ?st"
    using fs cur obs facts kj j pos by (simp add: re_prefix_def R p_def Let_def)
  moreover have "moves ins s v ts kept (B, f # R', k, st) ?X (B, f # R', k + j,
      (es_push p (fr_visible f) st)\<lparr>es_patch := piece_patch f p (visible_len (passed B (f # R') k)) st, es_slices := es_slices st, es_fragment_start := a\<rparr>)"
    using facts obs kj
    by (intro moves_piece(1) [OF env inv [unfolded R] p])
      (auto simp: p_def kept_def marks_def locator_between_greater locator_between_less locator_between_last)
  moreover have "(es_push p (fr_visible f) st)\<lparr>es_patch := piece_patch f p (visible_len (passed B (f # R') k)) st, es_slices := es_slices st, es_fragment_start := a\<rparr> = ?st"
    by (cases st) (simp add: es_push_def piece_patch_def p_def)
  ultimately have r: "re_prefix v a st = Some ?st" "moves ins s v ts kept (B, f # R', k, st) ?X (B, f # R', k + j, ?st)" by simp_all
  have X: "observed_count (seen_cell v) ?X = j" using todo_piece(2) [OF p facts(9), where s = s and v = v] obs by simp
  have inv': "re_inv ins s v ts B (f # R') (k + j) ?st" using r(2) unfolding moves_def prod.case by blast
  moreover have "not_newer ts (todo s v (f # R') (k + j))"
    using facts(7) [OF obs] by (intro todo_not_newer [OF env inv']) auto
  moreover have "closed (seen_cell v) (a - pos) ?X" using closed_piece [OF p obs] j by simp
  moreover have "re_at ins s v ts B (f # R') (k + j) a ?st" using inv' pos j by (simp add: re_at_def)
  moreover have "observed_count (seen_cell v) ?X = a - pos" using X j by simp
  ultimately show ?thesis using r unfolding R by blast
qed

lemma re_prefix_none: "a \<le> es_fragment_start st \<Longrightarrow> re_prefix v a st = Some st"
  by (simp add: re_prefix_def)

lemma re_skip_none: "es_fragment_start st \<noteq> a \<Longrightarrow> re_skip a ts st = st"
  by (cases "fc_rest (es_cursor st)") (simp_all add: re_skip_def)

section \<open>The insertion\<close>

lemma re_insert_es_insert:
  "re_insert v t ts st = (es_insert t ts st)\<lparr>es_patch := (if t = [] then es_patch st else
     patch_push (es_patch st) (mk_edit
       (fc_start_visible (es_cursor st) + (case fc_item (es_cursor st) of None \<Rightarrow> 0
          | Some f \<Rightarrow> if fr_visible f then es_fragment_start st - re_start v (es_cursor st) else 0))
       (fc_start_visible (es_cursor st) + (case fc_item (es_cursor st) of None \<Rightarrow> 0
          | Some f \<Rightarrow> if fr_visible f then es_fragment_start st - re_start v (es_cursor st) else 0))
       (visible_len (es_new_fragments st)) (visible_len (es_new_fragments st) + length t)))\<rparr>"
  by (simp add: re_insert_def es_insert_def Let_def)

lemma flagged_insert:
  assumes "es_insertion_offset st + length t \<le> length (ins ts)" "length (ins ts) < 2 ^ 32"
  shows "flagged (es_new_fragments (es_insert t ts st)) = flagged (es_new_fragments st) @
    map (\<lambda>o'. ((ts, o'), True, [])) [es_insertion_offset st ..< es_insertion_offset st + length t]"
proof (cases "t = []")
  case False
  have "length t < 2 ^ 32" using assms by linarith
  then show ?thesis using False push_fragments_one [OF False] by (simp add: es_insert_def Let_def fr_cells_def fr_mark_def comp_def)
qed (simp add: es_insert_def)

lemma re_insert_step:
  assumes env: "remote_env ins s v ts" and at: "re_at ins s v ts B R k a st"
    and t: "es_insertion_offset st + length t \<le> length (ins ts)" "length (ins ts) < 2 ^ 32"
      "take (length t) (drop (es_insertion_offset st) (ins ts)) = t"
  shows "re_at ins s v ts B R k a (re_insert v t ts st) \<and>
    es_insertion_offset (re_insert v t ts st) = es_insertion_offset st + length t \<and>
    flagged (es_new_fragments (re_insert v t ts st)) = flagged (es_new_fragments st) @
      map (\<lambda>o'. ((ts, o'), True, [])) [es_insertion_offset st ..< es_insertion_offset st + length t]"
proof -
  have inv: "re_inv ins s v ts B R k st" and fs: "es_fragment_start st = a" and pos: "versioned_len v B + k = a"
    using at by (simp_all add: re_at_def)
  have env': "edit_env ins s ts" and at0: "at_frag ins s ts B R k st"
    and ti: "text_inv (sn_visible_text s) (visible_len (passed B R k)) st"
    using env inv by (simp_all add: remote_env_def re_inv_def)
  note cur = re_inv_cursor [OF inv] and rope = frag_rope [OF env' at0]
  have ins: "at_frag ins s ts B R k (es_insert t ts st)" "es_insertion_offset (es_insert t ts st) = es_insertion_offset st + length t"
    "new_visible (es_insert t ts st) = new_visible st @ t"
    using at_frag_insert [OF env' at0 t] by simp_all
  define old where "old = fc_start_visible (es_cursor st) + (case fc_item (es_cursor st) of None \<Rightarrow> 0
      | Some f \<Rightarrow> if fr_visible f then es_fragment_start st - re_start v (es_cursor st) else 0)"
  have old: "old = visible_len (passed B R k)"
    using cur fs pos by (cases R) (auto simp: old_def fc_item_def passed_def)
  let ?n = "visible_len (es_new_fragments st)"
  let ?st = "re_insert v t ts st"
  have st: "?st = (es_insert t ts st)\<lparr>es_patch := (if t = [] then es_patch st else patch_push (es_patch st) (mk_edit old old ?n (?n + length t)))\<rparr>"
    unfolding old_def by (rule re_insert_es_insert)
  have "text_inv (sn_visible_text s) (visible_len (passed B R k) + 0) ?st"
  proof (cases "t = []")
    case True
    then show ?thesis using ti ins(3) unfolding st text_inv_def by simp
  next
    case False
    then show ?thesis using ins(3) rope(3,4) old by (intro text_replace [OF ti, of 0 ?st ?n t]) (simp_all add: st)
  qed
  then have "re_inv ins s v ts B R k ?st" using inv ins(1) by (simp add: re_inv_def st)
  then show ?thesis using fs pos ins(2) flagged_insert [where ins = ins and ts = ts, OF t(1,2)] by (simp add: re_at_def st)
qed

section \<open>The range\<close>

lemma re_delete_done: "range_end \<le> es_fragment_start st \<Longrightarrow> re_delete undos v range_end ts st = Some st"
  by (subst re_delete.simps) simp

lemma re_delete_more:
  "es_fragment_start st < range_end \<Longrightarrow> fc_item (es_cursor st) = Some f \<Longrightarrow>
     re_delete_step undos v range_end ts f st = Some st' \<Longrightarrow>
     re_delete undos v range_end ts st = re_delete undos v range_end ts st'"
  by (subst re_delete.simps) simp

text \<open>The piece of an observed fragment that the range covers.\<close>

definition range_piece :: "snapshot \<Rightarrow> vclock \<Rightarrow> lamport \<Rightarrow> fragment \<Rightarrow> nat \<Rightarrow> nat \<Rightarrow> edit_state \<Rightarrow> fragment" where
  "range_piece s v ts f k j st =
     (let p = f\<lparr>fr_len := j, fr_insertion_offset := fr_insertion_offset f + k,
            fr_id := locator_between (max_id (es_new_fragments st)) (fr_id f)\<rparr>
      in if was_visible s v f then p\<lparr>fr_deletions := fr_deletions f @ [ts], fr_visible := False\<rparr> else p)"

lemma range_piece_simps [simp]:
  "fr_timestamp (range_piece s v ts f k j st) = fr_timestamp f"
  "fr_insertion_offset (range_piece s v ts f k j st) = fr_insertion_offset f + k"
  "fr_len (range_piece s v ts f k j st) = j"
  "fr_id (range_piece s v ts f k j st) = locator_between (max_id (es_new_fragments st)) (fr_id f)"
  "fr_visible (range_piece s v ts f k j st) = (fr_visible f \<and> \<not> was_visible s v f)"
  "fr_mark (range_piece s v ts f k j st) = (if was_visible s v f then (False, fr_deletions f @ [ts]) else fr_mark f)"
  by (auto simp: range_piece_def Let_def fr_mark_def)

lemma marks_range: "marks ts f (range_piece s v ts f k j st)"
  by (simp add: marks_def range_piece_def Let_def)

lemma re_delete_step:
  assumes env: "remote_env ins s v ts" and at: "re_at ins s v ts B (f # R) k pos st" and b: "pos < b"
  shows "\<exists>st' R' B' k' pos' X. re_delete_step (sn_undo_map s) v b ts f st = Some st' \<and>
    moves ins s v ts (struck ts) (B, f # R, k, st) X (B', R', k', st') \<and> re_at ins s v ts B' R' k' pos' st' \<and>
    pos' = pos + observed_count (seen_cell v) X \<and> pos' \<le> b \<and> closed (seen_cell v) (b - pos) X \<and> (R' = R \<or> pos' = b)"
proof -
  have inv: "re_inv ins s v ts B (f # R) k st" and fs: "es_fragment_start st = pos" and pos: "pos = versioned_len v B + k"
    using at by (simp_all add: re_at_def)
  note cur = re_inv_cursor [OF inv] and facts = re_inv_facts [OF env inv]
  show ?thesis
  proof (cases "vclock_observed v (fr_timestamp f)")
    case False
    then have k: "k = 0" and w: "\<not> was_visible s v f" using cur(5) was_visible_observed by auto
    have rest: "rest_piece f 0 = f" by (cases f) (simp add: rest_piece_def)
    let ?X = "map (\<lambda>c. (c, fr_mark f, was_visible s v f)) (fr_cells f)"
    let ?st = "(es_push f (fr_visible f) st)\<lparr>es_fragment_start := pos, es_cursor := \<lparr>fc_before = B @ [f], fc_rest = R\<rparr>\<rparr>"
    have "re_delete_step (sn_undo_map s) v b ts f st = Some ?st"
      using False cur facts b fs pos k by (simp add: re_delete_step_def Let_def)
    moreover have m: "moves ins s v ts kept (B, f # R, k, st) ?X (B @ [f], R, 0, ?st)"
      using moves_rest(1) [OF env inv, of pos] k by (simp add: rest)
    moreover have "map (struck ts) ?X = map kept ?X" using w by (simp add: struck_def kept_def)
    ultimately have r: "re_delete_step (sn_undo_map s) v b ts f st = Some ?st"
        "moves ins s v ts (struck ts) (B, f # R, k, st) ?X (B @ [f], R, 0, ?st)"
      unfolding moves_def prod.case by simp_all
    have X: "observed_count (seen_cell v) ?X = 0" using False by (auto simp: observed_count_def fr_cells_def filter_empty_conv)
    then have "closed (seen_cell v) (b - pos) ?X" using b by (simp add: closed_def)
    moreover have "re_at ins s v ts (B @ [f]) R 0 pos ?st"
      using m False pos k unfolding moves_def prod.case by (simp add: re_at_def)
    ultimately show ?thesis using r X b by (intro exI [of _ ?st] exI [of _ R] exI [of _ "B @ [f]"] exI [of _ 0] exI [of _ pos] exI [of _ ?X]) simp
  next
    case obs: True
    define j where "j = min b (versioned_len v B + fr_len f) - pos"
    have j: "0 < j" "k + j \<le> fr_len f" "min b (versioned_len v B + fr_len f) = pos + j" "pos + j \<le> b"
      using b pos facts(9) by (auto simp: j_def)
    let ?p = "range_piece s v ts f k j st"
    have p: "piece_of f k j ?p" using j by (simp add: piece_of_def)
    let ?X = "map (\<lambda>c. (c, fr_mark f, was_visible s v f)) (fr_cells ?p)"
    define sl where "sl = (if was_visible s v f then es_slices st @ [slice_from_fragment ts ?p] else es_slices st)"
    let ?st = "(es_push ?p (fr_visible f) st)
      \<lparr>es_patch := piece_patch f ?p (visible_len (passed B (f # R) k)) st, es_slices := sl, es_fragment_start := pos + j\<rparr>"
    have u32: "as_u32 j = j" "as_u32 k = k" "as_u32 (fr_insertion_offset f + k) = fr_insertion_offset f + k"
      using j facts(1) by simp_all
    have old: "visible_len B + k = visible_len (passed B (f # R) k)" if "fr_visible f" using that by (simp add: passed_def)
    have w: "fragment_was_visible (sn_undo_map s) v f = Some (was_visible s v f)"
      using facts(8) by (auto simp: was_visible_def)
    have step: "re_delete_step (sn_undo_map s) v b ts f st =
        Some (if versioned_len v B + fr_len f \<le> b then ?st\<lparr>es_cursor := \<lparr>fc_before = B @ [f], fc_rest = R\<rparr>\<rparr> else ?st)"
    proof -
      let ?q = "f\<lparr>fr_len := j, fr_insertion_offset := fr_insertion_offset f + k,
            fr_id := locator_between (max_id (es_new_fragments st)) (fr_id f)\<rparr>"
      have kj: "pos - versioned_len v B = k" "pos + j - pos = j" using pos by simp_all
      show ?thesis
        using obs w cur b fs facts(6) old j(1)
        by (cases "was_visible s v f"; cases "fr_visible f"; cases st)
          (simp_all add: re_delete_step_def Let_def j(3) kj u32 range_piece_def sl_def piece_patch_def es_push_def)
    qed
    have X: "observed_count (seen_cell v) ?X = j" using todo_piece(2) [OF p facts(9), where s = s and v = v] obs by simp
    have cl: "closed (seen_cell v) (b - pos) ?X" using j by (intro closed_piece [OF p obs]) simp
    note mv = moves_piece [OF env inv p facts(9) _ _ _ _ refl refl, where g = "struck ts"]
    show ?thesis
    proof (cases "versioned_len v B + fr_len f \<le> b")
      case True
      then have len: "k + j = fr_len f" using j pos by simp
      have m: "moves ins s v ts (struck ts) (B, f # R, k, st) ?X (B @ [f], R, 0, ?st\<lparr>es_cursor := \<lparr>fc_before = B @ [f], fc_rest = R\<rparr>\<rparr>)"
        using facts len
        by (intro mv(2)) (auto simp: struck_def marks_range locator_between_greater locator_between_less locator_between_last less_imp_le)
      moreover have "re_at ins s v ts (B @ [f]) R 0 (pos + j) (?st\<lparr>es_cursor := \<lparr>fc_before = B @ [f], fc_rest = R\<rparr>\<rparr>)"
        using m len pos obs unfolding moves_def prod.case by (simp add: re_at_def)
      ultimately show ?thesis using step True X cl j
        by (intro exI [of _ "?st\<lparr>es_cursor := \<lparr>fc_before = B @ [f], fc_rest = R\<rparr>\<rparr>"] exI [of _ R] exI [of _ "B @ [f]"]
            exI [of _ 0] exI [of _ "pos + j"] exI [of _ ?X]) simp
    next
      case False
      then have len: "k + j < fr_len f" "pos + j = b" using j pos by simp_all
      have m: "moves ins s v ts (struck ts) (B, f # R, k, st) ?X (B, f # R, k + j, ?st)"
        using facts len obs
        by (intro mv(1)) (auto simp: struck_def marks_range locator_between_greater locator_between_less locator_between_last)
      moreover have "re_at ins s v ts B (f # R) (k + j) (pos + j) ?st"
        using m pos unfolding moves_def prod.case by (simp add: re_at_def)
      ultimately show ?thesis using step False X cl j len
        by (intro exI [of _ ?st] exI [of _ "f # R"] exI [of _ B] exI [of _ "k + j"] exI [of _ "pos + j"] exI [of _ ?X]) simp
    qed
  qed
qed

abbreviation woven :: "vclock \<Rightarrow> lamport \<Rightarrow> nat \<Rightarrow> nat \<Rightarrow> text_edits \<Rightarrow> old_cell list \<Rightarrow> flagged_cell list" where
  "woven v ts \<equiv> weave (seen_cell v) (\<lambda>c. ts < fst c) ts"

abbreviation woven_range :: "vclock \<Rightarrow> lamport \<Rightarrow> nat \<Rightarrow> nat \<Rightarrow> nat \<Rightarrow> text_edits \<Rightarrow> old_cell list \<Rightarrow> flagged_cell list" where
  "woven_range v ts \<equiv> weave_range (seen_cell v) (\<lambda>c. ts < fst c) ts"

lemma moves_strike:
  assumes "moves ins s v ts (struck ts) (B, R, k, st) X (B', R', k', st')" "closed (seen_cell v) (b - pos) X"
  shows "flagged (es_new_fragments st') @ woven_range v ts off (pos + observed_count (seen_cell v) X) b es (todo s v R' k') =
    flagged (es_new_fragments st) @ woven_range v ts off pos b es (todo s v R k)"
  using assms(1) weave_strike [OF assms(2)] by (simp add: moves_def)

lemma moves_keep:
  assumes "moves ins s v ts kept (B, R, k, st) X (B', R', k', st')"
    and "es = [] \<or> (\<exists>a b t es'. es = ((a, b), t) # es' \<and> closed (seen_cell v) (a - pos) X)"
  shows "flagged (es_new_fragments st') @ woven v ts off (pos + observed_count (seen_cell v) X) es (todo s v R' k') =
    flagged (es_new_fragments st) @ woven v ts off pos es (todo s v R k)"
  using assms(1) weave_keep [OF assms(2)] by (simp add: moves_def)

lemma re_delete_loop:
  assumes env: "remote_env ins s v ts"
  shows "re_at ins s v ts B R k pos st \<Longrightarrow> pos \<le> b \<Longrightarrow> b \<le> versioned_len v (sn_fragments s) \<Longrightarrow>
    \<exists>st' B' R' k'. re_delete (sn_undo_map s) v b ts st = Some st' \<and> re_at ins s v ts B' R' k' b st' \<and>
      es_insertion_offset st' = es_insertion_offset st \<and>
      flagged (es_new_fragments st') @ woven v ts off b es (todo s v R' k') =
        flagged (es_new_fragments st) @ woven_range v ts off pos b es (todo s v R k)"
proof (induction R arbitrary: B k pos st)
  case Nil
  then have inv: "re_inv ins s v ts B [] k st" by (simp add: re_at_def)
  have "b = pos" using total_versioned [OF inv] Nil by (simp add: re_at_def)
  then show ?case using Nil by (intro ex4I [of _ st B "[]" k]) (simp add: re_delete_done re_at_def weave_done)
next
  case (Cons f R)
  show ?case
  proof (cases "pos = b")
    case True
    then show ?thesis using Cons.prems by (intro ex4I [of _ st B "f # R" k]) (simp add: re_delete_done re_at_def weave_done)
  next
    case False
    then have lt: "pos < b" using Cons.prems(2) by simp
    have inv: "re_inv ins s v ts B (f # R) k st" using Cons.prems(1) by (simp add: re_at_def)
    obtain st1 R1 B1 k1 pos1 X where step: "re_delete_step (sn_undo_map s) v b ts f st = Some st1"
      and m: "moves ins s v ts (struck ts) (B, f # R, k, st) X (B1, R1, k1, st1)" and at1: "re_at ins s v ts B1 R1 k1 pos1 st1"
      and pos1: "pos1 = pos + observed_count (seen_cell v) X" "pos1 \<le> b" and cl: "closed (seen_cell v) (b - pos) X"
      and R1: "R1 = R \<or> pos1 = b"
      using re_delete_step [OF env Cons.prems(1) lt] by blast
    have del: "re_delete (sn_undo_map s) v b ts st = re_delete (sn_undo_map s) v b ts st1"
      using lt Cons.prems(1) step re_inv_facts(5) [OF env inv] by (intro re_delete_more) (simp_all add: re_at_def)
    have off: "es_insertion_offset st1 = es_insertion_offset st" using m by (simp add: moves_def)
    note eq = moves_strike [OF m cl, of off es, folded pos1(1)]
    show ?thesis
    proof (cases "pos1 = b")
      case True
      then show ?thesis using at1 del off eq
        by (intro ex4I [of _ st1 B1 R1 k1]) (simp add: re_delete_done re_at_def weave_done)
    next
      case False
      then have "re_at ins s v ts B1 R k1 pos1 st1" using at1 R1 by simp
      from Cons.IH [OF this pos1(2) Cons.prems(3)] show ?thesis
        unfolding del using off eq R1 False by metis
    qed
  qed
qed

section \<open>One edit\<close>

lemma before_insertion:
  assumes env: "remote_env ins s v ts" and at: "re_at ins s v ts B R k pos st"
    and ab: "pos \<le> a" "a \<le> versioned_len v (sn_fragments s)"
  shows "\<exists>st1 st2 st3 B' R'. \<exists>k'. re_jump v a st = Some st1 \<and> re_advance v a st1 = Some st2 \<and>
    re_prefix v a (re_skip a ts st2) = Some st3 \<and> re_at ins s v ts B' R' k' a st3 \<and>
    es_insertion_offset st3 = es_insertion_offset st \<and>
    flagged (es_new_fragments st3) @ map (\<lambda>o'. ((ts, o'), True, [])) [off ..< off + length t] @
        woven_range v ts (off + length t) a b es (todo s v R' k') =
      flagged (es_new_fragments st) @ woven v ts off pos (((a, b), t) # es) (todo s v R k)"
proof -
  let ?c = "observed_count (seen_cell v)" and ?es = "((a, b), t) # es"
  obtain st1 B1 R1 k1 X1 where jump: "re_jump v a st = Some st1"
    and m1: "moves ins s v ts kept (B, R, k, st) X1 (B1, R1, k1, st1)" and at1: "re_at ins s v ts B1 R1 k1 (pos + ?c X1) st1"
    and X1: "X1 = [] \<or> pos + ?c X1 < a" "pos + ?c X1 \<le> a" "a \<le> versioned_len v B1 + versioned_len v (take 1 R1)"
    using re_jump [OF env at ab] by blast
  obtain st2 B2 R2 k2 X2 where adv: "re_advance v a st1 = Some st2"
    and m2: "moves ins s v ts kept (B1, R1, k1, st1) X2 (B2, R2, k2, st2)"
    and at2: "re_at ins s v ts B2 R2 k2 (pos + ?c X1 + ?c X2) st2" and X2: "closed (seen_cell v) (a - (pos + ?c X1)) X2"
    and pos2: "a = pos + ?c X1 + ?c X2 \<or> pos + ?c X1 + ?c X2 < a \<and> a < versioned_len v B2 + versioned_len v (take 1 R2)"
    using re_advance [OF env at1 X1(2,3)] by blast
  have "closed (seen_cell v) (a - pos) X1" using X1(1) by (auto simp: closed_def)
  then have eq1: "flagged (es_new_fragments st1) @ woven v ts off (pos + ?c X1) ?es (todo s v R1 k1) =
      flagged (es_new_fragments st) @ woven v ts off pos ?es (todo s v R k)"
    by (intro moves_keep [OF m1]) simp
  have eq2: "flagged (es_new_fragments st2) @ woven v ts off (pos + ?c X1 + ?c X2) ?es (todo s v R2 k2) =
      flagged (es_new_fragments st) @ woven v ts off pos ?es (todo s v R k)"
    using X2 unfolding eq1 [symmetric] by (intro moves_keep [OF m2]) simp
  have off2: "es_insertion_offset st2 = es_insertion_offset st" using m1 m2 by (simp add: moves_def)
  show ?thesis
  proof (cases "a = pos + ?c X1 + ?c X2")
    case True
    obtain B3 R3 k3 X3 where m3: "moves ins s v ts kept (B2, R2, k2, st2) X3 (B3, R3, k3, re_skip a ts st2)"
      and at3: "re_at ins s v ts B3 R3 k3 a (re_skip a ts st2)" and X3: "\<forall>x \<in> set X3. ts < fst (fst x)"
      and nn: "not_newer ts (todo s v R3 k3)"
      using re_skip [OF env at2 [folded True]] by blast
    have "re_prefix v a (re_skip a ts st2) = Some (re_skip a ts st2)"
      using at3 by (intro re_prefix_none) (simp add: re_at_def)
    moreover have "woven v ts off a ?es (X3 @ todo s v R3 k3) = map kept X3 @
        map (\<lambda>o'. ((ts, o'), True, [])) [off ..< off + length t] @ woven_range v ts (off + length t) a b es (todo s v R3 k3)"
      using X3 nn by (intro weave_insert) (simp_all add: not_newer_def)
    then have "flagged (es_new_fragments (re_skip a ts st2)) @ map (\<lambda>o'. ((ts, o'), True, [])) [off ..< off + length t] @
        woven_range v ts (off + length t) a b es (todo s v R3 k3) =
      flagged (es_new_fragments st) @ woven v ts off pos ?es (todo s v R k)"
      using eq2 m3 True by (simp add: moves_def)
    moreover have "es_insertion_offset (re_skip a ts st2) = es_insertion_offset st" using m3 off2 by (simp add: moves_def)
    ultimately show ?thesis using jump adv at3 by blast
  next
    case False
    then have lt: "pos + ?c X1 + ?c X2 < a" "a < versioned_len v B2 + versioned_len v (take 1 R2)" using pos2 by auto
    obtain st3 k3 X3 where pre: "re_prefix v a st2 = Some st3"
      and m3: "moves ins s v ts kept (B2, R2, k2, st2) X3 (B2, R2, k3, st3)" and at3: "re_at ins s v ts B2 R2 k3 a st3"
      and X3: "closed (seen_cell v) (a - (pos + ?c X1 + ?c X2)) X3" "?c X3 = a - (pos + ?c X1 + ?c X2)"
      and nn: "not_newer ts (todo s v R2 k3)"
      using re_prefix [OF env at2 lt] by blast
    have "re_skip a ts st2 = st2" using at2 False by (intro re_skip_none) (simp add: re_at_def)
    moreover have "pos + ?c X1 + ?c X2 + ?c X3 = a" using X3(2) lt(1) by simp
    then have "flagged (es_new_fragments st3) @ woven v ts off a ?es (todo s v R2 k3) =
        flagged (es_new_fragments st) @ woven v ts off pos ?es (todo s v R k)"
      using moves_keep [OF m3, of ?es "pos + ?c X1 + ?c X2" off] X3(1) eq2 by simp
    moreover have "woven v ts off a ?es ([] @ todo s v R2 k3) = map kept [] @
        map (\<lambda>o'. ((ts, o'), True, [])) [off ..< off + length t] @ woven_range v ts (off + length t) a b es (todo s v R2 k3)"
      using nn by (intro weave_insert) (simp_all add: not_newer_def)
    moreover have "es_insertion_offset st3 = es_insertion_offset st" using m3 off2 by (simp add: moves_def)
    ultimately show ?thesis using jump adv pre at3
      by (intro exI [of _ st1] exI [of _ st2] exI [of _ st3] exI [of _ B2] exI [of _ R2] exI [of _ k3]) (simp del: weave.simps)
  qed
qed

lemma re_edit_step:
  assumes env: "remote_env ins s v ts" and at: "re_at ins s v ts B R k pos st"
    and ab: "pos \<le> a" "a \<le> b" "b \<le> versioned_len v (sn_fragments s)"
    and t: "es_insertion_offset st + length t \<le> length (ins ts)" "length (ins ts) < 2 ^ 32"
      "take (length t) (drop (es_insertion_offset st) (ins ts)) = t"
  shows "\<exists>st' B' R' k'. re_edit (sn_undo_map s) v ts ((a, b), t) st = Some st' \<and> re_at ins s v ts B' R' k' b st' \<and>
    es_insertion_offset st' = es_insertion_offset st + length t \<and>
    flagged (es_new_fragments st') @ woven v ts (es_insertion_offset st + length t) b es (todo s v R' k') =
      flagged (es_new_fragments st) @ woven v ts (es_insertion_offset st) pos (((a, b), t) # es) (todo s v R k)"
proof -
  let ?off = "es_insertion_offset st"
  obtain st1 st2 st3 B3 R3 k3 where before: "re_jump v a st = Some st1" "re_advance v a st1 = Some st2"
      "re_prefix v a (re_skip a ts st2) = Some st3" and at3: "re_at ins s v ts B3 R3 k3 a st3"
    and off3: "es_insertion_offset st3 = ?off"
    and eq3: "flagged (es_new_fragments st3) @ map (\<lambda>o'. ((ts, o'), True, [])) [?off ..< ?off + length t] @
        woven_range v ts (?off + length t) a b es (todo s v R3 k3) =
      flagged (es_new_fragments st) @ woven v ts ?off pos (((a, b), t) # es) (todo s v R k)"
    using before_insertion [OF env at ab(1) order_trans [OF ab(2,3)], of ?off t b es] by blast
  let ?st4 = "re_insert v t ts st3"
  have ins4: "re_at ins s v ts B3 R3 k3 a ?st4" "es_insertion_offset ?st4 = ?off + length t"
    "flagged (es_new_fragments ?st4) = flagged (es_new_fragments st3) @ map (\<lambda>o'. ((ts, o'), True, [])) [?off ..< ?off + length t]"
    using re_insert_step [OF env at3, of t] t off3 by simp_all
  from re_delete_loop [OF env ins4(1) ab(2,3), of "?off + length t" es] obtain st5 B5 R5 k5 where
    del: "re_delete (sn_undo_map s) v b ts ?st4 = Some st5" "re_at ins s v ts B5 R5 k5 b st5"
      "es_insertion_offset st5 = es_insertion_offset ?st4"
      "flagged (es_new_fragments st5) @ woven v ts (?off + length t) b es (todo s v R5 k5) =
        flagged (es_new_fragments ?st4) @ woven_range v ts (?off + length t) a b es (todo s v R3 k3)" by blast
  have "re_edit (sn_undo_map s) v ts ((a, b), t) st = Some st5" using before del(1) by (simp add: re_edit_def)
  moreover have "flagged (es_new_fragments st5) @ woven v ts (?off + length t) b es (todo s v R5 k5) =
      flagged (es_new_fragments st) @ woven v ts ?off pos (((a, b), t) # es) (todo s v R k)"
    unfolding del(4) ins4(3) eq3 [symmetric] by simp
  moreover have "es_insertion_offset st5 = ?off + length t" using del(3) ins4(2) by simp
  ultimately show ?thesis using del(2) by blast
qed

lemma re_edits_steps:
  assumes env: "remote_env ins s v ts" and len: "length (ins ts) < 2 ^ 32"
  shows "re_at ins s v ts B R k pos st \<Longrightarrow> edits_ok (versioned_len v (sn_fragments s)) pos es \<Longrightarrow>
    drop (es_insertion_offset st) (ins ts) = concat (map snd es) \<Longrightarrow> es_insertion_offset st \<le> length (ins ts) \<Longrightarrow>
    \<exists>st' pos' B' R' k'. re_edits (sn_undo_map s) v ts es st = Some st' \<and> re_at ins s v ts B' R' k' pos' st' \<and>
      es_insertion_offset st' = length (ins ts) \<and>
      flagged (es_new_fragments st') @ map kept (todo s v R' k') =
        flagged (es_new_fragments st) @ woven v ts (es_insertion_offset st) pos es (todo s v R k)"
proof (induction es arbitrary: B R k pos st)
  case Nil
  then show ?case by (intro ex5I [of _ st pos B R k]) simp
next
  case (Cons e es)
  let ?o = "es_insertion_offset st"
  obtain a b t where e: "e = ((a, b), t)" by (cases e) auto
  have d: "drop ?o (ins ts) = t @ concat (map snd es)" using Cons.prems(3) by (simp add: e)
  have ok: "pos \<le> a" "a \<le> b" "edits_ok (versioned_len v (sn_fragments s)) b es" using Cons.prems(2) by (simp_all add: e)
  have le: "?o + length t \<le> length (ins ts)" using arg_cong [OF d, of length] Cons.prems(4) by simp
  have t: "take (length t) (drop ?o (ins ts)) = t" unfolding d by simp
  from re_edit_step [OF env Cons.prems(1) ok(1,2) edits_ok_le [OF ok(3)] le len t, of es]
  obtain st1 B1 R1 k1 where st1: "re_edit (sn_undo_map s) v ts ((a, b), t) st = Some st1" "re_at ins s v ts B1 R1 k1 b st1"
      "es_insertion_offset st1 = ?o + length t"
      "flagged (es_new_fragments st1) @ woven v ts (?o + length t) b es (todo s v R1 k1) =
        flagged (es_new_fragments st) @ woven v ts ?o pos (((a, b), t) # es) (todo s v R k)" by blast
  have "drop (es_insertion_offset st1) (ins ts) = drop (length t) (drop ?o (ins ts))" by (simp add: st1(3) add.commute)
  then have "drop (es_insertion_offset st1) (ins ts) = concat (map snd es)" unfolding d by simp
  from Cons.IH [OF st1(2) ok(3) this] le st1(3) obtain st' pos' B' R' k' where
    IH: "re_edits (sn_undo_map s) v ts es st1 = Some st'" "re_at ins s v ts B' R' k' pos' st'"
      "es_insertion_offset st' = length (ins ts)"
      "flagged (es_new_fragments st') @ map kept (todo s v R' k') =
        flagged (es_new_fragments st1) @ woven v ts (es_insertion_offset st1) b es (todo s v R1 k1)" by auto
  then show ?case using st1 by (intro ex5I [of _ st' pos' B' R' k']) (simp add: e del: weave.simps)
qed

lemma split_versioned_zero: "split_versioned v 0 0 fs = ([], fs)"
  by (cases fs) simp_all

lemma re_start_at:
  assumes env: "remote_env ins s v ts"
  shows "\<exists>B R pos. re_at ins s v ts B R 0 pos (re_start_state s v a) \<and> pos \<le> a \<and>
    es_insertion_offset (re_start_state s v a) = 0 \<and>
    flagged (es_new_fragments (re_start_state s v a)) @ woven v ts 0 pos (((a, b), t) # es) (todo s v R 0) =
      woven v ts 0 0 (((a, b), t) # es) (old_cells (was_visible s v) (sn_fragments s))"
proof -
  let ?F = "sn_fragments s"
  have env': "edit_env ins s ts" using env by (simp add: remote_env_def)
  obtain X Y where sp: "split_versioned v a 0 ?F = (X, Y)" by fastforce
  have F: "?F = X @ Y" using split_versioned(1) [OF sp] .
  have X: "X = [] \<or> versioned_len v X < a"
    using split_versioned(2) [OF sp] sp split_versioned_zero [of v ?F] by (cases "a = 0") auto
  define st where "st = \<lparr>es_cursor = \<lparr>fc_before = [], fc_rest = ?F\<rparr>, es_new_fragments = [],
    es_ropes = rb_new (sn_visible_text s) (sn_deleted_text s), es_fragment_start = 0, es_patch = [],
    es_new_insertions = [], es_insertion_offset = 0, es_slices = [], es_ranges = [], es_new_text = []\<rparr>"
  have "at_frag ins s ts [] ?F 0 st"
    using env' snapshot_index [of ins s] by (auto simp: at_frag_def built_def passed_def remaining_def st_def rb_new_def edit_env_def snapshot_ok_def
        fr_fits_def)
  then have inv: "re_inv ins s v ts [] (X @ Y) 0 st"
    unfolding F by (simp add: re_inv_def text_inv_def passed_def st_def rb_new_def patch_new_ok_def)
  have eq: "re_start_state s v a = st\<lparr>es_cursor := \<lparr>fc_before = [] @ X, fc_rest = Y\<rparr>, es_ropes := rb_append (es_ropes st) X,
      es_new_fragments := es_new_fragments st @ X, es_fragment_start := versioned_len v X\<rparr>"
    by (simp add: re_start_state_def fc_slice_versioned_def re_start_def sp st_def)
  note copy = re_copy [OF env inv eq]
  have at: "re_at ins s v ts X Y 0 (versioned_len v X) (re_start_state s v a)"
    using copy(1) by (simp add: re_at_def) (simp add: eq)
  have "closed (seen_cell v) (a - 0) (old_cells (was_visible s v) X)"
    using X by (auto simp: closed_def observed_old_cells)
  then have "woven v ts 0 0 (((a, b), t) # es) (old_cells (was_visible s v) X @ old_cells (was_visible s v) Y) =
      map kept (old_cells (was_visible s v) X) @
      woven v ts 0 (0 + observed_count (seen_cell v) (old_cells (was_visible s v) X)) (((a, b), t) # es) (old_cells (was_visible s v) Y)"
    by (intro weave_keep) simp
  then have "flagged (es_new_fragments (re_start_state s v a)) @ woven v ts 0 (versioned_len v X) (((a, b), t) # es) (todo s v Y 0) =
      woven v ts 0 0 (((a, b), t) # es) (old_cells (was_visible s v) ?F)"
    using copy(2) by (simp add: F remaining_def kept_old_cells observed_old_cells st_def del: weave.simps)
  moreover have "es_insertion_offset (re_start_state s v a) = 0" by (simp add: eq st_def)
  moreover have "versioned_len v X \<le> a" using X by auto
  ultimately show ?thesis using at by blast
qed

lemma built_finish:
  assumes "built ins s ts C [] st"
  shows "rb_finish (es_ropes st) = (new_visible st, rb_new_deleted (es_ropes st))"
  using assms by (simp add: built_def rb_finish_def)

lemma re_finish_all:
  assumes env: "remote_env ins s v ts" and at: "re_at ins s v ts B R k pos st"
  shows "\<exists>st1 N U V. re_finish_fragment v st = Some st1 \<and> es_finish st1 = (N, U, V) \<and>
    flagged N = flagged (es_new_fragments st) @ map kept (todo s v R k) \<and>
    patch_rel 0 0 (es_patch st1) (sn_visible_text s) U \<and> patch_new_ok (es_patch st1) \<and>
    (\<forall>f \<in> set N. origin (sn_fragments s) ts f) \<and>
    snapshot_ok ins (s\<lparr>sn_fragments := N, sn_insertions := insert_insertions (sn_insertions s) (es_new_insertions st1),
      sn_visible_text := U, sn_deleted_text := V, sn_insertion_slices := sl st1\<rparr>)"
proof -
  have env': "edit_env ins s ts" using env by (simp add: remote_env_def)
  have inv: "re_inv ins s v ts B R k st" and fs: "es_fragment_start st = versioned_len v B + k"
    using at by (simp_all add: re_at_def)
  obtain st1 B1 R1 X where fin: "re_finish_fragment v st = Some st1"
    and m: "moves ins s v ts kept (B, R, k, st) X (B1, R1, 0, st1)"
    using re_finish [OF env inv fs] by blast
  have inv1: "re_inv ins s v ts B1 (R1 @ []) 0 st1" using m by (simp add: moves_def)
  define st2 where "st2 = st1\<lparr>es_cursor := \<lparr>fc_before = B1 @ R1, fc_rest = []\<rparr>, es_ropes := rb_append (es_ropes st1) R1,
        es_new_fragments := es_new_fragments st1 @ R1, es_fragment_start := 0\<rparr>"
  note copy = re_copy [OF env inv1 st2_def]
  have FB: "sn_fragments s = B1 @ R1" using inv1 by (simp add: re_inv_def at_frag_def)
  have b: "built ins s ts (B1 @ R1) [] st2" and ti: "text_inv (sn_visible_text s) (visible_len (B1 @ R1)) st2"
    using copy(1) unfolding re_inv_def at_frag_def passed_def remaining_def by (simp_all add: FB)
  have cur: "fc_rest (es_cursor st1) = R1" using re_inv_cursor(1) [OF inv1] by simp
  have len: "visible_len (B1 @ R1) = length (sn_visible_text s)"
    using frag_rope(4) [OF env', of "B1 @ R1" "[]" 0 st2] copy(1) by (simp add: re_inv_def passed_def remaining_def)
  have f: "es_new_fragments st2 = es_new_fragments st1 @ R1" "es_ropes st2 = rb_append (es_ropes st1) R1"
    "es_patch st2 = es_patch st1" "es_new_insertions st2 = es_new_insertions st1" by (simp_all add: st2_def)
  have "es_finish st1 = (es_new_fragments st2, new_visible st2, rb_new_deleted (es_ropes st2))"
    using built_finish [OF b] by (simp add: es_finish_def cur f)
  moreover have "flagged (es_new_fragments st2) = flagged (es_new_fragments st) @ map kept (todo s v R k)"
    using copy(2) m by (simp add: moves_def remaining_def kept_old_cells)
  moreover have "patch_rel 0 0 (es_patch st1) (sn_visible_text s) (new_visible st2)" "patch_new_ok (es_patch st1)"
    using ti len f(3) by (simp_all add: text_inv_def)
  moreover have "\<forall>f \<in> set (es_new_fragments st2). origin (sn_fragments s) ts f" using b by (simp add: built_def)
  moreover have "snapshot_ok ins (s\<lparr>sn_fragments := es_new_fragments st2, sn_insertions := insert_insertions (sn_insertions s) (es_new_insertions st1),
      sn_visible_text := new_visible st2, sn_deleted_text := rb_new_deleted (es_ropes st2), sn_insertion_slices := sl st1\<rparr>)"
    using built_done [OF env' b, of "sl st1"] f(4) by simp
  ultimately show ?thesis using fin by blast
qed

lemma all_deletions_some: "\<forall>d. P d \<noteq> None \<Longrightarrow> all_deletions P ds \<noteq> None"
proof (induction ds)
  case (Cons d ds)
  obtain b where "P d = Some b" using Cons.prems by blast
  then show ?case using Cons by (cases b) auto
qed simp

lemma was_undone_some:
  assumes "um_ok undos" "st_height undos < 16"
  shows "um_was_undone undos d v \<noteq> None" "um_is_undone undos d \<noteq> None"
  by (simp_all add: um_was_undone_def um_is_undone_def um_undo_count_def um_counts_from [OF assms])

lemma fragment_was_visible_some:
  assumes "um_ok undos" "st_height undos < 16"
  shows "fragment_was_visible undos v f \<noteq> None"
proof -
  have "all_deletions (\<lambda>d. if \<not> vclock_observed v d then Some True else um_was_undone undos d v) (fr_deletions f) \<noteq> None"
    using was_undone_some(1) [OF assms] by (intro all_deletions_some) (metis option.distinct(1))
  then show ?thesis
    using was_undone_some(1) [OF assms, of "fr_timestamp f" v] by (auto simp: fragment_was_visible_def split: option.splits)
qed

section \<open>The theorem\<close>

lemma remote_edit:
  assumes ok: "snapshot_ok ins s" "ts \<notin> fr_timestamp ` set (sn_fragments s)"
    and undos: "um_ok (sn_undo_map s)" "st_height (sn_undo_map s) < 16"
    and causal: "\<forall>f \<in> set (sn_fragments s). vclock_observed v (fr_timestamp f) \<longrightarrow> fr_timestamp f < ts"
    and es: "length ranges = length texts" "edits_ok (versioned_len v (sn_fragments s)) 0 (zip ranges texts)"
      "length (concat texts) < 2 ^ 32"
  shows "\<exists>s' p. apply_remote_edit s v ranges texts ts = Some (s', p) \<and>
    flagged (sn_fragments s') = weave (seen_cell v) (\<lambda>c. ts < fst c) ts 0 0 (zip ranges texts)
      (old_cells (was_visible s v) (sn_fragments s)) \<and>
    snapshot_ok (ins(ts := concat texts)) s' \<and> (\<forall>f \<in> set (sn_fragments s'). origin (sn_fragments s) ts f) \<and>
    patch_rel 0 0 p (sn_visible_text s) (sn_visible_text s') \<and> patch_new_ok p"
proof -
  let ?ins = "ins(ts := concat texts)" and ?es = "zip ranges texts"
  have env: "remote_env ?ins s v ts"
    using snapshot_ok_fresh [OF ok] causal fragment_was_visible_some [OF undos] by (simp add: remote_env_def)
  then have ok': "snapshot_ok ?ins s" by (simp add: remote_env_def edit_env_def)
  have texts: "map snd ?es = texts" using es(1) by simp
  show ?thesis
  proof (cases ranges)
    case Nil
    then show ?thesis using ok'
      by (intro exI [of _ s] exI [of _ "[]"]) (simp add: apply_remote_edit_def kept_old_cells patch_new_ok_def origin_old)
  next
    case (Cons r rs)
    obtain a b where r: "r = (a, b)" by fastforce
    obtain t us where t: "texts = t # us" using es(1) Cons by (cases texts) auto
    have zip: "?es = ((a, b), t) # zip rs us" by (simp add: Cons r t)
    obtain B R pos where at: "re_at ?ins s v ts B R 0 pos (re_start_state s v a)" and pos: "pos \<le> a"
      and off: "es_insertion_offset (re_start_state s v a) = 0"
      and eq: "flagged (es_new_fragments (re_start_state s v a)) @ woven v ts 0 pos ?es (todo s v R 0) =
        woven v ts 0 0 ?es (old_cells (was_visible s v) (sn_fragments s))"
      using re_start_at [OF env, of a b t "zip rs us"] unfolding zip by blast
    have pos_ok: "edits_ok (versioned_len v (sn_fragments s)) pos ?es" using es(2) pos by (simp add: zip)
    have "drop (es_insertion_offset (re_start_state s v a)) (?ins ts) = concat (map snd ?es)"
      by (simp only: off texts drop_0 fun_upd_same)
    moreover have "length (?ins ts) < 2 ^ 32" using es(3) by simp
    ultimately obtain st pos' B' R' k' where st: "re_edits (sn_undo_map s) v ts ?es (re_start_state s v a) = Some st"
        "re_at ?ins s v ts B' R' k' pos' st"
        "flagged (es_new_fragments st) @ map kept (todo s v R' k') = woven v ts 0 0 ?es (old_cells (was_visible s v) (sn_fragments s))"
      using re_edits_steps [OF env _ at pos_ok] unfolding off eq by auto
    obtain st1 N U V where fin: "re_finish_fragment v st = Some st1" "es_finish st1 = (N, U, V)"
        "flagged N = flagged (es_new_fragments st) @ map kept (todo s v R' k')"
        "patch_rel 0 0 (es_patch st1) (sn_visible_text s) U" "patch_new_ok (es_patch st1)"
        "\<forall>f \<in> set N. origin (sn_fragments s) ts f"
        "snapshot_ok ?ins (s\<lparr>sn_fragments := N, sn_insertions := insert_insertions (sn_insertions s) (es_new_insertions st1),
          sn_visible_text := U, sn_deleted_text := V, sn_insertion_slices := extend_slices (sn_insertion_slices s) (es_slices st1)\<rparr>)"
      using re_finish_all [OF env st(2), of "\<lambda>st. extend_slices (sn_insertion_slices s) (es_slices st)"] by blast
    then show ?thesis using st by (simp add: apply_remote_edit_def Cons r [folded Cons] st(3))
  qed
qed

text \<open>C4: An edit of another replica is woven into the text: its ranges are positions among the bytes whose
  insertion the author had observed, visible or not; each text goes behind the observed bytes before its range and
  behind concurrent insertions at that place with a newer timestamp; the bytes of the range that the
  author saw as visible are hidden and get the timestamp among their deletions, and no other byte changes.  The
  loop returns, the ropes and the fragments stay consistent, and the patch that is published leads
  from the old visible text to the new one.\<close>

theorem remote_edit_weaves:
  assumes "snapshot_ok ins s" "ts \<notin> fr_timestamp ` set (sn_fragments s)"
    and "um_ok (sn_undo_map s)" "st_height (sn_undo_map s) < 16"
    and "\<forall>f \<in> set (sn_fragments s). vclock_observed v (fr_timestamp f) \<longrightarrow> fr_timestamp f < ts"
    and "length ranges = length texts" "edits_ok (versioned_len v (sn_fragments s)) 0 (zip ranges texts)"
      "length (concat texts) < 2 ^ 32"
  shows "\<exists>s' p. apply_remote_edit s v ranges texts ts = Some (s', p) \<and>
    flagged (sn_fragments s') = weave (seen_cell v) (\<lambda>c. ts < fst c) ts 0 0 (zip ranges texts)
      (old_cells (was_visible s v) (sn_fragments s)) \<and>
    sn_visible_text s' = cell_text (ins(ts := concat texts)) (map fst (filter (fst \<circ> snd) (flagged (sn_fragments s')))) \<and>
    snapshot_ok (ins(ts := concat texts)) s' \<and>
    patch_rel 0 0 p (sn_visible_text s) (sn_visible_text s') \<and> patch_new_ok p"
  using remote_edit [OF assms] unfolding flagged_cells snapshot_ok_def by blast

text \<open>The author has seen the first insertion of the sample, not the deletion and not the second insertion.\<close>

lemma sample_remote_ok:
  "Lamport 2 2 \<notin> fr_timestamp ` set (sn_fragments sample_snapshot)"
  "um_ok (sn_undo_map sample_snapshot)" "st_height (sn_undo_map sample_snapshot) < 16"
  "\<forall>f \<in> set (sn_fragments sample_snapshot). vclock_observed [1] (fr_timestamp f) \<longrightarrow> fr_timestamp f < Lamport 2 2"
  "length [(1 :: nat, 4 :: nat), (5, 5)] = length [''Q'', ''!'']"
  "edits_ok (versioned_len [1] (sn_fragments sample_snapshot)) 0 (zip [(1, 4), (5, 5)] [''Q'', ''!''])"
  "length (concat [''Q'', ''!'']) < 2 ^ 32"
  using um_represents_empty
  by (simp_all add: sample_snapshot_def vclock_observed_def vclock_get_def get_or_def st_new_def less_lamport_iff)

theorem remote_edit_weaves_witness:
  "\<exists>s' p. apply_remote_edit sample_snapshot [1] [(1, 4), (5, 5)] [''Q'', ''!''] (Lamport 2 2) = Some (s', p) \<and>
    sn_visible_text s' = ''aQ!xy'' \<and> patch_rel 0 0 p ''abcxy'' ''aQ!xy''"
proof -
  have "sn_visible_text sample_snapshot = ''abcxy''" by (simp add: sample_snapshot_def)
  moreover have "cell_text (sample_ins(Lamport 2 2 := concat [''Q'', ''!''])) (map fst (filter (fst \<circ> snd)
      (weave (seen_cell [1]) (\<lambda>c. Lamport 2 2 < fst c) (Lamport 2 2) 0 0 (zip [(1, 4), (5, 5)] [''Q'', ''!''])
        (old_cells (was_visible sample_snapshot [1]) (sn_fragments sample_snapshot))))) = ''aQ!xy''"
  proof -
    have "um_was_undone (st_new undo_ops) d [1] = Some False" for d
      using um_counts_from [of "st_new undo_ops" d "vclock_observed [1]"] um_represents_empty
      by (simp add: um_was_undone_def st_new_def)
    then have "old_cells (was_visible sample_snapshot [1]) (sn_fragments sample_snapshot) =
        [((Lamport 1 0, 0), (True, []), True), ((Lamport 1 0, 1), (True, []), True), ((Lamport 1 0, 2), (True, []), True),
         ((Lamport 1 0, 3), (False, [Lamport 3 0]), True), ((Lamport 1 0, 4), (False, [Lamport 3 0]), True),
         ((Lamport 2 1, 0), (True, []), False), ((Lamport 2 1, 1), (True, []), False)]"
      by (simp add: sample_snapshot_def was_visible_def fragment_was_visible_def fr_cells_def fr_mark_def upt_rec
          vclock_observed_def vclock_get_def get_or_def word_le_nat_alt)
    then show ?thesis
      by (simp add: vclock_observed_def vclock_get_def get_or_def less_lamport_iff kept_def struck_def cell_text_def
          sample_ins_def numeral_eq_Suc)
  qed
  ultimately show ?thesis
    using remote_edit_weaves [OF sample_snapshot_ok sample_remote_ok] by metis
qed

end
