(* ===== verification/Zed_Undo_Facts.thy ===== *)
theory Zed_Undo_Facts
  imports Zed_Undo Zed_Remote_Edit_Facts
begin

text \<open>
  What \<open>apply_undo\<close> does: \<open>fragment_ids_for_edits\<close> finds every fragment that one of the edits inserted or
  deleted, and afterwards the visibility of every fragment is the one that the undo operations
  received so far say.
\<close>

section \<open>Finding the fragments\<close>

definition covers :: "insertion_slice \<Rightarrow> insertion_fragment \<Rightarrow> bool" where
  "covers s i \<longleftrightarrow> if_timestamp i = is_insertion_id s \<and> is_start s \<le> if_split_offset i \<and> if_split_offset i < is_end s"

lemma collect_loop_eq:
  "collect_loop ins e items pos ids =
    (let P = takeWhile (\<lambda>i. if_timestamp i = ins \<and> if_split_offset i < e) items
     in (last_key pos P, dropWhile (\<lambda>i. if_timestamp i = ins \<and> if_split_offset i < e) items, ids @ map if_fragment_id P))"
  by (induction items arbitrary: pos ids) (auto simp: Let_def last_key_def not_less)

lemma last_key_append: "last_key (last_key pos xs) ys = last_key pos (xs @ ys)"
  by (simp add: last_key_def)

lemma set_slices_for_edit:
  assumes "sorted_wrt (<) (map slice_key slices)"
  shows "set (slices_for_edit slices e) = {s \<in> set slices. is_edit_id s = e}"
proof -
  let ?k = "(e, LAMPORT_MIN, 0, 0)"
  have "sorted_wrt (\<lambda>x y. slice_key x < slice_key y) slices" using assms by (simp add: sorted_wrt_map)
  then have drop: "dropWhile (\<lambda>s. slice_key s < ?k) slices = filter (\<lambda>s. \<not> slice_key s < ?k) slices"
    by (rule dropWhile_filter) (rule less_trans)
  have srt: "sorted_wrt (\<lambda>x y. slice_key x < slice_key y) (filter (\<lambda>s. \<not> slice_key s < ?k) slices)"
    using assms by (simp add: sorted_wrt_map sorted_wrt_filter)
  have "sorted_wrt (\<lambda>x y. slice_key x < slice_key y \<and> \<not> slice_key x < ?k) (filter (\<lambda>s. \<not> slice_key s < ?k) slices)"
    by (rule sorted_wrt_mono_rel [OF _ srt]) auto
  then have "takeWhile (\<lambda>s. is_edit_id s = e) (filter (\<lambda>s. \<not> slice_key s < ?k) slices) =
      filter (\<lambda>s. is_edit_id s = e) (filter (\<lambda>s. \<not> slice_key s < ?k) slices)"
    by (rule takeWhile_filter) (auto simp: slice_key_def less_prod_def)
  moreover have "\<not> slice_key s < ?k" if "is_edit_id s = e" for s
    using LAMPORT_MIN_least [of "is_insertion_id s"] that by (auto simp: slice_key_def less_prod_def)
  ultimately show ?thesis unfolding slices_for_edit_def drop by auto
qed

text \<open>The loop over the slices: \<open>B\<close> lies before the cursor, \<open>R\<close> is left, the ids found are those of items in \<open>B\<close>.\<close>

definition collecting ::
    "insertion_fragment list \<Rightarrow> insertion_slice list \<Rightarrow> insertion_fragment list \<Rightarrow> insertion_fragment list \<Rightarrow>
       index_cursor \<Rightarrow> locator list \<Rightarrow> bool" where
  "collecting idx Q B R c ids \<longleftrightarrow> idx = B @ R \<and> ic_rest c = R \<and> ic_position c = last_key (LAMPORT_MIN, 0) B \<and>
     (B \<noteq> [] \<longrightarrow> ic_did_seek c) \<and> distinct ids \<and> set ids \<subseteq> if_fragment_id ` set B \<and>
     (\<forall>b \<in> set B. \<forall>q \<in> set Q. if_timestamp b \<le> is_insertion_id q \<and> (covers q b \<longrightarrow> if_fragment_id b \<in> set ids))"

lemma key_less: "if_key i < (e, n) \<longleftrightarrow> if_timestamp i < e \<or> if_timestamp i = e \<and> if_split_offset i < n"
  by (auto simp: if_key_def less_prod_def)

lemma sorted_index:
  assumes "sorted_wrt (<) (map if_key (B @ R))"
  shows "sorted_wrt (\<lambda>x y. if_key x < if_key y) R" "b \<in> set B \<Longrightarrow> x \<in> set R \<Longrightarrow> if_key b < if_key x"
  using assms by (auto simp: sorted_wrt_append sorted_wrt_map)

text \<open>A slice that needs no seek, or follows one: the items from the cursor on are not before it.\<close>

lemma collect_from:
  assumes idx: "sorted_wrt (<) (map if_key idx)" "distinct (map if_fragment_id idx)"
    and c: "collecting idx Q B R c ids" "ic_did_seek c" and q: "\<forall>x \<in> set R. (is_insertion_id q, is_start q) \<le> if_key x"
    and old: "\<forall>b \<in> set B. covers q b \<longrightarrow> if_fragment_id b \<in> set ids"
    and Q: "\<forall>q' \<in> set Q. is_insertion_id q \<le> is_insertion_id q'"
  shows "\<exists>c' ids' B' R'. collect_loop (is_insertion_id q) (is_end q) (ic_rest c) (ic_position c) ids = (ic_position c', ic_rest c', ids') \<and>
    ic_did_seek c' \<and> collecting idx Q B' R' c' ids' \<and> set ids \<subseteq> set ids' \<and>
    (\<forall>i \<in> set idx. covers q i \<longrightarrow> if_fragment_id i \<in> set ids')"
proof -
  let ?p = "\<lambda>i. if_timestamp i = is_insertion_id q \<and> if_split_offset i < is_end q"
  have I: "idx = B @ R" "ic_rest c = R" using c(1) by (simp_all add: collecting_def)
  have "sorted_wrt (\<lambda>x y. if_key x < if_key y) R" using sorted_index(1) idx(1) unfolding I(1) by blast
  then have srt: "sorted_wrt (\<lambda>x y. if_key x < if_key y \<and> (is_insertion_id q, is_start q) \<le> if_key x) R"
    using q by (induction R) auto
  have tw: "takeWhile ?p R = filter ?p R"
    by (rule takeWhile_filter [OF srt]) (auto simp: if_key_def less_eq_prod_def less_prod_def)
  let ?P = "takeWhile ?p R" and ?R = "dropWhile ?p R"
  let ?ids = "ids @ map if_fragment_id ?P"
  let ?c = "\<lparr>ic_position = last_key (ic_position c) ?P, ic_rest = ?R, ic_did_seek = True\<rparr>"
  have R: "R = ?P @ ?R" by simp
  have "idx = (B @ ?P) @ ?R" using I(1) by simp
  then have "distinct (map if_fragment_id ((B @ ?P) @ ?R))" using idx(2) by (simp only:)
  then have "distinct (map if_fragment_id (B @ ?P))" unfolding map_append distinct_append by blast
  then have "distinct ?ids" using c(1) by (auto simp: collecting_def)
  moreover have "ic_position ?c = last_key (LAMPORT_MIN, 0) (B @ ?P)"
    using c(1) by (simp add: collecting_def last_key_append)
  moreover have "if_timestamp x = is_insertion_id q" if "x \<in> set ?P" for x using set_takeWhileD [OF that] by simp
  moreover have "if_timestamp b \<le> is_insertion_id q' \<and> (covers q' b \<longrightarrow> if_fragment_id b \<in> set ?ids)"
    if "b \<in> set (B @ ?P)" "q' \<in> set Q" for b q'
    using c(1) Q that \<open>\<And>x. x \<in> set ?P \<Longrightarrow> if_timestamp x = is_insertion_id q\<close> by (auto simp: collecting_def)
  moreover have "set ?ids \<subseteq> if_fragment_id ` set (B @ ?P)" using c(1) by (auto simp: collecting_def)
  ultimately have "collecting idx Q (B @ ?P) ?R ?c ?ids"
    using I(1) unfolding collecting_def by simp
  moreover have "if_fragment_id i \<in> set ?ids" if i: "i \<in> set idx" "covers q i" for i
  proof (cases "i \<in> set B")
    case False
    then have "i \<in> set R" using i(1) I(1) by simp
    then have "i \<in> set ?P" unfolding tw using i(2) by (simp add: covers_def)
    then show ?thesis by simp
  qed (use old i in auto)
  ultimately show ?thesis using I(2)
    by (intro exI [of _ ?c] exI [of _ ?ids] exI [of _ "B @ ?P"] exI [of _ ?R]) (simp add: collect_loop_eq Let_def)
qed

lemma collect_step:
  assumes idx: "sorted_wrt (<) (map if_key idx)" "distinct (map if_fragment_id idx)"
    and c: "collecting idx (q # Q) B R c ids" and Q: "\<forall>q' \<in> set Q. slice_order q \<le> slice_order q'"
    and min: "LAMPORT_MIN < is_insertion_id q"
  shows "\<exists>c' ids' B' R'. collect_slice q (c, ids) = Some (c', ids') \<and> collecting idx Q B' R' c' ids' \<and> set ids \<subseteq> set ids' \<and>
    (\<forall>i \<in> set idx. covers q i \<longrightarrow> if_fragment_id i \<in> set ids')"
proof -
  have I: "idx = B @ R" "ic_rest c = R" "ic_position c = last_key (LAMPORT_MIN, 0) B" "B \<noteq> [] \<longrightarrow> ic_did_seek c"
    and old: "\<forall>b \<in> set B. if_timestamp b \<le> is_insertion_id q \<and> (covers q b \<longrightarrow> if_fragment_id b \<in> set ids)"
    using c by (simp_all add: collecting_def)
  have c': "collecting idx Q B R c ids" using c by (simp add: collecting_def)
  have le: "\<forall>q' \<in> set Q. is_insertion_id q \<le> is_insertion_id q'" using Q by (auto simp: slice_order_def less_eq_prod_def)
  have pos: "fst (ic_position c) \<le> is_insertion_id q"
    using old min by (cases "B = []") (auto simp: I(3) last_key_def if_key_def less_imp_le)
  have sorted: "sorted_wrt (<) (map if_key (B @ R))" using idx(1) I(1) by simp
  show ?thesis
  proof (cases "is_insertion_id q \<noteq> fst (ic_position c) \<or> snd (ic_position c) < is_start q")
    case False
    then have "B \<noteq> []" using min by (auto simp: I(3) last_key_def)
    then have p: "ic_position c = if_key (last B)" "ic_did_seek c" using I by (simp_all add: last_key_def)
    have "(is_insertion_id q, is_start q) \<le> if_key x" if "x \<in> set R" for x
    proof -
      have "(is_insertion_id q, is_start q) \<le> ic_position c" using False by (cases "ic_position c") (simp add: less_eq_prod_def not_less)
      also have "\<dots> < if_key x" unfolding p(1) using sorted_index(2) [OF sorted] that \<open>B \<noteq> []\<close> by simp
      finally show ?thesis by simp
    qed
    then obtain c1 ids1 B1 R1 where "collect_loop (is_insertion_id q) (is_end q) (ic_rest c) (ic_position c) ids =
        (ic_position c1, ic_rest c1, ids1)" "ic_did_seek c1" "collecting idx Q B1 R1 c1 ids1" "set ids \<subseteq> set ids1"
        "\<forall>i \<in> set idx. covers q i \<longrightarrow> if_fragment_id i \<in> set ids1"
      using collect_from [OF idx c' p(2) _ _ le] old by blast
    then show ?thesis using False p(2) by (intro exI [of _ c1] exI [of _ ids1]) (auto simp: collect_slice_def)
  next
    case True
    let ?t = "(is_insertion_id q, is_start q)"
    let ?p = "\<lambda>i. if_key i < ?t"
    let ?P = "takeWhile ?p R" and ?R = "dropWhile ?p R"
    let ?c = "\<lparr>ic_position = last_key (ic_position c) ?P, ic_rest = ?R, ic_did_seek = True\<rparr>"
    have "\<not> ?t < ic_position c" using True pos by (cases "ic_position c") (auto simp: less_prod_def)
    then have seek: "ic_seek_forward ?t c = Some ?c" by (simp add: ic_seek_forward_def I(2) Let_def)
    have rest: "?R = filter (\<lambda>x. \<not> ?p x) R"
      by (rule dropWhile_filter [OF sorted_index(1) [OF sorted]]) (rule less_trans)
    have passed: "if_key x < ?t" if "x \<in> set ?P" for x using set_takeWhileD [OF that] by simp
    have later: "if_timestamp x \<le> is_insertion_id q' \<and> (covers q' x \<longrightarrow> if_fragment_id x \<in> set ids)"
      if x: "x \<in> set ?P" and q': "q' \<in> set Q" for x q'
    proof -
      have "if_timestamp x \<le> is_insertion_id q" using passed [OF x] by (auto simp: key_less less_imp_le)
      then have "if_timestamp x \<le> is_insertion_id q'" using le q' by (meson order_trans)
      moreover have "\<not> covers q' x"
        using passed [OF x] Q q' by (auto simp: covers_def key_less slice_order_def less_eq_prod_def)
      ultimately show ?thesis by blast
    qed
    have "collecting idx Q (B @ ?P) ?R ?c ids"
      using c' later unfolding collecting_def by (auto simp: last_key_append)
    moreover have "\<forall>x \<in> set ?R. ?t \<le> if_key x" unfolding rest by auto
    moreover have "\<forall>b \<in> set (B @ ?P). covers q b \<longrightarrow> if_fragment_id b \<in> set ids"
      using old passed by (fastforce simp: covers_def key_less)
    ultimately obtain c1 ids1 B1 R1 where "collect_loop (is_insertion_id q) (is_end q) ?R (ic_position ?c) ids =
        (ic_position c1, ic_rest c1, ids1)" "ic_did_seek c1" "collecting idx Q B1 R1 c1 ids1" "set ids \<subseteq> set ids1"
        "\<forall>i \<in> set idx. covers q i \<longrightarrow> if_fragment_id i \<in> set ids1"
      using collect_from [OF idx, of Q "B @ ?P" ?R ?c ids q] le by auto
    then show ?thesis using True seek by (intro exI [of _ c1] exI [of _ ids1]) (auto simp: collect_slice_def)
  qed
qed

lemma collect_slices:
  assumes idx: "sorted_wrt (<) (map if_key idx)" "distinct (map if_fragment_id idx)"
  shows "collecting idx Q B R c ids \<Longrightarrow> sorted (map slice_order Q) \<Longrightarrow> \<forall>q \<in> set Q. LAMPORT_MIN < is_insertion_id q \<Longrightarrow>
    \<exists>c' ids'. collect_slices Q (c, ids) = Some (c', ids') \<and> distinct ids' \<and> set ids' \<subseteq> if_fragment_id ` set idx \<and>
      set ids \<subseteq> set ids' \<and> (\<forall>q \<in> set Q. \<forall>i \<in> set idx. covers q i \<longrightarrow> if_fragment_id i \<in> set ids')"
proof (induction Q arbitrary: B R c ids)
  case Nil
  then show ?case by (auto simp: collecting_def)
next
  case (Cons q Q)
  obtain c1 ids1 B1 R1 where step: "collect_slice q (c, ids) = Some (c1, ids1)" "collecting idx Q B1 R1 c1 ids1"
      "set ids \<subseteq> set ids1" "\<forall>i \<in> set idx. covers q i \<longrightarrow> if_fragment_id i \<in> set ids1"
    using collect_step [OF idx Cons.prems(1)] Cons.prems(2,3) by auto
  obtain c' ids' where "collect_slices Q (c1, ids1) = Some (c', ids')" "distinct ids'" "set ids' \<subseteq> if_fragment_id ` set idx"
      "set ids1 \<subseteq> set ids'" "\<forall>q \<in> set Q. \<forall>i \<in> set idx. covers q i \<longrightarrow> if_fragment_id i \<in> set ids'"
    using Cons.IH [OF step(2)] Cons.prems(2,3) by auto
  then show ?case using step by (intro exI [of _ c'] exI [of _ ids']) auto
qed

lemma fragment_ids:
  assumes idx: "sorted_wrt (<) (map if_key (sn_insertions s))" "distinct (map if_fragment_id (sn_insertions s))"
    and sl: "sorted_wrt (<) (map slice_key (sn_insertion_slices s))"
    and min: "\<forall>q \<in> set (sn_insertion_slices s). LAMPORT_MIN < is_insertion_id q"
  shows "\<exists>ids. fragment_ids_for_edits s edits = Some ids \<and> sorted_wrt (<) ids \<and> set ids \<subseteq> if_fragment_id ` set (sn_insertions s) \<and>
    (\<forall>q \<in> set (sn_insertion_slices s). is_edit_id q \<in> set edits \<longrightarrow>
       (\<forall>i \<in> set (sn_insertions s). covers q i \<longrightarrow> if_fragment_id i \<in> set ids))"
proof -
  define Q where "Q = sort_key slice_order (concat (map (slices_for_edit (sn_insertion_slices s)) edits))"
  have Q: "set Q = {q \<in> set (sn_insertion_slices s). is_edit_id q \<in> set edits}"
    using set_slices_for_edit [OF sl] by (auto simp: Q_def)
  have srt: "sorted (map slice_order Q)" by (simp add: Q_def)
  have min': "\<forall>q \<in> set Q. LAMPORT_MIN < is_insertion_id q" unfolding Q using min by blast
  have "collecting (sn_insertions s) Q [] (sn_insertions s) (ic_new (sn_insertions s)) []"
    by (simp add: collecting_def ic_new_def last_key_def)
  from collect_slices [OF idx this srt min'] obtain c' ids' where r: "collect_slices Q (ic_new (sn_insertions s), []) = Some (c', ids')" "distinct ids'"
      "set ids' \<subseteq> if_fragment_id ` set (sn_insertions s)"
      "\<forall>q \<in> set Q. \<forall>i \<in> set (sn_insertions s). covers q i \<longrightarrow> if_fragment_id i \<in> set ids'"
    by blast
  then have "fragment_ids_for_edits s edits = Some (sort ids')" by (simp add: fragment_ids_for_edits_def Q_def Let_def)
  then show ?thesis using r unfolding Q by (intro exI [of _ "sort ids'"]) (simp add: strict_sorted_iff)
qed

section \<open>Refreshing the fragments\<close>

text \<open>The ropes and the patch when the fragments \<open>B\<close> of \<open>F\<close> have become \<open>N\<close>.\<close>

definition ropes_at ::
    "(lamport \<Rightarrow> string) \<Rightarrow> fragment list \<Rightarrow> fragment list \<Rightarrow> fragment list \<Rightarrow> rope_builder \<Rightarrow> patch \<Rightarrow> bool" where
  "ropes_at ins F B N rb p \<longleftrightarrow>
     rb_old_visible rb = cell_text ins (vcells F) \<and> rb_old_deleted rb = cell_text ins (dcells F) \<and>
     rb_visible_offset rb = visible_len B \<and> rb_deleted_offset rb = deleted_len B \<and>
     rb_new_visible rb = cell_text ins (vcells N) \<and> rb_new_deleted rb = cell_text ins (dcells N) \<and>
     patch_rel 0 0 p (cell_text ins (vcells B)) (cell_text ins (vcells N)) \<and> patch_new_ok p"

lemma ropes_copy:
  "ropes_at ins F B N rb p \<Longrightarrow> F = B @ X @ R \<Longrightarrow> ropes_at ins F (B @ X) (N @ X) (rb_append rb X) p"
  by (simp add: ropes_at_def patch_rel_append)

lemma patch_rel_change:
  assumes "patch_rel 0 0 p S U" "patch_new_ok p"
  shows "patch_rel 0 0 (patch_push p (mk_edit (length S) (length S + length x) (length U) (length U + length y))) (S @ x) (U @ y)"
    "patch_new_ok (patch_push p (mk_edit (length S) (length S + length x) (length U) (length U + length y)))"
  using patch_push_rel [of p "length S" "S @ x" "length U" "U @ y" 0 "length x" "length y"] assms by simp_all

lemma ropes_refresh:
  assumes r: "ropes_at ins F B N rb p" "F = B @ f # R" and g: "fr_cells g = fr_cells f" "fr_len g = fr_len f"
  shows "ropes_at ins F (B @ [f]) (N @ [g]) (rb_push_fragment rb g (fr_visible f))
    (if fr_visible f \<and> \<not> fr_visible g then
       patch_push p (mk_edit (visible_len B) (visible_len B + fr_len g) (visible_len N) (visible_len N))
     else if \<not> fr_visible f \<and> fr_visible g then
       patch_push p (mk_edit (visible_len B) (visible_len B) (visible_len N) (visible_len N + fr_len g))
     else p)"
proof -
  let ?S = "cell_text ins (vcells B)" and ?U = "cell_text ins (vcells N)" and ?x = "cell_text ins (fr_cells f)"
  have rel: "patch_rel 0 0 p ?S ?U" "patch_new_ok p" using r(1) by (simp_all add: ropes_at_def)
  have len: "length ?x = fr_len g" using g by simp
  note hide = patch_rel_change [OF rel, of ?x "[]"] and reveal = patch_rel_change [OF rel, of "[]" ?x]
  show ?thesis
    using r g rel hide reveal patch_rel_append [OF rel(1), of ?x]
    by (cases "fr_visible f"; cases "fr_visible g")
      (simp_all add: ropes_at_def rb_push_fragment_def rb_push_def)
qed

definition refreshed :: "undo_map \<Rightarrow> lamport \<Rightarrow> locator set \<Rightarrow> fragment \<Rightarrow> fragment" where
  "refreshed undos t I f =
     (if fr_id f \<in> I then
        f\<lparr>fr_visible := the (fragment_is_visible undos f), fr_max_undos := version_observe (fr_max_undos f) t\<rparr>
      else f)"

lemma refreshed_fields [simp]:
  "fr_id (refreshed undos t I f) = fr_id f" "fr_timestamp (refreshed undos t I f) = fr_timestamp f"
  "fr_insertion_offset (refreshed undos t I f) = fr_insertion_offset f" "fr_len (refreshed undos t I f) = fr_len f"
  "fr_deletions (refreshed undos t I f) = fr_deletions f" "fr_cells (refreshed undos t I f) = fr_cells f"
  by (simp_all add: refreshed_def fr_cells_def)

lemma refreshed_id: "\<forall>f \<in> set X. fr_id f \<notin> I \<Longrightarrow> map (refreshed undos t I) X = X"
  by (induction X) (simp_all add: refreshed_def)

lemma undo_step:
  assumes srt: "sorted_wrt (<) (map fr_id (B @ X @ f # R))" and c: "us_cursor st = \<lparr>fc_before = B, fc_rest = X @ f # R\<rparr>"
    and r: "ropes_at ins (B @ X @ f # R) B (us_new_fragments st) (us_ropes st) (us_edits st)"
    and vis: "fragment_is_visible undos f \<noteq> None"
  shows "\<exists>st'. undo_step undos t (fr_id f) st = Some st' \<and> us_cursor st' = \<lparr>fc_before = B @ X @ [f], fc_rest = R\<rparr> \<and>
    us_new_fragments st' = us_new_fragments st @ X @ [refreshed undos t {fr_id f} f] \<and>
    ropes_at ins (B @ X @ f # R) (B @ X @ [f]) (us_new_fragments st') (us_ropes st') (us_edits st')"
proof -
  obtain visible where v: "fragment_is_visible undos f = Some visible" using vis by blast
  have less: "\<forall>x \<in> set X. fr_id x < fr_id f" "\<forall>b \<in> set B. fr_id b < fr_id f"
    using srt by (auto simp: sorted_wrt_append)
  then have "takeWhile (\<lambda>g. fr_id g < fr_id f) (X @ f # R) = X" "dropWhile (\<lambda>g. fr_id g < fr_id f) (X @ f # R) = f # R"
    by (simp_all add: takeWhile_append dropWhile_append)
  moreover have "\<not> (B \<noteq> [] \<and> fr_id f < fr_id (last B))"
    using less(2) last_in_set [of B] less_asym by blast
  ultimately have slice: "fc_slice_id (us_cursor st) (fr_id f) = Some (\<lparr>fc_before = B @ X, fc_rest = f # R\<rparr>, X)"
    by (simp add: fc_slice_id_def c)
  let ?g = "f\<lparr>fr_visible := visible, fr_max_undos := version_observe (fr_max_undos f) t\<rparr>"
  have g: "refreshed undos t {fr_id f} f = ?g" by (simp add: refreshed_def v)
  have "ropes_at ins (B @ X @ f # R) (B @ X) (us_new_fragments st @ X) (rb_append (us_ropes st) X) (us_edits st)"
    by (rule ropes_copy [OF r refl])
  then have r': "ropes_at ins ((B @ X) @ f # R) (B @ X) (us_new_fragments st @ X) (rb_append (us_ropes st) X) (us_edits st)"
    by simp
  have "fr_cells ?g = fr_cells f" "fr_len ?g = fr_len f" by (simp_all add: fr_cells_def)
  from ropes_refresh [OF r' refl this] show ?thesis
    by (cases "fr_visible f"; cases visible)
      (simp_all add: undo_step_def slice fc_item_def undo_fragment_def v Let_def fc_start_visible_def g)
qed

lemma undo_steps:
  assumes F: "sorted_wrt (<) (map fr_id F)" and vis: "\<forall>f \<in> set F. fragment_is_visible undos f \<noteq> None"
  shows "F = B @ R \<Longrightarrow> sorted_wrt (<) ids \<Longrightarrow> set ids \<subseteq> fr_id ` set R \<Longrightarrow> us_cursor st = \<lparr>fc_before = B, fc_rest = R\<rparr> \<Longrightarrow>
    ropes_at ins F B (us_new_fragments st) (us_ropes st) (us_edits st) \<Longrightarrow>
    \<exists>st' B' R'. undo_steps undos t ids st = Some st' \<and> F = B' @ R' \<and> us_cursor st' = \<lparr>fc_before = B', fc_rest = R'\<rparr> \<and>
      us_new_fragments st' @ R' = us_new_fragments st @ map (refreshed undos t (set ids)) R \<and>
      ropes_at ins F B' (us_new_fragments st') (us_ropes st') (us_edits st')"
proof (induction ids arbitrary: B R st)
  case Nil
  then show ?case by (intro exI [of _ st] exI [of _ B] exI [of _ R]) (simp add: refreshed_id)
next
  case (Cons i ids)
  from Cons.prems(3) obtain f where "f \<in> set R" "fr_id f = i" by auto
  then obtain X Y where R: "R = X @ f # Y" and i: "i = fr_id f" by (metis split_list)
  have srt: "sorted_wrt (<) (map fr_id (B @ X @ f # Y))" using F Cons.prems(1) R by simp
  then have less: "\<forall>x \<in> set X. fr_id x < fr_id f" "\<forall>y \<in> set Y. fr_id f < fr_id y" by (auto simp: sorted_wrt_append)
  have later: "\<forall>j \<in> set ids. fr_id f < j" using Cons.prems(2) i by simp
  have "f \<in> set F" using Cons.prems(1) R by simp
  with vis have v: "fragment_is_visible undos f \<noteq> None" by blast
  obtain st1 where st1: "undo_step undos t (fr_id f) st = Some st1" "us_cursor st1 = \<lparr>fc_before = B @ X @ [f], fc_rest = Y\<rparr>"
      "us_new_fragments st1 = us_new_fragments st @ X @ [refreshed undos t {fr_id f} f]"
      "ropes_at ins F (B @ X @ [f]) (us_new_fragments st1) (us_ropes st1) (us_edits st1)"
    using undo_step [OF srt, of st ins undos t] Cons.prems(1,4,5) v R by auto
  have sub: "set ids \<subseteq> fr_id ` set Y"
  proof
    fix j assume j: "j \<in> set ids"
    then obtain g where "g \<in> set R" "fr_id g = j" using Cons.prems(3) by auto
    then show "j \<in> fr_id ` set Y" using less(1) later j R by fastforce
  qed
  have "F = (B @ X @ [f]) @ Y" using Cons.prems(1) R by simp
  from Cons.IH [OF this _ sub st1(2,4)] Cons.prems(2) obtain st' B' R' where
    IH: "undo_steps undos t ids st1 = Some st'" "F = B' @ R'" "us_cursor st' = \<lparr>fc_before = B', fc_rest = R'\<rparr>"
      "us_new_fragments st' @ R' = us_new_fragments st1 @ map (refreshed undos t (set ids)) Y"
      "ropes_at ins F B' (us_new_fragments st') (us_ropes st') (us_edits st')" by auto
  have "map (refreshed undos t (set (i # ids))) X = X"
    using less(1) later by (intro refreshed_id) (fastforce simp: i)
  moreover have "map (refreshed undos t (set (i # ids))) Y = map (refreshed undos t (set ids)) Y"
    using less(2) by (auto simp: refreshed_def i)
  moreover have "refreshed undos t (set (i # ids)) f = refreshed undos t {fr_id f} f" by (simp add: refreshed_def i)
  ultimately show ?case
    using IH st1(1,3) by (intro exI [of _ st'] exI [of _ B'] exI [of _ R']) (simp add: R i)
qed

section \<open>The state of a buffer\<close>

text \<open>Whether a fragment is shown, given the undo operations received: neither its insertion nor an
  undone deletion counts.\<close>

definition undone :: "undo_operation set \<Rightarrow> lamport \<Rightarrow> bool" where
  "undone us e \<longleftrightarrow> max_count us e (\<lambda>_. True) mod 2 = 1"

definition shown :: "undo_operation set \<Rightarrow> fragment \<Rightarrow> bool" where
  "shown us f \<longleftrightarrow> \<not> undone us (fr_timestamp f) \<and> (\<forall>d \<in> set (fr_deletions f). undone us d)"

text \<open>The slices cover every fragment under the edit that inserted it and those that deleted it.  The text a
  buffer is created with is not recorded in the slices: its timestamp is no edit that could be undone.\<close>

definition base_insertion :: lamport where
  "base_insertion = lamport_new LOCAL"

definition touching :: "fragment \<Rightarrow> lamport set" where
  "touching f = insert (fr_timestamp f) (set (fr_deletions f))"

definition slices_ok :: "insertion_slice list \<Rightarrow> fragment list \<Rightarrow> bool" where
  "slices_ok slices fs \<longleftrightarrow> sorted_wrt (<) (map slice_key slices) \<and>
     (\<forall>q \<in> set slices. LAMPORT_MIN < is_insertion_id q) \<and>
     (\<forall>f \<in> set fs. \<forall>d \<in> touching f - {base_insertion}. \<exists>q \<in> set slices. is_edit_id q = d \<and> is_insertion_id q = fr_timestamp f \<and>
        is_start q \<le> fr_insertion_offset f \<and> fr_insertion_offset f + fr_len f \<le> is_end q)"

text \<open>\<open>max_undos\<close> has observed every undo operation that concerns the fragment.\<close>

definition undos_seen :: "undo_operation set \<Rightarrow> fragment \<Rightarrow> bool" where
  "undos_seen us f \<longleftrightarrow> (\<forall>u \<in> us. touching f \<inter> fst ` set (uo_counts u) \<noteq> {} \<longrightarrow>
     vclock_observed (version_values (fr_max_undos f)) (uo_timestamp u))"

definition buffer_ok :: "(lamport \<Rightarrow> string) \<Rightarrow> undo_operation set \<Rightarrow> snapshot \<Rightarrow> bool" where
  "buffer_ok ins us s \<longleftrightarrow> snapshot_ok ins s \<and> slices_ok (sn_insertion_slices s) (sn_fragments s) \<and>
     um_ok (sn_undo_map s) \<and> um_represents (sn_undo_map s) us \<and> (\<forall>f \<in> set (sn_fragments s). fr_visible f = shown us f \<and> undos_seen us f)"

lemma all_deletions_all: "\<forall>d \<in> set ds. P d = Some (Q d) \<Longrightarrow> all_deletions P ds = Some (\<forall>d \<in> set ds. Q d)"
  by (induction ds) auto

lemma is_visible_shown:
  assumes "um_ok undos" "st_height undos < 16" "um_represents undos us"
  shows "fragment_is_visible undos f = Some (shown us f)"
proof -
  have u: "um_is_undone undos e = Some (undone us e)" for e
    using um_counts_represents [OF assms] by (simp add: um_is_undone_def um_undo_count_def undone_def)
  then show ?thesis
    using all_deletions_all [of "fr_deletions f" "um_is_undone undos" "undone us"]
    by (simp add: fragment_is_visible_def shown_def)
qed

lemma undone_insert: "e \<notin> fst ` set (uo_counts u) \<Longrightarrow> undone (insert u us) e = undone us e"
proof -
  assume "e \<notin> fst ` set (uo_counts u)"
  then have "(e, n) \<notin> set (uo_counts u)" for n by force
  then have "{n. \<exists>w \<in> insert u us. True \<and> (e, n) \<in> set (uo_counts w)} = {n. \<exists>w \<in> us. True \<and> (e, n) \<in> set (uo_counts w)}"
    by blast
  then show ?thesis unfolding undone_def max_count_def by (simp only:)
qed

lemma shown_insert: "touching f \<inter> fst ` set (uo_counts u) = {} \<Longrightarrow> shown (insert u us) f = shown us f"
proof -
  assume "touching f \<inter> fst ` set (uo_counts u) = {}"
  then have "undone (insert u us) e = undone us e" if "e \<in> touching f" for e using that by (intro undone_insert) blast
  then show ?thesis by (simp add: shown_def touching_def)
qed

lemma undos_seen_refreshed:
  "undos_seen us f \<Longrightarrow> fr_id f \<in> I \<Longrightarrow> undos_seen (insert u us) (refreshed m (uo_timestamp u) I f)"
  unfolding undos_seen_def by (auto simp: refreshed_def touching_def version_observe.rep_eq observed_observe)

lemma index_ids:
  assumes "snapshot_ok ins s"
  shows "distinct (map if_fragment_id (sn_insertions s))"
proof -
  let ?F = "sn_fragments s"
  have idx: "sorted_wrt (<) (map if_key (sn_insertions s))" "set (sn_insertions s) = insertion_fragment_new ` set ?F"
    and F: "distinct (map fr_id ?F)" using assms strict_sorted_iff by (auto simp: snapshot_ok_def)
  have "inj_on if_fragment_id (set (sn_insertions s))"
    unfolding idx(2) using F by (auto simp: inj_on_def distinct_map insertion_fragment_new_def)
  moreover have "distinct (sn_insertions s)" using idx(1) strict_sorted_iff distinct_map by blast
  ultimately show ?thesis by (simp add: distinct_map)
qed

lemma cells_refresh: "cells (map (refreshed undos t I) fs) = cells fs"
  by (induction fs) simp_all

lemma snapshot_ok_refresh:
  assumes "snapshot_ok ins s" and N: "N = map (refreshed undos t I) (sn_fragments s)"
    and "U = cell_text ins (vcells N)" "V = cell_text ins (dcells N)"
  shows "snapshot_ok ins (s\<lparr>sn_fragments := N, sn_visible_text := U, sn_deleted_text := V, sn_undo_map := m\<rparr>)"
proof -
  have "map fr_id N = map fr_id (sn_fragments s)" by (simp add: N)
  moreover have "insertion_fragment_new ` set N = insertion_fragment_new ` set (sn_fragments s)"
    by (force simp: N insertion_fragment_new_def image_iff)
  moreover have "\<forall>f \<in> set N. fr_fits ins f" using assms(1) by (simp add: N snapshot_ok_def fr_fits_def)
  moreover have "cells N = cells (sn_fragments s)" by (simp add: N cells_refresh)
  ultimately show ?thesis using assms(1,3,4) by (simp add: snapshot_ok_def)
qed

text \<open>\<open>fragment_ids_for_edits\<close> finds every fragment that one of the edits inserted or deleted.\<close>

lemma touched_ids:
  assumes ok: "snapshot_ok ins s" "slices_ok (sn_insertion_slices s) (sn_fragments s)"
  shows "\<exists>ids. fragment_ids_for_edits s edits = Some ids \<and> sorted_wrt (<) ids \<and> set ids \<subseteq> fr_id ` set (sn_fragments s) \<and>
    (\<forall>f \<in> set (sn_fragments s). (touching f - {base_insertion}) \<inter> set edits \<noteq> {} \<longrightarrow> fr_id f \<in> set ids)"
proof -
  have idx: "sorted_wrt (<) (map if_key (sn_insertions s))" "set (sn_insertions s) = insertion_fragment_new ` set (sn_fragments s)"
    and fits: "\<forall>f \<in> set (sn_fragments s). 0 < fr_len f"
    using ok(1) by (auto simp: snapshot_ok_def fr_fits_def)
  obtain ids where ids: "fragment_ids_for_edits s edits = Some ids" "sorted_wrt (<) ids"
      "set ids \<subseteq> if_fragment_id ` set (sn_insertions s)"
    and found: "\<forall>q \<in> set (sn_insertion_slices s). is_edit_id q \<in> set edits \<longrightarrow>
      (\<forall>i \<in> set (sn_insertions s). covers q i \<longrightarrow> if_fragment_id i \<in> set ids)"
    using fragment_ids [OF idx(1) index_ids [OF ok(1)], of edits] ok(2) by (auto simp: slices_ok_def)
  have "fr_id f \<in> set ids" if f: "f \<in> set (sn_fragments s)" "d \<in> touching f - {base_insertion}" "d \<in> set edits" for f d
  proof -
    obtain q where q: "q \<in> set (sn_insertion_slices s)" "is_edit_id q = d" "is_insertion_id q = fr_timestamp f"
        "is_start q \<le> fr_insertion_offset f" "fr_insertion_offset f + fr_len f \<le> is_end q"
      using ok(2) f(1,2) unfolding slices_ok_def by blast
    have "0 < fr_len f" using fits f(1) by blast
    then have "covers q (insertion_fragment_new f)"
      using q(3-5) by (simp add: covers_def insertion_fragment_new_def)
    then have "if_fragment_id (insertion_fragment_new f) \<in> set ids" using found q(1,2) f(1,3) idx(2) by blast
    then show ?thesis by (simp add: insertion_fragment_new_def)
  qed
  moreover have "set ids \<subseteq> fr_id ` set (sn_fragments s)" using ids(3) unfolding idx(2) by (auto simp: insertion_fragment_new_def)
  ultimately show ?thesis using ids(1,2) by (intro exI [of _ ids]) blast
qed

lemma apply_undo:
  assumes ok: "buffer_ok ins us s" and h: "st_height (sn_undo_map s) < 16"
    and u: "distinct (map fst (uo_counts u))" "\<forall>u' \<in> us. uo_timestamp u' = uo_timestamp u \<longrightarrow> u' = u"
    and base: "base_insertion \<notin> fst ` set (uo_counts u)"
    and h': "\<And>m. um_insert (sn_undo_map s) u = Some m \<Longrightarrow> st_height m < 16"
  shows "\<exists>s' p m I. apply_undo s u = Some (s', p) \<and> buffer_ok ins (insert u us) s' \<and>
    sn_fragments s' = map (refreshed m (uo_timestamp u) I) (sn_fragments s) \<and>
    patch_rel 0 0 p (sn_visible_text s) (sn_visible_text s') \<and> patch_new_ok p"
proof -
  let ?F = "sn_fragments s" and ?E = "fst ` set (uo_counts u)"
  have ok': "snapshot_ok ins s" "slices_ok (sn_insertion_slices s) ?F" "um_ok (sn_undo_map s)" "um_represents (sn_undo_map s) us"
    and vis: "\<forall>f \<in> set ?F. fr_visible f = shown us f" "\<forall>f \<in> set ?F. undos_seen us f" using ok by (simp_all add: buffer_ok_def)
  obtain m where m: "um_insert (sn_undo_map s) u = Some m" "um_ok m" "um_represents m (insert u us)"
    using um_insert_represents [OF ok'(3) h ok'(4) u] by blast
  have shown: "fragment_is_visible m f = Some (shown (insert u us) f)" for f
    by (rule is_visible_shown [OF m(2) h' [OF m(1)] m(3)])
  have srt: "sorted_wrt (<) (map fr_id ?F)" using ok'(1) by (simp add: snapshot_ok_def)
  obtain ids where ids: "fragment_ids_for_edits s (map fst (uo_counts u)) = Some ids" "sorted_wrt (<) ids" "set ids \<subseteq> fr_id ` set ?F"
    and all: "\<forall>f \<in> set ?F. (touching f - {base_insertion}) \<inter> set (map fst (uo_counts u)) \<noteq> {} \<longrightarrow> fr_id f \<in> set ids"
    using touched_ids [OF ok'(1,2), of "map fst (uo_counts u)"] by blast
  have touched: "fr_id f \<in> set ids" if f: "f \<in> set ?F" "d \<in> touching f" "d \<in> ?E" for f d
  proof -
    have "d \<noteq> base_insertion" using f(3) base by blast
    then have "d \<in> (touching f - {base_insertion}) \<inter> set (map fst (uo_counts u))" using f(2,3) by simp
    then show ?thesis using all f(1) by blast
  qed
  let ?st = "\<lparr>us_cursor = \<lparr>fc_before = [], fc_rest = ?F\<rparr>, us_new_fragments = [],
    us_ropes = rb_new (sn_visible_text s) (sn_deleted_text s), us_edits = []\<rparr>"
  have "ropes_at ins ?F [] (us_new_fragments ?st) (us_ropes ?st) (us_edits ?st)"
    using ok'(1) by (simp add: ropes_at_def rb_new_def snapshot_ok_def patch_new_ok_def)
  then obtain st B R where st: "undo_steps m (uo_timestamp u) ids ?st = Some st" "?F = B @ R"
      "us_cursor st = \<lparr>fc_before = B, fc_rest = R\<rparr>" "us_new_fragments st @ R = map (refreshed m (uo_timestamp u) (set ids)) ?F"
      "ropes_at ins ?F B (us_new_fragments st) (us_ropes st) (us_edits st)"
    using undo_steps [OF srt, of m "[]" ?F ids ?st ins "uo_timestamp u"] shown ids(2,3) by auto
  let ?N = "map (refreshed m (uo_timestamp u) (set ids)) ?F"
  let ?U = "cell_text ins (vcells ?N)" and ?V = "cell_text ins (dcells ?N)"
  let ?s = "s\<lparr>sn_fragments := ?N, sn_visible_text := ?U, sn_deleted_text := ?V, sn_undo_map := m\<rparr>"
  have r: "ropes_at ins ?F (B @ R) ?N (rb_append (us_ropes st) R) (us_edits st)"
    using ropes_copy [OF st(5), of R "[]"] st(2,4) by simp
  have "rb_finish (rb_append (us_ropes st) R) = (?U, ?V)"
    using r unfolding st(2) [symmetric] by (simp add: ropes_at_def rb_finish_def del: rb_append_simps)
  then have "apply_undo s u = Some (?s, us_edits st)"
    using m(1) ids(1) st(1,3,4) by (simp add: apply_undo_def)
  moreover have "fr_visible g = shown (insert u us) g \<and> undos_seen (insert u us) g" if g: "g \<in> set ?N" for g
  proof -
    obtain f where f: "f \<in> set ?F" "g = refreshed m (uo_timestamp u) (set ids) f" using g by auto
    show ?thesis
    proof (cases "fr_id f \<in> set ids")
      case True
      then have "fr_visible g = shown (insert u us) g" using f(2) shown by (simp add: refreshed_def shown_def)
      moreover have "undos_seen (insert u us) g"
        using undos_seen_refreshed vis(2) f True by blast
      ultimately show ?thesis by blast
    next
      case False
      then have "touching f \<inter> ?E = {}" using touched f(1) by blast
      then show ?thesis using False f vis shown_insert [of f u us] by (simp add: refreshed_def undos_seen_def)
    qed
  qed
  moreover have "slices_ok (sn_insertion_slices s) ?N"
    using ok'(2) by (simp add: slices_ok_def touching_def)
  moreover have "snapshot_ok ins ?s" using snapshot_ok_refresh [OF ok'(1) refl refl refl] .
  ultimately have "buffer_ok ins (insert u us) ?s" "apply_undo s u = Some (?s, us_edits st)"
    using m(2,3) by (simp_all add: buffer_ok_def del: set_map)
  moreover have "cell_text ins (vcells (B @ R)) = sn_visible_text s"
    using ok'(1) unfolding st(2) [symmetric] by (simp add: snapshot_ok_def)
  then have "patch_rel 0 0 (us_edits st) (sn_visible_text s) ?U" "patch_new_ok (us_edits st)"
    using r unfolding ropes_at_def by simp_all
  ultimately have "apply_undo s u = Some (?s, us_edits st) \<and> buffer_ok ins (insert u us) ?s \<and>
      sn_fragments ?s = ?N \<and> patch_rel 0 0 (us_edits st) (sn_visible_text s) (sn_visible_text ?s) \<and> patch_new_ok (us_edits st)"
    by simp
  then show ?thesis by blast
qed

end
