(* ===== verification/Zed_Buffer_Invariant.thy ===== *)
theory Zed_Buffer_Invariant
  imports Zed_Undo_Facts
begin

text \<open>
  The invariant \<open>buffer_ok\<close> of a buffer is kept by local edits, remote edits and undo.  What is left to show
  for the edits is that every fragment they insert or delete is recorded in the insertion slices.
\<close>

section \<open>The slices of an edit\<close>

text \<open>\<open>F\<close> holds the old fragments, which the edit \<open>ts\<close> has not touched before.\<close>

definition sliced :: "fragment set \<Rightarrow> lamport \<Rightarrow> edit_state \<Rightarrow> bool" where
  "sliced F ts st \<longleftrightarrow> (\<forall>f \<in> F. ts \<notin> touching f) \<and> set (fc_rest (es_cursor st)) \<subseteq> F \<and>
     (\<forall>p \<in> set (es_new_fragments st). ts \<in> touching p \<longrightarrow> slice_from_fragment ts p \<in> set (es_slices st)) \<and>
     (\<forall>q \<in> set (es_slices st). is_insertion_id q \<in> insert ts (fr_timestamp ` F))"

lemma sliced_update [simp]:
  "sliced F ts (st\<lparr>es_fragment_start := n\<rparr>) = sliced F ts st"
  "sliced F ts (st\<lparr>es_patch := p\<rparr>) = sliced F ts st"
  "sliced F ts (st\<lparr>es_ropes := rb\<rparr>) = sliced F ts st"
  "sliced F ts (st\<lparr>es_ranges := r\<rparr>) = sliced F ts st"
  "sliced F ts (st\<lparr>es_new_text := t\<rparr>) = sliced F ts st"
  by (simp_all add: sliced_def)

lemma sliced_slices:
  "sliced F ts st \<Longrightarrow> is_insertion_id q \<in> insert ts (fr_timestamp ` F) \<Longrightarrow> sliced F ts (st\<lparr>es_slices := es_slices st @ [q]\<rparr>)"
  by (auto simp: sliced_def)

lemma sliced_push:
  "sliced F ts st \<Longrightarrow> ts \<notin> touching p \<or> slice_from_fragment ts p \<in> set (es_slices st) \<Longrightarrow> sliced F ts (es_push p w st)"
  by (auto simp: sliced_def)

lemma sliced_next: "sliced F ts st \<Longrightarrow> sliced F ts (st\<lparr>es_cursor := fc_next (es_cursor st)\<rparr>)"
  by (auto simp: sliced_def fc_next_def split: list.splits)

lemma sliced_copy:
  assumes "sliced F ts st" "fc_rest (es_cursor st) = X @ Y"
  shows "sliced F ts (st\<lparr>es_cursor := \<lparr>fc_before = B, fc_rest = Y\<rparr>, es_ropes := rb, es_new_fragments := es_new_fragments st @ X,
    es_fragment_start := n\<rparr>)"
  using assms by (auto simp: sliced_def)

lemma sliced_item:
  "sliced F ts st \<Longrightarrow> fc_item (es_cursor st) = Some f \<Longrightarrow> f \<in> F \<and> ts \<notin> touching f"
  by (auto simp: sliced_def fc_item_def split: list.splits)

lemma touching_update [simp]:
  "touching (f\<lparr>fr_len := n\<rparr>) = touching f" "touching (f\<lparr>fr_insertion_offset := n\<rparr>) = touching f"
  "touching (f\<lparr>fr_id := i\<rparr>) = touching f" "touching (f\<lparr>fr_visible := v\<rparr>) = touching f"
  by (simp_all add: touching_def)

lemma push_fragments_sliced:
  "\<forall>p \<in> set (ins_new_fragments st). ts \<in> touching p \<longrightarrow> slice_from_fragment ts p \<in> set (ins_slices st) \<Longrightarrow>
   st' = push_fragments_loop t ts next_id ts off st \<Longrightarrow>
   (\<forall>p \<in> set (ins_new_fragments st'). ts \<in> touching p \<longrightarrow> slice_from_fragment ts p \<in> set (ins_slices st')) \<and>
   (\<forall>q \<in> set (ins_slices st'). q \<in> set (ins_slices st) \<or> is_insertion_id q = ts)"
proof (induction "length t - off" arbitrary: off st rule: less_induct)
  case less
  show ?case
  proof (cases "st' = st")
    case False
    define e where "e = (if min (length t) (off + MAX_INSERTION_LEN) = length t then min (length t) (off + MAX_INSERTION_LEN)
        else floor_char_boundary t (min (length t) (off + MAX_INSERTION_LEN)))"
    define f where "f = \<lparr>fr_id = locator_between (max_id (ins_new_fragments st)) next_id, fr_timestamp = ts,
        fr_insertion_offset = ins_offset st, fr_len = as_u32 (e - off), fr_visible = True, fr_deletions = [], fr_max_undos = version_new\<rparr>"
    define st1 where "st1 = \<lparr>ins_offset = as_u32 (ins_offset st + as_u32 (e - off)), ins_new_fragments = ins_new_fragments st @ [f],
        ins_new_insertions = ins_new_insertions st @ [insertion_fragment_new f], ins_slices = ins_slices st @ [slice_from_fragment ts f]\<rparr>"
    have "push_fragments_loop t ts next_id ts off st =
        (if off < length t then if e \<le> off then st else push_fragments_loop t ts next_id ts e st1 else st)"
      by (subst push_fragments_loop.simps) (simp only: Let_def st1_def f_def e_def)
    then have st': "off < length t" "off < e" "st' = push_fragments_loop t ts next_id ts e st1"
      using less.prems(2) False by (auto simp: not_le split: if_splits)
    have "\<forall>p \<in> set (ins_new_fragments st1). ts \<in> touching p \<longrightarrow> slice_from_fragment ts p \<in> set (ins_slices st1)"
      using less.prems(1) by (auto simp: st1_def)
    moreover have "is_insertion_id (slice_from_fragment ts f) = ts" by (simp add: slice_from_fragment_def f_def)
    moreover have "length t - e < length t - off" using st'(1,2) by simp
    ultimately show ?thesis using less.hyps [OF _ _ st'(3)] by (auto simp: st1_def)
  qed (use less.prems in auto)
qed

section \<open>Local edits\<close>

lemma sliced_finish: "sliced F ts st \<Longrightarrow> es_finish_fragment st = Some st' \<Longrightarrow> sliced F ts st'"
  using sliced_item [of F ts st]
  by (auto simp: es_finish_fragment_def Let_def split: if_splits option.splits
      intro!: sliced_next sliced_push simp del: es_push_simps)

lemma split_visible_append: "split_visible a pos fs = (X, Y) \<Longrightarrow> fs = X @ Y"
  by (induction a pos fs arbitrary: X Y rule: split_visible.induct) (auto simp: Let_def split: if_splits prod.splits)

lemma sliced_jump:
  assumes "sliced F ts st" "es_jump a st = Some st'"
  shows "sliced F ts st'"
proof (cases "fc_end_visible (es_cursor st) < a")
  case True
  then obtain st1 where st1: "es_finish_fragment st = Some st1"
    using assms(2) by (auto simp: es_jump_def split: option.splits)
  obtain X Y where sp: "split_visible a (fc_start_visible (es_cursor st1)) (fc_rest (es_cursor st1)) = (X, Y)" by fastforce
  have "sliced F ts st1" by (rule sliced_finish [OF assms(1) st1])
  moreover have "fc_rest (es_cursor st1) = X @ Y"
    by (rule split_visible_append [OF sp])
  ultimately show ?thesis
    using assms(2) True st1 sp sliced_copy by (auto simp: es_jump_def fc_slice_visible_def)
qed (use assms in \<open>simp add: es_jump_def\<close>)

lemma sliced_prefix: "sliced F ts st \<Longrightarrow> es_prefix a st = Some st' \<Longrightarrow> sliced F ts st'"
  using sliced_item [of F ts st]
  by (auto simp: es_prefix_def Let_def split: if_splits option.splits intro!: sliced_push simp del: es_push_simps)

lemma sliced_insert:
  assumes "sliced F ts st" and st': "es_new_fragments st' = ins_new_fragments i" "es_slices st' = ins_slices i" "es_cursor st' = es_cursor st"
    and i: "i = push_fragments_loop t ts next_id ts 0 \<lparr>ins_offset = es_insertion_offset st, ins_new_fragments = es_new_fragments st,
        ins_new_insertions = es_new_insertions st, ins_slices = es_slices st\<rparr>"
  shows "sliced F ts st'"
  using push_fragments_sliced [OF _ i] assms(1) st' unfolding sliced_def by auto

lemma sliced_es_insert: "sliced F ts st \<Longrightarrow> sliced F ts (es_insert t ts st)"
  by (cases "t = []") (auto simp: es_insert_def Let_def intro: sliced_insert [where st = st])

lemma sliced_delete_step:
  assumes "sliced F ts st" "fc_item (es_cursor st) = Some f"
  shows "sliced F ts (es_delete_step b ts f st)"
proof -
  have f: "f \<in> F" "ts \<notin> touching f" using sliced_item [OF assms] by blast+
  define e where "e = min b (fc_end_visible (es_cursor st))"
  define p where "p = (if fr_visible f then
      f\<lparr>fr_len := as_u32 (e - es_fragment_start st),
        fr_insertion_offset := as_u32 (fr_insertion_offset f + as_u32 (es_fragment_start st - fc_start_visible (es_cursor st))),
        fr_id := locator_between (max_id (es_new_fragments st)) (fr_id f),
        fr_deletions := fr_deletions f @ [ts], fr_visible := False\<rparr> else f)"
  define st1 where "st1 = (if fr_visible f \<and> \<not> fr_visible p then
      st\<lparr>es_patch := patch_push (es_patch st) (mk_edit (es_fragment_start st) e (visible_len (es_new_fragments st)) (visible_len (es_new_fragments st))),
         es_slices := es_slices st @ [slice_from_fragment ts p]\<rparr> else st)"
  define st2 where "st2 = (if 0 < fr_len p then (es_push p (fr_visible f) st1)\<lparr>es_fragment_start := e\<rparr> else st)"
  have eq: "es_delete_step b ts f st = (if fc_end_visible (es_cursor st) \<le> b then st2\<lparr>es_cursor := fc_next (es_cursor st2)\<rparr> else st2)"
    unfolding es_delete_step_def Let_def st2_def st1_def p_def e_def by (rule refl)
  have "is_insertion_id (slice_from_fragment ts p) \<in> fr_timestamp ` F" using f(1) by (simp add: slice_from_fragment_def p_def)
  then have "sliced F ts st1" using assms(1) by (auto simp: sliced_def st1_def)
  moreover have "ts \<notin> touching p \<or> slice_from_fragment ts p \<in> set (es_slices st1)"
    using f by (simp add: st1_def p_def)
  ultimately have "sliced F ts st2" using assms(1) by (simp add: st2_def sliced_push del: es_push_simps)
  then show ?thesis using sliced_next by (simp add: eq)
qed

lemma sliced_delete:
  assumes "es_delete b ts st = Some st'" "sliced F ts st"
  shows "sliced F ts st'"
proof -
  have "sliced F ts st \<longrightarrow> sliced F ts st'"
  proof (rule es_delete.raw_induct [where P = "\<lambda>b ts st st'. sliced F ts st \<longrightarrow> sliced F ts st'", OF _ assms(1)], goal_cases)
    case (1 del b ts st st')
    show ?case
    proof
      assume s: "sliced F ts st"
      show "sliced F ts st'"
      proof (cases "fc_item (es_cursor st)")
        case None
        then show ?thesis using 1(2) s by (simp split: if_splits)
      next
        case (Some f)
        then show ?thesis using 1 s sliced_delete_step [OF s Some, of b] by (simp split: if_splits)
      qed
    qed
  qed
  then show ?thesis using assms(2) by blast
qed

lemma sliced_edit:
  assumes "sliced F ts st" "es_edit ts ((a, b), t) st = Some st'"
  shows "sliced F ts st'"
proof -
  obtain st1 where 1: "es_jump a st = Some st1" using assms(2) by (cases "es_jump a st") (simp_all add: es_edit_def)
  obtain st2 where 2: "es_prefix a st1 = Some st2" using assms(2) 1 by (cases "es_prefix a st1") (simp_all add: es_edit_def Let_def)
  obtain st3 where 3: "es_delete b ts (es_insert (normalize_text t) ts st2) = Some st3"
    using assms(2) 1 2 by (cases "es_delete b ts (es_insert (normalize_text t) ts st2)") (simp_all add: es_edit_def Let_def)
  have "sliced F ts st3"
    using sliced_jump [OF assms(1) 1] sliced_prefix [OF _ 2] sliced_es_insert sliced_delete [OF 3] by blast
  then show ?thesis using assms(2) 1 2 3 by (auto simp: es_edit_def Let_def)
qed

lemma sliced_edits: "sliced F ts st \<Longrightarrow> es_edits ts es st = Some st' \<Longrightarrow> sliced F ts st'"
proof (induction es arbitrary: st)
  case (Cons e es)
  obtain a b t where "e = ((a, b), t)" by (cases e) auto
  then show ?case using Cons sliced_edit [of F ts st a b t] by (auto split: option.splits)
qed simp

text \<open>What the edit leaves: the slices it adds, and a new fragment that it touched is among them.\<close>

definition edit_recorded :: "lamport \<Rightarrow> snapshot \<Rightarrow> snapshot \<Rightarrow> bool" where
  "edit_recorded ts s s' \<longleftrightarrow> (\<exists>new. sn_insertion_slices s' = extend_slices (sn_insertion_slices s) new \<and>
     (\<forall>p \<in> set (sn_fragments s'). ts \<in> touching p \<longrightarrow> slice_from_fragment ts p \<in> set new) \<and>
     (\<forall>q \<in> set new. is_insertion_id q \<in> insert ts (fr_timestamp ` set (sn_fragments s))))"

lemma local_edit_recorded:
  assumes "apply_edit_internal s es ts = Some (s', rs, texts, p)" "\<forall>f \<in> set (sn_fragments s). ts \<notin> touching f"
  shows "edit_recorded ts s s'"
proof (cases es)
  case Nil
  then show ?thesis using assms
    by (auto simp: apply_edit_internal_def edit_recorded_def extend_slices_def intro!: exI [of _ "[]"])
next
  case (Cons e es')
  obtain a b t where e: "e = ((a, b), t)" by (cases e) auto
  let ?F = "set (sn_fragments s)"
  obtain st1 where 1: "es_edits ts es (es_start s a) = Some st1"
    using assms(1) by (cases "es_edits ts es (es_start s a)") (simp_all add: Cons e apply_edit_internal_def del: es_edits.simps)
  obtain st2 where 2: "es_finish_fragment st1 = Some st2"
    using assms(1) 1 by (cases "es_finish_fragment st1") (simp_all add: Cons e apply_edit_internal_def del: es_edits.simps)
  have s': "sn_fragments s' = es_new_fragments st2 @ fc_rest (es_cursor st2)"
      "sn_insertion_slices s' = extend_slices (sn_insertion_slices s) (es_slices st2)"
    using assms(1) 1 2
    by (auto simp: Cons e apply_edit_internal_def es_finish_def Let_def split: prod.splits simp del: es_edits.simps)
  obtain X Y where sp: "split_visible a 0 (sn_fragments s) = (X, Y)" by fastforce
  have "set X \<subseteq> ?F" "set Y \<subseteq> ?F" by (simp_all add: split_visible_append [OF sp])
  then have "sliced ?F ts (es_start s a)"
    using assms(2)
    by (auto simp: sliced_def es_start_def fc_slice_visible_def fc_start_visible_def sp)
  then have "sliced ?F ts st2" using sliced_edits [OF _ 1] sliced_finish [OF _ 2] by blast
  then show ?thesis using s' by (auto simp: sliced_def edit_recorded_def intro!: exI [of _ "es_slices st2"])
qed

section \<open>Remote edits\<close>

lemma sliced_re_finish: "sliced F ts st \<Longrightarrow> re_finish_fragment v st = Some st' \<Longrightarrow> sliced F ts st'"
  using sliced_item [of F ts st]
  by (auto simp: re_finish_fragment_def Let_def split: if_splits option.splits
      intro!: sliced_next sliced_push simp del: es_push_simps)

lemma sliced_re_jump:
  assumes "sliced F ts st" "re_jump v a st = Some st'"
  shows "sliced F ts st'"
proof (cases "re_end v (es_cursor st) < a")
  case True
  then obtain st1 where st1: "re_finish_fragment v st = Some st1"
    using assms(2) by (auto simp: re_jump_def split: option.splits)
  obtain X Y where sp: "split_versioned v a (re_start v (es_cursor st1)) (fc_rest (es_cursor st1)) = (X, Y)" by fastforce
  have "sliced F ts st1" by (rule sliced_re_finish [OF assms(1) st1])
  moreover have "fc_rest (es_cursor st1) = X @ Y" by (rule split_versioned(1) [OF sp])
  ultimately show ?thesis
    using assms(2) True st1 sp sliced_copy by (auto simp: re_jump_def fc_slice_versioned_def)
qed (use assms in \<open>simp add: re_jump_def\<close>)

lemma sliced_re_advance: "sliced F ts st \<Longrightarrow> re_advance v a st = Some st' \<Longrightarrow> sliced F ts st'"
  using sliced_item [of F ts st]
  by (auto simp: re_advance_def Let_def split: if_splits option.splits
      intro!: sliced_next sliced_push simp del: es_push_simps)

lemma sliced_re_prefix: "sliced F ts st \<Longrightarrow> re_prefix v a st = Some st' \<Longrightarrow> sliced F ts st'"
  using sliced_item [of F ts st]
  by (auto simp: re_prefix_def Let_def split: if_splits option.splits intro!: sliced_push simp del: es_push_simps)

lemma sliced_re_skip: "sliced F ts st \<Longrightarrow> sliced F ts (re_skip a ts st)"
proof -
  have "sliced F ts st \<Longrightarrow> fc_rest (es_cursor st) = fs \<Longrightarrow> sliced F ts (re_skip_loop a ts fs st)" for fs
  proof (induction fs arbitrary: st)
    case (Cons f fs)
    have "sliced F ts (st\<lparr>es_ropes := rb_push_fragment (es_ropes st) f (fr_visible f),
        es_new_fragments := es_new_fragments st @ [f], es_cursor := fc_next (es_cursor st)\<rparr>)"
      using Cons.prems by (auto simp: sliced_def fc_next_def)
    from Cons.IH [OF this] show ?case using Cons.prems by (simp add: fc_next_def)
  qed simp
  then show "sliced F ts st \<Longrightarrow> ?thesis" by (simp add: re_skip_def)
qed

lemma sliced_re_insert: "sliced F ts st \<Longrightarrow> sliced F ts (re_insert v t ts st)"
  by (cases "t = []") (auto simp: re_insert_def Let_def intro: sliced_insert [where st = st])

text \<open>What follows the choice of the intersection \<open>p\<close>.\<close>

definition delete_rest :: "vclock \<Rightarrow> nat \<Rightarrow> fragment \<Rightarrow> edit_state \<Rightarrow> fragment \<Rightarrow> edit_state \<Rightarrow> edit_state" where
  "delete_rest v b f st p st1 =
     (let e = min b (re_end v (es_cursor st));
          st2 = (if 0 < fr_len p then
             (let st2 = (if fr_visible f \<and> \<not> fr_visible p then
                let old_start = fc_start_visible (es_cursor st1) + (es_fragment_start st - re_start v (es_cursor st));
                    new_start = visible_len (es_new_fragments st1)
                in st1\<lparr>es_patch := patch_push (es_patch st1) (mk_edit old_start (old_start + fr_len p) new_start new_start)\<rparr>
              else st1)
              in (es_push p (fr_visible f) st2)\<lparr>es_fragment_start := e\<rparr>)
           else st1)
      in if re_end v (es_cursor st) \<le> b then st2\<lparr>es_cursor := fc_next (es_cursor st2)\<rparr> else st2)"

lemma sliced_delete_rest:
  assumes "sliced F ts st1" "ts \<notin> touching p \<or> slice_from_fragment ts p \<in> set (es_slices st1)"
  shows "sliced F ts (delete_rest v b f st p st1)"
proof -
  define st2 where "st2 = (if fr_visible f \<and> \<not> fr_visible p then
      st1\<lparr>es_patch := patch_push (es_patch st1) (mk_edit (fc_start_visible (es_cursor st1) + (es_fragment_start st - re_start v (es_cursor st)))
        (fc_start_visible (es_cursor st1) + (es_fragment_start st - re_start v (es_cursor st)) + fr_len p)
        (visible_len (es_new_fragments st1)) (visible_len (es_new_fragments st1)))\<rparr> else st1)"
  define st3 where "st3 = (if 0 < fr_len p then
      (es_push p (fr_visible f) st2)\<lparr>es_fragment_start := min b (re_end v (es_cursor st))\<rparr> else st1)"
  have "sliced F ts st2" "es_slices st2 = es_slices st1" using assms(1) by (simp_all add: st2_def)
  then have "sliced F ts st3" using assms by (simp add: st3_def sliced_push del: es_push_simps)
  moreover have "delete_rest v b f st p st1 = (if re_end v (es_cursor st) \<le> b then st3\<lparr>es_cursor := fc_next (es_cursor st3)\<rparr> else st3)"
    unfolding delete_rest_def Let_def st3_def st2_def by (rule refl)
  ultimately show ?thesis by (simp add: sliced_next)
qed

lemma sliced_re_delete_step:
  assumes "sliced F ts st" "fc_item (es_cursor st) = Some f" "re_delete_step undos v b ts f st = Some st'"
  shows "sliced F ts st'"
proof -
  have f: "f \<in> F" "ts \<notin> touching f" using sliced_item [OF assms(1,2)] by blast+
  define q where "q = f\<lparr>fr_len := as_u32 (min b (re_end v (es_cursor st)) - es_fragment_start st),
    fr_insertion_offset := as_u32 (fr_insertion_offset f + as_u32 (es_fragment_start st - re_start v (es_cursor st))),
    fr_id := locator_between (max_id (es_new_fragments st)) (fr_id f)\<rparr>"
  define d where "d = q\<lparr>fr_deletions := fr_deletions f @ [ts], fr_visible := False\<rparr>"
  have q: "ts \<notin> touching q" using f by (simp add: q_def)
  have step: "re_delete_step undos v b ts f st =
      (case (if vclock_observed v (fr_timestamp f) then
               (case fragment_was_visible undos v f of
                  None \<Rightarrow> None
                | Some False \<Rightarrow> Some (q, st)
                | Some True \<Rightarrow> Some (d, st\<lparr>es_slices := es_slices st @ [slice_from_fragment ts d]\<rparr>))
             else Some (f, st)) of
         None \<Rightarrow> None | Some (p, st1) \<Rightarrow> Some (delete_rest v b f st p st1))"
    unfolding re_delete_step_def Let_def delete_rest_def q_def d_def by (rule refl)
  show ?thesis
  proof (cases "vclock_observed v (fr_timestamp f)")
    case False
    then have "st' = delete_rest v b f st f st" using assms(3) unfolding step by simp
    then show ?thesis using sliced_delete_rest [OF assms(1)] f by simp
  next
    case True
    then obtain w where w: "fragment_was_visible undos v f = Some w" using assms(3) unfolding step by (auto split: option.splits)
    show ?thesis
    proof (cases w)
      case True
      then have "st' = delete_rest v b f st d (st\<lparr>es_slices := es_slices st @ [slice_from_fragment ts d]\<rparr>)"
        using assms(3) w \<open>vclock_observed v (fr_timestamp f)\<close> unfolding step by simp
      moreover have "is_insertion_id (slice_from_fragment ts d) \<in> insert ts (fr_timestamp ` F)"
        using f(1) by (simp add: slice_from_fragment_def d_def q_def)
      ultimately show ?thesis
        using sliced_delete_rest [OF sliced_slices [OF assms(1)], of "slice_from_fragment ts d" d v b f st] by simp
    next
      case False
      then have "st' = delete_rest v b f st q st"
        using assms(3) w \<open>vclock_observed v (fr_timestamp f)\<close> unfolding step by simp
      then show ?thesis using sliced_delete_rest [OF assms(1)] q by simp
    qed
  qed
qed

lemma sliced_re_delete:
  assumes "re_delete undos v b ts st = Some st'" "sliced F ts st"
  shows "sliced F ts st'"
proof -
  have "sliced F ts st \<longrightarrow> sliced F ts st'"
  proof (rule re_delete.raw_induct
      [where P = "\<lambda>undos v b ts st st'. sliced F ts st \<longrightarrow> sliced F ts st'", OF _ assms(1)], goal_cases)
    case (1 del undos v b ts st st')
    show ?case
    proof
      assume s: "sliced F ts st"
      show "sliced F ts st'"
      proof (cases "es_fragment_start st < b")
        case lt: True
        then obtain f where f: "fc_item (es_cursor st) = Some f" using 1(2) by (cases "fc_item (es_cursor st)") simp_all
        then obtain st1 where st1: "re_delete_step undos v b ts f st = Some st1" "del undos v b ts st1 = Some st'"
          using 1(2) lt by (cases "re_delete_step undos v b ts f st") simp_all
        from 1(1) [OF st1(2)] sliced_re_delete_step [OF s f st1(1)] show ?thesis by blast
      qed (use 1(2) s in simp)
    qed
  qed
  then show ?thesis using assms(2) by blast
qed

lemma sliced_re_edit:
  assumes "sliced F ts st" "re_edit undos v ts ((a, b), t) st = Some st'"
  shows "sliced F ts st'"
proof -
  obtain st1 where 1: "re_jump v a st = Some st1" using assms(2) by (cases "re_jump v a st") (simp_all add: re_edit_def)
  obtain st2 where 2: "re_advance v a st1 = Some st2" using assms(2) 1 by (cases "re_advance v a st1") (simp_all add: re_edit_def)
  obtain st3 where 3: "re_prefix v a (re_skip a ts st2) = Some st3"
    using assms(2) 1 2 by (cases "re_prefix v a (re_skip a ts st2)") (simp_all add: re_edit_def)
  have 4: "re_delete undos v b ts (re_insert v t ts st3) = Some st'" using assms(2) 1 2 3 by (simp add: re_edit_def)
  show ?thesis
    using sliced_re_jump [OF assms(1) 1] sliced_re_advance [OF _ 2] sliced_re_skip sliced_re_prefix [OF _ 3]
      sliced_re_insert sliced_re_delete [OF 4] by blast
qed

lemma sliced_re_edits: "sliced F ts st \<Longrightarrow> re_edits undos v ts es st = Some st' \<Longrightarrow> sliced F ts st'"
proof (induction es arbitrary: st)
  case (Cons e es)
  obtain a b t where "e = ((a, b), t)" by (cases e) auto
  then show ?case using Cons sliced_re_edit [of F ts st undos v a b t] by (auto split: option.splits)
qed simp

lemma remote_edit_recorded:
  assumes "apply_remote_edit s v ranges texts ts = Some (s', p)" "\<forall>f \<in> set (sn_fragments s). ts \<notin> touching f"
  shows "edit_recorded ts s s'"
proof (cases ranges)
  case Nil
  then show ?thesis using assms
    by (auto simp: apply_remote_edit_def edit_recorded_def extend_slices_def intro!: exI [of _ "[]"])
next
  case (Cons r rs)
  obtain a b where r: "r = (a, b)" by fastforce
  let ?F = "set (sn_fragments s)" and ?es = "zip ranges texts"
  obtain st1 where 1: "re_edits (sn_undo_map s) v ts ?es (re_start_state s v a) = Some st1"
    using assms(1) by (cases "re_edits (sn_undo_map s) v ts ?es (re_start_state s v a)") (simp_all add: Cons r apply_remote_edit_def)
  obtain st2 where 2: "re_finish_fragment v st1 = Some st2"
    using assms(1) 1 by (cases "re_finish_fragment v st1") (simp_all add: Cons r apply_remote_edit_def)
  have s': "sn_fragments s' = es_new_fragments st2 @ fc_rest (es_cursor st2)"
      "sn_insertion_slices s' = extend_slices (sn_insertion_slices s) (es_slices st2)"
    using assms(1) 1 2 by (auto simp: Cons r apply_remote_edit_def es_finish_def Let_def split: prod.splits)
  obtain X Y where sp: "split_versioned v a 0 (sn_fragments s) = (X, Y)" by fastforce
  have "set X \<subseteq> ?F" "set Y \<subseteq> ?F" by (simp_all add: split_versioned(1) [OF sp])
  then have "sliced ?F ts (re_start_state s v a)"
    using assms(2) by (auto simp: sliced_def re_start_state_def fc_slice_versioned_def re_start_def sp)
  then have "sliced ?F ts st2" using sliced_re_edits [OF _ 1] sliced_re_finish [OF _ 2] by blast
  then show ?thesis using s' by (auto simp: sliced_def edit_recorded_def intro!: exI [of _ "es_slices st2"])
qed

section \<open>The invariant\<close>

lemma slice_key_inj: "slice_key p = slice_key q \<Longrightarrow> p = q"
  by (cases p; cases q) (simp add: slice_key_def)

lemma extend_slices:
  "set (extend_slices xs ys) = set xs \<union> set ys"
  "sorted_wrt (<) (map slice_key xs) \<Longrightarrow> sorted_wrt (<) (map slice_key (extend_slices xs ys))"
proof -
  have put: "set (put_item slice_key y zs) = insert y (set zs)" for y zs
  proof
    show "set (put_item slice_key y zs) \<subseteq> insert y (set zs)" by (rule set_put_item)
    show "insert y (set zs) \<subseteq> set (put_item slice_key y zs)"
    proof
      fix z assume "z \<in> insert y (set zs)"
      then show "z \<in> set (put_item slice_key y zs)"
        using set_put_item(2) [of y slice_key zs] set_put_item(3) [of z zs slice_key y] slice_key_inj [of z y] by blast
    qed
  qed
  show "set (extend_slices xs ys) = set xs \<union> set ys"
    unfolding extend_slices_def by (induction ys rule: rev_induct) (simp_all add: put)
  show "sorted_wrt (<) (map slice_key xs) \<Longrightarrow> sorted_wrt (<) (map slice_key (extend_slices xs ys))"
    unfolding extend_slices_def by (induction ys rule: rev_induct) (simp_all add: sorted_put_item)
qed

lemma slices_ok_edit:
  assumes ok: "slices_ok (sn_insertion_slices s) (sn_fragments s)" and rec: "edit_recorded ts s s'"
    and origin: "\<forall>p \<in> set (sn_fragments s'). origin (sn_fragments s) ts p"
    and fits: "\<forall>p \<in> set (sn_fragments s'). fr_fits ins p"
    and min: "LAMPORT_MIN < ts" "\<forall>f \<in> set (sn_fragments s). LAMPORT_MIN < fr_timestamp f"
  shows "slices_ok (sn_insertion_slices s') (sn_fragments s')"
proof -
  obtain new where new: "sn_insertion_slices s' = extend_slices (sn_insertion_slices s) new"
      "\<forall>p \<in> set (sn_fragments s'). ts \<in> touching p \<longrightarrow> slice_from_fragment ts p \<in> set new"
      "\<forall>q \<in> set new. is_insertion_id q \<in> insert ts (fr_timestamp ` set (sn_fragments s))"
    using rec unfolding edit_recorded_def by blast
  have all: "set (sn_insertion_slices s') = set (sn_insertion_slices s) \<union> set new" unfolding new(1) by (rule extend_slices)
  have "\<exists>q \<in> set (sn_insertion_slices s'). is_edit_id q = d \<and> is_insertion_id q = fr_timestamp p \<and>
      is_start q \<le> fr_insertion_offset p \<and> fr_insertion_offset p + fr_len p \<le> is_end q"
    if p: "p \<in> set (sn_fragments s')" "d \<in> touching p - {base_insertion}" for p d
  proof (cases "d = ts")
    case True
    have "fr_insertion_offset p + fr_len p < 2 ^ 32" using fits p(1) unfolding fr_fits_def by fastforce
    then show ?thesis using new(2) p True all
      by (intro bexI [of _ "slice_from_fragment ts p"]) (auto simp: slice_from_fragment_def)
  next
    case False
    then obtain f where f: "f \<in> set (sn_fragments s)" "within f p" "marks ts f p"
      using origin p unfolding origin_def touching_def by fastforce
    then have "d \<in> touching f - {base_insertion}" using p(2) False by (auto simp: touching_def marks_def within_def)
    then obtain q where "q \<in> set (sn_insertion_slices s)" "is_edit_id q = d" "is_insertion_id q = fr_timestamp f"
        "is_start q \<le> fr_insertion_offset f" "fr_insertion_offset f + fr_len f \<le> is_end q"
      using ok f(1) unfolding slices_ok_def by blast
    then show ?thesis using f(2) all by (intro bexI [of _ q]) (auto simp: within_def)
  qed
  moreover have "\<forall>q \<in> set (sn_insertion_slices s'). LAMPORT_MIN < is_insertion_id q"
    using ok min new(3) unfolding all slices_ok_def by auto
  ultimately show ?thesis using ok extend_slices(2) new(1) unfolding slices_ok_def by auto
qed

lemma undos_seen_edit:
  assumes "\<forall>f \<in> set fs. undos_seen us f" "origin fs ts p" "\<forall>u \<in> us. ts \<notin> fst ` set (uo_counts u)"
  shows "undos_seen us p"
proof (cases "fr_timestamp p = ts \<and> fr_deletions p = []")
  case False
  then obtain f where f: "f \<in> set fs" "within f p" "marks ts f p" using assms(2) by (auto simp: origin_def)
  then have "touching p \<subseteq> insert ts (touching f)" "fr_max_undos p = fr_max_undos f"
    by (auto simp: touching_def within_def marks_def)
  then have "touching f \<inter> fst ` set (uo_counts u) \<noteq> {}" if "u \<in> us" "touching p \<inter> fst ` set (uo_counts u) \<noteq> {}" for u
    using assms(3) that by blast
  then show ?thesis using assms(1) f(1) \<open>fr_max_undos p = fr_max_undos f\<close> by (auto simp: undos_seen_def)
qed (use assms(3) in \<open>auto simp: undos_seen_def touching_def\<close>)

lemma max_count_none: "\<forall>u \<in> us. e \<notin> fst ` set (uo_counts u) \<Longrightarrow> max_count us e p = 0"
proof -
  assume "\<forall>u \<in> us. e \<notin> fst ` set (uo_counts u)"
  then have "{n. \<exists>u \<in> us. p (uo_timestamp u) \<and> (e, n) \<in> set (uo_counts u)} = {}" by force
  then show ?thesis by (simp only: max_count_def Max_singleton)
qed

lemma undone_none: "\<forall>u \<in> us. e \<notin> fst ` set (uo_counts u) \<Longrightarrow> \<not> undone us e"
  by (simp add: undone_def max_count_none)

lemma shown_edit:
  assumes "\<forall>f \<in> set fs. fr_visible f = shown us f" "origin fs ts p" "\<not> undone us ts"
  shows "fr_visible p = shown us p"
  using assms by (auto simp: origin_def within_def marks_def shown_def)

text \<open>The index of insertions has no entry at the least timestamp, as no clock gives it out.\<close>

definition clocks_ok :: "snapshot \<Rightarrow> bool" where
  "clocks_ok s \<longleftrightarrow> (\<forall>f \<in> set (sn_fragments s). LAMPORT_MIN < fr_timestamp f)"

lemma buffer_ok_edit:
  assumes ok: "buffer_ok ins us s" "clocks_ok s" "LAMPORT_MIN < ts" "\<forall>u \<in> us. ts \<notin> fst ` set (uo_counts u)"
    and s': "snapshot_ok ins' s'" "edit_recorded ts s s'" "\<forall>p \<in> set (sn_fragments s'). origin (sn_fragments s) ts p"
      "sn_undo_map s' = sn_undo_map s"
  shows "buffer_ok ins' us s' \<and> clocks_ok s'"
proof -
  have "slices_ok (sn_insertion_slices s') (sn_fragments s')"
    using ok s' by (intro slices_ok_edit [OF _ s'(2,3)]) (auto simp: buffer_ok_def clocks_ok_def snapshot_ok_def)
  moreover have "\<forall>p \<in> set (sn_fragments s'). fr_visible p = shown us p \<and> undos_seen us p"
    using shown_edit [of "sn_fragments s" us ts] undos_seen_edit [of "sn_fragments s" us ts] undone_none [OF ok(4)] ok(1,4) s'(3)
    by (auto simp: buffer_ok_def)
  moreover have "LAMPORT_MIN < fr_timestamp p" if "p \<in> set (sn_fragments s')" for p
    using s'(3) that ok(2,3) by (fastforce simp: origin_def within_def clocks_ok_def)
  ultimately show ?thesis using ok(1) s'(1,4) by (simp add: buffer_ok_def clocks_ok_def)
qed

section \<open>The operations of a buffer\<close>

lemma local_edit_buffer:
  assumes ok: "buffer_ok ins us s" "clocks_ok s" and ts: "LAMPORT_MIN < ts" "\<forall>u \<in> us. ts \<notin> fst ` set (uo_counts u)" "\<forall>f \<in> set (sn_fragments s). ts \<notin> touching f"
    and es: "edits_ok (length (sn_visible_text s)) 0 es" "length (concat (edit_texts es)) < 2 ^ 32"
  shows "\<exists>s' rs texts p. apply_edit_internal s es ts = Some (s', rs, texts, p) \<and> local_edit_result ins s es ts s' rs texts p \<and>
    buffer_ok (ins(ts := concat texts)) us s' \<and> clocks_ok s'"
proof -
  have "snapshot_ok ins s" "ts \<notin> fr_timestamp ` set (sn_fragments s)"
    using ok ts(3) by (auto simp: buffer_ok_def touching_def)
  from local_edit [OF this es] obtain s' rs texts p where
    r: "apply_edit_internal s es ts = Some (s', rs, texts, p)" "local_edit_result ins s es ts s' rs texts p" by blast
  have "sn_undo_map s' = sn_undo_map s"
    using r(1) by (auto simp: apply_edit_internal_def split: list.splits option.splits prod.splits)
  then have "buffer_ok (ins(ts := concat texts)) us s' \<and> clocks_ok s'"
    using r(2) unfolding local_edit_result_def by (intro buffer_ok_edit [OF ok ts(1,2) _ local_edit_recorded [OF r(1) ts(3)]]) blast+
  with r show ?thesis by blast
qed

lemma remote_edit_buffer:
  assumes ok: "buffer_ok ins us s" "clocks_ok s" "st_height (sn_undo_map s) < 16"
    and ts: "LAMPORT_MIN < ts" "\<forall>u \<in> us. ts \<notin> fst ` set (uo_counts u)" "\<forall>f \<in> set (sn_fragments s). ts \<notin> touching f"
    and causal: "\<forall>f \<in> set (sn_fragments s). vclock_observed v (fr_timestamp f) \<longrightarrow> fr_timestamp f < ts"
    and es: "length ranges = length texts" "edits_ok (versioned_len v (sn_fragments s)) 0 (zip ranges texts)"
      "length (concat texts) < 2 ^ 32"
  shows "\<exists>s' p. apply_remote_edit s v ranges texts ts = Some (s', p) \<and>
    buffer_ok (ins(ts := concat texts)) us s' \<and> clocks_ok s' \<and>
    patch_rel 0 0 p (sn_visible_text s) (sn_visible_text s') \<and> patch_new_ok p"
proof -
  have "snapshot_ok ins s" "ts \<notin> fr_timestamp ` set (sn_fragments s)" "um_ok (sn_undo_map s)"
    using ok ts(3) by (auto simp: buffer_ok_def touching_def)
  from remote_edit [OF this ok(3) causal es] obtain s' p where
    r: "apply_remote_edit s v ranges texts ts = Some (s', p)" "snapshot_ok (ins(ts := concat texts)) s'"
      "\<forall>f \<in> set (sn_fragments s'). origin (sn_fragments s) ts f"
      "patch_rel 0 0 p (sn_visible_text s) (sn_visible_text s')" "patch_new_ok p" by blast
  have "sn_undo_map s' = sn_undo_map s"
    using r(1) by (auto simp: apply_remote_edit_def split: list.splits option.splits prod.splits)
  then have "buffer_ok (ins(ts := concat texts)) us s' \<and> clocks_ok s'"
    using r by (intro buffer_ok_edit [OF ok(1,2) ts(1,2) _ remote_edit_recorded [OF r(1) ts(3)]]) simp_all
  with r show ?thesis by blast
qed

lemma shown_refreshed [simp]: "shown us (refreshed m t I f) = shown us f"
  by (simp add: shown_def)

text \<open>A fragment without what undo may change.\<close>

definition fr_core :: "fragment \<Rightarrow> fragment" where
  "fr_core f = f\<lparr>fr_visible := True, fr_max_undos := version_new\<rparr>"

lemma fr_core_refreshed [simp]: "fr_core (refreshed m t I f) = fr_core f"
  by (simp add: fr_core_def refreshed_def)

lemma fr_core_fields [simp]:
  "fr_timestamp (fr_core f) = fr_timestamp f" "fr_cells (fr_core f) = fr_cells f" "fr_id (fr_core f) = fr_id f"
  "shown us (fr_core f) = shown us f" "touching (fr_core f) = touching f"
  by (simp_all add: fr_core_def fr_cells_def shown_def touching_def)

lemma cells_filter_map: "cells (filter P (map (refreshed m t I) fs)) = cells (filter (\<lambda>f. P (refreshed m t I f)) fs)"
  by (induction fs) simp_all

lemma buffer_ok_text:
  assumes "buffer_ok ins us s"
  shows "sn_visible_text s = cell_text ins (cells (filter (shown us) (sn_fragments s)))"
proof -
  have "filter fr_visible (sn_fragments s) = filter (shown us) (sn_fragments s)"
    using assms by (intro filter_cong) (simp_all add: buffer_ok_def)
  then show ?thesis using assms by (simp add: buffer_ok_def snapshot_ok_def vcells_def)
qed

lemma undo_buffer:
  assumes "buffer_ok ins us s" "clocks_ok s" "st_height (sn_undo_map s) < 16" "distinct (map fst (uo_counts u))"
    and "\<forall>u' \<in> us. uo_timestamp u' = uo_timestamp u \<longrightarrow> u' = u" "base_insertion \<notin> fst ` set (uo_counts u)"
    and h: "\<forall>m. um_insert (sn_undo_map s) u = Some m \<longrightarrow> st_height m < 16"
  shows "\<exists>s' p. apply_undo s u = Some (s', p) \<and> buffer_ok ins (insert u us) s' \<and> clocks_ok s' \<and>
    sn_visible_text s' = cell_text ins (cells (filter (shown (insert u us)) (sn_fragments s))) \<and>
    map fr_core (sn_fragments s') = map fr_core (sn_fragments s) \<and>
    patch_rel 0 0 p (sn_visible_text s) (sn_visible_text s') \<and> patch_new_ok p"
proof -
  from apply_undo [OF assms(1,3-6)] h obtain s' p m I where
    r: "apply_undo s u = Some (s', p)" "buffer_ok ins (insert u us) s'"
      "sn_fragments s' = map (refreshed m (uo_timestamp u) I) (sn_fragments s)"
      "patch_rel 0 0 p (sn_visible_text s) (sn_visible_text s')" "patch_new_ok p" by blast
  have "sn_visible_text s' = cell_text ins (cells (filter (shown (insert u us)) (sn_fragments s)))"
    unfolding buffer_ok_text [OF r(2)] r(3) cells_filter_map by simp
  moreover have "clocks_ok s'" using assms(2) by (simp add: clocks_ok_def r(3))
  moreover have "map fr_core (sn_fragments s') = map fr_core (sn_fragments s)" by (simp add: r(3))
  ultimately show ?thesis using r by blast
qed

end
