(* ===== verification/Zed_Buffer_Undo.thy ===== *)
theory Zed_Buffer_Undo
  imports Zed_Buffer_Invariant
begin

text \<open>
  What undo means for a buffer: the visible text is a function of the fragments and of the set of undo
  operations received, so undo operations may arrive in any order.
\<close>

section \<open>Acceptable operations\<close>

text \<open>The stack of a cursor holds 16 nodes.  The nodes of a sum tree have no lower bound on their children, so
  that the undo map stays that low is a condition, which can be evaluated.\<close>

definition shallow :: "undo_map \<Rightarrow> undo_operation \<Rightarrow> bool" where
  "shallow t u \<longleftrightarrow> (case um_insert t u of None \<Rightarrow> True | Some m \<Rightarrow> st_height m < 16)"

text \<open>What makes an undo operation acceptable to a buffer that has received \<open>us\<close>.\<close>

definition undo_ok :: "undo_operation set \<Rightarrow> undo_operation \<Rightarrow> bool" where
  "undo_ok us u \<longleftrightarrow> distinct (map fst (uo_counts u)) \<and> base_insertion \<notin> fst ` set (uo_counts u) \<and>
     (\<forall>u' \<in> us. uo_timestamp u' = uo_timestamp u \<longrightarrow> u' = u)"

lemma undo_map_of_undo:
  "apply_undo s u = Some (s', p) \<Longrightarrow> um_insert (sn_undo_map s) u = Some (sn_undo_map s')"
  by (auto simp: apply_undo_def Let_def split: option.splits prod.splits)

lemma undo_once:
  assumes "buffer_ok ins us s" "clocks_ok s" "st_height (sn_undo_map s) < 16" "undo_ok us u" "shallow (sn_undo_map s) u"
  obtains s' p where "apply_undo s u = Some (s', p)" "buffer_ok ins (insert u us) s'" "clocks_ok s'"
    "um_insert (sn_undo_map s) u = Some (sn_undo_map s')" "st_height (sn_undo_map s') < 16"
    "map fr_core (sn_fragments s') = map fr_core (sn_fragments s)"
    "sn_visible_text s' = cell_text ins (cells (filter (shown (insert u us)) (sn_fragments s)))"
    "patch_rel 0 0 p (sn_visible_text s) (sn_visible_text s')" "patch_new_ok p"
proof -
  have h: "\<forall>m. um_insert (sn_undo_map s) u = Some m \<longrightarrow> st_height m < 16"
    using assms(5) by (auto simp: shallow_def)
  from undo_buffer [OF assms(1-3) _ _ _ h] assms(4) obtain s' p where r: "apply_undo s u = Some (s', p)"
      "buffer_ok ins (insert u us) s'" "clocks_ok s'"
      "sn_visible_text s' = cell_text ins (cells (filter (shown (insert u us)) (sn_fragments s)))"
      "map fr_core (sn_fragments s') = map fr_core (sn_fragments s)"
      "patch_rel 0 0 p (sn_visible_text s) (sn_visible_text s')" "patch_new_ok p"
    unfolding undo_ok_def by blast
  show thesis
    by (rule that [OF r(1-3) undo_map_of_undo [OF r(1)] _ r(5,4,6,7)]) (use h undo_map_of_undo [OF r(1)] in blast)
qed

section \<open>The shown text\<close>

text \<open>The text that fragments show, given their cores.\<close>

definition shown_cells :: "undo_operation set \<Rightarrow> fragment list \<Rightarrow> cell list" where
  "shown_cells us fs = cells (filter (shown us) fs)"

lemma shown_cells_core: "shown_cells us (map fr_core fs) = shown_cells us fs"
  unfolding shown_cells_def by (induction fs) simp_all

lemma visible_text_core:
  assumes "buffer_ok ins us s" "buffer_ok ins us s'" "map fr_core (sn_fragments s) = map fr_core (sn_fragments s')"
  shows "sn_visible_text s = sn_visible_text s'"
  using shown_cells_core [of us "sn_fragments s"] shown_cells_core [of us "sn_fragments s'"] assms(3)
  unfolding buffer_ok_text [OF assms(1)] buffer_ok_text [OF assms(2)] by (simp add: shown_cells_def)

lemma dcells_shown:
  assumes "buffer_ok ins us s"
  shows "dcells (sn_fragments s) = cells (filter (\<lambda>f. \<not> shown us f) (sn_fragments s))"
proof -
  have "filter (\<lambda>f. \<not> fr_visible f) (sn_fragments s) = filter (\<lambda>f. \<not> shown us f) (sn_fragments s)"
    using assms by (intro filter_cong) (simp_all add: buffer_ok_def)
  then show ?thesis by (simp add: dcells_def)
qed

lemma deleted_text_core:
  assumes "buffer_ok ins us s" "buffer_ok ins us s'" "map fr_core (sn_fragments s) = map fr_core (sn_fragments s')"
  shows "sn_deleted_text s = sn_deleted_text s'"
proof -
  have "cells (filter (\<lambda>f. \<not> shown us f) (map fr_core fs)) = cells (filter (\<lambda>f. \<not> shown us f) fs)" for fs
    by (induction fs) simp_all
  from this [of "sn_fragments s"] this [of "sn_fragments s'"]
  have "dcells (sn_fragments s) = dcells (sn_fragments s')"
    unfolding dcells_shown [OF assms(1)] dcells_shown [OF assms(2)] assms(3) by simp
  then show ?thesis using assms(1,2) by (simp add: buffer_ok_def snapshot_ok_def)
qed

lemma visible_core:
  assumes "buffer_ok ins us s" "buffer_ok ins us s'" "map fr_core (sn_fragments s) = map fr_core (sn_fragments s')"
  shows "map fr_visible (sn_fragments s) = map fr_visible (sn_fragments s')"
proof -
  have "map fr_visible (sn_fragments s) = map (shown us) (map fr_core (sn_fragments s))"
    using assms(1) by (simp add: buffer_ok_def)
  also have "\<dots> = map fr_visible (sn_fragments s')" unfolding assms(3) using assms(2) by (simp add: buffer_ok_def)
  finally show ?thesis .
qed

section \<open>The theorems\<close>

text \<open>The sample of the local edits, the buffer of replica 0, and an undo operation.\<close>

definition sample_undo :: undo_operation where
  "sample_undo = \<lparr>uo_timestamp = Lamport 6 0, uo_version = [], uo_counts = [(Lamport 3 0, 1), (Lamport 2 1, 1)]\<rparr>"

definition sample_undo' :: undo_operation where
  "sample_undo' = \<lparr>uo_timestamp = Lamport 6 1, uo_version = [], uo_counts = [(Lamport 2 1, 2)]\<rparr>"

lemma max_count_empty [simp]: "max_count {} e p = 0"
  by (simp add: max_count_def)

lemma sample_buffer_ok: "buffer_ok sample_ins {} sample_snapshot" "clocks_ok sample_snapshot"
proof -
  have "slices_ok (sn_insertion_slices sample_snapshot) (sn_fragments sample_snapshot)"
    by (auto simp: slices_ok_def sample_snapshot_def slice_key_def less_prod_def less_lamport_iff LAMPORT_MIN_def
        touching_def base_insertion_def lamport_new_def LOCAL_def)
  moreover have "sn_undo_map sample_snapshot = st_new undo_ops" by (simp add: sample_snapshot_def)
  moreover have "\<forall>f \<in> set (sn_fragments sample_snapshot). fr_visible f = shown {} f"
    by (simp add: sample_snapshot_def shown_def undone_def)
  moreover have "undos_seen {} f" for f by (simp add: undos_seen_def)
  ultimately show "buffer_ok sample_ins {} sample_snapshot"
    using sample_snapshot_ok um_represents_empty by (simp add: buffer_ok_def)
  show "clocks_ok sample_snapshot" by (simp add: clocks_ok_def sample_snapshot_def LAMPORT_MIN_def less_lamport_iff)
qed

lemma sample_undo_ok:
  "undo_ok {} sample_undo" "undo_ok {} sample_undo'" "undo_ok {sample_undo'} sample_undo" "undo_ok {sample_undo} sample_undo'"
  by (simp_all add: undo_ok_def sample_undo_def sample_undo'_def base_insertion_def lamport_new_def LOCAL_def)

lemma sample_shallow: "st_height (sn_undo_map sample_snapshot) < 16" "shallow (sn_undo_map sample_snapshot) sample_undo"
  "shallow (sn_undo_map sample_snapshot) sample_undo'"
proof -
  show "st_height (sn_undo_map sample_snapshot) < 16" by code_simp
  show "shallow (sn_undo_map sample_snapshot) sample_undo" by code_simp
  show "shallow (sn_undo_map sample_snapshot) sample_undo'" by code_simp
qed

text \<open>C8: Applying an undo operation returns; the invariant holds with the operation added to those
  received; the visible text becomes the bytes of the fragments that are shown: those whose insertion is not
  undone and whose deletions all are, by the greatest counts received; the patch that is published leads
  from the old visible text to the new one.\<close>

theorem undo_applies:
  assumes "buffer_ok ins us s" "clocks_ok s" "st_height (sn_undo_map s) < 16" "undo_ok us u" "shallow (sn_undo_map s) u"
  shows "\<exists>s' p. apply_undo s u = Some (s', p) \<and> buffer_ok ins (insert u us) s' \<and>
    sn_visible_text s' = cell_text ins (cells (filter (shown (insert u us)) (sn_fragments s))) \<and>
    map fr_core (sn_fragments s') = map fr_core (sn_fragments s) \<and>
    patch_rel 0 0 p (sn_visible_text s) (sn_visible_text s') \<and> patch_new_ok p"
  by (rule undo_once [OF assms]) blast

theorem undo_applies_witness:
  "\<exists>s' p. apply_undo sample_snapshot sample_undo = Some (s', p) \<and> sn_visible_text s' = ''abcde'' \<and>
     patch_rel 0 0 p ''abcxy'' ''abcde''"
proof -
  have "map_option (\<lambda>(s, p). sn_visible_text s) (apply_undo sample_snapshot sample_undo) = Some ''abcde''" by code_simp
  moreover have "sn_visible_text sample_snapshot = ''abcxy''" by (simp add: sample_snapshot_def)
  ultimately show ?thesis
    using undo_applies [OF sample_buffer_ok sample_shallow(1) sample_undo_ok(1) sample_shallow(2)] by auto
qed

text \<open>C31: Two undo operations may arrive in either order: both orders return, and lead to the same texts, the
  same visibility of every fragment and the same fragments otherwise.\<close>

theorem undo_commutes:
  assumes "buffer_ok ins us s" "clocks_ok s" "st_height (sn_undo_map s) < 16" "undo_ok us u" "undo_ok us v"
    and "uo_timestamp u \<noteq> uo_timestamp v" "shallow (sn_undo_map s) u" "shallow (sn_undo_map s) v"
    and "\<forall>m. um_insert (sn_undo_map s) u = Some m \<longrightarrow> shallow m v" "\<forall>m. um_insert (sn_undo_map s) v = Some m \<longrightarrow> shallow m u"
  shows "\<exists>s1 p1 s2 p2 s3 p3 s4 p4. apply_undo s u = Some (s1, p1) \<and> apply_undo s1 v = Some (s2, p2) \<and>
    apply_undo s v = Some (s3, p3) \<and> apply_undo s3 u = Some (s4, p4) \<and>
    sn_visible_text s2 = sn_visible_text s4 \<and> sn_deleted_text s2 = sn_deleted_text s4 \<and>
    map fr_visible (sn_fragments s2) = map fr_visible (sn_fragments s4) \<and>
    map fr_core (sn_fragments s2) = map fr_core (sn_fragments s4)"
proof -
  obtain s1 p1 where 1: "apply_undo s u = Some (s1, p1)" "buffer_ok ins (insert u us) s1" "clocks_ok s1"
      "um_insert (sn_undo_map s) u = Some (sn_undo_map s1)" "st_height (sn_undo_map s1) < 16"
      "map fr_core (sn_fragments s1) = map fr_core (sn_fragments s)"
    by (rule undo_once [OF assms(1-4,7)]) blast
  obtain s3 p3 where 3: "apply_undo s v = Some (s3, p3)" "buffer_ok ins (insert v us) s3" "clocks_ok s3"
      "um_insert (sn_undo_map s) v = Some (sn_undo_map s3)" "st_height (sn_undo_map s3) < 16"
      "map fr_core (sn_fragments s3) = map fr_core (sn_fragments s)"
    by (rule undo_once [OF assms(1-3,5,8)]) blast
  have ok: "undo_ok (insert u us) v" "undo_ok (insert v us) u" using assms(4-6) by (auto simp: undo_ok_def)
  have sh: "shallow (sn_undo_map s1) v" "shallow (sn_undo_map s3) u" using assms(9,10) 1(4) 3(4) by blast+
  obtain s2 p2 where 2: "apply_undo s1 v = Some (s2, p2)" "buffer_ok ins (insert v (insert u us)) s2"
      "map fr_core (sn_fragments s2) = map fr_core (sn_fragments s1)"
    by (rule undo_once [OF 1(2,3,5) ok(1) sh(1)]) blast
  obtain s4 p4 where 4: "apply_undo s3 u = Some (s4, p4)" "buffer_ok ins (insert u (insert v us)) s4"
      "map fr_core (sn_fragments s4) = map fr_core (sn_fragments s3)"
    by (rule undo_once [OF 3(2,3,5) ok(2) sh(2)]) blast
  have ok4: "buffer_ok ins (insert v (insert u us)) s4" using 4(2) by (simp add: insert_commute)
  have core: "map fr_core (sn_fragments s2) = map fr_core (sn_fragments s4)" using 1(6) 2(3) 3(6) 4(3) by simp
  show ?thesis
    using 1(1) 2(1) 3(1) 4(1) visible_text_core [OF 2(2) ok4 core] deleted_text_core [OF 2(2) ok4 core]
      visible_core [OF 2(2) ok4 core] core by blast
qed

theorem undo_commutes_witness:
  "\<exists>s1 p1 s2 p2 s3 p3 s4 p4. apply_undo sample_snapshot sample_undo = Some (s1, p1) \<and> apply_undo s1 sample_undo' = Some (s2, p2) \<and>
    apply_undo sample_snapshot sample_undo' = Some (s3, p3) \<and> apply_undo s3 sample_undo = Some (s4, p4) \<and>
    sn_visible_text s2 = sn_visible_text s4"
proof -
  have "case um_insert (sn_undo_map sample_snapshot) sample_undo of None \<Rightarrow> True | Some m \<Rightarrow> shallow m sample_undo'"
    "case um_insert (sn_undo_map sample_snapshot) sample_undo' of None \<Rightarrow> True | Some m \<Rightarrow> shallow m sample_undo"
    by code_simp+
  then have "\<forall>m. um_insert (sn_undo_map sample_snapshot) sample_undo = Some m \<longrightarrow> shallow m sample_undo'"
    "\<forall>m. um_insert (sn_undo_map sample_snapshot) sample_undo' = Some m \<longrightarrow> shallow m sample_undo" by auto
  moreover have "uo_timestamp sample_undo \<noteq> uo_timestamp sample_undo'" by (simp add: sample_undo_def sample_undo'_def)
  ultimately show ?thesis
    using undo_commutes [OF sample_buffer_ok sample_shallow(1) sample_undo_ok(1,2) _ sample_shallow(2,3)] by blast
qed

end
