(* ===== verification/Zed_Local_Weave.thy ===== *)
theory Zed_Local_Weave
  imports Zed_Buffer_Undo
begin

text \<open>
  The operation that a local edit emits describes the edit: applied by the specification \<open>weave\<close> of remote
  edits to the text its author had, with every byte observed, it gives the fragments that the local edit has
  built.  The two code paths, \<open>apply_edit_internal\<close> and \<open>apply_remote_edit\<close>, therefore agree.
\<close>

section \<open>Cells moved by a step\<close>

abbreviation lcells :: "fragment list \<Rightarrow> old_cell list" where
  "lcells \<equiv> old_cells fr_visible"

definition lmoves ::
    "(old_cell \<Rightarrow> flagged_cell) \<Rightarrow> fragment list \<times> nat \<times> edit_state \<Rightarrow> old_cell list \<Rightarrow>
       fragment list \<times> nat \<times> edit_state \<Rightarrow> bool" where
  "lmoves g before X after \<longleftrightarrow> (case (before, after) of ((R, k, st), (R', k', st')) \<Rightarrow>
     lcells (remaining R k) = X @ lcells (remaining R' k') \<and>
     flagged (es_new_fragments st') = flagged (es_new_fragments st) @ map g X)"

lemma lmoves_refl: "lmoves g a [] a"
  by (cases a) (simp add: lmoves_def)

lemma lmoves_trans: "lmoves g a X b \<Longrightarrow> lmoves g b Y c \<Longrightarrow> lmoves g a (X @ Y) c"
  by (cases a; cases b; cases c) (simp add: lmoves_def)

lemma lmoves_same: "es_new_fragments st' = es_new_fragments st \<Longrightarrow> lmoves g a X (R, k, st) \<Longrightarrow> lmoves g a X (R, k, st')"
  by (cases a) (simp add: lmoves_def)

lemma lcells_remaining:
  "0 < fr_len f \<Longrightarrow> k \<le> fr_len f \<Longrightarrow>
    lcells (remaining (f # R) k) = map (\<lambda>c. (c, fr_mark f, fr_visible f)) (fr_cells (fr_tail k f)) @ lcells R"
  by (auto simp: remaining_def fr_cells_def)

lemma tail_piece:
  "piece_of f k j p \<Longrightarrow> fr_cells (fr_tail k f) = fr_cells p @ fr_cells (fr_tail (k + j) f)"
  using upt_add_eq_append [of "fr_insertion_offset f + k" "fr_insertion_offset f + k + j" "fr_len f - (k + j)"]
  by (simp add: fr_cells_def piece_of_def add.assoc flip: map_append)

text \<open>Pushing a piece of the fragment under the cursor.\<close>

lemma lmoves_piece:
  assumes "piece_of f k j p" "g = kept \<and> fr_mark p = fr_mark f \<or> g = struck ts \<and>
      fr_mark p = (if fr_visible f then (False, fr_deletions f @ [ts]) else fr_mark f)"
    and st': "es_new_fragments st' = es_new_fragments st @ [p]"
  defines "X \<equiv> map (\<lambda>c. (c, fr_mark f, fr_visible f)) (fr_cells p)"
  shows "k + j < fr_len f \<Longrightarrow> lmoves g (f # R, k, st) X (f # R, k + j, st')"
    and "k + j = fr_len f \<Longrightarrow> lmoves g (f # R, k, st) X (R, 0, st')"
    and "k + j \<le> fr_len f \<Longrightarrow> lmoves g (f # R, k, st) X (f # R, k + j, st')"
proof -
  have kj: "0 < j" "k + j \<le> fr_len f" using assms(1) by (simp_all add: piece_of_def)
  have g: "map g X = map (\<lambda>c. (c, fr_mark p)) (fr_cells p)"
    using assms(2) by (auto simp: X_def kept_def struck_def)
  have cells: "lcells (remaining (f # R) k) = X @ map (\<lambda>c. (c, fr_mark f, fr_visible f)) (fr_cells (fr_tail (k + j) f)) @ lcells R"
    using kj lcells_remaining [of f k R] tail_piece [OF assms(1)] by (simp add: X_def)
  show m: "lmoves g (f # R, k, st) X (f # R, k + j, st')"
    using kj cells lcells_remaining [of f "k + j" R] by (simp add: lmoves_def st' g)
  show "lmoves g (f # R, k, st) X (f # R, k + j, st')" by (rule m)
  show "lmoves g (f # R, k, st) X (R, 0, st')" if "k + j = fr_len f"
  proof -
    have "fr_cells (fr_tail (k + j) f) = []" using that by (simp add: fr_cells_def)
    then show ?thesis using cells by (simp add: lmoves_def st' g remaining_def)
  qed
qed

lemma lmoves_used:
  assumes "0 < fr_len f" "es_new_fragments st' = es_new_fragments st"
  shows "lmoves g (f # R, fr_len f, st) [] (R, 0, st')"
  using assms lcells_remaining [of f "fr_len f" R] by (simp add: lmoves_def remaining_def fr_cells_def)

section \<open>The steps\<close>

lemma at_vis_unique:
  assumes "at_vis ins s ts B R k st" "es_cursor st = \<lparr>fc_before = B', fc_rest = R'\<rparr>"
  shows "B' = B" "R' = R"
  using assms by (simp_all add: at_vis_defs)

lemma finish_moves:
  assumes env: "edit_env ins s ts" and at: "at_vis ins s ts B R k st" "es_fragment_start st = visible_len B + k"
    and at': "es_finish_fragment st = Some st'" "at_vis ins s ts B' R' 0 st'"
  shows "\<exists>X. lmoves kept (R, k, st) X (R', 0, st')"
proof (cases "k = 0")
  case True
  then have "st' = st" using at at'(1) at_vis_rope(5) [OF env at(1)] by (simp add: es_finish_fragment_def)
  moreover have "R' = R" using at at'(2) by (simp add: at_vis_defs \<open>st' = st\<close>)
  ultimately show ?thesis using lmoves_refl True by blast
next
  case False
  then obtain f R1 where R: "R = f # R1" and f: "fr_visible f" "k \<le> fr_len f"
    using at(1) by (cases R) (auto simp: at_vis_defs)
  note rope = at_vis_rope [OF env at(1)] and small = small_as_u32 [OF env at(1) [unfolded R]]
  have cur: "es_cursor st = \<lparr>fc_before = B, fc_rest = f # R1\<rparr>" "fc_item (es_cursor st) = Some f"
    using at(1) by (simp_all add: at_vis_defs fc_item_def R)
  show ?thesis
  proof (cases "k < fr_len f")
    case True
    define p where "p = f\<lparr>fr_len := fr_len f - k, fr_insertion_offset := fr_insertion_offset f + k\<rparr>"
    have st': "st' = (es_push p (fr_visible f) st)\<lparr>es_cursor := \<lparr>fc_before = B @ [f], fc_rest = R1\<rparr>\<rparr>"
      using at'(1) False True rope(5,6) at(2) f small cur by (simp add: es_finish_fragment_def R p_def Let_def)
    have "R' = R1" using at_vis_unique(2) [OF at'(2)] by (simp add: st')
    moreover have "piece_of f k (fr_len f - k) p" using True by (simp add: piece_of_def p_def)
    from lmoves_piece(2) [OF this, of kept ts st' st R1] True
    have "\<exists>X. lmoves kept (f # R1, k, st) X (R1, 0, st')" by (auto simp: st' p_def)
    ultimately show ?thesis by (simp add: R)
  next
    case used: False
    then have k: "k = fr_len f" using f by simp
    have st': "st' = st\<lparr>es_cursor := \<lparr>fc_before = B @ [f], fc_rest = R1\<rparr>\<rparr>"
      using at'(1) False k rope(5,6) at(2) f cur by (simp add: es_finish_fragment_def R)
    have "R' = R1" using at_vis_unique(2) [OF at'(2)] by (simp add: st')
    then show ?thesis using lmoves_used [of f st' st kept R1] small by (auto simp: st' R k)
  qed
qed

lemma jump_moves:
  assumes env: "edit_env ins s ts" and at: "at_vis ins s ts B R k st" "es_fragment_start st = visible_len B + k"
    and ti: "text_inv (sn_visible_text s) (visible_len B + k) st"
    and at': "es_jump a st = Some st'" "at_vis ins s ts B' R' k' st'" "es_fragment_start st' = visible_len B' + k'"
  shows "\<exists>X. lmoves kept (R, k, st) X (R', k', st')"
proof (cases "visible_len B + visible_len (take 1 R) < a")
  case False
  then have "st' = st" using at'(1) at_vis_rope(6) [OF env at(1)] by (simp add: es_jump_def)
  moreover have "R' = R" "B' = B" using at at'(2) by (simp_all add: at_vis_defs \<open>st' = st\<close>)
  moreover have "k' = k" using at(2) at'(3) \<open>st' = st\<close> \<open>B' = B\<close> by simp
  ultimately show ?thesis using lmoves_refl by blast
next
  case True
  obtain st1 B1 R1 where fin: "es_finish_fragment st = Some st1" "at_vis ins s ts B1 R1 0 st1"
    using finish_fragment [OF env at ti] by blast
  obtain X1 where m1: "lmoves kept (R, k, st) X1 (R1, 0, st1)" using finish_moves [OF env at fin] by blast
  have c1: "es_cursor st1 = \<lparr>fc_before = B1, fc_rest = R1\<rparr>" using fin(2) by (simp add: at_vis_defs)
  obtain X Y where sp: "split_visible a (visible_len B1) R1 = (X, Y)" by fastforce
  have R1: "R1 = X @ Y" by (rule split_visible_append [OF sp])
  have st': "st' = st1\<lparr>es_cursor := \<lparr>fc_before = B1 @ X, fc_rest = Y\<rparr>, es_ropes := rb_append (es_ropes st1) X,
        es_new_fragments := es_new_fragments st1 @ X, es_fragment_start := visible_len (B1 @ X)\<rparr>"
    using at'(1) True at_vis_rope(6) [OF env at(1)] fin(1) c1 sp
    by (simp add: es_jump_def fc_slice_visible_def fc_start_visible_def)
  have "R' = Y" "B' = B1 @ X" using at_vis_unique [OF at'(2)] by (simp_all add: st')
  moreover have "k' = 0" using at'(3) \<open>B' = B1 @ X\<close> by (simp add: st')
  moreover have "lmoves kept (R1, 0, st1) (lcells X) (Y, 0, st')"
    by (simp add: lmoves_def R1 remaining_def st' kept_old_cells)
  ultimately show ?thesis using lmoves_trans [OF m1] by blast
qed

lemma prefix_moves:
  assumes env: "edit_env ins s ts" and at: "at_vis ins s ts B R k st" "es_fragment_start st = visible_len B + k"
    and a: "visible_len B + k + j \<le> visible_len B + visible_len (take 1 R)"
    and st': "es_prefix (visible_len B + k + j) st = Some st'"
  shows "\<exists>X. lmoves kept (R, k, st) X (R, k + j, st') \<and> length X = j"
proof (cases "j = 0")
  case True
  then show ?thesis using st' at(2) lmoves_refl by (auto simp: es_prefix_def)
next
  case False
  note rope = at_vis_rope [OF env at(1)]
  obtain f R' where R: "R = f # R'" and f: "fr_visible f" "k + j \<le> fr_len f"
    using a False by (cases R) (auto split: if_splits)
  note small = small_as_u32 [OF env at(1) [unfolded R]]
  have item: "fc_item (es_cursor st) = Some f" using at(1) by (simp add: at_vis_defs fc_item_def R)
  define p where "p = f\<lparr>fr_len := j, fr_insertion_offset := fr_insertion_offset f + k,
    fr_id := locator_between (max_id (es_new_fragments st)) (fr_id f)\<rparr>"
  have eq: "st' = (es_push p True st)\<lparr>es_fragment_start := visible_len B + k + j\<rparr>"
    using st' False rope at(2) f small item by (simp add: es_prefix_def p_def Let_def)
  have p: "piece_of f k j p" using False f by (simp add: piece_of_def p_def)
  from lmoves_piece(3) [OF p, of kept ts st' st R'] f(2)
  show ?thesis unfolding R by (intro exI [of _ "map (\<lambda>c. (c, fr_mark f, fr_visible f)) (fr_cells p)"]) (simp add: eq p_def)
qed

lemma delete_step_moves:
  assumes env: "edit_env ins s ts" and at: "at_vis ins s ts B (f # R) k st" "es_fragment_start st = visible_len B + k"
    and b: "visible_len B + k < b"
  defines "st' \<equiv> es_delete_step b ts f st"
  shows "\<exists>X. lmoves (struck ts) (f # R, k, st) X
    (if visible_len B + visible_len [f] \<le> b then (R, 0, st') else (f # R, b - visible_len B, st'))"
proof -
  note rope = at_vis_rope [OF env at(1)] and small = small_as_u32 [OF env at(1)]
  have cur: "es_cursor st = \<lparr>fc_before = B, fc_rest = f # R\<rparr>" and kf: "0 < k \<longrightarrow> fr_visible f \<and> k \<le> fr_len f"
    using at(1) by (simp_all add: at_vis_defs)
  consider (hidden) "\<not> fr_visible f" "k = 0" | (used) "fr_visible f" "k = fr_len f"
    | (piece) j where "fr_visible f" "k + j = min (fr_len f) (b - visible_len B)" "0 < j"
  proof -
    assume "\<lbrakk>\<not> fr_visible f; k = 0\<rbrakk> \<Longrightarrow> thesis" "\<lbrakk>fr_visible f; k = fr_len f\<rbrakk> \<Longrightarrow> thesis"
      "\<And>j. \<lbrakk>fr_visible f; k + j = min (fr_len f) (b - visible_len B); 0 < j\<rbrakk> \<Longrightarrow> thesis"
    moreover from this(3) [of "min (fr_len f) (b - visible_len B) - k"] kf b
    have "fr_visible f \<Longrightarrow> k < fr_len f \<Longrightarrow> thesis" by force
    ultimately show thesis using kf rope(7) by (cases "fr_visible f") force+
  qed
  then show ?thesis
  proof cases
    case hidden
    have st': "es_new_fragments st' = es_new_fragments st @ [f]"
      using hidden small rope at(2) b cur by (simp add: st'_def es_delete_step_def Let_def es_push_def)
    have "piece_of f 0 (fr_len f) f" using small by (simp add: piece_of_def)
    from lmoves_piece(2) [OF this, of "struck ts" ts st' st R] hidden st' b show ?thesis by auto
  next
    case used
    have st': "es_new_fragments st' = es_new_fragments st"
      using used rope at(2) b cur by (simp add: st'_def es_delete_step_def Let_def)
    from lmoves_used [OF _ this, of f "struck ts" R] used small b show ?thesis by auto
  next
    case piece
    define p where "p = f\<lparr>fr_len := j, fr_insertion_offset := fr_insertion_offset f + k,
      fr_id := locator_between (max_id (es_new_fragments st)) (fr_id f), fr_deletions := fr_deletions f @ [ts], fr_visible := False\<rparr>"
    have kj: "k + j \<le> fr_len f" "min b (visible_len B + fr_len f) = visible_len B + k + j"
      using piece b by (auto simp: min_def split: if_splits)
    have u32: "as_u32 j = j" "as_u32 k = k" using kj(1) small by simp_all
    have st': "es_new_fragments st' = es_new_fragments st @ [p]"
      using piece kj(2) u32 small rope at(2) b cur
      by (simp add: st'_def es_delete_step_def Let_def p_def es_push_def)
    have p: "piece_of f k j p" using piece kj by (simp add: piece_of_def p_def)
    have g: "struck ts = kept \<and> fr_mark p = fr_mark f \<or>
        struck ts = struck ts \<and> fr_mark p = (if fr_visible f then (False, fr_deletions f @ [ts]) else fr_mark f)"
      using piece(1) by (simp add: p_def fr_mark_def)
    have "b - visible_len B = k + j" if "\<not> visible_len B + fr_len f \<le> b" using kj(2) that by simp
    moreover have "k + j = fr_len f" if "visible_len B + fr_len f \<le> b" using kj(2) that by simp
    ultimately show ?thesis using lmoves_piece(2,3) [OF p g st', of R] kj(1) piece(1) by auto
  qed
qed

lemma delete_moves:
  assumes env: "edit_env ins s ts"
  shows "at_vis ins s ts B R k st \<Longrightarrow> es_fragment_start st = visible_len B + k \<Longrightarrow>
    text_inv (sn_visible_text s) (visible_len B + k) st \<Longrightarrow> visible_len B + k \<le> b \<Longrightarrow> b \<le> length (sn_visible_text s) \<Longrightarrow>
    \<exists>st' B' R' k' X. es_delete b ts st = Some st' \<and> at_vis ins s ts B' R' k' st' \<and> visible_len B' + k' = b \<and>
      lmoves (struck ts) (R, k, st) X (R', k', st')"
proof (induction R arbitrary: B k st)
  case Nil
  then have "b = visible_len B + k" using at_vis_rope(4,7) [OF env Nil.prems(1)] by simp
  then show ?case using Nil.prems lmoves_refl by (intro ex5I [of _ st B "[]" k "[]"]) (simp add: delete_done)
next
  case (Cons f R)
  show ?case
  proof (cases "visible_len B + k = b")
    case True
    then show ?thesis using Cons.prems lmoves_refl by (intro ex5I [of _ st B "f # R" k "[]"]) (simp add: delete_done)
  next
    case False
    let ?st = "es_delete_step b ts f st"
    have lt: "visible_len B + k < b" using False Cons.prems(4) by simp
    have "fc_item (es_cursor st) = Some f" using Cons.prems(1) by (simp add: at_vis_defs fc_item_def)
    then have del: "es_delete b ts st = es_delete b ts ?st" using lt Cons.prems(2) by (intro delete_more) simp_all
    note step = delete_step [OF env Cons.prems(1-3) lt]
    obtain X where X: "lmoves (struck ts) (f # R, k, st) X
        (if visible_len B + visible_len [f] \<le> b then (R, 0, ?st) else (f # R, b - visible_len B, ?st))"
      using delete_step_moves [OF env Cons.prems(1,2) lt] by blast
    show ?thesis
    proof (cases "visible_len B + visible_len [f] \<le> b")
      case True
      then have at: "at_vis ins s ts (B @ [f]) R 0 ?st" "es_fragment_start ?st = visible_len (B @ [f]) + 0"
          "text_inv (sn_visible_text s) (visible_len (B @ [f]) + 0) ?st"
        using step by simp_all
      have "visible_len (B @ [f]) + 0 \<le> b" using True by simp
      from Cons.IH [OF at this Cons.prems(5)] show ?thesis
        unfolding del using X True lmoves_trans by fastforce
    next
      case False
      then show ?thesis
        unfolding del using step X lt by (intro ex5I [of _ ?st B "f # R" "b - visible_len B" X]) (simp add: delete_done)
    qed
  qed
qed


section \<open>A whole edit\<close>

abbreviation lwoven :: "lamport \<Rightarrow> nat \<Rightarrow> nat \<Rightarrow> text_edits \<Rightarrow> old_cell list \<Rightarrow> flagged_cell list" where
  "lwoven ts \<equiv> weave (\<lambda>_. True) (\<lambda>c. ts < fst c) ts"

lemma observed_all [simp]: "observed_count (\<lambda>_. True) xs = length xs"
  by (simp add: observed_count_def)

lemma closed_all: "closed (\<lambda>_. True) n xs \<longleftrightarrow> length xs \<le> n"
  by (auto simp: closed_def)

lemma length_old_cells [simp]: "length (old_cells W fs) = length (cells fs)"
  by (induction fs) simp_all

lemma length_cells: "length (cells fs) = visible_len fs + deleted_len fs"
  by (induction fs) simp_all

text \<open>The position among all bytes.\<close>

abbreviation full_pos :: "fragment list \<Rightarrow> nat \<Rightarrow> nat" where
  "full_pos B k \<equiv> length (cells B) + k"

lemma full_pos:
  assumes "edit_env ins s ts" "at_vis ins s ts B R k st"
  shows "full_pos B k + length (lcells (remaining R k)) = length (cells (sn_fragments s))"
proof (cases R)
  case Nil
  then show ?thesis using assms(2) by (auto simp: at_vis_defs remaining_def)
next
  case (Cons f R')
  note small = small_as_u32 [OF assms(1) assms(2) [unfolded Cons]]
  have F: "sn_fragments s = B @ f # R'" and k: "k \<le> fr_len f" using assms(2) by (auto simp: at_vis_defs Cons)
  show ?thesis using lcells_remaining [of f k R'] small k by (simp add: F Cons)
qed

lemma full_pos_moves:
  assumes "edit_env ins s ts" "at_vis ins s ts B R k st" "at_vis ins s ts B' R' k' st'" "lmoves g (R, k, st) X (R', k', st')"
  shows "full_pos B' k' = full_pos B k + length X"
proof -
  have "length (lcells (remaining R k)) = length X + length (lcells (remaining R' k'))"
    using assms(4) by (simp add: lmoves_def del: length_old_cells)
  then show ?thesis using full_pos [OF assms(1,2)] full_pos [OF assms(1,3)] by simp
qed

lemma full_pos_vis: "visible_len B + k = a \<Longrightarrow> a + deleted_len B = full_pos B k"
  by (simp add: length_cells)

lemma lcells_older:
  assumes "\<forall>f \<in> set (sn_fragments s). fr_timestamp f < ts" "at_vis ins s ts B R k st" "x \<in> set (lcells (remaining R k))"
  shows "\<not> ts < fst (fst x)"
proof -
  have "sn_fragments s = B @ R" using assms(2) by (simp add: at_vis_defs)
  then have "set R \<subseteq> set (sn_fragments s)" by simp
  moreover have "\<exists>f \<in> set R. fst (fst x) = fr_timestamp f"
    using assms(2,3) by (cases R) (auto simp: remaining_def old_cells_def fr_cells_def at_vis_defs split: if_splits)
  ultimately have "fst (fst x) < ts" using assms(1) by auto
  then show ?thesis by simp
qed

lemma edit_weaves:
  assumes env: "edit_env ins s ts" and newest: "\<forall>f \<in> set (sn_fragments s). fr_timestamp f < ts"
    and at: "at_vis ins s ts B R k st" "es_fragment_start st = visible_len B + k" "text_inv (sn_visible_text s) (visible_len B + k) st"
    and e: "visible_len B + k \<le> a" "a \<le> b" "b \<le> length (sn_visible_text s)"
    and t: "es_insertion_offset st + length (normalize_text t) \<le> length (ins ts)" "length (ins ts) < 2 ^ 32"
      "take (length (normalize_text t)) (drop (es_insertion_offset st) (ins ts)) = normalize_text t"
  shows "\<exists>st' B' R' k' x. es_edit ts ((a, b), t) st = Some st' \<and> at_vis ins s ts B' R' k' st' \<and>
    es_fragment_start st' = visible_len B' + k' \<and> text_inv (sn_visible_text s) (visible_len B' + k') st' \<and> visible_len B' + k' = b \<and>
    es_ranges st' = es_ranges st @ [(x, full_pos B' k')] \<and> full_pos B k \<le> x \<and> x \<le> full_pos B' k' \<and>
    es_new_text st' = es_new_text st @ [normalize_text t] \<and>
    es_insertion_offset st' = es_insertion_offset st + length (normalize_text t) \<and>
    (\<forall>es. flagged (es_new_fragments st') @ lwoven ts (es_insertion_offset st') (full_pos B' k') es (lcells (remaining R' k')) =
      flagged (es_new_fragments st) @
        lwoven ts (es_insertion_offset st) (full_pos B k) (((x, full_pos B' k'), normalize_text t) # es) (lcells (remaining R k)))"
proof -
  let ?T = "sn_visible_text s" and ?t = "normalize_text t" and ?off = "es_insertion_offset st"
  obtain st1 B1 R1 k1 where jump1: "es_jump a st = Some st1"
    and at1: "at_vis ins s ts B1 R1 k1 st1" "es_fragment_start st1 = visible_len B1 + k1" "text_inv ?T (visible_len B1 + k1) st1"
    and p1: "visible_len B1 + k1 \<le> a" "a \<le> visible_len B1 + visible_len (take 1 R1)" and same1: "same_rest st st1"
    using jump [OF env at, of a] e by auto
  obtain X1 where m1: "lmoves kept (R, k, st) X1 (R1, k1, st1)" using jump_moves [OF env at jump1 at1(1,2)] by blast
  obtain j where j: "a = visible_len B1 + k1 + j" using p1(1) le_Suc_ex by blast
  have "visible_len B1 + k1 + j \<le> visible_len B1 + visible_len (take 1 R1)" using p1(2) j by simp
  note j' = this
  from prefix_step [OF env at1 j'] obtain st2 where prefix2: "es_prefix a st1 = Some st2"
    and at2: "at_vis ins s ts B1 R1 (k1 + j) st2" "es_fragment_start st2 = a" "text_inv ?T a st2" and same2: "same_rest st1 st2"
    unfolding j by blast
  obtain X2 where m2: "lmoves kept (R1, k1, st1) X2 (R1, k1 + j, st2)"
    using prefix_moves [OF env at1(1,2) j'] prefix2 unfolding j by blast
  have off: "es_insertion_offset st2 = ?off" "es_ranges st2 = es_ranges st" "es_new_text st2 = es_new_text st"
    using same1 same2 by (simp_all add: same_rest_def)
  let ?st3 = "es_insert ?t ts st2"
  have ins3: "at_vis ins s ts B1 R1 (k1 + j) ?st3" "es_insertion_offset ?st3 = ?off + length ?t"
    "new_visible ?st3 = new_visible st2 @ ?t"
    "es_patch ?st3 = patch_push (es_patch st2) (mk_edit a a (visible_len (es_new_fragments st2)) (visible_len (es_new_fragments st2) + length ?t))"
    using at_vis_insert [OF env at2(1), of ?t] t off(1) at2(2) by simp_all
  have fl3: "flagged (es_new_fragments ?st3) = flagged (es_new_fragments st2) @ map (\<lambda>o'. ((ts, o'), True, [])) [?off ..< ?off + length ?t]"
    using flagged_insert [of st2 ?t ins ts] t off(1) by simp
  have ti3: "text_inv ?T (a + 0) ?st3"
    using e ins3(4) at_vis_rope(3) [OF env at2(1)] by (intro text_replace [OF at2(3) _ _ _ ins3(3)]) simp_all
  have pos3: "visible_len B1 + (k1 + j) = a" "es_fragment_start ?st3 = visible_len B1 + (k1 + j)" using j at2(2) by simp_all
  obtain st4 B4 R4 k4 X4 where del4: "es_delete b ts ?st3 = Some st4" and at4: "at_vis ins s ts B4 R4 k4 st4" "visible_len B4 + k4 = b"
    and m4: "lmoves (struck ts) (R1, k1 + j, ?st3) X4 (R4, k4, st4)"
    using delete_moves [OF env ins3(1) pos3(2) _ _ e(3)] ti3 pos3 e(2) by auto
  obtain st5 where st5: "es_delete b ts ?st3 = Some st5" "es_fragment_start st5 = b" "text_inv ?T b st5" "same_rest ?st3 st5"
    using delete_loop [OF env ins3(1) pos3(2) _ _ e(3)] ti3 pos3 e(2) by auto
  have eq5: "st5 = st4" using st5(1) del4 by simp
  let ?x = "full_pos B1 (k1 + j)" and ?y = "full_pos B4 k4"
  let ?st' = "st4\<lparr>es_ranges := es_ranges st @ [(?x, ?y)], es_new_text := es_new_text st @ [?t]\<rparr>"
  have c: "fc_start_deleted (es_cursor st1) = deleted_len B1" "fc_start_deleted (es_cursor st4) = deleted_len B4"
    using at1 at4 by (simp_all add: at_vis_defs fc_start_deleted_def)
  have rest4: "es_ranges st4 = es_ranges st" "es_new_text st4 = es_new_text st" "es_insertion_offset st4 = ?off + length ?t"
    using st5(4) off ins3(2) by (simp_all add: same_rest_def eq5)
  have edit: "es_edit ts ((a, b), t) st = Some ?st'"
    using jump1 prefix2 del4 c rest4 full_pos_vis [OF pos3(1)] full_pos_vis [OF at4(2)] by (simp add: es_edit_def Let_def)
  have m12: "lmoves kept (R, k, st) (X1 @ X2) (R1, k1 + j, st2)" by (rule lmoves_trans [OF m1 m2])
  have x: "?x = full_pos B k + length (X1 @ X2)" by (rule full_pos_moves [OF env at(1) at2(1) m12])
  have y: "?y = ?x + length X4" by (rule full_pos_moves [OF env ins3(1) at4(1) m4])
  have weave: "flagged (es_new_fragments ?st') @ lwoven ts (es_insertion_offset ?st') ?y es (lcells (remaining R4 k4)) =
      flagged (es_new_fragments st) @ lwoven ts ?off (full_pos B k) (((?x, ?y), ?t) # es) (lcells (remaining R k))" for es
  proof -
    let ?xs = "lcells (remaining R1 (k1 + j))"
    have "lwoven ts ?off (full_pos B k) (((?x, ?y), ?t) # es) (lcells (remaining R k)) =
        map kept (X1 @ X2) @ lwoven ts ?off ?x (((?x, ?y), ?t) # es) ?xs"
      using m12 weave_keep [of "((?x, ?y), ?t) # es" "\<lambda>_. True" "full_pos B k" "X1 @ X2" "\<lambda>c. ts < fst c" ts ?off ?xs] x
      by (simp add: lmoves_def closed_all del: weave.simps)
    moreover have "?xs = [] \<or> \<not> ts < fst (fst (hd ?xs))" using lcells_older [OF newest at2(1)] by (cases ?xs) auto
    then have "lwoven ts ?off ?x (((?x, ?y), ?t) # es) ([] @ ?xs) = map kept [] @ map (\<lambda>o'. ((ts, o'), True, [])) [?off ..< ?off + length ?t] @
        weave_range (\<lambda>_. True) (\<lambda>c. ts < fst c) ts (?off + length ?t) ?x ?y es ?xs"
      by (intro weave_insert) simp_all
    moreover have "?xs = X4 @ lcells (remaining R4 k4)" using m4 by (simp add: lmoves_def)
    then have "weave_range (\<lambda>_. True) (\<lambda>c. ts < fst c) ts (?off + length ?t) ?x ?y es ?xs =
        map (struck ts) X4 @ lwoven ts (?off + length ?t) ?y es (lcells (remaining R4 k4))"
      using weave_strike [of "\<lambda>_. True" ?y ?x X4 "\<lambda>c. ts < fst c" ts "?off + length ?t" es "lcells (remaining R4 k4)"] y
      by (simp add: closed_all weave_done del: weave.simps)
    moreover have "flagged (es_new_fragments ?st') = flagged (es_new_fragments st) @ map kept (X1 @ X2) @
        map (\<lambda>o'. ((ts, o'), True, [])) [?off ..< ?off + length ?t] @ map (struck ts) X4"
      using m12 m4 fl3 by (simp add: lmoves_def)
    ultimately show ?thesis using rest4(3) by (simp del: weave.simps)
  qed
  show ?thesis
    using edit at4 st5(2,3) x y rest4(3) weave unfolding eq5
    by (intro exI [of _ ?st'] exI [of _ B4] exI [of _ R4] exI [of _ k4] exI [of _ ?x]) (simp add: text_inv_def del: weave.simps)
qed


lemma edits_weave:
  assumes env: "edit_env ins s ts" and newest: "\<forall>f \<in> set (sn_fragments s). fr_timestamp f < ts" and len: "length (ins ts) < 2 ^ 32"
  shows "at_vis ins s ts B R k st \<Longrightarrow> es_fragment_start st = visible_len B + k \<Longrightarrow>
    text_inv (sn_visible_text s) (visible_len B + k) st \<Longrightarrow> edits_ok (length (sn_visible_text s)) (visible_len B + k) es \<Longrightarrow>
    drop (es_insertion_offset st) (ins ts) = concat (edit_texts es) \<Longrightarrow> es_insertion_offset st \<le> length (ins ts) \<Longrightarrow>
    \<exists>st' B' R' k' rs. es_edits ts es st = Some st' \<and> at_vis ins s ts B' R' k' st' \<and>
      es_fragment_start st' = visible_len B' + k' \<and> text_inv (sn_visible_text s) (visible_len B' + k') st' \<and>
      es_ranges st' = es_ranges st @ rs \<and> es_new_text st' = es_new_text st @ edit_texts es \<and> length rs = length es \<and>
      edits_ok (length (cells (sn_fragments s))) (full_pos B k) (zip rs (edit_texts es)) \<and>
      flagged (es_new_fragments st') @ map kept (lcells (remaining R' k')) =
        flagged (es_new_fragments st) @
          lwoven ts (es_insertion_offset st) (full_pos B k) (zip rs (edit_texts es)) (lcells (remaining R k))"
proof (induction es arbitrary: B R k st)
  case Nil
  then show ?case using full_pos [OF env Nil.prems(1)] by (intro ex5I [of _ st B R k "[]"]) simp
next
  case (Cons e es)
  let ?T = "sn_visible_text s" and ?o = "es_insertion_offset st"
  obtain a b t where e: "e = ((a, b), t)" by (cases e) auto
  let ?t = "normalize_text t"
  have d: "drop ?o (ins ts) = ?t @ concat (edit_texts es)" using Cons.prems(5) by (simp add: e)
  have ok: "visible_len B + k \<le> a" "a \<le> b" "edits_ok (length ?T) b es" using Cons.prems(4) by (simp_all add: e)
  have le: "?o + length ?t \<le> length (ins ts)"
    using arg_cong [OF d, of length] Cons.prems(6) by simp
  have t: "take (length ?t) (drop ?o (ins ts)) = ?t" unfolding d by simp
  obtain st1 B1 R1 k1 x where st1: "es_edit ts ((a, b), t) st = Some st1" "at_vis ins s ts B1 R1 k1 st1"
      "es_fragment_start st1 = visible_len B1 + k1" "text_inv ?T (visible_len B1 + k1) st1" "visible_len B1 + k1 = b"
      "es_ranges st1 = es_ranges st @ [(x, full_pos B1 k1)]" "full_pos B k \<le> x" "x \<le> full_pos B1 k1"
      "es_new_text st1 = es_new_text st @ [?t]" "es_insertion_offset st1 = ?o + length ?t"
    and eq1: "\<And>es. flagged (es_new_fragments st1) @ lwoven ts (es_insertion_offset st1) (full_pos B1 k1) es (lcells (remaining R1 k1)) =
      flagged (es_new_fragments st) @ lwoven ts ?o (full_pos B k) (((x, full_pos B1 k1), ?t) # es) (lcells (remaining R k))"
    using edit_weaves [OF env newest Cons.prems(1-3) ok(1,2) edits_ok_le [OF ok(3)] le len t] by blast
  have "drop (es_insertion_offset st1) (ins ts) = drop (length ?t) (drop ?o (ins ts))" by (simp add: st1(10) add.commute)
  then have d1: "drop (es_insertion_offset st1) (ins ts) = concat (edit_texts es)" unfolding d by simp
  have ok1: "edits_ok (length ?T) (visible_len B1 + k1) es" using ok(3) st1(5) by simp
  obtain st' B' R' k' rs where IH: "es_edits ts es st1 = Some st'" "at_vis ins s ts B' R' k' st'"
      "es_fragment_start st' = visible_len B' + k'" "text_inv ?T (visible_len B' + k') st'"
      "es_ranges st' = es_ranges st1 @ rs" "es_new_text st' = es_new_text st1 @ edit_texts es" "length rs = length es"
      "edits_ok (length (cells (sn_fragments s))) (full_pos B1 k1) (zip rs (edit_texts es))"
      "flagged (es_new_fragments st') @ map kept (lcells (remaining R' k')) = flagged (es_new_fragments st1) @
          lwoven ts (es_insertion_offset st1) (full_pos B1 k1) (zip rs (edit_texts es)) (lcells (remaining R1 k1))"
    using Cons.IH [OF st1(2-4) ok1 d1] le st1(10) by auto
  show ?case
    using IH st1 unfolding eq1
    by (intro ex5I [of _ st' B' R' k' "(x, full_pos B1 k1) # rs"]) (simp add: e del: weave.simps)
qed

lemma start_weave:
  assumes env: "edit_env ins s ts" and ok: "edits_ok (length (sn_visible_text s)) 0 (((a, b), t) # es)"
  shows "\<exists>X Y. at_vis ins s ts X Y 0 (es_start s a) \<and> es_fragment_start (es_start s a) = visible_len X \<and>
    text_inv (sn_visible_text s) (visible_len X) (es_start s a) \<and> visible_len X \<le> a \<and> es_insertion_offset (es_start s a) = 0 \<and>
    es_new_text (es_start s a) = [] \<and> es_ranges (es_start s a) = [] \<and> es_new_fragments (es_start s a) = X \<and> sn_fragments s = X @ Y"
proof -
  obtain X Y where sp: "split_visible a 0 (sn_fragments s) = (X, Y)" by fastforce
  have st: "es_new_fragments (es_start s a) = X" "es_fragment_start (es_start s a) = visible_len X"
    "es_cursor (es_start s a) = \<lparr>fc_before = X, fc_rest = Y\<rparr>"
    by (simp_all add: es_start_def fc_slice_visible_def fc_start_visible_def sp)
  obtain pos where p: "at_edit ins s ts pos (es_start s a)" "pos \<le> a" "es_insertion_offset (es_start s a) = 0"
      "es_new_text (es_start s a) = []" "es_ranges (es_start s a) = []"
    using start_edit [OF env ok] by blast
  obtain B R k where B: "at_vis ins s ts B R k (es_start s a)" "visible_len B + k = pos" "es_fragment_start (es_start s a) = pos"
      "text_inv (sn_visible_text s) pos (es_start s a)"
    using p(1) unfolding at_edit_def by blast
  have "B = X" "R = Y" using at_vis_unique [OF B(1) st(3)] by simp_all
  moreover have "k = 0" using B(2,3) st(2) \<open>B = X\<close> by simp
  moreover have "sn_fragments s = X @ Y" using split_visible_append [OF sp] .
  ultimately show ?thesis using B p st by auto
qed

section \<open>The operation describes the edit\<close>

lemma local_edit_weave:
  assumes ok: "snapshot_ok ins s" and newest: "\<forall>f \<in> set (sn_fragments s). fr_timestamp f < ts"
    and es: "edits_ok (length (sn_visible_text s)) 0 es" "length (concat (edit_texts es)) < 2 ^ 32"
    and r: "apply_edit_internal s es ts = Some (s', rs, texts, p)"
  shows "flagged (sn_fragments s') = lwoven ts 0 0 (zip rs texts) (lcells (sn_fragments s)) \<and>
    length rs = length texts \<and> texts = edit_texts es \<and> edits_ok (length (cells (sn_fragments s))) 0 (zip rs texts)"
proof (cases es)
  case Nil
  then show ?thesis using r by (auto simp: apply_edit_internal_def kept_old_cells)
next
  case (Cons e es')
  obtain a b t where e: "e = ((a, b), t)" by (cases e) auto
  define J where "J = ins(ts := concat (edit_texts es))"
  have J: "J ts = concat (edit_texts es)" by (simp add: J_def)
  have env: "edit_env J s ts" unfolding J_def using newest by (intro snapshot_ok_fresh [OF ok]) auto
  obtain X Y where st0: "at_vis J s ts X Y 0 (es_start s a)" "es_fragment_start (es_start s a) = visible_len X"
      "text_inv (sn_visible_text s) (visible_len X) (es_start s a)" "visible_len X \<le> a" "es_insertion_offset (es_start s a) = 0"
      "es_new_text (es_start s a) = []" "es_ranges (es_start s a) = []" "es_new_fragments (es_start s a) = X" "sn_fragments s = X @ Y"
    using start_weave [OF env, of a b t es'] es(1) by (auto simp: Cons e)
  have pos: "edits_ok (length (sn_visible_text s)) (visible_len X + 0) es"
    using es(1) st0(4) by (simp add: Cons e)
  have start: "es_fragment_start (es_start s a) = visible_len X + 0"
    "text_inv (sn_visible_text s) (visible_len X + 0) (es_start s a)" using st0(2,3) by simp_all
  have "drop (es_insertion_offset (es_start s a)) (J ts) = concat (edit_texts es)" "es_insertion_offset (es_start s a) \<le> length (J ts)"
    "length (J ts) < 2 ^ 32" using st0(5) es(2) by (simp_all add: J)
  from edits_weave [OF env newest this(3) st0(1) start pos this(1,2)] obtain st1 B R k rs' where
    st1: "es_edits ts es (es_start s a) = Some st1" "at_vis J s ts B R k st1" "es_fragment_start st1 = visible_len B + k"
      "text_inv (sn_visible_text s) (visible_len B + k) st1" "es_ranges st1 = rs'" "es_new_text st1 = edit_texts es" "length rs' = length es"
      "edits_ok (length (cells (sn_fragments s))) (full_pos X 0) (zip rs' (edit_texts es))"
      "flagged (es_new_fragments st1) @ map kept (lcells (remaining R k)) =
        flagged X @ lwoven ts 0 (full_pos X 0) (zip rs' (edit_texts es)) (lcells (remaining Y 0))"
    unfolding st0(5-8) by auto
  obtain st2 B2 R2 where fin: "es_finish_fragment st1 = Some st2" "at_vis J s ts B2 R2 0 st2" "same_rest st1 st2"
    using finish_fragment [OF env st1(2-4)] by blast
  obtain Z where m: "lmoves kept (R, k, st1) Z (R2, 0, st2)" using finish_moves [OF env st1(2,3) fin(1,2)] by blast
  have cur: "fc_rest (es_cursor st2) = R2" using fin(2) by (simp add: at_vis_defs)
  have s': "sn_fragments s' = es_new_fragments st2 @ R2" "rs = rs'" "texts = edit_texts es"
    using r st1(1,5,6) fin(1,3) cur
    by (auto simp: apply_edit_internal_def Cons e es_finish_def same_rest_def Let_def split: prod.splits)
  have "flagged (sn_fragments s') = flagged X @ lwoven ts 0 (full_pos X 0) (zip rs' (edit_texts es)) (lcells Y)"
  proof -
    have rem: "remaining Q 0 = Q" for Q by (simp add: remaining_def)
    have "map kept (lcells (remaining R k)) = map kept (Z @ lcells R2)" using m by (simp add: lmoves_def rem)
    then show ?thesis using st1(9) m by (simp add: s'(1) lmoves_def rem kept_old_cells del: weave.simps)
  qed
  moreover obtain x y rs'' where rs': "rs' = (x, y) # rs''" using st1(7) by (cases rs') (auto simp: Cons)
  have x: "full_pos X 0 \<le> x" using st1(8) by (simp add: rs' Cons)
  have "lwoven ts 0 0 (zip rs' (edit_texts es)) (lcells X @ lcells Y) =
      map kept (lcells X) @ lwoven ts 0 (0 + length (lcells X)) (zip rs' (edit_texts es)) (lcells Y)"
    using weave_keep [of "zip rs' (edit_texts es)" "\<lambda>_. True" 0 "lcells X"] x
    by (simp add: rs' Cons closed_all del: weave.simps)
  ultimately show ?thesis
    using st1(7,8) x by (simp add: s' st0(9) kept_old_cells rs' Cons del: weave.simps)
qed

end
