(* ===== verification/Zed_Weave_Commute.thy ===== *)
theory Zed_Weave_Commute
  imports Zed_Local_Weave
begin

text \<open>
  An edit of the specification \<open>weave\<close> is taken apart into insertions of blocks and deletions of ranges of
  observed cells; those of two edits that do not know of each other commute.
\<close>

section \<open>Inserting a block\<close>

definition countP :: "('a \<Rightarrow> bool) \<Rightarrow> 'a list \<Rightarrow> nat" where
  "countP P xs = length (filter P xs)"

lemma countP_simps [simp]:
  "countP P [] = 0" "countP P (x # xs) = (if P x then 1 else 0) + countP P xs" "countP P (xs @ ys) = countP P xs + countP P ys"
  by (simp_all add: countP_def)

lemma countP_zero: "\<forall>x \<in> set xs. \<not> P x \<Longrightarrow> countP P xs = 0"
  by (simp add: countP_def filter_empty_conv)

text \<open>The block goes behind the first \<open>n\<close> cells of \<open>P\<close> and the cells of \<open>N\<close> that follow.\<close>

fun ins_at :: "('a \<Rightarrow> bool) \<Rightarrow> ('a \<Rightarrow> bool) \<Rightarrow> nat \<Rightarrow> 'a list \<Rightarrow> 'a list \<Rightarrow> 'a list" where
  "ins_at P N n block [] = block"
| "ins_at P N 0 block (x # xs) = (if N x then x # ins_at P N 0 block xs else block @ x # xs)"
| "ins_at P N (Suc n) block (x # xs) = x # ins_at P N (if P x then n else Suc n) block xs"

lemma ins_at_empty [simp]: "ins_at P N n [] xs = xs"
  by (induction P N n "[] :: 'a list" xs rule: ins_at.induct) auto

lemma countP_ins_at [simp]: "countP Q (ins_at P N n block xs) = countP Q xs + countP Q block"
  by (induction P N n block xs rule: ins_at.induct) auto

lemma set_ins_at [simp]: "set (ins_at P N n block xs) = set block \<union> set xs"
  by (induction P N n block xs rule: ins_at.induct) auto

lemma ins_at_skip: "\<forall>x \<in> set xs. \<not> P x \<Longrightarrow> ins_at P N (Suc n) block (xs @ ys) = xs @ ins_at P N (Suc n) block ys"
  by (induction xs) auto

lemma ins_at_run: "\<forall>x \<in> set xs. N x \<Longrightarrow> ins_at P N 0 block (xs @ ys) = xs @ ins_at P N 0 block ys"
  by (induction xs) auto

text \<open>\<open>A\<close> is older than \<open>B\<close>: \<open>B\<close> stays before \<open>A\<close> where they meet.\<close>

lemma ins_at_commute:
  assumes NB: "\<And>x. NB x \<Longrightarrow> NA x" and A: "\<forall>x \<in> set A. \<not> PB x \<and> \<not> NB x" and B: "\<forall>x \<in> set B. \<not> PA x \<and> NA x"
  shows "n \<le> countP PA xs \<Longrightarrow> m \<le> countP PB xs \<Longrightarrow>
    ins_at PA NA n A (ins_at PB NB m B xs) = ins_at PB NB m B (ins_at PA NA n A xs)"
proof (induction xs arbitrary: n m)
  case Nil
  have "ins_at PB NB 0 B A = B @ A" using A by (cases A) auto
  moreover have "ins_at PA NA 0 A B = B @ A" using B ins_at_run [of B NA PA A "[]"] by simp
  ultimately show ?case using Nil by simp
next
  case (Cons x xs)
  show ?case
  proof (cases n)
    case n: 0
    show ?thesis
    proof (cases m)
      case 0
      show ?thesis
      proof (cases "NB x")
        case True
        then show ?thesis using NB [of x] Cons.IH [of 0 0] n 0 by simp
      next
        case False
        then have "ins_at PA NA 0 A (B @ x # xs) = B @ ins_at PA NA 0 A (x # xs)" using B ins_at_run [of B NA PA A] by simp
        moreover have "ins_at PB NB 0 B (A @ x # xs) = B @ A @ x # xs" using A False by (cases A) auto
        ultimately show ?thesis using n 0 False by simp
      qed
    next
      case (Suc m')
      show ?thesis
      proof (cases "NA x")
        case True
        then show ?thesis using Cons.IH [of 0 "if PB x then m' else Suc m'"] Cons.prems n Suc by (auto split: if_splits)
      next
        case False
        then show ?thesis using A ins_at_skip [of A PB NB m' B "x # xs"] n Suc by simp
      qed
    qed
  next
    case n: (Suc n')
    show ?thesis
    proof (cases m)
      case 0
      show ?thesis
      proof (cases "NB x")
        case True
        then show ?thesis using Cons.IH [of "if PA x then n' else Suc n'" 0] Cons.prems n 0 by (auto split: if_splits)
      next
        case False
        then show ?thesis using B ins_at_skip [of B PA NA n' A "x # xs"] n 0 by simp
      qed
    next
      case (Suc m')
      then show ?thesis
        using Cons.IH [of "if PA x then n' else Suc n'" "if PB x then m' else Suc m'"] Cons.prems n by (auto split: if_splits)
    qed
  qed
qed

section \<open>Deleting ranges\<close>

text \<open>\<open>i\<close> cells of \<open>P\<close> came before; those with a rank in \<open>S\<close> are changed by \<open>g\<close>.\<close>

fun strike :: "('a \<Rightarrow> bool) \<Rightarrow> (nat \<Rightarrow> bool) \<Rightarrow> ('a \<Rightarrow> 'a) \<Rightarrow> nat \<Rightarrow> 'a list \<Rightarrow> 'a list" where
  "strike P S g i [] = []"
| "strike P S g i (x # xs) = (if P x \<and> S i then g x else x) # strike P S g (if P x then Suc i else i) xs"

lemma strike_append: "strike P S g i (xs @ ys) = strike P S g i xs @ strike P S g (i + countP P xs) ys"
  by (induction xs arbitrary: i) auto

lemma strike_none: "\<forall>x \<in> set xs. \<not> P x \<Longrightarrow> strike P S g i xs = xs"
  by (induction xs arbitrary: i) auto

lemma strike_cong:
  assumes "\<And>j. i \<le> j \<Longrightarrow> j < i + countP P xs \<Longrightarrow> S j = T j"
  shows "strike P S g i xs = strike P T g i xs"
  using assms
proof (induction xs arbitrary: i)
  case (Cons x xs)
  have "strike P S g (if P x then Suc i else i) xs = strike P T g (if P x then Suc i else i) xs"
    by (rule Cons.IH) (use Cons.prems in \<open>auto split: if_splits\<close>)
  then show ?case using Cons.prems [of i] by auto
qed simp

lemma countP_strike: "(\<And>x. Q (g x) = Q x) \<Longrightarrow> countP Q (strike P S g i xs) = countP Q xs"
  by (induction xs arbitrary: i) auto

lemma strike_ins_at:
  assumes "\<And>x. PB (g x) = PB x" "\<And>x. NB (g x) = NB x" "\<forall>x \<in> set B. \<not> P x"
  shows "strike P S g i (ins_at PB NB m B xs) = ins_at PB NB m B (strike P S g i xs)"
proof (induction xs arbitrary: i m)
  case Nil
  then show ?case using assms(3) by (simp add: strike_none)
next
  case (Cons x xs)
  then show ?case using assms by (cases m) (simp_all add: strike_append strike_none countP_zero)
qed

lemma strike_commute:
  assumes "\<And>x. PA (h x) = PA x" "\<And>x. PB (g x) = PB x" "\<And>x. g (h x) = h (g x)"
  shows "strike PA S g i (strike PB T h j xs) = strike PB T h j (strike PA S g i xs)"
  by (induction xs arbitrary: i j) (simp_all add: assms)


section \<open>The edit as insertions and deletions\<close>

type_synonym dcell = "cell \<times> lamport set"

abbreviation edit_block :: "lamport \<Rightarrow> nat \<Rightarrow> nat \<Rightarrow> dcell list" where
  "edit_block ts off n \<equiv> map (\<lambda>o'. ((ts, o'), {})) [off ..< off + n]"

fun ins_all :: "(cell \<Rightarrow> bool) \<Rightarrow> lamport \<Rightarrow> nat \<Rightarrow> text_edits \<Rightarrow> dcell list \<Rightarrow> dcell list" where
  "ins_all P ts off [] xs = xs"
| "ins_all P ts off (((a, b), t) # es) xs =
     ins_all P ts (off + length t) es
       (ins_at (\<lambda>x. P (fst x)) (\<lambda>x. ts \<le> fst (fst x)) a (edit_block ts off (length t)) xs)"

definition in_ranges :: "text_edits \<Rightarrow> nat \<Rightarrow> bool" where
  "in_ranges es i \<longleftrightarrow> (\<exists>((a, b), t) \<in> set es. a \<le> i \<and> i < b)"

definition mark_deleted :: "(dcell \<Rightarrow> bool) \<Rightarrow> lamport \<Rightarrow> dcell \<Rightarrow> dcell" where
  "mark_deleted W ts x = (fst x, if W x then insert ts (snd x) else snd x)"

definition plain_weave :: "(cell \<Rightarrow> bool) \<Rightarrow> (dcell \<Rightarrow> bool) \<Rightarrow> lamport \<Rightarrow> text_edits \<Rightarrow> dcell list \<Rightarrow> dcell list" where
  "plain_weave P W ts es xs =
     ins_all P ts 0 es (strike (\<lambda>x. P (fst x)) (in_ranges es) (mark_deleted W ts) 0 xs)"

text \<open>The part of a list that an insertion behind it leaves alone.\<close>

fun passes :: "('a \<Rightarrow> bool) \<Rightarrow> ('a \<Rightarrow> bool) \<Rightarrow> nat \<Rightarrow> 'a list \<Rightarrow> bool" where
  "passes P N n [] \<longleftrightarrow> True"
| "passes P N 0 (x # xs) \<longleftrightarrow> N x \<and> \<not> P x \<and> passes P N 0 xs"
| "passes P N (Suc n) (x # xs) \<longleftrightarrow> passes P N (if P x then n else Suc n) xs"

lemma ins_at_passes: "passes P N n xs \<Longrightarrow> ins_at P N n block (xs @ ys) = xs @ ins_at P N (n - countP P xs) block ys"
  by (induction P N n xs rule: passes.induct) auto

lemma passes_append: "passes P N n (xs @ ys) \<longleftrightarrow> passes P N n xs \<and> passes P N (n - countP P xs) ys"
  by (induction P N n xs rule: passes.induct) auto

lemma passes_few: "countP P xs < n \<Longrightarrow> passes P N n xs"
  by (induction P N n xs rule: passes.induct) (auto split: if_splits)

lemma passes_run: "\<forall>x \<in> set xs. N x \<and> \<not> P x \<Longrightarrow> passes P N n xs"
proof (cases n)
  case 0
  assume "\<forall>x \<in> set xs. N x \<and> \<not> P x"
  then show ?thesis unfolding 0 by (induction xs) auto
next
  case (Suc m)
  assume "\<forall>x \<in> set xs. N x \<and> \<not> P x"
  then show ?thesis using passes_few [of P xs n N] countP_zero [of xs P] Suc by simp
qed

lemma passes_closed:
  assumes "countP P xs \<le> n" "xs = [] \<or> P (last xs)"
  shows "passes P N n xs"
proof (cases xs rule: rev_cases)
  case (snoc ys y)
  then have y: "P y" using assms(2) by simp
  then have "countP P ys < n" using assms(1) snoc by simp
  then show ?thesis unfolding snoc passes_append using passes_few [of P ys n N] by (cases "n - countP P ys") auto
qed simp

definition shift_edits :: "nat \<Rightarrow> text_edits \<Rightarrow> text_edits" where
  "shift_edits i es = map (\<lambda>((a, b), t). ((a - i, b - i), t)) es"

lemma shift_edits_simps [simp]:
  "shift_edits i [] = []" "shift_edits i (((a, b), t) # es) = ((a - i, b - i), t) # shift_edits i es"
  "shift_edits 0 es = es"
  by (auto simp: shift_edits_def)

lemma ins_all_passes:
  assumes "\<forall>e \<in> set es. passes (\<lambda>x. P (fst x)) (\<lambda>x. ts \<le> fst (fst x)) (fst (fst e)) xs"
  shows "ins_all P ts off es (xs @ ys) = xs @ ins_all P ts off (shift_edits (countP (\<lambda>x. P (fst x)) xs) es) ys"
  using assms
proof (induction es arbitrary: off ys)
  case (Cons e es)
  obtain a b t where "e = ((a, b), t)" by (cases e) auto
  then show ?case using Cons by (simp add: ins_at_passes)
qed simp


text \<open>Cells with the edits that deleted them.\<close>

definition plain :: "flagged_cell \<Rightarrow> dcell" where
  "plain x = (fst x, set (snd (snd x)))"

definition plain_old :: "old_cell \<Rightarrow> dcell" where
  "plain_old y = (fst y, set (snd (fst (snd y))))"

lemma plain_simps [simp]:
  "plain (kept y) = plain_old y" "fst (plain_old y) = fst y" "fst (mark_deleted W ts x) = fst x"
  "plain (c, v, D) = (c, set D)"
  by (simp_all add: plain_def plain_old_def kept_def mark_deleted_def split_beta)

lemma plain_struck: "snd (snd y) = W (plain_old y) \<Longrightarrow> plain (struck ts y) = mark_deleted W ts (plain_old y)"
  by (cases y) (auto simp: plain_def plain_old_def struck_def mark_deleted_def)

lemma split_observed_parts:
  assumes "split_observed P n xs = (l, r)" "n \<le> countP (\<lambda>x. P (fst x)) xs"
  shows "xs = l @ r" "countP (\<lambda>x. P (fst x)) l = n" "l = [] \<or> P (fst (last l))"
  using assms by (induction P n xs arbitrary: l r rule: split_observed.induct)
    (auto simp: Let_def split: if_splits prod.splits)

lemma strike_out: "(\<And>j. i \<le> j \<Longrightarrow> j < i + countP P xs \<Longrightarrow> \<not> S j) \<Longrightarrow> strike P S g i xs = xs"
proof (induction xs arbitrary: i)
  case (Cons x xs)
  have "strike P S g (if P x then Suc i else i) xs = xs" by (rule Cons.IH) (use Cons.prems in \<open>auto split: if_splits\<close>)
  then show ?case using Cons.prems [of i] by auto
qed simp

lemma strike_all:
  "(\<And>j. i \<le> j \<Longrightarrow> j < i + countP P xs \<Longrightarrow> S j) \<Longrightarrow> \<forall>x \<in> set xs. \<not> P x \<longrightarrow> g x = x \<Longrightarrow> strike P S g i xs = map g xs"
proof (induction xs arbitrary: i)
  case (Cons x xs)
  have "strike P S g (if P x then Suc i else i) xs = map g xs" by (rule Cons.IH) (use Cons.prems in \<open>auto split: if_splits\<close>)
  then show ?case using Cons.prems(1) [of i] Cons.prems(2) by auto
qed simp

lemma edits_ok_range: "edits_ok n pos es \<Longrightarrow> ((a, b), t) \<in> set es \<Longrightarrow> pos \<le> a \<and> a \<le> b \<and> b \<le> n"
proof (induction n pos es rule: edits_ok.induct)
  case (2 n pos a' b' t' es)
  then show ?case using edits_ok_le [of n b' es] by auto
qed simp

lemma countP_map: "countP P (map f xs) = countP (\<lambda>x. P (f x)) xs"
  by (induction xs) auto

lemma ins_at_here: "xs = [] \<or> \<not> N (hd xs) \<Longrightarrow> ins_at P N 0 block xs = block @ xs"
  by (cases xs) auto

text \<open>The old cells an edit applies to: those its author has observed are older, and the flags are those of \<open>W\<close>.\<close>

definition weavable :: "(cell \<Rightarrow> bool) \<Rightarrow> (dcell \<Rightarrow> bool) \<Rightarrow> lamport \<Rightarrow> old_cell list \<Rightarrow> bool" where
  "weavable P W ts ys \<longleftrightarrow> (\<forall>y \<in> set ys. fst (fst y) \<noteq> ts \<and> (P (fst y) \<longrightarrow> fst (fst y) < ts) \<and>
     snd (snd y) = W (plain_old y) \<and> (W (plain_old y) \<longrightarrow> P (fst y)))"

lemma plain_weave_steps:
  assumes own: "\<And>o'. \<not> P (ts, o')"
  shows "weavable P W ts ys \<Longrightarrow>
    edits_ok (i + countP (\<lambda>y. P (fst y)) ys) i es \<Longrightarrow>
    map plain (weave P (\<lambda>c. ts < fst c) ts off i es ys) =
      ins_all P ts off (shift_edits i es) (strike (\<lambda>x. P (fst x)) (in_ranges es) (mark_deleted W ts) i (map plain_old ys))"
proof (induction es arbitrary: off i ys)
  case Nil
  have "strike (\<lambda>x. P (fst x)) (in_ranges []) (mark_deleted W ts) i (map plain_old ys) = map plain_old ys"
    by (rule strike_out) (simp add: in_ranges_def)
  then show ?case by simp
next
  case (Cons e es)
  obtain a b t where e: "e = ((a, b), t)" by (cases e) auto
  let ?P = "\<lambda>x. P (fst x)" and ?N = "\<lambda>x. ts \<le> fst (fst x)" and ?g = "mark_deleted W ts" and ?S = "in_ranges (e # es)"
  have ok: "i \<le> a" "a \<le> b" "edits_ok (i + countP ?P ys) b es" using Cons.prems(2) by (simp_all add: e)
  have b: "b \<le> i + countP ?P ys" using edits_ok_le [OF ok(3)] .
  obtain before ys1 where s1: "split_observed P (a - i) ys = (before, ys1)" by fastforce
  have "a - i \<le> countP ?P ys" using b ok by simp
  note p1 = split_observed_parts [OF s1 this]
  define run where "run = takeWhile (\<lambda>y. ts < fst (fst y)) ys1"
  define ys2 where "ys2 = dropWhile (\<lambda>y. ts < fst (fst y)) ys1"
  have ys1: "ys1 = run @ ys2" by (simp add: run_def ys2_def)
  have old: "\<forall>y \<in> set ys. P (fst y) \<longrightarrow> fst (fst y) < ts" using Cons.prems(1) by (simp add: weavable_def)
  have "ts < fst (fst y)" if "y \<in> set run" for y using set_takeWhileD that by (fastforce simp: run_def)
  moreover have "set run \<subseteq> set ys" unfolding run_def p1(1) using set_takeWhileD by fastforce
  ultimately have "ts < fst (fst y) \<and> (P (fst y) \<longrightarrow> fst (fst y) < ts)" if "y \<in> set run" for y using old that by blast
  then have run: "\<forall>y \<in> set run. ts \<le> fst (fst y) \<and> \<not> P (fst y)" by (meson less_asym less_imp_le)
  have crun: "countP ?P run = 0" using run by (intro countP_zero) blast
  obtain range rest where s2: "split_observed P (b - a) ys2 = (range, rest)" by fastforce
  have "b - a \<le> countP ?P ys2" using b p1(1,2) ys1 crun ok by simp
  note p2 = split_observed_parts [OF s2 this]
  have ys: "ys = before @ run @ range @ rest" using p1(1) p2(1) ys1 by simp
  have lhs: "map plain (weave P (\<lambda>c. ts < fst c) ts off i (e # es) ys) = map plain_old before @ map plain_old run @
      edit_block ts off (length t) @ map ?g (map plain_old range) @ map plain (weave P (\<lambda>c. ts < fst c) ts (off + length t) b es rest)"
  proof -
    have "map plain (map (struck ts) range) = map ?g (map plain_old range)"
      using Cons.prems(1) by (auto simp: ys plain_struck weavable_def)
    then show ?thesis by (simp add: e s1 s2 Let_def flip: run_def ys2_def)
  qed
  have IH: "map plain (weave P (\<lambda>c. ts < fst c) ts (off + length t) b es rest) =
      ins_all P ts (off + length t) (shift_edits b es) (strike ?P (in_ranges es) ?g b (map plain_old rest))"
    using Cons.prems(1) ok p1(2) p2(2) crun by (intro Cons.IH) (simp_all add: ys weavable_def)
  note bounds = edits_ok_range [OF ok(3)]
  have struck: "strike ?P ?S ?g i (map plain_old ys) = map plain_old before @ map plain_old run @
      map ?g (map plain_old range) @ strike ?P (in_ranges es) ?g b (map plain_old rest)"
  proof -
    have "\<not> ?S j" if "j < a" for j using that bounds ok by (fastforce simp: in_ranges_def e)
    then have 1: "strike ?P ?S ?g i (map plain_old before) = map plain_old before"
      using p1(2) ok by (intro strike_out) (simp add: countP_map)
    have 2: "strike ?P ?S ?g a (map plain_old run) = map plain_old run" using run by (intro strike_none) auto
    have "?g x = x" if "\<not> W x" for x using that by (simp add: mark_deleted_def)
    moreover have "\<not> W (plain_old y)" if "y \<in> set range" "\<not> P (fst y)" for y
      using Cons.prems(1) that by (simp add: ys weavable_def) blast
    ultimately have nodel: "\<forall>x \<in> set (map plain_old range). \<not> ?P x \<longrightarrow> ?g x = x" by simp
    have 3: "strike ?P ?S ?g a (map plain_old range) = map ?g (map plain_old range)"
      using p2(2) nodel ok by (intro strike_all) (auto simp: countP_map in_ranges_def e)
    have "?S j = in_ranges es j" if "b \<le> j" for j using that by (auto simp: in_ranges_def e)
    then have 4: "strike ?P ?S ?g b (map plain_old rest) = strike ?P (in_ranges es) ?g b (map plain_old rest)"
      by (intro strike_cong) simp
    show ?thesis using 1 2 3 4 p1(2) p2(2) crun ok by (simp add: ys strike_append countP_map)
  qed
  let ?B = "map plain_old before" and ?R = "map plain_old run" and ?G = "map ?g (map plain_old range)"
  let ?T = "strike ?P (in_ranges es) ?g b (map plain_old rest)" and ?bl = "edit_block ts off (length t)"
  have last: "?B = [] \<or> ?P (last ?B)" "?G = [] \<or> ?P (last ?G)" using p1(3) p2(3)
    by (cases before rule: rev_cases; cases range rule: rev_cases; simp)+
  have cnt: "countP ?P ?B = a - i" "countP ?P ?R = 0" "countP ?P ?bl = 0" "countP ?P ?G = b - a"
    using p1(2) p2(2) crun own by (auto simp: countP_map intro!: countP_zero)
  have R: "\<forall>x \<in> set (?R @ ?bl). ?N x \<and> \<not> ?P x" using run own by auto
  have head: "?G @ ?T = [] \<or> \<not> ?N (hd (?G @ ?T))"
  proof -
    have "map fst (strike ?P S ?g j xs) = map fst xs" for S j xs by (induction xs arbitrary: j) auto
    then have "map fst (?G @ ?T) = map fst ys2" by (simp add: p2(1) comp_def)
    moreover have "ys2 = [] \<or> \<not> ts < fst (fst (hd ys2))" unfolding ys2_def using hd_dropWhile by blast
    moreover have "set ys2 \<subseteq> set ys" by (auto simp: ys p2(1))
    then have "ys2 = [] \<or> fst (fst (hd ys2)) \<noteq> ts" using Cons.prems(1) hd_in_set unfolding weavable_def by blast
    ultimately show ?thesis by (cases "?G @ ?T"; cases ys2) auto
  qed
  have "passes ?P ?N (a - i) (?B @ ?R)"
    unfolding passes_append using passes_closed [of ?P ?B "a - i" ?N] last(1) cnt(1) passes_run [of ?R ?N ?P] R by simp
  from ins_at_passes [OF this] have
    "ins_at ?P ?N (a - i) ?bl ((?B @ ?R) @ (?G @ ?T)) = (?B @ ?R) @ ins_at ?P ?N 0 ?bl (?G @ ?T)"
    using cnt by simp
  then have first: "ins_at ?P ?N (a - i) ?bl (?B @ ?R @ ?G @ ?T) = (?B @ ?R @ ?bl @ ?G) @ ?T"
    using ins_at_here [of "?G @ ?T" ?N ?P ?bl] head by simp
  have "passes ?P ?N (fst (fst e')) (?B @ ?R @ ?bl @ ?G)" if mem: "e' \<in> set (shift_edits i es)" for e'
  proof -
    obtain a' b' t' where e': "((a', b'), t') \<in> set es" "e' = ((a' - i, b' - i), t')" using mem by (auto simp: shift_edits_def)
    have "b \<le> a'" using bounds [OF e'(1)] by simp
    then have "passes ?P ?N (a' - i) ?B" "passes ?P ?N (a' - i - (a - i)) ?G"
      using passes_closed [of ?P ?B "a' - i" ?N] passes_closed [of ?P ?G "a' - i - (a - i)" ?N] last cnt ok by simp_all
    moreover have "passes ?P ?N (a' - i - (a - i)) (?R @ ?bl)" using R by (rule passes_run)
    ultimately have "passes ?P ?N (a' - i) (?B @ (?R @ ?bl) @ ?G)" unfolding passes_append by (simp add: cnt)
    then show ?thesis using e'(2) by simp
  qed
  then have "ins_all P ts (off + length t) (shift_edits i es) ((?B @ ?R @ ?bl @ ?G) @ ?T) =
      (?B @ ?R @ ?bl @ ?G) @ ins_all P ts (off + length t) (shift_edits (countP ?P (?B @ ?R @ ?bl @ ?G)) (shift_edits i es)) ?T"
    by (intro ins_all_passes) simp
  moreover have "countP ?P (?B @ ?R @ ?bl @ ?G) = b - i" using cnt ok by simp
  moreover have "shift_edits (b - i) (shift_edits i es) = shift_edits b es"
    using bounds ok by (auto simp: shift_edits_def)
  ultimately show ?case
    unfolding lhs IH struck using first by (simp add: e)
qed


text \<open>The specification \<open>weave\<close> is the plain one.\<close>

lemma weave_plain:
  assumes "\<And>o'. \<not> P (ts, o')" "weavable P W ts ys" "edits_ok (countP (\<lambda>y. P (fst y)) ys) 0 es"
  shows "map plain (weave P (\<lambda>c. ts < fst c) ts 0 0 es ys) = plain_weave P W ts es (map plain_old ys)"
  using plain_weave_steps [where P = P and W = W and ts = ts and ys = ys and i = 0 and es = es and off = 0] assms
  by (simp add: plain_weave_def del: weave.simps)

section \<open>Edits that do not know of each other\<close>

lemma block_commute:
  assumes "tA \<noteq> tB" "\<And>o'. \<not> PA (tB, o')" "\<And>o'. \<not> PB (tA, o')"
    and "n \<le> countP (\<lambda>x. PA (fst x)) xs" "m \<le> countP (\<lambda>x. PB (fst x)) xs"
  shows "ins_at (\<lambda>x. PA (fst x)) (\<lambda>x. tA \<le> fst (fst x)) n (edit_block tA i k)
      (ins_at (\<lambda>x. PB (fst x)) (\<lambda>x. tB \<le> fst (fst x)) m (edit_block tB j l) xs) =
    ins_at (\<lambda>x. PB (fst x)) (\<lambda>x. tB \<le> fst (fst x)) m (edit_block tB j l)
      (ins_at (\<lambda>x. PA (fst x)) (\<lambda>x. tA \<le> fst (fst x)) n (edit_block tA i k) xs)"
proof (cases "tA < tB")
  case True
  then show ?thesis using assms by (intro ins_at_commute) (auto simp: not_le)
next
  case False
  then have "tB < tA" using assms(1) by simp
  then show ?thesis using assms by (intro ins_at_commute [symmetric]) (auto simp: not_le)
qed

definition starts_within :: "nat \<Rightarrow> text_edits \<Rightarrow> bool" where
  "starts_within n es \<longleftrightarrow> (\<forall>e \<in> set es. fst (fst e) \<le> n)"

lemma starts_within_simps [simp]:
  "starts_within n []" "starts_within n (((a, b), t) # es) \<longleftrightarrow> a \<le> n \<and> starts_within n es"
  by (simp_all add: starts_within_def)

lemma starts_within_mono: "starts_within n es \<Longrightarrow> n \<le> m \<Longrightarrow> starts_within m es"
  by (auto simp: starts_within_def)

lemma edits_ok_starts: "edits_ok n pos es \<Longrightarrow> starts_within n es"
  using edits_ok_range [of n pos es] by (fastforce simp: starts_within_def)

lemma ins_at_ins_all:
  assumes "tA \<noteq> tB" "\<And>o'. \<not> PA (tB, o')" "\<And>o'. \<not> PB (tA, o')"
  shows "n \<le> countP (\<lambda>x. PA (fst x)) xs \<Longrightarrow> starts_within (countP (\<lambda>x. PB (fst x)) xs) es \<Longrightarrow>
    ins_at (\<lambda>x. PA (fst x)) (\<lambda>x. tA \<le> fst (fst x)) n (edit_block tA i k) (ins_all PB tB j es xs) =
    ins_all PB tB j es (ins_at (\<lambda>x. PA (fst x)) (\<lambda>x. tA \<le> fst (fst x)) n (edit_block tA i k) xs)"
proof (induction es arbitrary: j xs)
  case (Cons e es)
  obtain a b t where e: "e = ((a, b), t)" by (cases e) auto
  have "starts_within (countP (\<lambda>x. PB (fst x)) xs + m) es" for m
    using Cons.prems(2) by (auto simp: e intro: starts_within_mono)
  then show ?case using Cons.IH Cons.prems block_commute [of tA tB PA PB, OF assms] by (simp add: e)
qed simp

lemma countP_ins_all: "(\<And>o'. \<not> P (ts, o')) \<Longrightarrow> countP (\<lambda>x. P (fst x)) (ins_all Q ts j es xs) = countP (\<lambda>x. P (fst x)) xs"
proof (induction es arbitrary: j xs)
  case (Cons e es)
  obtain a b t where e: "e = ((a, b), t)" by (cases e) auto
  have "countP (\<lambda>x. P (fst x)) (edit_block ts j n) = 0" for n using Cons.prems by (intro countP_zero) auto
  then show ?case using Cons by (simp add: e)
qed simp

lemma ins_all_commute:
  assumes "tA \<noteq> tB" "\<And>o'. \<not> PA (tB, o')" "\<And>o'. \<not> PB (tA, o')"
  shows "starts_within (countP (\<lambda>x. PA (fst x)) xs) es \<Longrightarrow> starts_within (countP (\<lambda>x. PB (fst x)) xs) es' \<Longrightarrow>
    ins_all PA tA i es (ins_all PB tB j es' xs) = ins_all PB tB j es' (ins_all PA tA i es xs)"
proof (induction es arbitrary: i xs)
  case (Cons e es)
  obtain a b t where e: "e = ((a, b), t)" by (cases e) auto
  have "starts_within (countP (\<lambda>x. PA (fst x)) xs + m) es" "starts_within (countP (\<lambda>x. PB (fst x)) xs + m) es'" for m
    using Cons.prems by (auto simp: e intro: starts_within_mono)
  then show ?case using Cons.IH Cons.prems ins_at_ins_all [of tA tB PA PB, OF assms] by (simp add: e)
qed simp

lemma strike_ins_all:
  assumes "\<And>x. fst (g x) = fst x" "\<And>o'. \<not> P (ts, o')"
  shows "strike (\<lambda>x. P (fst x)) S g i (ins_all Q ts j es xs) = ins_all Q ts j es (strike (\<lambda>x. P (fst x)) S g i xs)"
proof (induction es arbitrary: j xs)
  case (Cons e es)
  obtain a b t where e: "e = ((a, b), t)" by (cases e) auto
  have "strike (\<lambda>x. P (fst x)) S g i (ins_at (\<lambda>x. Q (fst x)) (\<lambda>x. ts \<le> fst (fst x)) n (edit_block ts j l) xs) =
      ins_at (\<lambda>x. Q (fst x)) (\<lambda>x. ts \<le> fst (fst x)) n (edit_block ts j l) (strike (\<lambda>x. P (fst x)) S g i xs)" for n l
    using assms by (intro strike_ins_at) auto
  then show ?case using Cons.IH by (simp add: e)
qed simp

lemma mark_deleted_commute:
  assumes "\<And>c D. WA (c, insert tB D) = WA (c, D)" "\<And>c D. WB (c, insert tA D) = WB (c, D)"
  shows "mark_deleted WA tA (mark_deleted WB tB x) = mark_deleted WB tB (mark_deleted WA tA x)"
  by (cases x) (auto simp: mark_deleted_def assms)

lemma countP_plain_weave:
  "(\<And>o'. \<not> P (ts, o')) \<Longrightarrow> countP (\<lambda>x. P (fst x)) (plain_weave Q W ts es xs) = countP (\<lambda>x. P (fst x)) xs"
  by (simp add: plain_weave_def countP_ins_all countP_strike)

lemma plain_weave_commute:
  assumes "tA \<noteq> tB" "\<And>o'. \<not> PA (tB, o')" "\<And>o'. \<not> PB (tA, o')"
    and "\<And>c D. WA (c, insert tB D) = WA (c, D)" "\<And>c D. WB (c, insert tA D) = WB (c, D)"
    and "edits_ok (countP (\<lambda>x. PA (fst x)) xs) 0 es" "edits_ok (countP (\<lambda>x. PB (fst x)) xs) 0 es'"
  shows "plain_weave PA WA tA es (plain_weave PB WB tB es' xs) = plain_weave PB WB tB es' (plain_weave PA WA tA es xs)"
proof -
  let ?gA = "mark_deleted WA tA" and ?gB = "mark_deleted WB tB"
  let ?sA = "strike (\<lambda>x. PA (fst x)) (in_ranges es) ?gA 0" and ?sB = "strike (\<lambda>x. PB (fst x)) (in_ranges es') ?gB 0"
  let ?iA = "ins_all PA tA 0 es" and ?iB = "ins_all PB tB 0 es'"
  have sAB: "?sA (?sB ys) = ?sB (?sA ys)" for ys
    by (intro strike_commute) (simp_all add: mark_deleted_commute [OF assms(4,5)])
  have "?iA (?sA (?iB (?sB xs))) = ?iA (?iB (?sA (?sB xs)))" using assms(2) by (simp add: strike_ins_all)
  also have "\<dots> = ?iB (?iA (?sA (?sB xs)))"
    using edits_ok_starts [OF assms(6)] edits_ok_starts [OF assms(7)]
    by (intro ins_all_commute [of tA tB PA PB, OF assms(1-3)]) (simp_all add: countP_strike)
  also have "\<dots> = ?iB (?iA (?sB (?sA xs)))" by (simp only: sAB)
  also have "\<dots> = ?iB (?sB (?iA (?sA xs)))" using assms(3) by (simp add: strike_ins_all)
  finally show ?thesis by (simp add: plain_weave_def)
qed

end
