(* ===== verification/Zed_Buffer.thy ===== *)
theory Zed_Buffer
  imports Zed_Undo Zed_History Zed_OperationQueue Zed_Subscription
begin

text \<open>
  The buffer itself (\<open>Buffer\<close> in \<open>crates/text/src/text.rs\<close>): a snapshot with its history, clock,
  subscribers and waiting operations.  A method that changes the buffer returns the changed record, and
  \<open>None\<close> where the code panics.  The patches of the subscribers are reached through weak pointers; they
  are kept in the store \<open>bu_patches\<close>.  One-shot channels are numbers, and \<open>bu_signalled\<close> lists those that
  have been sent a unit.  Instants are arguments.
\<close>

section \<open>The buffer\<close>

record buffer =
  bu_snapshot :: snapshot
  bu_history :: history
  bu_deferred_ops :: "operation operation_queue"
  bu_deferred_replicas :: "replica_id list"
  bu_lamport_clock :: lamport
  bu_subscriptions :: "nat list"
  bu_patches :: patch_store
  bu_edit_id_resolvers :: "(lamport \<times> nat) list"
  bu_wait_for_version_txs :: "(vclock \<times> nat) list"
  bu_signalled :: "nat list"

fun op_version :: "operation \<Rightarrow> vclock" where
  "op_version (EditOp e) = eo_version e"
| "op_version (UndoOp u) = uo_version u"

abbreviation bu_version :: "buffer \<Rightarrow> vclock" where
  "bu_version b \<equiv> sn_version (bu_snapshot b)"

definition bu_observe_version :: "lamport \<Rightarrow> buffer \<Rightarrow> buffer" where
  "bu_observe_version t b =
     b\<lparr>bu_snapshot := (bu_snapshot b)\<lparr>sn_version := vclock_observe (sn_version (bu_snapshot b)) t\<rparr>\<rparr>"

definition bu_tick :: "buffer \<Rightarrow> lamport \<times> buffer" where
  "bu_tick b = (let (t, c) = lamport_tick (bu_lamport_clock b) in (t, b\<lparr>bu_lamport_clock := c\<rparr>))"

definition bu_publish :: "patch \<Rightarrow> buffer \<Rightarrow> buffer option" where
  "bu_publish edits b =
     map_option (\<lambda>(topic, store). b\<lparr>bu_subscriptions := topic, bu_patches := store\<rparr>)
       (topic_publish (bu_subscriptions b) (bu_patches b) edits)"

section \<open>Creation\<close>

text \<open>The loop of \<open>new_normalized\<close> over the chunks of the base text; a chunk that ends before it starts
  underflows.\<close>

partial_function (option) base_fragments ::
    "string \<Rightarrow> lamport \<Rightarrow> nat \<Rightarrow> nat \<Rightarrow> locator \<Rightarrow> fragment list \<Rightarrow> insertion_fragment list \<Rightarrow>
       (fragment list \<times> insertion_fragment list) option" where
  [code]: "base_fragments base timestamp text_offset insertion_offset prev_locator fragments insertions =
     (if text_offset < length base then
        let target_end = min (length base) (text_offset + MAX_INSERTION_LEN);
            chunk_end = (if target_end = length base then target_end else floor_char_boundary base target_end)
        in
        if chunk_end < text_offset then None
        else
          let chunk_len = chunk_end - text_offset;
              fragment_id = locator_between prev_locator locator_max;
              f = \<lparr>fr_id = fragment_id, fr_timestamp = timestamp, fr_insertion_offset = insertion_offset,
                   fr_len = as_u32 chunk_len, fr_visible = True, fr_deletions = [], fr_max_undos = version_new\<rparr>
          in base_fragments base timestamp chunk_end (as_u32 (insertion_offset + as_u32 chunk_len)) fragment_id
               (fragments @ [f]) (insertions @ [insertion_fragment_new f])
      else Some (fragments, insertions))"

definition bu_new_normalized :: "replica_id \<Rightarrow> nat \<Rightarrow> string \<Rightarrow> buffer option" where
  "bu_new_normalized replica_id interval normalized =
     (let insertion_timestamp = lamport_new LOCAL in
      case (if normalized \<noteq> [] then base_fragments normalized insertion_timestamp 0 0 locator_min [] [] else Some ([], [])) of
        None \<Rightarrow> None
      | Some (fragments, insertions) \<Rightarrow> Some
          \<lparr>bu_snapshot = \<lparr>sn_visible_text = normalized, sn_deleted_text = [], sn_fragments = fragments,
             sn_insertions = insertions, sn_insertion_slices = [], sn_undo_map = st_new undo_ops,
             sn_version = (if normalized \<noteq> [] then vclock_observe vclock_new insertion_timestamp else vclock_new)\<rparr>,
           bu_history = hi_new interval normalized, bu_deferred_ops = oq_new op_timestamp, bu_deferred_replicas = [],
           bu_lamport_clock = (if normalized \<noteq> [] then lamport_observe (lamport_new replica_id) insertion_timestamp
             else lamport_new replica_id),
           bu_subscriptions = [], bu_patches = Map.empty, bu_edit_id_resolvers = [], bu_wait_for_version_txs = [],
           bu_signalled = []\<rparr>)"

definition bu_branch :: "nat \<Rightarrow> buffer \<Rightarrow> buffer" where
  "bu_branch interval b =
     \<lparr>bu_snapshot = bu_snapshot b, bu_history = hi_new interval (hi_base_text (bu_history b)),
      bu_deferred_ops = oq_new op_timestamp, bu_deferred_replicas = [], bu_lamport_clock = lamport_new LOCAL_BRANCH,
      bu_subscriptions = [], bu_patches = Map.empty, bu_edit_id_resolvers = [], bu_wait_for_version_txs = [],
      bu_signalled = []\<rparr>"

section \<open>Local edits\<close>

definition bu_start_transaction_at :: "nat \<Rightarrow> buffer \<Rightarrow> buffer \<times> lamport option" where
  "bu_start_transaction_at now b =
     (let (h, c, tid) = hi_start_transaction (bu_history b) (bu_version b) now (bu_lamport_clock b)
      in (b\<lparr>bu_history := h, bu_lamport_clock := c\<rparr>, tid))"

definition bu_end_transaction_at :: "nat \<Rightarrow> buffer \<Rightarrow> (buffer \<times> (lamport \<times> vclock) option) option" where
  "bu_end_transaction_at now b =
     (case hi_end_transaction (bu_history b) now of
        None \<Rightarrow> None
      | Some (h, None) \<Rightarrow> Some (b\<lparr>bu_history := h\<rparr>, None)
      | Some (h, Some entry) \<Rightarrow>
          (case hi_group h of
             Some (h, Some tid) \<Rightarrow> Some (b\<lparr>bu_history := h\<rparr>, Some (tid, tr_start (he_transaction entry)))
           | _ \<Rightarrow> None))"

text \<open>The offsets are taken as converted (\<open>to_offset\<close>).\<close>

definition bu_apply_local_edit ::
    "((nat \<times> nat) \<times> string) list \<Rightarrow> lamport \<Rightarrow> buffer \<Rightarrow> (buffer \<times> edit_operation) option" where
  "bu_apply_local_edit edits timestamp b =
     (case apply_edit_internal (bu_snapshot b) edits timestamp of
        None \<Rightarrow> None
      | Some (s, ranges, texts, patch) \<Rightarrow>
          map_option (\<lambda>b'. (b', \<lparr>eo_timestamp = timestamp, eo_version = bu_version b, eo_ranges = ranges, eo_new_text = texts\<rparr>))
            (bu_publish patch (b\<lparr>bu_snapshot := s\<rparr>)))"

definition bu_edit ::
    "((nat \<times> nat) \<times> string) list \<Rightarrow> nat \<Rightarrow> nat \<Rightarrow> buffer \<Rightarrow> (buffer \<times> operation) option" where
  "bu_edit edits now now' b = do {
     let b = fst (bu_start_transaction_at now b);
     let (timestamp, b) = bu_tick b;
     (b, edit) \<leftarrow> bu_apply_local_edit edits timestamp b;
     let operation = EditOp edit;
     h \<leftarrow> hi_push (bu_history b) operation;
     h \<leftarrow> hi_push_undo h (op_timestamp operation);
     let b = bu_observe_version (op_timestamp operation) (b\<lparr>bu_history := h\<rparr>);
     (b, _) \<leftarrow> bu_end_transaction_at now' b;
     Some (b, operation) }"

section \<open>Operations of other replicas\<close>

definition bu_resolve_edit :: "lamport \<Rightarrow> buffer \<Rightarrow> buffer" where
  "bu_resolve_edit edit_id b =
     b\<lparr>bu_signalled := bu_signalled b @ map snd (filter (\<lambda>(i, _). i = edit_id) (bu_edit_id_resolvers b)),
       bu_edit_id_resolvers := filter (\<lambda>(i, _). i \<noteq> edit_id) (bu_edit_id_resolvers b)\<rparr>"

definition bu_wake :: "buffer \<Rightarrow> buffer" where
  "bu_wake b =
     b\<lparr>bu_signalled := bu_signalled b @ map snd (filter (\<lambda>(v, _). vclock_observed_all (bu_version b) v) (bu_wait_for_version_txs b)),
       bu_wait_for_version_txs := filter (\<lambda>(v, _). \<not> vclock_observed_all (bu_version b) v) (bu_wait_for_version_txs b)\<rparr>"

definition bu_apply_remote_edit :: "edit_operation \<Rightarrow> buffer \<Rightarrow> buffer option" where
  "bu_apply_remote_edit e b =
     (if eo_ranges e = [] then Some b
      else
        case apply_remote_edit (bu_snapshot b) (eo_version e) (eo_ranges e) (eo_new_text e) (eo_timestamp e) of
          None \<Rightarrow> None
        | Some (s, patch) \<Rightarrow> bu_publish patch (b\<lparr>bu_snapshot := s\<rparr>))"

definition bu_apply_undo :: "undo_operation \<Rightarrow> buffer \<Rightarrow> buffer option" where
  "bu_apply_undo u b =
     (case apply_undo (bu_snapshot b) u of
        None \<Rightarrow> None
      | Some (s, patch) \<Rightarrow> bu_publish patch (b\<lparr>bu_snapshot := s\<rparr>))"

definition bu_observe_op :: "lamport \<Rightarrow> buffer \<Rightarrow> buffer" where
  "bu_observe_op t b = (bu_observe_version t b)\<lparr>bu_lamport_clock := lamport_observe (bu_lamport_clock b) t\<rparr>"

definition bu_apply_op :: "operation \<Rightarrow> buffer \<Rightarrow> buffer option" where
  "bu_apply_op op b =
     map_option bu_wake
       (case op of
          EditOp e \<Rightarrow>
            (if vclock_observed (bu_version b) (eo_timestamp e) then Some b
             else map_option (\<lambda>b. bu_resolve_edit (eo_timestamp e) (bu_observe_op (eo_timestamp e) b)) (bu_apply_remote_edit e b))
        | UndoOp u \<Rightarrow>
            (if vclock_observed (bu_version b) (uo_timestamp u) then Some b
             else map_option (bu_observe_op (uo_timestamp u)) (bu_apply_undo u b)))"

definition can_apply_op :: "buffer \<Rightarrow> operation \<Rightarrow> bool" where
  "can_apply_op b op \<longleftrightarrow>
     (if op_replica_id op \<in> set (bu_deferred_replicas b) then False else vclock_observed_all (bu_version b) (op_version op))"

definition bu_defer :: "operation \<Rightarrow> buffer \<Rightarrow> buffer" where
  "bu_defer op b = b\<lparr>bu_deferred_replicas := List.insert (op_replica_id op) (bu_deferred_replicas b)\<rparr>"

text \<open>The loop of \<open>flush_deferred_ops\<close>, which is also the second half of the loop of \<open>apply_ops\<close>.\<close>

fun flush_loop :: "operation list \<Rightarrow> buffer \<times> operation list \<Rightarrow> (buffer \<times> operation list) option" where
  "flush_loop [] st = Some st"
| "flush_loop (op # ops) (b, deferred) =
     (if can_apply_op b op then
        case bu_apply_op op b of None \<Rightarrow> None | Some b \<Rightarrow> flush_loop ops (b, deferred)
      else flush_loop ops (bu_defer op b, deferred @ [op]))"

definition bu_insert_deferred :: "operation list \<Rightarrow> buffer \<Rightarrow> buffer option" where
  "bu_insert_deferred ops b =
     map_option (\<lambda>q. b\<lparr>bu_deferred_ops := q\<rparr>) (oq_insert op_timestamp (bu_deferred_ops b) ops)"

definition flush_deferred_ops :: "buffer \<Rightarrow> buffer option" where
  "flush_deferred_ops b = do {
     let b = b\<lparr>bu_deferred_replicas := []\<rparr>;
     let (drained, queue) = oq_drain op_timestamp (bu_deferred_ops b);
     ops \<leftarrow> oq_iter drained;
     (b, deferred) \<leftarrow> flush_loop ops (b\<lparr>bu_deferred_ops := queue\<rparr>, []);
     bu_insert_deferred deferred b }"

fun apply_ops_loop :: "operation list \<Rightarrow> buffer \<times> operation list \<Rightarrow> (buffer \<times> operation list) option" where
  "apply_ops_loop [] st = Some st"
| "apply_ops_loop (op # ops) (b, deferred) =
     (case hi_push (bu_history b) op of
        None \<Rightarrow> None
      | Some h \<Rightarrow>
          let b = b\<lparr>bu_history := h\<rparr> in
          if can_apply_op b op then
            case bu_apply_op op b of None \<Rightarrow> None | Some b \<Rightarrow> apply_ops_loop ops (b, deferred)
          else apply_ops_loop ops (bu_defer op b, deferred @ [op]))"

definition bu_apply_ops :: "operation list \<Rightarrow> buffer \<Rightarrow> buffer option" where
  "bu_apply_ops ops b = do {
     (b, deferred) \<leftarrow> apply_ops_loop ops (b, []);
     b \<leftarrow> bu_insert_deferred deferred b;
     flush_deferred_ops b }"

definition has_deferred_ops :: "buffer \<Rightarrow> bool" where
  "has_deferred_ops b \<longleftrightarrow> \<not> oq_is_empty (bu_deferred_ops b)"

definition deferred_ops_len :: "buffer \<Rightarrow> nat" where
  "deferred_ops_len b = oq_len (bu_deferred_ops b)"


section \<open>Undo and redo\<close>

definition bu_undo_operations :: "(lamport \<times> u32) list \<Rightarrow> buffer \<Rightarrow> (buffer \<times> operation) option" where
  "bu_undo_operations counts b =
     (let (timestamp, b) = bu_tick b;
          undo = \<lparr>uo_timestamp = timestamp, uo_version = bu_version b, uo_counts = counts\<rparr>
      in map_option (\<lambda>b. (b, UndoOp undo)) (bu_apply_undo undo (bu_observe_version timestamp b)))"

text \<open>The counts of a transaction's edits, one higher each; the entries of the hash map are listed in the order
  of the edits.\<close>

fun next_counts :: "undo_map \<Rightarrow> lamport list \<Rightarrow> (lamport \<times> u32) list option" where
  "next_counts undos [] = Some []"
| "next_counts undos (i # ids) =
     (case um_undo_count undos i of
        None \<Rightarrow> None
      | Some n \<Rightarrow> map_option (\<lambda>counts. (i, word_saturating_add n 1) # counts) (next_counts undos ids))"

definition bu_undo_or_redo :: "transaction \<Rightarrow> buffer \<Rightarrow> (buffer \<times> operation) option" where
  "bu_undo_or_redo t b = do {
     counts \<leftarrow> next_counts (sn_undo_map (bu_snapshot b)) (remdups (tr_edit_ids t));
     (b, operation) \<leftarrow> bu_undo_operations counts b;
     h \<leftarrow> hi_push (bu_history b) operation;
     Some (b\<lparr>bu_history := h\<rparr>, operation) }"

definition bu_undo :: "buffer \<Rightarrow> (buffer \<times> (lamport \<times> operation) option) option" where
  "bu_undo b =
     (case hi_pop_undo (bu_history b) of
        None \<Rightarrow> None
      | Some (h, None) \<Rightarrow> Some (b\<lparr>bu_history := h\<rparr>, None)
      | Some (h, Some entry) \<Rightarrow>
          map_option (\<lambda>(b, op). (b, Some (he_id entry, op))) (bu_undo_or_redo (he_transaction entry) (b\<lparr>bu_history := h\<rparr>)))"

definition bu_redo :: "buffer \<Rightarrow> (buffer \<times> (lamport \<times> operation) option) option" where
  "bu_redo b =
     (case hi_pop_redo (bu_history b) of
        None \<Rightarrow> None
      | Some (h, None) \<Rightarrow> Some (b\<lparr>bu_history := h\<rparr>, None)
      | Some (h, Some entry) \<Rightarrow>
          map_option (\<lambda>(b, op). (b, Some (he_id entry, op))) (bu_undo_or_redo (he_transaction entry) (b\<lparr>bu_history := h\<rparr>)))"

definition bu_undo_transaction :: "lamport \<Rightarrow> buffer \<Rightarrow> (buffer \<times> operation option) option" where
  "bu_undo_transaction tid b =
     (case hi_remove_from_undo (bu_history b) tid of
        None \<Rightarrow> None
      | Some (h, None) \<Rightarrow> Some (b\<lparr>bu_history := h\<rparr>, None)
      | Some (h, Some entry) \<Rightarrow>
          map_option (\<lambda>(b, op). (b, Some op)) (bu_undo_or_redo (he_transaction entry) (b\<lparr>bu_history := h\<rparr>)))"

fun undo_or_redo_all :: "transaction list \<Rightarrow> buffer \<times> operation list \<Rightarrow> (buffer \<times> operation list) option" where
  "undo_or_redo_all [] st = Some st"
| "undo_or_redo_all (t # ts) (b, ops) =
     (case bu_undo_or_redo t b of None \<Rightarrow> None | Some (b, op) \<Rightarrow> undo_or_redo_all ts (b, ops @ [op]))"

definition bu_undo_to_transaction :: "lamport \<Rightarrow> buffer \<Rightarrow> (buffer \<times> operation list) option" where
  "bu_undo_to_transaction tid b = do {
     (h, entries) \<leftarrow> hi_remove_from_undo_until (bu_history b) tid;
     undo_or_redo_all (map he_transaction entries) (b\<lparr>bu_history := h\<rparr>, []) }"

definition bu_redo_to_transaction :: "lamport \<Rightarrow> buffer \<Rightarrow> (buffer \<times> operation list) option" where
  "bu_redo_to_transaction tid b = do {
     (h, entries) \<leftarrow> hi_remove_from_redo (bu_history b) tid;
     undo_or_redo_all (map he_transaction entries) (b\<lparr>bu_history := h\<rparr>, []) }"

section \<open>Transactions\<close>

definition bu_finalize_last_transaction :: "buffer \<Rightarrow> buffer \<times> transaction option" where
  "bu_finalize_last_transaction b = (let (h, t) = hi_finalize_last (bu_history b) in (b\<lparr>bu_history := h\<rparr>, t))"

definition bu_group_until_transaction :: "lamport \<Rightarrow> buffer \<Rightarrow> buffer option" where
  "bu_group_until_transaction tid b = map_option (\<lambda>h. b\<lparr>bu_history := h\<rparr>) (hi_group_until (bu_history b) tid)"

definition bu_forget_transaction :: "lamport \<Rightarrow> buffer \<Rightarrow> (buffer \<times> transaction option) option" where
  "bu_forget_transaction tid b = map_option (\<lambda>(h, t). (b\<lparr>bu_history := h\<rparr>, t)) (hi_forget (bu_history b) tid)"

definition bu_get_transaction :: "lamport \<Rightarrow> buffer \<Rightarrow> transaction option" where
  "bu_get_transaction tid b = hi_transaction (bu_history b) tid"

definition bu_merge_transactions :: "lamport \<Rightarrow> lamport \<Rightarrow> buffer \<Rightarrow> buffer option" where
  "bu_merge_transactions tid destination b =
     map_option (\<lambda>h. b\<lparr>bu_history := h\<rparr>) (hi_merge_transactions (bu_history b) tid destination)"

definition bu_push_transaction :: "transaction \<Rightarrow> nat \<Rightarrow> buffer \<Rightarrow> buffer option" where
  "bu_push_transaction t now b = map_option (\<lambda>h. b\<lparr>bu_history := h\<rparr>) (hi_push_transaction (bu_history b) t now)"

definition bu_push_empty_transaction :: "nat \<Rightarrow> buffer \<Rightarrow> (buffer \<times> lamport) option" where
  "bu_push_empty_transaction now b =
     map_option (\<lambda>(h, c, tid). (b\<lparr>bu_history := h, bu_lamport_clock := c\<rparr>, tid))
       (hi_push_empty_transaction (bu_history b) (bu_version b) now (bu_lamport_clock b))"

definition bu_set_group_interval :: "nat \<Rightarrow> buffer \<Rightarrow> buffer" where
  "bu_set_group_interval interval b = b\<lparr>bu_history := (bu_history b)\<lparr>hi_group_interval := interval\<rparr>\<rparr>"

section \<open>Subscribers and waiters\<close>

definition bu_subscribe :: "nat \<Rightarrow> buffer \<Rightarrow> buffer" where
  "bu_subscribe fresh b =
     (let (topic, store) = topic_subscribe (bu_subscriptions b) (bu_patches b) fresh
      in b\<lparr>bu_subscriptions := topic, bu_patches := store\<rparr>)"

text \<open>A waiter gets the channels it has to wait for; the new channels are arguments.\<close>

fun bu_wait_for_edits :: "(lamport \<times> nat) list \<Rightarrow> buffer \<Rightarrow> buffer \<times> nat list" where
  "bu_wait_for_edits [] b = (b, [])"
| "bu_wait_for_edits ((edit_id, tx) # ids) b =
     (if \<not> vclock_observed (bu_version b) edit_id then
        let (b, rxs) = bu_wait_for_edits ids (b\<lparr>bu_edit_id_resolvers := bu_edit_id_resolvers b @ [(edit_id, tx)]\<rparr>)
        in (b, tx # rxs)
      else bu_wait_for_edits ids b)"

definition bu_wait_for_version :: "vclock \<Rightarrow> nat \<Rightarrow> buffer \<Rightarrow> buffer \<times> nat option" where
  "bu_wait_for_version version tx b =
     (if \<not> vclock_observed_all (bu_version b) version
      then (b\<lparr>bu_wait_for_version_txs := bu_wait_for_version_txs b @ [(version, tx)]\<rparr>, Some tx)
      else (b, None))"

definition bu_give_up_waiting :: "buffer \<Rightarrow> buffer" where
  "bu_give_up_waiting b = b\<lparr>bu_edit_id_resolvers := [], bu_wait_for_version_txs := []\<rparr>"

section \<open>Edited snapshots\<close>

record edited_snapshot =
  ed_base_version :: vclock
  ed_snapshot :: snapshot
  ed_did_edit :: bool

definition bu_snapshot_with_edits ::
    "((nat \<times> nat) \<times> string) list \<Rightarrow> buffer \<Rightarrow> (buffer \<times> edited_snapshot) option" where
  "bu_snapshot_with_edits edits b =
     (if edits = [] then Some (b, \<lparr>ed_base_version = bu_version b, ed_snapshot = bu_snapshot b, ed_did_edit = False\<rparr>)
      else
        let (timestamp, b) = bu_tick b in
        map_option (\<lambda>(s, _). (b, \<lparr>ed_base_version = bu_version b,
            ed_snapshot = s\<lparr>sn_version := vclock_observe (sn_version s) timestamp\<rparr>, ed_did_edit = True\<rparr>))
          (apply_edit_internal (bu_snapshot b) edits timestamp))"

definition bu_fast_forward :: "edited_snapshot \<Rightarrow> buffer \<Rightarrow> buffer option" where
  "bu_fast_forward edited b =
     (if vclock_changed_since (bu_version b) (ed_base_version edited) then None
      else Some (b\<lparr>bu_snapshot := ed_snapshot edited,
        bu_lamport_clock := foldl lamport_observe (bu_lamport_clock b) (vclock_iter (sn_version (ed_snapshot edited)))\<rparr>))"

end
