(* ===== verification/Zed_Convergence.thy ===== *)
theory Zed_Convergence
  imports Zed_Weave_Commute Zed_Buffer
begin

text \<open>
  An abstract replica: the cells of the text with the edits that deleted them, and the undo operations
  received.  Operations that do not know of each other commute on it, so any two orders of the same
  operations that respect causality end in the same state.
\<close>

section \<open>The abstract replica\<close>

type_synonym abstract_state = "dcell list \<times> undo_operation set"

definition was_undone_by :: "undo_operation set \<Rightarrow> vclock \<Rightarrow> lamport \<Rightarrow> bool" where
  "was_undone_by us v e \<longleftrightarrow> max_count us e (vclock_observed v) mod 2 = 1"

text \<open>The cell was visible to an author that had observed \<open>v\<close>.\<close>

definition was_shown :: "undo_operation set \<Rightarrow> vclock \<Rightarrow> dcell \<Rightarrow> bool" where
  "was_shown us v x \<longleftrightarrow> vclock_observed v (fst (fst x)) \<and> \<not> was_undone_by us v (fst (fst x)) \<and>
     (\<forall>d \<in> snd x. vclock_observed v d \<longrightarrow> was_undone_by us v d)"

text \<open>The cell is visible now.\<close>

definition now_shown :: "undo_operation set \<Rightarrow> dcell \<Rightarrow> bool" where
  "now_shown us x \<longleftrightarrow> \<not> undone us (fst (fst x)) \<and> (\<forall>d \<in> snd x. undone us d)"

abbreviation edits_of :: "edit_operation \<Rightarrow> text_edits" where
  "edits_of e \<equiv> zip (eo_ranges e) (eo_new_text e)"

fun abs_op :: "operation \<Rightarrow> abstract_state \<Rightarrow> abstract_state" where
  "abs_op (EditOp e) (xs, us) =
     (plain_weave (seen_cell (eo_version e)) (was_shown us (eo_version e)) (eo_timestamp e) (edits_of e) xs, us)"
| "abs_op (UndoOp u) (xs, us) = (xs, insert u us)"

text \<open>The ranges of an edit lie in the text that its author had.\<close>

fun abs_valid :: "operation \<Rightarrow> abstract_state \<Rightarrow> bool" where
  "abs_valid (EditOp e) (xs, us) \<longleftrightarrow> edits_ok (countP (\<lambda>x. seen_cell (eo_version e) (fst x)) xs) 0 (edits_of e)"
| "abs_valid (UndoOp u) (xs, us) \<longleftrightarrow> True"

section \<open>Concurrent operations commute\<close>

definition knows :: "operation \<Rightarrow> operation \<Rightarrow> bool" where
  "knows A B \<longleftrightarrow> vclock_observed (op_version A) (op_timestamp B)"

definition concurrent :: "operation \<Rightarrow> operation \<Rightarrow> bool" where
  "concurrent A B \<longleftrightarrow> \<not> knows A B \<and> \<not> knows B A \<and> op_timestamp A \<noteq> op_timestamp B"

lemma concurrent_sym: "concurrent A B \<Longrightarrow> concurrent B A"
  by (auto simp: concurrent_def)

lemma was_undone_by_insert: "\<not> vclock_observed v (uo_timestamp u) \<Longrightarrow> was_undone_by (insert u us) v e = was_undone_by us v e"
proof -
  assume "\<not> vclock_observed v (uo_timestamp u)"
  then have "max_count (insert u us) e (vclock_observed v) = max_count us e (vclock_observed v)"
    unfolding max_count_def by (intro arg_cong [where f = "\<lambda>S. Max (insert 0 S)"]) blast
  then show ?thesis by (simp add: was_undone_by_def)
qed

lemma was_shown_insert: "\<not> vclock_observed v (uo_timestamp u) \<Longrightarrow> was_shown (insert u us) v = was_shown us v"
  by (auto simp: was_shown_def was_undone_by_insert fun_eq_iff)

lemma was_shown_deleted: "\<not> vclock_observed v t \<Longrightarrow> was_shown us v (c, insert t D) = was_shown us v (c, D)"
  by (auto simp: was_shown_def)

lemma abs_valid_concurrent:
  assumes "\<not> knows A B"
  shows "abs_valid A (abs_op B s) = abs_valid A s"
  using assms countP_plain_weave [of "seen_cell (op_version A)" "op_timestamp B"]
  by (cases A; cases B; cases s) (simp_all add: knows_def)

lemma abs_op_commute:
  assumes "concurrent A B" "abs_valid A s" "abs_valid B s"
  shows "abs_op A (abs_op B s) = abs_op B (abs_op A s)"
proof -
  obtain xs us where s: "s = (xs, us)" by fastforce
  note unseen = assms(1) [unfolded concurrent_def knows_def]
  show ?thesis
  proof (cases A)
    case A: (EditOp e)
    show ?thesis
    proof (cases B)
      case B: (EditOp f)
      have "plain_weave (seen_cell (eo_version e)) (was_shown us (eo_version e)) (eo_timestamp e) (edits_of e)
            (plain_weave (seen_cell (eo_version f)) (was_shown us (eo_version f)) (eo_timestamp f) (edits_of f) xs) =
          plain_weave (seen_cell (eo_version f)) (was_shown us (eo_version f)) (eo_timestamp f) (edits_of f)
            (plain_weave (seen_cell (eo_version e)) (was_shown us (eo_version e)) (eo_timestamp e) (edits_of e) xs)"
        using unseen assms(2,3)
        by (intro plain_weave_commute) (simp_all add: A B s was_shown_deleted)
      then show ?thesis by (simp add: A B s)
    next
      case B: (UndoOp u)
      then show ?thesis using unseen by (simp add: A s was_shown_insert)
    qed
  next
    case A: (UndoOp u)
    then show ?thesis using unseen by (cases B) (simp_all add: s was_shown_insert insert_commute)
  qed
qed

section \<open>Causal orders\<close>

fun valid_run :: "operation list \<Rightarrow> abstract_state \<Rightarrow> bool" where
  "valid_run [] s \<longleftrightarrow> True"
| "valid_run (A # ops) s \<longleftrightarrow> abs_valid A s \<and> valid_run ops (abs_op A s)"

text \<open>No operation knows of a later one.\<close>

definition causal :: "operation list \<Rightarrow> bool" where
  "causal ops \<longleftrightarrow> distinct (map op_timestamp ops) \<and> sorted_wrt (\<lambda>A B. \<not> knows A B) ops"

lemma valid_run_append: "valid_run (xs @ ys) s \<longleftrightarrow> valid_run xs s \<and> valid_run ys (fold abs_op xs s)"
  by (induction xs arbitrary: s) auto

lemma swap_front:
  "\<forall>B \<in> set ops. concurrent A B \<Longrightarrow> abs_valid A s \<Longrightarrow> valid_run ops (abs_op A s) \<Longrightarrow>
     valid_run ops s \<and> abs_valid A (fold abs_op ops s) \<and> fold abs_op ops (abs_op A s) = abs_op A (fold abs_op ops s)"
proof (induction ops arbitrary: s)
  case (Cons B ops)
  have AB: "concurrent A B" "\<not> knows A B" "\<not> knows B A" using Cons.prems(1) by (auto simp: concurrent_def)
  then have B: "abs_valid B s" using Cons.prems(3) by (simp add: abs_valid_concurrent)
  have eq: "abs_op B (abs_op A s) = abs_op A (abs_op B s)"
    using abs_op_commute [OF AB(1) Cons.prems(2) B] by simp
  have "abs_valid A (abs_op B s)" using AB Cons.prems(2) by (simp add: abs_valid_concurrent)
  then show ?case using Cons.IH [of "abs_op B s"] Cons.prems B eq by simp
qed simp

lemma causal_orders_agree:
  assumes "causal xs" "causal ys" "set xs = set ys" "valid_run xs s"
  shows "valid_run ys s \<and> fold abs_op ys s = fold abs_op xs s"
  using assms
proof (induction xs arbitrary: ys s)
  case (Cons A xs)
  then obtain us vs where ys: "ys = us @ A # vs" by (metis list.set_intros(1) split_list)
  have distinct: "distinct (map op_timestamp (us @ A # vs))" "distinct (map op_timestamp (A # xs))"
    using Cons.prems(1,2) by (simp_all add: causal_def ys)
  have sets: "set xs = set (us @ vs)"
  proof -
    have "A \<notin> set us \<union> set vs" "A \<notin> set xs" using distinct by (auto simp: image_iff)
    then show ?thesis using Cons.prems(3) by (auto simp: ys)
  qed
  have conc: "\<forall>B \<in> set us. concurrent A B"
  proof
    fix B assume B: "B \<in> set us"
    then have "\<not> knows B A" using Cons.prems(2) by (auto simp: causal_def ys sorted_wrt_append)
    moreover have "\<not> knows A B" using Cons.prems(1) B sets by (auto simp: causal_def)
    moreover have "op_timestamp A \<noteq> op_timestamp B" using distinct(1) B by (auto simp: image_iff)
    ultimately show "concurrent A B" by (simp add: concurrent_def)
  qed
  have "causal xs" using Cons.prems(1) by (simp add: causal_def)
  moreover have "causal (us @ vs)" using Cons.prems(2) by (auto simp: causal_def ys sorted_wrt_append)
  moreover have "valid_run xs (abs_op A s)" using Cons.prems(4) by simp
  ultimately have IH: "valid_run (us @ vs) (abs_op A s)" "fold abs_op (us @ vs) (abs_op A s) = fold abs_op xs (abs_op A s)"
    using Cons.IH [of "us @ vs" "abs_op A s"] sets by blast+
  have A: "abs_valid A s" "valid_run us (abs_op A s)" using Cons.prems(4) IH(1) by (simp_all add: valid_run_append)
  from swap_front [OF conc A] show ?case using IH by (simp add: ys valid_run_append)
qed (simp add: causal_def)

section \<open>Sizes\<close>

fun text_len :: "operation \<Rightarrow> nat" where
  "text_len (EditOp e) = length (concat (map snd (edits_of e)))"
| "text_len (UndoOp u) = 0"

lemma countP_block: "countP (\<lambda>x. Q (fst (fst x))) (edit_block ts off n) = (if Q ts then n else 0)"
  by (simp add: countP_def filter_map comp_def)

lemma countP_ins_all_ts:
  "countP (\<lambda>x. Q (fst (fst x))) (ins_all P ts off es xs) =
     countP (\<lambda>x. Q (fst (fst x))) xs + (if Q ts then length (concat (map snd es)) else 0)"
proof (induction es arbitrary: off xs)
  case (Cons e es)
  obtain a b t where e: "e = ((a, b), t)" by (cases e) auto
  show ?case by (simp add: e Cons.IH countP_block)
qed simp

lemma countP_abs_op:
  "countP (\<lambda>x. Q (fst (fst x))) (fst (abs_op A s)) =
     countP (\<lambda>x. Q (fst (fst x))) (fst s) + (if Q (op_timestamp A) then text_len A else 0)"
proof (cases s)
  case (Pair xs us)
  have "countP (\<lambda>x. Q (fst (fst x))) (strike P S (mark_deleted W ts) i xs) = countP (\<lambda>x. Q (fst (fst x))) xs" for P S W ts i
    by (rule countP_strike) simp
  then show ?thesis by (cases A) (simp_all add: Pair plain_weave_def countP_ins_all_ts)
qed

lemma countP_run:
  "distinct ops \<Longrightarrow> countP (\<lambda>x. Q (fst (fst x))) (fst (fold abs_op ops s)) =
     countP (\<lambda>x. Q (fst (fst x))) (fst s) + sum text_len {A \<in> set ops. Q (op_timestamp A)}"
proof (induction ops arbitrary: s)
  case (Cons A ops)
  have "{B \<in> set (A # ops). Q (op_timestamp B)} =
      (if Q (op_timestamp A) then insert A {B \<in> set ops. Q (op_timestamp B)} else {B \<in> set ops. Q (op_timestamp B)})"
    by auto
  then show ?case using Cons by (simp add: countP_abs_op)
qed simp

end
