(* ===== verification/Zed_Replica.thy ===== *)
theory Zed_Replica
  imports Zed_Convergence
begin

text \<open>
  A buffer tracks a run of the abstract replica: its fragments are the abstract cells, with the edits that
  deleted them, and its undo map represents the undo operations of the run.  Local edits, remote edits
  and undo each extend the run by the operation they apply.
\<close>

section \<open>Runs\<close>

definition base_state :: "string \<Rightarrow> abstract_state" where
  "base_state base = (map (\<lambda>i. ((base_insertion, i), {})) [0 ..< length base], {})"

abbreviation run :: "string \<Rightarrow> operation list \<Rightarrow> abstract_state" where
  "run base log \<equiv> fold abs_op log (base_state base)"

fun add_text :: "operation \<Rightarrow> (lamport \<Rightarrow> string) \<Rightarrow> (lamport \<Rightarrow> string)" where
  "add_text (EditOp e) ins = ins(eo_timestamp e := concat (eo_new_text e))"
| "add_text (UndoOp u) ins = ins"

abbreviation texts_of :: "string \<Rightarrow> operation list \<Rightarrow> lamport \<Rightarrow> string" where
  "texts_of base log \<equiv> fold add_text log ((\<lambda>_. [])(base_insertion := base))"

lemma texts_of_old: "\<forall>e. EditOp e \<in> set log \<longrightarrow> eo_timestamp e \<noteq> t \<Longrightarrow> fold add_text log ins t = ins t"
proof (induction log arbitrary: ins)
  case (Cons A log)
  have "add_text A ins t = ins t" using Cons.prems by (cases A) auto
  then show ?case using Cons by simp
qed simp

lemma texts_of_edit:
  "distinct (map op_timestamp log) \<Longrightarrow> EditOp e \<in> set log \<Longrightarrow> fold add_text log ins (eo_timestamp e) = concat (eo_new_text e)"
proof (induction log arbitrary: ins)
  case (Cons A log)
  show ?case
  proof (cases "EditOp e \<in> set log")
    case False
    then have A: "A = EditOp e" using Cons.prems(2) by simp
    have "eo_timestamp f \<noteq> eo_timestamp e" if "EditOp f \<in> set log" for f
      using Cons.prems(1) imageI [OF that, of op_timestamp] by (auto simp: A)
    then show ?thesis using texts_of_old [of log "eo_timestamp e"] by (simp add: A)
  qed (use Cons in simp)
qed simp

lemma texts_of_set:
  assumes "distinct (map op_timestamp xs)" "distinct (map op_timestamp ys)" "set xs = set ys"
  shows "fold add_text xs ins = fold add_text ys ins"
proof
  fix t
  show "fold add_text xs ins t = fold add_text ys ins t"
  proof (cases "\<exists>e. EditOp e \<in> set xs \<and> eo_timestamp e = t")
    case True
    then show ?thesis using texts_of_edit [OF assms(1)] texts_of_edit [OF assms(2)] assms(3) by auto
  next
    case False
    then show ?thesis using texts_of_old [of xs t] texts_of_old [of ys t] assms(3) by simp
  qed
qed

lemma run_undos: "snd (fold abs_op log s) = snd s \<union> {u. UndoOp u \<in> set log}"
proof (induction log arbitrary: s)
  case (Cons A log)
  have "snd (abs_op A s) = snd s \<union> {u. UndoOp u = A}" by (cases A; cases s) auto
  then show ?case using Cons by auto
qed simp

section \<open>Timestamps in a run\<close>

lemma set_strike: "set (strike P S g i xs) \<subseteq> set xs \<union> g ` set xs"
  by (induction xs arbitrary: i) auto

lemma set_ins_all: "set (ins_all P ts off es xs) \<subseteq> set xs \<union> {((ts, i), {}) | i. True}"
proof (induction es arbitrary: off xs)
  case (Cons e es)
  obtain a b t where e: "e = ((a, b), t)" by (cases e) auto
  show ?case using Cons.IH unfolding e ins_all.simps by fastforce
qed simp

definition within_stamps :: "lamport set \<Rightarrow> dcell list \<Rightarrow> bool" where
  "within_stamps T xs \<longleftrightarrow> (\<forall>x \<in> set xs. fst (fst x) \<in> T \<and> snd x \<subseteq> T)"

lemma within_stamps_op:
  assumes "within_stamps T (fst s)" "op_timestamp A \<in> T"
  shows "within_stamps T (fst (abs_op A s))"
proof (cases A)
  case (EditOp e)
  obtain xs us where s: "s = (xs, us)" by fastforce
  have step: "within_stamps T (plain_weave P W ts es xs)" if "ts \<in> T" for P W ts es
    unfolding within_stamps_def
  proof
    fix x assume "x \<in> set (plain_weave P W ts es xs)"
    then consider "x \<in> set (strike (\<lambda>x. P (fst x)) (in_ranges es) (mark_deleted W ts) 0 xs)" | i where "x = ((ts, i), {})"
      unfolding plain_weave_def using set_ins_all by blast
    then show "fst (fst x) \<in> T \<and> snd x \<subseteq> T"
    proof cases
      case 1
      then have "x \<in> set xs \<union> mark_deleted W ts ` set xs" by (rule subsetD [OF set_strike])
      then obtain y where y: "y \<in> set xs" "x = y \<or> x = mark_deleted W ts y" by blast
      then have "fst x = fst y" "snd x \<subseteq> insert ts (snd y)" by (auto simp: mark_deleted_def split: if_splits)
      moreover have "fst (fst y) \<in> T" "snd y \<subseteq> T" using assms(1) y(1) by (simp_all add: s within_stamps_def)
      ultimately show ?thesis using that by auto
    qed (use that in simp)
  qed
  show ?thesis unfolding EditOp s abs_op.simps fst_conv by (rule step) (use assms(2) in \<open>simp add: EditOp\<close>)
next
  case (UndoOp u)
  then show ?thesis using assms by (cases s) simp
qed

lemma run_stamps: "within_stamps (insert base_insertion (op_timestamp ` set log)) (fst (run base log))"
proof -
  have "within_stamps T (fst s) \<Longrightarrow> op_timestamp ` set log \<subseteq> T \<Longrightarrow> within_stamps T (fst (fold abs_op log s))" for T s
  proof (induction log arbitrary: s)
    case (Cons A log)
    have "within_stamps T (fst (abs_op A s))" by (rule within_stamps_op) (use Cons.prems in simp_all)
    then show ?case using Cons.IH [of "abs_op A s"] Cons.prems(2) by simp
  qed simp
  moreover have "within_stamps (insert base_insertion (op_timestamp ` set log)) (fst (base_state base))"
    by (simp add: within_stamps_def base_state_def)
  ultimately show ?thesis by blast
qed

section \<open>Tracking\<close>

text \<open>Every live subscription holds a patch that leads to the current text.\<close>

definition publish_ok :: "buffer \<Rightarrow> bool" where
  "publish_ok b \<longleftrightarrow> distinct (bu_subscriptions b) \<and> (\<forall>s \<in> set (bu_subscriptions b). \<forall>p. bu_patches b s = Some p \<longrightarrow>
     (\<exists>old. patch_rel 0 0 p old (sn_visible_text (bu_snapshot b))))"

definition low :: "snapshot \<Rightarrow> bool" where
  "low s \<longleftrightarrow> st_height (sn_undo_map s) < 16"

definition tracks :: "string \<Rightarrow> operation list \<Rightarrow> snapshot \<Rightarrow> bool" where
  "tracks base log s \<longleftrightarrow> buffer_ok (texts_of base log) (snd (run base log)) s \<and> clocks_ok s \<and> low s \<and>
     map plain (flagged (sn_fragments s)) = fst (run base log)"

lemma plain_old_cells: "map plain_old (old_cells W fs) = map plain (flagged fs)"
  unfolding kept_old_cells [of W fs, symmetric] by (simp add: comp_def)

lemma plain_cells: "length (map plain (flagged fs)) = length (cells fs)"
  using flagged_cells(1) [of fs] by (metis length_map)

lemma fragment_in_plain:
  assumes "f \<in> set fs" "0 < fr_len f"
  shows "((fr_timestamp f, fr_insertion_offset f), set (fr_deletions f)) \<in> set (map plain (flagged fs))"
proof -
  have "(fr_timestamp f, fr_insertion_offset f) \<in> set (fr_cells f)" using assms(2) by (simp add: fr_cells_def)
  then have "((fr_timestamp f, fr_insertion_offset f), fr_mark f) \<in> set (flagged fs)"
    using assms(1) by (auto simp: flagged_def)
  moreover have "plain ((fr_timestamp f, fr_insertion_offset f), fr_mark f) =
      ((fr_timestamp f, fr_insertion_offset f), set (fr_deletions f))" by (simp add: plain_def)
  ultimately show ?thesis by (metis image_eqI set_map)
qed

lemma tracks_stamps:
  assumes "tracks base log s" "f \<in> set (sn_fragments s)"
  shows "touching f \<subseteq> insert base_insertion (op_timestamp ` set log)"
proof -
  have "0 < fr_len f" using assms by (auto simp: tracks_def buffer_ok_def snapshot_ok_def fr_fits_def)
  from fragment_in_plain [OF assms(2) this] have
    "((fr_timestamp f, fr_insertion_offset f), set (fr_deletions f)) \<in> set (fst (run base log))"
    using assms(1) unfolding tracks_def by metis
  then show ?thesis using run_stamps [of log base] by (force simp: within_stamps_def touching_def)
qed

text \<open>The text a run shows.\<close>

definition run_text :: "string \<Rightarrow> operation list \<Rightarrow> string" where
  "run_text base log = (case run base log of (xs, us) \<Rightarrow> cell_text (texts_of base log) (map fst (filter (now_shown us) xs)))"

definition run_deleted :: "string \<Rightarrow> operation list \<Rightarrow> string" where
  "run_deleted base log =
     (case run base log of (xs, us) \<Rightarrow> cell_text (texts_of base log) (map fst (filter (\<lambda>x. \<not> now_shown us x) xs)))"

lemma shown_plain: "x \<in> set (fr_cells f) \<Longrightarrow> now_shown us (plain (x, fr_mark f)) = shown us f"
  by (auto simp: now_shown_def shown_def plain_def fr_cells_def)

lemma filter_plain:
  "map fst (filter (\<lambda>x. Q (now_shown us x)) (map plain (flagged fs))) = cells (filter (\<lambda>f. Q (shown us f)) fs)"
proof (induction fs)
  case (Cons f fs)
  have "map fst (filter (\<lambda>x. Q (now_shown us x)) (map plain (map (\<lambda>c. (c, fr_mark f)) cs))) = (if Q (shown us f) then cs else [])"
    if "set cs \<subseteq> set (fr_cells f)" for cs
    using that by (induction cs) (auto simp: shown_plain, simp add: plain_def)
  then show ?case using Cons by (simp add: comp_def)
qed simp

lemma tracks_text:
  assumes "tracks base log s"
  shows "sn_visible_text s = run_text base log" "sn_deleted_text s = run_deleted base log"
proof -
  obtain xs us where r: "run base log = (xs, us)" by fastforce
  have ok: "buffer_ok (texts_of base log) us s" "map plain (flagged (sn_fragments s)) = xs"
    using assms by (simp_all add: tracks_def r)
  show "sn_visible_text s = run_text base log"
    using buffer_ok_text [OF ok(1)] filter_plain [of "\<lambda>b. b" us "sn_fragments s"] ok(2) by (simp add: run_text_def r)
  have "dcells (sn_fragments s) = cells (filter (\<lambda>f. \<not> shown us f) (sn_fragments s))" by (rule dcells_shown [OF ok(1)])
  then show "sn_deleted_text s = run_deleted base log"
    using ok filter_plain [of Not us "sn_fragments s"] by (simp add: run_deleted_def r buffer_ok_def snapshot_ok_def)
qed


section \<open>Remote edits\<close>

lemma countP_plain: "countP (\<lambda>x. seen_cell v (fst x)) (map plain (flagged fs)) = versioned_len v fs"
  unfolding observed_old_cells [of v "\<lambda>_. True" fs, symmetric] plain_old_cells [of "\<lambda>_. True", symmetric] countP_map
  by (simp add: countP_def observed_count_def)

lemma was_visible_shown:
  assumes "um_ok (sn_undo_map s)" "low s" "um_represents (sn_undo_map s) us"
  shows "was_visible s v f \<longleftrightarrow> was_shown us v ((fr_timestamp f, i), set (fr_deletions f))"
proof -
  have u: "um_was_undone (sn_undo_map s) e v = Some (was_undone_by us v e)" for e
    using um_counts_represents [OF assms(1) _ assms(3)] assms(2)
    by (simp add: um_was_undone_def was_undone_by_def low_def)
  have "all_deletions (\<lambda>d. if \<not> vclock_observed v d then Some True else um_was_undone (sn_undo_map s) d v) (fr_deletions f) =
      Some (\<forall>d \<in> set (fr_deletions f). \<not> vclock_observed v d \<or> was_undone_by us v d)"
    by (intro all_deletions_all) (simp add: u)
  then show ?thesis by (auto simp: was_visible_def fragment_was_visible_def was_shown_def u)
qed

lemma old_cells_mem: "y \<in> set (old_cells W fs) \<Longrightarrow> \<exists>f \<in> set fs. \<exists>i. y = ((fr_timestamp f, i), fr_mark f, W f)"
  by (auto simp: old_cells_def fr_cells_def)

lemma old_cells_weavable:
  assumes "\<And>f i. f \<in> set fs \<Longrightarrow> V f = W ((fr_timestamp f, i), set (fr_deletions f))" "\<forall>f \<in> set fs. fr_timestamp f \<noteq> ts"
    and "\<And>f i. f \<in> set fs \<Longrightarrow> P (fr_timestamp f, i) \<Longrightarrow> fr_timestamp f < ts" "\<And>x. W x \<Longrightarrow> P (fst x)"
  shows "weavable P W ts (old_cells V fs)"
  unfolding weavable_def
proof
  fix y assume "y \<in> set (old_cells V fs)"
  then obtain f i where y: "f \<in> set fs" "y = ((fr_timestamp f, i), fr_mark f, V f)" using old_cells_mem by blast
  show "fst (fst y) \<noteq> ts \<and> (P (fst y) \<longrightarrow> fst (fst y) < ts) \<and> snd (snd y) = W (plain_old y) \<and> (W (plain_old y) \<longrightarrow> P (fst y))"
    using assms(1) [OF y(1), of i] assms(2,3) y(1) assms(4) [of "plain_old y"] by (auto simp: y(2) plain_old_def)
qed

lemma run_snoc: "run base (log @ [A]) = abs_op A (run base log)" "texts_of base (log @ [A]) = add_text A (texts_of base log)"
  by simp_all

lemma remote_edit_weave:
  assumes "snapshot_ok ins s" "ts \<notin> fr_timestamp ` set (sn_fragments s)" "um_ok (sn_undo_map s)" "low s"
    and "um_represents (sn_undo_map s) us" and own: "\<not> vclock_observed v ts"
    and older: "\<forall>f \<in> set (sn_fragments s). vclock_observed v (fr_timestamp f) \<longrightarrow> fr_timestamp f < ts"
    and es: "length ranges = length texts" "edits_ok (versioned_len v (sn_fragments s)) 0 (zip ranges texts)" "length (concat texts) < 2 ^ 32"
    and r: "apply_remote_edit s v ranges texts ts = Some (s', p)"
  shows "map plain (flagged (sn_fragments s')) =
    plain_weave (seen_cell v) (was_shown us v) ts (zip ranges texts) (map plain (flagged (sn_fragments s)))"
proof -
  let ?fs = "sn_fragments s" and ?ys = "old_cells (was_visible s v) (sn_fragments s)"
  have "flagged (sn_fragments s') = weave (seen_cell v) (\<lambda>c. ts < fst c) ts 0 0 (zip ranges texts) ?ys"
    using remote_edit [OF assms(1-3) _ older es] assms(4) r by (auto simp: low_def)
  moreover have "weavable (seen_cell v) (was_shown us v) ts ?ys"
  proof (rule old_cells_weavable)
    show "was_visible s v f = was_shown us v ((fr_timestamp f, i), set (fr_deletions f))" for f i
      by (rule was_visible_shown [OF assms(3-5)])
  qed (use assms(2) older in \<open>auto simp: was_shown_def\<close>)
  moreover have "edits_ok (countP (\<lambda>y. seen_cell v (fst y)) ?ys) 0 (zip ranges texts)"
    using es(2) unfolding observed_old_cells [of v "was_visible s v", symmetric] by (simp add: countP_def observed_count_def)
  ultimately show ?thesis using weave_plain [of "seen_cell v" ts] own by (simp add: plain_old_cells)
qed

text \<open>What the timestamp and the version of an edit have to satisfy at a buffer with the given log.\<close>

definition edit_fresh :: "operation list \<Rightarrow> edit_operation \<Rightarrow> bool" where
  "edit_fresh log e \<longleftrightarrow> base_insertion < eo_timestamp e \<and> eo_timestamp e \<notin> op_timestamp ` set log \<and>
     \<not> vclock_observed (eo_version e) (eo_timestamp e) \<and>
     (\<forall>t \<in> insert base_insertion (op_timestamp ` set log). vclock_observed (eo_version e) t \<longrightarrow> t < eo_timestamp e) \<and>
     (\<forall>u. UndoOp u \<in> set log \<longrightarrow> eo_timestamp e \<notin> fst ` set (uo_counts u))"

lemma base_above_min: "LAMPORT_MIN < base_insertion"
  by (simp add: LAMPORT_MIN_def base_insertion_def lamport_new_def less_lamport_iff)

lemma edit_fresh_buffer:
  assumes "tracks base log s" "edit_fresh log e"
  shows "LAMPORT_MIN < eo_timestamp e" "\<forall>u \<in> snd (run base log). eo_timestamp e \<notin> fst ` set (uo_counts u)"
    "\<forall>f \<in> set (sn_fragments s). eo_timestamp e \<notin> touching f"
    "\<forall>f \<in> set (sn_fragments s). vclock_observed (eo_version e) (fr_timestamp f) \<longrightarrow> fr_timestamp f < eo_timestamp e"
proof -
  show "LAMPORT_MIN < eo_timestamp e" using assms(2) base_above_min by (auto simp: edit_fresh_def)
  show "\<forall>u \<in> snd (run base log). eo_timestamp e \<notin> fst ` set (uo_counts u)"
    using assms(2) unfolding run_undos by (auto simp: edit_fresh_def base_state_def)
  have ne: "eo_timestamp e \<notin> insert base_insertion (op_timestamp ` set log)" using assms(2) by (auto simp: edit_fresh_def)
  then show "\<forall>f \<in> set (sn_fragments s). eo_timestamp e \<notin> touching f" using tracks_stamps [OF assms(1)] by blast
  have "fr_timestamp f \<in> insert base_insertion (op_timestamp ` set log)" if "f \<in> set (sn_fragments s)" for f
    using tracks_stamps [OF assms(1) that] by (auto simp: touching_def)
  moreover have "\<forall>t \<in> insert base_insertion (op_timestamp ` set log). vclock_observed (eo_version e) t \<longrightarrow> t < eo_timestamp e"
    using assms(2) unfolding edit_fresh_def by (elim conjE)
  ultimately show "\<forall>f \<in> set (sn_fragments s). vclock_observed (eo_version e) (fr_timestamp f) \<longrightarrow> fr_timestamp f < eo_timestamp e"
    by (metis (no_types, lifting))
qed

lemma run_edit: "run base log = (xs, us) \<Longrightarrow> run base (log @ [EditOp e]) =
    (plain_weave (seen_cell (eo_version e)) (was_shown us (eo_version e)) (eo_timestamp e) (edits_of e) xs, us)"
  by simp

lemma tracks_remote_edit:
  assumes t: "tracks base log s" and fresh: "edit_fresh log e" and valid: "abs_valid (EditOp e) (run base log)"
    and es: "length (eo_ranges e) = length (eo_new_text e)" "length (concat (eo_new_text e)) < 2 ^ 32"
  shows "\<exists>s' p. apply_remote_edit s (eo_version e) (eo_ranges e) (eo_new_text e) (eo_timestamp e) = Some (s', p) \<and>
    tracks base (log @ [EditOp e]) s' \<and> patch_rel 0 0 p (sn_visible_text s) (sn_visible_text s')"
proof -
  obtain xs us where r: "run base log = (xs, us)" by fastforce
  have ok: "buffer_ok (texts_of base log) us s" "clocks_ok s" "low s" "map plain (flagged (sn_fragments s)) = xs"
    using t by (simp_all add: tracks_def r)
  note f = edit_fresh_buffer [OF t fresh, unfolded r snd_conv]
  have valid: "edits_ok (versioned_len (eo_version e) (sn_fragments s)) 0 (edits_of e)"
    using valid ok(4) by (simp add: r flip: countP_plain)
  from remote_edit_buffer [OF ok(1,2) _ f es(1) valid es(2)] ok(3) obtain s' p where
    s': "apply_remote_edit s (eo_version e) (eo_ranges e) (eo_new_text e) (eo_timestamp e) = Some (s', p)"
      "buffer_ok ((texts_of base log)(eo_timestamp e := concat (eo_new_text e))) us s'" "clocks_ok s'"
      "patch_rel 0 0 p (sn_visible_text s) (sn_visible_text s')" by (auto simp: low_def)
  have "snapshot_ok (texts_of base log) s" "eo_timestamp e \<notin> fr_timestamp ` set (sn_fragments s)" "um_ok (sn_undo_map s)"
      "um_represents (sn_undo_map s) us" "\<not> vclock_observed (eo_version e) (eo_timestamp e)"
    using ok(1) f(3) fresh by (auto simp: buffer_ok_def touching_def edit_fresh_def)
  from remote_edit_weave [OF this(1-3) ok(3) this(4,5) f(4) es(1) valid es(2) s'(1)]
  have "map plain (flagged (sn_fragments s')) =
      plain_weave (seen_cell (eo_version e)) (was_shown us (eo_version e)) (eo_timestamp e) (edits_of e) xs" by (simp add: ok(4))
  moreover have "sn_undo_map s' = sn_undo_map s"
    using s'(1) by (auto simp: apply_remote_edit_def split: list.splits option.splits prod.splits)
  ultimately have "tracks base (log @ [EditOp e]) s'"
    using s' ok(3) unfolding tracks_def run_edit [OF r] by (simp add: low_def)
  with s' show ?thesis by blast
qed

section \<open>Local edits\<close>

lemma split_observed_cong:
  "\<forall>y \<in> set ys. P (fst y) = Q (fst y) \<Longrightarrow> split_observed P n ys = split_observed Q n ys"
  by (induction P n ys rule: split_observed.induct) auto

lemma split_observed_set: "split_observed P n ys = (l, r) \<Longrightarrow> set r \<subseteq> set ys"
  by (induction P n ys arbitrary: l r rule: split_observed.induct) (fastforce simp: Let_def split: prod.splits if_splits)+

lemma weave_cong:
  "\<forall>y \<in> set ys. P (fst y) = Q (fst y) \<Longrightarrow> weave P newer ts off i es ys = weave Q newer ts off i es ys"
proof (induction P newer ts off i es ys rule: weave.induct)
  case (2 P newer ts off i a b t es ys)
  obtain before ys1 where s1: "split_observed P (a - i) ys = (before, ys1)" by fastforce
  let ?ys2 = "dropWhile (\<lambda>x. newer (fst x)) ys1"
  obtain range rest where s2: "split_observed P (b - a) ?ys2 = (range, rest)" by fastforce
  have sub: "set ?ys2 \<subseteq> set ys" "set rest \<subseteq> set ys"
    using split_observed_set [OF s1] split_observed_set [OF s2] set_dropWhileD by fastforce+
  have Q: "split_observed Q (a - i) ys = (before, ys1)" "split_observed Q (b - a) ?ys2 = (range, rest)"
  proof -
    show "split_observed Q (a - i) ys = (before, ys1)" using split_observed_cong [OF 2(2)] s1 by simp
    have "\<forall>y \<in> set ?ys2. P (fst y) = Q (fst y)" using 2(2) sub(1) by blast
    from split_observed_cong [OF this] show "split_observed Q (b - a) ?ys2 = (range, rest)" using s2 by simp
  qed
  have "\<forall>y \<in> set rest. P (fst y) = Q (fst y)" using 2(2) sub by blast
  then have "weave P newer ts (off + length t) b es rest = weave Q newer ts (off + length t) b es rest"
    using 2(1) [OF s1 [symmetric] refl refl s2 [symmetric]] by blast
  then show ?case by (simp add: s1 s2 Q)
qed simp

text \<open>The version of a replica observes its whole log.\<close>

definition observes_log :: "vclock \<Rightarrow> operation list \<Rightarrow> bool" where
  "observes_log v log \<longleftrightarrow> (\<forall>t \<in> insert base_insertion (op_timestamp ` set log). vclock_observed v t)"

lemma was_shown_now:
  assumes "observes_log v log" "x \<in> set (fst (run base log))"
  shows "was_shown (snd (run base log)) v x = now_shown (snd (run base log)) x"
proof -
  let ?us = "snd (run base log)"
  have "vclock_observed v (uo_timestamp u)" if "u \<in> ?us" for u
    using that assms(1) imageI [of "UndoOp u" "set log" op_timestamp] unfolding run_undos
    by (auto simp: observes_log_def base_state_def)
  then have "{n. \<exists>u \<in> ?us. vclock_observed v (uo_timestamp u) \<and> (d, n) \<in> set (uo_counts u)} =
      {n. \<exists>u \<in> ?us. True \<and> (d, n) \<in> set (uo_counts u)}" for d by blast
  then have "was_undone_by ?us v d = undone ?us d" for d by (simp only: was_undone_by_def undone_def max_count_def)
  moreover have "fst (fst x) \<in> insert base_insertion (op_timestamp ` set log)" "snd x \<subseteq> insert base_insertion (op_timestamp ` set log)"
    using run_stamps [of log base] assms(2) by (auto simp: within_stamps_def)
  then have "vclock_observed v (fst (fst x))" "\<forall>d \<in> snd x. vclock_observed v d" using assms(1) unfolding observes_log_def by blast+
  ultimately show ?thesis by (simp add: was_shown_def now_shown_def)
qed

lemma countP_all: "\<forall>x \<in> set xs. P x \<Longrightarrow> countP P xs = length xs"
  by (induction xs) auto

lemma countP_run_all: "observes_log v log \<Longrightarrow> countP (\<lambda>x. seen_cell v (fst x)) (fst (run base log)) = length (fst (run base log))"
  using run_stamps [of log base] by (intro countP_all) (auto simp: within_stamps_def observes_log_def)

lemma local_edit_plain:
  assumes t: "tracks base log s" and obs: "observes_log (eo_version e) log" and fresh: "edit_fresh log e"
    and es: "edits_ok (length (sn_visible_text s)) 0 es" "length (concat (edit_texts es)) < 2 ^ 32"
    and r: "apply_edit_internal s es (eo_timestamp e) = Some (s', eo_ranges e, eo_new_text e, p)"
  shows "map plain (flagged (sn_fragments s')) = fst (run base (log @ [EditOp e])) \<and> abs_valid (EditOp e) (run base log) \<and>
    length (eo_ranges e) = length (eo_new_text e) \<and> eo_new_text e = edit_texts es"
proof -
  let ?v = "eo_version e" and ?ts = "eo_timestamp e" and ?fs = "sn_fragments s"
  obtain xs us where run: "run base log = (xs, us)" by fastforce
  have ok: "buffer_ok (texts_of base log) us s" "clocks_ok s" "low s" "map plain (flagged ?fs) = xs"
    using t by (simp_all add: tracks_def run)
  note f = edit_fresh_buffer [OF t fresh, unfolded run snd_conv]
  have seen: "vclock_observed ?v (fr_timestamp f)" if "f \<in> set ?fs" for f
    using tracks_stamps [OF t that] obs by (auto simp: touching_def observes_log_def)
  have newest: "\<forall>f \<in> set ?fs. fr_timestamp f < ?ts" using f(4) seen by blast
  have "snapshot_ok (texts_of base log) s" using ok(1) by (simp add: buffer_ok_def)
  from local_edit_weave [OF this newest es r] have
    w: "flagged (sn_fragments s') = lwoven ?ts 0 0 (edits_of e) (lcells ?fs)" "length (eo_ranges e) = length (eo_new_text e)"
      "eo_new_text e = edit_texts es" "edits_ok (length (cells ?fs)) 0 (edits_of e)" by blast+
  have "\<forall>y \<in> set (lcells ?fs). True = seen_cell ?v (fst y)" using seen by (auto dest!: old_cells_mem)
  then have eq: "flagged (sn_fragments s') = weave (seen_cell ?v) (\<lambda>c. ?ts < fst c) ?ts 0 0 (edits_of e) (lcells ?fs)"
    unfolding w(1) by (rule weave_cong)
  have weavable: "weavable (seen_cell ?v) (was_shown us ?v) ?ts (lcells ?fs)"
  proof (rule old_cells_weavable)
    fix f i assume mem: "f \<in> set ?fs"
    have "0 < fr_len f" using ok(1) mem by (auto simp: buffer_ok_def snapshot_ok_def fr_fits_def)
    from fragment_in_plain [OF mem this] have "((fr_timestamp f, fr_insertion_offset f), set (fr_deletions f)) \<in> set (fst (run base log))"
      unfolding ok(4) run fst_conv .
    from was_shown_now [OF obs this] have
      "was_shown us ?v ((fr_timestamp f, i), set (fr_deletions f)) = shown us f"
      by (simp add: run was_shown_def now_shown_def shown_def)
    then show "fr_visible f = was_shown us ?v ((fr_timestamp f, i), set (fr_deletions f))"
      using ok(1) mem by (simp add: buffer_ok_def)
  qed (use f(3) newest in \<open>auto simp: touching_def was_shown_def\<close>)
  have len: "countP (\<lambda>y. seen_cell ?v (fst y)) (lcells ?fs) = length (cells ?fs)"
  proof -
    have "countP (\<lambda>y. seen_cell ?v (fst y)) (lcells ?fs) = length (lcells ?fs)"
      using seen by (intro countP_all) (auto dest!: old_cells_mem)
    then show ?thesis using plain_old_cells [of fr_visible ?fs] plain_cells [of ?fs] by (metis length_map)
  qed
  have "map plain (flagged (sn_fragments s')) = plain_weave (seen_cell ?v) (was_shown us ?v) ?ts (edits_of e) xs"
    using weave_plain [of "seen_cell ?v" ?ts, OF _ weavable] w(4) fresh unfolding eq len
    by (simp add: edit_fresh_def plain_old_cells ok(4))
  moreover have "countP (\<lambda>x. seen_cell ?v (fst x)) xs = length (cells ?fs)"
    using countP_run_all [OF obs, of base] plain_cells [of ?fs] by (simp add: run ok(4))
  ultimately show ?thesis using w run_edit [OF run] by (simp add: run)
qed

lemma tracks_local_edit:
  assumes t: "tracks base log s" and obs: "observes_log (eo_version e) log" and fresh: "edit_fresh log e"
    and es: "edits_ok (length (sn_visible_text s)) 0 es" "length (concat (edit_texts es)) < 2 ^ 32"
    and r: "apply_edit_internal s es (eo_timestamp e) = Some (s', eo_ranges e, eo_new_text e, p)"
  shows "tracks base (log @ [EditOp e]) s' \<and> patch_rel 0 0 p (sn_visible_text s) (sn_visible_text s') \<and>
    sn_visible_text s' = splice 0 es (sn_visible_text s)"
proof -
  obtain xs us where run: "run base log = (xs, us)" by fastforce
  have ok: "buffer_ok (texts_of base log) us s" "clocks_ok s" "low s"
    using t by (simp_all add: tracks_def run)
  note f = edit_fresh_buffer [OF t fresh, unfolded run snd_conv]
  from local_edit_buffer [OF ok(1,2) f(1-3) es] r
  have s': "local_edit_result (texts_of base log) s es (eo_timestamp e) s' (eo_ranges e) (eo_new_text e) p"
      "buffer_ok ((texts_of base log)(eo_timestamp e := concat (eo_new_text e))) us s'" "clocks_ok s'" by auto
  have "sn_undo_map s' = sn_undo_map s"
    using r by (auto simp: apply_edit_internal_def split: list.splits option.splits prod.splits)
  then have "tracks base (log @ [EditOp e]) s'"
    using s' ok(3) local_edit_plain [OF assms] run_edit [OF run] by (simp add: tracks_def low_def)
  then show ?thesis using s'(1) unfolding local_edit_result_def by blast
qed

lemma local_edit_returns:
  assumes t: "tracks base log s" and fresh: "edit_fresh log e"
    and es: "edits_ok (length (sn_visible_text s)) 0 es" "length (concat (edit_texts es)) < 2 ^ 32"
  shows "\<exists>s' rs texts p. apply_edit_internal s es (eo_timestamp e) = Some (s', rs, texts, p)"
proof -
  obtain xs us where run: "run base log = (xs, us)" by fastforce
  have ok: "buffer_ok (texts_of base log) us s" "clocks_ok s" using t by (simp_all add: tracks_def run)
  from local_edit_buffer [OF ok edit_fresh_buffer(1-3) [OF t fresh, unfolded run snd_conv] es] show ?thesis by blast
qed

section \<open>Undo operations\<close>

text \<open>What an undo operation has to satisfy at a buffer with the given log.\<close>

definition undo_fresh :: "operation list \<Rightarrow> undo_operation \<Rightarrow> bool" where
  "undo_fresh log u \<longleftrightarrow> distinct (map fst (uo_counts u)) \<and> base_insertion \<notin> fst ` set (uo_counts u) \<and>
     uo_timestamp u \<notin> op_timestamp ` set log"

lemma tracks_undo:
  assumes t: "tracks base log s" and fresh: "undo_fresh log u" and low: "shallow (sn_undo_map s) u"
  shows "\<exists>s' p. apply_undo s u = Some (s', p) \<and> tracks base (log @ [UndoOp u]) s' \<and>
    patch_rel 0 0 p (sn_visible_text s) (sn_visible_text s')"
proof -
  obtain xs us where r: "run base log = (xs, us)" by fastforce
  have ok: "buffer_ok (texts_of base log) us s" "clocks_ok s" "low s" "map plain (flagged (sn_fragments s)) = xs"
    using t by (simp_all add: tracks_def r)
  have "uo_timestamp u' \<noteq> uo_timestamp u" if "u' \<in> us" for u'
  proof -
    have "UndoOp u' \<in> set log" using that run_undos [of log "base_state base"] unfolding r by (simp add: base_state_def)
    from imageI [OF this, of op_timestamp] show ?thesis using fresh by (auto simp: undo_fresh_def)
  qed
  then have "undo_ok us u" using fresh by (auto simp: undo_ok_def undo_fresh_def)
  from undo_once [OF ok(1,2) _ this low] ok(3) obtain s' p where s': "apply_undo s u = Some (s', p)"
      "buffer_ok (texts_of base log) (insert u us) s'" "clocks_ok s'" "low s'"
      "map fr_core (sn_fragments s') = map fr_core (sn_fragments s)"
      "patch_rel 0 0 p (sn_visible_text s) (sn_visible_text s')" unfolding low_def by metis
  have "map plain (flagged fs) = map plain (flagged (map fr_core fs))" for fs
    by (induction fs) (simp_all add: plain_def fr_mark_def fr_core_def fr_cells_def)
  from this [of "sn_fragments s'"] this [of "sn_fragments s"] s'(5)
  have "map plain (flagged (sn_fragments s')) = xs" using ok(4) by simp
  then have "tracks base (log @ [UndoOp u]) s'" using s' by (simp add: tracks_def r)
  then show ?thesis using s' by blast
qed

end
