(* ===== verification/Zed_Buffer_Effects.thy ===== *)
theory Zed_Buffer_Effects
  imports Zed_Replica
begin

text \<open>
  What the operations of a buffer do to the fields that matter for convergence: the snapshot, the clock,
  the subscriptions and the edits in the history.
\<close>

section \<open>The edits a history refers to\<close>

definition stack_ids :: "history_entry list \<Rightarrow> lamport set" where
  "stack_ids es = (\<Union>e \<in> set es. set (he_edit_ids e))"

definition hist_ids :: "history \<Rightarrow> lamport set" where
  "hist_ids h = stack_ids (hi_undo_stack h) \<union> stack_ids (hi_redo_stack h)"

lemma stack_ids_simps [simp]:
  "stack_ids [] = {}" "stack_ids (e # es) = set (he_edit_ids e) \<union> stack_ids es" "stack_ids (es @ es') = stack_ids es \<union> stack_ids es'"
  by (auto simp: stack_ids_def)

lemma hist_ids_start: "hi_start_transaction h v now c = (h', c', t) \<Longrightarrow> hist_ids h' = hist_ids h"
  by (auto simp: hi_start_transaction_def hist_ids_def Let_def split: if_splits prod.splits)

lemma hist_ids_push: "hi_push h op = Some h' \<Longrightarrow> hist_ids h' = hist_ids h"
  by (auto simp: hi_push_def hist_ids_def)

lemma hist_ids_push_undo: "hi_push_undo h t = Some h' \<Longrightarrow> hist_ids h' \<subseteq> insert t (hist_ids h)"
  by (cases "hi_undo_stack h" rule: rev_cases)
    (auto simp: hi_push_undo_def hist_ids_def split: if_splits option.splits operation.splits)

lemma hist_ids_end: "hi_end_transaction h now = Some (h', e) \<Longrightarrow> hist_ids h' \<subseteq> hist_ids h"
  by (cases "hi_undo_stack h" rule: rev_cases)
    (auto simp: hi_end_transaction_def hist_ids_def Let_def split: if_splits)

lemma stack_ids_take_drop: "stack_ids es = stack_ids (take n es) \<union> stack_ids (drop n es)"
  by (metis append_take_drop_id stack_ids_simps(3))

lemma hist_ids_group_trailing: "hi_group_trailing h n = Some (h', t) \<Longrightarrow> hist_ids h' \<subseteq> hist_ids h"
proof -
  assume r: "hi_group_trailing h n = Some (h', t)"
  define keep where "keep = take (length (hi_undo_stack h) - n) (hi_undo_stack h)"
  define merge where "merge = drop (length (hi_undo_stack h) - n) (hi_undo_stack h)"
  have all: "stack_ids (hi_undo_stack h) = stack_ids keep \<union> stack_ids merge"
    unfolding keep_def merge_def by (rule stack_ids_take_drop)
  have ids: "set (concat (map he_edit_ids merge)) = stack_ids merge" by (simp add: stack_ids_def)
  define keep' where "keep' = (if keep = [] then keep else
      let last_entry = add_edit_ids (concat (map he_edit_ids merge)) (last keep);
          last_entry = (if merge = [] then last_entry else last_entry\<lparr>he_last_edit_at := he_last_edit_at (last merge)\<rparr>)
      in butlast keep @ [last_entry])"
  have "stack_ids keep' \<subseteq> stack_ids keep \<union> stack_ids merge"
    using ids by (cases keep rule: rev_cases) (auto simp: keep'_def Let_def)
  moreover have "hi_group_trailing h n = (if length (hi_undo_stack h) < n then None
      else Some (h\<lparr>hi_undo_stack := keep'\<rparr>, if keep' = [] then None else Some (he_id (last keep'))))"
    unfolding hi_group_trailing_def Let_def keep_def merge_def keep'_def by (rule refl)
  then have "h' = h\<lparr>hi_undo_stack := keep'\<rparr>" using r by (simp split: if_splits)
  ultimately show ?thesis using all by (auto simp: hist_ids_def)
qed

lemma hist_ids_group: "hi_group h = Some (h', t) \<Longrightarrow> hist_ids h' \<subseteq> hist_ids h"
  unfolding hi_group_def by (rule hist_ids_group_trailing)

lemma hist_ids_pop_undo:
  "hi_pop_undo h = Some (h', e) \<Longrightarrow> hist_ids h' \<subseteq> hist_ids h \<and> (\<forall>x. e = Some x \<longrightarrow> set (he_edit_ids x) \<subseteq> hist_ids h)"
  by (cases "hi_undo_stack h" rule: rev_cases) (auto simp: hi_pop_undo_def hist_ids_def Let_def split: if_splits)

lemma hist_ids_pop_redo:
  "hi_pop_redo h = Some (h', e) \<Longrightarrow> hist_ids h' \<subseteq> hist_ids h \<and> (\<forall>x. e = Some x \<longrightarrow> set (he_edit_ids x) \<subseteq> hist_ids h)"
  by (cases "hi_redo_stack h" rule: rev_cases) (auto simp: hi_pop_redo_def hist_ids_def Let_def split: if_splits)

section \<open>What the operations of a buffer do\<close>

definition emitted_edit :: "text_edits \<Rightarrow> buffer \<Rightarrow> edit_operation \<Rightarrow> buffer \<Rightarrow> bool" where
  "emitted_edit edits b e b' \<longleftrightarrow> (\<exists>s p. eo_version e = bu_version b \<and>
     eo_timestamp e \<in> {bu_lamport_clock b, snd (lamport_tick (bu_lamport_clock b))} \<and>
     apply_edit_internal (bu_snapshot b) edits (eo_timestamp e) = Some (s, eo_ranges e, eo_new_text e, p) \<and>
     bu_snapshot b' = s\<lparr>sn_version := vclock_observe (sn_version s) (eo_timestamp e)\<rparr> \<and>
     bu_lamport_clock b' = snd (lamport_tick (eo_timestamp e)) \<and>
     topic_publish (bu_subscriptions b) (bu_patches b) p = Some (bu_subscriptions b', bu_patches b') \<and>
     hist_ids (bu_history b') \<subseteq> insert (eo_timestamp e) (hist_ids (bu_history b)))"

lemma bu_end_transaction_fields:
  assumes "bu_end_transaction_at now b = Some (b', r)"
  shows "bu_snapshot b' = bu_snapshot b" "bu_lamport_clock b' = bu_lamport_clock b"
    "bu_subscriptions b' = bu_subscriptions b" "bu_patches b' = bu_patches b"
    "hist_ids (bu_history b') \<subseteq> hist_ids (bu_history b)"
  using assms hist_ids_end [of "bu_history b" now] hist_ids_group
  by (fastforce simp: bu_end_transaction_at_def split: option.splits prod.splits)+

lemma bu_edit_emits:
  assumes "bu_edit edits now now' b = Some (b', op)"
  shows "\<exists>e. op = EditOp e \<and> emitted_edit edits b e b'"
proof -
  obtain h0 c0 t where st: "hi_start_transaction (bu_history b) (bu_version b) now (bu_lamport_clock b) = (h0, c0, t)" by (metis prod_cases3)
  have c0: "c0 \<in> {bu_lamport_clock b, snd (lamport_tick (bu_lamport_clock b))}"
    using st by (auto simp: hi_start_transaction_def Let_def split: if_splits prod.splits)
  define b1 where "b1 = b\<lparr>bu_history := h0, bu_lamport_clock := snd (lamport_tick c0)\<rparr>"
  obtain b2 e where 2: "bu_apply_local_edit edits c0 b1 = Some (b2, e)"
    using assms st
    by (auto simp: bu_edit_def bu_start_transaction_at_def bu_tick_def Let_def lamport_tick_def b1_def split: Option.bind_splits)
  obtain h1 where 3: "hi_push (bu_history b2) (EditOp e) = Some h1"
    using assms st 2
    by (auto simp: bu_edit_def bu_start_transaction_at_def bu_tick_def Let_def lamport_tick_def b1_def split: Option.bind_splits)
  obtain h2 where 4: "hi_push_undo h1 (eo_timestamp e) = Some h2"
    using assms st 2 3
    by (auto simp: bu_edit_def bu_start_transaction_at_def bu_tick_def Let_def lamport_tick_def b1_def split: Option.bind_splits)
  have 5: "\<exists>r. bu_end_transaction_at now' (bu_observe_version (eo_timestamp e) (b2\<lparr>bu_history := h2\<rparr>)) = Some (b', r) \<and> op = EditOp e"
    using assms st 2 3 4
    by (auto simp: bu_edit_def bu_start_transaction_at_def bu_tick_def Let_def lamport_tick_def b1_def split: Option.bind_splits)
  obtain s p where s: "apply_edit_internal (bu_snapshot b) edits c0 = Some (s, eo_ranges e, eo_new_text e, p)"
      "eo_timestamp e = c0" "eo_version e = bu_version b" "bu_publish p (b1\<lparr>bu_snapshot := s\<rparr>) = Some b2"
    using 2 by (auto simp: bu_apply_local_edit_def b1_def split: option.splits prod.splits)
  obtain topic store where pub: "topic_publish (bu_subscriptions b) (bu_patches b) p = Some (topic, store)"
      "b2 = b1\<lparr>bu_snapshot := s, bu_subscriptions := topic, bu_patches := store\<rparr>"
    using s(4) by (auto simp: bu_publish_def b1_def)
  have "hist_ids (bu_history b') \<subseteq> insert c0 (hist_ids (bu_history b))"
    using 5 bu_end_transaction_fields(5) hist_ids_push_undo [OF 4] hist_ids_push [OF 3] hist_ids_start [OF st]
    by (fastforce simp: bu_observe_version_def pub(2) b1_def s(2))
  moreover have "bu_snapshot b' = s\<lparr>sn_version := vclock_observe (sn_version s) c0\<rparr>" "bu_lamport_clock b' = snd (lamport_tick c0)"
      "bu_subscriptions b' = topic" "bu_patches b' = store"
    using 5 bu_end_transaction_fields(1-4) by (fastforce simp: bu_observe_version_def pub(2) b1_def s(2))+
  ultimately show ?thesis using 5 s pub(1) c0 unfolding emitted_edit_def by blast
qed

lemma next_counts_ids: "next_counts undos ids = Some counts \<Longrightarrow> map fst counts = ids"
  by (induction ids arbitrary: counts) (auto split: option.splits)

lemma apply_undo_version:
  "apply_undo (s\<lparr>sn_version := v\<rparr>) u = map_option (\<lambda>(s', p). (s'\<lparr>sn_version := v\<rparr>, p)) (apply_undo s u)"
  by (simp add: apply_undo_def fragment_ids_for_edits_def Let_def split: option.splits prod.splits)

definition emitted_undo :: "buffer \<Rightarrow> undo_operation \<Rightarrow> buffer \<Rightarrow> bool" where
  "emitted_undo b u b' \<longleftrightarrow> (\<exists>s p. uo_version u = bu_version b \<and> uo_timestamp u = bu_lamport_clock b \<and>
     distinct (map fst (uo_counts u)) \<and> fst ` set (uo_counts u) \<subseteq> hist_ids (bu_history b) \<and>
     apply_undo (bu_snapshot b) u = Some (s, p) \<and>
     bu_snapshot b' = s\<lparr>sn_version := vclock_observe (bu_version b) (uo_timestamp u)\<rparr> \<and>
     bu_lamport_clock b' = snd (lamport_tick (bu_lamport_clock b)) \<and>
     topic_publish (bu_subscriptions b) (bu_patches b) p = Some (bu_subscriptions b', bu_patches b') \<and>
     hist_ids (bu_history b') \<subseteq> hist_ids (bu_history b))"

lemma bu_undo_or_redo_emits:
  assumes "bu_undo_or_redo t (b\<lparr>bu_history := h\<rparr>) = Some (b', op)"
    and "hist_ids h \<subseteq> hist_ids (bu_history b)" "set (tr_edit_ids t) \<subseteq> hist_ids (bu_history b)"
  shows "\<exists>u. op = UndoOp u \<and> emitted_undo b u b'"
proof -
  obtain counts where 1: "next_counts (sn_undo_map (bu_snapshot b)) (remdups (tr_edit_ids t)) = Some counts"
    using assms(1) by (auto simp: bu_undo_or_redo_def split: Option.bind_splits)
  define u where "u = \<lparr>uo_timestamp = bu_lamport_clock b, uo_version = bu_version b, uo_counts = counts\<rparr>"
  define b1 where "b1 = b\<lparr>bu_history := h, bu_lamport_clock := snd (lamport_tick (bu_lamport_clock b)),
      bu_snapshot := (bu_snapshot b)\<lparr>sn_version := vclock_observe (bu_version b) (bu_lamport_clock b)\<rparr>\<rparr>"
  have ops: "bu_undo_operations counts (b\<lparr>bu_history := h\<rparr>) = map_option (\<lambda>b. (b, UndoOp u)) (bu_apply_undo u b1)"
    by (simp add: bu_undo_operations_def bu_tick_def lamport_tick_def bu_observe_version_def Let_def u_def b1_def)
  obtain b2 where b2: "bu_apply_undo u b1 = Some b2"
    using assms(1) 1 ops by (cases "bu_apply_undo u b1") (simp_all add: bu_undo_or_redo_def)
  obtain h2 where h2: "hi_push (bu_history b2) (UndoOp u) = Some h2"
    using assms(1) 1 ops b2 by (cases "hi_push (bu_history b2) (UndoOp u)") (simp_all add: bu_undo_or_redo_def)
  have "b' = b2\<lparr>bu_history := h2\<rparr>" "op = UndoOp u"
    using assms(1) 1 ops b2 h2 by (simp_all add: bu_undo_or_redo_def)
  note 2 = b2 h2 this
  obtain s p where s: "apply_undo (bu_snapshot b) u = Some (s, p)"
      "bu_publish p (b1\<lparr>bu_snapshot := s\<lparr>sn_version := vclock_observe (bu_version b) (bu_lamport_clock b)\<rparr>\<rparr>) = Some b2"
    using 2(1) by (auto simp: bu_apply_undo_def b1_def apply_undo_version split: option.splits prod.splits)
  obtain topic store where pub: "topic_publish (bu_subscriptions b) (bu_patches b) p = Some (topic, store)"
      "b2 = b1\<lparr>bu_snapshot := s\<lparr>sn_version := vclock_observe (bu_version b) (bu_lamport_clock b)\<rparr>,
        bu_subscriptions := topic, bu_patches := store\<rparr>"
    using s(2) by (auto simp: bu_publish_def b1_def)
  have keys: "map fst counts = remdups (tr_edit_ids t)" by (rule next_counts_ids [OF 1])
  then have "fst ` set counts = set (tr_edit_ids t)" by (metis list.set_map set_remdups)
  moreover have "distinct (map fst counts)" by (simp add: keys)
  ultimately have "emitted_undo b u b'"
    using s(1) pub assms(2,3) hist_ids_push [OF 2(2)] unfolding emitted_undo_def
    by (intro exI [of _ s] exI [of _ p]) (simp add: u_def 2(3) b1_def)
  then show ?thesis using 2(4) by blast
qed

lemma bu_undo_emits:
  assumes "bu_undo b = Some (b', r)"
  shows "(case r of None \<Rightarrow> \<exists>h. b' = b\<lparr>bu_history := h\<rparr> \<and> hist_ids h \<subseteq> hist_ids (bu_history b)
    | Some (_, op) \<Rightarrow> \<exists>u. op = UndoOp u \<and> emitted_undo b u b')"
  using assms hist_ids_pop_undo [of "bu_history b"]
  by (auto simp: bu_undo_def split: option.splits dest!: bu_undo_or_redo_emits)

lemma bu_redo_emits:
  assumes "bu_redo b = Some (b', r)"
  shows "(case r of None \<Rightarrow> \<exists>h. b' = b\<lparr>bu_history := h\<rparr> \<and> hist_ids h \<subseteq> hist_ids (bu_history b)
    | Some (_, op) \<Rightarrow> \<exists>u. op = UndoOp u \<and> emitted_undo b u b')"
  using assms hist_ids_pop_redo [of "bu_history b"]
  by (auto simp: bu_redo_def split: option.splits dest!: bu_undo_or_redo_emits)

section \<open>Publishing\<close>

lemma publish_ok_patch:
  assumes "publish_ok b" "patch_rel 0 0 p (sn_visible_text (bu_snapshot b)) (sn_visible_text s)"
  shows "\<exists>topic store. topic_publish (bu_subscriptions b) (bu_patches b) p = Some (topic, store) \<and>
    (\<forall>b'. bu_subscriptions b' = topic \<and> bu_patches b' = store \<and> sn_visible_text (bu_snapshot b') = sn_visible_text s \<longrightarrow> publish_ok b')"
proof -
  let ?topic = "bu_subscriptions b" and ?text = "sn_visible_text (bu_snapshot b)"
  have "\<forall>t. \<exists>old. t \<in> set ?topic \<longrightarrow> (\<forall>q. bu_patches b t = Some q \<longrightarrow> patch_rel 0 0 q old ?text)"
    using assms(1) unfolding publish_ok_def by (metis option.inject)
  then obtain seen where seen: "\<forall>t \<in> set ?topic. \<forall>q. bu_patches b t = Some q \<longrightarrow> patch_rel 0 0 q (seen t) ?text" by metis
  have dist: "distinct ?topic" using assms(1) by (simp add: publish_ok_def)
  from topic_publish [OF assms(2) dist seen] obtain store where
    "topic_publish ?topic (bu_patches b) p = Some (filter (\<lambda>t. bu_patches b t \<noteq> None) ?topic, store)"
    "\<forall>t \<in> set ?topic. \<forall>q. store t = Some q \<longrightarrow> patch_rel 0 0 q (seen t) (sn_visible_text s) \<and> patch_new_ok q" by blast
  then show ?thesis using dist by (fastforce simp: publish_ok_def)
qed

section \<open>Applying operations of other replicas\<close>

lemma tracks_version [simp]: "tracks base log (s\<lparr>sn_version := v\<rparr>) = tracks base log s"
  by (simp add: tracks_def buffer_ok_def snapshot_ok_def clocks_ok_def low_def)

lemma bu_wake_fields [simp]:
  "bu_snapshot (bu_wake b) = bu_snapshot b" "bu_lamport_clock (bu_wake b) = bu_lamport_clock b"
  "bu_subscriptions (bu_wake b) = bu_subscriptions b" "bu_patches (bu_wake b) = bu_patches b"
  "bu_history (bu_wake b) = bu_history b"
  by (simp_all add: bu_wake_def)

lemma bu_resolve_fields [simp]:
  "bu_snapshot (bu_resolve_edit t b) = bu_snapshot b" "bu_lamport_clock (bu_resolve_edit t b) = bu_lamport_clock b"
  "bu_subscriptions (bu_resolve_edit t b) = bu_subscriptions b" "bu_patches (bu_resolve_edit t b) = bu_patches b"
  "bu_history (bu_resolve_edit t b) = bu_history b"
  by (simp_all add: bu_resolve_edit_def)

lemma publish_ok_cong:
  "bu_subscriptions b' = bu_subscriptions b \<Longrightarrow> bu_patches b' = bu_patches b \<Longrightarrow>
    sn_visible_text (bu_snapshot b') = sn_visible_text (bu_snapshot b) \<Longrightarrow> publish_ok b' = publish_ok b"
  by (simp add: publish_ok_def)

text \<open>What an operation has to satisfy to extend a log.\<close>

fun op_ready :: "string \<Rightarrow> operation list \<Rightarrow> snapshot \<Rightarrow> operation \<Rightarrow> bool" where
  "op_ready base log s (EditOp e) \<longleftrightarrow> edit_fresh log e \<and> abs_valid (EditOp e) (run base log) \<and>
     length (eo_ranges e) = length (eo_new_text e) \<and> length (concat (eo_new_text e)) < 2 ^ 32"
| "op_ready base log s (UndoOp u) \<longleftrightarrow> undo_fresh log u \<and> shallow (sn_undo_map s) u"

definition applied :: "string \<Rightarrow> operation list \<Rightarrow> buffer \<Rightarrow> operation \<Rightarrow> buffer \<Rightarrow> bool" where
  "applied base log b op b' \<longleftrightarrow> tracks base (log @ [op]) (bu_snapshot b') \<and> publish_ok b' \<and>
     bu_version b' = vclock_observe (bu_version b) (op_timestamp op) \<and>
     bu_lamport_clock b' = lamport_observe (bu_lamport_clock b) (op_timestamp op) \<and> bu_history b' = bu_history b"

lemma tracks_no_ranges:
  assumes "tracks base log s" "op_ready base log s (EditOp e)" "eo_ranges e = []"
  shows "tracks base (log @ [EditOp e]) s"
proof -
  have "apply_remote_edit s (eo_version e) (eo_ranges e) (eo_new_text e) (eo_timestamp e) = Some (s, [])"
    using assms(3) by (simp add: apply_remote_edit_def)
  then show ?thesis using tracks_remote_edit [OF assms(1), of e] assms(2) by simp
qed

lemma bu_apply_op_applied:
  assumes t: "tracks base log (bu_snapshot b)" "publish_ok b" and ready: "op_ready base log (bu_snapshot b) op"
    and new: "\<not> vclock_observed (bu_version b) (op_timestamp op)"
  shows "\<exists>b'. bu_apply_op op b = Some b' \<and> applied base log b op b'"
proof (cases op)
  case (EditOp e)
  let ?ts = "eo_timestamp e"
  show ?thesis
  proof (cases "eo_ranges e = []")
    case True
    have "tracks base (log @ [EditOp e]) (bu_snapshot b)" using tracks_no_ranges [OF t(1) _ True] ready EditOp by simp
    then have "applied base log b op (bu_wake (bu_resolve_edit ?ts (bu_observe_op ?ts b)))"
      using t(2) by (simp add: applied_def EditOp bu_observe_op_def bu_observe_version_def publish_ok_def)
    then show ?thesis using new True by (simp add: bu_apply_op_def EditOp bu_apply_remote_edit_def)
  next
    case False
    obtain s p where s: "apply_remote_edit (bu_snapshot b) (eo_version e) (eo_ranges e) (eo_new_text e) ?ts = Some (s, p)"
        "tracks base (log @ [EditOp e]) s" "patch_rel 0 0 p (sn_visible_text (bu_snapshot b)) (sn_visible_text s)"
      using tracks_remote_edit [OF t(1), of e] ready unfolding EditOp op_ready.simps by blast
    have v: "sn_version s = bu_version b"
      using s(1) by (auto simp: apply_remote_edit_def split: list.splits option.splits prod.splits)
    from publish_ok_patch [OF t(2) s(3)] obtain topic store where
      pub: "topic_publish (bu_subscriptions b) (bu_patches b) p = Some (topic, store)"
        "\<And>b'. bu_subscriptions b' = topic \<Longrightarrow> bu_patches b' = store \<Longrightarrow> sn_visible_text (bu_snapshot b') = sn_visible_text s \<Longrightarrow> publish_ok b'"
      by blast
    let ?b = "bu_wake (bu_resolve_edit ?ts (bu_observe_op ?ts (b\<lparr>bu_snapshot := s, bu_subscriptions := topic, bu_patches := store\<rparr>)))"
    have "bu_apply_op op b = Some ?b"
      using new False s(1) pub(1) by (simp add: bu_apply_op_def EditOp bu_apply_remote_edit_def bu_publish_def)
    moreover have "applied base log b op ?b"
      using s(2) v by (simp add: applied_def EditOp bu_observe_op_def bu_observe_version_def pub(2))
    ultimately show ?thesis by blast
  qed
next
  case (UndoOp u)
  let ?ts = "uo_timestamp u"
  obtain s p where s: "apply_undo (bu_snapshot b) u = Some (s, p)" "tracks base (log @ [UndoOp u]) s"
      "patch_rel 0 0 p (sn_visible_text (bu_snapshot b)) (sn_visible_text s)"
    using tracks_undo [OF t(1), of u] ready unfolding UndoOp op_ready.simps by blast
  have v: "sn_version s = bu_version b" using s(1) by (auto simp: apply_undo_def Let_def split: option.splits prod.splits)
  from publish_ok_patch [OF t(2) s(3)] obtain topic store where
    pub: "topic_publish (bu_subscriptions b) (bu_patches b) p = Some (topic, store)"
      "\<And>b'. bu_subscriptions b' = topic \<Longrightarrow> bu_patches b' = store \<Longrightarrow> sn_visible_text (bu_snapshot b') = sn_visible_text s \<Longrightarrow> publish_ok b'"
    by blast
  let ?b = "bu_wake (bu_observe_op ?ts (b\<lparr>bu_snapshot := s, bu_subscriptions := topic, bu_patches := store\<rparr>))"
  have "bu_apply_op op b = Some ?b"
    using new s(1) pub(1) by (simp add: bu_apply_op_def UndoOp bu_apply_undo_def bu_publish_def)
  moreover have "applied base log b op ?b"
    using s(2) v by (simp add: applied_def UndoOp bu_observe_op_def bu_observe_version_def pub(2))
  ultimately show ?thesis by blast
qed

section \<open>Local edits return\<close>

definition hist_ready :: "history \<Rightarrow> bool" where
  "hist_ready h \<longleftrightarrow> (0 < hi_depth h \<longrightarrow> hi_undo_stack h \<noteq> []) \<and> tm_ok (hi_operations h) \<and> st_height (hi_operations h) < 16"

lemma end_transaction_returns:
  assumes "hi_depth (bu_history b) \<noteq> 0" "hi_undo_stack (bu_history b) \<noteq> []"
  shows "bu_end_transaction_at now b \<noteq> None"
proof -
  have none: "hi_undo_stack h = []" if "hi_group h = None" for h using hi_group [of h] that by auto
  have some: "hi_undo_stack h = []" if "hi_group h = Some (h', None)" for h h' using hi_group [of h] that by auto
  show ?thesis
    using assms by (auto simp: bu_end_transaction_at_def hi_end_transaction_def Let_def split: option.splits dest!: none some)
qed

lemma history_edit_returns:
  assumes "hist_ready h" "hi_start_transaction h v now c = (h0, c0, t)"
  obtains h1 h2 where "hi_push h0 op = Some h1" "hi_push_undo h1 i = Some h2" "hi_depth h2 \<noteq> 0" "hi_undo_stack h2 \<noteq> []"
proof -
  have 0: "hi_depth h0 \<noteq> 0" "hi_undo_stack h0 \<noteq> []" "hi_operations h0 = hi_operations h"
    using assms by (auto simp: hi_start_transaction_def hist_ready_def Let_def split: if_splits prod.splits)
  obtain ops where "tm_insert (hi_operations h) (op_timestamp op) op = Some ops"
    using tm_insert_abs [of "hi_operations h" "op_timestamp op" op] assms(1) by (auto simp: hist_ready_def)
  then have 1: "hi_push h0 op = Some (h0\<lparr>hi_operations := ops\<rparr>)" using 0 by (simp add: hi_push_def)
  have "\<exists>h2. hi_push_undo (h0\<lparr>hi_operations := ops\<rparr>) i = Some h2 \<and> hi_depth h2 \<noteq> 0 \<and> hi_undo_stack h2 \<noteq> []"
    using 0 by (auto simp: hi_push_undo_def split: option.splits operation.splits)
  then show thesis using that [OF 1] by blast
qed

lemma bu_edit_returns:
  assumes "hist_ready (bu_history b)" "publish_ok b"
    and edit: "\<And>t. t \<in> {bu_lamport_clock b, snd (lamport_tick (bu_lamport_clock b))} \<Longrightarrow>
      \<exists>s rs texts p. apply_edit_internal (bu_snapshot b) edits t = Some (s, rs, texts, p) \<and>
        patch_rel 0 0 p (sn_visible_text (bu_snapshot b)) (sn_visible_text s)"
  shows "\<exists>b' op. bu_edit edits now now' b = Some (b', op)"
proof -
  obtain h0 c0 t where st: "hi_start_transaction (bu_history b) (bu_version b) now (bu_lamport_clock b) = (h0, c0, t)" by (metis prod_cases3)
  have "c0 \<in> {bu_lamport_clock b, snd (lamport_tick (bu_lamport_clock b))}"
    using st by (auto simp: hi_start_transaction_def Let_def split: if_splits prod.splits)
  then obtain s rs texts p where s: "apply_edit_internal (bu_snapshot b) edits c0 = Some (s, rs, texts, p)"
      "patch_rel 0 0 p (sn_visible_text (bu_snapshot b)) (sn_visible_text s)" using edit by blast
  obtain topic store where pub: "topic_publish (bu_subscriptions b) (bu_patches b) p = Some (topic, store)"
    using publish_ok_patch [OF assms(2) s(2)] by blast
  define e where "e = \<lparr>eo_timestamp = c0, eo_version = bu_version b, eo_ranges = rs, eo_new_text = texts\<rparr>"
  obtain h1 h2 where h: "hi_push h0 (EditOp e) = Some h1" "hi_push_undo h1 c0 = Some h2" "hi_depth h2 \<noteq> 0" "hi_undo_stack h2 \<noteq> []"
    by (rule history_edit_returns [OF assms(1) st])
  define b2 where "b2 = b\<lparr>bu_history := h0, bu_lamport_clock := snd (lamport_tick c0), bu_snapshot := s,
      bu_subscriptions := topic, bu_patches := store\<rparr>"
  have local: "bu_apply_local_edit edits c0 (b\<lparr>bu_history := h0, bu_lamport_clock := snd (lamport_tick c0)\<rparr>) = Some (b2, e)"
    using s(1) pub by (simp add: bu_apply_local_edit_def bu_publish_def b2_def e_def)
  have "bu_end_transaction_at now' (bu_observe_version c0 (b2\<lparr>bu_history := h2\<rparr>)) \<noteq> None"
    using h(3,4) by (intro end_transaction_returns) (simp_all add: bu_observe_version_def)
  then obtain b3 r where "bu_end_transaction_at now' (bu_observe_version c0 (b2\<lparr>bu_history := h2\<rparr>)) = Some (b3, r)" by auto
  then show ?thesis
    using st local h(1,2) by (simp add: bu_edit_def bu_start_transaction_at_def bu_tick_def lamport_tick_def Let_def b2_def e_def)
qed

end
