(* ===== verification/Zed_Network.thy ===== *)
theory Zed_Network
  imports Zed_Buffer_Effects
begin

text \<open>
  A network of replicas of one buffer.  Each replica edits, undoes and redoes on its own, and applies the
  operations of the others in any order that causality admits.  Every reachable network satisfies an
  invariant from which convergence follows: replicas whose versions agree have the same text.
\<close>

section \<open>The network\<close>

record network =
  nw_replicas :: "replica_id \<Rightarrow> buffer"
  nw_sent :: "operation list"

abbreviation put_replica :: "replica_id \<Rightarrow> buffer \<Rightarrow> operation list \<Rightarrow> network \<Rightarrow> network" where
  "put_replica i b ops n \<equiv> n\<lparr>nw_replicas := (nw_replicas n)(i := b), nw_sent := ops @ nw_sent n\<rparr>"

text \<open>The clock is not about to wrap: an edit ticks it twice, the other operations once.\<close>

definition ticks :: "lamport \<Rightarrow> bool" where
  "ticks t \<longleftrightarrow> lam_value t < - 2"

text \<open>The fields of a buffer that keep track of what was received.\<close>

definition books :: "(lamport, operation) tree_map \<Rightarrow> operation operation_queue \<Rightarrow> replica_id list \<Rightarrow> buffer \<Rightarrow> buffer" where
  "books operations deferred replicas b = b\<lparr>bu_history := (bu_history b)\<lparr>hi_operations := operations\<rparr>,
     bu_deferred_ops := deferred, bu_deferred_replicas := replicas\<rparr>"

inductive net_step :: "network \<Rightarrow> network \<Rightarrow> bool" where
  edit: "\<lbrakk>b = nw_replicas n i; ticks (bu_lamport_clock b); edits_ok (length (sn_visible_text (bu_snapshot b))) 0 edits;
      length (concat (edit_texts edits)) < 2 ^ 32; bu_edit edits now now' b = Some (b', op)\<rbrakk> \<Longrightarrow>
    net_step n (put_replica i b' [op] n)"
| undo: "\<lbrakk>b = nw_replicas n i; ticks (bu_lamport_clock b); bu_undo b = Some (b', Some (t, op)); low (bu_snapshot b')\<rbrakk> \<Longrightarrow>
    net_step n (put_replica i b' [op] n)"
| redo: "\<lbrakk>b = nw_replicas n i; ticks (bu_lamport_clock b); bu_redo b = Some (b', Some (t, op)); low (bu_snapshot b')\<rbrakk> \<Longrightarrow>
    net_step n (put_replica i b' [op] n)"
| deliver: "\<lbrakk>b = nw_replicas n i; op \<in> set (nw_sent n); ticks (bu_lamport_clock b); ticks (op_timestamp op);
      can_apply_op b op; bu_apply_op op b = Some b'; low (bu_snapshot b')\<rbrakk> \<Longrightarrow>
    net_step n (put_replica i b' [] n)"
| start_transaction: "\<lbrakk>b = nw_replicas n i; ticks (bu_lamport_clock b); bu_start_transaction_at now b = (b', r)\<rbrakk> \<Longrightarrow>
    net_step n (put_replica i b' [] n)"
| end_transaction: "\<lbrakk>b = nw_replicas n i; bu_end_transaction_at now b = Some (b', r)\<rbrakk> \<Longrightarrow>
    net_step n (put_replica i b' [] n)"
| books: "net_step n (put_replica i (books operations deferred replicas (nw_replicas n i)) [] n)"

text \<open>The replicas start from the same text.\<close>

inductive reachable :: "string \<Rightarrow> network \<Rightarrow> bool" for base :: string where
  start: "\<lbrakk>base \<noteq> []; length base < 2 ^ 32; \<forall>i. \<exists>interval. bu_new_normalized i interval base = Some (nw_replicas n i);
      nw_sent n = []\<rbrakk> \<Longrightarrow> reachable base n"
| step: "\<lbrakk>reachable base n; net_step n n'\<rbrakk> \<Longrightarrow> reachable base n'"

section \<open>The operations sent\<close>

fun op_sound :: "string \<Rightarrow> operation set \<Rightarrow> operation \<Rightarrow> bool" where
  "op_sound base S (EditOp e) \<longleftrightarrow> length (eo_ranges e) = length (eo_new_text e) \<and> length (concat (eo_new_text e)) < 2 ^ 32 \<and>
     edits_ok (length base + sum text_len {B \<in> S. knows (EditOp e) B}) 0 (edits_of e)"
| "op_sound base S (UndoOp u) \<longleftrightarrow> distinct (map fst (uo_counts u)) \<and>
     (\<forall>k \<in> fst ` set (uo_counts u). k \<noteq> base_insertion \<and> vclock_observed (uo_version u) k)"

text \<open>Versions cover exactly what their author knew: the causes are older, and each replica knows its own
  operations.\<close>

definition sent_ok :: "string \<Rightarrow> operation set \<Rightarrow> bool" where
  "sent_ok base S \<longleftrightarrow> inj_on op_timestamp S \<and>
     (\<forall>A \<in> S. vclock_wf (op_version A) \<and> vclock_observed (op_version A) base_insertion \<and> base_insertion < op_timestamp A \<and>
       op_sound base S A) \<and>
     (\<forall>A \<in> S. \<forall>B \<in> S. knows A B \<longrightarrow> op_timestamp B < op_timestamp A) \<and>
     (\<forall>A \<in> S. \<forall>B \<in> S. lam_replica (op_timestamp A) = lam_replica (op_timestamp B) \<and> op_timestamp B < op_timestamp A \<longrightarrow> knows A B)"

lemma sent_okD:
  assumes "sent_ok base S" "A \<in> S"
  shows "vclock_wf (op_version A)" "vclock_observed (op_version A) base_insertion" "base_insertion < op_timestamp A"
    "op_sound base S A" "\<And>B. B \<in> S \<Longrightarrow> knows A B \<Longrightarrow> op_timestamp B < op_timestamp A" "\<not> knows A A"
    "\<And>B. B \<in> S \<Longrightarrow> lam_replica (op_timestamp A) = lam_replica (op_timestamp B) \<Longrightarrow> op_timestamp B < op_timestamp A \<Longrightarrow> knows A B"
    "\<And>B. B \<in> S \<Longrightarrow> op_timestamp A = op_timestamp B \<Longrightarrow> A = B"
  using assms by (auto simp: sent_ok_def inj_on_def)

lemma sent_ok_insert:
  assumes ok: "sent_ok base S" and A: "vclock_wf (op_version A)" "vclock_observed (op_version A) base_insertion"
      "base_insertion < op_timestamp A" "op_sound base S A"
    and new: "\<forall>B \<in> S. \<not> knows B A" "\<not> knows A A"
    and older: "\<forall>B \<in> S. knows A B \<or> lam_replica (op_timestamp B) = lam_replica (op_timestamp A) \<longrightarrow>
      knows A B \<and> op_timestamp B < op_timestamp A"
  shows "sent_ok base (insert A S)"
proof -
  have other: "op_timestamp A \<noteq> op_timestamp B" if "B \<in> S" for B using older that by force
  have "{B \<in> insert A S. knows C B} = {B \<in> S. knows C B}" if "C \<in> insert A S" for C
    using that new by auto
  then have "op_sound base (insert A S) C = op_sound base S C" if "C \<in> insert A S" for C
    using that by (cases C) simp_all
  then have "\<forall>C \<in> insert A S. op_sound base (insert A S) C" using sent_okD(4) [OF ok] A(4) by blast
  moreover have "inj_on op_timestamp (insert A S)" using ok other by (auto simp: sent_ok_def inj_on_insert)
  moreover have "\<not> op_timestamp A < op_timestamp B" if "B \<in> S" "lam_replica (op_timestamp A) = lam_replica (op_timestamp B)" for B
    using older that by force
  ultimately show ?thesis using ok A(1-3) new older unfolding sent_ok_def by (intro conjI) auto
qed

section \<open>The invariant\<close>

definition replica_ok :: "string \<Rightarrow> operation set \<Rightarrow> replica_id \<Rightarrow> buffer \<Rightarrow> operation list \<Rightarrow> bool" where
  "replica_ok base S i b log \<longleftrightarrow> tracks base log (bu_snapshot b) \<and> publish_ok b \<and>
     causal log \<and> valid_run log (base_state base) \<and> set log \<subseteq> S \<and> (\<forall>A \<in> set log. \<forall>B \<in> S. knows A B \<longrightarrow> B \<in> set log) \<and>
     vclock_wf (bu_version b) \<and> vclock_observed (bu_version b) base_insertion \<and>
     (\<forall>B \<in> S. vclock_observed (bu_version b) (op_timestamp B) \<longleftrightarrow> B \<in> set log) \<and>
     lam_replica (bu_lamport_clock b) = i \<and> lam_value base_insertion < lam_value (bu_lamport_clock b) \<and>
     (\<forall>B \<in> set log. lam_value (op_timestamp B) < lam_value (bu_lamport_clock b)) \<and>
     (\<forall>B \<in> S. lam_replica (op_timestamp B) = i \<longrightarrow> B \<in> set log) \<and>
     (\<forall>t \<in> hist_ids (bu_history b). vclock_observed (bu_version b) t \<and> t \<noteq> base_insertion)"

text \<open>Every entry of a version vector is the timestamp of an operation.\<close>

definition stamped :: "operation set \<Rightarrow> vclock \<Rightarrow> bool" where
  "stamped S v \<longleftrightarrow> (\<forall>r. vclock_get v r \<noteq> 0 \<longrightarrow> Lamport (vclock_get v r) r \<in> insert base_insertion (op_timestamp ` S))"

lemma stamped_mono: "stamped S v \<Longrightarrow> stamped (insert A S) v"
  by (auto simp: stamped_def)

lemma stamped_observe: "stamped S v \<Longrightarrow> t \<in> insert base_insertion (op_timestamp ` S) \<Longrightarrow> stamped S (vclock_observe v t)"
  by (cases t) (auto simp: stamped_def vclock_get_observe max_def)

definition network_ok :: "string \<Rightarrow> network \<Rightarrow> bool" where
  "network_ok base n \<longleftrightarrow> sent_ok base (set (nw_sent n)) \<and>
     (\<forall>i. \<exists>log. replica_ok base (set (nw_sent n)) i (nw_replicas n i) log) \<and>
     (\<forall>i r. vclock_get (bu_version (nw_replicas n i)) r < lam_value (bu_lamport_clock (nw_replicas n r))) \<and>
     (\<forall>A \<in> set (nw_sent n). \<forall>r. vclock_get (op_version A) r < lam_value (bu_lamport_clock (nw_replicas n r))) \<and>
     (\<forall>i. stamped (set (nw_sent n)) (bu_version (nw_replicas n i))) \<and>
     (\<forall>A \<in> set (nw_sent n). stamped (set (nw_sent n)) (op_version A))"

lemma observed_all_observed:
  "vclock_wf v \<Longrightarrow> vclock_observed_all g v \<Longrightarrow> vclock_observed v t \<Longrightarrow> vclock_observed g t"
  by (auto simp: vclock_observed_all_iff vclock_observed_def vclock_get_at intro: order_trans)

lemma value_less: "lam_value a < lam_value b \<Longrightarrow> a < b"
  by (simp add: less_lamport_iff)

lemma tick_greater: "lam_value c < - 1 \<Longrightarrow> lam_value c < lam_value (snd (lamport_tick c))"
  using unat_Suc_word [of "lam_value c"] by (simp add: lamport_tick_def word_less_nat_alt)

lemma observe_greater:
  assumes "lam_value c < - 1" "lam_value t < - 1"
  shows "lam_value c < lam_value (lamport_observe c t)" "lam_value t < lam_value (lamport_observe c t)"
proof -
  have "max (lam_value c) (lam_value t) < - 1" using assms by simp
  then have "max (lam_value c) (lam_value t) < lam_value (lamport_observe c t)"
    using unat_Suc_word [of "max (lam_value c) (lam_value t)"] by (simp add: lamport_observe_def word_less_nat_alt)
  then show "lam_value c < lam_value (lamport_observe c t)" "lam_value t < lam_value (lamport_observe c t)" by simp_all
qed

section \<open>Emitting an operation\<close>

lemma replica_log:
  assumes "replica_ok base S i b log"
  shows "observes_log (bu_version b) log" "distinct log" "{B \<in> S. vclock_observed (bu_version b) (op_timestamp B)} = set log"
proof -
  show "observes_log (bu_version b) log" using assms by (fastforce simp: replica_ok_def observes_log_def)
  show "distinct log" using assms by (simp add: replica_ok_def causal_def distinct_map)
  show "{B \<in> S. vclock_observed (bu_version b) (op_timestamp B)} = set log" using assms by (auto simp: replica_ok_def)
qed

lemma base_count: "vclock_observed v base_insertion \<Longrightarrow> countP (\<lambda>x. seen_cell v (fst x)) (fst (base_state base)) = length base"
  by (simp add: base_state_def countP_def filter_map comp_def)

lemma run_count:
  assumes "distinct log" "vclock_observed v base_insertion" "{B \<in> set log. vclock_observed v (op_timestamp B)} = K"
  shows "countP (\<lambda>x. seen_cell v (fst x)) (fst (run base log)) = length base + sum text_len K"
  using countP_run [OF assms(1), of "vclock_observed v" "base_state base"] base_count [OF assms(2)] assms(3) by simp

text \<open>What a replica guarantees of an operation that it emits with a timestamp of its own.\<close>

definition emits :: "string \<Rightarrow> operation set \<Rightarrow> buffer \<Rightarrow> operation list \<Rightarrow> operation \<Rightarrow> buffer \<Rightarrow> bool" where
  "emits base S b log A b' \<longleftrightarrow> op_version A = bu_version b \<and>
     lam_replica (op_timestamp A) = lam_replica (bu_lamport_clock b) \<and>
     lam_value (bu_lamport_clock b) \<le> lam_value (op_timestamp A) \<and>
     bu_lamport_clock b' = snd (lamport_tick (op_timestamp A)) \<and> lam_value (op_timestamp A) < - 1 \<and>
     tracks base (log @ [A]) (bu_snapshot b') \<and> publish_ok b' \<and> abs_valid A (run base log) \<and> op_sound base S A \<and>
     bu_version b' = vclock_observe (bu_version b) (op_timestamp A) \<and>
     hist_ids (bu_history b') \<subseteq> insert (op_timestamp A) (hist_ids (bu_history b))"

lemma network_fresh:
  assumes ok: "network_ok base n" and t: "lam_replica t = i" "lam_value (bu_lamport_clock (nw_replicas n i)) \<le> lam_value t"
  shows "\<not> vclock_observed (bu_version (nw_replicas n j)) t" "\<And>A. A \<in> set (nw_sent n) \<Longrightarrow> \<not> vclock_observed (op_version A) t"
proof -
  have "vclock_get (bu_version (nw_replicas n j)) i < lam_value (bu_lamport_clock (nw_replicas n i))"
    using ok by (simp add: network_ok_def)
  then show "\<not> vclock_observed (bu_version (nw_replicas n j)) t" using t by (auto simp: vclock_observed_def not_le)
  show "\<not> vclock_observed (op_version A) t" if "A \<in> set (nw_sent n)" for A
  proof -
    have "vclock_get (op_version A) i < lam_value (bu_lamport_clock (nw_replicas n i))" using ok that by (simp add: network_ok_def)
    then show ?thesis using t by (auto simp: vclock_observed_def not_le)
  qed
qed

lemma emit_sent:
  assumes ok: "network_ok base n" and b: "b = nw_replicas n i" and r: "replica_ok base (set (nw_sent n)) i b log"
    and e: "emits base (set (nw_sent n)) b log A b'"
  shows "sent_ok base (insert A (set (nw_sent n)))" "A \<notin> set (nw_sent n)"
proof -
  let ?S = "set (nw_sent n)" and ?t = "op_timestamp A"
  have v: "op_version A = bu_version b" and t: "lam_replica ?t = i" "lam_value (bu_lamport_clock b) \<le> lam_value ?t"
    using e r by (simp_all add: emits_def replica_ok_def)
  note fresh = network_fresh [OF ok t(1), folded b, OF t(2)]
  have log: "op_timestamp B < ?t" if "B \<in> set log" for B
    using r that t(2) by (intro value_less) (auto simp: replica_ok_def)
  have mem: "B \<in> set log" if "B \<in> ?S" "knows A B \<or> lam_replica (op_timestamp B) = lam_replica ?t" for B
    using r that t(1) by (auto simp: replica_ok_def knows_def v)
  have "knows A B" if "B \<in> set log" for B
    using replica_log(1) [OF r] that by (auto simp: knows_def v observes_log_def)
  then have older: "\<forall>B \<in> ?S. knows A B \<or> lam_replica (op_timestamp B) = lam_replica ?t \<longrightarrow> knows A B \<and> op_timestamp B < ?t"
    using log mem by blast
  show "sent_ok base (insert A ?S)"
  proof (rule sent_ok_insert [OF _ _ _ _ _ _ _ older])
    show "sent_ok base ?S" using ok by (simp add: network_ok_def)
    show "vclock_wf (op_version A)" "vclock_observed (op_version A) base_insertion"
      using r by (simp_all add: v replica_ok_def)
    show "base_insertion < ?t" using r t(2) by (intro value_less) (auto simp: replica_ok_def)
    show "op_sound base ?S A" using e by (simp add: emits_def)
    show "\<forall>B \<in> ?S. \<not> knows B A" using fresh(2) by (simp add: knows_def)
    show "\<not> knows A A" using fresh(1) [of i] by (simp add: knows_def v b)
  qed
  show "A \<notin> ?S" using older by blast
qed

lemma emit_self:
  assumes ok: "network_ok base n" and b: "b = nw_replicas n i" and r: "replica_ok base (set (nw_sent n)) i b log"
    and e: "emits base (set (nw_sent n)) b log A b'"
  shows "replica_ok base (insert A (set (nw_sent n))) i b' (log @ [A])"
proof -
  let ?S = "set (nw_sent n)" and ?t = "op_timestamp A"
  have v: "op_version A = bu_version b" and t: "lam_replica ?t = i" "lam_value (bu_lamport_clock b) \<le> lam_value ?t"
    and v': "bu_version b' = vclock_observe (bu_version b) ?t"
    and c': "bu_lamport_clock b' = snd (lamport_tick ?t)" "lam_value ?t < lam_value (bu_lamport_clock b')"
    using e r tick_greater [of ?t] by (auto simp: emits_def replica_ok_def)
  note fresh = network_fresh [OF ok t(1), folded b, OF t(2)]
  have A: "A \<notin> ?S" by (rule emit_sent(2) [OF assms])
  have log: "set log \<subseteq> ?S" "\<forall>B \<in> ?S. vclock_observed (bu_version b) (op_timestamp B) \<longleftrightarrow> B \<in> set log"
      "\<forall>B \<in> ?S. lam_replica (op_timestamp B) = i \<longrightarrow> B \<in> set log"
      "\<forall>B \<in> set log. lam_value (op_timestamp B) < lam_value (bu_lamport_clock b)"
    using r unfolding replica_ok_def by blast+
  have unknown: "\<forall>B \<in> set log. \<not> knows B A" using fresh(2) log(1) by (auto simp: knows_def)
  have self: "vclock_observed (bu_version b') ?t" by (simp add: v' observed_observe)
  have "?t \<notin> op_timestamp ` set log" using log(4) t(2) by fastforce
  then have "causal (log @ [A])" using r unknown by (auto simp: replica_ok_def causal_def sorted_wrt_append)
  moreover have "\<forall>B \<in> insert A ?S. vclock_observed (bu_version b') (op_timestamp B) \<longleftrightarrow> B \<in> set (log @ [A])"
    using log(2,3) A self t(1) by (auto simp: v' observed_observe)
  moreover have "\<forall>C \<in> set (log @ [A]). \<forall>B \<in> insert A ?S. knows C B \<longrightarrow> B \<in> set (log @ [A])"
    using r unknown log(2) by (auto simp: replica_ok_def) (simp add: knows_def v)
  moreover have "base_insertion \<noteq> ?t" using r t(2) by (auto simp: replica_ok_def)
  then have "\<forall>u \<in> hist_ids (bu_history b'). vclock_observed (bu_version b') u \<and> u \<noteq> base_insertion"
    using r e self by (auto simp: replica_ok_def emits_def v' observed_observe)
  moreover have "lam_replica (bu_lamport_clock b') = i" using t(1) by (simp add: c' lamport_tick_def)
  moreover have "lam_value (op_timestamp B) < lam_value (bu_lamport_clock b')" if "B \<in> set (log @ [A])" for B
    using that log(4) t(2) c'(2) by (auto intro: less_trans less_le_trans)
  moreover have "lam_value base_insertion < lam_value (bu_lamport_clock b')"
    using r t(2) c'(2) by (auto simp: replica_ok_def intro: less_trans less_le_trans)
  moreover have "set (log @ [A]) \<subseteq> insert A ?S" using log(1) by auto
  ultimately show ?thesis
    using r e log unfolding replica_ok_def
    by (simp add: valid_run_append emits_def vclock_wf_observe observed_observe v')
qed

lemma emit_other:
  assumes ok: "network_ok base n" and b: "b = nw_replicas n i" and e: "emits base (set (nw_sent n)) b log' A b'"
    and r: "replica_ok base (set (nw_sent n)) i b log'" and j: "replica_ok base (set (nw_sent n)) j (nw_replicas n j) log" "j \<noteq> i"
  shows "replica_ok base (insert A (set (nw_sent n))) j (nw_replicas n j) log"
proof -
  have t: "lam_replica (op_timestamp A) = i" "lam_value (bu_lamport_clock b) \<le> lam_value (op_timestamp A)"
    using e r by (simp_all add: emits_def replica_ok_def)
  note fresh = network_fresh [OF ok t(1), folded b, OF t(2)]
  have "A \<notin> set (nw_sent n)" by (rule emit_sent(2) [OF ok b r e])
  moreover have "\<not> knows B A" if "B \<in> set log" for B using that fresh(2) j(1) by (auto simp: replica_ok_def knows_def)
  ultimately show ?thesis using j fresh(1) [of j] t(1) unfolding replica_ok_def by auto
qed

lemma emit_ok:
  assumes ok: "network_ok base n" and b: "b = nw_replicas n i" and r: "replica_ok base (set (nw_sent n)) i b log"
    and e: "emits base (set (nw_sent n)) b log A b'"
  shows "network_ok base (put_replica i b' [A] n)"
proof -
  let ?n = "put_replica i b' [A] n" and ?t = "op_timestamp A"
  have t: "lam_replica ?t = i" "lam_value (bu_lamport_clock b) \<le> lam_value ?t"
    and A: "op_version A = bu_version b" "bu_version b' = vclock_observe (bu_version b) ?t"
    and c: "lam_value ?t < lam_value (bu_lamport_clock b')"
    using e r tick_greater [of ?t] by (auto simp: emits_def replica_ok_def)
  have clock: "lam_value (bu_lamport_clock (nw_replicas n r)) \<le> lam_value (bu_lamport_clock (nw_replicas ?n r))" for r
    using t(2) c by (auto simp: b)
  have old: "vclock_get (bu_version (nw_replicas n j)) r < lam_value (bu_lamport_clock (nw_replicas ?n r))" for j r
  proof (rule less_le_trans [OF _ clock])
    show "vclock_get (bu_version (nw_replicas n j)) r < lam_value (bu_lamport_clock (nw_replicas n r))"
      using ok by (simp add: network_ok_def)
  qed
  have "vclock_get (bu_version (nw_replicas ?n j)) r < lam_value (bu_lamport_clock (nw_replicas ?n r))" for j r
    using old [of j r] old [of i r] t(1) c by (auto simp: A vclock_get_observe b)
  moreover have "vclock_get (op_version B) r < lam_value (bu_lamport_clock (nw_replicas ?n r))" if "B \<in> set (nw_sent ?n)" for B r
  proof (cases "B = A")
    case True
    then show ?thesis using old [of i r] by (simp add: A(1) b)
  next
    case False
    then have "vclock_get (op_version B) r < lam_value (bu_lamport_clock (nw_replicas n r))"
      using that ok by (simp add: network_ok_def)
    then show ?thesis by (rule less_le_trans [OF _ clock])
  qed
  moreover have "\<exists>log. replica_ok base (set (nw_sent ?n)) j (nw_replicas ?n j) log" for j
  proof (cases "j = i")
    case True
    then show ?thesis using emit_self [OF assms] by auto
  next
    case False
    obtain log' where "replica_ok base (set (nw_sent n)) j (nw_replicas n j) log'" using ok unfolding network_ok_def by blast
    from emit_other [OF ok b e r this False] show ?thesis using False by auto
  qed
  moreover have "sent_ok base (set (nw_sent ?n))" using emit_sent(1) [OF assms] by simp
  moreover have old_stamps: "stamped (set (nw_sent ?n)) (bu_version (nw_replicas n j))" for j
    using ok by (simp add: network_ok_def stamped_mono)
  moreover have "stamped (set (nw_sent ?n)) (bu_version (nw_replicas ?n j))" for j
    using old_stamps by (simp add: A(2) b stamped_observe)
  moreover have "stamped (set (nw_sent ?n)) (op_version B)" if "B \<in> set (nw_sent ?n)" for B
    using that ok old_stamps [of i] by (auto simp: network_ok_def stamped_mono A(1) b)
  ultimately show ?thesis unfolding network_ok_def by blast
qed


lemma abs_valid_sound:
  assumes "distinct log" "vclock_observed (eo_version e) base_insertion"
    and "{B \<in> set log. knows (EditOp e) B} = {B \<in> S. knows (EditOp e) B}"
  shows "abs_valid (EditOp e) (run base log) \<longleftrightarrow> edits_ok (length base + sum text_len {B \<in> S. knows (EditOp e) B}) 0 (edits_of e)"
proof -
  obtain xs us where r: "run base log = (xs, us)" by fastforce
  have "{B \<in> set log. vclock_observed (eo_version e) (op_timestamp B)} = {B \<in> S. knows (EditOp e) B}"
    using assms(3) by (simp add: knows_def)
  from run_count [OF assms(1,2) this, of base] show ?thesis by (simp add: r)
qed

lemma ticks_bounds:
  assumes "ticks c" "t \<in> {c, snd (lamport_tick c)}"
  shows "lam_replica t = lam_replica c" "lam_value c \<le> lam_value t" "lam_value t < - 1"
proof -
  have c: "unat (lam_value c) < 2 ^ 32 - 2" using assms(1) by (simp add: ticks_def word_less_nat_alt)
  have top: "unat (- 1 :: seq) = 2 ^ 32 - 1" by (simp add: unsigned_minus_1_eq_mask mask_eq_exp_minus_1)
  have "unat (lam_value c + 1) = Suc (unat (lam_value c))"
    using c by (intro unat_Suc_word) (simp add: word_less_nat_alt top)
  then show "lam_replica t = lam_replica c" "lam_value c \<le> lam_value t" "lam_value t < - 1"
    using assms(2) c by (auto simp: lamport_tick_def word_less_nat_alt word_le_nat_alt top)
qed

lemma own_edit_fresh:
  assumes ok: "network_ok base n" and b: "b = nw_replicas n i" and r: "replica_ok base (set (nw_sent n)) i b log"
    and e: "eo_version e = bu_version b" "lam_replica (eo_timestamp e) = i" "lam_value (bu_lamport_clock b) \<le> lam_value (eo_timestamp e)"
  shows "edit_fresh log e"
proof -
  note fresh = network_fresh [OF ok e(2), folded b, OF e(3)]
  have below: "lam_value t < lam_value (eo_timestamp e)" if "t \<in> insert base_insertion (op_timestamp ` set log)" for t
    using r that e(3) by (auto simp: replica_ok_def intro: less_le_trans)
  have "eo_timestamp e \<notin> fst ` set (uo_counts u)" if u: "UndoOp u \<in> set log" for u
  proof
    assume "eo_timestamp e \<in> fst ` set (uo_counts u)"
    moreover have "UndoOp u \<in> set (nw_sent n)" using u r by (auto simp: replica_ok_def)
    moreover have "op_sound base (set (nw_sent n)) (UndoOp u)" if "sent_ok base (set (nw_sent n))" "UndoOp u \<in> set (nw_sent n)"
      by (rule sent_okD(4) [OF that])
    ultimately have "vclock_observed (uo_version u) (eo_timestamp e)" using ok by (auto simp: network_ok_def)
    then show False using fresh(2) [OF \<open>UndoOp u \<in> set (nw_sent n)\<close>] by simp
  qed
  moreover have "\<not> vclock_observed (eo_version e) (eo_timestamp e)" using fresh(1) [of i] by (simp add: e(1) b)
  moreover have "eo_timestamp e \<notin> op_timestamp ` set log" using below by blast
  moreover have "\<forall>t \<in> insert base_insertion (op_timestamp ` set log). t < eo_timestamp e" using below value_less by blast
  ultimately show ?thesis unfolding edit_fresh_def by blast
qed

lemma edit_emits:
  assumes ok: "network_ok base n" and b: "b = nw_replicas n i" and r: "replica_ok base (set (nw_sent n)) i b log"
    and tick: "ticks (bu_lamport_clock b)"
    and es: "edits_ok (length (sn_visible_text (bu_snapshot b))) 0 edits" "length (concat (edit_texts edits)) < 2 ^ 32"
    and e: "emitted_edit edits b e b'"
  shows "emits base (set (nw_sent n)) b log (EditOp e) b'"
proof -
  obtain s p where s: "eo_version e = bu_version b" "eo_timestamp e \<in> {bu_lamport_clock b, snd (lamport_tick (bu_lamport_clock b))}"
      "apply_edit_internal (bu_snapshot b) edits (eo_timestamp e) = Some (s, eo_ranges e, eo_new_text e, p)"
      "bu_snapshot b' = s\<lparr>sn_version := vclock_observe (sn_version s) (eo_timestamp e)\<rparr>"
      "bu_lamport_clock b' = snd (lamport_tick (eo_timestamp e))"
      "topic_publish (bu_subscriptions b) (bu_patches b) p = Some (bu_subscriptions b', bu_patches b')"
      "hist_ids (bu_history b') \<subseteq> insert (eo_timestamp e) (hist_ids (bu_history b))"
    using e unfolding emitted_edit_def by blast
  note t = ticks_bounds [OF tick s(2)]
  have clock: "lam_replica (bu_lamport_clock b) = i" "vclock_observed (bu_version b) base_insertion"
      "tracks base log (bu_snapshot b)" "publish_ok b"
    using r by (simp_all add: replica_ok_def)
  have fresh: "edit_fresh log e" using own_edit_fresh [OF ok b r s(1)] t clock(1) by simp
  have obs: "observes_log (eo_version e) log" unfolding s(1) by (rule replica_log(1) [OF r])
  note plain = local_edit_plain [OF clock(3) obs fresh es s(3)] and tracks = tracks_local_edit [OF clock(3) obs fresh es s(3)]
  have "{B \<in> set log. knows (EditOp e) B} = {B \<in> set (nw_sent n). knows (EditOp e) B}"
    using r by (auto simp: replica_ok_def knows_def s(1))
  then have "op_sound base (set (nw_sent n)) (EditOp e)"
    using abs_valid_sound [OF replica_log(2) [OF r], of e] plain es(2) clock(2) by (simp add: s(1))
  moreover have "publish_ok b'" using publish_ok_patch [OF clock(4), of p s] tracks s(4,6) by auto
  moreover have "sn_version s = bu_version b"
    using s(3) by (auto simp: apply_edit_internal_def split: list.splits option.splits prod.splits)
  ultimately show ?thesis
    using s t plain tracks by (simp add: emits_def)
qed

lemma undo_emits:
  assumes ok: "network_ok base n" and b: "b = nw_replicas n i" and r: "replica_ok base (set (nw_sent n)) i b log"
    and tick: "ticks (bu_lamport_clock b)" and e: "emitted_undo b u b'" and low: "low (bu_snapshot b')"
  shows "emits base (set (nw_sent n)) b log (UndoOp u) b'"
proof -
  obtain s p where s: "uo_version u = bu_version b" "uo_timestamp u = bu_lamport_clock b" "distinct (map fst (uo_counts u))"
      "fst ` set (uo_counts u) \<subseteq> hist_ids (bu_history b)" "apply_undo (bu_snapshot b) u = Some (s, p)"
      "bu_snapshot b' = s\<lparr>sn_version := vclock_observe (bu_version b) (uo_timestamp u)\<rparr>"
      "bu_lamport_clock b' = snd (lamport_tick (bu_lamport_clock b))"
      "topic_publish (bu_subscriptions b) (bu_patches b) p = Some (bu_subscriptions b', bu_patches b')"
      "hist_ids (bu_history b') \<subseteq> hist_ids (bu_history b)"
    using e unfolding emitted_undo_def by blast
  have clock: "lam_replica (bu_lamport_clock b) = i" "tracks base log (bu_snapshot b)" "publish_ok b"
      "\<forall>t \<in> hist_ids (bu_history b). vclock_observed (bu_version b) t \<and> t \<noteq> base_insertion"
      "\<forall>B \<in> set log. lam_value (op_timestamp B) < lam_value (bu_lamport_clock b)"
    using r unfolding replica_ok_def by blast+
  have "undo_fresh log u" using s(2-4) clock(4,5) by (fastforce simp: undo_fresh_def)
  moreover have "shallow (sn_undo_map (bu_snapshot b)) u"
    using undo_map_of_undo [OF s(5)] low by (simp add: shallow_def low_def s(6))
  ultimately have "tracks base (log @ [UndoOp u]) s" "patch_rel 0 0 p (sn_visible_text (bu_snapshot b)) (sn_visible_text s)"
    using tracks_undo [OF clock(2), of u] s(5) by auto
  moreover from this(2) have "publish_ok b'" using publish_ok_patch [OF clock(3), of p s] s(6,8) by auto
  moreover have "op_sound base (set (nw_sent n)) (UndoOp u)" using s(1,3,4) clock(4) by auto
  moreover have "abs_valid (UndoOp u) (run base log)" by (cases "run base log") simp
  moreover have "lam_value (bu_lamport_clock b) < - 1" using ticks_bounds [OF tick, of "bu_lamport_clock b"] by simp
  ultimately show ?thesis using s by (auto simp: emits_def)
qed

section \<open>Applying an operation\<close>

text \<open>The condition on the height of the undo map, where the operation changes it.\<close>

definition shallow_op :: "snapshot \<Rightarrow> operation \<Rightarrow> bool" where
  "shallow_op s op \<longleftrightarrow> (case op of EditOp _ \<Rightarrow> True | UndoOp u \<Rightarrow> shallow (sn_undo_map s) u)"

lemma known_in_log:
  assumes "sent_ok base S" "replica_ok base S i b log" "A \<in> S" "vclock_observed_all (bu_version b) (op_version A)"
    and "B \<in> S" "knows A B"
  shows "B \<in> set log"
  using observed_all_observed [OF sent_okD(1) [OF assms(1,3)] assms(4), of "op_timestamp B"] assms(2,5,6)
  by (simp add: knows_def replica_ok_def)

lemma deliverable_ready:
  assumes sent: "sent_ok base S" and r: "replica_ok base S i b log" and A: "A \<in> S" "A \<notin> set log"
    and can: "vclock_observed_all (bu_version b) (op_version A)" and low: "shallow_op (bu_snapshot b) A"
  shows "op_ready base log (bu_snapshot b) A"
proof -
  have log: "set log \<subseteq> S" "\<forall>C \<in> set log. \<forall>B \<in> S. knows C B \<longrightarrow> B \<in> set log" using r by (simp_all add: replica_ok_def)
  have ts: "op_timestamp A \<notin> op_timestamp ` set log" using sent_okD(8) [OF sent A(1)] log(1) A(2) by blast
  show ?thesis
  proof (cases A)
    case (EditOp e)
    have sound: "op_sound base S (EditOp e)" using sent_okD(4) [OF sent A(1)] EditOp by simp
    have "{B \<in> set log. knows (EditOp e) B} = {B \<in> S. knows (EditOp e) B}"
      using known_in_log [OF sent r A(1) can] log(1) EditOp by blast
    then have "abs_valid (EditOp e) (run base log)"
      using abs_valid_sound [OF replica_log(2) [OF r], of e] sound sent_okD(2) [OF sent A(1)] EditOp by simp
    moreover have "eo_timestamp e \<notin> fst ` set (uo_counts u)" if u: "UndoOp u \<in> set log" for u
    proof
      assume key: "eo_timestamp e \<in> fst ` set (uo_counts u)"
      have "op_sound base S (UndoOp u)" using sent_okD(4) [OF sent] u log(1) by blast
      then have "\<forall>k \<in> fst ` set (uo_counts u). vclock_observed (uo_version u) k" by simp
      then have "knows (UndoOp u) A" using key by (simp only: knows_def EditOp op_version.simps op_timestamp.simps)
      then show False using u log(2) A by blast
    qed
    moreover have "\<not> vclock_observed (eo_version e) (eo_timestamp e)"
      using sent_okD(6) [OF sent A(1)] by (simp add: knows_def EditOp)
    moreover have "base_insertion < eo_timestamp e" using sent_okD(3) [OF sent A(1)] by (simp add: EditOp)
    moreover have "\<forall>t \<in> op_timestamp ` set log. vclock_observed (eo_version e) t \<longrightarrow> t < eo_timestamp e"
      using sent_okD(5) [OF sent A(1)] log(1) by (auto simp: knows_def EditOp)
    ultimately show ?thesis using sound ts by (simp add: EditOp edit_fresh_def)
  next
    case (UndoOp u)
    then show ?thesis using sent_okD(4) [OF sent A(1)] ts low by (auto simp: undo_fresh_def shallow_op_def)
  qed
qed

lemma deliver_self:
  assumes sent: "sent_ok base S" and r: "replica_ok base S i b log" and A: "A \<in> S" "A \<notin> set log"
    and can: "vclock_observed_all (bu_version b) (op_version A)" and b': "applied base log b A b'" and ready: "op_ready base log (bu_snapshot b) A"
    and tick: "lam_value (bu_lamport_clock b) < - 1" "lam_value (op_timestamp A) < - 1"
  shows "replica_ok base S i b' (log @ [A])"
proof -
  let ?t = "op_timestamp A"
  have f: "tracks base (log @ [A]) (bu_snapshot b')" "publish_ok b'" "bu_version b' = vclock_observe (bu_version b) ?t"
      "bu_lamport_clock b' = lamport_observe (bu_lamport_clock b) ?t" "bu_history b' = bu_history b"
    using b' by (simp_all add: applied_def)
  have log: "set log \<subseteq> S" "\<forall>B \<in> S. vclock_observed (bu_version b) (op_timestamp B) \<longleftrightarrow> B \<in> set log"
      "\<forall>C \<in> set log. \<forall>B \<in> S. knows C B \<longrightarrow> B \<in> set log"
      "\<forall>B \<in> set log. lam_value (op_timestamp B) < lam_value (bu_lamport_clock b)"
    using r unfolding replica_ok_def by blast+
  note clock = observe_greater [OF tick]
  have known: "\<forall>B \<in> S. knows A B \<longrightarrow> B \<in> set log" using known_in_log [OF sent r A(1) can] by blast
  have "vclock_observed (bu_version b') (op_timestamp B) \<longleftrightarrow> B \<in> set (log @ [A])" if B: "B \<in> S" for B
  proof (cases "vclock_observed (bu_version b) (op_timestamp B)")
    case True
    then show ?thesis using log(2) B by (auto simp: f(3) observed_observe)
  next
    case False
    then have new: "B \<notin> set log" using log(2) B by blast
    show ?thesis
    proof
      assume "vclock_observed (bu_version b') (op_timestamp B)"
      then have le: "lam_replica (op_timestamp B) = lam_replica ?t" "lam_value (op_timestamp B) \<le> lam_value ?t"
        using False by (simp_all add: f(3) observed_observe)
      have "B = A"
      proof (cases "op_timestamp B = ?t")
        case True
        then show ?thesis using sent_okD(8) [OF sent A(1) B] by simp
      next
        case False
        then have "op_timestamp B < ?t" using le by (cases "op_timestamp B"; cases ?t) (auto simp: less_lamport_iff)
        then have "knows A B" using sent_okD(7) [OF sent A(1) B] le(1) by simp
        then show ?thesis using known B new by blast
      qed
      then show "B \<in> set (log @ [A])" by simp
    next
      assume "B \<in> set (log @ [A])"
      then show "vclock_observed (bu_version b') (op_timestamp B)" using new by (simp add: f(3) observed_observe)
    qed
  qed
  moreover have "causal (log @ [A])"
    using r log(1,3) A sent_okD(8) [OF sent A(1)] by (auto simp: replica_ok_def causal_def sorted_wrt_append)
  moreover have "abs_valid A (run base log)" using ready by (cases A; cases "run base log") simp_all
  moreover have "\<forall>C \<in> set (log @ [A]). \<forall>B \<in> S. knows C B \<longrightarrow> B \<in> set (log @ [A])" using log(3) known by auto
  moreover have "lam_value (op_timestamp B) < lam_value (bu_lamport_clock b')" if "B \<in> set (log @ [A])" for B
    using that log(4) clock by (auto simp: f(4) intro: less_trans)
  moreover have "lam_value base_insertion < lam_value (bu_lamport_clock b')"
    using r clock(1) by (auto simp: f(4) replica_ok_def intro: less_trans)
  moreover have "set (log @ [A]) \<subseteq> S" using log(1) A(1) by simp
  moreover have "lam_replica (bu_lamport_clock b') = i" using r by (simp add: f(4) lamport_observe_def replica_ok_def)
  ultimately show ?thesis
    using r f unfolding replica_ok_def
    by (simp add: valid_run_append vclock_wf_observe observed_observe)
qed

text \<open>A change of one replica that advances its clock and observes nothing that is not sent.\<close>

lemma replace_ok:
  assumes ok: "network_ok base n" and r: "replica_ok base (set (nw_sent n)) i b' log"
    and clock: "lam_value (bu_lamport_clock (nw_replicas n i)) \<le> lam_value (bu_lamport_clock b')"
    and v: "\<forall>r. vclock_get (bu_version b') r < lam_value (bu_lamport_clock (nw_replicas n r))"
    and stamps: "stamped (set (nw_sent n)) (bu_version b')"
  shows "network_ok base (put_replica i b' [] n)"
proof -
  let ?n = "put_replica i b' [] n"
  have mono: "lam_value (bu_lamport_clock (nw_replicas n r)) \<le> lam_value (bu_lamport_clock (nw_replicas ?n r))" for r
    using clock by simp
  have "vclock_get (bu_version (nw_replicas ?n j)) r < lam_value (bu_lamport_clock (nw_replicas ?n r))" for j r
  proof (rule less_le_trans [OF _ mono])
    show "vclock_get (bu_version (nw_replicas ?n j)) r < lam_value (bu_lamport_clock (nw_replicas n r))"
      using ok v by (simp add: network_ok_def)
  qed
  moreover have "vclock_get (op_version A) r < lam_value (bu_lamport_clock (nw_replicas ?n r))" if "A \<in> set (nw_sent ?n)" for A r
  proof (rule less_le_trans [OF _ mono])
    show "vclock_get (op_version A) r < lam_value (bu_lamport_clock (nw_replicas n r))" using ok that by (simp add: network_ok_def)
  qed
  moreover have "\<exists>log. replica_ok base (set (nw_sent ?n)) j (nw_replicas ?n j) log" for j
  proof (cases "j = i")
    case False
    then show ?thesis using ok by (simp add: network_ok_def)
  qed (use r in auto)
  ultimately show ?thesis using ok stamps unfolding network_ok_def by simp
qed

lemma low_shallow:
  assumes "bu_apply_op op b = Some b'" "low (bu_snapshot b')" "\<not> vclock_observed (bu_version b) (op_timestamp op)"
  shows "shallow_op (bu_snapshot b) op"
proof (cases op)
  case (UndoOp u)
  obtain b1 where b1: "bu_apply_undo u b = Some b1" "bu_snapshot b' = (bu_snapshot b1)\<lparr>sn_version := vclock_observe (bu_version b1) (uo_timestamp u)\<rparr>"
    using assms(1,3) by (auto simp: bu_apply_op_def UndoOp bu_observe_op_def bu_observe_version_def)
  obtain s p where s: "apply_undo (bu_snapshot b) u = Some (s, p)" "bu_snapshot b1 = s"
    using b1(1) by (auto simp: bu_apply_undo_def bu_publish_def split: option.splits prod.splits)
  show ?thesis using undo_map_of_undo [OF s(1)] assms(2) by (simp add: shallow_op_def UndoOp shallow_def low_def b1(2) s(2))
qed (simp add: shallow_op_def)

lemma replica_same:
  assumes "replica_ok base S i b log" "bu_snapshot b' = bu_snapshot b" "bu_subscriptions b' = bu_subscriptions b"
    "bu_patches b' = bu_patches b" "lam_replica (bu_lamport_clock b') = lam_replica (bu_lamport_clock b)"
    "lam_value (bu_lamport_clock b) \<le> lam_value (bu_lamport_clock b')" "hist_ids (bu_history b') \<subseteq> hist_ids (bu_history b)"
  shows "replica_ok base S i b' log"
proof -
  have "publish_ok b'" using assms(1-4) publish_ok_cong [of b' b] by (simp add: replica_ok_def)
  moreover have "lam_value t < lam_value (bu_lamport_clock b')" if "t = base_insertion \<or> t \<in> op_timestamp ` set log" for t
    using that assms(1,6) by (auto simp: replica_ok_def intro: less_le_trans)
  ultimately show ?thesis using assms(1,2,5,7) unfolding replica_ok_def by auto
qed

lemma same_ok:
  assumes "network_ok base n" "b = nw_replicas n i" "bu_snapshot b' = bu_snapshot b" "bu_subscriptions b' = bu_subscriptions b"
    "bu_patches b' = bu_patches b" "lam_replica (bu_lamport_clock b') = lam_replica (bu_lamport_clock b)"
    "lam_value (bu_lamport_clock b) \<le> lam_value (bu_lamport_clock b')" "hist_ids (bu_history b') \<subseteq> hist_ids (bu_history b)"
  shows "network_ok base (put_replica i b' [] n)"
proof -
  obtain log where "replica_ok base (set (nw_sent n)) i b log" using assms(1,2) unfolding network_ok_def by blast
  from replica_same [OF this assms(3-8)] show ?thesis
    using assms(1-3,7) by (intro replace_ok) (auto simp: network_ok_def)
qed

lemma deliver_ok:
  assumes ok: "network_ok base n" and b: "b = nw_replicas n i" and A: "A \<in> set (nw_sent n)"
    and tick: "ticks (bu_lamport_clock b)" "ticks (op_timestamp A)"
    and can: "can_apply_op b A" and b': "bu_apply_op A b = Some b'" and low: "low (bu_snapshot b')"
  shows "network_ok base (put_replica i b' [] n)"
proof -
  obtain log where r: "replica_ok base (set (nw_sent n)) i b log" using ok b unfolding network_ok_def by blast
  have sent: "sent_ok base (set (nw_sent n))" using ok by (simp add: network_ok_def)
  show ?thesis
  proof (cases "A \<in> set log")
    case True
    then have "vclock_observed (bu_version b) (op_timestamp A)" using r A by (simp add: replica_ok_def)
    then have "b' = bu_wake b" using b' by (auto simp: bu_apply_op_def split: operation.splits)
    then show ?thesis using same_ok [OF ok b, of b'] by simp
  next
    case False
    then have new: "\<not> vclock_observed (bu_version b) (op_timestamp A)" using r A by (simp add: replica_ok_def)
    have can': "vclock_observed_all (bu_version b) (op_version A)" using can by (auto simp: can_apply_op_def split: if_splits)
    have ready: "op_ready base log (bu_snapshot b) A"
      by (rule deliverable_ready [OF sent r A False can' low_shallow [OF b' low new]])
    have t: "lam_value (bu_lamport_clock b) < - 1" "lam_value (op_timestamp A) < - 1"
      using tick ticks_bounds(3) by auto
    have "tracks base log (bu_snapshot b)" "publish_ok b" using r by (simp_all add: replica_ok_def)
    from bu_apply_op_applied [OF this ready new] b' have f: "applied base log b A b'" by auto
    then have clock: "bu_lamport_clock b' = lamport_observe (bu_lamport_clock b) (op_timestamp A)"
        "bu_version b' = vclock_observe (bu_version b) (op_timestamp A)" by (simp_all add: applied_def)
    obtain log' where "replica_ok base (set (nw_sent n)) (lam_replica (op_timestamp A)) (nw_replicas n (lam_replica (op_timestamp A))) log'"
      using ok unfolding network_ok_def by blast
    then have "lam_value (op_timestamp A) < lam_value (bu_lamport_clock (nw_replicas n (lam_replica (op_timestamp A))))"
      using A by (simp add: replica_ok_def)
    then have "\<forall>r. vclock_get (bu_version b') r < lam_value (bu_lamport_clock (nw_replicas n r))"
      using ok by (auto simp: clock(2) vclock_get_observe network_ok_def b)
    moreover have "lam_value (bu_lamport_clock b) \<le> lam_value (bu_lamport_clock b')"
      using observe_greater(1) [OF t] by (simp add: clock(1))
    moreover have "stamped (set (nw_sent n)) (bu_version b')"
      unfolding clock(2) using ok A by (intro stamped_observe) (simp_all add: network_ok_def b)
    ultimately show ?thesis
      using deliver_self [OF sent r A False can' f ready t] ok b by (intro replace_ok) simp_all
  qed
qed

end
