(* ===== verification/Zed_Replication.thy ===== *)
theory Zed_Replication
  imports Zed_Network
begin

text \<open>
  The invariant holds of every reachable network.  Its consequences: a replica's text is the abstract run of the
  operations that it has observed, replicas with equal versions agree, and a replica that lacks an
  operation can always apply one.
\<close>

section \<open>The first state\<close>

definition base_fragment :: "string \<Rightarrow> fragment" where
  "base_fragment base = \<lparr>fr_id = locator_between locator_min locator_max, fr_timestamp = base_insertion,
     fr_insertion_offset = 0, fr_len = length base, fr_visible = True, fr_deletions = [], fr_max_undos = version_new\<rparr>"

lemma base_fragments_one:
  assumes "base \<noteq> []" "length base < 2 ^ 32"
  shows "base_fragments base base_insertion 0 0 locator_min [] [] =
    Some ([base_fragment base], [insertion_fragment_new (base_fragment base)])"
proof -
  have len: "min (length base) MAX_INSERTION_LEN = length base" "as_u32 (length base) = length base"
    using assms(2) by (simp_all add: MAX_INSERTION_LEN_def)
  have stop: "base_fragments base base_insertion (length base) j l fs xs = Some (fs, xs)" for j l fs xs
    by (subst base_fragments.simps) simp
  show ?thesis using assms(1) by (subst base_fragments.simps) (simp add: Let_def len stop base_fragment_def)
qed

lemma new_tracks:
  assumes "base \<noteq> []" "length base < 2 ^ 32" "bu_new_normalized i interval base = Some b"
  shows "tracks base [] (bu_snapshot b)"
proof -
  define f where "f = base_fragment base"
  have s: "sn_fragments (bu_snapshot b) = [f]" "sn_insertions (bu_snapshot b) = [insertion_fragment_new f]"
      "sn_visible_text (bu_snapshot b) = base" "sn_deleted_text (bu_snapshot b) = []" "sn_insertion_slices (bu_snapshot b) = []"
      "sn_undo_map (bu_snapshot b) = st_new undo_ops"
    using assms(3) base_fragments_one [OF assms(1,2)] assms(1)
    by (auto simp: bu_new_normalized_def Let_def f_def simp flip: base_insertion_def)
  have cells: "fr_cells f = map (Pair base_insertion) [0 ..< length base]" by (simp add: f_def base_fragment_def fr_cells_def)
  have "locator_min < locator_max" "last locator_max \<noteq> 0" by (simp_all add: locator_min_def locator_max_def flip: word_neq_0_conv)
  then have "fr_fits ((\<lambda>_. [])(base_insertion := base)) f"
    using assms(1,2) by (simp add: fr_fits_def f_def base_fragment_def locator_between_greater locator_between_less locator_between_last)
  moreover have "cell_text ((\<lambda>_. [])(base_insertion := base)) (fr_cells f) = base"
    by (simp add: cells cell_text_def comp_def map_nth)
  moreover have "distinct (fr_cells f)" by (simp add: cells distinct_map inj_on_def)
  moreover have "shown {} f" "touching f = {base_insertion}" "fr_visible f"
    by (simp_all add: shown_def undone_def f_def base_fragment_def touching_def)
  ultimately have "buffer_ok ((\<lambda>_. [])(base_insertion := base)) {} (bu_snapshot b)"
    using um_represents_empty
    by (simp add: buffer_ok_def snapshot_ok_def s vcells_def dcells_def cells_def slices_ok_def cell_text_def undos_seen_def)
  moreover have "map plain (flagged [f]) = fst (base_state base)"
  proof -
    have "fr_mark f = (True, [])" by (simp add: fr_mark_def f_def base_fragment_def)
    then show ?thesis by (simp add: cells base_state_def)
  qed
  moreover have "low (bu_snapshot b)" by (simp add: low_def s st_new_def)
  moreover have "clocks_ok (bu_snapshot b)" using base_above_min by (simp add: clocks_ok_def s f_def base_fragment_def)
  ultimately show ?thesis by (simp add: tracks_def s base_state_def)
qed

lemma get_new: "vclock_get vclock_new r = 0"
  by (simp add: vclock_get_def vclock_new_def get_or_def)

lemma new_fields:
  assumes "base \<noteq> []" "length base < 2 ^ 32" "bu_new_normalized i interval base = Some b"
  shows "bu_version b = vclock_observe vclock_new base_insertion" "bu_lamport_clock b = Lamport 2 i"
    "bu_subscriptions b = []" "bu_history b = hi_new interval base" "sn_visible_text (bu_snapshot b) = base"
    "bu_deferred_replicas b = []" "bu_deferred_ops b = oq_new op_timestamp" "sn_undo_map (bu_snapshot b) = st_new undo_ops"
  using assms(3) base_fragments_one [OF assms(1,2)] assms(1)
  by (auto simp: bu_new_normalized_def Let_def lamport_observe_def lamport_new_def base_insertion_def)

lemma start_ok:
  assumes base: "base \<noteq> []" "length base < 2 ^ 32" and new: "\<forall>i. \<exists>interval. bu_new_normalized i interval base = Some (nw_replicas n i)"
    and sent: "nw_sent n = []"
  shows "network_ok base n"
proof -
  note fields = new_fields [OF base]
  have get: "vclock_get (vclock_observe vclock_new base_insertion) r = (if r = LOCAL then 1 else 0)" for r
    by (auto simp: vclock_get_observe get_new base_insertion_def lamport_new_def)
  have version: "bu_version (nw_replicas n i) = vclock_observe vclock_new base_insertion" "bu_lamport_clock (nw_replicas n i) = Lamport 2 i" for i
    using new fields(1,2) by blast+
  have "replica_ok base {} i (nw_replicas n i) []" for i
  proof -
    obtain interval where b: "bu_new_normalized i interval base = Some (nw_replicas n i)" using new by blast
    have "vclock_wf (vclock_observe vclock_new base_insertion)" by (intro vclock_wf_observe) (simp add: vclock_wf_def vclock_new_def)
    moreover have "lam_value base_insertion < lam_value (Lamport 2 i)" by (simp add: base_insertion_def lamport_new_def)
    ultimately show ?thesis
      using new_tracks [OF base b] fields(1-4) [OF b]
      by (simp add: replica_ok_def publish_ok_def causal_def observed_observe hist_ids_def hi_new_def)
  qed
  moreover have "stamped {} (vclock_observe vclock_new base_insertion)"
    by (intro stamped_observe) (simp_all add: stamped_def get_new)
  ultimately show ?thesis by (auto simp: network_ok_def sent sent_ok_def version get)
qed

section \<open>The steps\<close>

lemma start_transaction_fields:
  assumes "bu_start_transaction_at now b = (b', r)" "ticks (bu_lamport_clock b)"
  shows "bu_snapshot b' = bu_snapshot b" "bu_subscriptions b' = bu_subscriptions b" "bu_patches b' = bu_patches b"
    "lam_replica (bu_lamport_clock b') = lam_replica (bu_lamport_clock b)"
    "lam_value (bu_lamport_clock b) \<le> lam_value (bu_lamport_clock b')" "hist_ids (bu_history b') = hist_ids (bu_history b)"
proof -
  obtain h c t where st: "hi_start_transaction (bu_history b) (bu_version b) now (bu_lamport_clock b) = (h, c, t)" by (metis prod_cases3)
  then have b': "b' = b\<lparr>bu_history := h, bu_lamport_clock := c\<rparr>" using assms(1) by (simp add: bu_start_transaction_at_def)
  have "c \<in> {bu_lamport_clock b, snd (lamport_tick (bu_lamport_clock b))}"
    using st by (auto simp: hi_start_transaction_def Let_def split: if_splits prod.splits)
  from ticks_bounds [OF assms(2) this] hist_ids_start [OF st]
  show "bu_snapshot b' = bu_snapshot b" "bu_subscriptions b' = bu_subscriptions b" "bu_patches b' = bu_patches b"
    "lam_replica (bu_lamport_clock b') = lam_replica (bu_lamport_clock b)"
    "lam_value (bu_lamport_clock b) \<le> lam_value (bu_lamport_clock b')" "hist_ids (bu_history b') = hist_ids (bu_history b)"
    by (simp_all add: b')
qed

lemma books_fields [simp]:
  "bu_snapshot (books o' d r b) = bu_snapshot b" "bu_subscriptions (books o' d r b) = bu_subscriptions b"
  "bu_patches (books o' d r b) = bu_patches b" "bu_lamport_clock (books o' d r b) = bu_lamport_clock b"
  "hist_ids (bu_history (books o' d r b)) = hist_ids (bu_history b)"
  by (simp_all add: books_def hist_ids_def)

lemma step_ok:
  assumes "net_step n n'" "network_ok base n"
  shows "network_ok base n'"
  using assms(1)
proof cases
  case (edit b i edits now now' b' op)
  obtain log where log: "replica_ok base (set (nw_sent n)) i b log" using assms(2) edit(2) unfolding network_ok_def by blast
  obtain e where "op = EditOp e" "emitted_edit edits b e b'" using bu_edit_emits [OF edit(6)] by blast
  with emit_ok [OF assms(2) edit(2) log] edit_emits [OF assms(2) edit(2) log edit(3-5)] show ?thesis by (simp add: edit(1))
next
  case (undo b i b' t op)
  obtain log where log: "replica_ok base (set (nw_sent n)) i b log" using assms(2) undo(2) unfolding network_ok_def by blast
  obtain u where "op = UndoOp u" "emitted_undo b u b'" using bu_undo_emits [OF undo(4)] by auto
  with emit_ok [OF assms(2) undo(2) log] undo_emits [OF assms(2) undo(2) log undo(3) _ undo(5)] show ?thesis by (simp add: undo(1))
next
  case (redo b i b' t op)
  obtain log where log: "replica_ok base (set (nw_sent n)) i b log" using assms(2) redo(2) unfolding network_ok_def by blast
  obtain u where "op = UndoOp u" "emitted_undo b u b'" using bu_redo_emits [OF redo(4)] by auto
  with emit_ok [OF assms(2) redo(2) log] undo_emits [OF assms(2) redo(2) log redo(3) _ redo(5)] show ?thesis by (simp add: redo(1))
next
  case (deliver b i op b')
  then show ?thesis using deliver_ok [OF assms(2)] by blast
next
  case (start_transaction b i now b' r)
  from start_transaction_fields [OF start_transaction(4,3)] same_ok [OF assms(2) start_transaction(2)]
  show ?thesis by (simp add: start_transaction(1))
next
  case (end_transaction b i now b' r)
  from bu_end_transaction_fields [OF end_transaction(3)] same_ok [OF assms(2) end_transaction(2)]
  show ?thesis by (simp add: end_transaction(1))
next
  case (books i operations deferred replicas)
  from same_ok [OF assms(2) refl, of "books operations deferred replicas (nw_replicas n i)" i]
  show ?thesis by (simp add: books)
qed

lemma reachable_ok: "reachable base n \<Longrightarrow> network_ok base n"
  by (induction rule: reachable.induct) (auto intro: start_ok step_ok)

section \<open>Steps that a replica can take\<close>

lemma network_edit:
  assumes ok: "network_ok base n" and b: "b = nw_replicas n i" and tick: "ticks (bu_lamport_clock b)"
    and es: "edits_ok (length (sn_visible_text (bu_snapshot b))) 0 edits" "length (concat (edit_texts edits)) < 2 ^ 32"
    and h: "hist_ready (bu_history b)"
  shows "\<exists>b' e. bu_edit edits now now' b = Some (b', EditOp e) \<and> net_step n (put_replica i b' [EditOp e] n) \<and>
    sn_visible_text (bu_snapshot b') = splice 0 edits (sn_visible_text (bu_snapshot b)) \<and>
    bu_version b' = vclock_observe (bu_version b) (eo_timestamp e) \<and> eo_version e = bu_version b \<and>
    eo_timestamp e \<in> {bu_lamport_clock b, snd (lamport_tick (bu_lamport_clock b))} \<and>
    bu_lamport_clock b' = snd (lamport_tick (eo_timestamp e))"
proof -
  obtain log where r: "replica_ok base (set (nw_sent n)) i b log" using ok unfolding b network_ok_def by blast
  then have t: "tracks base log (bu_snapshot b)" "publish_ok b" "lam_replica (bu_lamport_clock b) = i" by (simp_all add: replica_ok_def)
  have fresh: "edit_fresh log e" if "eo_version e = bu_version b" "eo_timestamp e \<in> {bu_lamport_clock b, snd (lamport_tick (bu_lamport_clock b))}" for e
    using own_edit_fresh [OF ok b r that(1)] ticks_bounds [OF tick that(2)] t(3) by simp
  have obs: "observes_log (bu_version b) log" by (rule replica_log(1) [OF r])
  have "\<exists>s rs texts p. apply_edit_internal (bu_snapshot b) edits t = Some (s, rs, texts, p) \<and>
      patch_rel 0 0 p (sn_visible_text (bu_snapshot b)) (sn_visible_text s)"
    if c: "t \<in> {bu_lamport_clock b, snd (lamport_tick (bu_lamport_clock b))}" for t
  proof -
    define e0 where "e0 = \<lparr>eo_timestamp = t, eo_version = bu_version b, eo_ranges = [], eo_new_text = []\<rparr>"
    obtain s rs texts p where s: "apply_edit_internal (bu_snapshot b) edits t = Some (s, rs, texts, p)"
      using local_edit_returns [OF t(1) fresh [of e0] es] c by (auto simp: e0_def)
    define e where "e = e0\<lparr>eo_ranges := rs, eo_new_text := texts\<rparr>"
    have "patch_rel 0 0 p (sn_visible_text (bu_snapshot b)) (sn_visible_text s)"
      by (rule tracks_local_edit [OF t(1) _ fresh es, of e, THEN conjunct2, THEN conjunct1]) (use s obs c in \<open>simp_all add: e_def e0_def\<close>)
    with s show ?thesis by blast
  qed
  from bu_edit_returns [OF h t(2) this] obtain b' op where edit: "bu_edit edits now now' b = Some (b', op)" by blast
  obtain e where e: "op = EditOp e" "emitted_edit edits b e b'" using bu_edit_emits [OF edit] by blast
  obtain s p where s: "eo_version e = bu_version b" "eo_timestamp e \<in> {bu_lamport_clock b, snd (lamport_tick (bu_lamport_clock b))}"
      "apply_edit_internal (bu_snapshot b) edits (eo_timestamp e) = Some (s, eo_ranges e, eo_new_text e, p)"
      "bu_snapshot b' = s\<lparr>sn_version := vclock_observe (sn_version s) (eo_timestamp e)\<rparr>"
    using e(2) unfolding emitted_edit_def by blast
  have "emits base (set (nw_sent n)) b log (EditOp e) b'" by (rule edit_emits [OF ok b r tick es e(2)])
  then have "bu_version b' = vclock_observe (bu_version b) (eo_timestamp e)" "bu_lamport_clock b' = snd (lamport_tick (eo_timestamp e))"
    by (simp_all add: emits_def)
  moreover have "sn_visible_text (bu_snapshot b') = splice 0 edits (sn_visible_text (bu_snapshot b))"
    using tracks_local_edit [OF t(1) _ fresh [OF s(1,2)] es s(3)] obs s(1,4) by simp
  moreover have "net_step n (put_replica i b' [EditOp e] n)" using net_step.edit [OF b tick es edit] e(1) by simp
  ultimately show ?thesis using edit e(1) s(1,2) by blast
qed

lemma apply_returns:
  assumes ok: "network_ok base n" and op: "op \<in> set (nw_sent n)" "\<not> vclock_observed (bu_version (nw_replicas n i)) (op_timestamp op)"
    "vclock_observed_all (bu_version (nw_replicas n i)) (op_version op)" "shallow_op (bu_snapshot (nw_replicas n i)) op"
  shows "\<exists>b'. bu_apply_op op (nw_replicas n i) = Some b' \<and> low (bu_snapshot b') \<and>
    bu_version b' = vclock_observe (bu_version (nw_replicas n i)) (op_timestamp op)"
proof -
  obtain log where r: "replica_ok base (set (nw_sent n)) i (nw_replicas n i) log" using ok unfolding network_ok_def by blast
  have sent: "sent_ok base (set (nw_sent n))" using ok by (simp add: network_ok_def)
  have new: "op \<notin> set log" using r op(1,2) by (simp add: replica_ok_def)
  have t: "tracks base log (bu_snapshot (nw_replicas n i))" "publish_ok (nw_replicas n i)" using r by (simp_all add: replica_ok_def)
  from bu_apply_op_applied [OF t deliverable_ready [OF sent r op(1) new op(3,4)] op(2)]
  show ?thesis by (auto simp: applied_def tracks_def)
qed

text \<open>The delivery of an operation whose causes are there.\<close>

lemma network_deliver:
  assumes ok: "network_ok base n" and b: "b = nw_replicas n i" and op: "op \<in> set (nw_sent n)" "\<not> vclock_observed (bu_version b) (op_timestamp op)"
    "vclock_observed_all (bu_version b) (op_version op)" "shallow_op (bu_snapshot b) op"
    and ticks: "ticks (bu_lamport_clock b)" "ticks (op_timestamp op)" and "bu_deferred_replicas b = []"
  shows "\<exists>b'. net_step n (put_replica i b' [] n) \<and> bu_version b' = vclock_observe (bu_version b) (op_timestamp op)"
proof -
  obtain b' where b': "bu_apply_op op b = Some b'" "low (bu_snapshot b')" "bu_version b' = vclock_observe (bu_version b) (op_timestamp op)"
    using apply_returns [OF ok op(1), of i] op(2-4) b by blast
  have "can_apply_op b op" using op(3) assms(9) by (simp add: can_apply_op_def)
  from net_step.deliver [OF b op(1) ticks this b'(1,2)] b'(3) show ?thesis by blast
qed

lemma bu_edit_deferred: "bu_edit edits now now' b = Some (b', op) \<Longrightarrow> bu_deferred_replicas b' = bu_deferred_replicas b"
  by (auto simp: bu_edit_def bu_start_transaction_at_def bu_tick_def bu_apply_local_edit_def bu_publish_def bu_observe_version_def
      bu_end_transaction_at_def Let_def split: Option.bind_splits option.splits prod.splits)

section \<open>Convergence\<close>

lemma same_version_same_log:
  assumes "replica_ok base S i b log" "replica_ok base S j b' log'" "bu_version b = bu_version b'"
  shows "set log = set log'"
  using replica_log(3) [OF assms(1)] replica_log(3) [OF assms(2)] assms(3) by simp

lemma same_log_same_run:
  assumes "replica_ok base S i b log" "replica_ok base S j b' log'" "set log = set log'"
  shows "run base log = run base log'" "texts_of base log = texts_of base log'"
proof -
  have c: "causal log" "causal log'" "valid_run log (base_state base)" using assms(1,2) by (simp_all add: replica_ok_def)
  then show "run base log = run base log'" using causal_orders_agree [OF c(1,2) assms(3) c(3)] by simp
  show "texts_of base log = texts_of base log'" using c(1,2) assms(3) by (intro texts_of_set) (simp_all add: causal_def)
qed

text \<open>C1: Strong convergence.  Take any network in which replicas start from the same text, edit it, undo and
  redo their own transactions, start and end transactions and apply each other's operations, each as soon or
  as late as \<open>can_apply_op\<close> admits it.  Two replicas with equal versions (\<open>Buffer::version\<close>) then have the
  same visible text, the same deleted text and the same bytes in the same order.  Their fragments may be
  cut differently.\<close>

theorem replicas_converge:
  assumes "reachable base n" "bu_version (nw_replicas n i) = bu_version (nw_replicas n j)"
  shows "sn_visible_text (bu_snapshot (nw_replicas n i)) = sn_visible_text (bu_snapshot (nw_replicas n j)) \<and>
    sn_deleted_text (bu_snapshot (nw_replicas n i)) = sn_deleted_text (bu_snapshot (nw_replicas n j)) \<and>
    cells (sn_fragments (bu_snapshot (nw_replicas n i))) = cells (sn_fragments (bu_snapshot (nw_replicas n j)))"
proof -
  have "network_ok base n" by (rule reachable_ok [OF assms(1)])
  then obtain log log' where r: "replica_ok base (set (nw_sent n)) i (nw_replicas n i) log"
      "replica_ok base (set (nw_sent n)) j (nw_replicas n j) log'" unfolding network_ok_def by blast
  note run = same_log_same_run [OF r same_version_same_log [OF r assms(2)]]
  have t: "tracks base log (bu_snapshot (nw_replicas n i))" "tracks base log' (bu_snapshot (nw_replicas n j))"
    using r by (simp_all add: replica_ok_def)
  have "cells fs = map fst (map plain (flagged fs))" for fs
    unfolding flagged_cells(1) [symmetric] by (simp add: plain_def comp_def)
  moreover have "map plain (flagged (sn_fragments (bu_snapshot (nw_replicas n i)))) =
      map plain (flagged (sn_fragments (bu_snapshot (nw_replicas n j))))" using t run(1) unfolding tracks_def by metis
  ultimately have "cells (sn_fragments (bu_snapshot (nw_replicas n i))) = cells (sn_fragments (bu_snapshot (nw_replicas n j)))"
    by metis
  moreover have "run_text base log = run_text base log'" "run_deleted base log = run_deleted base log'"
    unfolding run_text_def run_deleted_def run by (rule refl)+
  ultimately show ?thesis using tracks_text [OF t(1)] tracks_text [OF t(2)] by simp
qed

text \<open>C5: The buffer implements the abstract replica.  There is an order of exactly the operations that a replica
  has observed, without repetition and with every operation after those its author knew, such that
  running the abstract replica (a list of bytes with the edits that deleted them) over it gives the visible
  and the deleted text, and the invariant of the buffer holds of the snapshot: ropes, fragment ids, the index of
  insertions, the slices and the undo map agree with the fragments.\<close>

theorem replica_runs_observed:
  assumes "reachable base n"
  shows "\<exists>log. set log = {op \<in> set (nw_sent n). vclock_observed (bu_version (nw_replicas n i)) (op_timestamp op)} \<and>
    distinct log \<and> causal log \<and> sn_visible_text (bu_snapshot (nw_replicas n i)) = run_text base log \<and>
    sn_deleted_text (bu_snapshot (nw_replicas n i)) = run_deleted base log \<and>
    buffer_ok (texts_of base log) {u. UndoOp u \<in> set log} (bu_snapshot (nw_replicas n i))"
proof -
  obtain log where r: "replica_ok base (set (nw_sent n)) i (nw_replicas n i) log"
    using reachable_ok [OF assms] unfolding network_ok_def by blast
  then have t: "tracks base log (bu_snapshot (nw_replicas n i))" "causal log" by (simp_all add: replica_ok_def)
  have "snd (run base log) = {u. UndoOp u \<in> set log}" unfolding run_undos by (simp add: base_state_def)
  then show ?thesis using t tracks_text [OF t(1)] replica_log(2,3) [OF r] by (auto simp: tracks_def)
qed

section \<open>Progress\<close>

lemma causes_observed:
  assumes ok: "network_ok base n" and A: "A \<in> set (nw_sent n)"
    and "\<forall>B \<in> set (nw_sent n). op_timestamp B < op_timestamp A \<longrightarrow> vclock_observed (bu_version (nw_replicas n i)) (op_timestamp B)"
  shows "vclock_observed_all (bu_version (nw_replicas n i)) (op_version A)"
proof -
  let ?S = "set (nw_sent n)" and ?v = "bu_version (nw_replicas n i)"
  have sent: "sent_ok base ?S" and stamps: "stamped ?S (op_version A)" using ok A by (simp_all add: network_ok_def)
  have base: "vclock_observed ?v base_insertion" using ok unfolding network_ok_def replica_ok_def by blast
  have "vclock_get (op_version A) r \<le> vclock_get ?v r" for r
  proof (cases "vclock_get (op_version A) r = 0")
    case False
    define t where "t = Lamport (vclock_get (op_version A) r) r"
    have t: "t \<in> insert base_insertion (op_timestamp ` ?S)" "vclock_observed (op_version A) t"
      using stamps False by (auto simp: stamped_def t_def vclock_observed_def)
    have "vclock_observed ?v t"
    proof (cases "t = base_insertion")
      case False
      then obtain B where B: "B \<in> ?S" "op_timestamp B = t" using t(1) by blast
      then have "op_timestamp B < op_timestamp A" using t(2) sent_okD(5) [OF sent A B(1)] by (simp add: knows_def)
      then show ?thesis using assms(3) B by blast
    qed (use base in simp)
    then show ?thesis by (simp add: vclock_observed_def t_def)
  qed simp
  moreover have "length (op_version A) \<le> 2 ^ 16" "length ?v \<le> 2 ^ 16"
    using sent_okD(1) [OF sent A] ok unfolding network_ok_def replica_ok_def vclock_wf_def by blast+
  ultimately show ?thesis
    unfolding vclock_observed_all_iff [OF sent_okD(1) [OF sent A]]
    using all_replicas_iff [of "op_version A" ?v "\<lambda>a b _. a \<le> b"] by simp
qed

text \<open>C6: Progress.  A replica that has not observed some operation of the network has not observed one whose
  causes it has all observed, so delivery never deadlocks.  Applying an operation whose causes are there
  (\<open>Buffer::apply_op\<close>) returns and makes the operation observed; \<open>shallow_op\<close> is the bound of the cursor's stack on
  the undo map, and asks nothing of an edit.\<close>

theorem replica_progress:
  assumes "reachable base n" "op \<in> set (nw_sent n)" "\<not> vclock_observed (bu_version (nw_replicas n i)) (op_timestamp op)"
  shows "(\<exists>next \<in> set (nw_sent n). \<not> vclock_observed (bu_version (nw_replicas n i)) (op_timestamp next) \<and>
      vclock_observed_all (bu_version (nw_replicas n i)) (op_version next)) \<and>
    (vclock_observed_all (bu_version (nw_replicas n i)) (op_version op) \<and> shallow_op (bu_snapshot (nw_replicas n i)) op \<longrightarrow>
      (\<exists>b'. bu_apply_op op (nw_replicas n i) = Some b' \<and>
        bu_version b' = vclock_observe (bu_version (nw_replicas n i)) (op_timestamp op)))"
proof
  let ?S = "set (nw_sent n)" and ?v = "bu_version (nw_replicas n i)"
  have ok: "network_ok base n" by (rule reachable_ok [OF assms(1)])
  define T where "T = op_timestamp ` {B \<in> ?S. \<not> vclock_observed ?v (op_timestamp B)}"
  have T: "finite T" "T \<noteq> {}" using assms(2,3) by (auto simp: T_def)
  obtain A where A: "A \<in> ?S" "\<not> vclock_observed ?v (op_timestamp A)" "op_timestamp A = Min T"
    using Min_in [OF T] unfolding T_def by auto
  have "vclock_observed ?v (op_timestamp B)" if "B \<in> ?S" "op_timestamp B < op_timestamp A" for B
  proof (rule ccontr)
    assume "\<not> vclock_observed ?v (op_timestamp B)"
    then have "Min T \<le> op_timestamp B" using that(1) T(1) by (intro Min_le) (auto simp: T_def)
    then show False using that(2) A(3) by simp
  qed
  then have "vclock_observed_all ?v (op_version A)" using causes_observed [OF ok A(1)] by blast
  then show "\<exists>next \<in> ?S. \<not> vclock_observed ?v (op_timestamp next) \<and> vclock_observed_all ?v (op_version next)" using A by blast
  show "vclock_observed_all ?v (op_version op) \<and> shallow_op (bu_snapshot (nw_replicas n i)) op \<longrightarrow>
      (\<exists>b'. bu_apply_op op (nw_replicas n i) = Some b' \<and> bu_version b' = vclock_observe ?v (op_timestamp op))"
    using apply_returns [OF ok assms(2,3)] by blast
qed

section \<open>A sample network\<close>

definition sample_start :: network where
  "sample_start = \<lparr>nw_replicas = \<lambda>i. the (bu_new_normalized i 300 ''ab''), nw_sent = []\<rparr>"

lemma sample_new: "bu_new_normalized i 300 ''ab'' = Some (nw_replicas sample_start i)"
  using base_fragments_one [of "''ab''"] by (simp add: sample_start_def bu_new_normalized_def Let_def flip: base_insertion_def)

lemma sample_start_reachable: "reachable ''ab'' sample_start"
proof (rule reachable.start)
  show "\<forall>i. \<exists>interval. bu_new_normalized i interval ''ab'' = Some (nw_replicas sample_start i)" using sample_new by blast
qed (simp_all add: sample_start_def)

lemma sample_start_fields:
  "bu_version (nw_replicas sample_start i) = vclock_observe vclock_new base_insertion"
  "bu_lamport_clock (nw_replicas sample_start i) = Lamport 2 i" "bu_history (nw_replicas sample_start i) = hi_new 300 ''ab''"
  "sn_visible_text (bu_snapshot (nw_replicas sample_start i)) = ''ab''" "bu_deferred_replicas (nw_replicas sample_start i) = []"
  using new_fields [OF _ _ sample_new [of i]] by simp_all

text \<open>The first edit of a replica of the sample network.\<close>

lemma sample_ready: "hist_ready (hi_new 300 ''ab'')"
  by (simp add: hist_ready_def hi_new_def) (simp add: tm_new_def st_new_def)

lemma sample_edit:
  assumes "reachable ''ab'' n" "nw_replicas n i = nw_replicas sample_start i" "c < 2" "t \<in> {''X'', ''Y''}"
  obtains b e where "net_step n (put_replica i b [EditOp e] n)"
    "sn_visible_text (bu_snapshot b) = splice 0 [((c, c), t)] ''ab''"
    "bu_version b = vclock_observe (vclock_observe vclock_new base_insertion) (eo_timestamp e)"
    "eo_version e = vclock_observe vclock_new base_insertion" "eo_timestamp e \<in> {Lamport 2 i, Lamport 3 i}"
    "bu_lamport_clock b \<in> {Lamport 3 i, Lamport 4 i}" "bu_deferred_replicas b = []"
proof -
  have "ticks (Lamport 2 i)" by (simp add: ticks_def)
  then obtain b e where b: "bu_edit [((c, c), t)] 0 0 (nw_replicas n i) = Some (b, EditOp e)" "net_step n (put_replica i b [EditOp e] n)"
      "sn_visible_text (bu_snapshot b) = splice 0 [((c, c), t)] ''ab''"
      "bu_version b = vclock_observe (vclock_observe vclock_new base_insertion) (eo_timestamp e)"
      "eo_version e = vclock_observe vclock_new base_insertion" "eo_timestamp e \<in> {Lamport 2 i, snd (lamport_tick (Lamport 2 i))}"
      "bu_lamport_clock b = snd (lamport_tick (eo_timestamp e))"
    using network_edit [OF reachable_ok [OF assms(1)] refl, of i "[((c, c), t)]" 0 0] assms(2-4) sample_ready
    by (auto simp: sample_start_fields)
  moreover have "bu_deferred_replicas b = []" using bu_edit_deferred [OF b(1)] assms(2) by (simp add: sample_start_fields)
  ultimately show thesis by (intro that) (auto simp: lamport_tick_def)
qed

text \<open>Replica 8 inserts an \<open>X\<close>; replica 9 inserts a \<open>Y\<close> at the same place.\<close>

lemma sample_new_operation:
  assumes "eo_timestamp e \<in> {Lamport 2 i, Lamport 3 i}" "i \<noteq> LOCAL" "i \<noteq> j" "u \<in> {Lamport 2 j, Lamport 3 j}"
  shows "\<not> vclock_observed (vclock_observe vclock_new base_insertion) (eo_timestamp e)"
    "\<not> vclock_observed (vclock_observe (vclock_observe vclock_new base_insertion) u) (eo_timestamp e)"
    "vclock_observed_all (vclock_observe (vclock_observe vclock_new base_insertion) u) (vclock_observe vclock_new base_insertion)"
    "vclock_observed_all (vclock_observe vclock_new base_insertion) (vclock_observe vclock_new base_insertion)"
proof -
  show "\<not> vclock_observed (vclock_observe vclock_new base_insertion) (eo_timestamp e)"
    "\<not> vclock_observed (vclock_observe (vclock_observe vclock_new base_insertion) u) (eo_timestamp e)"
    using assms by (auto simp: observed_observe base_insertion_def lamport_new_def vclock_observed_def get_new vclock_get_observe)
  have "vclock_wf (vclock_observe vclock_new base_insertion)" by (intro vclock_wf_observe) (simp add: vclock_wf_def vclock_new_def)
  then show "vclock_observed_all (vclock_observe (vclock_observe vclock_new base_insertion) u) (vclock_observe vclock_new base_insertion)"
    "vclock_observed_all (vclock_observe vclock_new base_insertion) (vclock_observe vclock_new base_insertion)"
    by (simp_all add: vclock_observed_all_iff at_observe)
qed

lemma sample_concurrent:
  obtains n e f where "reachable ''ab'' n" "nw_sent n = [EditOp f, EditOp e]" "\<not> knows (EditOp e) (EditOp f)" "\<not> knows (EditOp f) (EditOp e)"
    "bu_version (nw_replicas n 8) = bu_version (nw_replicas n 9)"
proof -
  let ?v = "vclock_observe vclock_new base_insertion"
  obtain b8 e where 8: "net_step sample_start (put_replica 8 b8 [EditOp e] sample_start)"
      "sn_visible_text (bu_snapshot b8) = splice 0 [((1, 1), ''X'')] ''ab''"
      "bu_version b8 = vclock_observe ?v (eo_timestamp e)" "eo_version e = ?v" "eo_timestamp e \<in> {Lamport 2 8, Lamport 3 8}"
      "bu_lamport_clock b8 \<in> {Lamport 3 8, Lamport 4 8}" "bu_deferred_replicas b8 = []"
    by (rule sample_edit [OF sample_start_reachable refl, of 1 "''X''" 8]) simp_all
  define n1 where "n1 = put_replica 8 b8 [EditOp e] sample_start"
  have r1: "reachable ''ab'' n1" unfolding n1_def by (rule reachable.step [OF sample_start_reachable 8(1)])
  obtain b9 f where 9: "net_step n1 (put_replica 9 b9 [EditOp f] n1)"
      "sn_visible_text (bu_snapshot b9) = splice 0 [((1, 1), ''Y'')] ''ab''"
      "bu_version b9 = vclock_observe ?v (eo_timestamp f)" "eo_version f = ?v" "eo_timestamp f \<in> {Lamport 2 9, Lamport 3 9}"
      "bu_lamport_clock b9 \<in> {Lamport 3 9, Lamport 4 9}" "bu_deferred_replicas b9 = []"
    by (rule sample_edit [OF r1, of 9 1 "''Y''"]) (simp_all add: n1_def)
  define n2 where "n2 = put_replica 9 b9 [EditOp f] n1"
  have r2: "reachable ''ab'' n2" unfolding n2_def by (rule reachable.step [OF r1 9(1)])
  have new: "\<not> vclock_observed ?v (eo_timestamp e)" "\<not> vclock_observed ?v (eo_timestamp f)"
      "\<not> vclock_observed (bu_version b9) (eo_timestamp e)" "\<not> vclock_observed (bu_version b8) (eo_timestamp f)"
      "vclock_observed_all (bu_version b9) (eo_version e)" "vclock_observed_all (bu_version b8) (eo_version f)"
    using sample_new_operation [OF 8(5), of 9 "eo_timestamp f"] sample_new_operation [OF 9(5), of 8 "eo_timestamp e"] 8(3-5) 9(3-5)
    by (simp_all add: LOCAL_def)
  have t: "ticks (bu_lamport_clock b8)" "ticks (bu_lamport_clock b9)" "ticks (eo_timestamp e)" "ticks (eo_timestamp f)"
    using 8(5,6) 9(5,6) by (auto simp: ticks_def)
  obtain c9 where c9: "net_step n2 (put_replica 9 c9 [] n2)" "bu_version c9 = vclock_observe (bu_version b9) (eo_timestamp e)"
    using network_deliver [OF reachable_ok [OF r2], of b9 9 "EditOp e"] new t 9(7) by (auto simp: n2_def n1_def shallow_op_def)
  define n3 where "n3 = put_replica 9 c9 [] n2"
  have r3: "reachable ''ab'' n3" unfolding n3_def by (rule reachable.step [OF r2 c9(1)])
  obtain c8 where c8: "net_step n3 (put_replica 8 c8 [] n3)" "bu_version c8 = vclock_observe (bu_version b8) (eo_timestamp f)"
    using network_deliver [OF reachable_ok [OF r3], of b8 8 "EditOp f"] new t 8(7) by (auto simp: n3_def n2_def n1_def shallow_op_def)
  have "bu_version c8 = bu_version c9"
    unfolding c8(2) c9(2) 8(3) 9(3)
  proof (rule vclock_wf_ext_at)
    show "vclock_wf (vclock_observe (vclock_observe ?v (eo_timestamp e)) (eo_timestamp f))"
      "vclock_wf (vclock_observe (vclock_observe ?v (eo_timestamp f)) (eo_timestamp e))"
      by (intro vclock_wf_observe, simp add: vclock_wf_def vclock_new_def)+
    show "at (vclock_observe (vclock_observe ?v (eo_timestamp e)) (eo_timestamp f)) i =
        at (vclock_observe (vclock_observe ?v (eo_timestamp f)) (eo_timestamp e)) i" for i
      by (simp add: at_observe max.commute max.left_commute)
  qed
  then show thesis
    using reachable.step [OF r3 c8(1)] new(1,2) 8(4) 9(4)
    by (intro that [of "put_replica 8 c8 [] n3" f e]) (simp_all add: n3_def n2_def n1_def knows_def sample_start_def)
qed

section \<open>Witnesses\<close>

text \<open>Two concurrent insertions at the same place, each delivered to the other replica.\<close>

theorem replicas_converge_witness:
  "\<exists>n e f. reachable ''ab'' n \<and> nw_sent n = [EditOp f, EditOp e] \<and>
     \<not> knows (EditOp e) (EditOp f) \<and> \<not> knows (EditOp f) (EditOp e) \<and> bu_version (nw_replicas n 8) = bu_version (nw_replicas n 9) \<and>
     sn_visible_text (bu_snapshot (nw_replicas n 8)) = sn_visible_text (bu_snapshot (nw_replicas n 9)) \<and>
     sn_deleted_text (bu_snapshot (nw_replicas n 8)) = sn_deleted_text (bu_snapshot (nw_replicas n 9))"
proof -
  obtain n e f where n: "reachable ''ab'' n" "nw_sent n = [EditOp f, EditOp e]" "\<not> knows (EditOp e) (EditOp f)"
      "\<not> knows (EditOp f) (EditOp e)" "bu_version (nw_replicas n 8) = bu_version (nw_replicas n 9)"
    by (rule sample_concurrent)
  then show ?thesis using replicas_converge [OF n(1,5)] by blast
qed

theorem replica_runs_observed_witness:
  "\<exists>n e f log. reachable ''ab'' n \<and> nw_sent n = [EditOp f, EditOp e] \<and>
     set log = {op \<in> set (nw_sent n). vclock_observed (bu_version (nw_replicas n 8)) (op_timestamp op)} \<and>
     distinct log \<and> causal log \<and> sn_visible_text (bu_snapshot (nw_replicas n 8)) = run_text ''ab'' log"
proof -
  obtain n e f where n: "reachable ''ab'' n" "nw_sent n = [EditOp f, EditOp e]" by (rule sample_concurrent)
  obtain log where "set log = {op \<in> set (nw_sent n). vclock_observed (bu_version (nw_replicas n 8)) (op_timestamp op)}"
      "distinct log" "causal log" "sn_visible_text (bu_snapshot (nw_replicas n 8)) = run_text ''ab'' log"
    using replica_runs_observed [OF n(1), of 8] by blast
  with n show ?thesis by blast
qed

text \<open>Replica 9 before the edit of replica 8 is delivered.\<close>

theorem replica_progress_witness:
  "\<exists>n e b'. reachable ''ab'' n \<and> nw_sent n = [EditOp e] \<and>
     \<not> vclock_observed (bu_version (nw_replicas n 9)) (eo_timestamp e) \<and>
     vclock_observed_all (bu_version (nw_replicas n 9)) (eo_version e) \<and> shallow_op (bu_snapshot (nw_replicas n 9)) (EditOp e) \<and>
     bu_apply_op (EditOp e) (nw_replicas n 9) = Some b' \<and>
     bu_version b' = vclock_observe (bu_version (nw_replicas n 9)) (eo_timestamp e)"
proof -
  obtain b8 e where 8: "net_step sample_start (put_replica 8 b8 [EditOp e] sample_start)"
      "eo_version e = vclock_observe vclock_new base_insertion" "eo_timestamp e \<in> {Lamport 2 8, Lamport 3 8}"
    by (rule sample_edit [OF sample_start_reachable refl, of 1 "''X''" 8]) simp_all
  let ?n = "put_replica 8 b8 [EditOp e] sample_start"
  have reach: "reachable ''ab'' ?n" by (rule reachable.step [OF sample_start_reachable 8(1)])
  have b: "bu_version (nw_replicas ?n 9) = vclock_observe vclock_new base_insertion" "nw_sent ?n = [EditOp e]"
    by (simp add: sample_start_fields, simp add: sample_start_def)
  have new: "\<not> vclock_observed (bu_version (nw_replicas ?n 9)) (eo_timestamp e)"
      "vclock_observed_all (bu_version (nw_replicas ?n 9)) (eo_version e)" "shallow_op (bu_snapshot (nw_replicas ?n 9)) (EditOp e)"
    using sample_new_operation(1,4) [OF 8(3), of 9 "Lamport 2 9"] unfolding b 8(2) by (simp_all add: LOCAL_def shallow_op_def)
  then show ?thesis using replica_progress [OF reach, of "EditOp e" 9] b(2) reach by fastforce
qed

end
