(* ===== verification/Zed_Deferred.thy ===== *)
theory Zed_Deferred
  imports Zed_Replication
begin

text \<open>
  Batches of operations: \<open>apply_ops\<close> applies what it can, defers the rest and retries what was deferred.  In a
  network it is a run of single deliveries, and it leaves behind only operations that lack a cause.
\<close>

section \<open>Blocked operations\<close>

lemma observed_all_get:
  assumes "vclock_wf u" "vclock_wf v"
  shows "vclock_observed_all v u \<longleftrightarrow> (\<forall>r. vclock_get u r \<le> vclock_get v r)"
  unfolding vclock_observed_all_iff [OF assms(1)]
  using all_replicas_iff [of u v "\<lambda>a b _. a \<le> b"] assms by (simp add: vclock_wf_def)

text \<open>A later operation does not bring what a blocked one waits for.\<close>

lemma still_blocked:
  assumes sent: "sent_ok base S" and A: "A \<in> S" "stamped S (op_version A)" and C: "C \<in> S" "op_timestamp A < op_timestamp C"
    and v: "vclock_wf v" "vclock_observed v base_insertion" "vclock_observed_all v (op_version C)"
    and blocked: "\<not> vclock_observed_all v (op_version A)"
  shows "\<not> vclock_observed_all (vclock_observe v (op_timestamp C)) (op_version A)"
proof
  assume all: "vclock_observed_all (vclock_observe v (op_timestamp C)) (op_version A)"
  have wf: "vclock_wf (op_version A)" "vclock_wf (op_version C)" by (rule sent_okD(1) [OF sent], fact)+
  obtain r where r: "\<not> vclock_get (op_version A) r \<le> vclock_get v r"
    using blocked observed_all_get [OF wf(1) v(1)] by blast
  have "vclock_get (op_version A) r \<le> vclock_get (vclock_observe v (op_timestamp C)) r"
    using all observed_all_get [OF wf(1) vclock_wf_observe [OF v(1)]] by blast
  then have rep: "r = lam_replica (op_timestamp C)" "vclock_get (op_version A) r \<le> lam_value (op_timestamp C)"
    using r by (auto simp: vclock_get_observe split: if_splits simp: le_max_iff_disj)
  define t where "t = Lamport (vclock_get (op_version A) r) r"
  have "vclock_get (op_version A) r \<noteq> 0" using r by auto
  then have t: "t \<in> insert base_insertion (op_timestamp ` S)" "vclock_observed (op_version A) t" "\<not> vclock_observed v t"
    using A(2) r by (auto simp: stamped_def t_def vclock_observed_def)
  then obtain B where B: "B \<in> S" "op_timestamp B = t" using v(2) by auto
  have "knows A B" using t(2) B(2) by (simp add: knows_def)
  then have "op_timestamp B < op_timestamp C" using sent_okD(5) [OF sent A(1) B(1)] C(2) by simp
  then have "knows C B" using sent_okD(7) [OF sent C(1) B(1)] rep(1) B(2) by (simp add: t_def)
  then have "vclock_observed v t" using observed_all_observed [OF wf(2) v(3)] B(2) by (simp add: knows_def)
  then show False using t(3) by simp
qed

text \<open>What a replica has observed it could apply.\<close>

lemma observed_applicable:
  assumes ok: "network_ok base n" and A: "A \<in> set (nw_sent n)" "vclock_observed (bu_version (nw_replicas n i)) (op_timestamp A)"
  shows "vclock_observed_all (bu_version (nw_replicas n i)) (op_version A)"
proof -
  let ?S = "set (nw_sent n)" and ?v = "bu_version (nw_replicas n i)"
  obtain log where r: "replica_ok base ?S i (nw_replicas n i) log" using ok unfolding network_ok_def by blast
  have sent: "sent_ok base ?S" and stamps: "stamped ?S (op_version A)" using ok A by (simp_all add: network_ok_def)
  have log: "\<forall>B \<in> ?S. vclock_observed ?v (op_timestamp B) \<longleftrightarrow> B \<in> set log" "\<forall>C \<in> set log. \<forall>B \<in> ?S. knows C B \<longrightarrow> B \<in> set log"
      "vclock_wf ?v" "vclock_observed ?v base_insertion"
    using r unfolding replica_ok_def by blast+
  have "vclock_get (op_version A) q \<le> vclock_get ?v q" for q
  proof (cases "vclock_get (op_version A) q = 0")
    case False
    define t where "t = Lamport (vclock_get (op_version A) q) q"
    have t: "t \<in> insert base_insertion (op_timestamp ` ?S)" "vclock_observed (op_version A) t"
      using stamps False by (auto simp: stamped_def t_def vclock_observed_def)
    have "vclock_observed ?v t" if "B \<in> ?S" "op_timestamp B = t" for B
      using that t(2) log(1,2) A by (auto simp: knows_def)
    then have "vclock_observed ?v t" using t(1) log(4) by blast
    then show ?thesis by (simp add: vclock_observed_def t_def)
  qed simp
  then show ?thesis using observed_all_get [OF sent_okD(1) [OF sent A(1)] log(3)] by blast
qed

text \<open>An operation whose author has an earlier blocked operation is blocked.\<close>

lemma blocked_by_own:
  assumes ok: "network_ok base n" and A: "A \<in> set (nw_sent n)" and C: "C \<in> set (nw_sent n)"
    and own: "op_replica_id A = op_replica_id C" "op_timestamp C < op_timestamp A"
    and blocked: "\<not> vclock_observed_all (bu_version (nw_replicas n i)) (op_version C)"
  shows "\<not> vclock_observed_all (bu_version (nw_replicas n i)) (op_version A)"
proof
  assume all: "vclock_observed_all (bu_version (nw_replicas n i)) (op_version A)"
  have sent: "sent_ok base (set (nw_sent n))" using ok by (simp add: network_ok_def)
  have "knows A C" using sent_okD(7) [OF sent A C] own by (simp add: op_replica_id_def)
  then have "vclock_observed (bu_version (nw_replicas n i)) (op_timestamp C)"
    using observed_all_observed [OF sent_okD(1) [OF sent A] all] by (simp add: knows_def)
  then show False using observed_applicable [OF ok C] blocked by blast
qed

section \<open>Single deliveries\<close>

text \<open>What keeps the clocks from wrapping and the trees below the height of the cursor's stack, in every state
  that a batch passes through.\<close>

definition op_low :: "buffer \<Rightarrow> operation \<Rightarrow> bool" where
  "op_low b op \<longleftrightarrow> ticks (bu_lamport_clock b) \<and> ticks (op_timestamp op) \<and>
     (vclock_observed (bu_version b) (op_timestamp op) \<or> shallow_op (bu_snapshot b) op)"

fun flush_low :: "operation list \<Rightarrow> buffer \<Rightarrow> bool" where
  "flush_low [] b \<longleftrightarrow> True"
| "flush_low (op # ops) b \<longleftrightarrow>
     (if can_apply_op b op then op_low b op \<and> (case bu_apply_op op b of None \<Rightarrow> True | Some b \<Rightarrow> flush_low ops b)
      else flush_low ops (bu_defer op b))"

fun apply_low :: "operation list \<Rightarrow> buffer \<Rightarrow> bool" where
  "apply_low [] b \<longleftrightarrow> True"
| "apply_low (op # ops) b \<longleftrightarrow> st_height (hi_operations (bu_history b)) < 16 \<and>
     (case hi_push (bu_history b) op of
        None \<Rightarrow> True
      | Some h \<Rightarrow>
          let b = b\<lparr>bu_history := h\<rparr> in
          if can_apply_op b op then op_low b op \<and> (case bu_apply_op op b of None \<Rightarrow> True | Some b \<Rightarrow> apply_low ops b)
          else apply_low ops (bu_defer op b))"

definition batch_low :: "operation list \<Rightarrow> buffer \<Rightarrow> bool" where
  "batch_low ops b \<longleftrightarrow> apply_low ops b \<and> st_height (bu_deferred_ops b) < 16 \<and>
     (case apply_ops_loop ops (b, []) of
        None \<Rightarrow> True
      | Some (b, deferred) \<Rightarrow>
          case bu_insert_deferred deferred b of
            None \<Rightarrow> True
          | Some b \<Rightarrow> st_height (bu_deferred_ops b) < 16 \<and>
              flush_low (st_items (bu_deferred_ops b)) (b\<lparr>bu_deferred_ops := oq_new op_timestamp, bu_deferred_replicas := []\<rparr>))"

lemma bu_apply_op_keeps:
  "bu_apply_op op b = Some b' \<Longrightarrow> bu_deferred_ops b' = bu_deferred_ops b \<and> bu_deferred_replicas b' = bu_deferred_replicas b \<and>
     bu_history b' = bu_history b"
  by (auto simp: bu_apply_op_def bu_apply_remote_edit_def bu_apply_undo_def bu_publish_def bu_observe_op_def bu_observe_version_def
      bu_resolve_edit_def bu_wake_def split: operation.splits if_splits option.splits prod.splits)

text \<open>The replica of \<open>n\<close> has become \<open>b\<close> by steps of its own.\<close>

definition becomes :: "network \<Rightarrow> replica_id \<Rightarrow> buffer \<Rightarrow> bool" where
  "becomes n i b \<longleftrightarrow> net_step\<^sup>*\<^sup>* n (put_replica i b [] n)"

lemma becomes_step:
  assumes "becomes n i b" "net_step (put_replica i b [] n) (put_replica i b' [] (put_replica i b [] n))"
  shows "becomes n i b'"
proof -
  have "put_replica i b' [] (put_replica i b [] n) = put_replica i b' [] n" by simp
  then show ?thesis using assms unfolding becomes_def by (metis rtranclp.rtrancl_into_rtrancl)
qed

lemma becomes_refl: "becomes n i (nw_replicas n i)"
  by (simp add: becomes_def)

lemma becomes_ok:
  assumes "network_ok base n" "becomes n i b"
  shows "network_ok base (put_replica i b [] n)"
proof -
  have "net_step\<^sup>*\<^sup>* n n' \<Longrightarrow> network_ok base n'" for n'
    by (induction rule: rtranclp_induct) (auto intro: assms(1) step_ok)
  then show ?thesis using assms(2) by (simp add: becomes_def)
qed

lemma becomes_books: "becomes n i b \<Longrightarrow> becomes n i (books operations deferred replicas b)"
  using becomes_step net_step.books [of "put_replica i b [] n" i operations deferred replicas] by simp

lemma becomes_push:
  assumes "becomes n i b" "hi_push (bu_history b) op = Some h"
  shows "becomes n i (b\<lparr>bu_history := h\<rparr>)"
proof -
  obtain ops where "h = (bu_history b)\<lparr>hi_operations := ops\<rparr>" using assms(2) by (auto simp: hi_push_def)
  then have "b\<lparr>bu_history := h\<rparr> = books ops (bu_deferred_ops b) (bu_deferred_replicas b) b" by (simp add: books_def)
  then show ?thesis using becomes_books [OF assms(1)] by simp
qed

lemma becomes_deferred:
  assumes "becomes n i b"
  shows "becomes n i (b\<lparr>bu_deferred_ops := q, bu_deferred_replicas := rs\<rparr>)"
proof -
  have "b\<lparr>bu_deferred_ops := q, bu_deferred_replicas := rs\<rparr> = books (hi_operations (bu_history b)) q rs b" by (simp add: books_def)
  then show ?thesis using becomes_books [OF assms] by simp
qed

lemma becomes_queue:
  assumes "becomes n i b"
  shows "becomes n i (b\<lparr>bu_deferred_ops := q\<rparr>)"
proof -
  have "b\<lparr>bu_deferred_ops := q\<rparr> = books (hi_operations (bu_history b)) q (bu_deferred_replicas b) b"
    by (cases b) (simp add: books_def)
  then show ?thesis using becomes_books [OF assms] by metis
qed

lemma becomes_defer:
  assumes "becomes n i b"
  shows "becomes n i (bu_defer op b)"
proof -
  have "bu_defer op b = b\<lparr>bu_deferred_ops := bu_deferred_ops b,
      bu_deferred_replicas := List.insert (op_replica_id op) (bu_deferred_replicas b)\<rparr>"
    by (cases b) (simp add: bu_defer_def)
  then show ?thesis by (simp only: becomes_deferred [OF assms])
qed

lemma network_low: "network_ok base n \<Longrightarrow> low (bu_snapshot (nw_replicas n i))"
  unfolding network_ok_def replica_ok_def tracks_def by blast

lemma network_version:
  "network_ok base n \<Longrightarrow> vclock_wf (bu_version (nw_replicas n i)) \<and> vclock_observed (bu_version (nw_replicas n i)) base_insertion"
  unfolding network_ok_def replica_ok_def by blast

lemma becomes_apply:
  assumes ok: "network_ok base n" and b: "becomes n i b" and op: "op \<in> set (nw_sent n)" "can_apply_op b op" "op_low b op"
  shows "\<exists>b'. bu_apply_op op b = Some b' \<and> becomes n i b' \<and> vclock_observed (bu_version b') (op_timestamp op) \<and>
    bu_version b' \<in> {bu_version b, vclock_observe (bu_version b) (op_timestamp op)}"
proof -
  let ?n = "put_replica i b [] n"
  have ok': "network_ok base ?n" by (rule becomes_ok [OF ok b])
  have "\<exists>b'. bu_apply_op op b = Some b' \<and> low (bu_snapshot b') \<and> vclock_observed (bu_version b') (op_timestamp op) \<and>
      bu_version b' \<in> {bu_version b, vclock_observe (bu_version b) (op_timestamp op)}"
  proof (cases "vclock_observed (bu_version b) (op_timestamp op)")
    case True
    then have "bu_apply_op op b = Some (bu_wake b)" by (cases op) (simp_all add: bu_apply_op_def)
    moreover have "low (bu_snapshot b)" using network_low [OF ok', of i] by simp
    ultimately show ?thesis using True by simp
  next
    case False
    then show ?thesis
      using apply_returns [OF ok', of op i] op by (auto simp: op_low_def can_apply_op_def observed_observe split: if_splits)
  qed
  then obtain b' where b': "bu_apply_op op b = Some b'" "low (bu_snapshot b')" "vclock_observed (bu_version b') (op_timestamp op)"
      "bu_version b' \<in> {bu_version b, vclock_observe (bu_version b) (op_timestamp op)}" by blast
  have "net_step ?n (put_replica i b' [] ?n)"
    using net_step.deliver [of b ?n i op b'] op b'(1,2) by (simp add: op_low_def)
  with b' becomes_step [OF b] show ?thesis by blast
qed

section \<open>The loops\<close>

text \<open>What a loop makes of the operations it is given: each is observed or deferred.\<close>

definition handled :: "network \<Rightarrow> replica_id \<Rightarrow> operation list \<Rightarrow> buffer \<times> operation list \<Rightarrow> buffer \<times> operation list \<Rightarrow> bool" where
  "handled n i ops st st' \<longleftrightarrow> (case (st, st') of ((b, d), (b', d')) \<Rightarrow>
     becomes n i b' \<and> set d \<subseteq> set d' \<and> set d' \<subseteq> set d \<union> set ops \<and>
     (\<forall>op \<in> set ops. vclock_observed (bu_version b') (op_timestamp op) \<or> op \<in> set d') \<and>
     (\<forall>t. vclock_observed (bu_version b) t \<longrightarrow> vclock_observed (bu_version b') t) \<and> bu_deferred_ops b' = bu_deferred_ops b)"

lemma handled_nil: "becomes n i b \<Longrightarrow> handled n i [] (b, d) (b, d)"
  by (simp add: handled_def)

lemma handled_apply:
  assumes "handled n i ops (b1, d) st'" "vclock_observed (bu_version b1) (op_timestamp op)"
    "\<And>t. vclock_observed (bu_version b) t \<Longrightarrow> vclock_observed (bu_version b1) t" "bu_deferred_ops b1 = bu_deferred_ops b"
  shows "handled n i (op # ops) (b, d) st'"
  using assms by (cases st') (auto simp: handled_def)

lemma handled_defer:
  assumes "handled n i ops (b1, d @ [op]) st'" "bu_version b1 = bu_version b" "bu_deferred_ops b1 = bu_deferred_ops b"
  shows "handled n i (op # ops) (b, d) st'"
  using assms by (cases st') (auto simp: handled_def)

lemma defer_fields [simp]:
  "bu_snapshot (bu_defer op b) = bu_snapshot b" "bu_deferred_ops (bu_defer op b) = bu_deferred_ops b"
  "bu_history (bu_defer op b) = bu_history b"
  "set (bu_deferred_replicas (bu_defer op b)) = insert (op_replica_id op) (set (bu_deferred_replicas b))"
  by (simp_all add: bu_defer_def)

lemma observed_mono: "v' \<in> {v, vclock_observe v t} \<Longrightarrow> vclock_observed v u \<Longrightarrow> vclock_observed v' u"
  by (auto simp: observed_observe)

lemma apply_loop:
  assumes ok: "network_ok base n"
  shows "becomes n i b \<Longrightarrow> set ops \<subseteq> set (nw_sent n) \<Longrightarrow> tm_ok (hi_operations (bu_history b)) \<Longrightarrow> apply_low ops b \<Longrightarrow>
    \<exists>st'. apply_ops_loop ops (b, d) = Some st' \<and> handled n i ops (b, d) st'"
proof (induction ops arbitrary: b d)
  case Nil
  then show ?case by (simp add: handled_nil)
next
  case (Cons op ops)
  obtain t where t: "tm_insert (hi_operations (bu_history b)) (op_timestamp op) op = Some t" "tm_ok t"
    using tm_insert_abs [of "hi_operations (bu_history b)" "op_timestamp op" op] Cons.prems(3,4) by auto
  define h where "h = (bu_history b)\<lparr>hi_operations := t\<rparr>"
  define b1 where "b1 = b\<lparr>bu_history := h\<rparr>"
  have push: "hi_push (bu_history b) op = Some h" using t(1) by (simp add: hi_push_def h_def)
  have b1: "becomes n i b1" "tm_ok (hi_operations (bu_history b1))"
    using becomes_push [OF Cons.prems(1) push] t(2) by (simp_all add: b1_def h_def)
  show ?case
  proof (cases "can_apply_op b1 op")
    case True
    then have low: "op_low b1 op" "\<forall>b'. bu_apply_op op b1 = Some b' \<longrightarrow> apply_low ops b'"
      using Cons.prems(4) push by (auto simp: b1_def Let_def)
    obtain b2 where b2: "bu_apply_op op b1 = Some b2" "becomes n i b2" "vclock_observed (bu_version b2) (op_timestamp op)"
        "bu_version b2 \<in> {bu_version b1, vclock_observe (bu_version b1) (op_timestamp op)}"
      using becomes_apply [OF ok b1(1) _ True low(1)] Cons.prems(2) by auto
    note keeps = bu_apply_op_keeps [OF b2(1)]
    obtain st' where st': "apply_ops_loop ops (b2, d) = Some st'" "handled n i ops (b2, d) st'"
      using Cons.IH [of b2 d] b2(1,2) Cons.prems(2) b1(2) low(2) keeps by auto
    have "handled n i (op # ops) (b, d) st'"
      using handled_apply [OF st'(2) b2(3), of b] observed_mono [OF b2(4)] keeps by (simp add: b1_def)
    then show ?thesis using st'(1) push True b2(1) by (simp add: b1_def)
  next
    case False
    then have "apply_low ops (bu_defer op b1)" using Cons.prems(4) push by (simp add: b1_def Let_def)
    then obtain st' where st': "apply_ops_loop ops (bu_defer op b1, d @ [op]) = Some st'" "handled n i ops (bu_defer op b1, d @ [op]) st'"
      using Cons.IH [of "bu_defer op b1" "d @ [op]"] becomes_defer [OF b1(1)] Cons.prems(2) b1(2) by auto
    have "handled n i (op # ops) (b, d) st'" by (rule handled_defer [OF st'(2)]) (simp_all add: b1_def)
    then show ?thesis using st'(1) push False by (simp add: b1_def)
  qed
qed

text \<open>In timestamp order the deferred operations stay blocked.\<close>

definition all_blocked :: "buffer \<Rightarrow> operation list \<Rightarrow> bool" where
  "all_blocked b d \<longleftrightarrow> (\<forall>op \<in> set d. \<not> vclock_observed_all (bu_version b) (op_version op))"

lemma flush_loop:
  assumes ok: "network_ok base n"
  shows "becomes n i b \<Longrightarrow> set ops \<subseteq> set (nw_sent n) \<Longrightarrow> set d \<subseteq> set (nw_sent n) \<Longrightarrow>
    sorted_wrt (<) (map op_timestamp (d @ ops)) \<Longrightarrow> set (bu_deferred_replicas b) = op_replica_id ` set d \<Longrightarrow>
    all_blocked b d \<Longrightarrow> flush_low ops b \<Longrightarrow>
    \<exists>st'. flush_loop ops (b, d) = Some st' \<and> handled n i ops (b, d) st' \<and> all_blocked (fst st') (snd st')"
proof (induction ops arbitrary: b d)
  case Nil
  then show ?case by (simp add: handled_nil)
next
  case (Cons op ops)
  have ok': "network_ok base (put_replica i b [] n)" by (rule becomes_ok [OF ok Cons.prems(1)])
  then have sent: "sent_ok base (set (nw_sent n))" by (simp add: network_ok_def)
  have later: "\<forall>x \<in> set d. op_timestamp x < op_timestamp op" using Cons.prems(4) by (auto simp: sorted_wrt_append)
  show ?case
  proof (cases "can_apply_op b op")
    case True
    then have low: "op_low b op" "\<forall>b'. bu_apply_op op b = Some b' \<longrightarrow> flush_low ops b'" using Cons.prems(7) by auto
    have can: "vclock_observed_all (bu_version b) (op_version op)" using True by (simp add: can_apply_op_def split: if_splits)
    obtain b2 where b2: "bu_apply_op op b = Some b2" "becomes n i b2" "vclock_observed (bu_version b2) (op_timestamp op)"
        "bu_version b2 \<in> {bu_version b, vclock_observe (bu_version b) (op_timestamp op)}"
      using becomes_apply [OF ok Cons.prems(1) _ True low(1)] Cons.prems(2) by auto
    note keeps = bu_apply_op_keeps [OF b2(1)]
    have "all_blocked b2 d"
      unfolding all_blocked_def
    proof
      fix x assume x: "x \<in> set d"
      have v: "vclock_wf (bu_version b)" "vclock_observed (bu_version b) base_insertion" "stamped (set (nw_sent n)) (op_version x)"
        using network_version [OF ok', of i] ok' x Cons.prems(3) by (auto simp: network_ok_def)
      have "\<not> vclock_observed_all (bu_version b) (op_version x)" using Cons.prems(6) x by (simp add: all_blocked_def)
      then show "\<not> vclock_observed_all (bu_version b2) (op_version x)"
        using still_blocked [OF sent _ v(3) _ _ v(1,2) can] x later Cons.prems(2,3) b2(4) by auto
    qed
    moreover have "sorted_wrt (<) (map op_timestamp (d @ ops))" using Cons.prems(4) by (simp add: sorted_wrt_append)
    ultimately obtain st' where st': "flush_loop ops (b2, d) = Some st'" "handled n i ops (b2, d) st'" "all_blocked (fst st') (snd st')"
      using Cons.IH [of b2 d] b2(1,2) Cons.prems(2,3,5) low(2) keeps by auto
    have "handled n i (op # ops) (b, d) st'"
      using handled_apply [OF st'(2) b2(3), of b] observed_mono [OF b2(4)] keeps by simp
    then show ?thesis using st'(1,3) True b2(1) by simp
  next
    case False
    have "\<not> vclock_observed_all (bu_version b) (op_version op)"
    proof (cases "op_replica_id op \<in> set (bu_deferred_replicas b)")
      case True
      then obtain x where x: "x \<in> set d" "op_replica_id op = op_replica_id x" using Cons.prems(5) by auto
      have "\<not> vclock_observed_all (bu_version (nw_replicas (put_replica i b [] n) i)) (op_version x)"
        using Cons.prems(6) x(1) by (simp add: all_blocked_def)
      from blocked_by_own [OF ok' _ _ x(2) _ this] show ?thesis using x(1) later Cons.prems(2,3) by auto
    qed (use False in \<open>simp add: can_apply_op_def\<close>)
    then have "all_blocked (bu_defer op b) (d @ [op])" using Cons.prems(6) by (simp add: all_blocked_def)
    moreover have "flush_low ops (bu_defer op b)" using Cons.prems(7) False by simp
    ultimately obtain st' where st': "flush_loop ops (bu_defer op b, d @ [op]) = Some st'" "handled n i ops (bu_defer op b, d @ [op]) st'"
        "all_blocked (fst st') (snd st')"
      using Cons.IH [of "bu_defer op b" "d @ [op]"] becomes_defer [OF Cons.prems(1)] Cons.prems(2-5) by auto
    have "handled n i (op # ops) (b, d) st'" by (rule handled_defer [OF st'(2)]) simp_all
    then show ?thesis using st'(1,3) False by simp
  qed
qed

section \<open>The batch\<close>

lemma insert_deferred:
  assumes "oq_ok op_timestamp (bu_deferred_ops b)" "st_height (bu_deferred_ops b) < 16" "inj_on op_timestamp S"
    "set (st_items (bu_deferred_ops b)) \<subseteq> S" "set ops \<subseteq> S"
  shows "\<exists>q. bu_insert_deferred ops b = Some (b\<lparr>bu_deferred_ops := q\<rparr>) \<and> oq_ok op_timestamp q \<and>
    set (st_items q) = set (st_items (bu_deferred_ops b)) \<union> set ops"
proof -
  have "inj_on op_timestamp (set (st_items (bu_deferred_ops b)) \<union> set ops)" using assms(4,5) by (intro inj_on_subset [OF assms(3)]) auto
  from oq_insert_items [OF assms(1,2) this] show ?thesis by (auto simp: bu_insert_deferred_def)
qed

lemma flush_deferred:
  assumes ok: "network_ok base n" and b: "becomes n i b"
    and q: "oq_ok op_timestamp (bu_deferred_ops b)" "st_height (bu_deferred_ops b) < 16" "set (st_items (bu_deferred_ops b)) \<subseteq> set (nw_sent n)"
    and low: "flush_low (st_items (bu_deferred_ops b)) (b\<lparr>bu_deferred_ops := oq_new op_timestamp, bu_deferred_replicas := []\<rparr>)"
  shows "\<exists>b'. flush_deferred_ops b = Some b' \<and> becomes n i b' \<and>
    (\<forall>op \<in> set (st_items (bu_deferred_ops b)). vclock_observed (bu_version b') (op_timestamp op) \<or> op \<in> set (st_items (bu_deferred_ops b'))) \<and>
    all_blocked b' (st_items (bu_deferred_ops b')) \<and> (\<forall>t. vclock_observed (bu_version b) t \<longrightarrow> vclock_observed (bu_version b') t)"
proof -
  let ?ops = "st_items (bu_deferred_ops b)"
  define b1 where "b1 = b\<lparr>bu_deferred_ops := oq_new op_timestamp, bu_deferred_replicas := []\<rparr>"
  have iter: "oq_iter (bu_deferred_ops b) = Some ?ops" "sorted_wrt (<) (map op_timestamp ?ops)"
    by (rule oq_iter_items [OF q(1,2)])+
  have b1: "becomes n i b1" unfolding b1_def by (rule becomes_deferred [OF b])
  have low1: "flush_low ?ops b1" using low by (simp add: b1_def)
  obtain b2 d where r: "flush_loop ?ops (b1, []) = Some (b2, d)" "handled n i ?ops (b1, []) (b2, d)" "all_blocked b2 d"
    using flush_loop [OF ok b1 q(3), of "[]"] iter(2) low1 by (auto simp: all_blocked_def b1_def)
  have inj: "inj_on op_timestamp (set (nw_sent n))" using ok by (simp add: network_ok_def sent_ok_def)
  have sub: "set d \<subseteq> set (nw_sent n)" "bu_deferred_ops b2 = oq_new op_timestamp" "becomes n i b2"
    using r(2) q(3) by (auto simp: handled_def b1_def)
  obtain q' where q': "bu_insert_deferred d b2 = Some (b2\<lparr>bu_deferred_ops := q'\<rparr>)" "set (st_items q') = set d"
    using insert_deferred [of b2 "set (nw_sent n)" d] sub inj by auto
  let ?b = "b2\<lparr>bu_deferred_ops := q'\<rparr>"
  have "b\<lparr>bu_deferred_replicas := [], bu_deferred_ops := oq_new op_timestamp\<rparr> = b1" by (cases b) (simp add: b1_def)
  then have "flush_deferred_ops b = Some ?b"
    using iter(1) r(1) q'(1) by (simp add: flush_deferred_ops_def oq_drain_def Let_def oq_new_def)
  moreover have "becomes n i ?b" by (rule becomes_queue [OF sub(3)])
  moreover have "\<forall>t. vclock_observed (bu_version b) t \<longrightarrow> vclock_observed (bu_version ?b) t"
    "\<forall>op \<in> set ?ops. vclock_observed (bu_version ?b) (op_timestamp op) \<or> op \<in> set (st_items (bu_deferred_ops ?b))"
    using r(2) q'(2) by (auto simp: handled_def b1_def)
  moreover have "all_blocked ?b (st_items (bu_deferred_ops ?b))" using r(3) q'(2) by (simp add: all_blocked_def)
  ultimately show ?thesis by blast
qed

lemma reachable_becomes:
  assumes "reachable base n" "becomes n i b"
  shows "reachable base (put_replica i b [] n)"
proof -
  have "net_step\<^sup>*\<^sup>* n n' \<Longrightarrow> reachable base n'" for n'
    by (induction rule: rtranclp_induct) (auto intro: assms(1) reachable.step)
  then show ?thesis using assms(2) by (simp add: becomes_def)
qed

text \<open>C2: A batch settles.  Given operations of the network in any order and with any repetitions, \<open>Buffer::apply_ops\<close>
  returns, and the network is again in a reachable state.  Every operation of the batch and every operation that
  waited before is observed or waits in \<open>deferred_ops\<close>, and every operation that still waits lacks a cause: the
  single retry of \<open>flush_deferred_ops\<close> leaves nothing behind that could be applied.  \<open>batch_low\<close>
  keeps the clock below its width and the trees below the height of the cursor's stack.\<close>

theorem apply_ops_settles:
  assumes "reachable base n" "b = nw_replicas n i" "set ops \<subseteq> set (nw_sent n)" "tm_ok (hi_operations (bu_history b))"
    and "oq_ok op_timestamp (bu_deferred_ops b)" "set (st_items (bu_deferred_ops b)) \<subseteq> set (nw_sent n)" "batch_low ops b"
  shows "\<exists>b'. bu_apply_ops ops b = Some b' \<and> reachable base (put_replica i b' [] n) \<and>
    (\<forall>op \<in> set ops \<union> set (st_items (bu_deferred_ops b)).
      vclock_observed (bu_version b') (op_timestamp op) \<or> op \<in> set (st_items (bu_deferred_ops b'))) \<and>
    (\<forall>op \<in> set (st_items (bu_deferred_ops b')). \<not> vclock_observed_all (bu_version b') (op_version op))"
proof -
  have ok: "network_ok base n" by (rule reachable_ok [OF assms(1)])
  have b: "becomes n i b" unfolding assms(2) by (rule becomes_refl)
  have low: "apply_low ops b" "st_height (bu_deferred_ops b) < 16" using assms(7) by (simp_all add: batch_low_def)
  obtain b1 d where r: "apply_ops_loop ops (b, []) = Some (b1, d)" "handled n i ops (b, []) (b1, d)"
    using apply_loop [OF ok b assms(3,4) low(1), of "[]"] by auto
  then have d: "becomes n i b1" "set d \<subseteq> set (nw_sent n)" "bu_deferred_ops b1 = bu_deferred_ops b"
    using assms(3) by (auto simp: handled_def)
  have "inj_on op_timestamp (set (nw_sent n))" using ok by (simp add: network_ok_def sent_ok_def)
  from insert_deferred [OF _ _ this _ d(2), of b1] obtain q where
    q: "bu_insert_deferred d b1 = Some (b1\<lparr>bu_deferred_ops := q\<rparr>)" "oq_ok op_timestamp q"
      "set (st_items q) = set (st_items (bu_deferred_ops b)) \<union> set d" using d(3) assms(5,6) low(2) by auto
  define b2 where "b2 = b1\<lparr>bu_deferred_ops := q\<rparr>"
  have b2: "becomes n i b2" unfolding b2_def by (rule becomes_queue [OF d(1)])
  have low2: "st_height (bu_deferred_ops b2) < 16"
      "flush_low (st_items (bu_deferred_ops b2)) (b2\<lparr>bu_deferred_ops := oq_new op_timestamp, bu_deferred_replicas := []\<rparr>)"
    using assms(7) r(1) q(1) by (simp_all add: batch_low_def b2_def)
  obtain b' where b': "flush_deferred_ops b2 = Some b'" "becomes n i b'"
      "\<forall>op \<in> set (st_items q). vclock_observed (bu_version b') (op_timestamp op) \<or> op \<in> set (st_items (bu_deferred_ops b'))"
      "all_blocked b' (st_items (bu_deferred_ops b'))" "\<forall>t. vclock_observed (bu_version b2) t \<longrightarrow> vclock_observed (bu_version b') t"
    using flush_deferred [OF ok b2 _ low2(1) _ low2(2)] q(2,3) assms(6) d(2) by (auto simp: b2_def)
  have "bu_apply_ops ops b = Some b'" using r(1) q(1) b'(1) by (simp add: bu_apply_ops_def b2_def)
  moreover have "vclock_observed (bu_version b') (op_timestamp op) \<or> op \<in> set (st_items (bu_deferred_ops b'))"
    if "op \<in> set ops \<union> set (st_items (bu_deferred_ops b))" for op
    using that r(2) q(3) b'(3,5) by (auto simp: handled_def b2_def)
  ultimately show ?thesis using reachable_becomes [OF assms(1) b'(2)] b'(4) by (auto simp: all_blocked_def)
qed

lemma sample_insert_none: "oq_insert op_timestamp (oq_new op_timestamp) [] = Some (oq_new op_timestamp)"
  by code_simp

lemma sample_batch_low:
  assumes "b = nw_replicas sample_start 9" "ticks (eo_timestamp e)" "eo_version e = vclock_observe vclock_new base_insertion"
  shows "batch_low [EditOp e] b"
proof -
  have b: "bu_lamport_clock b = Lamport 2 9" "hist_ready (bu_history b)" "bu_deferred_ops b = oq_new op_timestamp"
    using new_fields(7) [OF _ _ sample_new [of 9]] by (simp_all add: assms(1) sample_start_fields sample_ready)
  have can: "can_apply_op (b\<lparr>bu_history := h\<rparr>) (EditOp e)" for h
    using sample_new_operation(4) [of e 9 8 "Lamport 2 8"] assms(1,3)
    by (simp add: can_apply_op_def sample_start_fields vclock_observed_all_def list_all_length)
  have "apply_low [EditOp e] b"
    using b assms(2) by (auto simp: op_low_def shallow_op_def ticks_def hist_ready_def Let_def split: option.split)
  moreover have "bu_deferred_ops b1 = oq_new op_timestamp \<and> d = []" if "apply_ops_loop [EditOp e] (b, []) = Some (b1, d)" for b1 d
    using that b(3) bu_apply_op_keeps can by (auto simp: Let_def split: option.splits)
  ultimately show ?thesis
    by (cases "apply_ops_loop [EditOp e] (b, [])")
      (auto simp: batch_low_def b(3) bu_insert_deferred_def sample_insert_none simp del: apply_ops_loop.simps apply_low.simps)
qed

theorem apply_ops_settles_witness:
  "\<exists>n e b'. reachable ''ab'' n \<and> nw_sent n = [EditOp e] \<and>
     \<not> vclock_observed (bu_version (nw_replicas n 9)) (eo_timestamp e) \<and>
     bu_apply_ops [EditOp e] (nw_replicas n 9) = Some b' \<and>
     (vclock_observed (bu_version b') (eo_timestamp e) \<or> EditOp e \<in> set (st_items (bu_deferred_ops b')))"
proof -
  obtain b8 e where 8: "net_step sample_start (put_replica 8 b8 [EditOp e] sample_start)"
      "eo_version e = vclock_observe vclock_new base_insertion" "eo_timestamp e \<in> {Lamport 2 8, Lamport 3 8}"
    by (rule sample_edit [OF sample_start_reachable refl, of 1 "''X''" 8]) simp_all
  let ?n = "put_replica 8 b8 [EditOp e] sample_start"
  have reach: "reachable ''ab'' ?n" by (rule reachable.step [OF sample_start_reachable 8(1)])
  have b: "nw_replicas ?n 9 = nw_replicas sample_start 9" "nw_sent ?n = [EditOp e]" by (simp_all add: sample_start_def)
  have t: "ticks (eo_timestamp e)" using 8(3) by (auto simp: ticks_def)
  have fields: "tm_ok (hi_operations (bu_history (nw_replicas sample_start 9)))"
      "bu_deferred_ops (nw_replicas sample_start 9) = oq_new op_timestamp"
    using new_fields(7) [OF _ _ sample_new [of 9]] by (simp_all add: sample_start_fields hi_new_def)
  have "\<not> vclock_observed (bu_version (nw_replicas sample_start 9)) (eo_timestamp e)"
    using sample_new_operation(1) [OF 8(3), of 9 "Lamport 2 9"] by (simp add: sample_start_fields LOCAL_def)
  moreover have "\<exists>b'. bu_apply_ops [EditOp e] (nw_replicas sample_start 9) = Some b' \<and>
      (vclock_observed (bu_version b') (eo_timestamp e) \<or> EditOp e \<in> set (st_items (bu_deferred_ops b')))"
    using apply_ops_settles [OF reach b(1) [symmetric], of "[EditOp e]"] sample_batch_low [OF refl t 8(2)] fields b(2) by auto
  ultimately show ?thesis using reach b by metis
qed

end
