(* ===== verification/Zed_Undo_Redo.thy ===== *)
theory Zed_Undo_Redo
  imports Zed_Replication
begin

text \<open>
  Undo and redo of a replica's own transactions: both return, and redoing what was undone restores the text.
\<close>

section \<open>The counts\<close>

lemma finite_counts: "finite {n :: u32. P n}"
  by simp

lemma max_count_insert:
  "max_count (insert u us) e (\<lambda>_. True) = Max (insert (max_count us e (\<lambda>_. True)) {n. (e, n) \<in> set (uo_counts u)})"
proof -
  let ?A = "{n. (e, n) \<in> set (uo_counts u)}" and ?B = "{n. \<exists>u \<in> us. True \<and> (e, n) \<in> set (uo_counts u)}"
  have "max_count (insert u us) e (\<lambda>_. True) = Max (insert 0 (?B \<union> ?A))"
    unfolding max_count_def by (intro arg_cong [where f = Max]) blast
  also have "insert 0 (?B \<union> ?A) = insert 0 ?B \<union> ?A" by blast
  also have "Max (insert 0 ?B \<union> ?A) = Max (insert (Max (insert 0 ?B)) ?A)"
  proof (cases "?A = {}")
  case False
    have "Max (insert 0 ?B \<union> ?A) = max (Max (insert 0 ?B)) (Max ?A)" by (rule Max_Un) (use False in \<open>simp_all\<close>)
    moreover have "Max (insert (Max (insert 0 ?B)) ?A) = max (Max (insert 0 ?B)) (Max ?A)"
      by (rule Max_insert) (use False in \<open>simp_all\<close>)
    ultimately show ?thesis by simp
  qed simp
  finally show ?thesis by (simp only: max_count_def)
qed

lemma max_count_key:
  assumes "distinct (map fst (uo_counts u))" "(e, c) \<in> set (uo_counts u)" "max_count us e (\<lambda>_. True) \<le> c"
  shows "max_count (insert u us) e (\<lambda>_. True) = c"
proof -
  have "{n. (e, n) \<in> set (uo_counts u)} = {c}" using assms(1,2) eq_key_imp_eq_value by fastforce
  then show ?thesis using assms(3) by (simp add: max_count_insert max_def)
qed

lemma max_count_other: "e \<notin> fst ` set (uo_counts u) \<Longrightarrow> max_count (insert u us) e (\<lambda>_. True) = max_count us e (\<lambda>_. True)"
proof -
  assume "e \<notin> fst ` set (uo_counts u)"
  then have "{n. (e, n) \<in> set (uo_counts u)} = {}" by force
  then show ?thesis by (simp add: max_count_insert)
qed

definition count_of :: "undo_operation set \<Rightarrow> lamport \<Rightarrow> u32" where
  "count_of us e = max_count us e (\<lambda>_. True)"

lemma next_counts_represents:
  assumes "um_ok m" "st_height m < 16" "um_represents m us"
  shows "next_counts m ids = Some (map (\<lambda>i. (i, word_saturating_add (count_of us i) 1)) ids)"
proof (induction ids)
  case (Cons i ids)
  have "um_undo_count m i = Some (count_of us i)"
    using um_counts_represents [OF assms] by (simp add: um_undo_count_def count_of_def)
  then show ?case using Cons by simp
qed simp

lemma saturating_add_1:
  assumes "n < - 1"
  shows "word_saturating_add n (1 :: u32) = n + 1" "n < n + 1"
proof -
  have "unat (- 1 :: u32) = 2 ^ 32 - 1" by (simp add: unsigned_minus_1_eq_mask mask_eq_exp_minus_1)
  then have "unat (n + 1) = unat n + 1" using assms by (simp add: unat_word_ariths word_less_nat_alt)
  then show "n < n + 1" "word_saturating_add n 1 = n + 1" by (auto simp: word_saturating_add_def word_less_nat_alt word_le_nat_alt)
qed

section \<open>One undo\<close>

text \<open>The operation that undoes or redoes a transaction.\<close>

definition undo_op :: "transaction \<Rightarrow> buffer \<Rightarrow> undo_operation" where
  "undo_op t b = \<lparr>uo_timestamp = bu_lamport_clock b, uo_version = bu_version b,
     uo_counts = (case next_counts (sn_undo_map (bu_snapshot b)) (remdups (tr_edit_ids t)) of None \<Rightarrow> [] | Some counts \<Rightarrow> counts)\<rparr>"

text \<open>Clock and counts are below their widths, and the trees below the height of the cursor's stack.\<close>

definition undo_low :: "transaction \<Rightarrow> buffer \<Rightarrow> bool" where
  "undo_low t b \<longleftrightarrow> ticks (bu_lamport_clock b) \<and> st_height (hi_operations (bu_history b)) < 16 \<and>
     shallow (sn_undo_map (bu_snapshot b)) (undo_op t b) \<and> list_all (\<lambda>(_, c). c < - 1) (uo_counts (undo_op t b))"

lemma undo_op_counts:
  assumes "tracks base log (bu_snapshot b)"
  shows "next_counts (sn_undo_map (bu_snapshot b)) (remdups (tr_edit_ids t)) = Some (uo_counts (undo_op t b))"
    "uo_counts (undo_op t b) = map (\<lambda>i. (i, word_saturating_add (count_of (snd (run base log)) i) 1)) (remdups (tr_edit_ids t))"
proof -
  have "um_ok (sn_undo_map (bu_snapshot b))" "st_height (sn_undo_map (bu_snapshot b)) < 16"
    "um_represents (sn_undo_map (bu_snapshot b)) (snd (run base log))"
    using assms by (simp_all add: tracks_def buffer_ok_def low_def)
  from next_counts_represents [OF this]
  show "next_counts (sn_undo_map (bu_snapshot b)) (remdups (tr_edit_ids t)) = Some (uo_counts (undo_op t b))"
    "uo_counts (undo_op t b) = map (\<lambda>i. (i, word_saturating_add (count_of (snd (run base log)) i) 1)) (remdups (tr_edit_ids t))"
    by (simp_all add: undo_op_def)
qed

lemma undo_parity:
  assumes "uo_counts u = map (\<lambda>i. (i, word_saturating_add (count_of us i) 1)) ids" "distinct ids"
    and "list_all (\<lambda>(_, c). c < - 1) (uo_counts u)"
  shows "undone (insert u us) e \<longleftrightarrow> undone us e \<noteq> (e \<in> set ids)"
proof (cases "e \<in> set ids")
  case True
  let ?c = "count_of us e"
  have mem: "(e, word_saturating_add ?c 1) \<in> set (uo_counts u)" using True by (auto simp: assms(1))
  then have "word_saturating_add ?c 1 < - 1" using assms(3) by (auto simp: list_all_iff)
  then have "?c \<noteq> - 1" by (auto simp: word_saturating_add_def)
  then have less: "?c < - 1" by (simp add: word_order.not_eq_extremum)
  note plus = saturating_add_1 [OF less]
  have "map fst (uo_counts u) = ids" by (simp add: assms(1) comp_def)
  then have "max_count (insert u us) e (\<lambda>_. True) = ?c + 1"
    using max_count_key [of u e "?c + 1" us] mem plus assms(2) by (simp add: count_of_def)
  moreover have "(?c + 1) mod 2 = 1 \<longleftrightarrow> ?c mod 2 \<noteq> 1"
  proof -
    have "unat (?c + 1) = unat ?c + 1" using less unat_Suc_word [of ?c] by simp
    then show ?thesis by (auto simp: word_unat_eq_iff unat_mod mod_Suc)
  qed
  ultimately show ?thesis using True by (simp add: undone_def count_of_def)
next
  case False
  then have "e \<notin> fst ` set (uo_counts u)" by (auto simp: assms(1))
  then show ?thesis using False by (simp add: undone_def max_count_other)
qed

lemma network_undo:
  assumes ok: "network_ok base n" and b: "b = nw_replicas n i" and r: "replica_ok base (set (nw_sent n)) i b log"
    and low: "undo_low t b" and ops: "tm_ok (hi_operations (bu_history b))" and ids: "set (tr_edit_ids t) \<subseteq> hist_ids (bu_history b)"
    and h: "hi_operations h = hi_operations (bu_history b)" "hist_ids h \<subseteq> hist_ids (bu_history b)"
  obtains b' ops where "bu_undo_or_redo t (b\<lparr>bu_history := h\<rparr>) = Some (b', UndoOp (undo_op t b))"
    "bu_history b' = h\<lparr>hi_operations := ops\<rparr>" "tm_ok ops" "low (bu_snapshot b')"
    "replica_ok base (insert (UndoOp (undo_op t b)) (set (nw_sent n))) i b' (log @ [UndoOp (undo_op t b)])"
    "tm_insert (hi_operations h) (bu_lamport_clock b) (UndoOp (undo_op t b)) = Some ops"
    "um_insert (sn_undo_map (bu_snapshot b)) (undo_op t b) = Some (sn_undo_map (bu_snapshot b'))"
    "bu_lamport_clock b' = snd (lamport_tick (bu_lamport_clock b))"
proof -
  let ?u = "undo_op t b"
  have t: "tracks base log (bu_snapshot b)" "publish_ok b" using r by (simp_all add: replica_ok_def)
  note counts = undo_op_counts [OF t(1), of t]
  have keys: "map fst (uo_counts ?u) = remdups (tr_edit_ids t)" by (simp add: counts(2) comp_def)
  then have "fst ` set (uo_counts ?u) = set (tr_edit_ids t)" by (metis list.set_map set_remdups)
  then have fresh: "undo_fresh log ?u"
    using r ids keys by (fastforce simp: undo_fresh_def replica_ok_def undo_op_def [of t b])
  from tracks_undo [OF t(1) this] low obtain s p where s: "apply_undo (bu_snapshot b) ?u = Some (s, p)"
      "tracks base (log @ [UndoOp ?u]) s" "patch_rel 0 0 p (sn_visible_text (bu_snapshot b)) (sn_visible_text s)"
    by (auto simp: undo_low_def)
  from publish_ok_patch [OF t(2) s(3)] obtain topic store where
    pub: "topic_publish (bu_subscriptions b) (bu_patches b) p = Some (topic, store)" by blast
  obtain ops' where ops': "tm_insert (hi_operations h) (uo_timestamp ?u) (UndoOp ?u) = Some ops'" "tm_ok ops'"
    using tm_insert_abs [of "hi_operations h"] ops low h(1) by (auto simp: undo_low_def)
  define b' where "b' = b\<lparr>bu_history := h\<lparr>hi_operations := ops'\<rparr>, bu_lamport_clock := snd (lamport_tick (bu_lamport_clock b)),
      bu_snapshot := s\<lparr>sn_version := vclock_observe (bu_version b) (bu_lamport_clock b)\<rparr>, bu_subscriptions := topic, bu_patches := store\<rparr>"
  have u: "\<lparr>uo_timestamp = bu_lamport_clock b, uo_version = bu_version b, uo_counts = uo_counts ?u\<rparr> = ?u" by (simp add: undo_op_def)
  have run: "bu_undo_or_redo t (b\<lparr>bu_history := h\<rparr>) = Some (b', UndoOp ?u)"
    using counts(1) s(1) pub ops'(1) u
    by (simp add: bu_undo_or_redo_def bu_undo_operations_def bu_tick_def lamport_tick_def bu_observe_version_def Let_def
        bu_apply_undo_def apply_undo_version bu_publish_def hi_push_def b'_def)
  moreover have low': "low (bu_snapshot b')" using s(2) by (simp add: b'_def tracks_def low_def)
  moreover have "emitted_undo b ?u b'" using bu_undo_or_redo_emits [OF run] ids h(2) by auto
  from undo_emits [OF ok b r _ this low'] low have "emits base (set (nw_sent n)) b log (UndoOp ?u) b'" by (simp add: undo_low_def)
  from emit_self [OF ok b r this] have "replica_ok base (insert (UndoOp ?u) (set (nw_sent n))) i b' (log @ [UndoOp ?u])" .
  moreover have "uo_timestamp ?u = bu_lamport_clock b" by (simp add: undo_op_def)
  ultimately show thesis using that [of b' ops'] ops' undo_map_of_undo [OF s(1)] by (simp add: b'_def)
qed

section \<open>Undo and redo\<close>

lemma run_parity:
  assumes "\<And>e. undone (snd (run base log')) e = undone (snd (run base log)) e" "fst (run base log') = fst (run base log)"
    and "texts_of base log' = texts_of base log"
  shows "run_text base log' = run_text base log" "run_deleted base log' = run_deleted base log"
proof -
  have "now_shown (snd (run base log')) = now_shown (snd (run base log))" using assms(1) by (simp add: now_shown_def fun_eq_iff)
  then show "run_text base log' = run_text base log" "run_deleted base log' = run_deleted base log"
    unfolding run_text_def run_deleted_def split_beta using assms(2,3) by simp_all
qed

lemma run_undo: "snd (run base (log @ [UndoOp u])) = insert u (snd (run base log))"
  "fst (run base (log @ [UndoOp u])) = fst (run base log)" "texts_of base (log @ [UndoOp u]) = texts_of base log"
  by (cases "run base log"; simp)+

lemma network_bu_undo:
  assumes reach: "reachable base n" and b: "b = nw_replicas n i" and r: "replica_ok base (set (nw_sent n)) i b log"
    and h: "hi_depth (bu_history b) = 0" "hi_undo_stack (bu_history b) = entries @ [entry]"
    and low: "tm_ok (hi_operations (bu_history b))" "undo_low (he_transaction entry) b" and u: "u = undo_op (he_transaction entry) b"
  obtains b' ops where "bu_undo b = Some (b', Some (he_id entry, UndoOp u))" "tm_ok ops"
    "bu_history b' = (bu_history b)\<lparr>hi_operations := ops, hi_undo_stack := entries, hi_redo_stack := hi_redo_stack (bu_history b) @ [entry]\<rparr>"
    "reachable base (put_replica i b' [UndoOp u] n)" "replica_ok base (insert (UndoOp u) (set (nw_sent n))) i b' (log @ [UndoOp u])"
proof -
  let ?h = "(bu_history b)\<lparr>hi_undo_stack := entries, hi_redo_stack := hi_redo_stack (bu_history b) @ [entry]\<rparr>"
  have pop: "hi_pop_undo (bu_history b) = Some (?h, Some entry)" using h by (simp add: hi_pop_undo_def)
  from hist_ids_pop_undo [OF this] have ids: "set (tr_edit_ids (he_transaction entry)) \<subseteq> hist_ids (bu_history b)"
    "hist_ids ?h \<subseteq> hist_ids (bu_history b)" by blast+
  obtain b' ops where b': "bu_undo_or_redo (he_transaction entry) (b\<lparr>bu_history := ?h\<rparr>) = Some (b', UndoOp u)"
      "bu_history b' = ?h\<lparr>hi_operations := ops\<rparr>" "tm_ok ops" "low (bu_snapshot b')"
      "replica_ok base (insert (UndoOp u) (set (nw_sent n))) i b' (log @ [UndoOp u])"
    unfolding u by (rule network_undo [OF reachable_ok [OF reach] b r low(2,1) ids(1) _ ids(2)]) simp
  have undo: "bu_undo b = Some (b', Some (he_id entry, UndoOp u))" by (simp add: bu_undo_def pop b'(1))
  have "ticks (bu_lamport_clock b)" using low(2) by (simp add: undo_low_def)
  from reachable.step [OF reach net_step.undo [OF b this undo b'(4)]] show thesis using that undo b'(2,3,5) by simp
qed

lemma network_bu_redo:
  assumes reach: "reachable base n" and b: "b = nw_replicas n i" and r: "replica_ok base (set (nw_sent n)) i b log"
    and h: "hi_depth (bu_history b) = 0" "hi_redo_stack (bu_history b) = entries @ [entry]"
    and low: "tm_ok (hi_operations (bu_history b))" "undo_low (he_transaction entry) b" and u: "u = undo_op (he_transaction entry) b"
  obtains b' ops where "bu_redo b = Some (b', Some (he_id entry, UndoOp u))"
    "bu_history b' = (bu_history b)\<lparr>hi_undo_stack := hi_undo_stack (bu_history b) @ [entry], hi_redo_stack := entries, hi_operations := ops\<rparr>"
    "reachable base (put_replica i b' [UndoOp u] n)" "replica_ok base (insert (UndoOp u) (set (nw_sent n))) i b' (log @ [UndoOp u])"
proof -
  let ?h = "(bu_history b)\<lparr>hi_undo_stack := hi_undo_stack (bu_history b) @ [entry], hi_redo_stack := entries\<rparr>"
  have pop: "hi_pop_redo (bu_history b) = Some (?h, Some entry)" using h by (cases "bu_history b") (simp add: hi_pop_redo_def)
  from hist_ids_pop_redo [OF this] have ids: "set (tr_edit_ids (he_transaction entry)) \<subseteq> hist_ids (bu_history b)"
    "hist_ids ?h \<subseteq> hist_ids (bu_history b)" by blast+
  obtain b' ops where b': "bu_undo_or_redo (he_transaction entry) (b\<lparr>bu_history := ?h\<rparr>) = Some (b', UndoOp u)"
      "bu_history b' = ?h\<lparr>hi_operations := ops\<rparr>" "tm_ok ops" "low (bu_snapshot b')"
      "replica_ok base (insert (UndoOp u) (set (nw_sent n))) i b' (log @ [UndoOp u])"
    unfolding u by (rule network_undo [OF reachable_ok [OF reach] b r low(2,1) ids(1) _ ids(2)]) simp
  have redo: "bu_redo b = Some (b', Some (he_id entry, UndoOp u))" by (simp add: bu_redo_def pop b'(1))
  have "ticks (bu_lamport_clock b)" using low(2) by (simp add: undo_low_def)
  from reachable.step [OF reach net_step.redo [OF b this redo b'(4)]] show thesis using that redo b'(2,3,5) by simp
qed

text \<open>C7: Redo takes back what undo did.  Let a replica of a reachable network have an open history (no transaction under
  way) and a transaction to undo.  Then \<open>Buffer::undo\<close> returns, and exactly the edits of the transaction change
  between undone and not undone, so the buffer shows them accordingly; \<open>Buffer::redo\<close> then returns with the
  same transaction and restores the visible text, the deleted text and both stacks, whatever the other replicas
  undid before.  Both operations are sent, and the network stays reachable.  \<open>undo_low\<close> keeps clock and counts
  below their widths and the trees below the height of the cursor's stack.\<close>

theorem undo_then_redo:
  assumes "reachable base n" "b = nw_replicas n i" "hi_depth (bu_history b) = 0" "hi_undo_stack (bu_history b) = entries @ [entry]"
    and "tm_ok (hi_operations (bu_history b))" "undo_low (he_transaction entry) b"
      "case bu_undo b of None \<Rightarrow> True | Some (b', _) \<Rightarrow> undo_low (he_transaction entry) b'"
    and us: "us = {u. UndoOp u \<in> set (nw_sent n) \<and> vclock_observed (bu_version b) (uo_timestamp u)}"
  shows "\<exists>b1 u b2 v. bu_undo b = Some (b1, Some (he_id entry, UndoOp u)) \<and> bu_redo b1 = Some (b2, Some (he_id entry, UndoOp v)) \<and>
    reachable base (put_replica i b2 [UndoOp v] (put_replica i b1 [UndoOp u] n)) \<and>
    (\<exists>ins. buffer_ok ins (insert u us) (bu_snapshot b1)) \<and>
    (\<forall>e. undone (insert u us) e \<longleftrightarrow> undone us e \<noteq> (e \<in> set (he_edit_ids entry))) \<and>
    sn_visible_text (bu_snapshot b2) = sn_visible_text (bu_snapshot b) \<and>
    sn_deleted_text (bu_snapshot b2) = sn_deleted_text (bu_snapshot b) \<and>
    hi_undo_stack (bu_history b2) = hi_undo_stack (bu_history b) \<and> hi_redo_stack (bu_history b2) = hi_redo_stack (bu_history b)"
proof -
  let ?t = "he_transaction entry"
  have ok: "network_ok base n" by (rule reachable_ok [OF assms(1)])
  obtain log where r: "replica_ok base (set (nw_sent n)) i b log" using ok assms(2) unfolding network_ok_def by blast
  have us_log: "us = snd (run base log)" using replica_log(3) [OF r] unfolding us run_undos by (force simp: base_state_def)
  define u where "u = undo_op ?t b"
  obtain b1 ops1 where 1: "bu_undo b = Some (b1, Some (he_id entry, UndoOp u))" "tm_ok ops1"
      "bu_history b1 = (bu_history b)\<lparr>hi_operations := ops1, hi_undo_stack := entries, hi_redo_stack := hi_redo_stack (bu_history b) @ [entry]\<rparr>"
      "reachable base (put_replica i b1 [UndoOp u] n)" "replica_ok base (insert (UndoOp u) (set (nw_sent n))) i b1 (log @ [UndoOp u])"
    by (rule network_bu_undo [OF assms(1,2) r assms(3,4,5,6) u_def])
  define n1 where "n1 = put_replica i b1 [UndoOp u] n"
  have low1: "undo_low ?t b1" using assms(7) 1(1) by simp
  have r1: "b1 = nw_replicas n1 i" "replica_ok base (set (nw_sent n1)) i b1 (log @ [UndoOp u])" using 1(5) by (simp_all add: n1_def)
  have h1: "hi_depth (bu_history b1) = 0" "hi_redo_stack (bu_history b1) = hi_redo_stack (bu_history b) @ [entry]"
      "tm_ok (hi_operations (bu_history b1))" using 1(2) assms(3) by (simp_all add: 1(3))
  define v where "v = undo_op ?t b1"
  obtain b2 ops2 where 2: "bu_redo b1 = Some (b2, Some (he_id entry, UndoOp v))"
      "bu_history b2 = (bu_history b1)\<lparr>hi_undo_stack := hi_undo_stack (bu_history b1) @ [entry],
        hi_redo_stack := hi_redo_stack (bu_history b), hi_operations := ops2\<rparr>"
      "reachable base (put_replica i b2 [UndoOp v] n1)" "replica_ok base (insert (UndoOp v) (set (nw_sent n1))) i b2 ((log @ [UndoOp u]) @ [UndoOp v])"
    by (rule network_bu_redo [OF 1(4) [folded n1_def] r1 h1 low1 v_def])
  have t: "tracks base log (bu_snapshot b)" "tracks base (log @ [UndoOp u]) (bu_snapshot b1)"
      "tracks base ((log @ [UndoOp u]) @ [UndoOp v]) (bu_snapshot b2)"
    using r r1(2) 2(4) by (simp_all add: replica_ok_def)
  have flip: "undone (insert u us) e \<longleftrightarrow> undone us e \<noteq> (e \<in> set (he_edit_ids entry))" for e
    using undo_parity [OF undo_op_counts(2) [OF t(1), of ?t], of e] assms(6) by (simp add: u_def undo_low_def us_log)
  have flip2: "undone (insert v (insert u us)) e \<longleftrightarrow> undone (insert u us) e \<noteq> (e \<in> set (he_edit_ids entry))" for e
    using undo_parity [OF undo_op_counts(2) [OF t(2), of ?t], of e] low1 unfolding run_undo by (simp add: v_def undo_low_def us_log)
  let ?log = "(log @ [UndoOp u]) @ [UndoOp v]"
  have "undone (snd (run base ?log)) e = undone (snd (run base log)) e" for e
    using flip [of e] flip2 [of e] unfolding run_undo us_log by blast
  moreover have "fst (run base ?log) = fst (run base log)" "texts_of base ?log = texts_of base log" unfolding run_undo by (rule refl)+
  ultimately have "run_text base ?log = run_text base log" "run_deleted base ?log = run_deleted base log" by (rule run_parity)+
  then have "sn_visible_text (bu_snapshot b2) = sn_visible_text (bu_snapshot b)" "sn_deleted_text (bu_snapshot b2) = sn_deleted_text (bu_snapshot b)"
    using tracks_text [OF t(1)] tracks_text [OF t(3)] by simp_all
  moreover have "buffer_ok (texts_of base log) (insert u us) (bu_snapshot b1)" using t(2) unfolding tracks_def run_undo us_log by blast
  moreover have "hi_undo_stack (bu_history b2) = hi_undo_stack (bu_history b)" "hi_redo_stack (bu_history b2) = hi_redo_stack (bu_history b)"
    using assms(4) by (simp_all add: 2(2) 1(3))
  ultimately show ?thesis using 1(1) 2(1,3) flip unfolding n1_def by (intro ex4I [of _ b1 u b2 v]) blast
qed

section \<open>A sample\<close>

lemma bu_edit_history:
  assumes "bu_edit edits now now' b = Some (b', op)" "hi_start_transaction (bu_history b) (bu_version b) now (bu_lamport_clock b) = (h0, c0, t)"
  obtains h1 h2 h3 r where "hi_push h0 op = Some h1" "hi_push_undo h1 c0 = Some h2" "op_timestamp op = c0"
    "hi_end_transaction h2 now' = Some (h3, r)"
    "case r of None \<Rightarrow> bu_history b' = h3 | Some _ \<Rightarrow> \<exists>i. hi_group h3 = Some (bu_history b', Some i)"
    "bu_lamport_clock b' = snd (lamport_tick c0)" "sn_undo_map (bu_snapshot b') = sn_undo_map (bu_snapshot b)"
proof -
  define b1 where "b1 = b\<lparr>bu_history := h0, bu_lamport_clock := snd (lamport_tick c0)\<rparr>"
  note defs = bu_edit_def bu_start_transaction_at_def bu_tick_def Let_def lamport_tick_def b1_def
  obtain b2 e where 2: "bu_apply_local_edit edits c0 b1 = Some (b2, e)"
    using assms by (auto simp: defs split: Option.bind_splits)
  obtain h1 where 3: "hi_push (bu_history b2) (EditOp e) = Some h1" using assms 2 by (auto simp: defs split: Option.bind_splits)
  obtain h2 where 4: "hi_push_undo h1 (eo_timestamp e) = Some h2" using assms 2 3 by (auto simp: defs split: Option.bind_splits)
  obtain r' where 5: "bu_end_transaction_at now' (bu_observe_version (eo_timestamp e) (b2\<lparr>bu_history := h2\<rparr>)) = Some (b', r')" "op = EditOp e"
    using assms 2 3 4 by (auto simp: defs split: Option.bind_splits)
  obtain s p where s: "apply_edit_internal (bu_snapshot b) edits c0 = Some (s, eo_ranges e, eo_new_text e, p)"
      "eo_timestamp e = c0" "bu_publish p (b1\<lparr>bu_snapshot := s\<rparr>) = Some b2"
    using 2 by (auto simp: bu_apply_local_edit_def b1_def split: option.splits prod.splits)
  have undos: "sn_undo_map s = sn_undo_map (bu_snapshot b)"
    using s(1) by (auto simp: apply_edit_internal_def split: list.splits option.splits prod.splits)
  have b2: "bu_history b2 = h0" "bu_snapshot b2 = s" "bu_lamport_clock b2 = snd (lamport_tick c0)"
    using s(3) by (auto simp: bu_publish_def b1_def)
  obtain h3 r where h3: "hi_end_transaction h2 now' = Some (h3, r)"
      "case r of None \<Rightarrow> bu_history b' = h3 | Some _ \<Rightarrow> \<exists>i. hi_group h3 = Some (bu_history b', Some i)"
    using 5(1) by (auto simp: bu_end_transaction_at_def bu_observe_version_def split: option.splits prod.splits)
  have "bu_snapshot b' = s\<lparr>sn_version := vclock_observe (sn_version s) c0\<rparr>" "bu_lamport_clock b' = snd (lamport_tick c0)"
    using bu_end_transaction_fields(1,2) [OF 5(1)] by (simp_all add: bu_observe_version_def b2 s(2))
  then show thesis using that [of h1 h2 h3 r] 3 4 5(2) h3 s(2) b2(1) undos by simp
qed

lemma sample_operations:
  "case tm_insert tm_new (Lamport 3 8) (x :: operation) of None \<Rightarrow> False
   | Some m \<Rightarrow> st_height m < 16 \<and> tm_get m (Lamport 3 8) = Some x \<and>
       (case tm_insert m (Lamport 4 8) y of None \<Rightarrow> False | Some m' \<Rightarrow> st_height m' < 16)"
  by code_simp

definition sample_undone :: "vclock \<Rightarrow> undo_operation" where
  "sample_undone v = \<lparr>uo_timestamp = Lamport 4 8, uo_version = v, uo_counts = [(Lamport 3 8, 1)]\<rparr>"

definition sample_redone :: "vclock \<Rightarrow> undo_operation" where
  "sample_redone v = \<lparr>uo_timestamp = Lamport 5 8, uo_version = v, uo_counts = [(Lamport 3 8, 2)]\<rparr>"

lemma sample_counts: "next_counts (st_new undo_ops) [Lamport 3 8] = Some [(Lamport 3 8, 1)]"
  by code_simp

lemma sample_undo_map:
  "case um_insert (st_new undo_ops) (sample_undone v) of None \<Rightarrow> False
   | Some m \<Rightarrow> st_height m < 16 \<and> next_counts m [Lamport 3 8] = Some [(Lamport 3 8, 2)] \<and>
       (case um_insert m (sample_redone w) of None \<Rightarrow> False | Some m' \<Rightarrow> st_height m' < 16)"
  by code_simp

lemma sample_edited:
  assumes "bu_edit [((1, 1), ''X'')] 0 0 (nw_replicas sample_start 8) = Some (b, EditOp e)"
  obtains ops entry where "tm_insert tm_new (Lamport 3 8) (EditOp e) = Some ops"
    "bu_history b = (hi_new 300 ''ab'')\<lparr>hi_operations := ops, hi_undo_stack := [entry]\<rparr>" "he_edit_ids entry = [Lamport 3 8]"
    "bu_lamport_clock b = Lamport 4 8" "sn_undo_map (bu_snapshot b) = st_new undo_ops"
proof -
  let ?b = "nw_replicas sample_start 8"
  define entry where "entry = entry_new \<lparr>tr_id = Lamport 2 8, tr_edit_ids = [], tr_start = bu_version ?b\<rparr> 0"
  define h0 where "h0 = (hi_new 300 ''ab'')\<lparr>hi_depth := 1, hi_undo_stack := [entry]\<rparr>"
  have st: "hi_start_transaction (bu_history ?b) (bu_version ?b) 0 (bu_lamport_clock ?b) = (h0, Lamport 3 8, Some (Lamport 2 8))"
    by (simp add: sample_start_fields hi_start_transaction_def hi_new_def lamport_tick_def entry_def h0_def)
  obtain h1 h2 h3 r where r: "hi_push h0 (EditOp e) = Some h1" "hi_push_undo h1 (Lamport 3 8) = Some h2"
      "eo_timestamp e = Lamport 3 8" "hi_end_transaction h2 0 = Some (h3, r)"
      "case r of None \<Rightarrow> bu_history b = h3 | Some _ \<Rightarrow> \<exists>i. hi_group h3 = Some (bu_history b, Some i)"
      "bu_lamport_clock b = snd (lamport_tick (Lamport 3 8))" "sn_undo_map (bu_snapshot b) = sn_undo_map (bu_snapshot ?b)"
    by (rule bu_edit_history [OF assms st, unfolded op_timestamp.simps])
  have ops: "hi_operations h0 = tm_new" by (simp add: h0_def hi_new_def)
  obtain ops where ops: "tm_insert tm_new (Lamport 3 8) (EditOp e) = Some ops" "h1 = h0\<lparr>hi_operations := ops\<rparr>"
      "tm_get ops (Lamport 3 8) = Some (EditOp e)"
    using r(1,3) sample_operations [of "EditOp e"] ops by (auto simp: hi_push_def split: option.splits)
  define edited where "edited = (add_edit_ids [Lamport 3 8] entry)\<lparr>he_last_edit_at := 0\<rparr>"
  have 2: "h2 = h1\<lparr>hi_undo_stack := [add_edit_ids [Lamport 3 8] entry]\<rparr>" using r(2) ops(2,3) by (simp add: hi_push_undo_def h0_def)
  have "he_edit_ids (add_edit_ids [Lamport 3 8] entry) = [Lamport 3 8]" by (simp add: add_edit_ids_def entry_def entry_new_def)
  then have 3: "h3 = (hi_new 300 ''ab'')\<lparr>hi_operations := ops, hi_undo_stack := [edited]\<rparr>" "r = Some edited"
    using r(4) by (simp_all add: hi_end_transaction_def 2 ops(2) h0_def Let_def hi_new_def edited_def)
  have "bu_history b = h3" using r(5) by (auto simp: 3 hi_group_def hi_group_trailing_def hi_new_def Let_def add_edit_ids_def)
  moreover have "he_edit_ids edited = [Lamport 3 8]" by (simp add: edited_def add_edit_ids_def entry_def entry_new_def)
  moreover have "sn_undo_map (bu_snapshot ?b) = st_new undo_ops"
    using new_fields(8) [OF _ _ sample_new [of 8]] by simp
  ultimately show thesis using that [of ops edited] ops(1) r(6,7) by (simp add: 3 lamport_tick_def)
qed

text \<open>Replica 8 inserts an \<open>X\<close>, undoes and redoes it.\<close>

lemma small_counts: "(1 :: u32) < - 1" "(2 :: u32) < - 1"
  unfolding word_less_nat_alt by (simp_all add: unsigned_minus_1_eq_mask mask_eq_exp_minus_1)

lemma sample_undo_low:
  assumes "tm_insert tm_new (Lamport 3 8) op = Some ops" "hi_operations (bu_history b) = ops" "tr_edit_ids t = [Lamport 3 8]"
    and "bu_lamport_clock b = Lamport 4 8" "sn_undo_map (bu_snapshot b) = st_new undo_ops"
  shows "undo_op t b = sample_undone (bu_version b)" "undo_low t b" "tm_ok ops"
proof -
  show u: "undo_op t b = sample_undone (bu_version b)" using assms(3-5) sample_counts by (simp add: undo_op_def sample_undone_def)
  have "shallow (sn_undo_map (bu_snapshot b)) (undo_op t b)"
    using sample_undo_map [where v = "bu_version b" and w = "bu_version b"] by (simp add: u assms(5) shallow_def split: option.splits)
  moreover have "st_height ops < 16" using sample_operations [where x = op] assms(1) by simp
  ultimately show "undo_low t b" using assms(2,4) small_counts by (simp add: undo_low_def u ticks_def sample_undone_def)
  have "st_height (tm_new :: (lamport, operation) tree_map) < 16" by (simp add: tm_new_def st_new_def)
  then show "tm_ok ops" using tm_insert_abs [OF tm_ok_new, of "Lamport 3 8" op] assms(1) by auto
qed

lemma sample_redo_low:
  assumes "tm_insert tm_new (Lamport 3 8) op = Some ops" "tm_insert ops (Lamport 4 8) op' = Some (hi_operations (bu_history b))"
    and "tr_edit_ids t = [Lamport 3 8]" "bu_lamport_clock b = Lamport 5 8"
    and "um_insert (st_new undo_ops) (sample_undone v) = Some (sn_undo_map (bu_snapshot b))"
  shows "undo_low t b"
proof -
  have m: "next_counts (sn_undo_map (bu_snapshot b)) [Lamport 3 8] = Some [(Lamport 3 8, 2)]"
      "shallow (sn_undo_map (bu_snapshot b)) (sample_redone (bu_version b))"
    using sample_undo_map [where v = v and w = "bu_version b"] unfolding assms(5) by (simp_all add: shallow_def split: option.splits)
  have u: "undo_op t b = sample_redone (bu_version b)" using assms(3,4) m(1) by (simp add: undo_op_def sample_redone_def del: next_counts.simps)
  have "st_height (hi_operations (bu_history b)) < 16"
    using sample_operations [where x = op and y = op'] assms(1,2) by simp
  then show ?thesis using assms(4) m(2) small_counts by (simp add: undo_low_def u ticks_def sample_redone_def)
qed

theorem undo_then_redo_witness:
  "\<exists>n b entry b1 u b2 v. reachable ''ab'' n \<and> b = nw_replicas n 8 \<and> hi_undo_stack (bu_history b) = [entry] \<and>
     he_edit_ids entry = [Lamport 3 8] \<and> bu_undo b = Some (b1, Some (he_id entry, UndoOp u)) \<and>
     bu_redo b1 = Some (b2, Some (he_id entry, UndoOp v)) \<and> sn_visible_text (bu_snapshot b2) = sn_visible_text (bu_snapshot b)"
proof -
  obtain b e where b: "bu_edit [((1, 1), ''X'')] 0 0 (nw_replicas sample_start 8) = Some (b, EditOp e)"
      "net_step sample_start (put_replica 8 b [EditOp e] sample_start)"
    using network_edit [OF reachable_ok [OF sample_start_reachable] refl, of 8 "[((1, 1), ''X'')]" 0 0] sample_ready
    by (auto simp: sample_start_fields ticks_def)
  obtain ops entry where s: "tm_insert tm_new (Lamport 3 8) (EditOp e) = Some ops"
      "bu_history b = (hi_new 300 ''ab'')\<lparr>hi_operations := ops, hi_undo_stack := [entry]\<rparr>" "he_edit_ids entry = [Lamport 3 8]"
      "bu_lamport_clock b = Lamport 4 8" "sn_undo_map (bu_snapshot b) = st_new undo_ops"
    by (rule sample_edited [OF b(1)])
  define n where "n = put_replica 8 b [EditOp e] sample_start"
  have reach: "reachable ''ab'' n" unfolding n_def by (rule reachable.step [OF sample_start_reachable b(2)])
  have n: "b = nw_replicas n 8" by (simp add: n_def)
  have h: "hi_operations (bu_history b) = ops" "hi_depth (bu_history b) = 0" "hi_undo_stack (bu_history b) = [] @ [entry]"
    by (simp_all add: s(2) hi_new_def)
  note low = sample_undo_low [OF s(1) h(1) s(3-5)]
  have "undo_low (he_transaction entry) b1" if "bu_undo b = Some (b1, r)" for b1 r
  proof -
    obtain log where log: "replica_ok ''ab'' (set (nw_sent n)) 8 b log" using reachable_ok [OF reach] n unfolding network_ok_def by blast
    define h' where "h' = (bu_history b)\<lparr>hi_undo_stack := [], hi_redo_stack := [entry]\<rparr>"
    have pop: "hi_pop_undo (bu_history b) = Some (h', Some entry)" by (simp add: hi_pop_undo_def s(2) hi_new_def h'_def)
    obtain b' ops' where "bu_undo_or_redo (he_transaction entry) (b\<lparr>bu_history := h'\<rparr>) = Some (b', UndoOp (undo_op (he_transaction entry) b))"
        "bu_history b' = h'\<lparr>hi_operations := ops'\<rparr>" "tm_insert ops (Lamport 4 8) (UndoOp (undo_op (he_transaction entry) b)) = Some ops'"
        "um_insert (st_new undo_ops) (sample_undone (bu_version b)) = Some (sn_undo_map (bu_snapshot b'))"
        "bu_lamport_clock b' = Lamport 5 8"
      by (rule network_undo [OF reachable_ok [OF reach] n log low(2), of h'])
        (use hist_ids_pop_undo [OF pop] low h(1) s(4,5) in \<open>simp_all add: h'_def lamport_tick_def\<close>)
    moreover from this have "b1 = b'" using that by (simp add: bu_undo_def pop)
    ultimately show ?thesis using sample_redo_low [OF s(1) _ s(3)] by simp
  qed
  then have "case bu_undo b of None \<Rightarrow> True | Some (b1, _) \<Rightarrow> undo_low (he_transaction entry) b1" by (auto split: option.split)
  from undo_then_redo [OF reach n h(2,3) _ low(2) this refl] h(1) low(3) obtain b1 u b2 v where
    r: "bu_undo b = Some (b1, Some (he_id entry, UndoOp u))" "bu_redo b1 = Some (b2, Some (he_id entry, UndoOp v))"
      "sn_visible_text (bu_snapshot b2) = sn_visible_text (bu_snapshot b)" by blast
  have "hi_undo_stack (bu_history b) = [entry]" by (simp add: s(2))
  with reach n s(3) r show ?thesis
    by (intro exI [of _ n], intro exI [of _ b], intro exI [of _ entry], intro ex4I [of _ b1 u b2 v]) simp
qed

end
