(* ===== verification/Zed_Anchor.thy ===== *)
theory Zed_Anchor
  imports Zed_Undo_Facts Zed_Selection
begin

text \<open>
  Anchors (\<open>crates/text/src/anchor.rs\<close> and the anchor methods of \<open>BufferSnapshot\<close> in \<open>text.rs\<close>): a position
  that is named by the insertion and the offset of the byte next to it, and keeps its place under edits.
  The build with \<open>debug_assertions\<close> and the one without differ, so that flag is an argument; a panic is
  \<open>None\<close>.  The id of the buffer (\<open>remote_id\<close>) is an argument as well.
\<close>

section \<open>Anchors\<close>

record anchor =
  an_timestamp_replica_id :: replica_id
  an_timestamp_value :: u32
  an_offset :: nat
  an_bias :: bias
  an_buffer_id :: nat

definition U32_MAX :: nat where "U32_MAX = 2 ^ 32 - 1"

definition anchor_new :: "lamport \<Rightarrow> nat \<Rightarrow> bias \<Rightarrow> nat \<Rightarrow> anchor" where
  "anchor_new timestamp offset bias buffer_id =
     \<lparr>an_timestamp_replica_id = lam_replica timestamp, an_timestamp_value = lam_value timestamp,
      an_offset = offset, an_bias = bias, an_buffer_id = buffer_id\<rparr>"

definition anchor_min_for_buffer :: "nat \<Rightarrow> anchor" where
  "anchor_min_for_buffer buffer_id =
     \<lparr>an_timestamp_replica_id = lam_replica LAMPORT_MIN, an_timestamp_value = lam_value LAMPORT_MIN,
      an_offset = 0, an_bias = BLeft, an_buffer_id = buffer_id\<rparr>"

definition anchor_max_for_buffer :: "nat \<Rightarrow> anchor" where
  "anchor_max_for_buffer buffer_id =
     \<lparr>an_timestamp_replica_id = lam_replica LAMPORT_MAX, an_timestamp_value = lam_value LAMPORT_MAX,
      an_offset = U32_MAX, an_bias = BRight, an_buffer_id = buffer_id\<rparr>"

definition min_min_range_for_buffer :: "nat \<Rightarrow> anchor \<times> anchor" where
  "min_min_range_for_buffer buffer_id = (let m = anchor_min_for_buffer buffer_id in (m, m))"

definition max_max_range_for_buffer :: "nat \<Rightarrow> anchor \<times> anchor" where
  "max_max_range_for_buffer buffer_id = (let m = anchor_max_for_buffer buffer_id in (m, m))"

definition min_max_range_for_buffer :: "nat \<Rightarrow> anchor \<times> anchor" where
  "min_max_range_for_buffer buffer_id = (anchor_min_for_buffer buffer_id, anchor_max_for_buffer buffer_id)"

definition an_timestamp :: "anchor \<Rightarrow> lamport" where
  "an_timestamp a = Lamport (an_timestamp_value a) (an_timestamp_replica_id a)"

definition anchor_is_min :: "anchor \<Rightarrow> bool" where
  "anchor_is_min a \<longleftrightarrow> an_timestamp a = LAMPORT_MIN \<and> an_offset a = 0 \<and> an_bias a = BLeft"

definition anchor_is_max :: "anchor \<Rightarrow> bool" where
  "anchor_is_max a \<longleftrightarrow> an_timestamp a = LAMPORT_MAX \<and> an_offset a = U32_MAX \<and> an_bias a = BRight"

text \<open>\<open>to_le_bytes\<close> of an unsigned number of \<open>n\<close> bytes.\<close>

definition le_bytes :: "nat \<Rightarrow> nat \<Rightarrow> nat list" where
  "le_bytes n x = map (\<lambda>i. x div 256 ^ i mod 256) [0 ..< n]"

definition bias_byte :: "bias \<Rightarrow> nat" where
  "bias_byte b = (case b of BLeft \<Rightarrow> 0 | BRight \<Rightarrow> 1)"

definition anchor_opaque_id :: "anchor \<Rightarrow> nat list" where
  "anchor_opaque_id a =
     le_bytes 8 (an_buffer_id a) @ le_bytes 4 (an_offset a) @ le_bytes 4 (unat (an_timestamp_value a)) @
     le_bytes 2 (unat (an_timestamp_replica_id a)) @ [bias_byte (an_bias a), 0]"

lemma anchor_new_simps [simp]:
  "an_timestamp (anchor_new t n b i) = t" "an_offset (anchor_new t n b i) = n" "an_bias (anchor_new t n b i) = b"
  "an_buffer_id (anchor_new t n b i) = i"
  by (cases t, simp_all add: anchor_new_def an_timestamp_def)

lemma anchor_min_max [simp]:
  "anchor_is_min (anchor_min_for_buffer i)" "anchor_is_max (anchor_max_for_buffer i)"
  "\<not> anchor_is_min (anchor_max_for_buffer i)" "\<not> anchor_is_max (anchor_min_for_buffer i)"
  "an_buffer_id (anchor_min_for_buffer i) = i" "an_buffer_id (anchor_max_for_buffer i) = i"
  "an_timestamp (anchor_min_for_buffer i) = LAMPORT_MIN" "an_timestamp (anchor_max_for_buffer i) = LAMPORT_MAX"
  "an_offset (anchor_min_for_buffer i) = 0" "an_offset (anchor_max_for_buffer i) = U32_MAX"
  "an_bias (anchor_min_for_buffer i) = BLeft" "an_bias (anchor_max_for_buffer i) = BRight"
  by (simp_all add: anchor_is_min_def anchor_is_max_def anchor_min_for_buffer_def anchor_max_for_buffer_def
      an_timestamp_def LAMPORT_MIN_def LAMPORT_MAX_def)

section \<open>Finding the fragment\<close>

text \<open>\<open>SumTree::find_with_prev\<close> on the index of insertions, whose dimension is the key of the last item.\<close>

fun index_find_with_prev ::
    "cell \<Rightarrow> bias \<Rightarrow> insertion_fragment option \<Rightarrow> insertion_fragment list \<Rightarrow>
       (insertion_fragment option \<times> insertion_fragment) option" where
  "index_find_with_prev target bias prev [] = None"
| "index_find_with_prev target bias prev (i # is) =
     (if target < if_key i \<or> target = if_key i \<and> bias = BLeft then Some (prev, i)
      else index_find_with_prev target bias (Some i) is)"

definition try_find_fragment :: "snapshot \<Rightarrow> anchor \<Rightarrow> insertion_fragment option" where
  "try_find_fragment s a =
     (let anchor_key = (an_timestamp a, an_offset a) in
      case index_find_with_prev anchor_key (an_bias a) None (sn_insertions s) of
        Some (prev, insertion) \<Rightarrow>
          let comparison = cmp (if_key insertion) anchor_key in
          if comparison = Greater \<or> an_bias a = BLeft \<and> comparison = Equal \<and> 0 < an_offset a
          then prev else Some insertion
      | None \<Rightarrow> list_last (sn_insertions s))"

definition try_fragment_id_for_anchor :: "bool \<Rightarrow> snapshot \<Rightarrow> anchor \<Rightarrow> locator option" where
  "try_fragment_id_for_anchor debug s a =
     (if anchor_is_min a then Some locator_min
      else if anchor_is_max a then Some locator_max
      else
        case try_find_fragment s a of
          None \<Rightarrow> None
        | Some insertion \<Rightarrow>
            if \<not> debug \<or> if_timestamp insertion = an_timestamp a then Some (if_fragment_id insertion) else None)"

text \<open>A missing fragment panics.\<close>

definition fragment_id_for_anchor :: "bool \<Rightarrow> snapshot \<Rightarrow> anchor \<Rightarrow> locator option" where
  "fragment_id_for_anchor debug s a = try_fragment_id_for_anchor debug s a"

text \<open>\<open>SumTree::find\<close> on the fragments, by id with bias left and by visible offset: the text before the fragment
  and the fragment.\<close>

fun find_fragment_id :: "locator \<Rightarrow> nat \<times> nat \<Rightarrow> fragment list \<Rightarrow> (nat \<times> nat) \<times> fragment option" where
  "find_fragment_id target pos [] = (pos, None)"
| "find_fragment_id target pos (f # fs) =
     (if target \<le> fr_id f then (pos, Some f)
      else find_fragment_id target (fst pos + visible_len [f], snd pos + deleted_len [f]) fs)"

fun find_fragment_at :: "nat \<Rightarrow> bias \<Rightarrow> nat \<Rightarrow> fragment list \<Rightarrow> nat \<times> fragment option" where
  "find_fragment_at target bias pos [] = (pos, None)"
| "find_fragment_at target bias pos (f # fs) =
     (let pos_end = pos + visible_len [f] in
      if target < pos_end \<or> target = pos_end \<and> bias = BLeft then (pos, Some f) else find_fragment_at target bias pos_end fs)"

section \<open>Resolving and creating anchors\<close>

text \<open>The offset of an anchor in its fragment underflows when the index is wrong.\<close>

definition anchor_in_fragment :: "anchor \<Rightarrow> insertion_fragment \<Rightarrow> nat \<Rightarrow> fragment \<Rightarrow> nat option" where
  "anchor_in_fragment a insertion start fragment =
     (if fr_visible fragment then
        if an_offset a < if_split_offset insertion then None else Some (start + (an_offset a - if_split_offset insertion))
      else Some start)"

definition offset_for_anchor :: "bool \<Rightarrow> nat \<Rightarrow> snapshot \<Rightarrow> anchor \<Rightarrow> nat option" where
  "offset_for_anchor debug remote_id s a =
     (if anchor_is_min a then Some 0
      else if anchor_is_max a then Some (length (sn_visible_text s))
      else if debug \<and> (an_buffer_id a \<noteq> remote_id \<or> \<not> vclock_observed (sn_version s) (an_timestamp a)) then None
      else
        case try_find_fragment s a of
          None \<Rightarrow> None
        | Some insertion \<Rightarrow>
            if if_timestamp insertion \<noteq> an_timestamp a then None
            else
              case find_fragment_id (if_fragment_id insertion) (0, 0) (sn_fragments s) of
                (_, None) \<Rightarrow> None
              | (start, Some fragment) \<Rightarrow> anchor_in_fragment a insertion (fst start) fragment)"

definition can_resolve :: "nat \<Rightarrow> snapshot \<Rightarrow> anchor \<Rightarrow> bool" where
  "can_resolve remote_id s a \<longleftrightarrow> remote_id = an_buffer_id a \<and>
     (anchor_is_min a \<or> anchor_is_max a \<or> vclock_observed (sn_version s) (an_timestamp a))"

text \<open>\<open>Rope::assert_char_boundary\<close> and \<open>Rope::ceil_char_boundary\<close> on the bytes of the rope.\<close>

definition assert_char_boundary :: "bool \<Rightarrow> string \<Rightarrow> nat \<Rightarrow> bool option" where
  "assert_char_boundary panic text offset =
     (if is_char_boundary text offset then Some True else if panic then None else Some False)"

definition ceil_char_boundary :: "string \<Rightarrow> nat \<Rightarrow> nat" where
  "ceil_char_boundary s i =
     (if length s < i then length s else i + length (takeWhile (\<lambda>j. \<not> is_char_boundary s j) [i ..< length s]))"

text \<open>\<open>usize::to_offset\<close>.\<close>

definition to_offset :: "bool \<Rightarrow> snapshot \<Rightarrow> nat \<Rightarrow> nat option" where
  "to_offset debug s offset =
     map_option (\<lambda>ok. if ok then offset else floor_char_boundary (sn_visible_text s) offset)
       (assert_char_boundary debug (sn_visible_text s) offset)"

definition anchor_at_offset :: "bool \<Rightarrow> nat \<Rightarrow> snapshot \<Rightarrow> nat \<Rightarrow> bias \<Rightarrow> anchor option" where
  "anchor_at_offset debug remote_id s offset bias =
     (let len = length (sn_visible_text s) in
      if bias = BLeft \<and> offset = 0 then Some (anchor_min_for_buffer remote_id)
      else if bias = BRight \<and> (\<not> debug \<and> len \<le> offset \<or> offset = len) then Some (anchor_max_for_buffer remote_id)
      else
        case assert_char_boundary debug (sn_visible_text s) offset of
          None \<Rightarrow> None
        | Some ok \<Rightarrow>
            let offset =
              (if ok then offset
               else case bias of
                 BLeft \<Rightarrow> floor_char_boundary (sn_visible_text s) offset
               | BRight \<Rightarrow> ceil_char_boundary (sn_visible_text s) offset)
            in
            case find_fragment_at offset bias 0 (sn_fragments s) of
              (_, None) \<Rightarrow> if debug then None else Some (anchor_max_for_buffer remote_id)
            | (start, Some fragment) \<Rightarrow>
                Some (anchor_new (fr_timestamp fragment)
                  (as_u32 (fr_insertion_offset fragment + as_u32 (offset - start))) bias remote_id))"

text \<open>Positions that anchors are made of: offsets and anchors.\<close>

datatype position = At nat | AtAnchor anchor

definition position_offset :: "bool \<Rightarrow> nat \<Rightarrow> snapshot \<Rightarrow> position \<Rightarrow> nat option" where
  "position_offset debug remote_id s p =
     (case p of At offset \<Rightarrow> to_offset debug s offset | AtAnchor a \<Rightarrow> offset_for_anchor debug remote_id s a)"

definition anchor_at :: "bool \<Rightarrow> nat \<Rightarrow> snapshot \<Rightarrow> position \<Rightarrow> bias \<Rightarrow> anchor option" where
  "anchor_at debug remote_id s p bias =
     (case position_offset debug remote_id s p of None \<Rightarrow> None | Some offset \<Rightarrow> anchor_at_offset debug remote_id s offset bias)"

definition anchor_before :: "bool \<Rightarrow> nat \<Rightarrow> snapshot \<Rightarrow> position \<Rightarrow> anchor option" where
  "anchor_before debug remote_id s p = anchor_at debug remote_id s p BLeft"

definition anchor_after :: "bool \<Rightarrow> nat \<Rightarrow> snapshot \<Rightarrow> position \<Rightarrow> anchor option" where
  "anchor_after debug remote_id s p = anchor_at debug remote_id s p BRight"

definition anchor_range_inside :: "bool \<Rightarrow> nat \<Rightarrow> snapshot \<Rightarrow> position \<times> position \<Rightarrow> (anchor \<times> anchor) option" where
  "anchor_range_inside debug remote_id s r = do {
     a \<leftarrow> anchor_after debug remote_id s (fst r);
     b \<leftarrow> anchor_before debug remote_id s (snd r);
     Some (a, b) }"

definition anchor_range_outside :: "bool \<Rightarrow> nat \<Rightarrow> snapshot \<Rightarrow> position \<times> position \<Rightarrow> (anchor \<times> anchor) option" where
  "anchor_range_outside debug remote_id s r = do {
     a \<leftarrow> anchor_before debug remote_id s (fst r);
     b \<leftarrow> anchor_after debug remote_id s (snd r);
     Some (a, b) }"

definition anchor_bias_left :: "bool \<Rightarrow> nat \<Rightarrow> snapshot \<Rightarrow> anchor \<Rightarrow> anchor option" where
  "anchor_bias_left debug remote_id s a =
     (case an_bias a of BLeft \<Rightarrow> Some a | BRight \<Rightarrow> anchor_before debug remote_id s (AtAnchor a))"

definition anchor_bias_right :: "bool \<Rightarrow> nat \<Rightarrow> snapshot \<Rightarrow> anchor \<Rightarrow> anchor option" where
  "anchor_bias_right debug remote_id s a =
     (case an_bias a of BLeft \<Rightarrow> anchor_after debug remote_id s (AtAnchor a) | BRight \<Rightarrow> Some a)"

definition anchor_bias :: "bool \<Rightarrow> nat \<Rightarrow> snapshot \<Rightarrow> bias \<Rightarrow> anchor \<Rightarrow> anchor option" where
  "anchor_bias debug remote_id s bias a =
     (case bias of BLeft \<Rightarrow> anchor_bias_left debug remote_id s a | BRight \<Rightarrow> anchor_bias_right debug remote_id s a)"

definition anchor_is_valid :: "bool \<Rightarrow> nat \<Rightarrow> snapshot \<Rightarrow> anchor \<Rightarrow> bool" where
  "anchor_is_valid debug remote_id s a =
     (if an_buffer_id a \<noteq> remote_id then False
      else if anchor_is_min a \<or> anchor_is_max a then True
      else
        case try_fragment_id_for_anchor debug s a of
          None \<Rightarrow> False
        | Some fragment_id \<Rightarrow>
            (case snd (find_fragment_id fragment_id (0, 0) (sn_fragments s)) of None \<Rightarrow> False | Some f \<Rightarrow> fr_visible f))"

section \<open>Comparing anchors\<close>

instantiation bias :: linorder
begin

definition "less_eq_bias (a :: bias) b \<longleftrightarrow> bias_byte a \<le> bias_byte b"
definition "less_bias (a :: bias) b \<longleftrightarrow> bias_byte a < bias_byte b"

instance
  by standard (auto simp: less_eq_bias_def less_bias_def bias_byte_def split: bias.splits)

end

lemma bias_less [simp]: "(a :: bias) < b \<longleftrightarrow> a = BLeft \<and> b = BRight"
  by (cases a; cases b) (simp_all add: less_bias_def bias_byte_def)

text \<open>Comparing the ids of the fragments panics when a fragment is missing.\<close>

definition anchor_cmp :: "bool \<Rightarrow> snapshot \<Rightarrow> anchor \<Rightarrow> anchor \<Rightarrow> ordering option" where
  "anchor_cmp debug s a b = do {
     fragment_id_comparison \<leftarrow>
       (if an_timestamp a = an_timestamp b then Some Equal
        else do {
          i \<leftarrow> fragment_id_for_anchor debug s a;
          j \<leftarrow> fragment_id_for_anchor debug s b;
          Some (cmp i j) });
     Some (ordering_then fragment_id_comparison
       (ordering_then (cmp (an_offset a) (an_offset b)) (cmp (an_bias a) (an_bias b)))) }"

definition anchor_min :: "bool \<Rightarrow> snapshot \<Rightarrow> anchor \<Rightarrow> anchor \<Rightarrow> anchor option" where
  "anchor_min debug s a b = map_option (\<lambda>c. if c \<noteq> Greater then a else b) (anchor_cmp debug s a b)"

definition anchor_max :: "bool \<Rightarrow> snapshot \<Rightarrow> anchor \<Rightarrow> anchor \<Rightarrow> anchor option" where
  "anchor_max debug s a b = map_option (\<lambda>c. if c \<noteq> Less then a else b) (anchor_cmp debug s a b)"

text \<open>\<open>AnchorRangeExt\<close>; \<open>&&\<close> evaluates its right side only when the left one holds.\<close>

definition anchor_range_cmp :: "bool \<Rightarrow> snapshot \<Rightarrow> anchor \<times> anchor \<Rightarrow> anchor \<times> anchor \<Rightarrow> ordering option" where
  "anchor_range_cmp debug s r1 r2 = do {
     ord \<leftarrow> anchor_cmp debug s (fst r1) (fst r2);
     (if ord = Equal then anchor_cmp debug s (snd r2) (snd r1) else Some ord) }"

definition anchor_range_overlaps :: "bool \<Rightarrow> snapshot \<Rightarrow> anchor \<times> anchor \<Rightarrow> anchor \<times> anchor \<Rightarrow> bool option" where
  "anchor_range_overlaps debug s r1 r2 = do {
     ord \<leftarrow> anchor_cmp debug s (fst r1) (snd r2);
     (if ord = Less then map_option (\<lambda>ord. ord = Less) (anchor_cmp debug s (fst r2) (snd r1)) else Some False) }"

definition contains_anchor :: "bool \<Rightarrow> snapshot \<Rightarrow> anchor \<times> anchor \<Rightarrow> anchor \<Rightarrow> bool option" where
  "contains_anchor debug s r a = do {
     ord \<leftarrow> anchor_cmp debug s (fst r) a;
     (if ord \<noteq> Greater then map_option (\<lambda>ord. ord \<noteq> Less) (anchor_cmp debug s (snd r) a) else Some False) }"

section \<open>Summaries\<close>

text \<open>\<open>summary_for_anchor\<close> in bytes; the offset goes through \<open>to_offset\<close> again.  \<open>Selection::resolve\<close> follows.\<close>

definition summary_for_anchor :: "bool \<Rightarrow> nat \<Rightarrow> snapshot \<Rightarrow> anchor \<Rightarrow> nat option" where
  "summary_for_anchor debug remote_id s a =
     (case offset_for_anchor debug remote_id s a of None \<Rightarrow> None | Some offset \<Rightarrow> to_offset debug s offset)"

definition sel_resolve :: "bool \<Rightarrow> nat \<Rightarrow> snapshot \<Rightarrow> (anchor, 'g) selection \<Rightarrow> (nat, 'g) selection option" where
  "sel_resolve debug remote_id s sel = do {
     start \<leftarrow> summary_for_anchor debug remote_id s (sel_start sel);
     finish \<leftarrow> summary_for_anchor debug remote_id s (sel_end sel);
     Some \<lparr>sel_id = sel_id sel, sel_start = start, sel_end = finish, sel_reversed = sel_reversed sel, sel_goal = sel_goal sel\<rparr> }"

text \<open>\<open>summaries_for_anchors_with_payload_impl\<close> in bytes: a cursor over the fragments and one over the visible text move
  along; without \<open>ALLOW_BACKWARDS\<close> both panic when an anchor lies before them.  A forward seek of a cursor that has not
  moved yet starts at the first fragment.\<close>

record resolve_state =
  rs_cursor :: fragment_cursor
  rs_text_offset :: nat
  rs_position :: nat

definition resolve_seek :: "bool \<Rightarrow> snapshot \<Rightarrow> locator \<Rightarrow> fragment_cursor \<Rightarrow> fragment_cursor option" where
  "resolve_seek allow_backwards s fragment_id c =
     (if allow_backwards \<and> fc_before c \<noteq> [] \<and> fragment_id \<le> fr_id (last (fc_before c)) then
        map_option fst (fc_slice_id \<lparr>fc_before = [], fc_rest = sn_fragments s\<rparr> fragment_id)
      else map_option fst (fc_slice_id c fragment_id))"

definition resolve_step :: "bool \<Rightarrow> snapshot \<Rightarrow> anchor \<Rightarrow> resolve_state \<Rightarrow> (nat \<times> resolve_state) option" where
  "resolve_step allow_backwards s a st =
     (if anchor_is_min a then Some (0, st)
      else if anchor_is_max a then Some (length (sn_visible_text s), st)
      else
        case try_find_fragment s a of
          None \<Rightarrow> None
        | Some insertion \<Rightarrow>
            if if_timestamp insertion \<noteq> an_timestamp a then None
            else do {
              c \<leftarrow> resolve_seek allow_backwards s (if_fragment_id insertion) (rs_cursor st);
              fragment \<leftarrow> fc_item c;
              fragment_offset \<leftarrow> anchor_in_fragment a insertion (fc_start_visible c) fragment;
              (let (text_offset, position) =
                 (if allow_backwards \<and> fragment_offset < rs_text_offset st then (0, 0) else (rs_text_offset st, rs_position st)) in
               if fragment_offset < text_offset \<or> length (sn_visible_text s) < fragment_offset then None
               else
                 let position = position + (fragment_offset - text_offset) in
                 Some (position, \<lparr>rs_cursor = c, rs_text_offset = fragment_offset, rs_position = position\<rparr>)) })"

fun resolve_all :: "bool \<Rightarrow> snapshot \<Rightarrow> anchor list \<Rightarrow> resolve_state \<Rightarrow> nat list option" where
  "resolve_all allow_backwards s [] st = Some []"
| "resolve_all allow_backwards s (a # as) st =
     (case resolve_step allow_backwards s a st of
        None \<Rightarrow> None
      | Some (n, st) \<Rightarrow> map_option ((#) n) (resolve_all allow_backwards s as st))"

definition summaries_for_anchors_impl :: "bool \<Rightarrow> snapshot \<Rightarrow> anchor list \<Rightarrow> nat list option" where
  "summaries_for_anchors_impl allow_backwards s as =
     resolve_all allow_backwards s as
       \<lparr>rs_cursor = \<lparr>fc_before = [], fc_rest = sn_fragments s\<rparr>, rs_text_offset = 0, rs_position = 0\<rparr>"

definition summaries_for_anchors :: "snapshot \<Rightarrow> anchor list \<Rightarrow> nat list option" where
  "summaries_for_anchors s as = summaries_for_anchors_impl False s as"

definition summaries_for_anchors_unordered :: "snapshot \<Rightarrow> anchor list \<Rightarrow> nat list option" where
  "summaries_for_anchors_unordered s as = summaries_for_anchors_impl True s as"

end
