(* ===== verification/Zed_Edits.thy ===== *)
theory Zed_Edits
  imports Zed_Anchor Zed_Fragment_Tree Zed_SumTree_Filter
begin

text \<open>
  What changed since a version: \<open>edits_since\<close> and its variants, the iterator \<open>Edits\<close>, \<open>has_edits_since\<close> and
  \<open>offsets_to_version\<close> of \<open>BufferSnapshot\<close> (\<open>text.rs\<close>), over byte offsets.  A panic is \<open>None\<close>.  A version and an
  undo map are those of the snapshot, which the iterator borrows; its mutable fields are a record.
\<close>

section \<open>Cursors\<close>

text \<open>\<open>Cursor::summary\<close> and \<open>Cursor::seek_forward\<close> of the rope: the bytes up to the new offset, which must be in the rope
  and not before the cursor.\<close>

definition rope_seek_forward :: "string \<Rightarrow> nat \<Rightarrow> nat \<Rightarrow> nat option" where
  "rope_seek_forward text offset end_offset =
     (if end_offset < offset \<or> length text < end_offset then None else Some end_offset)"

definition rope_summary :: "string \<Rightarrow> nat \<Rightarrow> nat \<Rightarrow> (nat \<times> nat) option" where
  "rope_summary text offset end_offset =
     (if end_offset < offset \<or> length text < end_offset then None else Some (end_offset - offset, end_offset))"

text \<open>The filter of the cursor over the fragments, and what that cursor visits: the fragments that have something the
  version has not observed, each with the visible and the deleted bytes before it.\<close>

definition changed_filter :: "vclock \<Rightarrow> fragment_summary \<Rightarrow> bool" where
  "changed_filter since summary \<longleftrightarrow> \<not> vclock_observed_all since (version_values (fs_max_version summary))"

definition changed_fragments :: "vclock \<Rightarrow> snapshot \<Rightarrow> ((nat \<times> nat) \<times> fragment) list" where
  "changed_fragments since s = positions fragment_ops text_dim (changed_filter since) (0, 0) (sn_fragments s)"

section \<open>The iterator\<close>

type_synonym anchor_range = "anchor \<times> anchor"
type_synonym anchored_edit = "text_edit \<times> anchor_range"
type_synonym locator_range = "(locator \<times> nat) \<times> (locator \<times> nat)"

record edits =
  ed_visible_cursor :: nat
  ed_deleted_cursor :: nat
  ed_fragments_cursor :: "((nat \<times> nat) \<times> fragment) list"
  ed_old_end :: nat
  ed_new_end :: nat

text \<open>The unchanged text before the fragment moves both ends.\<close>

definition edits_jump :: "snapshot \<Rightarrow> nat \<times> nat \<Rightarrow> edits \<Rightarrow> edits option" where
  "edits_jump s start ed =
     (if ed_visible_cursor ed < fst start then
        map_option
          (\<lambda>(summary, offset).
             ed\<lparr>ed_visible_cursor := offset, ed_old_end := ed_old_end ed + summary, ed_new_end := ed_new_end ed + summary\<rparr>)
          (rope_summary (sn_visible_text s) (ed_visible_cursor ed) (fst start))
      else Some ed)"

text \<open>The end of the fragment in its rope, cut at the end of the range.  The subtraction of offsets may underflow.\<close>

definition clipped_end :: "locator \<times> nat \<Rightarrow> fragment \<Rightarrow> nat \<Rightarrow> nat \<Rightarrow> nat option" where
  "clipped_end until f start fragment_end =
     (if fr_id f = fst until then
        if snd until < fr_insertion_offset f then None
        else Some (min fragment_end (start + (snd until - fr_insertion_offset f)))
      else Some fragment_end)"

definition fragment_anchors :: "nat \<Rightarrow> fragment \<Rightarrow> anchor_range" where
  "fragment_anchors buffer_id f =
     (anchor_new (fr_timestamp f) (fr_insertion_offset f) BRight buffer_id,
      anchor_new (fr_timestamp f) (as_u32 (fr_insertion_offset f + fr_len f)) BLeft buffer_id)"

definition edits_inserted ::
    "snapshot \<Rightarrow> locator_range \<Rightarrow> anchor_range \<Rightarrow> nat \<times> nat \<Rightarrow> fragment \<Rightarrow> anchored_edit option \<Rightarrow> edits \<Rightarrow>
       (anchored_edit option \<times> edits) option" where
  "edits_inserted s rg anchors start f pending ed = do {
     visible_end \<leftarrow> clipped_end (snd rg) f (fst start) (fst start + visible_len [f]);
     (summary, offset) \<leftarrow> rope_summary (sn_visible_text s) (ed_visible_cursor ed) visible_end;
     let new_end = ed_new_end ed + summary;
     let pending =
       (case pending of
          Some (edit, anchor_range) \<Rightarrow> (edit\<lparr>e_new := (e_new edit)\<lparr>rng_end := new_end\<rparr>\<rparr>, fst anchor_range, snd anchors)
        | None \<Rightarrow> (mk_edit (ed_old_end ed) (ed_old_end ed) (ed_new_end ed) new_end, anchors));
     Some (Some pending, ed\<lparr>ed_visible_cursor := offset, ed_new_end := new_end\<rparr>) }"

definition edits_deleted ::
    "snapshot \<Rightarrow> locator_range \<Rightarrow> anchor_range \<Rightarrow> nat \<times> nat \<Rightarrow> fragment \<Rightarrow> anchored_edit option \<Rightarrow> edits \<Rightarrow>
       (anchored_edit option \<times> edits) option" where
  "edits_deleted s rg anchors start f pending ed = do {
     deleted_end \<leftarrow> clipped_end (snd rg) f (snd start) (snd start + deleted_len [f]);
     offset \<leftarrow>
       (if ed_deleted_cursor ed < snd start then rope_seek_forward (sn_deleted_text s) (ed_deleted_cursor ed) (snd start)
        else Some (ed_deleted_cursor ed));
     (summary, offset) \<leftarrow> rope_summary (sn_deleted_text s) offset deleted_end;
     let old_end = ed_old_end ed + summary;
     let pending =
       (case pending of
          Some (edit, anchor_range) \<Rightarrow> (edit\<lparr>e_old := (e_old edit)\<lparr>rng_end := old_end\<rparr>\<rparr>, fst anchor_range, snd anchors)
        | None \<Rightarrow> (mk_edit (ed_old_end ed) old_end (ed_new_end ed) (ed_new_end ed), anchors));
     Some (Some pending, ed\<lparr>ed_deleted_cursor := offset, ed_old_end := old_end\<rparr>) }"

definition edits_visit ::
    "snapshot \<Rightarrow> vclock \<Rightarrow> nat \<Rightarrow> locator_range \<Rightarrow> nat \<times> nat \<Rightarrow> fragment \<Rightarrow> anchored_edit option \<Rightarrow> edits \<Rightarrow>
       (anchored_edit option \<times> edits) option" where
  "edits_visit s since buffer_id rg start f pending ed = do {
     was \<leftarrow> fragment_was_visible (sn_undo_map s) since f;
     (if \<not> was \<and> fr_visible f then edits_inserted s rg (fragment_anchors buffer_id f) start f pending ed
      else if was \<and> \<not> fr_visible f then edits_deleted s rg (fragment_anchors buffer_id f) start f pending ed
      else Some (pending, ed)) }"

text \<open>The loop of \<open>next\<close> over the fragments that the cursor still visits.\<close>

fun edits_loop ::
    "snapshot \<Rightarrow> vclock \<Rightarrow> nat \<Rightarrow> locator_range \<Rightarrow> anchored_edit option \<Rightarrow> ((nat \<times> nat) \<times> fragment) list \<Rightarrow> edits \<Rightarrow>
       (anchored_edit option \<times> edits) option" where
  "edits_loop s since buffer_id rg pending [] ed = Some (pending, ed\<lparr>ed_fragments_cursor := []\<rparr>)"
| "edits_loop s since buffer_id rg pending ((start, f) # rest) ed =
     (if fr_id f < fst (fst rg) then edits_loop s since buffer_id rg pending rest ed
      else if fst (snd rg) < fr_id f then Some (pending, ed\<lparr>ed_fragments_cursor := (start, f) # rest\<rparr>)
      else
        case edits_jump s start ed of
          None \<Rightarrow> None
        | Some ed \<Rightarrow>
            if (case pending of None \<Rightarrow> False | Some (change, _) \<Rightarrow> rng_end (e_new change) < ed_new_end ed) then
              Some (pending, ed\<lparr>ed_fragments_cursor := (start, f) # rest\<rparr>)
            else
              case edits_visit s since buffer_id rg start f pending ed of
                None \<Rightarrow> None
              | Some (pending, ed) \<Rightarrow> edits_loop s since buffer_id rg pending rest ed)"

definition edits_next ::
    "snapshot \<Rightarrow> vclock \<Rightarrow> nat \<Rightarrow> locator_range \<Rightarrow> edits \<Rightarrow> (anchored_edit option \<times> edits) option" where
  "edits_next s since buffer_id rg ed = edits_loop s since buffer_id rg None (ed_fragments_cursor ed) ed"

text \<open>The caller's loop, until \<open>next\<close> returns nothing.\<close>

partial_function (option) edits_collect ::
    "snapshot \<Rightarrow> vclock \<Rightarrow> nat \<Rightarrow> locator_range \<Rightarrow> edits \<Rightarrow> anchored_edit list \<Rightarrow> anchored_edit list option" where
  [code]: "edits_collect s since buffer_id rg ed es = do {
     (item, ed) \<leftarrow> edits_next s since buffer_id rg ed;
     (case item of None \<Rightarrow> Some es | Some e \<Rightarrow> edits_collect s since buffer_id rg ed (es @ [e])) }"

section \<open>Queries\<close>

definition edits_start :: "bool \<Rightarrow> snapshot \<Rightarrow> vclock \<Rightarrow> anchor_range \<Rightarrow> (locator_range \<times> edits) option" where
  "edits_start debug s since bounds = do {
     start_fragment_id \<leftarrow> fragment_id_for_anchor debug s (fst bounds);
     (let (start, item) = find_fragment_id start_fragment_id (0, 0) (sn_fragments s) in do {
        (visible_start, deleted_start) \<leftarrow>
          (case item of
             None \<Rightarrow> Some start
           | Some fragment \<Rightarrow>
               if an_offset (fst bounds) < fr_insertion_offset fragment then None
               else
                 let overshoot = an_offset (fst bounds) - fr_insertion_offset fragment in
                 Some (if fr_visible fragment then (fst start + overshoot, snd start) else (fst start, snd start + overshoot)));
        end_fragment_id \<leftarrow> fragment_id_for_anchor debug s (snd bounds);
        Some (((start_fragment_id, an_offset (fst bounds)), (end_fragment_id, an_offset (snd bounds))),
          \<lparr>ed_visible_cursor = visible_start, ed_deleted_cursor = deleted_start,
           ed_fragments_cursor = changed_fragments since s, ed_old_end = 0, ed_new_end = 0\<rparr>) }) }"

definition anchored_edits_since_in_range ::
    "bool \<Rightarrow> nat \<Rightarrow> snapshot \<Rightarrow> vclock \<Rightarrow> anchor_range \<Rightarrow> anchored_edit list option" where
  "anchored_edits_since_in_range debug remote_id s since bounds =
     (if since = sn_version s then Some []
      else do {
        (rg, ed) \<leftarrow> edits_start debug s since bounds;
        edits_collect s since remote_id rg ed [] })"

definition anchored_edits_since :: "bool \<Rightarrow> nat \<Rightarrow> snapshot \<Rightarrow> vclock \<Rightarrow> anchored_edit list option" where
  "anchored_edits_since debug remote_id s since =
     anchored_edits_since_in_range debug remote_id s since (anchor_min_for_buffer remote_id, anchor_max_for_buffer remote_id)"

definition edits_since_in_range :: "bool \<Rightarrow> nat \<Rightarrow> snapshot \<Rightarrow> vclock \<Rightarrow> anchor_range \<Rightarrow> text_edit list option" where
  "edits_since_in_range debug remote_id s since bounds =
     map_option (map fst) (anchored_edits_since_in_range debug remote_id s since bounds)"

definition edits_since :: "bool \<Rightarrow> nat \<Rightarrow> snapshot \<Rightarrow> vclock \<Rightarrow> text_edit list option" where
  "edits_since debug remote_id s since =
     edits_since_in_range debug remote_id s since (anchor_min_for_buffer remote_id, anchor_max_for_buffer remote_id)"

text \<open>\<open>has_edits_since\<close> and \<open>has_edits_since_in_range\<close> stop at the first fragment whose visibility changed.\<close>

fun has_edits_loop :: "snapshot \<Rightarrow> vclock \<Rightarrow> fragment list \<Rightarrow> bool option" where
  "has_edits_loop s since [] = Some False"
| "has_edits_loop s since (f # fs) =
     (case fragment_was_visible (sn_undo_map s) since f of
        None \<Rightarrow> None
      | Some was \<Rightarrow> if was \<noteq> fr_visible f then Some True else has_edits_loop s since fs)"

definition has_edits_since :: "snapshot \<Rightarrow> vclock \<Rightarrow> bool option" where
  "has_edits_since s since =
     (if since \<noteq> sn_version s then has_edits_loop s since (map snd (changed_fragments since s)) else Some False)"

fun has_edits_range_loop :: "snapshot \<Rightarrow> vclock \<Rightarrow> locator \<Rightarrow> locator \<Rightarrow> fragment list \<Rightarrow> bool option" where
  "has_edits_range_loop s since start_id end_id [] = Some False"
| "has_edits_range_loop s since start_id end_id (f # fs) =
     (if end_id < fr_id f then Some False
      else if start_id < fr_id f then
        (case fragment_was_visible (sn_undo_map s) since f of
           None \<Rightarrow> None
         | Some was \<Rightarrow>
             if was \<noteq> fr_visible f then Some True else has_edits_range_loop s since start_id end_id fs)
      else has_edits_range_loop s since start_id end_id fs)"

definition has_edits_since_in_range :: "bool \<Rightarrow> snapshot \<Rightarrow> vclock \<Rightarrow> anchor_range \<Rightarrow> bool option" where
  "has_edits_since_in_range debug s since bounds =
     (if since \<noteq> sn_version s then do {
        start_fragment_id \<leftarrow> fragment_id_for_anchor debug s (fst bounds);
        end_fragment_id \<leftarrow> fragment_id_for_anchor debug s (snd bounds);
        has_edits_range_loop s since start_fragment_id end_fragment_id (map snd (changed_fragments since s)) }
      else Some False)"

section \<open>Offsets at an older version\<close>

text \<open>The closure that \<open>offsets_to_version\<close> maps over the offsets: its state is the edits not yet passed and the ends of
  the last one that was.\<close>

fun offset_to_version :: "text_edit list \<Rightarrow> nat \<Rightarrow> nat \<Rightarrow> nat \<Rightarrow> nat \<times> text_edit list \<times> nat \<times> nat" where
  "offset_to_version [] last_old_end last_new_end new_offset =
     (last_old_end + (new_offset - last_new_end), [], last_old_end, last_new_end)"
| "offset_to_version (e # es) last_old_end last_new_end new_offset =
     (if new_offset < rng_start (e_new e) then
        (last_old_end + (new_offset - last_new_end), e # es, last_old_end, last_new_end)
      else if rng_end (e_new e) \<le> new_offset then offset_to_version es (rng_end (e_old e)) (rng_end (e_new e)) new_offset
      else
        let overshoot = new_offset - rng_start (e_new e) in
        (min (rng_start (e_old e) + overshoot) (rng_end (e_old e)), e # es, last_old_end, last_new_end))"

fun map_offsets :: "text_edit list \<Rightarrow> nat \<Rightarrow> nat \<Rightarrow> nat list \<Rightarrow> nat list" where
  "map_offsets es last_old_end last_new_end [] = []"
| "map_offsets es last_old_end last_new_end (offset # offsets) =
     (let (n, es, last_old_end, last_new_end) = offset_to_version es last_old_end last_new_end offset
      in n # map_offsets es last_old_end last_new_end offsets)"

definition offsets_to_version :: "bool \<Rightarrow> nat \<Rightarrow> snapshot \<Rightarrow> nat list \<Rightarrow> vclock \<Rightarrow> nat list option" where
  "offsets_to_version debug remote_id s offsets version =
     map_option (\<lambda>edits. map_offsets edits 0 0 offsets) (edits_since debug remote_id s version)"

definition range_to_version :: "bool \<Rightarrow> nat \<Rightarrow> snapshot \<Rightarrow> nat \<times> nat \<Rightarrow> vclock \<Rightarrow> (nat \<times> nat) option" where
  "range_to_version debug remote_id s bounds version =
     map_option (\<lambda>offsets. (offsets ! 0, offsets ! 1)) (offsets_to_version debug remote_id s [fst bounds, snd bounds] version)"

end
