(* ===== verification/Zed_Anchor_Facts.thy ===== *)
theory Zed_Anchor_Facts
  imports Zed_Anchor Zed_Buffer_Invariant
begin

text \<open>
  What anchors mean.  Every anchor other than the least and the greatest names a cell, a byte of an
  insertion; its offset is the number of visible cells before that cell, or up to it when the anchor has
  bias left, whatever the fragments are.
\<close>

section \<open>The meaning of an anchor\<close>

definition cell_flags :: "fragment list \<Rightarrow> (cell \<times> bool) list" where
  "cell_flags fs = concat (map (\<lambda>f. map (\<lambda>c. (c, fr_visible f)) (fr_cells f)) fs)"

definition anchor_cell :: "anchor \<Rightarrow> cell" where
  "anchor_cell a =
     (an_timestamp a, if an_bias a = BLeft \<and> 0 < an_offset a then an_offset a - 1 else an_offset a)"

text \<open>An anchor with bias left lies behind its cell, unless it is at the start of an insertion.\<close>

definition behind_cell :: "anchor \<Rightarrow> bool" where
  "behind_cell a \<longleftrightarrow> an_bias a = BLeft \<and> 0 < an_offset a"

definition count_before :: "cell \<Rightarrow> (cell \<times> bool) list \<Rightarrow> nat" where
  "count_before c xs = length (filter snd (takeWhile (\<lambda>x. fst x \<noteq> c) xs))"

definition anchor_offset :: "(cell \<times> bool) list \<Rightarrow> anchor \<Rightarrow> nat" where
  "anchor_offset xs a =
     (if anchor_is_min a then 0
      else if anchor_is_max a then length (filter snd xs)
      else count_before (anchor_cell a) xs + (if behind_cell a \<and> (anchor_cell a, True) \<in> set xs then 1 else 0))"

definition anchored :: "(cell \<times> bool) list \<Rightarrow> anchor \<Rightarrow> bool" where
  "anchored xs a \<longleftrightarrow> anchor_is_min a \<or> anchor_is_max a \<or> anchor_cell a \<in> fst ` set xs"

lemma cell_flags_simps [simp]:
  "cell_flags [] = []" "cell_flags (f # fs) = map (\<lambda>c. (c, fr_visible f)) (fr_cells f) @ cell_flags fs"
  "cell_flags (fs @ gs) = cell_flags fs @ cell_flags gs"
  by (simp_all add: cell_flags_def)

lemma fst_cell_flags [simp]: "map fst (cell_flags fs) = cells fs"
  by (induction fs) (simp_all add: comp_def)

lemma fst_shown_set: "fst ` set (cell_flags fs) = set (cells fs)"
  using fst_cell_flags [of fs] by (metis list.set_map)

lemma filter_shown [simp]: "filter snd (cell_flags fs) = map (\<lambda>c. (c, True)) (vcells fs)"
  by (induction fs) (simp_all add: filter_map comp_def)

lemma fr_cells_split:
  assumes "fr_insertion_offset f \<le> i" "i < fr_insertion_offset f + fr_len f"
  shows "fr_cells f = map (Pair (fr_timestamp f)) [fr_insertion_offset f ..< i] @ (fr_timestamp f, i) #
    map (Pair (fr_timestamp f)) [Suc i ..< fr_insertion_offset f + fr_len f]"
proof -
  have "[fr_insertion_offset f ..< fr_insertion_offset f + fr_len f] =
      [fr_insertion_offset f ..< i] @ i # [Suc i ..< fr_insertion_offset f + fr_len f]"
    using upt_add_eq_append [of "fr_insertion_offset f" i "fr_insertion_offset f + fr_len f - i"]
      upt_conv_Cons [of i "fr_insertion_offset f + fr_len f"] assms by simp
  then show ?thesis by (simp add: fr_cells_def)
qed

text \<open>The visible cells before a cell of a fragment.\<close>

lemma count_before_fragment:
  assumes "distinct (cells (B @ f # R))" "fr_insertion_offset f \<le> i" "i < fr_insertion_offset f + fr_len f"
  shows "count_before (fr_timestamp f, i) (cell_flags (B @ f # R)) =
      visible_len B + (if fr_visible f then i - fr_insertion_offset f else 0)"
    "((fr_timestamp f, i), True) \<in> set (cell_flags (B @ f # R)) \<longleftrightarrow> fr_visible f"
proof -
  let ?c = "(fr_timestamp f, i)"
  let ?P = "map (\<lambda>c. (c, fr_visible f)) (map (Pair (fr_timestamp f)) [fr_insertion_offset f ..< i])"
  have mem: "?c \<in> set (fr_cells f)" using fr_cells_split [OF assms(2,3)] by simp
  then have "?c \<notin> set (cells B)" "?c \<notin> set (cells R)" using assms(1) by auto
  then have B: "\<forall>x \<in> set (cell_flags B). fst x \<noteq> ?c" and R: "\<forall>x \<in> set (cell_flags R). fst x \<noteq> ?c"
    using fst_shown_set [of B] fst_shown_set [of R] by (metis imageI)+
  have P: "\<forall>x \<in> set ?P. fst x \<noteq> ?c" by auto
  have "takeWhile (\<lambda>x. fst x \<noteq> ?c) (cell_flags (B @ f # R)) = cell_flags B @ ?P"
    using B P by (simp add: fr_cells_split [OF assms(2,3)] takeWhile_append)
  then show "count_before ?c (cell_flags (B @ f # R)) = visible_len B + (if fr_visible f then i - fr_insertion_offset f else 0)"
    using assms(2,3) by (simp add: count_before_def filter_map comp_def)
  show "(?c, True) \<in> set (cell_flags (B @ f # R)) \<longleftrightarrow> fr_visible f"
    using B R mem by force
qed

section \<open>The index of insertions\<close>

lemma index_find_skip:
  assumes "\<forall>x \<in> set L. if_key x < target" "L \<noteq> []"
  shows "index_find_with_prev target b prev (L @ is) = index_find_with_prev target b (Some (last L)) is"
  using assms
proof (induction L arbitrary: prev)
  case (Cons x L)
  then show ?case by (cases "L = []") auto
qed simp

lemma index_find_here:
  assumes "\<forall>x \<in> set R. target < if_key x \<or> target = if_key x \<and> b = BLeft"
  shows "index_find_with_prev target b prev R = (if R = [] then None else Some (prev, hd R))"
  using assms by (cases R) auto

text \<open>The fragment that holds the cell of an anchor is the one the index finds.\<close>

lemma try_find:
  assumes ok: "snapshot_ok ins s" and f: "f \<in> set (sn_fragments s)" and cell: "anchor_cell a \<in> set (fr_cells f)"
  shows "try_find_fragment s a = Some (insertion_fragment_new f)"
proof -
  let ?i = "insertion_fragment_new f" and ?t = "(an_timestamp a, an_offset a)"
  have idx: "sorted_wrt (<) (map if_key (sn_insertions s))" "set (sn_insertions s) = insertion_fragment_new ` set (sn_fragments s)"
    and dist: "distinct (cells (sn_fragments s))" and fits: "\<forall>g \<in> set (sn_fragments s). 0 < fr_len g"
    using ok by (auto simp: snapshot_ok_def fr_fits_def)
  then have "?i \<in> set (sn_insertions s)" using f by simp
  then obtain L R where xs: "sn_insertions s = L @ ?i # R" by (metis split_list)
  have L: "\<forall>x \<in> set L. if_key x < fr_key f" and R: "\<forall>x \<in> set R. fr_key f < if_key x"
    using idx(1) by (auto simp: xs sorted_wrt_append)
  have t: "an_timestamp a = fr_timestamp f" using cell by (auto simp: anchor_cell_def fr_cells_def)
  have range: "fr_insertion_offset f \<le> snd (anchor_cell a)" "snd (anchor_cell a) < fr_insertion_offset f + fr_len f"
    using cell by (auto simp: anchor_cell_def fr_cells_def)
  have le: "fr_key f \<le> ?t" using range(1) by (auto simp: t anchor_cell_def less_eq_prod_def split: if_splits)
  have later: "anchor_cell a < if_key x" if x: "x \<in> set R" for x
  proof -
    obtain g where g: "g \<in> set (sn_fragments s)" "x = insertion_fragment_new g" using x idx(2) xs by auto
    have "fr_key g \<notin> set (fr_cells f)"
    proof
      assume c: "fr_key g \<in> set (fr_cells f)"
      have "fr_key g \<in> set (fr_cells g)" using fits g(1) by (simp add: fr_key_cell)
      then have "g = f" using distinct_cells_fragment [OF dist f g(1) c] by simp
      then show False using R x g(2) by auto
    qed
    moreover have "fr_key f < fr_key g" using R x g(2) by auto
    ultimately have "\<not> if_key x \<le> anchor_cell a" using range t g(2)
      by (auto simp: fr_cells_def anchor_cell_def less_eq_prod_def less_prod_def image_iff split: if_splits)
    then show ?thesis by simp
  qed
  have ge: "?t \<le> if_key x \<and> (?t = if_key x \<longrightarrow> behind_cell a)" if "x \<in> set R" for x
    using later [OF that] by (cases "if_key x") (auto simp: anchor_cell_def behind_cell_def less_eq_prod_def less_prod_def split: if_splits)
  have Lt: "\<forall>x \<in> set L. if_key x < ?t" using L order.strict_trans2 [OF _ le] by blast
  have skip: "index_find_with_prev ?t b None (L @ is) = index_find_with_prev ?t b (list_last L) is" for b "is"
    using index_find_skip [OF Lt, of b None "is"] by (cases "L = []") (simp_all add: list_last_def)
  show ?thesis
  proof (cases "fr_key f = ?t \<and> an_bias a = BLeft")
    case True
    then have "an_offset a = 0" using range(1) by (auto simp: anchor_cell_def split: if_splits)
    moreover have "index_find_with_prev ?t (an_bias a) None (L @ ?i # R) = Some (list_last L, ?i)"
      unfolding skip using True by simp
    ultimately show ?thesis using True by (simp add: try_find_fragment_def xs Let_def cmp_def)
  next
    case False
    then have pass: "index_find_with_prev ?t (an_bias a) (list_last L) (?i # R) = index_find_with_prev ?t (an_bias a) (Some ?i) R"
      using le by auto
    have here: "index_find_with_prev ?t (an_bias a) (Some ?i) R = (if R = [] then None else Some (Some ?i, hd R))"
      by (rule index_find_here) (use ge in \<open>fastforce simp: behind_cell_def le_less\<close>)
    show ?thesis
    proof (cases R)
      case Nil
      then show ?thesis using pass here by (simp add: try_find_fragment_def xs skip Let_def list_last_def)
    next
      case (Cons r R')
      then have "cmp (if_key r) ?t = Greater \<or> cmp (if_key r) ?t = Equal \<and> behind_cell a"
        using ge [of r] by (auto simp: cmp_def le_less)
      then show ?thesis using pass here Cons by (auto simp: try_find_fragment_def xs skip Let_def behind_cell_def)
    qed
  qed
qed

section \<open>Resolving\<close>

lemma find_fragment_id_eq:
  assumes "sorted_wrt (<) (map fr_id (B @ f # R))"
  shows "find_fragment_id (fr_id f) (v, d) (B @ f # R) = ((v + visible_len B, d + deleted_len B), Some f)"
  using assms by (induction B arbitrary: v d) auto

lemma anchor_cell_fragment:
  assumes "anchor_cell a \<in> set (fr_cells f)"
  shows "an_timestamp a = fr_timestamp f" "fr_insertion_offset f \<le> an_offset a" "an_offset a \<le> fr_insertion_offset f + fr_len f"
    "an_offset a - fr_insertion_offset f = snd (anchor_cell a) - fr_insertion_offset f + (if behind_cell a then 1 else 0)"
    "fr_insertion_offset f \<le> snd (anchor_cell a)" "snd (anchor_cell a) < fr_insertion_offset f + fr_len f"
    "anchor_cell a = (fr_timestamp f, snd (anchor_cell a))"
  using assms by (auto simp: anchor_cell_def behind_cell_def fr_cells_def split: if_splits)

lemma anchor_in_fragment_eq:
  assumes "distinct (cells (B @ f # R))" "anchor_cell a \<in> set (fr_cells f)" "\<not> anchor_is_min a" "\<not> anchor_is_max a"
  shows "anchor_in_fragment a (insertion_fragment_new f) (visible_len B) f = Some (anchor_offset (cell_flags (B @ f # R)) a)"
proof -
  note c = anchor_cell_fragment [OF assms(2)]
  note count = count_before_fragment [OF assms(1) c(5,6), folded c(7)]
  show ?thesis using c(2,4,5) count assms(3,4)
    by (auto simp: anchor_in_fragment_def insertion_fragment_new_def anchor_offset_def)
qed

lemma offset_for_anchor_cells:
  assumes ok: "snapshot_ok ins s" and a: "anchored (cell_flags (sn_fragments s)) a"
    and dbg: "debug \<Longrightarrow> an_buffer_id a = rid \<and> (anchor_is_min a \<or> anchor_is_max a \<or> vclock_observed (sn_version s) (an_timestamp a))"
  shows "offset_for_anchor debug rid s a = Some (anchor_offset (cell_flags (sn_fragments s)) a)"
proof (cases "anchor_is_min a \<or> anchor_is_max a")
  case True
  have "length (sn_visible_text s) = visible_len (sn_fragments s)" using ok by (simp add: snapshot_ok_def)
  then show ?thesis using True by (auto simp: offset_for_anchor_def anchor_offset_def)
next
  case False
  then have "anchor_cell a \<in> set (cells (sn_fragments s))" using a by (simp add: anchored_def fst_shown_set)
  then obtain f where f: "f \<in> set (sn_fragments s)" "anchor_cell a \<in> set (fr_cells f)" by (auto simp: cells_def)
  then obtain B R where fs: "sn_fragments s = B @ f # R" by (metis split_list)
  have ids: "sorted_wrt (<) (map fr_id (B @ f # R))" and dist: "distinct (cells (B @ f # R))"
    using ok by (simp_all add: snapshot_ok_def flip: fs)
  have "anchor_in_fragment a (insertion_fragment_new f) (visible_len B) f = Some (anchor_offset (cell_flags (sn_fragments s)) a)"
    using anchor_in_fragment_eq [OF dist f(2)] False by (simp add: fs)
  moreover have "find_fragment_id (fr_id f) (0, 0) (sn_fragments s) = ((visible_len B, deleted_len B), Some f)"
    using find_fragment_id_eq [OF ids, of 0 0] by (simp add: fs)
  moreover have "if_timestamp (insertion_fragment_new f) = an_timestamp a" "if_fragment_id (insertion_fragment_new f) = fr_id f"
    using anchor_cell_fragment(1) [OF f(2)] by (simp_all add: insertion_fragment_new_def)
  ultimately show ?thesis
    using False dbg by (auto simp: offset_for_anchor_def try_find [OF ok f])
qed

section \<open>Creating anchors\<close>

lemma find_fragment_at_right:
  assumes "pos \<le> p" "p < pos + visible_len fs"
  shows "\<exists>B f R. fs = B @ f # R \<and> find_fragment_at p BRight pos fs = (pos + visible_len B, Some f) \<and> fr_visible f \<and>
    pos + visible_len B \<le> p \<and> p < pos + visible_len B + fr_len f"
  using assms
proof (induction fs arbitrary: pos)
  case (Cons f fs)
  show ?case
  proof (cases "p < pos + visible_len [f]")
    case True
    then have "fr_visible f" using Cons.prems(1) by (auto split: if_splits)
    then show ?thesis using True Cons.prems(1) by (intro exI [of _ "[]"] exI [of _ f] exI [of _ fs]) simp
  next
    case False
    then obtain B g R where "fs = B @ g # R" "find_fragment_at p BRight (pos + visible_len [f]) fs = (pos + visible_len [f] + visible_len B, Some g)"
        "fr_visible g" "pos + visible_len [f] + visible_len B \<le> p" "p < pos + visible_len [f] + visible_len B + fr_len g"
      using Cons.IH [of "pos + visible_len [f]"] Cons.prems(2) by auto
    then show ?thesis using False by (intro exI [of _ "f # B"] exI [of _ g] exI [of _ R]) (auto simp: Let_def)
  qed
qed simp

lemma find_fragment_at_left:
  assumes "pos < p" "p \<le> pos + visible_len fs"
  shows "\<exists>B f R. fs = B @ f # R \<and> find_fragment_at p BLeft pos fs = (pos + visible_len B, Some f) \<and> fr_visible f \<and>
    pos + visible_len B < p \<and> p \<le> pos + visible_len B + fr_len f"
  using assms
proof (induction fs arbitrary: pos)
  case (Cons f fs)
  show ?case
  proof (cases "p \<le> pos + visible_len [f]")
    case True
    then have "fr_visible f" using Cons.prems(1) by (auto split: if_splits)
    then show ?thesis using True Cons.prems(1) by (intro exI [of _ "[]"] exI [of _ f] exI [of _ fs]) (auto simp: le_less)
  next
    case False
    then obtain B g R where "fs = B @ g # R" "find_fragment_at p BLeft (pos + visible_len [f]) fs = (pos + visible_len [f] + visible_len B, Some g)"
        "fr_visible g" "pos + visible_len [f] + visible_len B < p" "p \<le> pos + visible_len [f] + visible_len B + fr_len g"
      using Cons.IH [of "pos + visible_len [f]"] Cons.prems(2) by auto
    then show ?thesis using False by (intro exI [of _ "f # B"] exI [of _ g] exI [of _ R]) (auto simp: Let_def)
  qed
qed simp

text \<open>The anchor at a visible offset: in a visible fragment that contains the offset, not at its start with bias left, not
  at its end with bias right.\<close>

definition within_fragment :: "nat \<Rightarrow> fragment list \<Rightarrow> fragment \<Rightarrow> nat \<Rightarrow> bias \<Rightarrow> anchor \<Rightarrow> bool" where
  "within_fragment rid B f p b a \<longleftrightarrow> fr_visible f \<and> visible_len B \<le> p \<and> p \<le> visible_len B + fr_len f \<and>
     (b = BLeft \<longrightarrow> visible_len B < p) \<and> (b = BRight \<longrightarrow> p < visible_len B + fr_len f) \<and>
     a = anchor_new (fr_timestamp f) (fr_insertion_offset f + (p - visible_len B)) b rid"

definition anchor_of :: "nat \<Rightarrow> fragment list \<Rightarrow> nat \<Rightarrow> bias \<Rightarrow> anchor \<Rightarrow> bool" where
  "anchor_of rid fs p b a \<longleftrightarrow> b = BLeft \<and> p = 0 \<and> a = anchor_min_for_buffer rid \<or>
     b = BRight \<and> p = visible_len fs \<and> a = anchor_max_for_buffer rid \<or>
     (\<exists>B f R. fs = B @ f # R \<and> within_fragment rid B f p b a)"

lemma anchor_at_offset_of:
  assumes ok: "snapshot_ok ins s" and p: "p \<le> length (sn_visible_text s)" "is_char_boundary (sn_visible_text s) p"
  shows "\<exists>a. anchor_at_offset debug rid s p b = Some a \<and> anchor_of rid (sn_fragments s) p b a"
proof -
  have len: "length (sn_visible_text s) = visible_len (sn_fragments s)" using ok by (simp add: snapshot_ok_def)
  have char: "assert_char_boundary debug (sn_visible_text s) p = Some True" using p(2) by (simp add: assert_char_boundary_def)
  have small: "as_u32 (fr_insertion_offset f + as_u32 n) = fr_insertion_offset f + n"
    if "f \<in> set (sn_fragments s)" "n \<le> fr_len f" for f n
  proof -
    have "fr_insertion_offset f + fr_len f < 2 ^ 32" using ok that(1) by (force simp: snapshot_ok_def fr_fits_def)
    then show ?thesis using that(2) by simp
  qed
  show ?thesis
  proof (cases b)
    case BLeft
    show ?thesis
    proof (cases "p = 0")
      case False
      then obtain B f R where f: "sn_fragments s = B @ f # R" "find_fragment_at p BLeft 0 (sn_fragments s) = (visible_len B, Some f)"
          "fr_visible f" "visible_len B < p" "p \<le> visible_len B + fr_len f"
        using find_fragment_at_left [of 0 p "sn_fragments s"] p(1) len by auto
      then have "within_fragment rid B f p b (anchor_new (fr_timestamp f) (fr_insertion_offset f + (p - visible_len B)) b rid)"
        by (simp add: within_fragment_def BLeft)
      then show ?thesis using f char False small [of f "p - visible_len B"]
        by (auto simp: anchor_at_offset_def anchor_of_def BLeft Let_def)
    qed (simp add: anchor_at_offset_def anchor_of_def BLeft Let_def)
  next
    case BRight
    show ?thesis
    proof (cases "p = length (sn_visible_text s)")
      case False
      then obtain B f R where f: "sn_fragments s = B @ f # R" "find_fragment_at p BRight 0 (sn_fragments s) = (visible_len B, Some f)"
          "fr_visible f" "visible_len B \<le> p" "p < visible_len B + fr_len f"
        using find_fragment_at_right [of 0 p "sn_fragments s"] p(1) len by auto
      then have "within_fragment rid B f p b (anchor_new (fr_timestamp f) (fr_insertion_offset f + (p - visible_len B)) b rid)"
        by (simp add: within_fragment_def BRight)
      then show ?thesis using f char False p(1) small [of f "p - visible_len B"]
        by (auto simp: anchor_at_offset_def anchor_of_def BRight Let_def)
    qed (use len in \<open>simp add: anchor_at_offset_def anchor_of_def BRight Let_def\<close>)
  qed
qed

lemma within_fragment_cell:
  assumes ok: "snapshot_ok ins s" and f: "sn_fragments s = B @ f # R" "within_fragment rid B f p b a" and min: "LAMPORT_MIN < fr_timestamp f"
  shows "anchor_cell a \<in> set (fr_cells f)" "\<not> anchor_is_min a" "\<not> anchor_is_max a"
    "anchor_offset (cell_flags (sn_fragments s)) a = p" "fragment_id_for_anchor debug s a = Some (fr_id f)"
proof -
  have fits: "fr_insertion_offset f + fr_len f < 2 ^ 32" "f \<in> set (sn_fragments s)" using ok f(1) by (force simp: snapshot_ok_def fr_fits_def)+
  have w: "fr_visible f" "visible_len B \<le> p" "p \<le> visible_len B + fr_len f" "b = BLeft \<Longrightarrow> visible_len B < p"
      "b = BRight \<Longrightarrow> p < visible_len B + fr_len f" and
    a: "a = anchor_new (fr_timestamp f) (fr_insertion_offset f + (p - visible_len B)) b rid"
    using f(2) by (auto simp: within_fragment_def)
  have le: "\<not> fr_insertion_offset f + (p - visible_len B) < fr_insertion_offset f" by simp
  show cell: "anchor_cell a \<in> set (fr_cells f)"
    unfolding a using w by (cases b) (auto simp: anchor_cell_def fr_cells_def intro!: imageI)
  show n: "\<not> anchor_is_min a" "\<not> anchor_is_max a"
    using min w fits(1) by (auto simp: a anchor_is_min_def anchor_is_max_def U32_MAX_def)
  have "distinct (cells (B @ f # R))" using ok by (simp add: snapshot_ok_def flip: f(1))
  from anchor_in_fragment_eq [OF this cell n] show "anchor_offset (cell_flags (sn_fragments s)) a = p"
    using w(1,2) le
    by (simp add: a anchor_in_fragment_def insertion_fragment_new_def f(1) del: Nat.add_diff_assoc)
  have "if_timestamp (insertion_fragment_new f) = an_timestamp a" by (simp add: insertion_fragment_new_def a)
  then show "fragment_id_for_anchor debug s a = Some (fr_id f)"
    using n try_find [OF ok fits(2) cell]
    by (simp add: fragment_id_for_anchor_def try_fragment_id_for_anchor_def) (simp add: insertion_fragment_new_def)
qed

lemma anchor_of_offset:
  assumes "snapshot_ok ins s" "anchor_of rid (sn_fragments s) p b a" "clocks_ok s"
  shows "anchored (cell_flags (sn_fragments s)) a" "anchor_offset (cell_flags (sn_fragments s)) a = p" "an_buffer_id a = rid" "an_bias a = b"
    "anchor_is_min a \<or> anchor_is_max a \<or> an_timestamp a \<in> fr_timestamp ` set (sn_fragments s)"
proof -
  have "anchored (cell_flags (sn_fragments s)) a \<and> anchor_offset (cell_flags (sn_fragments s)) a = p \<and>
      (anchor_is_min a \<or> anchor_is_max a \<or> an_timestamp a \<in> fr_timestamp ` set (sn_fragments s))"
    using assms(2) unfolding anchor_of_def
  proof (elim disjE exE conjE)
    fix B f R assume f: "sn_fragments s = B @ f # R" "within_fragment rid B f p b a"
    have "LAMPORT_MIN < fr_timestamp f" using assms(3) f(1) by (simp add: clocks_ok_def)
    note w = within_fragment_cell [OF assms(1) f this]
    have "anchor_cell a \<in> set (cells (sn_fragments s))" using w(1) f(1) by simp
    then have "anchored (cell_flags (sn_fragments s)) a" unfolding anchored_def fst_shown_set by blast
    moreover have "an_timestamp a \<in> fr_timestamp ` set (sn_fragments s)" using anchor_cell_fragment(1) [OF w(1)] f(1) by simp
    ultimately show ?thesis using w(4) by blast
  qed (auto simp: anchored_def anchor_offset_def)
  then show "anchored (cell_flags (sn_fragments s)) a" "anchor_offset (cell_flags (sn_fragments s)) a = p"
    "anchor_is_min a \<or> anchor_is_max a \<or> an_timestamp a \<in> fr_timestamp ` set (sn_fragments s)" by auto
  show "an_buffer_id a = rid" "an_bias a = b" using assms(2) by (auto simp: anchor_of_def within_fragment_def)
qed

section \<open>The order of anchors\<close>

text \<open>The fragments of an insertion are in the order of their offsets.\<close>

definition insertions_in_order :: "fragment list \<Rightarrow> bool" where
  "insertions_in_order fs \<longleftrightarrow> sorted_wrt (\<lambda>f g. fr_timestamp f = fr_timestamp g \<longrightarrow>
     fr_insertion_offset f + fr_len f \<le> fr_insertion_offset g) fs"

lemma cmp_flip: "cmp a b = Less \<longleftrightarrow> cmp b a = Greater" "cmp a b = Greater \<longleftrightarrow> cmp b a = Less" "cmp a b = Equal \<longleftrightarrow> a = b"
  by (auto simp: cmp_def)

lemma cmp_simps [simp]: "a < b \<Longrightarrow> cmp a b = Less" "cmp a a = Equal" "b < a \<Longrightarrow> cmp a b = Greater"
  by (auto simp: cmp_def)

text \<open>Anchors in different fragments.\<close>

lemma anchor_cmp_fragments:
  assumes ok: "snapshot_ok ins s" "clocks_ok s" "insertions_in_order (sn_fragments s)"
    and f: "sn_fragments s = B @ f # M @ g # R" "within_fragment rid B f p b x" "within_fragment rid (B @ f # M) g q c y"
  shows "anchor_cmp debug s x y = Some Less" "anchor_cmp debug s y x = Some Greater" "ordering_then (cmp p q) (cmp b c) = Less"
proof -
  have g: "sn_fragments s = (B @ f # M) @ g # R" using f(1) by simp
  have "LAMPORT_MIN < fr_timestamp f" "LAMPORT_MIN < fr_timestamp g" using ok(2) f(1) by (simp_all add: clocks_ok_def)
  note ids = within_fragment_cell(5) [OF ok(1) f(1,2) this(1)] within_fragment_cell(5) [OF ok(1) g f(3) this(2)]
  have less: "fr_id f < fr_id g" using ok(1) by (simp add: snapshot_ok_def f(1) sorted_wrt_append)
  have x: "an_timestamp x = fr_timestamp f" "an_offset x = fr_insertion_offset f + (p - visible_len B)" "an_bias x = b" "fr_visible f"
      "visible_len B \<le> p" "p \<le> visible_len B + fr_len f" "b = BRight \<Longrightarrow> p < visible_len B + fr_len f"
    using f(2) by (auto simp: within_fragment_def)
  define n where "n = visible_len (B @ f # M)"
  have n: "visible_len B + fr_len f \<le> n" using x(4) by (simp add: n_def)
  have y: "an_timestamp y = fr_timestamp g" "an_offset y = fr_insertion_offset g + (q - n)" "an_bias y = c"
      "n \<le> q" "c = BLeft \<Longrightarrow> n < q"
    using f(3) by (auto simp: within_fragment_def n_def)
  show "ordering_then (cmp p q) (cmp b c) = Less"
    using x(6,7) y(4,5) n by (cases b; cases c) (auto simp: cmp_def)
  have order: "ordering_then (cmp (an_offset x) (an_offset y)) (cmp (an_bias x) (an_bias y)) = Less"
      "ordering_then (cmp (an_offset y) (an_offset x)) (cmp (an_bias y) (an_bias x)) = Greater"
    if "fr_timestamp f = fr_timestamp g"
  proof -
    have off: "fr_insertion_offset f + fr_len f \<le> fr_insertion_offset g"
      using ok(3) that by (simp add: insertions_in_order_def f(1) sorted_wrt_append)
    have "an_offset x < an_offset y \<or> an_offset x = an_offset y \<and> b = BLeft \<and> c = BRight"
      using x(5,6,7) y(4,5) off unfolding x(2) y(2) by (cases b; cases c) auto
    then show "ordering_then (cmp (an_offset x) (an_offset y)) (cmp (an_bias x) (an_bias y)) = Less"
      "ordering_then (cmp (an_offset y) (an_offset x)) (cmp (an_bias y) (an_bias x)) = Greater"
      by (auto simp: x(3) y(3))
  qed
  show "anchor_cmp debug s x y = Some Less" "anchor_cmp debug s y x = Some Greater"
    using ids less order by (auto simp: anchor_cmp_def x(1) y(1))
qed

lemma within_fragment_bounds:
  assumes ok: "snapshot_ok ins s" "clocks_ok s" and f: "sn_fragments s = B @ f # R" "within_fragment rid B f p b a"
  shows "fragment_id_for_anchor debug s a = Some (fr_id f)" "locator_min < fr_id f" "fr_id f < locator_max"
    "LAMPORT_MIN < an_timestamp a" "an_bias a = b" "b = BLeft \<Longrightarrow> 0 < p" "b = BRight \<Longrightarrow> p < visible_len (sn_fragments s)"
    "p \<le> visible_len (sn_fragments s)" "an_offset a < U32_MAX \<or> an_offset a = U32_MAX \<and> b = BLeft"
proof -
  have min: "LAMPORT_MIN < fr_timestamp f" using ok(2) f(1) by (simp add: clocks_ok_def)
  have fits: "fr_fits ins f" using ok(1) f(1) by (simp add: snapshot_ok_def)
  show "fragment_id_for_anchor debug s a = Some (fr_id f)" by (rule within_fragment_cell(5) [OF ok(1) f min])
  show "locator_min < fr_id f" "fr_id f < locator_max" using fits by (simp_all add: fr_fits_def)
  show "LAMPORT_MIN < an_timestamp a" "an_bias a = b" "b = BLeft \<Longrightarrow> 0 < p" "b = BRight \<Longrightarrow> p < visible_len (sn_fragments s)"
    "p \<le> visible_len (sn_fragments s)" using f min by (auto simp: within_fragment_def)
  show "an_offset a < U32_MAX \<or> an_offset a = U32_MAX \<and> b = BLeft"
    using f(2) fits by (cases b) (auto simp: within_fragment_def fr_fits_def U32_MAX_def)
qed

lemma lamport_ends: "LAMPORT_MIN \<noteq> LAMPORT_MAX"
  by (simp add: LAMPORT_MIN_def LAMPORT_MAX_def)

lemma two_places:
  "B @ f # R = B' @ g # R' \<Longrightarrow> B = B' \<and> f = g \<or> (\<exists>M. B' = B @ f # M) \<or> (\<exists>M. B = B' @ g # M)"
  by (auto simp: append_eq_append_conv2 Cons_eq_append_conv append_eq_Cons_conv)

lemma fragment_id_ends [simp]:
  "fragment_id_for_anchor debug s (anchor_max_for_buffer rid) = Some locator_max"
  "fragment_id_for_anchor debug s (anchor_min_for_buffer rid) = Some locator_min"
  by (simp_all add: fragment_id_for_anchor_def try_fragment_id_for_anchor_def)

lemma anchor_cmp_min:
  assumes ok: "snapshot_ok ins s" "clocks_ok s" and y: "anchor_of rid (sn_fragments s) q c y"
  shows "anchor_cmp debug s (anchor_min_for_buffer rid) y = Some (ordering_then (cmp 0 q) (cmp BLeft c))"
    "anchor_cmp debug s y (anchor_min_for_buffer rid) = Some (ordering_then (cmp q 0) (cmp c BLeft))"
proof -
  have "anchor_cmp debug s (anchor_min_for_buffer rid) y = Some (ordering_then (cmp 0 q) (cmp BLeft c)) \<and>
      anchor_cmp debug s y (anchor_min_for_buffer rid) = Some (ordering_then (cmp q 0) (cmp c BLeft))"
    using y unfolding anchor_of_def
  proof (elim disjE exE conjE)
    fix B f R assume f: "sn_fragments s = B @ f # R" "within_fragment rid B f q c y"
    note w = within_fragment_bounds [OF ok f]
    have "LAMPORT_MIN \<noteq> an_timestamp y" "an_timestamp y \<noteq> LAMPORT_MIN" using w(4) by auto
    then show ?thesis using w(1,2,6) by (cases c) (auto simp: anchor_cmp_def cmp_def)
  qed (use locator_min_less_max lamport_ends in \<open>auto simp: anchor_cmp_def cmp_def\<close>)
  then show "anchor_cmp debug s (anchor_min_for_buffer rid) y = Some (ordering_then (cmp 0 q) (cmp BLeft c))"
    "anchor_cmp debug s y (anchor_min_for_buffer rid) = Some (ordering_then (cmp q 0) (cmp c BLeft))" by simp_all
qed

lemma anchor_cmp_max:
  assumes ok: "snapshot_ok ins s" "clocks_ok s" and y: "anchor_of rid (sn_fragments s) q c y"
  defines "n \<equiv> visible_len (sn_fragments s)"
  shows "anchor_cmp debug s (anchor_max_for_buffer rid) y = Some (ordering_then (cmp n q) (cmp BRight c))"
    "anchor_cmp debug s y (anchor_max_for_buffer rid) = Some (ordering_then (cmp q n) (cmp c BRight))"
proof -
  have "anchor_cmp debug s (anchor_max_for_buffer rid) y = Some (ordering_then (cmp n q) (cmp BRight c)) \<and>
      anchor_cmp debug s y (anchor_max_for_buffer rid) = Some (ordering_then (cmp q n) (cmp c BRight))"
    using y unfolding anchor_of_def
  proof (elim disjE exE conjE)
    fix B f R assume f: "sn_fragments s = B @ f # R" "within_fragment rid B f q c y"
    note w = within_fragment_bounds [OF ok f]
    show ?thesis using w(1,3,5,7,8,9) unfolding n_def by (cases c) (auto simp: anchor_cmp_def cmp_def)
  qed (use locator_min_less_max lamport_ends in \<open>auto simp: anchor_cmp_def cmp_def n_def\<close>)
  then show "anchor_cmp debug s (anchor_max_for_buffer rid) y = Some (ordering_then (cmp n q) (cmp BRight c))"
    "anchor_cmp debug s y (anchor_max_for_buffer rid) = Some (ordering_then (cmp q n) (cmp c BRight))" by simp_all
qed

lemma anchor_cmp_of:
  assumes ok: "snapshot_ok ins s" "clocks_ok s" "insertions_in_order (sn_fragments s)"
    and x: "anchor_of rid (sn_fragments s) p b x" and y: "anchor_of rid (sn_fragments s) q c y"
  shows "anchor_cmp debug s x y = Some (ordering_then (cmp p q) (cmp b c))"
proof -
  consider (ends) "x = anchor_min_for_buffer rid \<and> b = BLeft \<and> p = 0 \<or> y = anchor_min_for_buffer rid \<and> c = BLeft \<and> q = 0 \<or>
      x = anchor_max_for_buffer rid \<and> b = BRight \<and> p = visible_len (sn_fragments s) \<or>
      y = anchor_max_for_buffer rid \<and> c = BRight \<and> q = visible_len (sn_fragments s)"
    | (frag) B f R B' g R' where "sn_fragments s = B @ f # R" "within_fragment rid B f p b x"
      "sn_fragments s = B' @ g # R'" "within_fragment rid B' g q c y"
    using x y unfolding anchor_of_def by blast
  then show ?thesis
  proof cases
    case ends
    then show ?thesis using anchor_cmp_min [OF ok(1,2) x] anchor_cmp_min [OF ok(1,2) y] anchor_cmp_max [OF ok(1,2) x]
        anchor_cmp_max [OF ok(1,2) y] by blast
  next
    case (frag B f R B' g R')
    consider (same) "B = B'" "f = g" | (less) M where "B' = B @ f # M" | (greater) M where "B = B' @ g # M"
      using two_places [OF trans [OF frag(1) [symmetric] frag(3)]] by blast
    then show ?thesis
    proof cases
      case same
      define v k where "v = visible_len B" and "k = fr_insertion_offset f"
      have "x = anchor_new (fr_timestamp f) (k + (p - v)) b rid" "y = anchor_new (fr_timestamp f) (k + (q - v)) c rid" "v \<le> p" "v \<le> q"
        using frag(2,4) unfolding within_fragment_def v_def k_def same by blast+
      moreover from this obtain i j where "p = v + i" "q = v + j" by (auto simp: le_iff_add)
      then have "cmp (k + (p - v)) (k + (q - v)) = cmp p q" by (simp add: cmp_def)
      ultimately show ?thesis by (simp add: anchor_cmp_def)
    next
      case less
      then show ?thesis using anchor_cmp_fragments(1,3) [OF ok, of B f M g R' rid p b x q c y] frag by simp
    next
      case greater
      have "ordering_then (cmp q p) (cmp c b) = Less" "anchor_cmp debug s x y = Some Greater"
        using anchor_cmp_fragments(2,3) [OF ok, of B' g M f R rid q c y p b x] frag greater by simp_all
      then show ?thesis by (auto simp: cmp_def split: if_splits)
    qed
  qed
qed

section \<open>Resolving many anchors\<close>

text \<open>The fragment of an anchor.\<close>

definition in_fragment :: "fragment list \<Rightarrow> anchor \<Rightarrow> fragment list \<Rightarrow> fragment \<Rightarrow> fragment list \<Rightarrow> bool" where
  "in_fragment fs a B f R \<longleftrightarrow> fs = B @ f # R \<and> anchor_cell a \<in> set (fr_cells f)"

lemma anchored_fragment:
  assumes "anchored (cell_flags fs) a" "\<not> anchor_is_min a" "\<not> anchor_is_max a"
  obtains B f R where "in_fragment fs a B f R"
proof -
  have "anchor_cell a \<in> set (cells fs)" using assms by (simp add: anchored_def fst_shown_set)
  then obtain f where "f \<in> set fs" "anchor_cell a \<in> set (fr_cells f)" by (auto simp: cells_def)
  then show thesis using that by (metis in_fragment_def split_list)
qed

lemma slice_to_fragment:
  assumes ids: "sorted_wrt (<) (map fr_id (B @ f # R))" and c: "X @ Y = B @ f # R" and X: "X \<noteq> [] \<Longrightarrow> fr_id (last X) < fr_id f"
  shows "map_option fst (fc_slice_id \<lparr>fc_before = X, fc_rest = Y\<rparr> (fr_id f)) = Some \<lparr>fc_before = B, fc_rest = f # R\<rparr>"
proof -
  have "\<not> (\<exists>M. X = B @ f # M)"
  proof
    assume "\<exists>M. X = B @ f # M"
    then obtain M where M: "X = B @ f # M" ..
    then have "sorted_wrt (<) (map fr_id (f # M))" using ids unfolding c [symmetric] by (simp add: sorted_wrt_append)
    then have "fr_id f \<le> fr_id (last (f # M))" by (cases M) (auto intro: less_imp_le)
    then show False using X M by simp
  qed
  then obtain Z where Z: "B = X @ Z" "Y = Z @ f # R" using c
    by (auto simp: append_eq_append_conv2 append_eq_Cons_conv Cons_eq_append_conv)
  have "\<forall>z \<in> set Z. fr_id z < fr_id f" using ids by (auto simp: Z(1) sorted_wrt_append)
  then have "takeWhile (\<lambda>g. fr_id g < fr_id f) Y = Z" "dropWhile (\<lambda>g. fr_id g < fr_id f) Y = f # R"
    by (simp_all add: Z(2) takeWhile_append dropWhile_append)
  then show ?thesis using X by (auto simp: fc_slice_id_def Z(1))
qed

definition resolving :: "fragment list \<Rightarrow> resolve_state \<Rightarrow> bool" where
  "resolving fs st \<longleftrightarrow> fc_before (rs_cursor st) @ fc_rest (rs_cursor st) = fs \<and> rs_position st = rs_text_offset st"

lemma visible_offset_le:
  assumes "in_fragment fs a B f R"
  shows "visible_len B + (if fr_visible f then an_offset a - fr_insertion_offset f else 0) \<le> visible_len fs"
  using anchor_cell_fragment(3) [of a f] assms by (auto simp: in_fragment_def)

lemma resolve_step_eq:
  assumes ok: "snapshot_ok ins s" and st: "resolving (sn_fragments s) st" and a: "\<not> anchor_is_min a" "\<not> anchor_is_max a"
    and f: "in_fragment (sn_fragments s) a B f R"
    and fwd: "\<not> allow \<Longrightarrow> fc_before (rs_cursor st) \<noteq> [] \<Longrightarrow> fr_id (last (fc_before (rs_cursor st))) < fr_id f"
      "\<not> allow \<Longrightarrow> rs_text_offset st \<le> anchor_offset (cell_flags (sn_fragments s)) a"
  shows "resolve_step allow s a st = Some (anchor_offset (cell_flags (sn_fragments s)) a,
    \<lparr>rs_cursor = \<lparr>fc_before = B, fc_rest = f # R\<rparr>, rs_text_offset = anchor_offset (cell_flags (sn_fragments s)) a,
     rs_position = anchor_offset (cell_flags (sn_fragments s)) a\<rparr>)"
proof -
  let ?n = "anchor_offset (cell_flags (sn_fragments s)) a" and ?c = "rs_cursor st"
  have fs: "sn_fragments s = B @ f # R" and cell: "anchor_cell a \<in> set (fr_cells f)" using f by (simp_all add: in_fragment_def)
  have ids: "sorted_wrt (<) (map fr_id (B @ f # R))" and dist: "distinct (cells (B @ f # R))" and mem: "f \<in> set (sn_fragments s)"
    and vis: "length (sn_visible_text s) = visible_len (sn_fragments s)"
    using ok by (simp_all add: snapshot_ok_def fs)
  have c: "fc_before ?c @ fc_rest ?c = B @ f # R" "?c = \<lparr>fc_before = fc_before ?c, fc_rest = fc_rest ?c\<rparr>"
    using st by (simp_all add: resolving_def fs)
  have seek: "resolve_seek allow s (fr_id f) ?c = Some \<lparr>fc_before = B, fc_rest = f # R\<rparr>"
  proof (cases "allow \<and> fc_before ?c \<noteq> [] \<and> fr_id f \<le> fr_id (last (fc_before ?c))")
    case True
    then show ?thesis using slice_to_fragment [OF ids, of "[]" "B @ f # R"] by (simp add: resolve_seek_def fs)
  next
    case False
    then have "fc_before ?c \<noteq> [] \<Longrightarrow> fr_id (last (fc_before ?c)) < fr_id f" using fwd(1) by (cases allow) auto
    from slice_to_fragment [OF ids c(1) this] show ?thesis using False c(2) by (auto simp: resolve_seek_def)
  qed
  have n: "anchor_in_fragment a (insertion_fragment_new f) (visible_len B) f = Some ?n"
    using anchor_in_fragment_eq [OF dist cell a] by (simp add: fs)
  then have le: "?n \<le> length (sn_visible_text s)"
    using visible_offset_le [OF f] vis
    by (simp add: anchor_in_fragment_def insertion_fragment_new_def split: if_splits)
  have "if_timestamp (insertion_fragment_new f) = an_timestamp a" "if_fragment_id (insertion_fragment_new f) = fr_id f"
    using anchor_cell_fragment(1) [OF cell] by (simp_all add: insertion_fragment_new_def)
  then show ?thesis
    using a n le seek fwd(2) st
    by (cases allow) (auto simp: resolve_step_def try_find [OF ok mem cell] fc_item_def fc_start_visible_def resolving_def Let_def)
qed

lemma resolve_all_unordered:
  assumes ok: "snapshot_ok ins s"
  shows "resolving (sn_fragments s) st \<Longrightarrow> \<forall>a \<in> set as. anchored (cell_flags (sn_fragments s)) a \<Longrightarrow>
    resolve_all True s as st = Some (map (anchor_offset (cell_flags (sn_fragments s))) as)"
proof (induction as arbitrary: st)
  case (Cons a as)
  have len: "length (sn_visible_text s) = length (filter snd (cell_flags (sn_fragments s)))" using ok by (simp add: snapshot_ok_def)
  show ?case
  proof (cases "anchor_is_min a \<or> anchor_is_max a")
    case True
    then show ?thesis using Cons len by (auto simp: resolve_step_def anchor_offset_def)
  next
    case False
    moreover from False obtain B f R where f: "in_fragment (sn_fragments s) a B f R"
      using anchored_fragment [of "sn_fragments s" a] Cons.prems(2) by auto
    ultimately have "resolve_step True s a st = Some (anchor_offset (cell_flags (sn_fragments s)) a,
      \<lparr>rs_cursor = \<lparr>fc_before = B, fc_rest = f # R\<rparr>, rs_text_offset = anchor_offset (cell_flags (sn_fragments s)) a,
       rs_position = anchor_offset (cell_flags (sn_fragments s)) a\<rparr>)"
      using resolve_step_eq [OF ok Cons.prems(1), of a B f R True] by simp
    then show ?thesis using Cons f by (simp add: resolving_def in_fragment_def)
  qed
qed simp

text \<open>In the order of \<open>anchor_cmp\<close> the fragments follow each other.\<close>

lemma anchor_cmp_forward:
  assumes ok: "snapshot_ok ins s" "insertions_in_order (sn_fragments s)"
    and f: "in_fragment (sn_fragments s) a B f R" "\<not> anchor_is_min a" "\<not> anchor_is_max a"
    and g: "in_fragment (sn_fragments s) b B' g R'" "\<not> anchor_is_min b" "\<not> anchor_is_max b"
    and c: "anchor_cmp debug s a b \<noteq> Some Greater"
  shows "(\<exists>M. B' = B @ f # M) \<or> B' = B \<and> g = f \<and> an_offset a \<le> an_offset b"
proof -
  have fs: "sn_fragments s = B @ f # R" "sn_fragments s = B' @ g # R'" and cell: "anchor_cell a \<in> set (fr_cells f)" "anchor_cell b \<in> set (fr_cells g)"
    using f g by (simp_all add: in_fragment_def)
  note t = anchor_cell_fragment [OF cell(1)] anchor_cell_fragment [OF cell(2)]
  have find: "try_find_fragment s a = Some (insertion_fragment_new f)" "try_find_fragment s b = Some (insertion_fragment_new g)"
    using try_find [OF ok(1) _ cell(1)] try_find [OF ok(1) _ cell(2)] by (simp add: fs(1), simp add: fs(2))
  have ids: "fragment_id_for_anchor debug s a = Some (fr_id f)" "fragment_id_for_anchor debug s b = Some (fr_id g)"
    using find t(1,8) f(2,3) g(2,3) by (auto simp: fragment_id_for_anchor_def try_fragment_id_for_anchor_def insertion_fragment_new_def)
  from two_places [OF trans [OF fs(1) [symmetric] fs(2)]] show ?thesis
  proof (elim disjE)
    assume same: "B = B' \<and> f = g"
    then have "an_timestamp a = an_timestamp b" using t(1,8) by simp
    then have "an_offset a \<le> an_offset b" using c by (auto simp: anchor_cmp_def cmp_def split: if_splits)
    then show ?thesis using same by blast
  next
    assume "\<exists>M. B = B' @ g # M"
    then obtain M where fs': "sn_fragments s = B' @ g # M @ f # R" using fs(1) by auto
    have less: "fr_id g < fr_id f" using ok(1) by (simp add: snapshot_ok_def fs' sorted_wrt_append)
    have "an_timestamp a = an_timestamp b" using c ids less by (cases "an_timestamp a = an_timestamp b") (auto simp: anchor_cmp_def)
    moreover from this have "fr_insertion_offset g + fr_len g \<le> fr_insertion_offset f"
      using ok(2) t(1,8) by (auto simp: insertions_in_order_def fs' sorted_wrt_append)
    ultimately have "an_offset b \<le> an_offset a" "an_offset b = an_offset a \<longrightarrow> behind_cell b \<and> \<not> behind_cell a \<and> 0 < an_offset a"
      using t(2,3,4,5,6,9,10,11,12,13) by (auto simp: behind_cell_def split: if_splits)
    then have "anchor_cmp debug s a b = Some Greater" using \<open>an_timestamp a = an_timestamp b\<close>
      by (cases "an_bias a"; cases "an_bias b") (auto simp: anchor_cmp_def cmp_def behind_cell_def)
    then show ?thesis using c by simp
  qed blast
qed

text \<open>The cursor is at the fragment of the last anchor that was not an end of the buffer.\<close>

definition resolved_to :: "fragment list \<Rightarrow> anchor \<Rightarrow> resolve_state \<Rightarrow> bool" where
  "resolved_to fs a st \<longleftrightarrow> resolving fs st \<and> rs_text_offset st = anchor_offset (cell_flags fs) a \<and>
     (\<exists>B f R. in_fragment fs a B f R \<and> fc_before (rs_cursor st) = B)"

lemma resolved_to_forward:
  assumes ok: "snapshot_ok ins s" "insertions_in_order (sn_fragments s)" and st: "resolved_to (sn_fragments s) a st"
    and a: "\<not> anchor_is_min a" "\<not> anchor_is_max a" and b: "\<not> anchor_is_min b" "\<not> anchor_is_max b"
    and g: "in_fragment (sn_fragments s) b B' g R'" and c: "anchor_cmp debug s a b \<noteq> Some Greater"
  shows "fc_before (rs_cursor st) \<noteq> [] \<Longrightarrow> fr_id (last (fc_before (rs_cursor st))) < fr_id g"
    "rs_text_offset st \<le> anchor_offset (cell_flags (sn_fragments s)) b"
proof -
  obtain B f R where f: "in_fragment (sn_fragments s) a B f R" "fc_before (rs_cursor st) = B"
    using st by (auto simp: resolved_to_def)
  have fs: "sn_fragments s = B @ f # R" "sn_fragments s = B' @ g # R'" and cell: "anchor_cell a \<in> set (fr_cells f)" "anchor_cell b \<in> set (fr_cells g)"
    using f(1) g by (simp_all add: in_fragment_def)
  have ids: "sorted_wrt (<) (map fr_id (B' @ g # R'))" and dist: "distinct (cells (B @ f # R))" "distinct (cells (B' @ g # R'))"
    using ok(1) fs by (simp_all add: snapshot_ok_def)
  have a': "Some (anchor_offset (cell_flags (sn_fragments s)) a) = anchor_in_fragment a (insertion_fragment_new f) (visible_len B) f"
    and b': "Some (anchor_offset (cell_flags (sn_fragments s)) b) = anchor_in_fragment b (insertion_fragment_new g) (visible_len B') g"
    using anchor_in_fragment_eq [OF dist(1) cell(1) a, folded fs(1)] anchor_in_fragment_eq [OF dist(2) cell(2) b, folded fs(2)] by simp_all
  note le = anchor_cell_fragment(3) [OF cell(1)]
  from anchor_cmp_forward [OF ok f(1) a g b c]
  have "(B \<noteq> [] \<longrightarrow> fr_id (last B) < fr_id g) \<and> anchor_offset (cell_flags (sn_fragments s)) a \<le> anchor_offset (cell_flags (sn_fragments s)) b"
  proof (elim disjE exE conjE)
    fix M assume M: "B' = B @ f # M"
    have "B \<noteq> [] \<longrightarrow> fr_id (last B) < fr_id g" using ids by (simp add: M sorted_wrt_append)
    then show ?thesis using a' b' le M by (auto simp: anchor_in_fragment_def insertion_fragment_new_def split: if_splits)
  next
    assume same: "B' = B" "g = f" "an_offset a \<le> an_offset b"
    have "B \<noteq> [] \<longrightarrow> fr_id (last B) < fr_id g" using ids by (simp add: same sorted_wrt_append)
    then show ?thesis using a' b' same by (auto simp: anchor_in_fragment_def insertion_fragment_new_def split: if_splits)
  qed
  then show "fc_before (rs_cursor st) \<noteq> [] \<Longrightarrow> fr_id (last (fc_before (rs_cursor st))) < fr_id g"
    "rs_text_offset st \<le> anchor_offset (cell_flags (sn_fragments s)) b" using f(2) st by (auto simp: resolved_to_def)
qed

lemma resolve_all_ordered:
  assumes ok: "snapshot_ok ins s" "insertions_in_order (sn_fragments s)"
  shows "resolving (sn_fragments s) st \<Longrightarrow> \<forall>a \<in> set as. anchored (cell_flags (sn_fragments s)) a \<Longrightarrow>
    sorted_wrt (\<lambda>a b. anchor_cmp debug s a b \<noteq> Some Greater) as \<Longrightarrow>
    (fc_before (rs_cursor st) = [] \<and> rs_text_offset st = 0 \<or>
      (\<exists>a. resolved_to (sn_fragments s) a st \<and> \<not> anchor_is_min a \<and> \<not> anchor_is_max a \<and>
        (\<forall>b \<in> set as. anchor_cmp debug s a b \<noteq> Some Greater))) \<Longrightarrow>
    resolve_all False s as st = Some (map (anchor_offset (cell_flags (sn_fragments s))) as)"
proof (induction as arbitrary: st)
  case (Cons b as)
  let ?n = "anchor_offset (cell_flags (sn_fragments s))"
  have len: "length (sn_visible_text s) = length (filter snd (cell_flags (sn_fragments s)))" using ok(1) by (simp add: snapshot_ok_def)
  show ?case
  proof (cases "anchor_is_min b \<or> anchor_is_max b")
    case True
    have "resolve_all False s as st = Some (map ?n as)" by (rule Cons.IH) (use Cons.prems in auto)
    then show ?thesis using True len by (auto simp: resolve_step_def anchor_offset_def)
  next
    case False
    then obtain B g R where g: "in_fragment (sn_fragments s) b B g R"
      using anchored_fragment [of "sn_fragments s" b] Cons.prems(2) by auto
    have "(fc_before (rs_cursor st) \<noteq> [] \<longrightarrow> fr_id (last (fc_before (rs_cursor st))) < fr_id g) \<and> rs_text_offset st \<le> ?n b"
      using Cons.prems(4)
    proof (elim disjE exE conjE)
      fix a assume a: "resolved_to (sn_fragments s) a st" "\<not> anchor_is_min a" "\<not> anchor_is_max a"
        "\<forall>b \<in> set (b # as). anchor_cmp debug s a b \<noteq> Some Greater"
      then show ?thesis using resolved_to_forward [OF ok a(1-3) _ _ g, of debug] False by auto
    qed simp
    then have step: "resolve_step False s b st = Some (?n b,
      \<lparr>rs_cursor = \<lparr>fc_before = B, fc_rest = g # R\<rparr>, rs_text_offset = ?n b, rs_position = ?n b\<rparr>)"
      using resolve_step_eq [OF ok(1) Cons.prems(1), of b B g R False] False g by simp
    let ?st = "\<lparr>rs_cursor = \<lparr>fc_before = B, fc_rest = g # R\<rparr>, rs_text_offset = ?n b, rs_position = ?n b\<rparr>"
    have st: "resolving (sn_fragments s) ?st" using g by (simp add: resolving_def in_fragment_def)
    moreover from this have "resolved_to (sn_fragments s) b ?st" using g by (auto simp: resolved_to_def)
    ultimately have "resolve_all False s as ?st = Some (map ?n as)" using Cons.IH [OF st] Cons.prems(2,3) False by auto
    then show ?thesis using step by simp
  qed
qed simp

lemma summaries_for_anchors_cells:
  assumes ok: "snapshot_ok ins s" and "\<forall>a \<in> set as. anchored (cell_flags (sn_fragments s)) a"
  shows "summaries_for_anchors_unordered s as = Some (map (anchor_offset (cell_flags (sn_fragments s))) as)"
    "insertions_in_order (sn_fragments s) \<Longrightarrow> sorted_wrt (\<lambda>a b. anchor_cmp debug s a b \<noteq> Some Greater) as \<Longrightarrow>
      summaries_for_anchors s as = Some (map (anchor_offset (cell_flags (sn_fragments s))) as)"
proof -
  let ?st = "\<lparr>rs_cursor = \<lparr>fc_before = [], fc_rest = sn_fragments s\<rparr>, rs_text_offset = 0, rs_position = 0\<rparr>"
  have st: "resolving (sn_fragments s) ?st" by (simp add: resolving_def)
  show "summaries_for_anchors_unordered s as = Some (map (anchor_offset (cell_flags (sn_fragments s))) as)"
    unfolding summaries_for_anchors_unordered_def summaries_for_anchors_impl_def by (rule resolve_all_unordered [OF ok st assms(2)])
  show "summaries_for_anchors s as = Some (map (anchor_offset (cell_flags (sn_fragments s))) as)"
    if "insertions_in_order (sn_fragments s)" "sorted_wrt (\<lambda>a b. anchor_cmp debug s a b \<noteq> Some Greater) as"
    unfolding summaries_for_anchors_def summaries_for_anchors_impl_def
    by (rule resolve_all_ordered [OF ok that(1) st assms(2) that(2)]) simp
qed

end
