(* ===== verification/Zed_Run_Order.thy ===== *)
theory Zed_Run_Order
  imports Zed_Replication Zed_Anchor_Facts
begin

text \<open>
  How the bytes of a run stay in place.  Operations only add cells, so the cells of a run keep their order
  in every longer run, and two runs agree on the order of the cells that they share.  What an older
  version saw can be read off a later run.  Networks only grow, so this compares replicas, and one
  replica with what it was.
\<close>

section \<open>Cells are only added\<close>

text \<open>What a predicate on cells keeps, with a view of each cell.\<close>

definition view :: "(dcell \<Rightarrow> bool) \<Rightarrow> (dcell \<Rightarrow> 'a) \<Rightarrow> dcell list \<Rightarrow> (cell \<times> 'a) list" where
  "view P W xs = map (\<lambda>x. (fst x, W x)) (filter P xs)"

lemma view_simps [simp]:
  "view P W [] = []" "view P W (x # xs) = (if P x then [(fst x, W x)] else []) @ view P W xs"
  "view P W (xs @ ys) = view P W xs @ view P W ys"
  by (simp_all add: view_def)

lemma view_none: "\<forall>x \<in> set xs. \<not> P x \<Longrightarrow> view P W xs = []"
  by (simp add: view_def filter_empty_conv)

lemma view_ins_at: "\<forall>x \<in> set block. \<not> P x \<Longrightarrow> view P W (ins_at Q N n block xs) = view P W xs"
  by (induction Q N n block xs rule: ins_at.induct) (auto simp: view_none)

lemma view_ins_all: "(\<And>o'. \<not> P ((ts, o'), {})) \<Longrightarrow> view P W (ins_all Q ts off es xs) = view P W xs"
proof (induction es arbitrary: off xs)
  case (Cons e es)
  obtain a b t where e: "e = ((a, b), t)" by (cases e) auto
  have "view P W (ins_at (\<lambda>x. Q (fst x)) (\<lambda>x. ts \<le> fst (fst x)) a (edit_block ts off (length t)) xs) = view P W xs"
    using Cons.prems by (intro view_ins_at) auto
  then show ?case using Cons by (simp add: e)
qed simp

lemma view_strike:
  "(\<And>x. fst (g x) = fst x) \<Longrightarrow> (\<And>x. P (g x) = P x) \<Longrightarrow> (\<And>x. W (g x) = W x) \<Longrightarrow> view P W (strike Q S g i xs) = view P W xs"
  by (induction xs arbitrary: i) auto

lemma view_weave:
  assumes "\<And>o' D. \<not> P ((ts, o'), D)" "\<And>c D. P (c, insert ts D) = P (c, D)" "\<And>c D. W (c, insert ts D) = W (c, D)"
  shows "view P W (plain_weave Q V ts es xs) = view P W xs"
proof -
  have "P (mark_deleted V ts x) = P x" "W (mark_deleted V ts x) = W x" for x
    using assms(2,3) by (cases x; simp add: mark_deleted_def)+
  then show ?thesis
    unfolding plain_weave_def using assms(1)
    by (simp add: view_ins_all view_strike)
qed

lemma view_op:
  assumes "\<And>o' D. \<not> P ((op_timestamp A, o'), D)" "\<And>c D. P (c, insert (op_timestamp A) D) = P (c, D)"
    "\<And>c D. W (c, insert (op_timestamp A) D) = W (c, D)"
  shows "view P W (fst (abs_op A s)) = view P W (fst s)"
  using assms view_weave [where P = P and W = W and ts = "op_timestamp A"] by (cases A; cases s) simp_all

lemma view_run:
  assumes "\<And>A o' D. A \<in> set ops \<Longrightarrow> \<not> P ((op_timestamp A, o'), D)"
    "\<And>A c D. A \<in> set ops \<Longrightarrow> P (c, insert (op_timestamp A) D) = P (c, D)"
    "\<And>A c D. A \<in> set ops \<Longrightarrow> W (c, insert (op_timestamp A) D) = W (c, D)"
  shows "view P W (fst (fold abs_op ops s)) = view P W (fst s)"
  using assms
proof (induction ops arbitrary: s)
  case (Cons A ops)
  have "view P W (fst (fold abs_op (A # ops) s)) = view P W (fst (abs_op A s))" using Cons by simp
  also have "\<dots> = view P W (fst s)" by (rule view_op) (use Cons.prems in simp_all)
  finally show ?case .
qed simp

text \<open>The cells of a run, and those visible.\<close>

definition run_cells :: "string \<Rightarrow> operation list \<Rightarrow> (cell \<times> bool) list" where
  "run_cells base log = (case run base log of (xs, us) \<Rightarrow> view (\<lambda>_. True) (now_shown us) xs)"

lemma fst_plain [simp]: "fst (plain x) = fst x"
  by (simp add: plain_def)

lemma tracks_cells:
  assumes "tracks base log s"
  shows "cell_flags (sn_fragments s) = run_cells base log"
proof -
  obtain xs us where r: "run base log = (xs, us)" by fastforce
  have ok: "buffer_ok (texts_of base log) us s" "map plain (flagged (sn_fragments s)) = xs"
    using assms by (simp_all add: tracks_def r)
  have "cell_flags fs = view (\<lambda>_. True) (now_shown us) (map plain (flagged fs))" if "\<forall>f \<in> set fs. fr_visible f = shown us f" for fs
    using that
  proof (induction fs)
    case (Cons f fs)
    have "map (\<lambda>c. (c, fr_visible f)) cs = view (\<lambda>_. True) (now_shown us) (map plain (map (\<lambda>c. (c, fr_mark f)) cs))"
      if "set cs \<subseteq> set (fr_cells f)" for cs
      using that Cons.prems by (induction cs) (auto simp: shown_plain)
    then show ?case using Cons by (auto simp: flagged_def)
  qed (simp add: flagged_def)
  moreover have "\<forall>f \<in> set (sn_fragments s). fr_visible f = shown us f" using ok(1) by (simp add: buffer_ok_def)
  ultimately show ?thesis using ok(2) by (simp add: run_cells_def r)
qed

section \<open>What an older version saw\<close>

definition old_cells_of :: "vclock \<Rightarrow> string \<Rightarrow> operation list \<Rightarrow> (cell \<times> bool) list" where
  "old_cells_of v base log = (case run base log of (xs, us) \<Rightarrow> view (\<lambda>x. seen_cell v (fst x)) (was_shown us v) xs)"

lemma was_shown_later:
  assumes "\<forall>A \<in> set ops. \<not> vclock_observed v (op_timestamp A)"
  shows "was_shown (snd (fold abs_op ops s)) v = was_shown (snd s) v"
  using assms
proof (induction ops arbitrary: s)
  case (Cons A ops)
  have "was_shown (snd (abs_op A s)) v = was_shown (snd s) v"
    using Cons.prems by (cases A; cases s) (simp_all add: was_shown_insert)
  then show ?case using Cons by simp
qed simp

lemma old_cells_later:
  assumes "\<forall>A \<in> set ops. \<not> vclock_observed v (op_timestamp A)"
  shows "old_cells_of v base (log @ ops) = old_cells_of v base log"
proof -
  have "view (\<lambda>x. seen_cell v (fst x)) (was_shown us v) (fst (fold abs_op ops s)) =
      view (\<lambda>x. seen_cell v (fst x)) (was_shown us v) (fst s)" for us s
    by (rule view_run) (use assms in \<open>simp_all add: was_shown_deleted\<close>)
  moreover have "was_shown (snd (fold abs_op ops (run base log))) v = was_shown (snd (run base log)) v"
    by (rule was_shown_later [OF assms])
  ultimately show ?thesis by (simp add: old_cells_of_def split_beta)
qed

text \<open>A version that observes exactly a run sees it as it is.\<close>

lemma old_cells_self:
  assumes "observes_log v log"
  shows "old_cells_of v base log = run_cells base log"
proof -
  obtain xs us where r: "run base log = (xs, us)" by fastforce
  have seen: "vclock_observed v (fst (fst x))" if "x \<in> set xs" for x
    using run_stamps [of log base] that assms by (auto simp: r within_stamps_def observes_log_def)
  have now: "was_shown us v x = now_shown us x" if "x \<in> set xs" for x
    using was_shown_now [OF assms, of x base] that by (simp add: r)
  have "view (\<lambda>x. seen_cell v (fst x)) (was_shown us v) ys = view (\<lambda>_. True) (now_shown us) ys" if "set ys \<subseteq> set xs" for ys
    using that seen now by (induction ys) auto
  then show ?thesis by (simp add: old_cells_of_def run_cells_def r)
qed

section \<open>The cells of an insertion are in order\<close>

definition ordered_cells :: "cell list \<Rightarrow> bool" where
  "ordered_cells cs \<longleftrightarrow> sorted_wrt (\<lambda>c d. fst c = fst d \<longrightarrow> snd c < snd d) cs"

text \<open>An insertion goes past a list: every insertion at the same or a later place goes past it as well.\<close>

fun goes_past :: "('a \<Rightarrow> bool) \<Rightarrow> ('a \<Rightarrow> bool) \<Rightarrow> nat \<Rightarrow> 'a list \<Rightarrow> bool" where
  "goes_past P N n [] \<longleftrightarrow> True"
| "goes_past P N 0 (x # xs) \<longleftrightarrow> N x \<and> goes_past P N 0 xs"
| "goes_past P N (Suc n) (x # xs) \<longleftrightarrow> goes_past P N (if P x then n else Suc n) xs"

lemma goes_past_mono: "goes_past P N n xs \<Longrightarrow> n \<le> m \<Longrightarrow> goes_past P N m xs"
proof (induction P N n xs arbitrary: m rule: goes_past.induct)
  case (2 P N x xs)
  then show ?case by (cases m) auto
next
  case (3 P N n x xs)
  then show ?case by (cases m) auto
qed simp

lemma goes_past_append: "goes_past P N n (xs @ ys) \<longleftrightarrow> goes_past P N n xs \<and> goes_past P N (n - countP P xs) ys"
  by (induction P N n xs rule: goes_past.induct) auto

lemma goes_past_all: "\<forall>x \<in> set xs. N x \<and> \<not> P x \<Longrightarrow> goes_past P N n xs"
  by (induction P N n xs rule: goes_past.induct) auto

lemma ins_at_past: "goes_past P N n xs \<Longrightarrow> ins_at P N n block (xs @ ys) = xs @ ins_at P N (n - countP P xs) block ys"
  by (induction P N n xs rule: goes_past.induct) auto

lemma ins_at_split: "\<exists>l r. xs = l @ r \<and> ins_at P N n block xs = l @ block @ r \<and> goes_past P N n l"
proof (induction P N n block xs rule: ins_at.induct)
  case (2 P N block x xs)
  show ?case
  proof (cases "N x")
    case True
    then obtain l r where "xs = l @ r" "ins_at P N 0 block xs = l @ block @ r" "goes_past P N 0 l" using 2 by blast
    then show ?thesis using True by (intro exI [of _ "x # l"] exI [of _ r]) simp
  qed (intro exI [of _ "[]"] exI [of _ "x # xs"], simp)
next
  case (3 P N n block x xs)
  then obtain l r where "xs = l @ r" "ins_at P N (if P x then n else Suc n) block xs = l @ block @ r" "goes_past P N (if P x then n else Suc n) l"
    by blast
  then show ?case by (intro exI [of _ "x # l"] exI [of _ r]) simp
qed simp

text \<open>The blocks of one edit, each behind the ones before it.\<close>

lemma ordered_cells_insert:
  assumes "ordered_cells (l @ r1 @ r2)" "ordered_cells b" "\<forall>c \<in> set b. fst c = ts \<and> off \<le> snd c"
    "\<forall>c \<in> set r1 \<union> set r2. fst c \<noteq> ts" "\<forall>c \<in> set l. fst c = ts \<longrightarrow> snd c < off"
  shows "ordered_cells ((l @ r1 @ b) @ r2)"
proof -
  have "\<forall>c \<in> set l. \<forall>d \<in> set b. fst c = fst d \<longrightarrow> snd c < snd d" using assms(3,5) by (metis less_le_trans)
  moreover have "\<forall>c \<in> set r1. \<forall>d \<in> set b. fst c \<noteq> fst d" "\<forall>c \<in> set b. \<forall>d \<in> set r2. fst c \<noteq> fst d" using assms(3,4) by force+
  ultimately show ?thesis using assms(1,2) by (simp add: ordered_cells_def sorted_wrt_append ball_Un)
qed

lemma ins_all_ordered:
  assumes own: "\<And>o'. \<not> P (ts, o')"
  shows "edits_ok n pos es \<Longrightarrow> xs = l @ r \<Longrightarrow> goes_past (\<lambda>x. P (fst x)) (\<lambda>x. ts \<le> fst (fst x)) pos l \<Longrightarrow>
    \<forall>x \<in> set r. fst (fst x) \<noteq> ts \<Longrightarrow> \<forall>x \<in> set l. fst (fst x) = ts \<longrightarrow> snd (fst x) < off \<Longrightarrow> ordered_cells (map fst xs) \<Longrightarrow>
    ordered_cells (map fst (ins_all P ts off es xs))"
proof (induction es arbitrary: pos off xs l r)
  case (Cons e es)
  let ?P = "\<lambda>x :: dcell. P (fst x)" and ?N = "\<lambda>x :: dcell. ts \<le> fst (fst x)"
  obtain a b t where e: "e = ((a, b), t)" by (cases e) auto
  have ab: "pos \<le> a" "a \<le> b" "edits_ok n b es" using Cons.prems(1) by (simp_all add: e)
  let ?block = "edit_block ts off (length t)"
  have past: "goes_past ?P ?N a l" by (rule goes_past_mono [OF Cons.prems(3) ab(1)])
  obtain r1 r2 where r: "r = r1 @ r2" "ins_at ?P ?N (a - countP ?P l) ?block r = r1 @ ?block @ r2" "goes_past ?P ?N (a - countP ?P l) r1"
    using ins_at_split by blast
  have "goes_past ?P ?N m ?block" for m by (rule goes_past_all) (use own in auto)
  then have past': "goes_past ?P ?N b (l @ r1 @ ?block)"
    using past r(3) by (intro goes_past_mono [OF _ ab(2)]) (simp add: goes_past_append)
  have eq: "ins_at ?P ?N a ?block xs = (l @ r1 @ ?block) @ r2"
    using ins_at_past [OF past, of ?block r] by (simp add: Cons.prems(2) r(2))
  have block: "ordered_cells (map fst ?block)" by (simp add: ordered_cells_def sorted_wrt_map comp_def sorted_wrt_upt)
  have "ordered_cells ((map fst l @ map fst r1 @ map fst ?block) @ map fst r2)"
    using Cons.prems(4-6)
    by (intro ordered_cells_insert [OF _ block, where ts = ts and off = off]) (simp_all add: Cons.prems(2) r(1) ball_Un)
  then have "ordered_cells (map fst ((l @ r1 @ ?block) @ r2))" by simp
  then have "ordered_cells (map fst (ins_all P ts (off + length t) es ((l @ r1 @ ?block) @ r2)))"
    using Cons.prems(4,5) by (intro Cons.IH [OF ab(3) refl past']) (auto simp: r(1))
  then show ?case unfolding e ins_all.simps eq .
qed simp

lemma map_fst_strike: "(\<And>x. fst (g x) = fst x) \<Longrightarrow> map fst (strike P S g i xs) = map fst xs"
  by (induction xs arbitrary: i) simp_all

lemma op_ordered:
  assumes "abs_valid A s" "ordered_cells (map fst (fst s))" "\<not> knows A A" "\<forall>x \<in> set (fst s). fst (fst x) \<noteq> op_timestamp A"
  shows "ordered_cells (map fst (fst (abs_op A s)))"
proof (cases A)
  case (EditOp e)
  obtain xs us where s: "s = (xs, us)" by fastforce
  let ?P = "seen_cell (eo_version e)" and ?W = "was_shown us (eo_version e)" and ?ts = "eo_timestamp e"
  define ys where "ys = strike (\<lambda>x. ?P (fst x)) (in_ranges (edits_of e)) (mark_deleted ?W ?ts) 0 xs"
  have ys: "map fst ys = map fst xs" unfolding ys_def by (rule map_fst_strike) simp
  have "\<forall>c \<in> set (map fst ys). fst c \<noteq> ?ts" unfolding ys using assms(4) by (simp add: s EditOp)
  then have new: "\<forall>y \<in> set ys. fst (fst y) \<noteq> ?ts" by simp
  have "ordered_cells (map fst (ins_all ?P ?ts 0 (edits_of e) ys))"
    using assms ys new
    by (intro ins_all_ordered [where l = "[]" and r = ys]) (simp_all add: s EditOp knows_def)
  then show ?thesis by (simp add: EditOp s plain_weave_def ys_def)
next
  case (UndoOp u)
  then show ?thesis using assms(2) by (cases s) simp
qed

lemma run_ordered:
  assumes "causal log" "valid_run log (base_state base)" "\<forall>A \<in> set log. \<not> knows A A \<and> op_timestamp A \<noteq> base_insertion"
  shows "ordered_cells (map fst (fst (run base log)))"
  using assms
proof (induction log rule: rev_induct)
  case Nil
  then show ?case by (simp add: ordered_cells_def base_state_def sorted_wrt_map comp_def sorted_wrt_upt)
next
  case (snoc A log)
  have "op_timestamp A \<notin> insert base_insertion (op_timestamp ` set log)"
    using snoc.prems(1,3) by (auto simp: causal_def)
  then have "\<forall>x \<in> set (fst (run base log)). fst (fst x) \<noteq> op_timestamp A"
    using run_stamps [of log base] by (auto simp: within_stamps_def)
  moreover have "causal log" "valid_run log (base_state base)" "abs_valid A (run base log)"
    using snoc.prems by (simp_all add: causal_def sorted_wrt_append valid_run_append)
  ultimately show ?case using snoc op_ordered [of A "run base log"] by simp
qed

lemma cells_in_order:
  assumes "ordered_cells (cells fs)" "\<forall>f \<in> set fs. 0 < fr_len f"
  shows "insertions_in_order fs"
  using assms
proof (induction fs)
  case (Cons f fs)
  have "fr_insertion_offset f + fr_len f \<le> fr_insertion_offset g" if g: "g \<in> set fs" "fr_timestamp f = fr_timestamp g" for g
  proof -
    let ?c = "(fr_timestamp f, fr_insertion_offset f + fr_len f - 1)"
    have "?c \<in> set (fr_cells f)" using Cons.prems(2) by (auto simp: fr_cells_def)
    moreover have "fr_key g \<in> set (cells fs)" using fr_key_cell Cons.prems(2) g(1) fr_cells_subset by fastforce
    ultimately have "snd ?c < snd (fr_key g)" using Cons.prems(1) g(2) by (fastforce simp: ordered_cells_def sorted_wrt_append)
    then show ?thesis by simp
  qed
  moreover have "ordered_cells (cells fs)" using Cons.prems(1) by (simp add: ordered_cells_def sorted_wrt_append)
  ultimately show ?case using Cons by (simp add: insertions_in_order_def)
qed (simp add: insertions_in_order_def)

section \<open>Which cells a run has\<close>

lemma set_ins_all_eq:
  "fst ` set (ins_all P ts off es xs) = fst ` set xs \<union> Pair ts ` {off ..< off + length (concat (map snd es))}"
proof (induction es arbitrary: off xs)
  case (Cons e es)
  obtain a b t where e: "e = ((a, b), t)" by (cases e) auto
  have "{off ..< off + (length t + k)} = {off ..< off + length t} \<union> {off + length t ..< off + length t + k}" for k by auto
  then show ?case by (simp add: e Cons.IH image_Un image_image Un_ac)
qed simp

lemma op_cells: "fst ` set (fst (abs_op A s)) = fst ` set (fst s) \<union> Pair (op_timestamp A) ` {0 ..< text_len A}"
proof (cases A)
  case (EditOp e)
  obtain xs us where s: "s = (xs, us)" by fastforce
  have "fst ` set (strike P S (mark_deleted W t) i xs) = fst ` set xs" for P S W t i
    using map_fst_strike [of "mark_deleted W t" P S i xs] by (metis list.set_map mark_deleted_def fst_conv)
  then show ?thesis by (simp add: EditOp s plain_weave_def set_ins_all_eq)
next
  case (UndoOp u)
  then show ?thesis by (cases s) simp
qed

lemma run_cell_set:
  "fst ` set (fst (fold abs_op log s)) = fst ` set (fst s) \<union> (\<Union>A \<in> set log. Pair (op_timestamp A) ` {0 ..< text_len A})"
  by (induction log arbitrary: s) (auto simp: op_cells)

section \<open>Runs that share operations\<close>

text \<open>A part of a run that has the causes of its operations can be moved to the front.\<close>

lemma run_prefix:
  assumes L: "causal L" "valid_run L (base_state base)" and K: "causal K" "set K \<subseteq> set L"
    and closed: "\<forall>A \<in> set K. \<forall>B \<in> set L. knows A B \<longrightarrow> B \<in> set K"
  defines "R \<equiv> filter (\<lambda>A. A \<notin> set K) L"
  shows "run base L = run base (K @ R)" "valid_run K (base_state base)"
proof -
  have inj: "inj_on op_timestamp (set L)" using L(1) by (simp add: causal_def distinct_map)
  have "distinct (map op_timestamp R)" using L(1) by (simp add: causal_def R_def distinct_map_filter)
  moreover have "op_timestamp ` set K \<inter> op_timestamp ` set R = {}"
    using inj K(2) by (auto simp: R_def dest: inj_onD)
  moreover have "sorted_wrt (\<lambda>A B. \<not> knows A B) R" using L(1) by (simp add: causal_def R_def sorted_wrt_filter)
  moreover have "\<forall>A \<in> set K. \<forall>B \<in> set R. \<not> knows A B" using closed by (auto simp: R_def)
  ultimately have c: "causal (K @ R)" using K(1) by (simp add: causal_def sorted_wrt_append)
  have "set L = set (K @ R)" using K(2) by (auto simp: R_def)
  from causal_orders_agree [OF L(1) c this L(2)]
  show "run base L = run base (K @ R)" "valid_run K (base_state base)" by (simp_all add: valid_run_append)
qed

definition cells_of_run :: "string \<Rightarrow> operation list \<Rightarrow> cell list" where
  "cells_of_run base log = map fst (fst (run base log))"

lemma cells_run_cells: "map fst (run_cells base log) = cells_of_run base log"
  by (simp add: cells_of_run_def run_cells_def view_def split_beta comp_def)

lemma cells_of_run_stamps: "c \<in> set (cells_of_run base log) \<Longrightarrow> fst c \<in> insert base_insertion (op_timestamp ` set log)"
  using run_stamps [of log base] by (auto simp: cells_of_run_def within_stamps_def)

lemma cells_of_prefix:
  assumes "\<forall>A \<in> set R. op_timestamp A \<notin> insert base_insertion (op_timestamp ` set K)"
  shows "filter (\<lambda>c. fst c \<notin> op_timestamp ` set R) (cells_of_run base (K @ R)) = cells_of_run base K"
proof -
  let ?P = "\<lambda>x :: dcell. fst (fst x) \<notin> op_timestamp ` set R"
  have cells: "map fst (view ?P (\<lambda>_. ()) xs) = filter (\<lambda>c. fst c \<notin> op_timestamp ` set R) (map fst xs)" for xs
    by (induction xs) auto
  have "view ?P (\<lambda>_. ()) (fst (fold abs_op R (run base K))) = view ?P (\<lambda>_. ()) (fst (run base K))"
    by (rule view_run) auto
  then have "filter (\<lambda>c. fst c \<notin> op_timestamp ` set R) (cells_of_run base (K @ R)) =
      filter (\<lambda>c. fst c \<notin> op_timestamp ` set R) (cells_of_run base K)"
    by (simp add: cells_of_run_def flip: cells)
  moreover have "\<forall>c \<in> set (cells_of_run base K). fst c \<notin> op_timestamp ` set R"
    using cells_of_run_stamps [of _ base K] assms by fastforce
  ultimately show ?thesis by (simp add: filter_id_conv)
qed

text \<open>Whether a cell comes before another.\<close>

definition precedes :: "'a list \<Rightarrow> 'a \<Rightarrow> 'a \<Rightarrow> bool" where
  "precedes xs c d \<longleftrightarrow> c \<in> set (takeWhile (\<lambda>x. x \<noteq> d) xs)"

lemma precedes_filter: "P c \<Longrightarrow> P d \<Longrightarrow> precedes (filter P xs) c d = precedes xs c d"
  by (induction xs) (auto simp: precedes_def)

lemma precedes_total: "c \<in> set xs \<Longrightarrow> d \<in> set xs \<Longrightarrow> c \<noteq> d \<Longrightarrow> precedes xs c d \<or> precedes xs d c"
  by (induction xs) (auto simp: precedes_def)

text \<open>What a replica knew: a causal order of the operations that its version observes.\<close>

definition knowledge :: "string \<Rightarrow> operation set \<Rightarrow> vclock \<Rightarrow> operation list \<Rightarrow> bool" where
  "knowledge base S v log \<longleftrightarrow> causal log \<and> valid_run log (base_state base) \<and> set log \<subseteq> S \<and>
     (\<forall>A \<in> set log. \<forall>B \<in> S. knows A B \<longrightarrow> B \<in> set log) \<and>
     (\<forall>B \<in> S. vclock_observed v (op_timestamp B) \<longleftrightarrow> B \<in> set log) \<and> vclock_observed v base_insertion"

lemma knowledge_observes: "knowledge base S v log \<Longrightarrow> observes_log v log"
  by (auto simp: knowledge_def observes_log_def)

lemma replica_knowledge: "replica_ok base S i b log \<Longrightarrow> knowledge base S (bu_version b) log"
  unfolding replica_ok_def knowledge_def by blast

lemma knowledge_part:
  assumes S: "sent_ok base S" and k: "knowledge base S v L" "knowledge base S w M"
  defines "K \<equiv> filter (\<lambda>A. A \<in> set M) L"
  shows "causal K" "set K = set L \<inter> set M" "valid_run K (base_state base)"
    "c \<in> set (cells_of_run base K) \<Longrightarrow> d \<in> set (cells_of_run base K) \<Longrightarrow>
      precedes (cells_of_run base L) c d = precedes (cells_of_run base K) c d"
proof -
  have L: "causal L" "valid_run L (base_state base)" "set L \<subseteq> S" using k(1) by (simp_all add: knowledge_def)
  show K: "causal K" "set K = set L \<inter> set M"
    using L(1) by (auto simp: K_def causal_def distinct_map_filter sorted_wrt_filter)
  have closed: "\<forall>A \<in> set K. \<forall>B \<in> set L. knows A B \<longrightarrow> B \<in> set K"
    using k L(3) unfolding K(2) knowledge_def by blast
  let ?R = "filter (\<lambda>A. A \<notin> set K) L"
  have sub: "set K \<subseteq> set L" using K(2) by blast
  note pre = run_prefix [OF L(1,2) K(1) sub closed]
  show "valid_run K (base_state base)" by (rule pre(2))
  have "op_timestamp A \<notin> insert base_insertion (op_timestamp ` set K)" if "A \<in> set ?R" for A
    using that sent_okD(3,8) [OF S, of A] L(3) sub by fastforce
  then have R: "\<forall>A \<in> set ?R. op_timestamp A \<notin> insert base_insertion (op_timestamp ` set K)" by blast
  have cells: "filter (\<lambda>c. fst c \<notin> op_timestamp ` set ?R) (cells_of_run base L) = cells_of_run base K"
    using cells_of_prefix [OF R] pre(1) by (simp add: cells_of_run_def)
  assume "c \<in> set (cells_of_run base K)" "d \<in> set (cells_of_run base K)"
  then have "fst c \<notin> op_timestamp ` set ?R" "fst d \<notin> op_timestamp ` set ?R" unfolding cells [symmetric] by simp_all
  then show "precedes (cells_of_run base L) c d = precedes (cells_of_run base K) c d"
    using precedes_filter [of "\<lambda>c. fst c \<notin> op_timestamp ` set ?R" c d "cells_of_run base L"] unfolding cells by simp
qed

lemma cells_of_run_mem:
  "c \<in> set (cells_of_run base log) \<longleftrightarrow>
     c \<in> Pair base_insertion ` {0 ..< length base} \<or> (\<exists>A \<in> set log. fst c = op_timestamp A \<and> snd c < text_len A)"
proof -
  have "set (cells_of_run base log) = Pair base_insertion ` {0 ..< length base} \<union> (\<Union>A \<in> set log. Pair (op_timestamp A) ` {0 ..< text_len A})"
    using run_cell_set [of log "base_state base"] by (simp add: cells_of_run_def base_state_def image_image)
  moreover have "c \<in> Pair (op_timestamp A) ` {0 ..< text_len A} \<longleftrightarrow> fst c = op_timestamp A \<and> snd c < text_len A" for A
    by (cases c) (auto simp: image_iff)
  ultimately show ?thesis by simp
qed

text \<open>Replicas agree on the order of the cells that both have.\<close>

lemma common_order:
  assumes S: "sent_ok base S" and k: "knowledge base S v L" "knowledge base S w M"
    and c: "c \<in> set (cells_of_run base L)" "c \<in> set (cells_of_run base M)"
    and d: "d \<in> set (cells_of_run base L)" "d \<in> set (cells_of_run base M)"
  shows "precedes (cells_of_run base L) c d = precedes (cells_of_run base M) c d"
proof -
  let ?K = "filter (\<lambda>A. A \<in> set M) L" and ?K' = "filter (\<lambda>A. A \<in> set L) M"
  note K = knowledge_part [OF S k] and K' = knowledge_part [OF S k(2,1)]
  have sub: "set L \<subseteq> S" "set M \<subseteq> S" using k by (simp_all add: knowledge_def)
  have mem: "e \<in> set (cells_of_run base ?K)" if e: "e \<in> set (cells_of_run base L)" "e \<in> set (cells_of_run base M)" for e
  proof (cases "e \<in> Pair base_insertion ` {0 ..< length base}")
    case False
    then obtain A B where "A \<in> set L" "fst e = op_timestamp A" "snd e < text_len A" "B \<in> set M" "fst e = op_timestamp B"
      using e by (auto simp: cells_of_run_mem)
    moreover from this have "A = B" using sent_okD(8) [OF S, of A B] sub by auto
    ultimately show ?thesis by (auto simp: cells_of_run_mem)
  qed (simp add: cells_of_run_mem)
  have "run base ?K = run base ?K'"
    using causal_orders_agree [OF K(1) K'(1) _ K(3)] K(2) K'(2) by (simp add: Int_commute)
  then have eq: "cells_of_run base ?K = cells_of_run base ?K'" by (simp add: cells_of_run_def)
  show ?thesis
    using K(4) [OF mem [OF c] mem [OF d]] K'(4) [OF mem [OF c, unfolded eq] mem [OF d, unfolded eq]] eq by simp
qed

section \<open>Networks only grow\<close>

definition grows :: "network \<Rightarrow> network \<Rightarrow> bool" where
  "grows n n' \<longleftrightarrow> set (nw_sent n) \<subseteq> set (nw_sent n') \<and>
     (\<forall>r. lam_value (bu_lamport_clock (nw_replicas n r)) \<le> lam_value (bu_lamport_clock (nw_replicas n' r))) \<and>
     (\<forall>A \<in> set (nw_sent n') - set (nw_sent n).
        lam_value (bu_lamport_clock (nw_replicas n (lam_replica (op_timestamp A)))) \<le> lam_value (op_timestamp A))"

lemma grows_trans: "grows n n' \<Longrightarrow> grows n' n'' \<Longrightarrow> grows n n''"
  unfolding grows_def by (meson Diff_iff order_trans subsetD subset_trans)

lemma emits_grows:
  assumes "emits base (set (nw_sent n)) b log A b'" "b = nw_replicas n i" "lam_replica (bu_lamport_clock b) = i"
  shows "grows n (put_replica i b' [A] n)"
proof -
  have "lam_replica (op_timestamp A) = i" "lam_value (bu_lamport_clock b) \<le> lam_value (op_timestamp A)"
      "lam_value (op_timestamp A) < lam_value (bu_lamport_clock b')"
    using assms tick_greater [of "op_timestamp A"] by (auto simp: emits_def)
  then show ?thesis using assms(2) by (auto simp: grows_def)
qed

lemma clock_grows:
  "lam_value (bu_lamport_clock (nw_replicas n i)) \<le> lam_value (bu_lamport_clock b') \<Longrightarrow> grows n (put_replica i b' [] n)"
  by (auto simp: grows_def)

lemma apply_op_clock: "bu_apply_op op b = Some b' \<Longrightarrow>
    bu_lamport_clock b' \<in> {bu_lamport_clock b, lamport_observe (bu_lamport_clock b) (op_timestamp op)}"
  by (auto simp: bu_apply_op_def bu_apply_remote_edit_def bu_apply_undo_def bu_publish_def bu_observe_op_def bu_observe_version_def
      bu_resolve_edit_def bu_wake_def split: operation.splits if_splits option.splits prod.splits)

lemma step_grows:
  assumes "net_step n n'" "network_ok base n"
  shows "grows n n'"
  using assms(1)
proof cases
  case (edit b i edits now now' b' op)
  obtain log where log: "replica_ok base (set (nw_sent n)) i b log" using assms(2) edit(2) unfolding network_ok_def by blast
  obtain e where "op = EditOp e" "emitted_edit edits b e b'" using bu_edit_emits [OF edit(6)] by blast
  then have "emits base (set (nw_sent n)) b log op b'" using edit_emits [OF assms(2) edit(2) log edit(3-5)] by simp
  from emits_grows [OF this edit(2)] show ?thesis using log by (simp add: edit(1) replica_ok_def)
next
  case (undo b i b' t op)
  obtain log where log: "replica_ok base (set (nw_sent n)) i b log" using assms(2) undo(2) unfolding network_ok_def by blast
  obtain u where "op = UndoOp u" "emitted_undo b u b'" using bu_undo_emits [OF undo(4)] by auto
  then have "emits base (set (nw_sent n)) b log op b'" using undo_emits [OF assms(2) undo(2) log undo(3) _ undo(5)] by simp
  from emits_grows [OF this undo(2)] show ?thesis using log by (simp add: undo(1) replica_ok_def)
next
  case (redo b i b' t op)
  obtain log where log: "replica_ok base (set (nw_sent n)) i b log" using assms(2) redo(2) unfolding network_ok_def by blast
  obtain u where "op = UndoOp u" "emitted_undo b u b'" using bu_redo_emits [OF redo(4)] by auto
  then have "emits base (set (nw_sent n)) b log op b'" using undo_emits [OF assms(2) redo(2) log redo(3) _ redo(5)] by simp
  from emits_grows [OF this redo(2)] show ?thesis using log by (simp add: redo(1) replica_ok_def)
next
  case (deliver b i op b')
  have "lam_value (bu_lamport_clock b) < - 1" "lam_value (op_timestamp op) < - 1"
    using deliver(4,5) ticks_bounds(3) by auto
  then have "lam_value (bu_lamport_clock b) \<le> lam_value (bu_lamport_clock b')"
    using apply_op_clock [OF deliver(7)] observe_greater(1) by (auto intro: less_imp_le)
  then show ?thesis unfolding deliver(1,2) by (rule clock_grows)
next
  case (start_transaction b i now b' r)
  show ?thesis unfolding start_transaction(1) by (rule clock_grows) (use start_transaction_fields(5) [OF start_transaction(4,3)] start_transaction(2) in simp)
next
  case (end_transaction b i now b' r)
  show ?thesis unfolding end_transaction(1) by (rule clock_grows) (use bu_end_transaction_fields [OF end_transaction(3)] end_transaction(2) in simp)
next
  case (books i operations deferred replicas)
  show ?thesis unfolding books(1) by (rule clock_grows) simp
qed

lemma steps_grow: "net_step\<^sup>*\<^sup>* n n' \<Longrightarrow> network_ok base n \<Longrightarrow> grows n n' \<and> network_ok base n'"
proof (induction rule: rtranclp.induct)
  case (rtrancl_refl n)
  then show ?case by (simp add: grows_def)
next
  case (rtrancl_into_rtrancl a b c)
  then show ?case using step_grows [of b c base] step_ok [of b c base] grows_trans by blast
qed

text \<open>What a replica knew it still knew later: no operation sent since is among what its version observed.\<close>

lemma knowledge_grows:
  assumes ok: "network_ok base n" and g: "grows n n'" and k: "knowledge base (set (nw_sent n)) v log"
    and v: "\<forall>r. vclock_get v r < lam_value (bu_lamport_clock (nw_replicas n r))"
  shows "knowledge base (set (nw_sent n')) v log"
proof -
  have new: "\<not> vclock_observed v (op_timestamp B)" "\<And>A. A \<in> set (nw_sent n) \<Longrightarrow> \<not> knows A B"
    if B: "B \<in> set (nw_sent n') - set (nw_sent n)" for B
  proof -
    let ?t = "op_timestamp B"
    have t: "lam_value (bu_lamport_clock (nw_replicas n (lam_replica ?t))) \<le> lam_value ?t" using g B unfolding grows_def by blast
    then have "\<not> lam_value ?t \<le> vclock_get v (lam_replica ?t)" using v by (meson leD le_less_trans order_trans)
    then show "\<not> vclock_observed v ?t" by (simp add: vclock_observed_def)
    fix A assume "A \<in> set (nw_sent n)"
    then have "vclock_get (op_version A) (lam_replica ?t) < lam_value (bu_lamport_clock (nw_replicas n (lam_replica ?t)))"
      using ok by (simp add: network_ok_def)
    then have "vclock_get (op_version A) (lam_replica ?t) < lam_value ?t" using t by (rule less_le_trans)
    then show "\<not> knows A B" by (auto simp: knows_def vclock_observed_def)
  qed
  have "set (nw_sent n) \<subseteq> set (nw_sent n')" using g by (simp add: grows_def)
  then show ?thesis using k new unfolding knowledge_def by (blast dest: subsetD)
qed

lemma earlier_knowledge:
  assumes "reachable base n" "net_step\<^sup>*\<^sup>* n n'"
  obtains log where "tracks base log (bu_snapshot (nw_replicas n i))" "knowledge base (set (nw_sent n')) (bu_version (nw_replicas n i)) log"
    "sent_ok base (set (nw_sent n'))"
proof -
  have ok: "network_ok base n" by (rule reachable_ok [OF assms(1)])
  note g = steps_grow [OF assms(2) ok]
  obtain log where r: "replica_ok base (set (nw_sent n)) i (nw_replicas n i) log" using ok unfolding network_ok_def by blast
  have "knowledge base (set (nw_sent n')) (bu_version (nw_replicas n i)) log"
    by (rule knowledge_grows [OF ok conjunct1 [OF g] replica_knowledge [OF r]]) (use ok in \<open>simp add: network_ok_def\<close>)
  moreover have "tracks base log (bu_snapshot (nw_replicas n i))" using r by (simp add: replica_ok_def)
  moreover have "sent_ok base (set (nw_sent n'))" using g by (simp add: network_ok_def)
  ultimately show thesis using that by blast
qed

end
