(* ===== verification/Zed_Anchor_Network.thy ===== *)
theory Zed_Anchor_Network
  imports Zed_Run_Order
begin

text \<open>
  Anchors in a network.  An anchor that a replica creates can be resolved wherever the insertion has
  arrived; replicas with the same version resolve it alike, anchors keep their order, and an anchor
  stays at its byte as long as that is visible.
\<close>

section \<open>Anchors and the order of cells\<close>

text \<open>The order of anchors by the order of their cells alone.\<close>

definition anchor_le :: "cell list \<Rightarrow> anchor \<Rightarrow> anchor \<Rightarrow> bool" where
  "anchor_le cs a b \<longleftrightarrow> anchor_is_min a \<or> anchor_is_max b \<or>
     \<not> anchor_is_max a \<and> \<not> anchor_is_min b \<and>
     (precedes cs (anchor_cell a) (anchor_cell b) \<or> anchor_cell a = anchor_cell b \<and> (behind_cell a \<longrightarrow> behind_cell b))"

lemma takeWhile_step:
  assumes "precedes (map fst xs) c d" "(c, v) \<in> set xs" "distinct (map fst xs)"
  shows "\<exists>m. takeWhile (\<lambda>x. fst x \<noteq> d) xs = takeWhile (\<lambda>x. fst x \<noteq> c) xs @ (c, v) # m"
  using assms
proof (induction xs)
  case (Cons x xs)
  show ?case
  proof (cases "fst x = c")
    case True
    then have "x = (c, v)" using Cons.prems(2,3) by (force simp: image_iff)
    then show ?thesis using Cons.prems(1) by (auto simp: precedes_def split: if_splits)
  next
    case False
    then have "fst x \<noteq> d" using Cons.prems(1) by (auto simp: precedes_def split: if_splits)
    moreover have "precedes (map fst xs) c d" using Cons.prems(1) False by (auto simp: precedes_def split: if_splits)
    ultimately show ?thesis using Cons False by auto
  qed
qed simp

lemma count_precedes:
  assumes "precedes (map fst xs) c d" "c \<in> fst ` set xs" "distinct (map fst xs)"
  shows "count_before c xs + (if (c, True) \<in> set xs then 1 else 0) \<le> count_before d xs"
proof -
  obtain v where v: "(c, v) \<in> set xs" using assms(2) by auto
  have "v = True" if "(c, True) \<in> set xs" by (rule eq_key_imp_eq_value [OF assms(3) v that])
  moreover have "(c, True) \<in> set xs" if v using v that by simp
  ultimately have "(c, True) \<in> set xs \<longleftrightarrow> v" by blast
  then show ?thesis using takeWhile_step [OF assms(1) v assms(3)] by (auto simp: count_before_def)
qed

lemma count_before_le: "count_before c xs + (if (c, True) \<in> set xs then 1 else 0) \<le> length (filter snd xs)"
proof (induction xs)
  case (Cons x xs)
  then show ?case by (cases "fst x = c"; cases x) (auto simp: count_before_def split: if_splits)
qed (simp add: count_before_def)

lemma anchor_offset_le: "anchor_offset xs a \<le> length (filter snd xs)"
  using count_before_le [of "anchor_cell a" xs] by (auto simp: anchor_offset_def)

lemma anchor_offset_mono:
  assumes le: "anchor_le (map fst xs) a b" and d: "distinct (map fst xs)" and a: "anchored xs a"
  shows "anchor_offset xs a \<le> anchor_offset xs b"
proof (cases "anchor_is_min a \<or> anchor_is_max b")
  case True
  have "\<not> anchor_is_min b" if "anchor_is_max b" using that by (auto simp: anchor_is_min_def anchor_is_max_def)
  then show ?thesis using True anchor_offset_le [of xs a] by (auto simp: anchor_offset_def)
next
  case False
  then have ends: "\<not> anchor_is_min a" "\<not> anchor_is_max a" "\<not> anchor_is_min b" "\<not> anchor_is_max b"
    and "precedes (map fst xs) (anchor_cell a) (anchor_cell b) \<or> anchor_cell a = anchor_cell b \<and> (behind_cell a \<longrightarrow> behind_cell b)"
    using le by (auto simp: anchor_le_def)
  moreover have "anchor_cell a \<in> fst ` set xs" using a ends by (simp add: anchored_def)
  ultimately show ?thesis using count_precedes [OF _ _ d] by (fastforce simp: anchor_offset_def)
qed

text \<open>Anchors at two offsets of a snapshot.\<close>

lemma visible_order:
  assumes d: "distinct (map fst xs)" and c: "(c, True) \<in> set xs" "(e, True) \<in> set xs" and le: "count_before c xs \<le> count_before e xs"
  shows "c = e \<or> precedes (map fst xs) c e"
proof (rule ccontr)
  assume n: "\<not> (c = e \<or> precedes (map fst xs) c e)"
  then have "precedes (map fst xs) e c" using precedes_total [of c "map fst xs" e] c by force
  then have "count_before e xs + 1 \<le> count_before c xs" using count_precedes [of xs e c] c(2) d by force
  then show False using le by simp
qed

lemma within_fragment_visible:
  assumes ok: "snapshot_ok ins s" "clocks_ok s" and f: "sn_fragments s = B @ f # R" "within_fragment rid B f p b a"
  shows "(anchor_cell a, True) \<in> set (cell_flags (sn_fragments s))" "behind_cell a \<longleftrightarrow> b = BLeft"
    "count_before (anchor_cell a) (cell_flags (sn_fragments s)) = (if b = BLeft then p - 1 else p)" "b = BLeft \<Longrightarrow> 0 < p"
    "\<not> anchor_is_min a" "\<not> anchor_is_max a"
proof -
  have min: "LAMPORT_MIN < fr_timestamp f" using ok(2) f(1) by (simp add: clocks_ok_def)
  note c = within_fragment_cell [OF ok(1) f min]
  have dist: "distinct (cells (B @ f # R))" using ok(1) f(1) by (simp add: snapshot_ok_def)
  note cell = anchor_cell_fragment(5-7) [OF c(1)]
  show vis: "(anchor_cell a, True) \<in> set (cell_flags (sn_fragments s))"
    using count_before_fragment(2) [OF dist cell(1,2)] cell(3) f by (simp add: within_fragment_def)
  show behind: "behind_cell a \<longleftrightarrow> b = BLeft" and pos: "b = BLeft \<Longrightarrow> 0 < p"
    using f(2) by (auto simp: within_fragment_def behind_cell_def)
  show "\<not> anchor_is_min a" "\<not> anchor_is_max a" by (rule c(2), rule c(3))
  show "count_before (anchor_cell a) (cell_flags (sn_fragments s)) = (if b = BLeft then p - 1 else p)"
    using c(2,3,4) vis behind pos by (auto simp: anchor_offset_def)
qed

lemma anchor_of_le:
  assumes ok: "snapshot_ok ins s" "clocks_ok s"
    and a: "anchor_of rid (sn_fragments s) p b x" "anchor_of rid (sn_fragments s) q c y"
    and le: "p < q \<or> p = q \<and> (b = BLeft \<or> c = BRight)"
  shows "anchor_le (cells (sn_fragments s)) x y"
proof -
  let ?xs = "cell_flags (sn_fragments s)"
  have d: "distinct (map fst ?xs)" using ok(1) by (simp add: snapshot_ok_def)
  show ?thesis
  proof (cases "anchor_is_min x \<or> anchor_is_max y")
    case False
    have x: "b = BRight \<and> p = visible_len (sn_fragments s) \<or> (\<exists>B f R. sn_fragments s = B @ f # R \<and> within_fragment rid B f p b x)"
      using a(1) False unfolding anchor_of_def by auto
    have y: "c = BLeft \<and> q = 0 \<or> (\<exists>B f R. sn_fragments s = B @ f # R \<and> within_fragment rid B f q c y)"
      using a(2) False unfolding anchor_of_def by auto
    have "\<not> (b = BRight \<and> p = visible_len (sn_fragments s))"
    proof
      assume "b = BRight \<and> p = visible_len (sn_fragments s)"
      then have "visible_len (sn_fragments s) < q \<or> c = BRight \<and> q = visible_len (sn_fragments s)" using le by auto
      then show False using y by (auto simp: within_fragment_def)
    qed
    then obtain B f R where f: "sn_fragments s = B @ f # R" "within_fragment rid B f p b x" using x by blast
    have "\<not> (c = BLeft \<and> q = 0)" using le f(2) by (auto simp: within_fragment_def)
    then obtain B' g R' where g: "sn_fragments s = B' @ g # R'" "within_fragment rid B' g q c y" using y by blast
    note x = within_fragment_visible [OF ok f] and y = within_fragment_visible [OF ok g]
    have "count_before (anchor_cell x) ?xs \<le> count_before (anchor_cell y) ?xs"
      using x(3,4) y(3,4) le by (cases b; cases c) auto
    then have order: "anchor_cell x = anchor_cell y \<or> precedes (cells (sn_fragments s)) (anchor_cell x) (anchor_cell y)"
      using visible_order [OF d x(1) y(1)] by simp
    moreover have "anchor_cell x \<noteq> anchor_cell y" if "b = BLeft" "c = BRight"
    proof
      assume "anchor_cell x = anchor_cell y"
      then have "p - 1 = q" using x(3) y(3) that by simp
      then show False using le x(4) that by auto
    qed
    ultimately show ?thesis using x(2,5,6) y(2,5,6) unfolding anchor_le_def by (cases b; cases c) auto
  qed (auto simp: anchor_le_def)
qed

text \<open>The byte at a cell.\<close>

lemma nth_count_before:
  assumes "(c, True) \<in> set xs" "distinct (map fst xs)"
  shows "count_before c xs < length (filter snd xs)" "map fst (filter snd xs) ! count_before c xs = c"
proof -
  have "count_before c xs < length (filter snd xs) \<and> map fst (filter snd xs) ! count_before c xs = c"
    using assms
  proof (induction xs)
    case (Cons x xs)
    show ?case
    proof (cases "fst x = c")
      case True
      then have "x = (c, True)" using Cons.prems by (force simp: image_iff)
      then show ?thesis by (simp add: count_before_def)
    next
      case False
      then have "count_before c xs < length (filter snd xs) \<and> map fst (filter snd xs) ! count_before c xs = c"
        using Cons by auto
      then show ?thesis using False by (auto simp: count_before_def)
    qed
  qed simp
  then show "count_before c xs < length (filter snd xs)" "map fst (filter snd xs) ! count_before c xs = c" by simp_all
qed

section \<open>Resolving in a network\<close>

lemma tracks_snapshot:
  assumes "tracks base log s"
  shows "snapshot_ok (texts_of base log) s" "clocks_ok s"
  using assms by (simp_all add: tracks_def buffer_ok_def)

lemma knowledge_ordered:
  assumes S: "sent_ok base S" and k: "knowledge base S v log" and t: "tracks base log s"
  shows "insertions_in_order (sn_fragments s)"
proof (rule cells_in_order)
  have "\<forall>A \<in> set log. \<not> knows A A \<and> op_timestamp A \<noteq> base_insertion"
    using sent_okD(3,6) [OF S] k by (force simp: knowledge_def)
  then have "ordered_cells (cells_of_run base log)"
    using run_ordered [of log base] k by (simp add: knowledge_def cells_of_run_def)
  moreover have "cells (sn_fragments s) = cells_of_run base log"
    using tracks_cells [OF t] cells_run_cells [of base log] by (metis fst_cell_flags)
  ultimately show "ordered_cells (cells (sn_fragments s))" by simp
  show "\<forall>f \<in> set (sn_fragments s). 0 < fr_len f"
    using tracks_snapshot(1) [OF t] by (auto simp: snapshot_ok_def fr_fits_def)
qed

text \<open>An anchor of one replica is an anchor of any replica that has its insertion.\<close>

lemma anchored_elsewhere:
  assumes S: "sent_ok base S" and k: "knowledge base S v log" "knowledge base S w log'"
    and x: "anchored (run_cells base log) x" "anchor_is_min x \<or> anchor_is_max x \<or> vclock_observed w (an_timestamp x)"
  shows "anchored (run_cells base log') x"
proof (cases "anchor_is_min x \<or> anchor_is_max x")
  case False
  then have c: "anchor_cell x \<in> set (cells_of_run base log)"
    using x(1) by (simp add: anchored_def flip: cells_run_cells)
  have t: "fst (anchor_cell x) = an_timestamp x" by (simp add: anchor_cell_def)
  have "anchor_cell x \<in> set (cells_of_run base log')"
  proof (cases "anchor_cell x \<in> Pair base_insertion ` {0 ..< length base}")
    case False
    then obtain A where A: "A \<in> set log" "fst (anchor_cell x) = op_timestamp A" "snd (anchor_cell x) < text_len A"
      using c unfolding cells_of_run_mem by blast
    moreover have "A \<in> S" using A(1) k(1) by (auto simp: knowledge_def)
    moreover have "vclock_observed w (op_timestamp A)" using x(2) \<open>\<not> (anchor_is_min x \<or> anchor_is_max x)\<close> A(2) t by simp
    ultimately have "A \<in> set log'" using k(2) by (simp add: knowledge_def)
    then show ?thesis using A unfolding cells_of_run_mem by blast
  qed (simp add: cells_of_run_mem)
  then show ?thesis by (simp add: anchored_def flip: cells_run_cells)
qed (auto simp: anchored_def)

lemma anchor_le_elsewhere:
  assumes S: "sent_ok base S" and k: "knowledge base S v log" "knowledge base S w log'"
    and x: "anchored (run_cells base log) x" "anchored (run_cells base log') x"
    and y: "anchored (run_cells base log) y" "anchored (run_cells base log') y"
    and le: "anchor_le (cells_of_run base log) x y"
  shows "anchor_le (cells_of_run base log') x y"
proof (cases "anchor_is_min x \<or> anchor_is_max x \<or> anchor_is_min y \<or> anchor_is_max y")
  case False
  then have "anchor_cell x \<in> set (cells_of_run base log)" "anchor_cell x \<in> set (cells_of_run base log')"
      "anchor_cell y \<in> set (cells_of_run base log)" "anchor_cell y \<in> set (cells_of_run base log')"
    using x y by (simp_all add: anchored_def flip: cells_run_cells)
  from common_order [OF S k this] show ?thesis using le by (simp add: anchor_le_def)
qed (use le in \<open>auto simp: anchor_le_def\<close>)

text \<open>What anchors a snapshot gives for an offset, once more.\<close>

lemma anchor_at_of:
  assumes t: "tracks base log s" and p: "is_char_boundary (sn_visible_text s) p"
  shows "\<exists>x. anchor_at debug rid s (At p) b = Some x \<and> anchor_of rid (sn_fragments s) p b x"
proof -
  have "p \<le> length (sn_visible_text s)" using p by (auto simp: is_char_boundary_def)
  from anchor_at_offset_of [OF tracks_snapshot(1) [OF t] this p] show ?thesis
    using p by (simp add: anchor_at_def position_offset_def to_offset_def assert_char_boundary_def)
qed

lemma resolve_tracked:
  assumes t: "tracks base log s" and x: "anchored (run_cells base log) x" and c: "can_resolve rid s x"
  shows "offset_for_anchor debug rid s x = Some (anchor_offset (run_cells base log) x)"
  using offset_for_anchor_cells [OF tracks_snapshot(1) [OF t], of x debug rid] x c tracks_cells [OF t]
  by (auto simp: can_resolve_def)

lemma flags_distinct:
  assumes "tracks base log s"
  shows "distinct (map fst (run_cells base log))"
proof -
  have "distinct (map fst (cell_flags (sn_fragments s)))" using tracks_snapshot(1) [OF assms] by (simp add: snapshot_ok_def)
  then show ?thesis by (simp add: tracks_cells [OF assms])
qed

section \<open>Properties\<close>

text \<open>C12: Creating an anchor and resolving it.  At every character boundary of a replica of a network, and with either
  bias, \<open>anchor_at\<close> returns an anchor that the replica can resolve, and \<open>offset_for_anchor\<close> gives the offset
  back, in debug and in release builds; so does a pass over many such anchors, in any order.\<close>

theorem anchor_roundtrip:
  assumes "reachable base n" "\<forall>p \<in> set ps. is_char_boundary (sn_visible_text (bu_snapshot (nw_replicas n i))) p"
  shows "\<exists>xs. map (\<lambda>p. anchor_at debug rid (bu_snapshot (nw_replicas n i)) (At p) b) ps = map Some xs \<and>
    map (offset_for_anchor debug rid (bu_snapshot (nw_replicas n i))) xs = map Some ps \<and>
    (\<forall>x \<in> set xs. can_resolve rid (bu_snapshot (nw_replicas n i)) x \<and> an_bias x = b) \<and>
    summaries_for_anchors_unordered (bu_snapshot (nw_replicas n i)) xs = Some ps"
proof -
  let ?s = "bu_snapshot (nw_replicas n i)"
  obtain log where t: "tracks base log ?s" and k: "knowledge base (set (nw_sent n)) (sn_version ?s) log"
    using earlier_knowledge [OF assms(1) rtranclp.rtrancl_refl, of i] by blast
  have one: "\<exists>x. anchor_at debug rid ?s (At p) b = Some x \<and> offset_for_anchor debug rid ?s x = Some p \<and> can_resolve rid ?s x \<and>
      an_bias x = b \<and> anchored (cell_flags (sn_fragments ?s)) x \<and> anchor_offset (cell_flags (sn_fragments ?s)) x = p" if p: "p \<in> set ps" for p
  proof -
    obtain x where x: "anchor_at debug rid ?s (At p) b = Some x" "anchor_of rid (sn_fragments ?s) p b x"
      using anchor_at_of [OF t] assms(2) p by blast
    note of = anchor_of_offset [OF tracks_snapshot(1) [OF t] x(2) tracks_snapshot(2) [OF t]]
    have "vclock_observed (sn_version ?s) (fr_timestamp f)" if "f \<in> set (sn_fragments ?s)" for f
      using tracks_stamps [OF t that] knowledge_observes [OF k] by (auto simp: touching_def observes_log_def)
    then have c: "can_resolve rid ?s x" using of(3,5) by (auto simp: can_resolve_def)
    have "offset_for_anchor debug rid ?s x = Some p" using resolve_tracked [OF t _ c] of(1,2) tracks_cells [OF t] by simp
    then show ?thesis using x(1) c of by blast
  qed
  then obtain g where g: "\<forall>p \<in> set ps. anchor_at debug rid ?s (At p) b = Some (g p) \<and> offset_for_anchor debug rid ?s (g p) = Some p \<and>
      can_resolve rid ?s (g p) \<and> an_bias (g p) = b \<and> anchored (cell_flags (sn_fragments ?s)) (g p) \<and>
      anchor_offset (cell_flags (sn_fragments ?s)) (g p) = p" by metis
  then have "summaries_for_anchors_unordered ?s (map g ps) = Some (map (\<lambda>p. anchor_offset (cell_flags (sn_fragments ?s)) (g p)) ps)"
    using summaries_for_anchors_cells(1) [OF tracks_snapshot(1) [OF t], of "map g ps"] by (simp add: comp_def)
  also have "map (\<lambda>p. anchor_offset (cell_flags (sn_fragments ?s)) (g p)) ps = ps" using g by (intro map_idI) simp
  finally show ?thesis using g by (intro exI [of _ "map g ps"]) simp
qed

text \<open>C10: Anchors in a network.  Two anchors that a replica creates, in the order of their offsets (at the same offset the
  left one first), are resolved by every replica that has their insertions, then or at any later time, without a panic,
  to offsets of its text in the same order; and replicas with the same version resolve them alike.\<close>

theorem anchors_keep_order:
  assumes "reachable base n" "net_step\<^sup>*\<^sup>* n n'"
    and "is_char_boundary (sn_visible_text (bu_snapshot (nw_replicas n i))) p" "anchor_at debug rid (bu_snapshot (nw_replicas n i)) (At p) b = Some x"
    and "is_char_boundary (sn_visible_text (bu_snapshot (nw_replicas n i))) q" "anchor_at debug rid (bu_snapshot (nw_replicas n i)) (At q) c = Some y"
    and "p < q \<or> p = q \<and> (b = BLeft \<or> c = BRight)"
    and "can_resolve rid (bu_snapshot (nw_replicas n' j)) x" "can_resolve rid (bu_snapshot (nw_replicas n' j)) y"
  shows "\<exists>p' q'. offset_for_anchor debug rid (bu_snapshot (nw_replicas n' j)) x = Some p' \<and>
    offset_for_anchor debug rid (bu_snapshot (nw_replicas n' j)) y = Some q' \<and>
    p' \<le> q' \<and> q' \<le> length (sn_visible_text (bu_snapshot (nw_replicas n' j))) \<and>
    (\<forall>k. bu_version (nw_replicas n' k) = bu_version (nw_replicas n' j) \<longrightarrow>
      offset_for_anchor debug rid (bu_snapshot (nw_replicas n' k)) x = Some p' \<and>
      offset_for_anchor debug rid (bu_snapshot (nw_replicas n' k)) y = Some q')"
proof -
  let ?s = "bu_snapshot (nw_replicas n i)" and ?s' = "bu_snapshot (nw_replicas n' j)" and ?S = "set (nw_sent n')"
  obtain log where t: "tracks base log ?s" and k: "knowledge base ?S (sn_version ?s) log" and S: "sent_ok base ?S"
    by (rule earlier_knowledge [OF assms(1,2)])
  have r': "reachable base n'" using assms(2,1) by (induction rule: rtranclp_induct) (auto intro: reachable.step)
  obtain log' where t': "tracks base log' ?s'" and k': "knowledge base ?S (sn_version ?s') log'"
    using earlier_knowledge [OF r' rtranclp.rtrancl_refl, of j] by blast
  have x: "anchor_of rid (sn_fragments ?s) p b x" and y: "anchor_of rid (sn_fragments ?s) q c y"
    using anchor_at_of [OF t, of p debug rid b] anchor_at_of [OF t, of q debug rid c] assms(3-6) by auto
  note of = anchor_of_offset [OF tracks_snapshot(1) [OF t] _ tracks_snapshot(2) [OF t]]
  have here: "anchored (run_cells base log) x" "anchored (run_cells base log) y" using of(1) [OF x] of(1) [OF y] tracks_cells [OF t] by simp_all
  have there: "anchored (run_cells base log') x" "anchored (run_cells base log') y"
    using anchored_elsewhere [OF S k k' here(1)] anchored_elsewhere [OF S k k' here(2)] assms(8,9) by (auto simp: can_resolve_def)
  have "anchor_le (cells_of_run base log) x y"
    using anchor_of_le [OF tracks_snapshot [OF t] x y assms(7)] tracks_cells [OF t] cells_run_cells [of base log] by (metis fst_cell_flags)
  then have "anchor_le (cells_of_run base log') x y" by (rule anchor_le_elsewhere [OF S k k' here(1) there(1) here(2) there(2)])
  then have le: "anchor_offset (run_cells base log') x \<le> anchor_offset (run_cells base log') y"
    using anchor_offset_mono [OF _ flags_distinct [OF t'] there(1)] by (simp add: cells_run_cells)
  have "length (sn_visible_text ?s') = length (filter snd (run_cells base log'))"
    using tracks_snapshot(1) [OF t'] by (simp add: snapshot_ok_def flip: tracks_cells [OF t'])
  then have len: "anchor_offset (run_cells base log') y \<le> length (sn_visible_text ?s')" using anchor_offset_le by simp
  have same: "offset_for_anchor debug rid (bu_snapshot (nw_replicas n' l)) z = Some (anchor_offset (run_cells base log') z)"
    if l: "bu_version (nw_replicas n' l) = bu_version (nw_replicas n' j)" and z: "can_resolve rid ?s' z" "anchored (run_cells base log') z" for l z
  proof -
    obtain log'' where t'': "tracks base log'' (bu_snapshot (nw_replicas n' l))" and k'': "knowledge base ?S (sn_version ?s') log''"
      using earlier_knowledge [OF r' rtranclp.rtrancl_refl, of l] l by metis
    have "set log'' = set log'" using k' k'' by (auto simp: knowledge_def)
    then have "run base log'' = run base log'" using causal_orders_agree [of log' log''] k' k'' by (simp add: knowledge_def)
    then have "run_cells base log'' = run_cells base log'" by (simp add: run_cells_def)
    moreover have "can_resolve rid (bu_snapshot (nw_replicas n' l)) z" using z(1) l by (simp add: can_resolve_def)
    ultimately show ?thesis using resolve_tracked [OF t''] z(2) by simp
  qed
  show ?thesis using le len same [OF _ assms(8) there(1)] same [OF _ assms(9) there(2)] by blast
qed


lemma anchor_valid_shown:
  assumes ok: "snapshot_ok ins s" and x: "anchored (cell_flags (sn_fragments s)) x" "\<not> anchor_is_min x" "\<not> anchor_is_max x"
    and v: "anchor_is_valid debug rid s x"
  shows "(anchor_cell x, True) \<in> set (cell_flags (sn_fragments s))"
proof -
  obtain B f R where "in_fragment (sn_fragments s) x B f R" by (rule anchored_fragment [OF x])
  then have f: "sn_fragments s = B @ f # R" "anchor_cell x \<in> set (fr_cells f)" by (simp_all add: in_fragment_def)
  then have mem: "f \<in> set (sn_fragments s)" and ids: "sorted_wrt (<) (map fr_id (B @ f # R))" and d: "distinct (cells (B @ f # R))"
    using ok by (simp_all add: snapshot_ok_def)
  have "try_fragment_id_for_anchor debug s x = Some (fr_id f)"
    using x try_find [OF ok mem f(2)] anchor_cell_fragment(1) [OF f(2)]
    by (simp add: try_fragment_id_for_anchor_def) (simp add: insertion_fragment_new_def)
  then have "fr_visible f" using v x find_fragment_id_eq [OF ids, of 0 0] f(1) by (simp add: anchor_is_valid_def split: if_splits)
  then show ?thesis
    using count_before_fragment(2) [OF d anchor_cell_fragment(5,6) [OF f(2)]] anchor_cell_fragment(7) [OF f(2)] f(1) by simp
qed

lemma texts_agree:
  assumes S: "sent_ok base S" and k: "knowledge base S v log" "knowledge base S w log'"
    and c: "c \<in> set (cells_of_run base log)" "c \<in> set (cells_of_run base log')"
  shows "texts_of base log (fst c) = texts_of base log' (fst c)"
proof -
  have bytes: "texts_of base l (fst c) = (if fst c = base_insertion then base else concat (eo_new_text e))"
    if l: "knowledge base S u l" and e: "fst c \<noteq> base_insertion \<Longrightarrow> EditOp e \<in> set l \<and> fst c = eo_timestamp e" for u l e
  proof (cases "fst c = base_insertion")
    case True
    have "eo_timestamp e' \<noteq> base_insertion" if "EditOp e' \<in> set l" for e'
      using sent_okD(3) [OF S, of "EditOp e'"] l that by (auto simp: knowledge_def)
    then show ?thesis using texts_of_old [of l base_insertion] True by simp
  next
    case False
    have "distinct (map op_timestamp l)" using l by (simp add: knowledge_def causal_def)
    then show ?thesis using texts_of_edit [of l e] e False by simp
  qed
  have op: "\<exists>e. EditOp e \<in> set l \<and> fst c = eo_timestamp e" if ne: "fst c \<noteq> base_insertion" "c \<in> set (cells_of_run base l)" for l
  proof -
    obtain A where A: "A \<in> set l" "fst c = op_timestamp A" "snd c < text_len A"
      using ne by (cases c) (auto simp: cells_of_run_mem)
    show ?thesis
    proof (cases A)
      case (EditOp e)
      then show ?thesis using A by auto
    next
      case (UndoOp u)
      then show ?thesis using A(3) by simp
    qed
  qed
  show ?thesis
  proof (cases "fst c = base_insertion")
    case False
    obtain e e' where e: "EditOp e \<in> set log" "fst c = eo_timestamp e" "EditOp e' \<in> set log'" "fst c = eo_timestamp e'"
      using op [OF False] c by metis
    moreover have "EditOp e \<in> S" "EditOp e' \<in> S" using e k by (auto simp: knowledge_def)
    ultimately have "EditOp e = EditOp e'" using sent_okD(8) [OF S, of "EditOp e" "EditOp e'"] by simp
    then show ?thesis using bytes [OF k(1), of e] bytes [OF k(2), of e] e by simp
  qed (use bytes [OF k(1)] bytes [OF k(2)] in simp)
qed

lemma tracked_byte:
  assumes t: "tracks base log s" and c: "(c, True) \<in> set (run_cells base log)"
  shows "count_before c (run_cells base log) < length (sn_visible_text s)"
    "sn_visible_text s ! count_before c (run_cells base log) = texts_of base log (fst c) ! snd c"
proof -
  let ?xs = "run_cells base log"
  have "sn_visible_text s = cell_text (texts_of base log) (map fst (filter snd ?xs))"
    using tracks_snapshot(1) [OF t] by (simp add: snapshot_ok_def comp_def flip: tracks_cells [OF t])
  moreover note nth_count_before [OF c flags_distinct [OF t]]
  ultimately show "count_before c ?xs < length (sn_visible_text s)"
    "sn_visible_text s ! count_before c ?xs = texts_of base log (fst c) ! snd c"
    by (simp_all add: cell_text_def split_beta)
qed

text \<open>C11: An anchor stays at its byte.  Where an anchor with bias right was created before a byte (with bias left: behind a
  byte), every replica that has the insertion resolves it, then or later, to the place before (behind) the same byte,
  as long as the byte is visible there (\<open>is_valid\<close>), whatever was inserted, deleted, undone or split since.\<close>

theorem anchor_keeps_byte:
  assumes "reachable base n" "net_step\<^sup>*\<^sup>* n n'"
    and "is_char_boundary (sn_visible_text (bu_snapshot (nw_replicas n i))) p" "anchor_at debug rid (bu_snapshot (nw_replicas n i)) (At p) b = Some x"
    and "b = BLeft \<Longrightarrow> 0 < p" "b = BRight \<Longrightarrow> p < length (sn_visible_text (bu_snapshot (nw_replicas n i)))"
    and "can_resolve rid (bu_snapshot (nw_replicas n' j)) x" "anchor_is_valid debug rid (bu_snapshot (nw_replicas n' j)) x"
  shows "\<exists>p'. offset_for_anchor debug rid (bu_snapshot (nw_replicas n' j)) x = Some p' \<and>
    (let d = (if b = BLeft then 1 else 0) in d \<le> p' \<and> p' - d < length (sn_visible_text (bu_snapshot (nw_replicas n' j))) \<and>
      sn_visible_text (bu_snapshot (nw_replicas n' j)) ! (p' - d) = sn_visible_text (bu_snapshot (nw_replicas n i)) ! (p - d))"
proof -
  let ?s = "bu_snapshot (nw_replicas n i)" and ?s' = "bu_snapshot (nw_replicas n' j)" and ?S = "set (nw_sent n')"
  obtain log where t: "tracks base log ?s" and k: "knowledge base ?S (sn_version ?s) log" and S: "sent_ok base ?S"
    by (rule earlier_knowledge [OF assms(1,2)])
  have r': "reachable base n'" using assms(2,1) by (induction rule: rtranclp_induct) (auto intro: reachable.step)
  obtain log' where t': "tracks base log' ?s'" and k': "knowledge base ?S (sn_version ?s') log'"
    using earlier_knowledge [OF r' rtranclp.rtrancl_refl, of j] by blast
  have x: "anchor_of rid (sn_fragments ?s) p b x" using anchor_at_of [OF t assms(3), of debug rid b] assms(4) by auto
  have "length (sn_visible_text ?s) = visible_len (sn_fragments ?s)" using tracks_snapshot(1) [OF t] by (simp add: snapshot_ok_def)
  then obtain B f R where f: "sn_fragments ?s = B @ f # R" "within_fragment rid B f p b x"
    using x assms(5,6) unfolding anchor_of_def by auto
  note w = within_fragment_visible [OF tracks_snapshot [OF t] f, unfolded tracks_cells [OF t]]
  note of = anchor_of_offset [OF tracks_snapshot(1) [OF t] x tracks_snapshot(2) [OF t], unfolded tracks_cells [OF t]]
  have there: "anchored (run_cells base log') x"
    using anchored_elsewhere [OF S k k' of(1)] assms(7) by (auto simp: can_resolve_def)
  have vis: "(anchor_cell x, True) \<in> set (run_cells base log')"
    using anchor_valid_shown [OF tracks_snapshot(1) [OF t'] _ w(5,6) assms(8)] there tracks_cells [OF t'] by simp
  have "anchor_cell x \<in> set (cells_of_run base log)" "anchor_cell x \<in> set (cells_of_run base log')"
    using w(1) vis by (force simp flip: cells_run_cells)+
  note bytes = texts_agree [OF S k k' this]
  have "offset_for_anchor debug rid ?s' x = Some (count_before (anchor_cell x) (run_cells base log') + (if b = BLeft then 1 else 0))"
    using resolve_tracked [OF t' there assms(7)] vis w(2,5,6) by (simp add: anchor_offset_def)
  moreover note tracked_byte [OF t' vis] tracked_byte(2) [OF t w(1)]
  ultimately show ?thesis using bytes w(3) by (cases b) (auto simp: Let_def)
qed

section \<open>Witnesses\<close>

text \<open>The replicas of the sample network before any edit.\<close>

lemma sample_boundaries:
  "is_char_boundary (sn_visible_text (bu_snapshot (nw_replicas sample_start i))) 0"
  "is_char_boundary (sn_visible_text (bu_snapshot (nw_replicas sample_start i))) 1"
  "is_char_boundary (sn_visible_text (bu_snapshot (nw_replicas sample_start i))) 2"
  by (simp_all add: sample_start_fields is_char_boundary_def)

lemma sample_tracks:
  "tracks ''ab'' [] (bu_snapshot (nw_replicas sample_start i))" "knowledge ''ab'' {} (bu_version (nw_replicas sample_start i)) []"
proof -
  obtain log where l: "tracks ''ab'' log (bu_snapshot (nw_replicas sample_start i))"
      "knowledge ''ab'' (set (nw_sent sample_start)) (bu_version (nw_replicas sample_start i)) log"
    by (rule earlier_knowledge [OF sample_start_reachable rtranclp.rtrancl_refl])
  moreover have "nw_sent sample_start = []" by (simp add: sample_start_def)
  ultimately show "tracks ''ab'' [] (bu_snapshot (nw_replicas sample_start i))" "knowledge ''ab'' {} (bu_version (nw_replicas sample_start i)) []"
    by (auto simp: knowledge_def)
qed

lemma sample_anchor:
  assumes "p < 3"
  obtains x where "anchor_at debug 1 (bu_snapshot (nw_replicas sample_start i)) (At p) b = Some x"
    "anchor_of 1 (sn_fragments (bu_snapshot (nw_replicas sample_start i))) p b x"
    "\<And>n j. net_step\<^sup>*\<^sup>* sample_start n \<Longrightarrow> can_resolve 1 (bu_snapshot (nw_replicas n j)) x"
proof -
  let ?s = "bu_snapshot (nw_replicas sample_start i)"
  note t = sample_tracks(1) [of i]
  have "p = 0 \<or> p = 1 \<or> p = 2" using assms by auto
  then have "is_char_boundary (sn_visible_text ?s) p" using sample_boundaries [of i] by auto
  from anchor_at_of [OF t this, of debug 1 b] obtain x where x: "anchor_at debug 1 ?s (At p) b = Some x" "anchor_of 1 (sn_fragments ?s) p b x"
    by blast
  note of = anchor_of_offset [OF tracks_snapshot(1) [OF t] x(2) tracks_snapshot(2) [OF t]]
  have stamp: "an_timestamp x = base_insertion" if x': "\<not> anchor_is_min x" "\<not> anchor_is_max x"
  proof -
    obtain f where "f \<in> set (sn_fragments ?s)" "an_timestamp x = fr_timestamp f" using of(5) x' by blast
    then show ?thesis using tracks_stamps [OF t, of f] by (auto simp: touching_def)
  qed
  show thesis
  proof (rule that [OF x])
    fix n j assume n: "net_step\<^sup>*\<^sup>* sample_start n"
    then have "reachable ''ab'' n" using sample_start_reachable by (induction rule: rtranclp_induct) (auto intro: reachable.step)
    then obtain log where "knowledge ''ab'' (set (nw_sent n)) (bu_version (nw_replicas n j)) log"
      using earlier_knowledge [OF _ rtranclp.rtrancl_refl, of "''ab''" n j] by blast
    then have "vclock_observed (bu_version (nw_replicas n j)) base_insertion" by (simp add: knowledge_def)
    then show "can_resolve 1 (bu_snapshot (nw_replicas n j)) x"
      using stamp of(3) by (cases "anchor_is_min x \<or> anchor_is_max x") (auto simp: can_resolve_def)
  qed
qed

theorem anchor_roundtrip_witness:
  "\<exists>xs. map (\<lambda>p. anchor_at True 1 (bu_snapshot (nw_replicas sample_start 8)) (At p) BLeft) [0, 1, 2] = map Some xs \<and>
    map (offset_for_anchor True 1 (bu_snapshot (nw_replicas sample_start 8))) xs = [Some 0, Some 1, Some 2] \<and>
    summaries_for_anchors_unordered (bu_snapshot (nw_replicas sample_start 8)) xs = Some [0, 1, 2]"
proof -
  have "\<forall>p \<in> set [0, 1, 2]. is_char_boundary (sn_visible_text (bu_snapshot (nw_replicas sample_start 8))) p"
    using sample_boundaries [of 8] by simp
  from anchor_roundtrip [OF sample_start_reachable this, of True 1 BLeft]
  obtain xs where "map (\<lambda>p. anchor_at True 1 (bu_snapshot (nw_replicas sample_start 8)) (At p) BLeft) [0, 1, 2] = map Some xs"
    "map (offset_for_anchor True 1 (bu_snapshot (nw_replicas sample_start 8))) xs = map Some [0, 1, 2]"
    "summaries_for_anchors_unordered (bu_snapshot (nw_replicas sample_start 8)) xs = Some [0, 1, 2]" by blast
  then show ?thesis by (intro exI [of _ xs]) simp
qed

text \<open>Two anchors between the two bytes, after an insertion there.\<close>

theorem anchors_keep_order_witness:
  "\<exists>n x y p q. net_step\<^sup>*\<^sup>* sample_start n \<and> sn_visible_text (bu_snapshot (nw_replicas n 8)) = splice 0 [((1, 1), ''X'')] ''ab'' \<and>
    anchor_at True 1 (bu_snapshot (nw_replicas sample_start 8)) (At 1) BLeft = Some x \<and>
    anchor_at True 1 (bu_snapshot (nw_replicas sample_start 8)) (At 1) BRight = Some y \<and>
    offset_for_anchor True 1 (bu_snapshot (nw_replicas n 8)) x = Some p \<and>
    offset_for_anchor True 1 (bu_snapshot (nw_replicas n 8)) y = Some q \<and> p \<le> q"
proof -
  obtain b e where b: "net_step sample_start (put_replica 8 b [EditOp e] sample_start)"
      "sn_visible_text (bu_snapshot b) = splice 0 [((1, 1), ''X'')] ''ab''"
    by (rule sample_edit [OF sample_start_reachable refl, of 1 "''X''" 8]) simp_all
  let ?n = "put_replica 8 b [EditOp e] sample_start"
  have n: "net_step\<^sup>*\<^sup>* sample_start ?n" using b(1) by (rule r_into_rtranclp)
  obtain x where x: "anchor_at True 1 (bu_snapshot (nw_replicas sample_start 8)) (At 1) BLeft = Some x"
      "can_resolve 1 (bu_snapshot (nw_replicas ?n 8)) x" using sample_anchor [of 1 True 8 BLeft] n by (metis one_less_numeral_iff semiring_norm(77))
  obtain y where y: "anchor_at True 1 (bu_snapshot (nw_replicas sample_start 8)) (At 1) BRight = Some y"
      "can_resolve 1 (bu_snapshot (nw_replicas ?n 8)) y" using sample_anchor [of 1 True 8 BRight] n by (metis one_less_numeral_iff semiring_norm(77))
  from anchors_keep_order [OF sample_start_reachable n sample_boundaries(2) x(1) sample_boundaries(2) y(1) _ x(2) y(2)]
  obtain p q where "offset_for_anchor True 1 (bu_snapshot (nw_replicas ?n 8)) x = Some p"
    "offset_for_anchor True 1 (bu_snapshot (nw_replicas ?n 8)) y = Some q" "p \<le> q" by blast
  moreover have "sn_visible_text (bu_snapshot (nw_replicas ?n 8)) = splice 0 [((1, 1), ''X'')] ''ab''" using b(2) by simp
  ultimately show ?thesis using n x(1) y(1) by blast
qed


text \<open>The anchor before the second byte, at another replica.\<close>

lemma anchor_shown_valid:
  assumes ok: "snapshot_ok ins s" and x: "(anchor_cell x, True) \<in> set (cell_flags (sn_fragments s))" "\<not> anchor_is_min x" "\<not> anchor_is_max x"
    and rid: "an_buffer_id x = rid"
  shows "anchor_is_valid debug rid s x"
proof -
  have "anchored (cell_flags (sn_fragments s)) x" using x(1) by (force simp: anchored_def)
  then obtain B f R where "in_fragment (sn_fragments s) x B f R" by (rule anchored_fragment [OF _ x(2,3)])
  then have f: "sn_fragments s = B @ f # R" "anchor_cell x \<in> set (fr_cells f)" by (simp_all add: in_fragment_def)
  then have mem: "f \<in> set (sn_fragments s)" and ids: "sorted_wrt (<) (map fr_id (B @ f # R))" and d: "distinct (cells (B @ f # R))"
    using ok by (simp_all add: snapshot_ok_def)
  have "fr_visible f"
    using x(1) count_before_fragment(2) [OF d anchor_cell_fragment(5,6) [OF f(2)]] anchor_cell_fragment(7) [OF f(2)] f(1) by simp
  moreover have "try_fragment_id_for_anchor debug s x = Some (fr_id f)"
    using x try_find [OF ok mem f(2)] anchor_cell_fragment(1) [OF f(2)]
    by (simp add: try_fragment_id_for_anchor_def) (simp add: insertion_fragment_new_def)
  ultimately show ?thesis using find_fragment_id_eq [OF ids, of 0 0] f(1) rid by (simp add: anchor_is_valid_def)
qed

theorem anchor_keeps_byte_witness:
  "\<exists>x p. anchor_at True 1 (bu_snapshot (nw_replicas sample_start 8)) (At 1) BRight = Some x \<and>
    offset_for_anchor True 1 (bu_snapshot (nw_replicas sample_start 9)) x = Some p \<and>
    sn_visible_text (bu_snapshot (nw_replicas sample_start 9)) ! p = CHR ''b''"
proof -
  let ?s = "bu_snapshot (nw_replicas sample_start 8)" and ?s' = "bu_snapshot (nw_replicas sample_start 9)"
  note t = sample_tracks(1) [of 8] and t' = sample_tracks(1) [of 9]
  obtain x where x: "anchor_at True 1 ?s (At 1) BRight = Some x" "anchor_of 1 (sn_fragments ?s) 1 BRight x" "can_resolve 1 ?s' x"
    by (rule sample_anchor [of 1 True 8 BRight]) simp_all
  have "length (sn_visible_text ?s) = visible_len (sn_fragments ?s)" using tracks_snapshot(1) [OF t] by (simp add: snapshot_ok_def)
  then have "visible_len (sn_fragments ?s) = 2" by (simp add: sample_start_fields)
  then obtain B f R where "sn_fragments ?s = B @ f # R" "within_fragment 1 B f 1 BRight x" using x(2) unfolding anchor_of_def by auto
  note w = within_fragment_visible [OF tracks_snapshot [OF t] this]
  have "(anchor_cell x, True) \<in> set (cell_flags (sn_fragments ?s'))" using w(1) by (simp add: tracks_cells [OF t] tracks_cells [OF t'])
  from anchor_shown_valid [OF tracks_snapshot(1) [OF t'] this w(5,6)] have "anchor_is_valid True 1 ?s' x"
    using x(3) by (simp add: can_resolve_def)
  from anchor_keeps_byte [OF sample_start_reachable rtranclp.rtrancl_refl sample_boundaries(2) x(1) _ _ x(3) this]
  show ?thesis using x(1) by (auto simp: sample_start_fields)
qed

end
