(* ===== verification/Zed_Edits_Facts.thy ===== *)
theory Zed_Edits_Facts
  imports Zed_Edits Zed_Anchor_Network
begin

text \<open>
  Facts about \<open>edits_since\<close>: what its cursor passes over is unchanged, and the edits that the iterator yields are
  a patch from the text that the version saw to the current text.
\<close>

section \<open>What the cursor passes over\<close>

lemma version_values_wf: "vclock_wf (version_values g)"
  using version_values [of g] by simp

lemma observed_all_version: "vclock_observed_all v (version_values g) \<longleftrightarrow> (\<forall>i. at (version_values g) i \<le> at v i)"
  by (rule vclock_observed_all_iff [OF version_values_wf])

lemma observed_all_join:
  "vclock_observed_all v (version_values (version_join a b)) \<longleftrightarrow>
     vclock_observed_all v (version_values a) \<and> vclock_observed_all v (version_values b)"
  unfolding observed_all_version by (auto simp: version_join.rep_eq at_join)

lemma observed_all_at: "vclock_observed_all g h \<Longrightarrow> at h i \<le> at g i"
  by (cases "i < length h")
    (auto simp: vclock_observed_all_def get_or_def list_all_length split: if_splits dest!: spec [of _ i])

lemma observed_all_trans: "vclock_observed_all g h \<Longrightarrow> vclock_observed h t \<Longrightarrow> vclock_observed g t"
  using observed_all_at by (auto simp: vclock_observed_def vclock_get_at intro: order_trans)

lemma changed_filter_sum:
  "xs \<noteq> [] \<Longrightarrow> changed_filter v (sum_items fragment_ops xs) \<longleftrightarrow> (\<exists>x \<in> set xs. changed_filter v (sm_item fragment_ops x))"
proof (induction xs rule: rev_nonempty_induct)
  case (single x)
  then show ?case using fragment_tree.sum_singleton by (simp add: sum_items_def)
next
  case (snoc x xs)
  have "sum_items fragment_ops (xs @ [x]) = sm_add fragment_ops (sum_items fragment_ops xs) (sm_item fragment_ops x)"
    using fragment_tree.sum_items_append [of "[x]" xs] fragment_tree.sum_singleton snoc.hyps by (simp add: sum_items_def)
  moreover have "changed_filter v (sm_add fragment_ops a b) \<longleftrightarrow> changed_filter v a \<or> changed_filter v b" for a b
    by (simp add: changed_filter_def fragment_ops_def observed_all_join)
  ultimately show ?case using snoc.IH by auto
qed

lemma changed_filter_ok: "filter_ok fragment_ops (changed_filter v)"
  unfolding filter_ok_def using changed_filter_sum by blast

lemma changed_fragments_tree:
  assumes "st_wf fragment_ops t" "st_height t < 16" "st_items t = sn_fragments s"
  shows "\<exists>c. fi_next text_dim (fi_new text_dim t (changed_filter v)) = Some c \<and>
    fi_visit text_dim c [] = Some (changed_fragments v s)"
  using dimension_laws.fi_visit_new [OF fragment_tree.dimension_laws_axioms changed_filter_ok assms(1,2), of v] assms(3)
  by (auto simp: changed_fragments_def text_dim_def)

text \<open>A version that has observed \<open>max_version\<close> of a fragment has observed what concerns it.\<close>

lemma observed_foldl:
  "vclock_observed (version_values (foldl version_observe g ds)) t \<longleftrightarrow>
     vclock_observed (version_values g) t \<or> (\<exists>d \<in> set ds. lam_replica t = lam_replica d \<and> lam_value t \<le> lam_value d)"
  by (induction ds arbitrary: g) (auto simp: version_observe.rep_eq observed_observe)

lemma unchanged_touching:
  assumes "\<not> changed_filter v (fragment_summary_of f)"
  shows "t \<in> touching f \<Longrightarrow> vclock_observed v t" "vclock_observed (version_values (fr_max_undos f)) u \<Longrightarrow> vclock_observed v u"
proof -
  let ?m = "foldl version_observe (version_observe version_new (fr_timestamp f)) (fr_deletions f)"
  have "fs_max_version (fragment_summary_of f) = version_join ?m (fr_max_undos f)"
    by (simp add: fragment_summary_of_def Let_def)
  then have all: "vclock_observed_all v (version_values ?m)" "vclock_observed_all v (version_values (fr_max_undos f))"
    using assms by (simp_all add: changed_filter_def observed_all_join)
  show "vclock_observed v t" if "t \<in> touching f"
    using that by (intro observed_all_trans [OF all(1)])
      (auto simp: touching_def observed_foldl version_observe.rep_eq observed_observe)
  show "vclock_observed v u" if "vclock_observed (version_values (fr_max_undos f)) u"
    by (rule observed_all_trans [OF all(2) that])
qed

lemma was_undone_now:
  assumes "\<And>u. u \<in> us \<Longrightarrow> e \<in> fst ` set (uo_counts u) \<Longrightarrow> vclock_observed v (uo_timestamp u)"
  shows "was_undone_by us v e = undone us e"
proof -
  have "{n. \<exists>u \<in> us. vclock_observed v (uo_timestamp u) \<and> (e, n) \<in> set (uo_counts u)} =
      {n. \<exists>u \<in> us. True \<and> (e, n) \<in> set (uo_counts u)}" using assms by force
  then show ?thesis by (simp add: was_undone_by_def undone_def max_count_def)
qed

lemma unchanged_shown:
  assumes "buffer_ok ins us s" "low s" "f \<in> set (sn_fragments s)" "\<not> changed_filter v (fragment_summary_of f)"
  shows "was_visible s v f = fr_visible f"
proof -
  have ok: "um_ok (sn_undo_map s)" "um_represents (sn_undo_map s) us" "fr_visible f = shown us f" "undos_seen us f"
    using assms(1,3) by (simp_all add: buffer_ok_def)
  have "was_undone_by us v t = undone us t" if "t \<in> touching f" for t
    using that ok(4) by (intro was_undone_now unchanged_touching(2) [OF assms(4)]) (auto simp: undos_seen_def)
  moreover have "vclock_observed v t" if "t \<in> touching f" for t by (rule unchanged_touching(1) [OF assms(4) that])
  ultimately show ?thesis
    using was_visible_shown [OF ok(1) assms(2) ok(2), of v f 0] ok(3) by (auto simp: was_shown_def shown_def touching_def)
qed

section \<open>The iterator\<close>

text \<open>The bytes of fragments that the version saw, and those that are visible.\<close>

definition old_bytes :: "(lamport \<Rightarrow> string) \<Rightarrow> snapshot \<Rightarrow> vclock \<Rightarrow> fragment list \<Rightarrow> string" where
  "old_bytes ins s v fs = cell_text ins (cells (filter (was_visible s v) fs))"

definition new_bytes :: "(lamport \<Rightarrow> string) \<Rightarrow> fragment list \<Rightarrow> string" where
  "new_bytes ins fs = cell_text ins (vcells fs)"

lemma bytes_simps [simp]:
  "old_bytes ins s v [] = []" "old_bytes ins s v (fs @ gs) = old_bytes ins s v fs @ old_bytes ins s v gs"
  "old_bytes ins s v (f # fs) = (if was_visible s v f then cell_text ins (fr_cells f) else []) @ old_bytes ins s v fs"
  "new_bytes ins [] = []" "new_bytes ins (fs @ gs) = new_bytes ins fs @ new_bytes ins gs"
  "new_bytes ins (f # fs) = (if fr_visible f then cell_text ins (fr_cells f) else []) @ new_bytes ins fs"
  "length (new_bytes ins fs) = visible_len fs"
  by (simp_all add: old_bytes_def new_bytes_def)

lemma bytes_unchanged: "\<forall>f \<in> set fs. was_visible s v f = fr_visible f \<Longrightarrow> old_bytes ins s v fs = new_bytes ins fs"
  by (induction fs) simp_all

text \<open>The edits found so far, with the pending one last.\<close>

abbreviation found :: "anchored_edit list \<Rightarrow> anchored_edit option \<Rightarrow> patch" where
  "found es pending \<equiv> map fst (es @ (case pending of None \<Rightarrow> [] | Some e \<Rightarrow> [e]))"

text \<open>After the fragments \<open>B\<close> the two ends are the lengths of the two texts and what was found relates them.\<close>

definition edits_here ::
    "(lamport \<Rightarrow> string) \<Rightarrow> snapshot \<Rightarrow> vclock \<Rightarrow> fragment list \<Rightarrow> patch \<Rightarrow> edits \<Rightarrow> bool" where
  "edits_here ins s v B p ed \<longleftrightarrow>
     ed_visible_cursor ed = visible_len B \<and> ed_deleted_cursor ed \<le> deleted_len B \<and>
     ed_old_end ed = length (old_bytes ins s v B) \<and> ed_new_end ed = visible_len B \<and>
     patch_rel 0 0 p (old_bytes ins s v B) (new_bytes ins B) \<and> patch_new_ok p \<and>
     (p = [] \<longleftrightarrow> (\<forall>f \<in> set B. was_visible s v f = fr_visible f))"

text \<open>The same, behind the fragments that were already taken into account.\<close>

definition edits_at ::
    "(lamport \<Rightarrow> string) \<Rightarrow> snapshot \<Rightarrow> vclock \<Rightarrow> fragment list \<Rightarrow> patch \<Rightarrow> edits \<Rightarrow> bool" where
  "edits_at ins s v B p ed \<longleftrightarrow>
     (\<exists>B' X. B = B' @ X \<and> (\<forall>f \<in> set X. was_visible s v f = fr_visible f) \<and> edits_here ins s v B' p ed)"

lemma edits_at_skip: "edits_at ins s v B p ed \<Longrightarrow> was_visible s v f = fr_visible f \<Longrightarrow> edits_at ins s v (B @ [f]) p ed"
  unfolding edits_at_def by (elim exE conjE, rule_tac x = B' in exI, rule_tac x = "X @ [f]" in exI) auto

lemma edits_here_at: "edits_here ins s v B p ed \<Longrightarrow> edits_at ins s v B p ed"
  unfolding edits_at_def by (intro exI [of _ B] exI [of _ "[]"]) simp

lemma edits_at_cursor [simp]: "edits_at ins s v B p (ed\<lparr>ed_fragments_cursor := c\<rparr>) = edits_at ins s v B p ed"
  by (simp add: edits_at_def edits_here_def)

lemma edits_at_patch:
  assumes "edits_at ins s v B p ed"
  shows "patch_rel 0 0 p (old_bytes ins s v B) (new_bytes ins B)" "patch_new_ok p"
    "p = [] \<longleftrightarrow> (\<forall>f \<in> set B. was_visible s v f = fr_visible f)"
proof -
  obtain B' X where B: "B = B' @ X" "\<forall>f \<in> set X. was_visible s v f = fr_visible f" and h: "edits_here ins s v B' p ed"
    using assms by (auto simp: edits_at_def)
  have p: "patch_rel 0 0 p (old_bytes ins s v B') (new_bytes ins B')" "patch_new_ok p"
    "p = [] \<longleftrightarrow> (\<forall>f \<in> set B'. was_visible s v f = fr_visible f)" using h by (simp_all add: edits_here_def)
  show "patch_rel 0 0 p (old_bytes ins s v B) (new_bytes ins B)"
    using patch_rel_append [OF p(1), of "new_bytes ins X"] bytes_unchanged [OF B(2), of ins] B(1) by simp
  show "patch_new_ok p" "p = [] \<longleftrightarrow> (\<forall>f \<in> set B. was_visible s v f = fr_visible f)" using p B by auto
qed

text \<open>What is assumed of the snapshot.\<close>

definition edits_env :: "(lamport \<Rightarrow> string) \<Rightarrow> snapshot \<Rightarrow> vclock \<Rightarrow> bool" where
  "edits_env ins s v \<longleftrightarrow> snapshot_ok ins s \<and> um_ok (sn_undo_map s) \<and> low s \<and>
     (\<forall>f \<in> set (sn_fragments s). \<not> changed_filter v (fragment_summary_of f) \<longrightarrow> was_visible s v f = fr_visible f)"

lemma edits_env_was: "edits_env ins s v \<Longrightarrow> fragment_was_visible (sn_undo_map s) v f = Some (was_visible s v f)"
  using fragment_was_visible_some [of "sn_undo_map s" v f] by (auto simp: edits_env_def low_def was_visible_def)

lemma edits_env_lengths:
  assumes "edits_env ins s v" "sn_fragments s = B @ R"
  shows "length (sn_visible_text s) = visible_len B + visible_len R" "length (sn_deleted_text s) = deleted_len B + deleted_len R"
  using assms by (simp_all add: edits_env_def snapshot_ok_def)

lemma edits_jump_here:
  assumes "edits_env ins s v" "sn_fragments s = B @ R" "edits_at ins s v B p ed"
  shows "\<exists>ed'. edits_jump s (visible_len B, deleted_len B) ed = Some ed' \<and> edits_here ins s v B p ed' \<and> ed_new_end ed \<le> ed_new_end ed'"
proof -
  obtain B' X where B: "B = B' @ X" "\<forall>f \<in> set X. was_visible s v f = fr_visible f" and h: "edits_here ins s v B' p ed"
    using assms(3) by (auto simp: edits_at_def)
  note p = edits_at_patch [OF assms(3)]
  have old: "length (old_bytes ins s v B) = length (old_bytes ins s v B') + visible_len X"
    using bytes_unchanged [OF B(2), of ins] B(1) by simp
  have len: "visible_len B \<le> length (sn_visible_text s)" using edits_env_lengths [OF assms(1,2)] by simp
  show ?thesis
    using h old len p B(1) by (simp add: edits_jump_def edits_here_def rope_summary_def)
qed

text \<open>A change at the end of both texts extends the last edit when that ends there, and is an edit of its own otherwise.\<close>

lemma patch_extend:
  assumes rel: "patch_rel 0 0 (p @ [e]) S U" "patch_new_ok (p @ [e])" and last: "rng_end (e_new e) = length U"
  shows "patch_rel 0 0 (p @ [e\<lparr>e_old := (e_old e)\<lparr>rng_end := length S + length x\<rparr>\<rparr>]) (S @ x) U"
    "patch_rel 0 0 (p @ [e\<lparr>e_new := (e_new e)\<lparr>rng_end := length U + length y\<rparr>\<rparr>]) S (U @ y)"
    "patch_new_ok (p @ [e\<lparr>e_old := (e_old e)\<lparr>rng_end := n\<rparr>\<rparr>])" "patch_new_ok (p @ [e\<lparr>e_new := (e_new e)\<lparr>rng_end := n\<rparr>\<rparr>])"
proof -
  have old: "rng_end (e_old e) = length S" using patch_rel_last [OF rel(1)] last by simp
  obtain a c where e: "e = mk_edit a (length S) c (length U)"
    using old last by (cases e; cases "e_old e"; cases "e_new e") (auto simp: mk_edit_def)
  note merge = patch_rel_merge [of 0 0 p a "length S" c "length U" S U, OF rel(1) [unfolded e], simplified]
  show "patch_rel 0 0 (p @ [e\<lparr>e_old := (e_old e)\<lparr>rng_end := length S + length x\<rparr>\<rparr>]) (S @ x) U"
    using merge [of x "[]"] by (simp add: e mk_edit_def)
  show "patch_rel 0 0 (p @ [e\<lparr>e_new := (e_new e)\<lparr>rng_end := length U + length y\<rparr>\<rparr>]) S (U @ y)"
    using merge [of "[]" y] by (simp add: e mk_edit_def)
  show "patch_new_ok (p @ [e\<lparr>e_old := (e_old e)\<lparr>rng_end := n\<rparr>\<rparr>])" "patch_new_ok (p @ [e\<lparr>e_new := (e_new e)\<lparr>rng_end := n\<rparr>\<rparr>])"
    using rel(2) by (cases "p = []"; simp add: patch_new_ok_successively successively_append_iff)+
qed

lemma patch_add:
  assumes rel: "patch_rel 0 0 p S U" "patch_new_ok p" and gap: "p = [] \<or> rng_end (e_new (last p)) < length U"
  shows "patch_rel 0 0 (p @ [mk_edit (length S) (length S + length x) (length U) (length U + length y)]) (S @ x) (U @ y)"
    "patch_new_ok (p @ [mk_edit (length S) a (length U) b])"
proof -
  show "patch_rel 0 0 (p @ [mk_edit (length S) (length S + length x) (length U) (length U + length y)]) (S @ x) (U @ y)"
    using patch_rel_snoc [OF rel(1), of "[]" x y] by simp
  show "patch_new_ok (p @ [mk_edit (length S) a (length U) b])"
  proof (cases "p = []")
    case False
    then have p: "p = butlast p @ [last p]" by simp
    have "rng_end (e_old (last p)) < length S"
      using patch_rel_last [of 0 0 "butlast p" "last p" S U] rel(1) gap False p by simp linarith
    then show ?thesis using rel(2) gap False by (simp add: patch_new_ok_successively successively_append_iff)
  qed (simp add: patch_new_ok_def)
qed

abbreviation whole :: "locator_range" where
  "whole \<equiv> ((locator_min, 0), (locator_max, U32_MAX))"

text \<open>The pending edit ends where the two texts end; without one, the last edit does not reach that far.\<close>

definition ends_at :: "anchored_edit list \<Rightarrow> anchored_edit option \<Rightarrow> nat \<Rightarrow> bool" where
  "ends_at es pending n \<longleftrightarrow>
     (case pending of
        None \<Rightarrow> es = [] \<or> rng_end (e_new (fst (last es))) < n
      | Some e \<Rightarrow> rng_end (e_new (fst e)) = n)"

lemma edits_here_inserted:
  assumes "edits_here ins s v B p ed" "fr_visible f" "\<not> was_visible s v f" "p' \<noteq> []" "patch_new_ok p'"
    "patch_rel 0 0 p' (old_bytes ins s v B) (new_bytes ins B @ cell_text ins (fr_cells f))"
  shows "edits_at ins s v (B @ [f]) p' (ed\<lparr>ed_visible_cursor := visible_len B + fr_len f, ed_new_end := visible_len B + fr_len f\<rparr>)"
  using assms by (intro edits_here_at) (auto simp: edits_here_def)

lemma edits_here_deleted:
  assumes "edits_here ins s v B p ed" "\<not> fr_visible f" "was_visible s v f" "p' \<noteq> []" "patch_new_ok p'"
    "patch_rel 0 0 p' (old_bytes ins s v B @ cell_text ins (fr_cells f)) (new_bytes ins B)"
  shows "edits_at ins s v (B @ [f]) p'
    (ed\<lparr>ed_deleted_cursor := deleted_len B + fr_len f, ed_old_end := length (old_bytes ins s v B) + fr_len f\<rparr>)"
  using assms by (intro edits_here_at) (auto simp: edits_here_def)

lemma found_simps:
  "found es None = map fst es" "found es (Some e) = map fst es @ [fst e]"
  by simp_all

lemma edits_visit_here:
  assumes env: "edits_env ins s v" "sn_fragments s = B @ f # R" and here: "edits_here ins s v B (found es pending) ed"
    and ends: "ends_at es pending (ed_new_end ed)"
  shows "\<exists>pending' ed'. edits_visit s v rid whole (visible_len B, deleted_len B) f pending ed = Some (pending', ed') \<and>
    edits_at ins s v (B @ [f]) (found es pending') ed' \<and> (pending' = None \<longrightarrow> pending = None \<and> ed' = ed)"
proof -
  let ?S = "old_bytes ins s v B" and ?U = "new_bytes ins B" and ?x = "cell_text ins (fr_cells f)"
  let ?anchors = "fragment_anchors rid f"
  have ok: "fr_fits ins f" using env by (simp add: edits_env_def snapshot_ok_def)
  then have clip: "clipped_end (locator_max, U32_MAX) f a b = Some b" for a b by (auto simp: clipped_end_def fr_fits_def)
  note len = edits_env_lengths [OF env]
  note was = edits_env_was [OF env(1)]
  have h: "ed_visible_cursor ed = visible_len B" "ed_deleted_cursor ed \<le> deleted_len B" "ed_old_end ed = length ?S"
      "ed_new_end ed = length ?U" "patch_rel 0 0 (found es pending) ?S ?U" "patch_new_ok (found es pending)"
    using here by (simp_all add: edits_here_def)
  have gap: "map fst es = [] \<or> rng_end (e_new (last (map fst es))) < length ?U" if "pending = None"
    using ends h(4) that by (cases "es = []") (simp_all add: ends_at_def last_map)
  have last: "rng_end (e_new (fst e)) = length ?U" if "pending = Some e" for e
    using ends h(4) that by (simp add: ends_at_def)
  show ?thesis
  proof (cases "was_visible s v f = fr_visible f")
    case True
    then show ?thesis using edits_at_skip [OF edits_here_at [OF here]] by (auto simp: edits_visit_def was)
  next
    case changed: False
    show ?thesis
    proof (cases "fr_visible f")
      case vis: True
      let ?e = "case pending of None \<Rightarrow> (mk_edit (length ?S) (length ?S) (length ?U) (length ?U + fr_len f), ?anchors)
        | Some (edit, r) \<Rightarrow> (edit\<lparr>e_new := (e_new edit)\<lparr>rng_end := length ?U + fr_len f\<rparr>\<rparr>, fst r, snd ?anchors)"
      have "edits_visit s v rid whole (visible_len B, deleted_len B) f pending ed =
          Some (Some ?e, ed\<lparr>ed_visible_cursor := visible_len B + fr_len f, ed_new_end := visible_len B + fr_len f\<rparr>)"
        using vis changed h(1,3,4) len by (simp add: edits_visit_def was edits_inserted_def rope_summary_def clip Let_def split: option.split)
      moreover have "edits_at ins s v (B @ [f]) (found es (Some ?e))
          (ed\<lparr>ed_visible_cursor := visible_len B + fr_len f, ed_new_end := visible_len B + fr_len f\<rparr>)"
      proof (rule edits_here_inserted [OF here vis])
        show "patch_new_ok (found es (Some ?e))" "patch_rel 0 0 (found es (Some ?e)) ?S (?U @ ?x)"
          using h(5,6) gap last patch_add(1) [of "map fst es" ?S ?U "[]" ?x] patch_add(2) [of "map fst es" ?S ?U] patch_extend(1,2) [of "map fst es" _ ?S ?U ?x] patch_extend(3,4) [of "map fst es" _ ?S ?U]
          by (cases pending; force simp: found_simps)+
      qed (use vis changed in simp_all)
      ultimately show ?thesis by blast
    next
      case vis: False
      let ?e = "case pending of None \<Rightarrow> (mk_edit (length ?S) (length ?S + fr_len f) (length ?U) (length ?U), ?anchors)
        | Some (edit, r) \<Rightarrow> (edit\<lparr>e_old := (e_old edit)\<lparr>rng_end := length ?S + fr_len f\<rparr>\<rparr>, fst r, snd ?anchors)"
      have seek: "ed_deleted_cursor ed < deleted_len B \<or> ed_deleted_cursor ed = deleted_len B" using h(2) by auto
      have "edits_visit s v rid whole (visible_len B, deleted_len B) f pending ed =
          Some (Some ?e, ed\<lparr>ed_deleted_cursor := deleted_len B + fr_len f, ed_old_end := length ?S + fr_len f\<rparr>)"
        by (insert vis changed h(1,3,4) len, cases pending; rule disjE [OF seek])
          (simp_all add: edits_visit_def was edits_deleted_def rope_summary_def rope_seek_forward_def clip Let_def split_beta)
      moreover have "edits_at ins s v (B @ [f]) (found es (Some ?e))
          (ed\<lparr>ed_deleted_cursor := deleted_len B + fr_len f, ed_old_end := length ?S + fr_len f\<rparr>)"
      proof (rule edits_here_deleted [OF here vis])
        show "patch_new_ok (found es (Some ?e))" "patch_rel 0 0 (found es (Some ?e)) (?S @ ?x) ?U"
          using h(5,6) gap last patch_add(1) [of "map fst es" ?S ?U ?x "[]"] patch_add(2) [of "map fst es" ?S ?U] patch_extend(1,2) [of "map fst es" _ ?S ?U ?x] patch_extend(3,4) [of "map fst es" _ ?S ?U]
          by (cases pending; force simp: found_simps)+
      qed (use vis changed in simp_all)
      ultimately show ?thesis by blast
    qed
  qed
qed

section \<open>The loops\<close>

abbreviation changed_from :: "vclock \<Rightarrow> fragment list \<Rightarrow> fragment list \<Rightarrow> ((nat \<times> nat) \<times> fragment) list" where
  "changed_from v B R \<equiv> positions fragment_ops text_dim (changed_filter v) (visible_len B, deleted_len B) R"

lemma changed_from_Cons:
  "changed_from v B (f # R) =
     (if changed_filter v (fragment_summary_of f) then [((visible_len B, deleted_len B), f)] else []) @ changed_from v (B @ [f]) R"
proof -
  have "dm_add text_dim (visible_len B, deleted_len B) (sm_item fragment_ops f) = (visible_len (B @ [f]), deleted_len (B @ [f]))"
    by (simp add: text_dim_def fragment_item)
  then show ?thesis by (simp add: fragment_ops_def)
qed

lemma edits_jump_cursor: "edits_jump s start ed = Some ed' \<Longrightarrow> ed_fragments_cursor ed' = ed_fragments_cursor ed"
  by (auto simp: edits_jump_def split: if_splits)

lemma edits_loop_at:
  assumes env: "edits_env ins s v"
  shows "sn_fragments s = B @ R \<Longrightarrow> edits_at ins s v B (found es pending) ed \<Longrightarrow>
      (pending = None \<Longrightarrow> R = [] \<or> ends_at es None (ed_new_end ed)) \<Longrightarrow>
    \<exists>pending' ed' B' R'. edits_loop s v rid whole pending (changed_from v B R) ed = Some (pending', ed') \<and>
      sn_fragments s = B' @ R' \<and> ed_fragments_cursor ed' = changed_from v B' R' \<and>
      edits_at ins s v B' (found es pending') ed' \<and> length R' \<le> length R \<and>
      (pending' = None \<longrightarrow> R' = []) \<and> (pending = None \<and> pending' \<noteq> None \<longrightarrow> length R' < length R) \<and>
      (\<forall>e. pending' = Some e \<longrightarrow> R' = [] \<or> rng_end (e_new (fst e)) < ed_new_end ed')"
proof (induction R arbitrary: B pending ed)
  case Nil
  show ?case by (insert Nil, rule exI [of _ pending], rule exI [of _ "ed\<lparr>ed_fragments_cursor := []\<rparr>"], rule exI [of _ B], rule exI [of _ "[] :: fragment list"]) auto
next
  case (Cons f R)
  have fs: "sn_fragments s = (B @ [f]) @ R" using Cons.prems(1) by simp
  show ?case
  proof (cases "changed_filter v (fragment_summary_of f)")
    case False
    then have "was_visible s v f = fr_visible f" using env Cons.prems(1) by (simp add: edits_env_def)
    then have "edits_at ins s v (B @ [f]) (found es pending) ed" by (rule edits_at_skip [OF Cons.prems(2)])
    from Cons.IH [OF fs this] Cons.prems(3) obtain pending' ed' B' R' where
      "edits_loop s v rid whole pending (changed_from v (B @ [f]) R) ed = Some (pending', ed')"
      "sn_fragments s = B' @ R'" "ed_fragments_cursor ed' = changed_from v B' R'"
      "edits_at ins s v B' (found es pending') ed'" "length R' \<le> length R"
      "pending' = None \<longrightarrow> R' = []" "pending = None \<and> pending' \<noteq> None \<longrightarrow> length R' < length R"
      "\<forall>e. pending' = Some e \<longrightarrow> R' = [] \<or> rng_end (e_new (fst e)) < ed_new_end ed'" by blast
    note r = this
    show ?thesis
      by (insert False r, rule exI [of _ pending'], rule exI [of _ ed'], rule exI [of _ B'], rule exI [of _ R']) (auto simp: changed_from_Cons simp del: positions.simps)
  next
    case True
    have "fr_fits ins f" using env Cons.prems(1) by (simp add: edits_env_def snapshot_ok_def)
    then have within: "\<not> fr_id f < locator_min" "\<not> locator_max < fr_id f" by (auto simp: fr_fits_def)
    obtain ed1 where ed1: "edits_jump s (visible_len B, deleted_len B) ed = Some ed1" "edits_here ins s v B (found es pending) ed1"
        "ed_new_end ed \<le> ed_new_end ed1"
      using edits_jump_here [OF env Cons.prems(1,2)] by blast
    note split = changed_from_Cons [of v B f R, unfolded if_P [OF True] append_Cons append_Nil]
    show ?thesis
    proof (cases "case pending of None \<Rightarrow> False | Some (change, _) \<Rightarrow> rng_end (e_new change) < ed_new_end ed1")
      case stop: True
      then obtain e where e: "pending = Some e" "rng_end (e_new (fst e)) < ed_new_end ed1" by (auto split: option.splits)
      let ?ed = "ed1\<lparr>ed_fragments_cursor := changed_from v B (f # R)\<rparr>"
      have "edits_loop s v rid whole pending (changed_from v B (f # R)) ed = Some (pending, ?ed)"
        unfolding split using within ed1(1) stop by simp
      note r = this
      show ?thesis
        by (insert r e Cons.prems(1) edits_here_at [OF ed1(2)], rule exI [of _ pending], rule exI [of _ ?ed], rule exI [of _ B], rule exI [of _ "f # R"]) (simp del: positions.simps)
    next
      case go: False
      have "ends_at es pending (ed_new_end ed1)"
      proof (cases pending)
        case None
        then show ?thesis using Cons.prems(3) ed1(3) by (auto simp: ends_at_def)
      next
        case (Some e)
        have "patch_rel 0 0 (map fst es @ [fst e]) (old_bytes ins s v B) (new_bytes ins B)" "ed_new_end ed1 = visible_len B"
          using ed1(2) Some by (simp_all add: edits_here_def)
        from patch_rel_last [OF this(1)] this(2) show ?thesis using go Some by (cases e) (auto simp: ends_at_def)
      qed
      from edits_visit_here [OF env Cons.prems(1) ed1(2) this, of rid] obtain pending2 ed2 where visit:
        "edits_visit s v rid whole (visible_len B, deleted_len B) f pending ed1 = Some (pending2, ed2)"
        "edits_at ins s v (B @ [f]) (found es pending2) ed2" "pending2 = None \<longrightarrow> pending = None \<and> ed2 = ed1" by blast
      have "R = [] \<or> ends_at es None (ed_new_end ed2)" if "pending2 = None"
        using that visit(3) Cons.prems(3) ed1(3) by (auto simp: ends_at_def)
      from Cons.IH [OF fs visit(2) this] obtain pending' ed' B' R' where
        "edits_loop s v rid whole pending2 (changed_from v (B @ [f]) R) ed2 = Some (pending', ed')"
        "sn_fragments s = B' @ R'" "ed_fragments_cursor ed' = changed_from v B' R'"
        "edits_at ins s v B' (found es pending') ed'" "length R' \<le> length R" "pending' = None \<longrightarrow> R' = []"
        "\<forall>e. pending' = Some e \<longrightarrow> R' = [] \<or> rng_end (e_new (fst e)) < ed_new_end ed'" by blast
      note r = this
      show ?thesis unfolding split
        by (insert r within ed1(1) go visit(1), rule exI [of _ pending'], rule exI [of _ ed'], rule exI [of _ B'], rule exI [of _ R']) auto
    qed
  qed
qed

lemma edits_collect_at:
  assumes env: "edits_env ins s v"
  shows "sn_fragments s = B @ R \<Longrightarrow> edits_at ins s v B (map fst es) ed \<Longrightarrow> ed_fragments_cursor ed = changed_from v B R \<Longrightarrow>
      R = [] \<or> ends_at es None (ed_new_end ed) \<Longrightarrow>
    \<exists>es' ed'. edits_collect s v rid whole ed es = Some es' \<and> edits_at ins s v (sn_fragments s) (map fst es') ed'"
proof (induction "length R" arbitrary: B R es ed rule: less_induct)
  case less
  have "edits_at ins s v B (found es None) ed" using less.prems(2) by simp
  from edits_loop_at [OF env less.prems(1) this] less.prems(4) obtain pending ed' B' R' where
    loop: "edits_loop s v rid whole None (changed_from v B R) ed = Some (pending, ed')" "sn_fragments s = B' @ R'"
      "ed_fragments_cursor ed' = changed_from v B' R'" "edits_at ins s v B' (found es pending) ed'"
      "pending = None \<longrightarrow> R' = []" "pending \<noteq> None \<longrightarrow> length R' < length R"
      "\<forall>e. pending = Some e \<longrightarrow> R' = [] \<or> rng_end (e_new (fst e)) < ed_new_end ed'" by blast
  have step: "edits_next s v rid whole ed = Some (pending, ed')" using loop(1) less.prems(3) by (simp add: edits_next_def)
  show ?case
  proof (cases pending)
    case None
    then show ?thesis using step loop(2,4,5) by (subst edits_collect.simps) auto
  next
    case (Some e)
    have "R' = [] \<or> ends_at (es @ [e]) None (ed_new_end ed')" using loop(7) Some by (simp add: ends_at_def)
    from less.hyps [OF _ loop(2) _ loop(3) this] loop(4,6) Some obtain es' ed2 where
      "edits_collect s v rid whole ed' (es @ [e]) = Some es'" "edits_at ins s v (sn_fragments s) (map fst es') ed2" by auto
    then show ?thesis using step Some by (subst edits_collect.simps) auto
  qed
qed

section \<open>The queries\<close>

lemma edits_start_whole:
  assumes "snapshot_ok ins s" "\<forall>f fs. sn_fragments s = f # fs \<longrightarrow> fr_insertion_offset f = 0"
  shows "edits_start debug s v (anchor_min_for_buffer rid, anchor_max_for_buffer rid) =
    Some (whole, \<lparr>ed_visible_cursor = 0, ed_deleted_cursor = 0, ed_fragments_cursor = changed_from v [] (sn_fragments s),
      ed_old_end = 0, ed_new_end = 0\<rparr>)"
proof (cases "sn_fragments s")
  case Nil
  then show ?thesis
    by (simp add: edits_start_def fragment_id_for_anchor_def try_fragment_id_for_anchor_def changed_fragments_def)
next
  case (Cons f fs)
  then have "locator_min < fr_id f" "fr_insertion_offset f = 0"
    using assms by (simp_all add: snapshot_ok_def fr_fits_def)
  then show ?thesis using Cons
    by (simp add: edits_start_def fragment_id_for_anchor_def try_fragment_id_for_anchor_def changed_fragments_def less_imp_le
        del: positions.simps)
qed

lemma edits_since_bytes:
  assumes env: "edits_env ins s v" and first: "\<forall>f fs. sn_fragments s = f # fs \<longrightarrow> fr_insertion_offset f = 0"
    and v: "v \<noteq> sn_version s"
  shows "\<exists>es. edits_since debug rid s v = Some es \<and> patch_rel 0 0 es (old_bytes ins s v (sn_fragments s)) (sn_visible_text s) \<and>
    patch_new_ok es \<and> (es = [] \<longleftrightarrow> (\<forall>f \<in> set (sn_fragments s). was_visible s v f = fr_visible f))"
proof -
  let ?ed = "\<lparr>ed_visible_cursor = 0, ed_deleted_cursor = 0, ed_fragments_cursor = changed_from v [] (sn_fragments s),
      ed_old_end = 0, ed_new_end = 0\<rparr>"
  have ok: "snapshot_ok ins s" using env by (simp add: edits_env_def)
  have "edits_at ins s v [] (map fst []) ?ed" by (intro edits_here_at) (simp add: edits_here_def patch_new_ok_def)
  from edits_collect_at [OF env _ this, of "sn_fragments s" rid] obtain es ed' where
    "edits_collect s v rid whole ?ed [] = Some es" "edits_at ins s v (sn_fragments s) (map fst es) ed'"
    by (auto simp: ends_at_def simp del: positions.simps)
  moreover have "new_bytes ins (sn_fragments s) = sn_visible_text s" using ok by (simp add: snapshot_ok_def new_bytes_def)
  ultimately show ?thesis
    using edits_at_patch [of ins s v "sn_fragments s" "map fst es" ed'] edits_start_whole [OF ok first] v
    by (simp add: edits_since_def edits_since_in_range_def anchored_edits_since_in_range_def)
qed

lemma has_edits_loop_was:
  assumes "edits_env ins s v"
  shows "has_edits_loop s v fs = Some (\<exists>f \<in> set fs. was_visible s v f \<noteq> fr_visible f)"
  by (induction fs) (simp_all add: edits_env_was [OF assms])

lemma has_edits_since_was:
  assumes "edits_env ins s v" "v \<noteq> sn_version s"
  shows "has_edits_since s v = Some (\<exists>f \<in> set (sn_fragments s). was_visible s v f \<noteq> fr_visible f)"
proof -
  have "map snd (changed_fragments v s) = filter (\<lambda>f. changed_filter v (fragment_summary_of f)) (sn_fragments s)"
    by (simp add: changed_fragments_def map_snd_positions) (simp add: fragment_ops_def)
  then have "has_edits_since s v = Some (\<exists>f \<in> set (filter (\<lambda>f. changed_filter v (fragment_summary_of f)) (sn_fragments s)).
      was_visible s v f \<noteq> fr_visible f)"
    using assms(2) by (simp only: has_edits_since_def if_True has_edits_loop_was [OF assms(1)] simp_thms)
  then show ?thesis using assms(1) unfolding edits_env_def by (simp del: bex_simps) blast
qed

section \<open>Offsets at an older version\<close>

abbreviation to_old :: "patch \<Rightarrow> nat \<Rightarrow> nat \<Rightarrow> nat \<Rightarrow> nat" where
  "to_old p oo nn n \<equiv> fst (offset_to_version p oo nn n)"

lemma offset_resume:
  "offset_to_version p oo nn n = (m, p', oo', nn') \<Longrightarrow> n \<le> k \<Longrightarrow> offset_to_version p' oo' nn' k = offset_to_version p oo nn k"
  by (induction p oo nn n rule: offset_to_version.induct) (auto simp: Let_def split: if_splits)

lemma map_offsets_map: "sorted ns \<Longrightarrow> map_offsets p oo nn ns = map (to_old p oo nn) ns"
proof (induction ns arbitrary: p oo nn)
  case (Cons n ns)
  obtain m p' oo' nn' where r: "offset_to_version p oo nn n = (m, p', oo', nn')" by (metis prod_cases4)
  have "map (to_old p' oo' nn') ns = map (to_old p oo nn) ns"
    using offset_resume [OF r] Cons.prems by (intro map_cong) simp_all
  then show ?case using Cons r by simp
qed simp

lemma edit_fits_order:
  "edit_fits oo nn e S U \<Longrightarrow> oo \<le> rng_start (e_old e) \<and> rng_start (e_old e) \<le> rng_end (e_old e) \<and>
     rng_end (e_old e) \<le> oo + length S \<and> nn \<le> rng_start (e_new e) \<and> rng_start (e_new e) \<le> rng_end (e_new e) \<and>
     rng_end (e_new e) \<le> nn + length U \<and> rng_start (e_new e) - nn = rng_start (e_old e) - oo"
  unfolding edit_fits_def by linarith

lemma to_old_bounds:
  "patch_rel oo nn p S U \<Longrightarrow> nn \<le> n \<Longrightarrow> n \<le> nn + length U \<Longrightarrow> oo \<le> to_old p oo nn n \<and> to_old p oo nn n \<le> oo + length S"
proof (induction p arbitrary: oo nn S U)
  case (Cons e p)
  then have fits: "edit_fits oo nn e S U" and rel: "patch_rel (rng_end (e_old e)) (rng_end (e_new e)) p
      (drop (rng_end (e_old e) - oo) S) (drop (rng_end (e_new e) - nn) U)" by simp_all
  note order = edit_fits_order [OF fits]
  show ?case
  proof (cases "n < rng_start (e_new e)")
    case True
    then have "n - nn \<le> rng_start (e_old e) - oo" using order by linarith
    then show ?thesis using True order by simp linarith
  next
    case False
    show ?thesis
    proof (cases "rng_end (e_new e) \<le> n")
      case True
      have "rng_end (e_old e) \<le> to_old p (rng_end (e_old e)) (rng_end (e_new e)) n \<and>
          to_old p (rng_end (e_old e)) (rng_end (e_new e)) n \<le> rng_end (e_old e) + (length S - (rng_end (e_old e) - oo))"
        using Cons.IH [OF rel True] Cons.prems(3) edit_fits_length [OF fits] by simp
      moreover have "rng_end (e_old e) + (length S - (rng_end (e_old e) - oo)) = oo + length S" using order by linarith
      ultimately show ?thesis using False True order by simp
    qed (use False order in \<open>auto simp: Let_def min_def\<close>)
  qed
qed (simp, linarith)

lemma to_old_mono:
  "patch_rel oo nn p S U \<Longrightarrow> nn \<le> n \<Longrightarrow> n \<le> k \<Longrightarrow> k \<le> nn + length U \<Longrightarrow> to_old p oo nn n \<le> to_old p oo nn k"
proof (induction p arbitrary: oo nn S U)
  case (Cons e p)
  then have fits: "edit_fits oo nn e S U" and rel: "patch_rel (rng_end (e_old e)) (rng_end (e_new e)) p
      (drop (rng_end (e_old e) - oo) S) (drop (rng_end (e_new e) - nn) U)" by simp_all
  note order = edit_fits_order [OF fits]
  have k: "rng_end (e_old e) \<le> to_old p (rng_end (e_old e)) (rng_end (e_new e)) k" if "rng_end (e_new e) \<le> k"
    using to_old_bounds [OF rel that] Cons.prems(4) edit_fits_length [OF fits] by simp
  have start: "oo + (n - nn) \<le> rng_start (e_old e)" if "n < rng_start (e_new e)" using that order by linarith
  show ?case
  proof (cases "rng_end (e_new e) \<le> n")
    case True
    then have "\<not> n < rng_start (e_new e)" "\<not> k < rng_start (e_new e)" "rng_end (e_new e) \<le> k" using order Cons.prems(3) by simp_all
    then show ?thesis using Cons.IH [OF rel True Cons.prems(3)] True Cons.prems(4) edit_fits_length [OF fits] by simp
  next
    case False
    then show ?thesis using k start order Cons.prems(3)
      by (cases "n < rng_start (e_new e)"; cases "k < rng_start (e_new e)"; cases "rng_end (e_new e) \<le> k")
        (simp_all add: Let_def min_def, linarith+)
  qed
qed simp

text \<open>A byte that no edit inserted is found again.\<close>

lemma to_old_char:
  "patch_rel oo nn p S U \<Longrightarrow> nn \<le> n \<Longrightarrow> n < nn + length U \<Longrightarrow> \<forall>e \<in> set p. \<not> (rng_start (e_new e) \<le> n \<and> n < rng_end (e_new e)) \<Longrightarrow>
     to_old p oo nn n - oo < length S \<and> S ! (to_old p oo nn n - oo) = U ! (n - nn)"
proof (induction p arbitrary: oo nn S U)
  case (Cons e p)
  then have fits: "edit_fits oo nn e S U" and rel: "patch_rel (rng_end (e_old e)) (rng_end (e_new e)) p
      (drop (rng_end (e_old e) - oo) S) (drop (rng_end (e_new e) - nn) U)" by simp_all
  note order = edit_fits_order [OF fits]
  let ?k = "rng_start (e_old e) - oo" and ?o = "rng_end (e_old e)" and ?n = "rng_end (e_new e)"
  show ?case
  proof (cases "n < rng_start (e_new e)")
    case True
    then have "n - nn < ?k" "?k \<le> length S" using order Cons.prems(2) by linarith+
    moreover have "take ?k S ! (n - nn) = take ?k U ! (n - nn)" using fits by (simp add: edit_fits_def)
    ultimately show ?thesis using True by simp
  next
    case False
    then have n: "?n \<le> n" using Cons.prems(4) by simp
    have len: "?o + length (drop (?o - oo) S) = oo + length S" "?n + length (drop (?n - nn) U) = nn + length U"
      using edit_fits_length [OF fits] by simp_all
    have le: "oo \<le> ?o" "nn \<le> ?n" using order by linarith+
    have "n < ?n + length (drop (?n - nn) U)" using len(2) Cons.prems(3) by simp
    from Cons.IH [OF rel n this] Cons.prems(4) have IH: "to_old p ?o ?n n - ?o < length (drop (?o - oo) S)"
        "drop (?o - oo) S ! (to_old p ?o ?n n - ?o) = drop (?n - nn) U ! (n - ?n)" by simp_all
    have "?o \<le> to_old p ?o ?n n" using to_old_bounds [OF rel n] len(2) Cons.prems(3) by simp
    moreover have "?n - nn \<le> length U" using order by linarith
    then have "drop (?n - nn) U ! (n - ?n) = U ! (n - nn)" using n le by simp
    ultimately have "S ! (to_old p ?o ?n n - oo) = U ! (n - nn)" "to_old p ?o ?n n - oo < length S"
      using IH le by simp_all
    then show ?thesis using False n by simp
  qed
qed simp

end
