(* ===== verification/Zed_Edits_Network.thy ===== *)
theory Zed_Edits_Network
  imports Zed_Edits_Facts
begin

text \<open>
  \<open>edits_since\<close> in a network: given the version of any earlier state of any replica, it yields a patch from the
  text of that replica at that time to the current text, and \<open>offsets_to_version\<close> goes back along it.
\<close>

section \<open>The text of an older version\<close>

lemma tracks_env:
  assumes "tracks base log s"
  shows "edits_env (texts_of base log) s v"
proof -
  have ok: "buffer_ok (texts_of base log) (snd (run base log)) s" "low s" using assms by (simp_all add: tracks_def)
  then show ?thesis using unchanged_shown [OF ok] by (simp add: edits_env_def) (simp add: buffer_ok_def)
qed

lemma tracks_first:
  assumes S: "sent_ok base S" and k: "knowledge base S w log" and t: "tracks base log s" and fs: "sn_fragments s = f # fs"
  shows "fr_insertion_offset f = 0"
proof -
  have fits: "fr_fits (texts_of base log) g" if "g \<in> set (sn_fragments s)" for g
    using tracks_snapshot(1) [OF t] that by (simp add: snapshot_ok_def)
  have cells: "cells (sn_fragments s) = cells_of_run base log"
    using tracks_cells [OF t] cells_run_cells [of base log] by (metis fst_cell_flags)
  have "fr_key f \<in> set (cells (sn_fragments s))" using fits [of f] fs fr_key_cell [of f] by (simp add: fr_fits_def)
  then have "(fr_timestamp f, 0) \<in> set (cells (sn_fragments s))"
    unfolding cells cells_of_run_mem by (auto simp: image_iff)
  then obtain g where g: "g \<in> set (sn_fragments s)" "(fr_timestamp f, 0) \<in> set (fr_cells g)" by (auto simp: cells_def)
  then have "fr_timestamp g = fr_timestamp f" "fr_insertion_offset g = 0" by (auto simp: fr_cells_def)
  moreover have "g \<notin> set fs" if "fr_insertion_offset f \<noteq> 0"
    using knowledge_ordered [OF S k t] fs calculation that by (auto simp: insertions_in_order_def)
  ultimately show ?thesis using g(1) fs by auto
qed

lemma old_bytes_cells:
  assumes t: "tracks base log s"
  shows "cells (filter (was_visible s v) (sn_fragments s)) = map fst (filter snd (old_cells_of v base log))"
proof -
  obtain xs us where r: "run base log = (xs, us)" by fastforce
  have ok: "um_ok (sn_undo_map s)" "low s" "um_represents (sn_undo_map s) us" "map plain (flagged (sn_fragments s)) = xs"
    using t by (simp_all add: tracks_def buffer_ok_def r)
  note was = was_visible_shown [OF ok(1-3), of v]
  have "map fst (filter snd (view (\<lambda>x. seen_cell v (fst x)) (was_shown us v) ys)) = map fst (filter (was_shown us v) ys)" for ys
    by (induction ys) (auto simp: was_shown_def)
  moreover have "map fst (filter (was_shown us v) (map plain (flagged fs))) = cells (filter (was_visible s v) fs)" for fs
  proof (induction fs)
    case (Cons f fs)
    have "map fst (filter (was_shown us v) (map plain (map (\<lambda>c. (c, fr_mark f)) cs))) = (if was_visible s v f then cs else [])"
      if "set cs \<subseteq> set (fr_cells f)" for cs
      using that was [of f] by (induction cs) (auto simp: fr_cells_def plain_def)
    then show ?case using Cons by (simp add: comp_def)
  qed simp
  ultimately show ?thesis by (simp only: old_cells_of_def r prod.case flip: ok(4))
qed

lemma vcells_flags: "map fst (filter snd (cell_flags fs)) = vcells fs"
  by (induction fs) (auto simp: comp_def)

lemma earlier_text:
  assumes S: "sent_ok base S" and k: "knowledge base S v log" "knowledge base S w log'" and sub: "set log \<subseteq> set log'"
    and t: "tracks base log s" "tracks base log' s'"
  shows "old_bytes (texts_of base log') s' v (sn_fragments s') = sn_visible_text s"
proof -
  have L: "causal log'" "valid_run log' (base_state base)" "causal log" "set log \<subseteq> S" "set log' \<subseteq> S"
    using k by (simp_all add: knowledge_def)
  have closed: "\<forall>A \<in> set log. \<forall>B \<in> set log'. knows A B \<longrightarrow> B \<in> set log" using k(1) L(5) by (auto simp: knowledge_def)
  let ?R = "filter (\<lambda>A. A \<notin> set log) log'"
  have "\<forall>A \<in> set ?R. \<not> vclock_observed v (op_timestamp A)" using k(1) L(5) by (auto simp: knowledge_def)
  then have "old_cells_of v base (log @ ?R) = run_cells base log"
    using old_cells_later [of ?R v base log] old_cells_self [OF knowledge_observes [OF k(1)]] by simp
  moreover have "old_cells_of v base log' = old_cells_of v base (log @ ?R)"
    using run_prefix(1) [OF L(1,2,3) sub closed] by (simp add: old_cells_of_def)
  ultimately have shown: "cells (filter (was_visible s' v) (sn_fragments s')) = vcells (sn_fragments s)"
    using old_bytes_cells [OF t(2), of v] by (simp only: tracks_cells [OF t(1), symmetric] vcells_flags)
  have "texts_of base log' (fst c) = texts_of base log (fst c)" if "c \<in> set (vcells (sn_fragments s))" for c
  proof -
    have "c \<in> set (cells (sn_fragments s))" using that set_vcells by blast
    then have "c \<in> set (cells_of_run base log)"
      using tracks_cells [OF t(1)] cells_run_cells [of base log] by (metis fst_cell_flags)
    moreover from this have "c \<in> set (cells_of_run base log')" using sub by (auto simp: cells_of_run_mem)
    ultimately show ?thesis using texts_agree [OF S k(1,2)] by simp
  qed
  then have "cell_text (texts_of base log') (vcells (sn_fragments s)) = cell_text (texts_of base log) (vcells (sn_fragments s))"
    by (rule cell_text_cong)
  then show ?thesis using shown tracks_snapshot(1) [OF t(1)] by (simp add: old_bytes_def snapshot_ok_def)
qed

lemma edits_since_earlier:
  assumes "reachable base n" "net_step\<^sup>*\<^sup>* n n'"
    and "vclock_observed_all (bu_version (nw_replicas n' i)) (bu_version (nw_replicas n j))"
  obtains es where "edits_since debug rid (bu_snapshot (nw_replicas n' i)) (bu_version (nw_replicas n j)) = Some es"
    "patch_rel 0 0 es (sn_visible_text (bu_snapshot (nw_replicas n j))) (sn_visible_text (bu_snapshot (nw_replicas n' i)))"
    "patch_new_ok es" "has_edits_since (bu_snapshot (nw_replicas n' i)) (bu_version (nw_replicas n j)) = Some (es \<noteq> [])"
proof -
  let ?s = "bu_snapshot (nw_replicas n j)" and ?s' = "bu_snapshot (nw_replicas n' i)" and ?S = "set (nw_sent n')"
  obtain log where t: "tracks base log ?s" and k: "knowledge base ?S (sn_version ?s) log" and S: "sent_ok base ?S"
    by (rule earlier_knowledge [OF assms(1,2)])
  have r': "reachable base n'" using assms(2,1) by (induction rule: rtranclp_induct) (auto intro: reachable.step)
  obtain log' where t': "tracks base log' ?s'" and k': "knowledge base ?S (sn_version ?s') log'"
    using earlier_knowledge [OF r' rtranclp.rtrancl_refl, of i] by blast
  have "A \<in> set log'" if "A \<in> set log" for A
    using that k k' observed_all_trans [OF assms(3), of "op_timestamp A"] by (auto simp: knowledge_def)
  then have sub: "set log \<subseteq> set log'" by blast
  note same = earlier_text [OF S k k' sub t t']
  note env = tracks_env [OF t', of "sn_version ?s"]
  show thesis
  proof (cases "sn_version ?s = sn_version ?s'")
    case True
    then have "sn_visible_text ?s = sn_visible_text ?s'" using same earlier_text [OF S k' k' subset_refl t' t'] by simp
    then show thesis using True
      by (intro that [of "[]"])
        (simp_all add: edits_since_def edits_since_in_range_def anchored_edits_since_in_range_def has_edits_since_def patch_new_ok_def)
  next
    case False
    have first: "\<forall>f fs. sn_fragments ?s' = f # fs \<longrightarrow> fr_insertion_offset f = 0" using tracks_first [OF S k' t'] by blast
    from edits_since_bytes [where debug = debug and rid = rid, OF env first False] obtain es where
      "edits_since debug rid ?s' (sn_version ?s) = Some es" "patch_rel 0 0 es (sn_visible_text ?s) (sn_visible_text ?s')"
      "patch_new_ok es" "es = [] \<longleftrightarrow> (\<forall>f \<in> set (sn_fragments ?s'). was_visible ?s' (sn_version ?s) f = fr_visible f)"
      unfolding same by blast
    moreover from this have "has_edits_since ?s' (sn_version ?s) = Some (es \<noteq> [])"
      using has_edits_since_was [OF env False] by simp
    ultimately show thesis by (intro that)
  qed
qed

section \<open>Properties\<close>

text \<open>C9: What changed since a version.  Take the version of any replica at any state of a network, and any replica, then or
  later, that has observed it: \<open>edits_since\<close> returns, in debug and in release builds, the edits of a patch from
  the text of the former at that time to the text of the latter, separated as \<open>Patch::new\<close> asserts; there are
  edits exactly when \<open>has_edits_since\<close> says so.\<close>

theorem edits_since_patch:
  assumes "reachable base n" "net_step\<^sup>*\<^sup>* n n'"
    and "vclock_observed_all (bu_version (nw_replicas n' i)) (bu_version (nw_replicas n j))"
  shows "\<exists>es. edits_since debug rid (bu_snapshot (nw_replicas n' i)) (bu_version (nw_replicas n j)) = Some es \<and>
    patch_rel 0 0 es (sn_visible_text (bu_snapshot (nw_replicas n j))) (sn_visible_text (bu_snapshot (nw_replicas n' i))) \<and>
    patch_new_ok es \<and> has_edits_since (bu_snapshot (nw_replicas n' i)) (bu_version (nw_replicas n j)) = Some (es \<noteq> [])"
  using edits_since_earlier [OF assms, of debug rid] by blast

text \<open>C14: Going back to an older version.  For sorted offsets of the current text \<open>offsets_to_version\<close> returns offsets of
  the older text, in order, one for each; an offset before a byte that was not inserted since goes to the place
  before the same byte.\<close>

theorem offsets_to_version_bytes:
  assumes "reachable base n" "net_step\<^sup>*\<^sup>* n n'"
    and "vclock_observed_all (bu_version (nw_replicas n' i)) (bu_version (nw_replicas n j))"
    and "sorted ps" "\<forall>p \<in> set ps. p \<le> length (sn_visible_text (bu_snapshot (nw_replicas n' i)))"
  shows "\<exists>es qs. edits_since debug rid (bu_snapshot (nw_replicas n' i)) (bu_version (nw_replicas n j)) = Some es \<and>
    offsets_to_version debug rid (bu_snapshot (nw_replicas n' i)) ps (bu_version (nw_replicas n j)) = Some qs \<and>
    length qs = length ps \<and> sorted qs \<and> (\<forall>q \<in> set qs. q \<le> length (sn_visible_text (bu_snapshot (nw_replicas n j)))) \<and>
    (\<forall>k < length ps. ps ! k < length (sn_visible_text (bu_snapshot (nw_replicas n' i))) \<longrightarrow>
      (\<forall>e \<in> set es. \<not> (rng_start (e_new e) \<le> ps ! k \<and> ps ! k < rng_end (e_new e))) \<longrightarrow>
      qs ! k < length (sn_visible_text (bu_snapshot (nw_replicas n j))) \<and>
      sn_visible_text (bu_snapshot (nw_replicas n j)) ! (qs ! k) = sn_visible_text (bu_snapshot (nw_replicas n' i)) ! (ps ! k))"
proof -
  obtain es where es: "edits_since debug rid (bu_snapshot (nw_replicas n' i)) (bu_version (nw_replicas n j)) = Some es"
      "patch_rel 0 0 es (sn_visible_text (bu_snapshot (nw_replicas n j))) (sn_visible_text (bu_snapshot (nw_replicas n' i)))"
    by (rule edits_since_earlier [OF assms(1-3)])
  let ?qs = "map (to_old es 0 0) ps"
  have "sorted ?qs"
    using assms(4,5) to_old_mono [OF es(2)] by (simp add: sorted_iff_nth_mono)
  moreover have "offsets_to_version debug rid (bu_snapshot (nw_replicas n' i)) ps (bu_version (nw_replicas n j)) = Some ?qs"
    using es(1) map_offsets_map [OF assms(4)] by (simp add: offsets_to_version_def)
  ultimately show ?thesis
    using es(1) assms(5) to_old_bounds [OF es(2)] to_old_char [OF es(2)] by (intro exI [of _ es] exI [of _ ?qs]) simp
qed

section \<open>Witnesses\<close>

text \<open>Replica 8 inserts a byte between the two; the version is that of replica 9 at the start.\<close>

lemma sample_since:
  obtains n where "net_step\<^sup>*\<^sup>* sample_start n" "sn_visible_text (bu_snapshot (nw_replicas n 8)) = ''aXb''"
    "vclock_observed_all (bu_version (nw_replicas n 8)) (bu_version (nw_replicas sample_start 9))"
proof -
  obtain b e where b: "net_step sample_start (put_replica 8 b [EditOp e] sample_start)"
      "sn_visible_text (bu_snapshot b) = splice 0 [((1, 1), ''X'')] ''ab''"
      "bu_version b = vclock_observe (vclock_observe vclock_new base_insertion) (eo_timestamp e)"
    by (rule sample_edit [OF sample_start_reachable refl, of 1 "''X''" 8]) simp_all
  have wf: "vclock_wf (vclock_observe vclock_new base_insertion)" by (intro vclock_wf_observe) (simp add: vclock_wf_def vclock_new_def)
  have "vclock_observed_all (bu_version b) (bu_version (nw_replicas sample_start 9))"
    unfolding b(3) sample_start_fields vclock_observed_all_iff [OF wf] by (simp add: at_observe)
  moreover have "sn_visible_text (bu_snapshot b) = ''aXb''" using b(2) by simp
  ultimately show thesis
    using b(1) by (intro that [of "put_replica 8 b [EditOp e] sample_start"]) auto
qed

theorem edits_since_patch_witness:
  "\<exists>n es. net_step\<^sup>*\<^sup>* sample_start n \<and>
    edits_since True 1 (bu_snapshot (nw_replicas n 8)) (bu_version (nw_replicas sample_start 9)) = Some es \<and>
    patch_rel 0 0 es ''ab'' ''aXb'' \<and> es \<noteq> [] \<and>
    has_edits_since (bu_snapshot (nw_replicas n 8)) (bu_version (nw_replicas sample_start 9)) = Some True"
proof -
  obtain n where n: "net_step\<^sup>*\<^sup>* sample_start n" "sn_visible_text (bu_snapshot (nw_replicas n 8)) = ''aXb''"
    "vclock_observed_all (bu_version (nw_replicas n 8)) (bu_version (nw_replicas sample_start 9))" by (rule sample_since)
  from edits_since_patch [OF sample_start_reachable n(1,3), of True 1] obtain es where es:
    "edits_since True 1 (bu_snapshot (nw_replicas n 8)) (bu_version (nw_replicas sample_start 9)) = Some es"
    "patch_rel 0 0 es ''ab'' ''aXb''"
    "has_edits_since (bu_snapshot (nw_replicas n 8)) (bu_version (nw_replicas sample_start 9)) = Some (es \<noteq> [])"
    by (auto simp: n(2) sample_start_fields)
  moreover from this(2) have "es \<noteq> []" by auto
  ultimately show ?thesis using n(1) by (intro exI [of _ n] exI [of _ es]) simp
qed

theorem offsets_to_version_bytes_witness:
  "\<exists>n qs. net_step\<^sup>*\<^sup>* sample_start n \<and>
    offsets_to_version False 1 (bu_snapshot (nw_replicas n 8)) [0, 1, 2, 3] (bu_version (nw_replicas sample_start 9)) = Some qs \<and>
    length qs = 4 \<and> sorted qs \<and> (\<forall>q \<in> set qs. q \<le> 2)"
proof -
  obtain n where n: "net_step\<^sup>*\<^sup>* sample_start n" "sn_visible_text (bu_snapshot (nw_replicas n 8)) = ''aXb''"
    "vclock_observed_all (bu_version (nw_replicas n 8)) (bu_version (nw_replicas sample_start 9))" by (rule sample_since)
  have "sorted [0, 1, 2, 3 :: nat]" "\<forall>p \<in> set [0, 1, 2, 3]. p \<le> length (sn_visible_text (bu_snapshot (nw_replicas n 8)))"
    by (simp_all add: n(2))
  from offsets_to_version_bytes [OF sample_start_reachable n(1,3) this, of False 1] obtain qs where
    "offsets_to_version False 1 (bu_snapshot (nw_replicas n 8)) [0, 1, 2, 3] (bu_version (nw_replicas sample_start 9)) = Some qs"
    "length qs = length [0, 1, 2, 3 :: nat]" "sorted qs"
    "\<forall>q \<in> set qs. q \<le> length (sn_visible_text (bu_snapshot (nw_replicas sample_start 9)))" by blast
  then show ?thesis using n(1) by (intro exI [of _ n] exI [of _ qs]) (simp add: sample_start_fields numeral_2_eq_2)
qed

end
