(* ===== verification/Zed_Buffer_Queries.thy ===== *)
theory Zed_Buffer_Queries
  imports Zed_Edits_Network
begin

text \<open>
  Queries of \<open>Buffer\<close> that rest on the index of insertions and on anchors (\<open>text.rs\<close>): the ranges that a
  transaction edited (\<open>edited_ranges_for_edit_ids\<close>) over byte offsets, and \<open>wait_for_anchors\<close>.
\<close>

section \<open>The ranges that edits touched\<close>

text \<open>A cursor moves to each fragment in turn; an id without a fragment gives no range.\<close>

fun fragment_ranges :: "fragment_cursor \<Rightarrow> locator list \<Rightarrow> (nat \<times> nat) list option" where
  "fragment_ranges c [] = Some []"
| "fragment_ranges c (fragment_id # ids) =
     (case fc_slice_id c fragment_id of
        None \<Rightarrow> None
      | Some (c, _) \<Rightarrow>
          (case fc_item c of
             None \<Rightarrow> fragment_ranges c ids
           | Some fragment \<Rightarrow>
               let start_offset = fc_start_visible c;
                   end_offset = start_offset + (if fr_visible fragment then fr_len fragment else 0)
               in map_option ((#) (start_offset, end_offset)) (fragment_ranges c ids)))"

text \<open>The adapter that combines adjacent ranges, with the range it holds back; the end of the input releases that.\<close>

fun combine_ranges :: "(nat \<times> nat) option \<Rightarrow> (nat \<times> nat) list \<Rightarrow> (nat \<times> nat) list" where
  "combine_ranges prev_range [] = (case prev_range of None \<Rightarrow> [] | Some p \<Rightarrow> [p])"
| "combine_ranges prev_range (r # rs) =
     (case prev_range of
        None \<Rightarrow> combine_ranges (Some r) rs
      | Some p \<Rightarrow> if snd p = fst r then combine_ranges (Some (fst p, snd r)) rs else p # combine_ranges (Some r) rs)"

text \<open>The conversion to a text dimension (here bytes) moves a cursor over the rope.\<close>

fun convert_ranges :: "string \<Rightarrow> nat \<Rightarrow> nat \<Rightarrow> (nat \<times> nat) list \<Rightarrow> (nat \<times> nat) list option" where
  "convert_ranges text offset position [] = Some []"
| "convert_ranges text offset position (r # rs) = do {
     (summary, offset) \<leftarrow> rope_summary text offset (fst r);
     let start = position + summary;
     (summary, offset) \<leftarrow> rope_summary text offset (snd r);
     let position = start + summary;
     rest \<leftarrow> convert_ranges text offset position rs;
     Some ((start, position) # rest) }"

definition edited_ranges_for_edit_ids :: "snapshot \<Rightarrow> lamport list \<Rightarrow> (nat \<times> nat) list option" where
  "edited_ranges_for_edit_ids s edit_ids = do {
     ids \<leftarrow> fragment_ids_for_edits s edit_ids;
     offset_ranges \<leftarrow> fragment_ranges \<lparr>fc_before = [], fc_rest = sn_fragments s\<rparr> ids;
     convert_ranges (sn_visible_text s) 0 0 (combine_ranges None offset_ranges) }"

definition edited_ranges_for_transaction :: "snapshot \<Rightarrow> transaction \<Rightarrow> (nat \<times> nat) list option" where
  "edited_ranges_for_transaction s t = edited_ranges_for_edit_ids s (tr_edit_ids t)"

definition edited_ranges_for_transaction_id :: "buffer \<Rightarrow> lamport \<Rightarrow> (nat \<times> nat) list option" where
  "edited_ranges_for_transaction_id b transaction_id =
     (case hi_transaction (bu_history b) transaction_id of
        None \<Rightarrow> Some []
      | Some t \<Rightarrow> edited_ranges_for_transaction (bu_snapshot b) t)"

section \<open>Waiting for anchors\<close>

text \<open>Like \<open>wait_for_edits\<close>, with the timestamps of the anchors; the channel that each could wait on is an argument.\<close>

fun bu_wait_for_anchors :: "(anchor \<times> nat) list \<Rightarrow> buffer \<Rightarrow> buffer \<times> nat list" where
  "bu_wait_for_anchors [] b = (b, [])"
| "bu_wait_for_anchors ((a, tx) # as) b =
     (if \<not> vclock_observed (bu_version b) (an_timestamp a) \<and> \<not> anchor_is_max a \<and> \<not> anchor_is_min a then
        let (b, rxs) = bu_wait_for_anchors as (b\<lparr>bu_edit_id_resolvers := bu_edit_id_resolvers b @ [(an_timestamp a, tx)]\<rparr>)
        in (b, tx # rxs)
      else bu_wait_for_anchors as b)"

section \<open>The ranges of sorted fragments\<close>

text \<open>What the fragments with the given ids occupy in the visible text.\<close>

fun id_ranges :: "locator set \<Rightarrow> nat \<Rightarrow> fragment list \<Rightarrow> (nat \<times> nat) list" where
  "id_ranges I pos [] = []"
| "id_ranges I pos (f # fs) =
     (if fr_id f \<in> I then [(pos, pos + visible_len [f])] else []) @ id_ranges I (pos + visible_len [f]) fs"

lemma id_ranges_skip: "\<forall>f \<in> set X. fr_id f \<notin> I \<Longrightarrow> id_ranges I pos (X @ fs) = id_ranges I (pos + visible_len X) fs"
  by (induction X arbitrary: pos) (simp_all add: add.assoc)

lemma id_ranges_cong: "\<forall>f \<in> set fs. fr_id f \<in> I \<longleftrightarrow> fr_id f \<in> J \<Longrightarrow> id_ranges I pos fs = id_ranges J pos fs"
  by (induction fs arbitrary: pos) simp_all

lemma fragment_ranges_ids:
  "sorted_wrt (<) (map fr_id (B @ R)) \<Longrightarrow> sorted_wrt (<) ids \<Longrightarrow> set ids \<subseteq> fr_id ` set R \<Longrightarrow>
     fragment_ranges \<lparr>fc_before = B, fc_rest = R\<rparr> ids = Some (id_ranges (set ids) (visible_len B) R)"
proof (induction ids arbitrary: B R)
  case Nil
  then show ?case using id_ranges_skip [of R "{}" _ "[]"] by simp
next
  case (Cons i ids)
  from Cons.prems(3) obtain f where "f \<in> set R" "fr_id f = i" by auto
  then obtain X Y where R: "R = X @ f # Y" and i: "i = fr_id f" by (metis split_list)
  have srt: "sorted_wrt (<) (map fr_id (B @ X @ f # Y))" using Cons.prems(1) R by simp
  then have less: "\<forall>x \<in> set X. fr_id x < fr_id f" "\<forall>b \<in> set B. fr_id b < fr_id f" "\<forall>y \<in> set Y. fr_id f < fr_id y"
    by (auto simp: sorted_wrt_append)
  have later: "\<forall>j \<in> set ids. fr_id f < j" using Cons.prems(2) i by simp
  have take: "takeWhile (\<lambda>g. fr_id g < fr_id f) R = X" "dropWhile (\<lambda>g. fr_id g < fr_id f) R = f # Y"
    using less(1) by (simp_all add: R takeWhile_append dropWhile_append)
  have "\<not> (B \<noteq> [] \<and> fr_id f < fr_id (last B))" using less(2) last_in_set [of B] less_asym by blast
  then have slice: "fc_slice_id \<lparr>fc_before = B, fc_rest = R\<rparr> i = Some (\<lparr>fc_before = B @ X, fc_rest = f # Y\<rparr>, X)"
    by (simp add: fc_slice_id_def take i)
  have sub: "set ids \<subseteq> fr_id ` set (f # Y)"
  proof
    fix j assume j: "j \<in> set ids"
    then obtain g where "g \<in> set R" "fr_id g = j" using Cons.prems(3) by auto
    then show "j \<in> fr_id ` set (f # Y)" using less(1) later j R by fastforce
  qed
  have srt': "sorted_wrt (<) (map fr_id ((B @ X) @ f # Y))" using srt by simp
  have ids: "sorted_wrt (<) ids" using Cons.prems(2) by simp
  have "id_ranges (insert (fr_id f) (set ids)) p Y = id_ranges (set ids) p Y" for p
    by (rule id_ranges_cong) (use less(3) in auto)
  then have "id_ranges (set (i # ids)) (visible_len (B @ X)) (f # Y) =
      (visible_len (B @ X), visible_len (B @ X) + visible_len [f]) # id_ranges (set ids) (visible_len (B @ X) + visible_len [f]) Y"
    by (simp add: i)
  moreover have "id_ranges (set ids) p (f # Y) = id_ranges (set ids) (p + visible_len [f]) Y" for p
    using later by auto
  moreover have "\<forall>x \<in> set X. fr_id x \<notin> set (i # ids)" using less(1) later i by force
  ultimately show ?case
    using slice Cons.IH [OF srt' ids sub] id_ranges_skip [of X "set (i # ids)" "visible_len B" "f # Y"]
    by (simp add: R fc_item_def fc_start_visible_def add.assoc)
qed

text \<open>Ranges in order: each ends before the next starts, or where it starts.\<close>

definition ranges_from :: "nat \<Rightarrow> (nat \<times> nat) list \<Rightarrow> bool" where
  "ranges_from n rs \<longleftrightarrow> (\<forall>r \<in> set rs. n \<le> fst r \<and> fst r \<le> snd r) \<and> sorted_wrt (\<lambda>r q. snd r \<le> fst q) rs"

lemma ranges_from_simps [simp]:
  "ranges_from n []" "ranges_from n (r # rs) \<longleftrightarrow> n \<le> fst r \<and> fst r \<le> snd r \<and> ranges_from (snd r) rs"
  by (auto simp: ranges_from_def intro: order_trans)

lemma ranges_from_mono: "ranges_from n rs \<Longrightarrow> m \<le> n \<Longrightarrow> ranges_from m rs"
  by (auto simp: ranges_from_def)

lemma id_ranges_from: "ranges_from pos (id_ranges I pos fs)"
proof (induction fs arbitrary: pos)
  case (Cons f fs)
  have "ranges_from (pos + visible_len [f]) (id_ranges I (pos + visible_len [f]) fs)" by (rule Cons.IH)
  then show ?case by (auto intro: ranges_from_mono)
qed simp

definition in_ranges_at :: "(nat \<times> nat) list \<Rightarrow> nat \<Rightarrow> bool" where
  "in_ranges_at rs p \<longleftrightarrow> (\<exists>r \<in> set rs. fst r \<le> p \<and> p < snd r)"

lemma combine_ranges_ok:
  "ranges_from n (case prev of None \<Rightarrow> rs | Some p \<Rightarrow> p # rs) \<Longrightarrow>
     ranges_from n (combine_ranges prev rs) \<and> sorted_wrt (\<lambda>r q. snd r < fst q) (combine_ranges prev rs) \<and>
     (\<forall>p. in_ranges_at (combine_ranges prev rs) p = in_ranges_at (case prev of None \<Rightarrow> rs | Some p \<Rightarrow> p # rs) p)"
proof (induction rs arbitrary: n prev)
  case Nil
  then show ?case by (cases prev) auto
next
  case (Cons r rs)
  show ?case
  proof (cases prev)
    case None
    then show ?thesis using Cons.IH [of n "Some r"] Cons.prems by simp
  next
    case (Some p)
    have p: "n \<le> fst p" "fst p \<le> snd p" "snd p \<le> fst r" "fst r \<le> snd r" "ranges_from (snd r) rs"
      using Cons.prems Some by simp_all
    show ?thesis
    proof (cases "snd p = fst r")
      case True
      have "ranges_from n ((fst p, snd r) # rs)" using p True by auto
      moreover have "in_ranges_at ((fst p, snd r) # rs) k = in_ranges_at (p # r # rs) k" for k
        using p True by (auto simp: in_ranges_at_def)
      ultimately show ?thesis using Cons.IH [of n "Some (fst p, snd r)"] Some True by simp
    next
      case False
      have IH: "ranges_from (fst r) (combine_ranges (Some r) rs)" "sorted_wrt (\<lambda>r q. snd r < fst q) (combine_ranges (Some r) rs)"
          "\<And>k. in_ranges_at (combine_ranges (Some r) rs) k = in_ranges_at (r # rs) k"
        using Cons.IH [of "fst r" "Some r"] p by simp_all
      have "\<forall>q \<in> set (combine_ranges (Some r) rs). snd p < fst q" using IH(1) p(3) False by (force simp: ranges_from_def)
      then show ?thesis using IH p False Some
        by (auto simp: in_ranges_at_def intro: ranges_from_mono)
    qed
  qed
qed

lemma convert_ranges_same:
  "ranges_from n rs \<Longrightarrow> \<forall>r \<in> set rs. snd r \<le> length t \<Longrightarrow> convert_ranges t n n rs = Some rs"
  by (induction rs arbitrary: n) (auto simp: rope_summary_def)

lemma id_ranges_bound: "r \<in> set (id_ranges I pos fs) \<Longrightarrow> snd r \<le> pos + visible_len fs"
  by (induction fs arbitrary: pos) (force split: if_splits)+

lemma id_ranges_fragment: "fr_id f \<in> I \<Longrightarrow> (pos + visible_len B, pos + visible_len B + visible_len [f]) \<in> set (id_ranges I pos (B @ f # R))"
proof (induction B arbitrary: pos)
  case (Cons a B)
  then show ?case using Cons.IH [of "pos + visible_len [a]"] by (simp add: add.assoc)
qed simp

lemma combine_ranges_bound:
  "r \<in> set (combine_ranges prev rs) \<Longrightarrow> \<exists>q \<in> set (case prev of None \<Rightarrow> rs | Some p \<Rightarrow> p # rs). snd r = snd q"
  by (induction prev rs rule: combine_ranges.induct) (fastforce split: option.splits if_splits)+

lemma ranges_from_strict: "ranges_from n rs \<Longrightarrow> r \<in> set rs \<Longrightarrow> fst r \<le> snd r"
  by (simp add: ranges_from_def)

lemma visible_cell:
  "p < visible_len fs \<Longrightarrow> \<exists>B f R. fs = B @ f # R \<and> fr_timestamp f = fst (vcells fs ! p) \<and>
     visible_len B \<le> p \<and> p < visible_len B + visible_len [f]"
proof (induction fs arbitrary: p)
  case (Cons g fs)
  show ?case
  proof (cases "p < visible_len [g]")
    case True
    then have "vcells (g # fs) ! p \<in> set (fr_cells g)" by (auto simp: nth_append split: if_splits)
    then have "fr_timestamp g = fst (vcells (g # fs) ! p)" by (auto simp: fr_cells_def)
    then show ?thesis using True by (intro exI [of _ "[]"] exI [of _ g] exI [of _ fs]) simp
  next
    case False
    then obtain B f R where "fs = B @ f # R" "fr_timestamp f = fst (vcells fs ! (p - visible_len [g]))"
        "visible_len B \<le> p - visible_len [g]" "p - visible_len [g] < visible_len B + visible_len [f]"
      using Cons.IH [of "p - visible_len [g]"] Cons.prems False by fastforce
    then show ?thesis using False
      by (intro exI [of _ "g # B"] exI [of _ f] exI [of _ R]) (auto simp: nth_append split: if_splits)
  qed
qed simp

lemma edited_ranges_bytes:
  assumes ok: "snapshot_ok ins s" "slices_ok (sn_insertion_slices s) (sn_fragments s)"
  obtains rs where "edited_ranges_for_edit_ids s edits = Some rs" "sorted_wrt (\<lambda>r q. snd r < fst q) rs"
    "\<forall>r \<in> set rs. fst r \<le> snd r \<and> snd r \<le> length (sn_visible_text s)"
    "\<forall>p < length (sn_visible_text s). fst (vcells (sn_fragments s) ! p) \<in> set edits - {base_insertion} \<longrightarrow> in_ranges_at rs p"
proof -
  let ?fs = "sn_fragments s"
  have srt: "sorted_wrt (<) (map fr_id ([] @ ?fs))" and len: "length (sn_visible_text s) = visible_len ?fs"
    using ok(1) by (simp_all add: snapshot_ok_def)
  obtain ids where ids: "fragment_ids_for_edits s edits = Some ids" "sorted_wrt (<) ids" "set ids \<subseteq> fr_id ` set ?fs"
      "\<forall>f \<in> set ?fs. (touching f - {base_insertion}) \<inter> set edits \<noteq> {} \<longrightarrow> fr_id f \<in> set ids"
    using touched_ids [OF ok, of edits] by blast
  let ?ir = "id_ranges (set ids) 0 ?fs"
  let ?rs = "combine_ranges None ?ir"
  have frs: "fragment_ranges \<lparr>fc_before = [], fc_rest = ?fs\<rparr> ids = Some ?ir"
    using fragment_ranges_ids [OF srt ids(2,3)] by simp
  have rs: "ranges_from 0 ?rs" "sorted_wrt (\<lambda>r q. snd r < fst q) ?rs" "\<And>p. in_ranges_at ?rs p = in_ranges_at ?ir p"
    using combine_ranges_ok [where n = 0 and prev = None and rs = ?ir] id_ranges_from [of 0 "set ids" ?fs] by simp_all
  have bound: "\<forall>r \<in> set ?rs. snd r \<le> length (sn_visible_text s)"
    using combine_ranges_bound [where prev = None and rs = ?ir] id_ranges_bound [of _ "set ids" 0 ?fs] by (fastforce simp: len)
  have "in_ranges_at ?rs p" if p: "p < visible_len ?fs" "fst (vcells ?fs ! p) \<in> set edits - {base_insertion}" for p
  proof -
    obtain B f R where f: "?fs = B @ f # R" "fr_timestamp f = fst (vcells ?fs ! p)" "visible_len B \<le> p"
        "p < visible_len B + visible_len [f]"
      using visible_cell [OF p(1)] by blast
    then have "fr_id f \<in> set ids" using ids(4) p(2) by (auto simp: touching_def)
    then have "(visible_len B, visible_len B + visible_len [f]) \<in> set ?ir"
      using id_ranges_fragment [of f "set ids" 0 B R] f(1) by simp
    then show ?thesis using f(3,4) by (subst rs(3)) (force simp: in_ranges_at_def)
  qed
  then show thesis
    using ids(1) frs convert_ranges_same [OF rs(1) bound] rs(2) ranges_from_strict [OF rs(1)] bound
    by (intro that [of ?rs]) (simp_all add: edited_ranges_for_edit_ids_def len)
qed

section \<open>Properties\<close>

text \<open>C15: The ranges of edits.  In every reachable network state and for any edit ids, the query returns ranges of the
  replica's text that are in order and apart from each other, and every visible byte that one of the edits
  inserted lies in a range.\<close>

theorem edited_ranges_cover:
  assumes "reachable base n"
  shows "\<exists>rs. edited_ranges_for_edit_ids (bu_snapshot (nw_replicas n i)) edits = Some rs \<and>
    sorted_wrt (\<lambda>r q. snd r < fst q) rs \<and>
    (\<forall>r \<in> set rs. fst r \<le> snd r \<and> snd r \<le> length (sn_visible_text (bu_snapshot (nw_replicas n i)))) \<and>
    (\<forall>p < length (sn_visible_text (bu_snapshot (nw_replicas n i))).
      fst (vcells (sn_fragments (bu_snapshot (nw_replicas n i))) ! p) \<in> set edits - {base_insertion} \<longrightarrow> in_ranges_at rs p)"
proof -
  obtain log where "tracks base log (bu_snapshot (nw_replicas n i))"
    by (rule earlier_knowledge [OF assms rtranclp.rtrancl_refl])
  then have "snapshot_ok (texts_of base log) (bu_snapshot (nw_replicas n i))"
      "slices_ok (sn_insertion_slices (bu_snapshot (nw_replicas n i))) (sn_fragments (bu_snapshot (nw_replicas n i)))"
    by (simp_all add: tracks_def buffer_ok_def)
  then show ?thesis by (rule edited_ranges_bytes [where edits = edits]) (intro exI conjI)
qed

text \<open>The edit of replica 8 inserted the byte at offset 1; with the timestamps of all fragments given it is in a range.\<close>

theorem edited_ranges_cover_witness:
  "\<exists>n rs. reachable ''ab'' n \<and> sn_visible_text (bu_snapshot (nw_replicas n 8)) = ''aXb'' \<and>
     edited_ranges_for_edit_ids (bu_snapshot (nw_replicas n 8)) (map fr_timestamp (sn_fragments (bu_snapshot (nw_replicas n 8)))) = Some rs \<and>
     in_ranges_at rs 1"
proof -
  obtain n where n: "net_step\<^sup>*\<^sup>* sample_start n" "sn_visible_text (bu_snapshot (nw_replicas n 8)) = ''aXb''"
    "vclock_observed_all (bu_version (nw_replicas n 8)) (bu_version (nw_replicas sample_start 9))" by (rule sample_since)
  have r: "reachable ''ab'' n" using n(1) sample_start_reachable by (induction rule: rtranclp_induct) (auto intro: reachable.step)
  let ?s = "bu_snapshot (nw_replicas n 8)"
  let ?c = "vcells (sn_fragments ?s) ! 1"
  obtain log where t: "tracks ''ab'' log ?s" and k: "knowledge ''ab'' (set (nw_sent n)) (bu_version (nw_replicas n 8)) log"
    and S: "sent_ok ''ab'' (set (nw_sent n))" by (rule earlier_knowledge [OF r rtranclp.rtrancl_refl])
  have sent: "\<forall>e. EditOp e \<in> set log \<longrightarrow> eo_timestamp e \<noteq> base_insertion"
    using sent_okD(3) [OF S] k by (force simp: knowledge_def)
  note ok = tracks_snapshot(1) [OF t]
  have shown: "''aXb'' = cell_text (texts_of ''ab'' log) (vcells (sn_fragments ?s))" using ok n(2) by (simp add: snapshot_ok_def)
  then have "length (vcells (sn_fragments ?s)) = 3" by (metis cell_text_simps(3) length_Cons list.size(3) eval_nat_numeral(3) One_nat_def Suc_1)
  then have c: "texts_of ''ab'' log (fst ?c) ! snd ?c = CHR ''X''" "?c \<in> set (vcells (sn_fragments ?s))"
    using arg_cong [OF shown, of "\<lambda>t. t ! 1"] by (simp_all add: cell_text_def split_beta)
  have base: "texts_of ''ab'' log base_insertion = ''ab''" using texts_of_old [OF sent] by simp
  from c(2) obtain f where f: "f \<in> set (sn_fragments ?s)" "?c \<in> set (fr_cells f)" using set_vcells by (auto simp: cells_def)
  then have "fr_timestamp f = fst ?c" "snd ?c < length (texts_of ''ab'' log (fst ?c))"
    using ok by (auto simp: snapshot_ok_def fr_fits_def fr_cells_def)
  then have "fst ?c \<noteq> base_insertion" "fst ?c \<in> set (map fr_timestamp (sn_fragments ?s))"
    using c(1) f(1) by (auto simp: base less_Suc_eq numeral_2_eq_2 intro: image_eqI [where x = f])
  then show ?thesis
    using edited_ranges_cover [OF r, of 8 "map fr_timestamp (sn_fragments ?s)"] r n(2) by auto
qed

end
