(* ===== verification/Zed_Select.thy ===== *)
theory Zed_Select
  imports Zed_Prelude "HOL-Library.Monad_Syntax"
begin

text \<open>
  \<open>nth_set_bit\<close> of \<open>crates/rope/src/chunk.rs\<close>: the position of the n-th bit of a word that is set, found without
  branches from the counts of set bits in fields of 2, 4, 8 and 16 bits, which are computed in parallel.
  The counts are proved field by field, on the base \<open>2 ^ k\<close> digits of the words.
\<close>

section \<open>The code\<close>

text \<open>A subtraction of unsigned integers that would be negative panics in builds with overflow checks and wraps in others.\<close>

definition sub_word :: "bool \<Rightarrow> 'l::len word \<Rightarrow> 'l word \<Rightarrow> 'l word option" where
  "sub_word debug a b = (if debug \<and> a < b then None else Some (a - b))"

text \<open>\<open>count_ones\<close>, \<open>trailing_zeros\<close> and \<open>leading_zeros\<close> of the unsigned integer types.\<close>

definition count_ones :: "'l::len word \<Rightarrow> nat" where
  "count_ones w = length (filter (bit w) [0..<LENGTH('l)])"

definition trailing_zeros :: "'l::len word \<Rightarrow> nat" where
  "trailing_zeros w = length (takeWhile (\<lambda>i. \<not> bit w i) [0..<LENGTH('l)])"

definition leading_zeros :: "'l::len word \<Rightarrow> nat" where
  "leading_zeros w = length (takeWhile (\<lambda>i. \<not> bit w i) (rev [0..<LENGTH('l)]))"

text \<open>One step of the branchless select, on the number \<open>t\<close> of set bits in the upper half of the window.\<close>

definition select_step :: "bool \<Rightarrow> u64 \<Rightarrow> nat \<Rightarrow> u64 \<times> u64 \<Rightarrow> (u64 \<times> u64) option" where
  "select_step debug t k = (\<lambda>(s, n). do {
     s \<leftarrow> sub_word debug s (drop_bit k ((t - n) AND 256));
     n \<leftarrow> sub_word debug n (t AND drop_bit 8 (t - n));
     Some (s, n) })"

definition nth_set_bit_u64 :: "bool \<Rightarrow> u64 \<Rightarrow> u64 \<Rightarrow> u64 option" where
  "nth_set_bit_u64 debug v n =
     (let v = word_reverse v;
          s = 64;
          a = v - (drop_bit 1 v AND (- 1 div 3));
          b = (a AND (- 1 div 5)) + (drop_bit 2 a AND (- 1 div 5));
          c = (b + drop_bit 4 b) AND (- 1 div 0x11);
          d = (c + drop_bit 8 c) AND (- 1 div 0x101)
      in do {
        (s, n) \<leftarrow> select_step debug (drop_bit 32 d + drop_bit 48 d) 3 (s, n);
        (s, n) \<leftarrow> select_step debug (drop_bit (unat (s - 16)) d AND 0xff) 4 (s, n);
        (s, n) \<leftarrow> select_step debug (drop_bit (unat (s - 8)) c AND 0xf) 5 (s, n);
        (s, n) \<leftarrow> select_step debug (drop_bit (unat (s - 4)) b AND 0x7) 6 (s, n);
        (s, n) \<leftarrow> select_step debug (drop_bit (unat (s - 2)) a AND 0x3) 7 (s, n);
        s \<leftarrow> sub_word debug s (drop_bit 8 (((drop_bit (unat (s - 1)) v AND 0x1) - n) AND 256));
        Some (65 - s - 1) })"

text \<open>The code's \<open>as u64\<close> of a \<open>u128\<close> truncates.\<close>

definition nth_set_bit :: "bool \<Rightarrow> u128 \<Rightarrow> nat \<Rightarrow> nat option" where
  "nth_set_bit debug v n =
     (let low = ucast v :: u64;
          high = ucast (drop_bit 64 v) :: u64;
          low_count = count_ones low
      in if low_count < n then map_option (\<lambda>r. 64 + unat r) (nth_set_bit_u64 debug high (of_nat (n - low_count)))
         else map_option unat (nth_set_bit_u64 debug low (of_nat n)))"

section \<open>Digits\<close>

definition dig :: "nat \<Rightarrow> nat \<Rightarrow> nat \<Rightarrow> nat" where
  "dig k x i = take_bit k (drop_bit (k * i) x)"

lemma dig_0: "dig k x 0 = x mod 2 ^ k"
  by (simp add: dig_def take_bit_eq_mod)

lemma dig_Suc: "dig k x (Suc i) = dig k (x div 2 ^ k) i"
  by (simp add: dig_def drop_bit_eq_div power_add div_mult2_eq add.commute)

lemma dig_less: "dig k x i < 2 ^ k"
  by (simp add: dig_def take_bit_eq_mod)

lemma dig_add:
  "\<forall>i. dig k x i + dig k y i < 2 ^ k \<Longrightarrow> dig k (x + y) i = dig k x i + dig k y i"
proof (induction i arbitrary: x y)
  case 0
  then have "x mod 2 ^ k + y mod 2 ^ k < 2 ^ k" by (auto dest!: spec [of _ 0] simp: dig_0)
  then show ?case unfolding dig_0 by (subst mod_add_eq [symmetric]) (rule mod_less)
next
  case (Suc i)
  have "x mod 2 ^ k + y mod 2 ^ k < 2 ^ k" using Suc.prems by (auto dest!: spec [of _ 0] simp: dig_0)
  then have "(x + y) div 2 ^ k = x div 2 ^ k + y div 2 ^ k" by (subst div_add1_eq) simp
  moreover have "\<forall>i. dig k (x div 2 ^ k) i + dig k (y div 2 ^ k) i < 2 ^ k" using Suc.prems by (simp flip: dig_Suc)
  ultimately show ?case using Suc.IH by (simp add: dig_Suc)
qed

lemma dig_le: "0 < k \<Longrightarrow> \<forall>i. dig k y i \<le> dig k x i \<Longrightarrow> y \<le> x"
proof (induction y arbitrary: x rule: less_induct)
  case (less y)
  show ?case
  proof (cases "y = 0")
    case False
    have k: "(1::nat) < 2 ^ k" using one_less_power [of "2::nat" k] less.prems(1) by simp
    then have "y div 2 ^ k \<le> x div 2 ^ k" using less False by (metis dig_Suc div_less_dividend neq0_conv)
    moreover have "y mod 2 ^ k \<le> x mod 2 ^ k" using less.prems(2) by (metis dig_0)
    ultimately have "2 ^ k * (y div 2 ^ k) + y mod 2 ^ k \<le> 2 ^ k * (x div 2 ^ k) + x mod 2 ^ k"
      by (intro add_mono mult_le_mono) simp_all
    then show ?thesis by simp
  qed simp
qed

lemma split_diff:
  fixes x y b :: nat
  assumes "y mod b \<le> x mod b" "y div b \<le> x div b"
  shows "x - y = b * (x div b - y div b) + (x mod b - y mod b)"
proof -
  have "b * (y div b) \<le> b * (x div b)" using assms(2) by simp
  then have "(b * (x div b) + x mod b) - (b * (y div b) + y mod b) = b * (x div b - y div b) + (x mod b - y mod b)"
    using assms(1) by (simp add: diff_mult_distrib2)
  then show ?thesis by simp
qed

lemma dig_sub:
  assumes "0 < k" "\<forall>i. dig k y i \<le> dig k x i"
  shows "dig k (x - y) i = dig k x i - dig k y i"
  using assms(2)
proof (induction i arbitrary: x y)
  case 0
  have "y mod 2 ^ k \<le> x mod 2 ^ k" using 0 by (metis dig_0)
  moreover have "\<forall>i. dig k (y div 2 ^ k) i \<le> dig k (x div 2 ^ k) i" using 0 by (metis dig_Suc)
  then have "y div 2 ^ k \<le> x div 2 ^ k" by (rule dig_le [OF assms(1)])
  ultimately have "x - y = 2 ^ k * (x div 2 ^ k - y div 2 ^ k) + (x mod 2 ^ k - y mod 2 ^ k)" by (rule split_diff)
  then show ?case by (simp add: dig_0 less_imp_diff_less)
next
  case (Suc i)
  have m: "y mod 2 ^ k \<le> x mod 2 ^ k" using Suc.prems by (metis dig_0)
  have d: "\<forall>i. dig k (y div 2 ^ k) i \<le> dig k (x div 2 ^ k) i" using Suc.prems by (metis dig_Suc)
  then have "y div 2 ^ k \<le> x div 2 ^ k" by (rule dig_le [OF assms(1)])
  then have "x - y = 2 ^ k * (x div 2 ^ k - y div 2 ^ k) + (x mod 2 ^ k - y mod 2 ^ k)"
    by (rule split_diff [OF m])
  then have "(x - y) div 2 ^ k = x div 2 ^ k - y div 2 ^ k" by (simp add: less_imp_diff_less)
  then show ?case using Suc.IH [OF d] by (simp add: dig_Suc)
qed

lemma dig_bound: "0 < k \<Longrightarrow> \<forall>i \<ge> n. dig k x i = 0 \<Longrightarrow> x < 2 ^ (k * n)"
proof -
  assume "0 < k" and z: "\<forall>i \<ge> n. dig k x i = 0"
  have "dig k (drop_bit (k * n) x) i = dig k x (i + n)" for i
    by (simp add: dig_def algebra_simps)
  then have "drop_bit (k * n) x \<le> 0" using z by (intro dig_le [OF \<open>0 < k\<close>]) simp
  then show ?thesis by (simp add: drop_bit_eq_div div_eq_0_iff)
qed

lemma dig_small: "x < 2 ^ m \<Longrightarrow> m \<le> k * i \<Longrightarrow> dig k x i = 0"
proof -
  assume "x < 2 ^ m" "m \<le> k * i"
  then have "x < 2 ^ (k * i)" by (meson less_le_trans one_le_numeral power_increasing)
  then show ?thesis by (simp add: dig_def drop_bit_eq_div)
qed

lemma dig_and: "dig k (x AND y) i = (dig k x i AND dig k y i)"
  by (simp add: dig_def)

lemma dig_drop: "dig k (drop_bit k x) i = dig k x (Suc i)"
  by (simp add: dig_def algebra_simps)

lemma dig_half: "dig (2 * k) x i AND mask k = dig k x (2 * i)"
  by (simp add: dig_def algebra_simps take_bit_take_bit flip: take_bit_eq_mask)

lemma dig_half_drop: "dig (2 * k) (drop_bit k x) i AND mask k = dig k x (2 * i + 1)"
  by (simp add: dig_def algebra_simps take_bit_take_bit flip: take_bit_eq_mask)

lemma dig_double: "dig (2 * k) x i = dig k x (2 * i) + 2 ^ k * dig k x (2 * i + 1)"
proof -
  have "take_bit (2 * k) y = take_bit k y + push_bit k (take_bit k (drop_bit k y))" for y :: nat
    using bits_ident [of k "take_bit (2 * k) y"] by (simp add: take_bit_take_bit drop_bit_take_bit)
  from this [of "drop_bit (2 * k * i) x"] show ?thesis
    by (simp add: dig_def algebra_simps push_bit_eq_mult)
qed

text \<open>Masks and shifts select the even and the odd digits.\<close>

lemma dig_mask_low:
  "\<forall>i < n. dig (2 * k) m i = mask k \<Longrightarrow> i < n \<Longrightarrow> dig (2 * k) (x AND m) i = dig k x (2 * i)"
  by (simp add: dig_and dig_half)

lemma dig_mask_high:
  "\<forall>i < n. dig (2 * k) m i = mask k \<Longrightarrow> i < n \<Longrightarrow> dig (2 * k) (drop_bit k x AND m) i = dig k x (2 * i + 1)"
  using dig_half_drop [of k x i] by (simp add: dig_and)

section \<open>Counting set bits\<close>

definition set_between :: "('l::len word) \<Rightarrow> nat \<Rightarrow> nat \<Rightarrow> nat" where
  "set_between v i j = length (filter (bit v) [i..<j])"

lemma set_between_split: "i \<le> j \<Longrightarrow> j \<le> k \<Longrightarrow> set_between v i k = set_between v i j + set_between v j k"
  by (metis set_between_def filter_append length_append upt_add_eq_append le_add_diff_inverse)

lemma set_between_le: "set_between v i j \<le> j - i"
  unfolding set_between_def by (metis length_filter_le length_upt)

lemma set_between_beyond: "LENGTH('l) \<le> i \<Longrightarrow> set_between (v :: 'l::len word) i j = 0"
  by (auto simp: set_between_def filter_empty_conv dest: bit_imp_le_length)

lemma bit_odd: "bit (v :: 'l::len word) j \<longleftrightarrow> odd (unat v div 2 ^ j)"
proof -
  have "bit v j \<longleftrightarrow> bit (unat v) j" by (simp add: bit_unsigned_iff)
  then show ?thesis by (simp add: bit_nat_iff bit_iff_odd)
qed

lemma dig_bit: "dig 1 (unat v) j = set_between v j (Suc j)"
  by (auto simp: dig_def set_between_def drop_bit_eq_div take_bit_eq_mod bit_odd mod_2_eq_odd)

text \<open>The masks.\<close>

lemma masks:
  "\<forall>i < 32. dig (2 * 1) 0x5555555555555555 i = mask 1"
  "\<forall>i < 16. dig (2 * 2) 0x3333333333333333 i = mask 2"
  "\<forall>i < 8. dig (2 * 4) 0x0F0F0F0F0F0F0F0F i = mask 4"
  "\<forall>i < 4. dig (2 * 8) 0x00FF00FF00FF00FF i = mask 8"
proof -
  have all: "(\<forall>i < n. P i) = list_all P [0..<n]" for P and n :: nat by (auto simp: list_all_iff)
  show "\<forall>i < 4. dig (2 * 8) 0x00FF00FF00FF00FF i = mask 8"
    unfolding all by (simp add: upt_conv_Cons dig_def drop_bit_eq_div take_bit_eq_mod mask_eq_exp_minus_1)
  show "\<forall>i < 8. dig (2 * 4) 0x0F0F0F0F0F0F0F0F i = mask 4"
    unfolding all by (simp add: upt_conv_Cons dig_def drop_bit_eq_div take_bit_eq_mod mask_eq_exp_minus_1)
  show "\<forall>i < 16. dig (2 * 2) 0x3333333333333333 i = mask 2"
    unfolding all by (simp add: upt_conv_Cons dig_def drop_bit_eq_div take_bit_eq_mod mask_eq_exp_minus_1)
  show "\<forall>i < 32. dig (2 * 1) 0x5555555555555555 i = mask 1"
    unfolding all by (simp add: upt_conv_Cons dig_def drop_bit_eq_div take_bit_eq_mod mask_eq_exp_minus_1)
qed

lemma mask_words:
  "unat (- 1 div 3 :: u64) = 0x5555555555555555" "unat (- 1 div 5 :: u64) = 0x3333333333333333"
  "unat (- 1 div 0x11 :: u64) = 0x0F0F0F0F0F0F0F0F" "unat (- 1 div 0x101 :: u64) = 0x00FF00FF00FF00FF"
  by (simp_all add: unat_div_distrib unat_max_word)

section \<open>The parallel counts\<close>

definition counts :: "u64 \<Rightarrow> nat \<Rightarrow> u64 \<Rightarrow> bool" where
  "counts v k x \<longleftrightarrow> (\<forall>i. dig k (unat x) i = set_between v (k * i) (k * i + k))"

lemma countsD: "counts v k x \<Longrightarrow> dig k (unat x) i = set_between v (k * i) (k * i + k)"
  by (simp add: counts_def)

lemma counts_small: "counts v k x \<Longrightarrow> 64 \<le> k * i \<Longrightarrow> dig k (unat x) i = 0"
  by (simp add: counts_def set_between_beyond)

lemma counts_le: "counts v k x \<Longrightarrow> dig k (unat x) i \<le> k"
  using set_between_le [of v "k * i" "k * i + k"] by (simp add: counts_def)

lemma counts_pair: "counts v k x \<Longrightarrow>
    dig k (unat x) (2 * i) + dig k (unat x) (2 * i + 1) = set_between v (2 * k * i) (2 * k * i + 2 * k)"
  using set_between_split [of "2 * k * i" "2 * k * i + k" "2 * k * i + 2 * k" v] by (simp add: counts_def algebra_simps)

lemma unat_bound64: "unat (x :: u64) < 2 ^ 64"
  using unsigned_less [of x] by simp

lemma unat_and: "unat (x AND y) = (unat x AND unat y)"
  by (simp add: unsigned_and_eq)

lemma unat_drop: "unat (drop_bit k x) = drop_bit k (unat x)"
  by (rule unat_drop_bit_eq)

lemma unat_add_small: "unat x + unat y < 2 ^ 64 \<Longrightarrow> unat (x + y :: u64) = unat x + unat y"
  by (simp add: unat_word_ariths)

text \<open>The digits of the masked word, also past the mask.\<close>

lemma masked_low:
  assumes "\<forall>i < n. dig (2 * k) m i = mask k" "2 * k * n = 64"
  shows "dig (2 * k) (unat (x :: u64) AND m) i = dig k (unat x) (2 * i)"
proof (cases "i < n")
  case True
  then show ?thesis by (rule dig_mask_low [OF assms(1)])
next
  case False
  then have "64 \<le> 2 * k * i" by (metis assms(2) mult_le_mono2 not_le)
  then have "64 \<le> k * (2 * i)" by (simp add: algebra_simps)
  then show ?thesis using \<open>64 \<le> 2 * k * i\<close> dig_small [OF unat_bound64] by (simp add: dig_and)
qed

lemma masked_high:
  assumes "\<forall>i < n. dig (2 * k) m i = mask k" "2 * k * n = 64"
  shows "dig (2 * k) (drop_bit k (unat (x :: u64)) AND m) i = dig k (unat x) (2 * i + 1)"
proof (cases "i < n")
  case True
  then show ?thesis by (rule dig_mask_high [OF assms(1)])
next
  case False
  then have "64 \<le> 2 * k * i" by (metis assms(2) mult_le_mono2 not_le)
  then have le: "64 \<le> k * (2 * i + 1)" by (simp add: algebra_simps)
  have "drop_bit k (unat x) < 2 ^ 64" using unat_bound64 [of "drop_bit k x"] by (simp only: unat_drop)
  have "dig (2 * k) (drop_bit k (unat x)) i = 0" using \<open>64 \<le> 2 * k * i\<close> by (rule dig_small [OF \<open>drop_bit k (unat x) < 2 ^ 64\<close>])
  then show ?thesis using dig_small [OF unat_bound64 le, of x] by (simp add: dig_and)
qed

lemma counts_1: "counts v 1 v"
  by (simp only: counts_def dig_bit mult_1 Suc_eq_plus1 simp_thms)

lemma counts_2: "counts v 2 (v - (drop_bit 1 v AND (- 1 div 3)))"
proof -
  let ?u = "drop_bit 1 v AND (- 1 div 3)"
  have u: "dig 2 (unat ?u) i = dig 1 (unat v) (2 * i + 1)" for i
    using masked_high [OF masks(1), of v i] by (simp only: unat_and unat_drop mask_words mult_1_right)
  have v: "dig 2 (unat v) i = dig 1 (unat v) (2 * i) + 2 * dig 1 (unat v) (2 * i + 1)" for i
    using dig_double [of 1 "unat v" i] by simp
  have le: "\<forall>i. dig 2 (unat ?u) i \<le> dig 2 (unat v) i" unfolding u v by simp
  then have "unat ?u \<le> unat v" by (intro dig_le) simp_all
  then have "unat (v - ?u) = unat v - unat ?u" by (simp add: unat_sub word_le_nat_alt)
  then have "dig 2 (unat (v - ?u)) i = dig 1 (unat v) (2 * i) + dig 1 (unat v) (2 * i + 1)" for i
    using dig_sub [OF _ le] unfolding u v by simp
  then show ?thesis using counts_pair [OF counts_1] by (simp add: counts_def)
qed

lemma sum_fits:
  assumes "0 < k" "k * n = 64" "\<forall>i. dig k x i + dig k y i < 2 ^ k" "\<forall>i \<ge> n. dig k x i = 0" "\<forall>i \<ge> n. dig k y i = 0"
  shows "x + y < 2 ^ 64"
  using dig_bound [of k n "x + y"] assms dig_add [OF assms(3)] by simp

lemma counts_masked:
  assumes x: "counts v k x" and m: "\<forall>i < n. dig (2 * k) (unat m) i = mask k" and n: "2 * k * n = 64" "0 < k"
  shows "counts v (2 * k) ((x AND m) + (drop_bit k x AND m))"
proof -
  have low: "dig (2 * k) (unat (x AND m)) i = dig k (unat x) (2 * i)" for i
    using masked_low [OF m n(1)] by (simp only: unat_and)
  have high: "dig (2 * k) (unat (drop_bit k x AND m)) i = dig k (unat x) (2 * i + 1)" for i
    using masked_high [OF m n(1)] by (simp only: unat_and unat_drop)
  have two_le: "dig k (unat x) i + dig k (unat x) j \<le> 2 * k" for i j
    using add_mono [OF counts_le [OF x] counts_le [OF x]] by (metis mult_2)
  have "2 * k < 2 ^ (2 * k)" by (rule less_exp)
  then have less: "\<forall>i. dig (2 * k) (unat (x AND m)) i + dig (2 * k) (unat (drop_bit k x AND m)) i < 2 ^ (2 * k)"
    unfolding low high using le_less_trans [OF two_le] by blast
  have zero: "dig k (unat x) j = 0" if "2 * n \<le> j" for j
  proof (rule counts_small [OF x])
    have "64 = k * (2 * n)" using n(1) by (simp add: ac_simps)
    also have "\<dots> \<le> k * j" by (rule mult_le_mono2 [OF that])
    finally show "64 \<le> k * j" .
  qed
  have "unat (x AND m) + unat (drop_bit k x AND m) < 2 ^ 64"
    by (rule sum_fits [OF _ n(1) less]) (use n(2) zero in \<open>simp_all add: low high\<close>)
  then have "unat ((x AND m) + (drop_bit k x AND m)) = unat (x AND m) + unat (drop_bit k x AND m)" by (rule unat_add_small)
  then show ?thesis using dig_add [OF less] counts_pair [OF x] by (simp add: counts_def low high)
qed

lemma counts_added:
  assumes x: "counts v k x" and m: "\<forall>i < n. dig (2 * k) (unat m) i = mask k" and n: "2 * k * n = 64" "0 < k" and k: "2 * k < 2 ^ k"
  shows "counts v (2 * k) ((x + drop_bit k x) AND m)"
proof -
  have two_le: "dig k (unat x) i + dig k (unat x) j \<le> 2 * k" for i j
    using add_mono [OF counts_le [OF x] counts_le [OF x]] by (metis mult_2)
  have high: "dig k (unat (drop_bit k x)) i = dig k (unat x) (Suc i)" for i by (simp only: unat_drop dig_drop)
  have less: "\<forall>i. dig k (unat x) i + dig k (unat (drop_bit k x)) i < 2 ^ k"
    unfolding high using le_less_trans [OF two_le k] by blast
  have zero: "dig k (unat x) j = 0" if "2 * n \<le> j" for j
  proof (rule counts_small [OF x])
    have "64 = k * (2 * n)" using n(1) by (simp add: ac_simps)
    also have "\<dots> \<le> k * j" by (rule mult_le_mono2 [OF that])
    finally show "64 \<le> k * j" .
  qed
  have "unat x + unat (drop_bit k x) < 2 ^ 64"
    by (rule sum_fits [where n = "2 * n", OF n(2) _ less]) (use n zero in \<open>simp_all add: high algebra_simps\<close>)
  then have sum: "unat (x + drop_bit k x) = unat x + unat (drop_bit k x)" by (rule unat_add_small)
  have "dig (2 * k) (unat ((x + drop_bit k x) AND m)) i = dig k (unat (x + drop_bit k x)) (2 * i)" for i
    using masked_low [OF m n(1)] by (simp only: unat_and)
  then show ?thesis using dig_add [OF less] counts_pair [OF x] by (simp add: counts_def sum high)
qed

section \<open>The selection\<close>

lemma and_take: "take_bit k x = x \<Longrightarrow> x AND y = x AND take_bit k (y :: nat)"
  by (metis (no_types, lifting) and.assoc and.commute take_bit_eq_mask)

lemma and_fields:
  fixes t j x :: nat
  assumes "t < 256" "x < 65536"
  shows "(t + 65536 * j) AND x = t AND take_bit 8 x"
proof -
  have "take_bit 16 x = x" "take_bit 8 t = t" using assms by (simp_all add: take_bit_nat_eq_self_iff)
  then have "(t + 65536 * j) AND x = take_bit 16 (t + 65536 * j) AND x"
    using and_take [of 16 x "t + 65536 * j"] by (simp only: and.commute)
  also have "take_bit 16 (t + 65536 * j) = t" using assms(1) by (simp add: take_bit_eq_mod)
  finally show ?thesis using and_take [OF \<open>take_bit 8 t = t\<close>] by simp
qed

lemma and_256: "(x :: nat) AND 256 = (if odd (x div 256) then 256 else 0)"
proof -
  have "x AND 2 ^ n = (if bit x n then 2 ^ n else 0)" for n
    by (rule bit_eqI) (auto simp: bit_and_iff bit_exp_iff)
  from this [of 8] have "x AND 256 = (if bit x 8 then 256 else 0)" by simp
  moreover have "bit x 8 \<longleftrightarrow> odd (x div 256)" by (simp add: bit_iff_odd)
  ultimately show ?thesis by simp
qed

text \<open>The comparison of the number \<open>t\<close> of set bits, with what is left of other counts above it, and \<open>n\<close>.\<close>

lemma borrow:
  fixes t n :: u64
  assumes t: "unat t = T + 65536 * J" "T < 256" "J < 256" and n: "unat n \<le> 64"
  shows "(t - n) AND 256 = (if T < unat n then 256 else 0)"
    and "t AND drop_bit 8 (t - n) = (if T < unat n then of_nat T else 0)"
proof -
  define N where "N = unat n"
  have N: "N \<le> 64" using n by (simp add: N_def)
  define D where "D = unat (t - n)"
  define X where "X = D div 256"
  have X: "(if T < N then (if J = 0 then X = 2 ^ 56 - 1 else X = 256 * (J - 1) + 255) else X = 256 * J)"
  proof (cases "T < N")
    case True
    show ?thesis
    proof (cases "J = 0")
      case J: True
      then have "unat t < unat n" using True t(1) by (simp add: N_def)
      then have "D = 2 ^ 64 + T - N" using J t(1) unat_sub_if' [of t n] by (auto simp: D_def N_def)
      then have "D = 256 * (2 ^ 56 - 1) + (256 + T - N)" using True N by simp
      moreover have "256 + T - N < 256" using True by simp
      ultimately have "X = 2 ^ 56 - 1" unfolding X_def by simp
      then show ?thesis using J True by simp
    next
      case False
      then have "unat n \<le> unat t" using t(1) N by (simp add: N_def)
      then have "D = T + 65536 * J - N" using t(1) by (simp add: D_def N_def unat_sub word_le_nat_alt)
      moreover obtain K where "J = Suc K" using False by (cases J) auto
      ultimately have "D = 256 * (256 * K + 255) + (256 + T - N)" using True N by simp
      moreover have "256 + T - N < 256" using True by simp
      ultimately have "X = 256 * K + 255" unfolding X_def by simp
      then show ?thesis using False True \<open>J = Suc K\<close> by simp
    qed
  next
    case False
    then have "unat n \<le> unat t" using t(1) by (simp add: N_def)
    then have "D = 256 * (256 * J) + (T - N)" using t(1) False by (simp add: D_def N_def unat_sub word_le_nat_alt)
    moreover have "T - N < 256" using t(2) by simp
    ultimately have "X = 256 * J" unfolding X_def by simp
    then show ?thesis using False by simp
  qed
  have "odd X \<longleftrightarrow> T < N" using X by (auto split: if_splits)
  then have "unat ((t - n) AND 256) = (if T < N then 256 else 0)" by (simp add: unat_and and_256 flip: D_def X_def)
  then show "(t - n) AND 256 = (if T < unat n then 256 else 0)" by (auto simp: word_unat_eq_iff N_def split: if_splits)
  have "unat (t AND drop_bit 8 (t - n)) = (T + 65536 * J) AND X"
    by (simp only: unat_and unat_drop t(1)) (simp add: drop_bit_eq_div X_def D_def)
  also have "\<dots> = (if T < N then T else 0)"
  proof (cases "T < N \<and> J = 0")
    case True
    then have "take_bit 56 T = T" "X = mask 56" using X t(2) by (simp_all add: take_bit_nat_eq_self_iff mask_eq_exp_minus_1)
    then show ?thesis using True by (simp flip: take_bit_eq_mask)
  next
    case False
    then have "X < 65536" using X t(3) by (auto split: if_splits)
    then have "(T + 65536 * J) AND X = T AND take_bit 8 X" by (rule and_fields [OF t(2)])
    moreover have "take_bit 8 X = (if T < N then mask 8 else 0)"
      using X False by (auto simp: take_bit_eq_mod mask_eq_exp_minus_1 mod_mult_self4 split: if_splits)
    moreover have "T AND mask 8 = T" using t(2) by (simp add: take_bit_nat_eq_self_iff flip: take_bit_eq_mask)
    ultimately show ?thesis by simp
  qed
  finally show "t AND drop_bit 8 (t - n) = (if T < unat n then of_nat T else 0)"
    using t(2) by (auto simp: word_unat_eq_iff N_def unat_of_nat split: if_splits)
qed

text \<open>The state of the search: of the window of \<open>w\<close> bits below \<open>s\<close> the \<open>n\<close>-th set bit from above is wanted, which is the
  \<open>m\<close>-th of the word.\<close>

definition window :: "u64 \<Rightarrow> nat \<Rightarrow> nat \<Rightarrow> u64 \<times> u64 \<Rightarrow> bool" where
  "window v m w = (\<lambda>(s, n). w \<le> unat s \<and> unat s \<le> 64 \<and> w dvd unat s \<and> 0 < unat n \<and> unat n \<le> set_between v (unat s - w) (unat s) \<and>
     m = unat n + set_between v (unat s) 64)"

lemma window_half:
  assumes w: "window v m (2 * w) (s, n)" and T: "T = set_between v (unat s - w) (unat s)"
  shows "window v m w (s - (if T < unat n then of_nat w else 0), n - (if T < unat n then of_nat T else 0))"
proof -
  have f: "2 * w \<le> unat s" "unat s \<le> 64" "2 * w dvd unat s" "0 < unat n" "unat n \<le> set_between v (unat s - 2 * w) (unat s)"
      "m = unat n + set_between v (unat s) 64"
    using w by (simp_all add: window_def)
  have split: "set_between v (unat s - 2 * w) (unat s) = set_between v (unat s - 2 * w) (unat s - w) + T"
    unfolding T by (rule set_between_split) (use f(1) in simp_all)
  show ?thesis
  proof (cases "T < unat n")
    case True
    have "unat (s - of_nat w) = unat s - w" using f(1,2) by (simp add: unat_sub word_le_nat_alt unat_of_nat)
    moreover have "T < 2 ^ 64" using True unat_bound64 [of n] by simp
    then have "unat (n - of_nat T) = unat n - T" using True by (simp add: unat_sub word_le_nat_alt unat_of_nat)
    moreover have "set_between v (unat s - w) 64 = T + set_between v (unat s) 64"
      unfolding T by (rule set_between_split) (use f(1,2) in simp_all)
    moreover have "w dvd unat s - w" using f(3) by (metis dvd_diff_nat dvd_mult_left dvd_refl mult.commute)
    ultimately show ?thesis using f True split by (simp add: window_def) (simp add: mult_2, linarith)
  next
    case False
    moreover have "w dvd unat s" using f(3) by (metis dvd_mult_left mult.commute)
    ultimately show ?thesis using f T by (simp add: window_def)
  qed
qed

text \<open>A step: the number of set bits in the upper half of the window may have other counts above it.\<close>

lemma select_step_window:
  assumes w: "window v m (2 * w) (s, n)" and t: "unat t = set_between v (unat s - w) (unat s) + 65536 * J" "J < 256"
    and k: "drop_bit k (256 :: u64) = of_nat w"
  obtains s' n' where "select_step debug t k (s, n) = Some (s', n')" "window v m w (s', n')"
proof -
  let ?T = "set_between v (unat s - w) (unat s)"
  have f: "2 * w \<le> unat s" "unat s \<le> 64" "unat n \<le> set_between v (unat s - 2 * w) (unat s)"
    using w by (simp_all add: window_def)
  have n: "unat n \<le> 64" using f set_between_le [of v "unat s - 2 * w" "unat s"] by simp
  have T: "?T < 256" using f set_between_le [of v "unat s - w" "unat s"] by simp
  have w64: "w < 64" using f by simp
  have s: "\<not> s < (if ?T < unat n then of_nat w else 0)" using f w64 by (simp add: word_less_nat_alt unat_of_nat)
  have n': "\<not> n < (if ?T < unat n then of_nat ?T else 0)" using T by (simp add: word_less_nat_alt unat_of_nat)
  have "drop_bit k ((t - n) AND 256) = (if ?T < unat n then of_nat w else 0)" by (simp add: borrow(1) [OF t(1) T t(2) n] k)
  then have "select_step debug t k (s, n) =
      Some (s - (if ?T < unat n then of_nat w else 0), n - (if ?T < unat n then of_nat ?T else 0))"
    using s n' by (simp only: select_step_def prod.case borrow(2) [OF t(1) T t(2) n]) (simp add: sub_word_def)
  then show thesis by (rule that) (rule window_half [OF w refl])
qed

text \<open>The field of the counts that a step reads.\<close>

lemma counts_read:
  assumes c: "counts v w x" and w: "w \<le> unat s" "unat s \<le> 64" "w dvd unat s" "0 < w" and m: "w < 2 ^ j" "j \<le> w"
  shows "unat (drop_bit (unat s - w) x AND mask j) = set_between v (unat s - w) (unat s)"
proof -
  obtain i where i: "unat s - w = w * i" using w(1,3) by (metis dvd_diff_nat dvd_refl dvdE)
  have s: "w * i + w = unat s" using i w(1) by simp
  have "unat (drop_bit (unat s - w) x AND mask j) = take_bit j (drop_bit (w * i) (unat x))"
    by (simp add: unsigned_take_bit_eq unat_drop i flip: take_bit_eq_mask)
  also have "\<dots> = take_bit j (dig w (unat x) i)" using m(2) by (simp add: dig_def take_bit_take_bit min_absorb1)
  also have "\<dots> = dig w (unat x) i" using counts_le [OF c, of i] m(1) by (simp add: take_bit_nat_eq_self_iff)
  finally show ?thesis by (simp add: countsD [OF c] i s)
qed

lemma select_read:
  assumes w: "window v m (2 * w) (s, n)" and c: "counts v w x" "0 < w" "w < 2 ^ j" "j \<le> w"
    and k: "drop_bit k (256 :: u64) = of_nat w"
  obtains s' n' where "select_step debug (drop_bit (unat (s - of_nat w)) x AND mask j) k (s, n) = Some (s', n')" "window v m w (s', n')"
proof -
  have f: "2 * w \<le> unat s" "unat s \<le> 64" "2 * w dvd unat s" using w by (simp_all add: window_def)
  have "unat (of_nat w :: u64) = w" using f by (simp add: unat_of_nat)
  then have "unat (s - of_nat w) = unat s - w" using f(1) by (simp add: unat_sub word_le_nat_alt)
  then have "unat (drop_bit (unat (s - of_nat w)) x AND mask j) = set_between v (unat s - w) (unat s) + 65536 * 0"
    using counts_read [OF c(1) _ f(2) _ c(2-4)] f by (simp add: dvd_mult_left mult.commute)
  then show thesis by (rule select_step_window [OF w _ _ k, of _ 0 debug]) (simp, rule that)
qed

lemma reverse_bits:
  assumes "s \<le> 64"
  shows "set_between (word_reverse (v :: u64)) s 64 = set_between v 0 (64 - s)"
  using assms
proof (induction "64 - s" arbitrary: s)
  case (Suc k)
  then have "set_between (word_reverse v) (Suc s) 64 = set_between v 0 (64 - Suc s)" by simp
  moreover have "set_between (word_reverse v) s 64 = set_between (word_reverse v) s (Suc s) + set_between (word_reverse v) (Suc s) 64"
    by (rule set_between_split) (use Suc in simp_all)
  moreover have "set_between v 0 (64 - s) = set_between v 0 (64 - Suc s) + set_between v (64 - Suc s) (Suc (64 - Suc s))"
  proof -
    have "Suc (64 - Suc s) = 64 - s" using Suc by simp
    then show ?thesis using set_between_split [of 0 "64 - Suc s" "64 - s" v] by simp
  qed
  moreover have "s < 64" using Suc(2) by simp
  then have "set_between (word_reverse v) s (Suc s) = set_between v (64 - Suc s) (Suc (64 - Suc s))"
    by (simp add: set_between_def bit_word_reverse_iff)
  ultimately show ?case by simp
qed (simp add: set_between_def)

lemma nth_set_bit_u64:
  assumes "0 < unat n" "unat n \<le> set_between v 0 64"
  obtains r where "nth_set_bit_u64 debug v n = Some r" "unat r < 64" "bit v (unat r)" "set_between v 0 (unat r) = unat n - 1"
proof -
  define w where "w = word_reverse v"
  define a where "a = w - (drop_bit 1 w AND (- 1 div 3))"
  define b where "b = (a AND (- 1 div 5)) + (drop_bit 2 a AND (- 1 div 5))"
  define c where "c = (b + drop_bit 4 b) AND (- 1 div 0x11)"
  define d where "d = (c + drop_bit 8 c) AND (- 1 div 0x101)"
  have ca: "counts w 2 a" unfolding a_def by (rule counts_2)
  have cb: "counts w 4 b" unfolding b_def using counts_masked [OF ca, of 16 "- 1 div 5"] masks(2) by (simp add: mask_words)
  have cc: "counts w 8 c" unfolding c_def using counts_added [OF cb, of 8 "- 1 div 0x11"] masks(3) by (simp add: mask_words)
  have cd: "counts w 16 d" unfolding d_def using counts_added [OF cc, of 4 "- 1 div 0x101"] masks(4) by (simp add: mask_words)
  have "set_between w 0 64 = set_between v 0 64" unfolding w_def by (simp add: reverse_bits)
  then have w64: "window w (unat n) (2 * 32) (64, n)" using assms by (simp add: window_def) (simp add: set_between_def)
  have d3: "drop_bit 48 (unat d) = dig 16 (unat d) 3"
    using unat_bound64 [of d] by (simp add: dig_def drop_bit_eq_div take_bit_eq_mod less_mult_imp_div_less)
  have "drop_bit 32 (unat d) = dig 16 (unat d) 2 + 65536 * drop_bit 48 (unat d)"
    by (simp add: dig_def drop_bit_eq_div take_bit_eq_mod div_mult2_eq [of _ "2 ^ 32" "2 ^ 16", simplified])
  then have "drop_bit 32 (unat d) + drop_bit 48 (unat d) = dig 16 (unat d) 2 + dig 16 (unat d) 3 + 65536 * dig 16 (unat d) 3"
    by (simp add: d3)
  moreover have "dig 16 (unat d) 2 + dig 16 (unat d) 3 = set_between w 32 64"
    using set_between_split [of 32 48 64 w] by (simp add: countsD [OF cd])
  ultimately have sum: "drop_bit 32 (unat d) + drop_bit 48 (unat d) = set_between w 32 64 + 65536 * dig 16 (unat d) 3" by simp
  have "dig 16 (unat d) 3 \<le> 16" by (rule counts_le [OF cd])
  then have "unat (drop_bit 32 d) + unat (drop_bit 48 d) < 2 ^ 64" using sum set_between_le [of w 32 64] by (simp add: unat_drop)
  then have t: "unat (drop_bit 32 d + drop_bit 48 d) = set_between w (unat (64 :: u64) - 32) (unat (64 :: u64)) + 65536 * dig 16 (unat d) 3"
    using sum by (simp only: unat_add_small unat_drop) simp
  obtain s1 n1 where 1: "select_step debug (drop_bit 32 d + drop_bit 48 d) 3 (64, n) = Some (s1, n1)" "window w (unat n) 32 (s1, n1)"
    by (rule select_step_window [OF w64 t, of 3 debug]) (use \<open>dig 16 (unat d) 3 \<le> 16\<close> in \<open>simp_all\<close>)
  obtain s2 n2 where 2: "select_step debug (drop_bit (unat (s1 - 16)) d AND 0xff) 4 (s1, n1) = Some (s2, n2)" "window w (unat n) 16 (s2, n2)"
    by (rule select_read [of w "unat n" 16 s1 n1 d 8 4 debug]) (use 1 cd in \<open>simp_all add: mask_eq_exp_minus_1\<close>)
  obtain s3 n3 where 3: "select_step debug (drop_bit (unat (s2 - 8)) c AND 0xf) 5 (s2, n2) = Some (s3, n3)" "window w (unat n) 8 (s3, n3)"
    by (rule select_read [of w "unat n" 8 s2 n2 c 4 5 debug]) (use 2 cc in \<open>simp_all add: mask_eq_exp_minus_1\<close>)
  obtain s4 n4 where 4: "select_step debug (drop_bit (unat (s3 - 4)) b AND 0x7) 6 (s3, n3) = Some (s4, n4)" "window w (unat n) 4 (s4, n4)"
    by (rule select_read [of w "unat n" 4 s3 n3 b 3 6 debug]) (use 3 cb in \<open>simp_all add: mask_eq_exp_minus_1\<close>)
  obtain s5 n5 where 5: "select_step debug (drop_bit (unat (s4 - 2)) a AND 0x3) 7 (s4, n4) = Some (s5, n5)" "window w (unat n) 2 (s5, n5)"
    by (rule select_read [of w "unat n" 2 s4 n4 a 2 7 debug]) (use 4 ca in \<open>simp_all add: mask_eq_exp_minus_1\<close>)
  obtain s6 n6 where 6: "select_step debug (drop_bit (unat (s5 - 1)) w AND 0x1) 8 (s5, n5) = Some (s6, n6)" "window w (unat n) 1 (s6, n6)"
    by (rule select_read [of w "unat n" 1 s5 n5 w 1 8 debug]) (use 5 counts_1 in \<open>simp_all add: mask_eq_exp_minus_1\<close>)
  have s6: "sub_word debug s5 (drop_bit 8 (((drop_bit (unat (s5 - 1)) w AND 0x1) - n5) AND 256)) = Some s6"
    using 6(1) by (auto simp: select_step_def bind_eq_Some_conv)
  have res: "nth_set_bit_u64 debug v n = Some (65 - s6 - 1)"
    unfolding nth_set_bit_u64_def Let_def
    unfolding w_def [symmetric] unfolding a_def [symmetric] unfolding b_def [symmetric] unfolding c_def [symmetric] unfolding d_def [symmetric]
    by (simp only: 1(1) 2(1) 3(1) 4(1) 5(1) s6 bind.bind_lunit prod.case)
  have f: "1 \<le> unat s6" "unat s6 \<le> 64" "0 < unat n6" "unat n6 \<le> set_between w (unat s6 - 1) (unat s6)"
      "unat n = unat n6 + set_between w (unat s6) 64"
    using 6(2) by (simp_all add: window_def)
  have r: "unat (65 - s6 - 1) = 64 - unat s6"
    using f(1,2) unat_sub [of s6 64] by (simp add: word_le_nat_alt)
  have "0 < set_between w (unat s6 - 1) (unat s6)" using f(3,4) by simp
  moreover have "[unat s6 - 1..<unat s6] = [unat s6 - 1]" using f(1) by (metis Suc_diff_1 One_nat_def Suc_le_lessD upt_rec lessI upt_conv_Nil order_refl)
  ultimately have "bit w (unat s6 - 1)" "set_between w (unat s6 - 1) (unat s6) = 1" by (auto simp: set_between_def split: if_splits)
  then have "bit v (64 - unat s6)" "unat n6 = 1" using f by (auto simp: w_def bit_word_reverse_iff)
  moreover have "set_between v 0 (64 - unat s6) = unat n - 1"
    using f(5) \<open>unat n6 = 1\<close> reverse_bits [OF f(2), of v] by (simp add: w_def)
  ultimately show thesis using res r f(1) by (intro that [of "65 - s6 - 1"]) simp_all
qed

text \<open>A position is the n-th in the list of set bits.\<close>

lemma filter_nth:
  assumes "i < k" "P i"
  shows "length (filter P [0..<i]) < length (filter P [0..<k])" "filter P [0..<k] ! length (filter P [0..<i]) = i"
proof -
  have "[0..<k] = [0..<i] @ i # [Suc i..<k]"
    using assms(1) upt_add_eq_append [of 0 i "k - i"] by (simp add: upt_conv_Cons)
  then show "length (filter P [0..<i]) < length (filter P [0..<k])" "filter P [0..<k] ! length (filter P [0..<i]) = i"
    using assms(2) by (simp_all add: nth_append)
qed

lemma set_between_ucast: "j \<le> 64 \<Longrightarrow> set_between (ucast v :: u64) i j = set_between (v :: u128) i j"
  by (auto simp: set_between_def bit_ucast_iff intro!: arg_cong [where f = length] filter_cong)

lemma set_between_high:
  "set_between (ucast (drop_bit 64 (v :: u128)) :: u64) 0 j = set_between v 64 (64 + j)" if "j \<le> 64"
proof -
  have "filter (bit v) (map ((+) 64) [0..<j]) = map ((+) 64) (filter (bit (ucast (drop_bit 64 v) :: u64)) [0..<j])"
    using that by (auto simp: filter_map comp_def bit_ucast_iff bit_drop_bit_eq intro!: filter_cong)
  moreover have "map ((+) 64) [0..<j] = [64..<64 + j]" by (auto intro: nth_equalityI)
  ultimately show ?thesis by (simp add: set_between_def)
qed

lemma count_ones_between: "count_ones (v :: 'l::len word) = set_between v 0 LENGTH('l)"
  by (simp add: count_ones_def set_between_def)

lemma nth_set_bit_position:
  assumes "0 < n" "n \<le> count_ones v"
  obtains r where "nth_set_bit debug v n = Some r" "r < 128" "bit v r" "set_between v 0 r = n - 1"
proof -
  let ?low = "ucast v :: u64" and ?high = "ucast (drop_bit 64 v) :: u64"
  have low: "count_ones ?low = set_between v 0 64" by (simp add: count_ones_between set_between_ucast)
  have split: "count_ones v = set_between v 0 64 + set_between v 64 128"
    using set_between_split [of 0 64 128 v] by (simp add: count_ones_between)
  have le: "set_between v 0 64 \<le> 64" "set_between v 64 128 \<le> 64" using set_between_le [of v 0 64] set_between_le [of v 64 128] by simp_all
  show thesis
  proof (cases "count_ones ?low < n")
    case True
    let ?m = "n - count_ones ?low"
    have m: "unat (of_nat ?m :: u64) = ?m" using assms(2) split low le by (simp add: unat_of_nat)
    have "?m \<le> set_between ?high 0 64" using assms(2) split low by (simp add: set_between_high)
    then obtain r where r: "nth_set_bit_u64 debug ?high (of_nat ?m) = Some r" "unat r < 64" "bit ?high (unat r)"
        "set_between ?high 0 (unat r) = ?m - 1"
      using nth_set_bit_u64 [of "of_nat ?m" ?high debug] m True by auto
    have "set_between v 0 (64 + unat r) = set_between v 0 64 + set_between v 64 (64 + unat r)" by (rule set_between_split) simp_all
    then have "set_between v 0 (64 + unat r) = n - 1" using r(2,4) True low by (simp add: set_between_high)
    moreover have "bit v (64 + unat r)" using r(3) by (simp add: bit_ucast_iff bit_drop_bit_eq)
    ultimately show thesis using r True by (intro that [of "64 + unat r"]) (simp_all add: nth_set_bit_def)
  next
    case False
    have m: "unat (of_nat n :: u64) = n" using False low le by (simp add: unat_of_nat)
    then obtain r where r: "nth_set_bit_u64 debug ?low (of_nat n) = Some r" "unat r < 64" "bit ?low (unat r)"
        "set_between ?low 0 (unat r) = n - 1"
      using nth_set_bit_u64 [of "of_nat n" ?low debug] assms(1) False by (auto simp: count_ones_between)
    then show thesis using False
      by (intro that [of "unat r"]) (simp_all add: nth_set_bit_def set_between_ucast bit_ucast_iff)
  qed
qed

text \<open>C16: The branchless search for the n-th set bit.  For every \<open>n\<close> from 1 to the number of set bits it returns, without
  overflow in any build, the entry of index \<open>n - 1\<close> in the list of the positions of set bits.\<close>

theorem nth_set_bit_select:
  assumes "0 < n" "n \<le> count_ones v"
  shows "nth_set_bit debug v n = Some (filter (bit v) [0..<128] ! (n - 1))"
proof -
  obtain r where "nth_set_bit debug v n = Some r" "r < 128" "bit v r" "set_between v 0 r = n - 1"
    by (rule nth_set_bit_position [OF assms])
  then show ?thesis using filter_nth(2) [of r 128 "bit v"] by (simp add: set_between_def)
qed

definition sample_bits :: u128 where
  "sample_bits = push_bit 5 1 OR push_bit 70 1 OR push_bit 127 1"

lemma sample_bits: "filter (bit sample_bits) [0..<128] = [5, 70, 127]"
proof -
  have "bit sample_bits i \<longleftrightarrow> i \<in> {5, 70, 127}" if "i < 128" for i
    using that unfolding sample_bits_def bit_or_iff bit_push_bit_iff bit_1_iff by auto
  then have "filter (bit sample_bits) [0..<128] = filter (\<lambda>i. i \<in> {5, 70, 127}) [0..<128]" by (intro filter_cong) simp_all
  also have "\<dots> = [5, 70, 127]" by (simp add: upt_conv_Cons)
  finally show ?thesis .
qed

theorem nth_set_bit_select_witness: "nth_set_bit True sample_bits 2 = Some 70"
  using nth_set_bit_select [of 2 sample_bits True] by (simp add: count_ones_def sample_bits)

end
