(* ===== verification/Zed_Chunk.thy ===== *)
theory Zed_Chunk
  imports Zed_Select Zed_SumTree
begin

text \<open>
  The leaves of a rope, \<open>crates/rope/src/chunk.rs\<close>: \<open>Chunk\<close>, a string of at most 128 bytes with bitmaps of its
  characters, UTF-16 code units, newlines and tabs, and \<open>ChunkSlice\<close>, a part of one; with \<open>point.rs\<close>.
  A string is the list of its bytes.  \<open>None\<close> is a panic; \<open>debug\<close> says whether the build has debug assertions and
  overflow checks.  \<open>PointUtf16\<close> is the same structure as \<open>Point\<close> with the same operations, \<open>OffsetUtf16\<close> and
  \<open>Unclipped\<close> are wrappers that the model leaves out.
\<close>

section \<open>Points\<close>

text \<open>Rows and columns are \<open>u32\<close>; those of a text are at most its length.\<close>

datatype point = Point (pt_row: nat) (pt_column: nat)

fun pt_add :: "point \<Rightarrow> point \<Rightarrow> point" where
  "pt_add (Point row column) (Point row' column') =
     (if row' = 0 then Point row (column + column') else Point (row + row') column')"

instantiation point :: linorder
begin

fun less_eq_point :: "point \<Rightarrow> point \<Rightarrow> bool" where
  "less_eq_point (Point row column) (Point row' column') \<longleftrightarrow> row < row' \<or> row = row' \<and> column \<le> column'"

definition less_point :: "point \<Rightarrow> point \<Rightarrow> bool" where
  "less_point p q \<longleftrightarrow> p \<le> q \<and> \<not> q \<le> p"

instance
proof
  fix p q r :: point
  show "p < q \<longleftrightarrow> p \<le> q \<and> \<not> q \<le> p" by (rule less_point_def)
  show "p \<le> p" by (cases p) simp
  show "p \<le> q \<Longrightarrow> q \<le> r \<Longrightarrow> p \<le> r" by (cases p; cases q; cases r) auto
  show "p \<le> q \<Longrightarrow> q \<le> p \<Longrightarrow> p = q" by (cases p; cases q) auto
  show "p \<le> q \<or> q \<le> p" by (cases p; cases q) auto
qed

end

text \<open>\<open>Sub\<close>, which asserts the order in debug builds; columns of the same row and rows do not go below zero then.\<close>

fun pt_sub :: "bool \<Rightarrow> point \<Rightarrow> point \<Rightarrow> point option" where
  "pt_sub debug (Point row column) (Point row' column') =
     (if debug \<and> \<not> Point row' column' \<le> Point row column then None
      else if row = row' then Some (Point 0 (column - column'))
      else Some (Point (row - row') column))"

definition pt_saturating_sub :: "bool \<Rightarrow> point \<Rightarrow> point \<Rightarrow> point option" where
  "pt_saturating_sub debug p q = (if p < q then Some (Point 0 0) else pt_sub debug p q)"

definition pt_zero :: point where "pt_zero = Point 0 0"

definition pt_is_zero :: "point \<Rightarrow> bool" where
  "pt_is_zero p \<longleftrightarrow> pt_row p = 0 \<and> pt_column p = 0"

text \<open>The comparison on 64 bit targets, of \<open>(row << 32) | column\<close>.\<close>

definition pt_key :: "point \<Rightarrow> nat" where
  "pt_key p = push_bit 32 (pt_row p) OR pt_column p"

section \<open>Bytes and strings\<close>

abbreviation byte :: "char \<Rightarrow> nat" where
  "byte b \<equiv> of_char b"

definition is_utf8_char_boundary :: "char \<Rightarrow> bool" where
  "is_utf8_char_boundary b \<longleftrightarrow> - 0x40 \<le> sint (of_char b :: u8)"

abbreviation newline :: char where "newline \<equiv> CHR 0x0A"
abbreviation tab :: char where "tab \<equiv> CHR 0x09"

text \<open>Methods of \<open>str\<close>.\<close>

definition str_is_char_boundary :: "string \<Rightarrow> nat \<Rightarrow> bool" where
  "str_is_char_boundary s i \<longleftrightarrow> i = 0 \<or> i = length s \<or> i < length s \<and> is_utf8_char_boundary (s ! i)"

definition str_split_at :: "string \<Rightarrow> nat \<Rightarrow> (string \<times> string) option" where
  "str_split_at s i = (if str_is_char_boundary s i then Some (take i s, drop i s) else None)"

definition str_slice :: "string \<Rightarrow> nat \<Rightarrow> nat \<Rightarrow> string option" where
  "str_slice s i j = (if i \<le> j \<and> str_is_char_boundary s i \<and> str_is_char_boundary s j then Some (take (j - i) (drop i s)) else None)"

fun down_to_boundary :: "string \<Rightarrow> nat \<Rightarrow> nat" where
  "down_to_boundary s 0 = 0"
| "down_to_boundary s (Suc i) = (if str_is_char_boundary s (Suc i) then Suc i else down_to_boundary s i)"

definition str_floor_char_boundary :: "string \<Rightarrow> nat \<Rightarrow> nat" where
  "str_floor_char_boundary s i = (if length s \<le> i then length s else down_to_boundary s i)"

text \<open>Past the end no offset is a boundary: the search would not return.\<close>

function up_to_boundary :: "string \<Rightarrow> nat \<Rightarrow> nat option" where
  "up_to_boundary s i =
     (if str_is_char_boundary s i then Some i else if length s < i then None else up_to_boundary s (Suc i))"
  by pat_completeness auto
termination by (relation "measure (\<lambda>(s, i). Suc (length s) - i)") auto

declare up_to_boundary.simps [simp del]

definition str_ceil_char_boundary :: "string \<Rightarrow> nat \<Rightarrow> nat" where
  "str_ceil_char_boundary s i = (if length s \<le> i then length s else the (up_to_boundary s i))"

section \<open>Bitmaps\<close>

type_synonym bitmap = u128

definition MAX_BASE :: nat where "MAX_BASE = 128"
definition MIN_BASE :: nat where "MIN_BASE = MAX_BASE div 2"

text \<open>A shift by the width or more panics with overflow checks and is by the remainder without;
  \<open>unbounded_shl\<close> and \<open>unbounded_shr\<close> are \<open>push_bit\<close> and \<open>drop_bit\<close>.\<close>

definition shl :: "bool \<Rightarrow> bitmap \<Rightarrow> nat \<Rightarrow> bitmap option" where
  "shl debug x n = (if n < 128 then Some (push_bit n x) else if debug then None else Some (push_bit (n mod 128) x))"

definition shr :: "bool \<Rightarrow> bitmap \<Rightarrow> nat \<Rightarrow> bitmap option" where
  "shr debug x n = (if n < 128 then Some (drop_bit n x) else if debug then None else Some (drop_bit (n mod 128) x))"

definition saturating_shl_mask :: "nat \<Rightarrow> bitmap" where
  "saturating_shl_mask offset = push_bit offset 1 - 1"

definition saturating_shr_mask :: "nat \<Rightarrow> bitmap" where
  "saturating_shr_mask offset = NOT (drop_bit offset (- 1))"

record chunk =
  ck_chars :: bitmap
  ck_chars_utf16 :: bitmap
  ck_newlines :: bitmap
  ck_tabs :: bitmap
  ck_text :: string

record chunk_slice =
  sl_chars :: bitmap
  sl_chars_utf16 :: bitmap
  sl_newlines :: bitmap
  sl_tabs :: bitmap
  sl_text :: string

section \<open>Chunks\<close>

text \<open>The inner loop of \<open>Chunk::new\<close> for one of the four masks of a group of bytes, and the loop over the groups.\<close>

fun group_mask :: "(char \<Rightarrow> bool) \<Rightarrow> u8 \<Rightarrow> nat \<Rightarrow> string \<Rightarrow> u8" where
  "group_mask P m ix [] = m"
| "group_mask P m ix (b # bs) = group_mask P (m OR push_bit ix (of_bool (P b))) (Suc ix) bs"

function group_masks :: "(char \<Rightarrow> bool) \<Rightarrow> string \<Rightarrow> u8 list" where
  "group_masks P bytes = (if bytes = [] then [] else group_mask P 0 0 (take 8 bytes) # group_masks P (drop 8 bytes))"
  by pat_completeness auto
termination by (relation "measure (\<lambda>(P, bytes). length bytes)") auto

declare group_masks.simps [simp del]

definition from_le_bytes :: "u8 list \<Rightarrow> bitmap" where
  "from_le_bytes bs = foldr (\<lambda>b x. ucast b OR push_bit 8 x) bs 0"

definition text_bitmap :: "(char \<Rightarrow> bool) \<Rightarrow> string \<Rightarrow> bitmap" where
  "text_bitmap P text = from_le_bytes (vec_resize (MAX_BASE div 8) 0 (group_masks P text))"

definition ck_new :: "string \<Rightarrow> chunk option" where
  "ck_new text =
     (if MAX_BASE < length text then None
      else let chars = text_bitmap is_utf8_char_boundary text
           in Some \<lparr>ck_chars = chars, ck_chars_utf16 = push_bit 1 (text_bitmap (\<lambda>b. 240 \<le> byte b) text) OR chars,
                ck_newlines = text_bitmap (\<lambda>b. b = newline) text, ck_tabs = text_bitmap (\<lambda>b. b = tab) text, ck_text = text\<rparr>)"

definition ck_as_slice :: "chunk \<Rightarrow> chunk_slice" where
  "ck_as_slice c = \<lparr>sl_chars = ck_chars c, sl_chars_utf16 = ck_chars_utf16 c, sl_newlines = ck_newlines c, sl_tabs = ck_tabs c, sl_text = ck_text c\<rparr>"

definition ck_of_slice :: "chunk_slice \<Rightarrow> chunk option" where
  "ck_of_slice s =
     (if MAX_BASE < length (sl_text s) then None
      else Some \<lparr>ck_chars = sl_chars s, ck_chars_utf16 = sl_chars_utf16 s, ck_newlines = sl_newlines s, ck_tabs = sl_tabs s, ck_text = sl_text s\<rparr>)"

definition ck_append :: "bool \<Rightarrow> chunk_slice \<Rightarrow> chunk \<Rightarrow> chunk option" where
  "ck_append debug sl c =
     (if sl_text sl = [] then Some c
      else let base_ix = length (ck_text c) in do {
        chars \<leftarrow> shl debug (sl_chars sl) base_ix;
        chars_utf16 \<leftarrow> shl debug (sl_chars_utf16 sl) base_ix;
        newlines \<leftarrow> shl debug (sl_newlines sl) base_ix;
        tabs \<leftarrow> shl debug (sl_tabs sl) base_ix;
        if MAX_BASE < length (ck_text c @ sl_text sl) then None
        else Some \<lparr>ck_chars = ck_chars c OR chars, ck_chars_utf16 = ck_chars_utf16 c OR chars_utf16,
               ck_newlines = ck_newlines c OR newlines, ck_tabs = ck_tabs c OR tabs, ck_text = ck_text c @ sl_text sl\<rparr> })"

definition ck_push_str :: "bool \<Rightarrow> string \<Rightarrow> chunk \<Rightarrow> chunk option" where
  "ck_push_str debug text c = do { new \<leftarrow> ck_new text; ck_append debug (ck_as_slice new) c }"

definition ck_prepend :: "bool \<Rightarrow> chunk_slice \<Rightarrow> chunk \<Rightarrow> chunk option" where
  "ck_prepend debug sl c =
     (if sl_text sl = [] then Some c
      else if ck_text c = [] then ck_new (sl_text sl)
      else let shift = length (sl_text sl) in do {
        chars \<leftarrow> shl debug (ck_chars c) shift;
        chars_utf16 \<leftarrow> shl debug (ck_chars_utf16 c) shift;
        newlines \<leftarrow> shl debug (ck_newlines c) shift;
        tabs \<leftarrow> shl debug (ck_tabs c) shift;
        if MAX_BASE < length (sl_text sl @ ck_text c) then None
        else Some \<lparr>ck_chars = sl_chars sl OR chars, ck_chars_utf16 = sl_chars_utf16 sl OR chars_utf16,
               ck_newlines = sl_newlines sl OR newlines, ck_tabs = sl_tabs sl OR tabs, ck_text = sl_text sl @ ck_text c\<rparr> })"

definition ck_prepend_str :: "bool \<Rightarrow> string \<Rightarrow> chunk \<Rightarrow> chunk option" where
  "ck_prepend_str debug text c = do { new \<leftarrow> ck_new text; ck_prepend debug (ck_as_slice new) c }"

definition ck_is_char_boundary :: "chunk \<Rightarrow> nat \<Rightarrow> bool" where
  "ck_is_char_boundary c offset \<longleftrightarrow> push_bit (as_u32 offset) 1 AND ck_chars c \<noteq> 0 \<or> offset = length (ck_text c)"

text \<open>The loop of \<open>Chunk::floor_char_boundary\<close>, which does not look at the byte at 0.\<close>

fun floor_loop :: "string \<Rightarrow> nat \<Rightarrow> nat" where
  "floor_loop text 0 = 0"
| "floor_loop text (Suc i) = (if is_utf8_char_boundary (text ! Suc i) then Suc i else floor_loop text i)"

definition ck_floor_char_boundary :: "chunk \<Rightarrow> nat \<Rightarrow> nat" where
  "ck_floor_char_boundary c index = (if length (ck_text c) \<le> index then length (ck_text c) else floor_loop (ck_text c) index)"

definition ck_assert_char_boundary :: "bool \<Rightarrow> bool \<Rightarrow> chunk \<Rightarrow> nat \<Rightarrow> bool option" where
  "ck_assert_char_boundary debug PANIC c offset =
     (if ck_is_char_boundary c offset then Some True else if PANIC \<or> debug then None else Some False)"

section \<open>Slices\<close>

definition sl_empty :: chunk_slice where
  "sl_empty = \<lparr>sl_chars = 0, sl_chars_utf16 = 0, sl_newlines = 0, sl_tabs = 0, sl_text = []\<rparr>"

definition sl_is_char_boundary :: "chunk_slice \<Rightarrow> nat \<Rightarrow> bool" where
  "sl_is_char_boundary s offset \<longleftrightarrow> push_bit (as_u32 offset) 1 AND sl_chars s \<noteq> 0 \<or> offset = length (sl_text s)"

definition sl_assert_char_boundary :: "bool \<Rightarrow> chunk_slice \<Rightarrow> nat \<Rightarrow> bool option" where
  "sl_assert_char_boundary PANIC s offset =
     (if sl_is_char_boundary s offset then Some True else if PANIC then None else Some False)"

definition sl_split_at :: "bool \<Rightarrow> chunk_slice \<Rightarrow> nat \<Rightarrow> (chunk_slice \<times> chunk_slice) option" where
  "sl_split_at debug s mid =
     (if mid = MAX_BASE then Some (s, sl_empty)
      else do {
        one \<leftarrow> shl debug 1 mid;
        let m = one - 1;
        (left_text, right_text) \<leftarrow> str_split_at (sl_text s) mid;
        chars \<leftarrow> shr debug (sl_chars s) mid;
        chars_utf16 \<leftarrow> shr debug (sl_chars_utf16 s) mid;
        newlines \<leftarrow> shr debug (sl_newlines s) mid;
        tabs \<leftarrow> shr debug (sl_tabs s) mid;
        Some (\<lparr>sl_chars = sl_chars s AND m, sl_chars_utf16 = sl_chars_utf16 s AND m, sl_newlines = sl_newlines s AND m,
                sl_tabs = sl_tabs s AND m, sl_text = left_text\<rparr>,
              \<lparr>sl_chars = chars, sl_chars_utf16 = chars_utf16, sl_newlines = newlines, sl_tabs = tabs, sl_text = right_text\<rparr>) })"

text \<open>An offset that is not a boundary is logged and moved: the start up, the end down.\<close>

definition sl_slice :: "bool \<Rightarrow> chunk_slice \<Rightarrow> nat \<Rightarrow> nat \<Rightarrow> chunk_slice option" where
  "sl_slice debug s range_start range_end =
     (if range_start = MAX_BASE then Some sl_empty
      else do {
        start_ok \<leftarrow> sl_assert_char_boundary False s range_start;
        let range_start = (if start_ok then range_start else str_ceil_char_boundary (sl_text s) range_start);
        end_ok \<leftarrow> sl_assert_char_boundary False s range_end;
        let range_end = (if end_ok then range_end else if range_end < range_start then range_start
                         else str_floor_char_boundary (sl_text s) range_end);
        let m = push_bit (as_u32 range_end) 1 - 1;
        chars \<leftarrow> shr debug (sl_chars s AND m) range_start;
        chars_utf16 \<leftarrow> shr debug (sl_chars_utf16 s AND m) range_start;
        newlines \<leftarrow> shr debug (sl_newlines s AND m) range_start;
        tabs \<leftarrow> shr debug (sl_tabs s AND m) range_start;
        text \<leftarrow> str_slice (sl_text s) range_start range_end;
        Some \<lparr>sl_chars = chars, sl_chars_utf16 = chars_utf16, sl_newlines = newlines, sl_tabs = tabs, sl_text = text\<rparr> })"

definition ck_slice :: "bool \<Rightarrow> chunk \<Rightarrow> nat \<Rightarrow> nat \<Rightarrow> chunk_slice option" where
  "ck_slice debug c range_start range_end = sl_slice debug (ck_as_slice c) range_start range_end"

end
