(* ===== verification/Zed_Chunk_Query.thy ===== *)
theory Zed_Chunk_Query
  imports Zed_Chunk
begin

text \<open>
  The queries of \<open>ChunkSlice\<close> (\<open>crates/rope/src/chunk.rs\<close>): summaries and the conversions between byte offsets,
  points and UTF-16 positions, computed from the bitmaps, and the iterator \<open>Tabs\<close>; with the struct \<open>TextSummary\<close>
  of \<open>rope.rs\<close>.  Subtractions of \<open>u32\<close> and \<open>usize\<close> here are of a smaller value when the bitmaps describe the text.
\<close>

section \<open>Summaries\<close>

record text_summary =
  ts_len :: nat
  ts_chars :: nat
  ts_len_utf16 :: nat
  ts_lines :: point
  ts_first_line_chars :: nat
  ts_last_line_chars :: nat
  ts_last_line_len_utf16 :: nat
  ts_longest_row :: nat
  ts_longest_row_chars :: nat

definition sl_len :: "chunk_slice \<Rightarrow> nat" where
  "sl_len s = length (sl_text s)"

definition sl_len_utf16 :: "chunk_slice \<Rightarrow> nat" where
  "sl_len_utf16 s = count_ones (sl_chars_utf16 s)"

definition sl_lines :: "chunk_slice \<Rightarrow> point" where
  "sl_lines s = Point (count_ones (sl_newlines s)) (leading_zeros (sl_newlines s) - (128 - as_u32 (length (sl_text s))))"

definition sl_first_line_chars :: "chunk_slice \<Rightarrow> nat" where
  "sl_first_line_chars s = count_ones (sl_chars s AND saturating_shl_mask (trailing_zeros (sl_newlines s)))"

definition sl_last_line_chars :: "chunk_slice \<Rightarrow> nat" where
  "sl_last_line_chars s = count_ones (sl_chars s AND saturating_shr_mask (leading_zeros (sl_newlines s)))"

definition sl_last_line_len_utf16 :: "chunk_slice \<Rightarrow> nat" where
  "sl_last_line_len_utf16 s = count_ones (sl_chars_utf16 s AND saturating_shr_mask (leading_zeros (sl_newlines s)))"

text \<open>The counts of a row are \<open>u8\<close>.\<close>

definition as_u8 :: "nat \<Rightarrow> nat" where
  "as_u8 n = n mod 2 ^ 8"

lemma newlines_decrease: "0 < newlines \<Longrightarrow> unat (drop_bit 1 (drop_bit k newlines)) < unat (newlines :: bitmap)"
proof -
  assume "0 < newlines"
  then have "0 < unat newlines" by (simp add: word_less_nat_alt)
  moreover have "unat newlines div 2 ^ k div 2 \<le> unat newlines div 2" by (simp add: div_le_mono)
  ultimately have "unat newlines div 2 ^ k div 2 < unat newlines" by simp
  then show ?thesis unfolding unat_drop_bit by simp
qed

function longest_row_loop :: "bitmap \<Rightarrow> bitmap \<Rightarrow> nat \<Rightarrow> nat \<Rightarrow> nat \<Rightarrow> nat \<Rightarrow> (nat \<times> nat) \<times> nat" where
  "longest_row_loop chars newlines total_chars row longest_row longest_row_chars =
     (if 0 < newlines then
        let newline_ix = trailing_zeros newlines;
            row_chars = as_u8 (count_ones (chars AND (push_bit newline_ix 1 - 1)));
            total_chars = total_chars + row_chars;
            (longest_row, longest_row_chars) = (if longest_row_chars < row_chars then (row, row_chars) else (longest_row, longest_row_chars))
        in longest_row_loop (drop_bit 1 (drop_bit newline_ix chars)) (drop_bit 1 (drop_bit newline_ix newlines))
             (total_chars + 1) (row + 1) longest_row longest_row_chars
      else
        let row_chars = as_u8 (count_ones chars);
            total_chars = total_chars + row_chars
        in if longest_row_chars < row_chars then ((row, row_chars), total_chars)
           else ((longest_row, longest_row_chars), total_chars))"
  by pat_completeness auto
termination
  by (relation "measure (\<lambda>(_, newlines, _). unat newlines)") (simp_all only: in_measure prod.case wf_measure newlines_decrease)

declare longest_row_loop.simps [simp del]

text \<open>The longest row, and the number of characters, which the code stores through a reference.\<close>

definition sl_longest_row :: "chunk_slice \<Rightarrow> (nat \<times> nat) \<times> nat" where
  "sl_longest_row s = longest_row_loop (sl_chars s) (sl_newlines s) 0 0 0 0"

definition sl_text_summary :: "chunk_slice \<Rightarrow> text_summary" where
  "sl_text_summary s =
     (let ((longest_row, longest_row_chars), chars) = sl_longest_row s
      in \<lparr>ts_len = sl_len s, ts_chars = chars, ts_len_utf16 = sl_len_utf16 s, ts_lines = sl_lines s,
          ts_first_line_chars = sl_first_line_chars s, ts_last_line_chars = sl_last_line_chars s,
          ts_last_line_len_utf16 = sl_last_line_len_utf16 s, ts_longest_row = longest_row, ts_longest_row_chars = longest_row_chars\<rparr>)"

section \<open>Offsets and points\<close>

definition sl_offset_to_point :: "chunk_slice \<Rightarrow> nat \<Rightarrow> point" where
  "sl_offset_to_point s offset =
     (let m = push_bit (as_u32 offset) 1 - 1;
          row = count_ones (sl_newlines s AND m);
          newline_ix = 128 - leading_zeros (sl_newlines s AND m);
          column = as_u32 (offset - newline_ix)
      in Point row column)"

definition sl_offset_range_for_row :: "bool \<Rightarrow> chunk_slice \<Rightarrow> nat \<Rightarrow> (nat \<times> nat) option" where
  "sl_offset_range_for_row debug s row = do {
     row_start \<leftarrow> (if 0 < row then map_option Suc (nth_set_bit debug (sl_newlines s) row) else Some 0);
     let row_len = (if row_start = MAX_BASE then 0
       else min (trailing_zeros (drop_bit row_start (sl_newlines s))) (as_u32 (length (sl_text s) - row_start)));
     Some (row_start, row_start + row_len) }"

text \<open>The macro \<open>debug_panic!\<close> panics with debug assertions and logs without.\<close>

definition debug_panic :: "bool \<Rightarrow> 'a \<Rightarrow> 'a option" where
  "debug_panic debug x = (if debug then None else Some x)"

definition sl_point_to_offset :: "bool \<Rightarrow> chunk_slice \<Rightarrow> point \<Rightarrow> nat option" where
  "sl_point_to_offset debug s p =
     (if pt_row (sl_lines s) < pt_row p then debug_panic debug (sl_len s)
      else do {
        (row_start, row_end) \<leftarrow> sl_offset_range_for_row debug s (pt_row p);
        if as_u32 (row_end - row_start) < pt_column p then debug_panic debug row_end
        else Some (row_start + pt_column p) })"

definition sl_floor_char_boundary :: "chunk_slice \<Rightarrow> nat \<Rightarrow> nat" where
  "sl_floor_char_boundary s index = str_floor_char_boundary (sl_text s) index"

definition sl_offset_to_offset_utf16 :: "chunk_slice \<Rightarrow> nat \<Rightarrow> nat" where
  "sl_offset_to_offset_utf16 s offset = count_ones (sl_chars_utf16 s AND (push_bit (as_u32 offset) 1 - 1))"

definition sl_point_to_offset_utf16 :: "bool \<Rightarrow> chunk_slice \<Rightarrow> point \<Rightarrow> nat option" where
  "sl_point_to_offset_utf16 debug s p =
     (if pt_row (sl_lines s) < pt_row p then debug_panic debug (sl_len_utf16 s)
      else map_option (sl_offset_to_offset_utf16 s) (sl_point_to_offset debug s p))"

definition sl_offset_utf16_to_offset :: "bool \<Rightarrow> chunk_slice \<Rightarrow> nat \<Rightarrow> nat option" where
  "sl_offset_utf16_to_offset debug s target =
     (if target = 0 then Some 0
      else do {
        bit_ix \<leftarrow> nth_set_bit debug (sl_chars_utf16 s) target;
        let ix = bit_ix + 1;
        if ix = MAX_BASE then Some MAX_BASE
        else
          let utf8_additional_len = min (trailing_zeros (drop_bit ix (sl_chars_utf16 s))) (length (sl_text s) - ix)
          in Some (ix + utf8_additional_len) })"

definition sl_offset_to_point_utf16 :: "chunk_slice \<Rightarrow> nat \<Rightarrow> point" where
  "sl_offset_to_point_utf16 s offset =
     (let m = saturating_shl_mask (as_u32 offset);
          row = count_ones (sl_newlines s AND saturating_shl_mask (as_u32 offset));
          newline_ix = 128 - leading_zeros (sl_newlines s AND m);
          column = (if newline_ix = MAX_BASE then 0 else count_ones (drop_bit newline_ix (sl_chars_utf16 s AND m)))
      in Point row column)"

definition sl_point_to_point_utf16 :: "bool \<Rightarrow> chunk_slice \<Rightarrow> point \<Rightarrow> point option" where
  "sl_point_to_point_utf16 debug s p = map_option (sl_offset_to_point_utf16 s) (sl_point_to_offset debug s p)"

definition sl_point_utf16_to_offset :: "bool \<Rightarrow> chunk_slice \<Rightarrow> point \<Rightarrow> bool \<Rightarrow> nat option" where
  "sl_point_utf16_to_offset debug s p clip =
     (if pt_row (sl_lines s) < pt_row p then debug_panic (debug \<and> \<not> clip) (sl_len s)
      else do {
        (row_start, row_end) \<leftarrow> sl_offset_range_for_row debug s (pt_row p);
        line \<leftarrow> sl_slice debug s row_start row_end;
        if sl_last_line_len_utf16 line < pt_column p then debug_panic (debug \<and> \<not> clip) row_end
        else if 0 < pt_column p then do {
          column \<leftarrow> sl_offset_utf16_to_offset debug line (pt_column p);
          let offset = row_start + column;
          if \<not> str_is_char_boundary (sl_text s) offset
          then debug_panic (debug \<and> \<not> clip) (down_to_boundary (sl_text s) (offset - 1))
          else Some offset }
        else Some row_start })"

definition sl_unclipped_point_utf16_to_point :: "bool \<Rightarrow> chunk_slice \<Rightarrow> point \<Rightarrow> point option" where
  "sl_unclipped_point_utf16_to_point debug s p =
     (if pt_row (sl_lines s) < pt_row p then Some (sl_lines s)
      else do {
        (row_start, row_end) \<leftarrow> sl_offset_range_for_row debug s (pt_row p);
        line \<leftarrow> sl_slice debug s row_start row_end;
        if pt_column p = 0 then Some (Point (pt_row p) 0)
        else if as_u32 (sl_len_utf16 line) \<le> pt_column p then Some (Point (pt_row p) (as_u32 (sl_len line)))
        else do {
          column \<leftarrow> sl_offset_utf16_to_offset debug line (pt_column p);
          Some (Point (pt_row p) (as_u32 (down_to_boundary (sl_text line) column))) } })"

section \<open>Clipping\<close>

text \<open>\<open>GraphemeCursor::is_boundary\<close> of the crate \<open>unicode_segmentation\<close> is the argument \<open>grapheme\<close>.  The loop of
  \<open>clip_point\<close> panics when it would go below zero; \<open>None\<close> also when it does not end.\<close>

partial_function (option) clip_point_loop :: "(string \<Rightarrow> nat \<Rightarrow> bool) \<Rightarrow> chunk_slice \<Rightarrow> bias \<Rightarrow> nat \<Rightarrow> nat option" where
  "clip_point_loop grapheme line b column =
     (if sl_is_char_boundary line column \<and> grapheme (sl_text line) column then Some column
      else if b = BLeft then (if column = 0 then None else clip_point_loop grapheme line b (column - 1))
      else clip_point_loop grapheme line b (column + 1))"

definition sl_clip_point :: "(string \<Rightarrow> nat \<Rightarrow> bool) \<Rightarrow> bool \<Rightarrow> chunk_slice \<Rightarrow> point \<Rightarrow> bias \<Rightarrow> point option" where
  "sl_clip_point grapheme debug s p b =
     (if pt_row (sl_lines s) < pt_row p then Some (sl_lines s)
      else do {
        (row_start, row_end) \<leftarrow> sl_offset_range_for_row debug s (pt_row p);
        line \<leftarrow> sl_slice debug s row_start row_end;
        if pt_column p = 0 then Some p
        else if as_u32 (sl_len line) \<le> pt_column p then Some (Point (pt_row p) (as_u32 (sl_len line)))
        else
          let column = pt_column p; bytes = sl_text line
          in if byte (bytes ! (column - 1)) < 128 \<and> byte (bytes ! column) < 128 then Some (Point (pt_row p) (as_u32 column))
             else map_option (\<lambda>column. Point (pt_row p) (as_u32 column)) (clip_point_loop grapheme line b column) })"

definition sl_clip_offset_utf16 :: "bool \<Rightarrow> chunk_slice \<Rightarrow> nat \<Rightarrow> bias \<Rightarrow> nat option" where
  "sl_clip_offset_utf16 debug s target b =
     (if target = 0 then Some 0
      else if sl_len_utf16 s \<le> target then Some (sl_len_utf16 s)
      else do {
        offset \<leftarrow> sl_offset_utf16_to_offset debug s target;
        offset \<leftarrow> (if b = BLeft then Some (down_to_boundary (sl_text s) offset) else up_to_boundary (sl_text s) offset);
        Some (sl_offset_to_offset_utf16 s offset) })"

definition sl_clip_point_utf16 :: "bool \<Rightarrow> chunk_slice \<Rightarrow> point \<Rightarrow> bias \<Rightarrow> point option" where
  "sl_clip_point_utf16 debug s p b =
     (if pt_row (sl_lines s) < pt_row p then Some (Point (pt_row (sl_lines s)) (sl_last_line_len_utf16 s))
      else do {
        (row_start, row_end) \<leftarrow> sl_offset_range_for_row debug s (pt_row p);
        line \<leftarrow> sl_slice debug s row_start row_end;
        column \<leftarrow> sl_clip_offset_utf16 debug line (pt_column p) b;
        Some (Point (pt_row p) (as_u32 column)) })"

section \<open>Tabs\<close>

record tabs_iter =
  ta_tabs :: bitmap
  ta_chars :: bitmap

definition sl_tabs_iter :: "chunk_slice \<Rightarrow> tabs_iter" where
  "sl_tabs_iter s = \<lparr>ta_tabs = sl_tabs s, ta_chars = sl_chars s\<rparr>"

text \<open>A position is the byte offset and the offset in characters.\<close>

definition tabs_next :: "tabs_iter \<Rightarrow> ((nat \<times> nat) \<times> tabs_iter) option" where
  "tabs_next t =
     (if ta_tabs t = 0 then None
      else let tab_offset = trailing_zeros (ta_tabs t);
               chars_mask = push_bit tab_offset 1 - 1;
               char_offset = count_ones (ta_chars t AND chars_mask)
           in Some ((tab_offset, char_offset), t\<lparr>ta_tabs := ta_tabs t XOR push_bit tab_offset 1\<rparr>))"

end
