(* ===== verification/Zed_Chunk_Facts.thy ===== *)
theory Zed_Chunk_Facts
  imports Zed_Chunk_Query
begin

text \<open>
  The bitmaps of a chunk describe its text: \<open>slice_ok\<close> is the invariant of chunks and slices, which every
  operation that builds one keeps.  The text is UTF-8 as far as that matters here: every character has the number
  of bytes that its first byte announces.
\<close>

section \<open>Characters\<close>

text \<open>The characters of a string, each with its bytes.\<close>

function str_chars :: "string \<Rightarrow> string list" where
  "str_chars [] = []"
| "str_chars (b # bs) =
     (b # takeWhile (\<lambda>b. \<not> is_utf8_char_boundary b) bs) # str_chars (dropWhile (\<lambda>b. \<not> is_utf8_char_boundary b) bs)"
  by pat_completeness auto
termination by (relation "measure length") (auto simp: length_dropWhile_le le_imp_less_Suc)

definition utf8_width :: "char \<Rightarrow> nat" where
  "utf8_width b = (if byte b < 128 then 1 else if byte b < 224 then 2 else if byte b < 240 then 3 else 4)"

definition utf8_ok :: "string \<Rightarrow> bool" where
  "utf8_ok s \<longleftrightarrow> (\<forall>c \<in> set (str_chars s). is_utf8_char_boundary (hd c) \<and> length c = utf8_width (hd c))"

lemma byte_less: "byte b < 256"
  using of_char_eq_iff nat_of_char_less_256 by simp

lemma boundary_byte: "is_utf8_char_boundary b \<longleftrightarrow> byte b < 128 \<or> 192 \<le> byte b"
proof -
  let ?w = "of_char b :: u8" and ?k = "int (byte b)"
  have "uint (of_nat n :: u8) = int n" if "n < 256" for n
    using that by (simp add: unsigned_of_nat take_bit_eq_mod)
  from this [OF byte_less] have w: "uint ?w = ?k" by (simp only: of_nat_of_char)
  have "odd (n div 128) \<longleftrightarrow> 128 \<le> n" if "n < 256" for n :: nat
  proof (cases "n < 128")
    case False
    then have "n div 128 = 1" using that by (intro div_nat_eqI) simp_all
    then show ?thesis using False by simp
  qed simp
  from this [OF byte_less] have "bit (byte b) 7 \<longleftrightarrow> 128 \<le> byte b" by (simp add: bit_iff_odd)
  then have "bit ?k 7 \<longleftrightarrow> 128 \<le> byte b" by (simp only: bit_of_nat_iff_bit)
  moreover have "take_bit 8 ?k = ?k" using byte_less [of b] by (simp add: take_bit_eq_mod)
  ultimately have "sint ?w = ?k - (if 128 \<le> byte b then 256 else 0)"
    using signed_take_bit_eq_take_bit_minus [of 7 ?k] by (simp add: sint_uint w)
  then show ?thesis using byte_less [of b] by (auto simp: is_utf8_char_boundary_def)
qed

lemma str_chars_append: "y = [] \<or> is_utf8_char_boundary (hd y) \<Longrightarrow> str_chars (x @ y) = str_chars x @ str_chars y"
proof (induction x rule: str_chars.induct)
  case (2 b bs)
  show ?case
  proof (cases "dropWhile (\<lambda>b. \<not> is_utf8_char_boundary b) bs = []")
    case True
    then have "\<forall>b \<in> set bs. \<not> is_utf8_char_boundary b" by (simp add: dropWhile_eq_Nil_conv)
    then have "takeWhile (\<lambda>b. \<not> is_utf8_char_boundary b) (bs @ y) = bs" "dropWhile (\<lambda>b. \<not> is_utf8_char_boundary b) (bs @ y) = y"
      "takeWhile (\<lambda>b. \<not> is_utf8_char_boundary b) bs = bs"
      using 2(2) by (cases y; simp add: takeWhile_eq_all_conv)+
    then show ?thesis using True by (simp only: append_Cons append_Nil str_chars.simps)
  next
    case False
    then obtain x where x: "x \<in> set bs" "\<not> \<not> is_utf8_char_boundary x" by (auto simp: dropWhile_eq_Nil_conv)
    show ?thesis
      using 2(1) [OF 2(2)] takeWhile_append1 [where P = "\<lambda>b. \<not> is_utf8_char_boundary b", OF x, of y]
        dropWhile_append1 [where P = "\<lambda>b. \<not> is_utf8_char_boundary b", OF x, of y]
      by (simp only: append_Cons str_chars.simps)
  qed
qed simp

lemma utf8_ok_Nil [simp]: "utf8_ok []"
  by (simp add: utf8_ok_def)

lemma utf8_ok_hd: "utf8_ok s \<Longrightarrow> s = [] \<or> is_utf8_char_boundary (hd s)"
  by (cases s) (simp_all add: utf8_ok_def)

lemma utf8_ok_append [simp]: "utf8_ok x \<Longrightarrow> utf8_ok y \<Longrightarrow> utf8_ok (x @ y)"
  using str_chars_append [OF utf8_ok_hd] by (auto simp: utf8_ok_def)

lemma utf8_ok_split: "utf8_ok s \<Longrightarrow> str_is_char_boundary s i \<Longrightarrow> utf8_ok (take i s) \<and> utf8_ok (drop i s)"
proof -
  assume s: "utf8_ok s" "str_is_char_boundary s i"
  then have "drop i s = [] \<or> is_utf8_char_boundary (hd (drop i s))"
    using utf8_ok_hd [of s] by (auto simp: str_is_char_boundary_def hd_drop_conv_nth)
  then have "str_chars (take i s @ drop i s) = str_chars (take i s) @ str_chars (drop i s)" by (rule str_chars_append)
  then have "set (str_chars s) = set (str_chars (take i s)) \<union> set (str_chars (drop i s))" by simp
  then show ?thesis using s(1) unfolding utf8_ok_def by blast
qed

text \<open>Induction over the characters.\<close>

lemma utf8_induct [consumes 1, case_names Nil char]:
  assumes "utf8_ok s"
    and "P []"
    and "\<And>b c s. is_utf8_char_boundary b \<Longrightarrow> \<forall>x \<in> set c. \<not> is_utf8_char_boundary x \<Longrightarrow> Suc (length c) = utf8_width b \<Longrightarrow>
      utf8_ok s \<Longrightarrow> P s \<Longrightarrow> P (b # c @ s)"
  shows "P s"
  using assms(1)
proof (induction s rule: str_chars.induct)
  case (2 b bs)
  let ?c = "takeWhile (\<lambda>b. \<not> is_utf8_char_boundary b) bs" and ?s = "dropWhile (\<lambda>b. \<not> is_utf8_char_boundary b) bs"
  have "utf8_ok ?s" "is_utf8_char_boundary b" "Suc (length ?c) = utf8_width b" using 2(2) by (simp_all add: utf8_ok_def)
  then have "P (b # ?c @ ?s)" using 2(1) by (intro assms(3)) (auto dest: set_takeWhileD)
  then show ?case by simp
qed (rule assms(2))

text \<open>What the bytes around a byte are.\<close>

lemma utf8_next:
  assumes "utf8_ok s" "i < length s"
  shows "(240 \<le> byte (s ! i) \<longrightarrow> Suc i < length s \<and> \<not> is_utf8_char_boundary (s ! Suc i)) \<and>
    (byte (s ! i) < 128 \<longrightarrow> Suc i < length s \<longrightarrow> is_utf8_char_boundary (s ! Suc i))"
  using assms
proof (induction s arbitrary: i rule: utf8_induct)
  case (char b c s)
  show ?case
  proof (cases "i \<le> length c")
    case i: True
    show ?thesis
    proof (cases i)
      case 0
      have "utf8_width b \<noteq> 1 \<Longrightarrow> c \<noteq> [] \<and> 128 \<le> byte b" using char.hyps(3) by (auto simp: utf8_width_def split: if_splits)
      moreover have "240 \<le> byte b \<Longrightarrow> c \<noteq> []" using char.hyps(3) by (auto simp: utf8_width_def)
      moreover have "byte b < 128 \<Longrightarrow> c = []" using char.hyps(3) by (auto simp: utf8_width_def)
      moreover have "c \<noteq> [] \<Longrightarrow> \<not> is_utf8_char_boundary (c ! 0)" using char.hyps(2) by simp
      moreover have "s \<noteq> [] \<Longrightarrow> is_utf8_char_boundary (s ! 0)" using utf8_ok_hd [OF char.hyps(4)] by (auto simp: hd_conv_nth)
      ultimately show ?thesis using 0 by (auto simp: nth_append)
    next
      case (Suc j)
      then have "(b # c @ s) ! i = c ! j" "c ! j \<in> set c" using i by (simp_all add: nth_append)
      then have "\<not> is_utf8_char_boundary ((b # c @ s) ! i)" using char.hyps(2) by simp
      then show ?thesis by (auto simp: boundary_byte)
    qed
  next
    case False
    have at: "(b # c @ s) ! k = s ! (k - Suc (length c))" if "\<not> k \<le> length c" for k
      using that nth_append [of "b # c" s k] by simp
    have "(b # c @ s) ! i = s ! (i - Suc (length c))" "(b # c @ s) ! Suc i = s ! Suc (i - Suc (length c))"
      using False at [of i] at [of "Suc i"] Suc_diff_Suc [of "length c" i] by simp_all
    moreover have "i - Suc (length c) < length s" using False char.prems by auto
    ultimately show ?thesis using char.IH [of "i - Suc (length c)"] False by auto
  qed
qed simp

section \<open>The invariant\<close>

text \<open>Bit \<open>i\<close> of a bitmap says \<open>P i\<close> for the bytes of the text, and is clear past them.\<close>

definition bits_are :: "bitmap \<Rightarrow> (nat \<Rightarrow> bool) \<Rightarrow> nat \<Rightarrow> bool" where
  "bits_are x P n \<longleftrightarrow> (\<forall>i. bit x i \<longleftrightarrow> i < n \<and> P i)"

text \<open>A UTF-16 code unit is counted at the first byte of a character and, for the second of a surrogate pair, at the next.\<close>

definition unit_at :: "string \<Rightarrow> nat \<Rightarrow> bool" where
  "unit_at s i \<longleftrightarrow> is_utf8_char_boundary (s ! i) \<or> 0 < i \<and> 240 \<le> byte (s ! (i - 1))"

definition slice_ok :: "chunk_slice \<Rightarrow> bool" where
  "slice_ok s \<longleftrightarrow> length (sl_text s) \<le> 128 \<and> utf8_ok (sl_text s) \<and>
     bits_are (sl_chars s) (\<lambda>i. is_utf8_char_boundary (sl_text s ! i)) (length (sl_text s)) \<and>
     bits_are (sl_chars_utf16 s) (unit_at (sl_text s)) (length (sl_text s)) \<and>
     bits_are (sl_newlines s) (\<lambda>i. sl_text s ! i = newline) (length (sl_text s)) \<and>
     bits_are (sl_tabs s) (\<lambda>i. sl_text s ! i = tab) (length (sl_text s))"

definition chunk_ok :: "chunk \<Rightarrow> bool" where
  "chunk_ok c \<longleftrightarrow> slice_ok (ck_as_slice c)"

lemma bits_areD: "bits_are x P n \<Longrightarrow> bit x i \<longleftrightarrow> i < n \<and> P i"
  by (simp add: bits_are_def)

lemma bits_are_or_push:
  assumes "bits_are x P m" "bits_are y Q n" "m + n \<le> 128" "\<And>i. i < m \<Longrightarrow> R i = P i" "\<And>i. i < n \<Longrightarrow> R (m + i) = Q i"
  shows "bits_are (x OR push_bit m y) R (m + n)"
  unfolding bits_are_def
proof
  fix i
  have "bit (push_bit m y) i \<longleftrightarrow> m \<le> i \<and> i < m + n \<and> R i"
  proof (cases "m \<le> i")
    case True
    then obtain k where k: "i = m + k" by (auto simp: le_iff_add)
    show ?thesis unfolding bit_push_bit_iff k using bits_areD [OF assms(2), of k] assms(3) assms(5) [of k] by auto
  qed (simp add: bit_push_bit_iff)
  then show "bit (x OR push_bit m y) i \<longleftrightarrow> i < m + n \<and> R i"
    using bits_areD [OF assms(1), of i] assms(4) by (auto simp: bit_or_iff)
qed

lemma mask_word: "push_bit n (1 :: bitmap) - 1 = mask n"
  by (simp add: mask_eq_exp_minus_1 push_bit_of_1)

lemma bits_are_part:
  assumes "bits_are x P n" "j \<le> n" "\<And>k. k < j - i \<Longrightarrow> R k = P (i + k)"
  shows "bits_are (drop_bit i (x AND mask j)) R (j - i)"
  unfolding bits_are_def
proof
  fix k
  have "bit (mask j :: bitmap) l \<longleftrightarrow> l < j" if "bit x l" for l
    using bit_imp_le_length [OF that] by (simp add: bit_mask_iff)
  then have "bit (drop_bit i (x AND mask j)) k \<longleftrightarrow> bit x (i + k) \<and> i + k < j"
    by (auto simp: bit_drop_bit_eq bit_and_iff)
  then show "bit (drop_bit i (x AND mask j)) k \<longleftrightarrow> k < j - i \<and> R k"
    using assms(2,3) bits_areD [OF assms(1), of "i + k"] by auto
qed

lemma bits_are_low:
  assumes "bits_are x P n" "j \<le> n" "\<And>k. k < j \<Longrightarrow> R k = P k"
  shows "bits_are (x AND mask j) R j"
  using bits_are_part [of x P n j 0 R] assms by simp

lemma bits_are_high:
  assumes "bits_are x P n" "\<And>k. k < n - i \<Longrightarrow> R k = P (i + k)"
  shows "bits_are (drop_bit i x) R (n - i)"
  using assms(2) by (auto simp: bits_are_def bit_drop_bit_eq bits_areD [OF assms(1)] add.commute)

lemma slice_okD:
  assumes "slice_ok s"
  shows "length (sl_text s) \<le> 128" "utf8_ok (sl_text s)" "length (sl_text s) < 2 ^ 32"
    "bits_are (sl_chars s) (\<lambda>i. is_utf8_char_boundary (sl_text s ! i)) (length (sl_text s))"
    "bits_are (sl_chars_utf16 s) (unit_at (sl_text s)) (length (sl_text s))"
    "bits_are (sl_newlines s) (\<lambda>i. sl_text s ! i = newline) (length (sl_text s))"
    "bits_are (sl_tabs s) (\<lambda>i. sl_text s ! i = tab) (length (sl_text s))"
  using assms by (simp_all add: slice_ok_def)

section \<open>A new chunk\<close>

lemma group_mask_bit:
  "bit (group_mask P m ix bs) j \<longleftrightarrow> bit m j \<or> ix \<le> j \<and> j < 8 \<and> j - ix < length bs \<and> P (bs ! (j - ix))"
proof (induction bs arbitrary: m ix)
  case (Cons b bs)
  have "bit (push_bit ix (of_bool (P b)) :: u8) j \<longleftrightarrow> j = ix \<and> j < 8 \<and> P b"
    by (auto simp: bit_push_bit_iff bit_of_bool_iff)
  then show ?case using Cons [of "m OR push_bit ix (of_bool (P b))" "Suc ix"]
    by (cases "j = ix") (auto simp: bit_or_iff nth_Cons' Suc_le_eq)
qed simp

lemma from_le_bytes_Cons: "from_le_bytes (b # bs) = ucast b OR push_bit 8 (from_le_bytes bs)"
  by (simp add: from_le_bytes_def)

lemma group_masks_Nil [simp]: "group_masks P [] = []"
  by (subst group_masks.simps) simp

lemma group_masks_ne: "t \<noteq> [] \<Longrightarrow> group_masks P t = group_mask P 0 0 (take 8 t) # group_masks P (drop 8 t)"
  by (subst group_masks.simps) simp

lemma le_bytes_bit: "bit (ucast (b :: u8) OR push_bit 8 x :: bitmap) i \<longleftrightarrow> bit b i \<or> 8 \<le> i \<and> i < 128 \<and> bit x (i - 8)"
  by (auto simp: bit_or_iff bit_ucast_iff bit_push_bit_iff dest: bit_imp_le_length)

lemma from_le_bytes_masks:
  "bit (from_le_bytes (group_masks P t @ replicate k 0)) i \<longleftrightarrow> i < 128 \<and> i < length t \<and> P (t ! i)"
proof (induction P t arbitrary: i rule: group_masks.induct)
  case (1 P t)
  show ?case
  proof (cases "t = []")
    case True
    have "from_le_bytes (replicate k 0) = 0" by (induction k) (simp_all add: from_le_bytes_def)
    then show ?thesis using True by simp
  next
    case False
    then have "from_le_bytes (group_masks P t @ replicate k 0) =
        ucast (group_mask P 0 0 (take 8 t)) OR push_bit 8 (from_le_bytes (group_masks P (drop 8 t) @ replicate k 0))"
      by (simp add: group_masks_ne from_le_bytes_Cons)
    moreover have "bit (group_mask P 0 0 (take 8 t)) i \<longleftrightarrow> i < 8 \<and> i < length t \<and> P (t ! i)"
      by (auto simp: group_mask_bit)
    moreover have "bit (from_le_bytes (group_masks P (drop 8 t) @ replicate k 0)) (i - 8) \<longleftrightarrow> i < length t \<and> P (t ! i)"
      if "8 \<le> i" "i < 128"
      using 1 [OF False, of "i - 8"] that by auto
    ultimately show ?thesis by (cases "i < 8") (auto simp: le_bytes_bit)
  qed
qed

lemma length_group_masks: "8 * length (group_masks P t) < length t + 8"
proof (induction P t rule: group_masks.induct)
  case (1 P t)
  show ?case
  proof (cases "t = []")
    case False
    then have "0 < length t" by simp
    then show ?thesis using 1 [OF False] by (cases "8 \<le> length t") (simp_all add: group_masks_ne [OF False] not_le)
  qed simp
qed

lemma text_bitmap: "length t \<le> 128 \<Longrightarrow> bits_are (text_bitmap P t) (\<lambda>i. P (t ! i)) (length t)"
proof -
  assume t: "length t \<le> 128"
  then have "length (group_masks P t) \<le> 16" using length_group_masks [of P t] by simp
  then have "text_bitmap P t = from_le_bytes (group_masks P t @ replicate (16 - length (group_masks P t)) 0)"
    by (simp add: text_bitmap_def vec_resize_def MAX_BASE_def)
  then show ?thesis using t by (auto simp: bits_are_def from_le_bytes_masks)
qed

lemma new_utf16:
  assumes "length t \<le> 128" "utf8_ok t"
  shows "bits_are (push_bit 1 (text_bitmap (\<lambda>b. 240 \<le> byte b) t) OR text_bitmap is_utf8_char_boundary t) (unit_at t) (length t)"
  unfolding bits_are_def
proof
  fix i
  have "bit (push_bit 1 (text_bitmap (\<lambda>b. 240 \<le> byte b) t)) i \<longleftrightarrow> 0 < i \<and> i < length t \<and> 240 \<le> byte (t ! (i - 1))"
    using bits_areD [OF text_bitmap [OF assms(1)], of "\<lambda>b. 240 \<le> byte b" "i - 1"] utf8_next [OF assms(2), of "i - 1"] assms(1)
    unfolding bit_push_bit_iff by (cases i) auto
  then show "bit (push_bit 1 (text_bitmap (\<lambda>b. 240 \<le> byte b) t) OR text_bitmap is_utf8_char_boundary t) i \<longleftrightarrow> i < length t \<and> unit_at t i"
    unfolding bit_or_iff using bits_areD [OF text_bitmap [OF assms(1)], of is_utf8_char_boundary i] by (auto simp only: unit_at_def)
qed

lemma chunk_new:
  assumes "length t \<le> 128" "utf8_ok t"
  obtains c where "ck_new t = Some c" "chunk_ok c" "ck_text c = t"
proof
  let ?c = "\<lparr>ck_chars = text_bitmap is_utf8_char_boundary t,
    ck_chars_utf16 = push_bit 1 (text_bitmap (\<lambda>b. 240 \<le> byte b) t) OR text_bitmap is_utf8_char_boundary t,
    ck_newlines = text_bitmap (\<lambda>b. b = newline) t, ck_tabs = text_bitmap (\<lambda>b. b = tab) t, ck_text = t\<rparr>"
  show "ck_new t = Some ?c" using assms(1) by (simp add: ck_new_def MAX_BASE_def Let_def)
  show "chunk_ok ?c"
    unfolding chunk_ok_def slice_ok_def ck_as_slice_def chunk.select_convs chunk_slice.select_convs
    by (intro conjI assms new_utf16 text_bitmap)
qed simp

section \<open>Joining and cutting\<close>

lemma unit_at_left: "i < length x \<Longrightarrow> unit_at (x @ y) i = unit_at x i"
  by (auto simp: unit_at_def nth_append)

lemma unit_at_right: "utf8_ok y \<Longrightarrow> i < length y \<Longrightarrow> unit_at (x @ y) (length x + i) = unit_at y i"
  using utf8_ok_hd [of y] by (cases i) (auto simp: unit_at_def nth_append hd_conv_nth)

lemma unit_at_part:
  assumes "utf8_ok s" "str_is_char_boundary s i" "i + k < j" "j \<le> length s"
  shows "unit_at (take (j - i) (drop i s)) k = unit_at s (i + k)"
proof (cases k)
  case 0
  then have "is_utf8_char_boundary (s ! i)"
    using assms utf8_ok_hd [OF assms(1)] by (cases s) (auto simp: str_is_char_boundary_def)
  then show ?thesis using 0 assms(3,4) by (simp add: unit_at_def)
qed (use assms(3,4) in \<open>simp add: unit_at_def\<close>)

lemma slice_ok_join:
  assumes a: "slice_ok a" and b: "slice_ok b" and n: "length (sl_text a) + length (sl_text b) \<le> 128" "m = length (sl_text a)"
  shows "slice_ok \<lparr>sl_chars = sl_chars a OR push_bit m (sl_chars b), sl_chars_utf16 = sl_chars_utf16 a OR push_bit m (sl_chars_utf16 b),
    sl_newlines = sl_newlines a OR push_bit m (sl_newlines b), sl_tabs = sl_tabs a OR push_bit m (sl_tabs b),
    sl_text = sl_text a @ sl_text b\<rparr>"
  unfolding slice_ok_def chunk_slice.select_convs length_append n(2)
proof (intro conjI)
  show "bits_are (sl_chars_utf16 a OR push_bit (length (sl_text a)) (sl_chars_utf16 b)) (unit_at (sl_text a @ sl_text b)) (length (sl_text a) + length (sl_text b))"
    by (rule bits_are_or_push [OF slice_okD(5) [OF a] slice_okD(5) [OF b] n(1)])
      (simp_all add: unit_at_left unit_at_right slice_okD(2) [OF b])
qed (use n(1) slice_okD(2) [OF a] slice_okD(2) [OF b] in \<open>auto intro!: bits_are_or_push [OF slice_okD(4) [OF a] slice_okD(4) [OF b]]
    bits_are_or_push [OF slice_okD(6) [OF a] slice_okD(6) [OF b]] bits_are_or_push [OF slice_okD(7) [OF a] slice_okD(7) [OF b]] simp: nth_append\<close>)

lemma slice_ok_part:
  assumes s: "slice_ok s" and i: "str_is_char_boundary (sl_text s) i" and j: "str_is_char_boundary (sl_text s) j" "j \<le> length (sl_text s)" "i \<le> j"
  shows "slice_ok \<lparr>sl_chars = drop_bit i (sl_chars s AND mask j), sl_chars_utf16 = drop_bit i (sl_chars_utf16 s AND mask j),
    sl_newlines = drop_bit i (sl_newlines s AND mask j), sl_tabs = drop_bit i (sl_tabs s AND mask j), sl_text = take (j - i) (drop i (sl_text s))\<rparr>"
proof -
  let ?t = "take (j - i) (drop i (sl_text s))"
  have len: "length ?t = j - i" using j(2) by simp
  have "utf8_ok (take j (sl_text s))" using utf8_ok_split [OF slice_okD(2) [OF s] j(1)] by simp
  moreover have "str_is_char_boundary (take j (sl_text s)) i" using i j by (auto simp: str_is_char_boundary_def)
  ultimately have "utf8_ok (drop i (take j (sl_text s)))" using utf8_ok_split by blast
  then have utf: "utf8_ok ?t" by (simp add: drop_take)
  have "bits_are (drop_bit i (sl_chars_utf16 s AND mask j)) (unit_at ?t) (j - i)"
    by (rule bits_are_part [OF slice_okD(5) [OF s] j(2)]) (use unit_at_part [OF slice_okD(2) [OF s] i] j(2) in simp)
  moreover have "bits_are (drop_bit i (sl_chars s AND mask j)) (\<lambda>k. is_utf8_char_boundary (?t ! k)) (j - i)"
    by (rule bits_are_part [OF slice_okD(4) [OF s] j(2)]) (use j(2) in simp)
  moreover have "bits_are (drop_bit i (sl_newlines s AND mask j)) (\<lambda>k. ?t ! k = newline) (j - i)"
    by (rule bits_are_part [OF slice_okD(6) [OF s] j(2)]) (use j(2) in simp)
  moreover have "bits_are (drop_bit i (sl_tabs s AND mask j)) (\<lambda>k. ?t ! k = tab) (j - i)"
    by (rule bits_are_part [OF slice_okD(7) [OF s] j(2)]) (use j(2) in simp)
  ultimately show ?thesis using utf len slice_okD(1) [OF s] j(2) by (simp add: slice_ok_def)
qed

lemma slice_ok_empty [simp]: "slice_ok sl_empty"
  by (simp add: slice_ok_def sl_empty_def bits_are_def)

lemma as_slice_text [simp]: "sl_text (ck_as_slice c) = ck_text c"
  by (simp add: ck_as_slice_def)

lemma chunk_append:
  assumes c: "chunk_ok c" and s: "slice_ok s" and n: "length (ck_text c) + length (sl_text s) \<le> 128"
  obtains c' where "ck_append debug s c = Some c'" "chunk_ok c'" "ck_text c' = ck_text c @ sl_text s"
proof (cases "sl_text s = []")
  case True
  then show thesis using c by (intro that [of c]) (simp_all add: ck_append_def)
next
  case False
  let ?m = "length (ck_text c)"
  let ?c = "\<lparr>ck_chars = ck_chars c OR push_bit ?m (sl_chars s), ck_chars_utf16 = ck_chars_utf16 c OR push_bit ?m (sl_chars_utf16 s),
      ck_newlines = ck_newlines c OR push_bit ?m (sl_newlines s), ck_tabs = ck_tabs c OR push_bit ?m (sl_tabs s),
      ck_text = ck_text c @ sl_text s\<rparr>"
  have "?m < 128" using False n by (cases "sl_text s") auto
  then have "ck_append debug s c = Some ?c" using False n by (simp add: ck_append_def shl_def MAX_BASE_def Let_def)
  moreover have "chunk_ok ?c"
    using slice_ok_join [OF c [unfolded chunk_ok_def] s _ refl] n by (simp add: chunk_ok_def ck_as_slice_def)
  ultimately show thesis by (rule that) simp
qed

lemma chunk_append_full: "sl_text s \<noteq> [] \<Longrightarrow> 128 < length (ck_text c) + length (sl_text s) \<Longrightarrow> ck_append debug s c = None"
  by (auto simp: ck_append_def MAX_BASE_def Let_def bind_eq_None_conv)

lemma chunk_prepend:
  assumes c: "chunk_ok c" and s: "slice_ok s" and n: "length (ck_text c) + length (sl_text s) \<le> 128"
  obtains c' where "ck_prepend debug s c = Some c'" "chunk_ok c'" "ck_text c' = sl_text s @ ck_text c"
proof (cases "sl_text s = [] \<or> ck_text c = []")
  case True
  show thesis
  proof (cases "sl_text s = []")
    case True
    then show thesis using c by (intro that [of c]) (simp_all add: ck_prepend_def)
  next
    case False
    obtain c' where "ck_new (sl_text s) = Some c'" "chunk_ok c'" "ck_text c' = sl_text s"
      by (rule chunk_new [of "sl_text s"]) (use slice_okD [OF s] in simp_all)
    then show thesis using True False by (intro that [of c']) (simp_all add: ck_prepend_def)
  qed
next
  case False
  let ?m = "length (sl_text s)"
  let ?c = "\<lparr>ck_chars = sl_chars s OR push_bit ?m (ck_chars c), ck_chars_utf16 = sl_chars_utf16 s OR push_bit ?m (ck_chars_utf16 c),
      ck_newlines = sl_newlines s OR push_bit ?m (ck_newlines c), ck_tabs = sl_tabs s OR push_bit ?m (ck_tabs c),
      ck_text = sl_text s @ ck_text c\<rparr>"
  have "?m < 128" using False n by (cases "ck_text c") auto
  then have "ck_prepend debug s c = Some ?c" using False n by (simp add: ck_prepend_def shl_def MAX_BASE_def Let_def)
  moreover have "chunk_ok ?c"
    using slice_ok_join [OF s c [unfolded chunk_ok_def] _ refl] n by (simp add: chunk_ok_def ck_as_slice_def)
  ultimately show thesis by (rule that) simp
qed

lemma chunk_prepend_full: "sl_text s \<noteq> [] \<Longrightarrow> 128 < length (ck_text c) + length (sl_text s) \<Longrightarrow> ck_prepend debug s c = None"
  by (auto simp: ck_prepend_def ck_new_def MAX_BASE_def Let_def bind_eq_None_conv)

lemma chunk_of_slice: "slice_ok s \<Longrightarrow> \<exists>c. ck_of_slice s = Some c \<and> chunk_ok c \<and> ck_text c = sl_text s"
  using slice_okD(1) [of s] by (cases s) (simp add: ck_of_slice_def MAX_BASE_def chunk_ok_def ck_as_slice_def)

lemma chunk_as_slice: "chunk_ok c \<Longrightarrow> slice_ok (ck_as_slice c)"
  by (simp add: chunk_ok_def)

text \<open>The bitmap answers what the bytes say about a boundary.\<close>

lemma slice_boundary:
  assumes "slice_ok s" "i < 2 ^ 32"
  shows "sl_is_char_boundary s i \<longleftrightarrow> str_is_char_boundary (sl_text s) i"
proof -
  have "push_bit i 1 AND sl_chars s = 0 \<longleftrightarrow> \<not> bit (sl_chars s) i"
    using and_exp_eq_0_iff_not_bit [of "sl_chars s" i] by (simp add: and.commute push_bit_of_1)
  moreover have "0 < length (sl_text s) \<Longrightarrow> is_utf8_char_boundary (sl_text s ! 0)"
    using utf8_ok_hd [OF slice_okD(2) [OF assms(1)]] by (auto simp: hd_conv_nth)
  ultimately show ?thesis using assms(2) bits_areD [OF slice_okD(4) [OF assms(1)], of i]
    by (auto simp: sl_is_char_boundary_def str_is_char_boundary_def)
qed

lemma chunk_boundary: "chunk_ok c \<Longrightarrow> i < 2 ^ 32 \<Longrightarrow> ck_is_char_boundary c i \<longleftrightarrow> str_is_char_boundary (ck_text c) i"
  using slice_boundary [of "ck_as_slice c" i] by (simp add: chunk_ok_def ck_is_char_boundary_def sl_is_char_boundary_def ck_as_slice_def)

lemma boundary_le: "str_is_char_boundary s i \<Longrightarrow> i \<le> length s"
  by (auto simp: str_is_char_boundary_def)

lemma slice_slice:
  assumes s: "slice_ok s" and b: "str_is_char_boundary (sl_text s) i" "str_is_char_boundary (sl_text s) j" "i \<le> j"
  obtains s' where "sl_slice debug s i j = Some s'" "slice_ok s'" "sl_text s' = take (j - i) (drop i (sl_text s))"
proof (cases "i = 128")
  case True
  then have "j = 128" "sl_text s \<noteq> [] \<longrightarrow> length (sl_text s) = 128"
    using b boundary_le [OF b(2)] slice_okD(1) [OF s] by auto
  then show thesis using True b(1) by (intro that [of sl_empty]) (simp_all add: sl_slice_def MAX_BASE_def, simp add: sl_empty_def)
next
  case False
  have le: "i \<le> 128" "j \<le> 128" "j \<le> length (sl_text s)" using boundary_le [OF b(1)] boundary_le [OF b(2)] slice_okD(1) [OF s] by simp_all
  then have "sl_is_char_boundary s i" "sl_is_char_boundary s j" using slice_boundary [OF s] b by simp_all
  then have "sl_slice debug s i j = Some \<lparr>sl_chars = drop_bit i (sl_chars s AND mask j), sl_chars_utf16 = drop_bit i (sl_chars_utf16 s AND mask j),
      sl_newlines = drop_bit i (sl_newlines s AND mask j), sl_tabs = drop_bit i (sl_tabs s AND mask j), sl_text = take (j - i) (drop i (sl_text s))\<rparr>"
    using False le b by (simp add: sl_slice_def MAX_BASE_def sl_assert_char_boundary_def shr_def str_slice_def mask_eq_exp_minus_1 Let_def)
  then show thesis by (rule that [OF _ slice_ok_part [OF s b(1,2) le(3) b(3)]]) simp
qed

lemma slice_split_at:
  assumes s: "slice_ok s" and b: "str_is_char_boundary (sl_text s) i"
  obtains x y where "sl_split_at debug s i = Some (x, y)" "slice_ok x" "slice_ok y" "sl_text x = take i (sl_text s)" "sl_text y = drop i (sl_text s)"
proof (cases "i = 128")
  case True
  then have "length (sl_text s) = 128" using boundary_le [OF b] slice_okD(1) [OF s] by simp
  then show thesis using True s by (intro that [of s sl_empty]) (simp_all add: sl_split_at_def MAX_BASE_def, simp_all add: sl_empty_def)
next
  case False
  let ?n = "length (sl_text s)"
  have i: "i < 128" "i \<le> ?n" using False boundary_le [OF b] slice_okD(1) [OF s] by simp_all
  have all: "x AND mask ?n = x" if "bits_are x P ?n" for x P
    by (rule bit_eqI) (auto simp: bit_and_iff bit_mask_iff bits_areD [OF that])
  have "sl_split_at debug s i = Some
      (\<lparr>sl_chars = drop_bit 0 (sl_chars s AND mask i), sl_chars_utf16 = drop_bit 0 (sl_chars_utf16 s AND mask i),
        sl_newlines = drop_bit 0 (sl_newlines s AND mask i), sl_tabs = drop_bit 0 (sl_tabs s AND mask i), sl_text = take (i - 0) (drop 0 (sl_text s))\<rparr>,
       \<lparr>sl_chars = drop_bit i (sl_chars s AND mask ?n), sl_chars_utf16 = drop_bit i (sl_chars_utf16 s AND mask ?n),
        sl_newlines = drop_bit i (sl_newlines s AND mask ?n), sl_tabs = drop_bit i (sl_tabs s AND mask ?n), sl_text = take (?n - i) (drop i (sl_text s))\<rparr>)"
    using i b slice_okD(4-7) [OF s, THEN all]
    by (simp add: sl_split_at_def MAX_BASE_def shl_def shr_def str_split_at_def mask_eq_exp_minus_1 push_bit_of_1 Let_def)
  then show thesis
    by (rule that [OF _ slice_ok_part [OF s _ b i(2)] slice_ok_part [OF s b _ order_refl i(2)]]) (simp_all add: str_is_char_boundary_def)
qed

section \<open>Property\<close>

text \<open>C17: A chunk and its bitmaps.  On a chunk whose bitmaps describe its text, \<open>push_str\<close> and \<open>prepend_str\<close> of UTF-8 text
  join the texts if the result has at most 128 bytes and panic if not, and a slice between two character boundaries
  is the part of the text between them; the bitmaps of every result describe its text.\<close>

theorem chunk_operations:
  assumes c: "chunk_ok c" and t: "utf8_ok t"
  shows "(if length (ck_text c) + length t \<le> 128 then
      (\<exists>c'. ck_push_str debug t c = Some c' \<and> chunk_ok c' \<and> ck_text c' = ck_text c @ t) \<and>
      (\<exists>c'. ck_prepend_str debug t c = Some c' \<and> chunk_ok c' \<and> ck_text c' = t @ ck_text c)
    else t \<noteq> [] \<longrightarrow> ck_push_str debug t c = None \<and> ck_prepend_str debug t c = None) \<and>
    (\<forall>i j. str_is_char_boundary (ck_text c) i \<and> str_is_char_boundary (ck_text c) j \<and> i \<le> j \<longrightarrow>
      (\<exists>s. ck_slice debug c i j = Some s \<and> slice_ok s \<and> sl_text s = take (j - i) (drop i (ck_text c))))"
proof (intro conjI allI impI)
  fix i j
  assume "str_is_char_boundary (ck_text c) i \<and> str_is_char_boundary (ck_text c) j \<and> i \<le> j"
  then show "\<exists>s. ck_slice debug c i j = Some s \<and> slice_ok s \<and> sl_text s = take (j - i) (drop i (ck_text c))"
    using slice_slice [OF chunk_as_slice [OF c], of i j debug] by (auto simp: ck_slice_def)
next
  show "if length (ck_text c) + length t \<le> 128 then
      (\<exists>c'. ck_push_str debug t c = Some c' \<and> chunk_ok c' \<and> ck_text c' = ck_text c @ t) \<and>
      (\<exists>c'. ck_prepend_str debug t c = Some c' \<and> chunk_ok c' \<and> ck_text c' = t @ ck_text c)
    else t \<noteq> [] \<longrightarrow> ck_push_str debug t c = None \<and> ck_prepend_str debug t c = None"
  proof (cases "length t \<le> 128")
    case True
    then obtain n where n: "ck_new t = Some n" "chunk_ok n" "ck_text n = t" by (rule chunk_new [OF _ t])
    show ?thesis
    proof (cases "length (ck_text c) + length t \<le> 128")
      case True
      then have fits: "length (ck_text c) + length (sl_text (ck_as_slice n)) \<le> 128" by (simp add: n(3))
      obtain c1 where 1: "ck_append debug (ck_as_slice n) c = Some c1" "chunk_ok c1" "ck_text c1 = ck_text c @ sl_text (ck_as_slice n)"
        by (rule chunk_append [OF c chunk_as_slice [OF n(2)] fits])
      obtain c2 where 2: "ck_prepend debug (ck_as_slice n) c = Some c2" "chunk_ok c2" "ck_text c2 = sl_text (ck_as_slice n) @ ck_text c"
        by (rule chunk_prepend [OF c chunk_as_slice [OF n(2)] fits])
      show ?thesis using True 1 2 n by (simp add: ck_push_str_def ck_prepend_str_def)
    next
      case False
      then have "ck_append debug (ck_as_slice n) c = None" "ck_prepend debug (ck_as_slice n) c = None" if "t \<noteq> []"
        using that n(3) chunk_append_full [of "ck_as_slice n" c debug] chunk_prepend_full [of "ck_as_slice n" c debug] by simp_all
      then show ?thesis using False n(1) by (simp add: ck_push_str_def ck_prepend_str_def)
    qed
  next
    case False
    then show ?thesis by (simp add: ck_push_str_def ck_prepend_str_def ck_new_def MAX_BASE_def)
  qed
qed

text \<open>A chunk of five bytes: a letter and a character of four bytes.\<close>

definition sample_text :: string where
  "sample_text = [CHR ''a'', CHR 0xF0, CHR 0x9F, CHR 0x98, CHR 0x80]"

lemma sample_utf8: "utf8_ok sample_text" "utf8_ok [newline]"
  by (simp_all add: sample_text_def utf8_ok_def boundary_byte utf8_width_def)

theorem chunk_operations_witness:
  "\<exists>c c' s. ck_new sample_text = Some c \<and> ck_push_str True [newline] c = Some c' \<and> chunk_ok c' \<and>
     ck_text c' = sample_text @ [newline] \<and> ck_slice True c 1 5 = Some s \<and> slice_ok s \<and> sl_text s = drop 1 sample_text"
proof -
  have "length sample_text \<le> 128" by (simp add: sample_text_def)
  then obtain c where c: "ck_new sample_text = Some c" "chunk_ok c" "ck_text c = sample_text"
    by (rule chunk_new [OF _ sample_utf8(1)])
  have b: "str_is_char_boundary (ck_text c) 1 \<and> str_is_char_boundary (ck_text c) 5 \<and> (1 :: nat) \<le> 5"
    by (simp add: c(3) str_is_char_boundary_def boundary_byte) (simp add: sample_text_def)
  have "length (ck_text c) + length [newline] \<le> 128" by (simp add: c(3) sample_text_def)
  with chunk_operations [OF c(2) sample_utf8(2), of True] b
  obtain c' s where "ck_push_str True [newline] c = Some c'" "chunk_ok c'" "ck_text c' = ck_text c @ [newline]"
      "ck_slice True c 1 5 = Some s" "slice_ok s" "sl_text s = take (5 - 1) (drop 1 (ck_text c))"
    by fastforce
  then show ?thesis using c by (intro exI [of _ c] exI [of _ c'] exI [of _ s]) (simp add: sample_text_def)
qed

end
