(* ===== verification/Zed_Text_Summary.thy ===== *)
theory Zed_Text_Summary
  imports Zed_Chunk_Facts
begin

text \<open>
  \<open>TextSummary\<close> of \<open>crates/rope/src/rope.rs\<close>: the summary of a string, computed in one pass over its characters, the
  sum of two summaries, and the type \<open>ChunkSummary\<close>.  A summary of a concatenation is the sum of the summaries.
\<close>

section \<open>The code\<close>

definition lines_utf16 :: "text_summary \<Rightarrow> point" where
  "lines_utf16 s = Point (pt_row (ts_lines s)) (ts_last_line_len_utf16 s)"

definition ts_zero :: text_summary where
  "ts_zero = \<lparr>ts_len = 0, ts_chars = 0, ts_len_utf16 = 0, ts_lines = Point 0 0, ts_first_line_chars = 0, ts_last_line_chars = 0,
     ts_last_line_len_utf16 = 0, ts_longest_row = 0, ts_longest_row_chars = 0\<rparr>"

definition ts_newline :: text_summary where
  "ts_newline = \<lparr>ts_len = 1, ts_chars = 1, ts_len_utf16 = 1, ts_lines = Point 1 0, ts_first_line_chars = 0, ts_last_line_chars = 0,
     ts_last_line_len_utf16 = 0, ts_longest_row = 0, ts_longest_row_chars = 0\<rparr>"

definition ts_add_newline :: "text_summary \<Rightarrow> text_summary" where
  "ts_add_newline s = s\<lparr>ts_len := ts_len s + 1, ts_len_utf16 := ts_len_utf16 s + (ts_len_utf16 s + 1), ts_last_line_chars := 0,
     ts_last_line_len_utf16 := 0, ts_lines := pt_add (ts_lines s) (Point 1 0)\<rparr>"

text \<open>\<open>char::len_utf16\<close>: two units for a character of four bytes.\<close>

definition char_len_utf16 :: "string \<Rightarrow> nat" where
  "char_len_utf16 c = (if 240 \<le> byte (hd c) then 2 else 1)"

definition ts_step :: "text_summary \<Rightarrow> string \<Rightarrow> text_summary" where
  "ts_step s c =
     (let s = s\<lparr>ts_chars := ts_chars s + 1, ts_len_utf16 := ts_len_utf16 s + char_len_utf16 c\<rparr>;
          s = (if c = [newline] then
                 s\<lparr>ts_lines := pt_add (ts_lines s) (Point 1 0), ts_last_line_len_utf16 := 0, ts_last_line_chars := 0\<rparr>
               else
                 s\<lparr>ts_lines := Point (pt_row (ts_lines s)) (pt_column (ts_lines s) + length c),
                   ts_last_line_len_utf16 := ts_last_line_len_utf16 s + char_len_utf16 c, ts_last_line_chars := ts_last_line_chars s + 1\<rparr>);
          s = (if pt_row (ts_lines s) = 0 then s\<lparr>ts_first_line_chars := ts_last_line_chars s\<rparr> else s)
      in if ts_longest_row_chars s < ts_last_line_chars s
         then s\<lparr>ts_longest_row := pt_row (ts_lines s), ts_longest_row_chars := ts_last_line_chars s\<rparr> else s)"

definition ts_of_str :: "string \<Rightarrow> text_summary" where
  "ts_of_str text = (foldl ts_step ts_zero (str_chars text))\<lparr>ts_len := length text\<rparr>"

definition ts_add :: "text_summary \<Rightarrow> text_summary \<Rightarrow> text_summary" where
  "ts_add s other =
     (let joined_chars = ts_last_line_chars s + ts_first_line_chars other;
          s' = (if ts_longest_row_chars s < joined_chars
                then s\<lparr>ts_longest_row := pt_row (ts_lines s), ts_longest_row_chars := joined_chars\<rparr> else s);
          s' = (if ts_longest_row_chars s' < ts_longest_row_chars other
                then s'\<lparr>ts_longest_row := pt_row (ts_lines s) + ts_longest_row other, ts_longest_row_chars := ts_longest_row_chars other\<rparr> else s');
          s' = (if pt_row (ts_lines s) = 0 then s'\<lparr>ts_first_line_chars := ts_first_line_chars s + ts_first_line_chars other\<rparr> else s');
          s' = (if pt_row (ts_lines other) = 0
                then s'\<lparr>ts_last_line_chars := ts_last_line_chars s + ts_first_line_chars other,
                        ts_last_line_len_utf16 := ts_last_line_len_utf16 s + ts_last_line_len_utf16 other\<rparr>
                else s'\<lparr>ts_last_line_chars := ts_last_line_chars other, ts_last_line_len_utf16 := ts_last_line_len_utf16 other\<rparr>)
      in s'\<lparr>ts_chars := ts_chars s + ts_chars other, ts_len := ts_len s + ts_len other,
            ts_len_utf16 := ts_len_utf16 s + ts_len_utf16 other, ts_lines := pt_add (ts_lines s) (ts_lines other)\<rparr>)"

section \<open>Sums\<close>

text \<open>Summaries of texts: the first row is a candidate for the longest, and the only one of a single row.\<close>

definition ts_ok :: "text_summary \<Rightarrow> bool" where
  "ts_ok s \<longleftrightarrow> ts_first_line_chars s \<le> ts_longest_row_chars s \<and>
     ts_last_line_chars s \<le> ts_longest_row_chars s \<and>
     (ts_longest_row_chars s = ts_first_line_chars s \<longrightarrow> ts_longest_row s = 0) \<and>
     (pt_row (ts_lines s) = 0 \<longrightarrow> ts_first_line_chars s = ts_last_line_chars s \<and> ts_longest_row_chars s = ts_first_line_chars s)"

lemma pt_add_row: "pt_row (pt_add p q) = pt_row p + pt_row q"
  by (cases p; cases q) simp

lemma pt_add_assoc: "pt_add (pt_add p q) r = pt_add p (pt_add q r)"
  by (cases p; cases q; cases r) simp

lemma pt_add_zero: "pt_add (Point 0 0) p = p"
  by (cases p) simp

lemma ts_zero_ok: "ts_ok ts_zero"
  by (simp add: ts_ok_def ts_zero_def)

text \<open>The fields of a sum.\<close>

lemma ts_add_fields [simp]:
  "ts_len (ts_add a b) = ts_len a + ts_len b" "ts_chars (ts_add a b) = ts_chars a + ts_chars b"
  "ts_len_utf16 (ts_add a b) = ts_len_utf16 a + ts_len_utf16 b" "ts_lines (ts_add a b) = pt_add (ts_lines a) (ts_lines b)"
  "ts_first_line_chars (ts_add a b) = ts_first_line_chars a + (if pt_row (ts_lines a) = 0 then ts_first_line_chars b else 0)"
  "ts_last_line_chars (ts_add a b) = (if pt_row (ts_lines b) = 0 then ts_last_line_chars a + ts_first_line_chars b else ts_last_line_chars b)"
  "ts_last_line_len_utf16 (ts_add a b) = (if pt_row (ts_lines b) = 0 then ts_last_line_len_utf16 a else 0) + ts_last_line_len_utf16 b"
  by (simp_all add: ts_add_def Let_def)

definition joined :: "text_summary \<Rightarrow> text_summary \<Rightarrow> nat" where
  "joined a b = max (ts_longest_row_chars a) (ts_last_line_chars a + ts_first_line_chars b)"

lemma ts_add_longest:
  "ts_longest_row_chars (ts_add a b) = max (joined a b) (ts_longest_row_chars b)"
  "ts_longest_row (ts_add a b) =
     (if joined a b < ts_longest_row_chars b then pt_row (ts_lines a) + ts_longest_row b
      else if ts_longest_row_chars a < ts_last_line_chars a + ts_first_line_chars b then pt_row (ts_lines a) else ts_longest_row a)"
  by (simp_all add: ts_add_def Let_def joined_def)

lemma ts_okD:
  assumes "ts_ok s"
  shows "ts_first_line_chars s \<le> ts_longest_row_chars s" "ts_last_line_chars s \<le> ts_longest_row_chars s"
    "ts_longest_row_chars s = ts_first_line_chars s \<Longrightarrow> ts_longest_row s = 0"
    "pt_row (ts_lines s) = 0 \<Longrightarrow> ts_first_line_chars s = ts_last_line_chars s"
    "pt_row (ts_lines s) = 0 \<Longrightarrow> ts_longest_row_chars s = ts_last_line_chars s"
    "pt_row (ts_lines s) = 0 \<Longrightarrow> ts_longest_row s = 0"
  using assms by (simp_all add: ts_ok_def)

lemma ts_add_ok:
  assumes a: "ts_ok a" and b: "ts_ok b"
  shows "ts_ok (ts_add a b)"
proof (cases "pt_row (ts_lines a) = 0")
  case True
  then show ?thesis using ts_okD [OF a] ts_okD [OF b]
    by (simp add: ts_ok_def ts_add_longest joined_def pt_add_row)
next
  case False
  then show ?thesis using ts_okD [OF a] ts_okD [OF b]
    by (auto simp: ts_ok_def ts_add_longest joined_def pt_add_row)
qed

lemma ts_zero_add: "ts_ok s \<Longrightarrow> ts_add ts_zero s = s"
  by (rule text_summary.equality) (auto simp: ts_okD ts_add_longest joined_def ts_zero_def pt_add_zero not_less le_less dest: ts_okD(1))

lemma ts_add_zero: "ts_add s ts_zero = s" if "ts_ok s"
proof (rule text_summary.equality)
  show "ts_lines (ts_add s ts_zero) = ts_lines s" by (cases "ts_lines s") (simp add: ts_zero_def)
  show "ts_longest_row (ts_add s ts_zero) = ts_longest_row s"
    using ts_okD(2) [OF that] by (auto simp: ts_add_longest joined_def ts_zero_def)
qed (use ts_okD(2) [OF that] in \<open>simp_all add: ts_add_longest joined_def ts_zero_def\<close>)

lemma longest_assoc:
  fixes la ja lb jb lc r rb ib rc ia :: nat
  shows "(if max (max (max la ja) lb) jb < lc then r + rb + rc
      else if max (max la ja) lb < jb then r + rb else if max la ja < lb then r + ib else if la < ja then r else ia) =
    (if max la ja < max (max lb jb) lc then r + (if max lb jb < lc then rb + rc else if lb < jb then rb else ib)
     else if la < ja then r else ia)"
  by (simp add: max_def)

lemma ts_add_assoc:
  assumes a: "ts_ok a" and b: "ts_ok b" and c: "ts_ok c"
  shows "ts_add (ts_add a b) c = ts_add a (ts_add b c)"
proof (rule text_summary.equality)
  show "ts_longest_row_chars (ts_add (ts_add a b) c) = ts_longest_row_chars (ts_add a (ts_add b c))"
    using ts_okD [OF b] by (cases "pt_row (ts_lines b) = 0") (auto simp: ts_add_longest joined_def)
  show "ts_longest_row (ts_add (ts_add a b) c) = ts_longest_row (ts_add a (ts_add b c))"
  proof (cases "pt_row (ts_lines b) = 0")
    case True
    then show ?thesis using ts_okD [OF b] ts_okD(1) [OF c] by (simp add: ts_add_longest joined_def pt_add_row) (auto simp: max_def)
  next
    case False
    then show ?thesis
      using longest_assoc [of "ts_longest_row_chars a" "ts_last_line_chars a + ts_first_line_chars b" "ts_longest_row_chars b"
        "ts_last_line_chars b + ts_first_line_chars c" "ts_longest_row_chars c" "pt_row (ts_lines a)" "pt_row (ts_lines b)"]
      by (simp only: ts_add_longest joined_def ts_add_fields pt_add_row if_False add_0_right)
  qed
qed (use ts_okD(4) [OF b] in \<open>simp_all add: pt_add_row pt_add_assoc\<close>)

text \<open>The fields after a step.\<close>

lemma ts_step_fields [simp]:
  "ts_len (ts_step s c) = ts_len s" "ts_chars (ts_step s c) = ts_chars s + 1"
  "ts_len_utf16 (ts_step s c) = ts_len_utf16 s + char_len_utf16 c"
  "ts_lines (ts_step s c) = (if c = [newline] then pt_add (ts_lines s) (Point 1 0)
     else Point (pt_row (ts_lines s)) (pt_column (ts_lines s) + length c))"
  "ts_last_line_len_utf16 (ts_step s c) = (if c = [newline] then 0 else ts_last_line_len_utf16 s + char_len_utf16 c)"
  "ts_last_line_chars (ts_step s c) = (if c = [newline] then 0 else ts_last_line_chars s + 1)"
  "ts_first_line_chars (ts_step s c) = (if c \<noteq> [newline] \<and> pt_row (ts_lines s) = 0 then ts_last_line_chars s + 1 else ts_first_line_chars s)"
  "ts_longest_row_chars (ts_step s c) = (if c = [newline] then ts_longest_row_chars s else max (ts_longest_row_chars s) (ts_last_line_chars s + 1))"
  "ts_longest_row (ts_step s c) = (if c \<noteq> [newline] \<and> ts_longest_row_chars s < ts_last_line_chars s + 1 then pt_row (ts_lines s) else ts_longest_row s)"
  unfolding ts_step_def Let_def by (cases "c = [newline]"; cases "pt_row (ts_lines s) = 0"; simp add: pt_add_row max_def)+

lemma ts_step_ok:
  assumes "ts_ok s"
  shows "ts_ok (ts_step s c)"
  using ts_okD [OF assms]
  by (cases "c = [newline]"; cases "pt_row (ts_lines s) = 0") (simp_all add: ts_ok_def pt_add_row max_def)

lemma ts_fold_ok: "ts_ok s \<Longrightarrow> ts_ok (foldl ts_step s cs)"
  by (induction cs arbitrary: s) (simp_all add: ts_step_ok)

lemma ts_add_step:
  assumes s: "ts_ok s" and t: "ts_ok t"
  shows "ts_add s (ts_step t c) = ts_step (ts_add s t) c"
proof (rule text_summary.equality)
  obtain r k r' k' where l: "ts_lines s = Point r k" "ts_lines t = Point r' k'" by (cases "ts_lines s"; cases "ts_lines t")
  then show "ts_lines (ts_add s (ts_step t c)) = ts_lines (ts_step (ts_add s t) c)" by simp
  show "ts_longest_row_chars (ts_add s (ts_step t c)) = ts_longest_row_chars (ts_step (ts_add s t) c)"
    using ts_okD [OF t] by (cases "r' = 0") (auto simp: ts_add_longest joined_def l)
  show "ts_longest_row (ts_add s (ts_step t c)) = ts_longest_row (ts_step (ts_add s t) c)"
    using ts_okD [OF t] by (cases "r' = 0") (auto simp: ts_add_longest joined_def l max_def)
qed (use ts_okD [OF t] ts_okD(4) [OF s] in \<open>auto simp: pt_add_row\<close>)

lemma ts_add_fold: "ts_ok s \<Longrightarrow> ts_add s (foldl ts_step ts_zero cs) = foldl ts_step s cs"
  by (induction cs rule: rev_induct) (simp_all add: ts_add_zero ts_add_step ts_fold_ok ts_zero_ok)

lemma ts_of_str_ok: "ts_ok (ts_of_str t)"
  using ts_fold_ok [OF ts_zero_ok, of "str_chars t"] by (simp add: ts_of_str_def ts_ok_def)

lemma ts_add_len: "ts_add (s\<lparr>ts_len := m\<rparr>) (t\<lparr>ts_len := n\<rparr>) = (ts_add s t)\<lparr>ts_len := m + n\<rparr>"
  by (simp add: ts_add_def Let_def)

text \<open>The summary of a concatenation, when the second string starts with a character.\<close>

lemma ts_of_str_append:
  assumes "y = [] \<or> is_utf8_char_boundary (hd y)"
  shows "ts_of_str (x @ y) = ts_add (ts_of_str x) (ts_of_str y)"
proof -
  have "foldl ts_step ts_zero (str_chars (x @ y)) = ts_add (foldl ts_step ts_zero (str_chars x)) (foldl ts_step ts_zero (str_chars y))"
    by (simp add: str_chars_append [OF assms] ts_add_fold ts_fold_ok ts_zero_ok)
  then show ?thesis by (simp add: ts_of_str_def ts_add_len)
qed

text \<open>\<open>add_newline\<close> counts the UTF-16 units before the newline twice.\<close>

lemma add_newline_units:
  "ts_len_utf16 (ts_add_newline s) = 2 * ts_len_utf16 s + 1" "ts_len_utf16 (ts_add s ts_newline) = ts_len_utf16 s + 1"
  by (simp_all add: ts_add_newline_def ts_newline_def)



end
