(* ===== verification/Zed_Chunk_Text.thy ===== *)
theory Zed_Chunk_Text
  imports Zed_Text_Summary
begin

text \<open>
  What the queries of a slice compute from its bitmaps, in terms of the text: the summary is the one that a pass over
  the characters computes, and the conversions between offsets, points and UTF-16 positions are inverse at
  character boundaries.
\<close>

section \<open>Counts of a text\<close>

definition nchars :: "string \<Rightarrow> nat" where
  "nchars t = length (filter is_utf8_char_boundary t)"

definition units :: "string \<Rightarrow> nat" where
  "units t = nchars t + length (filter (\<lambda>b. 240 \<le> byte b) t)"

definition rows :: "string \<Rightarrow> nat" where
  "rows t = length (filter (\<lambda>b. b = newline) t)"

definition first_line :: "string \<Rightarrow> string" where
  "first_line t = takeWhile (\<lambda>b. b \<noteq> newline) t"

definition last_line :: "string \<Rightarrow> string" where
  "last_line t = rev (takeWhile (\<lambda>b. b \<noteq> newline) (rev t))"

lemma counts_append [simp]:
  "nchars (x @ y) = nchars x + nchars y" "units (x @ y) = units x + units y" "rows (x @ y) = rows x + rows y"
  by (simp_all add: nchars_def units_def rows_def)

lemma counts_Nil [simp]: "nchars [] = 0" "units [] = 0" "rows [] = 0" "first_line [] = []" "last_line [] = []"
  by (simp_all add: nchars_def units_def rows_def first_line_def last_line_def)

lemma rows_zero: "rows t = 0 \<longleftrightarrow> newline \<notin> set t"
  by (auto simp: rows_def filter_empty_conv)

lemma no_newline: "newline \<notin> set t \<Longrightarrow> takeWhile (\<lambda>b. b \<noteq> newline) t = t"
  by (auto simp: takeWhile_eq_all_conv)

lemma takeWhile_newline:
  "takeWhile (\<lambda>b. b \<noteq> newline) (x @ y) = (if newline \<in> set x then takeWhile (\<lambda>b. b \<noteq> newline) x else x @ takeWhile (\<lambda>b. b \<noteq> newline) y)"
  by (induction x) auto

lemma first_line_append: "first_line (x @ y) = (if newline \<in> set x then first_line x else x @ first_line y)"
  by (simp add: first_line_def takeWhile_newline)

lemma last_line_append: "last_line (x @ y) = (if newline \<in> set y then last_line y else last_line x @ y)"
  by (simp add: last_line_def takeWhile_newline)

lemma no_newline_lines: "newline \<notin> set t \<Longrightarrow> first_line t = t \<and> last_line t = t"
  using no_newline [of "rev t"] by (simp add: first_line_def last_line_def no_newline)

lemma newline_byte: "byte newline < 128"
  by simp

lemma newline_boundary: "is_utf8_char_boundary newline"
  by (simp add: boundary_byte)

lemma newline_lines [simp]: "first_line [newline] = []" "last_line [newline] = []" "rows [newline] = 1" "nchars [newline] = 1" "units [newline] = 1"
  by (simp_all add: first_line_def last_line_def rows_def nchars_def units_def newline_boundary)

section \<open>Counting bits\<close>

lemma count_bits: "bits_are x P n \<Longrightarrow> n \<le> 128 \<Longrightarrow> count_ones x = length (filter P [0..<n])"
proof -
  assume x: "bits_are x P n" and n: "n \<le> 128"
  have "[0..<128] = [0..<n] @ [n..<128]" using n upt_add_eq_append [of 0 n "128 - n"] by simp
  moreover have "filter (bit x) [0..<n] = filter P [0..<n]" by (rule filter_cong) (simp_all add: bits_areD [OF x])
  moreover have "filter (bit x) [n..<128] = []" by (auto simp: filter_empty_conv bits_areD [OF x])
  ultimately show ?thesis by (simp add: count_ones_def)
qed

lemma filter_positions: "length (filter (\<lambda>i. Q (t ! i)) [0..<length t]) = length (filter Q t)"
proof -
  have "filter Q (map ((!) t) [0..<length t]) = map ((!) t) (filter (\<lambda>i. Q (t ! i)) [0..<length t])"
    by (simp add: filter_map comp_def)
  then show ?thesis by (metis length_map map_nth)
qed

lemma count_text: "bits_are x (\<lambda>i. Q (t ! i)) (length t) \<Longrightarrow> length t \<le> 128 \<Longrightarrow> count_ones x = length (filter Q t)"
  using count_bits filter_positions by metis

lemma filter_upt_add: "length (filter P [0..<a + b]) = length (filter P [0..<a]) + length (filter (\<lambda>i. P (a + i)) [0..<b])"
proof -
  have "[0..<a + b] = [0..<a] @ map ((+) a) [0..<b]"
    using upt_add_eq_append [of 0 a b] by (auto intro: nth_equalityI)
  then show ?thesis by (simp add: filter_map comp_def)
qed

lemma count_units: "utf8_ok t \<Longrightarrow> length (filter (unit_at t) [0..<length t]) = units t"
proof (induction t rule: utf8_induct)
  case (char b c s)
  have cont: "\<forall>x \<in> set c. \<not> 240 \<le> byte x \<and> \<not> is_utf8_char_boundary x" using char.hyps(2) by (auto simp: boundary_byte)
  have "unit_at (b # c) (Suc k) \<longleftrightarrow> k = 0 \<and> 240 \<le> byte b" if "k < length c" for k
    using cont that by (cases k) (auto simp: unit_at_def)
  then have "length (filter (\<lambda>i. unit_at (b # c) (1 + i)) [0..<length c]) = length (filter (\<lambda>k. k = 0 \<and> 240 \<le> byte b) [0..<length c])"
    by (intro arg_cong [where f = length] filter_cong) simp_all
  also have "\<dots> = (if c \<noteq> [] \<and> 240 \<le> byte b then 1 else 0)" by (cases c) (auto simp: upt_conv_Cons filter_empty_conv)
  also have "\<dots> = (if 240 \<le> byte b then 1 else 0)" using char.hyps(3) by (auto simp: utf8_width_def)
  finally have "length (filter (unit_at (b # c)) [0..<length (b # c)]) = units (b # c)"
    using char.hyps(1) cont unfolding length_Cons plus_1_eq_Suc [symmetric] filter_upt_add
    by (simp add: unit_at_def units_def nchars_def filter_empty_conv)
  moreover have "length (filter (\<lambda>i. unit_at ((b # c) @ s) (length (b # c) + i)) [0..<length s]) = units s"
    using char.IH unit_at_right [OF char.hyps(4)] by (metis (no_types, lifting) filter_cong atLeastLessThan_iff set_upt)
  moreover have "length (filter (unit_at ((b # c) @ s)) [0..<length (b # c)]) = length (filter (unit_at (b # c)) [0..<length (b # c)])"
    by (intro arg_cong [where f = length] filter_cong refl unit_at_left) (simp only: set_upt atLeastLessThan_iff)
  ultimately have "length (filter (unit_at ((b # c) @ s)) [0..<length (b # c) + length s]) = units (b # c) + units s"
    by (simp only: filter_upt_add)
  then show ?case using counts_append(2) [of "b # c" s] by simp
qed simp

lemma slice_counts:
  assumes "slice_ok s"
  shows "count_ones (sl_chars s) = nchars (sl_text s)" "count_ones (sl_newlines s) = rows (sl_text s)"
    "count_ones (sl_chars_utf16 s) = units (sl_text s)"
  using count_text [OF slice_okD(4) [OF assms] slice_okD(1) [OF assms]] count_text [OF slice_okD(6) [OF assms] slice_okD(1) [OF assms]]
    count_bits [OF slice_okD(5) [OF assms] slice_okD(1) [OF assms]] count_units [OF slice_okD(2) [OF assms]]
  by (simp_all add: nchars_def rows_def)

lemma takeWhile_positions: "length (takeWhile (\<lambda>i. Q (t ! i)) [0..<length t]) = length (takeWhile Q t)"
proof -
  have "takeWhile Q (map ((!) t) [0..<length t]) = map ((!) t) (takeWhile (\<lambda>i. Q (t ! i)) [0..<length t])"
    by (simp add: takeWhile_map comp_def)
  then show ?thesis by (metis length_map map_nth)
qed

lemma takeWhile_positions_rev: "length (takeWhile (\<lambda>i. Q (t ! i)) (rev [0..<length t])) = length (takeWhile Q (rev t))"
proof -
  have "takeWhile Q (map ((!) t) (rev [0..<length t])) = map ((!) t) (takeWhile (\<lambda>i. Q (t ! i)) (rev [0..<length t]))"
    by (simp add: takeWhile_map comp_def)
  then show ?thesis by (metis length_map map_nth rev_map)
qed

lemma leading_text:
  assumes x: "bits_are x (\<lambda>i. t ! i = newline) (length t)" and n: "length t \<le> 128"
  shows "leading_zeros x = (128 - length t) + length (last_line t)"
proof -
  have "rev [0..<128] = rev [length t..<128] @ rev [0..<length t]"
    using n upt_add_eq_append [of 0 "length t" "128 - length t"] by (simp flip: rev_append)
  moreover have "takeWhile (\<lambda>i. \<not> bit x i) (rev [length t..<128] @ rev [0..<length t]) =
      rev [length t..<128] @ takeWhile (\<lambda>i. \<not> bit x i) (rev [0..<length t])"
    by (rule takeWhile_append2) (simp add: bits_areD [OF x])
  moreover have "takeWhile (\<lambda>i. \<not> bit x i) (rev [0..<length t]) = takeWhile (\<lambda>i. t ! i \<noteq> newline) (rev [0..<length t])"
    by (rule takeWhile_cong) (simp_all add: bits_areD [OF x])
  ultimately show ?thesis
    using takeWhile_positions_rev [of "\<lambda>b. b \<noteq> newline" t] by (simp add: leading_zeros_def last_line_def)
qed

lemma trailing_text:
  assumes x: "bits_are x (\<lambda>i. t ! i = newline) (length t)" and n: "length t \<le> 128"
  shows "trailing_zeros x = (if newline \<in> set t then length (first_line t) else 128)"
proof -
  have split: "[0..<128] = [0..<length t] @ [length t..<128]"
    using n upt_add_eq_append [of 0 "length t" "128 - length t"] by simp
  have same: "takeWhile (\<lambda>i. \<not> bit x i) [0..<length t] = takeWhile (\<lambda>i. t ! i \<noteq> newline) [0..<length t]"
    by (rule takeWhile_cong) (simp_all add: bits_areD [OF x])
  show ?thesis
  proof (cases "newline \<in> set t")
    case True
    then obtain i where i: "i \<in> set [0..<length t]" "\<not> \<not> bit x i" by (auto simp: in_set_conv_nth bits_areD [OF x])
    have "takeWhile (\<lambda>i. \<not> bit x i) [0..<128] = takeWhile (\<lambda>i. \<not> bit x i) [0..<length t]"
      unfolding split using i by (rule takeWhile_append1)
    then show ?thesis using True takeWhile_positions [of "\<lambda>b. b \<noteq> newline" t]
      by (simp add: trailing_zeros_def same first_line_def)
  next
    case False
    then have "\<forall>i \<in> set [0..<128]. \<not> bit x i" by (auto simp: bits_areD [OF x] in_set_conv_nth)
    then have "takeWhile (\<lambda>i. \<not> bit x i) [0..<128] = [0..<128]" by (simp only: takeWhile_eq_all_conv)
    then have "length (takeWhile (\<lambda>i. \<not> bit x i) [0..<128]) = 128" by (simp only: length_upt)
    then show ?thesis using False by (simp only: trailing_zeros_def if_False) simp
  qed
qed

section \<open>The summary of a slice\<close>

lemma char_counts:
  assumes "is_utf8_char_boundary b" "\<forall>x \<in> set c. \<not> is_utf8_char_boundary x"
  shows "nchars (b # c) = 1" "units (b # c) = char_len_utf16 (b # c)" "newline \<notin> set c"
    "str_chars (b # c) = [b # c]"
proof -
  have c: "\<forall>x \<in> set c. \<not> 240 \<le> byte x" using assms(2) by (auto simp: boundary_byte)
  show "nchars (b # c) = 1" using assms by (simp add: nchars_def filter_empty_conv)
  moreover have "filter (\<lambda>b. 240 \<le> byte b) c = []" using c by (auto simp: filter_empty_conv)
  ultimately show "units (b # c) = char_len_utf16 (b # c)" by (simp add: units_def char_len_utf16_def)
  show "newline \<notin> set c" using assms(2) newline_boundary by auto
  have "takeWhile (\<lambda>b. \<not> is_utf8_char_boundary b) c = c" "dropWhile (\<lambda>b. \<not> is_utf8_char_boundary b) c = []"
    using assms(2) by (simp_all add: takeWhile_eq_all_conv dropWhile_eq_Nil_conv)
  then show "str_chars (b # c) = [b # c]" by (simp only: str_chars.simps)
qed

definition counted :: "string \<Rightarrow> text_summary \<Rightarrow> bool" where
  "counted t s \<longleftrightarrow> ts_len s = length t \<and> ts_chars s = nchars t \<and> ts_len_utf16 s = units t \<and>
     ts_lines s = Point (rows t) (length (last_line t)) \<and>
     ts_first_line_chars s = nchars (first_line t) \<and> ts_last_line_chars s = nchars (last_line t) \<and>
     ts_last_line_len_utf16 s = units (last_line t)"

lemma counted_add: "counted x a \<Longrightarrow> counted y b \<Longrightarrow> counted (x @ y) (ts_add a b)"
  by (auto simp: counted_def first_line_append last_line_append rows_zero no_newline_lines)

lemma counted_char:
  assumes "is_utf8_char_boundary b" "\<forall>x \<in> set c. \<not> is_utf8_char_boundary x" "Suc (length c) = utf8_width b"
  shows "counted (b # c) (ts_of_str (b # c))"
proof (cases "b = newline")
  case True
  then have "c = []" using assms(3) by (simp add: utf8_width_def)
  then show ?thesis using True
    by (simp add: counted_def ts_of_str_def ts_zero_def char_len_utf16_def)
next
  case False
  note ch = char_counts [OF assms(1,2)]
  have "newline \<notin> set (b # c)" using False ch(3) by auto
  then have "first_line (b # c) = b # c" "last_line (b # c) = b # c" "rows (b # c) = 0"
    using no_newline_lines rows_zero by blast+
  then show ?thesis using False ch(1,2)
    unfolding counted_def ts_of_str_def ch(4) by (simp add: ts_zero_def)
qed

lemma summary_counts: "utf8_ok t \<Longrightarrow> counted t (ts_of_str t)"
proof (induction t rule: utf8_induct)
  case Nil
  show ?case by (simp add: counted_def ts_of_str_def ts_zero_def)
next
  case (char b c s)
  have "ts_of_str ((b # c) @ s) = ts_add (ts_of_str (b # c)) (ts_of_str s)"
    by (rule ts_of_str_append [OF utf8_ok_hd [OF char.hyps(4)]])
  then show ?case using counted_add [OF counted_char [OF char.hyps(1-3)] char.IH] by simp
qed

text \<open>The longest row: the loop over the bitmaps and the pass over the characters.\<close>

lemma fold_line:
  "\<forall>c \<in> set cs. c \<noteq> [newline] \<Longrightarrow> ts_last_line_chars s \<le> ts_longest_row_chars s \<Longrightarrow>
    ts_lines (foldl ts_step s cs) = Point (pt_row (ts_lines s)) (pt_column (ts_lines s) + length (concat cs)) \<and>
    ts_last_line_chars (foldl ts_step s cs) = ts_last_line_chars s + length cs \<and>
    ts_longest_row_chars (foldl ts_step s cs) = max (ts_longest_row_chars s) (ts_last_line_chars s + length cs) \<and>
    ts_longest_row (foldl ts_step s cs) =
      (if ts_longest_row_chars s < ts_last_line_chars s + length cs then pt_row (ts_lines s) else ts_longest_row s)"
proof (induction cs arbitrary: s)
  case Nil
  then show ?case by (cases "ts_lines s") simp
next
  case (Cons c cs)
  then show ?case using Cons.IH [of "ts_step s c"]
    by (cases "length cs") (auto simp: max_def)
qed

lemma length_str_chars: "utf8_ok t \<Longrightarrow> length (str_chars t) = nchars t \<and> concat (str_chars t) = t \<and>
    (newline \<notin> set t \<longrightarrow> (\<forall>c \<in> set (str_chars t). c \<noteq> [newline]))"
proof (induction t rule: utf8_induct)
  case (char b c s)
  note ch = char_counts [OF char.hyps(1,2)]
  have "str_chars ((b # c) @ s) = str_chars (b # c) @ str_chars s"
    by (rule str_chars_append [OF utf8_ok_hd [OF char.hyps(4)]])
  then show ?case using char.IH ch counts_append(1) [of "b # c" s] by auto
qed simp

lemma nchars_le: "nchars t \<le> length t"
  by (simp add: nchars_def)

lemma count_row:
  assumes "bits_are chars (\<lambda>i. is_utf8_char_boundary (t ! i)) (length t)" "length t \<le> 128"
  shows "as_u8 (count_ones chars) = nchars t"
proof -
  have "count_ones chars = nchars t" using count_text [OF assms] by (simp add: nchars_def)
  then show ?thesis using nchars_le [of t] assms(2) by (simp add: as_u8_def)
qed

text \<open>UTF-8 text up to and after a newline.\<close>

lemma split_newline:
  assumes "utf8_ok t" "newline \<in> set t"
  obtains r where "t = first_line t @ newline # r" "newline \<notin> set (first_line t)" "utf8_ok (first_line t)" "utf8_ok r"
    "str_chars t = str_chars (first_line t) @ [newline] # str_chars r"
proof -
  obtain l r where t: "t = l @ newline # r" and l: "newline \<notin> set l" using split_list_first [OF assms(2)] by blast
  then have fl: "first_line t = l" using first_line_append [of l "newline # r"] by (simp add: first_line_def)
  have "str_is_char_boundary t (length l)" using t newline_boundary by (simp add: str_is_char_boundary_def)
  from utf8_ok_split [OF assms(1) this] have ul: "utf8_ok l" using t by simp
  have "is_utf8_char_boundary (t ! Suc (length l))" if "r \<noteq> []"
    using utf8_next [OF assms(1), of "length l"] that by (simp add: t)
  then have "str_is_char_boundary t (Suc (length l))" using t by (cases r) (simp_all add: str_is_char_boundary_def)
  from utf8_ok_split [OF assms(1) this] have ur: "utf8_ok r" using t by simp
  have "str_chars ([newline] @ r) = str_chars [newline] @ str_chars r" by (rule str_chars_append [OF utf8_ok_hd [OF ur]])
  moreover have "str_chars (l @ newline # r) = str_chars l @ str_chars (newline # r)"
    by (rule str_chars_append) (simp add: newline_boundary)
  ultimately have "str_chars t = str_chars l @ [newline] # str_chars r" using t by simp
  then show thesis using that fl t l ul ur by simp
qed

lemma longest_row_text:
  assumes "utf8_ok t" "length t \<le> 128"
    and "bits_are chars (\<lambda>i. is_utf8_char_boundary (t ! i)) (length t)" "bits_are newlines (\<lambda>i. t ! i = newline) (length t)"
    and "ts_last_line_chars s = 0"
  shows "longest_row_loop chars newlines n (pt_row (ts_lines s)) (ts_longest_row s) (ts_longest_row_chars s) =
    ((ts_longest_row (foldl ts_step s (str_chars t)), ts_longest_row_chars (foldl ts_step s (str_chars t))), n + nchars t)"
  using assms
proof (induction "length t" arbitrary: t chars newlines n s rule: less_induct)
  case less
  note len = less.prems(2) and chars = less.prems(3) and newlines = less.prems(4) and s = less.prems(5)
  show ?case
  proof (cases "newline \<in> set t")
    case True
    then obtain r where t: "t = first_line t @ newline # r" "newline \<notin> set (first_line t)" and u: "utf8_ok (first_line t)" "utf8_ok r"
      and cs: "str_chars t = str_chars (first_line t) @ [newline] # str_chars r"
      by (rule split_newline [OF less.prems(1)])
    define l where "l = first_line t"
    have tl: "t = l @ newline # r" using t(1) by (simp add: l_def)
    have tz: "trailing_zeros newlines = length l" using trailing_text [OF newlines len] True by (simp add: l_def)
    have "bit newlines (length l)" using tl by (simp add: bits_areD [OF newlines])
    then have pos: "0 < newlines" by (auto simp: word_gt_0)
    have "bits_are (chars AND mask (length l)) (\<lambda>i. is_utf8_char_boundary (l ! i)) (length l)"
      by (rule bits_are_low [OF chars]) (use tl in \<open>simp_all add: nth_append\<close>)
    then have row: "as_u8 (count_ones (chars AND mask (length l))) = nchars l"
      using len tl by (intro count_row) simp_all
    have rest: "length t - Suc (length l) = length r" using arg_cong [OF tl, of length] by simp
    have cr: "bits_are (drop_bit (Suc (length l)) chars) (\<lambda>i. is_utf8_char_boundary (r ! i)) (length r)"
      using bits_are_high [OF chars, of "Suc (length l)" "\<lambda>i. is_utf8_char_boundary (r ! i)"] tl by (simp add: rest nth_append)
    have nr: "bits_are (drop_bit (Suc (length l)) newlines) (\<lambda>i. r ! i = newline) (length r)"
      using bits_are_high [OF newlines, of "Suc (length l)" "\<lambda>i. r ! i = newline"] tl by (simp add: rest nth_append)
    define s1 where "s1 = ts_step (foldl ts_step s (str_chars l)) [newline]"
    have line: "\<forall>c \<in> set (str_chars l). c \<noteq> [newline]" "length (str_chars l) = nchars l"
      using length_str_chars [OF u(1)] t(2) by (simp_all add: l_def)
    have s1: "ts_last_line_chars s1 = 0" "pt_row (ts_lines s1) = pt_row (ts_lines s) + 1"
      "ts_longest_row_chars s1 = max (ts_longest_row_chars s) (nchars l)"
      "ts_longest_row s1 = (if ts_longest_row_chars s < nchars l then pt_row (ts_lines s) else ts_longest_row s)"
      using fold_line [OF line(1), of s] s line(2) by (simp_all add: s1_def pt_add_row)
    have "longest_row_loop (drop_bit (Suc (length l)) chars) (drop_bit (Suc (length l)) newlines) (n + nchars l + 1)
        (pt_row (ts_lines s1)) (ts_longest_row s1) (ts_longest_row_chars s1) =
      ((ts_longest_row (foldl ts_step s1 (str_chars r)), ts_longest_row_chars (foldl ts_step s1 (str_chars r))), n + nchars l + 1 + nchars r)"
      by (rule less.hyps [OF _ u(2) _ cr nr s1(1)]) (use tl len in \<open>simp_all\<close>)
    moreover have "foldl ts_step s (str_chars t) = foldl ts_step s1 (str_chars r)" by (simp add: cs s1_def l_def)
    moreover have "nchars t = nchars l + 1 + nchars r" using tl counts_append(1) [of l "[newline] @ r"] counts_append(1) [of "[newline]" r] by simp
    moreover have "longest_row_loop chars newlines n (pt_row (ts_lines s)) (ts_longest_row s) (ts_longest_row_chars s) =
        longest_row_loop (drop_bit (Suc (length l)) chars) (drop_bit (Suc (length l)) newlines) (n + nchars l + 1)
          (pt_row (ts_lines s1)) (ts_longest_row s1) (ts_longest_row_chars s1)"
      using pos unfolding longest_row_loop.simps [of chars newlines] Let_def mask_word tz row s1 by (simp add: max_def)
    ultimately show ?thesis by simp
  next
    case False
    then have "newlines = 0" using newlines by (auto simp: bit_eq_iff bits_areD [OF newlines] in_set_conv_nth)
    moreover have "\<forall>c \<in> set (str_chars t). c \<noteq> [newline]" "length (str_chars t) = nchars t"
      using length_str_chars [OF less.prems(1)] False by simp_all
    ultimately show ?thesis
      using fold_line [of "str_chars t" s] s count_row [OF chars len]
      by (subst longest_row_loop.simps) (auto simp: max_def Let_def)
  qed
qed

text \<open>The bits before the first newline and after the last.\<close>

lemma shl_mask_bit: "bit (saturating_shl_mask k) i \<longleftrightarrow> i < k \<and> i < 128"
  unfolding saturating_shl_mask_def mask_word by (auto simp: bit_mask_iff)

lemma shr_mask_bit: "bit (saturating_shr_mask k) i \<longleftrightarrow> 128 - k \<le> i \<and> i < 128"
  by (auto simp: saturating_shr_mask_def bit_not_iff bit_mask_iff)

lemma first_line_take: "first_line t = take (length (first_line t)) t"
  unfolding first_line_def by (rule takeWhile_eq_take)

lemma length_first_line: "length (first_line t) \<le> length t"
  unfolding first_line_def by (rule length_takeWhile_le)

lemma mask_first:
  assumes n: "bits_are newlines (\<lambda>i. t ! i = newline) (length t)" and len: "length t \<le> 128"
    and x: "bits_are x (\<lambda>i. Q (t ! i)) (length t)"
  shows "count_ones (x AND saturating_shl_mask (trailing_zeros newlines)) = length (filter Q (first_line t))"
proof (rule count_text)
  have "bit (saturating_shl_mask (trailing_zeros newlines)) i \<longleftrightarrow> i < length (first_line t)" if "i < length t" for i
    using trailing_text [OF n len] that len length_first_line [of t] no_newline_lines [of t] by (simp add: shl_mask_bit)
  moreover have "first_line t ! i = t ! i" if "i < length (first_line t)" for i
    using that by (subst first_line_take) simp
  ultimately show "bits_are (x AND saturating_shl_mask (trailing_zeros newlines)) (\<lambda>i. Q (first_line t ! i)) (length (first_line t))"
    using length_first_line [of t] by (auto simp: bits_are_def bit_and_iff bits_areD [OF x])
  show "length (first_line t) \<le> 128" using length_first_line [of t] len by simp
qed

lemma last_line_drop: "last_line t = drop (length t - length (last_line t)) t"
proof -
  let ?m = "length (takeWhile (\<lambda>b. b \<noteq> newline) (rev t))"
  have "last_line t = rev (take ?m (rev t))" unfolding last_line_def by (subst takeWhile_eq_take) (rule refl)
  moreover have "length (last_line t) = ?m" by (simp only: last_line_def length_rev)
  ultimately show ?thesis by (simp only: rev_take length_rev rev_rev_ident)
qed

lemma length_last_line: "length (last_line t) \<le> length t"
  using length_takeWhile_le [of _ "rev t"] by (simp add: last_line_def)

lemma mask_last:
  assumes n: "bits_are newlines (\<lambda>i. t ! i = newline) (length t)" and len: "length t \<le> 128"
    and x: "bits_are x P (length t)"
  shows "bits_are (x AND saturating_shr_mask (leading_zeros newlines)) (\<lambda>i. length t - length (last_line t) \<le> i \<and> P i) (length t)"
proof -
  have "bit (saturating_shr_mask (leading_zeros newlines)) i \<longleftrightarrow> length t - length (last_line t) \<le> i" if "i < length t" for i
    using leading_text [OF n len] len that length_last_line [of t] by (auto simp: shr_mask_bit)
  then show ?thesis by (auto simp: bits_are_def bit_and_iff bits_areD [OF x])
qed

lemma count_tail:
  assumes "bits_are x (\<lambda>i. k \<le> i \<and> P i) n" "n \<le> 128" "k \<le> n"
  shows "count_ones x = length (filter (\<lambda>i. P (k + i)) [0..<n - k])"
proof -
  have "filter (\<lambda>i. k \<le> i \<and> P i) [0..<k] = []" by (simp add: filter_empty_conv)
  then show ?thesis
    using count_bits [OF assms(1,2)] filter_upt_add [of "\<lambda>i. k \<le> i \<and> P i" k "n - k"] assms(3) by simp
qed

text \<open>The last line starts with a character.\<close>

lemma last_line_utf8:
  assumes "utf8_ok t"
  shows "str_is_char_boundary t (length t - length (last_line t))"
proof (cases "length (last_line t) = length t")
  case True
  then show ?thesis by (simp add: str_is_char_boundary_def)
next
  case False
  let ?k = "length t - length (last_line t)"
  have k: "0 < ?k" "?k \<le> length t" using False length_last_line [of t] by simp_all
  let ?m = "length (takeWhile (\<lambda>b. b \<noteq> newline) (rev t))"
  have m: "?m = length (last_line t)" by (simp add: last_line_def)
  then have "?m < length (rev t)" using False length_last_line [of t] by simp
  from nth_length_takeWhile [OF this] have "rev t ! ?m = newline" by simp
  then have "t ! (?k - 1) = newline" using m False length_last_line [of t] by (simp add: rev_nth)
  moreover have "Suc (?k - 1) = ?k" using k by simp
  ultimately have "?k < length t \<longrightarrow> is_utf8_char_boundary (t ! ?k)"
    using utf8_next [OF assms, of "?k - 1"] k by (metis newline_byte diff_less less_le_trans zero_less_one)
  then show ?thesis using k by (auto simp: str_is_char_boundary_def)
qed

text \<open>The fields of the summary of a slice.\<close>

lemma slice_lines: "slice_ok s \<Longrightarrow> sl_lines s = Point (rows (sl_text s)) (length (last_line (sl_text s)))"
proof -
  assume s: "slice_ok s"
  note d = slice_okD [OF s]
  show ?thesis using leading_text [OF d(6,1)] slice_counts(2) [OF s] d(1) by (simp add: sl_lines_def as_u32_def)
qed

lemma slice_first_line: "slice_ok s \<Longrightarrow> sl_first_line_chars s = nchars (first_line (sl_text s))"
  unfolding sl_first_line_chars_def nchars_def by (rule mask_first; rule slice_okD)

lemma slice_last_line:
  assumes "slice_ok s"
  shows "sl_last_line_chars s = nchars (last_line (sl_text s))" "sl_last_line_len_utf16 s = units (last_line (sl_text s))"
proof -
  note d = slice_okD [OF assms]
  let ?t = "sl_text s"
  define k where "k = length ?t - length (last_line ?t)"
  have k: "k \<le> length ?t" "length (last_line ?t) = length ?t - k" "last_line ?t = drop k ?t"
    using length_last_line [of ?t] last_line_drop [of ?t] by (simp_all add: k_def)
  have b: "str_is_char_boundary ?t k" unfolding k_def by (rule last_line_utf8 [OF d(2)])
  have "sl_last_line_chars s = length (filter (\<lambda>i. is_utf8_char_boundary (?t ! (k + i))) [0..<length ?t - k])"
    unfolding sl_last_line_chars_def by (rule count_tail [OF mask_last [OF d(6,1,4), folded k_def] d(1) k(1)])
  also have "\<dots> = length (filter (\<lambda>i. is_utf8_char_boundary (drop k ?t ! i)) [0..<length (drop k ?t)])"
    using k(1) by simp
  also have "\<dots> = nchars (last_line ?t)" unfolding filter_positions nchars_def k(3) by (rule refl)
  finally show "sl_last_line_chars s = nchars (last_line ?t)" .
  have "sl_last_line_len_utf16 s = length (filter (\<lambda>i. unit_at ?t (k + i)) [0..<length ?t - k])"
    unfolding sl_last_line_len_utf16_def by (rule count_tail [OF mask_last [OF d(6,1,5), folded k_def] d(1) k(1)])
  also have "filter (\<lambda>i. unit_at ?t (k + i)) [0..<length ?t - k] = filter (unit_at (drop k ?t)) [0..<length (drop k ?t)]"
    using unit_at_part [OF d(2) b, of _ "length ?t"] by (intro filter_cong) simp_all
  also have "length \<dots> = units (last_line ?t)"
    using count_units [of "drop k ?t"] utf8_ok_split [OF d(2) b] k(3) by simp
  finally show "sl_last_line_len_utf16 s = units (last_line ?t)" .
qed

lemma slice_longest_row:
  assumes "slice_ok s"
  shows "sl_longest_row s = ((ts_longest_row (ts_of_str (sl_text s)), ts_longest_row_chars (ts_of_str (sl_text s))), nchars (sl_text s))"
  using longest_row_text [OF slice_okD(2,1,4,6) [OF assms], of ts_zero 0]
  by (simp add: sl_longest_row_def ts_of_str_def ts_zero_def)

text \<open>C18: The summary of a slice.  Computed from the bitmaps with counts of bits and of leading and trailing zeros, it is
  the summary that a pass over the characters of the text computes.\<close>

theorem slice_summary_of_text:
  assumes "slice_ok s"
  shows "sl_text_summary s = ts_of_str (sl_text s)"
  using summary_counts [OF slice_okD(2) [OF assms]]
  by (intro text_summary.equality)
    (simp_all add: sl_text_summary_def slice_longest_row [OF assms] counted_def sl_len_def sl_len_utf16_def slice_counts [OF assms]
      slice_lines [OF assms] slice_first_line [OF assms] slice_last_line [OF assms])

text \<open>A slice of two rows, with a surrogate pair in each and a tab.\<close>

definition sample_rows :: string where
  "sample_rows = sample_text @ [newline, tab] @ sample_text"

definition sample_slice :: chunk_slice where
  "sample_slice = ck_as_slice (the (ck_new sample_rows))"

lemma sample_slice: "slice_ok sample_slice" "sl_text sample_slice = sample_rows"
proof -
  have "utf8_ok [newline, tab]" by (simp add: utf8_ok_def boundary_byte utf8_width_def)
  then have "utf8_ok sample_rows" unfolding sample_rows_def by (intro utf8_ok_append sample_utf8)
  moreover have "length sample_rows \<le> 128" by (simp add: sample_rows_def sample_text_def)
  ultimately obtain c where "ck_new sample_rows = Some c" "chunk_ok c" "ck_text c = sample_rows"
    by (metis chunk_new)
  then show "slice_ok sample_slice" "sl_text sample_slice = sample_rows" by (simp_all add: sample_slice_def chunk_as_slice)
qed

theorem slice_summary_of_text_witness:
  "sl_text_summary sample_slice = ts_of_str sample_rows \<and> ts_lines (ts_of_str sample_rows) = Point 1 6"
proof -
  have "ts_lines (ts_of_str sample_rows) = Point 1 6"
    by (simp add: ts_of_str_def sample_rows_def sample_text_def boundary_byte ts_zero_def)
  then show ?thesis using slice_summary_of_text [OF sample_slice(1)] by (simp add: sample_slice(2))
qed

end
