(* ===== verification/Zed_Chunk_Position.thy ===== *)
theory Zed_Chunk_Position
  imports Zed_Chunk_Text
begin

text \<open>
  The conversions of a slice between byte offsets, points, UTF-16 offsets and UTF-16 points, in terms of the text
  before the offset; each is undone by the conversion back.
\<close>

section \<open>Positions in a text\<close>

definition point_at :: "string \<Rightarrow> nat \<Rightarrow> point" where
  "point_at t i = Point (rows (take i t)) (length (last_line (take i t)))"

definition point_utf16_at :: "string \<Rightarrow> nat \<Rightarrow> point" where
  "point_utf16_at t i = Point (rows (take i t)) (units (last_line (take i t)))"

text \<open>Where the row of an offset starts and ends.\<close>

definition row_start :: "string \<Rightarrow> nat \<Rightarrow> nat" where
  "row_start t i = i - length (last_line (take i t))"

definition row_end :: "string \<Rightarrow> nat \<Rightarrow> nat" where
  "row_end t i = i + length (first_line (drop i t))"

lemma last_line_no_newline: "newline \<notin> set (last_line t)"
  by (auto simp: last_line_def dest: set_takeWhileD)

lemma first_line_no_newline: "newline \<notin> set (first_line t)"
  by (auto simp: first_line_def dest: set_takeWhileD)

lemma row_start_split:
  assumes "i \<le> length t"
  shows "row_start t i + length (last_line (take i t)) = i" "take i t = take (row_start t i) t @ last_line (take i t)"
    "drop (row_start t i) t = last_line (take i t) @ drop i t"
proof -
  let ?l = "last_line (take i t)"
  have le: "length ?l \<le> i" using length_last_line [of "take i t"] assms by simp
  then show "row_start t i + length ?l = i" by (simp add: row_start_def)
  have l: "?l = drop (row_start t i) (take i t)" using last_line_drop [of "take i t"] assms by (simp add: row_start_def)
  have k: "row_start t i \<le> i" by (simp add: row_start_def)
  have "take (row_start t i) (take i t) = take (row_start t i) t" using k by (simp add: min_def)
  then show t: "take i t = take (row_start t i) t @ ?l" by (metis l append_take_drop_id)
  have "t = take (row_start t i) t @ ?l @ drop i t" using t by (metis append.assoc append_take_drop_id)
  then show "drop (row_start t i) t = ?l @ drop i t" by (metis append_take_drop_id same_append_eq)
qed

lemma row_start_le: "row_start t i \<le> i"
  by (simp add: row_start_def)

lemma row_start_rows: "i \<le> length t \<Longrightarrow> rows (take (row_start t i) t) = rows (take i t)"
  using row_start_split(2) [of i t] last_line_no_newline [of "take i t"] counts_append(3) [of "take (row_start t i) t" "last_line (take i t)"]
  by (simp add: rows_zero)

lemma row_start_newline:
  assumes "i \<le> length t" "rows (take i t) \<noteq> 0"
  shows "0 < row_start t i" "t ! (row_start t i - 1) = newline"
proof -
  let ?t = "take i t" and ?l = "last_line (take i t)"
  have "newline \<in> set ?t" using assms(2) by (simp add: rows_zero)
  then have ne: "length ?l \<noteq> length ?t" using last_line_no_newline [of ?t] last_line_drop [of ?t] by auto
  then have lt: "length ?l < i" using length_last_line [of ?t] assms(1) by simp
  then show pos: "0 < row_start t i" by (simp add: row_start_def)
  have "length ?l = length (takeWhile (\<lambda>b. b \<noteq> newline) (rev ?t))" by (simp only: last_line_def length_rev)
  then have "rev ?t ! length ?l = newline"
    using nth_length_takeWhile [of "\<lambda>b. b \<noteq> newline" "rev ?t"] lt assms(1) by simp
  then show "t ! (row_start t i - 1) = newline" using lt assms(1) by (simp add: rev_nth row_start_def)
qed

lemma row_end_le: "i \<le> length t \<Longrightarrow> row_end t i \<le> length t"
  using length_first_line [of "drop i t"] by (simp add: row_end_def)

lemma row_text:
  assumes "i \<le> length t"
  shows "take (row_end t i - row_start t i) (drop (row_start t i) t) = last_line (take i t) @ first_line (drop i t)"
proof -
  have "row_end t i - row_start t i = length (last_line (take i t)) + length (first_line (drop i t))"
    using row_start_split(1) [OF assms] by (simp add: row_end_def)
  then show ?thesis using row_start_split(3) [OF assms] first_line_take [of "drop i t"] by simp
qed

lemma first_line_row: "i \<le> length t \<Longrightarrow> first_line (drop (row_start t i) t) = last_line (take i t) @ first_line (drop i t)"
  using row_start_split(3) [of i t] first_line_append [of "last_line (take i t)" "drop i t"] last_line_no_newline [of "take i t"] by simp

text \<open>Both ends of a row are character boundaries.\<close>

lemma row_start_boundary:
  assumes "utf8_ok t" "str_is_char_boundary t i"
  shows "str_is_char_boundary t (row_start t i)"
proof -
  have i: "i \<le> length t" by (rule boundary_le [OF assms(2)])
  have "str_is_char_boundary (take i t) (row_start t i)"
    using last_line_utf8 [of "take i t"] utf8_ok_split [OF assms] i by (simp add: row_start_def)
  then show ?thesis using assms(2) i by (auto simp: str_is_char_boundary_def)
qed

lemma row_end_boundary:
  assumes "i \<le> length t"
  shows "str_is_char_boundary t (row_end t i)"
proof (cases "row_end t i = length t")
  case False
  then have "length (first_line (drop i t)) < length (drop i t)" using row_end_le [OF assms] assms by (simp add: row_end_def)
  then have "drop i t ! length (first_line (drop i t)) = newline"
    using nth_length_takeWhile [of "\<lambda>b. b \<noteq> newline" "drop i t"] by (simp add: first_line_def)
  then have "t ! row_end t i = newline" using assms by (simp add: row_end_def)
  then show ?thesis using row_end_le [OF assms] False newline_boundary by (simp add: str_is_char_boundary_def)
qed (simp add: str_is_char_boundary_def)

lemma point_at_mono:
  assumes "i < j" "j \<le> length t"
  shows "point_at t i < point_at t j"
proof -
  obtain m where m: "take j t = take i t @ m" "m \<noteq> []"
    using assms take_add [of i "j - i" t] by (intro that [of "take (j - i) (drop i t)"]) simp_all
  show ?thesis
  proof (cases "newline \<in> set m")
    case True
    then have "rows m \<noteq> 0" by (simp add: rows_zero)
    then show ?thesis using m(1) by (simp add: point_at_def less_point_def)
  next
    case False
    then have "rows m = 0" by (simp add: rows_zero)
    then show ?thesis using m False last_line_append [of "take i t" m] by (simp add: point_at_def less_point_def)
  qed
qed

section \<open>Points\<close>

lemma bits_before:
  "bits_are x (\<lambda>i. Q (t ! i)) (length t) \<Longrightarrow> j \<le> length t \<Longrightarrow> set_between x 0 j = length (filter Q (take j t))"
proof -
  assume x: "bits_are x (\<lambda>i. Q (t ! i)) (length t)" and j: "j \<le> length t"
  have "filter (bit x) [0..<j] = filter (\<lambda>i. Q (take j t ! i)) [0..<length (take j t)]"
    using j by (intro filter_cong) (simp_all add: bits_areD [OF x])
  then show ?thesis unfolding set_between_def by (simp only: filter_positions)
qed

lemma slice_newlines:
  assumes "slice_ok s" "i \<le> length (sl_text s)"
  shows "bits_are (sl_newlines s AND mask i) (\<lambda>k. take i (sl_text s) ! k = newline) (length (take i (sl_text s)))"
proof -
  have "bits_are (sl_newlines s AND mask i) (\<lambda>k. take i (sl_text s) ! k = newline) i"
    by (rule bits_are_low [OF slice_okD(6) [OF assms(1)] assms(2)]) simp
  then show ?thesis using assms(2) by simp
qed

lemma slice_newlines_before:
  assumes "slice_ok s" "i \<le> length (sl_text s)"
  shows "count_ones (sl_newlines s AND mask i) = rows (take i (sl_text s))"
    "128 - leading_zeros (sl_newlines s AND mask i) = row_start (sl_text s) i"
proof -
  have le: "length (take i (sl_text s)) \<le> 128" using slice_okD(1) [OF assms(1)] by simp
  show "count_ones (sl_newlines s AND mask i) = rows (take i (sl_text s))"
    unfolding rows_def by (rule count_text [OF slice_newlines [OF assms] le])
  show "128 - leading_zeros (sl_newlines s AND mask i) = row_start (sl_text s) i"
    using leading_text [OF slice_newlines [OF assms] le] assms(2) slice_okD(1) [OF assms(1)] by (simp add: row_start_def)
qed

lemma slice_offset_to_point:
  assumes "slice_ok s" "i \<le> length (sl_text s)"
  shows "sl_offset_to_point s i = point_at (sl_text s) i"
proof -
  have "i < 2 ^ 32" using assms slice_okD(1) [OF assms(1)] by simp
  moreover have "i - row_start (sl_text s) i = length (last_line (take i (sl_text s)))" using row_start_split(1) [OF assms(2)] by simp
  moreover have "length (last_line (take i (sl_text s))) \<le> 128"
    using row_start_split(1) [OF assms(2)] assms slice_okD(1) [OF assms(1)] by linarith
  ultimately show ?thesis
    unfolding sl_offset_to_point_def Let_def mask_word by (simp add: slice_newlines_before [OF assms] point_at_def)
qed

lemma slice_row_range:
  assumes s: "slice_ok s" and i: "i \<le> length (sl_text s)"
  shows "sl_offset_range_for_row debug s (rows (take i (sl_text s))) = Some (row_start (sl_text s) i, row_end (sl_text s) i)"
proof -
  let ?t = "sl_text s" and ?row = "rows (take i (sl_text s))"
  define k where "k = row_start ?t i"
  note d = slice_okD [OF s]
  have k: "k \<le> i" "k \<le> length ?t" using row_start_le [of ?t i] i by (simp_all add: k_def)
  have "(if 0 < ?row then map_option Suc (nth_set_bit debug (sl_newlines s) ?row) else Some 0) = Some k"
  proof (cases "?row = 0")
    case True
    then have "last_line (take i ?t) = take i ?t" using no_newline_lines rows_zero by blast
    then show ?thesis using True i by (simp add: k_def row_start_def)
  next
    case False
    note nl = row_start_newline [OF i False, folded k_def]
    have "?row \<le> rows ?t" using counts_append(3) [of "take i ?t" "drop i ?t"] by simp
    then have "?row \<le> count_ones (sl_newlines s)" by (simp add: slice_counts(2) [OF s])
    then obtain r where r: "nth_set_bit debug (sl_newlines s) ?row = Some r" "r < 128" "bit (sl_newlines s) r"
        "set_between (sl_newlines s) 0 r = ?row - 1"
      using nth_set_bit_position [of ?row "sl_newlines s" debug] False by auto
    have "take k ?t = take (k - 1) ?t @ [newline]" using take_Suc_conv_app_nth [of "k - 1" ?t] nl k by simp
    then have "rows (take (k - 1) ?t) = ?row - 1"
      using row_start_rows [OF i] counts_append(3) [of "take (k - 1) ?t" "[newline]"] by (simp add: k_def)
    then have b: "set_between (sl_newlines s) 0 (k - 1) = ?row - 1"
      using bits_before [OF d(6), of "k - 1"] k by (simp add: rows_def)
    have "k - 1 < 128" "bit (sl_newlines s) (k - 1)" using nl k d(1) by (auto simp: bits_areD [OF d(6)])
    then have "r = k - 1" using filter_nth(2) [of r 128 "bit (sl_newlines s)"] filter_nth(2) [of "k - 1" 128 "bit (sl_newlines s)"] r b
      by (simp add: set_between_def)
    then show ?thesis using False r(1) nl(1) by simp
  qed
  moreover have "k + (if k = 128 then 0 else min (trailing_zeros (drop_bit k (sl_newlines s))) (as_u32 (length ?t - k))) = row_end ?t i"
  proof (cases "k = 128")
    case True
    then have "i = 128" "length ?t = 128" using k i d(1) by simp_all
    then show ?thesis using True by (simp add: row_end_def)
  next
    case False
    have "bits_are (drop_bit k (sl_newlines s)) (\<lambda>j. drop k ?t ! j = newline) (length ?t - k)"
      by (rule bits_are_high [OF d(6)]) (use k in simp)
    then have "trailing_zeros (drop_bit k (sl_newlines s)) = (if newline \<in> set (drop k ?t) then length (first_line (drop k ?t)) else 128)"
      using d(1) by (intro trailing_text) simp_all
    moreover have "length (first_line (drop k ?t)) \<le> length ?t - k" using length_first_line [of "drop k ?t"] by simp
    moreover have "newline \<notin> set (drop k ?t) \<Longrightarrow> length (first_line (drop k ?t)) = length ?t - k" using no_newline_lines [of "drop k ?t"] by simp
    moreover have "as_u32 (length ?t - k) = length ?t - k" using d(1) by (intro as_u32_small) simp
    ultimately have "min (trailing_zeros (drop_bit k (sl_newlines s))) (as_u32 (length ?t - k)) = length (first_line (drop k ?t))"
      using d(1) by simp
    then show ?thesis using False first_line_row [OF i] row_start_split(1) [OF i] by (simp add: k_def row_end_def)
  qed
  ultimately show ?thesis unfolding sl_offset_range_for_row_def k_def [symmetric] by (simp add: MAX_BASE_def Let_def)
qed

lemma rows_take_le: "rows (take i t) \<le> rows t"
  using counts_append(3) [of "take i t" "drop i t"] by simp

lemma slice_point_to_offset:
  assumes s: "slice_ok s" and i: "i \<le> length (sl_text s)"
  shows "sl_point_to_offset debug s (point_at (sl_text s) i) = Some i"
proof -
  have "row_end (sl_text s) i - row_start (sl_text s) i < 2 ^ 32"
    using row_end_le [OF i] slice_okD(1) [OF s] by simp
  then have "length (last_line (take i (sl_text s))) \<le> as_u32 (row_end (sl_text s) i - row_start (sl_text s) i)"
    using row_start_split(1) [OF i] by (simp add: row_end_def)
  then show ?thesis
    using rows_take_le [of i "sl_text s"] row_start_split(1) [OF i]
    by (simp add: sl_point_to_offset_def point_at_def slice_lines [OF s] slice_row_range [OF assms])
qed

section \<open>UTF-16 offsets\<close>

text \<open>The units of the part between two boundaries.\<close>

lemma slice_units:
  assumes s: "slice_ok s" and b: "str_is_char_boundary (sl_text s) i" "str_is_char_boundary (sl_text s) j" "i \<le> j"
  shows "count_ones (drop_bit i (sl_chars_utf16 s AND mask j)) = units (take (j - i) (drop i (sl_text s)))"
proof -
  let ?t = "sl_text s" and ?p = "take (j - i) (drop i (sl_text s))"
  note d = slice_okD [OF s]
  have j: "j \<le> length ?t" by (rule boundary_le [OF b(2)])
  have "utf8_ok (take j ?t)" using utf8_ok_split [OF d(2) b(2)] by simp
  moreover have "str_is_char_boundary (take j ?t) i" using b j by (auto simp: str_is_char_boundary_def)
  ultimately have "utf8_ok ?p" using utf8_ok_split [of "take j ?t" i] by (simp add: drop_take)
  moreover have "bits_are (drop_bit i (sl_chars_utf16 s AND mask j)) (unit_at ?p) (j - i)"
    by (rule bits_are_part [OF d(5) j]) (use unit_at_part [OF d(2) b(1)] j in simp)
  ultimately show ?thesis using count_bits [of _ "unit_at ?p" "j - i"] count_units [of ?p] j d(1) by simp
qed

lemma slice_offset_to_utf16:
  assumes s: "slice_ok s" and b: "str_is_char_boundary (sl_text s) i"
  shows "sl_offset_to_offset_utf16 s i = units (take i (sl_text s))"
proof -
  have "i < 2 ^ 32" using boundary_le [OF b] slice_okD(1) [OF s] by simp
  moreover have "str_is_char_boundary (sl_text s) 0" by (simp add: str_is_char_boundary_def)
  ultimately show ?thesis
    unfolding sl_offset_to_offset_utf16_def using slice_units [OF s _ b, of 0] by (simp only: as_u32_small mask_word) simp
qed

lemma units_zero: "utf8_ok t \<Longrightarrow> units t = 0 \<longleftrightarrow> t = []"
  by (induction t rule: utf8_induct) (simp_all add: units_def nchars_def)

lemma trailing_before: "i < trailing_zeros x \<Longrightarrow> \<not> bit (x :: bitmap) i"
proof -
  assume i: "i < trailing_zeros x"
  then have "i < 128" using length_takeWhile_le [of "\<lambda>i. \<not> bit x i" "[0..<128]"] by (simp add: trailing_zeros_def)
  then show ?thesis
    using i nth_mem [of i "takeWhile (\<lambda>i. \<not> bit x i) [0..<128]"] takeWhile_nth [of i "\<lambda>i. \<not> bit x i" "[0..<128]"]
    by (auto simp: trailing_zeros_def dest: set_takeWhileD)
qed

lemma trailing_bit: "trailing_zeros x < 128 \<Longrightarrow> bit (x :: bitmap) (trailing_zeros x)"
  using nth_length_takeWhile [of "\<lambda>i. \<not> bit x i" "[0..<128]"] by (simp add: trailing_zeros_def)

text \<open>Places with as many bits before them, each the end or a set bit, are the same.\<close>

lemma bits_place:
  assumes "set_between x 0 i = set_between x 0 j" "i \<le> n" "j \<le> n" "i < n \<Longrightarrow> bit x i" "j < n \<Longrightarrow> bit x j"
  shows "i = j"
proof -
  have less: "set_between x 0 a < set_between x 0 b" if "a < b" "bit x a" for a b
  proof -
    have "set_between x 0 b = set_between x 0 a + set_between x a b" using that by (intro set_between_split) simp_all
    moreover have "a \<in> set (filter (bit x) [a..<b])" using that by simp
    then have "0 < set_between x a b" unfolding set_between_def by (metis length_greater_0_conv empty_iff list.set(1))
    ultimately show ?thesis by simp
  qed
  show ?thesis using assms less [of i j] less [of j i] by (cases i j rule: linorder_cases) simp_all
qed

lemma slice_units_before:
  assumes s: "slice_ok s" and b: "str_is_char_boundary (sl_text s) i"
  shows "set_between (sl_chars_utf16 s) 0 i = units (take i (sl_text s))"
proof -
  let ?t = "sl_text s"
  note d = slice_okD [OF s]
  have i: "i \<le> length ?t" by (rule boundary_le [OF b])
  have "filter (bit (sl_chars_utf16 s)) [0..<i] = filter (unit_at (take i ?t)) [0..<i]"
    using i unit_at_left [of _ "take i ?t" "drop i ?t"] by (intro filter_cong) (simp_all add: bits_areD [OF d(5)])
  then show ?thesis using count_units [of "take i ?t"] utf8_ok_split [OF d(2) b] i by (simp add: set_between_def)
qed

text \<open>The offset found for a number of units has that many before it and is the end of the text or the place of a unit.\<close>

lemma slice_unit_offset:
  assumes s: "slice_ok s" and u: "0 < u" "u \<le> units (sl_text s)"
  obtains i where "sl_offset_utf16_to_offset debug s u = Some i" "0 < i" "i \<le> length (sl_text s)"
    "set_between (sl_chars_utf16 s) 0 i = u" "i < length (sl_text s) \<Longrightarrow> bit (sl_chars_utf16 s) i"
proof -
  let ?n = "length (sl_text s)" and ?x = "sl_chars_utf16 s"
  note d = slice_okD [OF s]
  have "u \<le> count_ones ?x" using u(2) by (simp add: slice_counts(3) [OF s])
  then obtain r where r: "nth_set_bit debug ?x u = Some r" "r < 128" "bit ?x r" "set_between ?x 0 r = u - 1"
    by (rule nth_set_bit_position [OF u(1)])
  have rn: "r < ?n" using r(3) by (simp add: bits_areD [OF d(5)])
  have ru: "set_between ?x 0 (Suc r) = u" using r(3,4) u(1) by (simp add: set_between_def)
  let ?y = "drop_bit (Suc r) ?x"
  define m where "m = min (trailing_zeros ?y) (?n - Suc r)"
  have "sl_offset_utf16_to_offset debug s u = Some (Suc r + m)"
    using u(1) r(1) rn d(1) by (auto simp: sl_offset_utf16_to_offset_def MAX_BASE_def m_def)
  moreover have mn: "Suc r + m \<le> ?n" using rn by (simp add: m_def)
  moreover have none: "\<not> bit ?y k" if "k < m" for k
    using trailing_before [of k ?y] that by (simp add: m_def)
  have "filter (bit ?x) [Suc r..<Suc r + m] = []"
  proof (rule filter_False, rule ballI)
    fix k assume "k \<in> set [Suc r..<Suc r + m]"
    then have "Suc r \<le> k" "k - Suc r < m" by auto
    then show "\<not> bit ?x k" using none [of "k - Suc r"] by (simp add: bit_drop_bit_eq)
  qed
  then have "set_between ?x 0 (Suc r + m) = u" using ru set_between_split [of 0 "Suc r" "Suc r + m" ?x] by (simp add: set_between_def)
  moreover have "bit ?x (Suc r + m)" if "Suc r + m < ?n"
  proof -
    have "trailing_zeros ?y = m" "m < 128" using that d(1) by (simp_all add: m_def)
    then show ?thesis using trailing_bit [of ?y] by (simp add: bit_drop_bit_eq)
  qed
  ultimately show thesis by (intro that [of "Suc r + m"]) simp_all
qed

lemma slice_utf16_to_offset:
  assumes s: "slice_ok s" and b: "str_is_char_boundary (sl_text s) i"
  shows "sl_offset_utf16_to_offset debug s (units (take i (sl_text s))) = Some i"
proof (cases "i = 0")
  case True
  then show ?thesis by (simp add: sl_offset_utf16_to_offset_def)
next
  case False
  let ?t = "sl_text s" and ?x = "sl_chars_utf16 s"
  note d = slice_okD [OF s]
  have i: "i \<le> length ?t" by (rule boundary_le [OF b])
  have "take i ?t \<noteq> []" using False i by (cases ?t) (simp_all add: take_Cons')
  then have u: "0 < units (take i ?t)" using units_zero [of "take i ?t"] utf8_ok_split [OF d(2) b] by simp
  have "units (take i ?t) \<le> units ?t" using counts_append(2) [of "take i ?t" "drop i ?t"] by simp
  then obtain j where j: "sl_offset_utf16_to_offset debug s (units (take i ?t)) = Some j" "0 < j" "j \<le> length ?t"
      "set_between ?x 0 j = units (take i ?t)" "j < length ?t \<Longrightarrow> bit ?x j"
    by (rule slice_unit_offset [OF s u, where debug = debug]) blast
  have "i < length ?t \<Longrightarrow> bit ?x i" using b False by (auto simp: bits_areD [OF d(5)] unit_at_def str_is_char_boundary_def)
  then have "i = j" using bits_place [of ?x i j "length ?t"] slice_units_before [OF s b] i j by simp
  then show ?thesis using j(1) by simp
qed

section \<open>UTF-16 points\<close>

lemma slice_offset_to_point_utf16:
  assumes s: "slice_ok s" and b: "str_is_char_boundary (sl_text s) i"
  shows "sl_offset_to_point_utf16 s i = point_utf16_at (sl_text s) i"
proof -
  let ?t = "sl_text s"
  note d = slice_okD [OF s]
  have i: "i \<le> length ?t" by (rule boundary_le [OF b])
  have "i < 2 ^ 32" using i d(1) by simp
  then have m: "saturating_shl_mask (as_u32 i) = mask i" by (simp only: as_u32_small saturating_shl_mask_def mask_word)
  have l: "last_line (take i ?t) = take (i - row_start ?t i) (drop (row_start ?t i) ?t)"
    using row_start_split [OF i] by (metis append_eq_conv_conj diff_add_inverse)
  have "units (last_line (take i ?t)) = (if row_start ?t i = 128 then 0
      else count_ones (drop_bit (row_start ?t i) (sl_chars_utf16 s AND mask i)))"
  proof (cases "row_start ?t i = 128")
    case True
    then show ?thesis using l d(1) by simp
  next
    case False
    then show ?thesis
      using slice_units [OF s row_start_boundary [OF d(2) b] b row_start_le] l by simp
  qed
  then show ?thesis
    unfolding sl_offset_to_point_utf16_def m Let_def by (simp add: slice_newlines_before [OF s i] point_utf16_at_def MAX_BASE_def)
qed

lemma slice_point_utf16_to_offset:
  assumes s: "slice_ok s" and b: "str_is_char_boundary (sl_text s) i"
  shows "sl_point_utf16_to_offset debug s (point_utf16_at (sl_text s) i) clip = Some i"
proof -
  let ?t = "sl_text s"
  note d = slice_okD [OF s]
  define k where "k = row_start ?t i"
  define l where "l = last_line (take i ?t)"
  have i: "i \<le> length ?t" by (rule boundary_le [OF b])
  have bk: "str_is_char_boundary ?t k" unfolding k_def by (rule row_start_boundary [OF d(2) b])
  have start_end: "k \<le> row_end ?t i" using row_start_le [of ?t i] by (simp add: k_def row_end_def)
  obtain line where line: "sl_slice debug s k (row_end ?t i) = Some line" "slice_ok line"
      "sl_text line = take (row_end ?t i - k) (drop k ?t)"
    by (rule slice_slice [OF s bk row_end_boundary [OF i] start_end])
  have line_text: "sl_text line = l @ first_line (drop i ?t)" using line(3) row_text [OF i] by (simp add: k_def l_def)
  have "newline \<notin> set (sl_text line)" using line_text last_line_no_newline first_line_no_newline by (auto simp: l_def)
  then have "last_line (sl_text line) = sl_text line" using no_newline_lines by blast
  then have len: "sl_last_line_len_utf16 line = units l + units (first_line (drop i ?t))"
    using slice_last_line(2) [OF line(2)] line_text by simp
  have kl: "k + length l = i" unfolding k_def l_def by (rule row_start_split(1) [OF i])
  have first: "i < row_end ?t i \<Longrightarrow> first_line (drop i ?t) ! 0 = ?t ! i"
    using first_line_take [of "drop i ?t"] i by (metis row_end_def add_0_right less_add_eq_less nth_drop nth_take nat_add_left_cancel_less)
  have bl: "str_is_char_boundary (sl_text line) (length l)"
  proof (cases "first_line (drop i ?t) = []")
    case True
    then show ?thesis using line_text by (simp add: str_is_char_boundary_def)
  next
    case False
    then have "0 < length (first_line (drop i ?t))" by simp
    then have "i < row_end ?t i" by (simp add: row_end_def)
    moreover from this have "i < length ?t" using row_end_le [OF i] by simp
    ultimately show ?thesis using first b line_text utf8_ok_hd [OF d(2)]
      by (auto simp: str_is_char_boundary_def nth_append hd_conv_nth row_end_def)
  qed
  have column: "sl_offset_utf16_to_offset debug line (units l) = Some (length l)"
    using slice_utf16_to_offset [OF line(2) bl, of debug] line_text by simp
  have ul: "units l = 0 \<Longrightarrow> l = []" 
    using units_zero [of l] utf8_ok_split [OF slice_okD(2) [OF line(2)] bl] line_text by simp
  show ?thesis
    using rows_take_le [of i ?t] kl ul b
    by (auto simp: sl_point_utf16_to_offset_def point_utf16_at_def slice_lines [OF s] slice_row_range [OF s i] line(1) len column
        simp flip: k_def l_def)
qed

section \<open>Points that are not in the text\<close>

lemma row_exists: "row \<le> rows t \<Longrightarrow> \<exists>k \<le> length t. rows (take k t) = row \<and> last_line (take k t) = []"
proof (induction row)
  case 0
  then show ?case by (intro exI [of _ 0]) simp
next
  case (Suc row)
  then obtain k where k: "k \<le> length t" "rows (take k t) = row" by auto
  then have "rows (drop k t) \<noteq> 0" using Suc.prems counts_append(3) [of "take k t" "drop k t"] by simp
  then have "newline \<in> set (drop k t)" by (simp add: rows_zero)
  then obtain l r where d: "drop k t = l @ newline # r" "newline \<notin> set l" using split_list_first by metis
  let ?k = "k + (length l + 1)"
  have "take ?k t = take k t @ l @ [newline]" using take_add [of k "length l + 1" t] d(1) by simp
  moreover have "rows (take k t @ l @ [newline]) = Suc row" using k d(2) by (simp add: rows_zero [THEN iffD2])
  moreover have "last_line (take k t @ l @ [newline]) = []"
    using last_line_append [of "take k t @ l" "[newline]"] by simp
  moreover have "?k \<le> length t" using arg_cong [OF d(1), of length] k(1) by simp
  ultimately show ?case by (intro exI [of _ ?k]) simp
qed

text \<open>The points of the row that starts at \<open>k\<close>.\<close>

lemma row_point:
  assumes k: "k \<le> length t" "last_line (take k t) = []" and c: "c \<le> length (first_line (drop k t))"
  shows "k + c \<le> length t" "point_at t (k + c) = Point (rows (take k t)) c"
proof -
  have le: "length (first_line (drop k t)) \<le> length t - k" using length_first_line [of "drop k t"] by simp
  then show "k + c \<le> length t" using c k(1) by simp
  let ?l = "take c (first_line (drop k t))"
  have "take c (drop k t) = ?l" using c first_line_take [of "drop k t"] by (metis min.absorb1 take_take)
  then have t: "take (k + c) t = take k t @ ?l" by (simp add: take_add)
  have n: "newline \<notin> set ?l" using first_line_no_newline [of "drop k t"] by (auto dest: in_set_takeD)
  then show "point_at t (k + c) = Point (rows (take k t)) c"
    using t k(2) c last_line_append [of "take k t" ?l] no_newline_lines [OF n] by (simp add: point_at_def rows_zero [THEN iffD2])
qed

text \<open>A point past the end of its row, or below the last row: a panic in debug builds, else the greatest offset before it.\<close>

lemma slice_point_outside:
  assumes s: "slice_ok s" and p: "\<forall>i \<le> length (sl_text s). point_at (sl_text s) i \<noteq> p"
  obtains e where "sl_point_to_offset debug s p = (if debug then None else Some e)" "e \<le> length (sl_text s)"
    "point_at (sl_text s) e < p" "\<And>i. e < i \<Longrightarrow> i \<le> length (sl_text s) \<Longrightarrow> p < point_at (sl_text s) i"
proof (cases "rows (sl_text s) < pt_row p")
  case True
  then show thesis
    by (intro that [of "length (sl_text s)"])
      (cases p; simp add: sl_point_to_offset_def slice_lines [OF s] debug_panic_def sl_len_def point_at_def less_point_def)+
next
  case False
  let ?t = "sl_text s"
  obtain k where k: "k \<le> length ?t" "rows (take k ?t) = pt_row p" "last_line (take k ?t) = []"
    using row_exists [of "pt_row p" ?t] False by auto
  define e where "e = row_end ?t k"
  have ek: "e = k + length (first_line (drop k ?t))" by (simp add: e_def row_end_def)
  have e: "e \<le> length ?t" "point_at ?t e = Point (pt_row p) (e - k)"
    using row_point [OF k(1,3), of "e - k"] k(2) by (simp_all add: ek)
  have out: "e - k < pt_column p"
  proof (rule ccontr)
    assume "\<not> e - k < pt_column p"
    then show False using row_point [OF k(1,3), of "pt_column p"] p k(2) by (simp add: ek)
  qed
  have "as_u32 (e - k) = e - k" using e(1) slice_okD(1) [OF s] by (intro as_u32_small) simp
  moreover have "row_start ?t k = k" using k(3) by (simp add: row_start_def)
  ultimately have res: "sl_point_to_offset debug s p = (if debug then None else Some e)"
    using False out slice_row_range [OF s k(1), of debug] k(2)
    by (simp add: sl_point_to_offset_def slice_lines [OF s] debug_panic_def flip: e_def)
  have before: "point_at ?t e < p" using e(2) out by (cases p) (simp add: less_point_def)
  have after: "p < point_at ?t i" if i: "e < i" "i \<le> length ?t" for i
  proof -
    have "length (first_line (drop k ?t)) < length (drop k ?t)" using i ek by simp
    then have "drop k ?t ! length (first_line (drop k ?t)) = newline"
      using nth_length_takeWhile [of "\<lambda>b. b \<noteq> newline" "drop k ?t"] by (simp add: first_line_def)
    then have "?t ! e = newline" using k(1) by (simp add: ek)
    then have "take (Suc e) ?t = take e ?t @ [newline]" using i by (simp add: take_Suc_conv_app_nth)
    then have "point_at ?t (Suc e) = Point (Suc (pt_row p)) 0"
      using e(2) last_line_append [of "take e ?t" "[newline]"] by (simp add: point_at_def)
    then have "p < point_at ?t (Suc e)" by (cases p) (simp add: less_point_def)
    then show ?thesis using point_at_mono [of "Suc e" i ?t] i by (cases "i = Suc e") auto
  qed
  show thesis by (rule that [OF res e(1) before after])
qed

section \<open>Properties\<close>

text \<open>C19: Offsets and points of a slice.  Every offset has the point of its row, the number of newlines before it, and its
  column, the bytes since the last of them; points are ordered as offsets are, and \<open>point_to_offset\<close> finds the offset of a
  point again.  For a point that is not in the text it panics in debug builds and returns the last offset before it in
  others.\<close>

theorem slice_offset_points:
  assumes "slice_ok s"
  shows "(\<forall>i \<le> sl_len s. sl_offset_to_point s i = point_at (sl_text s) i \<and> sl_point_to_offset debug s (sl_offset_to_point s i) = Some i) \<and>
    (\<forall>i j. i < j \<and> j \<le> sl_len s \<longrightarrow> sl_offset_to_point s i < sl_offset_to_point s j) \<and>
    (\<forall>p. p \<notin> sl_offset_to_point s ` {..sl_len s} \<longrightarrow>
      (\<exists>e \<le> sl_len s. sl_point_to_offset debug s p = (if debug then None else Some e) \<and> sl_offset_to_point s e < p \<and>
        (\<forall>i. e < i \<and> i \<le> sl_len s \<longrightarrow> p < sl_offset_to_point s i)))"
proof (intro conjI allI impI)
  fix i j
  assume "i < j \<and> j \<le> sl_len s"
  then show "sl_offset_to_point s i < sl_offset_to_point s j"
    using point_at_mono [of i j "sl_text s"] by (simp add: sl_len_def slice_offset_to_point [OF assms])
next
  fix p
  assume "p \<notin> sl_offset_to_point s ` {..sl_len s}"
  then have "\<forall>i \<le> length (sl_text s). point_at (sl_text s) i \<noteq> p" by (auto simp: sl_len_def slice_offset_to_point [OF assms])
  then obtain e where "sl_point_to_offset debug s p = (if debug then None else Some e)" "e \<le> length (sl_text s)"
    "point_at (sl_text s) e < p" "\<And>i. e < i \<Longrightarrow> i \<le> length (sl_text s) \<Longrightarrow> p < point_at (sl_text s) i"
    by (rule slice_point_outside [OF assms]) blast
  then show "\<exists>e \<le> sl_len s. sl_point_to_offset debug s p = (if debug then None else Some e) \<and> sl_offset_to_point s e < p \<and>
        (\<forall>i. e < i \<and> i \<le> sl_len s \<longrightarrow> p < sl_offset_to_point s i)"
    by (intro exI [of _ e]) (simp add: sl_len_def slice_offset_to_point [OF assms])
qed (simp_all add: sl_len_def slice_offset_to_point [OF assms] slice_point_to_offset [OF assms])

theorem slice_offset_points_witness:
  "sl_offset_to_point sample_slice 7 = Point 1 1 \<and> sl_point_to_offset True sample_slice (Point 1 1) = Some 7"
proof -
  have "7 \<le> sl_len sample_slice" by (simp add: sl_len_def sample_slice(2) sample_rows_def sample_text_def)
  moreover have "point_at (sl_text sample_slice) 7 = Point 1 1"
    by (simp add: point_at_def sample_slice(2) sample_rows_def sample_text_def rows_def last_line_def)
  ultimately show ?thesis using slice_offset_points [OF sample_slice(1), of True] by auto
qed

text \<open>C20: UTF-16 positions of a slice.  At every character boundary the UTF-16 offset is the number of code units of the text
  before it and the UTF-16 column the number of those since the last newline; the conversions back return the
  boundary, in any build.\<close>

theorem slice_utf16_positions:
  assumes s: "slice_ok s" and b: "str_is_char_boundary (sl_text s) i"
  shows "sl_offset_to_offset_utf16 s i = units (take i (sl_text s)) \<and>
    sl_offset_utf16_to_offset debug s (sl_offset_to_offset_utf16 s i) = Some i \<and>
    sl_offset_to_point_utf16 s i = point_utf16_at (sl_text s) i \<and>
    sl_point_utf16_to_offset debug s (sl_offset_to_point_utf16 s i) clip = Some i \<and>
    sl_point_to_offset_utf16 debug s (sl_offset_to_point s i) = Some (sl_offset_to_offset_utf16 s i) \<and>
    sl_point_to_point_utf16 debug s (sl_offset_to_point s i) = Some (sl_offset_to_point_utf16 s i)"
proof -
  have i: "i \<le> length (sl_text s)" by (rule boundary_le [OF b])
  have "pt_row (point_at (sl_text s) i) \<le> rows (sl_text s)" using rows_take_le by (simp add: point_at_def)
  then show ?thesis
    by (simp add: sl_point_to_offset_utf16_def sl_point_to_point_utf16_def slice_lines [OF s] slice_offset_to_point [OF s i]
        slice_point_to_offset [OF s i] slice_offset_to_utf16 [OF s b] slice_utf16_to_offset [OF s b]
        slice_offset_to_point_utf16 [OF s b] slice_point_utf16_to_offset [OF s b])
qed

theorem slice_utf16_positions_witness:
  "sl_offset_to_offset_utf16 sample_slice 5 = 3 \<and> sl_offset_to_point_utf16 sample_slice 5 = Point 0 3 \<and>
    sl_point_utf16_to_offset True sample_slice (Point 0 3) False = Some 5"
proof -
  have "str_is_char_boundary (sl_text sample_slice) 5"
    by (simp add: str_is_char_boundary_def sample_slice(2) sample_rows_def sample_text_def boundary_byte)
  from slice_utf16_positions [OF sample_slice(1) this, of True False]
  have "sl_offset_to_offset_utf16 sample_slice 5 = units (take 5 sample_rows)"
    "sl_offset_to_point_utf16 sample_slice 5 = point_utf16_at sample_rows 5"
    "sl_point_utf16_to_offset True sample_slice (point_utf16_at sample_rows 5) False = Some 5"
    by (auto simp: sample_slice(2))
  moreover have "units (take 5 sample_rows) = 3" "point_utf16_at sample_rows 5 = Point 0 3"
    by (simp_all add: point_utf16_at_def sample_rows_def sample_text_def rows_def last_line_def units_def nchars_def boundary_byte)
  ultimately show ?thesis by simp
qed

end
