(* ===== verification/Zed_Chunk_Clip.thy ===== *)
theory Zed_Chunk_Clip
  imports Zed_Chunk_Position
begin

text \<open>
  Clipping in a slice: positions that are not in the text, or inside a character, move to a boundary on the side of the
  bias.  The loops over offsets end.
\<close>

section \<open>Boundaries\<close>

lemma boundary_ends [simp]: "str_is_char_boundary t 0" "str_is_char_boundary t (length t)"
  by (simp_all add: str_is_char_boundary_def)

lemma down_boundary:
  "str_is_char_boundary t (down_to_boundary t i) \<and> down_to_boundary t i \<le> i \<and>
    (\<forall>j. str_is_char_boundary t j \<longrightarrow> j \<le> i \<longrightarrow> j \<le> down_to_boundary t i)"
  by (induction i) (auto simp: le_Suc_eq)

lemma up_boundary:
  "i \<le> length t \<Longrightarrow> \<exists>j. up_to_boundary t i = Some j \<and> str_is_char_boundary t j \<and> i \<le> j \<and>
    (\<forall>k. str_is_char_boundary t k \<longrightarrow> i \<le> k \<longrightarrow> j \<le> k)"
proof (induction t i rule: up_to_boundary.induct)
  case (1 t i)
  show ?case
  proof (cases "str_is_char_boundary t i")
    case True
    then show ?thesis by (subst up_to_boundary.simps) simp
  next
    case False
    then have "i \<noteq> length t" by auto
    then have "i < length t" using 1(2) by simp
    then obtain j where j: "up_to_boundary t (Suc i) = Some j" "str_is_char_boundary t j" "Suc i \<le> j"
        "\<forall>k. str_is_char_boundary t k \<longrightarrow> Suc i \<le> k \<longrightarrow> j \<le> k"
      using 1(1) [OF False] by auto
    have "j \<le> k" if "str_is_char_boundary t k" "i \<le> k" for k
      using that False j(4) by (cases "i = k") auto
    then show ?thesis using False \<open>i < length t\<close> j by (subst up_to_boundary.simps) auto
  qed
qed

lemma boundary_append:
  assumes "str_is_char_boundary t k" "str_is_char_boundary (take n (drop k t)) i" "k + n \<le> length t" "str_is_char_boundary t (k + n)"
  shows "str_is_char_boundary t (k + i)"
proof -
  have "i \<le> n" using boundary_le [OF assms(2)] assms(3) by simp
  then show ?thesis using assms by (cases "i = 0"; cases "i = n") (auto simp: str_is_char_boundary_def)
qed

lemma boundary_part:
  assumes "str_is_char_boundary t (k + i)" "i \<le> n" "k + n \<le> length t"
  shows "str_is_char_boundary (take n (drop k t)) i"
  using assms by (cases "i = 0"; cases "i = n") (auto simp: str_is_char_boundary_def)

lemma units_mono:
  assumes "utf8_ok t" "str_is_char_boundary t i" "str_is_char_boundary t j" "i < j"
  shows "units (take i t) < units (take j t)"
proof -
  have j: "j \<le> length t" by (rule boundary_le [OF assms(3)])
  have "str_is_char_boundary (take j t) i" using assms(2,4) j by (auto simp: str_is_char_boundary_def)
  then have "utf8_ok (drop i (take j t))" using utf8_ok_split [of "take j t" i] utf8_ok_split [OF assms(1,3)] by blast
  then have "units (drop i (take j t)) \<noteq> 0" using units_zero assms(4) j by simp
  moreover have "take j t = take i t @ drop i (take j t)" using assms(4) append_take_drop_id [of i "take j t"] by (simp add: min_def)
  ultimately show ?thesis using counts_append(2) [of "take i t" "drop i (take j t)"] by simp
qed

section \<open>UTF-16 offsets\<close>

text \<open>The offset found is a boundary, or the second byte of a character of two units.\<close>

lemma slice_unit_inside:
  assumes s: "slice_ok s" and i: "0 < i" "i \<le> length (sl_text s)" "bit (sl_chars_utf16 s) i" "\<not> str_is_char_boundary (sl_text s) i"
    and b: "str_is_char_boundary (sl_text s) k" "str_is_char_boundary (sl_text s) j" "k < i" "i < j"
  shows "units (take k (sl_text s)) < set_between (sl_chars_utf16 s) 0 i" "set_between (sl_chars_utf16 s) 0 i < units (take j (sl_text s))"
proof -
  let ?t = "sl_text s" and ?x = "sl_chars_utf16 s"
  note d = slice_okD [OF s]
  have le: "set_between ?x 0 a \<le> set_between ?x 0 b" if "a \<le> b" for a b
    using set_between_split [of 0 a b ?x] that by simp
  have step: "bit ?x a \<Longrightarrow> set_between ?x 0 (Suc a) = Suc (set_between ?x 0 a)" for a by (simp add: set_between_def)
  have "\<not> is_utf8_char_boundary (?t ! i)" using i by (auto simp: str_is_char_boundary_def)
  then have "240 \<le> byte (?t ! (i - 1))" using i(3) by (simp add: bits_areD [OF d(5)] unit_at_def)
  then have "bit ?x (i - 1)" using i(1,2) by (simp add: bits_areD [OF d(5)] unit_at_def boundary_byte)
  then have "set_between ?x 0 (i - 1) < set_between ?x 0 i" using step [of "i - 1"] i(1) by simp
  moreover have "set_between ?x 0 k \<le> set_between ?x 0 (i - 1)" using b(3) by (intro le) simp
  ultimately show "units (take k ?t) < set_between ?x 0 i" using slice_units_before [OF s b(1)] by simp
  have "set_between ?x 0 i < set_between ?x 0 (Suc i)" using step [OF i(3)] by simp
  also have "\<dots> \<le> set_between ?x 0 j" using b(4) by (intro le) simp
  finally show "set_between ?x 0 i < units (take j ?t)" using slice_units_before [OF s b(2)] by simp
qed

text \<open>The greatest boundary with at most \<open>u\<close> units before it, and the least with at least \<open>u\<close> of them.\<close>

definition unit_floor :: "string \<Rightarrow> nat \<Rightarrow> nat \<Rightarrow> bool" where
  "unit_floor t u i \<longleftrightarrow> str_is_char_boundary t i \<and> units (take i t) \<le> u \<and>
     (\<forall>j. str_is_char_boundary t j \<longrightarrow> units (take j t) \<le> u \<longrightarrow> j \<le> i)"

definition unit_ceil :: "string \<Rightarrow> nat \<Rightarrow> nat \<Rightarrow> bool" where
  "unit_ceil t u i \<longleftrightarrow> str_is_char_boundary t i \<and> u \<le> units (take i t) \<and>
     (\<forall>j. str_is_char_boundary t j \<longrightarrow> u \<le> units (take j t) \<longrightarrow> i \<le> j)"

lemma unit_between:
  assumes utf: "utf8_ok t" and b: "str_is_char_boundary t k" "str_is_char_boundary t j"
    and none: "\<And>l. str_is_char_boundary t l \<Longrightarrow> l \<le> k \<or> j \<le> l"
    and u: "k = j \<and> units (take k t) = u \<or> units (take k t) < u \<and> u < units (take j t)"
  shows "unit_floor t u k" "unit_ceil t u j"
proof -
  have le: "units (take a t) \<le> units (take b t)" if "str_is_char_boundary t a" "str_is_char_boundary t b" "a \<le> b" for a b
    using units_mono [OF utf that(1,2)] that(3) by (cases "a = b") auto
  have "l \<le> k" if l: "str_is_char_boundary t l" "units (take l t) \<le> u" for l
  proof (rule ccontr)
    assume n: "\<not> l \<le> k"
    then have "units (take j t) \<le> units (take l t)" using none [OF l(1)] le [OF b(2) l(1)] by simp
    then show False using u l(2) n units_mono [OF utf b(1) l(1)] by auto
  qed
  moreover have "j \<le> l" if l: "str_is_char_boundary t l" "u \<le> units (take l t)" for l
  proof (rule ccontr)
    assume n: "\<not> j \<le> l"
    then have "units (take l t) \<le> units (take k t)" using none [OF l(1)] le [OF l(1) b(1)] by simp
    then show False using u l(2) n units_mono [OF utf l(1) b(2)] by auto
  qed
  ultimately show "unit_floor t u k" "unit_ceil t u j" using b u by (auto simp: unit_floor_def unit_ceil_def)
qed

lemma slice_unit_clip:
  assumes s: "slice_ok s" and u: "0 < u" "u \<le> units (sl_text s)"
  obtains i j where "sl_offset_utf16_to_offset debug s u = Some i" "i \<le> length (sl_text s)"
    "unit_floor (sl_text s) u (down_to_boundary (sl_text s) i)"
    "up_to_boundary (sl_text s) i = Some j" "unit_ceil (sl_text s) u j"
proof -
  let ?t = "sl_text s" and ?x = "sl_chars_utf16 s"
  have utf: "utf8_ok ?t" by (rule slice_okD [OF s])
  obtain i where i: "sl_offset_utf16_to_offset debug s u = Some i" "0 < i" "i \<le> length ?t" "set_between ?x 0 i = u"
      "i < length ?t \<Longrightarrow> bit ?x i"
    by (rule slice_unit_offset [OF s u, where debug = debug]) blast
  obtain j where j: "up_to_boundary ?t i = Some j" "str_is_char_boundary ?t j" "i \<le> j"
      "\<forall>k. str_is_char_boundary ?t k \<longrightarrow> i \<le> k \<longrightarrow> j \<le> k"
    using up_boundary [OF i(3)] by blast
  define k where "k = down_to_boundary ?t i"
  have k: "str_is_char_boundary ?t k" "k \<le> i" "\<forall>l. str_is_char_boundary ?t l \<longrightarrow> l \<le> i \<longrightarrow> l \<le> k"
    using down_boundary [of ?t i] by (simp_all add: k_def)
  have none: "l \<le> k \<or> j \<le> l" if "str_is_char_boundary ?t l" for l
    using that k(3) j(4) by (cases "l \<le> i") auto
  have "k = j \<and> units (take k ?t) = u \<or> units (take k ?t) < u \<and> u < units (take j ?t)"
  proof (cases "str_is_char_boundary ?t i")
    case True
    then have "k = i" "j = i" using k j by (auto intro: antisym)
    then show ?thesis using slice_units_before [OF s True] i(4) by simp
  next
    case False
    then have "i \<noteq> length ?t" "k < i" "i < j" using k(1,2) j(2,3) by (auto simp: le_less)
    then show ?thesis using slice_unit_inside [OF s i(2,3) i(5) False k(1) j(2)] i(3,4) by simp
  qed
  note between = unit_between [OF utf k(1) j(2) none this]
  show thesis by (rule that [OF i(1,3) _ j(1)]) (use between in \<open>simp_all add: k_def\<close>)
qed

lemma unit_floor_0: "utf8_ok t \<Longrightarrow> unit_floor t 0 0"
proof -
  assume t: "utf8_ok t"
  have "i = 0" if b: "str_is_char_boundary t i" "units (take i t) = 0" for i
    using units_zero [of "take i t"] utf8_ok_split [OF t b(1)] b boundary_le [OF b(1)] by auto
  then show ?thesis by (simp add: unit_floor_def)
qed

lemma unit_floor_length: "units t \<le> u \<Longrightarrow> unit_floor t u (length t)"
  using boundary_le by (simp add: unit_floor_def)

lemma unit_ceil_length: "utf8_ok t \<Longrightarrow> unit_ceil t (units t) (length t)"
proof -
  assume t: "utf8_ok t"
  have "length t \<le> i" if "str_is_char_boundary t i" "units t \<le> units (take i t)" for i
    using units_mono [OF t that(1) boundary_ends(2)] that by (cases "i < length t") simp_all
  then show ?thesis by (simp add: unit_ceil_def)
qed

lemma unit_floor_unique: "unit_floor t u i \<Longrightarrow> unit_floor t u j \<Longrightarrow> i = j"
  by (auto simp: unit_floor_def intro: antisym)

lemma unit_ceil_unique: "unit_ceil t u i \<Longrightarrow> unit_ceil t u j \<Longrightarrow> i = j"
  unfolding unit_ceil_def by (metis antisym)

lemma slice_clip_offset_utf16:
  assumes s: "slice_ok s"
  obtains i where "sl_clip_offset_utf16 debug s u b = Some (units (take i (sl_text s)))"
    "if b = BLeft then unit_floor (sl_text s) u i else unit_ceil (sl_text s) (min u (units (sl_text s))) i"
proof -
  let ?t = "sl_text s"
  note d = slice_okD [OF s]
  have len: "sl_len_utf16 s = units ?t" by (simp add: sl_len_utf16_def slice_counts(3) [OF s])
  consider "u = 0" | "0 < u" "units ?t \<le> u" | "0 < u" "u < units ?t" by linarith
  then show thesis
  proof cases
    case 1
    moreover have "unit_ceil ?t 0 0" by (simp add: unit_ceil_def)
    ultimately show thesis using unit_floor_0 [OF d(2)] by (intro that [of 0]) (simp_all add: sl_clip_offset_utf16_def)
  next
    case 2
    then show thesis using len unit_floor_length [of ?t u] unit_ceil_length [OF d(2)]
      by (intro that [of "length ?t"]) (simp_all add: sl_clip_offset_utf16_def min_def)
  next
    case 3
    obtain i j where i: "sl_offset_utf16_to_offset debug s u = Some i" "i \<le> length ?t" "unit_floor ?t u (down_to_boundary ?t i)"
        "up_to_boundary ?t i = Some j" "unit_ceil ?t u j"
      by (rule slice_unit_clip [OF s 3(1) less_imp_le [OF 3(2)], where debug = debug])
    then have "str_is_char_boundary ?t (down_to_boundary ?t i)" "str_is_char_boundary ?t j" by (simp_all add: unit_floor_def unit_ceil_def)
    then show thesis using 3 i len slice_offset_to_utf16 [OF s]
      by (intro that [of "if b = BLeft then down_to_boundary ?t i else j"]) (simp_all add: sl_clip_offset_utf16_def min_def)
  qed
qed

section \<open>Rows\<close>

text \<open>The row that starts at \<open>k\<close>: the slice of it, its points, and the rows of the offsets around it.\<close>

definition row_of :: "string \<Rightarrow> nat \<Rightarrow> nat \<Rightarrow> string \<Rightarrow> bool" where
  "row_of t row k l \<longleftrightarrow> k \<le> length t \<and> rows (take k t) = row \<and> last_line (take k t) = [] \<and> l = first_line (drop k t)"

lemma row_of_utf8: "utf8_ok t \<Longrightarrow> row_of t row k l \<Longrightarrow> str_is_char_boundary t k"
proof (cases k)
  case (Suc j)
  assume t: "utf8_ok t" and r: "row_of t row k l"
  then have k: "k \<le> length t" "last_line (take k t) = []" "row_start t k = k" by (simp_all add: row_of_def row_start_def)
  have "take k t \<noteq> []" using Suc k(1) by auto
  then have "rows (take k t) \<noteq> 0" using k(2) no_newline_lines [of "take k t"] by (auto simp: rows_zero)
  from row_start_newline [OF k(1) this] have "t ! j = newline" using k(3) Suc by simp
  then show ?thesis using utf8_next [OF t, of j] Suc k(1) by (auto simp: str_is_char_boundary_def)
qed simp

lemma slice_row:
  assumes s: "slice_ok s" and row: "row \<le> rows (sl_text s)"
  obtains k line where "row_of (sl_text s) row k (sl_text line)" "slice_ok line"
    "sl_offset_range_for_row debug s row = Some (k, k + length (sl_text line))"
    "sl_slice debug s k (k + length (sl_text line)) = Some line"
proof -
  let ?t = "sl_text s"
  note d = slice_okD [OF s]
  obtain k where k: "k \<le> length ?t" "rows (take k ?t) = row" "last_line (take k ?t) = []"
    using row_exists [OF row] by blast
  have start: "row_start ?t k = k" using k(3) by (simp add: row_start_def)
  have b: "str_is_char_boundary ?t k" by (rule row_of_utf8 [OF d(2)]) (use k in \<open>simp add: row_of_def\<close>)
  let ?e = "k + length (first_line (drop k ?t))"
  have e: "row_end ?t k = ?e" by (simp add: row_end_def)
  obtain line where line: "sl_slice debug s k ?e = Some line" "slice_ok line" "sl_text line = take (?e - k) (drop k ?t)"
    by (rule slice_slice [OF s b row_end_boundary [OF k(1), unfolded e] le_add1])
  have "sl_text line = first_line (drop k ?t)" using line(3) first_line_take [of "drop k ?t"] by simp
  then show thesis using k line(1,2) slice_row_range [OF s k(1), of debug] start e
    by (intro that [of k line]) (simp_all add: row_of_def)
qed

lemma row_of_text: "row_of t row k l \<Longrightarrow> take (length l) (drop k t) = l \<and> k + length l \<le> length t"
  using first_line_take [of "drop k t"] length_first_line [of "drop k t"] by (auto simp: row_of_def)

lemma row_of_end: "row_of t row k l \<Longrightarrow> k + length l < length t \<Longrightarrow> t ! (k + length l) = newline"
  using nth_length_takeWhile [of "\<lambda>b. b \<noteq> newline" "drop k t"] by (auto simp: row_of_def first_line_def)

lemma row_of_boundary:
  assumes t: "utf8_ok t" and r: "row_of t row k l" and i: "i \<le> length l"
  shows "str_is_char_boundary t (k + i) \<longleftrightarrow> str_is_char_boundary l i"
proof -
  note l = row_of_text [OF r]
  have "str_is_char_boundary t (k + length l)" using l row_of_end [OF r] newline_boundary by (auto simp: str_is_char_boundary_def)
  then show ?thesis
    using boundary_append [OF row_of_utf8 [OF t r], of "length l" i] boundary_part [of t k i "length l"] l i by auto
qed

lemma row_of_take:
  assumes r: "row_of t row k l" and i: "i \<le> length l"
  shows "rows (take (k + i) t) = row" "last_line (take (k + i) t) = take i l"
proof -
  have "point_at t (k + i) = Point row i" using row_point(2) [of k t i] r i by (simp add: row_of_def)
  then show "rows (take (k + i) t) = row" by (simp add: point_at_def)
  have "take (k + i) t = take k t @ take i l" using row_of_text [OF r] i by (metis take_add take_take min.absorb1)
  moreover have "newline \<notin> set (take i l)" using first_line_no_newline [of "drop k t"] r by (auto simp: row_of_def dest: in_set_takeD)
  ultimately show "last_line (take (k + i) t) = take i l" using r by (simp add: last_line_append row_of_def no_newline_lines)
qed

lemma row_of_outside:
  assumes r: "row_of t row k l"
  shows "j < k \<Longrightarrow> rows (take j t) < row" "k + length l < j \<Longrightarrow> j \<le> length t \<Longrightarrow> row < rows (take j t)"
proof -
  have mono: "rows (take a t) \<le> rows (take b t)" if "a \<le> b" for a b
    using rows_take_le [of a "take b t"] that by (simp add: min_absorb1)
  have step: "rows (take (Suc a) t) = Suc (rows (take a t))" if "a < length t" "t ! a = newline" for a
    using that by (simp add: take_Suc_conv_app_nth)
  show "rows (take j t) < row" if j: "j < k"
  proof -
    have k: "k \<le> length t" "row_start t k = k" "last_line (take k t) = []" using r by (simp_all add: row_of_def row_start_def)
    then have "take k t \<noteq> []" using j by auto
    then have "rows (take k t) \<noteq> 0" using k(3) no_newline_lines [of "take k t"] by (auto simp: rows_zero)
    then have "rows (take k t) = Suc (rows (take (k - 1) t))"
      using step [of "k - 1"] row_start_newline [OF k(1)] k j by simp
    moreover have "rows (take j t) \<le> rows (take (k - 1) t)" using j by (intro mono) simp
    ultimately show ?thesis using r by (simp add: row_of_def)
  qed
  show "row < rows (take j t)" if j: "k + length l < j" "j \<le> length t"
  proof -
    have "rows (take (Suc (k + length l)) t) = Suc row"
      using step [of "k + length l"] row_of_end [OF r] row_of_take(1) [OF r order_refl] j by simp
    moreover have "rows (take (Suc (k + length l)) t) \<le> rows (take j t)" using j by (intro mono) simp
    ultimately show ?thesis by simp
  qed
qed

section \<open>UTF-16 points\<close>

text \<open>The greatest boundary whose UTF-16 point is at most \<open>p\<close>; the least whose point is at least \<open>p\<close> if it is in the row.\<close>

definition point_floor :: "string \<Rightarrow> point \<Rightarrow> nat \<Rightarrow> bool" where
  "point_floor t p i \<longleftrightarrow> str_is_char_boundary t i \<and> point_utf16_at t i \<le> p \<and>
     (\<forall>j. str_is_char_boundary t j \<longrightarrow> point_utf16_at t j \<le> p \<longrightarrow> j \<le> i)"

definition point_ceil :: "string \<Rightarrow> point \<Rightarrow> nat \<Rightarrow> bool" where
  "point_ceil t p i \<longleftrightarrow> str_is_char_boundary t i \<and> p \<le> point_utf16_at t i \<and>
     (\<forall>j. str_is_char_boundary t j \<longrightarrow> p \<le> point_utf16_at t j \<longrightarrow> i \<le> j)"

lemma row_of_utf16:
  assumes r: "row_of t row k l" and i: "i \<le> length l"
  shows "point_utf16_at t (k + i) = Point row (units (take i l))" "point_at t (k + i) = Point row i"
  using row_of_take [OF r i] i by (simp_all add: point_utf16_at_def point_at_def)

text \<open>A bound in the row is one among all positions.\<close>

lemma row_of_floor:
  assumes t: "utf8_ok t" and r: "row_of t (pt_row p) k l" and i: "unit_floor l (pt_column p) i"
  shows "point_floor t p (k + i)"
proof -
  have il: "i \<le> length l" using i boundary_le by (simp add: unit_floor_def)
  have "j \<le> k + i" if j: "str_is_char_boundary t j" "point_utf16_at t j \<le> p" for j
  proof (cases "k \<le> j \<and> j \<le> k + length l")
    case True
    then obtain m where m: "j = k + m" "m \<le> length l" by (metis add_le_cancel_left le_add_diff_inverse)
    then have "units (take m l) \<le> pt_column p" using j(2) row_of_utf16(1) [OF r m(2)] by (cases p) simp
    then show ?thesis using i j(1) m row_of_boundary [OF t r m(2)] by (simp add: unit_floor_def)
  next
    case False
    moreover have "rows (take j t) \<le> pt_row p" using j(2) by (cases p) (auto simp: point_utf16_at_def)
    ultimately show ?thesis using row_of_outside(2) [OF r, of j] boundary_le [OF j(1)] by fastforce
  qed
  moreover have "point_utf16_at t (k + i) \<le> p" using i row_of_utf16(1) [OF r il] by (cases p) (simp add: unit_floor_def)
  ultimately show ?thesis using i row_of_boundary [OF t r il] by (simp add: point_floor_def unit_floor_def)
qed

lemma row_of_ceil:
  assumes t: "utf8_ok t" and r: "row_of t (pt_row p) k l" and i: "unit_ceil l (pt_column p) i"
  shows "point_ceil t p (k + i)"
proof -
  have il: "i \<le> length l" using i boundary_le by (simp add: unit_ceil_def)
  have "k + i \<le> j" if j: "str_is_char_boundary t j" "p \<le> point_utf16_at t j" for j
  proof (cases "k \<le> j \<and> j \<le> k + length l")
    case True
    then obtain m where m: "j = k + m" "m \<le> length l" by (metis add_le_cancel_left le_add_diff_inverse)
    then have "pt_column p \<le> units (take m l)" using j(2) row_of_utf16(1) [OF r m(2)] by (cases p) simp
    then show ?thesis using i j(1) m row_of_boundary [OF t r m(2)] by (simp add: unit_ceil_def)
  next
    case False
    moreover have "pt_row p \<le> rows (take j t)" using j(2) by (cases p) (auto simp: point_utf16_at_def)
    ultimately show ?thesis using row_of_outside(1) [OF r, of j] il by fastforce
  qed
  moreover have "p \<le> point_utf16_at t (k + i)" using i row_of_utf16(1) [OF r il] by (cases p) (simp add: unit_ceil_def)
  ultimately show ?thesis using i row_of_boundary [OF t r il] by (simp add: point_ceil_def unit_ceil_def)
qed

lemma floor_below:
  assumes "rows t < pt_row p"
  shows "point_floor t p (length t)"
  using assms boundary_le by (cases p) (simp add: point_floor_def point_utf16_at_def)

lemma slice_units_le: "slice_ok s \<Longrightarrow> units (sl_text s) \<le> 128"
proof -
  assume s: "slice_ok s"
  have "count_ones (x :: bitmap) \<le> 128" for x using length_filter_le [of "bit x" "[0..<128]"] by (simp add: count_ones_def)
  from this [of "sl_chars_utf16 s"] show ?thesis by (simp add: slice_counts(3) [OF s])
qed

text \<open>Going down to a boundary in the row and in the text.\<close>

lemma down_same: "down_to_boundary t i = (if str_is_char_boundary t i then i else down_to_boundary t (i - 1))"
  by (cases i) simp_all

lemma row_of_down:
  assumes t: "utf8_ok t" and r: "row_of t row k l"
  shows "j \<le> length l \<Longrightarrow> down_to_boundary t (k + j) = k + down_to_boundary l j"
proof (induction j)
  case 0
  then show ?case using row_of_utf8 [OF t r] down_same [of t k] by simp
next
  case (Suc j)
  then show ?case using row_of_boundary [OF t r Suc.prems] by simp
qed

lemma slice_clip_left:
  assumes s: "slice_ok s"
  obtains i where "point_floor (sl_text s) p i"
    "sl_clip_point_utf16 debug s p BLeft = Some (point_utf16_at (sl_text s) i)"
    "sl_unclipped_point_utf16_to_point debug s p = Some (point_at (sl_text s) i)"
    "sl_point_utf16_to_offset debug s p True = Some i"
proof (cases "rows (sl_text s) < pt_row p")
  case True
  then show thesis using floor_below [OF True]
    by (intro that [of "length (sl_text s)"])
      (simp_all add: sl_clip_point_utf16_def sl_unclipped_point_utf16_to_point_def sl_point_utf16_to_offset_def slice_lines [OF s]
        slice_last_line [OF s] point_at_def point_utf16_at_def debug_panic_def sl_len_def)
next
  case False
  let ?t = "sl_text s" and ?u = "pt_column p"
  note d = slice_okD [OF s]
  obtain k line where r: "row_of ?t (pt_row p) k (sl_text line)" and ok: "slice_ok line"
      and range: "sl_offset_range_for_row debug s (pt_row p) = Some (k, k + length (sl_text line))"
      and line: "sl_slice debug s k (k + length (sl_text line)) = Some line"
    using slice_row [OF s, of "pt_row p" debug] False by (metis not_less)
  let ?l = "sl_text line"
  note dl = slice_okD [OF ok]
  obtain i where i: "sl_clip_offset_utf16 debug line ?u BLeft = Some (units (take i ?l))" "unit_floor ?l ?u i"
    using slice_clip_offset_utf16 [OF ok, of debug ?u BLeft] by auto
  have il: "str_is_char_boundary ?l i" "i \<le> length ?l" using i(2) boundary_le by (simp_all add: unit_floor_def)
  have ul: "units ?l \<le> 128" by (rule slice_units_le [OF ok])
  then have small: "units (take i ?l) \<le> 128" using counts_append(2) [of "take i ?l" "drop i ?l"] by simp
  have len: "sl_len_utf16 line = units ?l" by (simp add: sl_len_utf16_def slice_counts(3) [OF ok])
  have "newline \<notin> set ?l" using r first_line_no_newline by (simp add: row_of_def)
  then have last: "sl_last_line_len_utf16 line = units ?l" using slice_last_line(2) [OF ok] no_newline_lines by metis
  have clip: "sl_clip_point_utf16 debug s p BLeft = Some (point_utf16_at ?t (k + i))"
    using False i(1) small by (simp add: sl_clip_point_utf16_def slice_lines [OF s] range line row_of_utf16 [OF r il(2)])
  consider "?u = 0" | "0 < ?u" "units ?l \<le> ?u" | "0 < ?u" "?u < units ?l" by linarith
  then have "sl_unclipped_point_utf16_to_point debug s p = Some (point_at ?t (k + i)) \<and> sl_point_utf16_to_offset debug s p True = Some (k + i)"
  proof cases
    case 1
    then have "i = 0" using unit_floor_unique [OF i(2)] unit_floor_0 [OF dl(2)] by simp
    then show ?thesis using False 1 row_of_utf16(2) [OF r il(2)]
      by (simp add: sl_unclipped_point_utf16_to_point_def sl_point_utf16_to_offset_def slice_lines [OF s] range line last)
  next
    case 2
    then have e: "i = length ?l" using unit_floor_unique [OF i(2)] unit_floor_length by blast
    have "sl_point_utf16_to_offset debug s p True = Some (k + i)"
    proof (cases "units ?l < ?u")
      case True
      then show ?thesis using False e
        by (simp add: sl_point_utf16_to_offset_def slice_lines [OF s] range line last debug_panic_def)
    next
      case eq: False
      then have "?u = units (take (length ?l) ?l)" using 2 by simp
      then have "sl_offset_utf16_to_offset debug line ?u = Some (length ?l)"
        using slice_utf16_to_offset [OF ok boundary_ends(2), of debug] by simp
      then show ?thesis using False 2 eq e row_of_boundary [OF d(2) r il(2)]
        by (simp add: sl_point_utf16_to_offset_def slice_lines [OF s] range line last)
    qed
    then show ?thesis using False 2 e len ul row_of_utf16(2) [OF r il(2)] dl(1)
      by (simp add: sl_unclipped_point_utf16_to_point_def slice_lines [OF s] range line sl_len_def)
  next
    case 3
    obtain j j' where j: "sl_offset_utf16_to_offset debug line ?u = Some j" "j \<le> length ?l" "unit_floor ?l ?u (down_to_boundary ?l j)"
        "up_to_boundary ?l j = Some j'" "unit_ceil ?l ?u j'"
      by (rule slice_unit_clip [OF ok 3(1) less_imp_le [OF 3(2)], where debug = debug])
    have e: "down_to_boundary ?l j = i" by (rule unit_floor_unique [OF j(3) i(2)])
    have "(if str_is_char_boundary ?t (k + j) then k + j else down_to_boundary ?t (k + j - 1)) = k + i"
      using row_of_down [OF d(2) r j(2)] down_same [of ?t "k + j"] e by simp
    then show ?thesis using False 3 e len ul row_of_utf16(2) [OF r il(2)] dl(1) il(2) j
      by (auto simp: sl_unclipped_point_utf16_to_point_def sl_point_utf16_to_offset_def slice_lines [OF s] range line last debug_panic_def split: if_splits)
  qed
  then show thesis using row_of_floor [OF d(2) r i(2)] clip by (intro that [of "k + i"]) simp_all
qed

lemma slice_clip_right:
  assumes s: "slice_ok s"
  obtains i where "sl_clip_point_utf16 debug s p BRight = Some (point_utf16_at (sl_text s) i)"
    "point_ceil (sl_text s) p i \<and> pt_row (point_utf16_at (sl_text s) i) = pt_row p \<or>
     point_floor (sl_text s) p i \<and> (\<forall>j. str_is_char_boundary (sl_text s) j \<longrightarrow>
       pt_row (point_utf16_at (sl_text s) j) = pt_row p \<longrightarrow> point_utf16_at (sl_text s) j < p)"
proof (cases "rows (sl_text s) < pt_row p")
  case True
  have "pt_row (point_utf16_at (sl_text s) j) < pt_row p" for j
    using rows_take_le [of j "sl_text s"] True by (simp add: point_utf16_at_def)
  then have "pt_row (point_utf16_at (sl_text s) j) \<noteq> pt_row p" for j by (metis less_irrefl)
  moreover have "sl_clip_point_utf16 debug s p BRight = Some (point_utf16_at (sl_text s) (length (sl_text s)))"
    using True by (simp add: sl_clip_point_utf16_def slice_lines [OF s] slice_last_line [OF s] point_utf16_at_def)
  ultimately show thesis using floor_below [OF True] by (intro that [of "length (sl_text s)"]) simp_all
next
  case False
  let ?t = "sl_text s" and ?u = "pt_column p"
  note d = slice_okD [OF s]
  obtain k line where r: "row_of ?t (pt_row p) k (sl_text line)" and ok: "slice_ok line"
      and range: "sl_offset_range_for_row debug s (pt_row p) = Some (k, k + length (sl_text line))"
      and line: "sl_slice debug s k (k + length (sl_text line)) = Some line"
    using slice_row [OF s, of "pt_row p" debug] False by (metis not_less)
  let ?l = "sl_text line"
  note dl = slice_okD [OF ok]
  obtain i where i: "sl_clip_offset_utf16 debug line ?u BRight = Some (units (take i ?l))" "unit_ceil ?l (min ?u (units ?l)) i"
    using slice_clip_offset_utf16 [OF ok, of debug ?u BRight] by auto
  have il: "i \<le> length ?l" using i(2) boundary_le by (simp add: unit_ceil_def)
  have "units (take i ?l) \<le> 128" using slice_units_le [OF ok] counts_append(2) [of "take i ?l" "drop i ?l"] by simp
  then have clip: "sl_clip_point_utf16 debug s p BRight = Some (point_utf16_at ?t (k + i))"
    using False i(1) by (simp add: sl_clip_point_utf16_def slice_lines [OF s] range line row_of_utf16 [OF r il])
  show thesis
  proof (cases "?u \<le> units ?l")
    case True
    then have "unit_ceil ?l ?u i" using i(2) by (simp add: min_def)
    then show thesis using row_of_ceil [OF d(2) r] row_of_utf16(1) [OF r il] clip by (intro that [of "k + i"]) simp_all
  next
    case out: False
    then have "unit_ceil ?l (units ?l) i" using i(2) by (simp add: min_def)
    then have e: "i = length ?l" using unit_ceil_length [OF dl(2)] by (rule unit_ceil_unique)
    have floor: "unit_floor ?l ?u i" using out unit_floor_length e by simp
    have before: "point_utf16_at ?t j < p" if j: "str_is_char_boundary ?t j" "pt_row (point_utf16_at ?t j) = pt_row p" for j
    proof -
      have "rows (take j ?t) = pt_row p" using j(2) by (simp add: point_utf16_at_def)
      then have "k \<le> j \<and> j \<le> k + length ?l" using row_of_outside [OF r, of j] boundary_le [OF j(1)] by (cases "j < k"; cases "k + length ?l < j") simp_all
      then obtain m where m: "j = k + m" "m \<le> length ?l" by (metis add_le_cancel_left le_add_diff_inverse)
      have "units (take m ?l) < ?u" using out counts_append(2) [of "take m ?l" "drop m ?l"] by simp
      then show ?thesis using row_of_utf16(1) [OF r m(2)] m(1) by (cases p) (simp add: less_point_def)
    qed
    show thesis by (rule that [OF clip]) (use row_of_floor [OF d(2) r floor] before in simp)
  qed
qed

section \<open>Points and grapheme clusters\<close>

lemma clip_loop_left:
  assumes l: "slice_ok line" and g: "grapheme (sl_text line) 0"
  shows "c \<le> length (sl_text line) \<Longrightarrow> \<exists>c' \<le> c. clip_point_loop grapheme line BLeft c = Some c' \<and>
    str_is_char_boundary (sl_text line) c' \<and> grapheme (sl_text line) c'"
proof (induction c)
  case 0
  have "sl_is_char_boundary line 0" using slice_boundary [OF l, of 0] by simp
  then show ?case using g by (subst clip_point_loop.simps) simp
next
  case (Suc c)
  have b: "sl_is_char_boundary line (Suc c) \<longleftrightarrow> str_is_char_boundary (sl_text line) (Suc c)"
    using slice_boundary [OF l, of "Suc c"] Suc.prems slice_okD(1) [OF l] by simp
  then show ?case
    using Suc by (subst clip_point_loop.simps) (auto intro: le_SucI)
qed

lemma clip_loop_right:
  assumes l: "slice_ok line" and g: "grapheme (sl_text line) (length (sl_text line))"
  shows "c \<le> length (sl_text line) \<Longrightarrow> \<exists>c' \<ge> c. c' \<le> length (sl_text line) \<and> clip_point_loop grapheme line BRight c = Some c' \<and>
    str_is_char_boundary (sl_text line) c' \<and> grapheme (sl_text line) c'"
proof (induction c rule: inc_induct)
  case base
  have "sl_is_char_boundary line (length (sl_text line))"
    using slice_boundary [OF l, of "length (sl_text line)"] slice_okD(3) [OF l] by simp
  then show ?case using g by (subst clip_point_loop.simps) simp
next
  case (step c)
  have b: "sl_is_char_boundary line c \<longleftrightarrow> str_is_char_boundary (sl_text line) c"
    using slice_boundary [OF l, of c] step.hyps slice_okD(1) [OF l] by simp
  then show ?case
    using step by (subst clip_point_loop.simps) (auto intro: Suc_leD)
qed

text \<open>The positions that clipping does not move.\<close>

definition clip_fixed :: "(string \<Rightarrow> nat \<Rightarrow> bool) \<Rightarrow> string \<Rightarrow> nat \<Rightarrow> bool" where
  "clip_fixed grapheme l c \<longleftrightarrow> c = 0 \<or> c = length l \<or> byte (l ! (c - 1)) < 128 \<and> byte (l ! c) < 128 \<or>
     str_is_char_boundary l c \<and> grapheme l c"

lemma clip_fixed_boundary: "clip_fixed grapheme l c \<Longrightarrow> c \<le> length l \<Longrightarrow> str_is_char_boundary l c"
  by (auto simp: clip_fixed_def str_is_char_boundary_def boundary_byte)

lemma clip_row_fixed:
  assumes s: "slice_ok s" and ok: "slice_ok line"
    and range: "sl_offset_range_for_row debug s row = Some (k, k + length (sl_text line))"
    and line: "sl_slice debug s k (k + length (sl_text line)) = Some line"
    and row: "row \<le> rows (sl_text s)" and c: "clip_fixed grapheme (sl_text line) c" "c \<le> length (sl_text line)"
  shows "sl_clip_point grapheme debug s (Point row c) b = Some (Point row c)"
proof -
  have len: "length (sl_text line) \<le> 128" by (rule slice_okD [OF ok])
  have "sl_is_char_boundary line c" using slice_boundary [OF ok, of c] clip_fixed_boundary [OF c] c(2) len by simp
  moreover have "sl_is_char_boundary line c \<and> grapheme (sl_text line) c \<Longrightarrow> clip_point_loop grapheme line b c = Some c"
    by (subst clip_point_loop.simps) simp
  ultimately show ?thesis
    using c len row by (auto simp: sl_clip_point_def slice_lines [OF s] range line sl_len_def clip_fixed_def Let_def)
qed

lemma clip_row:
  assumes s: "slice_ok s" and ok: "slice_ok line"
    and range: "sl_offset_range_for_row debug s (pt_row p) = Some (k, k + length (sl_text line))"
    and line: "sl_slice debug s k (k + length (sl_text line)) = Some line"
    and row: "pt_row p \<le> rows (sl_text s)" and g: "grapheme (sl_text line) 0" "grapheme (sl_text line) (length (sl_text line))"
  obtains c where "sl_clip_point grapheme debug s p b = Some (Point (pt_row p) c)" "c \<le> length (sl_text line)"
    "clip_fixed grapheme (sl_text line) c" "if b = BLeft then c \<le> pt_column p else min (pt_column p) (length (sl_text line)) \<le> c"
proof -
  let ?l = "sl_text line" and ?c = "pt_column p"
  have len: "length ?l \<le> 128" by (rule slice_okD [OF ok])
  have loop: "\<exists>c \<le> length ?l. clip_point_loop grapheme line b ?c = Some c \<and> str_is_char_boundary ?l c \<and> grapheme ?l c \<and>
      (if b = BLeft then c \<le> ?c else ?c \<le> c)" if c: "?c \<le> length ?l"
  proof (cases b)
    case BLeft
    then show ?thesis using clip_loop_left [where grapheme = grapheme, OF ok g(1) c] c by (auto intro: le_trans)
  next
    case BRight
    then show ?thesis using clip_loop_right [where grapheme = grapheme, OF ok g(2) c] by auto
  qed
  consider "clip_fixed grapheme ?l ?c" "?c \<le> length ?l" | "length ?l < ?c" | "\<not> clip_fixed grapheme ?l ?c" "?c < length ?l"
    by (metis clip_fixed_def le_less not_less)
  then show thesis
  proof cases
    case 1
    then show thesis using clip_row_fixed [OF s ok range line row 1] by (intro that [of ?c]) (cases p; simp)+
  next
    case 2
    then show thesis using len row
      by (intro that [of "length ?l"]) (auto simp: sl_clip_point_def slice_lines [OF s] range line sl_len_def clip_fixed_def Let_def)
  next
    case 3
    obtain c where c: "c \<le> length ?l" "clip_point_loop grapheme line b ?c = Some c" "str_is_char_boundary ?l c" "grapheme ?l c"
        "if b = BLeft then c \<le> ?c else ?c \<le> c"
      using loop 3(2) by auto
    have "sl_clip_point grapheme debug s p b = Some (Point (pt_row p) c)"
      using 3 c(1,2) len row by (auto simp: sl_clip_point_def slice_lines [OF s] range line sl_len_def clip_fixed_def Let_def)
    then show thesis using 3 c by (intro that [of c]) (auto simp: clip_fixed_def)
  qed
qed

section \<open>Tabs\<close>

text \<open>The lowest set bit and the others.\<close>

lemma lowest_bit:
  assumes "x \<noteq> (0 :: bitmap)"
  shows "filter (bit x) [0..<128] = trailing_zeros x # filter (bit (x XOR push_bit (trailing_zeros x) 1)) [0..<128]"
proof -
  let ?m = "trailing_zeros x"
  obtain k where k: "bit x k" using assms by (auto simp: bit_eq_iff)
  then have "?m \<le> k" using trailing_before [of k x] by (meson not_less)
  then have m: "?m < 128" using bit_imp_le_length [OF k] by simp
  define z where "z = x XOR push_bit ?m 1"
  have y: "bit z i \<longleftrightarrow> bit x i \<and> i \<noteq> ?m" for i
    unfolding z_def bit_xor_iff bit_push_bit_iff bit_1_iff using trailing_bit [OF m] m by auto
  have split: "[0..<128] = [0..<?m] @ ?m # [Suc ?m..<128]"
    using m upt_add_eq_append [of 0 ?m "128 - ?m"] by (simp add: upt_conv_Cons)
  have "filter (bit x) [0..<?m] = []" using trailing_before [of _ x] by (simp add: filter_empty_conv)
  moreover from this have "filter (bit z) [0..<?m] = []" by (simp add: filter_empty_conv y)
  moreover have "filter (bit z) [Suc ?m..<128] = filter (bit x) [Suc ?m..<128]"
    by (rule filter_cong) (simp_all add: y)
  ultimately show ?thesis using trailing_bit [OF m] unfolding z_def [symmetric] split filter_append by (simp add: y)
qed

text \<open>All items of the iterator.\<close>

function tabs_all :: "tabs_iter \<Rightarrow> (nat \<times> nat) list" where
  "tabs_all t = (case tabs_next t of None \<Rightarrow> [] | Some (pos, t') \<Rightarrow> pos # tabs_all t')"
  by pat_completeness auto
termination
proof (relation "measure (\<lambda>t. count_ones (ta_tabs t))")
  fix t x pos t'
  assume "tabs_next t = Some x" "(pos, t') = x"
  then have "ta_tabs t \<noteq> 0" "ta_tabs t' = ta_tabs t XOR push_bit (trailing_zeros (ta_tabs t)) 1"
    by (auto simp: tabs_next_def Let_def split: if_splits)
  then show "(t', t) \<in> measure (\<lambda>t. count_ones (ta_tabs t))" using lowest_bit [of "ta_tabs t"] by (simp add: count_ones_def)
qed simp

declare tabs_all.simps [simp del]

lemma tabs_all_bits:
  "tabs_all t = map (\<lambda>i. (i, count_ones (ta_chars t AND mask i))) (filter (bit (ta_tabs t)) [0..<128])"
proof (induction t rule: tabs_all.induct)
  case (1 t)
  show ?case
  proof (cases "ta_tabs t = 0")
    case True
    then show ?thesis by (subst tabs_all.simps) (simp add: tabs_next_def)
  next
    case False
    let ?m = "trailing_zeros (ta_tabs t)"
    let ?t = "t\<lparr>ta_tabs := ta_tabs t XOR push_bit ?m 1\<rparr>"
    have item: "tabs_next t = Some ((?m, count_ones (ta_chars t AND mask ?m)), ?t)"
      unfolding tabs_next_def Let_def mask_word using False by simp
    have "tabs_all t = (?m, count_ones (ta_chars t AND mask ?m)) # tabs_all ?t"
      by (subst tabs_all.simps) (simp only: item option.case prod.case)
    then show ?thesis using 1 [OF item refl] lowest_bit [OF False] by simp
  qed
qed

section \<open>Properties\<close>

text \<open>C21: Clipping UTF-16 points.  For any point, in the text or not, \<open>clip_point_utf16\<close> with the left bias,
  \<open>unclipped_point_utf16_to_point\<close> and the clipping \<open>point_utf16_to_offset\<close> return, without a panic in any build, the same
  boundary: the last one whose UTF-16 point is not after it.  With the right bias it is the first one whose point is not
  before it, if that is in the same row, and else the last one before it.\<close>

theorem slice_clip_utf16:
  assumes s: "slice_ok s"
  shows "(\<exists>i. point_floor (sl_text s) p i \<and>
      sl_clip_point_utf16 debug s p BLeft = Some (point_utf16_at (sl_text s) i) \<and>
      sl_unclipped_point_utf16_to_point debug s p = Some (point_at (sl_text s) i) \<and>
      sl_point_utf16_to_offset debug s p True = Some i) \<and>
    (\<exists>i. sl_clip_point_utf16 debug s p BRight = Some (point_utf16_at (sl_text s) i) \<and>
      (point_ceil (sl_text s) p i \<and> pt_row (point_utf16_at (sl_text s) i) = pt_row p \<or>
       point_floor (sl_text s) p i \<and> (\<forall>j. str_is_char_boundary (sl_text s) j \<longrightarrow>
         pt_row (point_utf16_at (sl_text s) j) = pt_row p \<longrightarrow> point_utf16_at (sl_text s) j < p)))"
proof
  show "\<exists>i. point_floor (sl_text s) p i \<and>
      sl_clip_point_utf16 debug s p BLeft = Some (point_utf16_at (sl_text s) i) \<and>
      sl_unclipped_point_utf16_to_point debug s p = Some (point_at (sl_text s) i) \<and>
      sl_point_utf16_to_offset debug s p True = Some i"
    by (rule slice_clip_left [OF s, of p debug]) blast
  show "\<exists>i. sl_clip_point_utf16 debug s p BRight = Some (point_utf16_at (sl_text s) i) \<and>
      (point_ceil (sl_text s) p i \<and> pt_row (point_utf16_at (sl_text s) i) = pt_row p \<or>
       point_floor (sl_text s) p i \<and> (\<forall>j. str_is_char_boundary (sl_text s) j \<longrightarrow>
         pt_row (point_utf16_at (sl_text s) j) = pt_row p \<longrightarrow> point_utf16_at (sl_text s) j < p))"
    by (rule slice_clip_right [OF s, of debug p]) blast
qed

theorem slice_clip_utf16_witness:
  "\<exists>i. point_floor sample_rows (Point 0 2) i \<and>
     sl_clip_point_utf16 True sample_slice (Point 0 2) BLeft = Some (point_utf16_at sample_rows i) \<and>
     sl_point_utf16_to_offset True sample_slice (Point 0 2) True = Some i"
  using slice_clip_utf16 [OF sample_slice(1), of "Point 0 2" True] by (auto simp: sample_slice(2))

text \<open>C22: Clipping points to grapheme clusters.  When the library accepts the ends of a string as boundaries, \<open>clip_point\<close>
  returns for any point: its loop ends at a character boundary of the row of the point, on the side of the bias (the
  last position of the row or of the text when the point is after it), and clipping the result again changes nothing.\<close>

theorem slice_clip_point:
  assumes s: "slice_ok s" and g: "\<And>l. grapheme l 0 \<and> grapheme l (length l)"
  shows "\<exists>i. str_is_char_boundary (sl_text s) i \<and> sl_clip_point grapheme debug s p b = Some (point_at (sl_text s) i) \<and>
    (if b = BLeft then point_at (sl_text s) i \<le> p
     else p \<le> point_at (sl_text s) i \<or> (\<forall>j \<le> length (sl_text s). i < j \<longrightarrow> p < point_at (sl_text s) j)) \<and>
    (pt_row p \<le> rows (sl_text s) \<longrightarrow> pt_row (point_at (sl_text s) i) = pt_row p) \<and>
    sl_clip_point grapheme debug s (point_at (sl_text s) i) b' = Some (point_at (sl_text s) i)"
proof (cases "rows (sl_text s) < pt_row p")
  case True
  let ?t = "sl_text s" and ?n = "length (sl_text s)"
  obtain k line where r: "row_of ?t (rows ?t) k (sl_text line)" and ok: "slice_ok line"
      and range: "sl_offset_range_for_row debug s (rows ?t) = Some (k, k + length (sl_text line))"
      and line: "sl_slice debug s k (k + length (sl_text line)) = Some line"
    by (rule slice_row [OF s order_refl, of debug])
  have e: "k + length (sl_text line) = ?n" using row_of_text [OF r] row_of_outside(2) [OF r, of ?n] by (cases "k + length (sl_text line) = ?n") auto
  have p: "point_at ?t ?n = Point (rows ?t) (length (sl_text line))" using row_of_utf16(2) [OF r order_refl] e by simp
  have "sl_clip_point grapheme debug s (point_at ?t ?n) b' = Some (point_at ?t ?n)"
    unfolding p by (rule clip_row_fixed [OF s ok range line order_refl]) (simp_all add: clip_fixed_def)
  moreover have "sl_clip_point grapheme debug s p b = Some (point_at ?t ?n)"
    using True by (simp add: sl_clip_point_def slice_lines [OF s] point_at_def)
  moreover have "point_at ?t ?n \<le> p" using True by (cases p) (simp add: point_at_def)
  ultimately show ?thesis using True by (intro exI [of _ ?n]) simp
next
  case False
  then have row: "pt_row p \<le> rows (sl_text s)" by simp
  let ?t = "sl_text s"
  obtain k line where r: "row_of ?t (pt_row p) k (sl_text line)" and ok: "slice_ok line"
      and range: "sl_offset_range_for_row debug s (pt_row p) = Some (k, k + length (sl_text line))"
      and line: "sl_slice debug s k (k + length (sl_text line)) = Some line"
    by (rule slice_row [OF s row, of debug])
  obtain c where c: "sl_clip_point grapheme debug s p b = Some (Point (pt_row p) c)" "c \<le> length (sl_text line)"
      "clip_fixed grapheme (sl_text line) c" "if b = BLeft then c \<le> pt_column p else min (pt_column p) (length (sl_text line)) \<le> c"
    by (rule clip_row [OF s ok range line row, of grapheme b]) (use g in auto)
  have q: "point_at ?t (k + c) = Point (pt_row p) c" by (rule row_of_utf16(2) [OF r c(2)])
  have after: "p < point_at ?t j" if "\<not> pt_column p \<le> c" "b \<noteq> BLeft" "j \<le> length ?t" "k + c < j" for j
  proof -
    have "c = length (sl_text line)" using that(1,2) c(2,4) by (simp add: min_def split: if_splits)
    then have "pt_row p < rows (take j ?t)" using row_of_outside(2) [OF r, of j] that(3,4) by simp
    then show ?thesis by (cases p) (simp add: point_at_def less_point_def)
  qed
  have "if b = BLeft then Point (pt_row p) c \<le> p else p \<le> Point (pt_row p) c \<or> (\<forall>j \<le> length ?t. k + c < j \<longrightarrow> p < point_at ?t j)"
    using c(4) after by (cases p) auto
  moreover have "str_is_char_boundary ?t (k + c)"
    using row_of_boundary [OF slice_okD(2) [OF s] r c(2)] clip_fixed_boundary [OF c(3,2)] by simp
  ultimately show ?thesis
    using c(1) clip_row_fixed [OF s ok range line row c(3,2)] by (intro exI [of _ "k + c"]) (simp add: q)
qed

text \<open>Every character is taken for a grapheme cluster.\<close>

theorem slice_clip_point_witness:
  "\<exists>i. str_is_char_boundary sample_rows i \<and> point_at sample_rows i \<le> Point 1 3 \<and>
     sl_clip_point str_is_char_boundary True sample_slice (Point 1 3) BLeft = Some (point_at sample_rows i)"
proof -
  have "str_is_char_boundary l 0 \<and> str_is_char_boundary l (length l)" for l by simp
  from slice_clip_point [where grapheme = str_is_char_boundary, OF sample_slice(1) this, of True "Point 1 3" BLeft]
  show ?thesis by (auto simp: sample_slice(2))
qed

text \<open>The tabs of a slice.  The iterator ends, and its items are the positions of the tabs of the text in order, each with
  the number of characters before it.\<close>

theorem slice_tabs:
  assumes s: "slice_ok s"
  shows "tabs_all (sl_tabs_iter s) =
    map (\<lambda>i. (i, length (str_chars (take i (sl_text s))))) (filter (\<lambda>i. sl_text s ! i = tab) [0..<length (sl_text s)])"
proof -
  let ?t = "sl_text s"
  note d = slice_okD [OF s]
  have split: "[0..<128] = [0..<length ?t] @ [length ?t..<128]"
    using d(1) upt_add_eq_append [of 0 "length ?t" "128 - length ?t"] by simp
  have "filter (bit (sl_tabs s)) [0..<length ?t] = filter (\<lambda>i. ?t ! i = tab) [0..<length ?t]"
    by (rule filter_cong) (simp_all add: bits_areD [OF d(7)])
  moreover have "filter (bit (sl_tabs s)) [length ?t..<128] = []" by (simp add: filter_empty_conv bits_areD [OF d(7)])
  ultimately have tabs: "filter (bit (sl_tabs s)) [0..<128] = filter (\<lambda>i. ?t ! i = tab) [0..<length ?t]"
    unfolding split filter_append by simp
  have "count_ones (sl_chars s AND mask i) = length (str_chars (take i ?t))" if i: "i < length ?t" "?t ! i = tab" for i
  proof -
    have b: "str_is_char_boundary ?t i" using i by (simp add: str_is_char_boundary_def boundary_byte)
    have "bits_are (sl_chars s AND mask i) (\<lambda>k. is_utf8_char_boundary (take i ?t ! k)) (length (take i ?t))"
      using bits_are_low [OF d(4), of i "\<lambda>k. is_utf8_char_boundary (take i ?t ! k)"] i(1) by simp
    from count_text [OF this] have "count_ones (sl_chars s AND mask i) = nchars (take i ?t)" using d(1) by (simp add: nchars_def)
    then show ?thesis using length_str_chars [of "take i ?t"] utf8_ok_split [OF d(2) b] by simp
  qed
  then show ?thesis by (simp add: tabs_all_bits sl_tabs_iter_def tabs)
qed

theorem slice_tabs_witness: "tabs_all (sl_tabs_iter sample_slice) = [(6, 3)]"
  using slice_tabs [OF sample_slice(1)]
  by (simp add: sample_slice(2)) (simp add: sample_rows_def sample_text_def boundary_byte upt_conv_Cons)

end
