(* ===== verification/Spec2Isabelle.thy ===== *)
theory Spec2Isabelle
  imports Zed_Prelude Zed_Clock Zed_Locator Zed_SumTree_Facts Zed_TreeMap Zed_Patch Zed_UndoMap
    Zed_OperationQueue Zed_History Zed_Subscription Zed_Selection Zed_Buffer_Edit_Facts Zed_Fragment_Tree
    Zed_Buffer_Undo Zed_Deferred Zed_Undo_Redo Zed_Buffer_Queries Zed_Chunk_Clip
begin

text \<open>
  A verification library for the text core of the editor in this repository: the replicated buffer of
  \<open>crates/text\<close> and what it stands on, the logical clocks of \<open>crates/clock\<close> and the balanced trees of
  \<open>crates/sum_tree\<close>.

  \<^bold>\<open>The program.\<close>  A buffer is a text that several replicas edit at the same time.  Every edit gets a Lamport
  timestamp and is an insertion of new bytes plus deletions of old ones; nothing is ever removed.  The
  snapshot of a buffer keeps the inserted bytes as a sequence of fragments (runs of one insertion, visible
  or not) in a sum tree, and the visible and the deleted bytes in two ropes in the same order.  A local
  edit walks a cursor over the fragments, splits, hides and inserts them, and yields an operation; the
  other replicas apply the operation to their own fragments.  Undo is an operation that raises counters
  of edits in the undo map.  A history groups the edits of a replica in transactions.  Operations that
  arrive before those they depend on wait in a queue.  Patches describe what changed in the visible text
  and are composed for the subscribers.

  \<^bold>\<open>Theories and code.\<close>
  \<^item> \<open>Zed_Prelude\<close>: lemmas on lists, words and option values shared by the others.
  \<^item> \<open>Zed_Clock\<close> (\<open>clock.rs\<close>): replica ids, \<open>Lamport\<close> with its order, and the version vectors \<open>Global\<close> at
    their widths (\<open>u16\<close>, \<open>u32\<close>), also as the type \<open>version\<close> of the vectors in normal form.
  \<^item> \<open>Zed_Locator\<close> (\<open>locator.rs\<close>): the dense identifiers of fragments, \<open>u64\<close> digits with shifts and
    saturating subtraction as written.
  \<^item> \<open>Zed_SumTree\<close>, \<open>_Build\<close>, \<open>_Find\<close>, \<open>_Cursor\<close>, \<open>_Prev\<close>, \<open>_Filter\<close>, \<open>_Iter\<close>, \<open>_Keyed\<close>, \<open>_Facts\<close>
    (\<open>sum_tree.rs\<close>, \<open>cursor.rs\<close>): the B+ tree with cached summaries over a record of summary operations
    (the trait \<open>Summary\<close>); the capacity of a node and of the cursor's stack and every
    \<open>unwrap\<close>, index and assertion are errors of the model.
  \<^item> \<open>Zed_TreeMap\<close> (\<open>tree_map.rs\<close>), \<open>Zed_OperationQueue\<close> (\<open>operation_queue.rs\<close>), \<open>Zed_UndoMap\<close>
    (\<open>undo_map.rs\<close>): the keyed trees of the buffer.
  \<^item> \<open>Zed_Patch\<close> (\<open>patch.rs\<close>), \<open>Zed_Subscription\<close> (\<open>subscription.rs\<close>): edits between two texts, their
    composition and their publication.
  \<^item> \<open>Zed_History\<close> (\<open>History\<close> in \<open>text.rs\<close>), \<open>Zed_Selection\<close> (\<open>selection.rs\<close>).
  \<^item> \<open>Zed_Fragment\<close> (fragments, \<open>RopeBuilder\<close>, \<open>push_fragments_for_insertion\<close>), \<open>Zed_Fragment_Tree\<close>
    (\<open>FragmentSummary\<close> and the dimensions over it), \<open>Zed_Buffer_Edit\<close> (\<open>BufferSnapshot::apply_edit_internal\<close>),
    \<open>Zed_Remote_Edit\<close> (\<open>Buffer::apply_remote_edit\<close>), \<open>Zed_Undo\<close> (\<open>fragment_ids_for_edits\<close>, \<open>apply_undo\<close>) and
    \<open>Zed_Buffer\<close> (the struct \<open>Buffer\<close> with its methods: creation, edit, \<open>apply_ops\<close> with deferral and
    retry, undo and redo, transactions, subscribers, waiters, edited snapshots), all in \<open>text.rs\<close>.
  \<^item> \<open>Zed_Anchor\<close> (\<open>anchor.rs\<close> and the anchor methods of \<open>BufferSnapshot\<close> in \<open>text.rs\<close>): creating, resolving
    and comparing anchors, in builds with and without debug assertions (an argument \<open>debug\<close>).
  \<^item> \<open>Zed_Edits\<close> (\<open>edits_since\<close>, the iterator \<open>Edits\<close>, \<open>has_edits_since\<close>, \<open>offsets_to_version\<close> in \<open>text.rs\<close>):
    what changed since a version.
  \<^item> \<open>crates/rope\<close>: \<open>Zed_Select\<close> (\<open>nth_set_bit\<close> of \<open>chunk.rs\<close>, with proofs), \<open>Zed_Chunk\<close>, \<open>Zed_Chunk_Query\<close>
    (\<open>Chunk\<close> and \<open>ChunkSlice\<close> of \<open>chunk.rs\<close>, \<open>point.rs\<close>), \<open>Zed_Chunk_Facts\<close> (their bitmaps describe the text),
    \<open>Zed_Text_Summary\<close> (\<open>TextSummary\<close> of \<open>rope.rs\<close>, with proofs); what the queries on slices compute:
    \<open>Zed_Chunk_Text\<close> (summaries), \<open>Zed_Chunk_Position\<close> (conversions), \<open>Zed_Chunk_Clip\<close> (clipping, tabs).
  \<^item> Specifications and proofs about these: \<open>Zed_Fragment_Text\<close> (cells, the invariant of a snapshot),
    \<open>Zed_Buffer_Edit_Steps\<close>, \<open>_Facts\<close> (local edits), \<open>Zed_Remote_Edit_Steps\<close>, \<open>_Facts\<close> (the specification
    \<open>weave\<close> and remote edits), \<open>Zed_Undo_Facts\<close>, \<open>Zed_Buffer_Invariant\<close>, \<open>Zed_Buffer_Undo\<close> (the invariant
    of a buffer, undo), \<open>Zed_Local_Weave\<close> (a local edit is a weave), \<open>Zed_Weave_Commute\<close> (concurrent weaves
    commute), \<open>Zed_Convergence\<close> (the abstract replica; causal orders of the same operations agree),
    \<open>Zed_Replica\<close>, \<open>Zed_Buffer_Effects\<close> (a buffer tracks a run of the abstract replica), \<open>Zed_Network\<close>,
    \<open>Zed_Replication\<close> (networks of buffers as a step relation, their invariant), \<open>Zed_Deferred\<close> (batches),
    \<open>Zed_Undo_Redo\<close>, \<open>Zed_Anchor_Facts\<close> (anchors are cells of a snapshot), \<open>Zed_Run_Order\<close> (the order of the
    cells is the same at all replicas and times), \<open>Zed_Anchor_Network\<close> (anchors in a network),
    \<open>Zed_Edits_Facts\<close> and \<open>Zed_Edits_Network\<close> (the edits since a version).
  \<^item> \<open>Zed_Buffer_Queries\<close> (\<open>edited_ranges_for_edit_ids\<close> and \<open>wait_for_anchors\<close> in \<open>text.rs\<close>, with proofs).

  \<^bold>\<open>Interfaces.\<close>  What an algorithm on trees needs of its client are locales: \<open>summary_laws\<close> and
  \<open>dimension_laws\<close> for summaries and dimensions (addition is associative and has a zero),
  \<open>seek_aggregate_laws\<close> for what a slice collects, \<open>two_dimensions\<close> for a seek by one component of a pair,
  \<open>keyed_order_laws\<close> and \<open>keyed_laws\<close> for trees sorted by key.  Each is interpreted on the definitions of the
  code: the undo map, the operation queue, the tree maps, the fragment tree and the version vectors.

  \<^bold>\<open>What is shown.\<close>
  \<^item> Networks: replicas with equal versions have the same text, whatever the order of delivery; the text of
    a replica is an abstract run over what it has observed; a replica that lacks an operation lacks one
    that it can apply, and \<open>apply_ops\<close> leaves only operations in its queue that lack a cause; undo and redo
    cancel.  A network has a replica for every id, all created from the same non-empty text of less than
    \<open>2 ^ 32\<close> bytes, and its steps are the methods of \<open>Zed_Buffer\<close>.
  \<^item> Anchors: an anchor made at an offset is resolved to it; it stays at its byte, and anchors keep their order,
    at every replica that has the insertion, at any later state of the network; \<open>Anchor::cmp\<close> compares offsets
    and biases.
  \<^item> Edits since a version: for the version of any earlier state of any replica they are a patch from its text at
    that time to the current text, and \<open>offsets_to_version\<close> follows it back.  The ranges of any set of edits are
    in order and hold every visible byte that one of these edits inserted.
  \<^item> Buffer: \<open>snapshot_ok\<close> and \<open>buffer_ok\<close> are the invariant (ropes are the bytes of the fragments, cells are
    distinct, ids increase, the index of insertions is right, the slices find the fragments of an edit, a
    fragment is visible as the counts say).  A local edit keeps it, replaces the ranges in the visible
    text, and its patch and operation describe that.  A remote edit keeps it and refines \<open>weave\<close>, a
    specification over the list of all bytes.  An undo keeps it and shows exactly what the counts say.
    New text is bounded by \<open>2 ^ 32\<close> bytes, the width of the offset of an insertion.
  \<^item> Rope chunks: joining and cutting chunks keeps 128-bit bitmaps that describe the text; the search for the
    n-th set bit is right on every word, without overflow; summaries of texts add up.  What a slice computes
    from its bitmaps is what its text says: the summary; the point and the UTF-16 position of an offset, with the
    conversions back; clipping ends at the boundary that the bias asks for; the tabs.
  \<^item> Trees: every operation returns (the loops are \<open>partial_function\<close>s and their results are proved to
    exist), keeps the tree balanced with exact summaries, and refines the operation on the list of items.
    Searches agree with a linear scan; the cursor's moves are proved on a view of the items before and
    after it.  A cursor's stack holds 16 entries, so these theorems ask \<open>st_height t < 16\<close>, and the
    theorems on networks ask it of the undo map, the operations and the queue (\<open>low\<close>, \<open>shallow_op\<close>,
    \<open>batch_low\<close>, \<open>undo_low\<close>); the witnesses evaluate these conditions.  Clocks are asked not to be about
    to wrap (\<open>ticks\<close>).
  \<^item> Clocks, locators: lattice laws of version vectors, order laws, density of locators.
  \<^item> Patches: a patch relates two texts; \<open>compose\<close> returns and relates the first to the third.
  \<^item> Undo map: the state depends on the set of undo operations received only.  History: undo and
    redo are inverse, and no operation panics in a reachable history.

  \<^bold>\<open>Choices.\<close>  Offsets of type \<open>usize\<close> are \<open>nat\<close>; narrower casts are written out (\<open>as_u32\<close>).  Texts and ropes
  are lists of bytes.  The edits work on the item list of the fragment tree, and
  \<open>Zed_Fragment_Tree\<close> shows that slicing the tree is splitting that list.  No model uses fuel.
  Sharing through \<open>Arc\<close>, locks, and the order in which a thread pool runs chunks are not observable and left out.

  \<^bold>\<open>Not modelled.\<close>  The rope as a tree of chunks, its cursor and iterators, and the conversion and
  clipping of offsets across chunks (in the buffer theories a rope is the list of its bytes); line endings; the awaiting of a channel.
  Everything outside the three crates: editor, display map, language and project layers,
  workspace, agents, collaboration server and the GUI framework, which are asynchronous glue
  around external services, files and rendering.
\<close>

end
